(* ===== verification/Prelude.thy ===== *)
theory Prelude
  imports Main "HOL-Library.Word" "HOL-Library.Monad_Syntax"
begin

text \<open>
  Shared vocabulary of the development: Rust's \<open>Result\<close>, checked and wrapping integer
  arithmetic at the widths the code uses, big-endian byte codecs, panicking array access, and the
  generic list lemmas the components rely on.

  Conventions. Unsigned integers are \<^typ>\<open>nat\<close> and signed ones \<^typ>\<open>int\<close>; every checked or
  wrapping operation of the source is written out at its width (\<open>checked_add 64\<close>,
  \<open>wrapping_add\<close>), and each component states as an invariant that its fields stay in range.
  \<open>usize\<close> is the 64-bit \<open>usize\<close> of the supported platforms. A value of type \<open>'a option\<close>
  returned by an operation whose source may panic is \<open>None\<close> exactly when the source panics
  (a failed \<open>expect\<close>, an index out of range) or does not return.
\<close>

section \<open>Result values\<close>

datatype ('a, 'e) result = Ok 'a | Err 'e

primrec is_ok :: "('a, 'e) result \<Rightarrow> bool" where
  "is_ok (Ok a) = True"
| "is_ok (Err e) = False"

primrec map_err :: "('e \<Rightarrow> 'f) \<Rightarrow> ('a, 'e) result \<Rightarrow> ('a, 'f) result" where
  "map_err f (Ok a) = Ok a"
| "map_err f (Err e) = Err (f e)"

primrec ok_or :: "'e \<Rightarrow> 'a option \<Rightarrow> ('a, 'e) result" where
  "ok_or e None = Err e"
| "ok_or e (Some a) = Ok a"

primrec and_then :: "('a, 'e) result \<Rightarrow> ('a \<Rightarrow> ('b, 'e) result) \<Rightarrow> ('b, 'e) result" where
  "and_then (Ok a) f = f a"
| "and_then (Err e) f = Err e"

section \<open>Machine integers\<close>

type_synonym byte = "8 word"

definition U16_MAX :: nat where "U16_MAX = 65535"
definition U32_MAX :: nat where "U32_MAX = 4294967295"
definition U64_MAX :: nat where "U64_MAX = 18446744073709551615"

definition u64_ok :: "nat \<Rightarrow> bool" where "u64_ok n \<longleftrightarrow> n < 2 ^ 64"
definition u32_ok :: "nat \<Rightarrow> bool" where "u32_ok n \<longleftrightarrow> n < 2 ^ 32"
definition i64_ok :: "int \<Rightarrow> bool" where "i64_ok n \<longleftrightarrow> - (2 ^ 63) \<le> n \<and> n < 2 ^ 63"

text \<open>\<open>usize::MAX\<close>, the list terminator of the slot chains.\<close>

definition NIL :: nat where "NIL = 18446744073709551615"

definition checked_add :: "nat \<Rightarrow> nat \<Rightarrow> nat \<Rightarrow> nat option" where
  "checked_add w a b = (if a + b < 2 ^ w then Some (a + b) else None)"

definition checked_sub :: "nat \<Rightarrow> nat \<Rightarrow> nat option" where
  "checked_sub a b = (if b \<le> a then Some (a - b) else None)"

definition checked_mul :: "nat \<Rightarrow> nat \<Rightarrow> nat \<Rightarrow> nat option" where
  "checked_mul w a b = (if a * b < 2 ^ w then Some (a * b) else None)"

definition in_range_i :: "nat \<Rightarrow> int \<Rightarrow> bool" where
  "in_range_i w n \<longleftrightarrow> - (2 ^ (w - 1)) \<le> n \<and> n < 2 ^ (w - 1)"

definition checked_iadd :: "nat \<Rightarrow> int \<Rightarrow> int \<Rightarrow> int option" where
  "checked_iadd w a b = (if in_range_i w (a + b) then Some (a + b) else None)"

definition checked_isub :: "nat \<Rightarrow> int \<Rightarrow> int \<Rightarrow> int option" where
  "checked_isub w a b = (if in_range_i w (a - b) then Some (a - b) else None)"

definition checked_abs :: "nat \<Rightarrow> int \<Rightarrow> int option" where
  "checked_abs w a = (if in_range_i w \<bar>a\<bar> then Some \<bar>a\<bar> else None)"

text \<open>\<open>i128::try_from(u128)\<close>, \<open>u64::try_from(i64)\<close>, \<open>u128::try_from(i64)\<close>.\<close>

definition i128_try_from :: "nat \<Rightarrow> int option" where
  "i128_try_from n = (if n < 2 ^ 127 then Some (int n) else None)"

definition u64_try_from :: "int \<Rightarrow> nat option" where
  "u64_try_from i = (if 0 \<le> i \<and> i < 2 ^ 64 then Some (nat i) else None)"

definition u32_try_from :: "nat \<Rightarrow> nat option" where
  "u32_try_from n = (if n < 2 ^ 32 then Some n else None)"

definition wrapping_add :: "nat \<Rightarrow> nat \<Rightarrow> nat \<Rightarrow> nat" where
  "wrapping_add w a b = (a + b) mod 2 ^ w"

definition wrapping_sub :: "nat \<Rightarrow> nat \<Rightarrow> nat \<Rightarrow> nat" where
  "wrapping_sub w a b = (a + 2 ^ w - b) mod 2 ^ w"

definition wrapping_mul :: "nat \<Rightarrow> nat \<Rightarrow> nat \<Rightarrow> nat" where
  "wrapping_mul w a b = (a * b) mod 2 ^ w"

section \<open>Big-endian codecs\<close>

text \<open>\<open>to_be_bytes\<close> of a \<open>k\<close>-byte unsigned integer and its inverse \<open>from_be_bytes\<close>.\<close>

fun be_bytes :: "nat \<Rightarrow> nat \<Rightarrow> byte list" where
  "be_bytes 0 n = []"
| "be_bytes (Suc k) n = be_bytes k (n div 256) @ [word_of_nat n]"

definition from_be :: "byte list \<Rightarrow> nat" where
  "from_be bs = foldl (\<lambda>acc b. acc * 256 + unat b) 0 bs"

text \<open>The two's complement reading of an \<open>i64\<close> and back.\<close>

definition u64_of_i64 :: "int \<Rightarrow> nat" where
  "u64_of_i64 i = nat (i mod 2 ^ 64)"

definition i64_of_u64 :: "nat \<Rightarrow> int" where
  "i64_of_u64 n = (if n < 2 ^ 63 then int n else int n - 2 ^ 64)"

text \<open>\<open>&bs[a..b]\<close>, for ranges the callers have proved in bounds.\<close>

definition subslice :: "nat \<Rightarrow> nat \<Rightarrow> 'a list \<Rightarrow> 'a list" where
  "subslice a b xs = take (b - a) (drop a xs)"

section \<open>Arrays\<close>

text \<open>Indexing that panics out of range is \<open>None\<close> there, and so is \<open>get\<close> in the source.\<close>

definition nth_opt :: "'a list \<Rightarrow> nat \<Rightarrow> 'a option" where
  "nth_opt xs i = (if i < length xs then Some (xs ! i) else None)"

text \<open>\<open>xs.copy_within(a..b, d)\<close> for ranges in bounds.\<close>

definition copy_within :: "'a list \<Rightarrow> nat \<Rightarrow> nat \<Rightarrow> nat \<Rightarrow> 'a list" where
  "copy_within xs a b d = take d xs @ subslice a b xs @ drop (d + (b - a)) xs"

text \<open>
  A singly linked chain through slot indices: \<open>head\<close> is the first index, \<open>nx\<close> reads
  the link stored in a slot, and \<^const>\<open>NIL\<close> ends the chain.
\<close>

fun links :: "(nat \<Rightarrow> nat) \<Rightarrow> nat \<Rightarrow> nat list \<Rightarrow> bool" where
  "links nx head [] \<longleftrightarrow> head = NIL"
| "links nx head (x # xs) \<longleftrightarrow> head = x \<and> links nx (nx x) xs"

text \<open>The fresh free list of a slot array of size \<open>n\<close>: slot \<open>i\<close> links to \<open>i + 1\<close>.\<close>

definition fresh_link :: "nat \<Rightarrow> nat \<Rightarrow> nat" where
  "fresh_link n i = (if i + 1 < n then i + 1 else NIL)"

section \<open>Lemma collections and generic lemmas\<close>

named_theorems checked_defs
named_theorems bounds_defs

declare checked_add_def [checked_defs] checked_sub_def [checked_defs] checked_mul_def [checked_defs]
  checked_iadd_def [checked_defs] checked_isub_def [checked_defs] checked_abs_def [checked_defs]
  i128_try_from_def [checked_defs] u64_try_from_def [checked_defs] u32_try_from_def [checked_defs]

declare u64_ok_def [bounds_defs] u32_ok_def [bounds_defs] i64_ok_def [bounds_defs]
  U16_MAX_def [bounds_defs] U32_MAX_def [bounds_defs] U64_MAX_def [bounds_defs] NIL_def [bounds_defs]

lemma checked_add_Some [simp]:
  "checked_add w a b = Some c \<longleftrightarrow> c = a + b \<and> a + b < 2 ^ w"
  by (auto simp: checked_add_def)

lemma checked_sub_Some [simp]: "checked_sub a b = Some c \<longleftrightarrow> c = a - b \<and> b \<le> a"
  by (auto simp: checked_sub_def)

lemma checked_sub_None [simp]: "checked_sub a b = None \<longleftrightarrow> a < b"
  by (auto simp: checked_sub_def)

lemma nth_opt_Some: "nth_opt xs i = Some x \<longleftrightarrow> i < length xs \<and> xs ! i = x"
  by (auto simp: nth_opt_def)

lemma nth_opt_None: "nth_opt xs i = None \<longleftrightarrow> length xs \<le> i"
  by (auto simp: nth_opt_def)

lemma nth_opt_update:
  "i < length xs \<Longrightarrow> nth_opt (xs[i := v]) j = (if j = i then Some v else nth_opt xs j)"
  by (auto simp: nth_opt_def)

lemma bind_eq_Some: "Option.bind m f = Some y \<longleftrightarrow> (\<exists>x. m = Some x \<and> f x = Some y)"
  by (cases m) auto

lemma from_be_Nil [simp]: "from_be [] = 0"
  by (simp add: from_be_def)

lemma from_be_snoc [simp]: "from_be (bs @ [b]) = from_be bs * 256 + unat b"
  by (simp add: from_be_def)

lemma length_be_bytes [simp]: "length (be_bytes k n) = k"
  by (induction k arbitrary: n) auto

lemma from_be_be_bytes_mod: "from_be (be_bytes k n) = n mod 256 ^ k"
proof (induction k arbitrary: n)
  case 0
  then show ?case by simp
next
  case (Suc k)
  have "from_be (be_bytes (Suc k) n) = (n div 256) mod 256 ^ k * 256 + n mod 256"
    by (simp add: Suc unat_of_nat take_bit_eq_mod)
  also have "\<dots> = n mod (256 * 256 ^ k)"
    by (simp add: mod_mult2_eq mult.commute)
  finally show ?case by simp
qed

lemma from_be_be_bytes: "n < 256 ^ k \<Longrightarrow> from_be (be_bytes k n) = n"
  by (simp add: from_be_be_bytes_mod)

lemma be_bytes_from_be: "be_bytes (length bs) (from_be bs) = bs"
proof (induction bs rule: rev_induct)
  case Nil
  then show ?case by simp
next
  case (snoc b bs)
  have "unat b < 256" using unsigned_less [of b] by simp
  then have "(from_be bs * 256 + unat b) div 256 = from_be bs" by simp
  moreover have "word_of_nat (from_be bs * 256 + unat b) = b"
  proof -
    have "(word_of_nat (from_be bs * 256 + unat b) :: byte)
        = word_of_nat (from_be bs) * 256 + b" by simp
    also have "(256 :: byte) = 0" by simp
    finally show ?thesis by simp
  qed
  ultimately show ?case using snoc by (simp del: of_nat_add of_nat_mult)
qed

lemma from_be_less: "from_be bs < 256 ^ length bs"
proof (induction bs rule: rev_induct)
  case Nil
  then show ?case by simp
next
  case (snoc b bs)
  have "unat b < 256" using unsigned_less [of b] by simp
  moreover have "Suc (from_be bs) \<le> 256 ^ length bs" using snoc by simp
  then have "Suc (from_be bs) * 256 \<le> 256 ^ length bs * 256" by (rule mult_le_mono1)
  ultimately show ?case by simp
qed

lemma i64_of_u64_of_i64: "i64_ok i \<Longrightarrow> i64_of_u64 (u64_of_i64 i) = i"
proof -
  assume a: "i64_ok i"
  show ?thesis
  proof (cases "0 \<le> i")
    case True
    with a show ?thesis by (simp add: i64_of_u64_def u64_of_i64_def i64_ok_def)
  next
    case False
    have "i mod 2 ^ 64 = (i + 2 ^ 64) mod 2 ^ 64" by simp
    also have "\<dots> = i + 2 ^ 64" using False a by (intro mod_pos_pos_trivial) (auto simp: i64_ok_def)
    finally show ?thesis using a False by (simp add: i64_of_u64_def u64_of_i64_def i64_ok_def)
  qed
qed

lemma u64_of_i64_less: "u64_of_i64 i < 256 ^ 8"
  by (simp add: u64_of_i64_def nat_less_iff)

lemma i64_of_u64_ok: "n < 2 ^ 64 \<Longrightarrow> i64_ok (i64_of_u64 n)"
  by (auto simp: i64_of_u64_def i64_ok_def)

lemma u64_of_i64_of_u64: "n < 2 ^ 64 \<Longrightarrow> u64_of_i64 (i64_of_u64 n) = n"
  by (auto simp: i64_of_u64_def u64_of_i64_def nat_eq_iff2)

lemma length_subslice [simp]: "length (subslice a b xs) = min (b - a) (length xs - a)"
  by (simp add: subslice_def)

lemma subslice_append:
  assumes "a \<le> b" and "b \<le> c"
  shows "subslice a b xs @ subslice b c xs = subslice a c xs"
proof -
  have "c - a = (b - a) + (c - b)" using assms by simp
  then have "take (c - a) (drop a xs) = take (b - a) (drop a xs) @ take (c - b) (drop (b - a) (drop a xs))"
    by (simp only: take_add)
  then show ?thesis using assms by (simp add: subslice_def)
qed

lemma subslice_full [simp]: "length xs \<le> b \<Longrightarrow> subslice 0 b xs = xs"
  by (simp add: subslice_def)

lemma set_list_update_other: "i < length xs \<Longrightarrow> j \<noteq> i \<Longrightarrow> (xs[i := v]) ! j = xs ! j"
  by simp

lemma and_then_Ok_iff: "and_then m f = Ok y \<longleftrightarrow> (\<exists>x. m = Ok x \<and> f x = Ok y)"
  by (cases m) auto

lemma and_then_Err_iff: "and_then m f = Err e \<longleftrightarrow> m = Err e \<or> (\<exists>x. m = Ok x \<and> f x = Err e)"
  by (cases m) auto

lemma ok_or_Ok [simp]: "ok_or e m = Ok x \<longleftrightarrow> m = Some x"
  by (cases m) auto

lemma ok_or_Err [simp]: "ok_or e m = Err e' \<longleftrightarrow> m = None \<and> e' = e"
  by (cases m) auto

lemma map_err_Ok [simp]: "map_err f m = Ok x \<longleftrightarrow> m = Ok x"
  by (cases m) auto

lemma links_cong: "(\<And>x. x \<in> set xs \<Longrightarrow> nx x = nx' x) \<Longrightarrow> links nx h xs = links nx' h xs"
  by (induction xs arbitrary: h) auto

lemma links_update: "v \<notin> set xs \<Longrightarrow> links (\<lambda>u. f (ys[v := y] ! u)) h xs = links (\<lambda>u. f (ys ! u)) h xs"
  by (rule links_cong) (metis nth_list_update_neq)

lemma sum_list_update_other:
  "v \<notin> set xs \<Longrightarrow> sum_list (map (\<lambda>i. f (ys[v := y] ! i)) xs) = sum_list (map (\<lambda>i. f (ys ! i)) xs)"
  by (rule arg_cong [where f = sum_list], rule map_cong [OF refl]) (metis nth_list_update_neq)

lemma links_NIL: "NIL \<notin> set xs \<Longrightarrow> links nx h xs \<Longrightarrow> h = NIL \<longleftrightarrow> xs = []"
  by (cases xs) auto

lemma links_fresh_aux: "d < n \<Longrightarrow> links (fresh_link n) d [d..<n]"
proof (induction "n - d" arbitrary: d)
  case 0
  then show ?case by simp
next
  case (Suc x d)
  show ?case
  proof (cases "Suc d < n")
    case True
    with Suc.hyps(1) [of "Suc d"] Suc.hyps(2) have "links (fresh_link n) (Suc d) [Suc d..<n]" by simp
    with True show ?thesis by (simp add: upt_conv_Cons fresh_link_def)
  next
    case False
    with Suc.prems have "[d..<n] = [d]" by (simp add: upt_conv_Cons)
    with False show ?thesis by (simp add: fresh_link_def)
  qed
qed

lemma links_fresh: "links (fresh_link n) (if n = 0 then NIL else 0) [0..<n]"
  using links_fresh_aux [of 0 n] by auto

end
