(* ===== verification/Types.thy ===== *)
theory Types
  imports Prelude
begin

text \<open>
  The domain types of \<open>crates/hft-types/src/lib.rs\<close>: identifiers, order messages, execution
  reports, and the fixed-capacity report buffer. A newtype such as \<open>OrderId(u64)\<close> is the
  integer it wraps; \<open>new_order_ok\<close> and its siblings say that the fields of a message are
  values of their Rust types.
\<close>

section \<open>Identifiers and enumerations\<close>

type_synonym OrderId = nat
type_synonym AccountId = nat
type_synonym InstrumentId = nat
type_synonym PriceTicks = int
type_synonym Quantity = nat
type_synonym SequenceNumber = nat

datatype Side = Buy | Sell

datatype TimeInForce = Gtc | Ioc | Fok | PostOnly

primrec side_code :: "Side \<Rightarrow> byte" where
  "side_code Buy = 1"
| "side_code Sell = 2"

primrec tif_code :: "TimeInForce \<Rightarrow> byte" where
  "tif_code Gtc = 1"
| "tif_code Ioc = 2"
| "tif_code Fok = 3"
| "tif_code PostOnly = 4"

primrec opposite :: "Side \<Rightarrow> Side" where
  "opposite Buy = Sell"
| "opposite Sell = Buy"

section \<open>Messages\<close>

record NewOrder =
  no_order_id :: OrderId
  no_account_id :: AccountId
  no_instrument_id :: InstrumentId
  no_price :: PriceTicks
  no_quantity :: Quantity
  no_sequence :: SequenceNumber
  no_side :: Side
  no_time_in_force :: TimeInForce

record ReplaceOrder =
  ro_order_id :: OrderId
  ro_account_id :: AccountId
  ro_instrument_id :: InstrumentId
  ro_sequence :: SequenceNumber
  ro_price :: PriceTicks
  ro_quantity :: Quantity

record CancelOrder =
  co_order_id :: OrderId
  co_account_id :: AccountId
  co_instrument_id :: InstrumentId
  co_sequence :: SequenceNumber

datatype Command =
    CmdNewOrder NewOrder
  | CmdCancelOrder CancelOrder
  | CmdReplaceOrder ReplaceOrder

fun command_instrument_id :: "Command \<Rightarrow> InstrumentId" where
  "command_instrument_id (CmdNewOrder order) = no_instrument_id order"
| "command_instrument_id (CmdCancelOrder cancel) = co_instrument_id cancel"
| "command_instrument_id (CmdReplaceOrder replace) = ro_instrument_id replace"

fun command_sequence :: "Command \<Rightarrow> SequenceNumber" where
  "command_sequence (CmdNewOrder order) = no_sequence order"
| "command_sequence (CmdCancelOrder cancel) = co_sequence cancel"
| "command_sequence (CmdReplaceOrder replace) = ro_sequence replace"

definition new_order_ok :: "NewOrder \<Rightarrow> bool" where
  "new_order_ok o1 \<longleftrightarrow> u64_ok (no_order_id o1) \<and> u32_ok (no_account_id o1) \<and>
     u32_ok (no_instrument_id o1) \<and> i64_ok (no_price o1) \<and> u64_ok (no_quantity o1) \<and>
     u64_ok (no_sequence o1)"

definition cancel_order_ok :: "CancelOrder \<Rightarrow> bool" where
  "cancel_order_ok c \<longleftrightarrow> u64_ok (co_order_id c) \<and> u32_ok (co_account_id c) \<and>
     u32_ok (co_instrument_id c) \<and> u64_ok (co_sequence c)"

definition replace_order_ok :: "ReplaceOrder \<Rightarrow> bool" where
  "replace_order_ok r \<longleftrightarrow> u64_ok (ro_order_id r) \<and> u32_ok (ro_account_id r) \<and>
     u32_ok (ro_instrument_id r) \<and> u64_ok (ro_sequence r) \<and> i64_ok (ro_price r) \<and>
     u64_ok (ro_quantity r)"

fun command_ok :: "Command \<Rightarrow> bool" where
  "command_ok (CmdNewOrder order) = new_order_ok order"
| "command_ok (CmdCancelOrder cancel) = cancel_order_ok cancel"
| "command_ok (CmdReplaceOrder replace) = replace_order_ok replace"

section \<open>Outcomes\<close>

datatype RejectReason =
    InvalidInstrument | InvalidPrice | InvalidQuantity | QuantityLimit | NotionalLimit
  | PositionLimit | OpenOrderLimit | PriceCollar | DuplicateOrderId | UnknownOrder
  | NotOrderOwner | KillSwitch | UnknownAccount | ArithmeticOverflow | OrderCapacity
  | PriceLevelCapacity | PriceLevelOrderCapacity | ReportCapacity | InsufficientLiquidity
  | PostOnlyWouldTrade | ReplaceWouldCross

datatype OrderState = Accepted | PartiallyFilled | Filled | Rejected RejectReason

record ExecutionReport =
  er_maker_order_id :: OrderId
  er_taker_order_id :: OrderId
  er_instrument_id :: InstrumentId
  er_price :: PriceTicks
  er_quantity :: Quantity
  er_sequence :: SequenceNumber

record MatchSummary =
  ms_state :: OrderState
  ms_filled_quantity :: Quantity
  ms_resting_quantity :: Quantity
  ms_discarded_quantity :: Quantity
  ms_report_count :: nat

section \<open>The report buffer\<close>

record ReportBuffer =
  rb_entries :: "ExecutionReport list"
  rb_len :: nat

definition EMPTY_REPORT :: ExecutionReport where
  "EMPTY_REPORT = \<lparr>er_maker_order_id = 0, er_taker_order_id = 0, er_instrument_id = 0,
     er_price = 0, er_quantity = 0, er_sequence = 0\<rparr>"

definition reports_new :: "nat \<Rightarrow> ReportBuffer" where
  "reports_new N = \<lparr>rb_entries = replicate N EMPTY_REPORT, rb_len = 0\<rparr>"

definition reports_clear :: "ReportBuffer \<Rightarrow> ReportBuffer" where
  "reports_clear rb = rb\<lparr>rb_len := 0\<rparr>"

definition reports_push :: "ReportBuffer \<Rightarrow> ExecutionReport \<Rightarrow> (ReportBuffer, RejectReason) result" where
  "reports_push rb report =
     (if rb_len rb < length (rb_entries rb)
      then Ok (rb\<lparr>rb_entries := (rb_entries rb)[rb_len rb := report], rb_len := rb_len rb + 1\<rparr>)
      else Err ReportCapacity)"

definition reports_is_empty :: "ReportBuffer \<Rightarrow> bool" where
  "reports_is_empty rb \<longleftrightarrow> rb_len rb = 0"

definition reports_remaining_capacity :: "ReportBuffer \<Rightarrow> nat" where
  "reports_remaining_capacity rb = length (rb_entries rb) - rb_len rb"

definition reports_iter :: "ReportBuffer \<Rightarrow> ExecutionReport list" where
  "reports_iter rb = take (rb_len rb) (rb_entries rb)"

definition reports_eq :: "ReportBuffer \<Rightarrow> ReportBuffer \<Rightarrow> bool" where
  "reports_eq a b \<longleftrightarrow> reports_iter a = reports_iter b"

definition reports_ok :: "ReportBuffer \<Rightarrow> bool" where
  "reports_ok rb \<longleftrightarrow> rb_len rb \<le> length (rb_entries rb)"

section \<open>Lemmas\<close>

lemma opposite_opposite [simp]: "opposite (opposite s) = s"
  by (cases s) auto

lemma opposite_neq [simp]: "opposite s \<noteq> s" "s \<noteq> opposite s"
  by (cases s; simp)+

lemma other_side: "s' \<noteq> s \<Longrightarrow> s' = opposite s"
  by (cases s; cases s') auto

lemma reports_new_ok [simp]: "reports_ok (reports_new N)"
  by (simp add: reports_ok_def reports_new_def)

lemma reports_iter_new [simp]: "reports_iter (reports_new N) = []"
  by (simp add: reports_iter_def reports_new_def)

lemma reports_iter_clear [simp]: "reports_iter (reports_clear rb) = []"
  by (simp add: reports_iter_def reports_clear_def)

lemma reports_clear_ok [simp]: "reports_ok (reports_clear rb)"
  by (simp add: reports_ok_def reports_clear_def)

lemma length_reports_iter: "reports_ok rb \<Longrightarrow> length (reports_iter rb) = rb_len rb"
  by (simp add: reports_iter_def reports_ok_def)

lemma reports_push_Ok:
  assumes "reports_ok rb" and "reports_push rb r = Ok rb'"
  shows "reports_ok rb'" and "reports_iter rb' = reports_iter rb @ [r]"
    and "rb_len rb' = rb_len rb + 1" and "length (rb_entries rb') = length (rb_entries rb)"
  using assms
  by (auto simp: reports_push_def reports_ok_def reports_iter_def take_Suc_conv_app_nth
      split: if_splits)

lemma reports_push_Err:
  "reports_push rb r = Err e \<longleftrightarrow> e = ReportCapacity \<and> length (rb_entries rb) \<le> rb_len rb"
  by (auto simp: reports_push_def)

end
