(* ===== verification/Wire.thy ===== *)
theory Wire
  imports Types
begin

text \<open>
  The wire protocol of \<open>crates/hft-wire/src/lib.rs\<close>: frame parsing with its validation
  order, the borrowed message views, and the three encoders. A borrowed message holds the bytes of
  the frame it was parsed from. \<open>RxFrame\<close> (\<open>crates/hft-io/src/lib.rs\<close>) is the byte
  list it borrows.
\<close>

section \<open>Constants and messages\<close>

definition PROTOCOL_VERSION :: byte where "PROTOCOL_VERSION = 2"
definition NEW_ORDER_TYPE :: byte where "NEW_ORDER_TYPE = 1"
definition CANCEL_ORDER_TYPE :: byte where "CANCEL_ORDER_TYPE = 2"
definition REPLACE_ORDER_TYPE :: byte where "REPLACE_ORDER_TYPE = 3"
definition NEW_ORDER_LEN :: nat where "NEW_ORDER_LEN = 46"
definition CANCEL_ORDER_LEN :: nat where "CANCEL_ORDER_LEN = 28"
definition REPLACE_ORDER_LEN :: nat where "REPLACE_ORDER_LEN = 44"

datatype ParseError =
    TruncatedHeader | UnsupportedVersion | UnknownMessageType | InvalidLength | InvalidSide
  | InvalidTimeInForce

datatype BorrowedMessage =
    BorrowedNewOrder "byte list"
  | BorrowedCancelOrder "byte list"
  | BorrowedReplaceOrder "byte list"

section \<open>Field readers\<close>

definition read_u64 :: "byte list \<Rightarrow> nat \<Rightarrow> nat" where
  "read_u64 bytes offset = from_be [bytes ! offset, bytes ! (offset + 1), bytes ! (offset + 2),
     bytes ! (offset + 3), bytes ! (offset + 4), bytes ! (offset + 5), bytes ! (offset + 6),
     bytes ! (offset + 7)]"

definition read_i64 :: "byte list \<Rightarrow> nat \<Rightarrow> int" where
  "read_i64 bytes offset = i64_of_u64 (from_be [bytes ! offset, bytes ! (offset + 1),
     bytes ! (offset + 2), bytes ! (offset + 3), bytes ! (offset + 4), bytes ! (offset + 5),
     bytes ! (offset + 6), bytes ! (offset + 7)])"

definition read_u32 :: "byte list \<Rightarrow> nat \<Rightarrow> nat" where
  "read_u32 bytes offset = from_be [bytes ! offset, bytes ! (offset + 1), bytes ! (offset + 2),
     bytes ! (offset + 3)]"

section \<open>Owned decoding\<close>

definition new_order_to_owned :: "byte list \<Rightarrow> NewOrder" where
  "new_order_to_owned b =
     \<lparr>no_order_id = from_be (subslice 4 12 b),
      no_account_id = from_be (subslice 12 16 b),
      no_instrument_id = from_be (subslice 16 20 b),
      no_price = i64_of_u64 (from_be (subslice 20 28 b)),
      no_quantity = from_be (subslice 28 36 b),
      no_sequence = from_be (subslice 36 44 b),
      no_side = (if b ! 44 = side_code Buy then Buy else Sell),
      no_time_in_force =
        (if b ! 45 = tif_code Gtc then Gtc
         else if b ! 45 = tif_code Ioc then Ioc
         else if b ! 45 = tif_code Fok then Fok
         else PostOnly)\<rparr>"

definition cancel_order_to_owned :: "byte list \<Rightarrow> CancelOrder" where
  "cancel_order_to_owned b =
     \<lparr>co_order_id = read_u64 b 4, co_account_id = read_u32 b 12,
      co_instrument_id = read_u32 b 16, co_sequence = read_u64 b 20\<rparr>"

definition replace_order_to_owned :: "byte list \<Rightarrow> ReplaceOrder" where
  "replace_order_to_owned b =
     \<lparr>ro_order_id = read_u64 b 4, ro_account_id = read_u32 b 12,
      ro_instrument_id = read_u32 b 16, ro_sequence = read_u64 b 20,
      ro_price = read_i64 b 28, ro_quantity = read_u64 b 36\<rparr>"

fun message_sequence :: "BorrowedMessage \<Rightarrow> SequenceNumber" where
  "message_sequence (BorrowedNewOrder b) = from_be (subslice 36 44 b)"
| "message_sequence (BorrowedCancelOrder b) = from_be (subslice 20 28 b)"
| "message_sequence (BorrowedReplaceOrder b) = from_be (subslice 20 28 b)"

fun to_command :: "BorrowedMessage \<Rightarrow> Command" where
  "to_command (BorrowedNewOrder b) = CmdNewOrder (new_order_to_owned b)"
| "to_command (BorrowedCancelOrder b) = CmdCancelOrder (cancel_order_to_owned b)"
| "to_command (BorrowedReplaceOrder b) = CmdReplaceOrder (replace_order_to_owned b)"

section \<open>Parsing\<close>

definition parse_message :: "byte list \<Rightarrow> (BorrowedMessage, ParseError) result" where
  "parse_message bytes =
     (if length bytes < 4 then Err TruncatedHeader
      else if bytes ! 0 \<noteq> PROTOCOL_VERSION then Err UnsupportedVersion
      else let declared = from_be [bytes ! 2, bytes ! 3] in
        if length bytes \<noteq> declared then Err InvalidLength
        else if bytes ! 1 = NEW_ORDER_TYPE then
          (if declared \<noteq> NEW_ORDER_LEN then Err InvalidLength
           else if \<not> (bytes ! 44 = side_code Buy \<or> bytes ! 44 = side_code Sell) then Err InvalidSide
           else if \<not> (bytes ! 45 = tif_code Gtc \<or> bytes ! 45 = tif_code Ioc \<or>
                      bytes ! 45 = tif_code Fok \<or> bytes ! 45 = tif_code PostOnly)
                then Err InvalidTimeInForce
           else Ok (BorrowedNewOrder bytes))
        else if bytes ! 1 = CANCEL_ORDER_TYPE then
          (if declared \<noteq> CANCEL_ORDER_LEN then Err InvalidLength
           else Ok (BorrowedCancelOrder bytes))
        else if bytes ! 1 = REPLACE_ORDER_TYPE then
          (if declared \<noteq> REPLACE_ORDER_LEN then Err InvalidLength
           else Ok (BorrowedReplaceOrder bytes))
        else Err UnknownMessageType)"

section \<open>Encoding\<close>

text \<open>
  The encoders fill a zeroed array by \<open>copy_from_slice\<close> into consecutive ranges that cover
  it exactly, so the array is the concatenation of the fields in that order.
\<close>

definition encode_new_order :: "NewOrder \<Rightarrow> byte list" where
  "encode_new_order order =
     [PROTOCOL_VERSION, NEW_ORDER_TYPE] @ be_bytes 2 NEW_ORDER_LEN
     @ be_bytes 8 (no_order_id order)
     @ be_bytes 4 (no_account_id order)
     @ be_bytes 4 (no_instrument_id order)
     @ be_bytes 8 (u64_of_i64 (no_price order))
     @ be_bytes 8 (no_quantity order)
     @ be_bytes 8 (no_sequence order)
     @ [side_code (no_side order), tif_code (no_time_in_force order)]"

definition encode_cancel_order :: "CancelOrder \<Rightarrow> byte list" where
  "encode_cancel_order cancel =
     [PROTOCOL_VERSION, CANCEL_ORDER_TYPE] @ be_bytes 2 CANCEL_ORDER_LEN
     @ be_bytes 8 (co_order_id cancel)
     @ be_bytes 4 (co_account_id cancel)
     @ be_bytes 4 (co_instrument_id cancel)
     @ be_bytes 8 (co_sequence cancel)"

definition encode_replace_order :: "ReplaceOrder \<Rightarrow> byte list" where
  "encode_replace_order replace =
     [PROTOCOL_VERSION, REPLACE_ORDER_TYPE] @ be_bytes 2 REPLACE_ORDER_LEN
     @ be_bytes 8 (ro_order_id replace)
     @ be_bytes 4 (ro_account_id replace)
     @ be_bytes 4 (ro_instrument_id replace)
     @ be_bytes 8 (ro_sequence replace)
     @ be_bytes 8 (u64_of_i64 (ro_price replace))
     @ be_bytes 8 (ro_quantity replace)"

fun encode_command :: "Command \<Rightarrow> byte list" where
  "encode_command (CmdNewOrder order) = encode_new_order order"
| "encode_command (CmdCancelOrder cancel) = encode_cancel_order cancel"
| "encode_command (CmdReplaceOrder replace) = encode_replace_order replace"

section \<open>Layout lemmas\<close>

named_theorems wire_consts

declare PROTOCOL_VERSION_def [wire_consts] NEW_ORDER_TYPE_def [wire_consts]
  CANCEL_ORDER_TYPE_def [wire_consts] REPLACE_ORDER_TYPE_def [wire_consts]
  NEW_ORDER_LEN_def [wire_consts] CANCEL_ORDER_LEN_def [wire_consts]
  REPLACE_ORDER_LEN_def [wire_consts]

lemma length_encode [simp]:
  "length (encode_new_order order) = 46" "length (encode_cancel_order cancel) = 28"
  "length (encode_replace_order replace) = 44"
  by (simp_all add: encode_new_order_def encode_cancel_order_def encode_replace_order_def)

lemma nth_consecutive:
  "offset + 8 \<le> length b \<Longrightarrow> [b ! offset, b ! (offset + 1), b ! (offset + 2), b ! (offset + 3),
     b ! (offset + 4), b ! (offset + 5), b ! (offset + 6), b ! (offset + 7)]
     = subslice offset (offset + 8) b"
  "offset + 4 \<le> length b \<Longrightarrow> [b ! offset, b ! (offset + 1), b ! (offset + 2), b ! (offset + 3)]
     = subslice offset (offset + 4) b"
  by (auto intro!: nth_equalityI simp: subslice_def less_Suc_eq numeral_eq_Suc)

lemma read_u64_subslice: "offset + 8 \<le> length b \<Longrightarrow> read_u64 b offset = from_be (subslice offset (offset + 8) b)"
  and read_i64_subslice:
    "offset + 8 \<le> length b \<Longrightarrow> read_i64 b offset = i64_of_u64 (from_be (subslice offset (offset + 8) b))"
  and read_u32_subslice: "offset + 4 \<le> length b \<Longrightarrow> read_u32 b offset = from_be (subslice offset (offset + 4) b)"
  by (simp_all only: read_u64_def read_i64_def read_u32_def nth_consecutive)

lemma subslice_app_left: "b \<le> length xs \<Longrightarrow> subslice a b (xs @ ys) = subslice a b xs"
  by (simp add: subslice_def)

lemma subslice_app_right:
  "length xs \<le> a \<Longrightarrow> subslice a b (xs @ ys) = subslice (a - length xs) (b - length xs) ys"
  by (simp add: subslice_def)

lemma subslice_Cons: "0 < a \<Longrightarrow> subslice a b (x # xs) = subslice (a - 1) (b - 1) xs"
  by (cases a) (simp_all add: subslice_def)

lemma subslice_exact: "b = length xs \<Longrightarrow> subslice 0 b xs = xs"
  by simp

lemmas subslice_walk = subslice_app_left subslice_app_right subslice_Cons subslice_exact

lemma be_field:
  "n < 2 ^ 64 \<Longrightarrow> from_be (be_bytes 8 n) = n" "m < 2 ^ 32 \<Longrightarrow> from_be (be_bytes 4 m) = m"
  "i64_ok p \<Longrightarrow> i64_of_u64 (from_be (be_bytes 8 (u64_of_i64 p))) = p"
  by (simp_all add: from_be_be_bytes u64_of_i64_less [simplified] i64_of_u64_of_i64)

lemma tail_append_nth: "(xs @ ys) ! i = (if i < length xs then xs ! i else ys ! (i - length xs))"
  by (rule nth_append)

lemma be_bytes_2: "be_bytes 2 n = [word_of_nat (n div 256), word_of_nat n]"
  by (simp add: numeral_2_eq_2)

section \<open>Round trips\<close>

lemma parse_encode_new_order:
  "parse_message (encode_new_order order) = Ok (BorrowedNewOrder (encode_new_order order))"
proof -
  let ?b = "encode_new_order order"
  have hd4: "?b ! 0 = PROTOCOL_VERSION" "?b ! 1 = NEW_ORDER_TYPE" "?b ! 2 = 0" "?b ! 3 = 46"
    by (simp_all add: encode_new_order_def wire_consts be_bytes_2 del: be_bytes.simps)
  have tl2: "?b ! 44 = side_code (no_side order)" "?b ! 45 = tif_code (no_time_in_force order)"
    by (simp_all add: encode_new_order_def nth_append nth_Cons' del: be_bytes.simps)
  show ?thesis
    unfolding parse_message_def hd4 tl2
    by (cases "no_side order"; cases "no_time_in_force order") (simp_all add: wire_consts from_be_def)
qed

lemma parse_encode_cancel_order:
  "parse_message (encode_cancel_order cancel) = Ok (BorrowedCancelOrder (encode_cancel_order cancel))"
proof -
  let ?b = "encode_cancel_order cancel"
  have hd4: "?b ! 0 = PROTOCOL_VERSION" "?b ! 1 = CANCEL_ORDER_TYPE" "?b ! 2 = 0" "?b ! 3 = 28"
    by (simp_all add: encode_cancel_order_def wire_consts be_bytes_2 del: be_bytes.simps)
  show ?thesis
    unfolding parse_message_def hd4 by (simp add: wire_consts from_be_def)
qed

lemma parse_encode_replace_order:
  "parse_message (encode_replace_order rep) = Ok (BorrowedReplaceOrder (encode_replace_order rep))"
proof -
  let ?b = "encode_replace_order rep"
  have hd4: "?b ! 0 = PROTOCOL_VERSION" "?b ! 1 = REPLACE_ORDER_TYPE" "?b ! 2 = 0" "?b ! 3 = 44"
    by (simp_all add: encode_replace_order_def wire_consts be_bytes_2 del: be_bytes.simps)
  show ?thesis
    unfolding parse_message_def hd4 by (simp add: wire_consts from_be_def)
qed

lemma to_owned_encode_new_order:
  assumes "new_order_ok order"
  shows "new_order_to_owned (encode_new_order order) = order"
proof -
  let ?b = "encode_new_order order"
  have tl2: "?b ! 44 = side_code (no_side order)" "?b ! 45 = tif_code (no_time_in_force order)"
    by (simp_all add: encode_new_order_def nth_append nth_Cons' del: be_bytes.simps)
  have fields: "subslice 4 12 ?b = be_bytes 8 (no_order_id order)"
    "subslice 12 16 ?b = be_bytes 4 (no_account_id order)"
    "subslice 16 20 ?b = be_bytes 4 (no_instrument_id order)"
    "subslice 20 28 ?b = be_bytes 8 (u64_of_i64 (no_price order))"
    "subslice 28 36 ?b = be_bytes 8 (no_quantity order)"
    "subslice 36 44 ?b = be_bytes 8 (no_sequence order)"
    by (simp_all add: encode_new_order_def subslice_walk del: be_bytes.simps)
  show ?thesis
    using assms unfolding new_order_to_owned_def fields tl2 new_order_ok_def
    by (cases "no_side order"; cases "no_time_in_force order")
       (simp_all add: u64_ok_def u32_ok_def be_field [simplified] del: be_bytes.simps)
qed

lemma to_owned_encode_cancel_order:
  assumes "cancel_order_ok cancel"
  shows "cancel_order_to_owned (encode_cancel_order cancel) = cancel"
proof -
  let ?b = "encode_cancel_order cancel"
  have fields: "subslice 4 12 ?b = be_bytes 8 (co_order_id cancel)"
    "subslice 12 16 ?b = be_bytes 4 (co_account_id cancel)"
    "subslice 16 20 ?b = be_bytes 4 (co_instrument_id cancel)"
    "subslice 20 28 ?b = be_bytes 8 (co_sequence cancel)"
    by (simp_all add: encode_cancel_order_def subslice_walk del: be_bytes.simps)
  show ?thesis
    using assms unfolding cancel_order_to_owned_def cancel_order_ok_def
    by (simp add: read_u64_subslice read_u32_subslice fields u64_ok_def u32_ok_def
        be_field [simplified] del: be_bytes.simps)
qed

lemma to_owned_encode_replace_order:
  assumes "replace_order_ok rep"
  shows "replace_order_to_owned (encode_replace_order rep) = rep"
proof -
  let ?b = "encode_replace_order rep"
  have fields: "subslice 4 12 ?b = be_bytes 8 (ro_order_id rep)"
    "subslice 12 16 ?b = be_bytes 4 (ro_account_id rep)"
    "subslice 16 20 ?b = be_bytes 4 (ro_instrument_id rep)"
    "subslice 20 28 ?b = be_bytes 8 (ro_sequence rep)"
    "subslice 28 36 ?b = be_bytes 8 (u64_of_i64 (ro_price rep))"
    "subslice 36 44 ?b = be_bytes 8 (ro_quantity rep)"
    by (simp_all add: encode_replace_order_def subslice_walk del: be_bytes.simps)
  show ?thesis
    using assms unfolding replace_order_to_owned_def replace_order_ok_def
    by (simp add: read_u64_subslice read_i64_subslice read_u32_subslice fields u64_ok_def u32_ok_def
        be_field [simplified] del: be_bytes.simps)
qed

text \<open>Every accepted frame is the canonical encoding of the command it decodes to.\<close>

lemma be_bytes_subslice: "a + k \<le> length b \<Longrightarrow> be_bytes k (from_be (subslice a (a + k) b)) = subslice a (a + k) b"
  using be_bytes_from_be [of "subslice a (a + k) b"] by simp

lemma be_bytes_subslices:
  "12 \<le> length b \<Longrightarrow> be_bytes 8 (from_be (subslice 4 12 b)) = subslice 4 12 b"
  "16 \<le> length b \<Longrightarrow> be_bytes 4 (from_be (subslice 12 16 b)) = subslice 12 16 b"
  "20 \<le> length b \<Longrightarrow> be_bytes 4 (from_be (subslice 16 20 b)) = subslice 16 20 b"
  "28 \<le> length b \<Longrightarrow> be_bytes 8 (from_be (subslice 20 28 b)) = subslice 20 28 b"
  "36 \<le> length b \<Longrightarrow> be_bytes 8 (from_be (subslice 28 36 b)) = subslice 28 36 b"
  "44 \<le> length b \<Longrightarrow> be_bytes 8 (from_be (subslice 36 44 b)) = subslice 36 44 b"
  using be_bytes_subslice [of 4 8 b] be_bytes_subslice [of 12 4 b] be_bytes_subslice [of 16 4 b]
    be_bytes_subslice [of 20 8 b] be_bytes_subslice [of 28 8 b] be_bytes_subslice [of 36 8 b]
  by (simp_all del: be_bytes.simps)

lemma header_bytes:
  assumes "4 \<le> length b" and "length b = from_be [b ! 2, b ! 3]"
  shows "[b ! 0, b ! 1] @ be_bytes 2 (length b) = subslice 0 4 b"
proof -
  have "be_bytes 2 (length b) = [b ! 2, b ! 3]"
    using be_bytes_from_be [of "[b ! 2, b ! 3]"] assms(2) by (simp add: numeral_2_eq_2 del: be_bytes.simps)
  moreover have "subslice 0 4 b = [b ! 0, b ! 1, b ! 2, b ! 3]"
    using nth_consecutive(2) [of 0 b] assms(1) by (simp add: numeral_eq_Suc)
  ultimately show ?thesis by simp
qed

lemma subslice_pair: "46 = length b \<Longrightarrow> [b ! 44, b ! 45] = subslice 44 46 b"
  by (intro nth_equalityI) (auto simp: subslice_def less_Suc_eq numeral_eq_Suc)

lemma from_be_subslice_less: "from_be (subslice a b xs) < 256 ^ (b - a)"
  by (rule less_le_trans [OF from_be_less]) (simp add: power_increasing)

lemma from_be_subslice_8: "b - a = 8 \<Longrightarrow> from_be (subslice a b xs) < 2 ^ 64"
  using from_be_subslice_less [of a b xs] by simp

lemma from_be_subslice_4: "b - a = 4 \<Longrightarrow> from_be (subslice a b xs) < 2 ^ 32"
  using from_be_subslice_less [of a b xs] by simp

lemma new_order_canonical:
  assumes "parse_message b = Ok (BorrowedNewOrder b')"
  shows "b' = b" and "encode_new_order (new_order_to_owned b) = b" and "new_order_ok (new_order_to_owned b)"
proof -
  from assms have p: "b' = b" "length b = 46" "b ! 0 = PROTOCOL_VERSION" "b ! 1 = NEW_ORDER_TYPE"
    "length b = from_be [b ! 2, b ! 3]"
    "b ! 44 = side_code Buy \<or> b ! 44 = side_code Sell"
    "b ! 45 = tif_code Gtc \<or> b ! 45 = tif_code Ioc \<or> b ! 45 = tif_code Fok \<or> b ! 45 = tif_code PostOnly"
    by (auto simp: parse_message_def Let_def NEW_ORDER_LEN_def split: if_splits)
  show "b' = b" by (rule p(1))
  let ?o = "new_order_to_owned b"
  have codes: "[side_code (no_side ?o), tif_code (no_time_in_force ?o)] = [b ! 44, b ! 45]"
    using p(6,7) by (auto simp: new_order_to_owned_def)
  have hd: "[PROTOCOL_VERSION, NEW_ORDER_TYPE] @ be_bytes 2 NEW_ORDER_LEN = subslice 0 4 b"
    using header_bytes [of b] p(2-5) by (simp add: NEW_ORDER_LEN_def del: be_bytes.simps)
  have "encode_new_order ?o = subslice 0 4 b @ subslice 4 12 b @ subslice 12 16 b @ subslice 16 20 b
      @ subslice 20 28 b @ subslice 28 36 b @ subslice 36 44 b @ subslice 44 46 b"
    unfolding encode_new_order_def codes subslice_pair [OF p(2) [symmetric]] append_assoc [symmetric] hd
    using p(2)
    by (simp add: new_order_to_owned_def be_bytes_subslices u64_of_i64_of_u64 from_be_subslice_8 [simplified]
        del: be_bytes.simps)
  also have "\<dots> = b" using p(2) by (simp add: subslice_append)
  finally show "encode_new_order ?o = b" .
  show "new_order_ok ?o"
    by (simp add: new_order_ok_def new_order_to_owned_def u64_ok_def u32_ok_def i64_of_u64_ok
        from_be_subslice_8 [simplified] from_be_subslice_4 [simplified])
qed

lemma cancel_order_canonical:
  assumes "parse_message b = Ok (BorrowedCancelOrder b')"
  shows "b' = b" and "length b = 28" and "encode_cancel_order (cancel_order_to_owned b) = b"
    and "cancel_order_ok (cancel_order_to_owned b)"
proof -
  from assms have p: "b' = b" "length b = 28" "b ! 0 = PROTOCOL_VERSION" "b ! 1 = CANCEL_ORDER_TYPE"
    "length b = from_be [b ! 2, b ! 3]"
    by (auto simp: parse_message_def Let_def CANCEL_ORDER_LEN_def split: if_splits)
  show "b' = b" "length b = 28" by (fact p)+
  have hd: "[PROTOCOL_VERSION, CANCEL_ORDER_TYPE] @ be_bytes 2 CANCEL_ORDER_LEN = subslice 0 4 b"
    using header_bytes [of b] p(2-5) by (simp add: CANCEL_ORDER_LEN_def del: be_bytes.simps)
  have "encode_cancel_order (cancel_order_to_owned b)
      = subslice 0 4 b @ subslice 4 12 b @ subslice 12 16 b @ subslice 16 20 b @ subslice 20 28 b"
    unfolding encode_cancel_order_def append_assoc [symmetric] hd
    using p(2)
    by (simp add: cancel_order_to_owned_def read_u64_subslice read_u32_subslice be_bytes_subslices
        del: be_bytes.simps)
  also have "\<dots> = b" using p(2) by (simp add: subslice_append)
  finally show "encode_cancel_order (cancel_order_to_owned b) = b" .
  show "cancel_order_ok (cancel_order_to_owned b)"
    using p(2)
    by (simp add: cancel_order_ok_def cancel_order_to_owned_def read_u64_subslice read_u32_subslice
        u64_ok_def u32_ok_def from_be_subslice_8 [simplified] from_be_subslice_4 [simplified])
qed

lemma replace_order_canonical:
  assumes "parse_message b = Ok (BorrowedReplaceOrder b')"
  shows "b' = b" and "length b = 44" and "encode_replace_order (replace_order_to_owned b) = b"
    and "replace_order_ok (replace_order_to_owned b)"
proof -
  from assms have p: "b' = b" "length b = 44" "b ! 0 = PROTOCOL_VERSION" "b ! 1 = REPLACE_ORDER_TYPE"
    "length b = from_be [b ! 2, b ! 3]"
    by (auto simp: parse_message_def Let_def REPLACE_ORDER_LEN_def split: if_splits)
  show "b' = b" "length b = 44" by (fact p)+
  have hd: "[PROTOCOL_VERSION, REPLACE_ORDER_TYPE] @ be_bytes 2 REPLACE_ORDER_LEN = subslice 0 4 b"
    using header_bytes [of b] p(2-5) by (simp add: REPLACE_ORDER_LEN_def del: be_bytes.simps)
  have "encode_replace_order (replace_order_to_owned b)
      = subslice 0 4 b @ subslice 4 12 b @ subslice 12 16 b @ subslice 16 20 b @ subslice 20 28 b
        @ subslice 28 36 b @ subslice 36 44 b"
    unfolding encode_replace_order_def append_assoc [symmetric] hd
    using p(2)
    by (simp add: replace_order_to_owned_def read_u64_subslice read_u32_subslice read_i64_subslice
        be_bytes_subslices u64_of_i64_of_u64 from_be_subslice_8 [simplified] del: be_bytes.simps)
  also have "\<dots> = b" using p(2) by (simp add: subslice_append)
  finally show "encode_replace_order (replace_order_to_owned b) = b" .
  show "replace_order_ok (replace_order_to_owned b)"
    using p(2)
    by (simp add: replace_order_ok_def replace_order_to_owned_def read_u64_subslice read_u32_subslice
        read_i64_subslice u64_ok_def u32_ok_def i64_of_u64_ok from_be_subslice_8 [simplified]
        from_be_subslice_4 [simplified])
qed

lemma message_sequence_command:
  assumes "parse_message b = Ok m"
  shows "command_sequence (to_command m) = message_sequence m"
proof (cases m)
  case (BorrowedNewOrder b')
  then show ?thesis by (simp add: new_order_to_owned_def)
next
  case (BorrowedCancelOrder b')
  with assms cancel_order_canonical [of b b'] show ?thesis
    by (simp add: cancel_order_to_owned_def read_u64_subslice)
next
  case (BorrowedReplaceOrder b')
  with assms replace_order_canonical [of b b'] show ?thesis
    by (simp add: replace_order_to_owned_def read_u64_subslice)
qed

lemma encode_parse:
  assumes "command_ok cmd"
  shows "\<exists>m. parse_message (encode_command cmd) = Ok m \<and> to_command m = cmd \<and>
    message_sequence m = command_sequence cmd"
proof (cases cmd)
  case (CmdNewOrder order)
  with assms parse_encode_new_order [of order] to_owned_encode_new_order [of order]
    message_sequence_command [OF parse_encode_new_order [of order]]
  show ?thesis by simp
next
  case (CmdCancelOrder cancel)
  with assms parse_encode_cancel_order [of cancel] to_owned_encode_cancel_order [of cancel]
    message_sequence_command [OF parse_encode_cancel_order [of cancel]]
  show ?thesis by simp
next
  case (CmdReplaceOrder rep)
  with assms parse_encode_replace_order [of rep] to_owned_encode_replace_order [of rep]
    message_sequence_command [OF parse_encode_replace_order [of rep]]
  show ?thesis by simp
qed

lemma parse_canonical:
  assumes "parse_message bytes = Ok m"
  shows "encode_command (to_command m) = bytes \<and> command_ok (to_command m)"
proof (cases m)
  case (BorrowedNewOrder b')
  with assms new_order_canonical [of bytes b'] show ?thesis by simp
next
  case (BorrowedCancelOrder b')
  with assms cancel_order_canonical [of bytes b'] show ?thesis by simp
next
  case (BorrowedReplaceOrder b')
  with assms replace_order_canonical [of bytes b'] show ?thesis by simp
qed

section \<open>Properties of the wire protocol\<close>

text \<open>
  C19: the wire protocol is canonical. For every command whose fields are values of their Rust types, the
  frame written by its encoder is accepted by \<open>parse_message\<close>, and the borrowed message decodes to the same
  command and carries the same sequence number. Conversely every frame that is accepted is exactly the
  encoding of the command it decodes to, so no two distinct frames decode to one command, and the decoded
  fields are values of their types.
\<close>
theorem wire_codec:
  "(command_ok cmd \<longrightarrow>
      (\<exists>m. parse_message (encode_command cmd) = Ok m \<and> to_command m = cmd \<and> message_sequence m = command_sequence cmd)) \<and>
   (\<forall>m. parse_message bytes = Ok m \<longrightarrow> encode_command (to_command m) = bytes \<and> command_ok (to_command m))"
  using encode_parse [of cmd] parse_canonical [of bytes] by blast

theorem wire_codec_witness:
  "(\<exists>m. parse_message (encode_command (CmdCancelOrder
        \<lparr>co_order_id = 10, co_account_id = 20, co_instrument_id = 30, co_sequence = 40\<rparr>)) = Ok m \<and> message_sequence m = 40) \<and>
   encode_command (to_command (BorrowedCancelOrder ([2, 2, 0, 28] @ replicate 24 0))) = [2, 2, 0, 28] @ replicate 24 0"
proof -
  have "parse_message ([2, 2, 0, 28] @ replicate 24 0) = Ok (BorrowedCancelOrder ([2, 2, 0, 28] @ replicate 24 0))"
    by (simp add: parse_message_def wire_consts from_be_def)
  with wire_codec [of "CmdCancelOrder \<lparr>co_order_id = 10, co_account_id = 20, co_instrument_id = 30, co_sequence = 40\<rparr>"
      "[2, 2, 0, 28] @ replicate 24 0"]
  show ?thesis by (auto simp: cancel_order_ok_def u64_ok_def u32_ok_def)
qed

end
