(* ===== verification/ProbeIndex.thy ===== *)
theory ProbeIndex
  imports Types
begin

text \<open>
  The open-addressed index \<open>ProbeIndex\<close> of \<open>crates/hft-risk/src/lib.rs\<close>: linear
  probing with back-shift deletion over a flat array of slots. The nested planes of the source are
  the flattened list \<open>as_flattened\<close> reads, so \<open>CAPACITY\<close> is its length. Deletion
  reports every entry it moves to a closure; the closure is an argument here, and the state it
  mutates is threaded through the loop. The order index of the book (theory \<open>OrderIndex\<close>)
  is shown to be a data refinement of this one.
\<close>

section \<open>Slots and probing\<close>

datatype IndexSlot = Empty | Occupied nat nat

datatype ProbeError = ProbeFull | ProbeDuplicate

type_synonym probe_index = "IndexSlot list"

definition probe_new :: "nat \<Rightarrow> probe_index" where
  "probe_new capacity = replicate capacity Empty"

definition probe_start :: "nat \<Rightarrow> nat \<Rightarrow> nat" where
  "probe_start capacity key = wrapping_mul 64 key 11400714819323198485 mod capacity"

definition probe_distance :: "nat \<Rightarrow> nat \<Rightarrow> nat \<Rightarrow> nat" where
  "probe_distance capacity home current =
     (if current \<ge> home then current - home else capacity - (home - current))"

fun find_slot_loop :: "probe_index \<Rightarrow> nat \<Rightarrow> nat \<Rightarrow> nat list \<Rightarrow> nat option" where
  "find_slot_loop slots key start [] = None"
| "find_slot_loop slots key start (offset # offsets) =
     (let flat_index = wrapping_add 64 start offset mod length slots in
      case slots ! flat_index of
        Empty \<Rightarrow> None
      | Occupied indexed _ \<Rightarrow>
          if indexed = key then Some flat_index
          else find_slot_loop slots key start offsets)"

definition find_slot :: "probe_index \<Rightarrow> nat \<Rightarrow> nat option" where
  "find_slot slots key =
     (if length slots = 0 then None
      else find_slot_loop slots key (probe_start (length slots) key) [0..<length slots])"

definition probe_lookup :: "probe_index \<Rightarrow> nat \<Rightarrow> nat option" where
  "probe_lookup slots key =
     (case find_slot slots key of
        None \<Rightarrow> None
      | Some i \<Rightarrow> (case slots ! i of Occupied _ v \<Rightarrow> Some (v - 1) | Empty \<Rightarrow> None))"

fun probe_insert_loop ::
  "probe_index \<Rightarrow> nat \<Rightarrow> nat \<Rightarrow> nat \<Rightarrow> nat list \<Rightarrow> (nat \<times> probe_index, ProbeError) result" where
  "probe_insert_loop slots key v start [] = Err ProbeFull"
| "probe_insert_loop slots key v start (offset # offsets) =
     (let flat_index = wrapping_add 64 start offset mod length slots in
      case slots ! flat_index of
        Empty \<Rightarrow>
          (case u32_try_from flat_index of
             None \<Rightarrow> Err ProbeFull
           | Some flat_u32 \<Rightarrow> Ok (flat_u32, slots[flat_index := Occupied key v]))
      | Occupied indexed _ \<Rightarrow>
          if indexed = key then Err ProbeDuplicate
          else probe_insert_loop slots key v start offsets)"

definition probe_insert :: "probe_index \<Rightarrow> nat \<Rightarrow> nat \<Rightarrow> (nat \<times> probe_index, ProbeError) result" where
  "probe_insert slots key v =
     (if length slots = 0 then Err ProbeFull
      else case checked_add 64 v 1 of
        None \<Rightarrow> Err ProbeFull
      | Some v1 \<Rightarrow>
          probe_insert_loop slots key v1 (probe_start (length slots) key) [0..<length slots])"

text \<open>
  The back-shift loop. \<open>fuel\<close> bounds the number of candidates examined; \<open>None\<close> is
  running out of it, or the panic of \<open>expect("occupied slots fit u32")\<close>. One pass over the
  array is always enough when an empty slot exists (\<open>remove_at_correct\<close> below).
\<close>

fun remove_loop ::
  "nat \<Rightarrow> probe_index \<Rightarrow> nat \<Rightarrow> nat \<Rightarrow> (nat \<Rightarrow> nat \<Rightarrow> nat \<Rightarrow> 's \<Rightarrow> 's) \<Rightarrow> 's \<Rightarrow> (probe_index \<times> 's) option" where
  "remove_loop 0 slots hole candidate update_moved st = None"
| "remove_loop (Suc fuel) slots hole candidate update_moved st =
     (case slots ! candidate of
        Empty \<Rightarrow> Some (slots[hole := Empty], st)
      | Occupied candidate_key candidate_value \<Rightarrow>
          let home_bucket = probe_start (length slots) candidate_key;
              next_candidate = wrapping_add 64 candidate 1 mod length slots in
          if probe_distance (length slots) home_bucket hole
             < probe_distance (length slots) home_bucket candidate
          then (case u32_try_from hole of
                  None \<Rightarrow> None
                | Some new_flat \<Rightarrow>
                    remove_loop fuel (slots[hole := Occupied candidate_key candidate_value])
                      candidate next_candidate update_moved
                      (update_moved candidate_key (candidate_value - 1) new_flat st))
          else remove_loop fuel slots hole next_candidate update_moved st)"

definition probe_remove_at ::
  "probe_index \<Rightarrow> nat \<Rightarrow> nat \<Rightarrow> (nat \<Rightarrow> nat \<Rightarrow> nat \<Rightarrow> 's \<Rightarrow> 's) \<Rightarrow> 's \<Rightarrow> (probe_index \<times> 's \<times> nat option) option" where
  "probe_remove_at slots flat_index key update_moved st =
     (if flat_index \<ge> length slots then Some (slots, st, None)
      else case slots ! flat_index of
        Empty \<Rightarrow> Some (slots, st, None)
      | Occupied indexed v \<Rightarrow>
          if indexed \<noteq> key then Some (slots, st, None)
          else (case remove_loop (length slots) slots flat_index
                       (wrapping_add 64 flat_index 1 mod length slots) update_moved st of
                  None \<Rightarrow> None
                | Some (slots', st') \<Rightarrow> Some (slots', st', Some (v - 1))))"

section \<open>The invariant\<close>

text \<open>
  Every key occurs once, and every slot on the probe path from an entry's home bucket to the entry
  is occupied. The capacity fits the \<open>u32\<close> handles.
\<close>

definition slot_holds :: "probe_index \<Rightarrow> nat \<Rightarrow> nat \<Rightarrow> nat \<Rightarrow> bool" where
  "slot_holds s i k v \<longleftrightarrow> i < length s \<and> s ! i = Occupied k v"

definition probe_inv :: "probe_index \<Rightarrow> bool" where
  "probe_inv s \<longleftrightarrow> length s \<le> 2 ^ 32 \<and>
     (\<forall>i j k v w. slot_holds s i k v \<longrightarrow> slot_holds s j k w \<longrightarrow> i = j) \<and>
     (\<forall>i k v. slot_holds s i k v \<longrightarrow> 0 < v \<and>
        (\<forall>j < length s. probe_distance (length s) (probe_start (length s) k) j
            < probe_distance (length s) (probe_start (length s) k) i \<longrightarrow> s ! j \<noteq> Empty))"

definition probe_load :: "probe_index \<Rightarrow> nat" where
  "probe_load s = length (filter (\<lambda>x. x \<noteq> Empty) s)"

section \<open>Cyclic distance\<close>

lemma probe_start_less: "0 < n \<Longrightarrow> probe_start n k < n"
  by (simp add: probe_start_def)

lemma probe_distance_less: "h < n \<Longrightarrow> c < n \<Longrightarrow> probe_distance n h c < n"
  by (auto simp: probe_distance_def)

lemma probe_distance_pos: "h < n \<Longrightarrow> d < n \<Longrightarrow> probe_distance n h ((h + d) mod n) = d"
  by (cases "h + d < n") (auto simp: probe_distance_def mod_if)

lemma pos_probe_distance: "h < n \<Longrightarrow> c < n \<Longrightarrow> (h + probe_distance n h c) mod n = c"
  by (auto simp: probe_distance_def)

lemma probe_distance_inj: "h < n \<Longrightarrow> a < n \<Longrightarrow> b < n \<Longrightarrow> probe_distance n h a = probe_distance n h b \<Longrightarrow> a = b"
  by (metis pos_probe_distance)

lemma probe_distance_0: "a < n \<Longrightarrow> b < n \<Longrightarrow> probe_distance n a b = 0 \<longleftrightarrow> a = b"
  by (auto simp: probe_distance_def)

lemma probe_distance_succ:
  "a < n \<Longrightarrow> b < n \<Longrightarrow> (b + 1) mod n \<noteq> a \<Longrightarrow> probe_distance n a ((b + 1) mod n) = probe_distance n a b + 1"
  by (cases "b + 1 < n") (auto simp: probe_distance_def mod_if)

lemma succ_mod: "a < n \<Longrightarrow> Suc a mod n = (if Suc a = n then 0 else Suc a)" for a n :: nat
  by auto

lemma probe_distance_to_succ: "a < n \<Longrightarrow> probe_distance n a ((a + 1) mod n) \<le> 1"
  by (auto simp: succ_mod probe_distance_def)

lemma probe_distance_from_succ:
  "a < n \<Longrightarrow> b < n \<Longrightarrow> b \<noteq> a \<Longrightarrow> probe_distance n a b = probe_distance n ((a + 1) mod n) b + 1"
  by (auto simp: succ_mod probe_distance_def)

lemma probe_distance_wrap:
  "a < n \<Longrightarrow> b < n \<Longrightarrow> b \<noteq> a \<Longrightarrow> probe_distance n ((a + 1) mod n) b < probe_distance n ((a + 1) mod n) a"
  by (auto simp: succ_mod probe_distance_def)

text \<open>Going on from \<open>b\<close> to \<open>c\<close> without passing \<open>a\<close> again adds the distances.\<close>

lemma probe_distance_add:
  "a < n \<Longrightarrow> b < n \<Longrightarrow> c < n \<Longrightarrow> probe_distance n a b \<le> probe_distance n a c \<Longrightarrow>
     probe_distance n a c = probe_distance n a b + probe_distance n b c"
  by (auto simp: probe_distance_def split: if_splits)

lemma probe_distance_between:
  "a < n \<Longrightarrow> b < n \<Longrightarrow> c < n \<Longrightarrow> d < n \<Longrightarrow> probe_distance n a b < probe_distance n a c \<Longrightarrow>
     probe_distance n b d < probe_distance n b c \<Longrightarrow> probe_distance n a d < probe_distance n a c"
  by (auto simp: probe_distance_def split: if_splits)

lemma wrap_step: "n \<le> 2 ^ 32 \<Longrightarrow> a < n \<Longrightarrow> d \<le> n \<Longrightarrow> wrapping_add 64 a d mod n = (a + d) mod n"
  by (simp add: wrapping_add_def)

lemma wrap_succ: "n \<le> 2 ^ 32 \<Longrightarrow> a < n \<Longrightarrow> wrapping_add 64 a 1 mod n = (a + 1) mod n"
  by (rule wrap_step) auto

section \<open>Lookup\<close>

lemma probe_inv_capacity: "probe_inv s \<Longrightarrow> length s \<le> 2 ^ 32"
  by (simp add: probe_inv_def)

lemma probe_inv_unique: "probe_inv s \<Longrightarrow> slot_holds s i k v \<Longrightarrow> slot_holds s j k w \<Longrightarrow> i = j"
  by (auto simp: probe_inv_def)

lemma probe_inv_path:
  "probe_inv s \<Longrightarrow> slot_holds s i k v \<Longrightarrow> j < length s \<Longrightarrow>
     probe_distance (length s) (probe_start (length s) k) j
       < probe_distance (length s) (probe_start (length s) k) i \<Longrightarrow> s ! j \<noteq> Empty"
  by (auto simp: probe_inv_def)

lemma find_slot_loop_sound:
  "s \<noteq> [] \<Longrightarrow> find_slot_loop s k start offs = Some i \<Longrightarrow> \<exists>v. slot_holds s i k v"
  by (induction offs) (auto simp: Let_def slot_holds_def split: IndexSlot.splits if_splits)

lemma find_slot_loop_complete:
  assumes inv: "probe_inv s" and holds: "slot_holds s i k v"
    and start: "start = probe_start (length s) k"
    and d: "d \<le> probe_distance (length s) start i"
  shows "find_slot_loop s k start [d..<length s] = Some i"
  using d
proof (induction "probe_distance (length s) start i - d" arbitrary: d)
  case (0 d)
  let ?n = "length s"
  have i: "i < ?n" using holds by (simp add: slot_holds_def)
  have st: "start < ?n" unfolding start by (rule probe_start_less) (use i in auto)
  from 0 have d: "d = probe_distance ?n start i" by simp
  have dn: "d < ?n" using d st i by (simp add: probe_distance_less)
  have "wrapping_add 64 start d mod ?n = i"
    using wrap_step [of ?n start d] probe_inv_capacity [OF inv] st dn d i
    by (simp add: pos_probe_distance)
  with dn holds show ?case by (simp add: upt_conv_Cons slot_holds_def)
next
  case (Suc x d)
  let ?n = "length s"
  let ?p = "(start + d) mod ?n"
  have i: "i < ?n" using holds by (simp add: slot_holds_def)
  have st: "start < ?n" unfolding start by (rule probe_start_less) (use i in auto)
  from Suc.hyps(2) have lt: "d < probe_distance ?n start i" by simp
  then have dn: "d < ?n" using probe_distance_less [OF st i] by simp
  have p: "?p < ?n" by (rule mod_less_divisor) (use i in auto)
  have pd: "probe_distance ?n start ?p = d" by (rule probe_distance_pos [OF st dn])
  have wrap: "wrapping_add 64 start d mod ?n = ?p"
    using wrap_step [of ?n start d] probe_inv_capacity [OF inv] st dn by simp
  have "s ! ?p \<noteq> Empty"
    using probe_inv_path [OF inv holds p] pd lt start by simp
  then obtain k' v' where occ: "s ! ?p = Occupied k' v'" by (cases "s ! ?p") auto
  have "k' \<noteq> k"
  proof
    assume "k' = k"
    with occ p have "slot_holds s ?p k v'" by (simp add: slot_holds_def)
    then have "?p = i" by (rule probe_inv_unique [OF inv _ holds])
    with pd lt show False by simp
  qed
  moreover have "find_slot_loop s k start [Suc d..<?n] = Some i"
    by (rule Suc.hyps(1)) (use Suc.hyps(2) in auto)
  ultimately show ?case using dn occ wrap by (simp add: upt_conv_Cons)
qed

lemma find_slot_iff:
  assumes "probe_inv s"
  shows "find_slot s k = Some i \<longleftrightarrow> (\<exists>v. slot_holds s i k v)"
proof
  assume "find_slot s k = Some i"
  then show "\<exists>v. slot_holds s i k v"
    by (auto simp: find_slot_def intro: find_slot_loop_sound split: if_splits)
next
  assume "\<exists>v. slot_holds s i k v"
  then obtain v where v: "slot_holds s i k v" by blast
  then have "s \<noteq> []" by (auto simp: slot_holds_def)
  with find_slot_loop_complete [OF assms v refl, of 0] show "find_slot s k = Some i"
    by (simp add: find_slot_def)
qed

lemma find_slot_None: "probe_inv s \<Longrightarrow> find_slot s k = None \<longleftrightarrow> (\<forall>i v. \<not> slot_holds s i k v)"
  by (metis find_slot_iff not_None_eq)

lemma probe_lookup_iff:
  assumes "probe_inv s"
  shows "probe_lookup s k = Some v \<longleftrightarrow> (\<exists>i. slot_holds s i k (v + 1))"
proof (cases "find_slot s k")
  case None
  with assms find_slot_None [of s k] show ?thesis by (simp add: probe_lookup_def)
next
  case (Some i)
  with assms obtain w where w: "slot_holds s i k w" using find_slot_iff by blast
  with assms have pos: "0 < w" by (auto simp: probe_inv_def)
  have uniq: "\<And>j x. slot_holds s j k x \<Longrightarrow> j = i" using probe_inv_unique [OF assms _ w] by blast
  have "slot_holds s i k (v + 1) \<longleftrightarrow> w = v + 1" using w by (auto simp: slot_holds_def)
  then have "(\<exists>j. slot_holds s j k (v + 1)) \<longleftrightarrow> w = v + 1" using uniq by blast
  moreover have "probe_lookup s k = Some (w - 1)" using Some w by (simp add: probe_lookup_def slot_holds_def)
  ultimately show ?thesis using pos by auto
qed

lemma probe_lookup_None: "probe_inv s \<Longrightarrow> probe_lookup s k = None \<longleftrightarrow> find_slot s k = None"
  using find_slot_iff [of s k]
  by (auto simp: probe_lookup_def slot_holds_def split: option.splits IndexSlot.splits)

lemma probe_inv_new: "capacity \<le> 2 ^ 32 \<Longrightarrow> probe_inv (probe_new capacity)"
  by (auto simp: probe_inv_def probe_new_def slot_holds_def)

lemma length_probe_new [simp]: "length (probe_new capacity) = capacity"
  by (simp add: probe_new_def)

lemma slot_holds_new [simp]: "\<not> slot_holds (probe_new c) i k v"
  by (auto simp: probe_new_def slot_holds_def)

lemma slot_holds_update:
  "i < length s \<Longrightarrow> slot_holds (s[i := Occupied k w]) j k' v'
     \<longleftrightarrow> (if j = i then k' = k \<and> v' = w else slot_holds s j k' v')"
  by (auto simp: slot_holds_def)

lemma slot_holds_clear:
  "i < length s \<Longrightarrow> slot_holds (s[i := Empty]) j k' v' \<longleftrightarrow> j \<noteq> i \<and> slot_holds s j k' v'"
  by (auto simp: slot_holds_def nth_list_update)

lemma not_Empty_slot_holds: "j < length s \<Longrightarrow> s ! j \<noteq> Empty \<Longrightarrow> \<exists>k v. slot_holds s j k v"
  by (cases "s ! j") (auto simp: slot_holds_def)

text \<open>An index with fewer keys than slots has an empty slot.\<close>

lemma probe_room:
  assumes inv: "probe_inv s" and fin: "finite K"
    and keys: "\<And>i k v. slot_holds s i k v \<Longrightarrow> k \<in> K" and card: "card K < length s"
  shows "\<exists>e < length s. s ! e = Empty"
proof (rule ccontr)
  assume "\<not> (\<exists>e < length s. s ! e = Empty)"
  then have full: "\<exists>k v. slot_holds s i k v" if "i < length s" for i
    using that not_Empty_slot_holds by blast
  define f where "f i = (case s ! i of Occupied k v \<Rightarrow> k | Empty \<Rightarrow> 0)" for i
  have holds: "\<exists>v. slot_holds s i (f i) v" if "i < length s" for i
    using full [OF that] by (auto simp: f_def slot_holds_def)
  have "inj_on f {..<length s}"
    by (rule inj_onI) (metis holds inv lessThan_iff probe_inv_unique)
  moreover have "f ` {..<length s} \<subseteq> K" using holds keys by blast
  ultimately have "length s \<le> card K" using card_inj_on_le [OF _ _ fin] by fastforce
  with card show False by simp
qed

section \<open>Insertion\<close>

lemma insert_loop_Ok:
  assumes cap: "length s \<le> 2 ^ 32" and start: "start < length s"
    and absent: "\<And>i v. \<not> slot_holds s i k v" and room: "\<exists>e < length s. s ! e = Empty"
    and d: "d \<le> length s" and pre: "\<forall>e < d. s ! ((start + e) mod length s) \<noteq> Empty"
  shows "\<exists>i. probe_insert_loop s k v start [d..<length s] = Ok (i, s[i := Occupied k v]) \<and>
    i < length s \<and> s ! i = Empty \<and>
    (\<forall>j < length s. probe_distance (length s) start j < probe_distance (length s) start i \<longrightarrow> s ! j \<noteq> Empty)"
  using d pre
proof (induction "length s - d" arbitrary: d)
  case 0
  from room obtain e where e: "e < length s" "s ! e = Empty" by blast
  have "probe_distance (length s) start e < d" using probe_distance_less [OF start e(1)] 0 by simp
  with 0 have "s ! ((start + probe_distance (length s) start e) mod length s) \<noteq> Empty" by simp
  with e start show ?case by (simp add: pos_probe_distance)
next
  case (Suc x d)
  let ?n = "length s"
  let ?p = "(start + d) mod ?n"
  have dn: "d < ?n" using Suc.hyps(2) by simp
  have p: "?p < ?n" by (rule mod_less_divisor) (use dn in auto)
  have pd: "probe_distance ?n start ?p = d" by (rule probe_distance_pos [OF start dn])
  have wrap: "wrapping_add 64 start d mod ?n = ?p" using wrap_step [OF cap start] dn by simp
  show ?case
  proof (cases "s ! ?p")
    case Empty
    have "\<forall>j < ?n. probe_distance ?n start j < d \<longrightarrow> s ! j \<noteq> Empty"
      using Suc.prems(2) start by (metis pos_probe_distance)
    moreover have "u32_try_from ?p = Some ?p" using p cap by (simp add: u32_try_from_def)
    ultimately show ?thesis using dn Empty p pd wrap by (intro exI [of _ ?p]) (simp add: upt_conv_Cons Let_def)
  next
    case (Occupied k' v')
    have "k' \<noteq> k" using absent [of ?p v'] p Occupied by (auto simp: slot_holds_def)
    moreover have "\<forall>e < Suc d. s ! ((start + e) mod ?n) \<noteq> Empty"
      using Suc.prems(2) Occupied by (auto simp: less_Suc_eq)
    ultimately show ?thesis
      using Suc.hyps(1) [of "Suc d"] Suc.hyps(2) dn Occupied wrap by (auto simp: upt_conv_Cons)
  qed
qed

lemma insert_loop_Duplicate:
  assumes inv: "probe_inv s" and holds: "slot_holds s i k w" and start: "start = probe_start (length s) k"
    and d: "d \<le> probe_distance (length s) start i"
  shows "probe_insert_loop s k v start [d..<length s] = Err ProbeDuplicate"
  using d
proof (induction "probe_distance (length s) start i - d" arbitrary: d)
  case (0 d)
  let ?n = "length s"
  have i: "i < ?n" using holds by (simp add: slot_holds_def)
  have st: "start < ?n" unfolding start by (rule probe_start_less) (use i in auto)
  from 0 have d: "d = probe_distance ?n start i" by simp
  have dn: "d < ?n" using d st i by (simp add: probe_distance_less)
  have "wrapping_add 64 start d mod ?n = i"
    using wrap_step [of ?n start d] probe_inv_capacity [OF inv] st dn d i
    by (simp add: pos_probe_distance)
  with dn holds show ?case by (simp add: upt_conv_Cons slot_holds_def)
next
  case (Suc x d)
  let ?n = "length s"
  let ?p = "(start + d) mod ?n"
  have i: "i < ?n" using holds by (simp add: slot_holds_def)
  have st: "start < ?n" unfolding start by (rule probe_start_less) (use i in auto)
  from Suc.hyps(2) have lt: "d < probe_distance ?n start i" by simp
  then have dn: "d < ?n" using probe_distance_less [OF st i] by simp
  have p: "?p < ?n" by (rule mod_less_divisor) (use dn in auto)
  have "s ! ?p \<noteq> Empty"
    using probe_inv_path [OF inv holds p] probe_distance_pos [OF st dn] lt start by simp
  moreover have "wrapping_add 64 start d mod ?n = ?p"
    using wrap_step [of ?n start d] probe_inv_capacity [OF inv] st dn by simp
  moreover have "probe_insert_loop s k v start [Suc d..<?n] = Err ProbeDuplicate"
    by (rule Suc.hyps(1)) (use Suc.hyps(2) in auto)
  ultimately show ?case using dn by (auto simp: upt_conv_Cons Let_def split: IndexSlot.splits)
qed

lemma probe_inv_insert:
  assumes inv: "probe_inv s" and i: "i < length s" "s ! i = Empty" and w: "0 < w"
    and absent: "\<And>i v. \<not> slot_holds s i k v"
    and path: "\<forall>j < length s. probe_distance (length s) (probe_start (length s) k) j
        < probe_distance (length s) (probe_start (length s) k) i \<longrightarrow> s ! j \<noteq> Empty"
  shows "probe_inv (s[i := Occupied k w])"
  unfolding probe_inv_def slot_holds_update [OF i(1)] length_list_update
proof (intro conjI allI impI)
  show "length s \<le> 2 ^ 32" by (rule probe_inv_capacity [OF inv])
next
  fix a b k' v w'
  assume "if a = i then k' = k \<and> v = w else slot_holds s a k' v"
    and "if b = i then k' = k \<and> w' = w else slot_holds s b k' w'"
  then show "a = b" using absent probe_inv_unique [OF inv] by (auto split: if_splits)
next
  fix a k' v
  assume "if a = i then k' = k \<and> v = w else slot_holds s a k' v"
  then show "0 < v" using w inv by (auto simp: probe_inv_def split: if_splits)
next
  fix a k' v j
  assume a: "if a = i then k' = k \<and> v = w else slot_holds s a k' v" and j: "j < length s"
    and lt: "probe_distance (length s) (probe_start (length s) k') j
      < probe_distance (length s) (probe_start (length s) k') a"
  show "s[i := Occupied k w] ! j \<noteq> Empty"
  proof (cases "a = i")
    case True
    with a have "k' = k" by simp
    with True lt path j i(1) show ?thesis by (simp add: nth_list_update)
  next
    case False
    with a have "slot_holds s a k' v" by simp
    from probe_inv_path [OF inv this j lt] show ?thesis using j i(1) by (simp add: nth_list_update)
  qed
qed

lemma probe_insert_correct:
  assumes inv: "probe_inv s" and absent: "find_slot s k = None"
    and room: "\<exists>e < length s. s ! e = Empty" and v: "v + 1 < 2 ^ 64"
  shows "\<exists>i. probe_insert s k v = Ok (i, s[i := Occupied k (v + 1)]) \<and> i < length s \<and>
    s ! i = Empty \<and> probe_inv (s[i := Occupied k (v + 1)])"
proof -
  have ne: "0 < length s" using room by auto
  have abs: "\<And>i v. \<not> slot_holds s i k v" using find_slot_None [OF inv] absent by blast
  from insert_loop_Ok [OF probe_inv_capacity [OF inv] probe_start_less [OF ne] abs room, where d = 0 and v = "v + 1"]
  obtain i where i: "probe_insert_loop s k (v + 1) (probe_start (length s) k) [0..<length s]
      = Ok (i, s[i := Occupied k (v + 1)])" "i < length s" "s ! i = Empty"
    "\<forall>j < length s. probe_distance (length s) (probe_start (length s) k) j
        < probe_distance (length s) (probe_start (length s) k) i \<longrightarrow> s ! j \<noteq> Empty"
    by auto
  have "probe_inv (s[i := Occupied k (v + 1)])"
    by (rule probe_inv_insert [OF inv i(2,3) _ abs i(4)]) simp
  with i ne v show ?thesis by (auto simp: probe_insert_def checked_add_def)
qed

lemma probe_insert_Duplicate:
  assumes "probe_inv s" and "find_slot s k = Some i" and "v + 1 < 2 ^ 64"
  shows "probe_insert s k v = Err ProbeDuplicate"
proof -
  from assms obtain w where w: "slot_holds s i k w" using find_slot_iff by blast
  then have "s \<noteq> []" by (auto simp: slot_holds_def)
  with insert_loop_Duplicate [OF assms(1) w refl, of 0] assms(3) show ?thesis
    by (simp add: probe_insert_def checked_add_def)
qed

section \<open>Deletion\<close>

text \<open>
  While the back-shift loop runs, slot \<open>hole\<close> holds a stale entry that counts as absent. The
  probe path of an entry may run through the hole only if the entry lies at or beyond the candidate,
  that is, has not been examined yet.
\<close>

definition hole_inv :: "probe_index \<Rightarrow> nat \<Rightarrow> nat \<Rightarrow> bool" where
  "hole_inv s hole candidate \<longleftrightarrow> length s \<le> 2 ^ 32 \<and> hole < length s \<and> candidate < length s \<and>
     (\<forall>i j k v w. i \<noteq> hole \<longrightarrow> j \<noteq> hole \<longrightarrow> slot_holds s i k v \<longrightarrow> slot_holds s j k w \<longrightarrow> i = j) \<and>
     (\<forall>i k v. i \<noteq> hole \<longrightarrow> slot_holds s i k v \<longrightarrow> 0 < v \<and>
        (\<forall>j < length s. probe_distance (length s) (probe_start (length s) k) j
            < probe_distance (length s) (probe_start (length s) k) i \<longrightarrow>
          (if j = hole then probe_distance (length s) hole candidate \<le> probe_distance (length s) hole i
           else s ! j \<noteq> Empty)))"

lemma hole_inv_path:
  assumes "hole_inv s hole c" and "i \<noteq> hole" and "slot_holds s i k v" and "j < length s"
    and "probe_distance (length s) (probe_start (length s) k) j
      < probe_distance (length s) (probe_start (length s) k) i"
  shows "if j = hole then probe_distance (length s) hole c \<le> probe_distance (length s) hole i
    else s ! j \<noteq> Empty"
  using assms unfolding hole_inv_def by blast

lemma hole_inv_init:
  assumes inv: "probe_inv s" and h: "hole < length s"
  shows "hole_inv s hole ((hole + 1) mod length s)"
proof -
  let ?n = "length s"
  have c: "(hole + 1) mod ?n < ?n" by (rule mod_less_divisor) (use h in auto)
  have d1: "probe_distance ?n hole ((hole + 1) mod ?n) \<le> 1"
    by (rule probe_distance_to_succ [OF h])
  have "1 \<le> probe_distance ?n hole i" if "i \<noteq> hole" "slot_holds s i k v" for i k v
    using that h probe_distance_0 [of hole ?n i] by (auto simp: slot_holds_def Suc_le_eq)
  with d1 have reach: "probe_distance ?n hole ((hole + 1) mod ?n) \<le> probe_distance ?n hole i"
    if "i \<noteq> hole" "slot_holds s i k v" for i k v
    using that by fastforce
  show ?thesis
    unfolding hole_inv_def
  proof (intro conjI allI impI)
    fix i k v j
    assume "i \<noteq> hole" "slot_holds s i k v" "j < ?n"
      "probe_distance ?n (probe_start ?n k) j < probe_distance ?n (probe_start ?n k) i"
    with reach [of i k v] probe_inv_path [OF inv] show
      "if j = hole then probe_distance ?n hole ((hole + 1) mod ?n) \<le> probe_distance ?n hole i else s ! j \<noteq> Empty"
      by simp
  qed (use inv h c in \<open>auto simp: probe_inv_def\<close>)
qed

lemma hole_inv_skip:
  assumes J: "hole_inv s hole c" and occ: "slot_holds s c k v" and cn: "c \<noteq> hole"
    and nxt: "(c + 1) mod length s \<noteq> hole"
    and stay: "\<not> probe_distance (length s) (probe_start (length s) k) hole
      < probe_distance (length s) (probe_start (length s) k) c"
  shows "hole_inv s hole ((c + 1) mod length s)"
proof -
  let ?n = "length s"
  have h: "hole < ?n" and c: "c < ?n" using J by (auto simp: hole_inv_def)
  have c': "(c + 1) mod ?n < ?n" by (rule mod_less_divisor) (use h in auto)
  have d: "probe_distance ?n hole ((c + 1) mod ?n) = probe_distance ?n hole c + 1"
    by (rule probe_distance_succ [OF h c nxt])
  have "probe_distance ?n hole c + 1 \<le> probe_distance ?n hole i"
    if i: "i \<noteq> hole" "slot_holds s i k' v'"
      and lt: "probe_distance ?n (probe_start ?n k') hole < probe_distance ?n (probe_start ?n k') i" for i k' v'
  proof -
    have "probe_distance ?n hole c \<le> probe_distance ?n hole i"
      using hole_inv_path [OF J i h lt] by simp
    moreover have "i \<noteq> c"
    proof
      assume "i = c"
      with occ i have "k' = k" by (simp add: slot_holds_def)
      with lt stay \<open>i = c\<close> show False by simp
    qed
    moreover have "i < ?n" using i by (simp add: slot_holds_def)
    ultimately show ?thesis using probe_distance_inj [OF h c, of i] by fastforce
  qed
  with J c' d show ?thesis unfolding hole_inv_def by (simp only: if_split) blast
qed

lemma hole_inv_move:
  assumes J: "hole_inv s hole c" and occ: "slot_holds s c k v" and cn: "c \<noteq> hole"
    and shift: "probe_distance (length s) (probe_start (length s) k) hole
      < probe_distance (length s) (probe_start (length s) k) c"
  shows "hole_inv (s[hole := Occupied k v]) c ((c + 1) mod length s)"
  unfolding hole_inv_def length_list_update
proof (intro conjI allI impI)
  let ?n = "length s"
  have h: "hole < ?n" and c: "c < ?n" using J by (auto simp: hole_inv_def)
  show "?n \<le> 2 ^ 32" "c < ?n" using J by (auto simp: hole_inv_def)
  show "(c + 1) mod ?n < ?n" by (rule mod_less_divisor) (use h in auto)
  have uniq: "\<And>i j k v w. i \<noteq> hole \<Longrightarrow> j \<noteq> hole \<Longrightarrow> slot_holds s i k v \<Longrightarrow> slot_holds s j k w \<Longrightarrow> i = j"
    using J unfolding hole_inv_def by blast
  have path: "if j = hole then probe_distance ?n hole c \<le> probe_distance ?n hole i else s ! j \<noteq> Empty"
    if "i \<noteq> hole" "slot_holds s i k' v'" "j < ?n"
      "probe_distance ?n (probe_start ?n k') j < probe_distance ?n (probe_start ?n k') i" for i j k' v'
    by (rule hole_inv_path [OF J that])
  {
    fix i j k' x y
    assume "i \<noteq> c" "j \<noteq> c" "slot_holds (s[hole := Occupied k v]) i k' x"
      "slot_holds (s[hole := Occupied k v]) j k' y"
    then show "i = j"
      using uniq [of i j k' x y] uniq [of c i k v x] uniq [of c j k v y] occ cn
      unfolding slot_holds_update [OF h] by (auto split: if_splits)
  }
  fix i k' x
  assume i: "i \<noteq> c" and s': "slot_holds (s[hole := Occupied k v]) i k' x"
  show "0 < x"
    using s' J occ cn unfolding slot_holds_update [OF h] hole_inv_def by (auto split: if_splits)
  fix j
  assume j: "j < ?n"
    and lt: "probe_distance ?n (probe_start ?n k') j < probe_distance ?n (probe_start ?n k') i"
  have "1 \<le> probe_distance ?n c i"
    using i c s' probe_distance_0 [of c ?n i] by (auto simp: slot_holds_def Suc_le_eq)
  moreover have "probe_distance ?n c ((c + 1) mod ?n) \<le> 1"
    by (rule probe_distance_to_succ [OF c])
  moreover have "s[hole := Occupied k v] ! j \<noteq> Empty" if "j \<noteq> c" "j \<noteq> hole"
  proof (cases "i = hole")
    case True
    with s' h have "k' = k" by (simp add: slot_holds_update)
    with lt shift True have "probe_distance ?n (probe_start ?n k) j < probe_distance ?n (probe_start ?n k) c" by simp
    from path [OF cn occ j this] that h show ?thesis by simp
  next
    case False
    with s' h have "slot_holds s i k' x" by (simp add: slot_holds_update)
    from path [OF False this j lt] that h show ?thesis by simp
  qed
  ultimately show "if j = c then probe_distance ?n c ((c + 1) mod ?n) \<le> probe_distance ?n c i
      else s[hole := Occupied k v] ! j \<noteq> Empty"
    using h by (cases "j = hole") auto
qed

lemma hole_inv_close:
  assumes J: "hole_inv s hole c" and emp: "s ! c = Empty" and cn: "c \<noteq> hole"
  shows "probe_inv (s[hole := Empty])"
  unfolding probe_inv_def length_list_update
proof (intro conjI allI impI)
  let ?n = "length s"
  have h: "hole < ?n" and c: "c < ?n" using J by (auto simp: hole_inv_def)
  show "?n \<le> 2 ^ 32" using J by (auto simp: hole_inv_def)
  {
    fix i j k v w
    assume "slot_holds (s[hole := Empty]) i k v" "slot_holds (s[hole := Empty]) j k w"
    then show "i = j" using J unfolding slot_holds_clear [OF h] hole_inv_def by blast
  }
  fix i k v
  assume "slot_holds (s[hole := Empty]) i k v"
  then have i: "i \<noteq> hole" "slot_holds s i k v" unfolding slot_holds_clear [OF h] by auto
  then have ic: "i \<noteq> c" and iN: "i < ?n" using emp by (auto simp: slot_holds_def)
  show "0 < v" using J i unfolding hole_inv_def by blast
  fix j
  assume j: "j < ?n" and lt: "probe_distance ?n (probe_start ?n k) j < probe_distance ?n (probe_start ?n k) i"
  let ?st = "probe_start ?n k"
  have st: "?st < ?n" by (rule probe_start_less) (use h in auto)
  have path: "if j = hole then probe_distance ?n hole c \<le> probe_distance ?n hole i else s ! j \<noteq> Empty"
    if "j < ?n" "probe_distance ?n ?st j < probe_distance ?n ?st i" for j
    by (rule hole_inv_path [OF J i that])
  have "j \<noteq> hole"
  proof
    assume "j = hole"
    with lt have lth: "probe_distance ?n ?st hole < probe_distance ?n ?st i" by simp
    with path [OF h] have "probe_distance ?n hole c \<le> probe_distance ?n hole i" by simp
    with ic probe_distance_inj [OF h c iN] have "probe_distance ?n hole c < probe_distance ?n hole i"
      by (auto simp: le_less)
    from probe_distance_between [OF st h iN c lth this] path [OF c] emp cn show False by auto
  qed
  with path [OF j lt] show "s[hole := Empty] ! j \<noteq> Empty" by simp
qed

text \<open>
  What deletion asks of its caller's \<open>update_moved\<close> closure. \<open>R st k v i\<close> says that the
  caller's record of key \<open>k\<close>, found at \<open>v\<close>, stores handle \<open>i\<close>, and \<open>Q\<close>
  is whatever the caller keeps true meanwhile: the closure rewrites the handle of that record and
  nothing else.
\<close>

locale index_client =
  fixes update_moved :: "nat \<Rightarrow> nat \<Rightarrow> nat \<Rightarrow> 's \<Rightarrow> 's"
    and R :: "'s \<Rightarrow> nat \<Rightarrow> nat \<Rightarrow> nat \<Rightarrow> bool"
    and Q :: "'s \<Rightarrow> bool"
  assumes update_Q: "Q st \<Longrightarrow> R st k v i \<Longrightarrow> Q (update_moved k v n st)"
    and update_same: "Q st \<Longrightarrow> R st k v i \<Longrightarrow> R (update_moved k v n st) k v n"
    and update_other: "Q st \<Longrightarrow> R st k v i \<Longrightarrow> k' \<noteq> k \<Longrightarrow> R st k' v' i' \<Longrightarrow> R (update_moved k v n st) k' v' i'"
begin

text \<open>Every entry but the hole's is recorded by the caller under its current position.\<close>

lemma remove_loop_correct:
  assumes "hole_inv s hole c" and "e < length s" and "s ! e = Empty" and "e \<noteq> hole"
    and "probe_distance (length s) c e < probe_distance (length s) c hole"
    and "probe_distance (length s) c e < fuel" and "Q st"
    and "\<And>i k v. i \<noteq> hole \<Longrightarrow> slot_holds s i k (Suc v) \<Longrightarrow> R st k v i"
  shows "\<exists>s' st'. remove_loop fuel s hole c update_moved st = Some (s', st') \<and> probe_inv s' \<and>
    length s' = length s \<and> Q st' \<and> (\<forall>i k v. slot_holds s' i k (Suc v) \<longrightarrow> R st' k v i) \<and>
    (\<forall>k v. (\<exists>i. slot_holds s' i k v) \<longleftrightarrow> (\<exists>i. i \<noteq> hole \<and> slot_holds s i k v))"
  using assms
proof (induction fuel arbitrary: s hole c st)
  case 0
  then show ?case by simp
next
  case (Suc fuel)
  let ?n = "length s"
  have h: "hole < ?n" and c: "c < ?n" and cap: "?n \<le> 2 ^ 32" using Suc.prems(1) by (auto simp: hole_inv_def)
  have cn: "c \<noteq> hole" using Suc.prems(5) probe_distance_0 [OF c c] by auto
  have wrap: "wrapping_add 64 c 1 mod ?n = (c + 1) mod ?n" by (rule wrap_succ [OF cap c])
  show ?case
  proof (cases "s ! c")
    case Empty
    then have "probe_inv (s[hole := Empty])" using hole_inv_close [OF Suc.prems(1) _ cn] by simp
    with Empty Suc.prems(7,8) show ?thesis by (auto simp: slot_holds_clear [OF h])
  next
    case (Occupied k v)
    then have occ: "slot_holds s c k v" using c by (simp add: slot_holds_def)
    with Suc.prems(1) cn have v: "0 < v" unfolding hole_inv_def by blast
    have ec: "e \<noteq> c" using Occupied Suc.prems(3) by auto
    let ?c = "(c + 1) mod ?n"
    have c': "?c < ?n" by (rule mod_less_divisor) (use h in auto)
    have de: "probe_distance ?n c e = probe_distance ?n ?c e + 1"
      by (rule probe_distance_from_succ [OF c Suc.prems(2) ec])
    have dh: "probe_distance ?n c hole = probe_distance ?n ?c hole + 1"
      by (rule probe_distance_from_succ [OF c h cn [symmetric]])
    show ?thesis
    proof (cases "probe_distance ?n (probe_start ?n k) hole < probe_distance ?n (probe_start ?n k) c")
      case True
      let ?s = "s[hole := Occupied k v]"
      have Rc: "R st k (v - 1) c" using Suc.prems(8) [OF cn, of k "v - 1"] occ v by simp
      let ?st = "update_moved k (v - 1) hole st"
      have R': "R ?st k' v' i" if "i \<noteq> c" "slot_holds ?s i k' (Suc v')" for i k' v'
      proof (cases "i = hole")
        case True
        with that h have "k' = k" "v = Suc v'" by (auto simp: slot_holds_update)
        with True update_same [OF Suc.prems(7) Rc] show ?thesis by simp
      next
        case False
        with that h have s_i: "slot_holds s i k' (Suc v')" by (simp add: slot_holds_update)
        have "k' \<noteq> k" using Suc.prems(1) occ s_i cn False that(1) unfolding hole_inv_def by blast
        with update_other [OF Suc.prems(7) Rc _ Suc.prems(8) [OF False s_i]] show ?thesis by simp
      qed
      have dc: "probe_distance ?n ?c e < probe_distance ?n ?c c"
        by (rule probe_distance_wrap [OF c Suc.prems(2) ec])
      have "\<exists>s' st'. remove_loop fuel ?s c ?c update_moved ?st = Some (s', st') \<and> probe_inv s' \<and>
          length s' = length ?s \<and> Q st' \<and> (\<forall>i k v. slot_holds s' i k (Suc v) \<longrightarrow> R st' k v i) \<and>
          (\<forall>k v. (\<exists>i. slot_holds s' i k v) \<longleftrightarrow> (\<exists>i. i \<noteq> c \<and> slot_holds ?s i k v))"
        using Suc.IH [of ?s c ?c ?st] hole_inv_move [OF Suc.prems(1) occ cn True] Suc.prems(2,3,4,6) ec dc de
          update_Q [OF Suc.prems(7) Rc] R' by simp
      moreover have "(\<exists>i. i \<noteq> c \<and> slot_holds ?s i k' v') \<longleftrightarrow> (\<exists>i. i \<noteq> hole \<and> slot_holds s i k' v')" for k' v'
      proof -
        have "slot_holds s c k' v' \<longleftrightarrow> k' = k \<and> v' = v" using occ by (auto simp: slot_holds_def)
        then show ?thesis unfolding slot_holds_update [OF h] using cn by metis
      qed
      moreover have "u32_try_from hole = Some hole" using h cap by (simp add: u32_try_from_def)
      ultimately show ?thesis using Occupied True wrap by (simp add: Let_def)
    next
      case False
      have nxt: "?c \<noteq> hole" using Suc.prems(5) dh de probe_distance_0 [OF c' c'] by auto
      have "\<exists>s' st'. remove_loop fuel s hole ?c update_moved st = Some (s', st') \<and> probe_inv s' \<and>
          length s' = length s \<and> Q st' \<and> (\<forall>i k v. slot_holds s' i k (Suc v) \<longrightarrow> R st' k v i) \<and>
          (\<forall>k v. (\<exists>i. slot_holds s' i k v) \<longleftrightarrow> (\<exists>i. i \<noteq> hole \<and> slot_holds s i k v))"
        using Suc.IH [OF hole_inv_skip [OF Suc.prems(1) occ cn nxt False] Suc.prems(2-4) _ _ Suc.prems(7,8)]
          Suc.prems(5,6) de dh by simp
      then show ?thesis using Occupied False wrap by (simp add: Let_def)
    qed
  qed
qed

lemma remove_at_correct:
  assumes inv: "probe_inv s" and room: "\<exists>e < length s. s ! e = Empty" and holds: "slot_holds s h key (Suc v)"
    and Q: "Q st" and R: "\<And>i k v. i \<noteq> h \<Longrightarrow> slot_holds s i k (Suc v) \<Longrightarrow> R st k v i"
  shows "\<exists>s' st'. probe_remove_at s h key update_moved st = Some (s', st', Some v) \<and> probe_inv s' \<and>
    length s' = length s \<and> Q st' \<and> (\<forall>i k v. slot_holds s' i k (Suc v) \<longrightarrow> R st' k v i) \<and>
    (\<forall>k v. (\<exists>i. slot_holds s' i k v) \<longleftrightarrow> k \<noteq> key \<and> (\<exists>i. slot_holds s i k v))"
proof -
  let ?n = "length s"
  from room obtain e where e: "e < ?n" "s ! e = Empty" by blast
  have h: "h < ?n" using holds by (simp add: slot_holds_def)
  have eh: "e \<noteq> h" using e holds by (auto simp: slot_holds_def)
  let ?c = "(h + 1) mod ?n"
  have c: "?c < ?n" by (rule mod_less_divisor) (use h in auto)
  have d: "probe_distance ?n ?c e < probe_distance ?n ?c h" "probe_distance ?n ?c e < ?n"
    using probe_distance_wrap [OF h e(1) eh] probe_distance_less [OF c e(1)] by auto
  from remove_loop_correct [OF hole_inv_init [OF inv h] e eh d Q R]
  obtain s' st' where loop: "remove_loop ?n s h ?c update_moved st = Some (s', st')" "probe_inv s'"
    "length s' = ?n" "Q st'" "\<forall>i k v. slot_holds s' i k (Suc v) \<longrightarrow> R st' k v i"
    "\<forall>k v. (\<exists>i. slot_holds s' i k v) \<longleftrightarrow> (\<exists>i. i \<noteq> h \<and> slot_holds s i k v)" by blast
  have "(\<exists>i. i \<noteq> h \<and> slot_holds s i k w) \<longleftrightarrow> k \<noteq> key \<and> (\<exists>i. slot_holds s i k w)" for k w
    using probe_inv_unique [OF inv] holds by (metis IndexSlot.inject slot_holds_def)
  with loop holds h wrap_succ [OF probe_inv_capacity [OF inv] h] show ?thesis
    by (auto simp: probe_remove_at_def slot_holds_def)
qed

end

end
