(* ===== verification/Risk.thy ===== *)
theory Risk
  imports ProbeIndex
begin

text \<open>
  The pre-trade risk engine of \<open>crates/hft-risk/src/lib.rs\<close>: accounts with limits and
  exposure, reservations in stable slots drawn from a free list, and one probe index for each. The
  array capacities \<open>ACCOUNTS\<close> and \<open>ORDERS\<close> are the lengths of the slot lists. An
  operation returns \<open>None\<close> where the source would panic and otherwise a result; a rejection
  carries no new engine because the source mutates nothing before it rejects.
\<close>

unbundle bit_operations_syntax

section \<open>State\<close>

record RiskLimits =
  rl_max_quantity :: Quantity
  rl_max_notional :: nat
  rl_max_abs_position :: Quantity
  rl_max_open_orders :: nat
  rl_minimum_price :: PriceTicks
  rl_maximum_price :: PriceTicks

datatype RegistrationError = DuplicateAccount | AccountCapacity | InvalidLimits

record AccountState =
  ac_id :: AccountId
  ac_limits :: RiskLimits
  ac_settled_position :: int
  ac_reserved_buys :: nat
  ac_reserved_sells :: nat
  ac_open_orders :: nat
  ac_killed :: bool

record Reservation =
  rv_order_id :: OrderId
  rv_account_id :: AccountId
  rv_index_slot :: nat
  rv_side :: Side
  rv_quantity :: Quantity

datatype ReservationSlot = ResFree nat | ResLive Reservation

definition INDEX_PLANES :: nat where "INDEX_PLANES = 2"

record RiskEngine =
  re_accounts :: "AccountState option list"
  re_account_index :: probe_index
  re_reservations :: "ReservationSlot list"
  re_reservation_free_head :: nat
  re_reservation_index :: probe_index
  re_maximum_order_id :: "OrderId option"
  re_killed :: bool

definition risk_new :: "nat \<Rightarrow> nat \<Rightarrow> RiskEngine" where
  "risk_new ACCOUNTS ORDERS =
     \<lparr>re_accounts = replicate ACCOUNTS None,
      re_account_index = probe_new (ACCOUNTS * INDEX_PLANES),
      re_reservations = map (\<lambda>index. ResFree (fresh_link ORDERS index)) [0..<ORDERS],
      re_reservation_free_head = (if ORDERS = 0 then NIL else 0),
      re_reservation_index = probe_new (ORDERS * INDEX_PLANES),
      re_maximum_order_id = None,
      re_killed = False\<rparr>"

section \<open>Limits\<close>

definition limits_invalid :: "RiskLimits \<Rightarrow> bool" where
  "limits_invalid l \<longleftrightarrow> rl_max_quantity l = 0 \<or> rl_max_open_orders l = 0 \<or>
     rl_minimum_price l > rl_maximum_price l"

text \<open>Settled position and reserved totals after \<open>filled\<close> is traded and \<open>released\<close> freed.\<close>

definition exposure_after_fill ::
  "AccountState \<Rightarrow> Side \<Rightarrow> nat \<Rightarrow> nat \<Rightarrow> (int \<times> nat \<times> nat, RejectReason) result" where
  "exposure_after_fill account side filled released =
     and_then (ok_or ArithmeticOverflow
       (case side of
          Buy \<Rightarrow> checked_iadd 128 (ac_settled_position account) (int filled)
        | Sell \<Rightarrow> checked_isub 128 (ac_settled_position account) (int filled)))
     (\<lambda>settled_position.
       case side of
         Buy \<Rightarrow> and_then (ok_or ArithmeticOverflow (checked_sub (ac_reserved_buys account) released))
                 (\<lambda>b. Ok (settled_position, b, ac_reserved_sells account))
       | Sell \<Rightarrow> and_then (ok_or ArithmeticOverflow (checked_sub (ac_reserved_sells account) released))
                 (\<lambda>s. Ok (settled_position, ac_reserved_buys account, s)))"

text \<open>The price times quantity of an order, in the checked widths of the source.\<close>

definition notional_of :: "PriceTicks \<Rightarrow> Quantity \<Rightarrow> (nat, RejectReason) result" where
  "notional_of price quantity =
     and_then (ok_or ArithmeticOverflow (checked_abs 64 price)) (\<lambda>absolute_price.
     and_then (ok_or ArithmeticOverflow (u64_try_from absolute_price)) (\<lambda>unsigned_price.
       ok_or ArithmeticOverflow (checked_mul 128 unsigned_price quantity)))"

definition add_reserved ::
  "AccountState \<Rightarrow> Side \<Rightarrow> nat \<Rightarrow> (nat \<times> nat, RejectReason) result" where
  "add_reserved account side quantity =
     (case side of
        Buy \<Rightarrow> and_then (ok_or ArithmeticOverflow (checked_add 128 (ac_reserved_buys account) quantity))
                (\<lambda>b. Ok (b, ac_reserved_sells account))
      | Sell \<Rightarrow> and_then (ok_or ArithmeticOverflow (checked_add 128 (ac_reserved_sells account) quantity))
                (\<lambda>s. Ok (ac_reserved_buys account, s)))"

text \<open>Worst-case long and short positions against the position limit.\<close>

definition check_position :: "AccountState \<Rightarrow> nat \<Rightarrow> nat \<Rightarrow> (unit, RejectReason) result" where
  "check_position account reserved_buys reserved_sells =
     (let maximum_position = int (rl_max_abs_position (ac_limits account)) in
      and_then (ok_or ArithmeticOverflow (i128_try_from reserved_buys)) (\<lambda>buys.
      and_then (ok_or ArithmeticOverflow (checked_iadd 128 (ac_settled_position account) buys)) (\<lambda>worst_long.
      and_then (ok_or ArithmeticOverflow (i128_try_from reserved_sells)) (\<lambda>sells.
      and_then (ok_or ArithmeticOverflow (checked_isub 128 (ac_settled_position account) sells)) (\<lambda>worst_short.
        if worst_long > maximum_position \<or> worst_short < - maximum_position
        then Err PositionLimit else Ok ())))))"

definition evaluate_limits ::
  "AccountState \<Rightarrow> NewOrder \<Rightarrow> (nat \<times> nat \<times> nat, RejectReason) result" where
  "evaluate_limits account order =
     (if ac_killed account then Err KillSwitch
      else if no_quantity order > rl_max_quantity (ac_limits account) then Err QuantityLimit
      else if no_price order < rl_minimum_price (ac_limits account)
              \<or> no_price order > rl_maximum_price (ac_limits account) then Err PriceCollar
      else and_then (notional_of (no_price order) (no_quantity order)) (\<lambda>notional.
        if notional > rl_max_notional (ac_limits account) then Err NotionalLimit
        else and_then (add_reserved account (no_side order) (no_quantity order))
          (\<lambda>(reserved_buys, reserved_sells).
        and_then (check_position account reserved_buys reserved_sells) (\<lambda>_.
        and_then (ok_or ArithmeticOverflow (checked_add 32 (ac_open_orders account) 1)) (\<lambda>open_orders.
          if open_orders > rl_max_open_orders (ac_limits account) then Err OpenOrderLimit
          else Ok (reserved_buys, reserved_sells, open_orders))))))"

section \<open>Lookups\<close>

definition account_slot :: "RiskEngine \<Rightarrow> AccountId \<Rightarrow> nat option" where
  "account_slot re aid = probe_lookup (re_account_index re) aid"

definition live_reservation :: "RiskEngine \<Rightarrow> OrderId \<Rightarrow> (nat \<times> Reservation) option" where
  "live_reservation re order_id =
     (case probe_lookup (re_reservation_index re) order_id of
        None \<Rightarrow> None
      | Some slot \<Rightarrow>
          (case nth_opt (re_reservations re) slot of
             Some (ResLive reservation) \<Rightarrow>
               if rv_order_id reservation \<noteq> order_id then None else Some (slot, reservation)
           | _ \<Rightarrow> None))"

text \<open>\<open>account_slot(aid)\<close> followed by \<open>self.accounts[slot]\<close>, with their rejections.\<close>

definition account_entry ::
  "RiskEngine \<Rightarrow> AccountId \<Rightarrow> (nat \<times> AccountState, RejectReason) result option" where
  "account_entry re aid =
     (case account_slot re aid of
        None \<Rightarrow> Some (Err UnknownAccount)
      | Some slot \<Rightarrow>
          (case nth_opt (re_accounts re) slot of
             None \<Rightarrow> None
           | Some None \<Rightarrow> Some (Err UnknownAccount)
           | Some (Some account) \<Rightarrow> Some (Ok (slot, account))))"

definition set_account :: "RiskEngine \<Rightarrow> nat \<Rightarrow> AccountState \<Rightarrow> RiskEngine" where
  "set_account re slot account = re\<lparr>re_accounts := (re_accounts re)[slot := Some account]\<rparr>"

definition set_reservation :: "RiskEngine \<Rightarrow> nat \<Rightarrow> ReservationSlot \<Rightarrow> RiskEngine" where
  "set_reservation re slot r = re\<lparr>re_reservations := (re_reservations re)[slot := r]\<rparr>"

section \<open>Operations\<close>

definition move_reservation :: "nat \<Rightarrow> nat \<Rightarrow> nat \<Rightarrow> ReservationSlot list \<Rightarrow> ReservationSlot list" where
  "move_reservation moved_key moved_slot new_flat rs =
     (case nth_opt rs moved_slot of
        Some (ResLive moved) \<Rightarrow>
          if rv_order_id moved \<noteq> moved_key then rs
          else rs[moved_slot := ResLive (moved\<lparr>rv_index_slot := new_flat\<rparr>)]
      | _ \<Rightarrow> rs)"

definition release_reservation :: "RiskEngine \<Rightarrow> nat \<Rightarrow> Reservation \<Rightarrow> RiskEngine option" where
  "release_reservation re slot reservation =
     do {
       (ix, rs, removed) \<leftarrow> probe_remove_at (re_reservation_index re) (rv_index_slot reservation)
          (rv_order_id reservation) move_reservation (re_reservations re);
       Some (re\<lparr>re_reservation_index := ix,
                re_reservations := rs[slot := ResFree (re_reservation_free_head re)],
                re_reservation_free_head := slot\<rparr>)
     }"

fun first_none :: "'a option list \<Rightarrow> nat option" where
  "first_none [] = None"
| "first_none (None # xs) = Some 0"
| "first_none (Some x # xs) = map_option Suc (first_none xs)"

definition register_account ::
  "RiskEngine \<Rightarrow> AccountId \<Rightarrow> RiskLimits \<Rightarrow> (RiskEngine, RegistrationError) result" where
  "register_account re aid limits =
     (if limits_invalid limits then Err InvalidLimits
      else if account_slot re aid \<noteq> None then Err DuplicateAccount
      else case first_none (re_accounts re) of
        None \<Rightarrow> Err AccountCapacity
      | Some slot \<Rightarrow>
          (case probe_insert (re_account_index re) aid slot of
             Err ProbeFull \<Rightarrow> Err AccountCapacity
           | Err ProbeDuplicate \<Rightarrow> Err DuplicateAccount
           | Ok (_, ix) \<Rightarrow>
               Ok (set_account (re\<lparr>re_account_index := ix\<rparr>) slot
                 \<lparr>ac_id = aid, ac_limits = limits, ac_settled_position = 0, ac_reserved_buys = 0,
                  ac_reserved_sells = 0, ac_open_orders = 0, ac_killed = False\<rparr>)))"

definition set_kill_switch :: "RiskEngine \<Rightarrow> bool \<Rightarrow> RiskEngine" where
  "set_kill_switch re k = re\<lparr>re_killed := k\<rparr>"

definition set_account_kill_switch ::
  "RiskEngine \<Rightarrow> AccountId \<Rightarrow> bool \<Rightarrow> (RiskEngine, RejectReason) result option" where
  "set_account_kill_switch re account_id k =
     do {
       entry \<leftarrow> account_entry re account_id;
       Some (and_then entry (\<lambda>(slot, account). Ok (set_account re slot (account\<lparr>ac_killed := k\<rparr>))))
     }"

definition check_and_reserve ::
  "RiskEngine \<Rightarrow> NewOrder \<Rightarrow> (RiskEngine, RejectReason) result option" where
  "check_and_reserve re order =
     (if re_killed re then Some (Err KillSwitch)
      else if no_quantity order = 0 then Some (Err InvalidQuantity)
      else if (case re_maximum_order_id re of None \<Rightarrow> False | Some m \<Rightarrow> no_order_id order \<le> m)
        then Some (Err DuplicateOrderId)
      else if re_reservation_free_head re = NIL then Some (Err OrderCapacity)
      else do {
        entry \<leftarrow> account_entry re (no_account_id order);
        Some (and_then entry (\<lambda>(slot, account).
          and_then (evaluate_limits account order) (\<lambda>(reserved_buys, reserved_sells, open_orders).
            let reservation_slot = re_reservation_free_head re in
            case nth_opt (re_reservations re) reservation_slot of
              Some (ResFree next_free) \<Rightarrow>
                (case probe_insert (re_reservation_index re) (no_order_id order) reservation_slot of
                   Err ProbeFull \<Rightarrow> Err OrderCapacity
                 | Err ProbeDuplicate \<Rightarrow> Err ArithmeticOverflow
                 | Ok (index_slot, ix) \<Rightarrow>
                     Ok (set_reservation
                          (set_account
                            (re\<lparr>re_reservation_index := ix,
                                re_reservation_free_head := next_free,
                                re_maximum_order_id := Some (no_order_id order)\<rparr>)
                            slot (account\<lparr>ac_reserved_buys := reserved_buys,
                              ac_reserved_sells := reserved_sells, ac_open_orders := open_orders\<rparr>))
                          reservation_slot
                          (ResLive \<lparr>rv_order_id = no_order_id order, rv_account_id = no_account_id order,
                             rv_index_slot = index_slot, rv_side = no_side order,
                             rv_quantity = no_quantity order\<rparr>)))
            | _ \<Rightarrow> Err ArithmeticOverflow)))
      })"

definition settle_reservation ::
  "RiskEngine \<Rightarrow> nat \<Rightarrow> Reservation \<Rightarrow> Quantity \<Rightarrow> (RiskEngine, RejectReason) result option" where
  "settle_reservation re reservation_slot reservation filled_quantity =
     do {
       entry \<leftarrow> account_entry re (rv_account_id reservation);
       (case and_then entry (\<lambda>(slot, account).
               and_then (exposure_after_fill account (rv_side reservation) filled_quantity
                           (rv_quantity reservation)) (\<lambda>(settled, buys, sells).
               and_then (ok_or ArithmeticOverflow (checked_sub (ac_open_orders account) 1)) (\<lambda>open_orders.
                 Ok (set_account re slot (account\<lparr>ac_settled_position := settled,
                   ac_reserved_buys := buys, ac_reserved_sells := sells, ac_open_orders := open_orders\<rparr>))))) of
          Err e \<Rightarrow> Some (Err e)
        | Ok re' \<Rightarrow> map_option Ok (release_reservation re' reservation_slot reservation))
     }"

definition settle ::
  "RiskEngine \<Rightarrow> OrderId \<Rightarrow> Quantity \<Rightarrow> (RiskEngine, RejectReason) result option" where
  "settle re order_id filled_quantity =
     (case live_reservation re order_id of
        None \<Rightarrow> Some (Err UnknownOrder)
      | Some (reservation_slot, reservation) \<Rightarrow>
          if filled_quantity > rv_quantity reservation then Some (Err InvalidQuantity)
          else settle_reservation re reservation_slot reservation filled_quantity)"

definition record_fill ::
  "RiskEngine \<Rightarrow> OrderId \<Rightarrow> Quantity \<Rightarrow> (RiskEngine, RejectReason) result option" where
  "record_fill re order_id filled_quantity =
     (if filled_quantity = 0 then Some (Err InvalidQuantity)
      else case live_reservation re order_id of
        None \<Rightarrow> Some (Err UnknownOrder)
      | Some (reservation_slot, reservation) \<Rightarrow>
          (case checked_sub (rv_quantity reservation) filled_quantity of
             None \<Rightarrow> Some (Err InvalidQuantity)
           | Some left \<Rightarrow>
               let reservation = reservation\<lparr>rv_quantity := left\<rparr> in
               do {
                 entry \<leftarrow> account_entry re (rv_account_id reservation);
                 (case and_then entry (\<lambda>(slot, account).
                         and_then (exposure_after_fill account (rv_side reservation) filled_quantity
                                     filled_quantity) (\<lambda>(settled, buys, sells).
                         and_then (if left = 0
                                   then ok_or ArithmeticOverflow (checked_sub (ac_open_orders account) 1)
                                   else Ok (ac_open_orders account)) (\<lambda>open_orders.
                           Ok (set_account re slot (account\<lparr>ac_settled_position := settled,
                             ac_reserved_buys := buys, ac_reserved_sells := sells,
                             ac_open_orders := open_orders\<rparr>))))) of
                    Err e \<Rightarrow> Some (Err e)
                  | Ok re' \<Rightarrow>
                      if left = 0 then map_option Ok (release_reservation re' reservation_slot reservation)
                      else Some (Ok (set_reservation re' reservation_slot (ResLive reservation))))
               }))"

definition sub_reserved :: "AccountState \<Rightarrow> Side \<Rightarrow> nat \<Rightarrow> (AccountState, RejectReason) result" where
  "sub_reserved account side released =
     (case side of
        Buy \<Rightarrow> and_then (ok_or ArithmeticOverflow (checked_sub (ac_reserved_buys account) released))
                (\<lambda>b. Ok (account\<lparr>ac_reserved_buys := b\<rparr>))
      | Sell \<Rightarrow> and_then (ok_or ArithmeticOverflow (checked_sub (ac_reserved_sells account) released))
                (\<lambda>s. Ok (account\<lparr>ac_reserved_sells := s\<rparr>)))"

definition adjust_reservation ::
  "RiskEngine \<Rightarrow> OrderId \<Rightarrow> AccountId \<Rightarrow> PriceTicks \<Rightarrow> Quantity
     \<Rightarrow> (RiskEngine \<times> Quantity \<times> Quantity, RejectReason) result option" where
  "adjust_reservation re order_id account_id price new_quantity =
     (case live_reservation re order_id of
        None \<Rightarrow> Some (Err UnknownOrder)
      | Some (slot, reservation) \<Rightarrow>
          if rv_account_id reservation \<noteq> account_id then Some (Err NotOrderOwner)
          else let remaining = rv_quantity reservation; new_total = new_quantity; prior = remaining in
            if new_total = remaining then Some (Ok (re, 0, prior))
            else do {
              entry \<leftarrow> account_entry re account_id;
              Some (and_then entry (\<lambda>(a_slot, account).
                if new_total > remaining then
                  and_then (add_reserved account (rv_side reservation) (new_total - remaining))
                    (\<lambda>(reserved_buys, reserved_sells).
                  and_then (notional_of price new_total) (\<lambda>notional.
                  if notional > rl_max_notional (ac_limits account) then Err NotionalLimit
                  else and_then (check_position account reserved_buys reserved_sells) (\<lambda>_.
                    Ok (set_reservation
                          (set_account re a_slot (account\<lparr>ac_reserved_buys := reserved_buys,
                             ac_reserved_sells := reserved_sells\<rparr>))
                          slot (ResLive (reservation\<lparr>rv_quantity := new_total\<rparr>)), 0, prior))))
                else
                  and_then (sub_reserved account (rv_side reservation) (remaining - new_total)) (\<lambda>account'.
                    Ok (set_reservation (set_account re a_slot account')
                          slot (ResLive (reservation\<lparr>rv_quantity := new_total\<rparr>)),
                        remaining - new_total, prior))))
            })"

definition restore_reservation ::
  "RiskEngine \<Rightarrow> OrderId \<Rightarrow> AccountId \<Rightarrow> Quantity \<Rightarrow> (RiskEngine, RejectReason) result option" where
  "restore_reservation re order_id account_id prior_quantity =
     (case live_reservation re order_id of
        None \<Rightarrow> Some (Err UnknownOrder)
      | Some (slot, reservation) \<Rightarrow>
          if rv_account_id reservation \<noteq> account_id then Some (Err NotOrderOwner)
          else let current = rv_quantity reservation; prior = prior_quantity in
            if current = prior then Some (Ok re)
            else do {
              entry \<leftarrow> account_entry re account_id;
              Some (and_then entry (\<lambda>(a_slot, account).
                and_then
                  (if prior > current
                   then and_then (add_reserved account (rv_side reservation) (prior - current))
                          (\<lambda>(b, s). Ok (account\<lparr>ac_reserved_buys := b, ac_reserved_sells := s\<rparr>))
                   else sub_reserved account (rv_side reservation) (current - prior))
                  (\<lambda>account'.
                    Ok (set_reservation (set_account re a_slot account')
                          slot (ResLive (reservation\<lparr>rv_quantity := prior\<rparr>))))))
            })"

definition can_cancel :: "RiskEngine \<Rightarrow> OrderId \<Rightarrow> AccountId \<Rightarrow> (unit, RejectReason) result" where
  "can_cancel re order_id account_id =
     (case live_reservation re order_id of
        None \<Rightarrow> Err UnknownOrder
      | Some (_, reservation) \<Rightarrow>
          if rv_account_id reservation \<noteq> account_id then Err NotOrderOwner else Ok ())"

definition cancel_reservation ::
  "RiskEngine \<Rightarrow> OrderId \<Rightarrow> AccountId \<Rightarrow> (RiskEngine \<times> Quantity, RejectReason) result option" where
  "cancel_reservation re order_id account_id =
     (case live_reservation re order_id of
        None \<Rightarrow> Some (Err UnknownOrder)
      | Some (reservation_slot, reservation) \<Rightarrow>
          if rv_account_id reservation \<noteq> account_id then Some (Err NotOrderOwner)
          else do {
            r \<leftarrow> settle_reservation re reservation_slot reservation 0;
            Some (and_then r (\<lambda>re'. Ok (re', rv_quantity reservation)))
          })"

definition account_snapshot :: "RiskEngine \<Rightarrow> AccountId \<Rightarrow> (int \<times> nat) option option" where
  "account_snapshot re aid =
     (case account_slot re aid of
        None \<Rightarrow> Some None
      | Some slot \<Rightarrow>
          do {
            account \<leftarrow> nth_opt (re_accounts re) slot;
            Some (do {
              account \<leftarrow> account;
              buys \<leftarrow> i128_try_from (ac_reserved_buys account);
              sells \<leftarrow> i128_try_from (ac_reserved_sells account);
              long \<leftarrow> checked_iadd 128 (ac_settled_position account) buys;
              projected \<leftarrow> checked_isub 128 long sells;
              Some (projected, ac_open_orders account)
            })
          })"

section \<open>Digest\<close>

definition mix :: "nat \<Rightarrow> nat \<Rightarrow> nat" where
  "mix digest v = wrapping_mul 64 (digest XOR v) 1099511628211"

definition be_high :: "int \<Rightarrow> nat" where
  "be_high x = nat (x mod 2 ^ 128) div 2 ^ 64"

definition be_low :: "int \<Rightarrow> nat" where
  "be_low x = nat (x mod 2 ^ 128) mod 2 ^ 64"

definition bool_u64 :: "bool \<Rightarrow> nat" where
  "bool_u64 b = (if b then 1 else 0)"

definition digest_account :: "AccountState \<Rightarrow> nat \<Rightarrow> nat" where
  "digest_account account digest =
     fold (\<lambda>v d. mix d v)
       [ac_id account, be_high (ac_settled_position account),
        be_high (int (ac_reserved_buys account)), be_low (int (ac_reserved_buys account)),
        be_high (int (ac_reserved_sells account)), be_low (int (ac_reserved_sells account)),
        be_low (ac_settled_position account), ac_open_orders account,
        bool_u64 (ac_killed account)] digest"

definition risk_stable_digest :: "RiskEngine \<Rightarrow> nat" where
  "risk_stable_digest re =
     (let d0 = mix 14695981039346656037 (bool_u64 (re_killed re));
          d1 = mix d0 (case re_maximum_order_id re of None \<Rightarrow> 0 | Some aid \<Rightarrow> aid);
          d2 = fold (\<lambda>a d. case a of None \<Rightarrow> d | Some account \<Rightarrow> digest_account account d) (re_accounts re) d1
      in fold (\<lambda>slot d. case slot of
                 ResLive r \<Rightarrow> mix (mix d (rv_order_id r)) (rv_quantity r)
               | ResFree _ \<Rightarrow> d) (re_reservations re) d2)"

end
