(* ===== verification/RiskInv.thy ===== *)
theory RiskInv
  imports Risk
begin

text \<open>
  The invariant of the risk engine and what each operation of theory \<open>Risk\<close> does to it. The
  storage part ties the two probe indexes, the slot arrays and the free list together; the exposure
  part says that an account's reserved totals and open-order count are the sums over its live
  reservations and that the worst-case position stays within the account's limit.
\<close>

section \<open>Invariants\<close>

definition res_at :: "ReservationSlot list \<Rightarrow> nat \<Rightarrow> nat \<Rightarrow> nat \<Rightarrow> bool" where
  "res_at rs k v i \<longleftrightarrow> v < length rs \<and> (\<exists>r. rs ! v = ResLive r \<and> rv_order_id r = k \<and> rv_index_slot r = i)"

fun free_next :: "ReservationSlot \<Rightarrow> nat" where
  "free_next (ResFree n) = n"
| "free_next (ResLive r) = NIL"

fun is_free :: "ReservationSlot \<Rightarrow> bool" where
  "is_free (ResFree n) = True"
| "is_free (ResLive r) = False"

definition free_chain :: "ReservationSlot list \<Rightarrow> nat \<Rightarrow> nat list \<Rightarrow> bool" where
  "free_chain rs head fl \<longleftrightarrow> distinct fl \<and> set fl = {v. v < length rs \<and> is_free (rs ! v)} \<and>
     links (\<lambda>v. free_next (rs ! v)) head fl"

definition res_store_inv :: "ReservationSlot list \<Rightarrow> nat \<Rightarrow> probe_index \<Rightarrow> bool" where
  "res_store_inv rs head ix \<longleftrightarrow>
     probe_inv ix \<and> length ix = 2 * length rs \<and>
     (\<forall>i k v. slot_holds ix i k (Suc v) \<longleftrightarrow> res_at rs k v i) \<and>
     (\<exists>fl. free_chain rs head fl)"

definition accounts_inv :: "AccountState option list \<Rightarrow> probe_index \<Rightarrow> bool" where
  "accounts_inv accs ix \<longleftrightarrow>
     probe_inv ix \<and> length ix = 2 * length accs \<and>
     (\<forall>k v. (\<exists>i. slot_holds ix i k (Suc v)) \<longleftrightarrow> v < length accs \<and> (\<exists>a. accs ! v = Some a \<and> ac_id a = k))"

text \<open>What a reservation slot contributes to an account's reserved total and open-order count.\<close>

fun slot_exposure :: "Side \<Rightarrow> AccountId \<Rightarrow> ReservationSlot \<Rightarrow> nat" where
  "slot_exposure side aid (ResFree n) = 0"
| "slot_exposure side aid (ResLive r) =
     (if rv_account_id r = aid \<and> rv_side r = side then rv_quantity r else 0)"

fun slot_open :: "AccountId \<Rightarrow> ReservationSlot \<Rightarrow> nat" where
  "slot_open aid (ResFree n) = 0"
| "slot_open aid (ResLive r) = (if rv_account_id r = aid then 1 else 0)"

definition exposure :: "ReservationSlot list \<Rightarrow> Side \<Rightarrow> AccountId \<Rightarrow> nat" where
  "exposure rs side aid = sum_list (map (slot_exposure side aid) rs)"

definition open_count :: "ReservationSlot list \<Rightarrow> AccountId \<Rightarrow> nat" where
  "open_count rs aid = sum_list (map (slot_open aid) rs)"

definition within_limits :: "AccountState \<Rightarrow> bool" where
  "within_limits a \<longleftrightarrow>
     ac_settled_position a + int (ac_reserved_buys a) \<le> int (rl_max_abs_position (ac_limits a)) \<and>
     - int (rl_max_abs_position (ac_limits a)) \<le> ac_settled_position a - int (ac_reserved_sells a) \<and>
     ac_open_orders a \<le> rl_max_open_orders (ac_limits a)"

definition limits_fit :: "RiskLimits \<Rightarrow> bool" where
  "limits_fit l \<longleftrightarrow> u64_ok (rl_max_quantity l) \<and> u64_ok (rl_max_abs_position l) \<and>
     u32_ok (rl_max_open_orders l) \<and> i64_ok (rl_minimum_price l) \<and> i64_ok (rl_maximum_price l)"

definition limits_ok :: "RiskLimits \<Rightarrow> bool" where
  "limits_ok l \<longleftrightarrow> \<not> limits_invalid l \<and> limits_fit l"

definition account_ok :: "ReservationSlot list \<Rightarrow> AccountState \<Rightarrow> bool" where
  "account_ok rs a \<longleftrightarrow> ac_reserved_buys a = exposure rs Buy (ac_id a) \<and>
     ac_reserved_sells a = exposure rs Sell (ac_id a) \<and> ac_open_orders a = open_count rs (ac_id a) \<and>
     within_limits a \<and> limits_ok (ac_limits a)"

definition risk_inv :: "RiskEngine \<Rightarrow> bool" where
  "risk_inv re \<longleftrightarrow>
     accounts_inv (re_accounts re) (re_account_index re) \<and>
     res_store_inv (re_reservations re) (re_reservation_free_head re) (re_reservation_index re) \<and>
     (\<forall>a. Some a \<in> set (re_accounts re) \<longrightarrow> account_ok (re_reservations re) a) \<and>
     (\<forall>r. ResLive r \<in> set (re_reservations re) \<longrightarrow>
        (\<exists>a. Some a \<in> set (re_accounts re) \<and> ac_id a = rv_account_id r) \<and>
        (\<exists>m. re_maximum_order_id re = Some m \<and> rv_order_id r \<le> m))"

section \<open>The abstract view\<close>

text \<open>An account by id, and the live reservation of an order as account, side and quantity.\<close>

definition acct :: "RiskEngine \<Rightarrow> AccountId \<Rightarrow> AccountState option" where
  "acct re aid = (case account_entry re aid of Some (Ok (_, a)) \<Rightarrow> Some a | _ \<Rightarrow> None)"

definition resv :: "RiskEngine \<Rightarrow> OrderId \<Rightarrow> (AccountId \<times> Side \<times> Quantity) option" where
  "resv re order_id =
     map_option (\<lambda>(_, r). (rv_account_id r, rv_side r, rv_quantity r)) (live_reservation re order_id)"

section \<open>The account table\<close>

lemma accounts_unique:
  assumes "accounts_inv accs ix" and "u < length accs" "accs ! u = Some a" and "v < length accs" "accs ! v = Some b"
    and "ac_id a = ac_id b"
  shows "u = v"
proof -
  have "\<exists>i. slot_holds ix i (ac_id a) (Suc u)" "\<exists>i. slot_holds ix i (ac_id a) (Suc v)"
    using assms unfolding accounts_inv_def by auto
  with assms(1) show ?thesis unfolding accounts_inv_def slot_holds_def probe_inv_def
    by (metis IndexSlot.inject nat.inject)
qed

lemma account_entry_Ok:
  assumes "accounts_inv (re_accounts re) (re_account_index re)"
  shows "account_entry re aid = Some (Ok (slot, a)) \<longleftrightarrow>
    slot < length (re_accounts re) \<and> re_accounts re ! slot = Some a \<and> ac_id a = aid"
proof (cases "probe_lookup (re_account_index re) aid")
  case None
  with assms have "\<not> (\<exists>i. slot_holds (re_account_index re) i aid (Suc slot))"
    unfolding accounts_inv_def using probe_lookup_iff [of "re_account_index re" aid slot] by auto
  with assms None show ?thesis
    unfolding accounts_inv_def by (auto simp: account_entry_def account_slot_def)
next
  case (Some v)
  with assms obtain b where b: "v < length (re_accounts re)" "re_accounts re ! v = Some b" "ac_id b = aid"
    unfolding accounts_inv_def by (auto simp: probe_lookup_iff)
  with Some have "account_entry re aid = Some (Ok (v, b))"
    by (simp add: account_entry_def account_slot_def nth_opt_def)
  with b show ?thesis using accounts_unique [OF assms _ _ b(1,2), of slot a] by auto
qed

lemma account_entry_cases:
  assumes "accounts_inv (re_accounts re) (re_account_index re)"
  obtains (Unknown) "account_entry re aid = Some (Err UnknownAccount)" "acct re aid = None" "account_slot re aid = None"
  | (Known) slot a where "account_entry re aid = Some (Ok (slot, a))" "acct re aid = Some a"
      "slot < length (re_accounts re)" "re_accounts re ! slot = Some a" "ac_id a = aid"
proof (cases "probe_lookup (re_account_index re) aid")
  case None
  then show ?thesis by (intro Unknown) (simp_all add: account_entry_def account_slot_def acct_def)
next
  case (Some v)
  with assms obtain a where "v < length (re_accounts re)" "re_accounts re ! v = Some a" "ac_id a = aid"
    unfolding accounts_inv_def by (auto simp: probe_lookup_iff)
  with Some show ?thesis
    by (intro Known) (auto simp: account_entry_def account_slot_def acct_def nth_opt_def)
qed

lemma accounts_inv_update:
  assumes "accounts_inv accs ix" and "slot < length accs" "accs ! slot = Some a" and "ac_id b = ac_id a"
  shows "accounts_inv (accs[slot := Some b]) ix"
  using assms unfolding accounts_inv_def by (auto simp: nth_list_update)

lemma accounts_inv_insert:
  assumes inv: "accounts_inv accs ix" and slot: "first_none accs = Some slot"
    and new: "\<And>v a. v < length accs \<Longrightarrow> accs ! v = Some a \<Longrightarrow> ac_id a \<noteq> ac_id b"
  shows "\<exists>i ix'. probe_insert ix (ac_id b) slot = Ok (i, ix') \<and> accounts_inv (accs[slot := Some b]) ix'"
proof -
  have s: "slot < length accs" "accs ! slot = None" using slot
    by (induction accs arbitrary: slot rule: first_none.induct) (auto simp: less_Suc_eq_0_disj)
  have pinv: "probe_inv ix" and len: "length ix = 2 * length accs"
    and holds: "(\<exists>i. slot_holds ix i k (Suc v)) \<longleftrightarrow> v < length accs \<and> (\<exists>a. accs ! v = Some a \<and> ac_id a = k)" for k v
    using inv unfolding accounts_inv_def by blast+
  have pos: "0 < w" if "slot_holds ix i k w" for i k w
    using pinv that unfolding probe_inv_def by blast
  have absent: "find_slot ix (ac_id b) = None"
    unfolding find_slot_None [OF pinv] using new holds pos by (metis gr0_implies_Suc)
  let ?K = "(\<lambda>v. case accs ! v of Some a \<Rightarrow> ac_id a | None \<Rightarrow> 0) ` {..<length accs}"
  have keys: "k \<in> ?K" if "slot_holds ix i k w" for i k w
  proof -
    from pos [OF that] obtain v where "w = Suc v" using gr0_implies_Suc by blast
    with that holds [of k v] obtain a where "v < length accs" "accs ! v = Some a" "ac_id a = k" by blast
    then show ?thesis by (intro image_eqI [of _ _ v]) auto
  qed
  have "card ?K \<le> length accs" using card_image_le [of "{..<length accs}"] by simp
  with s len have "card ?K < length ix" by linarith
  from probe_room [OF pinv _ keys this] have room: "\<exists>e < length ix. ix ! e = Empty" by simp
  have cap: "length ix \<le> 2 ^ 32" by (rule probe_inv_capacity [OF pinv])
  then have v: "slot + 1 < 2 ^ 64" using s len by simp
  from probe_insert_correct [OF pinv absent room v] obtain i where
    i: "probe_insert ix (ac_id b) slot = Ok (i, ix[i := Occupied (ac_id b) (slot + 1)])" "i < length ix"
      "ix ! i = Empty" "probe_inv (ix[i := Occupied (ac_id b) (slot + 1)])" by blast
  have "\<not> slot_holds ix i k w" for k w using i(3) by (simp add: slot_holds_def)
  then have split: "(\<exists>j. slot_holds (ix[i := Occupied (ac_id b) (slot + 1)]) j k (Suc v)) \<longleftrightarrow>
      (k = ac_id b \<and> v = slot) \<or> (\<exists>j. slot_holds ix j k (Suc v))" for k v
    unfolding slot_holds_update [OF i(2)] by (metis Suc_eq_plus1 nat.inject)
  have "accounts_inv (accs[slot := Some b]) (ix[i := Occupied (ac_id b) (slot + 1)])"
    unfolding accounts_inv_def split holds using i(4) len s by (auto simp: nth_list_update)
  with i(1) show ?thesis by blast
qed

section \<open>The reservation store\<close>

text \<open>Deletion from the index rewrites handles only; \<open>strip\<close> forgets them.\<close>

fun strip :: "ReservationSlot \<Rightarrow> ReservationSlot" where
  "strip (ResFree n) = ResFree n"
| "strip (ResLive r) = ResLive (r\<lparr>rv_index_slot := 0\<rparr>)"

lemma strip_ResFree [simp]: "strip s = ResFree n \<longleftrightarrow> s = ResFree n"
  by (cases s) auto

lemma is_free_strip [simp]: "is_free (strip s) = is_free s"
  by (cases s) auto

lemma free_next_strip [simp]: "free_next (strip s) = free_next s"
  by (cases s) auto

lemma slot_exposure_strip [simp]: "slot_exposure side aid (strip s) = slot_exposure side aid s"
  by (cases s) auto

lemma slot_open_strip [simp]: "slot_open aid (strip s) = slot_open aid s"
  by (cases s) auto

lemma map_via_strip:
  assumes "map strip rs = map strip rs'" and "\<And>s. f (strip s) = f s"
  shows "map f rs = map f rs'"
proof -
  have "map f rs = map f (map strip rs)" by (simp add: assms(2))
  also have "\<dots> = map f (map strip rs')" by (simp only: assms(1))
  finally show ?thesis by (simp add: assms(2))
qed

lemma nth_strip:
  assumes "map strip rs = map strip rs'" and "v < length rs"
  shows "strip (rs ! v) = strip (rs' ! v)"
  using arg_cong [OF assms(1), where f = "\<lambda>xs. xs ! v"] assms(2) map_eq_imp_length_eq [OF assms(1)] by simp

lemma exposure_strip: "map strip rs = map strip rs' \<Longrightarrow> exposure rs = exposure rs'"
  unfolding exposure_def by (intro ext arg_cong [where f = sum_list]) (erule map_via_strip, rule slot_exposure_strip)

lemma open_count_strip: "map strip rs = map strip rs' \<Longrightarrow> open_count rs = open_count rs'"
  unfolding open_count_def by (intro ext arg_cong [where f = sum_list]) (erule map_via_strip, rule slot_open_strip)

lemma free_chain_strip: "map strip rs = map strip rs' \<Longrightarrow> free_chain rs head fl \<Longrightarrow> free_chain rs' head fl"
proof -
  assume s: "map strip rs = map strip rs'" and fl: "free_chain rs head fl"
  have n: "strip (rs ! v) = strip (rs' ! v)" if "v < length rs" for v by (rule nth_strip [OF s that])
  have len: "length rs' = length rs" using map_eq_imp_length_eq [OF s] by simp
  have free: "is_free (rs ! v) = is_free (rs' ! v)" "free_next (rs ! v) = free_next (rs' ! v)"
    if "v < length rs" for v
    using n [OF that] is_free_strip free_next_strip by metis+
  have "links (\<lambda>v. free_next (rs' ! v)) head fl = links (\<lambda>v. free_next (rs ! v)) head fl"
    by (rule links_cong) (use fl free in \<open>auto simp: free_chain_def\<close>)
  with fl free len show ?thesis by (auto simp: free_chain_def)
qed

lemma move_reservation_at:
  "res_at rs k v i \<Longrightarrow> \<exists>r. rs ! v = ResLive r \<and> rv_order_id r = k \<and>
     move_reservation k v n rs = rs[v := ResLive (r\<lparr>rv_index_slot := n\<rparr>)]"
  by (auto simp: res_at_def move_reservation_def nth_opt_def)

interpretation mv: index_client move_reservation res_at "\<lambda>rs. map strip rs = map strip rs0" for rs0
proof
  fix rs k v i n
  assume s: "map strip rs = map strip rs0" and r: "res_at rs k v i"
  then obtain r where r': "rs ! v = ResLive r" "rv_order_id r = k" "v < length rs"
    "move_reservation k v n rs = rs[v := ResLive (r\<lparr>rv_index_slot := n\<rparr>)]"
    using move_reservation_at by (metis res_at_def)
  have "map strip (rs[v := ResLive (r\<lparr>rv_index_slot := n\<rparr>)]) = map strip rs"
    using r' by (intro nth_equalityI) (auto simp: nth_list_update)
  with s r' show "map strip (move_reservation k v n rs) = map strip rs0" by simp
  show "res_at (move_reservation k v n rs) k v n" using r' by (simp add: res_at_def)
  fix k' v' i'
  assume "k' \<noteq> k" and "res_at rs k' v' i'"
  with r' show "res_at (move_reservation k v n rs) k' v' i'" by (auto simp: res_at_def nth_list_update)
qed

lemma res_store_holds: "res_store_inv rs head ix \<Longrightarrow> slot_holds ix i k (Suc v) \<longleftrightarrow> res_at rs k v i"
  unfolding res_store_inv_def by blast

lemma res_store_live:
  "res_store_inv rs head ix \<Longrightarrow> v < length rs \<Longrightarrow> rs ! v = ResLive r
     \<Longrightarrow> slot_holds ix (rv_index_slot r) (rv_order_id r) (Suc v)"
  by (subst res_store_holds) (auto simp: res_at_def)

lemma res_store_unique:
  assumes "res_store_inv rs head ix" and "u < length rs" "rs ! u = ResLive a" and "v < length rs" "rs ! v = ResLive b"
    and "rv_order_id a = rv_order_id b"
  shows "u = v"
  using res_store_live [OF assms(1-3)] res_store_live [OF assms(1,4,5)] assms(1,6)
  unfolding res_store_inv_def slot_holds_def probe_inv_def by (metis IndexSlot.inject nat.inject)

lemma res_store_room:
  assumes inv: "res_store_inv rs head ix" and ne: "rs \<noteq> []"
  shows "\<exists>e < length ix. ix ! e = Empty"
proof -
  have pinv: "probe_inv ix" and len: "length ix = 2 * length rs" using inv unfolding res_store_inv_def by blast+
  let ?K = "(\<lambda>v. case rs ! v of ResLive r \<Rightarrow> rv_order_id r | ResFree _ \<Rightarrow> 0) ` {..<length rs}"
  have keys: "k \<in> ?K" if "slot_holds ix i k w" for i k w
  proof -
    from pinv that have "0 < w" unfolding probe_inv_def by blast
    then obtain v where "w = Suc v" using gr0_implies_Suc by blast
    with that res_store_holds [OF inv] have "res_at rs k v i" by simp
    then show ?thesis unfolding res_at_def by (intro image_eqI [of _ _ v]) auto
  qed
  have "card ?K \<le> length rs" using card_image_le [of "{..<length rs}"] by simp
  moreover have "0 < length rs" using ne by simp
  ultimately have "card ?K < length ix" using len by linarith
  from probe_room [OF pinv _ keys this] show ?thesis by simp
qed

lemma live_reservation_iff:
  assumes inv: "res_store_inv (re_reservations re) h (re_reservation_index re)"
  shows "live_reservation re order_id = Some (v, r) \<longleftrightarrow>
    v < length (re_reservations re) \<and> re_reservations re ! v = ResLive r \<and> rv_order_id r = order_id"
proof -
  have pinv: "probe_inv (re_reservation_index re)" using inv unfolding res_store_inv_def by blast
  have look: "probe_lookup (re_reservation_index re) order_id = Some u \<longleftrightarrow> (\<exists>i. res_at (re_reservations re) order_id u i)" for u
    unfolding probe_lookup_iff [OF pinv] using res_store_holds [OF inv] by simp
  show ?thesis
  proof (cases "probe_lookup (re_reservation_index re) order_id")
    case None
    with look [of v] show ?thesis by (auto simp: live_reservation_def res_at_def)
  next
    case (Some u)
    with look obtain i r' where "res_at (re_reservations re) order_id u i" by blast
    then obtain r' where r': "u < length (re_reservations re)" "re_reservations re ! u = ResLive r'"
      "rv_order_id r' = order_id" by (auto simp: res_at_def)
    with Some have "live_reservation re order_id = Some (u, r')"
      by (simp add: live_reservation_def nth_opt_def)
    with r' res_store_unique [OF inv r'(1,2), of v r] show ?thesis by auto
  qed
qed

text \<open>The three ways an operation changes the store: amend in place, insert, release.\<close>

lemma free_chain_update_live:
  assumes "free_chain rs head fl" and "\<not> is_free (rs ! v)" and "\<not> is_free x"
  shows "free_chain (rs[v := x]) head fl"
proof -
  have v: "v \<notin> set fl" using assms by (auto simp: free_chain_def)
  have "links (\<lambda>u. free_next (rs[v := x] ! u)) head fl"
    unfolding links_update [OF v] using assms(1) by (simp add: free_chain_def)
  moreover have "is_free (rs[v := x] ! u) = is_free (rs ! u)" if "u < length rs" for u
    using assms that by (cases "u = v") auto
  ultimately show ?thesis using assms(1) unfolding free_chain_def by auto
qed

lemma res_store_update:
  assumes inv: "res_store_inv rs head ix" and v: "v < length rs" "rs ! v = ResLive r"
    and same: "rv_order_id r' = rv_order_id r" "rv_index_slot r' = rv_index_slot r"
  shows "res_store_inv (rs[v := ResLive r']) head ix"
proof -
  have "res_at (rs[v := ResLive r']) k u i \<longleftrightarrow> res_at rs k u i" for k u i
    using v same by (auto simp: res_at_def nth_list_update)
  moreover obtain fl where "free_chain rs head fl" using inv unfolding res_store_inv_def by blast
  then have "free_chain (rs[v := ResLive r']) head fl" by (rule free_chain_update_live) (simp_all add: v)
  ultimately show ?thesis using inv unfolding res_store_inv_def by auto
qed

lemma res_store_insert:
  assumes inv: "res_store_inv rs head ix" and head: "head \<noteq> NIL"
    and new: "\<And>r. ResLive r \<in> set rs \<Longrightarrow> rv_order_id r \<noteq> key"
  shows "\<exists>nx i ix'. head < length rs \<and> rs ! head = ResFree nx \<and> probe_insert ix key head = Ok (i, ix') \<and>
    (\<forall>r. rv_order_id r = key \<longrightarrow> rv_index_slot r = i \<longrightarrow> res_store_inv (rs[head := ResLive r]) nx ix')"
proof -
  obtain fl where fl: "free_chain rs head fl" using inv unfolding res_store_inv_def by blast
  with head obtain fl' where fl': "fl = head # fl'" by (cases fl) (auto simp: free_chain_def)
  with fl have h': "head < length rs" "is_free (rs ! head)" unfolding free_chain_def by auto
  then obtain nx where h: "head < length rs" "rs ! head = ResFree nx" by (cases "rs ! head") auto
  have pinv: "probe_inv ix" and len: "length ix = 2 * length rs" using inv unfolding res_store_inv_def by blast+
  have "\<not> slot_holds ix i key w" for i w
  proof
    assume s: "slot_holds ix i key w"
    with pinv have "0 < w" unfolding probe_inv_def by blast
    with s res_store_holds [OF inv, of i key "w - 1"] have "res_at rs key (w - 1) i" by simp
    then show False using new unfolding res_at_def by (metis nth_mem)
  qed
  then have absent: "find_slot ix key = None" using find_slot_None [OF pinv] by blast
  have room: "\<exists>e < length ix. ix ! e = Empty" by (rule res_store_room [OF inv]) (use h in auto)
  have "head + 1 < 2 ^ 64" using probe_inv_capacity [OF pinv] len h by simp
  from probe_insert_correct [OF pinv absent room this] obtain i where
    i: "probe_insert ix key head = Ok (i, ix[i := Occupied key (head + 1)])" "i < length ix"
      "ix ! i = Empty" "probe_inv (ix[i := Occupied key (head + 1)])" by blast
  have "res_store_inv (rs[head := ResLive r]) nx (ix[i := Occupied key (head + 1)])"
    if r: "rv_order_id r = key" "rv_index_slot r = i" for r
  proof -
    have e: "\<not> slot_holds ix i k w" for k w using i(3) by (simp add: slot_holds_def)
    have "slot_holds (ix[i := Occupied key (head + 1)]) j k (Suc v) \<longleftrightarrow> res_at (rs[head := ResLive r]) k v j" for j k v
      using e [of k "Suc v"] res_store_holds [OF inv, of j k v] r h
      unfolding slot_holds_update [OF i(2)] by (auto simp: res_at_def nth_list_update)
    moreover have "free_chain (rs[head := ResLive r]) nx fl'"
    proof -
      have n: "head \<notin> set fl'" using fl fl' by (simp add: free_chain_def)
      have "links (\<lambda>u. free_next (rs[head := ResLive r] ! u)) nx fl'"
        unfolding links_update [OF n] using fl fl' h by (simp add: free_chain_def)
      moreover have "set fl' = set fl - {head}" using fl' n by auto
      then have "set fl' = {u. u < length rs \<and> is_free (rs[head := ResLive r] ! u)}"
        using fl h by (auto simp: free_chain_def nth_list_update)
      ultimately show ?thesis using fl fl' unfolding free_chain_def by simp
    qed
    ultimately show ?thesis unfolding res_store_inv_def using i(4) len by auto
  qed
  with h i(1) show ?thesis by blast
qed

lemma res_store_release:
  assumes inv: "res_store_inv rs head ix" and v: "v < length rs" "rs ! v = ResLive r"
  shows "\<exists>ix' rs'. probe_remove_at ix (rv_index_slot r) (rv_order_id r) move_reservation rs = Some (ix', rs', Some v) \<and>
    map strip rs' = map strip rs \<and> res_store_inv (rs'[v := ResFree head]) v ix'"
proof -
  let ?key = "rv_order_id r"
  have pinv: "probe_inv ix" and len: "length ix = 2 * length rs" using inv unfolding res_store_inv_def by blast+
  have room: "\<exists>e < length ix. ix ! e = Empty" by (rule res_store_room [OF inv]) (use v in auto)
  have at: "res_at rs k u i" if "slot_holds ix i k (Suc u)" for i k u
    using that res_store_holds [OF inv] by blast
  from mv.remove_at_correct [OF pinv room res_store_live [OF inv v] refl at]
  obtain ix' rs' where rem: "probe_remove_at ix (rv_index_slot r) ?key move_reservation rs = Some (ix', rs', Some v)"
    "probe_inv ix'" "length ix' = length ix" "map strip rs' = map strip rs"
    "\<forall>i k v. slot_holds ix' i k (Suc v) \<longrightarrow> res_at rs' k v i"
    "\<forall>k v. (\<exists>i. slot_holds ix' i k v) \<longleftrightarrow> k \<noteq> ?key \<and> (\<exists>i. slot_holds ix i k v)" by blast
  have len': "length rs' = length rs" using map_eq_imp_length_eq [OF rem(4)] by simp
  have live: "rs' ! u = ResLive a \<Longrightarrow> u < length rs \<Longrightarrow> \<exists>b. rs ! u = ResLive b \<and> rv_order_id b = rv_order_id a" for u a
    using nth_strip [OF rem(4), of u] len' by (cases "rs ! u") (auto, metis Reservation.select_convs(1)
        Reservation.surjective Reservation.update_convs(3))
  have holds: "slot_holds ix' i k (Suc u) \<longleftrightarrow> res_at (rs'[v := ResFree head]) k u i" for i k u
  proof
    assume s: "slot_holds ix' i k (Suc u)"
    with rem(5) have a: "res_at rs' k u i" by blast
    have "k \<noteq> ?key" using s rem(6) by blast
    with live [of u] a v have "u \<noteq> v" unfolding res_at_def len' by auto
    with a show "res_at (rs'[v := ResFree head]) k u i" by (simp add: res_at_def)
  next
    assume a: "res_at (rs'[v := ResFree head]) k u i"
    then obtain a where a': "u < length rs" "u \<noteq> v" "rs' ! u = ResLive a" "rv_order_id a = k" "rv_index_slot a = i"
      using len' v by (auto simp: res_at_def nth_list_update split: if_splits)
    from live [OF a'(3,1)] obtain b where b: "rs ! u = ResLive b" "rv_order_id b = k" using a'(4) by auto
    have "k \<noteq> ?key" using res_store_unique [OF inv a'(1) b(1) v] b(2) a'(2) by auto
    with rem(6) res_store_live [OF inv a'(1) b(1)] b(2) obtain j where j: "slot_holds ix' j k (Suc u)" by blast
    with rem(5) have "res_at rs' k u j" by blast
    with a' have "j = i" by (auto simp: res_at_def)
    with j show "slot_holds ix' i k (Suc u)" by simp
  qed
  obtain fl where "free_chain rs head fl" using inv unfolding res_store_inv_def by blast
  from free_chain_strip [OF rem(4) [symmetric] this] have fl: "free_chain rs' head fl" .
  have "\<not> is_free (rs' ! v)" using nth_strip [OF rem(4), of v] len' v by (metis is_free.simps(2) is_free_strip)
  then have notin: "v \<notin> set fl" using fl by (auto simp: free_chain_def)
  have "links (\<lambda>u. free_next (rs'[v := ResFree head] ! u)) head fl"
    unfolding links_update [OF notin] using fl by (simp add: free_chain_def)
  moreover have "set (v # fl) = {u. u < length rs' \<and> is_free (rs'[v := ResFree head] ! u)}"
    using fl len' v by (auto simp: free_chain_def nth_list_update)
  ultimately have "free_chain (rs'[v := ResFree head]) v (v # fl)"
    using fl notin len' v unfolding free_chain_def by simp
  with rem holds len len' show ?thesis unfolding res_store_inv_def by auto
qed

section \<open>The abstract view under updates\<close>

lemma acct_iff:
  assumes "accounts_inv (re_accounts re) (re_account_index re)"
  shows "acct re aid = Some a \<longleftrightarrow> (\<exists>slot < length (re_accounts re). re_accounts re ! slot = Some a \<and> ac_id a = aid)"
proof -
  have "acct re aid = Some a \<longleftrightarrow> (\<exists>slot. account_entry re aid = Some (Ok (slot, a)))"
    by (auto simp: acct_def split: option.splits result.splits)
  then show ?thesis unfolding account_entry_Ok [OF assms] by auto
qed

lemma acct_update:
  assumes inv: "accounts_inv (re_accounts re) (re_account_index re)"
    and slot: "slot < length (re_accounts re)" "re_accounts re ! slot = Some a" and same: "ac_id b = ac_id a"
    and re': "re_accounts re' = (re_accounts re)[slot := Some b]" "re_account_index re' = re_account_index re"
  shows "acct re' = (acct re)(ac_id a \<mapsto> b)"
proof
  fix aid
  have inv': "accounts_inv (re_accounts re') (re_account_index re')"
    unfolding re' by (rule accounts_inv_update [OF inv slot same])
  show "acct re' aid = ((acct re)(ac_id a \<mapsto> b)) aid"
  proof (cases "aid = ac_id a")
    case True
    then have "acct re' aid = Some b" unfolding acct_iff [OF inv'] re' using slot same by auto
    with True show ?thesis by simp
  next
    case False
    then have "(re_accounts re)[slot := Some b] ! u = Some c \<and> ac_id c = aid \<longleftrightarrow>
        re_accounts re ! u = Some c \<and> ac_id c = aid" for u c
      using slot same by (cases "u = slot") auto
    then have "acct re' aid = Some c \<longleftrightarrow> acct re aid = Some c" for c
      unfolding acct_iff [OF inv'] acct_iff [OF inv] re' by simp
    with False show ?thesis by (cases "acct re aid"; cases "acct re' aid") auto
  qed
qed

lemma resv_iff:
  assumes "res_store_inv (re_reservations re) h (re_reservation_index re)"
  shows "resv re oid = Some (aid, side, q) \<longleftrightarrow> (\<exists>v r. v < length (re_reservations re) \<and>
    re_reservations re ! v = ResLive r \<and> rv_order_id r = oid \<and> rv_account_id r = aid \<and> rv_side r = side \<and> rv_quantity r = q)"
proof -
  have "resv re oid = Some (aid, side, q) \<longleftrightarrow>
    (\<exists>v r. live_reservation re oid = Some (v, r) \<and> rv_account_id r = aid \<and> rv_side r = side \<and> rv_quantity r = q)"
    by (cases "live_reservation re oid") (auto simp: resv_def)
  then show ?thesis unfolding live_reservation_iff [OF assms] by auto
qed

lemma resv_eqI:
  assumes "\<And>oid aid side q. resv re oid = Some (aid, side, q) \<longleftrightarrow> m oid = Some (aid, side, q)"
  shows "resv re = m"
proof
  fix oid
  show "resv re oid = m oid"
    using assms [of oid] by (metis not_None_eq prod_cases3)
qed

lemma resv_set:
  assumes inv: "res_store_inv (re_reservations re) h (re_reservation_index re)"
    and inv': "res_store_inv (re_reservations re') h' (re_reservation_index re')"
    and v: "v < length (re_reservations re)"
      "is_free (re_reservations re ! v) \<or> (\<exists>r0. re_reservations re ! v = ResLive r0 \<and> rv_order_id r0 = rv_order_id r)"
    and re': "re_reservations re' = (re_reservations re)[v := ResLive r]"
  shows "resv re' = (resv re)(rv_order_id r \<mapsto> (rv_account_id r, rv_side r, rv_quantity r))"
proof (rule resv_eqI)
  fix oid aid side q
  let ?P = "\<lambda>s. \<exists>b. s = ResLive b \<and> rv_order_id b = oid \<and> rv_account_id b = aid \<and> rv_side b = side \<and> rv_quantity b = q"
  have P: "resv re oid = Some (aid, side, q) \<longleftrightarrow> (\<exists>u < length (re_reservations re). ?P (re_reservations re ! u))"
    "resv re' oid = Some (aid, side, q) \<longleftrightarrow> (\<exists>u < length (re_reservations re). ?P ((re_reservations re)[v := ResLive r] ! u))"
    unfolding resv_iff [OF inv] resv_iff [OF inv'] re' by auto
  show "resv re' oid = Some (aid, side, q) \<longleftrightarrow>
    ((resv re)(rv_order_id r \<mapsto> (rv_account_id r, rv_side r, rv_quantity r))) oid = Some (aid, side, q)"
  proof (cases "oid = rv_order_id r")
    case True
    have "resv re' oid = Some (rv_account_id r, rv_side r, rv_quantity r)"
      unfolding resv_iff [OF inv'] re' using v True by (metis length_list_update nth_list_update_eq)
    with True show ?thesis by auto
  next
    case False
    then have "?P ((re_reservations re)[v := ResLive r] ! u) \<longleftrightarrow> ?P (re_reservations re ! u)" for u
      using v by (cases "u = v") auto
    with P False show ?thesis by simp
  qed
qed

fun slot_view :: "ReservationSlot \<Rightarrow> (OrderId \<times> AccountId \<times> Side \<times> Quantity) option" where
  "slot_view (ResFree n) = None"
| "slot_view (ResLive r) = Some (rv_order_id r, rv_account_id r, rv_side r, rv_quantity r)"

lemma slot_view_strip [simp]: "slot_view (strip s) = slot_view s"
  by (cases s) auto

lemma slot_view_iff: "slot_view s = Some (oid, aid, side, q) \<longleftrightarrow> (\<exists>b. s = ResLive b \<and> rv_order_id b = oid \<and>
    rv_account_id b = aid \<and> rv_side b = side \<and> rv_quantity b = q)"
  by (cases s) auto

lemma resv_release:
  assumes inv: "res_store_inv (re_reservations re) h (re_reservation_index re)"
    and inv': "res_store_inv (re_reservations re') h' (re_reservation_index re')"
    and v: "v < length (re_reservations re)" "re_reservations re ! v = ResLive r"
    and re': "re_reservations re' = rs[v := ResFree n]" and s: "map strip rs = map strip (re_reservations re)"
  shows "resv re' = (resv re)(rv_order_id r := None)"
proof (rule resv_eqI)
  fix oid aid side q
  have len: "length rs = length (re_reservations re)" using map_eq_imp_length_eq [OF s] .
  let ?P = "\<lambda>s. \<exists>b. s = ResLive b \<and> rv_order_id b = oid \<and> rv_account_id b = aid \<and> rv_side b = side \<and> rv_quantity b = q"
  have P: "resv re oid = Some (aid, side, q) \<longleftrightarrow> (\<exists>u < length (re_reservations re). ?P (re_reservations re ! u))"
    "resv re' oid = Some (aid, side, q) \<longleftrightarrow> (\<exists>u < length (re_reservations re). ?P (rs[v := ResFree n] ! u))"
    unfolding resv_iff [OF inv] resv_iff [OF inv'] re' using len by auto
  have strip: "?P (rs ! u) \<longleftrightarrow> ?P (re_reservations re ! u)" if "u < length rs" for u
    unfolding slot_view_iff [symmetric] using nth_strip [OF s that] slot_view_strip by metis
  have other: "?P (rs[v := ResFree n] ! u) \<longleftrightarrow> u \<noteq> v \<and> ?P (re_reservations re ! u)" if "u < length (re_reservations re)" for u
    using strip [of u] that len v by (cases "u = v") auto
  have "u \<noteq> v" if "?P (re_reservations re ! u)" "oid \<noteq> rv_order_id r" for u using that v(2) by auto
  moreover have "u = v" if "?P (re_reservations re ! u)" "oid = rv_order_id r" "u < length (re_reservations re)" for u
    using that res_store_unique [OF inv that(3) _ v] by blast
  ultimately have "(\<exists>u < length (re_reservations re). ?P (rs[v := ResFree n] ! u)) \<longleftrightarrow>
      oid \<noteq> rv_order_id r \<and> (\<exists>u < length (re_reservations re). ?P (re_reservations re ! u))"
    using other by blast
  with P show "resv re' oid = Some (aid, side, q) \<longleftrightarrow> ((resv re)(rv_order_id r := None)) oid = Some (aid, side, q)"
    by auto
qed

section \<open>Exposure under updates\<close>

lemma sum_list_map_update:
  fixes f :: "'a \<Rightarrow> nat"
  shows "v < length xs \<Longrightarrow> sum_list (map f (xs[v := x])) + f (xs ! v) = sum_list (map f xs) + f x"
  by (induction xs arbitrary: v) (auto split: nat.splits)

lemma exposure_update:
  "v < length rs \<Longrightarrow> exposure (rs[v := x]) side aid + slot_exposure side aid (rs ! v)
     = exposure rs side aid + slot_exposure side aid x"
  unfolding exposure_def by (rule sum_list_map_update)

lemma open_count_update:
  "v < length rs \<Longrightarrow> open_count (rs[v := x]) aid + slot_open aid (rs ! v) = open_count rs aid + slot_open aid x"
  unfolding open_count_def by (rule sum_list_map_update)

text \<open>
  Every operation on an order rewrites one account and one reservation slot (up to handles). It
  preserves the invariant when the new account agrees with the new reservations.
\<close>

lemma risk_inv_step:
  assumes inv: "risk_inv re" and slot: "slot < length (re_accounts re)" "re_accounts re ! slot = Some a"
    and a': "ac_id a' = ac_id a" "account_ok (re_reservations re') a'"
    and accs: "re_accounts re' = (re_accounts re)[slot := Some a']" "re_account_index re' = re_account_index re"
    and store: "res_store_inv (re_reservations re') (re_reservation_free_head re') (re_reservation_index re')"
    and others: "\<And>side aid. aid \<noteq> ac_id a \<Longrightarrow> exposure (re_reservations re') side aid = exposure (re_reservations re) side aid"
      "\<And>aid. aid \<noteq> ac_id a \<Longrightarrow> open_count (re_reservations re') aid = open_count (re_reservations re) aid"
    and live: "\<And>r. ResLive r \<in> set (re_reservations re') \<Longrightarrow>
      (rv_account_id r = ac_id a \<or> (\<exists>r0. ResLive r0 \<in> set (re_reservations re) \<and> rv_account_id r0 = rv_account_id r)) \<and>
      (\<exists>m. re_maximum_order_id re' = Some m \<and> rv_order_id r \<le> m)"
  shows "risk_inv re'"
proof -
  have ainv: "accounts_inv (re_accounts re) (re_account_index re)" using inv by (simp add: risk_inv_def)
  have "account_ok (re_reservations re') b" if "Some b \<in> set (re_accounts re')" for b
  proof -
    from that obtain u where u: "u < length (re_accounts re)" "re_accounts re' ! u = Some b"
      unfolding in_set_conv_nth accs by auto
    show ?thesis
    proof (cases "u = slot")
      case True
      with u accs a' show ?thesis by auto
    next
      case False
      with u accs have b: "re_accounts re ! u = Some b" by simp
      with u(1) inv have ok: "account_ok (re_reservations re) b"
        unfolding risk_inv_def by (metis nth_mem)
      have "ac_id b \<noteq> ac_id a" using accounts_unique [OF ainv u(1) b slot] False by blast
      with ok others show ?thesis by (simp add: account_ok_def)
    qed
  qed
  moreover have "\<exists>b. Some b \<in> set (re_accounts re') \<and> ac_id b = aid"
    if "aid = ac_id a \<or> (\<exists>b. Some b \<in> set (re_accounts re) \<and> ac_id b = aid)" for aid
  proof (cases "aid = ac_id a")
    case True
    with a'(1) slot(1) accs show ?thesis by (metis set_update_memI)
  next
    case False
    with that obtain b u where "u < length (re_accounts re)" "re_accounts re ! u = Some b" "ac_id b = aid"
      by (metis in_set_conv_nth)
    with False slot accs show ?thesis by (metis length_list_update nth_list_update_neq nth_mem option.inject)
  qed
  moreover have "accounts_inv (re_accounts re') (re_account_index re')"
    unfolding accs by (rule accounts_inv_update [OF ainv slot a'(1)])
  ultimately show ?thesis using store live inv unfolding risk_inv_def by metis
qed

end
