(* ===== verification/RiskSpec.thy ===== *)
theory RiskSpec
  imports RiskInv
begin

text \<open>
  What the risk engine promises, over maps and unbounded arithmetic: accounts by id and open orders
  by id, with every rejection written as the condition on that abstract state which causes it. The
  second half shows that the engine of theory \<open>Risk\<close> refines it: from a state satisfying
  \<open>risk_inv\<close> no operation panics, each returns the specified result or rejection, and the
  invariant is kept.
\<close>

section \<open>The specification\<close>

record RiskModel =
  rm_accounts :: "AccountId \<rightharpoonup> AccountState"
  rm_orders :: "OrderId \<rightharpoonup> (AccountId \<times> Side \<times> Quantity)"
  rm_maximum :: "OrderId option"
  rm_killed :: bool
  rm_full :: bool

definition add_exposure :: "Side \<Rightarrow> nat \<Rightarrow> AccountState \<Rightarrow> AccountState" where
  "add_exposure side q a =
     (case side of Buy \<Rightarrow> a\<lparr>ac_reserved_buys := ac_reserved_buys a + q\<rparr>
                 | Sell \<Rightarrow> a\<lparr>ac_reserved_sells := ac_reserved_sells a + q\<rparr>)"

definition drop_exposure :: "Side \<Rightarrow> nat \<Rightarrow> AccountState \<Rightarrow> AccountState" where
  "drop_exposure side q a =
     (case side of Buy \<Rightarrow> a\<lparr>ac_reserved_buys := ac_reserved_buys a - q\<rparr>
                 | Sell \<Rightarrow> a\<lparr>ac_reserved_sells := ac_reserved_sells a - q\<rparr>)"

definition trade :: "Side \<Rightarrow> nat \<Rightarrow> AccountState \<Rightarrow> AccountState" where
  "trade side q a =
     (case side of Buy \<Rightarrow> a\<lparr>ac_settled_position := ac_settled_position a + int q\<rparr>
                 | Sell \<Rightarrow> a\<lparr>ac_settled_position := ac_settled_position a - int q\<rparr>)"

definition position_ok :: "AccountState \<Rightarrow> bool" where
  "position_ok a \<longleftrightarrow>
     ac_settled_position a + int (ac_reserved_buys a) \<le> int (rl_max_abs_position (ac_limits a)) \<and>
     - int (rl_max_abs_position (ac_limits a)) \<le> ac_settled_position a - int (ac_reserved_sells a)"

text \<open>
  The notional check. The absolute value of \<open>i64::MIN\<close> is the one value that does not fit, so a
  price of \<open>i64::MIN\<close> is an arithmetic rejection; every other notional fits 128 bits.
\<close>

definition notional_check :: "RiskLimits \<Rightarrow> PriceTicks \<Rightarrow> Quantity \<Rightarrow> (unit, RejectReason) result" where
  "notional_check l price q =
     (if price = - (2 ^ 63) then Err ArithmeticOverflow
      else if nat \<bar>price\<bar> * q > rl_max_notional l then Err NotionalLimit else Ok ())"

definition spec_limits :: "AccountState \<Rightarrow> NewOrder \<Rightarrow> (AccountState, RejectReason) result" where
  "spec_limits a order =
     (let a' = (add_exposure (no_side order) (no_quantity order) a)\<lparr>ac_open_orders := ac_open_orders a + 1\<rparr> in
      if ac_killed a then Err KillSwitch
      else if no_quantity order > rl_max_quantity (ac_limits a) then Err QuantityLimit
      else if no_price order < rl_minimum_price (ac_limits a) \<or> no_price order > rl_maximum_price (ac_limits a)
      then Err PriceCollar
      else and_then (notional_check (ac_limits a) (no_price order) (no_quantity order)) (\<lambda>_.
        if \<not> position_ok a' then Err PositionLimit
        else if ac_open_orders a + 1 > rl_max_open_orders (ac_limits a) then Err OpenOrderLimit
        else Ok a'))"

definition spec_reserve :: "RiskModel \<Rightarrow> NewOrder \<Rightarrow> (AccountState, RejectReason) result" where
  "spec_reserve m order =
     (if rm_killed m then Err KillSwitch
      else if no_quantity order = 0 then Err InvalidQuantity
      else if \<exists>x. rm_maximum m = Some x \<and> no_order_id order \<le> x then Err DuplicateOrderId
      else if rm_full m then Err OrderCapacity
      else case rm_accounts m (no_account_id order) of
        None \<Rightarrow> Err UnknownAccount
      | Some a \<Rightarrow> spec_limits a order)"

section \<open>The abstraction\<close>

definition risk_full :: "RiskEngine \<Rightarrow> bool" where
  "risk_full re \<longleftrightarrow> (\<forall>s \<in> set (re_reservations re). \<not> is_free s)"

definition risk_abs :: "RiskEngine \<Rightarrow> RiskModel" where
  "risk_abs re = \<lparr>rm_accounts = acct re, rm_orders = resv re, rm_maximum = re_maximum_order_id re,
     rm_killed = re_killed re, rm_full = risk_full re\<rparr>"

lemma risk_inv_accounts: "risk_inv re \<Longrightarrow> accounts_inv (re_accounts re) (re_account_index re)"
  by (simp add: risk_inv_def)

lemma risk_inv_store:
  "risk_inv re \<Longrightarrow> res_store_inv (re_reservations re) (re_reservation_free_head re) (re_reservation_index re)"
  by (simp add: risk_inv_def)

lemma risk_inv_acct_ok: "risk_inv re \<Longrightarrow> acct re aid = Some a \<Longrightarrow> account_ok (re_reservations re) a \<and> ac_id a = aid"
proof -
  assume inv: "risk_inv re" and "acct re aid = Some a"
  then obtain slot where "slot < length (re_accounts re)" "re_accounts re ! slot = Some a" "ac_id a = aid"
    using acct_iff [OF risk_inv_accounts [OF inv]] by auto
  moreover from this have "Some a \<in> set (re_accounts re)" by (metis nth_mem)
  ultimately show ?thesis using inv unfolding risk_inv_def by blast
qed

lemma free_head_NIL:
  assumes "risk_inv re"
  shows "re_reservation_free_head re = NIL \<longleftrightarrow> risk_full re"
proof -
  obtain fl where fl: "free_chain (re_reservations re) (re_reservation_free_head re) fl"
    using risk_inv_store [OF assms] unfolding res_store_inv_def by blast
  have "probe_inv (re_reservation_index re)" "length (re_reservation_index re) = 2 * length (re_reservations re)"
    using risk_inv_store [OF assms] unfolding res_store_inv_def by blast+
  then have "length (re_reservations re) \<le> 2 ^ 32" using probe_inv_capacity by fastforce
  then have "NIL \<notin> set fl" using fl by (auto simp: free_chain_def NIL_def)
  with fl have "re_reservation_free_head re = NIL \<longleftrightarrow> fl = []"
    by (intro links_NIL) (auto simp: free_chain_def)
  also have "\<dots> \<longleftrightarrow> {v. v < length (re_reservations re) \<and> is_free (re_reservations re ! v)} = {}"
    using fl unfolding free_chain_def by (metis set_empty)
  also have "\<dots> \<longleftrightarrow> risk_full re"
    unfolding risk_full_def all_set_conv_all_nth by auto
  finally show ?thesis .
qed

lemma account_bounds:
  assumes "account_ok rs a"
  shows "\<bar>ac_settled_position a\<bar> < 2 ^ 65" and "ac_reserved_buys a < 2 ^ 66" and "ac_reserved_sells a < 2 ^ 66"
proof -
  have "int (rl_max_abs_position (ac_limits a)) < 2 ^ 64"
    using assms by (auto simp: account_ok_def limits_ok_def limits_fit_def u64_ok_def)
  moreover have "ac_settled_position a + int (ac_reserved_buys a) \<le> int (rl_max_abs_position (ac_limits a))"
    "- int (rl_max_abs_position (ac_limits a)) \<le> ac_settled_position a - int (ac_reserved_sells a)"
    using assms by (auto simp: account_ok_def within_limits_def)
  moreover have "0 \<le> int (ac_reserved_buys a)" "0 \<le> int (ac_reserved_sells a)" by simp_all
  ultimately have a: "\<bar>ac_settled_position a\<bar> < 2 ^ 65" and b: "int (ac_reserved_buys a) < 2 ^ 66"
    "int (ac_reserved_sells a) < 2 ^ 66" by simp_all
  show "\<bar>ac_settled_position a\<bar> < 2 ^ 65" by (rule a)
  show "ac_reserved_buys a < 2 ^ 66" "ac_reserved_sells a < 2 ^ 66"
    using b by (simp_all add: zless_nat_eq_int_zless)
qed

section \<open>Limit evaluation\<close>

lemma notional_of_check:
  assumes "i64_ok price" and "u64_ok q"
  shows "and_then (notional_of price q) (\<lambda>n. if n > rl_max_notional l then Err NotionalLimit else f)
    = and_then (notional_check l price q) (\<lambda>_. f)"
proof (cases "price = - (2 ^ 63)")
  case True
  then show ?thesis by (simp add: notional_of_def notional_check_def checked_abs_def in_range_i_def)
next
  case False
  then have p: "\<bar>price\<bar> < 2 ^ 63" using assms(1) unfolding i64_ok_def by (simp add: abs_less_iff)
  then have "nat \<bar>price\<bar> < 2 ^ 63" by (simp add: nat_less_iff)
  then have "nat \<bar>price\<bar> * q < 2 ^ 63 * 2 ^ 64"
    using assms(2) unfolding u64_ok_def by (intro mult_strict_mono) auto
  then have "nat \<bar>price\<bar> * q < 2 ^ 128" by simp
  moreover have "- (2 ^ 63) \<le> \<bar>price\<bar>" by (rule order.trans [of _ 0]) simp_all
  ultimately show ?thesis using p False
    by (simp add: notional_of_def notional_check_def checked_abs_def in_range_i_def u64_try_from_def checked_mul_def)
qed

lemma add_reserved_check:
  assumes ok: "account_ok rs a" and q: "u64_ok q"
  shows "and_then (add_reserved a side q) (\<lambda>(b, s). and_then (check_position a b s) (\<lambda>_. f b s))
    = (if position_ok (add_exposure side q a)
       then f (ac_reserved_buys (add_exposure side q a)) (ac_reserved_sells (add_exposure side q a))
       else Err PositionLimit)"
proof -
  note b = account_bounds [OF ok]
  have q': "q < 2 ^ 64" using q by (simp add: u64_ok_def)
  have pos: "check_position a b s = (if ac_settled_position a + int b \<le> int (rl_max_abs_position (ac_limits a)) \<and>
      - int (rl_max_abs_position (ac_limits a)) \<le> ac_settled_position a - int s then Ok () else Err PositionLimit)"
    if "b < 2 ^ 67" "s < 2 ^ 67" for b s
  proof -
    have "int b < 2 ^ 67" "int s < 2 ^ 67" using that by (simp_all add: zless_nat_eq_int_zless)
    then have "in_range_i 128 (ac_settled_position a + int b)" "in_range_i 128 (ac_settled_position a - int s)"
      using b(1) unfolding in_range_i_def abs_less_iff by (auto intro: order.strict_trans2 order.strict_implies_order)
    with that show ?thesis
      by (simp add: check_position_def i128_try_from_def checked_iadd_def checked_isub_def Let_def not_le)
  qed
  have "ac_reserved_buys a + q < 2 ^ 67" "ac_reserved_sells a + q < 2 ^ 67"
    "ac_reserved_buys a < 2 ^ 67" "ac_reserved_sells a < 2 ^ 67" using b q' by simp_all
  then show ?thesis
    by (cases side) (simp_all add: add_reserved_def pos checked_add_def add_exposure_def position_ok_def)
qed

lemma exposure_simps [simp]:
  "ac_id (add_exposure side q a) = ac_id a" "ac_limits (add_exposure side q a) = ac_limits a"
  "ac_open_orders (add_exposure side q a) = ac_open_orders a" "ac_killed (add_exposure side q a) = ac_killed a"
  "ac_settled_position (add_exposure side q a) = ac_settled_position a"
  "ac_id (drop_exposure side q a) = ac_id a" "ac_limits (drop_exposure side q a) = ac_limits a"
  "ac_open_orders (drop_exposure side q a) = ac_open_orders a" "ac_killed (drop_exposure side q a) = ac_killed a"
  "ac_settled_position (drop_exposure side q a) = ac_settled_position a"
  "ac_id (trade side q a) = ac_id a" "ac_limits (trade side q a) = ac_limits a"
  "ac_open_orders (trade side q a) = ac_open_orders a" "ac_killed (trade side q a) = ac_killed a"
  "ac_reserved_buys (trade side q a) = ac_reserved_buys a" "ac_reserved_sells (trade side q a) = ac_reserved_sells a"
  by (cases side; simp add: add_exposure_def drop_exposure_def trade_def)+

lemma exposure_totals:
  "ac_reserved_buys (add_exposure side q a) = ac_reserved_buys a + (if side = Buy then q else 0)"
  "ac_reserved_sells (add_exposure side q a) = ac_reserved_sells a + (if side = Sell then q else 0)"
  "ac_reserved_buys (drop_exposure side q a) = ac_reserved_buys a - (if side = Buy then q else 0)"
  "ac_reserved_sells (drop_exposure side q a) = ac_reserved_sells a - (if side = Sell then q else 0)"
  "ac_settled_position (trade side q a) = ac_settled_position a + (if side = Buy then int q else - int q)"
  by (cases side; simp add: add_exposure_def drop_exposure_def trade_def)+

lemma open_count_length: "open_count rs aid \<le> length rs"
proof -
  have "slot_open aid s \<le> 1" for s by (cases s) auto
  then have "sum_list (map (slot_open aid) rs) \<le> sum_list (map (\<lambda>_. 1) rs)"
    by (intro sum_list_mono) auto
  then show ?thesis by (simp add: open_count_def sum_list_triv)
qed

lemma store_small: "res_store_inv rs head ix \<Longrightarrow> length rs \<le> 2 ^ 31"
  using probe_inv_capacity [of ix] unfolding res_store_inv_def by fastforce

lemma evaluate_limits_spec:
  assumes ok: "account_ok rs a" and len: "length rs \<le> 2 ^ 31" and order: "new_order_ok order"
  shows "evaluate_limits a order = (case spec_limits a order of
      Err e \<Rightarrow> Err e | Ok a' \<Rightarrow> Ok (ac_reserved_buys a', ac_reserved_sells a', ac_open_orders a'))"
proof -
  have p: "i64_ok (no_price order)" and q: "u64_ok (no_quantity order)"
    using order by (auto simp: new_order_ok_def)
  have "ac_open_orders a \<le> 2 ^ 31"
    using ok open_count_length [of rs "ac_id a"] len by (simp add: account_ok_def)
  then have opn: "checked_add 32 (ac_open_orders a) 1 = Some (ac_open_orders a + 1)"
    by (simp add: checked_add_def)
  have pos: "position_ok (a'\<lparr>ac_open_orders := n\<rparr>) = position_ok a'" for a' n by (simp add: position_ok_def)
  show ?thesis
    unfolding evaluate_limits_def notional_of_check [OF p q] add_reserved_check [OF ok q] opn
    by (simp add: spec_limits_def Let_def pos notional_check_def)
qed

section \<open>Reservation\<close>

lemma spec_limits_Ok:
  assumes "spec_limits a order = Ok a'"
  shows "a' = (add_exposure (no_side order) (no_quantity order) a)\<lparr>ac_open_orders := ac_open_orders a + 1\<rparr>"
    and "within_limits a'"
  using assms unfolding spec_limits_def within_limits_def position_ok_def
  by (auto simp: Let_def and_then_Ok_iff split: if_splits)

lemma check_and_reserve_refines:
  assumes inv: "risk_inv re" and order: "new_order_ok order"
  shows "case spec_reserve (risk_abs re) order of
      Err e \<Rightarrow> check_and_reserve re order = Some (Err e)
    | Ok a' \<Rightarrow> \<exists>re'. check_and_reserve re order = Some (Ok re') \<and> risk_inv re' \<and>
        acct re' = (acct re)(no_account_id order \<mapsto> a') \<and>
        resv re' = (resv re)(no_order_id order \<mapsto> (no_account_id order, no_side order, no_quantity order)) \<and>
        re_maximum_order_id re' = Some (no_order_id order) \<and> re_killed re' = re_killed re"
proof (cases "spec_reserve (risk_abs re) order")
  case (Err e)
  from risk_inv_accounts [OF inv] show ?thesis
  proof (cases rule: account_entry_cases [where aid = "no_account_id order"])
    case Unknown
    with Err free_head_NIL [OF inv] show ?thesis
      by (auto simp: spec_reserve_def risk_abs_def check_and_reserve_def split: if_splits option.splits)
  next
    case (Known slot a)
    have ok: "account_ok (re_reservations re) a" using risk_inv_acct_ok [OF inv Known(2)] by simp
    note ev = evaluate_limits_spec [OF ok store_small [OF risk_inv_store [OF inv]] order]
    from Known Err free_head_NIL [OF inv] show ?thesis
      by (auto simp: spec_reserve_def risk_abs_def check_and_reserve_def ev split: if_splits option.splits)
  qed
next
  case (Ok a')
  let ?rs = "re_reservations re" and ?oid = "no_order_id order" and ?aid = "no_account_id order"
  from Ok have guards: "\<not> re_killed re" "no_quantity order \<noteq> 0"
    "\<not> (case re_maximum_order_id re of None \<Rightarrow> False | Some m \<Rightarrow> ?oid \<le> m)"
    and nonfull: "\<not> risk_full re" and known: "acct re ?aid \<noteq> None"
    by (auto simp: spec_reserve_def risk_abs_def split: if_splits option.splits)
  have head: "re_reservation_free_head re \<noteq> NIL" using nonfull free_head_NIL [OF inv] by simp
  from known obtain slot a where a: "account_entry re ?aid = Some (Ok (slot, a))" "acct re ?aid = Some a"
      "slot < length (re_accounts re)" "re_accounts re ! slot = Some a" "ac_id a = ?aid"
    using account_entry_cases [OF risk_inv_accounts [OF inv], of ?aid] by metis
  have ok: "account_ok ?rs a" using risk_inv_acct_ok [OF inv a(2)] by simp
  have spec: "spec_limits a order = Ok a'"
    using Ok guards nonfull a by (auto simp: spec_reserve_def risk_abs_def split: if_splits)
  note ev = evaluate_limits_spec [OF ok store_small [OF risk_inv_store [OF inv]] order, unfolded spec, simplified]
  note a' = spec_limits_Ok [OF spec]
  have new: "rv_order_id r \<noteq> ?oid" if "ResLive r \<in> set ?rs" for r
  proof -
    from inv that obtain m where "re_maximum_order_id re = Some m" "rv_order_id r \<le> m"
      unfolding risk_inv_def by blast
    with guards(3) show ?thesis by auto
  qed
  from res_store_insert [OF risk_inv_store [OF inv] head new] obtain nx i ix' where
    ins: "re_reservation_free_head re < length ?rs" "?rs ! re_reservation_free_head re = ResFree nx"
      "probe_insert (re_reservation_index re) ?oid (re_reservation_free_head re) = Ok (i, ix')"
      "\<And>r. rv_order_id r = ?oid \<Longrightarrow> rv_index_slot r = i \<Longrightarrow> res_store_inv (?rs[re_reservation_free_head re := ResLive r]) nx ix'"
    by blast
  define r where "r = \<lparr>rv_order_id = ?oid, rv_account_id = ?aid, rv_index_slot = i, rv_side = no_side order,
    rv_quantity = no_quantity order\<rparr>"
  define rs' where "rs' = ?rs[re_reservation_free_head re := ResLive r]"
  define re' where "re' = re\<lparr>re_reservation_index := ix', re_reservation_free_head := nx,
    re_maximum_order_id := Some ?oid, re_accounts := (re_accounts re)[slot := Some a'], re_reservations := rs'\<rparr>"
  have a_eq: "a\<lparr>ac_reserved_buys := ac_reserved_buys a', ac_reserved_sells := ac_reserved_sells a',
      ac_open_orders := ac_open_orders a'\<rparr> = a'"
    unfolding a'(1) add_exposure_def by (cases "no_side order") simp_all
  have run: "check_and_reserve re order = Some (Ok re')"
    using guards head a(1) ins ev
    by (simp add: check_and_reserve_def nth_opt_def set_reservation_def set_account_def a_eq Let_def
        r_def [symmetric] re'_def rs'_def)
  have store: "res_store_inv rs' nx ix'" unfolding rs'_def by (rule ins(4)) (simp_all add: r_def)
  have exp: "exposure rs' side aid = exposure ?rs side aid + slot_exposure side aid (ResLive r)" for side aid
    using exposure_update [OF ins(1), of "ResLive r" side aid] ins(2) by (simp add: rs'_def)
  have cnt: "open_count rs' aid = open_count ?rs aid + slot_open aid (ResLive r)" for aid
    using open_count_update [OF ins(1), of "ResLive r" aid] ins(2) by (simp add: rs'_def)
  have acc: "account_ok rs' a'"
    using ok a'(2) a(5) unfolding account_ok_def exp cnt unfolding a'(1)
    by (cases "no_side order") (auto simp: r_def exposure_totals)
  have "risk_inv re'"
  proof (rule risk_inv_step [OF inv a(3,4)])
    show "ac_id a' = ac_id a" by (simp add: a'(1))
    fix b
    assume "ResLive b \<in> set (re_reservations re')"
    then have "b = r \<or> ResLive b \<in> set ?rs" unfolding re'_def rs'_def
      using set_update_subset_insert [of ?rs "re_reservation_free_head re" "ResLive r"] by auto
    moreover have "\<exists>m. re_maximum_order_id re = Some m \<and> rv_order_id b \<le> m" if "ResLive b \<in> set ?rs"
      using inv that unfolding risk_inv_def by blast
    ultimately show "(rv_account_id b = ac_id a \<or> (\<exists>r0. ResLive r0 \<in> set ?rs \<and> rv_account_id r0 = rv_account_id b)) \<and>
        (\<exists>m. re_maximum_order_id re' = Some m \<and> rv_order_id b \<le> m)"
      using guards(3) a(5) by (fastforce simp: re'_def r_def)
  qed (use store acc a(5) exp cnt in \<open>auto simp: re'_def r_def\<close>)
  moreover have "acct re' = (acct re)(?aid \<mapsto> a')"
    using acct_update [OF risk_inv_accounts [OF inv] a(3,4), of a' re'] a(5) a'(1) by (simp add: re'_def)
  moreover have "resv re' = (resv re)(?oid \<mapsto> (?aid, no_side order, no_quantity order))"
    using resv_set [OF risk_inv_store [OF inv] _ ins(1), of re' nx r] store ins(2)
    by (simp add: re'_def rs'_def r_def)
  ultimately show ?thesis using run Ok by (simp add: re'_def)
qed

section \<open>Release and amendment\<close>

definition effect ::
  "RiskEngine \<Rightarrow> RiskEngine \<Rightarrow> AccountId \<Rightarrow> AccountState \<Rightarrow> OrderId \<Rightarrow> (AccountId \<times> Side \<times> Quantity) option \<Rightarrow> bool" where
  "effect re re' aid a' oid x \<longleftrightarrow> risk_inv re' \<and> acct re' = (acct re)(aid \<mapsto> a') \<and> resv re' = (resv re)(oid := x) \<and>
     re_maximum_order_id re' = re_maximum_order_id re \<and> re_killed re' = re_killed re"

lemma live_reservation_cases:
  assumes inv: "risk_inv re"
  obtains (Unknown) "live_reservation re oid = None" "resv re oid = None"
  | (Live) v r slot a where "live_reservation re oid = Some (v, r)"
      "resv re oid = Some (rv_account_id r, rv_side r, rv_quantity r)"
      "v < length (re_reservations re)" "re_reservations re ! v = ResLive r" "rv_order_id r = oid"
      "account_entry re (rv_account_id r) = Some (Ok (slot, a))" "acct re (rv_account_id r) = Some a"
      "slot < length (re_accounts re)" "re_accounts re ! slot = Some a" "ac_id a = rv_account_id r"
      "account_ok (re_reservations re) a"
proof (cases "live_reservation re oid")
  case None
  then show ?thesis by (intro Unknown) (simp_all add: resv_def)
next
  case (Some x)
  then obtain v r where vr: "live_reservation re oid = Some (v, r)" by (cases x) auto
  then have r: "v < length (re_reservations re)" "re_reservations re ! v = ResLive r" "rv_order_id r = oid"
    using live_reservation_iff [OF risk_inv_store [OF inv]] by auto
  then have "\<exists>a. Some a \<in> set (re_accounts re) \<and> ac_id a = rv_account_id r"
    using inv nth_mem [OF r(1)] unfolding risk_inv_def by metis
  then have "acct re (rv_account_id r) \<noteq> None"
    using acct_iff [OF risk_inv_accounts [OF inv]] by (metis in_set_conv_nth option.distinct(1))
  then obtain slot a where a: "account_entry re (rv_account_id r) = Some (Ok (slot, a))"
      "acct re (rv_account_id r) = Some a" "slot < length (re_accounts re)"
      "re_accounts re ! slot = Some a" "ac_id a = rv_account_id r"
    using account_entry_cases [OF risk_inv_accounts [OF inv], of "rv_account_id r"] by metis
  from Live [OF vr _ r a] risk_inv_acct_ok [OF inv a(2)] vr show ?thesis by (simp add: resv_def)
qed

lemma live_exposure_le:
  assumes "v < length rs" and "rs ! v = ResLive r" and "account_ok rs a" and "ac_id a = rv_account_id r"
  shows "rv_side r = Buy \<Longrightarrow> rv_quantity r \<le> ac_reserved_buys a"
    and "rv_side r = Sell \<Longrightarrow> rv_quantity r \<le> ac_reserved_sells a" and "1 \<le> ac_open_orders a"
proof -
  have "slot_exposure side (ac_id a) (rs ! v) \<le> exposure rs side (ac_id a)" for side
    unfolding exposure_def using assms(1) by (intro member_le_sum_list) auto
  from this [of Buy] this [of Sell] assms
  show "rv_side r = Buy \<Longrightarrow> rv_quantity r \<le> ac_reserved_buys a"
    "rv_side r = Sell \<Longrightarrow> rv_quantity r \<le> ac_reserved_sells a"
    by (auto simp: account_ok_def)
  have "slot_open (ac_id a) (rs ! v) \<le> open_count rs (ac_id a)"
    unfolding open_count_def using assms(1) by (intro member_le_sum_list) auto
  with assms show "1 \<le> ac_open_orders a" by (simp add: account_ok_def)
qed

lemma amend_effect:
  assumes inv: "risk_inv re" and v: "v < length (re_reservations re)" "re_reservations re ! v = ResLive r"
    and slot: "slot < length (re_accounts re)" "re_accounts re ! slot = Some a" "ac_id a = rv_account_id r"
    and ok: "account_ok (re_reservations re) a"
    and r': "r' = r\<lparr>rv_quantity := q\<rparr>"
    and a': "ac_id a' = ac_id a" "ac_limits a' = ac_limits a" "ac_open_orders a' = ac_open_orders a" "within_limits a'"
      "ac_reserved_buys a' + (if rv_side r = Buy then rv_quantity r else 0)
         = ac_reserved_buys a + (if rv_side r = Buy then q else 0)"
      "ac_reserved_sells a' + (if rv_side r = Sell then rv_quantity r else 0)
         = ac_reserved_sells a + (if rv_side r = Sell then q else 0)"
  shows "effect re (set_reservation (set_account re slot a') v (ResLive r')) (rv_account_id r) a'
    (rv_order_id r) (Some (rv_account_id r, rv_side r, q))"
proof -
  let ?rs = "re_reservations re"
  define re' where "re' = set_reservation (set_account re slot a') v (ResLive r')"
  have sel: "re_accounts re' = (re_accounts re)[slot := Some a']" "re_account_index re' = re_account_index re"
    "re_reservations re' = ?rs[v := ResLive r']" "re_reservation_free_head re' = re_reservation_free_head re"
    "re_reservation_index re' = re_reservation_index re" "re_maximum_order_id re' = re_maximum_order_id re"
    "re_killed re' = re_killed re"
    by (simp_all add: re'_def set_reservation_def set_account_def)
  have store: "res_store_inv (?rs[v := ResLive r']) (re_reservation_free_head re) (re_reservation_index re)"
    by (rule res_store_update [OF risk_inv_store [OF inv] v]) (simp_all add: r')
  have exp: "exposure (?rs[v := ResLive r']) side aid + slot_exposure side aid (ResLive r)
      = exposure ?rs side aid + slot_exposure side aid (ResLive r')" for side aid
    using exposure_update [OF v(1), of "ResLive r'" side aid] v(2) by simp
  have cnt: "open_count (?rs[v := ResLive r']) aid = open_count ?rs aid" for aid
    using open_count_update [OF v(1), of "ResLive r'" aid] v(2) by (simp add: r')
  have acc: "account_ok (?rs[v := ResLive r']) a'"
    using exp [of Buy "ac_id a"] exp [of Sell "ac_id a"] cnt [of "ac_id a"] a' ok slot(3)
    by (cases "rv_side r") (auto simp: account_ok_def r')
  have "risk_inv re'"
  proof (rule risk_inv_step [OF inv slot(1,2) a'(1)])
    fix b
    assume "ResLive b \<in> set (re_reservations re')"
    then have "b = r' \<or> ResLive b \<in> set ?rs" unfolding sel
      using set_update_subset_insert [of ?rs v "ResLive r'"] by auto
    moreover have "ResLive r \<in> set ?rs" using v by (metis nth_mem)
    ultimately obtain r0 where "ResLive r0 \<in> set ?rs" "rv_account_id r0 = rv_account_id b" "rv_order_id r0 = rv_order_id b"
      unfolding r' by auto
    with inv sel(6) show "(rv_account_id b = ac_id a \<or> (\<exists>r0. ResLive r0 \<in> set ?rs \<and> rv_account_id r0 = rv_account_id b)) \<and>
        (\<exists>m. re_maximum_order_id re' = Some m \<and> rv_order_id b \<le> m)"
      unfolding risk_inv_def by metis
  next
    fix side aid
    assume "aid \<noteq> ac_id a"
    with exp [of side aid] slot(3) show "exposure (re_reservations re') side aid = exposure ?rs side aid"
      unfolding sel by (simp add: r')
  qed (simp_all add: sel store acc cnt)
  moreover have "acct re' = (acct re)(rv_account_id r \<mapsto> a')"
    using acct_update [OF risk_inv_accounts [OF inv] slot(1,2) a'(1) sel(1,2)] slot(3) by simp
  moreover have "resv re' = (resv re)(rv_order_id r \<mapsto> (rv_account_id r, rv_side r, q))"
    using resv_set [OF risk_inv_store [OF inv] _ v(1) _ sel(3), of "re_reservation_free_head re"] store v(2)
    by (simp add: sel r')
  ultimately show ?thesis unfolding effect_def re'_def [symmetric] by (simp add: sel)
qed

lemma release_effect:
  assumes inv: "risk_inv re" and v: "v < length (re_reservations re)" "re_reservations re ! v = ResLive r"
    and slot: "slot < length (re_accounts re)" "re_accounts re ! slot = Some a" "ac_id a = rv_account_id r"
    and ok: "account_ok (re_reservations re) a"
    and r': "rv_index_slot r' = rv_index_slot r" "rv_order_id r' = rv_order_id r"
    and a': "ac_id a' = ac_id a" "ac_limits a' = ac_limits a" "ac_open_orders a' + 1 = ac_open_orders a" "within_limits a'"
      "ac_reserved_buys a' + (if rv_side r = Buy then rv_quantity r else 0) = ac_reserved_buys a"
      "ac_reserved_sells a' + (if rv_side r = Sell then rv_quantity r else 0) = ac_reserved_sells a"
  shows "\<exists>re'. release_reservation (set_account re slot a') v r' = Some re' \<and>
    effect re re' (rv_account_id r) a' (rv_order_id r) None"
proof -
  let ?rs = "re_reservations re"
  from res_store_release [OF risk_inv_store [OF inv] v] obtain ix' rs' where
    rel: "probe_remove_at (re_reservation_index re) (rv_index_slot r) (rv_order_id r) move_reservation ?rs
        = Some (ix', rs', Some v)" "map strip rs' = map strip ?rs"
      "res_store_inv (rs'[v := ResFree (re_reservation_free_head re)]) v ix'" by blast
  define free where "free = ResFree (re_reservation_free_head re)"
  define re' where "re' = (set_account re slot a')\<lparr>re_reservation_index := ix',
    re_reservations := rs'[v := free], re_reservation_free_head := v\<rparr>"
  have run: "release_reservation (set_account re slot a') v r' = Some re'"
    using rel(1) r' by (simp add: release_reservation_def re'_def free_def set_account_def)
  have sel: "re_accounts re' = (re_accounts re)[slot := Some a']" "re_account_index re' = re_account_index re"
    "re_reservations re' = rs'[v := free]" "re_reservation_free_head re' = v"
    "re_reservation_index re' = ix'" "re_maximum_order_id re' = re_maximum_order_id re" "re_killed re' = re_killed re"
    by (simp_all add: re'_def set_account_def)
  have len: "length rs' = length ?rs" using map_eq_imp_length_eq [OF rel(2)] .
  then have v': "v < length rs'" using v by simp
  have sv: "strip (rs' ! v) = strip (ResLive r)" using nth_strip [OF rel(2) v'] v(2) by simp
  have exp: "exposure (rs'[v := free]) side aid + slot_exposure side aid (ResLive r) = exposure ?rs side aid" for side aid
    using exposure_update [OF v', of free side aid] exposure_strip [OF rel(2)] arg_cong [OF sv, of "slot_exposure side aid"]
    unfolding slot_exposure_strip by (simp add: free_def)
  have cnt: "open_count (rs'[v := free]) aid + slot_open aid (ResLive r) = open_count ?rs aid" for aid
    using open_count_update [OF v', of free aid] open_count_strip [OF rel(2)] arg_cong [OF sv, of "slot_open aid"]
    unfolding slot_open_strip by (simp add: free_def)
  have acc: "account_ok (rs'[v := free]) a'"
    using exp [of Buy "ac_id a"] exp [of Sell "ac_id a"] cnt [of "ac_id a"] a' ok slot(3)
    by (cases "rv_side r") (auto simp: account_ok_def)
  have "risk_inv re'"
  proof (rule risk_inv_step [OF inv slot(1,2) a'(1)])
    fix b
    assume "ResLive b \<in> set (re_reservations re')"
    then have "ResLive b \<in> set rs'" unfolding sel free_def
      using set_update_subset_insert [of rs' v free] by (auto simp: free_def)
    then obtain u where u: "u < length rs'" "rs' ! u = ResLive b" by (metis in_set_conv_nth)
    then have "slot_view (?rs ! u) = slot_view (ResLive b)" using nth_strip [OF rel(2) u(1)] slot_view_strip by metis
    then obtain r0 where "?rs ! u = ResLive r0" "rv_account_id r0 = rv_account_id b" "rv_order_id r0 = rv_order_id b"
      by (cases "?rs ! u") auto
    then have "ResLive r0 \<in> set ?rs \<and> rv_account_id r0 = rv_account_id b \<and> rv_order_id r0 = rv_order_id b"
      using u(1) len by (metis nth_mem)
    with inv sel(6) show "(rv_account_id b = ac_id a \<or> (\<exists>r0. ResLive r0 \<in> set ?rs \<and> rv_account_id r0 = rv_account_id b)) \<and>
        (\<exists>m. re_maximum_order_id re' = Some m \<and> rv_order_id b \<le> m)"
      unfolding risk_inv_def by metis
  next
    fix side aid
    assume n: "aid \<noteq> ac_id a"
    with exp [of side aid] slot(3) show "exposure (re_reservations re') side aid = exposure ?rs side aid"
      unfolding sel by simp
    from n cnt [of aid] slot(3) show "open_count (re_reservations re') aid = open_count ?rs aid" unfolding sel by simp
  qed (use rel(3) acc in \<open>simp_all add: sel free_def\<close>)
  moreover have "acct re' = (acct re)(rv_account_id r \<mapsto> a')"
    using acct_update [OF risk_inv_accounts [OF inv] slot(1,2) a'(1) sel(1,2)] slot(3) by simp
  moreover have "resv re' = (resv re)(rv_order_id r := None)"
    using resv_release [OF risk_inv_store [OF inv] _ v _ rel(2), of re' v "re_reservation_free_head re"] rel(3)
    by (simp add: sel free_def)
  ultimately show ?thesis using run unfolding effect_def by (simp add: sel)
qed

section \<open>Settlement, fills and cancels\<close>

text \<open>The account after \<open>filled\<close> of an order is traded and \<open>released\<close> of its reservation freed.\<close>

definition fill_account :: "Side \<Rightarrow> nat \<Rightarrow> nat \<Rightarrow> AccountState \<Rightarrow> AccountState" where
  "fill_account side filled released a = trade side filled (drop_exposure side released a)"

definition close_account :: "Side \<Rightarrow> nat \<Rightarrow> nat \<Rightarrow> AccountState \<Rightarrow> AccountState" where
  "close_account side filled released a =
     (fill_account side filled released a)\<lparr>ac_open_orders := ac_open_orders a - 1\<rparr>"

lemma exposure_after_fill_eq:
  assumes ok: "account_ok rs a" and rel: "side = Buy \<Longrightarrow> released \<le> ac_reserved_buys a"
    "side = Sell \<Longrightarrow> released \<le> ac_reserved_sells a" and f: "filled \<le> released"
  shows "exposure_after_fill a side filled released =
    Ok (ac_settled_position (fill_account side filled released a),
        ac_reserved_buys (fill_account side filled released a), ac_reserved_sells (fill_account side filled released a))"
proof -
  note b = account_bounds [OF ok]
  have "filled < 2 ^ 66" using rel f b by (cases side) auto
  then have "int filled < 2 ^ 66" by (simp add: zless_nat_eq_int_zless)
  then have "in_range_i 128 (ac_settled_position a + int filled)" "in_range_i 128 (ac_settled_position a - int filled)"
    using b(1) unfolding in_range_i_def abs_less_iff by (auto intro: order.strict_trans2 order.strict_implies_order)
  with rel show ?thesis
    by (cases side) (simp_all add: exposure_after_fill_def checked_iadd_def checked_isub_def checked_sub_def
        fill_account_def exposure_totals)
qed

lemma fill_within_limits:
  assumes "within_limits a" and "filled \<le> released" and "side = Buy \<Longrightarrow> released \<le> ac_reserved_buys a"
    "side = Sell \<Longrightarrow> released \<le> ac_reserved_sells a"
  shows "within_limits (fill_account side filled released a)"
    and "n \<le> ac_open_orders a \<Longrightarrow> within_limits ((fill_account side filled released a)\<lparr>ac_open_orders := n\<rparr>)"
  using assms by (cases side; simp add: within_limits_def fill_account_def exposure_totals)+

lemma account_fill_eq:
  "a\<lparr>ac_settled_position := ac_settled_position (fill_account side f q a),
     ac_reserved_buys := ac_reserved_buys (fill_account side f q a),
     ac_reserved_sells := ac_reserved_sells (fill_account side f q a), ac_open_orders := n\<rparr>
   = (fill_account side f q a)\<lparr>ac_open_orders := n\<rparr>"
  by (cases side) (simp_all add: fill_account_def trade_def drop_exposure_def)

lemma settle_reservation_effect:
  assumes inv: "risk_inv re" and live: "live_reservation re oid = Some (v, r)" and f: "filled \<le> rv_quantity r"
  shows "\<exists>a re'. acct re (rv_account_id r) = Some a \<and> settle_reservation re v r filled = Some (Ok re') \<and>
    effect re re' (rv_account_id r) (close_account (rv_side r) filled (rv_quantity r) a) oid None"
  using inv
proof (cases rule: live_reservation_cases [where oid = oid])
  case Unknown
  with live show ?thesis by simp
next
  case (Live v' r' slot a)
  with live have eq: "v' = v" "r' = r" by simp_all
  note Live = Live [unfolded eq]
  note le = live_exposure_le [OF Live(3,4,11,10)]
  let ?a = "close_account (rv_side r) filled (rv_quantity r) a"
  have w: "within_limits ?a" unfolding close_account_def
    using Live(11) le by (intro fill_within_limits(2) f) (auto simp: account_ok_def)
  have "\<exists>re'. release_reservation (set_account re slot ?a) v r = Some re' \<and> effect re re' (rv_account_id r) ?a (rv_order_id r) None"
    by (rule release_effect [OF inv Live(3,4,8,9,10,11) refl refl])
      (use w le in \<open>auto simp: close_account_def fill_account_def exposure_totals\<close>)
  then obtain re' where re': "release_reservation (set_account re slot ?a) v r = Some re'"
    "effect re re' (rv_account_id r) ?a oid None" using Live(5) by auto
  have "settle_reservation re v r filled = Some (Ok re')"
    using Live(6) re'(1) exposure_after_fill_eq [OF Live(11) le(1,2) f] le(3)
    by (simp add: settle_reservation_def checked_sub_def account_fill_eq close_account_def)
  with Live re' show ?thesis by blast
qed

lemma settle_refines:
  assumes "risk_inv re"
  shows "case resv re oid of
      None \<Rightarrow> settle re oid filled = Some (Err UnknownOrder)
    | Some (aid, side, q) \<Rightarrow>
        if filled > q then settle re oid filled = Some (Err InvalidQuantity)
        else \<exists>a re'. acct re aid = Some a \<and> settle re oid filled = Some (Ok re') \<and>
          effect re re' aid (close_account side filled q a) oid None"
  using assms
proof (cases rule: live_reservation_cases [where oid = oid])
  case (Live v r slot a)
  with settle_reservation_effect [OF assms Live(1), of filled] show ?thesis by (auto simp: settle_def)
qed (simp add: settle_def)

lemma cancel_refines:
  assumes "risk_inv re"
  shows "case resv re oid of
      None \<Rightarrow> cancel_reservation re oid account_id = Some (Err UnknownOrder)
    | Some (aid, side, q) \<Rightarrow>
        if aid \<noteq> account_id then cancel_reservation re oid account_id = Some (Err NotOrderOwner)
        else \<exists>a re'. acct re aid = Some a \<and> cancel_reservation re oid account_id = Some (Ok (re', q)) \<and>
          effect re re' aid (close_account side 0 q a) oid None"
  using assms
proof (cases rule: live_reservation_cases [where oid = oid])
  case (Live v r slot a)
  with settle_reservation_effect [OF assms Live(1), of 0] show ?thesis by (auto simp: cancel_reservation_def)
qed (simp add: cancel_reservation_def)

lemma can_cancel_iff:
  assumes "risk_inv re"
  shows "can_cancel re oid account_id = (case resv re oid of None \<Rightarrow> Err UnknownOrder
    | Some (aid, side, q) \<Rightarrow> if aid \<noteq> account_id then Err NotOrderOwner else Ok ())"
  using assms by (cases rule: live_reservation_cases [where oid = oid]) (auto simp: can_cancel_def)

lemma record_fill_refines:
  assumes inv: "risk_inv re" and pos: "filled \<noteq> 0"
  shows "case resv re oid of
      None \<Rightarrow> record_fill re oid filled = Some (Err UnknownOrder)
    | Some (aid, side, q) \<Rightarrow>
        if filled > q then record_fill re oid filled = Some (Err InvalidQuantity)
        else \<exists>a re'. acct re aid = Some a \<and> record_fill re oid filled = Some (Ok re') \<and>
          (if filled = q then effect re re' aid (close_account side filled q a) oid None
           else effect re re' aid (fill_account side filled filled a) oid (Some (aid, side, q - filled)))"
  using inv
proof (cases rule: live_reservation_cases [where oid = oid])
  case Unknown
  with pos show ?thesis by (simp add: record_fill_def)
next
  case (Live v r slot a)
  note le = live_exposure_le [OF Live(3,4,11,10)]
  consider "filled > rv_quantity r" | "filled = rv_quantity r" | "filled < rv_quantity r" by linarith
  then show ?thesis
  proof cases
    case 1
    with Live pos show ?thesis by (simp add: record_fill_def checked_sub_def)
  next
    case 2
    let ?a = "close_account (rv_side r) filled (rv_quantity r) a"
    have w: "within_limits ?a" unfolding close_account_def
      using Live(11) le by (intro fill_within_limits(2)) (auto simp: account_ok_def 2)
    have "\<exists>re'. release_reservation (set_account re slot ?a) v (r\<lparr>rv_quantity := 0\<rparr>) = Some re' \<and>
        effect re re' (rv_account_id r) ?a (rv_order_id r) None"
      by (rule release_effect [OF inv Live(3,4,8,9,10,11)])
        (use w le in \<open>auto simp: close_account_def fill_account_def exposure_totals\<close>)
    then obtain re' where "release_reservation (set_account re slot ?a) v (r\<lparr>rv_quantity := 0\<rparr>) = Some re'"
      "effect re re' (rv_account_id r) ?a oid None" using Live(5) by auto
    with Live pos 2 exposure_after_fill_eq [OF Live(11) le(1,2) order_refl] le(3) show ?thesis
      by (simp add: record_fill_def checked_sub_def account_fill_eq close_account_def Let_def)
  next
    case 3
    let ?a = "fill_account (rv_side r) filled filled a"
    have fl: "rv_side r = Buy \<Longrightarrow> filled \<le> ac_reserved_buys a" "rv_side r = Sell \<Longrightarrow> filled \<le> ac_reserved_sells a"
      using le 3 by auto
    have w: "within_limits ?a" using Live(11) fl by (intro fill_within_limits(1)) (auto simp: account_ok_def)
    have "effect re (set_reservation (set_account re slot ?a) v (ResLive (r\<lparr>rv_quantity := rv_quantity r - filled\<rparr>)))
        (rv_account_id r) ?a (rv_order_id r) (Some (rv_account_id r, rv_side r, rv_quantity r - filled))"
      by (rule amend_effect [OF inv Live(3,4,8,9,10,11) refl])
        (use w fl 3 in \<open>auto simp: fill_account_def exposure_totals\<close>)
    moreover have "a\<lparr>ac_settled_position := ac_settled_position ?a, ac_reserved_buys := ac_reserved_buys ?a,
        ac_reserved_sells := ac_reserved_sells ?a\<rparr> = ?a"
      by (cases "rv_side r") (simp_all add: fill_account_def trade_def drop_exposure_def)
    ultimately show ?thesis using Live pos 3 exposure_after_fill_eq [OF Live(11) fl order_refl]
      by (simp add: record_fill_def checked_sub_def account_fill_eq Let_def)
  qed
qed

section \<open>Amendment and rollback\<close>

text \<open>The decision of an amendment to \<open>q'\<close>, and the account after it.\<close>

definition spec_adjust :: "AccountState \<Rightarrow> Side \<Rightarrow> Quantity \<Rightarrow> PriceTicks \<Rightarrow> Quantity \<Rightarrow> (AccountState, RejectReason) result" where
  "spec_adjust a side q price q' =
     (if q' > q then and_then (notional_check (ac_limits a) price q') (\<lambda>_.
        let a' = add_exposure side (q' - q) a in if position_ok a' then Ok a' else Err PositionLimit)
      else Ok (drop_exposure side (q - q') a))"

lemma add_reserved_total:
  assumes "account_ok rs a" and "u64_ok q"
  shows "add_reserved a side q = Ok (ac_reserved_buys (add_exposure side q a), ac_reserved_sells (add_exposure side q a))"
proof -
  have "q < 2 ^ 64" using assms(2) by (simp add: u64_ok_def)
  with account_bounds [OF assms(1)] have "ac_reserved_buys a + q < 2 ^ 128" "ac_reserved_sells a + q < 2 ^ 128" by simp_all
  then show ?thesis by (cases side) (simp_all add: add_reserved_def checked_add_def exposure_totals)
qed

lemma check_position_total:
  assumes "account_ok rs a" and "u64_ok q"
  shows "check_position a (ac_reserved_buys (add_exposure side q a)) (ac_reserved_sells (add_exposure side q a))
    = (if position_ok (add_exposure side q a) then Ok () else Err PositionLimit)"
  using add_reserved_check [OF assms, of side "\<lambda>_ _. Ok ()"] add_reserved_total [OF assms, of side]
  by (cases "check_position a (ac_reserved_buys (add_exposure side q a)) (ac_reserved_sells (add_exposure side q a))")
    auto

lemma sub_reserved_total:
  assumes "side = Buy \<Longrightarrow> q \<le> ac_reserved_buys a" and "side = Sell \<Longrightarrow> q \<le> ac_reserved_sells a"
  shows "sub_reserved a side q = Ok (drop_exposure side q a)"
  using assms by (cases side) (simp_all add: sub_reserved_def checked_sub_def drop_exposure_def)

lemma exposure_account_eq:
  "a\<lparr>ac_reserved_buys := ac_reserved_buys (add_exposure side q a),
     ac_reserved_sells := ac_reserved_sells (add_exposure side q a)\<rparr> = add_exposure side q a"
  by (cases side) (simp_all add: add_exposure_def)

lemma adjust_refines:
  assumes inv: "risk_inv re" and w: "i64_ok price" "u64_ok q'"
  shows "case resv re oid of
      None \<Rightarrow> adjust_reservation re oid account_id price q' = Some (Err UnknownOrder)
    | Some (aid, side, q) \<Rightarrow>
        if aid \<noteq> account_id then adjust_reservation re oid account_id price q' = Some (Err NotOrderOwner)
        else \<exists>a. acct re aid = Some a \<and>
          (case spec_adjust a side q price q' of
             Err e \<Rightarrow> adjust_reservation re oid account_id price q' = Some (Err e)
           | Ok a' \<Rightarrow> \<exists>re'. adjust_reservation re oid account_id price q' = Some (Ok (re', q - q', q)) \<and>
               effect re re' aid a' oid (Some (aid, side, q')))"
  using inv
proof (cases rule: live_reservation_cases [where oid = oid])
  case Unknown
  then show ?thesis by (simp add: adjust_reservation_def)
next
  case (Live v r slot a)
  note le = live_exposure_le [OF Live(3,4,11,10)]
  show ?thesis
  proof (cases "rv_account_id r = account_id")
    case False
    with Live show ?thesis by (simp add: adjust_reservation_def)
  next
    case True
    let ?q = "rv_quantity r"
    consider "q' > ?q" | "q' = ?q" | "q' < ?q" by linarith
    then show ?thesis
    proof cases
      case 1
      let ?a = "add_exposure (rv_side r) (q' - ?q) a"
      have d: "u64_ok (q' - ?q)" using w(2) by (simp add: u64_ok_def)
      have run: "adjust_reservation re oid account_id price q' = Some (and_then (notional_check (ac_limits a) price q')
          (\<lambda>_. if position_ok ?a
            then Ok (set_reservation (set_account re slot ?a) v (ResLive (r\<lparr>rv_quantity := q'\<rparr>)), 0, ?q)
            else Err PositionLimit))"
        using Live True 1 add_reserved_total [OF Live(11) d] check_position_total [OF Live(11) d, of "rv_side r"]
        by (simp add: adjust_reservation_def notional_of_check [OF w] exposure_account_eq Let_def)
      have "effect re (set_reservation (set_account re slot ?a) v (ResLive (r\<lparr>rv_quantity := q'\<rparr>)))
          (rv_account_id r) ?a (rv_order_id r) (Some (rv_account_id r, rv_side r, q'))" if "position_ok ?a"
        by (rule amend_effect [OF inv Live(3,4,8,9,10,11) refl])
          (use that Live(11) 1 in \<open>auto simp: exposure_totals position_ok_def within_limits_def account_ok_def\<close>)
      with Live True 1 run show ?thesis
        by (cases "notional_check (ac_limits a) price q'") (auto simp: spec_adjust_def Let_def)
    next
      case 2
      have "resv re = (resv re)(oid \<mapsto> (rv_account_id r, rv_side r, q'))" using Live(2) 2 by auto
      moreover have "acct re = (acct re)(rv_account_id r \<mapsto> a)" using Live(7) by auto
      moreover have "drop_exposure (rv_side r) 0 a = a" by (cases "rv_side r") (simp_all add: drop_exposure_def)
      ultimately show ?thesis using Live True 2 inv by (simp add: adjust_reservation_def spec_adjust_def effect_def)
    next
      case 3
      let ?a = "drop_exposure (rv_side r) (?q - q') a"
      have s: "sub_reserved a (rv_side r) (?q - q') = Ok ?a" using le by (intro sub_reserved_total) auto
      have "effect re (set_reservation (set_account re slot ?a) v (ResLive (r\<lparr>rv_quantity := q'\<rparr>)))
          (rv_account_id r) ?a (rv_order_id r) (Some (rv_account_id r, rv_side r, q'))"
        by (rule amend_effect [OF inv Live(3,4,8,9,10,11) refl])
          (use Live(11) le 3 in \<open>auto simp: exposure_totals within_limits_def account_ok_def\<close>)
      with Live True 3 s show ?thesis by (simp add: adjust_reservation_def spec_adjust_def Let_def)
    qed
  qed
qed

text \<open>Rolling an amendment back restores the engine exactly.\<close>

lemma adjust_restore:
  assumes inv: "risk_inv re" and w: "i64_ok price" "u64_ok q'"
    and adj: "adjust_reservation re oid account_id price q' = Some (Ok (re', released, prior))" and p: "u64_ok prior"
  shows "restore_reservation re' oid account_id prior = Some (Ok re)"
  using inv
proof (cases rule: live_reservation_cases [where oid = oid])
  case Unknown
  with adj show ?thesis by (simp add: adjust_reservation_def)
next
  case (Live v r slot a)
  note le = live_exposure_le [OF Live(3,4,11,10)]
  let ?q = "rv_quantity r"
  have own: "rv_account_id r = account_id" using adj Live by (auto simp: adjust_reservation_def split: if_splits)
  from adjust_refines [OF inv w, of oid account_id] adj Live own have prior: "prior = ?q" and inv': "risk_inv re'"
    by (auto simp: effect_def split: result.splits)
  let ?re = "\<lambda>a'. set_reservation (set_account re slot a') v (ResLive (r\<lparr>rv_quantity := q'\<rparr>))"
  have rst: "set_reservation (set_account (?re a') slot a) v (ResLive r) = re" for a'
  proof -
    have "(re_accounts re)[slot := Some a] = re_accounts re" "(re_reservations re)[v := ResLive r] = re_reservations re"
      using Live(4,9) list_update_id by metis+
    then show ?thesis by (simp add: set_reservation_def set_account_def)
  qed
  have entry: "account_entry (?re a') account_id = Some (Ok (slot, a'))" for a'
    using Live(6,8) own by (auto simp: account_entry_def account_slot_def set_reservation_def set_account_def nth_opt_def
        split: option.splits if_splits)
  have live: "live_reservation (?re a') oid = Some (v, r\<lparr>rv_quantity := q'\<rparr>)" for a'
    using Live(1,3,5) by (auto simp: live_reservation_def set_reservation_def set_account_def nth_opt_def
        split: option.splits if_splits ReservationSlot.splits)
  consider "q' > ?q" | "q' = ?q" | "q' < ?q" by linarith
  then show ?thesis
  proof cases
    case 1
    let ?a = "add_exposure (rv_side r) (q' - ?q) a"
    have d: "u64_ok (q' - ?q)" using w(2) by (simp add: u64_ok_def)
    from adj Live own 1 add_reserved_total [OF Live(11) d] have re': "re' = ?re ?a"
      by (auto simp: adjust_reservation_def exposure_account_eq and_then_Ok_iff Let_def split: if_splits)
    have "sub_reserved ?a (rv_side r) (q' - ?q) = Ok a"
      by (cases "rv_side r") (simp_all add: sub_reserved_def add_exposure_def checked_sub_def)
    then show ?thesis using 1 live entry own rst unfolding re' prior by (simp add: restore_reservation_def)
  next
    case 2
    with adj Live own have "re' = re" by (simp add: adjust_reservation_def)
    with 2 Live own prior show ?thesis by (simp add: restore_reservation_def)
  next
    case 3
    let ?a = "drop_exposure (rv_side r) (?q - q') a"
    have "sub_reserved a (rv_side r) (?q - q') = Ok ?a" using le by (intro sub_reserved_total) auto
    with adj Live own 3 have re': "re' = ?re ?a" by (auto simp: adjust_reservation_def Let_def)
    have ok': "account_ok (re_reservations re') ?a"
      using risk_inv_acct_ok [OF inv'] entry unfolding re' by (metis acct_def option.simps(5) prod.case result.simps(5))
    have "u64_ok (?q - q')" using p prior by (simp add: u64_ok_def)
    note add = add_reserved_total [OF ok' this, of "rv_side r"]
    have "add_exposure (rv_side r) (?q - q') ?a = a" using le 3
      by (cases "rv_side r") (simp_all add: add_exposure_def drop_exposure_def)
    moreover have keep: "?a\<lparr>ac_reserved_buys := ac_reserved_buys a, ac_reserved_sells := ac_reserved_sells a\<rparr> = a"
      by (cases "rv_side r") (simp_all add: drop_exposure_def)
    ultimately show ?thesis
      using add 3 live entry own rst unfolding re' prior by (simp add: restore_reservation_def Let_def keep)
  qed
qed

section \<open>Registration and switches\<close>

lemma free_chain_new:
  "free_chain (map (\<lambda>index. ResFree (fresh_link n index)) [0..<n]) (if n = 0 then NIL else 0) [0..<n]"
proof -
  have "links (\<lambda>v. free_next (map (\<lambda>index. ResFree (fresh_link n index)) [0..<n] ! v)) (if n = 0 then NIL else 0) [0..<n]
      = links (fresh_link n) (if n = 0 then NIL else 0) [0..<n]"
    by (rule links_cong) simp
  then show ?thesis unfolding free_chain_def using links_fresh [of n] by auto
qed

lemma risk_inv_new:
  assumes "ACCOUNTS \<le> 2 ^ 31" and "ORDERS \<le> 2 ^ 31"
  shows "risk_inv (risk_new ACCOUNTS ORDERS)"
proof -
  have "accounts_inv (replicate ACCOUNTS None) (probe_new (ACCOUNTS * INDEX_PLANES))"
    using assms probe_inv_new by (auto simp: accounts_inv_def INDEX_PLANES_def)
  moreover have "res_store_inv (map (\<lambda>index. ResFree (fresh_link ORDERS index)) [0..<ORDERS])
      (if ORDERS = 0 then NIL else 0) (probe_new (ORDERS * INDEX_PLANES))"
    unfolding res_store_inv_def
  proof (intro conjI allI)
    show "\<exists>fl. free_chain (map (\<lambda>index. ResFree (fresh_link ORDERS index)) [0..<ORDERS]) (if ORDERS = 0 then NIL else 0) fl"
      using free_chain_new by blast
  qed (use assms probe_inv_new [of "ORDERS * 2"] in \<open>auto simp: INDEX_PLANES_def res_at_def\<close>)
  ultimately show ?thesis unfolding risk_inv_def risk_new_def by auto
qed

lemma unregistered_exposure:
  assumes inv: "risk_inv re" and none: "acct re aid = None"
  shows "exposure (re_reservations re) side aid = 0" and "open_count (re_reservations re) aid = 0"
proof -
  have other: "rv_account_id r \<noteq> aid" if "ResLive r \<in> set (re_reservations re)" for r
  proof -
    from inv that obtain a where "Some a \<in> set (re_accounts re)" "ac_id a = rv_account_id r"
      unfolding risk_inv_def by blast
    then have "acct re (rv_account_id r) = Some a"
      unfolding acct_iff [OF risk_inv_accounts [OF inv]] in_set_conv_nth by auto
    with none show ?thesis by auto
  qed
  have "slot_exposure side aid s = 0" "slot_open aid s = 0" if "s \<in> set (re_reservations re)" for s
    using that other by - (cases s; auto)+
  then show "exposure (re_reservations re) side aid = 0" "open_count (re_reservations re) aid = 0"
    by (simp_all add: exposure_def open_count_def sum_list_0)
qed

definition fresh_account :: "AccountId \<Rightarrow> RiskLimits \<Rightarrow> AccountState" where
  "fresh_account aid limits = \<lparr>ac_id = aid, ac_limits = limits, ac_settled_position = 0, ac_reserved_buys = 0,
     ac_reserved_sells = 0, ac_open_orders = 0, ac_killed = False\<rparr>"

lemma first_none_Some: "None \<in> set xs \<Longrightarrow> \<exists>i. first_none xs = Some i \<and> i < length xs \<and> xs ! i = None"
  by (induction xs rule: first_none.induct) auto

lemma first_none_None: "None \<notin> set xs \<Longrightarrow> first_none xs = None"
  by (induction xs rule: first_none.induct) auto

lemma register_account_refines:
  assumes inv: "risk_inv re" and fit: "limits_fit limits"
  shows "if limits_invalid limits then register_account re aid limits = Err InvalidLimits
    else if acct re aid \<noteq> None then register_account re aid limits = Err DuplicateAccount
    else if None \<notin> set (re_accounts re) then register_account re aid limits = Err AccountCapacity
    else \<exists>re'. register_account re aid limits = Ok re' \<and> risk_inv re' \<and>
      acct re' = (acct re)(aid \<mapsto> fresh_account aid limits) \<and> resv re' = resv re \<and>
      re_maximum_order_id re' = re_maximum_order_id re \<and> re_killed re' = re_killed re"
proof -
  note ainv = risk_inv_accounts [OF inv]
  have slot: "account_slot re aid = None \<longleftrightarrow> acct re aid = None"
    using ainv by (cases rule: account_entry_cases [where aid = aid])
      (auto simp: account_entry_def split: option.splits)
  consider "limits_invalid limits" | "\<not> limits_invalid limits" "acct re aid \<noteq> None"
    | "\<not> limits_invalid limits" "acct re aid = None" "None \<notin> set (re_accounts re)"
    | "\<not> limits_invalid limits" "acct re aid = None" "None \<in> set (re_accounts re)" by blast
  then show ?thesis
  proof cases
    case 1 then show ?thesis by (simp add: register_account_def)
  next
    case 2 then show ?thesis by (simp add: register_account_def slot)
  next
    case 3 then show ?thesis by (simp add: register_account_def slot first_none_None)
  next
    case 4
    let ?b = "fresh_account aid limits"
    have id: "ac_id ?b = aid" by (simp add: fresh_account_def)
    from first_none_Some [OF 4(3)] obtain s where s: "first_none (re_accounts re) = Some s"
      "s < length (re_accounts re)" "re_accounts re ! s = None" by blast
    have new: "ac_id a \<noteq> ac_id ?b" if "v < length (re_accounts re)" "re_accounts re ! v = Some a" for v a
      using 4(2) that acct_iff [OF ainv, of aid a] unfolding id by auto
    from accounts_inv_insert [OF ainv s(1), of ?b] new obtain i ix' where
      ins: "probe_insert (re_account_index re) aid s = Ok (i, ix')"
        "accounts_inv ((re_accounts re)[s := Some ?b]) ix'" unfolding id by blast
    define re' where "re' = set_account (re\<lparr>re_account_index := ix'\<rparr>) s ?b"
    have run: "register_account re aid limits = Ok re'"
      using 4 s ins by (simp add: register_account_def slot re'_def fresh_account_def)
    have sel: "re_accounts re' = (re_accounts re)[s := Some ?b]" "re_account_index re' = ix'"
      "re_reservations re' = re_reservations re" "re_reservation_free_head re' = re_reservation_free_head re"
      "re_reservation_index re' = re_reservation_index re" "re_maximum_order_id re' = re_maximum_order_id re"
      "re_killed re' = re_killed re" by (simp_all add: re'_def set_account_def)
    have ok: "account_ok (re_reservations re) ?b"
      using unregistered_exposure [OF inv 4(2)] 4(1) fit
      by (simp add: account_ok_def fresh_account_def within_limits_def limits_ok_def)
    have sub: "Some a \<in> set (re_accounts re') \<longleftrightarrow> a = ?b \<or> Some a \<in> set (re_accounts re)" for a
      unfolding sel in_set_conv_nth using s by (metis length_list_update nth_list_update_eq nth_list_update_neq option.distinct(1) option.inject)
    have "risk_inv re'"
      using inv ok ins(2) unfolding risk_inv_def sub sel(3-7) unfolding sel by blast
    moreover have "acct re' k = ((acct re)(aid \<mapsto> ?b)) k" for k
    proof -
      have "acct re' k = Some a \<longleftrightarrow> (if k = aid then a = ?b else acct re k = Some a)" for a
        unfolding acct_iff [OF risk_inv_accounts [OF calculation]] acct_iff [OF ainv]
        using sub [of a] id new unfolding in_set_conv_nth by (metis)
      then show ?thesis by (metis fun_upd_apply not_None_eq)
    qed
    moreover have "resv re' = resv re" unfolding resv_def live_reservation_def sel ..
    ultimately show ?thesis using run 4 sel by auto
  qed
qed

lemma set_account_kill_refines:
  assumes inv: "risk_inv re"
  shows "case acct re aid of
      None \<Rightarrow> set_account_kill_switch re aid k = Some (Err UnknownAccount)
    | Some a \<Rightarrow> \<exists>re'. set_account_kill_switch re aid k = Some (Ok re') \<and> risk_inv re' \<and>
        acct re' = (acct re)(aid \<mapsto> a\<lparr>ac_killed := k\<rparr>) \<and> resv re' = resv re"
  using risk_inv_accounts [OF inv]
proof (cases rule: account_entry_cases [where aid = aid])
  case Unknown
  then show ?thesis by (simp add: set_account_kill_switch_def)
next
  case (Known slot a)
  define re' where "re' = set_account re slot (a\<lparr>ac_killed := k\<rparr>)"
  have sel: "re_accounts re' = (re_accounts re)[slot := Some (a\<lparr>ac_killed := k\<rparr>)]"
    "re_account_index re' = re_account_index re" "re_reservations re' = re_reservations re"
    "re_reservation_free_head re' = re_reservation_free_head re" "re_reservation_index re' = re_reservation_index re"
    "re_maximum_order_id re' = re_maximum_order_id re" by (simp_all add: re'_def set_account_def)
  have ok: "account_ok (re_reservations re) (a\<lparr>ac_killed := k\<rparr>)"
    using risk_inv_acct_ok [OF inv Known(2)] by (auto simp: account_ok_def within_limits_def)
  have "risk_inv re'"
    by (rule risk_inv_step [OF inv Known(3,4)]) (use ok inv in \<open>auto simp: sel risk_inv_def\<close>)
  moreover have "acct re' = (acct re)(aid \<mapsto> a\<lparr>ac_killed := k\<rparr>)"
    using acct_update [OF risk_inv_accounts [OF inv] Known(3,4) _ sel(1,2)] Known(5) by simp
  moreover have "resv re' = resv re" unfolding resv_def live_reservation_def sel ..
  ultimately show ?thesis using Known by (simp add: set_account_kill_switch_def re'_def)
qed

lemma risk_inv_kill_switch: "risk_inv re \<Longrightarrow> risk_inv (set_kill_switch re k)"
  by (simp add: set_kill_switch_def risk_inv_def)

end
