(* ===== verification/RiskProps.thy ===== *)
theory RiskProps
  imports RiskSpec
begin

text \<open>
  The states the risk engine can reach from \<open>RiskEngine::new\<close> by its public operations, and the
  properties of the engine: the refinement of each operation to the specification of theory
  \<open>RiskSpec\<close>, the exactness of the rollback a rejected replace relies on, and the position-limit
  safety of every reachable state.
\<close>

section \<open>Reachable engines\<close>

text \<open>
  One step per public operation but \<open>restore_reservation\<close>. That one skips every limit check: its contract is that
  it undoes an accepted adjustment, with the prior quantity the adjustment returned, which is how the gateway calls it.
  So it occurs in the reachable engines in that role: after an adjustment of a reachable engine. Without the contract
  the limits do not hold (\<open>restore_skips_limits\<close>).
\<close>

inductive risk_step :: "RiskEngine \<Rightarrow> RiskEngine \<Rightarrow> bool" where
  register: "limits_fit limits \<Longrightarrow> register_account re aid limits = Ok re' \<Longrightarrow> risk_step re re'"
| kill: "risk_step re (set_kill_switch re k)"
| kill_account: "set_account_kill_switch re aid k = Some (Ok re') \<Longrightarrow> risk_step re re'"
| reserve: "new_order_ok order \<Longrightarrow> check_and_reserve re order = Some (Ok re') \<Longrightarrow> risk_step re re'"
| settle_all: "settle re oid filled = Some (Ok re') \<Longrightarrow> risk_step re re'"
| fill: "record_fill re oid filled = Some (Ok re') \<Longrightarrow> risk_step re re'"
| adjust: "i64_ok price \<Longrightarrow> u64_ok q \<Longrightarrow>
    adjust_reservation re oid aid price q = Some (Ok (re', released, prior)) \<Longrightarrow> risk_step re re'"
| release: "cancel_reservation re oid aid = Some (Ok (re', q)) \<Longrightarrow> risk_step re re'"

inductive risk_reachable :: "nat \<Rightarrow> nat \<Rightarrow> RiskEngine \<Rightarrow> bool" for ACCOUNTS ORDERS :: nat where
  initial: "risk_reachable ACCOUNTS ORDERS (risk_new ACCOUNTS ORDERS)"
| onward: "risk_reachable ACCOUNTS ORDERS re \<Longrightarrow> risk_step re re' \<Longrightarrow> risk_reachable ACCOUNTS ORDERS re'"
| rolled_back: "risk_reachable ACCOUNTS ORDERS re \<Longrightarrow> i64_ok price \<Longrightarrow> u64_ok q \<Longrightarrow> u64_ok prior \<Longrightarrow>
    adjust_reservation re oid aid price q = Some (Ok (re', released, prior)) \<Longrightarrow>
    restore_reservation re' oid aid prior = Some (Ok re'') \<Longrightarrow> risk_reachable ACCOUNTS ORDERS re''"

lemma effect_inv: "effect re re' aid a oid x \<Longrightarrow> risk_inv re'"
  by (simp add: effect_def)

lemma risk_inv_risk_step:
  assumes "risk_step re re'" and inv: "risk_inv re"
  shows "risk_inv re'"
  using assms(1)
proof cases
  case (register limits aid)
  with register_account_refines [OF inv, of limits aid] show ?thesis by (auto split: if_splits)
next
  case (kill k)
  then show ?thesis using risk_inv_kill_switch [OF inv] by simp
next
  case (kill_account aid k)
  with set_account_kill_refines [OF inv, of aid k] show ?thesis by (auto split: option.splits)
next
  case (reserve order)
  with check_and_reserve_refines [OF inv, of order] show ?thesis by (auto split: result.splits)
next
  case (settle_all oid filled)
  with settle_refines [OF inv, of oid filled] show ?thesis
    by (auto split: option.splits if_splits dest: effect_inv)
next
  case (fill oid filled)
  then have "filled \<noteq> 0" by (cases "filled = 0") (auto simp: record_fill_def)
  with fill record_fill_refines [OF inv, of filled oid] show ?thesis
    by (auto split: option.splits if_splits dest: effect_inv)
next
  case (adjust price q oid aid released prior)
  with adjust_refines [OF inv, of price q oid aid] show ?thesis
    by (auto split: option.splits if_splits result.splits dest: effect_inv) (metis effect_inv result.exhaust)
next
  case (release oid aid q)
  with cancel_refines [OF inv, of oid aid] show ?thesis
    by (auto split: option.splits if_splits dest: effect_inv)
qed

lemma risk_inv_reachable:
  assumes "risk_reachable ACCOUNTS ORDERS re" and "ACCOUNTS \<le> 2 ^ 31" and "ORDERS \<le> 2 ^ 31"
  shows "risk_inv re"
  using assms(1)
proof induction
  case initial
  show ?case by (rule risk_inv_new [OF assms(2,3)])
next
  case (onward re re')
  from risk_inv_risk_step [OF onward.hyps(2) onward.IH] show ?case .
next
  case (rolled_back re price q prior oid aid re' released re'')
  from adjust_restore [OF rolled_back.IH rolled_back.hyps(2,3,5,4)] rolled_back.hyps(6) rolled_back.IH show ?case by simp
qed

section \<open>A concrete engine\<close>

text \<open>One account and one order slot; the account is registered, then an order is open.\<close>

definition demo_limits :: RiskLimits where
  "demo_limits = \<lparr>rl_max_quantity = 50, rl_max_notional = 100000, rl_max_abs_position = 60, rl_max_open_orders = 4,
     rl_minimum_price = 1, rl_maximum_price = 1000\<rparr>"

definition demo_order :: "OrderId \<Rightarrow> Quantity \<Rightarrow> NewOrder" where
  "demo_order oid q = \<lparr>no_order_id = oid, no_account_id = 7, no_instrument_id = 3, no_price = 100,
     no_quantity = q, no_sequence = 1, no_side = Buy, no_time_in_force = Gtc\<rparr>"

definition demo_account :: AccountState where
  "demo_account = \<lparr>ac_id = 7, ac_limits = demo_limits, ac_settled_position = 0, ac_reserved_buys = 0,
     ac_reserved_sells = 0, ac_open_orders = 0, ac_killed = False\<rparr>"

definition demo_registered :: RiskEngine where
  "demo_registered = \<lparr>re_accounts = [Some demo_account], re_account_index = [Empty, Occupied 7 1],
     re_reservations = [ResFree NIL], re_reservation_free_head = 0, re_reservation_index = [Empty, Empty],
     re_maximum_order_id = None, re_killed = False\<rparr>"

definition demo_reserved :: RiskEngine where
  "demo_reserved = demo_registered\<lparr>
     re_accounts := [Some (demo_account\<lparr>ac_reserved_buys := 40, ac_open_orders := 1\<rparr>)],
     re_reservations := [ResLive \<lparr>rv_order_id = 11, rv_account_id = 7, rv_index_slot = 1, rv_side = Buy, rv_quantity = 40\<rparr>],
     re_reservation_free_head := NIL, re_reservation_index := [Empty, Occupied 11 1], re_maximum_order_id := Some 11\<rparr>"

lemma small_lists: "n mod Suc (Suc 0) = n mod 2" "replicate 2 x = [x, x]" "[0..<2] = [0, 1]"
  by (simp_all add: numeral_2_eq_2)

lemmas risk_eval = small_lists Let_def demo_limits_def demo_order_def demo_account_def demo_registered_def demo_reserved_def
  risk_new_def register_account_def check_and_reserve_def evaluate_limits_def notional_of_def add_reserved_def
  check_position_def limits_invalid_def account_slot_def account_entry_def live_reservation_def set_account_def set_reservation_def
  probe_new_def probe_start_def probe_lookup_def find_slot_def probe_insert_def INDEX_PLANES_def nth_opt_def fresh_link_def
  checked_add_def checked_mul_def checked_abs_def checked_iadd_def checked_isub_def i128_try_from_def u64_try_from_def
  u32_try_from_def wrapping_add_def wrapping_mul_def in_range_i_def NIL_def

lemma demo_register: "register_account (risk_new 1 1) 7 demo_limits = Ok demo_registered"
  by (simp add: risk_eval)

lemma demo_reserve: "check_and_reserve demo_registered (demo_order 11 40) = Some (Ok demo_reserved)"
  by (simp add: risk_eval)

lemma demo_widths: "limits_fit demo_limits" "new_order_ok (demo_order oid 40) \<longleftrightarrow> u64_ok oid"
  "new_order_ok (demo_order oid 55) \<longleftrightarrow> u64_ok oid" "u64_ok 11" "u64_ok 60" "u64_ok 40" "i64_ok 100"
  by (simp_all add: risk_eval limits_fit_def new_order_ok_def u64_ok_def u32_ok_def i64_ok_def)

lemma demo_views: "acct demo_registered 7 = Some demo_account" "acct demo_registered 8 = None"
  "resv demo_reserved 11 = Some (7, Buy, 40)" "\<not> risk_full demo_registered" "re_killed demo_registered = False"
  "re_maximum_order_id demo_registered = None"
  by (simp_all add: acct_def resv_def risk_full_def risk_eval)

lemma demo_reachable: "risk_reachable 1 1 demo_registered" "risk_reachable 1 1 demo_reserved"
proof -
  show r: "risk_reachable 1 1 demo_registered"
    by (rule onward [OF initial register [OF demo_widths(1) demo_register]])
  show "risk_reachable 1 1 demo_reserved"
    by (rule onward [OF r reserve [OF _ demo_reserve]]) (simp add: demo_widths)
qed

lemma demo_inv: "risk_inv demo_registered" "risk_inv demo_reserved"
  using risk_inv_reachable [OF demo_reachable(1)] risk_inv_reachable [OF demo_reachable(2)] by simp_all

section \<open>Properties\<close>

text \<open>
  C17: position-limit safety. In every engine with at most \<open>2 ^ 31\<close> accounts and orders reachable through the public
  operations, where \<open>restore_reservation\<close> is used as its contract says, to undo an accepted adjustment with the
  quantity the adjustment returned, each account's settled position stays within its limit even if all of its open buy orders, or all of its open sell
  orders, trade in full; the number of its open orders stays within its limit; and the reserved totals
  and the open-order count the engine caches are the sums over its live reservations.
\<close>
theorem position_limit_safety:
  assumes "risk_reachable ACCOUNTS ORDERS re" and "ACCOUNTS \<le> 2 ^ 31" and "ORDERS \<le> 2 ^ 31"
    and "Some a \<in> set (re_accounts re)"
  shows "ac_settled_position a + int (exposure (re_reservations re) Buy (ac_id a)) \<le> int (rl_max_abs_position (ac_limits a)) \<and>
    - int (rl_max_abs_position (ac_limits a)) \<le> ac_settled_position a - int (exposure (re_reservations re) Sell (ac_id a)) \<and>
    open_count (re_reservations re) (ac_id a) \<le> rl_max_open_orders (ac_limits a) \<and>
    ac_reserved_buys a = exposure (re_reservations re) Buy (ac_id a) \<and>
    ac_reserved_sells a = exposure (re_reservations re) Sell (ac_id a) \<and>
    ac_open_orders a = open_count (re_reservations re) (ac_id a)"
  using risk_inv_reachable [OF assms(1-3)] assms(4) by (auto simp: risk_inv_def account_ok_def within_limits_def)

theorem position_limit_safety_witness:
  "ac_settled_position (the (re_accounts demo_reserved ! 0)) + int (exposure (re_reservations demo_reserved) Buy 7) \<le> 60"
proof -
  have a: "ac_id (the (re_accounts demo_reserved ! 0)) = 7"
    "rl_max_abs_position (ac_limits (the (re_accounts demo_reserved ! 0))) = 60"
    "Some (the (re_accounts demo_reserved ! 0)) \<in> set (re_accounts demo_reserved)" by (simp_all add: risk_eval)
  show ?thesis using position_limit_safety [OF demo_reachable(2) _ _ a(3)] a(1,2) by simp
qed

text \<open>
  The contract is needed: \<open>restore_reservation\<close> with any other quantity is accepted past the limit of 60 of
  the account.
\<close>
theorem restore_skips_limits:
  "\<exists>re. restore_reservation demo_reserved 11 7 1000 = Some (Ok re) \<and> exposure (re_reservations re) Buy 7 = 1000 \<and>
     map_option (\<lambda>a. rl_max_abs_position (ac_limits a)) (re_accounts re ! 0) = Some 60"
  by (simp add: restore_reservation_def exposure_def risk_eval)

text \<open>
  C18: \<open>check_and_reserve\<close> refines its specification. From an engine satisfying the invariant, and for
  an order whose fields fit their widths, it never panics; it rejects exactly with the reason the
  specification gives; otherwise the new engine satisfies the invariant, differs in one account and one
  reservation as specified, and remembers the order id as the highest seen.
\<close>
theorem reserve_refines_spec:
  assumes "risk_inv re" and "new_order_ok order"
  shows "case spec_reserve (risk_abs re) order of
      Err e \<Rightarrow> check_and_reserve re order = Some (Err e)
    | Ok a' \<Rightarrow> \<exists>re'. check_and_reserve re order = Some (Ok re') \<and> risk_inv re' \<and>
        acct re' = (acct re)(no_account_id order \<mapsto> a') \<and>
        resv re' = (resv re)(no_order_id order \<mapsto> (no_account_id order, no_side order, no_quantity order)) \<and>
        re_maximum_order_id re' = Some (no_order_id order) \<and> re_killed re' = re_killed re"
  using assms by (rule check_and_reserve_refines)

theorem reserve_refines_spec_witness:
  "check_and_reserve demo_registered (demo_order 11 55) = Some (Err QuantityLimit)"
proof -
  have "spec_reserve (risk_abs demo_registered) (demo_order 11 55) = Err QuantityLimit"
    by (simp add: spec_reserve_def risk_abs_def demo_views spec_limits_def demo_order_def demo_account_def demo_limits_def)
  with reserve_refines_spec [OF demo_inv(1), of "demo_order 11 55"] show ?thesis by (simp add: demo_widths)
qed

text \<open>
  Fills. \<open>record_fill\<close> with a positive quantity never panics; it rejects an unknown order and an
  over-fill; otherwise it moves exactly the filled quantity from the reserved total into the settled
  position, closes the order when nothing is left, and keeps every other order and account.
\<close>
theorem record_fill_refines_spec:
  assumes "risk_inv re" and "filled \<noteq> 0"
  shows "case resv re oid of
      None \<Rightarrow> record_fill re oid filled = Some (Err UnknownOrder)
    | Some (aid, side, q) \<Rightarrow>
        if filled > q then record_fill re oid filled = Some (Err InvalidQuantity)
        else \<exists>a re'. acct re aid = Some a \<and> record_fill re oid filled = Some (Ok re') \<and>
          (if filled = q then effect re re' aid (close_account side filled q a) oid None
           else effect re re' aid (fill_account side filled filled a) oid (Some (aid, side, q - filled)))"
  using assms by (rule record_fill_refines)

theorem record_fill_refines_spec_witness:
  "\<exists>re'. record_fill demo_reserved 11 15 = Some (Ok re') \<and> resv re' 11 = Some (7, Buy, 25)"
  using record_fill_refines_spec [OF demo_inv(2), of 15 11] by (auto simp: demo_views effect_def)

text \<open>
  Settlement and cancellation. \<open>settle\<close> closes an order with a given filled quantity: it rejects
  unknown orders and over-fills, and otherwise frees the whole reservation and books the filled part.
  \<open>cancel_reservation\<close> does the same with nothing filled, for the owner only, and returns the freed
  quantity.
\<close>
theorem settle_cancel_refine_spec:
  assumes "risk_inv re"
  shows "(case resv re oid of
      None \<Rightarrow> settle re oid filled = Some (Err UnknownOrder) \<and> cancel_reservation re oid caller = Some (Err UnknownOrder)
    | Some (aid, side, q) \<Rightarrow>
        (if filled > q then settle re oid filled = Some (Err InvalidQuantity)
         else \<exists>a re'. acct re aid = Some a \<and> settle re oid filled = Some (Ok re') \<and>
           effect re re' aid (close_account side filled q a) oid None) \<and>
        (if aid \<noteq> caller then cancel_reservation re oid caller = Some (Err NotOrderOwner)
         else \<exists>a re'. acct re aid = Some a \<and> cancel_reservation re oid caller = Some (Ok (re', q)) \<and>
           effect re re' aid (close_account side 0 q a) oid None))"
  using settle_refines [OF assms, of oid filled] cancel_refines [OF assms, of oid caller]
  by (auto split: option.splits)

theorem settle_cancel_refine_spec_witness:
  "(\<exists>re'. settle demo_reserved 11 40 = Some (Ok re') \<and> resv re' 11 = None) \<and>
   cancel_reservation demo_reserved 11 8 = Some (Err NotOrderOwner)"
  using settle_cancel_refine_spec [OF demo_inv(2), of 11 40 8] by (auto simp: demo_views effect_def)

text \<open>
  Amendment. \<open>adjust_reservation\<close> refines its specification: it rejects unknown orders and
  strangers; a larger quantity is checked against the notional and position limits, a smaller one
  always succeeds; on success exactly the order's quantity and its account's reserved total change,
  and the released and prior quantities are returned.
\<close>
theorem adjust_refines_spec:
  assumes "risk_inv re" and "i64_ok price" and "u64_ok q'"
  shows "case resv re oid of
      None \<Rightarrow> adjust_reservation re oid account_id price q' = Some (Err UnknownOrder)
    | Some (aid, side, q) \<Rightarrow>
        if aid \<noteq> account_id then adjust_reservation re oid account_id price q' = Some (Err NotOrderOwner)
        else \<exists>a. acct re aid = Some a \<and>
          (case spec_adjust a side q price q' of
             Err e \<Rightarrow> adjust_reservation re oid account_id price q' = Some (Err e)
           | Ok a' \<Rightarrow> \<exists>re'. adjust_reservation re oid account_id price q' = Some (Ok (re', q - q', q)) \<and>
               effect re re' aid a' oid (Some (aid, side, q')))"
  using assms by (rule adjust_refines)

theorem adjust_refines_spec_witness:
  "\<exists>re'. adjust_reservation demo_reserved 11 7 100 40 = Some (Ok (re', 0, 40)) \<and> resv re' 11 = Some (7, Buy, 40)"
  using adjust_refines_spec [OF demo_inv(2), of 100 40 11 7]
  by (auto simp: demo_views demo_widths effect_def spec_adjust_def)

text \<open>
  The rollback is exact. Restoring the prior quantity after an accepted adjustment always succeeds
  and gives back the very engine the adjustment started from, slot for slot.
\<close>
theorem adjust_then_restore:
  assumes "risk_inv re" and "i64_ok price" and "u64_ok q'" and "u64_ok prior"
    and "adjust_reservation re oid account_id price q' = Some (Ok (re', released, prior))"
  shows "restore_reservation re' oid account_id prior = Some (Ok re)"
  using assms adjust_restore by blast

theorem adjust_then_restore_witness:
  "\<exists>re'. adjust_reservation demo_reserved 11 7 100 60 = Some (Ok (re', 0, 40)) \<and>
     restore_reservation re' 11 7 40 = Some (Ok demo_reserved)"
proof -
  obtain re' where r: "adjust_reservation demo_reserved 11 7 100 60 = Some (Ok (re', 0, 40))"
    by (simp add: adjust_reservation_def risk_eval)
  with adjust_then_restore [OF demo_inv(2) _ _ _ r] show ?thesis by (simp add: demo_widths)
qed

text \<open>
  Registration. It rejects invalid limits, a registered id and a full table, in this order;
  otherwise it adds one flat account with the given limits and changes nothing else.
\<close>
theorem register_refines_spec:
  assumes "risk_inv re" and "limits_fit limits"
  shows "if limits_invalid limits then register_account re aid limits = Err InvalidLimits
    else if acct re aid \<noteq> None then register_account re aid limits = Err DuplicateAccount
    else if None \<notin> set (re_accounts re) then register_account re aid limits = Err AccountCapacity
    else \<exists>re'. register_account re aid limits = Ok re' \<and> risk_inv re' \<and>
      acct re' = (acct re)(aid \<mapsto> fresh_account aid limits) \<and> resv re' = resv re \<and>
      re_maximum_order_id re' = re_maximum_order_id re \<and> re_killed re' = re_killed re"
  using assms by (rule register_account_refines)

theorem register_refines_spec_witness:
  "register_account demo_registered 7 demo_limits = Err DuplicateAccount \<and>
   register_account demo_registered 8 demo_limits = Err AccountCapacity"
proof -
  have c: "\<not> limits_invalid demo_limits" "None \<notin> set (re_accounts demo_registered)" by (simp_all add: risk_eval)
  show ?thesis using register_refines_spec [OF demo_inv(1) demo_widths(1), of 7]
      register_refines_spec [OF demo_inv(1) demo_widths(1), of 8] c by (simp add: demo_views)
qed

end
