(* ===== verification/PriceLevel.thy ===== *)
theory PriceLevel
  imports Types
begin

text \<open>
  One price level of the order book (\<open>PriceLevel\<close> in \<open>crates/hft-book/src/lib.rs\<close>): a FIFO of
  resting orders as a doubly linked list through stable array slots, with a free list through the
  remaining slots. \<open>ORDERS\<close> is the length of the slot list. The invariant \<open>level_inv\<close> names the
  slots in queue order, and each operation is shown to be the corresponding list operation on them.

  \<open>aggregate_quantity\<close> and \<open>len\<close> are updated by unchecked arithmetic in the source; the
  invariant shows that neither over- nor underflows.
\<close>

section \<open>State and operations\<close>

record RestingOrder =
  rst_id :: OrderId
  rst_account_id :: AccountId
  rst_index_slot :: nat
  rst_quantity :: Quantity
  rst_sequence :: SequenceNumber
  rst_prev :: nat
  rst_next :: nat

datatype OrderSlot = OrdFree nat | OrdLive RestingOrder

record PriceLevel =
  pl_price :: PriceTicks
  pl_aggregate_quantity :: nat
  pl_slots :: "OrderSlot list"
  pl_head :: nat
  pl_tail :: nat
  pl_free_head :: nat
  pl_len :: nat

definition level_new :: "nat \<Rightarrow> PriceTicks \<Rightarrow> PriceLevel" where
  "level_new ORDERS price =
     \<lparr>pl_price = price, pl_aggregate_quantity = 0,
      pl_slots = map (\<lambda>index. OrdFree (fresh_link ORDERS index)) [0..<ORDERS],
      pl_head = NIL, pl_tail = NIL, pl_free_head = (if ORDERS = 0 then NIL else 0), pl_len = 0\<rparr>"

definition push_tail :: "PriceLevel \<Rightarrow> RestingOrder \<Rightarrow> (PriceLevel \<times> nat) option" where
  "push_tail level order =
     (if pl_free_head level = NIL \<or> pl_len level \<ge> length (pl_slots level) then None
      else let slot = pl_free_head level in
        case nth_opt (pl_slots level) slot of
          Some (OrdFree next_free) \<Rightarrow>
            do {
              slots \<leftarrow>
                (if pl_tail level \<noteq> NIL then
                   (case nth_opt (pl_slots level) (pl_tail level) of
                      Some (OrdLive tail_order) \<Rightarrow>
                        Some ((pl_slots level)[pl_tail level := OrdLive (tail_order\<lparr>rst_next := slot\<rparr>)])
                    | _ \<Rightarrow> None)
                 else Some (pl_slots level));
              Some (level\<lparr>pl_slots := slots[slot := OrdLive (order\<lparr>rst_prev := pl_tail level, rst_next := NIL\<rparr>)],
                          pl_free_head := next_free,
                          pl_head := (if pl_tail level = NIL then slot else pl_head level),
                          pl_tail := slot,
                          pl_len := pl_len level + 1,
                          pl_aggregate_quantity := pl_aggregate_quantity level + rst_quantity order\<rparr>, slot)
            }
        | _ \<Rightarrow> None)"

definition slot_is_live :: "OrderSlot list \<Rightarrow> nat \<Rightarrow> bool" where
  "slot_is_live slots i = (case nth_opt slots i of Some (OrdLive _) \<Rightarrow> True | _ \<Rightarrow> False)"

definition set_next :: "OrderSlot list \<Rightarrow> nat \<Rightarrow> nat \<Rightarrow> OrderSlot list" where
  "set_next slots i n = (case nth_opt slots i of Some (OrdLive r) \<Rightarrow> slots[i := OrdLive (r\<lparr>rst_next := n\<rparr>)] | _ \<Rightarrow> slots)"

definition set_prev :: "OrderSlot list \<Rightarrow> nat \<Rightarrow> nat \<Rightarrow> OrderSlot list" where
  "set_prev slots i p = (case nth_opt slots i of Some (OrdLive r) \<Rightarrow> slots[i := OrdLive (r\<lparr>rst_prev := p\<rparr>)] | _ \<Rightarrow> slots)"

definition unlink :: "PriceLevel \<Rightarrow> nat \<Rightarrow> (PriceLevel \<times> RestingOrder) option" where
  "unlink level slot =
     (case nth_opt (pl_slots level) slot of
        Some (OrdLive order) \<Rightarrow>
          if rst_prev order \<noteq> NIL \<and> \<not> slot_is_live (pl_slots level) (rst_prev order) then None
          else if rst_next order \<noteq> NIL \<and> \<not> slot_is_live (pl_slots level) (rst_next order) then None
          else
            let head = (if rst_prev order = NIL then rst_next order else pl_head level);
                slots = (if rst_prev order = NIL then pl_slots level
                         else set_next (pl_slots level) (rst_prev order) (rst_next order));
                tail = (if rst_next order = NIL then rst_prev order else pl_tail level);
                slots = (if rst_next order = NIL then slots
                         else set_prev slots (rst_next order) (rst_prev order))
            in Some (level\<lparr>pl_head := head, pl_tail := tail,
                       pl_slots := slots[slot := OrdFree (pl_free_head level)],
                       pl_free_head := slot, pl_len := pl_len level - 1,
                       pl_aggregate_quantity := pl_aggregate_quantity level - rst_quantity order\<rparr>, order)
      | _ \<Rightarrow> None)"

definition get_live :: "PriceLevel \<Rightarrow> nat \<Rightarrow> RestingOrder option" where
  "get_live level slot = (case nth_opt (pl_slots level) slot of Some (OrdLive order) \<Rightarrow> Some order | _ \<Rightarrow> None)"

text \<open>\<open>get_live_mut\<close> followed by a write of the order.\<close>

definition put_live :: "PriceLevel \<Rightarrow> nat \<Rightarrow> RestingOrder \<Rightarrow> PriceLevel" where
  "put_live level slot order = level\<lparr>pl_slots := (pl_slots level)[slot := OrdLive order]\<rparr>"

definition reduce_quantity :: "PriceLevel \<Rightarrow> nat \<Rightarrow> Quantity \<Rightarrow> PriceLevel option" where
  "reduce_quantity level slot quantity =
     do {
       order \<leftarrow> get_live level slot;
       left \<leftarrow> checked_sub (rst_quantity order) quantity;
       Some ((put_live level slot (order\<lparr>rst_quantity := left\<rparr>))
         \<lparr>pl_aggregate_quantity := pl_aggregate_quantity level - quantity\<rparr>)
     }"

text \<open>
  The orders \<open>for_each_live\<close> visits. \<open>None\<close> is a walk that outlasts its fuel; one more than
  the number of slots suffices on every level satisfying the invariant.
\<close>

fun live_walk :: "nat \<Rightarrow> OrderSlot list \<Rightarrow> nat \<Rightarrow> RestingOrder list option" where
  "live_walk 0 slots cursor = None"
| "live_walk (Suc fuel) slots cursor =
     (if cursor = NIL then Some []
      else case nth_opt slots cursor of
        Some (OrdLive order) \<Rightarrow> map_option ((#) order) (live_walk fuel slots (rst_next order))
      | _ \<Rightarrow> Some [])"

definition for_each_live :: "PriceLevel \<Rightarrow> RestingOrder list option" where
  "for_each_live level = live_walk (length (pl_slots level) + 1) (pl_slots level) (pl_head level)"

section \<open>The invariant\<close>

fun slot_prev :: "OrderSlot \<Rightarrow> nat" where
  "slot_prev (OrdLive r) = rst_prev r"
| "slot_prev (OrdFree n) = NIL"

fun slot_next :: "OrderSlot \<Rightarrow> nat" where
  "slot_next (OrdLive r) = rst_next r"
| "slot_next (OrdFree n) = n"

fun is_live :: "OrderSlot \<Rightarrow> bool" where
  "is_live (OrdLive r) = True"
| "is_live (OrdFree n) = False"

fun slot_quantity :: "OrderSlot \<Rightarrow> nat" where
  "slot_quantity (OrdLive r) = rst_quantity r"
| "slot_quantity (OrdFree n) = 0"

text \<open>A doubly linked segment entered from \<open>p\<close> at \<open>h\<close>, ending in \<open>t\<close> and leaving towards \<open>n\<close>.\<close>

fun dll :: "OrderSlot list \<Rightarrow> nat \<Rightarrow> nat \<Rightarrow> nat list \<Rightarrow> nat \<Rightarrow> nat \<Rightarrow> bool" where
  "dll S p h [] t n \<longleftrightarrow> h = n \<and> t = p"
| "dll S p h (x # xs) t n \<longleftrightarrow> h = x \<and> x < length S \<and> is_live (S ! x) \<and> slot_prev (S ! x) = p \<and>
     dll S x (slot_next (S ! x)) xs t n"

definition free_slots :: "OrderSlot list \<Rightarrow> nat \<Rightarrow> nat list \<Rightarrow> bool" where
  "free_slots S head fl \<longleftrightarrow> distinct fl \<and> set fl = {i. i < length S \<and> \<not> is_live (S ! i)} \<and>
     links (\<lambda>i. slot_next (S ! i)) head fl"

definition level_inv :: "PriceLevel \<Rightarrow> nat list \<Rightarrow> bool" where
  "level_inv L xs \<longleftrightarrow>
     length (pl_slots L) \<le> 2 ^ 32 \<and> distinct xs \<and>
     set xs = {i. i < length (pl_slots L) \<and> is_live (pl_slots L ! i)} \<and>
     dll (pl_slots L) NIL (pl_head L) xs (pl_tail L) NIL \<and>
     (\<exists>fl. free_slots (pl_slots L) (pl_free_head L) fl) \<and>
     pl_len L = length xs \<and>
     pl_aggregate_quantity L = sum_list (map (\<lambda>i. slot_quantity (pl_slots L ! i)) xs)"

fun live_of :: "OrderSlot \<Rightarrow> RestingOrder" where
  "live_of (OrdLive r) = r"
| "live_of (OrdFree n) = undefined"

text \<open>The order in a slot without its links, and the queue as a list of orders.\<close>

definition detach :: "RestingOrder \<Rightarrow> RestingOrder" where
  "detach r = r\<lparr>rst_prev := NIL, rst_next := NIL\<rparr>"

definition content :: "PriceLevel \<Rightarrow> nat \<Rightarrow> RestingOrder option" where
  "content L i = map_option detach (get_live L i)"

definition level_orders :: "PriceLevel \<Rightarrow> nat list \<Rightarrow> RestingOrder list" where
  "level_orders L xs = map (\<lambda>i. the (content L i)) xs"

section \<open>Linked segments\<close>

lemma dll_append: "dll S p h (xs @ ys) t n \<longleftrightarrow> (\<exists>m q. dll S p h xs q m \<and> dll S q m ys t n)"
  by (induction xs arbitrary: p h) auto

lemma dll_cong:
  "length S' = length S \<Longrightarrow> (\<And>x. x \<in> set xs \<Longrightarrow> S' ! x = S ! x) \<Longrightarrow> dll S' p h xs t n = dll S p h xs t n"
  by (induction xs arbitrary: p h) auto

lemma dll_update: "v \<notin> set xs \<Longrightarrow> dll (S[v := y]) p h xs t n = dll S p h xs t n"
  by (rule dll_cong) (auto, metis nth_list_update_neq)

lemma dll_last: "dll S p h xs t n \<Longrightarrow> t = (if xs = [] then p else last xs)"
  by (induction xs arbitrary: p h) auto

lemma dll_head: "dll S p h xs t n \<Longrightarrow> h = (if xs = [] then n else hd xs)"
  by (cases xs) auto

lemma dll_range: "dll S p h xs t n \<Longrightarrow> x \<in> set xs \<Longrightarrow> x < length S \<and> is_live (S ! x)"
  by (induction xs arbitrary: p h) auto

lemma dll_relink_next:
  assumes "dll S p h (xs @ [x]) t n" and "x \<notin> set xs" and "S ! x = OrdLive r"
  shows "dll (S[x := OrdLive (r\<lparr>rst_next := n'\<rparr>)]) p h (xs @ [x]) x n'"
  using assms by (auto simp: dll_append dll_update)

lemma dll_relink_prev:
  assumes "dll S p h (x # xs) t n" and "x \<notin> set xs" and "S ! x = OrdLive r"
  shows "dll (S[x := OrdLive (r\<lparr>rst_prev := p'\<rparr>)]) p' h (x # xs) t n"
  using assms by (auto simp: dll_update)

lemma dll_walk:
  assumes "dll S p h xs t NIL" and "NIL \<notin> set xs" and "length xs < fuel"
  shows "live_walk fuel S h = Some (map (\<lambda>i. live_of (S ! i)) xs)"
  using assms
proof (induction xs arbitrary: p h fuel)
  case Nil
  then show ?case by (cases fuel) auto
next
  case (Cons x xs)
  then obtain f where f: "fuel = Suc f" by (cases fuel) auto
  obtain r where r: "S ! x = OrdLive r" using Cons.prems(1) by (cases "S ! x") auto
  with Cons.IH [of x "rst_next r" f] Cons.prems f show ?case by (auto simp: nth_opt_def)
qed


section \<open>Operations on the queue\<close>

lemma detach_simps [simp]:
  "rst_id (detach r) = rst_id r" "rst_account_id (detach r) = rst_account_id r"
  "rst_index_slot (detach r) = rst_index_slot r" "rst_quantity (detach r) = rst_quantity r"
  "rst_sequence (detach r) = rst_sequence r" "detach (r\<lparr>rst_next := n\<rparr>) = detach r"
  "detach (r\<lparr>rst_prev := p\<rparr>) = detach r" "detach (detach r) = detach r"
  "detach (r\<lparr>rst_quantity := q\<rparr>) = (detach r)\<lparr>rst_quantity := q\<rparr>"
  "detach (r\<lparr>rst_index_slot := i\<rparr>) = (detach r)\<lparr>rst_index_slot := i\<rparr>"
  by (simp_all add: detach_def)

lemma content_def':
  "content L i = (if i < length (pl_slots L) then (case pl_slots L ! i of OrdLive r \<Rightarrow> Some (detach r) | _ \<Rightarrow> None) else None)"
  by (auto simp: content_def get_live_def nth_opt_def split: OrderSlot.splits)

lemma level_inv_facts:
  assumes "level_inv L xs"
  shows "NIL \<notin> set xs" and "length (pl_slots L) < NIL" and "length xs \<le> length (pl_slots L)"
    and "i \<in> set xs \<longleftrightarrow> content L i \<noteq> None" and "i \<in> set xs \<Longrightarrow> i < length (pl_slots L)"
proof -
  have xs: "distinct xs" "set xs = {i. i < length (pl_slots L) \<and> is_live (pl_slots L ! i)}"
    and len: "length (pl_slots L) \<le> 2 ^ 32" using assms by (auto simp: level_inv_def)
  show nil: "length (pl_slots L) < NIL" using len by (simp add: NIL_def)
  show "NIL \<notin> set xs" using xs(2) nil by auto
  have "length xs = card (set xs)" using distinct_card [OF xs(1)] by simp
  also have "\<dots> \<le> card {..<length (pl_slots L)}" by (rule card_mono) (use xs(2) in auto)
  finally show "length xs \<le> length (pl_slots L)" by simp
  show "i \<in> set xs \<longleftrightarrow> content L i \<noteq> None"
    unfolding xs(2) content_def' by (cases "pl_slots L ! i") auto
  show "i \<in> set xs \<Longrightarrow> i < length (pl_slots L)" using xs(2) by auto
qed

lemma level_inv_new:
  assumes "ORDERS \<le> 2 ^ 32"
  shows "level_inv (level_new ORDERS price) []" and "content (level_new ORDERS price) i = None"
proof -
  let ?S = "map (\<lambda>index. OrdFree (fresh_link ORDERS index)) [0..<ORDERS]"
  have "links (\<lambda>i. slot_next (?S ! i)) (if ORDERS = 0 then NIL else 0) [0..<ORDERS]
    = links (fresh_link ORDERS) (if ORDERS = 0 then NIL else 0) [0..<ORDERS]"
    by (rule links_cong) simp
  then have "free_slots ?S (if ORDERS = 0 then NIL else 0) [0..<ORDERS]"
    unfolding free_slots_def using links_fresh [of ORDERS] by auto
  with assms show "level_inv (level_new ORDERS price) []"
    unfolding level_inv_def level_new_def by auto
  show "content (level_new ORDERS price) i = None" by (auto simp: content_def' level_new_def)
qed

lemma for_each_live_eq: "level_inv L xs \<Longrightarrow> for_each_live L = Some (map (\<lambda>i. live_of (pl_slots L ! i)) xs)"
  unfolding for_each_live_def using level_inv_facts(1,3) [of L xs]
  by (intro dll_walk) (auto simp: level_inv_def)

lemma level_inv_unique: "level_inv L xs \<Longrightarrow> level_inv L ys \<Longrightarrow> xs = ys"
proof -
  have "dll S p h xs t n \<Longrightarrow> dll S p h ys t n \<Longrightarrow> n \<notin> set xs \<Longrightarrow> n \<notin> set ys \<Longrightarrow> xs = ys" for S p h xs ys t n
  proof (induction xs arbitrary: p h ys)
    case Nil
    then show ?case by (cases ys) auto
  next
    case (Cons x xs)
    then show ?case by (cases ys) auto
  qed
  note unique = this
  assume xs: "level_inv L xs" and ys: "level_inv L ys"
  then have "dll (pl_slots L) NIL (pl_head L) xs (pl_tail L) NIL" "dll (pl_slots L) NIL (pl_head L) ys (pl_tail L) NIL"
    by (simp_all add: level_inv_def)
  from unique [OF this level_inv_facts(1) [OF xs] level_inv_facts(1) [OF ys]] show "xs = ys" .
qed

lemma sum_quantity_content:
  assumes "\<And>i. i \<in> set xs \<Longrightarrow> i < length (pl_slots L)"
  shows "sum_list (map (\<lambda>i. slot_quantity (pl_slots L ! i)) xs)
    = sum_list (map (\<lambda>i. case content L i of None \<Rightarrow> 0 | Some r \<Rightarrow> rst_quantity r) xs)"
  by (rule arg_cong [where f = sum_list]) (use assms in \<open>auto simp: content_def' split: OrderSlot.splits\<close>)

lemma aggregate_content:
  assumes "level_inv L xs"
  shows "pl_aggregate_quantity L = sum_list (map rst_quantity (level_orders L xs))"
proof -
  have "slot_quantity (pl_slots L ! i) = rst_quantity (the (content L i))" if "i \<in> set xs" for i
    using level_inv_facts(4,5) [OF assms, of i] that by (auto simp: content_def' split: OrderSlot.splits if_splits)
  then have "map (\<lambda>i. slot_quantity (pl_slots L ! i)) xs = map rst_quantity (level_orders L xs)"
    by (simp add: level_orders_def)
  with assms show ?thesis by (simp add: level_inv_def)
qed

text \<open>Overwriting a live slot by an order with the same links changes the content of that slot only.\<close>

lemma level_inv_put:
  assumes inv: "level_inv L xs" and x: "get_live L x = Some r"
    and same: "rst_prev r' = rst_prev r" "rst_next r' = rst_next r"
    and L': "L' = (put_live L x r')\<lparr>pl_aggregate_quantity := g\<rparr>" and g: "g + rst_quantity r = pl_aggregate_quantity L + rst_quantity r'"
  shows "level_inv L' xs" and "content L' = (content L)(x \<mapsto> detach r')"
proof -
  let ?S = "pl_slots L"
  have r: "x < length ?S" "?S ! x = OrdLive r"
    using x by (auto simp: get_live_def nth_opt_def split: if_splits OrderSlot.splits)
  have S': "pl_slots L' = ?S[x := OrdLive r']" by (simp add: L' put_live_def)
  have links: "slot_next (?S[x := OrdLive r'] ! i) = slot_next (?S ! i)" "slot_prev (?S[x := OrdLive r'] ! i) = slot_prev (?S ! i)"
    "is_live (?S[x := OrdLive r'] ! i) = is_live (?S ! i)" for i
    using r same by (cases "i = x"; simp)+
  have dll: "dll (?S[x := OrdLive r']) p h ys t n = dll ?S p h ys t n" for p h ys t n
    by (induction ys arbitrary: p h) (simp_all add: links)
  have xs: "x \<in> set xs" "distinct xs" using inv r by (auto simp: level_inv_def)
  then obtain as bs where ab: "xs = as @ x # bs" "x \<notin> set as" "x \<notin> set bs"
    by (metis distinct.simps(2) distinct_append not_distinct_conv_prefix split_list_first)
  have "sum_list (map (\<lambda>i. slot_quantity (?S[x := OrdLive r'] ! i)) xs) + rst_quantity r
      = sum_list (map (\<lambda>i. slot_quantity (?S ! i)) xs) + rst_quantity r'"
    unfolding ab(1) using r by (simp add: sum_list_update_other ab(2,3))
  with g inv have "g = sum_list (map (\<lambda>i. slot_quantity (?S[x := OrdLive r'] ! i)) xs)"
    by (simp add: level_inv_def)
  with inv show "level_inv L' xs"
    unfolding level_inv_def S' free_slots_def links dll by (simp add: L' put_live_def)
  show "content L' = (content L)(x \<mapsto> detach r')"
    using r by (auto simp: content_def' S' fun_eq_iff)
qed

lemma reduce_quantity_correct:
  assumes inv: "level_inv L xs" and x: "get_live L x = Some r" and q: "q \<le> rst_quantity r"
  shows "\<exists>L'. reduce_quantity L x q = Some L' \<and> level_inv L' xs \<and> pl_price L' = pl_price L \<and>
    length (pl_slots L') = length (pl_slots L) \<and>
    content L' = (content L)(x \<mapsto> (detach r)\<lparr>rst_quantity := rst_quantity r - q\<rparr>)"
proof -
  let ?r = "r\<lparr>rst_quantity := rst_quantity r - q\<rparr>"
  define L' where "L' = (put_live L x ?r)\<lparr>pl_aggregate_quantity := pl_aggregate_quantity L - q\<rparr>"
  have xs: "x \<in> set xs" using level_inv_facts(4) [OF inv] x by (simp add: content_def)
  then have "rst_quantity (the (content L x)) \<le> sum_list (map rst_quantity (level_orders L xs))"
    by (intro member_le_sum_list) (auto simp: level_orders_def)
  then have "rst_quantity r \<le> pl_aggregate_quantity L" using aggregate_content [OF inv] x by (simp add: content_def)
  then have g: "pl_aggregate_quantity L - q + rst_quantity r = pl_aggregate_quantity L + rst_quantity ?r" using q by simp
  have "reduce_quantity L x q = Some L'" using x q by (simp add: reduce_quantity_def checked_sub_def L'_def)
  with level_inv_put [OF inv x _ _ L'_def g] show ?thesis by (simp add: L'_def put_live_def)
qed

lemma free_slots_head:
  assumes "free_slots S head fl" and "head \<noteq> NIL"
  shows "\<exists>nx fl'. fl = head # fl' \<and> head < length S \<and> S ! head = OrdFree nx \<and> links (\<lambda>i. slot_next (S ! i)) nx fl'"
proof -
  from assms obtain fl' where fl: "fl = head # fl'" by (cases fl) (auto simp: free_slots_def)
  with assms(1) have "head < length S" "\<not> is_live (S ! head)" "links (\<lambda>i. slot_next (S ! i)) (slot_next (S ! head)) fl'"
    by (auto simp: free_slots_def)
  with fl show ?thesis by (cases "S ! head") auto
qed

lemma push_tail_correct:
  assumes inv: "level_inv L xs" and room: "length xs < length (pl_slots L)"
  shows "\<exists>L' slot. push_tail L r = Some (L', slot) \<and> slot < length (pl_slots L) \<and> slot \<notin> set xs \<and>
    level_inv L' (xs @ [slot]) \<and> pl_price L' = pl_price L \<and> length (pl_slots L') = length (pl_slots L) \<and>
    content L' = (content L)(slot \<mapsto> detach r)"
proof -
  let ?S = "pl_slots L" and ?slot = "pl_free_head L"
  note facts = level_inv_facts [OF inv]
  have dl: "dll ?S NIL (pl_head L) xs (pl_tail L) NIL" and dist: "distinct xs" and len: "pl_len L = length xs"
    and live: "set xs = {i. i < length ?S \<and> is_live (?S ! i)}" and cap: "length ?S \<le> 2 ^ 32"
    and agg: "pl_aggregate_quantity L = sum_list (map (\<lambda>i. slot_quantity (?S ! i)) xs)"
    using inv by (simp_all add: level_inv_def)
  obtain fl where fl: "free_slots ?S ?slot fl" using inv by (auto simp: level_inv_def)
  have "?slot \<noteq> NIL"
  proof
    assume "?slot = NIL"
    moreover have "NIL \<notin> set fl" using fl facts(2) by (auto simp: free_slots_def)
    ultimately have "fl = []" using fl links_NIL by (auto simp: free_slots_def)
    then have "set xs = {..<length ?S}" using fl live by (auto simp: free_slots_def)
    then have "length xs = length ?S" using distinct_card [OF dist] by simp
    with room show False by simp
  qed
  from free_slots_head [OF fl this] obtain nx fl' where
    h: "fl = ?slot # fl'" "?slot < length ?S" "?S ! ?slot = OrdFree nx" "links (\<lambda>i. slot_next (?S ! i)) nx fl'" by blast
  have new: "?slot \<notin> set xs" using h(3) live by auto
  define nd where "nd = OrdLive (r\<lparr>rst_prev := pl_tail L, rst_next := NIL\<rparr>)"
  define S1 where "S1 = (if pl_tail L \<noteq> NIL then ?S[pl_tail L := OrdLive ((live_of (?S ! pl_tail L))\<lparr>rst_next := ?slot\<rparr>)] else ?S)"
  define L' where "L' = L\<lparr>pl_slots := S1[?slot := nd], pl_free_head := nx,
    pl_head := (if pl_tail L = NIL then ?slot else pl_head L), pl_tail := ?slot, pl_len := pl_len L + 1,
    pl_aggregate_quantity := pl_aggregate_quantity L + rst_quantity r\<rparr>"
  have tail: "pl_tail L = (if xs = [] then NIL else last xs)" using dll_last [OF dl] .
  then have tail_NIL: "pl_tail L = NIL \<longleftrightarrow> xs = []" using facts(1) by (metis last_in_set)
  have tail_live: "\<exists>t. ?S ! pl_tail L = OrdLive t \<and> pl_tail L < length ?S" if "xs \<noteq> []"
  proof -
    have "last xs \<in> set xs" using that by simp
    with live tail that show ?thesis by (cases "?S ! last xs") auto
  qed
  have run: "push_tail L r = Some (L', ?slot)"
    using h room len \<open>?slot \<noteq> NIL\<close> tail_NIL tail_live
    by (auto simp: push_tail_def nth_opt_def Let_def L'_def S1_def nd_def)
  have S1: "length S1 = length ?S" by (simp add: S1_def)
  have same: "is_live (S1 ! i) = is_live (?S ! i)" "slot_quantity (S1 ! i) = slot_quantity (?S ! i)"
    "\<not> is_live (?S ! i) \<Longrightarrow> S1 ! i = ?S ! i" for i
    using tail_live tail_NIL by (auto simp: S1_def nth_list_update)
  have cont: "i < length ?S \<Longrightarrow> (case S1 ! i of OrdLive r \<Rightarrow> Some (detach r) | _ \<Rightarrow> None)
      = (case ?S ! i of OrdLive r \<Rightarrow> Some (detach r) | _ \<Rightarrow> None)" for i
    using tail_live tail_NIL by (auto simp: S1_def nth_list_update)
  have "dll S1 NIL (pl_head L') xs (pl_tail L) ?slot"
  proof (cases "xs = []")
    case True
    with tail_NIL dl show ?thesis by (simp add: L'_def)
  next
    case False
    then obtain ys where ys: "xs = ys @ [pl_tail L]" using tail by (metis append_butlast_last_id)
    obtain t where t: "?S ! pl_tail L = OrdLive t" using tail_live [OF False] by blast
    have "dll (?S[pl_tail L := OrdLive (t\<lparr>rst_next := ?slot\<rparr>)]) NIL (pl_head L) (ys @ [pl_tail L]) (pl_tail L) ?slot"
      by (rule dll_relink_next [OF _ _ t]) (use dl ys dist in auto)
    with False tail_NIL t ys show ?thesis by (simp add: L'_def S1_def)
  qed
  then have "dll (S1[?slot := nd]) NIL (pl_head L') (xs @ [?slot]) ?slot NIL"
    unfolding dll_append dll_update [OF new] using h(2) S1 by (auto simp: nd_def)
  moreover have "free_slots (S1[?slot := nd]) nx fl'"
  proof -
    have n: "?slot \<notin> set fl'" "set fl' \<subseteq> set fl" using fl h(1) by (auto simp: free_slots_def)
    have "links (\<lambda>i. slot_next (S1 ! i)) nx fl' = links (\<lambda>i. slot_next (?S ! i)) nx fl'"
      by (rule links_cong) (use n fl same(3) in \<open>auto simp: free_slots_def\<close>)
    then have "links (\<lambda>i. slot_next (S1[?slot := nd] ! i)) nx fl'" unfolding links_update [OF n(1)] using h(4) by simp
    moreover have "set fl' = set fl - {?slot}" using h(1) n(1) by auto
    then have "set fl' = {i. i < length S1 \<and> \<not> is_live (S1[?slot := nd] ! i)}"
      using fl same(1) S1 h(2) by (auto simp: free_slots_def nth_list_update nd_def)
    ultimately show ?thesis using fl h(1) by (simp add: free_slots_def)
  qed
  moreover have "set (xs @ [?slot]) = {i. i < length S1 \<and> is_live (S1[?slot := nd] ! i)}"
    using live same(1) S1 h(2) by (auto simp: nth_list_update nd_def)
  moreover have "pl_aggregate_quantity L + rst_quantity r
      = sum_list (map (\<lambda>i. slot_quantity (S1[?slot := nd] ! i)) (xs @ [?slot]))"
    using agg same(2) h(2) S1 by (simp add: sum_list_update_other new nd_def)
  ultimately have "level_inv L' (xs @ [?slot])"
    using cap S1 dist new len unfolding level_inv_def by (auto simp: L'_def)
  moreover have "content L' = (content L)(?slot \<mapsto> detach r)"
    using h(2) S1 cont by (auto simp: content_def' L'_def fun_eq_iff nth_list_update nd_def)
  ultimately show ?thesis using run h(2) new S1 by (auto simp: L'_def)
qed

text \<open>Rewriting a link of a live slot leaves content, liveness and quantities alone.\<close>

definition same_nodes :: "OrderSlot list \<Rightarrow> OrderSlot list \<Rightarrow> bool" where
  "same_nodes S S' \<longleftrightarrow> length S' = length S \<and> (\<forall>i. is_live (S' ! i) = is_live (S ! i) \<and>
     slot_quantity (S' ! i) = slot_quantity (S ! i) \<and> (\<not> is_live (S ! i) \<longrightarrow> S' ! i = S ! i) \<and>
     (case S' ! i of OrdLive r \<Rightarrow> Some (detach r) | _ \<Rightarrow> None) = (case S ! i of OrdLive r \<Rightarrow> Some (detach r) | _ \<Rightarrow> None))"

lemma same_nodes_refl: "same_nodes S S"
  by (simp add: same_nodes_def)

lemma same_nodes_trans: "same_nodes S S' \<Longrightarrow> same_nodes S' S'' \<Longrightarrow> same_nodes S S''"
  by (simp add: same_nodes_def)

lemma same_nodes_link:
  "S ! i = OrdLive r \<Longrightarrow> same_nodes S (S[i := OrdLive (r\<lparr>rst_next := n\<rparr>)])"
  "S ! i = OrdLive r \<Longrightarrow> same_nodes S (S[i := OrdLive (r\<lparr>rst_prev := n\<rparr>)])"
proof -
  have put: "same_nodes S (S[i := OrdLive r'])" if "S ! i = OrdLive r" "detach r' = detach r" "rst_quantity r' = rst_quantity r" for r'
  proof (cases "i < length S")
    case True
    have "S[i := OrdLive r'] ! j = (if j = i then OrdLive r' else S ! j)" for j using True by simp
    with that show ?thesis by (simp add: same_nodes_def)
  next
    case False
    then have "S[i := OrdLive r'] = S" by (simp add: list_update_beyond)
    then show ?thesis by (simp add: same_nodes_refl)
  qed
  show "S ! i = OrdLive r \<Longrightarrow> same_nodes S (S[i := OrdLive (r\<lparr>rst_next := n\<rparr>)])"
    "S ! i = OrdLive r \<Longrightarrow> same_nodes S (S[i := OrdLive (r\<lparr>rst_prev := n\<rparr>)])"
    by (rule put; simp)+
qed

lemma unlink_correct:
  assumes inv: "level_inv L (as @ x # bs)"
  shows "\<exists>L' r. unlink L x = Some (L', r) \<and> content L x = Some (detach r) \<and> level_inv L' (as @ bs) \<and>
    pl_price L' = pl_price L \<and> length (pl_slots L') = length (pl_slots L) \<and> content L' = (content L)(x := None)"
proof -
  let ?S = "pl_slots L"
  note facts = level_inv_facts [OF inv]
  have dl: "dll ?S NIL (pl_head L) (as @ x # bs) (pl_tail L) NIL" and dist: "distinct (as @ x # bs)"
    and len: "pl_len L = length (as @ x # bs)"
    and live: "set (as @ x # bs) = {i. i < length ?S \<and> is_live (?S ! i)}" and cap: "length ?S \<le> 2 ^ 32"
    and agg: "pl_aggregate_quantity L = sum_list (map (\<lambda>i. slot_quantity (?S ! i)) (as @ x # bs))"
    using inv by (simp_all add: level_inv_def)
  obtain fl where fl: "free_slots ?S (pl_free_head L) fl" using inv by (auto simp: level_inv_def)
  from dl obtain r where r: "?S ! x = OrdLive r" "x < length ?S" "dll ?S NIL (pl_head L) as (rst_prev r) x"
    "dll ?S x (rst_next r) bs (pl_tail L) NIL"
    unfolding dll_append by (cases "?S ! x") auto
  have NIL: "NIL \<notin> set as" "NIL \<notin> set bs" "NIL \<noteq> x" using facts(1) by auto
  have prev: "rst_prev r = (if as = [] then NIL else last as)" using dll_last [OF r(3)] .
  have nxt: "rst_next r = (if bs = [] then NIL else hd bs)" using dll_head [OF r(4)] .
  have prev_NIL: "rst_prev r = NIL \<longleftrightarrow> as = []" using prev NIL(1) by (metis last_in_set)
  have next_NIL: "rst_next r = NIL \<longleftrightarrow> bs = []" using nxt NIL(2) by (metis hd_in_set)
  have in_live: "i < length ?S \<and> is_live (?S ! i)" if "i \<in> set as \<or> i \<in> set bs" for i using live that by auto
  define S1 where "S1 = (if rst_prev r = NIL then ?S else set_next ?S (rst_prev r) (rst_next r))"
  define S2 where "S2 = (if rst_next r = NIL then S1 else set_prev S1 (rst_next r) (rst_prev r))"
  define L' where "L' = L\<lparr>pl_head := (if rst_prev r = NIL then rst_next r else pl_head L),
    pl_tail := (if rst_next r = NIL then rst_prev r else pl_tail L), pl_slots := S2[x := OrdFree (pl_free_head L)],
    pl_free_head := x, pl_len := pl_len L - 1, pl_aggregate_quantity := pl_aggregate_quantity L - rst_quantity r\<rparr>"
  have "slot_is_live ?S (rst_prev r)" if "as \<noteq> []"
    using in_live [of "last as"] that prev by (cases "?S ! last as") (auto simp: slot_is_live_def nth_opt_def)
  moreover have "slot_is_live ?S (rst_next r)" if "bs \<noteq> []"
    using in_live [of "hd bs"] that nxt by (cases "?S ! hd bs") (auto simp: slot_is_live_def nth_opt_def)
  ultimately have run: "unlink L x = Some (L', r)"
    using r(1,2) prev_NIL next_NIL by (auto simp: unlink_def nth_opt_def Let_def L'_def S1_def S2_def)
  have S1: "same_nodes ?S S1 \<and> dll S1 NIL (if as = [] then rst_next r else pl_head L) as (rst_prev r) (rst_next r) \<and>
      dll S1 x (rst_next r) bs (pl_tail L) NIL"
  proof (cases "as = []")
    case True
    with r(3,4) prev_NIL show ?thesis by (simp add: S1_def same_nodes_refl)
  next
    case False
    then obtain as' where as': "as = as' @ [rst_prev r]" using prev by (metis append_butlast_last_id)
    then obtain p where p: "?S ! rst_prev r = OrdLive p" "rst_prev r < length ?S"
      using in_live [of "rst_prev r"] by (cases "?S ! rst_prev r") auto
    have e: "S1 = ?S[rst_prev r := OrdLive (p\<lparr>rst_next := rst_next r\<rparr>)]"
      using p prev_NIL False by (simp add: S1_def set_next_def nth_opt_def)
    have "dll S1 NIL (pl_head L) (as' @ [rst_prev r]) (rst_prev r) (rst_next r)"
      unfolding e by (rule dll_relink_next [OF _ _ p(1)]) (use r(3) as' dist in auto)
    moreover have "rst_prev r \<notin> set bs" using dist as' by auto
    ultimately show ?thesis using same_nodes_link(1) [OF p(1)] r(4) False as' unfolding e by (simp add: dll_update)
  qed
  have S2: "same_nodes S1 S2 \<and> dll S2 NIL (pl_head L') as (rst_prev r) (rst_next r) \<and>
      dll S2 (rst_prev r) (rst_next r) bs (pl_tail L') NIL"
  proof (cases "bs = []")
    case True
    with S1 next_NIL prev_NIL show ?thesis by (simp add: S2_def L'_def same_nodes_refl)
  next
    case False
    then obtain bs' where bs': "bs = rst_next r # bs'" using nxt by (cases bs) auto
    then have n: "rst_next r < length S1" "is_live (S1 ! rst_next r)"
      using S1 in_live [of "rst_next r"] by (auto simp: same_nodes_def)
    then obtain p where p: "S1 ! rst_next r = OrdLive p" by (cases "S1 ! rst_next r") auto
    have e: "S2 = S1[rst_next r := OrdLive (p\<lparr>rst_prev := rst_prev r\<rparr>)]"
      using p n next_NIL False by (simp add: S2_def set_prev_def nth_opt_def)
    have "dll S2 (rst_prev r) (rst_next r) (rst_next r # bs') (pl_tail L) NIL"
      unfolding e by (rule dll_relink_prev [OF _ _ p]) (use S1 bs' dist in auto)
    moreover have "rst_next r \<notin> set as" using dist bs' by auto
    moreover have "pl_tail L' = pl_tail L" "pl_head L' = (if as = [] then rst_next r else pl_head L)"
      using False next_NIL prev_NIL by (simp_all add: L'_def)
    moreover have "dll S2 NIL (if as = [] then rst_next r else pl_head L) as (rst_prev r) (rst_next r)"
      unfolding e dll_update [OF \<open>rst_next r \<notin> set as\<close>] using S1 by blast
    ultimately show ?thesis using same_nodes_link(2) [OF p] e bs' by metis
  qed
  have nodes: "same_nodes ?S S2" using S1 S2 same_nodes_trans by blast
  have l2: "length S2 = length ?S" using nodes by (simp add: same_nodes_def)
  have x: "x \<notin> set (as @ bs)" using dist by auto
  have "dll (S2[x := OrdFree (pl_free_head L)]) NIL (pl_head L') (as @ bs) (pl_tail L') NIL"
    unfolding dll_update [OF x] unfolding dll_append using S2 by blast
  moreover have "free_slots (S2[x := OrdFree (pl_free_head L)]) x (x # fl)"
  proof -
    have n: "x \<notin> set fl" using fl r(1) by (auto simp: free_slots_def)
    have "links (\<lambda>i. slot_next (S2 ! i)) (pl_free_head L) fl = links (\<lambda>i. slot_next (?S ! i)) (pl_free_head L) fl"
      by (rule links_cong) (use fl nodes in \<open>auto simp: free_slots_def same_nodes_def\<close>)
    then have "links (\<lambda>i. slot_next (S2[x := OrdFree (pl_free_head L)] ! i)) (pl_free_head L) fl"
      unfolding links_update [OF n] using fl by (simp add: free_slots_def)
    moreover have "set (x # fl) = {i. i < length S2 \<and> \<not> is_live (S2[x := OrdFree (pl_free_head L)] ! i)}"
      using fl nodes l2 r(2) by (auto simp: free_slots_def same_nodes_def nth_list_update)
    ultimately show ?thesis using fl n r(2) l2 by (simp add: free_slots_def)
  qed
  moreover have "set (as @ bs) = {i. i < length S2 \<and> is_live (S2[x := OrdFree (pl_free_head L)] ! i)}"
  proof -
    have "set (as @ bs) = set (as @ x # bs) - {x}" using x by auto
    also have "\<dots> = {i. i < length ?S \<and> is_live (?S ! i)} - {x}" unfolding live ..
    also have "\<dots> = {i. i < length S2 \<and> is_live (S2[x := OrdFree (pl_free_head L)] ! i)}"
      using nodes l2 r(2) by (auto simp: same_nodes_def nth_list_update)
    finally show ?thesis .
  qed
  moreover have "pl_aggregate_quantity L - rst_quantity r
      = sum_list (map (\<lambda>i. slot_quantity (S2[x := OrdFree (pl_free_head L)] ! i)) (as @ bs))"
    unfolding sum_list_update_other [OF x] using agg r(1) nodes by (simp add: same_nodes_def)
  ultimately have "level_inv L' (as @ bs)"
    using cap l2 dist len unfolding level_inv_def by (auto simp: L'_def)
  moreover have "content L' = (content L)(x := None)"
    using l2 nodes by (auto simp: content_def' L'_def fun_eq_iff nth_list_update same_nodes_def)
  moreover have "content L x = Some (detach r)" using r by (simp add: content_def')
  ultimately show ?thesis using run l2 by (auto simp: L'_def)
qed

lemma live_content: "content L x = Some c \<Longrightarrow> \<exists>r. get_live L x = Some r \<and> detach r = c"
  by (auto simp: content_def)

end
