(* ===== verification/LevelIndex.thy ===== *)
theory LevelIndex
  imports Types
begin

text \<open>
  The sorted level index of one side of the book (\<open>LevelIndex\<close> in
  \<open>crates/hft-book/src/lib.rs\<close>): occupied levels sorted best first, and a pool of free level slots.
  \<open>LEVELS\<close> is the length of the two arrays. The binary search of
  \<open>slice::partition_point\<close> is written out and shown to find the insertion point of a sorted
  array. An operation that may index out of range returns \<open>None\<close> there.
\<close>

section \<open>State and operations\<close>

record LevelIndex =
  li_len :: nat
  li_entries :: "(PriceTicks \<times> nat) list"
  li_free :: "nat list"
  li_free_len :: nat

definition lindex_new :: "nat \<Rightarrow> LevelIndex" where
  "lindex_new LEVELS =
     \<lparr>li_len = 0, li_entries = replicate LEVELS (0, 0),
      li_free = map (\<lambda>index. LEVELS - 1 - index) [0..<LEVELS], li_free_len = LEVELS\<rparr>"

definition lindex_is_full :: "LevelIndex \<Rightarrow> bool" where
  "lindex_is_full ix \<longleftrightarrow> li_free_len ix = 0"

definition lindex_iter :: "LevelIndex \<Rightarrow> (PriceTicks \<times> nat) list" where
  "lindex_iter ix = take (li_len ix) (li_entries ix)"

function partition_loop :: "('a \<Rightarrow> bool) \<Rightarrow> 'a list \<Rightarrow> nat \<Rightarrow> nat \<Rightarrow> nat" where
  "partition_loop pred xs lo hi =
     (if lo < hi then
        let mid = (lo + hi) div 2 in
        if pred (xs ! mid) then partition_loop pred xs (mid + 1) hi
        else partition_loop pred xs lo mid
      else lo)"
  by pat_completeness auto
termination
  by (relation "measure (\<lambda>(pred, xs, lo, hi). hi - lo)") auto

declare partition_loop.simps [simp del]

definition partition_point :: "'a list \<Rightarrow> ('a \<Rightarrow> bool) \<Rightarrow> nat" where
  "partition_point xs pred = partition_loop pred xs 0 (length xs)"

definition before :: "bool \<Rightarrow> PriceTicks \<Rightarrow> PriceTicks \<Rightarrow> bool" where
  "before descending listed price = (if descending then listed > price else listed < price)"

definition lindex_position :: "LevelIndex \<Rightarrow> PriceTicks \<Rightarrow> bool \<Rightarrow> nat \<times> bool" where
  "lindex_position ix price descending =
     (let entries = lindex_iter ix;
          position = partition_point entries (\<lambda>(listed, _). before descending listed price);
          found = (position < li_len ix \<and> fst (entries ! position) = price)
      in (position, found))"

definition lindex_find :: "LevelIndex \<Rightarrow> PriceTicks \<Rightarrow> bool \<Rightarrow> nat option" where
  "lindex_find ix price descending =
     (let (position, found) = lindex_position ix price descending in
      if found then Some (snd (li_entries ix ! position)) else None)"

definition lindex_insert :: "LevelIndex \<Rightarrow> PriceTicks \<Rightarrow> bool \<Rightarrow> (LevelIndex \<times> nat) option option" where
  "lindex_insert ix price descending =
     (let (position, found) = lindex_position ix price descending in
      if li_free_len ix = 0 then Some None
      else if length (li_free ix) < li_free_len ix \<or> length (li_entries ix) \<le> li_len ix then None
      else let free_len = li_free_len ix - 1;
               level_index = li_free ix ! free_len;
               entries = copy_within (li_entries ix) position (li_len ix) (position + 1)
           in Some (Some (ix\<lparr>li_free_len := free_len,
                             li_entries := entries[position := (price, level_index)],
                             li_len := li_len ix + 1\<rparr>, level_index)))"

definition lindex_remove :: "LevelIndex \<Rightarrow> PriceTicks \<Rightarrow> bool \<Rightarrow> (LevelIndex \<times> nat) option option" where
  "lindex_remove ix price descending =
     (let (position, found) = lindex_position ix price descending in
      if \<not> found then Some None
      else if length (li_free ix) \<le> li_free_len ix then None
      else let level_index = snd (li_entries ix ! position) in
        Some (Some (ix\<lparr>li_entries := copy_within (li_entries ix) (position + 1) (li_len ix) position,
                       li_len := li_len ix - 1,
                       li_free := (li_free ix)[li_free_len ix := level_index],
                       li_free_len := li_free_len ix + 1\<rparr>, level_index)))"

section \<open>The invariant\<close>

definition lindex_free :: "LevelIndex \<Rightarrow> nat list" where
  "lindex_free ix = take (li_free_len ix) (li_free ix)"

definition lindex_inv :: "nat \<Rightarrow> bool \<Rightarrow> LevelIndex \<Rightarrow> bool" where
  "lindex_inv LEVELS descending ix \<longleftrightarrow>
     length (li_entries ix) = LEVELS \<and> length (li_free ix) = LEVELS \<and>
     li_len ix \<le> LEVELS \<and> li_free_len ix \<le> LEVELS \<and>
     sorted_wrt (before descending) (map fst (lindex_iter ix)) \<and>
     distinct (map snd (lindex_iter ix) @ lindex_free ix) \<and>
     set (map snd (lindex_iter ix) @ lindex_free ix) = {..<LEVELS}"

section \<open>Binary search\<close>

lemma partition_loop_correct:
  assumes "lo \<le> hi" and "hi \<le> length xs" and "\<And>i. i < lo \<Longrightarrow> pred (xs ! i)"
    and "\<And>i. hi \<le> i \<Longrightarrow> i < length xs \<Longrightarrow> \<not> pred (xs ! i)"
    and "\<And>i j. i < j \<Longrightarrow> j < length xs \<Longrightarrow> pred (xs ! j) \<Longrightarrow> pred (xs ! i)"
  shows "partition_loop pred xs lo hi = length (takeWhile pred xs)"
  using assms
proof (induction pred xs lo hi rule: partition_loop.induct)
  case (1 pred xs lo hi)
  show ?case
  proof (cases "lo < hi")
    case False
    with "1.prems" have "lo = hi" by simp
    have "takeWhile pred xs = take lo xs"
      by (rule takeWhile_eq_take_P_nth) (use "1.prems" \<open>lo = hi\<close> in auto)
    with False "1.prems" show ?thesis by (simp add: partition_loop.simps)
  next
    case True
    let ?m = "(lo + hi) div 2"
    have m: "lo \<le> ?m" "?m < hi" using True by auto
    show ?thesis
    proof (cases "pred (xs ! ?m)")
      case p: True
      have "pred (xs ! i)" if "i < ?m + 1" for i
        using that p "1.prems"(5) [of i ?m] m "1.prems"(2) by (cases "i = ?m") auto
      with "1.IH"(1) [OF True refl p] "1.prems" m True p show ?thesis
        by (subst partition_loop.simps) (simp add: Let_def)
    next
      case p: False
      have "\<not> pred (xs ! i)" if "?m \<le> i" "i < length xs" for i
        using that p "1.prems"(5) [of ?m i] by (cases "i = ?m") auto
      with "1.IH"(2) [OF True refl p] "1.prems" m True p show ?thesis
        by (subst partition_loop.simps) (simp add: Let_def)
    qed
  qed
qed

lemma partition_point_correct:
  assumes "\<And>i j. i < j \<Longrightarrow> j < length xs \<Longrightarrow> pred (xs ! j) \<Longrightarrow> pred (xs ! i)"
  shows "partition_point xs pred = length (takeWhile pred xs)"
  unfolding partition_point_def by (rule partition_loop_correct) (use assms in auto)

section \<open>Operations on the sorted list\<close>

lemma before_trans: "before d a b \<Longrightarrow> before d b c \<Longrightarrow> before d a c"
  by (auto simp: before_def split: if_splits)

lemma before_irrefl [simp]: "\<not> before d a a"
  by (simp add: before_def)

lemma before_total: "a \<noteq> b \<Longrightarrow> before d a b \<or> before d b a"
  by (auto simp: before_def)

lemma before_asym: "before d a b \<Longrightarrow> \<not> before d b a"
  by (auto simp: before_def split: if_splits)

lemma lindex_iter_length: "lindex_inv LEVELS d ix \<Longrightarrow> length (lindex_iter ix) = li_len ix"
  by (simp add: lindex_inv_def lindex_iter_def)

lemma lindex_distinct:
  assumes "lindex_inv LEVELS d ix"
  shows "distinct (map fst (lindex_iter ix))"
proof -
  have "sorted_wrt (before d) ps \<Longrightarrow> distinct ps" for ps by (induction ps) auto
  with assms show ?thesis unfolding lindex_inv_def by blast
qed

text \<open>Where a price belongs in the sorted list.\<close>

definition lower :: "bool \<Rightarrow> PriceTicks \<Rightarrow> (PriceTicks \<times> 'a) list \<Rightarrow> (PriceTicks \<times> 'a) list" where
  "lower d p es = takeWhile (\<lambda>e. before d (fst e) p) es"

definition upper :: "bool \<Rightarrow> PriceTicks \<Rightarrow> (PriceTicks \<times> 'a) list \<Rightarrow> (PriceTicks \<times> 'a) list" where
  "upper d p es = dropWhile (\<lambda>e. before d (fst e) p) es"

lemma lower_upper: "lower d p es @ upper d p es = es"
  by (simp add: lower_def upper_def)

lemma lower_before: "e \<in> set (lower d p es) \<Longrightarrow> before d (fst e) p"
  unfolding lower_def by (metis set_takeWhileD)

lemma upper_not_before:
  assumes "sorted_wrt (before d) (map fst es)" and "e \<in> set (upper d p es)"
  shows "\<not> before d (fst e) p"
  using assms
proof (induction es)
  case Nil
  then show ?case by (simp add: upper_def)
next
  case (Cons x xs)
  then show ?case unfolding upper_def by (auto split: if_splits dest: before_trans)
qed

lemma upper_after:
  assumes "sorted_wrt (before d) (map fst es)" and "p \<notin> fst ` set es" and "e \<in> set (upper d p es)"
  shows "before d p (fst e)"
proof -
  have "e \<in> set es" using assms(3) unfolding upper_def by (rule set_dropWhileD)
  with assms(2) have "fst e \<noteq> p" by auto
  with before_total [of "fst e" p d] upper_not_before [OF assms(1,3)] show ?thesis by blast
qed

lemma upper_present:
  assumes sorted: "sorted_wrt (before d) (map fst es)" and mem: "(p, v) \<in> set es"
  shows "\<exists>bs. upper d p es = (p, v) # bs"
proof -
  from mem obtain as bs where es: "es = as @ (p, v) # bs" by (metis split_list)
  then have "\<forall>e \<in> set as. before d (fst e) p" using sorted by (auto simp: sorted_wrt_append)
  then have "upper d p es = upper d p ((p, v) # bs)" unfolding es upper_def by (induction as) auto
  then show ?thesis by (simp add: upper_def)
qed

lemma lindex_position_eq:
  assumes inv: "lindex_inv LEVELS d ix"
  shows "lindex_position ix p d = (length (lower d p (lindex_iter ix)), p \<in> fst ` set (lindex_iter ix))"
proof -
  let ?es = "lindex_iter ix" and ?P = "\<lambda>(listed, _). before d listed p"
  have sorted: "sorted_wrt (before d) (map fst ?es)" using inv by (simp add: lindex_inv_def)
  have P: "?P = (\<lambda>e. before d (fst e) p)" by auto
  have pp: "partition_point ?es ?P = length (lower d p ?es)"
    unfolding lower_def P
  proof (rule partition_point_correct)
    fix i j
    assume ij: "i < j" "j < length ?es" "before d (fst (?es ! j)) p"
    with sorted have "before d (fst (?es ! i)) (fst (?es ! j))" by (simp add: sorted_wrt_iff_nth_less)
    with ij(3) show "before d (fst (?es ! i)) p" by (rule before_trans [rotated])
  qed
  have found: "(length (lower d p ?es) < length ?es \<and> fst (?es ! length (lower d p ?es)) = p) \<longleftrightarrow> p \<in> fst ` set ?es"
  proof
    assume "length (lower d p ?es) < length ?es \<and> fst (?es ! length (lower d p ?es)) = p"
    then show "p \<in> fst ` set ?es" by (metis imageI nth_mem)
  next
    assume "p \<in> fst ` set ?es"
    then obtain v where "(p, v) \<in> set ?es" by auto
    from upper_present [OF sorted this] obtain bs where u: "upper d p ?es = (p, v) # bs" by blast
    have "length ?es = length (lower d p ?es) + length (upper d p ?es)" by (metis length_append lower_upper)
    moreover have "?es ! length (lower d p ?es) = (p, v)"
      using u by (metis lower_upper nth_append_length)
    ultimately show "length (lower d p ?es) < length ?es \<and> fst (?es ! length (lower d p ?es)) = p" using u by simp
  qed
  show ?thesis using found pp lindex_iter_length [OF inv] by (simp add: lindex_position_def Let_def)
qed

lemma lindex_find_eq:
  assumes inv: "lindex_inv LEVELS d ix"
  shows "lindex_find ix p d = map_of (lindex_iter ix) p"
proof (cases "p \<in> fst ` set (lindex_iter ix)")
  case True
  let ?es = "lindex_iter ix"
  have sorted: "sorted_wrt (before d) (map fst ?es)" using inv by (simp add: lindex_inv_def)
  from True obtain v where v: "(p, v) \<in> set ?es" by auto
  from upper_present [OF sorted v] obtain bs where u: "upper d p ?es = (p, v) # bs" by blast
  have "length (lower d p ?es) < length ?es" using u by (metis length_append length_Cons less_add_Suc1 lower_upper add_Suc_right)
  then have "li_entries ix ! length (lower d p ?es) = ?es ! length (lower d p ?es)" by (simp add: lindex_iter_def)
  also have "\<dots> = (p, v)" using u by (metis lower_upper nth_append_length)
  finally show ?thesis
    using True v lindex_distinct [OF inv] by (simp add: lindex_find_def lindex_position_eq [OF inv])
next
  case False
  then have "map_of (lindex_iter ix) p = None" by (simp add: map_of_eq_None_iff)
  with False show ?thesis by (simp add: lindex_find_def lindex_position_eq [OF inv])
qed

text \<open>Shifting an array by one opens or closes a gap in its used prefix.\<close>

lemma open_gap:
  assumes "pos \<le> len" and "len < length E"
  shows "take (len + 1) ((copy_within E pos len (pos + 1))[pos := x]) = take pos (take len E) @ x # drop pos (take len E)"
    and "length (copy_within E pos len (pos + 1)) = length E"
proof -
  have c: "copy_within E pos len (pos + 1) = take (pos + 1) E @ drop pos (take len E) @ drop (len + 1) E"
    using assms by (simp add: copy_within_def subslice_def drop_take)
  have "take (pos + 1) E = take pos E @ [E ! pos]" using assms by (simp add: take_Suc_conv_app_nth)
  then have "(copy_within E pos len (pos + 1))[pos := x] = take pos E @ x # drop pos (take len E) @ drop (len + 1) E"
    unfolding c using assms by (simp add: list_update_append)
  then show "take (len + 1) ((copy_within E pos len (pos + 1))[pos := x]) = take pos (take len E) @ x # drop pos (take len E)"
    using assms by (simp add: min_def Suc_diff_le)
  show "length (copy_within E pos len (pos + 1)) = length E" unfolding c using assms by simp
qed

lemma close_gap:
  assumes "pos < len" and "len \<le> length E"
  shows "take (len - 1) (copy_within E (pos + 1) len pos) = take pos (take len E) @ drop (pos + 1) (take len E)"
    and "length (copy_within E (pos + 1) len pos) = length E"
proof -
  have c: "copy_within E (pos + 1) len pos = take pos E @ drop (pos + 1) (take len E) @ drop (len - 1) E"
    using assms by (simp add: copy_within_def subslice_def drop_take)
  show "take (len - 1) (copy_within E (pos + 1) len pos) = take pos (take len E) @ drop (pos + 1) (take len E)"
  proof -
    have "pos \<le> len - 1" using assms by simp
    then show ?thesis unfolding c using assms by (simp add: min_absorb2 min_absorb1)
  qed
  show "length (copy_within E (pos + 1) len pos) = length E" unfolding c using assms by simp
qed

lemma lindex_sizes:
  assumes "lindex_inv LEVELS d ix"
  shows "li_len ix + li_free_len ix = LEVELS"
proof -
  have "length (map snd (lindex_iter ix) @ lindex_free ix) = card {..<LEVELS}"
    using assms distinct_card unfolding lindex_inv_def by metis
  with assms show ?thesis by (simp add: lindex_inv_def lindex_iter_def lindex_free_def)
qed

lemma lindex_inv_new: "lindex_inv LEVELS d (lindex_new LEVELS)"
proof -
  have "distinct (map (\<lambda>index. LEVELS - 1 - index) [0..<LEVELS])"
    by (auto simp: distinct_map inj_on_def)
  moreover have "i \<in> (\<lambda>index. LEVELS - Suc index) ` {0..<LEVELS}" if "i < LEVELS" for i
    using that by (intro image_eqI [of _ _ "LEVELS - Suc i"]) auto
  ultimately show ?thesis by (auto simp: lindex_inv_def lindex_new_def lindex_iter_def lindex_free_def)
qed

lemma lindex_iter_new [simp]: "lindex_iter (lindex_new LEVELS) = []"
  by (simp add: lindex_iter_def lindex_new_def)

lemma lindex_insert_correct:
  assumes inv: "lindex_inv LEVELS d ix" and new: "p \<notin> fst ` set (lindex_iter ix)"
  shows "if lindex_is_full ix then lindex_insert ix p d = Some None
    else \<exists>ix' lv. lindex_insert ix p d = Some (Some (ix', lv)) \<and> lindex_inv LEVELS d ix' \<and> lv < LEVELS \<and>
      lv \<notin> snd ` set (lindex_iter ix) \<and>
      lindex_iter ix' = lower d p (lindex_iter ix) @ (p, lv) # upper d p (lindex_iter ix)"
proof (cases "lindex_is_full ix")
  case True
  then show ?thesis by (simp add: lindex_insert_def lindex_is_full_def lindex_position_eq [OF inv])
next
  case False
  let ?es = "lindex_iter ix" and ?A = "lower d p (lindex_iter ix)" and ?B = "upper d p (lindex_iter ix)"
  let ?pos = "length ?A" and ?lv = "li_free ix ! (li_free_len ix - 1)"
  note sz = lindex_sizes [OF inv]
  have N: "length (li_entries ix) = LEVELS" "length (li_free ix) = LEVELS" "0 < li_free_len ix"
    using inv False by (auto simp: lindex_inv_def lindex_is_full_def)
  have pos: "?pos \<le> li_len ix" using lindex_iter_length [OF inv] by (metis length_append le_add1 lower_upper)
  have AB: "take ?pos ?es = ?A" "drop ?pos ?es = ?B" using lower_upper by (metis append_eq_conv_conj)+
  define ix' where "ix' = ix\<lparr>li_free_len := li_free_len ix - 1,
    li_entries := (copy_within (li_entries ix) ?pos (li_len ix) (?pos + 1))[?pos := (p, ?lv)], li_len := li_len ix + 1\<rparr>"
  have run: "lindex_insert ix p d = Some (Some (ix', ?lv))"
    using N sz by (simp add: lindex_insert_def lindex_position_eq [OF inv] new ix'_def Let_def)
  have it: "lindex_iter ix' = ?A @ (p, ?lv) # ?B"
    using open_gap(1) [OF pos, of "li_entries ix" "(p, ?lv)"] N sz AB by (simp add: lindex_iter_def ix'_def)
  have fr: "lindex_free ix = lindex_free ix' @ [?lv]"
    using N sz by (simp add: lindex_free_def ix'_def flip: take_Suc_conv_app_nth)
  have dist: "distinct (map snd ?es @ lindex_free ix)" "set (map snd ?es @ lindex_free ix) = {..<LEVELS}"
    using inv by (auto simp: lindex_inv_def)
  have es: "map snd ?es = map snd ?A @ map snd ?B" by (metis lower_upper map_append)
  have d': "distinct (map snd (lindex_iter ix') @ lindex_free ix')" using dist(1) unfolding it fr es by auto
  have s': "set (map snd (lindex_iter ix') @ lindex_free ix') = {..<LEVELS}"
    unfolding dist(2) [symmetric] unfolding it fr es by auto
  have sorted: "sorted_wrt (before d) (map fst ?es)" using inv by (simp add: lindex_inv_def)
  then have "sorted_wrt (before d) (map fst ?A @ map fst ?B)" by (metis lower_upper map_append)
  then have "sorted_wrt (before d) (map fst (lindex_iter ix'))"
    unfolding it using lower_before [of _ d p ?es] upper_after [OF sorted new]
    by (auto simp: sorted_wrt_append)
  then have "lindex_inv LEVELS d ix'"
    unfolding lindex_inv_def using d' s' N sz open_gap(2) [OF pos, of "li_entries ix"] by (simp add: ix'_def)
  moreover have "?lv \<in> set (lindex_free ix)" unfolding fr by simp
  then have "?lv < LEVELS" "?lv \<notin> snd ` set ?es" using dist by auto
  ultimately show ?thesis using run it False by auto
qed

lemma lindex_remove_correct:
  assumes inv: "lindex_inv LEVELS d ix" and es: "lindex_iter ix = as @ (p, lv) # bs"
  shows "\<exists>ix'. lindex_remove ix p d = Some (Some (ix', lv)) \<and> lindex_inv LEVELS d ix' \<and> lindex_iter ix' = as @ bs"
proof -
  let ?es = "lindex_iter ix" and ?pos = "length as"
  note sz = lindex_sizes [OF inv]
  have N: "length (li_entries ix) = LEVELS" "length (li_free ix) = LEVELS" using inv by (auto simp: lindex_inv_def)
  have sorted: "sorted_wrt (before d) (map fst ?es)" using inv by (simp add: lindex_inv_def)
  then have "\<forall>e \<in> set as. before d (fst e) p" unfolding es by (auto simp: sorted_wrt_append)
  then have low: "lower d p ?es = as" unfolding es lower_def by (induction as) auto
  have pos: "?pos < li_len ix" using lindex_iter_length [OF inv] es by (metis length_append length_Cons less_add_Suc1 add_Suc_right)
  have lv: "snd (li_entries ix ! ?pos) = lv"
  proof -
    have "li_entries ix ! ?pos = ?es ! ?pos" using pos by (simp add: lindex_iter_def)
    then show ?thesis by (simp add: es)
  qed
  define ix' where "ix' = ix\<lparr>li_entries := copy_within (li_entries ix) (?pos + 1) (li_len ix) ?pos, li_len := li_len ix - 1,
    li_free := (li_free ix)[li_free_len ix := lv], li_free_len := li_free_len ix + 1\<rparr>"
  have run: "lindex_remove ix p d = Some (Some (ix', lv))"
    using N sz pos by (simp add: lindex_remove_def lindex_position_eq [OF inv] low lv ix'_def Let_def) (simp add: es)
  have it: "lindex_iter ix' = as @ bs"
    using close_gap(1) [OF pos, of "li_entries ix"] N sz es unfolding lindex_iter_def [of ix]
    by (simp del: take_take add: lindex_iter_def ix'_def)
  have fr: "lindex_free ix' = lindex_free ix @ [lv]"
    using N sz pos by (simp add: lindex_free_def ix'_def take_Suc_conv_app_nth)
  have dist: "distinct (map snd ?es @ lindex_free ix)" "set (map snd ?es @ lindex_free ix) = {..<LEVELS}"
    using inv by (auto simp: lindex_inv_def)
  have d': "distinct (map snd (lindex_iter ix') @ lindex_free ix')" using dist(1) unfolding it fr es by auto
  have s': "set (map snd (lindex_iter ix') @ lindex_free ix') = {..<LEVELS}"
    unfolding dist(2) [symmetric] unfolding it fr es by auto
  have "sorted_wrt (before d) (map fst (lindex_iter ix'))" using sorted unfolding it es by (auto simp: sorted_wrt_append)
  then have "lindex_inv LEVELS d ix'"
    unfolding lindex_inv_def using d' s' N sz pos close_gap(2) [OF pos, of "li_entries ix"] by (simp add: ix'_def)
  with run it show ?thesis by blast
qed

end
