(* ===== verification/OrderIndex.thy ===== *)
theory OrderIndex
  imports ProbeIndex
begin

text \<open>
  The order index of the book (\<open>OrderIndex\<close> in \<open>crates/hft-book/src/lib.rs\<close>): the same linear
  probing with back-shift deletion as the risk engine's index, over slots that hold an order id and a
  packed location. The const generics \<open>LEVELS\<close> and \<open>ORDERS\<close> are arguments. The theory proves
  the packing injective and the index a data refinement of theory \<open>ProbeIndex\<close>, and states once what
  an index whose entries are mirrored by handles in client records guarantees.
\<close>

section \<open>Packed locations\<close>

record OrderLocation =
  ol_side :: Side
  ol_level_index :: nat
  ol_slot :: nat

definition ORDER_INDEX_PLANES :: nat where "ORDER_INDEX_PLANES = 4"

definition encode_location :: "nat \<Rightarrow> nat \<Rightarrow> OrderLocation \<Rightarrow> nat option" where
  "encode_location LEVELS ORDERS location =
     (if ol_level_index location \<ge> LEVELS \<or> ol_slot location \<ge> ORDERS then None
      else do {
        scaled \<leftarrow> checked_mul 64 (ol_level_index location) ORDERS;
        flat \<leftarrow> checked_add 64 scaled (ol_slot location);
        doubled \<leftarrow> checked_mul 64 flat 2;
        sided \<leftarrow> checked_add 64 doubled (if ol_side location = Sell then 1 else 0);
        checked_add 64 sided 1
      })"

definition decode_location :: "nat \<Rightarrow> nat \<Rightarrow> nat \<Rightarrow> OrderLocation option" where
  "decode_location LEVELS ORDERS encoded =
     (let encoded = encoded - 1; flat = encoded div 2 in
      if ORDERS = 0 then None
      else let level_index = flat div ORDERS in
        if level_index \<ge> LEVELS then None
        else Some \<lparr>ol_side = (if encoded mod 2 = 0 then Buy else Sell),
                   ol_level_index = level_index, ol_slot = flat mod ORDERS\<rparr>)"

section \<open>The index\<close>

record OiSlot =
  ix_order_id :: OrderId
  ix_location :: "nat option"

definition OI_EMPTY :: OiSlot where
  "OI_EMPTY = \<lparr>ix_order_id = 0, ix_location = None\<rparr>"

type_synonym order_index = "OiSlot list"

definition oi_new :: "nat \<Rightarrow> nat \<Rightarrow> order_index" where
  "oi_new LEVELS ORDERS = replicate (LEVELS * ORDERS * ORDER_INDEX_PLANES) OI_EMPTY"

definition oi_probe_start :: "nat \<Rightarrow> OrderId \<Rightarrow> nat" where
  "oi_probe_start capacity order_id = wrapping_mul 64 order_id 11400714819323198485 mod capacity"

definition oi_probe_distance :: "nat \<Rightarrow> nat \<Rightarrow> nat \<Rightarrow> nat" where
  "oi_probe_distance capacity home current =
     (if current \<ge> home then current - home else capacity - (home - current))"

fun oi_find_loop :: "order_index \<Rightarrow> OrderId \<Rightarrow> nat \<Rightarrow> nat list \<Rightarrow> nat option" where
  "oi_find_loop slots order_id start [] = None"
| "oi_find_loop slots order_id start (offset # offsets) =
     (let flat_index = wrapping_add 64 start offset mod length slots; slot = slots ! flat_index in
      case ix_location slot of
        None \<Rightarrow> None
      | Some _ \<Rightarrow>
          if ix_order_id slot = order_id then Some flat_index
          else oi_find_loop slots order_id start offsets)"

definition oi_find_slot :: "order_index \<Rightarrow> OrderId \<Rightarrow> nat option" where
  "oi_find_slot slots order_id =
     (if length slots = 0 then None
      else oi_find_loop slots order_id (oi_probe_start (length slots) order_id) [0..<length slots])"

definition oi_location :: "nat \<Rightarrow> nat \<Rightarrow> order_index \<Rightarrow> OrderId \<Rightarrow> OrderLocation option" where
  "oi_location LEVELS ORDERS slots order_id =
     do {
       i \<leftarrow> oi_find_slot slots order_id;
       encoded \<leftarrow> ix_location (slots ! i);
       decode_location LEVELS ORDERS encoded
     }"

fun oi_insert_loop ::
  "order_index \<Rightarrow> OrderId \<Rightarrow> nat \<Rightarrow> nat \<Rightarrow> nat list \<Rightarrow> (nat \<times> order_index, RejectReason) result" where
  "oi_insert_loop slots order_id encoded start [] = Err OrderCapacity"
| "oi_insert_loop slots order_id encoded start (offset # offsets) =
     (let flat_index = wrapping_add 64 start offset mod length slots; slot = slots ! flat_index in
      case ix_location slot of
        None \<Rightarrow>
          (case u32_try_from flat_index of
             None \<Rightarrow> Err OrderCapacity
           | Some slot_id \<Rightarrow>
               Ok (slot_id, slots[flat_index := \<lparr>ix_order_id = order_id, ix_location = Some encoded\<rparr>]))
      | Some _ \<Rightarrow>
          if ix_order_id slot = order_id then Err DuplicateOrderId
          else oi_insert_loop slots order_id encoded start offsets)"

definition oi_insert ::
  "nat \<Rightarrow> nat \<Rightarrow> order_index \<Rightarrow> OrderId \<Rightarrow> OrderLocation \<Rightarrow> (nat \<times> order_index, RejectReason) result" where
  "oi_insert LEVELS ORDERS slots order_id location =
     (if length slots = 0 then Err OrderCapacity
      else case encode_location LEVELS ORDERS location of
        None \<Rightarrow> Err OrderCapacity
      | Some encoded \<Rightarrow>
          oi_insert_loop slots order_id encoded (oi_probe_start (length slots) order_id) [0..<length slots])"

text \<open>
  The back-shift loop. \<open>None\<close> is a panic or running out of fuel; the flag is \<open>False\<close> when the
  source returns early because a stored location does not decode.
\<close>

fun oi_remove_loop ::
  "nat \<Rightarrow> nat \<Rightarrow> nat \<Rightarrow> order_index \<Rightarrow> nat \<Rightarrow> nat \<Rightarrow> (OrderId \<Rightarrow> OrderLocation \<Rightarrow> nat \<Rightarrow> 's \<Rightarrow> 's) \<Rightarrow> 's
     \<Rightarrow> (order_index \<times> 's \<times> bool) option" where
  "oi_remove_loop LEVELS ORDERS 0 slots hole candidate_index update st = None"
| "oi_remove_loop LEVELS ORDERS (Suc fuel) slots hole candidate_index update st =
     (let candidate = slots ! candidate_index in
      case ix_location candidate of
        None \<Rightarrow> Some (slots[hole := OI_EMPTY], st, True)
      | Some encoded \<Rightarrow>
          let home_bucket = oi_probe_start (length slots) (ix_order_id candidate);
              next_candidate = wrapping_add 64 candidate_index 1 mod length slots in
          if oi_probe_distance (length slots) home_bucket hole
             < oi_probe_distance (length slots) home_bucket candidate_index
          then (case decode_location LEVELS ORDERS encoded of
                  None \<Rightarrow> Some (slots, st, False)
                | Some candidate_location \<Rightarrow>
                    (case u32_try_from hole of
                       None \<Rightarrow> None
                     | Some new_slot \<Rightarrow>
                         oi_remove_loop LEVELS ORDERS fuel (slots[hole := candidate]) candidate_index next_candidate
                           update (update (ix_order_id candidate) candidate_location new_slot st)))
          else oi_remove_loop LEVELS ORDERS fuel slots hole next_candidate update st)"

definition oi_remove_at ::
  "nat \<Rightarrow> nat \<Rightarrow> order_index \<Rightarrow> nat \<Rightarrow> OrderId \<Rightarrow> (OrderId \<Rightarrow> OrderLocation \<Rightarrow> nat \<Rightarrow> 's \<Rightarrow> 's) \<Rightarrow> 's
     \<Rightarrow> (order_index \<times> 's \<times> OrderLocation option) option" where
  "oi_remove_at LEVELS ORDERS slots slot_index order_id update st =
     (if slot_index \<ge> length slots then Some (slots, st, None)
      else let indexed = slots ! slot_index in
        case (case ix_location indexed of None \<Rightarrow> None | Some e \<Rightarrow> decode_location LEVELS ORDERS e) of
          None \<Rightarrow> Some (slots, st, None)
        | Some location \<Rightarrow>
            if ix_order_id indexed \<noteq> order_id then Some (slots, st, None)
            else (case oi_remove_loop LEVELS ORDERS (length slots) slots slot_index
                         (wrapping_add 64 slot_index 1 mod length slots) update st of
                    None \<Rightarrow> None
                  | Some (slots', st', done1) \<Rightarrow> Some (slots', st', if done1 then Some location else None)))"

section \<open>Packing\<close>

definition loc_ok :: "nat \<Rightarrow> nat \<Rightarrow> OrderLocation \<Rightarrow> bool" where
  "loc_ok LEVELS ORDERS l \<longleftrightarrow> ol_level_index l < LEVELS \<and> ol_slot l < ORDERS"

definition loc_code :: "nat \<Rightarrow> OrderLocation \<Rightarrow> nat" where
  "loc_code ORDERS l = (ol_level_index l * ORDERS + ol_slot l) * 2 + (if ol_side l = Sell then 1 else 0)"

lemma loc_code_less:
  assumes "loc_ok LEVELS ORDERS l"
  shows "ol_level_index l * ORDERS + ol_slot l < LEVELS * ORDERS" and "loc_code ORDERS l < LEVELS * ORDERS * 2"
proof -
  have "(ol_level_index l + 1) * ORDERS \<le> LEVELS * ORDERS"
    using assms by (intro mult_le_mono1) (simp add: loc_ok_def)
  then show f: "ol_level_index l * ORDERS + ol_slot l < LEVELS * ORDERS"
    using assms by (simp add: loc_ok_def)
  then show "loc_code ORDERS l < LEVELS * ORDERS * 2" by (simp add: loc_code_def)
qed

lemma decode_loc_code:
  assumes "loc_ok LEVELS ORDERS l"
  shows "decode_location LEVELS ORDERS (loc_code ORDERS l + 1) = Some l"
proof -
  have "(ol_level_index l * ORDERS + ol_slot l) div ORDERS = ol_level_index l"
    "(ol_level_index l * ORDERS + ol_slot l) mod ORDERS = ol_slot l" using assms by (auto simp: loc_ok_def)
  moreover have half: "(f * 2 + b) div 2 = f" "(f * 2 + b) mod 2 = b" if "b < 2" for f b :: nat using that by presburger+
  have "(if ol_side l = Sell then 1 else 0 :: nat) < 2" by simp
  from half [OF this, of "ol_level_index l * ORDERS + ol_slot l"]
  have "loc_code ORDERS l div 2 = ol_level_index l * ORDERS + ol_slot l"
    "loc_code ORDERS l mod 2 = (if ol_side l = Sell then 1 else 0)" unfolding loc_code_def .
  ultimately show ?thesis using assms by (cases "ol_side l") (auto simp: decode_location_def loc_ok_def Let_def)
qed

lemma encode_location_eq:
  assumes "LEVELS * ORDERS * ORDER_INDEX_PLANES \<le> 2 ^ 32"
  shows "encode_location LEVELS ORDERS l = (if loc_ok LEVELS ORDERS l then Some (loc_code ORDERS l + 1) else None)"
proof (cases "loc_ok LEVELS ORDERS l")
  case True
  note lt = loc_code_less [OF True]
  have "LEVELS * ORDERS < 2 ^ 32" using assms lt by (simp add: ORDER_INDEX_PLANES_def)
  then have small: "ol_level_index l * ORDERS + ol_slot l < 2 ^ 32" using lt(1) by linarith
  then show ?thesis using True
    by (auto simp: encode_location_def checked_mul_def checked_add_def loc_code_def loc_ok_def)
next
  case False
  then show ?thesis by (auto simp: encode_location_def loc_ok_def)
qed

lemma decode_location_inv:
  assumes "decode_location LEVELS ORDERS (Suc v) = Some l"
  shows "loc_ok LEVELS ORDERS l" and "loc_code ORDERS l = v"
proof -
  have l: "ol_level_index l = v div 2 div ORDERS" "ol_slot l = v div 2 mod ORDERS"
    "(if ol_side l = Sell then 1 else 0) = v mod 2"
    using assms by (auto simp: decode_location_def Let_def split: if_splits)
  have "v = v div 2 * 2 + v mod 2" by simp
  moreover have "v div 2 = v div 2 div ORDERS * ORDERS + v div 2 mod ORDERS" by simp
  ultimately show "loc_code ORDERS l = v" unfolding loc_code_def l by metis
  show "loc_ok LEVELS ORDERS l"
    using assms by (auto simp: decode_location_def loc_ok_def Let_def split: if_splits)
qed

lemma decode_iff: "decode_location LEVELS ORDERS (Suc v) = Some l \<longleftrightarrow> loc_ok LEVELS ORDERS l \<and> v = loc_code ORDERS l"
  using decode_location_inv decode_loc_code by fastforce

lemma loc_code_inj:
  "loc_ok LEVELS ORDERS l \<Longrightarrow> loc_ok LEVELS ORDERS l' \<Longrightarrow> loc_code ORDERS l = loc_code ORDERS l' \<Longrightarrow> l = l'"
  using decode_loc_code by (metis option.inject)

section \<open>Refinement of the probe index\<close>

definition oi_abs :: "OiSlot \<Rightarrow> IndexSlot" where
  "oi_abs s = (case ix_location s of None \<Rightarrow> Empty | Some e \<Rightarrow> Occupied (ix_order_id s) e)"

abbreviation oi_probe :: "order_index \<Rightarrow> probe_index" where
  "oi_probe slots \<equiv> map oi_abs slots"

lemma oi_start: "oi_probe_start = probe_start" "oi_probe_distance = probe_distance"
  by (intro ext, simp add: oi_probe_start_def probe_start_def)
    (intro ext, simp add: oi_probe_distance_def probe_distance_def)

lemma oi_find_refines: "oi_find_slot slots k = find_slot (oi_probe slots) k"
proof -
  have "oi_find_loop slots k start os = find_slot_loop (oi_probe slots) k start os" if "slots \<noteq> []" for start os
    by (induction os) (use that in \<open>auto simp: Let_def oi_abs_def split: option.splits\<close>)
  then show ?thesis by (auto simp: oi_find_slot_def find_slot_def oi_start)
qed

lemma oi_insert_loop_refines:
  assumes "slots \<noteq> []"
  shows "oi_insert_loop slots k e start os = (case probe_insert_loop (oi_probe slots) k e start os of
      Ok (i, _) \<Rightarrow> Ok (i, slots[i := \<lparr>ix_order_id = k, ix_location = Some e\<rparr>])
    | Err ProbeFull \<Rightarrow> Err OrderCapacity | Err ProbeDuplicate \<Rightarrow> Err DuplicateOrderId)"
  by (induction os) (use assms in \<open>auto simp: Let_def oi_abs_def u32_try_from_def split: option.splits\<close>)

lemma oi_insert_refines:
  assumes "encode_location LEVELS ORDERS l = Some (Suc v)" and "Suc v < 2 ^ 64"
  shows "oi_insert LEVELS ORDERS slots k l = (case probe_insert (oi_probe slots) k v of
      Ok (i, _) \<Rightarrow> Ok (i, slots[i := \<lparr>ix_order_id = k, ix_location = Some (Suc v)\<rparr>])
    | Err ProbeFull \<Rightarrow> Err OrderCapacity | Err ProbeDuplicate \<Rightarrow> Err DuplicateOrderId)"
  using assms oi_insert_loop_refines [of slots]
  by (cases "slots = []") (simp_all add: oi_insert_def probe_insert_def checked_add_def oi_start)

definition oi_decodes :: "nat \<Rightarrow> nat \<Rightarrow> order_index \<Rightarrow> bool" where
  "oi_decodes LEVELS ORDERS slots \<longleftrightarrow>
     (\<forall>s \<in> set slots. \<forall>e. ix_location s = Some e \<longrightarrow> 0 < e \<and> decode_location LEVELS ORDERS e \<noteq> None)"

definition decoded_update ::
  "nat \<Rightarrow> nat \<Rightarrow> (OrderId \<Rightarrow> OrderLocation \<Rightarrow> nat \<Rightarrow> 's \<Rightarrow> 's) \<Rightarrow> nat \<Rightarrow> nat \<Rightarrow> nat \<Rightarrow> 's \<Rightarrow> 's" where
  "decoded_update LEVELS ORDERS update k v n st =
     (case decode_location LEVELS ORDERS (v + 1) of None \<Rightarrow> st | Some l \<Rightarrow> update k l n st)"

lemma oi_remove_loop_refines:
  assumes "oi_decodes LEVELS ORDERS slots" and "hole < length slots" and "c < length slots"
    and "remove_loop fuel (oi_probe slots) hole c (decoded_update LEVELS ORDERS update) st = Some (s', st')"
  shows "\<exists>slots'. oi_remove_loop LEVELS ORDERS fuel slots hole c update st = Some (slots', st', True) \<and>
    oi_probe slots' = s' \<and> oi_decodes LEVELS ORDERS slots'"
  using assms
proof (induction fuel arbitrary: slots hole c st)
  case 0
  then show ?case by simp
next
  case (Suc fuel)
  have upd: "oi_decodes LEVELS ORDERS (slots[hole := x])"
    if "ix_location x = None \<or> x \<in> set slots" for x
  proof -
    have "ix_location s = None \<or> s \<in> set slots" if "s \<in> set (slots[hole := x])" for s
      using that \<open>ix_location x = None \<or> x \<in> set slots\<close> set_update_subset_insert [of slots hole x] by auto
    with Suc.prems(1) show ?thesis unfolding oi_decodes_def by (metis option.distinct(1))
  qed
  have c': "wrapping_add 64 c 1 mod length slots < length slots"
    by (rule mod_less_divisor) (use Suc.prems in auto)
  show ?case
  proof (cases "ix_location (slots ! c)")
    case None
    then have "oi_abs (slots ! c) = Empty" by (simp add: oi_abs_def)
    moreover have "oi_abs OI_EMPTY = Empty" "ix_location OI_EMPTY = None" by (simp_all add: oi_abs_def OI_EMPTY_def)
    ultimately show ?thesis using Suc.prems None upd [of OI_EMPTY] by (auto simp: map_update)
  next
    case (Some e)
    have mem: "slots ! c \<in> set slots" using Suc.prems by simp
    with Some Suc.prems(1) obtain l where e: "0 < e" "decode_location LEVELS ORDERS e = Some l"
      unfolding oi_decodes_def by fastforce
    have abs: "oi_abs (slots ! c) = Occupied (ix_order_id (slots ! c)) e" using Some by (simp add: oi_abs_def)
    show ?thesis
    proof (cases "probe_distance (length slots) (probe_start (length slots) (ix_order_id (slots ! c))) hole
        < probe_distance (length slots) (probe_start (length slots) (ix_order_id (slots ! c))) c")
      case True
      with Suc.prems(4) abs Suc.prems(3) obtain n where n: "u32_try_from hole = Some n"
        by (auto simp: Let_def split: option.splits)
      have du: "decoded_update LEVELS ORDERS update (ix_order_id (slots ! c)) (e - 1) n st
          = update (ix_order_id (slots ! c)) l n st" using e by (simp add: decoded_update_def)
      have "remove_loop fuel (oi_probe (slots[hole := slots ! c])) c (wrapping_add 64 c 1 mod length slots)
          (decoded_update LEVELS ORDERS update) (update (ix_order_id (slots ! c)) l n st) = Some (s', st')"
        using Suc.prems(4) abs True n du Suc.prems(3) by (simp add: Let_def map_update)
      with Suc.IH [of "slots[hole := slots ! c]" c "wrapping_add 64 c 1 mod length slots"] upd mem c' Suc.prems
      show ?thesis using Some True n e by (simp add: oi_start Let_def)
    next
      case False
      have "remove_loop fuel (oi_probe slots) hole (wrapping_add 64 c 1 mod length slots)
          (decoded_update LEVELS ORDERS update) st = Some (s', st')"
        using Suc.prems(4) abs False Suc.prems(3) by (simp add: Let_def)
      with Suc.IH [of slots hole "wrapping_add 64 c 1 mod length slots"] c' Suc.prems
      show ?thesis using Some False by (simp add: oi_start Let_def)
    qed
  qed
qed

lemma oi_remove_refines:
  assumes "oi_decodes LEVELS ORDERS slots"
    and "probe_remove_at (oi_probe slots) h k (decoded_update LEVELS ORDERS update) st = Some (s', st', Some v)"
  shows "\<exists>slots' l. oi_remove_at LEVELS ORDERS slots h k update st = Some (slots', st', Some l) \<and>
    oi_probe slots' = s' \<and> oi_decodes LEVELS ORDERS slots' \<and> decode_location LEVELS ORDERS (v + 1) = Some l"
proof -
  from assms(2) obtain w where h: "h < length slots" "oi_abs (slots ! h) = Occupied k w" "v = w - 1"
    and loop: "remove_loop (length slots) (oi_probe slots) h (wrapping_add 64 h 1 mod length slots)
      (decoded_update LEVELS ORDERS update) st = Some (s', st')"
    by (auto simp: probe_remove_at_def split: if_splits IndexSlot.splits option.splits)
  have loc: "ix_location (slots ! h) = Some w" "ix_order_id (slots ! h) = k"
    using h(2) by (auto simp: oi_abs_def split: option.splits)
  with assms(1) h(1) obtain l where l: "0 < w" "decode_location LEVELS ORDERS w = Some l"
    unfolding oi_decodes_def by (metis not_None_eq nth_mem)
  have c: "wrapping_add 64 h 1 mod length slots < length slots"
    by (rule mod_less_divisor) (use h in auto)
  from oi_remove_loop_refines [OF assms(1) h(1) c loop] loc l h show ?thesis
    by (auto simp: oi_remove_at_def Let_def)
qed

section \<open>Indexes mirrored by handles\<close>

text \<open>
  A client whose records carry the handle of their own index entry. \<open>Q\<close> fixes the records up to
  handles, so it determines which keys are present.
\<close>

locale indexed_store = index_client +
  assumes R_handle: "R st k v i \<Longrightarrow> R st k v j \<Longrightarrow> i = j"
    and Q_keys: "Q st \<Longrightarrow> Q st' \<Longrightarrow> (\<exists>j. R st k v j) \<longleftrightarrow> (\<exists>j. R st' k v j)"
begin

lemma remove_indexed:
  assumes inv: "probe_inv s" and room: "\<exists>e < length s. s ! e = Empty" and holds: "slot_holds s h key (Suc v)"
    and Q: "Q st" and mirror: "\<And>i k w. k \<noteq> key \<Longrightarrow> slot_holds s i k (Suc w) \<longleftrightarrow> R st k w i"
  shows "\<exists>s' st'. probe_remove_at s h key update_moved st = Some (s', st', Some v) \<and> probe_inv s' \<and>
    length s' = length s \<and> Q st' \<and> (\<forall>i k w. slot_holds s' i k (Suc w) \<longleftrightarrow> k \<noteq> key \<and> R st' k w i)"
proof -
  have R: "R st k w i" if "i \<noteq> h" "slot_holds s i k (Suc w)" for i k w
  proof -
    have "k \<noteq> key" using probe_inv_unique [OF inv] holds that by blast
    with mirror that show ?thesis by blast
  qed
  from remove_at_correct [OF inv room holds Q R] obtain s' st' where
    r: "probe_remove_at s h key update_moved st = Some (s', st', Some v)" "probe_inv s'" "length s' = length s" "Q st'"
      "\<forall>i k v. slot_holds s' i k (Suc v) \<longrightarrow> R st' k v i"
      "\<forall>k v. (\<exists>i. slot_holds s' i k v) \<longleftrightarrow> k \<noteq> key \<and> (\<exists>i. slot_holds s i k v)" by blast
  have "slot_holds s' i k (Suc w) \<longleftrightarrow> k \<noteq> key \<and> R st' k w i" for i k w
  proof
    assume "slot_holds s' i k (Suc w)"
    with r(5,6) show "k \<noteq> key \<and> R st' k w i" by blast
  next
    assume a: "k \<noteq> key \<and> R st' k w i"
    then have "\<exists>j. R st k w j" using Q_keys [OF Q r(4)] by blast
    then obtain j where "slot_holds s' j k (Suc w)" using a mirror r(6) by blast
    moreover from this r(5) have "R st' k w j" by blast
    with a R_handle have "j = i" by blast
    ultimately show "slot_holds s' i k (Suc w)" by simp
  qed
  with r show ?thesis by blast
qed

end

lemma insert_indexed:
  assumes inv: "probe_inv s" and room: "\<exists>e < length s. s ! e = Empty" and v: "Suc v < 2 ^ 64"
    and mirror: "\<And>i k w. slot_holds s i k (Suc w) \<longleftrightarrow> P k w i" and new: "\<And>w i. \<not> P key w i"
  shows "\<exists>i. probe_insert s key v = Ok (i, s[i := Occupied key (Suc v)]) \<and> i < length s \<and>
    probe_inv (s[i := Occupied key (Suc v)]) \<and>
    (\<forall>j k w. slot_holds (s[i := Occupied key (Suc v)]) j k (Suc w) \<longleftrightarrow> P k w j \<or> k = key \<and> w = v \<and> j = i)"
proof -
  have "\<not> slot_holds s i key w" for i w
  proof
    assume s: "slot_holds s i key w"
    with inv have "0 < w" unfolding probe_inv_def by blast
    with s mirror [of i key "w - 1"] new show False by simp
  qed
  then have "find_slot s key = None" using find_slot_None [OF inv] by blast
  from probe_insert_correct [OF inv this room] v obtain i where
    i: "probe_insert s key v = Ok (i, s[i := Occupied key (Suc v)])" "i < length s" "s ! i = Empty"
      "probe_inv (s[i := Occupied key (Suc v)])" by auto
  have "\<not> P k w i" for k w using mirror [of i k w] i(3) by (simp add: slot_holds_def)
  then have "slot_holds (s[i := Occupied key (Suc v)]) j k (Suc w) \<longleftrightarrow> P k w j \<or> k = key \<and> w = v \<and> j = i" for j k w
    unfolding slot_holds_update [OF i(2)] using mirror [of j k w] by auto
  with i show ?thesis by blast
qed

end
