(* ===== verification/Book.thy ===== *)
theory Book
  imports PriceLevel LevelIndex OrderIndex
begin

text \<open>
  The order book \<open>OrderBook\<close> of \<open>crates/hft-book/src/lib.rs\<close>: admission, the single-fill fast
  path, planning, plan application, resting, replace and cancel. The const generics \<open>LEVELS\<close> and
  \<open>ORDERS_PER_LEVEL\<close> are fields of the record. An operation returns \<open>None\<close> where the source would
  panic (a failed \<open>expect\<close>, \<open>unreachable!\<close>, an index out of range); a rejection carries no new
  book, because every rejection of the source precedes the first write.
\<close>

section \<open>State\<close>

record OrderBook =
  ob_LEVELS :: nat
  ob_ORDERS :: nat
  ob_instrument :: InstrumentId
  ob_bids :: "PriceLevel option list"
  ob_asks :: "PriceLevel option list"
  ob_index :: order_index
  ob_bid_levels :: LevelIndex
  ob_ask_levels :: LevelIndex

record CancelledOrder =
  cn_order_id :: OrderId
  cn_account_id :: AccountId
  cn_quantity :: Quantity

record ReplacedOrder =
  rp_order_id :: OrderId
  rp_account_id :: AccountId
  rp_old_quantity :: Quantity
  rp_new_quantity :: Quantity
  rp_price :: PriceTicks
  rp_priority_lost :: bool

record TopLevel =
  tl_price :: PriceTicks
  tl_aggregate_quantity :: nat
  tl_order_count :: nat

record FillEntry =
  fe_level_index :: nat
  fe_slot :: nat
  fe_order_id :: OrderId
  fe_price :: PriceTicks
  fe_quantity :: Quantity

text \<open>The plan holds the used prefix of the fill array; \<open>capacity\<close> never exceeds its size.\<close>

record MatchPlan =
  mp_fills :: "FillEntry list"
  mp_capacity :: nat
  mp_maker_side :: Side
  mp_resting_quantity :: Quantity
  mp_discarded :: nat

definition plan_new :: "nat \<Rightarrow> Side \<Rightarrow> nat \<Rightarrow> MatchPlan" where
  "plan_new FILLS maker_side report_capacity =
     \<lparr>mp_fills = [], mp_capacity = min report_capacity FILLS, mp_maker_side = maker_side,
      mp_resting_quantity = 0, mp_discarded = 0\<rparr>"

definition push_fill :: "MatchPlan \<Rightarrow> FillEntry \<Rightarrow> (MatchPlan, RejectReason) result" where
  "push_fill plan fill =
     (if length (mp_fills plan) \<ge> mp_capacity plan then Err ReportCapacity
      else Ok (plan\<lparr>mp_fills := mp_fills plan @ [fill]\<rparr>))"

definition book_new :: "nat \<Rightarrow> nat \<Rightarrow> InstrumentId \<Rightarrow> OrderBook" where
  "book_new LEVELS ORDERS instrument =
     \<lparr>ob_LEVELS = LEVELS, ob_ORDERS = ORDERS, ob_instrument = instrument,
      ob_bids = replicate LEVELS None, ob_asks = replicate LEVELS None,
      ob_index = oi_new LEVELS ORDERS,
      ob_bid_levels = lindex_new LEVELS, ob_ask_levels = lindex_new LEVELS\<rparr>"

definition side_levels :: "OrderBook \<Rightarrow> Side \<Rightarrow> PriceLevel option list" where
  "side_levels b side = (case side of Buy \<Rightarrow> ob_bids b | Sell \<Rightarrow> ob_asks b)"

definition set_side_levels :: "OrderBook \<Rightarrow> Side \<Rightarrow> PriceLevel option list \<Rightarrow> OrderBook" where
  "set_side_levels b side ls = (case side of Buy \<Rightarrow> b\<lparr>ob_bids := ls\<rparr> | Sell \<Rightarrow> b\<lparr>ob_asks := ls\<rparr>)"

definition side_index :: "OrderBook \<Rightarrow> Side \<Rightarrow> LevelIndex" where
  "side_index b side = (case side of Buy \<Rightarrow> ob_bid_levels b | Sell \<Rightarrow> ob_ask_levels b)"

definition set_side_index :: "OrderBook \<Rightarrow> Side \<Rightarrow> LevelIndex \<Rightarrow> OrderBook" where
  "set_side_index b side ix = (case side of Buy \<Rightarrow> b\<lparr>ob_bid_levels := ix\<rparr> | Sell \<Rightarrow> b\<lparr>ob_ask_levels := ix\<rparr>)"

text \<open>\<open>side_levels(side)[level_index].as_ref().expect(..)\<close> and its update in place.\<close>

definition level_at :: "OrderBook \<Rightarrow> Side \<Rightarrow> nat \<Rightarrow> PriceLevel option" where
  "level_at b side level_index = Option.bind (nth_opt (side_levels b side) level_index) (\<lambda>x. x)"

definition put_level :: "OrderBook \<Rightarrow> Side \<Rightarrow> nat \<Rightarrow> PriceLevel option \<Rightarrow> OrderBook" where
  "put_level b side level_index level = set_side_levels b side ((side_levels b side)[level_index := level])"

definition descending :: "Side \<Rightarrow> bool" where
  "descending side \<longleftrightarrow> side = Buy"

definition crosses :: "Side \<Rightarrow> PriceTicks \<Rightarrow> PriceTicks \<Rightarrow> bool" where
  "crosses side listed limit = (case side of Buy \<Rightarrow> listed \<le> limit | Sell \<Rightarrow> listed \<ge> limit)"

section \<open>Lookup\<close>

definition contains_order :: "OrderBook \<Rightarrow> OrderId \<Rightarrow> bool" where
  "contains_order b order_id \<longleftrightarrow> oi_location (ob_LEVELS b) (ob_ORDERS b) (ob_index b) order_id \<noteq> None"

definition locate :: "OrderBook \<Rightarrow> OrderId \<Rightarrow> (OrderLocation \<times> AccountId) option" where
  "locate b order_id =
     do {
       location \<leftarrow> oi_location (ob_LEVELS b) (ob_ORDERS b) (ob_index b) order_id;
       level \<leftarrow> level_at b (ol_side location) (ol_level_index location);
       order \<leftarrow> get_live level (ol_slot location);
       (if rst_id order \<noteq> order_id then None else Some (location, rst_account_id order))
     }"

definition best_entry :: "OrderBook \<Rightarrow> Side \<Rightarrow> (PriceTicks \<times> nat) option" where
  "best_entry b side = (case lindex_iter (side_index b side) of [] \<Rightarrow> None | e # _ \<Rightarrow> Some e)"

definition top_level :: "OrderBook \<Rightarrow> Side \<Rightarrow> TopLevel option" where
  "top_level b side =
     do {
       (price, level_index) \<leftarrow> best_entry b side;
       level \<leftarrow> level_at b side level_index;
       Some \<lparr>tl_price = price, tl_aggregate_quantity = pl_aggregate_quantity level, tl_order_count = pl_len level\<rparr>
     }"

definition order_count :: "OrderBook \<Rightarrow> nat" where
  "order_count b = sum_list (map (\<lambda>x. case x of None \<Rightarrow> 0 | Some level \<Rightarrow> pl_len level) (ob_bids b @ ob_asks b))"

section \<open>Removal and resting\<close>

text \<open>The closure of \<open>remove_index_entry\<close>, on the two level arrays it borrows.\<close>

definition move_order ::
  "OrderId \<Rightarrow> OrderLocation \<Rightarrow> nat \<Rightarrow> PriceLevel option list \<times> PriceLevel option list
     \<Rightarrow> PriceLevel option list \<times> PriceLevel option list" where
  "move_order moved_id location new_slot st =
     (let levels = (case ol_side location of Buy \<Rightarrow> fst st | Sell \<Rightarrow> snd st) in
      case Option.bind (nth_opt levels (ol_level_index location)) (\<lambda>x. x) of
        None \<Rightarrow> st
      | Some level \<Rightarrow>
          (case get_live level (ol_slot location) of
             None \<Rightarrow> st
           | Some resting \<Rightarrow>
               if rst_id resting \<noteq> moved_id then st
               else let levels' = levels[ol_level_index location :=
                        Some (put_live level (ol_slot location) (resting\<lparr>rst_index_slot := new_slot\<rparr>))] in
                 (case ol_side location of Buy \<Rightarrow> (levels', snd st) | Sell \<Rightarrow> (fst st, levels'))))"

definition remove_index_entry :: "OrderBook \<Rightarrow> nat \<Rightarrow> OrderId \<Rightarrow> (OrderBook \<times> OrderLocation option) option" where
  "remove_index_entry b index_slot order_id =
     do {
       (index, (bids, asks), location) \<leftarrow>
          oi_remove_at (ob_LEVELS b) (ob_ORDERS b) (ob_index b) index_slot order_id move_order (ob_bids b, ob_asks b);
       Some (b\<lparr>ob_index := index, ob_bids := bids, ob_asks := asks\<rparr>, location)
     }"

text \<open>Dropping a level that has emptied: \<open>levels[i] = None\<close> and \<open>LevelIndex::remove\<close>.\<close>

definition drop_level :: "OrderBook \<Rightarrow> Side \<Rightarrow> nat \<Rightarrow> PriceTicks \<Rightarrow> OrderBook option" where
  "drop_level b side level_index price =
     do {
       r \<leftarrow> lindex_remove (side_index b side) price (descending side);
       Some (let b' = put_level b side level_index None in
             case r of None \<Rightarrow> b' | Some (ix, _) \<Rightarrow> set_side_index b' side ix)
     }"

definition remove_filled_order :: "OrderBook \<Rightarrow> OrderLocation \<Rightarrow> OrderId \<Rightarrow> nat \<Rightarrow> OrderBook option" where
  "remove_filled_order b location order_id index_slot =
     do {
       (b, _) \<leftarrow> remove_index_entry b index_slot order_id;
       level \<leftarrow> level_at b (ol_side location) (ol_level_index location);
       (level, _) \<leftarrow> unlink level (ol_slot location);
       (if pl_len level = 0
        then drop_level b (ol_side location) (ol_level_index location) (pl_price level)
        else Some (put_level b (ol_side location) (ol_level_index location) (Some level)))
     }"

definition rest_at_tail :: "OrderBook \<Rightarrow> Side \<Rightarrow> PriceTicks \<Rightarrow> RestingOrder \<Rightarrow> OrderBook option" where
  "rest_at_tail b side price resting =
     do {
       (b, level_index) \<leftarrow>
         (case lindex_find (side_index b side) price (descending side) of
            Some level_index \<Rightarrow> Some (b, level_index)
          | None \<Rightarrow>
              (case lindex_insert (side_index b side) price (descending side) of
                 Some (Some (ix, level_index)) \<Rightarrow>
                   if level_index < length (side_levels b side)
                   then Some (put_level (set_side_index b side ix) side level_index
                                (Some (level_new (ob_ORDERS b) price)), level_index)
                   else None
               | _ \<Rightarrow> None));
       level \<leftarrow> level_at b side level_index;
       (level, slot) \<leftarrow> push_tail level resting;
       (case oi_insert (ob_LEVELS b) (ob_ORDERS b) (ob_index b) (rst_id resting)
               \<lparr>ol_side = side, ol_level_index = level_index, ol_slot = slot\<rparr> of
          Err _ \<Rightarrow> None
        | Ok (index_slot, index) \<Rightarrow>
            do {
              live \<leftarrow> get_live level slot;
              Some ((put_level b side level_index
                      (Some (put_live level slot (live\<lparr>rst_index_slot := index_slot\<rparr>))))\<lparr>ob_index := index\<rparr>)
            })
     }"

definition resting_order :: "OrderId \<Rightarrow> AccountId \<Rightarrow> Quantity \<Rightarrow> SequenceNumber \<Rightarrow> RestingOrder" where
  "resting_order order_id account_id quantity sequence =
     \<lparr>rst_id = order_id, rst_account_id = account_id, rst_index_slot = 0, rst_quantity = quantity,
      rst_sequence = sequence, rst_prev = NIL, rst_next = NIL\<rparr>"

definition rest :: "OrderBook \<Rightarrow> NewOrder \<Rightarrow> Quantity \<Rightarrow> OrderBook option" where
  "rest b order quantity =
     rest_at_tail b (no_side order) (no_price order)
       (resting_order (no_order_id order) (no_account_id order) quantity (no_sequence order))"

section \<open>Submission\<close>

definition validate_order :: "OrderBook \<Rightarrow> NewOrder \<Rightarrow> (Side, RejectReason) result" where
  "validate_order b order =
     (if no_instrument_id order \<noteq> ob_instrument b then Err InvalidInstrument
      else if no_price order \<le> 0 then Err InvalidPrice
      else if no_quantity order = 0 then Err InvalidQuantity
      else if contains_order b (no_order_id order) then Err DuplicateOrderId
      else let maker_side = (case no_side order of Buy \<Rightarrow> Sell | Sell \<Rightarrow> Buy) in
        if no_time_in_force order = PostOnly then
          (case best_entry b maker_side of
             Some (best_price, _) \<Rightarrow>
               if crosses (no_side order) best_price (no_price order) then Err PostOnlyWouldTrade else Ok maker_side
           | None \<Rightarrow> Ok maker_side)
        else Ok maker_side)"

definition fill_report :: "NewOrder \<Rightarrow> OrderId \<Rightarrow> PriceTicks \<Rightarrow> Quantity \<Rightarrow> ExecutionReport" where
  "fill_report order maker_id price quantity =
     \<lparr>er_maker_order_id = maker_id, er_taker_order_id = no_order_id order,
      er_instrument_id = no_instrument_id order, er_price = price, er_quantity = quantity,
      er_sequence = no_sequence order\<rparr>"

definition try_single_fill ::
  "OrderBook \<Rightarrow> NewOrder \<Rightarrow> Side \<Rightarrow> ReportBuffer
     \<Rightarrow> ((OrderBook \<times> ReportBuffer \<times> MatchSummary) option, RejectReason) result option" where
  "try_single_fill b order maker_side reports =
     (case best_entry b maker_side of
        None \<Rightarrow> Some (Ok None)
      | Some (price, level_index) \<Rightarrow>
          if \<not> crosses (no_side order) price (no_price order) then Some (Ok None)
          else (case nth_opt (side_levels b maker_side) level_index of
            None \<Rightarrow> None
          | Some None \<Rightarrow> Some (Ok None)
          | Some (Some level) \<Rightarrow>
              let slot = pl_head level in
              (case get_live level slot of
                 None \<Rightarrow> Some (Ok None)
               | Some maker \<Rightarrow>
                   if rst_quantity maker < no_quantity order then Some (Ok None)
                   else (case reports_push reports (fill_report order (rst_id maker) price (no_quantity order)) of
                     Err e \<Rightarrow> Some (Err e)
                   | Ok reports' \<Rightarrow>
                       do {
                         b' \<leftarrow>
                           (if rst_quantity maker = no_quantity order
                            then remove_filled_order b
                                   \<lparr>ol_side = maker_side, ol_level_index = level_index, ol_slot = slot\<rparr>
                                   (rst_id maker) (rst_index_slot maker)
                            else Some (put_level b maker_side level_index
                                   (Some ((put_live level slot
                                             (maker\<lparr>rst_quantity := rst_quantity maker - no_quantity order\<rparr>))
                                          \<lparr>pl_aggregate_quantity := pl_aggregate_quantity level - no_quantity order\<rparr>))));
                         Some (Ok (Some (b', reports',
                           \<lparr>ms_state = Filled, ms_filled_quantity = no_quantity order, ms_resting_quantity = 0,
                            ms_discarded_quantity = 0, ms_report_count = 1\<rparr>)))
                       }))))"

fun plan_level ::
  "nat \<Rightarrow> OrderSlot list \<Rightarrow> nat \<Rightarrow> PriceTicks \<Rightarrow> nat \<Rightarrow> MatchPlan \<Rightarrow> nat \<Rightarrow> (MatchPlan \<times> nat, RejectReason) result option" where
  "plan_level 0 slots level_index price cursor plan remaining = None"
| "plan_level (Suc fuel) slots level_index price cursor plan remaining =
     (if cursor = NIL \<or> remaining = 0 then Some (Ok (plan, remaining))
      else case nth_opt slots cursor of
        Some (OrdLive maker) \<Rightarrow>
          let traded = min remaining (rst_quantity maker) in
          (case push_fill plan \<lparr>fe_level_index = level_index, fe_slot = cursor, fe_order_id = rst_id maker,
                                fe_price = price, fe_quantity = traded\<rparr> of
             Err e \<Rightarrow> Some (Err e)
           | Ok plan' \<Rightarrow> plan_level fuel slots level_index price (rst_next maker) plan' (remaining - traded))
      | _ \<Rightarrow> None)"

fun plan_levels ::
  "OrderBook \<Rightarrow> NewOrder \<Rightarrow> Side \<Rightarrow> (PriceTicks \<times> nat) list \<Rightarrow> MatchPlan \<Rightarrow> nat
     \<Rightarrow> (MatchPlan \<times> nat, RejectReason) result option" where
  "plan_levels b order maker_side [] plan remaining = Some (Ok (plan, remaining))"
| "plan_levels b order maker_side ((price, level_index) # entries) plan remaining =
     (if remaining = 0 then Some (Ok (plan, remaining))
      else if \<not> crosses (no_side order) price (no_price order) then Some (Ok (plan, remaining))
      else do {
        level \<leftarrow> level_at b maker_side level_index;
        r \<leftarrow> plan_level (length (pl_slots level) + 1) (pl_slots level) level_index price (pl_head level) plan remaining;
        (case r of
           Err e \<Rightarrow> Some (Err e)
         | Ok (plan', remaining') \<Rightarrow> plan_levels b order maker_side entries plan' remaining')
      })"

text \<open>The resting-capacity preflight of \<open>build_plan\<close>.\<close>

definition rest_preflight :: "OrderBook \<Rightarrow> NewOrder \<Rightarrow> (unit, RejectReason) result option" where
  "rest_preflight b order =
     (case lindex_find (side_index b (no_side order)) (no_price order) (descending (no_side order)) of
        Some level_index \<Rightarrow>
          do {
            level \<leftarrow> level_at b (no_side order) level_index;
            Some (if pl_len level = ob_ORDERS b then Err PriceLevelOrderCapacity else Ok ())
          }
      | None \<Rightarrow>
          Some (if lindex_is_full (side_index b (no_side order)) then Err PriceLevelCapacity else Ok ()))"

definition build_plan ::
  "OrderBook \<Rightarrow> NewOrder \<Rightarrow> Side \<Rightarrow> nat \<Rightarrow> nat \<Rightarrow> (MatchPlan, RejectReason) result option" where
  "build_plan b order maker_side REPORTS report_capacity =
     do {
       r \<leftarrow> plan_levels b order maker_side (lindex_iter (side_index b maker_side))
              (plan_new REPORTS maker_side report_capacity) (no_quantity order);
       (case r of
          Err e \<Rightarrow> Some (Err e)
        | Ok (plan, remaining) \<Rightarrow>
            (case no_time_in_force order of
               Fok \<Rightarrow> Some (if remaining > 0 then Err InsufficientLiquidity
                            else Ok (plan\<lparr>mp_resting_quantity := remaining, mp_discarded := 0\<rparr>))
             | Ioc \<Rightarrow> Some (Ok (plan\<lparr>mp_resting_quantity := 0, mp_discarded := remaining\<rparr>))
             | _ \<Rightarrow>
                 if remaining > 0 then
                   do {
                     c \<leftarrow> rest_preflight b order;
                     Some (and_then c (\<lambda>_. Ok (plan\<lparr>mp_resting_quantity := remaining, mp_discarded := 0\<rparr>)))
                   }
                 else Some (Ok (plan\<lparr>mp_resting_quantity := remaining, mp_discarded := 0\<rparr>))))
     }"

definition apply_fill ::
  "NewOrder \<Rightarrow> Side \<Rightarrow> FillEntry \<Rightarrow> OrderBook \<times> ReportBuffer \<Rightarrow> (OrderBook \<times> ReportBuffer) option" where
  "apply_fill order maker_side fill s =
     (let (b, reports) = s in
      do {
        level \<leftarrow> level_at b maker_side (fe_level_index fill);
        maker \<leftarrow> get_live level (fe_slot fill);
        (case reports_push reports (fill_report order (fe_order_id fill) (fe_price fill) (fe_quantity fill)) of
           Err _ \<Rightarrow> None
         | Ok reports' \<Rightarrow>
             do {
               b' \<leftarrow>
                 (if rst_quantity maker = fe_quantity fill
                  then remove_filled_order b
                         \<lparr>ol_side = maker_side, ol_level_index = fe_level_index fill, ol_slot = fe_slot fill\<rparr>
                         (fe_order_id fill) (rst_index_slot maker)
                  else do {
                    level' \<leftarrow> reduce_quantity level (fe_slot fill) (fe_quantity fill);
                    Some (put_level b maker_side (fe_level_index fill) (Some level'))
                  });
               Some (b', reports')
             })
      })"

fun apply_fills ::
  "NewOrder \<Rightarrow> Side \<Rightarrow> FillEntry list \<Rightarrow> OrderBook \<times> ReportBuffer \<Rightarrow> (OrderBook \<times> ReportBuffer) option" where
  "apply_fills order maker_side [] s = Some s"
| "apply_fills order maker_side (fill # fills) s =
     Option.bind (apply_fill order maker_side fill s) (apply_fills order maker_side fills)"

definition apply_plan ::
  "OrderBook \<Rightarrow> NewOrder \<Rightarrow> MatchPlan \<Rightarrow> ReportBuffer \<Rightarrow> (OrderBook \<times> ReportBuffer) option" where
  "apply_plan b order plan reports =
     do {
       (b, reports) \<leftarrow> apply_fills order (mp_maker_side plan) (mp_fills plan) (b, reports);
       (if mp_resting_quantity plan > 0
        then do { b' \<leftarrow> rest b order (mp_resting_quantity plan); Some (b', reports) }
        else Some (b, reports))
     }"

definition submit_plan ::
  "OrderBook \<Rightarrow> NewOrder \<Rightarrow> Side \<Rightarrow> ReportBuffer
     \<Rightarrow> (OrderBook \<times> ReportBuffer \<times> MatchSummary, RejectReason) result option" where
  "submit_plan b order maker_side reports =
     (let initial_report_count = rb_len reports in
      do {
        p \<leftarrow> build_plan b order maker_side (length (rb_entries reports)) (reports_remaining_capacity reports);
        (case p of
           Err e \<Rightarrow> Some (Err e)
         | Ok plan \<Rightarrow>
             do {
               (b', reports') \<leftarrow> apply_plan b order plan reports;
               Some (let filled = no_quantity order - mp_resting_quantity plan - mp_discarded plan in
                 Ok (b', reports',
                   \<lparr>ms_state = (if filled = no_quantity order then Filled
                                else if filled = 0 then Accepted else PartiallyFilled),
                    ms_filled_quantity = filled, ms_resting_quantity = mp_resting_quantity plan,
                    ms_discarded_quantity = mp_discarded plan,
                    ms_report_count = rb_len reports' - initial_report_count\<rparr>))
             })
      })"

definition submit ::
  "OrderBook \<Rightarrow> NewOrder \<Rightarrow> ReportBuffer
     \<Rightarrow> (OrderBook \<times> ReportBuffer \<times> MatchSummary, RejectReason) result option" where
  "submit b order reports =
     (case validate_order b order of
        Err e \<Rightarrow> Some (Err e)
      | Ok maker_side \<Rightarrow>
          do {
            r \<leftarrow> try_single_fill b order maker_side reports;
            (case r of
               Err e \<Rightarrow> Some (Err e)
             | Ok (Some done1) \<Rightarrow> Some (Ok done1)
             | Ok None \<Rightarrow> submit_plan b order maker_side reports)
          })"

section \<open>Cancel and replace\<close>

definition cancel :: "OrderBook \<Rightarrow> CancelOrder \<Rightarrow> (OrderBook \<times> CancelledOrder, RejectReason) result option" where
  "cancel b c =
     (if co_instrument_id c \<noteq> ob_instrument b then Some (Err InvalidInstrument)
      else case locate b (co_order_id c) of
        None \<Rightarrow> Some (Err UnknownOrder)
      | Some (location, owner) \<Rightarrow>
          if owner \<noteq> co_account_id c then Some (Err NotOrderOwner)
          else do {
            level \<leftarrow> level_at b (ol_side location) (ol_level_index location);
            (level, removed) \<leftarrow> unlink level (ol_slot location);
            b \<leftarrow> (if pl_len level = 0
                 then drop_level b (ol_side location) (ol_level_index location) (pl_price level)
                 else Some (put_level b (ol_side location) (ol_level_index location) (Some level)));
            (b, _) \<leftarrow> remove_index_entry b (rst_index_slot removed) (co_order_id c);
            Some (Ok (b, \<lparr>cn_order_id = rst_id removed, cn_account_id = rst_account_id removed,
                          cn_quantity = rst_quantity removed\<rparr>))
          })"

text \<open>The crossing and capacity preflight of a replace that loses priority.\<close>

definition replace_preflight ::
  "OrderBook \<Rightarrow> ReplaceOrder \<Rightarrow> OrderLocation \<Rightarrow> PriceTicks \<Rightarrow> (unit, RejectReason) result option" where
  "replace_preflight b r location old_price =
     (let side = ol_side location; opposing = (case side of Buy \<Rightarrow> Sell | Sell \<Rightarrow> Buy);
          crossing = (ro_price r \<noteq> old_price \<and>
            (case best_entry b opposing of
               None \<Rightarrow> False
             | Some (best_price, _) \<Rightarrow>
                 (case side of Buy \<Rightarrow> ro_price r \<ge> best_price | Sell \<Rightarrow> ro_price r \<le> best_price))) in
      if crossing then Some (Err ReplaceWouldCross)
      else case lindex_find (side_index b side) (ro_price r) (descending side) of
        Some level_index \<Rightarrow>
          do {
            dest \<leftarrow> level_at b side level_index;
            (let same_level = (level_index = ol_level_index location \<and> ro_price r = old_price) in
             Some (if pl_len dest = ob_ORDERS b \<and> \<not> same_level then Err PriceLevelOrderCapacity else Ok ()))
          }
      | None \<Rightarrow>
          do {
            source \<leftarrow> level_at b side (ol_level_index location);
            (let free_levels = ob_LEVELS b - length (lindex_iter (side_index b side)) in
             Some (if free_levels = 0 \<and> pl_len source \<noteq> 1 then Err PriceLevelCapacity else Ok ()))
          })"

definition replaced :: "ReplaceOrder \<Rightarrow> Quantity \<Rightarrow> bool \<Rightarrow> ReplacedOrder" where
  "replaced r old_quantity priority_lost =
     \<lparr>rp_order_id = ro_order_id r, rp_account_id = ro_account_id r, rp_old_quantity = old_quantity,
      rp_new_quantity = ro_quantity r, rp_price = ro_price r, rp_priority_lost = priority_lost\<rparr>"

definition replace :: "OrderBook \<Rightarrow> ReplaceOrder \<Rightarrow> (OrderBook \<times> ReplacedOrder, RejectReason) result option" where
  "replace b r =
     (if ro_instrument_id r \<noteq> ob_instrument b then Some (Err InvalidInstrument)
      else case locate b (ro_order_id r) of
        None \<Rightarrow> Some (Err UnknownOrder)
      | Some (location, owner) \<Rightarrow>
          if owner \<noteq> ro_account_id r then Some (Err NotOrderOwner)
          else if ro_price r \<le> 0 then Some (Err InvalidPrice)
          else if ro_quantity r = 0 then Some (Err InvalidQuantity)
          else do {
            level \<leftarrow> level_at b (ol_side location) (ol_level_index location);
            old \<leftarrow> get_live level (ol_slot location);
            (if ro_price r = pl_price level \<and> ro_quantity r < rst_quantity old then
               do {
                 level' \<leftarrow> reduce_quantity level (ol_slot location) (rst_quantity old - ro_quantity r);
                 Some (Ok (put_level b (ol_side location) (ol_level_index location) (Some level'),
                           replaced r (rst_quantity old) False))
               }
             else do {
               c \<leftarrow> replace_preflight b r location (pl_price level);
               (case c of
                  Err e \<Rightarrow> Some (Err e)
                | Ok _ \<Rightarrow>
                    do {
                      (level', removed) \<leftarrow> unlink level (ol_slot location);
                      b \<leftarrow> (if pl_len level' = 0
                           then drop_level b (ol_side location) (ol_level_index location) (pl_price level)
                           else Some (put_level b (ol_side location) (ol_level_index location) (Some level')));
                      (b, _) \<leftarrow> remove_index_entry b (rst_index_slot removed) (ro_order_id r);
                      b \<leftarrow> rest_at_tail b (ol_side location) (ro_price r)
                            (resting_order (ro_order_id r) (ro_account_id r) (ro_quantity r) (ro_sequence r));
                      Some (Ok (b, replaced r (rst_quantity old) True))
                    })
             })
          })"

end
