(* ===== verification/BookInv.thy ===== *)
theory BookInv
  imports Book
begin

text \<open>
  The invariant of the order book and its abstraction to price ladders. A side is a sorted list of
  non-empty price levels; the index mirrors every resting order by a handle stored in the order. The
  lemmas describe the three primitive changes of a side (replace a level, drop a level, add a level),
  removal of an order together with its index entry, and resting at the tail of a level.
\<close>

section \<open>Abstraction\<close>

record Order =
  o_id :: OrderId
  o_account :: AccountId
  o_quantity :: Quantity
  o_sequence :: SequenceNumber

type_synonym ladder = "(PriceTicks \<times> Order list) list"

definition view :: "RestingOrder \<Rightarrow> Order" where
  "view r = \<lparr>o_id = rst_id r, o_account = rst_account_id r, o_quantity = rst_quantity r, o_sequence = rst_sequence r\<rparr>"

definition level_queue :: "PriceLevel \<Rightarrow> Order list" where
  "level_queue L = (case for_each_live L of None \<Rightarrow> [] | Some rs \<Rightarrow> map view rs)"

definition level_of :: "PriceLevel option list \<Rightarrow> nat \<Rightarrow> PriceLevel option" where
  "level_of ls i = Option.bind (nth_opt ls i) (\<lambda>x. x)"

definition queue_at :: "PriceLevel option list \<Rightarrow> nat \<Rightarrow> Order list" where
  "queue_at ls i = (case level_of ls i of None \<Rightarrow> [] | Some L \<Rightarrow> level_queue L)"

definition ladder_of :: "PriceLevel option list \<Rightarrow> (PriceTicks \<times> nat) list \<Rightarrow> ladder" where
  "ladder_of ls es = map (\<lambda>(p, i). (p, queue_at ls i)) es"

definition side_abs :: "PriceLevel option list \<Rightarrow> LevelIndex \<Rightarrow> ladder" where
  "side_abs ls ix = ladder_of ls (lindex_iter ix)"

definition book_side :: "OrderBook \<Rightarrow> Side \<Rightarrow> ladder" where
  "book_side b side = side_abs (side_levels b side) (side_index b side)"

section \<open>Invariants\<close>

definition level_ok :: "nat \<Rightarrow> PriceTicks \<Rightarrow> PriceLevel \<Rightarrow> nat list \<Rightarrow> bool" where
  "level_ok ORDERS p L xs \<longleftrightarrow> pl_price L = p \<and> length (pl_slots L) = ORDERS \<and> level_inv L xs \<and> xs \<noteq> [] \<and>
     (\<forall>i r. content L i = Some r \<longrightarrow> 0 < rst_quantity r)"

definition side_inv :: "nat \<Rightarrow> nat \<Rightarrow> bool \<Rightarrow> PriceLevel option list \<Rightarrow> LevelIndex \<Rightarrow> bool" where
  "side_inv LEVELS ORDERS d ls ix \<longleftrightarrow>
     length ls = LEVELS \<and> lindex_inv LEVELS d ix \<and>
     (\<forall>p i. (p, i) \<in> set (lindex_iter ix) \<longrightarrow> 0 < p \<and> (\<exists>L xs. ls ! i = Some L \<and> level_ok ORDERS p L xs)) \<and>
     (\<forall>i < LEVELS. i \<notin> snd ` set (lindex_iter ix) \<longrightarrow> ls ! i = None)"

type_synonym levels_pair = "PriceLevel option list \<times> PriceLevel option list"

definition pair_side :: "levels_pair \<Rightarrow> Side \<Rightarrow> PriceLevel option list" where
  "pair_side st side = (case side of Buy \<Rightarrow> fst st | Sell \<Rightarrow> snd st)"

definition slot_content :: "levels_pair \<Rightarrow> OrderLocation \<Rightarrow> RestingOrder option" where
  "slot_content st l = Option.bind (level_of (pair_side st (ol_side l)) (ol_level_index l)) (\<lambda>L. content L (ol_slot l))"

text \<open>The order with id \<open>k\<close> rests at the location packed as \<open>v\<close> and stores handle \<open>i\<close>.\<close>

definition handle :: "nat \<Rightarrow> nat \<Rightarrow> levels_pair \<Rightarrow> nat \<Rightarrow> nat \<Rightarrow> nat \<Rightarrow> bool" where
  "handle LEVELS ORDERS st k v i \<longleftrightarrow> (\<exists>l r. loc_ok LEVELS ORDERS l \<and> v = loc_code ORDERS l \<and>
     slot_content st l = Some r \<and> rst_id r = k \<and> rst_index_slot r = i)"

abbreviation pair_of :: "OrderBook \<Rightarrow> levels_pair" where
  "pair_of b \<equiv> (ob_bids b, ob_asks b)"

definition index_inv :: "nat \<Rightarrow> nat \<Rightarrow> order_index \<Rightarrow> levels_pair \<Rightarrow> bool" where
  "index_inv LEVELS ORDERS ix st \<longleftrightarrow>
     length ix = LEVELS * ORDERS * ORDER_INDEX_PLANES \<and> probe_inv (oi_probe ix) \<and>
     (\<forall>i k v. slot_holds (oi_probe ix) i k (Suc v) \<longleftrightarrow> handle LEVELS ORDERS st k v i)"

definition uncrossed :: "OrderBook \<Rightarrow> bool" where
  "uncrossed b \<longleftrightarrow> (\<forall>p \<in> fst ` set (book_side b Buy). \<forall>q \<in> fst ` set (book_side b Sell). p < q)"

definition book_wf :: "OrderBook \<Rightarrow> bool" where
  "book_wf b \<longleftrightarrow>
     (\<forall>side. side_inv (ob_LEVELS b) (ob_ORDERS b) (descending side) (side_levels b side) (side_index b side)) \<and>
     index_inv (ob_LEVELS b) (ob_ORDERS b) (ob_index b) (pair_of b)"

definition book_inv :: "OrderBook \<Rightarrow> bool" where
  "book_inv b \<longleftrightarrow> book_wf b \<and> uncrossed b"

section \<open>Sides\<close>

lemma view_detach [simp]: "view (detach r) = view r"
  by (simp add: view_def)

lemma level_queue_eq:
  assumes "level_inv L xs"
  shows "level_queue L = map (\<lambda>i. view (the (content L i))) xs"
proof -
  have "view (live_of (pl_slots L ! i)) = view (the (content L i))" if "i \<in> set xs" for i
    using that assms by (cases "pl_slots L ! i") (auto simp: level_inv_def content_def')
  then show ?thesis using for_each_live_eq [OF assms] by (simp add: level_queue_def)
qed

lemma level_queue_length: "level_inv L xs \<Longrightarrow> length (level_queue L) = pl_len L"
  using level_queue_eq [of L xs] by (simp add: level_inv_def)

lemma side_level:
  assumes "side_inv LEVELS ORDERS d ls ix" and "(p, i) \<in> set (lindex_iter ix)"
  shows "\<exists>L xs. level_of ls i = Some L \<and> ls ! i = Some L \<and> i < length ls \<and> level_ok ORDERS p L xs"
proof -
  from assms obtain L xs where L: "ls ! i = Some L" "level_ok ORDERS p L xs" unfolding side_inv_def by blast
  have "i \<in> set (map snd (lindex_iter ix) @ lindex_free ix)" using assms(2) by (auto intro: rev_image_eqI)
  with assms(1) have "i < length ls" unfolding side_inv_def lindex_inv_def by auto
  with L show ?thesis by (auto simp: level_of_def nth_opt_def)
qed

lemma side_other_level:
  assumes "side_inv LEVELS ORDERS d ls ix" and "level_of ls i = Some L"
  shows "\<exists>p. (p, i) \<in> set (lindex_iter ix)"
proof -
  have "i < length ls" "ls ! i = Some L" using assms(2) by (auto simp: level_of_def nth_opt_def split: if_splits)
  then have "i \<in> snd ` set (lindex_iter ix)" using assms(1) unfolding side_inv_def by (metis option.distinct(1))
  then show ?thesis by auto
qed

lemma level_of_update: "level_of (ls[i := x]) j = (if j = i \<and> i < length ls then x else level_of ls j)"
  by (auto simp: level_of_def nth_opt_def)

lemma queue_at_update: "queue_at (ls[i := x]) j =
    (if j = i \<and> i < length ls then (case x of None \<Rightarrow> [] | Some L \<Rightarrow> level_queue L) else queue_at ls j)"
  by (simp add: queue_at_def level_of_update)

lemma ladder_of_simps [simp]:
  "ladder_of ls [] = []" "ladder_of ls (e # es) = (fst e, queue_at ls (snd e)) # ladder_of ls es"
  "ladder_of ls (es @ es') = ladder_of ls es @ ladder_of ls es'" "length (ladder_of ls es) = length es"
  by (auto simp: ladder_of_def split: prod.splits)

lemma ladder_of_update:
  assumes "i \<notin> snd ` set es"
  shows "ladder_of (ls[i := x]) es = ladder_of ls es"
  unfolding ladder_of_def using assms by (intro map_cong refl) (auto simp: queue_at_update rev_image_eqI)

lemma side_put_level:
  assumes inv: "side_inv LEVELS ORDERS d ls ix" and es: "lindex_iter ix = A @ (p, i) # B"
    and ok: "level_ok ORDERS p L xs"
  shows "side_inv LEVELS ORDERS d (ls[i := Some L]) ix"
    and "side_abs (ls[i := Some L]) ix = ladder_of ls A @ (p, level_queue L) #
      ladder_of ls B"
proof -
  have li: "lindex_inv LEVELS d ix" using inv by (simp add: side_inv_def)
  have dist: "distinct (map snd (lindex_iter ix))" using li by (simp add: lindex_inv_def)
  have i: "i < length ls" using side_level [OF inv, of p i] es by auto
  have AB: "i \<notin> snd ` set A" "i \<notin> snd ` set B" using dist unfolding es by auto
  have fst_eq: "q = p" if "(q, i) \<in> set (lindex_iter ix)" for q
    using that AB unfolding es by (auto simp: rev_image_eqI)
  show "side_inv LEVELS ORDERS d (ls[i := Some L]) ix"
    unfolding side_inv_def
  proof (intro conjI allI impI)
    fix q j
    assume m: "(q, j) \<in> set (lindex_iter ix)"
    with inv show "0 < q" unfolding side_inv_def by blast
    show "\<exists>L' ys. ls[i := Some L] ! j = Some L' \<and> level_ok ORDERS q L' ys"
    proof (cases "j = i")
      case True
      with m fst_eq ok i show ?thesis by auto
    next
      case False
      with m inv show ?thesis unfolding side_inv_def by auto
    qed
  next
    fix j
    assume "j < LEVELS" "j \<notin> snd ` set (lindex_iter ix)"
    with inv es show "ls[i := Some L] ! j = None" unfolding side_inv_def by auto
  qed (use inv in \<open>auto simp: side_inv_def\<close>)
  show "side_abs (ls[i := Some L]) ix = ladder_of ls A @ (p, level_queue L) #
      ladder_of ls B"
    unfolding side_abs_def es using i by (simp add: ladder_of_update AB queue_at_update)
qed

lemma side_drop_level:
  assumes inv: "side_inv LEVELS ORDERS d ls ix" and es: "lindex_iter ix = A @ (p, i) # B"
  shows "\<exists>ix'. lindex_remove ix p d = Some (Some (ix', i)) \<and> side_inv LEVELS ORDERS d (ls[i := None]) ix' \<and>
    side_abs (ls[i := None]) ix' = ladder_of ls A @ ladder_of ls B"
proof -
  have li: "lindex_inv LEVELS d ix" using inv by (simp add: side_inv_def)
  from lindex_remove_correct [OF li es] obtain ix' where
    ix': "lindex_remove ix p d = Some (Some (ix', i))" "lindex_inv LEVELS d ix'" "lindex_iter ix' = A @ B" by blast
  have dist: "distinct (map snd (lindex_iter ix))" using li by (simp add: lindex_inv_def)
  have i: "i < length ls" using side_level [OF inv, of p i] es by auto
  have AB: "i \<notin> snd ` set A" "i \<notin> snd ` set B" using dist unfolding es by auto
  have "side_inv LEVELS ORDERS d (ls[i := None]) ix'"
    unfolding side_inv_def
  proof (intro conjI allI impI)
    fix q j
    assume "(q, j) \<in> set (lindex_iter ix')"
    then have m: "(q, j) \<in> set (lindex_iter ix)" "j \<noteq> i" using AB unfolding ix' es by (auto simp: rev_image_eqI)
    with inv show "0 < q" "\<exists>L ys. ls[i := None] ! j = Some L \<and> level_ok ORDERS q L ys"
      unfolding side_inv_def by auto
  next
    fix j
    assume "j < LEVELS" "j \<notin> snd ` set (lindex_iter ix')"
    then show "ls[i := None] ! j = None"
      using inv i unfolding side_inv_def ix' es by (cases "j = i") auto
  qed (use inv ix' in \<open>auto simp: side_inv_def\<close>)
  moreover have "side_abs (ls[i := None]) ix' = ladder_of ls A @ ladder_of ls B"
    unfolding side_abs_def ix' by (simp add: ladder_of_update AB)
  ultimately show ?thesis using ix' by blast
qed

lemma side_add_level:
  assumes inv: "side_inv LEVELS ORDERS d ls ix" and new: "p \<notin> fst ` set (lindex_iter ix)"
    and room: "\<not> lindex_is_full ix" and p: "0 < p"
  shows "\<exists>ix' i. lindex_insert ix p d = Some (Some (ix', i)) \<and> i < length ls \<and> ls ! i = None \<and>
    (\<forall>L xs. level_ok ORDERS p L xs \<longrightarrow> side_inv LEVELS ORDERS d (ls[i := Some L]) ix' \<and>
      side_abs (ls[i := Some L]) ix' = ladder_of ls (lower d p (lindex_iter ix)) @
        (p, level_queue L) # ladder_of ls (upper d p (lindex_iter ix)))"
proof -
  let ?A = "lower d p (lindex_iter ix)" and ?B = "upper d p (lindex_iter ix)"
  have li: "lindex_inv LEVELS d ix" and len: "length ls = LEVELS" using inv by (simp_all add: side_inv_def)
  from lindex_insert_correct [OF li new] room obtain ix' i where
    ix': "lindex_insert ix p d = Some (Some (ix', i))" "lindex_inv LEVELS d ix'" "i < LEVELS"
      "i \<notin> snd ` set (lindex_iter ix)" "lindex_iter ix' = ?A @ (p, i) # ?B" by auto
  have es: "set (lindex_iter ix) = set ?A \<union> set ?B" by (metis lower_upper set_append)
  have AB: "i \<notin> snd ` set ?A" "i \<notin> snd ` set ?B" using ix'(4) unfolding es by auto
  have none: "ls ! i = None" using inv ix'(3,4) unfolding side_inv_def by blast
  have "side_inv LEVELS ORDERS d (ls[i := Some L]) ix'" if ok: "level_ok ORDERS p L xs" for L xs
    unfolding side_inv_def
  proof (intro conjI allI impI)
    fix q j
    assume m: "(q, j) \<in> set (lindex_iter ix')"
    show "0 < q" "\<exists>L' ys. ls[i := Some L] ! j = Some L' \<and> level_ok ORDERS q L' ys"
    proof -
      have "snd (q, j) \<noteq> i" if "(q, j) \<in> set (lindex_iter ix)" using ix'(4) that by blast
      then consider "q = p" "j = i" | "(q, j) \<in> set (lindex_iter ix)" "j \<noteq> i"
        using m unfolding ix'(5) es by auto
      then have "0 < q \<and> (\<exists>L' ys. ls[i := Some L] ! j = Some L' \<and> level_ok ORDERS q L' ys)"
      proof cases
        case 1
        with p ok ix'(3) len show ?thesis by auto
      next
        case 2
        with inv show ?thesis unfolding side_inv_def by auto
      qed
      then show "0 < q" "\<exists>L' ys. ls[i := Some L] ! j = Some L' \<and> level_ok ORDERS q L' ys" by auto
    qed
  next
    fix j
    assume "j < LEVELS" "j \<notin> snd ` set (lindex_iter ix')"
    then show "ls[i := Some L] ! j = None" using inv unfolding side_inv_def ix'(5) es by auto
  qed (use inv ix' in \<open>auto simp: side_inv_def\<close>)
  moreover have "side_abs (ls[i := Some L]) ix' = ladder_of ls ?A @
      (p, level_queue L) # ladder_of ls ?B" for L
    unfolding side_abs_def ix'(5) using ix'(3) len by (simp add: ladder_of_update AB queue_at_update)
  ultimately show ?thesis using ix' none len by blast
qed

end
