(* ===== verification/BookIndex.thy ===== *)
theory BookIndex
  imports BookInv
begin

text \<open>
  How the order index and the handles stored in the resting orders stay in step. Deleting an index
  entry moves other entries and rewrites their handles through the closure of
  \<open>remove_index_entry\<close>; \<open>unhandled\<close> forgets handles, so that both level arrays are unchanged under
  it. Then the effect of inserting and deleting an order together with its entry.
\<close>

section \<open>Levels up to handles\<close>

fun unhandled_slot :: "OrderSlot \<Rightarrow> OrderSlot" where
  "unhandled_slot (OrdFree n) = OrdFree n"
| "unhandled_slot (OrdLive r) = OrdLive (r\<lparr>rst_index_slot := 0\<rparr>)"

definition unhandled_level :: "PriceLevel \<Rightarrow> PriceLevel" where
  "unhandled_level L = L\<lparr>pl_slots := map unhandled_slot (pl_slots L)\<rparr>"

definition unhandled :: "PriceLevel option list \<Rightarrow> PriceLevel option list" where
  "unhandled ls = map (map_option unhandled_level) ls"

definition unhandled_pair :: "levels_pair \<Rightarrow> levels_pair" where
  "unhandled_pair st = (unhandled (fst st), unhandled (snd st))"

lemma unhandled_slot_simps [simp]:
  "is_live (unhandled_slot s) = is_live s" "slot_next (unhandled_slot s) = slot_next s"
  "slot_prev (unhandled_slot s) = slot_prev s" "slot_quantity (unhandled_slot s) = slot_quantity s"
  by (cases s; simp)+

lemma content_unhandled:
  "content (unhandled_level L) i = map_option (\<lambda>r. r\<lparr>rst_index_slot := 0\<rparr>) (content L i)"
  by (cases "i < length (pl_slots L)"; cases "pl_slots L ! i")
    (auto simp: content_def' unhandled_level_def detach_def)

lemma level_inv_unhandled [simp]: "level_inv (unhandled_level L) xs = level_inv L xs"
proof -
  let ?S = "pl_slots L" and ?T = "map unhandled_slot (pl_slots L)"
  have dll: "dll ?T p h ys t n = dll ?S p h ys t n" for p h ys t n
    by (induction ys arbitrary: p h) auto
  have free: "free_slots ?T h fl = free_slots ?S h fl" for h fl
  proof -
    have set: "{i. i < length ?T \<and> \<not> is_live (?T ! i)} = {i. i < length ?S \<and> \<not> is_live (?S ! i)}" by auto
    have "links (\<lambda>i. slot_next (?T ! i)) h fl = links (\<lambda>i. slot_next (?S ! i)) h fl"
      if "set fl = {i. i < length ?S \<and> \<not> is_live (?S ! i)}"
      by (rule links_cong) (use that in auto)
    then show ?thesis unfolding free_slots_def set by blast
  qed
  have live: "{i. i < length ?T \<and> is_live (?T ! i)} = {i. i < length ?S \<and> is_live (?S ! i)}" by auto
  have "sum_list (map (\<lambda>i. slot_quantity (?T ! i)) xs) = sum_list (map (\<lambda>i. slot_quantity (?S ! i)) xs)"
    if "set xs = {i. i < length ?S \<and> is_live (?S ! i)}"
    by (rule arg_cong [where f = sum_list], rule map_cong [OF refl]) (use that in auto)
  then show ?thesis unfolding level_inv_def unhandled_level_def using dll free live by auto
qed

lemma view_unhandled [simp]: "view (r\<lparr>rst_index_slot := i\<rparr>) = view r"
  by (simp add: view_def)

lemma level_ok_unhandled: "level_ok ORDERS p (unhandled_level L) xs \<longleftrightarrow> level_ok ORDERS p L xs"
proof -
  have "(\<forall>i r. content (unhandled_level L) i = Some r \<longrightarrow> 0 < rst_quantity r) \<longleftrightarrow>
      (\<forall>i r. content L i = Some r \<longrightarrow> 0 < rst_quantity r)"
  proof (intro iffI allI impI)
    fix i r
    assume a: "\<forall>i r. content (unhandled_level L) i = Some r \<longrightarrow> 0 < rst_quantity r" and "content L i = Some r"
    then have "content (unhandled_level L) i = Some (r\<lparr>rst_index_slot := 0\<rparr>)" by (simp add: content_unhandled)
    with a have "0 < rst_quantity (r\<lparr>rst_index_slot := 0\<rparr>)" by blast
    then show "0 < rst_quantity r" by simp
  next
    fix i r
    assume a: "\<forall>i r. content L i = Some r \<longrightarrow> 0 < rst_quantity r" and "content (unhandled_level L) i = Some r"
    then obtain r' where "content L i = Some r'" "r = r'\<lparr>rst_index_slot := 0\<rparr>" by (auto simp: content_unhandled)
    with a show "0 < rst_quantity r" by simp
  qed
  moreover have "pl_price (unhandled_level L) = pl_price L" "length (pl_slots (unhandled_level L)) = length (pl_slots L)"
    by (simp_all add: unhandled_level_def)
  ultimately show ?thesis unfolding level_ok_def by simp
qed

lemma level_queue_unhandled:
  assumes "level_inv L xs"
  shows "level_queue (unhandled_level L) = level_queue L"
proof -
  have "level_inv (unhandled_level L) xs" using assms by simp
  from level_queue_eq [OF this] level_queue_eq [OF assms] show ?thesis
    using level_inv_facts(4) [OF assms] by (auto simp: content_unhandled)
qed

lemma unhandled_length: "unhandled ls = unhandled ls' \<Longrightarrow> length ls = length ls'"
  unfolding unhandled_def by (metis length_map)

lemma unhandled_nth: "unhandled ls = unhandled ls' \<Longrightarrow> map_option unhandled_level (level_of ls i) = map_option unhandled_level (level_of ls' i)"
proof -
  have "map_option unhandled_level (level_of ls i) = level_of (unhandled ls) i" for ls
    by (auto simp: level_of_def nth_opt_def unhandled_def)
  then show "unhandled ls = unhandled ls' \<Longrightarrow> ?thesis" by metis
qed

lemma level_of_nth: "i < length ls \<Longrightarrow> level_of ls i = ls ! i"
  by (simp add: level_of_def nth_opt_def)

lemma side_inv_unhandled:
  assumes inv: "side_inv LEVELS ORDERS d ls ix" and eq: "unhandled ls' = unhandled ls"
  shows "side_inv LEVELS ORDERS d ls' ix" and "side_abs ls' ix = side_abs ls ix"
proof -
  have len: "length ls' = length ls" by (rule unhandled_length [OF eq])
  have lv: "map_option unhandled_level (ls' ! i) = map_option unhandled_level (ls ! i)" if "i < length ls" for i
    using unhandled_nth [OF eq, of i] that len by (simp add: level_of_nth)
  have level: "\<exists>L'. ls' ! i = Some L' \<and> level_of ls' i = Some L' \<and> unhandled_level L' = unhandled_level L"
    if "i < length ls" "ls ! i = Some L" for i L
    using lv [OF that(1)] that len by (auto simp: level_of_nth)
  show "side_inv LEVELS ORDERS d ls' ix"
    unfolding side_inv_def
  proof (intro conjI allI impI)
    fix p i
    assume m: "(p, i) \<in> set (lindex_iter ix)"
    with inv show "0 < p" unfolding side_inv_def by blast
    from side_level [OF inv m] obtain L xs where "ls ! i = Some L" "i < length ls" "level_ok ORDERS p L xs" by blast
    with level [of i L] show "\<exists>L xs. ls' ! i = Some L \<and> level_ok ORDERS p L xs" by (metis level_ok_unhandled)
  next
    fix i
    assume "i < LEVELS" "i \<notin> snd ` set (lindex_iter ix)"
    with inv have "ls ! i = None" "i < length ls" unfolding side_inv_def by auto
    with lv [of i] show "ls' ! i = None" by simp
  qed (use inv len in \<open>auto simp: side_inv_def\<close>)
  have "queue_at ls' i = queue_at ls i" if m: "(p, i) \<in> set (lindex_iter ix)" for p i
  proof -
    from side_level [OF inv m] obtain L xs where L: "ls ! i = Some L" "i < length ls" "level_ok ORDERS p L xs" by blast
    with level [of i L] obtain L' where L': "level_of ls' i = Some L'" "unhandled_level L' = unhandled_level L" by blast
    have "level_inv L xs" using L by (simp add: level_ok_def)
    moreover from this have "level_inv L' xs" using L'(2) level_inv_unhandled by metis
    ultimately have "level_queue L' = level_queue L" using level_queue_unhandled L'(2) by metis
    with L L' show ?thesis by (simp add: queue_at_def level_of_nth)
  qed
  then show "side_abs ls' ix = side_abs ls ix" unfolding side_abs_def ladder_of_def by auto
qed

lemma slot_content_unhandled:
  assumes "unhandled_pair st = unhandled_pair st'"
  shows "map_option (\<lambda>r. r\<lparr>rst_index_slot := 0\<rparr>) (slot_content st l) = map_option (\<lambda>r. r\<lparr>rst_index_slot := 0\<rparr>) (slot_content st' l)"
proof -
  have "unhandled (pair_side st (ol_side l)) = unhandled (pair_side st' (ol_side l))"
    using assms by (cases "ol_side l") (auto simp: unhandled_pair_def pair_side_def)
  note lv = unhandled_nth [OF this, of "ol_level_index l"]
  show ?thesis
  proof (cases "level_of (pair_side st (ol_side l)) (ol_level_index l)")
    case None
    with lv show ?thesis by (simp add: slot_content_def)
  next
    case (Some L)
    with lv obtain L' where L': "level_of (pair_side st' (ol_side l)) (ol_level_index l) = Some L'"
      "unhandled_level L = unhandled_level L'"
      by (cases "level_of (pair_side st' (ol_side l)) (ol_level_index l)") auto
    with Some show ?thesis using content_unhandled by (simp add: slot_content_def) metis
  qed
qed

section \<open>The closure\<close>

definition put_slot :: "levels_pair \<Rightarrow> OrderLocation \<Rightarrow> PriceLevel option \<Rightarrow> levels_pair" where
  "put_slot st l x = (case ol_side l of
     Buy \<Rightarrow> ((fst st)[ol_level_index l := x], snd st) | Sell \<Rightarrow> (fst st, (snd st)[ol_level_index l := x]))"

lemma pair_side_put: "pair_side (put_slot st l x) side =
    (if side = ol_side l then (pair_side st side)[ol_level_index l := x] else pair_side st side)"
  by (cases side; cases "ol_side l") (auto simp: put_slot_def pair_side_def)

lemma slot_content_put:
  assumes "ol_level_index l < length (pair_side st (ol_side l))"
  shows "slot_content (put_slot st l x) l' =
    (if ol_side l' = ol_side l \<and> ol_level_index l' = ol_level_index l
     then Option.bind x (\<lambda>L. content L (ol_slot l')) else slot_content st l')"
  using assms by (auto simp: slot_content_def pair_side_put level_of_update)

lemma move_order_at:
  assumes "slot_content st l = Some r" and "rst_id r = k"
  shows "\<exists>L rr. level_of (pair_side st (ol_side l)) (ol_level_index l) = Some L \<and> get_live L (ol_slot l) = Some rr \<and>
    detach rr = r \<and> ol_level_index l < length (pair_side st (ol_side l)) \<and>
    move_order k l n st = put_slot st l (Some (put_live L (ol_slot l) (rr\<lparr>rst_index_slot := n\<rparr>)))"
proof -
  from assms(1) obtain L rr where L: "level_of (pair_side st (ol_side l)) (ol_level_index l) = Some L"
    "get_live L (ol_slot l) = Some rr" "detach rr = r"
    unfolding slot_content_def content_def by (auto simp: bind_eq_Some)
  moreover from L(3) assms(2) have "rst_id rr = k" by auto
  moreover from L(1) have "ol_level_index l < length (pair_side st (ol_side l))"
    by (auto simp: level_of_def nth_opt_def split: if_splits)
  ultimately show ?thesis
    by (cases "ol_side l") (auto simp: move_order_def Let_def pair_side_def put_slot_def level_of_def)
qed

lemma put_live_handle:
  assumes "get_live L s = Some rr"
  shows "content (put_live L s (rr\<lparr>rst_index_slot := n\<rparr>)) = (content L)(s \<mapsto> (detach rr)\<lparr>rst_index_slot := n\<rparr>)"
    and "unhandled_level (put_live L s (rr\<lparr>rst_index_slot := n\<rparr>)) = unhandled_level L"
proof -
  have s: "s < length (pl_slots L)" "pl_slots L ! s = OrdLive rr"
    using assms by (auto simp: get_live_def nth_opt_def split: if_splits OrderSlot.splits)
  then show "content (put_live L s (rr\<lparr>rst_index_slot := n\<rparr>)) = (content L)(s \<mapsto> (detach rr)\<lparr>rst_index_slot := n\<rparr>)"
    by (auto simp: content_def' put_live_def fun_eq_iff)
  have "map unhandled_slot ((pl_slots L)[s := OrdLive (rr\<lparr>rst_index_slot := n\<rparr>)]) = map unhandled_slot (pl_slots L)"
    using s by (intro nth_equalityI) (auto simp: nth_list_update)
  then show "unhandled_level (put_live L s (rr\<lparr>rst_index_slot := n\<rparr>)) = unhandled_level L"
    by (simp add: unhandled_level_def put_live_def)
qed

lemma unhandled_put_slot:
  assumes "level_of (pair_side st (ol_side l)) (ol_level_index l) = Some L" and "unhandled_level L' = unhandled_level L"
  shows "unhandled_pair (put_slot st l (Some L')) = unhandled_pair st"
proof -
  have "unhandled (ls[i := Some L']) = unhandled ls" if "level_of ls i = Some L" for ls i
    unfolding unhandled_def using that assms(2)
    by (intro nth_equalityI) (auto simp: nth_list_update level_of_def nth_opt_def split: if_splits)
  with assms(1) show ?thesis by (cases "ol_side l") (auto simp: unhandled_pair_def put_slot_def pair_side_def)
qed

lemma slot_content_move:
  assumes "slot_content st l = Some r" and "rst_id r = k"
  shows "slot_content (move_order k l n st) = (slot_content st)(l \<mapsto> r\<lparr>rst_index_slot := n\<rparr>)"
    and "unhandled_pair (move_order k l n st) = unhandled_pair st"
proof -
  from move_order_at [OF assms] obtain L rr where
    m: "level_of (pair_side st (ol_side l)) (ol_level_index l) = Some L" "get_live L (ol_slot l) = Some rr" "detach rr = r"
      "ol_level_index l < length (pair_side st (ol_side l))"
      "move_order k l n st = put_slot st l (Some (put_live L (ol_slot l) (rr\<lparr>rst_index_slot := n\<rparr>)))" by blast
  show "unhandled_pair (move_order k l n st) = unhandled_pair st"
    unfolding m(5) by (rule unhandled_put_slot [OF m(1) put_live_handle(2) [OF m(2)]])
  show "slot_content (move_order k l n st) = (slot_content st)(l \<mapsto> r\<lparr>rst_index_slot := n\<rparr>)"
  proof
    fix l'
    have "slot_content st l' = content L (ol_slot l')" if "ol_side l' = ol_side l" "ol_level_index l' = ol_level_index l"
      using that m(1) by (simp add: slot_content_def)
    moreover have "l' = l \<longleftrightarrow> ol_side l' = ol_side l \<and> ol_level_index l' = ol_level_index l \<and> ol_slot l' = ol_slot l"
      by auto
    ultimately show "slot_content (move_order k l n st) l' = ((slot_content st)(l \<mapsto> r\<lparr>rst_index_slot := n\<rparr>)) l'"
      unfolding m(5) slot_content_put [OF m(4)] m(3) [symmetric] by (auto simp: put_live_handle(1) [OF m(2)])
  qed
qed

interpretation bk: indexed_store "decoded_update LEVELS ORDERS move_order" "handle LEVELS ORDERS"
  "\<lambda>st. unhandled_pair st = unhandled_pair st0" for LEVELS ORDERS st0
proof
  fix st k v i n
  assume Q: "unhandled_pair st = unhandled_pair st0" and "handle LEVELS ORDERS st k v i"
  then obtain l r where l: "loc_ok LEVELS ORDERS l" "v = loc_code ORDERS l" "slot_content st l = Some r" "rst_id r = k"
    "rst_index_slot r = i" unfolding handle_def by blast
  have upd: "decoded_update LEVELS ORDERS move_order k v n st = move_order k l n st"
    using decode_loc_code [OF l(1)] l(2) by (simp add: decoded_update_def)
  show "unhandled_pair (decoded_update LEVELS ORDERS move_order k v n st) = unhandled_pair st0"
    unfolding upd using slot_content_move(2) [OF l(3,4)] Q by simp
  show "handle LEVELS ORDERS (decoded_update LEVELS ORDERS move_order k v n st) k v n"
    unfolding upd handle_def slot_content_move(1) [OF l(3,4)] using l by (intro exI [of _ l]) auto
  fix k' v' i'
  assume "k' \<noteq> k" and "handle LEVELS ORDERS st k' v' i'"
  then obtain l' r' where l': "loc_ok LEVELS ORDERS l'" "v' = loc_code ORDERS l'" "slot_content st l' = Some r'" "rst_id r' = k'"
    "rst_index_slot r' = i'" unfolding handle_def by blast
  have "l' \<noteq> l" using l(3,4) l'(3,4) \<open>k' \<noteq> k\<close> by auto
  with l' show "handle LEVELS ORDERS (decoded_update LEVELS ORDERS move_order k v n st) k' v' i'"
    unfolding upd handle_def slot_content_move(1) [OF l(3,4)] by (intro exI [of _ l']) auto
next
  fix st k v i j
  assume "handle LEVELS ORDERS st k v i" "handle LEVELS ORDERS st k v j"
  then show "i = j" unfolding handle_def using loc_code_inj by (metis option.inject)
next
  fix st st' k v
  assume "unhandled_pair st = unhandled_pair st0" "unhandled_pair st' = unhandled_pair st0"
  then have eq: "unhandled_pair st = unhandled_pair st'" by simp
  have "(\<exists>r. slot_content st l = Some r \<and> rst_id r = k) \<longleftrightarrow> (\<exists>r. slot_content st' l = Some r \<and> rst_id r = k)" for l
    using slot_content_unhandled [OF eq, of l]
    by (cases "slot_content st l"; cases "slot_content st' l") (auto, (metis RestingOrder.select_convs(1)
        RestingOrder.surjective RestingOrder.update_convs(3))+)
  then show "(\<exists>j. handle LEVELS ORDERS st k v j) \<longleftrightarrow> (\<exists>j. handle LEVELS ORDERS st' k v j)"
    unfolding handle_def by blast
qed

section \<open>Entries and orders together\<close>

lemma handle_at_code:
  assumes "handle LEVELS ORDERS st k v i" and "handle LEVELS ORDERS st k' v i'"
  shows "k = k'"
  using assms unfolding handle_def using loc_code_inj by (metis option.inject)

lemma handle_code_less: "handle LEVELS ORDERS st k v i \<Longrightarrow> v < LEVELS * ORDERS * 2"
  unfolding handle_def using loc_code_less(2) by blast

lemma index_room:
  assumes len: "length ix = LEVELS * ORDERS * ORDER_INDEX_PLANES" and inv: "probe_inv (oi_probe ix)"
    and ne: "0 < LEVELS * ORDERS"
    and mirror: "\<And>i k w. k \<noteq> key \<Longrightarrow> slot_holds (oi_probe ix) i k (Suc w) \<Longrightarrow> handle LEVELS ORDERS st k w i"
  shows "\<exists>e < length (oi_probe ix). oi_probe ix ! e = Empty"
proof -
  define f where "f w = (SOME k. \<exists>i. handle LEVELS ORDERS st k w i)" for w
  have f: "f w = k" if "handle LEVELS ORDERS st k w i" for k w i
    unfolding f_def using that handle_at_code by (metis (mono_tags, lifting) someI)
  let ?K = "insert key (f ` {..<LEVELS * ORDERS * 2})"
  have "k \<in> ?K" if "slot_holds (oi_probe ix) i k w" for i k w
  proof (cases "k = key")
    case False
    from inv that have "0 < w" unfolding probe_inv_def by blast
    with that mirror [OF False, of i "w - 1"] have "handle LEVELS ORDERS st k (w - 1) i" by simp
    then show ?thesis using f handle_code_less by blast
  qed simp
  moreover have "card ?K < length (oi_probe ix)"
  proof -
    have "card (f ` {..<LEVELS * ORDERS * 2}) \<le> LEVELS * ORDERS * 2" using card_image_le [of "{..<LEVELS * ORDERS * 2}" f] by simp
    then have "card ?K \<le> LEVELS * ORDERS * 2 + 1" using card_insert_le_m1 by (simp add: card_insert_if)
    also have "\<dots> < LEVELS * ORDERS * 4" using ne by linarith
    finally show ?thesis using len by (simp add: ORDER_INDEX_PLANES_def)
  qed
  ultimately show ?thesis using probe_room [OF inv, of ?K] by simp
qed

lemma slot_holds_oi: "slot_holds (oi_probe ix) i k e \<longleftrightarrow> i < length ix \<and> ix_location (ix ! i) = Some e \<and> ix_order_id (ix ! i) = k"
  by (auto simp: slot_holds_def oi_abs_def split: option.splits)

lemma remove_entry:
  assumes len: "length ix = LEVELS * ORDERS * ORDER_INDEX_PLANES" and inv: "probe_inv (oi_probe ix)"
    and l: "loc_ok LEVELS ORDERS l" and holds: "slot_holds (oi_probe ix) h key (Suc (loc_code ORDERS l))"
    and mirror: "\<And>i k w. k \<noteq> key \<Longrightarrow> slot_holds (oi_probe ix) i k (Suc w) \<longleftrightarrow> handle LEVELS ORDERS st k w i"
  shows "\<exists>ix' st'. oi_remove_at LEVELS ORDERS ix h key move_order st = Some (ix', st', Some l) \<and>
    length ix' = LEVELS * ORDERS * ORDER_INDEX_PLANES \<and> probe_inv (oi_probe ix') \<and> unhandled_pair st' = unhandled_pair st \<and>
    (\<forall>i k w. slot_holds (oi_probe ix') i k (Suc w) \<longleftrightarrow> k \<noteq> key \<and> handle LEVELS ORDERS st' k w i)"
proof -
  have "0 < LEVELS * ORDERS" using l by (auto simp: loc_ok_def)
  then have room: "\<exists>e < length (oi_probe ix). oi_probe ix ! e = Empty"
    using index_room [OF len inv] mirror by blast
  have dec: "oi_decodes LEVELS ORDERS ix"
    unfolding oi_decodes_def
  proof (intro ballI allI impI)
    fix s e
    assume "s \<in> set ix" "ix_location s = Some e"
    then obtain i where i: "slot_holds (oi_probe ix) i (ix_order_id s) e" by (auto simp: slot_holds_oi in_set_conv_nth)
    with inv have e: "0 < e" unfolding probe_inv_def by blast
    show "0 < e \<and> decode_location LEVELS ORDERS e \<noteq> None"
    proof (cases "ix_order_id s = key")
      case True
      with i probe_inv_unique [OF inv] holds have "i = h" by blast
      with i holds have "e = Suc (loc_code ORDERS l)" by (simp add: slot_holds_def)
      then show ?thesis using decode_loc_code [OF l] by simp
    next
      case False
      with i e mirror [OF False, of i "e - 1"] obtain l' where "loc_ok LEVELS ORDERS l'" "e = Suc (loc_code ORDERS l')"
        by (auto simp: handle_def)
      then show ?thesis using decode_loc_code by simp
    qed
  qed
  from bk.remove_indexed [OF inv room holds refl mirror] obtain s' st' where
    r: "probe_remove_at (oi_probe ix) h key (decoded_update LEVELS ORDERS move_order) st = Some (s', st', Some (loc_code ORDERS l))"
      "probe_inv s'" "length s' = length (oi_probe ix)" "unhandled_pair st' = unhandled_pair st"
      "\<forall>i k w. slot_holds s' i k (Suc w) \<longleftrightarrow> k \<noteq> key \<and> handle LEVELS ORDERS st' k w i" by blast
  from oi_remove_refines [OF dec r(1)] obtain ix' where
    ix': "oi_remove_at LEVELS ORDERS ix h key move_order st = Some (ix', st', Some l)" "oi_probe ix' = s'"
    using decode_loc_code [OF l] by auto
  have "length ix' = length ix" using ix'(2) r(3) by (metis length_map)
  with ix' r len show ?thesis by auto
qed

lemma insert_entry:
  assumes inv: "index_inv LEVELS ORDERS ix st" and l: "loc_ok LEVELS ORDERS l" "slot_content st l = None"
    and new: "\<And>v i. \<not> handle LEVELS ORDERS st key v i"
  shows "\<exists>i ix'. oi_insert LEVELS ORDERS ix key l = Ok (i, ix') \<and>
    (\<forall>st' r. slot_content st' = (slot_content st)(l \<mapsto> r) \<longrightarrow> rst_id r = key \<longrightarrow> rst_index_slot r = i \<longrightarrow>
      index_inv LEVELS ORDERS ix' st')"
proof -
  have len: "length ix = LEVELS * ORDERS * ORDER_INDEX_PLANES" and pinv: "probe_inv (oi_probe ix)"
    and mirror: "\<And>i k w. slot_holds (oi_probe ix) i k (Suc w) \<longleftrightarrow> handle LEVELS ORDERS st k w i"
    using inv unfolding index_inv_def by blast+
  have ne: "0 < LEVELS * ORDERS" using l by (auto simp: loc_ok_def)
  have room: "\<exists>e < length (oi_probe ix). oi_probe ix ! e = Empty"
    using index_room [OF len pinv ne] mirror by blast
  have cap: "LEVELS * ORDERS * ORDER_INDEX_PLANES \<le> 2 ^ 32" using probe_inv_capacity [OF pinv] len by simp
  let ?v = "loc_code ORDERS l"
  have v: "Suc ?v < 2 ^ 64" using loc_code_less(2) [OF l(1)] cap by (simp add: ORDER_INDEX_PLANES_def)
  have enc: "encode_location LEVELS ORDERS l = Some (Suc ?v)" using encode_location_eq [OF cap, of l] l(1) by simp
  from insert_indexed [OF pinv room v mirror, of key] new obtain i where
    i: "probe_insert (oi_probe ix) key ?v = Ok (i, (oi_probe ix)[i := Occupied key (Suc ?v)])" "i < length ix"
      "probe_inv ((oi_probe ix)[i := Occupied key (Suc ?v)])"
      "\<forall>j k w. slot_holds ((oi_probe ix)[i := Occupied key (Suc ?v)]) j k (Suc w) \<longleftrightarrow>
        handle LEVELS ORDERS st k w j \<or> k = key \<and> w = ?v \<and> j = i" by auto
  let ?ix = "ix[i := \<lparr>ix_order_id = key, ix_location = Some (Suc ?v)\<rparr>]"
  have abs: "oi_probe ?ix = (oi_probe ix)[i := Occupied key (Suc ?v)]" by (simp add: map_update oi_abs_def)
  have ins: "oi_insert LEVELS ORDERS ix key l = Ok (i, ?ix)" using oi_insert_refines [OF enc v] i(1) by simp
  have "index_inv LEVELS ORDERS ?ix st'"
    if st': "slot_content st' = (slot_content st)(l \<mapsto> r)" "rst_id r = key" "rst_index_slot r = i" for st' r
  proof -
    have "handle LEVELS ORDERS st' k w j \<longleftrightarrow> handle LEVELS ORDERS st k w j \<or> k = key \<and> w = ?v \<and> j = i" for k w j
    proof
      assume "handle LEVELS ORDERS st' k w j"
      then obtain l' r' where l': "loc_ok LEVELS ORDERS l'" "w = loc_code ORDERS l'" "slot_content st' l' = Some r'"
        "rst_id r' = k" "rst_index_slot r' = j" unfolding handle_def by blast
      then show "handle LEVELS ORDERS st k w j \<or> k = key \<and> w = ?v \<and> j = i"
        using st' unfolding handle_def by (cases "l' = l") auto
    next
      assume "handle LEVELS ORDERS st k w j \<or> k = key \<and> w = ?v \<and> j = i"
      then show "handle LEVELS ORDERS st' k w j"
      proof
        assume "handle LEVELS ORDERS st k w j"
        then obtain l' r' where l': "loc_ok LEVELS ORDERS l'" "w = loc_code ORDERS l'" "slot_content st l' = Some r'"
          "rst_id r' = k" "rst_index_slot r' = j" unfolding handle_def by blast
        with l(2) have "l' \<noteq> l" by auto
        with l' st'(1) show ?thesis unfolding handle_def by (intro exI [of _ l']) auto
      next
        assume "k = key \<and> w = ?v \<and> j = i"
        with st' l(1) show ?thesis unfolding handle_def by (intro exI [of _ l]) auto
      qed
    qed
    with i(3,4) len show ?thesis unfolding index_inv_def abs by simp
  qed
  with ins show ?thesis by blast
qed

end
