(* ===== verification/BookOps.thy ===== *)
theory BookOps
  imports BookIndex
begin

text \<open>
  The book as two priority-ordered lists of locations (\<open>makers\<close>) and the order at each location
  (\<open>orders_at\<close>), and the primitive operations of the book on this view: unlinking an order and
  deleting its index entry, in either order; reducing an order in place; and resting an order at the
  tail of its level.
\<close>

section \<open>The view\<close>

definition level_xs :: "PriceLevel \<Rightarrow> nat list" where
  "level_xs L = (THE xs. level_inv L xs)"

definition xs_at :: "PriceLevel option list \<Rightarrow> nat \<Rightarrow> nat list" where
  "xs_at ls i = (case level_of ls i of None \<Rightarrow> [] | Some L \<Rightarrow> level_xs L)"

definition maker_entries :: "PriceLevel option list \<Rightarrow> (PriceTicks \<times> nat) list \<Rightarrow> (PriceTicks \<times> nat \<times> nat) list" where
  "maker_entries ls es = concat (map (\<lambda>(p, i). map (\<lambda>s. (p, i, s)) (xs_at ls i)) es)"

definition makers :: "OrderBook \<Rightarrow> Side \<Rightarrow> (PriceTicks \<times> nat \<times> nat) list" where
  "makers b side = maker_entries (side_levels b side) (lindex_iter (side_index b side))"

definition orders_at :: "OrderBook \<Rightarrow> OrderLocation \<Rightarrow> Order option" where
  "orders_at b l = map_option view (slot_content (pair_of b) l)"

definition loc :: "Side \<Rightarrow> nat \<Rightarrow> nat \<Rightarrow> OrderLocation" where
  "loc side i s = \<lparr>ol_side = side, ol_level_index = i, ol_slot = s\<rparr>"

text \<open>A side as the list of its orders in priority order, each with its price.\<close>

definition book_list :: "OrderBook \<Rightarrow> Side \<Rightarrow> (PriceTicks \<times> Order) list" where
  "book_list b side = concat (map (\<lambda>(p, i). map (Pair p) (queue_at (side_levels b side) i)) (lindex_iter (side_index b side)))"

lemma loc_simps [simp]:
  "ol_side (loc side i s) = side" "ol_level_index (loc side i s) = i" "ol_slot (loc side i s) = s"
  "loc side i s = loc side' i' s' \<longleftrightarrow> side = side' \<and> i = i' \<and> s = s'"
  by (simp_all add: loc_def)

lemma loc_eta [simp]: "loc (ol_side l) (ol_level_index l) (ol_slot l) = l"
  by (simp add: loc_def)

lemma level_xs_eq: "level_inv L xs \<Longrightarrow> level_xs L = xs"
  unfolding level_xs_def using level_inv_unique by blast

lemma maker_entries_simps [simp]:
  "maker_entries ls [] = []" "maker_entries ls (e # es) = map (\<lambda>s. (fst e, snd e, s)) (xs_at ls (snd e)) @ maker_entries ls es"
  "maker_entries ls (es @ es') = maker_entries ls es @ maker_entries ls es'"
  by (auto simp: maker_entries_def split: prod.splits)

lemma xs_at_update: "xs_at (ls[i := x]) j =
    (if j = i \<and> i < length ls then (case x of None \<Rightarrow> [] | Some L \<Rightarrow> level_xs L) else xs_at ls j)"
  by (simp add: xs_at_def level_of_update)

lemma maker_entries_update: "i \<notin> snd ` set es \<Longrightarrow> maker_entries (ls[i := x]) es = maker_entries ls es"
  by (induction es) (auto simp: xs_at_update)

lemma in_maker_entries: "(p, i, s) \<in> set (maker_entries ls es) \<longleftrightarrow> (p, i) \<in> set es \<and> s \<in> set (xs_at ls i)"
  by (induction es) auto

lemma level_at_level_of: "level_at b side i = level_of (side_levels b side) i"
  by (simp add: level_at_def level_of_def)

lemma pair_side_book [simp]: "pair_side (pair_of b) side = side_levels b side"
  by (cases side) (simp_all add: pair_side_def side_levels_def)

lemma put_level_simps [simp]:
  "side_levels (put_level b side i x) side' = (if side' = side then (side_levels b side)[i := x] else side_levels b side')"
  "side_index (put_level b side i x) side' = side_index b side'"
  "ob_index (put_level b side i x) = ob_index b" "ob_LEVELS (put_level b side i x) = ob_LEVELS b"
  "ob_ORDERS (put_level b side i x) = ob_ORDERS b" "ob_instrument (put_level b side i x) = ob_instrument b"
  by (cases side; cases side'; simp add: put_level_def set_side_levels_def side_levels_def side_index_def)+

lemma set_side_index_simps [simp]:
  "side_index (set_side_index b side ix) side' = (if side' = side then ix else side_index b side')"
  "side_levels (set_side_index b side ix) side' = side_levels b side'" "pair_of (set_side_index b side ix) = pair_of b"
  "ob_index (set_side_index b side ix) = ob_index b" "ob_LEVELS (set_side_index b side ix) = ob_LEVELS b"
  "ob_ORDERS (set_side_index b side ix) = ob_ORDERS b" "ob_instrument (set_side_index b side ix) = ob_instrument b"
  by (cases side; cases side'; simp add: set_side_index_def side_levels_def side_index_def)+

lemma pair_of_put_level: "pair_of (put_level b side i x) = put_slot (pair_of b) (loc side i s) x"
  by (cases side) (simp_all add: put_level_def set_side_levels_def side_levels_def put_slot_def)

lemma makers_iff:
  assumes "side_inv LEVELS ORDERS d (side_levels b side) (side_index b side)"
  shows "(\<exists>p. (p, i, s) \<in> set (makers b side)) \<longleftrightarrow> slot_content (pair_of b) (loc side i s) \<noteq> None"
proof -
  have "slot_content (pair_of b) (loc side i s) \<noteq> None \<longleftrightarrow>
      (\<exists>L. level_of (side_levels b side) i = Some L \<and> content L s \<noteq> None)"
    by (auto simp: slot_content_def bind_eq_Some)
  also have "\<dots> \<longleftrightarrow> (\<exists>p. (p, i, s) \<in> set (makers b side))"
  proof
    assume "\<exists>L. level_of (side_levels b side) i = Some L \<and> content L s \<noteq> None"
    then obtain L where L: "level_of (side_levels b side) i = Some L" "content L s \<noteq> None" by blast
    from side_other_level [OF assms L(1)] obtain p where p: "(p, i) \<in> set (lindex_iter (side_index b side))" by blast
    from side_level [OF assms p] L obtain xs where "level_inv L xs" by (auto simp: level_ok_def)
    then have "s \<in> set (xs_at (side_levels b side) i)"
      using L level_inv_facts(4) by (auto simp: xs_at_def level_xs_eq)
    with p show "\<exists>p. (p, i, s) \<in> set (makers b side)" by (auto simp: makers_def in_maker_entries)
  next
    assume "\<exists>p. (p, i, s) \<in> set (makers b side)"
    then obtain p where p: "(p, i) \<in> set (lindex_iter (side_index b side))" "s \<in> set (xs_at (side_levels b side) i)"
      by (auto simp: makers_def in_maker_entries)
    from side_level [OF assms p(1)] obtain L xs where L: "level_of (side_levels b side) i = Some L" "level_inv L xs"
      by (auto simp: level_ok_def)
    with p(2) show "\<exists>L. level_of (side_levels b side) i = Some L \<and> content L s \<noteq> None"
      using level_inv_facts(4) [OF L(2)] by (auto simp: xs_at_def level_xs_eq)
  qed
  finally show ?thesis by blast
qed

lemma book_list_makers:
  assumes "side_inv LEVELS ORDERS d (side_levels b side) (side_index b side)"
  shows "book_list b side = map (\<lambda>(p, i, s). (p, the (orders_at b (loc side i s)))) (makers b side)"
proof -
  have q: "queue_at (side_levels b side) i = map (\<lambda>s. the (orders_at b (loc side i s))) (xs_at (side_levels b side) i)"
    if p: "(p, i) \<in> set (lindex_iter (side_index b side))" for p i
  proof -
    from side_level [OF assms p] obtain L xs where L: "level_of (side_levels b side) i = Some L" "level_inv L xs"
      by (auto simp: level_ok_def)
    have "view (the (content L s)) = the (orders_at b (loc side i s))" if "s \<in> set xs" for s
      using that level_inv_facts(4) [OF L(2)] L(1) by (auto simp: orders_at_def slot_content_def)
    with L show ?thesis by (simp add: queue_at_def xs_at_def level_queue_eq level_xs_eq)
  qed
  show ?thesis unfolding book_list_def makers_def maker_entries_def map_concat
    by (rule arg_cong [where f = concat]) (auto simp: q)
qed

lemma makers_loc_ok:
  assumes "side_inv LEVELS ORDERS d (side_levels b side) (side_index b side)" and "(p, i, s) \<in> set (makers b side)"
  shows "loc_ok LEVELS ORDERS (loc side i s)"
proof -
  from assms(2) have p: "(p, i) \<in> set (lindex_iter (side_index b side))" "s \<in> set (xs_at (side_levels b side) i)"
    by (auto simp: makers_def in_maker_entries)
  from side_level [OF assms(1) p(1)] obtain L xs where L: "level_of (side_levels b side) i = Some L"
    "i < length (side_levels b side)" "level_inv L xs" "length (pl_slots L) = ORDERS" by (auto simp: level_ok_def)
  with p(2) level_inv_facts(5) [OF L(3)] assms(1) show ?thesis
    by (auto simp: loc_ok_def xs_at_def level_xs_eq side_inv_def)
qed

section \<open>Wellformedness under updates\<close>

definition sides_wf :: "OrderBook \<Rightarrow> bool" where
  "sides_wf b \<longleftrightarrow> (\<forall>side. side_inv (ob_LEVELS b) (ob_ORDERS b) (descending side) (side_levels b side) (side_index b side))"

lemma wf_sides: "book_wf b \<Longrightarrow> sides_wf b"
  by (simp add: book_wf_def sides_wf_def)

lemma sides_wfD: "sides_wf b \<Longrightarrow> side_inv (ob_LEVELS b) (ob_ORDERS b) (descending side) (side_levels b side) (side_index b side)"
  by (simp add: sides_wf_def)

lemma wf_side: "book_wf b \<Longrightarrow> side_inv (ob_LEVELS b) (ob_ORDERS b) (descending side) (side_levels b side) (side_index b side)"
  by (simp add: book_wf_def)

lemma wf_index: "book_wf b \<Longrightarrow> index_inv (ob_LEVELS b) (ob_ORDERS b) (ob_index b) (pair_of b)"
  by (simp add: book_wf_def)

lemma orders_at_unhandled:
  "unhandled_pair (pair_of b') = unhandled_pair (pair_of b) \<Longrightarrow> orders_at b' = orders_at b"
proof
  fix l
  assume "unhandled_pair (pair_of b') = unhandled_pair (pair_of b)"
  from slot_content_unhandled [OF this, of l] show "orders_at b' l = orders_at b l"
    unfolding orders_at_def
    by (cases "slot_content (pair_of b') l"; cases "slot_content (pair_of b) l") (auto, metis view_unhandled)
qed

lemma makers_unhandled:
  assumes inv: "side_inv LEVELS ORDERS d (side_levels b side) (side_index b side)"
    and eq: "unhandled (side_levels b' side) = unhandled (side_levels b side)" and ix: "side_index b' side = side_index b side"
  shows "makers b' side = makers b side"
proof -
  have "xs_at (side_levels b' side) i = xs_at (side_levels b side) i" if p: "(p, i) \<in> set (lindex_iter (side_index b side))" for p i
  proof -
    from side_level [OF inv p] obtain L xs where L: "level_of (side_levels b side) i = Some L" "level_inv L xs"
      by (auto simp: level_ok_def)
    with unhandled_nth [OF eq, of i] obtain L' where L': "level_of (side_levels b' side) i = Some L'"
      "unhandled_level L' = unhandled_level L" by auto
    then have "level_inv L' xs" using L(2) level_inv_unhandled by metis
    with L L' show ?thesis by (simp add: xs_at_def level_xs_eq)
  qed
  then show ?thesis unfolding makers_def maker_entries_def ix by (intro arg_cong [where f = concat]) auto
qed

text \<open>Splitting a side at one of its orders.\<close>

lemma maker_split:
  assumes wf: "sides_wf b" and split: "makers b side = M1 @ (p, i, s) # M2"
  shows "\<exists>A B L as bs r. lindex_iter (side_index b side) = A @ (p, i) # B \<and> level_of (side_levels b side) i = Some L \<and>
    i < length (side_levels b side) \<and> level_ok (ob_ORDERS b) p L (as @ s # bs) \<and> content L s = Some r \<and>
    slot_content (pair_of b) (loc side i s) = Some r \<and>
    M1 = maker_entries (side_levels b side) A @ map (\<lambda>s. (p, i, s)) as \<and>
    M2 = map (\<lambda>s. (p, i, s)) bs @ maker_entries (side_levels b side) B"
proof -
  note inv = sides_wfD [OF wf, of side]
  let ?ls = "side_levels b side" and ?es = "lindex_iter (side_index b side)"
  have dist: "distinct (map snd ?es)" using inv by (simp add: side_inv_def lindex_inv_def)
  have "(p, i, s) \<in> set (makers b side)" using split by simp
  then have mem: "(p, i) \<in> set ?es" "s \<in> set (xs_at ?ls i)" by (auto simp: makers_def in_maker_entries)
  from mem(1) obtain A B where es: "?es = A @ (p, i) # B" by (metis split_list)
  from side_level [OF inv mem(1)] obtain L xs where L: "level_of ?ls i = Some L" "i < length ?ls" "level_ok (ob_ORDERS b) p L xs"
    by blast
  have linv: "level_inv L xs" using L(3) by (simp add: level_ok_def)
  then have xs: "xs_at ?ls i = xs" using L(1) by (simp add: xs_at_def level_xs_eq)
  with mem(2) obtain as bs where ab: "xs = as @ s # bs" by (metis split_list)
  have d: "distinct xs" using linv by (simp add: level_inv_def)
  have mk: "makers b side = (maker_entries ?ls A @ map (\<lambda>s. (p, i, s)) as) @ (p, i, s) #
      (map (\<lambda>s. (p, i, s)) bs @ maker_entries ?ls B)"
    unfolding makers_def es by (simp add: xs ab)
  have n1: "(p, i, s) \<notin> set (maker_entries ?ls A @ map (\<lambda>s. (p, i, s)) as)"
    using dist d unfolding es ab by (auto simp: in_maker_entries rev_image_eqI)
  have n2: "(p, i, s) \<notin> set (map (\<lambda>s. (p, i, s)) bs @ maker_entries ?ls B)"
    using dist d unfolding es ab by (auto simp: in_maker_entries rev_image_eqI)
  from mk split n1 n2 have M: "M1 = maker_entries ?ls A @ map (\<lambda>s. (p, i, s)) as"
    "M2 = map (\<lambda>s. (p, i, s)) bs @ maker_entries ?ls B"
    using append_Cons_eq_iff [OF n1 n2] by metis+
  obtain r where r: "content L s = Some r" using level_inv_facts(4) [OF linv, of s] ab by auto
  then have "slot_content (pair_of b) (loc side i s) = Some r" using L(1) by (simp add: slot_content_def)
  with es L ab M r show ?thesis by blast
qed

definition same_params :: "OrderBook \<Rightarrow> OrderBook \<Rightarrow> bool" where
  "same_params b b' \<longleftrightarrow> ob_LEVELS b' = ob_LEVELS b \<and> ob_ORDERS b' = ob_ORDERS b \<and> ob_instrument b' = ob_instrument b"

lemma same_params_trans: "same_params a b \<Longrightarrow> same_params b c \<Longrightarrow> same_params a c"
  by (simp add: same_params_def)

lemma same_params_refl [simp]: "same_params b b"
  by (simp add: same_params_def)

section \<open>Unlinking an order\<close>

lemma sides_wf_change:
  assumes "sides_wf b" and "same_params b b'"
    and "side_inv (ob_LEVELS b) (ob_ORDERS b) (descending side) (side_levels b' side) (side_index b' side)"
    and "\<And>side'. side' \<noteq> side \<Longrightarrow> side_levels b' side' = side_levels b side' \<and> side_index b' side' = side_index b side'"
  shows "sides_wf b'"
  unfolding sides_wf_def
proof
  fix side'
  show "side_inv (ob_LEVELS b') (ob_ORDERS b') (descending side') (side_levels b' side') (side_index b' side')"
    using assms(3) assms(4) [of side'] sides_wfD [OF assms(1), of side'] assms(2)
    by (cases "side' = side") (auto simp: same_params_def)
qed

lemma makers_other:
  "side_levels b' side' = side_levels b side' \<Longrightarrow> side_index b' side' = side_index b side' \<Longrightarrow> makers b' side' = makers b side'"
  by (simp add: makers_def)

lemma slot_content_put_level:
  assumes "i < length (side_levels b side)"
    and "\<And>s'. s' \<noteq> s \<Longrightarrow> Option.bind x (\<lambda>L. content L s') = Option.bind (level_of (side_levels b side) i) (\<lambda>L. content L s')"
  shows "slot_content (pair_of (put_level b side i x)) =
    (slot_content (pair_of b))(loc side i s := Option.bind x (\<lambda>L. content L s))"
proof
  fix l
  have "slot_content (pair_of (put_level b side i x)) l =
      (if ol_side l = side \<and> ol_level_index l = i then Option.bind x (\<lambda>L. content L (ol_slot l)) else slot_content (pair_of b) l)"
    unfolding pair_of_put_level [of b side i x s] using slot_content_put [of "loc side i s" "pair_of b" x l] assms(1) by simp
  moreover have "l = loc side i s \<longleftrightarrow> ol_side l = side \<and> ol_level_index l = i \<and> ol_slot l = s" by (auto simp: loc_def)
  moreover have "slot_content (pair_of b) l = Option.bind (level_of (side_levels b side) i) (\<lambda>L. content L (ol_slot l))"
    if "ol_side l = side" "ol_level_index l = i"
    using that by (simp add: slot_content_def)
  ultimately show "slot_content (pair_of (put_level b side i x)) l =
      ((slot_content (pair_of b))(loc side i s := Option.bind x (\<lambda>L. content L s))) l"
    using assms(2) by auto
qed

lemma unlink_order:
  assumes wf: "sides_wf b" and split: "makers b side = M1 @ (p, i, s) # M2"
  shows "\<exists>L L' rr b'. level_at b side i = Some L \<and> get_live L s = Some rr \<and> unlink L s = Some (L', rr) \<and>
    pl_price L = p \<and> pl_price L' = p \<and> slot_content (pair_of b) (loc side i s) = Some (detach rr) \<and>
    (if pl_len L' = 0 then drop_level b side i p else Some (put_level b side i (Some L'))) = Some b' \<and>
    sides_wf b' \<and> makers b' side = M1 @ M2 \<and> (\<forall>side'. side' \<noteq> side \<longrightarrow> makers b' side' = makers b side') \<and>
    slot_content (pair_of b') = (slot_content (pair_of b))(loc side i s := None) \<and>
    ob_index b' = ob_index b \<and> same_params b b'"
proof -
  note inv = sides_wfD [OF wf, of side]
  let ?ls = "side_levels b side"
  from maker_split [OF wf split] obtain A B L as bs r where
    es: "lindex_iter (side_index b side) = A @ (p, i) # B" and
    L: "level_of ?ls i = Some L" "i < length ?ls" "level_ok (ob_ORDERS b) p L (as @ s # bs)" "content L s = Some r"
      "slot_content (pair_of b) (loc side i s) = Some r" and
    M: "M1 = maker_entries ?ls A @ map (\<lambda>s. (p, i, s)) as" "M2 = map (\<lambda>s. (p, i, s)) bs @ maker_entries ?ls B" by blast
  have linv: "level_inv L (as @ s # bs)" using L(3) by (simp add: level_ok_def)
  from unlink_correct [OF linv] obtain L' rr where
    u: "unlink L s = Some (L', rr)" "content L s = Some (detach rr)" "level_inv L' (as @ bs)" "pl_price L' = pl_price L"
      "length (pl_slots L') = length (pl_slots L)" "content L' = (content L)(s := None)" by blast
  have live: "get_live L s = Some rr" using u(1) by (auto simp: unlink_def get_live_def Let_def split: option.splits OrderSlot.splits if_splits)
  have price: "pl_price L = p" "pl_price L' = p" using L(3) u(4) by (simp_all add: level_ok_def)
  have dist: "distinct (map snd (lindex_iter (side_index b side)))" using inv by (simp add: side_inv_def lindex_inv_def)
  have AB: "i \<notin> snd ` set A" "i \<notin> snd ` set B" using dist unfolding es by auto
  have len: "pl_len L' = length (as @ bs)" using u(3) by (simp add: level_inv_def)
  have "\<exists>b'. (if pl_len L' = 0 then drop_level b side i p else Some (put_level b side i (Some L'))) = Some b' \<and>
    sides_wf b' \<and> makers b' side = M1 @ M2 \<and> (\<forall>side'. side' \<noteq> side \<longrightarrow> makers b' side' = makers b side') \<and>
    slot_content (pair_of b') = (slot_content (pair_of b))(loc side i s := None) \<and>
    ob_index b' = ob_index b \<and> same_params b b'"
  proof (cases "as @ bs = []")
    case True
    from side_drop_level [OF inv es] obtain ix' where
      ix': "lindex_remove (side_index b side) p (descending side) = Some (Some (ix', i))"
        "side_inv (ob_LEVELS b) (ob_ORDERS b) (descending side) (?ls[i := None]) ix'" by blast
    have it: "lindex_iter ix' = A @ B"
      using lindex_remove_correct [OF _ es] inv ix'(1) unfolding side_inv_def by fastforce
    define b' where "b' = set_side_index (put_level b side i None) side ix'"
    have run: "drop_level b side i p = Some b'" using ix'(1) by (simp add: drop_level_def b'_def)
    have params: "same_params b b'" "ob_index b' = ob_index b" by (simp_all add: same_params_def b'_def)
    have wf': "sides_wf b'" by (rule sides_wf_change [OF wf params(1), of side]) (use ix'(2) in \<open>auto simp: b'_def\<close>)
    have mk: "makers b' side = M1 @ M2"
      unfolding M using True L(2) by (simp add: makers_def b'_def it maker_entries_update AB)
    have sc: "slot_content (pair_of b') = (slot_content (pair_of b))(loc side i s := None)"
    proof -
      have "content L s' = None" if "s' \<noteq> s" for s'
        using level_inv_facts(4) [OF linv, of s'] True that by auto
      then show ?thesis unfolding b'_def using slot_content_put_level [OF L(2), of s None] L(1) by simp
    qed
    have "\<forall>side'. side' \<noteq> side \<longrightarrow> makers b' side' = makers b side'" by (simp add: makers_def b'_def)
    moreover have "(if pl_len L' = 0 then drop_level b side i p else Some (put_level b side i (Some L'))) = Some b'"
      using True len run by simp
    ultimately show ?thesis using wf' mk sc params by blast
  next
    case False
    define b' where "b' = put_level b side i (Some L')"
    have ok: "level_ok (ob_ORDERS b) p L' (as @ bs)"
      using L(3) u(3-6) False by (auto simp: level_ok_def split: if_splits)
    have params: "same_params b b'" "ob_index b' = ob_index b" by (simp_all add: same_params_def b'_def)
    have wf': "sides_wf b'"
      by (rule sides_wf_change [OF wf params(1), of side]) (use side_put_level(1) [OF inv es ok] in \<open>auto simp: b'_def\<close>)
    have mk: "makers b' side = M1 @ M2"
      unfolding M using L(2) u(3) by (simp add: makers_def b'_def es maker_entries_update AB xs_at_update level_xs_eq)
    have sc: "slot_content (pair_of b') = (slot_content (pair_of b))(loc side i s := None)"
      unfolding b'_def using slot_content_put_level [OF L(2), of s "Some L'"] u(6) L(1) by simp
    have "\<forall>side'. side' \<noteq> side \<longrightarrow> makers b' side' = makers b side'" by (simp add: makers_def b'_def)
    moreover have "(if pl_len L' = 0 then drop_level b side i p else Some (put_level b side i (Some L'))) = Some b'"
      using False len by (auto simp: b'_def)
    ultimately show ?thesis using wf' mk sc params by blast
  qed
  moreover have "slot_content (pair_of b) (loc side i s) = Some (detach rr)" using L(4,5) u(2) by simp
  ultimately show ?thesis using L(1) u(1) live price unfolding level_at_level_of by blast
qed

section \<open>Removing an order and its index entry\<close>

lemma remove_index_entry_correct:
  assumes wf: "sides_wf b" and len: "length (ob_index b) = ob_LEVELS b * ob_ORDERS b * ORDER_INDEX_PLANES"
    and inv: "probe_inv (oi_probe (ob_index b))" and l: "loc_ok (ob_LEVELS b) (ob_ORDERS b) l"
    and holds: "slot_holds (oi_probe (ob_index b)) h key (Suc (loc_code (ob_ORDERS b) l))"
    and mirror: "\<And>i k w. k \<noteq> key \<Longrightarrow> slot_holds (oi_probe (ob_index b)) i k (Suc w) \<longleftrightarrow>
      handle (ob_LEVELS b) (ob_ORDERS b) (pair_of b) k w i"
  shows "\<exists>b'. remove_index_entry b h key = Some (b', Some l) \<and> sides_wf b' \<and> (\<forall>side. makers b' side = makers b side) \<and>
    unhandled_pair (pair_of b') = unhandled_pair (pair_of b) \<and> same_params b b' \<and>
    length (ob_index b') = length (ob_index b) \<and> probe_inv (oi_probe (ob_index b')) \<and>
    (\<forall>i k w. slot_holds (oi_probe (ob_index b')) i k (Suc w) \<longleftrightarrow>
      k \<noteq> key \<and> handle (ob_LEVELS b) (ob_ORDERS b) (pair_of b') k w i)"
proof -
  from remove_entry [OF len inv l holds mirror] obtain ix' st' where
    r: "oi_remove_at (ob_LEVELS b) (ob_ORDERS b) (ob_index b) h key move_order (pair_of b) = Some (ix', st', Some l)"
      "length ix' = ob_LEVELS b * ob_ORDERS b * ORDER_INDEX_PLANES" "probe_inv (oi_probe ix')"
      "unhandled_pair st' = unhandled_pair (pair_of b)"
      "\<forall>i k w. slot_holds (oi_probe ix') i k (Suc w) \<longleftrightarrow> k \<noteq> key \<and> handle (ob_LEVELS b) (ob_ORDERS b) st' k w i" by blast
  obtain bids asks where st': "st' = (bids, asks)" by (cases st')
  define b' where "b' = b\<lparr>ob_index := ix', ob_bids := bids, ob_asks := asks\<rparr>"
  have run: "remove_index_entry b h key = Some (b', Some l)" using r(1) by (simp add: remove_index_entry_def b'_def st')
  have un: "unhandled (side_levels b' side) = unhandled (side_levels b side)" for side
    using r(4) by (cases side) (simp_all add: unhandled_pair_def side_levels_def b'_def st')
  have ix: "side_index b' side = side_index b side" for side by (cases side) (simp_all add: side_index_def b'_def)
  have params: "same_params b b'" by (simp add: same_params_def b'_def)
  have "sides_wf b'" unfolding sides_wf_def
    using side_inv_unhandled(1) [OF sides_wfD [OF wf] un] ix params by (simp add: same_params_def)
  moreover have "makers b' side = makers b side" for side
    by (rule makers_unhandled [OF sides_wfD [OF wf] un ix])
  moreover have "pair_of b' = st'" "ob_index b' = ix'" by (simp_all add: b'_def st')
  ultimately show ?thesis using run r params len by metis
qed

lemma index_inv_unique:
  assumes "index_inv LEVELS ORDERS ix st" and "handle LEVELS ORDERS st k v i" and "handle LEVELS ORDERS st k w j"
  shows "v = w \<and> i = j"
proof -
  have "slot_holds (oi_probe ix) i k (Suc v)" "slot_holds (oi_probe ix) j k (Suc w)" "probe_inv (oi_probe ix)"
    using assms unfolding index_inv_def by blast+
  then show ?thesis using probe_inv_unique by (metis IndexSlot.inject nat.inject slot_holds_def)
qed

lemma handle_del:
  assumes "slot_content st' = (slot_content st)(l := None)" and "loc_ok LEVELS ORDERS l"
  shows "handle LEVELS ORDERS st' k w i \<longleftrightarrow> handle LEVELS ORDERS st k w i \<and> w \<noteq> loc_code ORDERS l"
proof
  assume "handle LEVELS ORDERS st' k w i"
  then obtain l' r where l': "loc_ok LEVELS ORDERS l'" "w = loc_code ORDERS l'" "slot_content st' l' = Some r" "rst_id r = k"
    "rst_index_slot r = i" unfolding handle_def by blast
  from l'(3) assms(1) have n: "l' \<noteq> l" "slot_content st l' = Some r" by (auto split: if_splits)
  then have "w \<noteq> loc_code ORDERS l" using loc_code_inj [OF l'(1) assms(2)] l'(2) by auto
  moreover have "handle LEVELS ORDERS st k w i" unfolding handle_def using l' n(2) by blast
  ultimately show "handle LEVELS ORDERS st k w i \<and> w \<noteq> loc_code ORDERS l" by simp
next
  assume a: "handle LEVELS ORDERS st k w i \<and> w \<noteq> loc_code ORDERS l"
  then obtain l' r where l': "loc_ok LEVELS ORDERS l'" "w = loc_code ORDERS l'" "slot_content st l' = Some r" "rst_id r = k"
    "rst_index_slot r = i" unfolding handle_def by blast
  with a assms(1) have "slot_content st' l' = Some r" by auto
  with l' show "handle LEVELS ORDERS st' k w i" unfolding handle_def by blast
qed

lemma handle_unhandled:
  "unhandled_pair st = unhandled_pair st' \<Longrightarrow> (\<exists>j. handle LEVELS ORDERS st k v j) \<longleftrightarrow> (\<exists>j. handle LEVELS ORDERS st' k v j)"
  using bk.Q_keys [of st st' st'] by simp

text \<open>The effect of a removal at a location on the whole book.\<close>

definition removed_at :: "OrderBook \<Rightarrow> OrderBook \<Rightarrow> Side \<Rightarrow> nat \<Rightarrow> nat \<Rightarrow> (PriceTicks \<times> nat \<times> nat) list \<Rightarrow> bool" where
  "removed_at b b' side i s M \<longleftrightarrow> book_wf b' \<and> makers b' side = M \<and> (\<forall>side'. side' \<noteq> side \<longrightarrow> makers b' side' = makers b side') \<and>
     orders_at b' = (orders_at b)(loc side i s := None) \<and> same_params b b'"

lemma orders_at_del:
  "slot_content (pair_of b') = (slot_content (pair_of b))(l := None) \<Longrightarrow> orders_at b' = (orders_at b)(l := None)"
  by (auto simp: orders_at_def fun_eq_iff)

lemma book_wfI: "sides_wf b \<Longrightarrow> index_inv (ob_LEVELS b) (ob_ORDERS b) (ob_index b) (pair_of b) \<Longrightarrow> book_wf b"
  by (simp add: book_wf_def sides_wf_def)

lemma remove_filled_order_correct:
  assumes wf: "book_wf b" and split: "makers b side = M1 @ (p, i, s) # M2"
    and r: "slot_content (pair_of b) (loc side i s) = Some r"
  shows "\<exists>b'. remove_filled_order b (loc side i s) (rst_id r) (rst_index_slot r) = Some b' \<and> removed_at b b' side i s (M1 @ M2)"
proof -
  let ?key = "rst_id r" and ?l = "loc side i s"
  note sides = wf_sides [OF wf] and index = wf_index [OF wf]
  have l: "loc_ok (ob_LEVELS b) (ob_ORDERS b) ?l" by (rule makers_loc_ok [OF wf_side [OF wf]]) (use split in auto)
  have mirror: "slot_holds (oi_probe (ob_index b)) j k (Suc w) \<longleftrightarrow> handle (ob_LEVELS b) (ob_ORDERS b) (pair_of b) k w j" for j k w
    using index unfolding index_inv_def by blast
  have h: "handle (ob_LEVELS b) (ob_ORDERS b) (pair_of b) ?key (loc_code (ob_ORDERS b) ?l) (rst_index_slot r)"
    using l r unfolding handle_def by blast
  have len: "length (ob_index b) = ob_LEVELS b * ob_ORDERS b * ORDER_INDEX_PLANES" "probe_inv (oi_probe (ob_index b))"
    using index by (simp_all add: index_inv_def)
  have "slot_holds (oi_probe (ob_index b)) (rst_index_slot r) ?key (Suc (loc_code (ob_ORDERS b) ?l))"
    unfolding mirror using h .
  from remove_index_entry_correct [OF sides len l this mirror] obtain b1 where
    b1: "remove_index_entry b (rst_index_slot r) ?key = Some (b1, Some ?l)" "sides_wf b1" "\<forall>side. makers b1 side = makers b side"
      "unhandled_pair (pair_of b1) = unhandled_pair (pair_of b)" "same_params b b1"
      "length (ob_index b1) = length (ob_index b)" "probe_inv (oi_probe (ob_index b1))"
      "\<forall>i k w. slot_holds (oi_probe (ob_index b1)) i k (Suc w) \<longleftrightarrow>
        k \<noteq> ?key \<and> handle (ob_LEVELS b) (ob_ORDERS b) (pair_of b1) k w i" by blast
  have "makers b1 side = M1 @ (p, i, s) # M2" using b1(3) split by simp
  from unlink_order [OF b1(2) this] obtain L L' rr b2 where
    b2: "level_at b1 side i = Some L" "unlink L s = Some (L', rr)" "pl_price L' = p"
      "(if pl_len L' = 0 then drop_level b1 side i p else Some (put_level b1 side i (Some L'))) = Some b2"
      "sides_wf b2" "makers b2 side = M1 @ M2" "\<forall>side'. side' \<noteq> side \<longrightarrow> makers b2 side' = makers b1 side'"
      "slot_content (pair_of b2) = (slot_content (pair_of b1))(?l := None)" "ob_index b2 = ob_index b1" "same_params b1 b2" by blast
  have run: "remove_filled_order b ?l ?key (rst_index_slot r) = Some b2"
    using b1(1) b2(1-4) by (auto simp: remove_filled_order_def split: if_splits)
  have key: "handle (ob_LEVELS b) (ob_ORDERS b) (pair_of b1) k w j \<Longrightarrow> k = ?key \<longleftrightarrow> w = loc_code (ob_ORDERS b) ?l" for k w j
    using handle_unhandled [OF b1(4)] index_inv_unique [OF index _ h] handle_at_code h by metis
  have p2: "ob_LEVELS b2 = ob_LEVELS b" "ob_ORDERS b2 = ob_ORDERS b" using b1(5) b2(10) by (simp_all add: same_params_def)
  have "slot_holds (oi_probe (ob_index b2)) j k (Suc w) \<longleftrightarrow> handle (ob_LEVELS b) (ob_ORDERS b) (pair_of b2) k w j" for j k w
    unfolding b2(9) handle_del [OF b2(8) l] using b1(8) key by blast
  then have "index_inv (ob_LEVELS b2) (ob_ORDERS b2) (ob_index b2) (pair_of b2)"
    unfolding index_inv_def p2 b2(9) using b1(6,7) len by simp
  then have "book_wf b2" using b2(5) by (rule book_wfI [rotated])
  moreover have "orders_at b2 = (orders_at b)(?l := None)"
    using orders_at_del [OF b2(8)] orders_at_unhandled [OF b1(4)] by simp
  ultimately show ?thesis using run b1(3,5) b2(6,7,10) same_params_trans unfolding removed_at_def by metis
qed

text \<open>Cancel and replace unlink the order first and delete its index entry afterwards.\<close>

lemma unlink_then_deindex:
  assumes wf: "book_wf b" and split: "makers b side = M1 @ (p, i, s) # M2"
  shows "\<exists>L L' rr b1 b2 x. level_at b side i = Some L \<and> get_live L s = Some rr \<and> unlink L s = Some (L', rr) \<and> pl_price L = p \<and>
    pl_price L' = p \<and> slot_content (pair_of b) (loc side i s) = Some (detach rr) \<and>
    (if pl_len L' = 0 then drop_level b side i p else Some (put_level b side i (Some L'))) = Some b1 \<and>
    remove_index_entry b1 (rst_index_slot rr) (rst_id rr) = Some (b2, x) \<and> removed_at b b2 side i s (M1 @ M2)"
proof -
  let ?l = "loc side i s"
  note sides = wf_sides [OF wf] and index = wf_index [OF wf]
  have l: "loc_ok (ob_LEVELS b) (ob_ORDERS b) ?l" by (rule makers_loc_ok [OF wf_side [OF wf]]) (use split in auto)
  have mirror: "slot_holds (oi_probe (ob_index b)) j k (Suc w) \<longleftrightarrow> handle (ob_LEVELS b) (ob_ORDERS b) (pair_of b) k w j" for j k w
    using index unfolding index_inv_def by blast
  from unlink_order [OF sides split] obtain L L' rr b1 where
    b1: "level_at b side i = Some L" "get_live L s = Some rr" "unlink L s = Some (L', rr)" "pl_price L = p" "pl_price L' = p"
      "slot_content (pair_of b) ?l = Some (detach rr)"
      "(if pl_len L' = 0 then drop_level b side i p else Some (put_level b side i (Some L'))) = Some b1"
      "sides_wf b1" "makers b1 side = M1 @ M2" "\<forall>side'. side' \<noteq> side \<longrightarrow> makers b1 side' = makers b side'"
      "slot_content (pair_of b1) = (slot_content (pair_of b))(?l := None)" "ob_index b1 = ob_index b" "same_params b b1" by blast
  let ?key = "rst_id rr"
  have h: "handle (ob_LEVELS b) (ob_ORDERS b) (pair_of b) ?key (loc_code (ob_ORDERS b) ?l) (rst_index_slot rr)"
    using l b1(6) unfolding handle_def by (intro exI [of _ ?l] exI [of _ "detach rr"]) simp
  have params: "ob_LEVELS b1 = ob_LEVELS b" "ob_ORDERS b1 = ob_ORDERS b" using b1(13) by (simp_all add: same_params_def)
  have key: "handle (ob_LEVELS b) (ob_ORDERS b) (pair_of b) k w j \<Longrightarrow> k = ?key \<longleftrightarrow> w = loc_code (ob_ORDERS b) ?l" for k w j
    using index_inv_unique [OF index _ h] handle_at_code h by metis
  have mirror1: "slot_holds (oi_probe (ob_index b1)) j k (Suc w) \<longleftrightarrow> handle (ob_LEVELS b1) (ob_ORDERS b1) (pair_of b1) k w j"
    if "k \<noteq> ?key" for j k w
    unfolding params b1(12) mirror handle_del [OF b1(11) l] using key that by blast
  have holds: "slot_holds (oi_probe (ob_index b1)) (rst_index_slot rr) ?key (Suc (loc_code (ob_ORDERS b1) ?l))"
    unfolding b1(12) params mirror using h .
  have len: "length (ob_index b1) = ob_LEVELS b1 * ob_ORDERS b1 * ORDER_INDEX_PLANES" "probe_inv (oi_probe (ob_index b1))"
    "loc_ok (ob_LEVELS b1) (ob_ORDERS b1) ?l"
    using index l unfolding b1(12) params by (simp_all add: index_inv_def)
  from remove_index_entry_correct [OF b1(8) len holds mirror1] obtain b2 where
    b2: "remove_index_entry b1 (rst_index_slot rr) ?key = Some (b2, Some ?l)" "sides_wf b2" "\<forall>side. makers b2 side = makers b1 side"
      "unhandled_pair (pair_of b2) = unhandled_pair (pair_of b1)" "same_params b1 b2"
      "length (ob_index b2) = length (ob_index b1)" "probe_inv (oi_probe (ob_index b2))"
      "\<forall>i k w. slot_holds (oi_probe (ob_index b2)) i k (Suc w) \<longleftrightarrow>
        k \<noteq> ?key \<and> handle (ob_LEVELS b1) (ob_ORDERS b1) (pair_of b2) k w i" by blast
  have none: "\<not> handle (ob_LEVELS b) (ob_ORDERS b) (pair_of b2) ?key w j" for w j
    using handle_unhandled [OF b2(4)] handle_del [OF b1(11) l] key by metis
  have p2: "ob_LEVELS b2 = ob_LEVELS b" "ob_ORDERS b2 = ob_ORDERS b" using b2(5) params by (simp_all add: same_params_def)
  have "slot_holds (oi_probe (ob_index b2)) j k (Suc w) \<longleftrightarrow> handle (ob_LEVELS b) (ob_ORDERS b) (pair_of b2) k w j" for j k w
    using b2(8) none unfolding params by blast
  then have "index_inv (ob_LEVELS b2) (ob_ORDERS b2) (ob_index b2) (pair_of b2)"
    unfolding index_inv_def p2 using b2(6,7) len(1) params by simp
  then have "book_wf b2" using b2(2) by (rule book_wfI [rotated])
  moreover have "orders_at b2 = (orders_at b)(?l := None)"
    using orders_at_del [OF b1(11)] orders_at_unhandled [OF b2(4)] by simp
  moreover have "same_params b b2" by (rule same_params_trans [OF b1(13) b2(5)])
  ultimately have "removed_at b b2 side i s (M1 @ M2)"
    using b2(3) b1(9,10) unfolding removed_at_def by simp
  with b1 b2(1) show ?thesis by blast
qed

section \<open>Reducing an order in place\<close>

lemma reduce_order:
  assumes wf: "book_wf b" and split: "makers b side = M1 @ (p, i, s) # M2"
    and L: "level_at b side i = Some L" and rr: "get_live L s = Some rr" and q: "q < rst_quantity rr"
  shows "\<exists>L'. reduce_quantity L s q = Some L' \<and>
    L' = (put_live L s (rr\<lparr>rst_quantity := rst_quantity rr - q\<rparr>))\<lparr>pl_aggregate_quantity := pl_aggregate_quantity L - q\<rparr> \<and>
    book_wf (put_level b side i (Some L')) \<and> (\<forall>side'. makers (put_level b side i (Some L')) side' = makers b side') \<and>
    orders_at (put_level b side i (Some L')) =
      (orders_at b)(loc side i s \<mapsto> (view rr)\<lparr>o_quantity := rst_quantity rr - q\<rparr>)"
proof -
  note inv = wf_side [OF wf, of side] and sides = wf_sides [OF wf] and index = wf_index [OF wf]
  let ?ls = "side_levels b side"
  from maker_split [OF sides split] obtain A B as bs r where
    es: "lindex_iter (side_index b side) = A @ (p, i) # B" and
    L': "i < length ?ls" "level_ok (ob_ORDERS b) p L (as @ s # bs)" "content L s = Some r"
      "slot_content (pair_of b) (loc side i s) = Some r" using L unfolding level_at_level_of by auto
  have Lof: "level_of ?ls i = Some L" using L by (simp add: level_at_level_of)
  have r: "r = detach rr" using L'(3) rr by (simp add: content_def)
  have linv: "level_inv L (as @ s # bs)" using L'(2) by (simp add: level_ok_def)
  from reduce_quantity_correct [OF linv rr less_imp_le [OF q]] obtain K where
    K: "reduce_quantity L s q = Some K" "level_inv K (as @ s # bs)" "pl_price K = pl_price L"
      "length (pl_slots K) = length (pl_slots L)" "content K = (content L)(s \<mapsto> (detach rr)\<lparr>rst_quantity := rst_quantity rr - q\<rparr>)"
    by blast
  have Keq: "K = (put_live L s (rr\<lparr>rst_quantity := rst_quantity rr - q\<rparr>))\<lparr>pl_aggregate_quantity := pl_aggregate_quantity L - q\<rparr>"
    using K(1) rr q by (simp add: reduce_quantity_def checked_sub_def)
  let ?b = "put_level b side i (Some K)" and ?r = "(detach rr)\<lparr>rst_quantity := rst_quantity rr - q\<rparr>"
  have ok: "level_ok (ob_ORDERS b) p K (as @ s # bs)" using L'(2) K(2-5) q by (auto simp: level_ok_def split: if_splits)
  have sc: "slot_content (pair_of ?b) = (slot_content (pair_of b))(loc side i s \<mapsto> ?r)"
    using slot_content_put_level [OF L'(1), of s "Some K"] K(5) Lof by simp
  have "handle (ob_LEVELS b) (ob_ORDERS b) (pair_of ?b) k w j \<longleftrightarrow> handle (ob_LEVELS b) (ob_ORDERS b) (pair_of b) k w j" for k w j
  proof -
    have "(\<exists>x. slot_content (pair_of ?b) l = Some x \<and> rst_id x = k \<and> rst_index_slot x = j) \<longleftrightarrow>
        (\<exists>x. slot_content (pair_of b) l = Some x \<and> rst_id x = k \<and> rst_index_slot x = j)" for l
      unfolding sc using L'(4) r by (cases "l = loc side i s") auto
    then show ?thesis unfolding handle_def by blast
  qed
  then have "index_inv (ob_LEVELS ?b) (ob_ORDERS ?b) (ob_index ?b) (pair_of ?b)"
    using index unfolding index_inv_def by simp
  moreover have "sides_wf ?b"
    by (rule sides_wf_change [OF sides, of _ side]) (use side_put_level(1) [OF inv es ok] in \<open>auto simp: same_params_def\<close>)
  ultimately have "book_wf ?b" by (intro book_wfI)
  moreover have "makers ?b side' = makers b side'" for side'
  proof (cases "side' = side")
    case True
    have "xs_at (?ls[i := Some K]) j = xs_at ?ls j" for j
      using L'(1) Lof K(2) linv by (simp add: xs_at_def level_of_update level_xs_eq)
    then show ?thesis using True by (simp add: makers_def maker_entries_def)
  qed (simp add: makers_def)
  moreover have "orders_at ?b = (orders_at b)(loc side i s \<mapsto> (view rr)\<lparr>o_quantity := rst_quantity rr - q\<rparr>)"
    unfolding orders_at_def sc by (auto simp: fun_eq_iff view_def)
  ultimately show ?thesis using K(1) Keq by blast
qed

section \<open>Resting an order\<close>

definition fresh_id :: "OrderBook \<Rightarrow> OrderId \<Rightarrow> bool" where
  "fresh_id b k \<longleftrightarrow> (\<forall>l y. orders_at b l = Some y \<longrightarrow> o_id y \<noteq> k)"

definition rested_at :: "OrderBook \<Rightarrow> OrderBook \<Rightarrow> Side \<Rightarrow> PriceTicks \<Rightarrow> Order \<Rightarrow> nat \<Rightarrow> nat \<Rightarrow> bool" where
  "rested_at b b' side p x i s \<longleftrightarrow> book_wf b' \<and> same_params b b' \<and> (\<forall>side'. side' \<noteq> side \<longrightarrow> makers b' side' = makers b side') \<and>
     orders_at b (loc side i s) = None \<and> orders_at b' = (orders_at b)(loc side i s \<mapsto> x) \<and>
     (\<exists>M1 M2. makers b side = M1 @ M2 \<and> makers b' side = M1 @ (p, i, s) # M2 \<and>
        (\<forall>e \<in> set M1. \<not> before (descending side) p (fst e)) \<and> (\<forall>e \<in> set M2. before (descending side) p (fst e)))"

lemma maker_entries_prices: "fst ` set (maker_entries ls es) \<subseteq> fst ` set es"
  by (induction es) auto

text \<open>The common tail of \<open>rest_at_tail\<close>: push on a level, index the order, store its handle.\<close>

lemma index_pushed_order:
  assumes wf: "book_wf b" and L: "i < length (side_levels b side)" "level_inv L xs"
      "length (pl_slots L) = ob_ORDERS b" "length xs < ob_ORDERS b"
    and ls: "\<And>s. content L s = Option.bind (level_of (side_levels b side) i) (\<lambda>L. content L s)"
    and new: "fresh_id b (rst_id r)"
  shows "\<exists>L1 s j ix' rr. push_tail L r = Some (L1, s) \<and>
    oi_insert (ob_LEVELS b) (ob_ORDERS b) (ob_index b) (rst_id r) (loc side i s) = Ok (j, ix') \<and>
    get_live L1 s = Some rr \<and> detach rr = detach r \<and>
    level_inv (put_live L1 s (rr\<lparr>rst_index_slot := j\<rparr>)) (xs @ [s]) \<and>
    pl_price (put_live L1 s (rr\<lparr>rst_index_slot := j\<rparr>)) = pl_price L \<and>
    length (pl_slots (put_live L1 s (rr\<lparr>rst_index_slot := j\<rparr>))) = ob_ORDERS b \<and>
    content (put_live L1 s (rr\<lparr>rst_index_slot := j\<rparr>)) = (content L)(s \<mapsto> (detach r)\<lparr>rst_index_slot := j\<rparr>) \<and>
    content L s = None \<and>
    (\<forall>st'. slot_content st' = (slot_content (pair_of b))(loc side i s \<mapsto> (detach r)\<lparr>rst_index_slot := j\<rparr>) \<longrightarrow>
      index_inv (ob_LEVELS b) (ob_ORDERS b) ix' st')"
proof -
  note inv = wf_side [OF wf, of side] and index = wf_index [OF wf]
  from push_tail_correct [OF L(2), of r] L(3,4) obtain L1 s where
    P: "push_tail L r = Some (L1, s)" "s < length (pl_slots L)" "s \<notin> set xs" "level_inv L1 (xs @ [s])" "pl_price L1 = pl_price L"
      "length (pl_slots L1) = length (pl_slots L)" "content L1 = (content L)(s \<mapsto> detach r)" by auto
  have free: "content L s = None" using level_inv_facts(4) [OF L(2), of s] P(3) by auto
  have l: "loc_ok (ob_LEVELS b) (ob_ORDERS b) (loc side i s)"
    using P(2) L(1,3) inv by (simp add: loc_ok_def side_inv_def)
  have none: "slot_content (pair_of b) (loc side i s) = None" using free ls [of s] by (simp add: slot_content_def)
  have "\<not> handle (ob_LEVELS b) (ob_ORDERS b) (pair_of b) (rst_id r) v j" for v j
    using new unfolding handle_def fresh_id_def orders_at_def by (fastforce simp: view_def)
  from insert_entry [OF index l none this] obtain j ix' where
    ins: "oi_insert (ob_LEVELS b) (ob_ORDERS b) (ob_index b) (rst_id r) (loc side i s) = Ok (j, ix')"
      "\<And>st' r'. slot_content st' = (slot_content (pair_of b))(loc side i s \<mapsto> r') \<Longrightarrow> rst_id r' = rst_id r \<Longrightarrow> rst_index_slot r' = j \<Longrightarrow>
        index_inv (ob_LEVELS b) (ob_ORDERS b) ix' st'" by blast
  from P(7) have "content L1 s = Some (detach r)" by simp
  from live_content [OF this] obtain rr where rr: "get_live L1 s = Some rr" "detach rr = detach r" by blast
  let ?K = "put_live L1 s (rr\<lparr>rst_index_slot := j\<rparr>)"
  have K: "?K = (put_live L1 s (rr\<lparr>rst_index_slot := j\<rparr>))\<lparr>pl_aggregate_quantity := pl_aggregate_quantity L1\<rparr>"
    by (simp add: put_live_def)
  have "level_inv ?K (xs @ [s])" by (rule level_inv_put(1) [OF P(4) rr(1) _ _ K]) simp_all
  moreover have "content ?K = (content L)(s \<mapsto> (detach r)\<lparr>rst_index_slot := j\<rparr>)"
    using put_live_handle(1) [OF rr(1)] P(7) rr(2) by simp
  moreover have "pl_price ?K = pl_price L" "length (pl_slots ?K) = ob_ORDERS b" using P(5,6) L(3) by (simp_all add: put_live_def)
  ultimately show ?thesis using P(1) ins rr free by simp
qed

lemma set_index_simps [simp]:
  "side_levels (b\<lparr>ob_index := ix\<rparr>) side = side_levels b side" "side_index (b\<lparr>ob_index := ix\<rparr>) side = side_index b side"
  "makers (b\<lparr>ob_index := ix\<rparr>) side = makers b side" "orders_at (b\<lparr>ob_index := ix\<rparr>) = orders_at b"
  by (simp_all add: side_levels_def side_index_def makers_def orders_at_def fun_eq_iff split: Side.splits)

lemma rest_existing_level:
  assumes wf: "book_wf b" and es: "lindex_iter (side_index b side) = A @ (p, i) # B"
    and room: "level_at b side i = Some L" "pl_len L < ob_ORDERS b" and q: "0 < rst_quantity r"
    and new: "fresh_id b (rst_id r)"
  shows "\<exists>b' s. rest_at_tail b side p r = Some b' \<and> rested_at b b' side p (view r) i s"
proof -
  note inv = wf_side [OF wf, of side] and sides = wf_sides [OF wf]
  let ?ls = "side_levels b side"
  have li: "lindex_inv (ob_LEVELS b) (descending side) (side_index b side)" using inv by (simp add: side_inv_def)
  have Lof: "level_of ?ls i = Some L" using room(1) by (simp add: level_at_level_of)
  from side_level [OF inv, of p i] es Lof obtain xs where xs: "i < length ?ls" "level_ok (ob_ORDERS b) p L xs" by auto
  have linv: "level_inv L xs" "length (pl_slots L) = ob_ORDERS b" "length xs < ob_ORDERS b"
    using xs(2) room(2) by (auto simp: level_ok_def level_inv_def)
  have cont: "content L s = Option.bind (level_of ?ls i) (\<lambda>L. content L s)" for s using Lof by simp
  from index_pushed_order [OF wf xs(1) linv cont new] obtain L1 s j ix' rr where
    P: "push_tail L r = Some (L1, s)" "oi_insert (ob_LEVELS b) (ob_ORDERS b) (ob_index b) (rst_id r) (loc side i s) = Ok (j, ix')"
      "get_live L1 s = Some rr" and
    K: "level_inv (put_live L1 s (rr\<lparr>rst_index_slot := j\<rparr>)) (xs @ [s])"
      "pl_price (put_live L1 s (rr\<lparr>rst_index_slot := j\<rparr>)) = pl_price L"
      "length (pl_slots (put_live L1 s (rr\<lparr>rst_index_slot := j\<rparr>))) = ob_ORDERS b"
      "content (put_live L1 s (rr\<lparr>rst_index_slot := j\<rparr>)) = (content L)(s \<mapsto> (detach r)\<lparr>rst_index_slot := j\<rparr>)"
      "content L s = None"
      "\<And>st'. slot_content st' = (slot_content (pair_of b))(loc side i s \<mapsto> (detach r)\<lparr>rst_index_slot := j\<rparr>) \<Longrightarrow>
        index_inv (ob_LEVELS b) (ob_ORDERS b) ix' st'" by blast
  define K where "K = put_live L1 s (rr\<lparr>rst_index_slot := j\<rparr>)"
  define b' where "b' = (put_level b side i (Some K))\<lparr>ob_index := ix'\<rparr>"
  note K = K [folded K_def]
  have "map_of (lindex_iter (side_index b side)) p = Some i"
    by (rule map_of_is_SomeI [OF lindex_distinct [OF li]]) (simp add: es)
  then have run: "rest_at_tail b side p r = Some b'"
    using lindex_find_eq [OF li, of p] room(1) P by (simp add: rest_at_tail_def b'_def K_def loc_def)
  have ok: "level_ok (ob_ORDERS b) p K (xs @ [s])" using xs(2) K(1-4) q by (auto simp: level_ok_def split: if_splits)
  have sc: "slot_content (pair_of b') = (slot_content (pair_of b))(loc side i s \<mapsto> (detach r)\<lparr>rst_index_slot := j\<rparr>)"
    using slot_content_put_level [OF xs(1), of s "Some K"] K(4) Lof by (simp add: b'_def)
  have params: "same_params b b'" by (simp add: same_params_def b'_def)
  have "sides_wf b'"
    by (rule sides_wf_change [OF sides params, of side]) (use side_put_level(1) [OF inv es ok] in \<open>auto simp: b'_def\<close>)
  moreover have "index_inv (ob_LEVELS b') (ob_ORDERS b') (ob_index b') (pair_of b')"
    using K(6) [OF sc] by (simp add: b'_def)
  ultimately have "book_wf b'" by (rule book_wfI)
  moreover have "orders_at b (loc side i s) = None" using K(5) Lof by (simp add: orders_at_def slot_content_def)
  moreover have "orders_at b' = (orders_at b)(loc side i s \<mapsto> view r)" unfolding orders_at_def sc by (auto simp: fun_eq_iff)
  moreover have "\<forall>side'. side' \<noteq> side \<longrightarrow> makers b' side' = makers b side'" by (simp add: makers_def b'_def)
  moreover have "\<exists>M1 M2. makers b side = M1 @ M2 \<and> makers b' side = M1 @ (p, i, s) # M2 \<and>
      (\<forall>e \<in> set M1. \<not> before (descending side) p (fst e)) \<and> (\<forall>e \<in> set M2. before (descending side) p (fst e))"
  proof (intro exI conjI)
    let ?M1 = "maker_entries ?ls A @ map (\<lambda>s. (p, i, s)) xs" and ?M2 = "maker_entries ?ls B"
    have AB: "i \<notin> snd ` set A" "i \<notin> snd ` set B"
      using li unfolding lindex_inv_def es by auto
    have sorted: "sorted_wrt (before (descending side)) (map fst A @ p # map fst B)"
      using li unfolding lindex_inv_def es by simp
    show "makers b side = ?M1 @ ?M2" unfolding makers_def es by (simp add: xs_at_def Lof level_xs_eq [OF linv(1)])
    show "makers b' side = ?M1 @ (p, i, s) # ?M2"
      unfolding makers_def b'_def by (simp add: es maker_entries_update AB xs_at_update xs(1) level_xs_eq [OF K(1)])
    show "\<forall>e \<in> set ?M1. \<not> before (descending side) p (fst e)"
      using sorted maker_entries_prices [of ?ls A] by (fastforce simp: sorted_wrt_append dest: before_asym)
    show "\<forall>e \<in> set ?M2. before (descending side) p (fst e)"
      using sorted maker_entries_prices [of ?ls B] by (fastforce simp: sorted_wrt_append)
  qed
  ultimately have "rested_at b b' side p (view r) i s" unfolding rested_at_def using params by blast
  with run show ?thesis by blast
qed

lemma rest_new_level:
  assumes wf: "book_wf b" and absent: "p \<notin> fst ` set (lindex_iter (side_index b side))"
    and room: "\<not> lindex_is_full (side_index b side)" "0 < ob_ORDERS b" and p: "0 < p" and q: "0 < rst_quantity r"
    and new: "fresh_id b (rst_id r)"
  shows "\<exists>b' i s. rest_at_tail b side p r = Some b' \<and> rested_at b b' side p (view r) i s"
proof -
  note inv = wf_side [OF wf, of side] and sides = wf_sides [OF wf]
  let ?ls = "side_levels b side" and ?es = "lindex_iter (side_index b side)" and ?d = "descending side"
  let ?L = "level_new (ob_ORDERS b) p"
  have li: "lindex_inv (ob_LEVELS b) ?d (side_index b side)" using inv by (simp add: side_inv_def)
  from side_add_level [OF inv absent room(1) p] obtain ix i where
    I: "lindex_insert (side_index b side) p ?d = Some (Some (ix, i))" "i < length ?ls" "?ls ! i = None"
      "\<And>L xs. level_ok (ob_ORDERS b) p L xs \<Longrightarrow> side_inv (ob_LEVELS b) (ob_ORDERS b) ?d (?ls[i := Some L]) ix" by blast
  have it: "lindex_iter ix = lower ?d p ?es @ (p, i) # upper ?d p ?es" "i \<notin> snd ` set ?es"
    using lindex_insert_correct [OF li absent] room(1) I(1) by auto
  have none: "level_of ?ls i = None" using I(2,3) by (simp add: level_of_nth)
  have "0 < ob_LEVELS b" using I(2) inv by (auto simp: side_inv_def)
  moreover have "ob_LEVELS b * ob_ORDERS b * 4 \<le> 2 ^ 32"
    using wf_index [OF wf] probe_inv_capacity [of "oi_probe (ob_index b)"] by (simp add: index_inv_def ORDER_INDEX_PLANES_def)
  ultimately have cap: "ob_ORDERS b \<le> 2 ^ 32"
    using mult_le_mono1 [of 1 "ob_LEVELS b" "ob_ORDERS b"] by linarith
  note L0 = level_inv_new [OF cap]
  have len0: "length (pl_slots ?L) = ob_ORDERS b" by (simp add: level_new_def)
  have cont: "content ?L s = Option.bind (level_of ?ls i) (\<lambda>L. content L s)" for s using L0(2) none by simp
  from index_pushed_order [OF wf I(2) L0(1) len0 _ cont new] room(2) obtain L1 s j ix' rr where
    P: "push_tail ?L r = Some (L1, s)" "oi_insert (ob_LEVELS b) (ob_ORDERS b) (ob_index b) (rst_id r) (loc side i s) = Ok (j, ix')"
      "get_live L1 s = Some rr" and
    K: "level_inv (put_live L1 s (rr\<lparr>rst_index_slot := j\<rparr>)) ([] @ [s])"
      "pl_price (put_live L1 s (rr\<lparr>rst_index_slot := j\<rparr>)) = pl_price ?L"
      "length (pl_slots (put_live L1 s (rr\<lparr>rst_index_slot := j\<rparr>))) = ob_ORDERS b"
      "content (put_live L1 s (rr\<lparr>rst_index_slot := j\<rparr>)) = (content ?L)(s \<mapsto> (detach r)\<lparr>rst_index_slot := j\<rparr>)"
      "content ?L s = None"
      "\<And>st'. slot_content st' = (slot_content (pair_of b))(loc side i s \<mapsto> (detach r)\<lparr>rst_index_slot := j\<rparr>) \<Longrightarrow>
        index_inv (ob_LEVELS b) (ob_ORDERS b) ix' st'" by (metis list.size(3))
  define K where "K = put_live L1 s (rr\<lparr>rst_index_slot := j\<rparr>)"
  note K = K [folded K_def]
  define b' where "b' = (put_level (set_side_index b side ix) side i (Some K))\<lparr>ob_index := ix'\<rparr>"
  have twice: "put_level (put_level (set_side_index b side ix) side i x) side i y = put_level (set_side_index b side ix) side i y" for x y
    by (cases side) (simp_all add: put_level_def set_side_levels_def side_levels_def)
  have nofind: "lindex_find (side_index b side) p ?d = None"
    using lindex_find_eq [OF li, of p] absent by (simp add: map_of_eq_None_iff)
  have run: "rest_at_tail b side p r = Some b'"
    using nofind I(1,2) P by (simp add: rest_at_tail_def b'_def K_def loc_def level_at_level_of level_of_update twice)
  have "pl_price ?L = p" by (simp add: level_new_def)
  then have ok: "level_ok (ob_ORDERS b) p K [s]" using K(1-4) q L0(2) by (auto simp: level_ok_def split: if_splits)
  have sc: "slot_content (pair_of b') = (slot_content (pair_of b))(loc side i s \<mapsto> (detach r)\<lparr>rst_index_slot := j\<rparr>)"
    using slot_content_put_level [of i "set_side_index b side ix" side s "Some K"] I(2) K(4) L0(2) none by (simp add: b'_def)
  have params: "same_params b b'" by (simp add: same_params_def b'_def)
  have "sides_wf b'"
    by (rule sides_wf_change [OF sides params, of side]) (use I(4) [OF ok] in \<open>auto simp: b'_def\<close>)
  moreover have "index_inv (ob_LEVELS b') (ob_ORDERS b') (ob_index b') (pair_of b')"
    using K(6) [OF sc] by (simp add: b'_def)
  ultimately have "book_wf b'" by (rule book_wfI)
  moreover have "orders_at b (loc side i s) = None" using none by (simp add: orders_at_def slot_content_def)
  moreover have "orders_at b' = (orders_at b)(loc side i s \<mapsto> view r)" unfolding orders_at_def sc by (auto simp: fun_eq_iff)
  moreover have "\<forall>side'. side' \<noteq> side \<longrightarrow> makers b' side' = makers b side'" by (simp add: makers_def b'_def)
  moreover have "\<exists>M1 M2. makers b side = M1 @ M2 \<and> makers b' side = M1 @ (p, i, s) # M2 \<and>
      (\<forall>e \<in> set M1. \<not> before ?d p (fst e)) \<and> (\<forall>e \<in> set M2. before ?d p (fst e))"
  proof (intro exI conjI)
    let ?A = "lower ?d p ?es" and ?B = "upper ?d p ?es"
    have "set ?es = set ?A \<union> set ?B" by (metis lower_upper set_append)
    then have AB: "i \<notin> snd ` set ?A" "i \<notin> snd ` set ?B" using it(2) by auto
    have sorted: "sorted_wrt (before ?d) (map fst ?es)" using li by (simp add: lindex_inv_def)
    show "makers b side = maker_entries ?ls ?A @ maker_entries ?ls ?B"
      unfolding makers_def by (metis lower_upper maker_entries_simps(3))
    show "makers b' side = maker_entries ?ls ?A @ (p, i, s) # maker_entries ?ls ?B"
      unfolding makers_def b'_def using level_xs_eq [OF K(1)]
      by (simp add: it(1) maker_entries_update AB xs_at_update I(2))
    show "\<forall>e \<in> set (maker_entries ?ls ?A). \<not> before ?d p (fst e)"
      using lower_before [of _ ?d p ?es] maker_entries_prices [of ?ls ?A] by (fastforce dest: before_asym)
    show "\<forall>e \<in> set (maker_entries ?ls ?B). before ?d p (fst e)"
      using upper_after [OF sorted absent] maker_entries_prices [of ?ls ?B] by fastforce
  qed
  ultimately have "rested_at b b' side p (view r) i s" unfolding rested_at_def using params by blast
  with run show ?thesis by blast
qed

end
