(* ===== verification/BookSpec.thy ===== *)
theory BookSpec
  imports BookOps
begin

text \<open>
  What the order book promises, as price-time priority over plain lists: a side is the list of its
  orders in priority order, each with its price. Matching consumes a prefix of the opposing list;
  resting inserts an order behind every order of the same or a better price; cancel and replace act
  on the order with a given id. Rejections are conditions on these lists. The remaining theories
  show that \<open>submit\<close>, \<open>cancel\<close> and \<open>replace\<close> implement this specification.
\<close>

section \<open>The specification\<close>

type_synonym plist = "(PriceTicks \<times> Order) list"

record BookModel =
  bm_LEVELS :: nat
  bm_ORDERS :: nat
  bm_instrument :: InstrumentId
  bm_side :: "Side \<Rightarrow> plist"

definition set_side :: "BookModel \<Rightarrow> Side \<Rightarrow> plist \<Rightarrow> BookModel" where
  "set_side m side xs = m\<lparr>bm_side := (bm_side m)(side := xs)\<rparr>"

text \<open>Fills as price, maker and quantity; the remaining list; the unfilled quantity.\<close>

fun match_list :: "Side \<Rightarrow> PriceTicks \<Rightarrow> nat \<Rightarrow> plist \<Rightarrow> (PriceTicks \<times> OrderId \<times> Quantity) list \<times> plist \<times> nat" where
  "match_list side limit n [] = ([], [], n)"
| "match_list side limit n ((p, x) # xs) =
     (if n = 0 \<or> \<not> crosses side p limit then ([], (p, x) # xs, n)
      else if o_quantity x \<le> n then
        let (fills, rest, left) = match_list side limit (n - o_quantity x) xs
        in ((p, o_id x, o_quantity x) # fills, rest, left)
      else ([(p, o_id x, n)], (p, x\<lparr>o_quantity := o_quantity x - n\<rparr>) # xs, 0))"

definition enqueue :: "bool \<Rightarrow> PriceTicks \<Rightarrow> Order \<Rightarrow> plist \<Rightarrow> plist" where
  "enqueue d p x xs =
     takeWhile (\<lambda>e. \<not> before d p (fst e)) xs @ (p, x) # dropWhile (\<lambda>e. \<not> before d p (fst e)) xs"

definition ids :: "plist \<Rightarrow> OrderId set" where
  "ids xs = (\<lambda>e. o_id (snd e)) ` set xs"

definition find_order :: "OrderId \<Rightarrow> plist \<Rightarrow> (PriceTicks \<times> Order) option" where
  "find_order k xs = find (\<lambda>e. o_id (snd e) = k) xs"

definition delete_order :: "OrderId \<Rightarrow> plist \<Rightarrow> plist" where
  "delete_order k xs = filter (\<lambda>e. o_id (snd e) \<noteq> k) xs"

definition depth :: "PriceTicks \<Rightarrow> plist \<Rightarrow> nat" where
  "depth p xs = length (filter (\<lambda>e. fst e = p) xs)"

definition level_count :: "plist \<Rightarrow> nat" where
  "level_count xs = length (remdups (map fst xs))"

text \<open>Room for one more order at a price of a side.\<close>

definition rest_check :: "BookModel \<Rightarrow> Side \<Rightarrow> PriceTicks \<Rightarrow> (unit, RejectReason) result" where
  "rest_check m side p =
     (if depth p (bm_side m side) > 0 then
        if depth p (bm_side m side) = bm_ORDERS m then Err PriceLevelOrderCapacity else Ok ()
      else if level_count (bm_side m side) = bm_LEVELS m then Err PriceLevelCapacity else Ok ())"

definition order_of :: "NewOrder \<Rightarrow> Quantity \<Rightarrow> Order" where
  "order_of order q = \<lparr>o_id = no_order_id order, o_account = no_account_id order, o_quantity = q, o_sequence = no_sequence order\<rparr>"

definition spec_admit :: "BookModel \<Rightarrow> NewOrder \<Rightarrow> (unit, RejectReason) result" where
  "spec_admit m order =
     (if no_instrument_id order \<noteq> bm_instrument m then Err InvalidInstrument
      else if no_price order \<le> 0 then Err InvalidPrice
      else if no_quantity order = 0 then Err InvalidQuantity
      else if no_order_id order \<in> ids (bm_side m Buy) \<union> ids (bm_side m Sell) then Err DuplicateOrderId
      else if no_time_in_force order = PostOnly \<and>
              (case bm_side m (opposite (no_side order)) of [] \<Rightarrow> False
               | e # _ \<Rightarrow> crosses (no_side order) (fst e) (no_price order)) then Err PostOnlyWouldTrade
      else Ok ())"

record Execution =
  ex_book :: BookModel
  ex_fills :: "(PriceTicks \<times> OrderId \<times> Quantity) list"
  ex_resting :: nat
  ex_discarded :: nat

definition spec_submit :: "BookModel \<Rightarrow> NewOrder \<Rightarrow> nat \<Rightarrow> (Execution, RejectReason) result" where
  "spec_submit m order report_capacity =
     and_then (spec_admit m order) (\<lambda>_.
       let side = no_side order;
           (fills, makers', left) = match_list side (no_price order) (no_quantity order) (bm_side m (opposite side));
           m' = set_side m (opposite side) makers' in
       if length fills > report_capacity then Err ReportCapacity
       else case no_time_in_force order of
         Fok \<Rightarrow> if left > 0 then Err InsufficientLiquidity
                else Ok \<lparr>ex_book = m', ex_fills = fills, ex_resting = 0, ex_discarded = 0\<rparr>
       | Ioc \<Rightarrow> Ok \<lparr>ex_book = m', ex_fills = fills, ex_resting = 0, ex_discarded = left\<rparr>
       | _ \<Rightarrow>
           if left = 0 then Ok \<lparr>ex_book = m', ex_fills = fills, ex_resting = 0, ex_discarded = 0\<rparr>
           else and_then (rest_check m side (no_price order)) (\<lambda>_.
             Ok \<lparr>ex_book = set_side m' side (enqueue (descending side) (no_price order) (order_of order left) (bm_side m side)),
                  ex_fills = fills, ex_resting = left, ex_discarded = 0\<rparr>))"

definition find_side :: "BookModel \<Rightarrow> OrderId \<Rightarrow> (Side \<times> PriceTicks \<times> Order) option" where
  "find_side m k =
     (case find_order k (bm_side m Buy) of
        Some (p, x) \<Rightarrow> Some (Buy, p, x)
      | None \<Rightarrow> map_option (\<lambda>(p, x). (Sell, p, x)) (find_order k (bm_side m Sell)))"

definition spec_cancel :: "BookModel \<Rightarrow> CancelOrder \<Rightarrow> (BookModel \<times> CancelledOrder, RejectReason) result" where
  "spec_cancel m c =
     (if co_instrument_id c \<noteq> bm_instrument m then Err InvalidInstrument
      else case find_side m (co_order_id c) of
        None \<Rightarrow> Err UnknownOrder
      | Some (side, p, x) \<Rightarrow>
          if o_account x \<noteq> co_account_id c then Err NotOrderOwner
          else Ok (set_side m side (delete_order (co_order_id c) (bm_side m side)),
                   \<lparr>cn_order_id = o_id x, cn_account_id = o_account x, cn_quantity = o_quantity x\<rparr>))"

text \<open>The crossing and capacity conditions of a replace that loses its place.\<close>

definition spec_preflight :: "BookModel \<Rightarrow> Side \<Rightarrow> PriceTicks \<Rightarrow> PriceTicks \<Rightarrow> (unit, RejectReason) result" where
  "spec_preflight m side p q =
     (if q \<noteq> p \<and> (case bm_side m (opposite side) of [] \<Rightarrow> False | e # _ \<Rightarrow> crosses side (fst e) q) then Err ReplaceWouldCross
      else if q \<noteq> p \<and> depth q (bm_side m side) > 0 \<and> depth q (bm_side m side) = bm_ORDERS m then Err PriceLevelOrderCapacity
      else if depth q (bm_side m side) = 0 \<and> level_count (bm_side m side) = bm_LEVELS m \<and> depth p (bm_side m side) \<noteq> 1
        then Err PriceLevelCapacity
      else Ok ())"

text \<open>
  A replace at the same price with a smaller quantity keeps its place; any other replace leaves its
  place and joins the tail at the new price, and is rejected when the new price would trade.
\<close>

definition spec_replace :: "BookModel \<Rightarrow> ReplaceOrder \<Rightarrow> (BookModel \<times> ReplacedOrder, RejectReason) result" where
  "spec_replace m r =
     (if ro_instrument_id r \<noteq> bm_instrument m then Err InvalidInstrument
      else case find_side m (ro_order_id r) of
        None \<Rightarrow> Err UnknownOrder
      | Some (side, p, x) \<Rightarrow>
          if o_account x \<noteq> ro_account_id r then Err NotOrderOwner
          else if ro_price r \<le> 0 then Err InvalidPrice
          else if ro_quantity r = 0 then Err InvalidQuantity
          else if ro_price r = p \<and> ro_quantity r < o_quantity x then
            Ok (set_side m side (map (\<lambda>e. if o_id (snd e) = ro_order_id r then (p, x\<lparr>o_quantity := ro_quantity r\<rparr>) else e)
                  (bm_side m side)),
                replaced r (o_quantity x) False)
          else and_then (spec_preflight m side p (ro_price r)) (\<lambda>_.
            Ok (set_side m side
                 (enqueue (descending side) (ro_price r)
                   \<lparr>o_id = ro_order_id r, o_account = ro_account_id r, o_quantity = ro_quantity r, o_sequence = ro_sequence r\<rparr>
                   (delete_order (ro_order_id r) (bm_side m side))),
               replaced r (o_quantity x) True)))"

section \<open>The abstraction\<close>

definition book_abs :: "OrderBook \<Rightarrow> BookModel" where
  "book_abs b = \<lparr>bm_LEVELS = ob_LEVELS b, bm_ORDERS = ob_ORDERS b, bm_instrument = ob_instrument b, bm_side = book_list b\<rparr>"

definition book_ok :: "OrderBook \<Rightarrow> bool" where
  "book_ok b \<longleftrightarrow> book_wf b \<and> 0 < ob_ORDERS b \<and>
     (\<forall>e \<in> set (book_list b Buy). \<forall>f \<in> set (book_list b Sell). fst e < fst f)"

section \<open>Facts about the lists\<close>

lemma makers_distinct:
  assumes "sides_wf b"
  shows "distinct (makers b side)" and "(p, i, s) \<in> set (makers b side) \<Longrightarrow> (p', i, s) \<in> set (makers b side) \<Longrightarrow> p = p'"
proof -
  note inv = sides_wfD [OF assms, of side]
  let ?ls = "side_levels b side"
  have dist: "distinct (map snd (lindex_iter (side_index b side)))" using inv by (simp add: side_inv_def lindex_inv_def)
  have xs: "distinct (xs_at ?ls i)" if "(p, i) \<in> set (lindex_iter (side_index b side))" for p i
  proof -
    from side_level [OF inv that] obtain L ys where "level_of ?ls i = Some L" "level_inv L ys" by (auto simp: level_ok_def)
    then show ?thesis by (simp add: xs_at_def level_xs_eq, simp add: level_inv_def)
  qed
  have "distinct (maker_entries ?ls es)"
    if "distinct (map snd es)" "set es \<subseteq> set (lindex_iter (side_index b side))" for es
    using that
  proof (induction es)
    case (Cons e es)
    then have "distinct (map (\<lambda>s. (fst e, snd e, s)) (xs_at ?ls (snd e)))"
      using xs [of "fst e" "snd e"] by (auto simp: distinct_map inj_on_def)
    moreover have "set (map (\<lambda>s. (fst e, snd e, s)) (xs_at ?ls (snd e))) \<inter> set (maker_entries ?ls es) = {}"
      using Cons.prems(1) by (auto simp: in_maker_entries rev_image_eqI)
    ultimately show ?case using Cons by simp
  qed simp
  then show "distinct (makers b side)" unfolding makers_def using dist by blast
  show "(p, i, s) \<in> set (makers b side) \<Longrightarrow> (p', i, s) \<in> set (makers b side) \<Longrightarrow> p = p'"
    using dist unfolding makers_def in_maker_entries by (metis distinct_map fst_conv inj_onD snd_conv)
qed

lemma makers_orders:
  assumes "sides_wf b" and "(p, i, s) \<in> set (makers b side)"
  shows "\<exists>r. slot_content (pair_of b) (loc side i s) = Some r \<and> orders_at b (loc side i s) = Some (view r) \<and> 0 < rst_quantity r"
proof -
  note inv = sides_wfD [OF assms(1), of side]
  from makers_iff [OF inv, of i s] assms(2) obtain r where r: "slot_content (pair_of b) (loc side i s) = Some r" by blast
  from assms(2) have p: "(p, i) \<in> set (lindex_iter (side_index b side))" by (simp add: makers_def in_maker_entries)
  from side_level [OF inv p] r have "0 < rst_quantity r"
    by (auto simp: slot_content_def level_ok_def)
  with r show ?thesis by (simp add: orders_at_def)
qed

lemma orders_unique:
  assumes wf: "book_wf b" and "orders_at b l = Some x" "orders_at b l' = Some y" "o_id x = o_id y"
  shows "l = l'"
proof -
  have ok: "loc_ok (ob_LEVELS b) (ob_ORDERS b) l" if "orders_at b l = Some x" for l x
  proof -
    have "slot_content (pair_of b) (loc (ol_side l) (ol_level_index l) (ol_slot l)) \<noteq> None" using that by (auto simp: orders_at_def)
    with makers_iff [OF wf_side [OF wf]] makers_loc_ok [OF wf_side [OF wf]] show ?thesis by (metis loc_eta)
  qed
  obtain r r' where r: "slot_content (pair_of b) l = Some r" "slot_content (pair_of b) l' = Some r'" "rst_id r = rst_id r'"
    using assms(2-4) by (auto simp: orders_at_def view_def)
  then have "handle (ob_LEVELS b) (ob_ORDERS b) (pair_of b) (rst_id r) (loc_code (ob_ORDERS b) l) (rst_index_slot r)"
    "handle (ob_LEVELS b) (ob_ORDERS b) (pair_of b) (rst_id r) (loc_code (ob_ORDERS b) l') (rst_index_slot r')"
    using ok assms(2,3) unfolding handle_def by metis+
  from index_inv_unique [OF wf_index [OF wf] this] show ?thesis
    using loc_code_inj ok assms(2,3) by blast
qed

end
