(* ===== verification/BookLists.thy ===== *)
theory BookLists
  imports BookSpec
begin

text \<open>
  The queries of the book read off its priority lists: whether a price has a level and how full it
  is, how many levels a side has, the best price, and where an order with a given id rests. The
  located priority list \<open>zmakers\<close> pairs each location of a side with the order there.
\<close>

section \<open>Located priority lists\<close>

definition zlist :: "(OrderLocation \<Rightarrow> Order option) \<Rightarrow> Side \<Rightarrow> (PriceTicks \<times> nat \<times> nat) list \<Rightarrow> (PriceTicks \<times> nat \<times> nat \<times> Order) list" where
  "zlist f side M = map (\<lambda>(p, i, s). (p, i, s, the (f (loc side i s)))) M"

definition zmakers :: "OrderBook \<Rightarrow> Side \<Rightarrow> (PriceTicks \<times> nat \<times> nat \<times> Order) list" where
  "zmakers b side = zlist (orders_at b) side (makers b side)"

definition unzip :: "(PriceTicks \<times> nat \<times> nat \<times> Order) list \<Rightarrow> plist" where
  "unzip zs = map (\<lambda>(p, i, s, x). (p, x)) zs"

lemma zlist_simps [simp]:
  "zlist f side [] = []" "zlist f side (m # M) = (fst m, fst (snd m), snd (snd m), the (f (loc side (fst (snd m)) (snd (snd m))))) # zlist f side M"
  "zlist f side (M @ N) = zlist f side M @ zlist f side N"
  by (auto simp: zlist_def split: prod.splits)

lemma unzip_simps [simp]:
  "unzip [] = []" "unzip ((p, i, s, x) # zs) = (p, x) # unzip zs" "unzip (zs @ zs') = unzip zs @ unzip zs'"
  by (simp_all add: unzip_def)

lemma book_list_zmakers: "sides_wf b \<Longrightarrow> book_list b side = unzip (zmakers b side)"
  unfolding book_list_makers [OF sides_wfD] by (auto simp: zmakers_def zlist_def unzip_def)

lemma zlist_cong:
  assumes "\<And>p i s. (p, i, s) \<in> set M \<Longrightarrow> f (loc side i s) = g (loc side i s)"
  shows "zlist f side M = zlist g side M"
  unfolding zlist_def using assms by (intro map_cong) auto

lemma zlist_upd:
  assumes "\<And>p. (p, i, s) \<notin> set M"
  shows "zlist (f(loc side i s := v)) side M = zlist f side M"
  by (rule zlist_cong) (use assms in auto)

lemma zlist_upd_other: "side' \<noteq> side \<Longrightarrow> zlist (f(loc side i s := v)) side' M = zlist f side' M"
  by (rule zlist_cong) auto

lemma makers_split_fresh:
  assumes "sides_wf b" and "makers b side = M1 @ (p, i, s) # M2"
  shows "(p', i, s) \<notin> set (M1 @ M2)"
proof
  assume m: "(p', i, s) \<in> set (M1 @ M2)"
  with makers_distinct(2) [OF assms(1), of p' i s side p] assms(2) have "p' = p" by auto
  with m makers_distinct(1) [OF assms(1), of side] assms(2) show False by auto
qed

lemma zmakers_split:
  assumes "zmakers b side = Z1 @ (p, i, s, x) # Z2"
  obtains M1 M2 where "makers b side = M1 @ (p, i, s) # M2" "Z1 = zlist (orders_at b) side M1" "Z2 = zlist (orders_at b) side M2"
    "x = the (orders_at b (loc side i s))"
proof -
  obtain M1 Ms where M: "makers b side = M1 @ Ms" "Z1 = zlist (orders_at b) side M1" "(p, i, s, x) # Z2 = zlist (orders_at b) side Ms"
    using assms unfolding zmakers_def zlist_def by (auto simp: map_eq_append_conv)
  then show thesis using that by (cases Ms) auto
qed

lemma zmakers_order:
  assumes "sides_wf b" and "(p, i, s, x) \<in> set (zmakers b side)"
  shows "orders_at b (loc side i s) = Some x" and "0 < o_quantity x" and "(p, i, s) \<in> set (makers b side)"
proof -
  from assms(2) have m: "(p, i, s) \<in> set (makers b side)" "x = the (orders_at b (loc side i s))"
    by (auto simp: zmakers_def zlist_def)
  from makers_orders [OF assms(1) m(1)] m(2)
  show "orders_at b (loc side i s) = Some x" "0 < o_quantity x" by (auto simp: view_def)
  show "(p, i, s) \<in> set (makers b side)" by (rule m(1))
qed

text \<open>The lists after a removal, a reduction and a rest.\<close>

lemma removed_lists:
  assumes "sides_wf b" and "zmakers b side = Z1 @ (p, i, s, x) # Z2" and "makers b side = M1 @ (p, i, s) # M2"
    and "Z1 = zlist (orders_at b) side M1" "Z2 = zlist (orders_at b) side M2" and "removed_at b b' side i s (M1 @ M2)"
  shows "zmakers b' side = Z1 @ Z2" and "\<And>side'. side' \<noteq> side \<Longrightarrow> zmakers b' side' = zmakers b side'"
proof -
  have "zlist ((orders_at b)(loc side i s := None)) side (M1 @ M2) = zlist (orders_at b) side (M1 @ M2)"
    by (rule zlist_upd) (use makers_split_fresh [OF assms(1,3)] in blast)
  with assms(4-6) show "zmakers b' side = Z1 @ Z2" by (simp add: zmakers_def removed_at_def)
  show "zmakers b' side' = zmakers b side'" if "side' \<noteq> side" for side'
    using assms(6) that by (simp add: zmakers_def removed_at_def zlist_upd_other)
qed

lemma reduced_lists:
  assumes "sides_wf b" and "makers b side = M1 @ (p, i, s) # M2"
    and "Z1 = zlist (orders_at b) side M1" "Z2 = zlist (orders_at b) side M2"
    and "\<And>side'. makers b' side' = makers b side'" and "orders_at b' = (orders_at b)(loc side i s \<mapsto> y)"
  shows "zmakers b' side = Z1 @ (p, i, s, y) # Z2" and "\<And>side'. side' \<noteq> side \<Longrightarrow> zmakers b' side' = zmakers b side'"
proof -
  have "zlist ((orders_at b)(loc side i s := Some y)) side M = zlist (orders_at b) side M" if "set M \<subseteq> set (M1 @ M2)" for M
    by (rule zlist_upd) (use makers_split_fresh [OF assms(1,2)] that in blast)
  from this [of M1] this [of M2] assms show "zmakers b' side = Z1 @ (p, i, s, y) # Z2" by (simp add: zmakers_def)
  show "zmakers b' side' = zmakers b side'" if "side' \<noteq> side" for side'
    using assms(5,6) that by (simp add: zmakers_def zlist_upd_other)
qed

lemma rested_lists:
  assumes "sides_wf b" and "rested_at b b' side p x i s"
  shows "book_list b' side = enqueue (descending side) p x (book_list b side)"
    and "\<And>side'. side' \<noteq> side \<Longrightarrow> book_list b' side' = book_list b side'"
proof -
  from assms(2) obtain M1 M2 where M: "makers b side = M1 @ M2" "makers b' side = M1 @ (p, i, s) # M2"
      "\<forall>e \<in> set M1. \<not> before (descending side) p (fst e)" "\<forall>e \<in> set M2. before (descending side) p (fst e)"
    and b': "book_wf b'" "orders_at b (loc side i s) = None" "orders_at b' = (orders_at b)(loc side i s \<mapsto> x)"
      "\<And>side'. side' \<noteq> side \<Longrightarrow> makers b' side' = makers b side'"
    unfolding rested_at_def by blast
  note wf' = wf_sides [OF b'(1)]
  have "(q, i, s) \<notin> set (M1 @ M2)" for q
    using makers_orders [OF assms(1), of q i s side] M(1) b'(2) by fastforce
  then have z: "zlist (orders_at b') side M = zlist (orders_at b) side M" if "set M \<subseteq> set (M1 @ M2)" for M
    unfolding b'(3) by (intro zlist_upd) (use that in blast)
  let ?A = "unzip (zlist (orders_at b) side M1)" and ?B = "unzip (zlist (orders_at b) side M2)"
  have b1: "book_list b side = ?A @ ?B" by (simp add: book_list_zmakers [OF assms(1)] zmakers_def M(1))
  have b2: "book_list b' side = ?A @ (p, x) # ?B"
    using z [of M1] z [of M2] by (simp add: book_list_zmakers [OF wf'] zmakers_def M(2) b'(3))
  have A: "\<forall>e \<in> set ?A. \<not> before (descending side) p (fst e)" using M(3) by (auto simp: unzip_def zlist_def)
  have B: "\<forall>e \<in> set ?B. before (descending side) p (fst e)" using M(4) by (auto simp: unzip_def zlist_def)
  have "takeWhile (\<lambda>e. \<not> before (descending side) p (fst e)) (?A @ ?B) = ?A"
    "dropWhile (\<lambda>e. \<not> before (descending side) p (fst e)) (?A @ ?B) = ?B"
    using A B by (cases ?B; simp add: takeWhile_append dropWhile_append)+
  then show "book_list b' side = enqueue (descending side) p x (book_list b side)"
    unfolding enqueue_def b1 b2 by simp
  show "book_list b' side' = book_list b side'" if "side' \<noteq> side" for side'
    using b'(3,4) that by (simp add: book_list_zmakers [OF assms(1)] book_list_zmakers [OF wf'] zmakers_def zlist_upd_other)
qed

section \<open>Levels\<close>

text \<open>A side is its levels' queues one after another; no queue is empty and prices are distinct.\<close>

definition runs :: "('a \<Rightarrow> Order list) \<Rightarrow> (PriceTicks \<times> 'a) list \<Rightarrow> plist" where
  "runs f es = concat (map (\<lambda>(p, i). map (Pair p) (f i)) es)"

lemma runs_simps [simp]: "runs f [] = []" "runs f (e # es) = map (Pair (fst e)) (f (snd e)) @ runs f es"
  by (auto simp: runs_def split: prod.splits)

lemma runs_subset: "fst ` set (runs f es) \<subseteq> fst ` set es"
  by (induction es) auto

lemma runs_prices: "(\<And>p i. (p, i) \<in> set es \<Longrightarrow> f i \<noteq> []) \<Longrightarrow> fst ` set (runs f es) = fst ` set es"
proof (induction es)
  case (Cons e es)
  have "f (snd e) \<noteq> []" using Cons.prems [of "fst e" "snd e"] by simp
  then have "fst ` Pair (fst e) ` set (f (snd e)) = {fst e}" by (simp add: image_image image_constant_conv)
  with Cons show ?case by (auto simp: image_Un)
qed simp

lemma depth_simps [simp]: "depth p [] = 0" "depth p (xs @ ys) = depth p xs + depth p ys"
  "depth p (map (Pair q) zs) = (if q = p then length zs else 0)"
  by (simp_all add: depth_def filter_map o_def)

lemma depth_zero: "depth p xs = 0 \<longleftrightarrow> p \<notin> fst ` set xs"
  by (auto simp: depth_def filter_empty_conv)

lemma depth_runs:
  assumes "distinct (map fst es)"
  shows "depth p (runs f es) = (case map_of es p of None \<Rightarrow> 0 | Some i \<Rightarrow> length (f i))"
  using assms
proof (induction es)
  case (Cons e es)
  have "fst e \<notin> fst ` set (runs f es)" using Cons.prems runs_subset [of f es] by auto
  then have "depth (fst e) (runs f es) = 0" by (simp add: depth_zero)
  with Cons show ?case by (cases e) auto
qed simp

lemma level_count_card: "level_count xs = card (fst ` set xs)"
  unfolding level_count_def by (metis list.set_map remdups_id_iff_distinct distinct_card distinct_remdups set_remdups)

lemma side_iter_facts:
  assumes "sides_wf b"
  shows "lindex_inv (ob_LEVELS b) (descending side) (side_index b side)"
    and "distinct (map fst (lindex_iter (side_index b side)))"
    and "sorted_wrt (before (descending side)) (map fst (lindex_iter (side_index b side)))"
    and "\<And>p i. (p, i) \<in> set (lindex_iter (side_index b side)) \<Longrightarrow>
      \<exists>L. level_at b side i = Some L \<and> queue_at (side_levels b side) i = level_queue L \<and>
        length (level_queue L) = pl_len L \<and> level_queue L \<noteq> [] \<and> 0 < p"
proof -
  note inv = sides_wfD [OF assms, of side]
  show li: "lindex_inv (ob_LEVELS b) (descending side) (side_index b side)" using inv by (simp add: side_inv_def)
  show "distinct (map fst (lindex_iter (side_index b side)))" by (rule lindex_distinct [OF li])
  show "sorted_wrt (before (descending side)) (map fst (lindex_iter (side_index b side)))" using li by (simp add: lindex_inv_def)
  fix p i
  assume e: "(p, i) \<in> set (lindex_iter (side_index b side))"
  from side_level [OF inv e] obtain L xs where L: "level_of (side_levels b side) i = Some L" "level_inv L xs" "xs \<noteq> []"
    by (auto simp: level_ok_def)
  have "0 < p" using inv e unfolding side_inv_def by blast
  moreover have "level_queue L \<noteq> []" using level_queue_eq [OF L(2)] L(3) by simp
  ultimately show "\<exists>L. level_at b side i = Some L \<and> queue_at (side_levels b side) i = level_queue L \<and>
        length (level_queue L) = pl_len L \<and> level_queue L \<noteq> [] \<and> 0 < p"
    using L level_queue_length [OF L(2)] by (auto simp: level_at_level_of queue_at_def)
qed

lemma book_list_runs: "book_list b side = runs (queue_at (side_levels b side)) (lindex_iter (side_index b side))"
  by (simp add: book_list_def runs_def)

lemma book_list_prices:
  assumes "sides_wf b"
  shows "fst ` set (book_list b side) = fst ` set (lindex_iter (side_index b side))"
  unfolding book_list_runs by (rule runs_prices) (use side_iter_facts(4) [OF assms] in fastforce)

lemma level_lookup:
  assumes "sides_wf b"
  obtains (Absent) "lindex_find (side_index b side) p (descending side) = None" "depth p (book_list b side) = 0"
      "p \<notin> fst ` set (lindex_iter (side_index b side))"
  | (Present) i L where "lindex_find (side_index b side) p (descending side) = Some i" "level_at b side i = Some L"
      "depth p (book_list b side) = pl_len L" "0 < pl_len L" "(p, i) \<in> set (lindex_iter (side_index b side))"
proof -
  note f = side_iter_facts [OF assms, where side = side]
  have find: "lindex_find (side_index b side) p (descending side) = map_of (lindex_iter (side_index b side)) p"
    by (rule lindex_find_eq [OF f(1)])
  have dp: "depth p (book_list b side) = (case map_of (lindex_iter (side_index b side)) p of
      None \<Rightarrow> 0 | Some i \<Rightarrow> length (queue_at (side_levels b side) i))"
    unfolding book_list_runs by (rule depth_runs [OF f(2)])
  show thesis
  proof (cases "map_of (lindex_iter (side_index b side)) p")
    case None
    moreover from this have "p \<notin> fst ` set (lindex_iter (side_index b side))" by (simp only: map_of_eq_None_iff) auto
    ultimately show thesis using find dp by (intro Absent) (simp_all only: option.case not_False_eq_True)
  next
    case (Some i)
    then have m: "(p, i) \<in> set (lindex_iter (side_index b side))" by (rule map_of_SomeD)
    from f(4) [OF m] obtain L where L: "level_at b side i = Some L" "queue_at (side_levels b side) i = level_queue L"
      "length (level_queue L) = pl_len L" "level_queue L \<noteq> []" by blast
    then have "0 < pl_len L" by (metis length_greater_0_conv)
    with Some L m find dp show thesis by (intro Present [of i L]) auto
  qed
qed

lemma level_count_iter:
  assumes "sides_wf b"
  shows "level_count (book_list b side) = length (lindex_iter (side_index b side))"
  unfolding level_count_card book_list_prices [OF assms]
  using side_iter_facts(2) [OF assms, of side] by (metis distinct_card length_map list.set_map)

lemma is_full_level_count:
  assumes "sides_wf b"
  shows "lindex_is_full (side_index b side) \<longleftrightarrow> level_count (book_list b side) = ob_LEVELS b"
    and "level_count (book_list b side) \<le> ob_LEVELS b"
proof -
  note li = side_iter_facts(1) [OF assms, of side]
  show "lindex_is_full (side_index b side) \<longleftrightarrow> level_count (book_list b side) = ob_LEVELS b"
    using lindex_sizes [OF li] by (auto simp: level_count_iter [OF assms] lindex_is_full_def lindex_iter_length [OF li])
  show "level_count (book_list b side) \<le> ob_LEVELS b"
    using lindex_sizes [OF li] by (simp add: level_count_iter [OF assms] lindex_iter_length [OF li])
qed

lemma best_entry_list:
  assumes "sides_wf b"
  shows "map_option fst (best_entry b side) = (case book_list b side of [] \<Rightarrow> None | e # _ \<Rightarrow> Some (fst e))"
proof (cases "lindex_iter (side_index b side)")
  case Nil
  then show ?thesis by (simp add: best_entry_def book_list_runs)
next
  case (Cons e es)
  then obtain L where "queue_at (side_levels b side) (snd e) = level_queue L" "level_queue L \<noteq> []"
    using side_iter_facts(4) [OF assms, of "fst e" "snd e" side] by auto
  then show ?thesis using Cons by (cases "level_queue L") (auto simp: best_entry_def book_list_runs)
qed

section \<open>Priority order\<close>

definition prio_sorted :: "bool \<Rightarrow> plist \<Rightarrow> bool" where
  "prio_sorted d xs \<longleftrightarrow> sorted_wrt (\<lambda>e f. \<not> before d (fst f) (fst e)) xs"

lemma runs_sorted: "sorted_wrt (before d) (map fst es) \<Longrightarrow> prio_sorted d (runs f es)"
  unfolding prio_sorted_def
proof (induction es)
  case (Cons e es)
  have "sorted_wrt (\<lambda>e f. \<not> before d (fst f) (fst e)) (map (Pair (fst e)) ys)" for ys
    by (induction ys) auto
  moreover have "\<forall>x \<in> set (runs f es). \<not> before d (fst x) (fst e)"
    using Cons.prems runs_subset [of f es] by (fastforce dest: before_asym)
  ultimately show ?case using Cons by (simp add: sorted_wrt_append)
qed simp

lemma book_list_sorted: "sides_wf b \<Longrightarrow> prio_sorted (descending side) (book_list b side)"
  unfolding book_list_runs by (rule runs_sorted) (rule side_iter_facts(3))

section \<open>Orders by id\<close>

lemma oi_location_iff:
  assumes wf: "book_wf b"
  shows "oi_location (ob_LEVELS b) (ob_ORDERS b) (ob_index b) k = Some l \<longleftrightarrow> (\<exists>x. orders_at b l = Some x \<and> o_id x = k)"
proof -
  note index = wf_index [OF wf]
  have pinv: "probe_inv (oi_probe (ob_index b))" using index by (simp add: index_inv_def)
  have mirror: "slot_holds (oi_probe (ob_index b)) i k (Suc v) \<longleftrightarrow> handle (ob_LEVELS b) (ob_ORDERS b) (pair_of b) k v i" for i v
    using index unfolding index_inv_def by blast
  have "oi_location (ob_LEVELS b) (ob_ORDERS b) (ob_index b) k = Some l \<longleftrightarrow>
      (\<exists>i v. slot_holds (oi_probe (ob_index b)) i k (Suc v) \<and> decode_location (ob_LEVELS b) (ob_ORDERS b) (Suc v) = Some l)"
  proof (cases "oi_find_slot (ob_index b) k")
    case None
    then have "find_slot (oi_probe (ob_index b)) k = None" by (simp add: oi_find_refines)
    with find_slot_None [OF pinv] None show ?thesis by (simp add: oi_location_def)
  next
    case (Some i)
    then have "find_slot (oi_probe (ob_index b)) k = Some i" by (simp add: oi_find_refines)
    with find_slot_iff [OF pinv] obtain e where e: "slot_holds (oi_probe (ob_index b)) i k e" by blast
    with pinv have "0 < e" unfolding probe_inv_def by blast
    with e obtain v where v: "e = Suc v" "slot_holds (oi_probe (ob_index b)) i k (Suc v)" by (cases e) auto
    have uniq: "j = i \<and> w = v" if "slot_holds (oi_probe (ob_index b)) j k (Suc w)" for j w
      using probe_inv_unique [OF pinv that v(2)] that v(2) by (auto simp: slot_holds_def)
    have "i < length (ob_index b)" "ix_location (ob_index b ! i) = Some (Suc v)" using v(2) by (simp_all add: slot_holds_oi)
    then have "oi_location (ob_LEVELS b) (ob_ORDERS b) (ob_index b) k = decode_location (ob_LEVELS b) (ob_ORDERS b) (Suc v)"
      using Some by (simp add: oi_location_def)
    then have eq: "oi_location (ob_LEVELS b) (ob_ORDERS b) (ob_index b) k = Some l \<longleftrightarrow>
        decode_location (ob_LEVELS b) (ob_ORDERS b) (Suc v) = Some l" by simp
    show ?thesis unfolding eq using v(2) uniq by (metis (no_types))
  qed
  also have "\<dots> \<longleftrightarrow> (\<exists>x. orders_at b l = Some x \<and> o_id x = k)"
  proof
    assume "\<exists>i v. slot_holds (oi_probe (ob_index b)) i k (Suc v) \<and> decode_location (ob_LEVELS b) (ob_ORDERS b) (Suc v) = Some l"
    then obtain i v where "handle (ob_LEVELS b) (ob_ORDERS b) (pair_of b) k v i" "loc_ok (ob_LEVELS b) (ob_ORDERS b) l"
      "v = loc_code (ob_ORDERS b) l" using mirror decode_iff by blast
    then obtain r where "slot_content (pair_of b) l = Some r" "rst_id r = k"
      unfolding handle_def using loc_code_inj by blast
    then show "\<exists>x. orders_at b l = Some x \<and> o_id x = k" by (simp add: orders_at_def view_def)
  next
    assume "\<exists>x. orders_at b l = Some x \<and> o_id x = k"
    then obtain r where r: "slot_content (pair_of b) l = Some r" "rst_id r = k" by (auto simp: orders_at_def view_def)
    then have "slot_content (pair_of b) (loc (ol_side l) (ol_level_index l) (ol_slot l)) \<noteq> None" by simp
    then have ok: "loc_ok (ob_LEVELS b) (ob_ORDERS b) l"
      using makers_iff [OF wf_side [OF wf]] makers_loc_ok [OF wf_side [OF wf]] by (metis loc_eta)
    then have "handle (ob_LEVELS b) (ob_ORDERS b) (pair_of b) k (loc_code (ob_ORDERS b) l) (rst_index_slot r)"
      using r unfolding handle_def by blast
    with mirror ok decode_iff show "\<exists>i v. slot_holds (oi_probe (ob_index b)) i k (Suc v) \<and>
        decode_location (ob_LEVELS b) (ob_ORDERS b) (Suc v) = Some l" by blast
  qed
  finally show ?thesis .
qed

lemma orders_at_zmakers:
  assumes "sides_wf b"
  shows "orders_at b (loc side i s) = Some x \<longleftrightarrow> (\<exists>p. (p, i, s, x) \<in> set (zmakers b side))"
proof
  assume x: "orders_at b (loc side i s) = Some x"
  then have "slot_content (pair_of b) (loc side i s) \<noteq> None" by (auto simp: orders_at_def)
  then obtain p where "(p, i, s) \<in> set (makers b side)" using makers_iff [OF sides_wfD [OF assms]] by blast
  with x show "\<exists>p. (p, i, s, x) \<in> set (zmakers b side)" by (force simp: zmakers_def zlist_def)
qed (use zmakers_order(1) [OF assms] in blast)

lemma in_ids: "sides_wf b \<Longrightarrow> k \<in> ids (book_list b side) \<longleftrightarrow> (\<exists>i s x. orders_at b (loc side i s) = Some x \<and> o_id x = k)"
  unfolding orders_at_zmakers by (force simp: ids_def book_list_zmakers unzip_def)

lemma fresh_id_iff:
  assumes "sides_wf b"
  shows "fresh_id b k \<longleftrightarrow> k \<notin> ids (book_list b Buy) \<union> ids (book_list b Sell)"
proof -
  have "(\<exists>l x. orders_at b l = Some x \<and> o_id x = k) \<longleftrightarrow> (\<exists>side i s x. orders_at b (loc side i s) = Some x \<and> o_id x = k)"
    by (blast intro: loc_eta [symmetric] subst [OF loc_eta [symmetric], of "\<lambda>l. orders_at b l = Some _"])
  then show ?thesis unfolding fresh_id_def Un_iff in_ids [OF assms] by (metis (full_types) Side.exhaust)
qed

lemma contains_order_iff:
  assumes "book_wf b"
  shows "contains_order b k \<longleftrightarrow> k \<in> ids (book_list b Buy) \<union> ids (book_list b Sell)"
  using fresh_id_iff [OF wf_sides [OF assms], of k] oi_location_iff [OF assms, of k]
  unfolding contains_order_def fresh_id_def by (metis not_None_eq)

end
