(* ===== verification/BookMatch.thy ===== *)
theory BookMatch
  imports BookLists
begin

text \<open>
  Planning and applying fills. The nested loops of \<open>build_plan\<close> compute \<open>walk\<close>, one pass over the
  located priority list; \<open>walk\<close> is \<open>match_list\<close> of the specification with locations; and applying
  the planned fills one by one consumes exactly that prefix of the list.
\<close>

section \<open>The planned fills\<close>

type_synonym located = "PriceTicks \<times> nat \<times> nat \<times> Order"

fun walk :: "Side \<Rightarrow> PriceTicks \<Rightarrow> nat \<Rightarrow> located list \<Rightarrow> FillEntry list \<times> nat" where
  "walk side limit n [] = ([], n)"
| "walk side limit n ((p, i, s, x) # zs) =
     (if n = 0 \<or> \<not> crosses side p limit then ([], n)
      else let t = min n (o_quantity x); (fs, n') = walk side limit (n - t) zs in
        (\<lparr>fe_level_index = i, fe_slot = s, fe_order_id = o_id x, fe_price = p, fe_quantity = t\<rparr> # fs, n'))"

definition fill_of :: "FillEntry \<Rightarrow> PriceTicks \<times> OrderId \<times> Quantity" where
  "fill_of f = (fe_price f, fe_order_id f, fe_quantity f)"

lemma walk_zero [simp]: "walk side limit 0 zs = ([], 0)"
  by (cases zs) auto

lemma walk_match:
  "walk side limit n zs = (fs, n') \<Longrightarrow> \<exists>rest. match_list side limit n (unzip zs) = (map fill_of fs, rest, n')"
proof (induction zs arbitrary: n fs n')
  case (Cons z zs)
  obtain p i s x where z: "z = (p, i, s, x)" by (cases z) auto
  show ?case
  proof (cases "n = 0 \<or> \<not> crosses side p limit")
    case True
    with Cons.prems z show ?thesis by auto
  next
    case False
    obtain fs' m where w: "walk side limit (n - min n (o_quantity x)) zs = (fs', m)" by fastforce
    with Cons.prems z False have fs: "fs = \<lparr>fe_level_index = i, fe_slot = s, fe_order_id = o_id x, fe_price = p,
      fe_quantity = min n (o_quantity x)\<rparr> # fs'" "n' = m" by (auto simp: Let_def)
    from Cons.IH [OF w] obtain rest where r: "match_list side limit (n - min n (o_quantity x)) (unzip zs) = (map fill_of fs', rest, m)" by blast
    show ?thesis
    proof (cases "o_quantity x \<le> n")
      case True
      with r z False fs show ?thesis by (auto simp: fill_of_def min_def split: if_splits)
    next
      case False
      with w fs \<open>\<not> (n = 0 \<or> \<not> crosses side p limit)\<close> z show ?thesis by (auto simp: fill_of_def)
    qed
  qed
qed simp

lemma walk_append:
  assumes "\<forall>z \<in> set zs. crosses side (fst z) limit"
  shows "walk side limit n (zs @ zs') =
    (let (fs, m) = walk side limit n zs; (fs', m') = walk side limit m zs' in (fs @ fs', m'))"
  using assms
proof (induction zs arbitrary: n)
  case (Cons z zs)
  obtain p i s x where z: "z = (p, i, s, x)" by (cases z) auto
  show ?case
  proof (cases "n = 0")
    case False
    with Cons.IH [of "n - min n (o_quantity x)"] Cons.prems z show ?thesis by (auto simp: Let_def split: prod.splits)
  qed simp
qed simp

text \<open>The plan a sequence of fills leads to: every push must find room.\<close>

definition plan_result :: "MatchPlan \<Rightarrow> FillEntry list \<times> nat \<Rightarrow> (MatchPlan \<times> nat, RejectReason) result option" where
  "plan_result plan w =
     (if length (mp_fills plan) + length (fst w) \<le> mp_capacity plan
      then Some (Ok (plan\<lparr>mp_fills := mp_fills plan @ fst w\<rparr>, snd w)) else Some (Err ReportCapacity))"

lemma plan_result_nil [simp]: "length (mp_fills plan) \<le> mp_capacity plan \<Longrightarrow> plan_result plan ([], n) = Some (Ok (plan, n))"
  by (simp add: plan_result_def)

definition zlevel :: "OrderSlot list \<Rightarrow> PriceTicks \<Rightarrow> nat \<Rightarrow> nat list \<Rightarrow> located list" where
  "zlevel S p i ys = map (\<lambda>s. (p, i, s, view (live_of (S ! s)))) ys"

lemma plan_level_walk:
  assumes "dll S prv cursor ys t NIL" and "NIL \<notin> set ys" and "length ys < fuel" and "crosses side p limit"
    and "length (mp_fills plan) \<le> mp_capacity plan"
  shows "plan_level fuel S i p cursor plan n = plan_result plan (walk side limit n (zlevel S p i ys))"
  using assms
proof (induction ys arbitrary: prv cursor fuel plan n)
  case Nil
  then show ?case by (cases fuel) (auto simp: zlevel_def)
next
  case (Cons y ys)
  then obtain f where f: "fuel = Suc f" by (cases fuel) auto
  obtain r where r: "S ! y = OrdLive r" using Cons.prems(1) by (cases "S ! y") auto
  have y: "cursor = y" "y < length S" "y \<noteq> NIL" using Cons.prems(1,2) by auto
  show ?case
  proof (cases "n = 0")
    case True
    with f Cons.prems(5) show ?thesis by simp
  next
    case False
    let ?t = "min n (rst_quantity r)"
    let ?fill = "\<lparr>fe_level_index = i, fe_slot = y, fe_order_id = rst_id r, fe_price = p, fe_quantity = ?t\<rparr>"
    obtain fs m where w: "walk side limit (n - ?t) (zlevel S p i ys) = (fs, m)" by fastforce
    have z: "walk side limit n (zlevel S p i (y # ys)) = (?fill # fs, m)"
      using False Cons.prems(4) w r by (simp add: zlevel_def view_def Let_def)
    show ?thesis
    proof (cases "length (mp_fills plan) \<ge> mp_capacity plan")
      case True
      then show ?thesis using y f False r unfolding z by (simp add: push_fill_def nth_opt_def plan_result_def Let_def)
    next
      case room: False
      let ?plan = "plan\<lparr>mp_fills := mp_fills plan @ [?fill]\<rparr>"
      have "plan_level f S i p (rst_next r) ?plan (n - ?t) = plan_result ?plan (walk side limit (n - ?t) (zlevel S p i ys))"
        by (rule Cons.IH) (use Cons.prems r f room in auto)
      then have "plan_level f S i p (rst_next r) ?plan (n - ?t) = plan_result plan (?fill # fs, m)"
        unfolding w plan_result_def by simp
      then show ?thesis using y f False r room unfolding z by (simp add: push_fill_def nth_opt_def Let_def)
    qed
  qed
qed

lemma walk_head_blocked:
  "zs \<noteq> [] \<Longrightarrow> \<not> crosses side (fst (hd zs)) limit \<Longrightarrow> walk side limit n zs = ([], n)"
  by (cases zs) auto

lemma plan_levels_walk:
  assumes wf: "sides_wf b" and sub: "set es \<subseteq> set (lindex_iter (side_index b mside))"
    and room: "length (mp_fills plan) \<le> mp_capacity plan"
  shows "plan_levels b order mside es plan n =
    plan_result plan (walk (no_side order) (no_price order) n (zlist (orders_at b) mside (maker_entries (side_levels b mside) es)))"
  using sub room
proof (induction es arbitrary: plan n)
  case (Cons e es)
  obtain p i where e: "e = (p, i)" by (cases e) auto
  let ?walk = "walk (no_side order) (no_price order)"
  note inv = sides_wfD [OF wf, of mside]
  from side_level [OF inv, of p i] Cons.prems(1) e obtain L xs where
    L: "level_of (side_levels b mside) i = Some L" "level_inv L xs" "xs \<noteq> []" by (auto simp: level_ok_def)
  have at: "level_at b mside i = Some L" using L(1) by (simp add: level_at_level_of)
  have xs: "xs_at (side_levels b mside) i = xs" using L by (simp add: xs_at_def level_xs_eq)
  have ord: "the (orders_at b (loc mside i s)) = view (live_of (pl_slots L ! s))" if "s \<in> set xs" for s
  proof -
    have "s < length (pl_slots L)" "is_live (pl_slots L ! s)" using that L(2) by (auto simp: level_inv_def)
    then have "content L s = Some (detach (live_of (pl_slots L ! s)))" by (cases "pl_slots L ! s") (auto simp: content_def')
    with L(1) show ?thesis by (simp add: orders_at_def slot_content_def)
  qed
  have zl: "zlist (orders_at b) mside (map (\<lambda>s. (p, i, s)) xs) = zlevel (pl_slots L) p i xs"
    unfolding zlist_def zlevel_def using ord by simp
  let ?rest = "zlist (orders_at b) mside (maker_entries (side_levels b mside) es)"
  have split: "zlist (orders_at b) mside (maker_entries (side_levels b mside) (e # es)) = zlevel (pl_slots L) p i xs @ ?rest"
    by (simp add: e xs zl)
  show ?case
  proof (cases "n = 0 \<or> \<not> crosses (no_side order) p (no_price order)")
    case True
    moreover have "?walk n (zlevel (pl_slots L) p i xs @ ?rest) = ([], n)" if "n \<noteq> 0"
      by (rule walk_head_blocked) (use True L(3) that in \<open>auto simp: zlevel_def hd_append hd_map\<close>)
    ultimately show ?thesis unfolding split using Cons.prems(2) e by (cases "n = 0") auto
  next
    case False
    have cr: "crosses (no_side order) p (no_price order)" using False by simp
    have pl: "plan_level (length (pl_slots L) + 1) (pl_slots L) i p (pl_head L) plan n =
        plan_result plan (?walk n (zlevel (pl_slots L) p i xs))"
      using level_inv_facts(1,3) [OF L(2)] L(2) Cons.prems(2) cr
      by (intro plan_level_walk) (auto simp: level_inv_def)
    obtain fs m where w: "?walk n (zlevel (pl_slots L) p i xs) = (fs, m)" by fastforce
    obtain fs' m' where w': "?walk m ?rest = (fs', m')" by fastforce
    have all: "?walk n (zlevel (pl_slots L) p i xs @ ?rest) = (fs @ fs', m')"
      by (subst walk_append) (use cr w w' in \<open>auto simp: zlevel_def\<close>)
    show ?thesis
    proof (cases "length (mp_fills plan) + length fs \<le> mp_capacity plan")
      case True
      have "plan_levels b order mside es (plan\<lparr>mp_fills := mp_fills plan @ fs\<rparr>) m =
          plan_result (plan\<lparr>mp_fills := mp_fills plan @ fs\<rparr>) (fs', m')"
        using Cons.IH [of "plan\<lparr>mp_fills := mp_fills plan @ fs\<rparr>" m] Cons.prems(1) True w' by simp
      then show ?thesis unfolding split all using False e at pl w True by (simp add: plan_result_def)
    next
      case no: False
      then show ?thesis unfolding split all using False e at pl w by (simp add: plan_result_def)
    qed
  qed
qed (simp add: plan_result_def)

lemma plan_levels_all:
  assumes "sides_wf b" and "length (mp_fills plan) \<le> mp_capacity plan"
  shows "plan_levels b order mside (lindex_iter (side_index b mside)) plan n =
    plan_result plan (walk (no_side order) (no_price order) n (zmakers b mside))"
  using plan_levels_walk [OF assms(1) order.refl assms(2)] by (simp add: zmakers_def makers_def)

section \<open>Single changes of a side\<close>

text \<open>A new book that differs only in the located list of one side.\<close>

definition changed :: "OrderBook \<Rightarrow> OrderBook \<Rightarrow> Side \<Rightarrow> located list \<Rightarrow> bool" where
  "changed b b' side Z \<longleftrightarrow> book_wf b' \<and> same_params b b' \<and> zmakers b' side = Z \<and>
     (\<forall>side'. side' \<noteq> side \<longrightarrow> zmakers b' side' = zmakers b side')"

lemma changed_refl: "book_wf b \<Longrightarrow> changed b b side (zmakers b side)"
  by (simp add: changed_def)

lemma changed_trans: "changed a b side Z \<Longrightarrow> changed b c side Z' \<Longrightarrow> changed a c side Z'"
  by (auto simp: changed_def intro: same_params_trans)

lemma located_order:
  assumes wf: "sides_wf b" and z: "zmakers b side = Z1 @ (p, i, s, x) # Z2"
  shows "\<exists>L rr. level_at b side i = Some L \<and> get_live L s = Some rr \<and> view rr = x \<and>
    slot_content (pair_of b) (loc side i s) = Some (detach rr) \<and> 0 < o_quantity x"
proof -
  have "(p, i, s, x) \<in> set (zmakers b side)" using z by simp
  note x = zmakers_order [OF wf this]
  from x(1) obtain r where r: "slot_content (pair_of b) (loc side i s) = Some r" "view r = x" by (auto simp: orders_at_def)
  from r(1) obtain L where L: "level_of (side_levels b side) i = Some L" "content L s = Some r"
    by (auto simp: slot_content_def bind_eq_Some)
  from live_content [OF L(2)] obtain rr where "get_live L s = Some rr" "detach rr = r" by blast
  moreover from this(2) r(2) have "view rr = x" using view_detach [of rr] by simp
  ultimately show ?thesis using L r x(2) by (auto simp: level_at_level_of)
qed

lemma remove_located:
  assumes wf: "book_wf b" and z: "zmakers b side = Z1 @ (p, i, s, x) # Z2"
    and rr: "slot_content (pair_of b) (loc side i s) = Some (detach rr)"
  shows "\<exists>b'. remove_filled_order b (loc side i s) (rst_id rr) (rst_index_slot rr) = Some b' \<and> changed b b' side (Z1 @ Z2)"
proof -
  note sides = wf_sides [OF wf]
  from zmakers_split [OF z] obtain M1 M2 where M: "makers b side = M1 @ (p, i, s) # M2"
    "Z1 = zlist (orders_at b) side M1" "Z2 = zlist (orders_at b) side M2" by blast
  from remove_filled_order_correct [OF wf M(1) rr] obtain b' where
    b': "remove_filled_order b (loc side i s) (rst_id rr) (rst_index_slot rr) = Some b'" "removed_at b b' side i s (M1 @ M2)" by auto
  from removed_lists [OF sides z M b'(2)] b' show ?thesis by (auto simp: changed_def removed_at_def)
qed

lemma reduce_located:
  assumes wf: "book_wf b" and z: "zmakers b side = Z1 @ (p, i, s, x) # Z2"
    and L: "level_at b side i = Some L" "get_live L s = Some rr" "view rr = x" and q: "q < o_quantity x"
  shows "\<exists>L'. reduce_quantity L s q = Some L' \<and>
    L' = (put_live L s (rr\<lparr>rst_quantity := rst_quantity rr - q\<rparr>))\<lparr>pl_aggregate_quantity := pl_aggregate_quantity L - q\<rparr> \<and>
    changed b (put_level b side i (Some L')) side (Z1 @ (p, i, s, x\<lparr>o_quantity := o_quantity x - q\<rparr>) # Z2)"
proof -
  note sides = wf_sides [OF wf]
  from zmakers_split [OF z] obtain M1 M2 where M: "makers b side = M1 @ (p, i, s) # M2"
    "Z1 = zlist (orders_at b) side M1" "Z2 = zlist (orders_at b) side M2" by blast
  have "q < rst_quantity rr" using q L(3) by (auto simp: view_def)
  from reduce_order [OF wf M(1) L(1,2) this] obtain L' where
    L': "reduce_quantity L s q = Some L'"
      "L' = (put_live L s (rr\<lparr>rst_quantity := rst_quantity rr - q\<rparr>))\<lparr>pl_aggregate_quantity := pl_aggregate_quantity L - q\<rparr>"
      "book_wf (put_level b side i (Some L'))" "\<And>side'. makers (put_level b side i (Some L')) side' = makers b side'"
      "orders_at (put_level b side i (Some L')) = (orders_at b)(loc side i s \<mapsto> (view rr)\<lparr>o_quantity := rst_quantity rr - q\<rparr>)"
    by blast
  have v: "(view rr)\<lparr>o_quantity := rst_quantity rr - q\<rparr> = x\<lparr>o_quantity := o_quantity x - q\<rparr>"
    using L(3) by (auto simp: view_def)
  from reduced_lists [OF sides M L'(4,5)] v have
    "zmakers (put_level b side i (Some L')) side = Z1 @ (p, i, s, x\<lparr>o_quantity := o_quantity x - q\<rparr>) # Z2"
    "\<And>side'. side' \<noteq> side \<Longrightarrow> zmakers (put_level b side i (Some L')) side' = zmakers b side'" by auto
  moreover have "same_params b (put_level b side i (Some L'))" by (simp add: same_params_def)
  ultimately show ?thesis using L'(1-3) by (auto simp: changed_def)
qed

section \<open>Applying fills\<close>

text \<open>One fill of the head order, whole or in part.\<close>

definition after_fill :: "Quantity \<Rightarrow> located list \<Rightarrow> located list" where
  "after_fill q zs = (case zs of [] \<Rightarrow> [] | (p, i, s, x) # Z \<Rightarrow>
     if q = o_quantity x then Z else (p, i, s, x\<lparr>o_quantity := o_quantity x - q\<rparr>) # Z)"

definition head_fill :: "Quantity \<Rightarrow> located \<Rightarrow> FillEntry" where
  "head_fill q z = (case z of (p, i, s, x) \<Rightarrow>
     \<lparr>fe_level_index = i, fe_slot = s, fe_order_id = o_id x, fe_price = p, fe_quantity = q\<rparr>)"

lemma apply_fill_head:
  assumes wf: "book_wf b" and z: "zmakers b mside = (p, i, s, x) # Z" and q: "q \<le> o_quantity x"
    and rb: "reports_push rb (fill_report order (o_id x) p q) = Ok rb'"
  shows "\<exists>b'. apply_fill order mside (head_fill q (p, i, s, x)) (b, rb) = Some (b', rb') \<and>
    changed b b' mside (after_fill q ((p, i, s, x) # Z))"
proof -
  note sides = wf_sides [OF wf]
  have z': "zmakers b mside = [] @ (p, i, s, x) # Z" using z by simp
  from located_order [OF sides z'] obtain L rr where
    L: "level_at b mside i = Some L" "get_live L s = Some rr" "view rr = x"
      "slot_content (pair_of b) (loc mside i s) = Some (detach rr)" by blast
  have x: "o_id x = rst_id rr" "o_quantity x = rst_quantity rr" using L(3) by (auto simp: view_def)
  show ?thesis
  proof (cases "q = o_quantity x")
    case True
    from remove_located [OF wf z' L(4)] obtain b' where
      "remove_filled_order b (loc mside i s) (rst_id rr) (rst_index_slot rr) = Some b'" "changed b b' mside Z" by auto
    with True L rb x show ?thesis by (auto simp: apply_fill_def head_fill_def after_fill_def loc_def)
  next
    case False
    with q have "q < o_quantity x" by simp
    from reduce_located [OF wf z' L(1-3) this] obtain L' where
      "reduce_quantity L s q = Some L'"
      "changed b (put_level b mside i (Some L')) mside ((p, i, s, x\<lparr>o_quantity := o_quantity x - q\<rparr>) # Z)" by auto
    with False L rb x show ?thesis by (auto simp: apply_fill_def head_fill_def after_fill_def)
  qed
qed

lemma apply_fills_walk:
  assumes "book_wf b" and "reports_ok rb" and "walk side limit n (zmakers b mside) = (fs, m)"
    and "length fs \<le> reports_remaining_capacity rb"
  shows "\<exists>b' rb' Z. apply_fills order mside fs (b, rb) = Some (b', rb') \<and> changed b b' mside Z \<and>
    match_list side limit n (unzip (zmakers b mside)) = (map fill_of fs, unzip Z, m) \<and>
    reports_ok rb' \<and> length (rb_entries rb') = length (rb_entries rb) \<and>
    reports_iter rb' = reports_iter rb @ map (\<lambda>f. fill_report order (fe_order_id f) (fe_price f) (fe_quantity f)) fs"
  using assms
proof (induction fs arbitrary: b rb n)
  case Nil
  from walk_match [OF Nil.prems(3)] obtain rest where
    "match_list side limit n (unzip (zmakers b mside)) = ([], rest, m)" by auto
  moreover have "rest = unzip (zmakers b mside)"
    using calculation by (cases "unzip (zmakers b mside)") (auto simp: Let_def split: if_splits prod.splits)
  ultimately show ?case using Nil changed_refl by auto
next
  case (Cons f fs)
  then obtain p i s x Z where z: "zmakers b mside = (p, i, s, x) # Z" by (cases "zmakers b mside") auto
  let ?t = "min n (o_quantity x)"
  have n: "n \<noteq> 0" "crosses side p limit" using Cons.prems(3) z by (auto split: if_splits)
  obtain fs' m' where w: "walk side limit (n - ?t) Z = (fs', m')" by fastforce
  have f: "f = head_fill ?t (p, i, s, x)" "fs = fs'" "m = m'" using Cons.prems(3) z n w by (auto simp: head_fill_def)
  have cap: "rb_len rb < length (rb_entries rb)" using Cons.prems(4) by (simp add: reports_remaining_capacity_def)
  then obtain rb1 where rb1: "reports_push rb (fill_report order (o_id x) p ?t) = Ok rb1" by (simp add: reports_push_def)
  note ok1 = reports_push_Ok [OF Cons.prems(2) rb1]
  from apply_fill_head [OF Cons.prems(1) z _ rb1] obtain b1 where
    b1: "apply_fill order mside f (b, rb) = Some (b1, rb1)" "changed b b1 mside (after_fill ?t ((p, i, s, x) # Z))"
    using f(1) by auto
  have wf1: "book_wf b1" and z1: "zmakers b1 mside = after_fill ?t ((p, i, s, x) # Z)" using b1(2) by (auto simp: changed_def)
  have w1: "walk side limit (n - ?t) (zmakers b1 mside) = (fs, m)"
    using w f n by (cases "o_quantity x \<le> n") (auto simp: z1 after_fill_def min_def)
  have "length fs \<le> reports_remaining_capacity rb1"
    using Cons.prems(4) ok1 by (simp add: reports_remaining_capacity_def)
  from Cons.IH [OF wf1 ok1(1) w1 this] obtain b' rb' Z' where
    IH: "apply_fills order mside fs (b1, rb1) = Some (b', rb')" "changed b1 b' mside Z'"
      "match_list side limit (n - ?t) (unzip (zmakers b1 mside)) = (map fill_of fs, unzip Z', m)"
      "reports_ok rb'" "length (rb_entries rb') = length (rb_entries rb1)"
      "reports_iter rb' = reports_iter rb1 @ map (\<lambda>f. fill_report order (fe_order_id f) (fe_price f) (fe_quantity f)) fs"
    by blast
  have "match_list side limit n (unzip (zmakers b mside)) = (map fill_of (f # fs), unzip Z', m)"
    using IH(3) n unfolding z z1
    by (cases "o_quantity x \<le> n") (auto simp: after_fill_def f(1) head_fill_def fill_of_def min_def split: if_splits)
  moreover have "reports_iter rb' = reports_iter rb @ map (\<lambda>f. fill_report order (fe_order_id f) (fe_price f) (fe_quantity f)) (f # fs)"
    using IH(6) ok1(2) by (simp add: f(1) head_fill_def)
  ultimately show ?case using b1 IH(1,2,4,5) ok1(4) changed_trans by fastforce
qed

end
