(* ===== verification/BookSubmit.thy ===== *)
theory BookSubmit
  imports BookMatch
begin

text \<open>
  Submission refines the specification: admission, the single-fill fast path, the planned path and
  resting, each against the priority lists.
\<close>

section \<open>Facts about matching on lists\<close>

lemma ids_simps [simp]: "ids [] = {}" "ids (e # xs) = insert (o_id (snd e)) (ids xs)" "ids (xs @ ys) = ids xs \<union> ids ys"
  by (auto simp: ids_def)

lemma match_list_facts:
  assumes "match_list side limit n xs = (fills, ys, left)"
  shows "fst ` set ys \<subseteq> fst ` set xs" and "ids ys \<subseteq> ids xs"
    and "n = sum_list (map (\<lambda>(p, k, q). q) fills) + left"
  using assms
proof (induction xs arbitrary: n fills ys left)
  case (Cons e xs)
  obtain p x where e: "e = (p, x)" by (cases e) auto
  {
    case 1
    with Cons.IH(1) [of "n - o_quantity x"] e show ?case by (auto split: if_splits prod.splits)
  next
    case 2
    with Cons.IH(2) [of "n - o_quantity x"] e show ?case by (auto split: if_splits prod.splits)
  next
    case 3
    with Cons.IH(3) [of "n - o_quantity x"] e show ?case by (auto split: if_splits prod.splits)
  }
qed auto

lemma match_list_left:
  assumes "match_list side limit n xs = (fills, ys, left)" and "0 < left"
    and "prio_sorted (descending (opposite side)) xs"
  shows "\<forall>e \<in> set ys. \<not> crosses side (fst e) limit"
  using assms
proof (induction xs arbitrary: n fills ys left)
  case (Cons e xs)
  obtain p x where e: "e = (p, x)" by (cases e) auto
  have s: "prio_sorted (descending (opposite side)) xs" "\<forall>f \<in> set xs. \<not> before (descending (opposite side)) (fst f) p"
    using Cons.prems(3) e by (auto simp: prio_sorted_def)
  show ?case
  proof (cases "n = 0 \<or> \<not> crosses side p limit")
    case True
    with Cons.prems(1,2) e have "\<not> crosses side p limit" "ys = (p, x) # xs" by auto
    then show ?thesis using s(2) by (cases side) (force simp: crosses_def before_def descending_def)+
  next
    case False
    show ?thesis
    proof (cases "o_quantity x \<le> n")
      case True
      with Cons.prems(1) False e show ?thesis
        using Cons.IH [of "n - o_quantity x"] Cons.prems(2) s(1) by (auto split: prod.splits)
    next
      case no: False
      with Cons.prems(1,2) False e show ?thesis by auto
    qed
  qed
qed auto

lemma match_list_none_left: "match_list side limit 0 xs = ([], xs, 0)"
  by (cases xs) auto

lemma enqueue_set [simp]: "set (enqueue d p x xs) = insert (p, x) (set xs)"
proof -
  have "set xs = set (takeWhile (\<lambda>e. \<not> before d p (fst e)) xs) \<union> set (dropWhile (\<lambda>e. \<not> before d p (fst e)) xs)"
    by (metis set_append takeWhile_dropWhile_id)
  then show ?thesis unfolding enqueue_def by auto
qed

section \<open>Uncrossed books\<close>

definition lists_uncrossed :: "plist \<Rightarrow> plist \<Rightarrow> bool" where
  "lists_uncrossed xs ys \<longleftrightarrow> (\<forall>e \<in> set xs. \<forall>f \<in> set ys. fst e < fst f)"

lemma book_ok_alt: "book_ok b \<longleftrightarrow> book_wf b \<and> 0 < ob_ORDERS b \<and> lists_uncrossed (book_list b Buy) (book_list b Sell)"
  by (simp add: book_ok_def lists_uncrossed_def)

lemma lists_uncrossed_mono:
  "lists_uncrossed xs ys \<Longrightarrow> fst ` set xs' \<subseteq> fst ` set xs \<Longrightarrow> fst ` set ys' \<subseteq> fst ` set ys \<Longrightarrow> lists_uncrossed xs' ys'"
  unfolding lists_uncrossed_def
proof (intro ballI)
  fix e f
  assume u: "\<forall>e \<in> set xs. \<forall>f \<in> set ys. fst e < fst f" and sub: "fst ` set xs' \<subseteq> fst ` set xs" "fst ` set ys' \<subseteq> fst ` set ys"
    and "e \<in> set xs'" "f \<in> set ys'"
  then obtain e' f' where "fst e = fst e'" "e' \<in> set xs" "fst f = fst f'" "f' \<in> set ys" by blast
  with u show "fst e < fst f" by metis
qed

lemma uncrossed_side:
  "lists_uncrossed (f Buy) (f Sell) \<longleftrightarrow> (\<forall>e \<in> set (f side). \<forall>g \<in> set (f (opposite side)). \<not> crosses side (fst g) (fst e))"
  by (cases side) (force simp: lists_uncrossed_def crosses_def)+

section \<open>Resting\<close>

lemma changed_lists:
  assumes "changed b b' side Z" and "book_wf b"
  shows "book_list b' side = unzip Z" and "\<And>side'. side' \<noteq> side \<Longrightarrow> book_list b' side' = book_list b side'"
  using assms by (auto simp: changed_def book_list_zmakers wf_sides)

lemma book_abs_sel [simp]:
  "bm_LEVELS (book_abs b) = ob_LEVELS b" "bm_ORDERS (book_abs b) = ob_ORDERS b" "bm_instrument (book_abs b) = ob_instrument b"
  "bm_side (book_abs b) side = book_list b side"
  by (simp_all add: book_abs_def)

lemma rest_preflight_spec:
  assumes "book_wf b"
  shows "rest_preflight b order = Some (rest_check (book_abs b) (no_side order) (no_price order))"
proof -
  note wf = wf_sides [OF assms]
  show ?thesis using wf
    by (cases rule: level_lookup [where side = "no_side order" and p = "no_price order"])
      (auto simp: rest_preflight_def rest_check_def is_full_level_count(1) [OF wf])
qed

lemma level_len_bound:
  assumes "sides_wf b" and "level_at b side i = Some L"
  shows "pl_len L \<le> ob_ORDERS b"
proof -
  note inv = sides_wfD [OF assms(1), of side]
  from assms(2) have L: "level_of (side_levels b side) i = Some L" by (simp add: level_at_level_of)
  from side_other_level [OF inv L] obtain p where "(p, i) \<in> set (lindex_iter (side_index b side))" by blast
  from side_level [OF inv this] L obtain xs where "level_inv L xs" "length (pl_slots L) = ob_ORDERS b" by (auto simp: level_ok_def)
  with level_inv_facts(3) [OF this(1)] show ?thesis by (simp add: level_inv_def)
qed

lemma rest_spec:
  assumes wf: "book_wf b" and pos: "0 < ob_ORDERS b" "0 < p" "0 < rst_quantity r" and fresh: "fresh_id b (rst_id r)"
    and check: "rest_check (book_abs b) side p = Ok ()"
  shows "\<exists>b'. rest_at_tail b side p r = Some b' \<and> book_wf b' \<and> same_params b b' \<and>
    book_list b' side = enqueue (descending side) p (view r) (book_list b side) \<and>
    (\<forall>side'. side' \<noteq> side \<longrightarrow> book_list b' side' = book_list b side')"
proof -
  note sides = wf_sides [OF wf]
  have "\<exists>b' i s. rest_at_tail b side p r = Some b' \<and> rested_at b b' side p (view r) i s"
    using sides
  proof (cases rule: level_lookup [where side = side and p = p])
    case Absent
    with check have "\<not> lindex_is_full (side_index b side)"
      by (auto simp: rest_check_def is_full_level_count(1) [OF sides] split: if_splits)
    from rest_new_level [OF wf Absent(3) this pos(1,2,3) fresh] show ?thesis by blast
  next
    case (Present i L)
    then obtain A B where es: "lindex_iter (side_index b side) = A @ (p, i) # B" by (metis split_list)
    have "pl_len L < ob_ORDERS b" using check Present(3,4) level_len_bound [OF sides Present(2)] by (auto simp: rest_check_def split: if_splits)
    from rest_existing_level [OF wf es Present(2) this pos(3) fresh] show ?thesis by blast
  qed
  then obtain b' i s where b': "rest_at_tail b side p r = Some b'" "rested_at b b' side p (view r) i s" by blast
  with rested_lists [OF sides b'(2)] show ?thesis by (auto simp: rested_at_def)
qed

section \<open>The single-fill fast path\<close>

lemma best_maker:
  assumes wf: "sides_wf b" and z: "zmakers b side = (p, i, s, x) # Z"
  shows "best_entry b side = Some (p, i)" and "\<exists>L. level_at b side i = Some L \<and> pl_head L = s"
proof -
  note inv = sides_wfD [OF wf, of side]
  obtain M where M: "makers b side = (p, i, s) # M"
    using z by (cases "makers b side") (auto simp: zmakers_def)
  then obtain e es where es: "lindex_iter (side_index b side) = e # es"
    by (cases "lindex_iter (side_index b side)") (auto simp: makers_def)
  from side_level [OF inv, of "fst e" "snd e"] es obtain L xs where
    L: "level_of (side_levels b side) (snd e) = Some L" "level_inv L xs" "xs \<noteq> []" by (auto simp: level_ok_def)
  then have "xs_at (side_levels b side) (snd e) = xs" by (simp add: xs_at_def level_xs_eq)
  with M es L(3) have e: "e = (p, i)" "hd xs = s" by (cases xs; auto simp: makers_def)+
  show "best_entry b side = Some (p, i)" using es e by (simp add: best_entry_def)
  have "pl_head L = s" using L(2,3) e(2) dll_head by (metis level_inv_def)
  with L(1) e(1) show "\<exists>L. level_at b side i = Some L \<and> pl_head L = s" by (simp add: level_at_level_of)
qed

lemma best_maker_none: "sides_wf b \<Longrightarrow> zmakers b side = [] \<Longrightarrow> best_entry b side = None"
  using best_entry_list [of b side] by (simp add: book_list_zmakers)

definition single_summary :: "NewOrder \<Rightarrow> MatchSummary" where
  "single_summary order = \<lparr>ms_state = Filled, ms_filled_quantity = no_quantity order, ms_resting_quantity = 0,
     ms_discarded_quantity = 0, ms_report_count = 1\<rparr>"

lemma try_single_fill_spec:
  assumes wf: "book_wf b" and z: "zmakers b mside = (p, i, s, x) # Z"
  shows "try_single_fill b order mside rb =
    (if \<not> crosses (no_side order) p (no_price order) \<or> o_quantity x < no_quantity order then Some (Ok None)
     else case reports_push rb (fill_report order (o_id x) p (no_quantity order)) of
       Err e \<Rightarrow> Some (Err e)
     | Ok rb' \<Rightarrow> map_option (\<lambda>(b', _). Ok (Some (b', rb', single_summary order)))
         (apply_fill order mside (head_fill (no_quantity order) (p, i, s, x)) (b, rb)))"
proof -
  note sides = wf_sides [OF wf]
  note best = best_maker [OF sides z]
  have z': "zmakers b mside = [] @ (p, i, s, x) # Z" using z by simp
  from located_order [OF sides z'] obtain L rr where
    L: "level_at b mside i = Some L" "get_live L s = Some rr" "view rr = x" by blast
  with best(2) have h: "pl_head L = s" by auto
  have x: "o_id x = rst_id rr" "o_quantity x = rst_quantity rr" using L(3) by (auto simp: view_def)
  have n: "nth_opt (side_levels b mside) i = Some (Some L)" using L(1) by (simp add: level_at_def bind_eq_Some)
  have red: "reduce_quantity L s (no_quantity order) =
      Some ((put_live L s (rr\<lparr>rst_quantity := rst_quantity rr - no_quantity order\<rparr>))
        \<lparr>pl_aggregate_quantity := pl_aggregate_quantity L - no_quantity order\<rparr>)" if "no_quantity order < o_quantity x"
    using reduce_located [OF wf z' L that] by blast
  show ?thesis
  proof (cases "\<not> crosses (no_side order) p (no_price order) \<or> o_quantity x < no_quantity order")
    case True
    then show ?thesis using best(1) n h L(2) x by (auto simp: try_single_fill_def)
  next
    case False
    then show ?thesis using best(1) n h L(1,2) x red
      by (auto simp: try_single_fill_def apply_fill_def head_fill_def single_summary_def Let_def option.map_comp
          split: result.splits option.splits bind_splits)
  qed
qed

section \<open>Submission\<close>

definition fills_sum :: "(PriceTicks \<times> OrderId \<times> Quantity) list \<Rightarrow> nat" where
  "fills_sum fills = sum_list (map (\<lambda>(p, k, q). q) fills)"

definition summary_of :: "NewOrder \<Rightarrow> Execution \<Rightarrow> MatchSummary" where
  "summary_of order ex =
     (let filled = fills_sum (ex_fills ex) in
      \<lparr>ms_state = (if filled = no_quantity order then Filled else if filled = 0 then Accepted else PartiallyFilled),
       ms_filled_quantity = filled, ms_resting_quantity = ex_resting ex, ms_discarded_quantity = ex_discarded ex,
       ms_report_count = length (ex_fills ex)\<rparr>)"

definition reports_of :: "NewOrder \<Rightarrow> (PriceTicks \<times> OrderId \<times> Quantity) list \<Rightarrow> ExecutionReport list" where
  "reports_of order fills = map (\<lambda>(p, k, q). fill_report order k p q) fills"

definition executed :: "OrderBook \<Rightarrow> ReportBuffer \<Rightarrow> ReportBuffer \<Rightarrow> NewOrder \<Rightarrow> Execution \<Rightarrow> bool" where
  "executed b' rb rb' order ex \<longleftrightarrow> book_ok b' \<and> book_abs b' = ex_book ex \<and> reports_ok rb' \<and>
     length (rb_entries rb') = length (rb_entries rb) \<and> reports_iter rb' = reports_iter rb @ reports_of order (ex_fills ex)"

lemma validate_order_spec:
  assumes "book_wf b"
  shows "validate_order b order = and_then (spec_admit (book_abs b) order) (\<lambda>_. Ok (opposite (no_side order)))"
proof -
  note best = best_entry_list [OF wf_sides [OF assms], of "opposite (no_side order)"]
  have opp: "(case no_side order of Buy \<Rightarrow> Sell | Sell \<Rightarrow> Buy) = opposite (no_side order)" by (cases "no_side order") auto
  show ?thesis
    unfolding validate_order_def spec_admit_def opp contains_order_iff [OF assms]
    using best by (auto simp: Let_def split: option.splits list.splits)
qed

lemma set_side_sel [simp]:
  "bm_LEVELS (set_side m side xs) = bm_LEVELS m" "bm_ORDERS (set_side m side xs) = bm_ORDERS m"
  "bm_instrument (set_side m side xs) = bm_instrument m"
  "bm_side (set_side m side xs) side' = (if side' = side then xs else bm_side m side')"
  by (simp_all add: set_side_def)

lemma book_abs_set_side:
  assumes "same_params b b'" and "book_list b' side = xs" and "\<And>side'. side' \<noteq> side \<Longrightarrow> book_list b' side' = book_list b side'"
  shows "book_abs b' = set_side (book_abs b) side xs"
  using assms by (auto simp: book_abs_def set_side_def same_params_def fun_eq_iff)

lemma changed_abs:
  "changed b b' side Z \<Longrightarrow> book_wf b \<Longrightarrow> book_abs b' = set_side (book_abs b) side (unzip Z)"
  using changed_lists [of b b' side Z] by (intro book_abs_set_side) (auto simp: changed_def)

lemma book_ok_shrink:
  assumes "book_ok b" and "changed b b' side Z" and "fst ` set (unzip Z) \<subseteq> fst ` set (book_list b side)"
  shows "book_ok b'"
proof -
  have wf: "book_wf b" using assms(1) by (simp add: book_ok_def)
  have "fst ` set (book_list b' side') \<subseteq> fst ` set (book_list b side')" for side'
    using changed_lists [OF assms(2) wf] assms(3) by (cases "side' = side") auto
  then show ?thesis using assms(1,2) lists_uncrossed_mono
    by (auto simp: book_ok_alt changed_def same_params_def)
qed

lemma rest_after_match:
  assumes ok: "book_ok b" and ch: "changed b b1 (opposite (no_side order)) Z"
    and m: "match_list (no_side order) (no_price order) (no_quantity order) (book_list b (opposite (no_side order))) = (fills, unzip Z, left)"
    and left: "0 < left" and admit: "spec_admit (book_abs b) order = Ok ()"
    and check: "rest_check (book_abs b) (no_side order) (no_price order) = Ok ()"
  shows "\<exists>b2. rest b1 order left = Some b2 \<and> book_ok b2 \<and>
    book_abs b2 = set_side (set_side (book_abs b) (opposite (no_side order)) (unzip Z)) (no_side order)
      (enqueue (descending (no_side order)) (no_price order) (order_of order left) (book_list b (no_side order)))"
proof -
  let ?sd = "no_side order" and ?ms = "opposite (no_side order)" and ?p = "no_price order"
  have wf: "book_wf b" and O: "0 < ob_ORDERS b" using ok by (auto simp: book_ok_def)
  have wf1: "book_wf b1" and par: "same_params b b1" using ch by (auto simp: changed_def)
  note l1 = changed_lists [OF ch wf]
  have sd: "book_list b1 ?sd = book_list b ?sd" by (rule l1(2)) simp
  have adm: "0 < ?p" "no_order_id order \<notin> ids (book_list b Buy) \<union> ids (book_list b Sell)"
    using admit by (auto simp: spec_admit_def split: if_splits)
  have "ids (book_list b1 side) \<subseteq> ids (book_list b side)" for side
    using l1 match_list_facts(2) [OF m] by (cases "side = ?ms") auto
  then have fresh: "fresh_id b1 (no_order_id order)" using adm(2) by (auto simp: fresh_id_iff [OF wf_sides [OF wf1]])
  have "rest_check (book_abs b1) ?sd ?p = rest_check (book_abs b) ?sd ?p" using sd par by (simp add: rest_check_def same_params_def)
  with check have c1: "rest_check (book_abs b1) ?sd ?p = Ok ()" by simp
  let ?r = "resting_order (no_order_id order) (no_account_id order) left (no_sequence order)"
  have v: "view ?r = order_of order left" by (simp add: view_def resting_order_def order_of_def)
  have "fresh_id b1 (rst_id ?r)" "0 < rst_quantity ?r" "0 < ob_ORDERS b1" using fresh left O par
    by (simp_all add: resting_order_def same_params_def)
  from rest_spec [OF wf1 this(3) adm(1) this(2,1) c1] obtain b2 where
    b2: "rest_at_tail b1 ?sd ?p ?r = Some b2" "book_wf b2" "same_params b1 b2"
      "book_list b2 ?sd = enqueue (descending ?sd) ?p (order_of order left) (book_list b ?sd)"
      "\<And>side'. side' \<noteq> ?sd \<Longrightarrow> book_list b2 side' = book_list b1 side'" unfolding v sd by blast
  have o2: "book_list b2 ?ms = unzip Z" using b2(5) [of ?ms] l1(1) by simp
  have abs2: "book_abs b2 = set_side (book_abs b1) ?sd (enqueue (descending ?sd) ?p (order_of order left) (book_list b ?sd))"
    by (rule book_abs_set_side [OF b2(3,4,5)])
  have left': "\<forall>e \<in> set (unzip Z). \<not> crosses ?sd (fst e) ?p"
    by (rule match_list_left [OF m left]) (rule book_list_sorted [OF wf_sides [OF wf]])
  have old: "\<forall>e \<in> set (book_list b ?sd). \<forall>g \<in> set (book_list b ?ms). \<not> crosses ?sd (fst g) (fst e)"
    using ok unfolding book_ok_alt uncrossed_side [of "book_list b" ?sd] by blast
  have "\<not> crosses ?sd (fst g) (fst e)" if "e \<in> set (book_list b ?sd)" "g \<in> set (unzip Z)" for e g
  proof -
    from that(2) match_list_facts(1) [OF m] obtain g' where "g' \<in> set (book_list b ?ms)" "fst g' = fst g" by force
    with old that(1) show ?thesis by metis
  qed
  then have "lists_uncrossed (book_list b2 Buy) (book_list b2 Sell)"
    unfolding uncrossed_side [of "book_list b2" ?sd] b2(4) o2 using left' by auto
  moreover have "0 < ob_ORDERS b2" using O par b2(3) by (simp add: same_params_def)
  ultimately have "book_ok b2" using b2(2) by (simp add: book_ok_alt)
  with b2(1) abs2 changed_abs [OF ch wf] show ?thesis by (auto simp: rest_def)
qed

text \<open>What a fill of \<open>left\<close> unmatched units leads to, by time in force.\<close>

definition spec_finish ::
  "BookModel \<Rightarrow> NewOrder \<Rightarrow> (PriceTicks \<times> OrderId \<times> Quantity) list \<Rightarrow> plist \<Rightarrow> nat \<Rightarrow> (Execution, RejectReason) result" where
  "spec_finish m order fills ys left =
     (let side = no_side order; m' = set_side m (opposite side) ys;
          done0 = \<lparr>ex_book = m', ex_fills = fills, ex_resting = 0, ex_discarded = 0\<rparr> in
      case no_time_in_force order of
        Fok \<Rightarrow> if left > 0 then Err InsufficientLiquidity else Ok done0
      | Ioc \<Rightarrow> Ok (done0\<lparr>ex_discarded := left\<rparr>)
      | _ \<Rightarrow> if left = 0 then Ok done0
             else and_then (rest_check m side (no_price order)) (\<lambda>_.
               Ok \<lparr>ex_book = set_side m' side (enqueue (descending side) (no_price order) (order_of order left) (bm_side m side)),
                  ex_fills = fills, ex_resting = left, ex_discarded = 0\<rparr>))"

lemma spec_submit_alt:
  assumes "match_list (no_side order) (no_price order) (no_quantity order) (bm_side m (opposite (no_side order))) = (fills, ys, left)"
  shows "spec_submit m order cap = and_then (spec_admit m order) (\<lambda>_.
    if length fills > cap then Err ReportCapacity else spec_finish m order fills ys left)"
  unfolding spec_submit_def spec_finish_def Let_def assms prod.case
  by (intro arg_cong [where f = "and_then (spec_admit m order)"]) (auto split: TimeInForce.splits)

lemma summary_of_plan:
  assumes "n = no_quantity order" and "n = fills_sum fills + left" and "left = res + dis"
    and "ex_fills ex = fills" "ex_resting ex = res" "ex_discarded ex = dis"
  shows "summary_of order ex = \<lparr>ms_state = (if n - res - dis = n then Filled else if n - res - dis = 0 then Accepted else PartiallyFilled),
    ms_filled_quantity = n - res - dis, ms_resting_quantity = res, ms_discarded_quantity = dis, ms_report_count = length fills\<rparr>"
proof -
  have "fills_sum fills = n - res - dis" using assms(2,3) by simp
  then show ?thesis using assms by (simp add: summary_of_def)
qed

lemma submit_plan_refines:
  assumes ok: "book_ok b" and rb: "reports_ok rb" and admit: "spec_admit (book_abs b) order = Ok ()"
  shows "case spec_submit (book_abs b) order (reports_remaining_capacity rb) of
      Err e \<Rightarrow> submit_plan b order (opposite (no_side order)) rb = Some (Err e)
    | Ok ex \<Rightarrow> \<exists>b' rb'. submit_plan b order (opposite (no_side order)) rb = Some (Ok (b', rb', summary_of order ex)) \<and>
        executed b' rb rb' order ex"
proof -
  let ?sd = "no_side order" and ?ms = "opposite (no_side order)" and ?p = "no_price order" and ?n = "no_quantity order"
  let ?cap = "reports_remaining_capacity rb"
  have wf: "book_wf b" using ok by (simp add: book_ok_def)
  note sides = wf_sides [OF wf]
  obtain fs left where w: "walk ?sd ?p ?n (zmakers b ?ms) = (fs, left)" by fastforce
  from walk_match [OF w] obtain ys where m: "match_list ?sd ?p ?n (book_list b ?ms) = (map fill_of fs, ys, left)"
    by (auto simp: book_list_zmakers [OF sides])
  let ?plan = "plan_new (length (rb_entries rb)) ?ms ?cap"
  have cap: "mp_capacity ?plan = ?cap" by (simp add: plan_new_def reports_remaining_capacity_def)
  have p0: "mp_fills ?plan = []" "mp_maker_side ?plan = ?ms" by (simp_all add: plan_new_def)
  have pl: "plan_levels b order ?ms (lindex_iter (side_index b ?ms)) ?plan ?n =
      (if length fs \<le> ?cap then Some (Ok (?plan\<lparr>mp_fills := fs\<rparr>, left)) else Some (Err ReportCapacity))"
    using plan_levels_all [OF sides, of ?plan order ?ms ?n] p0 cap w by (simp add: plan_result_def)
  note spec = spec_submit_alt [of order "book_abs b", unfolded book_abs_sel, OF m]
  show ?thesis
  proof (cases "length fs \<le> ?cap")
    case False
    then show ?thesis using admit pl by (simp add: spec submit_plan_def build_plan_def)
  next
    case room: True
    from apply_fills_walk [OF wf rb w room, of order] obtain b1 rb1 Z where
      A: "apply_fills order ?ms fs (b, rb) = Some (b1, rb1)" "changed b b1 ?ms Z"
        "match_list ?sd ?p ?n (unzip (zmakers b ?ms)) = (map fill_of fs, unzip Z, left)"
        "reports_ok rb1" "length (rb_entries rb1) = length (rb_entries rb)"
        "reports_iter rb1 = reports_iter rb @ map (\<lambda>f. fill_report order (fe_order_id f) (fe_price f) (fe_quantity f)) fs" by blast
    have ys: "ys = unzip Z" using A(3) m by (simp add: book_list_zmakers [OF sides])
    note m' = m [unfolded ys]
    have ok1: "book_ok b1" by (rule book_ok_shrink [OF ok A(2)]) (rule match_list_facts(1) [OF m'])
    have abs1: "book_abs b1 = set_side (book_abs b) ?ms (unzip Z)" by (rule changed_abs [OF A(2) wf])
    have reps: "reports_iter rb1 = reports_iter rb @ reports_of order (map fill_of fs)"
      using A(6) by (simp add: reports_of_def fill_of_def)
    have cnt: "rb_len rb1 - rb_len rb = length fs"
      using arg_cong [OF reps, of length] length_reports_iter [OF A(4)] length_reports_iter [OF rb] by (simp add: reports_of_def)
    have sum: "?n = fills_sum (map fill_of fs) + left" using match_list_facts(3) [OF m'] by (simp add: fills_sum_def)
    have spec': "spec_submit (book_abs b) order ?cap = spec_finish (book_abs b) order (map fill_of fs) (unzip Z) left"
      using admit room by (simp add: spec ys)
    have finish: "executed b1 rb rb1 order ex" if "ex_book ex = book_abs b1" "ex_fills ex = map fill_of fs" for ex
      using that ok1 A(4,5) reps by (simp add: executed_def)
    have run: "submit_plan b order ?ms rb = Some (Ok (b1, rb1, summary_of order ex))"
      if "build_plan b order ?ms (length (rb_entries rb)) ?cap = Some (Ok (?plan\<lparr>mp_fills := fs, mp_resting_quantity := 0, mp_discarded := left\<rparr>))"
        "ex_fills ex = map fill_of fs" "ex_resting ex = 0" "ex_discarded ex = left" for ex
      using that A(1) cnt p0 summary_of_plan [OF refl sum _ that(2,3,4)]
      by (simp add: submit_plan_def apply_plan_def)
    show ?thesis
    proof (cases "no_time_in_force order \<in> {Gtc, PostOnly} \<and> 0 < left")
      case True
      then have bp: "build_plan b order ?ms (length (rb_entries rb)) ?cap = Some (and_then (rest_check (book_abs b) ?sd ?p)
          (\<lambda>_. Ok (?plan\<lparr>mp_fills := fs, mp_resting_quantity := left, mp_discarded := 0\<rparr>)))"
        using pl room rest_preflight_spec [OF wf, of order] by (auto simp: build_plan_def)
      show ?thesis
      proof (cases "rest_check (book_abs b) ?sd ?p")
        case (Err e)
        with True bp show ?thesis unfolding spec' by (auto simp: spec_finish_def submit_plan_def)
      next
        case (Ok u)
        from rest_after_match [OF ok A(2) m' _ admit] True Ok obtain b2 where
          b2: "rest b1 order left = Some b2" "book_ok b2"
            "book_abs b2 = set_side (set_side (book_abs b) ?ms (unzip Z)) ?sd
              (enqueue (descending ?sd) ?p (order_of order left) (book_list b ?sd))" by auto
        let ?ex = "\<lparr>ex_book = book_abs b2, ex_fills = map fill_of fs, ex_resting = left, ex_discarded = 0\<rparr>"
        have fin: "spec_finish (book_abs b) order (map fill_of fs) (unzip Z) left = Ok ?ex"
          using True Ok by (auto simp: spec_finish_def Let_def b2(3))
        have "executed b2 rb rb1 order ?ex" using b2(2) A(4,5) reps by (simp add: executed_def)
        moreover have "submit_plan b order ?ms rb = Some (Ok (b2, rb1, summary_of order ?ex))"
          using bp Ok A(1) cnt p0 b2(1) True summary_of_plan [OF refl sum, of left 0 ?ex]
          by (simp add: submit_plan_def apply_plan_def)
        ultimately show ?thesis unfolding spec' fin by auto
      qed
    next
      case False
      show ?thesis
      proof (cases "no_time_in_force order = Fok \<and> 0 < left")
        case True
        then show ?thesis using pl room unfolding spec' by (simp add: spec_finish_def submit_plan_def build_plan_def)
      next
        case noF: False
        let ?ex = "\<lparr>ex_book = book_abs b1, ex_fills = map fill_of fs, ex_resting = 0, ex_discarded = left\<rparr>"
        have fin: "spec_finish (book_abs b) order (map fill_of fs) (unzip Z) left = Ok ?ex"
          using False noF by (cases "no_time_in_force order") (auto simp: spec_finish_def abs1)
        have "build_plan b order ?ms (length (rb_entries rb)) ?cap =
            Some (Ok (?plan\<lparr>mp_fills := fs, mp_resting_quantity := 0, mp_discarded := left\<rparr>))"
          using pl room False noF by (cases "no_time_in_force order") (auto simp: build_plan_def)
        with run [of ?ex] finish [of ?ex] show ?thesis unfolding spec' fin by auto
      qed
    qed
  qed
qed

lemma submit_refines:
  assumes ok: "book_ok b" and rb: "reports_ok rb"
  shows "case spec_submit (book_abs b) order (reports_remaining_capacity rb) of
      Err e \<Rightarrow> submit b order rb = Some (Err e)
    | Ok ex \<Rightarrow> \<exists>b' rb'. submit b order rb = Some (Ok (b', rb', summary_of order ex)) \<and> executed b' rb rb' order ex"
proof -
  let ?sd = "no_side order" and ?ms = "opposite (no_side order)" and ?n = "no_quantity order" and ?p = "no_price order"
  let ?cap = "reports_remaining_capacity rb"
  have wf: "book_wf b" using ok by (simp add: book_ok_def)
  note sides = wf_sides [OF wf]
  show ?thesis
  proof (cases "spec_admit (book_abs b) order")
    case (Err e)
    then show ?thesis by (simp add: submit_def validate_order_spec [OF wf] spec_submit_def)
  next
    case (Ok u)
    then have admit: "spec_admit (book_abs b) order = Ok ()" by simp
    have v: "validate_order b order = Ok ?ms" using admit by (simp add: validate_order_spec [OF wf])
    have slow: ?thesis if "try_single_fill b order ?ms rb = Some (Ok None)"
    proof -
      have eq: "submit b order rb = submit_plan b order ?ms rb" using that v by (simp add: submit_def)
      show ?thesis unfolding eq by (rule submit_plan_refines [OF ok rb admit])
    qed
    show ?thesis
    proof (cases "zmakers b ?ms")
      case Nil
      then have "try_single_fill b order ?ms rb = Some (Ok None)" using best_maker_none [OF sides] by (simp add: try_single_fill_def)
      then show ?thesis by (rule slow)
    next
      case (Cons z Z)
      obtain p i s x where z: "z = (p, i, s, x)" by (cases z) auto
      note Z = Cons [unfolded z]
      note single = try_single_fill_spec [OF wf Z, of order rb]
      show ?thesis
      proof (cases "\<not> crosses ?sd p ?p \<or> o_quantity x < ?n")
        case True
        then have "try_single_fill b order ?ms rb = Some (Ok None)" using single by simp
        then show ?thesis by (rule slow)
      next
        case False
        let ?f = "head_fill ?n (p, i, s, x)"
        have n: "0 < ?n" using admit by (auto simp: spec_admit_def split: if_splits)
        then have w: "walk ?sd ?p ?n (zmakers b ?ms) = ([?f], 0)" using False Z by (simp add: head_fill_def min_def)
        from walk_match [OF w] obtain ys where m: "match_list ?sd ?p ?n (book_list b ?ms) = ([fill_of ?f], ys, 0)"
          by (auto simp: book_list_zmakers [OF sides])
        have spec: "spec_submit (book_abs b) order ?cap = (if ?cap < 1 then Err ReportCapacity
            else Ok \<lparr>ex_book = set_side (book_abs b) ?ms ys, ex_fills = [fill_of ?f], ex_resting = 0, ex_discarded = 0\<rparr>)"
          using spec_submit_alt [of order "book_abs b", unfolded book_abs_sel, OF m] admit
          by (cases "no_time_in_force order") (auto simp: spec_finish_def Let_def)
        show ?thesis
        proof (cases "reports_push rb (fill_report order (o_id x) p ?n)")
          case (Err e)
          then have "e = ReportCapacity" "?cap < 1" by (auto simp: reports_push_Err reports_remaining_capacity_def)
          with Err False v single show ?thesis unfolding spec by (simp add: submit_def)
        next
          case (Ok rb1)
          have cap: "\<not> ?cap < 1" using Ok by (auto simp: reports_push_def reports_remaining_capacity_def split: if_splits)
          note ok1 = reports_push_Ok [OF rb Ok]
          from apply_fill_head [OF wf Z _ Ok] False obtain b1 where
            b1: "apply_fill order ?ms ?f (b, rb) = Some (b1, rb1)" "changed b b1 ?ms (after_fill ?n ((p, i, s, x) # Z))" by auto
          have "unzip (after_fill ?n ((p, i, s, x) # Z)) = ys"
            using m False n Z by (auto simp: book_list_zmakers [OF sides] after_fill_def match_list_none_left split: if_splits)
          note ch = b1(2) and ys = this
          have "book_ok b1" by (rule book_ok_shrink [OF ok ch]) (unfold ys, rule match_list_facts(1) [OF m])
          moreover have "book_abs b1 = set_side (book_abs b) ?ms ys" using changed_abs [OF ch wf] ys by simp
          moreover have "submit b order rb = Some (Ok (b1, rb1, single_summary order))"
            using v single False Ok b1(1) by (simp add: submit_def)
          moreover have "summary_of order \<lparr>ex_book = set_side (book_abs b) ?ms ys, ex_fills = [fill_of ?f], ex_resting = 0,
              ex_discarded = 0\<rparr> = single_summary order"
            by (simp add: summary_of_def single_summary_def fills_sum_def fill_of_def head_fill_def)
          ultimately show ?thesis unfolding spec using cap ok1
            by (simp add: executed_def reports_of_def fill_of_def head_fill_def)
        qed
      qed
    qed
  qed
qed

end
