(* ===== verification/BookAmend.thy ===== *)
theory BookAmend
  imports BookSubmit
begin

text \<open>Cancel and replace refine the specification.\<close>

section \<open>Finding an order\<close>

lemma in_ids_unzip: "k \<in> ids (unzip Z) \<longleftrightarrow> (\<exists>p i s x. (p, i, s, x) \<in> set Z \<and> o_id x = k)"
  by (force simp: ids_def unzip_def)

lemma ids_unique:
  assumes wf: "book_wf b" and z: "zmakers b side = Z1 @ (p, i, s, x) # Z2"
  shows "o_id x \<notin> ids (unzip (Z1 @ Z2))" and "o_id x \<notin> ids (book_list b (opposite side))"
proof -
  note sides = wf_sides [OF wf]
  have x: "orders_at b (loc side i s) = Some x" using zmakers_order(1) [OF sides] z by (metis in_set_conv_decomp)
  show "o_id x \<notin> ids (book_list b (opposite side))"
    using orders_unique [OF wf x] in_ids [OF sides, of "o_id x" "opposite side"] by (metis loc_simps(1) opposite_neq(2))
  show "o_id x \<notin> ids (unzip (Z1 @ Z2))"
  proof
    assume "o_id x \<in> ids (unzip (Z1 @ Z2))"
    then obtain p' i' s' y where y: "(p', i', s', y) \<in> set (Z1 @ Z2)" "o_id y = o_id x" unfolding in_ids_unzip by blast
    then have "(p', i', s', y) \<in> set (zmakers b side)" using z by auto
    then have "orders_at b (loc side i' s') = Some y" by (rule zmakers_order(1) [OF sides])
    from orders_unique [OF wf x this] y(2) have eq: "i' = i" "s' = s" by auto
    from zmakers_split [OF z] obtain M1 M2 where M: "makers b side = M1 @ (p, i, s) # M2"
      "Z1 = zlist (orders_at b) side M1" "Z2 = zlist (orders_at b) side M2" by blast
    have "(p', i, s) \<in> set (M1 @ M2)" using y(1) eq M(2,3) by (auto simp: zlist_def)
    with makers_split_fresh [OF sides M(1)] show False by blast
  qed
qed

lemma find_order_append: "k \<notin> ids xs \<Longrightarrow> o_id x = k \<Longrightarrow> find_order k (xs @ (p, x) # ys) = Some (p, x)"
  by (induction xs) (auto simp: find_order_def)

lemma find_order_None: "k \<notin> ids xs \<longleftrightarrow> find_order k xs = None"
  by (induction xs) (auto simp: find_order_def)

lemma locate_cases:
  assumes wf: "book_wf b"
  obtains (Unknown) "locate b k = None" "find_side (book_abs b) k = None"
  | (Found) side p i s x Z1 Z2 where "locate b k = Some (loc side i s, o_account x)"
      "find_side (book_abs b) k = Some (side, p, x)" "zmakers b side = Z1 @ (p, i, s, x) # Z2" "o_id x = k"
proof -
  note sides = wf_sides [OF wf]
  show thesis
  proof (cases "oi_location (ob_LEVELS b) (ob_ORDERS b) (ob_index b) k")
    case None
    then have "\<not> contains_order b k" by (simp add: contains_order_def)
    then have "k \<notin> ids (book_list b Buy)" "k \<notin> ids (book_list b Sell)" using contains_order_iff [OF wf] by auto
    with None show thesis by (intro Unknown) (auto simp: locate_def find_side_def find_order_None)
  next
    case (Some l)
    then obtain x where x: "orders_at b l = Some x" "o_id x = k" using oi_location_iff [OF wf] by blast
    obtain side i s where l: "l = loc side i s" by (metis loc_eta)
    from x(1) obtain p where "(p, i, s, x) \<in> set (zmakers b side)" unfolding l orders_at_zmakers [OF sides] by blast
    then obtain Z1 Z2 where z: "zmakers b side = Z1 @ (p, i, s, x) # Z2" by (metis split_list)
    from located_order [OF sides z] obtain L rr where L: "level_at b side i = Some L" "get_live L s = Some rr" "view rr = x" by blast
    have "rst_id rr = k" "rst_account_id rr = o_account x" using L(3) x(2) by (auto simp: view_def)
    then have loc: "locate b k = Some (loc side i s, o_account x)" using Some L(1,2) l by (simp add: locate_def)
    note u = ids_unique [OF wf z, unfolded x(2)]
    have "find_order k (book_list b side) = Some (p, x)"
      using u(1) x(2) by (simp add: book_list_zmakers [OF sides] z find_order_append)
    moreover have "find_order k (book_list b (opposite side)) = None" using u(2) by (simp add: find_order_None)
    ultimately have "find_side (book_abs b) k = Some (side, p, x)" by (cases side) (auto simp: find_side_def)
    with loc z x(2) show thesis by (intro Found)
  qed
qed

lemma delete_order_absent: "k \<notin> ids xs \<Longrightarrow> delete_order k xs = xs"
  by (induction xs) (auto simp: delete_order_def)

lemma delete_order_split: "k \<notin> ids (xs @ ys) \<Longrightarrow> o_id x = k \<Longrightarrow> delete_order k (xs @ (p, x) # ys) = xs @ ys"
  using delete_order_absent [of k xs] delete_order_absent [of k ys] by (simp add: delete_order_def)

section \<open>Cancel\<close>

lemma unlink_located:
  assumes wf: "book_wf b" and z: "zmakers b side = Z1 @ (p, i, s, x) # Z2"
  shows "\<exists>L L' rr b1 b2 y. level_at b side i = Some L \<and> get_live L s = Some rr \<and> unlink L s = Some (L', rr) \<and> pl_price L = p \<and>
    pl_price L' = p \<and> view rr = x \<and> (if pl_len L' = 0 then drop_level b side i p else Some (put_level b side i (Some L'))) = Some b1 \<and>
    remove_index_entry b1 (rst_index_slot rr) (rst_id rr) = Some (b2, y) \<and> changed b b2 side (Z1 @ Z2)"
proof -
  note sides = wf_sides [OF wf]
  from zmakers_split [OF z] obtain M1 M2 where M: "makers b side = M1 @ (p, i, s) # M2"
    "Z1 = zlist (orders_at b) side M1" "Z2 = zlist (orders_at b) side M2" by blast
  from unlink_then_deindex [OF wf M(1)] obtain L L' rr b1 b2 y where
    U: "level_at b side i = Some L" "get_live L s = Some rr" "unlink L s = Some (L', rr)" "pl_price L = p" "pl_price L' = p"
      "slot_content (pair_of b) (loc side i s) = Some (detach rr)"
      "(if pl_len L' = 0 then drop_level b side i p else Some (put_level b side i (Some L'))) = Some b1"
      "remove_index_entry b1 (rst_index_slot rr) (rst_id rr) = Some (b2, y)" "removed_at b b2 side i s (M1 @ M2)" by blast
  have "orders_at b (loc side i s) = Some x" using zmakers_order(1) [OF sides] z by (metis in_set_conv_decomp)
  then have "view rr = x" using U(6) by (simp add: orders_at_def)
  moreover have "changed b b2 side (Z1 @ Z2)"
    using removed_lists [OF sides z M U(9)] U(9) by (auto simp: changed_def removed_at_def)
  ultimately show ?thesis using U by blast
qed

lemma book_cancel_refines:
  assumes ok: "book_ok b"
  shows "case spec_cancel (book_abs b) c of
      Err e \<Rightarrow> cancel b c = Some (Err e)
    | Ok (m, out) \<Rightarrow> \<exists>b'. cancel b c = Some (Ok (b', out)) \<and> book_ok b' \<and> book_abs b' = m"
proof (cases "co_instrument_id c \<noteq> ob_instrument b")
  case True
  then show ?thesis by (simp add: spec_cancel_def cancel_def)
next
  case inst: False
  have wf: "book_wf b" using ok by (simp add: book_ok_def)
  note sides = wf_sides [OF wf]
  from wf show ?thesis
  proof (cases rule: locate_cases [where k = "co_order_id c"])
    case Unknown
    with inst show ?thesis by (simp add: spec_cancel_def cancel_def)
  next
    case (Found side p i s x Z1 Z2)
    show ?thesis
    proof (cases "o_account x \<noteq> co_account_id c")
      case True
      with Found inst show ?thesis by (simp add: spec_cancel_def cancel_def)
    next
      case owner: False
      from unlink_located [OF wf Found(3)] obtain L L' rr b1 b2 y where
        U: "level_at b side i = Some L" "unlink L s = Some (L', rr)" "pl_price L' = p" "view rr = x"
          "(if pl_len L' = 0 then drop_level b side i p else Some (put_level b side i (Some L'))) = Some b1"
          "remove_index_entry b1 (rst_index_slot rr) (rst_id rr) = Some (b2, y)" "changed b b2 side (Z1 @ Z2)" by blast
      have x: "o_id x = rst_id rr" "o_account x = rst_account_id rr" "o_quantity x = rst_quantity rr"
        using U(4) by (auto simp: view_def)
      have del: "delete_order (co_order_id c) (book_list b side) = unzip (Z1 @ Z2)"
        using ids_unique(1) [OF wf Found(3)] Found(4)
        by (simp add: book_list_zmakers [OF sides] Found(3) delete_order_split)
      have "book_ok b2" by (rule book_ok_shrink [OF ok U(7)]) (auto simp: book_list_zmakers [OF sides] Found(3))
      moreover have "cancel b c = Some (Ok (b2, \<lparr>cn_order_id = o_id x, cn_account_id = o_account x, cn_quantity = o_quantity x\<rparr>))"
        using inst Found(1,4) owner U x by (simp add: cancel_def split: if_splits)
      ultimately show ?thesis using inst Found(2) owner changed_abs [OF U(7) wf] by (simp add: spec_cancel_def del)
    qed
  qed
qed

section \<open>Replace\<close>

lemma map_replace_absent: "k \<notin> ids xs \<Longrightarrow> map (\<lambda>e. if o_id (snd e) = k then z else e) xs = xs"
  by (induction xs) auto

lemma level_count_split:
  "level_count (xs @ (p, x) # ys) = level_count (xs @ ys) + (if depth p (xs @ ys) = 0 then 1 else 0)"
proof -
  have "fst ` set (xs @ (p, x) # ys) = insert p (fst ` set (xs @ ys))" by auto
  then show ?thesis unfolding level_count_card depth_zero by (simp add: card_insert_if)
qed

lemma depth_split: "depth q (xs @ (p, x) # ys) = depth q (xs @ ys) + (if q = p then 1 else 0)"
  by (simp add: depth_def)

lemma replace_preflight_spec:
  assumes wf: "book_wf b" and z: "zmakers b side = Z1 @ (p, i, s, x) # Z2"
  shows "replace_preflight b r (loc side i s) p = Some (spec_preflight (book_abs b) side p (ro_price r))"
proof -
  note sides = wf_sides [OF wf]
  note best = best_entry_list [OF sides, of "opposite side"]
  have opp: "(case side of Buy \<Rightarrow> Sell | Sell \<Rightarrow> Buy) = opposite side" by (cases side) auto
  have cr: "(case best_entry b (opposite side) of None \<Rightarrow> False | Some (best_price, _) \<Rightarrow>
        (case side of Buy \<Rightarrow> ro_price r \<ge> best_price | Sell \<Rightarrow> ro_price r \<le> best_price)) =
      (case book_list b (opposite side) of [] \<Rightarrow> False | e # _ \<Rightarrow> crosses side (fst e) (ro_price r))"
    using best by (cases side) (auto simp: crosses_def split: option.splits list.splits)
  have mem: "(p, i) \<in> set (lindex_iter (side_index b side))"
    using zmakers_order(3) [OF sides, of p i s x side] z by (simp add: makers_def in_maker_entries)
  have li: "length (lindex_iter (side_index b side)) = level_count (book_list b side)" by (simp add: level_count_iter [OF sides])
  have uniq: "i' = i" if "(p, i') \<in> set (lindex_iter (side_index b side))" for i'
    using that mem side_iter_facts(2) [OF sides, of side] by (metis eq_key_imp_eq_value)
  from sides obtain L where L: "level_at b side i = Some L" "depth p (book_list b side) = pl_len L"
  proof (cases rule: level_lookup [where side = side and p = p])
    case Absent
    then show ?thesis using mem by force
  next
    case (Present i' L)
    with uniq that show ?thesis by blast
  qed
  show ?thesis using sides
  proof (cases rule: level_lookup [where side = side and p = "ro_price r"])
    case Absent
    then show ?thesis using L is_full_level_count(2) [OF sides, of side]
      unfolding replace_preflight_def spec_preflight_def Let_def loc_simps opp cr by (auto simp: li)
  next
    case (Present i' L')
    have "i' = i" if "ro_price r = p" using Present(5) uniq that by simp
    with Present show ?thesis unfolding replace_preflight_def spec_preflight_def Let_def loc_simps opp cr by auto
  qed
qed

lemma preflight_room:
  assumes wf: "book_wf b" and O: "0 < ob_ORDERS b" and ch: "changed b b2 side (Z1 @ Z2)" and z: "zmakers b side = Z1 @ (p, i, s, x) # Z2"
    and pre: "spec_preflight (book_abs b) side p q = Ok ()"
  shows "rest_check (book_abs b2) side q = Ok ()"
proof -
  note sides = wf_sides [OF wf]
  let ?A = "unzip Z1" and ?B = "unzip Z2"
  have l: "book_list b side = ?A @ (p, x) # ?B" by (simp add: book_list_zmakers [OF sides] z)
  have l2: "book_list b2 side = ?A @ ?B" using changed_lists(1) [OF ch wf] by simp
  have par: "ob_LEVELS b2 = ob_LEVELS b" "ob_ORDERS b2 = ob_ORDERS b" using ch by (auto simp: changed_def same_params_def)
  have lc: "level_count (book_list b side) = level_count (?A @ ?B) + (if depth p (?A @ ?B) = 0 then 1 else 0)"
    unfolding l by (rule level_count_split)
  have dp: "depth q (book_list b side) = depth q (?A @ ?B) + (if q = p then 1 else 0)" for q
    unfolding l by (rule depth_split)
  have bound: "level_count (book_list b side) \<le> ob_LEVELS b" by (rule is_full_level_count(2) [OF sides])
  have full: "depth p (book_list b side) \<le> ob_ORDERS b"
    using sides by (cases rule: level_lookup [where side = side and p = p]) (use level_len_bound [OF sides] in auto)
  show ?thesis
  proof (cases "depth q (?A @ ?B) = 0")
    case True
    then show ?thesis using pre bound lc dp [of q] dp [of p] O
      by (auto simp: rest_check_def spec_preflight_def par l2 split: if_splits)
  next
    case False
    then show ?thesis using pre full dp [of q] dp [of p]
      by (cases "q = p") (auto simp: rest_check_def spec_preflight_def par l2 split: if_splits)
  qed
qed

lemma replaced_uncrossed:
  assumes ok: "book_ok b" and z: "zmakers b side = Z1 @ (p, i, s, x) # Z2"
    and pre: "spec_preflight (book_abs b) side p q = Ok ()"
    and l2: "set (book_list b2 side) \<subseteq> insert (q, y) (set (unzip (Z1 @ Z2)))" "book_list b2 (opposite side) = book_list b (opposite side)"
  shows "lists_uncrossed (book_list b2 Buy) (book_list b2 Sell)"
proof -
  have wf: "book_wf b" using ok by (simp add: book_ok_def)
  note sides = wf_sides [OF wf]
  have l: "set (book_list b side) = insert (p, x) (set (unzip (Z1 @ Z2)))" by (simp add: book_list_zmakers [OF sides] z)
  have old: "\<forall>e \<in> set (book_list b side). \<forall>g \<in> set (book_list b (opposite side)). \<not> crosses side (fst g) (fst e)"
    using ok unfolding book_ok_alt uncrossed_side [of "book_list b" side] by blast
  have new: "\<not> crosses side (fst g) q" if g: "g \<in> set (book_list b (opposite side))" for g
  proof (cases "q = p")
    case True
    with old l g show ?thesis by force
  next
    case False
    from g obtain e es where es: "book_list b (opposite side) = e # es" by (cases "book_list b (opposite side)") auto
    have e: "\<not> crosses side (fst e) q" using pre False es by (auto simp: spec_preflight_def split: if_splits)
    have "g = e \<or> \<not> before (descending (opposite side)) (fst g) (fst e)"
      using book_list_sorted [OF sides, of "opposite side"] g unfolding es prio_sorted_def by auto
    with e show ?thesis by (cases side) (auto simp: crosses_def before_def descending_def)
  qed
  show ?thesis unfolding uncrossed_side [of "book_list b2" side] l2(2)
  proof (intro ballI)
    fix e g
    assume e: "e \<in> set (book_list b2 side)" and g: "g \<in> set (book_list b (opposite side))"
    from e l2(1) have "e = (q, y) \<or> e \<in> set (book_list b side)" unfolding l by blast
    then show "\<not> crosses side (fst g) (fst e)" using new [OF g] old g by auto
  qed
qed

lemma replace_refines:
  assumes ok: "book_ok b"
  shows "case spec_replace (book_abs b) r of
      Err e \<Rightarrow> replace b r = Some (Err e)
    | Ok (m, out) \<Rightarrow> \<exists>b'. replace b r = Some (Ok (b', out)) \<and> book_ok b' \<and> book_abs b' = m"
proof (cases "ro_instrument_id r \<noteq> ob_instrument b")
  case True
  then show ?thesis by (simp add: spec_replace_def replace_def)
next
  case inst: False
  have wf: "book_wf b" and O: "0 < ob_ORDERS b" using ok by (auto simp: book_ok_def)
  note sides = wf_sides [OF wf]
  from wf show ?thesis
  proof (cases rule: locate_cases [where k = "ro_order_id r"])
    case Unknown
    with inst show ?thesis by (simp add: spec_replace_def replace_def)
  next
    case (Found side p i s x Z1 Z2)
    show ?thesis
    proof (cases "o_account x \<noteq> ro_account_id r \<or> ro_price r \<le> 0 \<or> ro_quantity r = 0")
      case True
      with Found inst show ?thesis by (auto simp: spec_replace_def replace_def)
    next
      case good: False
      from unlink_located [OF wf Found(3)] obtain L L' rr b1 b2 y where
        U: "level_at b side i = Some L" "get_live L s = Some rr" "unlink L s = Some (L', rr)" "pl_price L = p" "view rr = x"
          "(if pl_len L' = 0 then drop_level b side i p else Some (put_level b side i (Some L'))) = Some b1"
          "remove_index_entry b1 (rst_index_slot rr) (rst_id rr) = Some (b2, y)" "changed b b2 side (Z1 @ Z2)" by blast
      have x: "o_id x = rst_id rr" "o_quantity x = rst_quantity rr" using U(5) by (auto simp: view_def)
      have ids: "ro_order_id r \<notin> ids (unzip (Z1 @ Z2))" "ro_order_id r \<notin> ids (book_list b (opposite side))"
        using ids_unique [OF wf Found(3)] Found(4) by auto
      have l: "book_list b side = unzip Z1 @ (p, x) # unzip Z2" by (simp add: book_list_zmakers [OF sides] Found(3))
      have start: "replace b r = (if ro_price r = p \<and> ro_quantity r < o_quantity x then
          do { level' \<leftarrow> reduce_quantity L s (o_quantity x - ro_quantity r);
               Some (Ok (put_level b side i (Some level'), replaced r (o_quantity x) False)) }
        else case spec_preflight (book_abs b) side p (ro_price r) of Err e \<Rightarrow> Some (Err e) | Ok _ \<Rightarrow>
          map_option (\<lambda>b. Ok (b, replaced r (o_quantity x) True)) (rest_at_tail b2 side (ro_price r)
            (resting_order (ro_order_id r) (ro_account_id r) (ro_quantity r) (ro_sequence r))))"
        using inst Found(1,4) good U x replace_preflight_spec [OF wf Found(3), of r]
        by (auto simp: replace_def map_conv_bind_option comp_def split: if_splits result.splits)
      show ?thesis
      proof (cases "ro_price r = p \<and> ro_quantity r < o_quantity x")
        case True
        let ?q = "o_quantity x - ro_quantity r"
        have q: "?q < o_quantity x" "o_quantity x - ?q = ro_quantity r" using True good by auto
        from reduce_located [OF wf Found(3) U(1,2,5) q(1)] obtain K where
          K: "reduce_quantity L s ?q = Some K"
            "changed b (put_level b side i (Some K)) side (Z1 @ (p, i, s, x\<lparr>o_quantity := ro_quantity r\<rparr>) # Z2)"
          unfolding q(2) by blast
        have "book_ok (put_level b side i (Some K))" by (rule book_ok_shrink [OF ok K(2)]) (auto simp: l)
        moreover have "map (\<lambda>e. if o_id (snd e) = ro_order_id r then (p, x\<lparr>o_quantity := ro_quantity r\<rparr>) else e) (book_list b side) =
            unzip (Z1 @ (p, i, s, x\<lparr>o_quantity := ro_quantity r\<rparr>) # Z2)"
          using ids(1) Found(4) by (simp add: l map_replace_absent)
        ultimately show ?thesis using start True K(1) inst Found(2) good changed_abs [OF K(2) wf] by (simp add: spec_replace_def)
      next
        case moved: False
        show ?thesis
        proof (cases "spec_preflight (book_abs b) side p (ro_price r)")
          case (Err e)
          with start moved inst Found(2) good show ?thesis by (simp add: spec_replace_def)
        next
          case (Ok u)
          then have pre: "spec_preflight (book_abs b) side p (ro_price r) = Ok ()" by simp
          let ?r = "resting_order (ro_order_id r) (ro_account_id r) (ro_quantity r) (ro_sequence r)"
          have wf2: "book_wf b2" and O2: "0 < ob_ORDERS b2" using U(8) O by (auto simp: changed_def same_params_def)
          note l2 = changed_lists [OF U(8) wf]
          have "ro_order_id r \<notin> ids (book_list b2 side')" for side'
            using ids l2 other_side [of side' side] by (cases "side' = side") auto
          then have f: "fresh_id b2 (rst_id ?r)" by (simp add: fresh_id_iff [OF wf_sides [OF wf2]] resting_order_def)
          have pq: "0 < ro_price r" "0 < rst_quantity ?r" using good by (auto simp: resting_order_def)
          note room = preflight_room [OF wf O U(8) Found(3) pre]
          from rest_spec [OF wf2 O2 pq f room] obtain b3 where
            b3: "rest_at_tail b2 side (ro_price r) ?r = Some b3" "book_wf b3" "same_params b2 b3"
              "book_list b3 side = enqueue (descending side) (ro_price r) (view ?r) (unzip (Z1 @ Z2))"
              "\<And>side'. side' \<noteq> side \<Longrightarrow> book_list b3 side' = book_list b2 side'" unfolding l2(1) by blast
          have "lists_uncrossed (book_list b3 Buy) (book_list b3 Sell)"
            by (rule replaced_uncrossed [OF ok Found(3) pre, where y = "view ?r"]) (use b3(4,5) l2(2) in auto)
          then have ok3: "book_ok b3" using b3(2,3) O2 by (simp add: book_ok_alt same_params_def)
          have "book_abs b3 = set_side (book_abs b) side (enqueue (descending side) (ro_price r) (view ?r) (unzip (Z1 @ Z2)))"
            by (rule book_abs_set_side) (use b3(3-5) l2(2) U(8) in \<open>auto simp: changed_def intro: same_params_trans\<close>)
          moreover have "delete_order (ro_order_id r) (book_list b side) = unzip (Z1 @ Z2)"
            using ids(1) Found(4) by (simp add: l delete_order_split)
          moreover have "view ?r = \<lparr>o_id = ro_order_id r, o_account = ro_account_id r, o_quantity = ro_quantity r, o_sequence = ro_sequence r\<rparr>"
            by (simp add: view_def resting_order_def)
          ultimately show ?thesis using start moved inst Found(2) good b3(1) ok3 pre by (auto simp: spec_replace_def)
        qed
      qed
    qed
  qed
qed

end
