(* ===== verification/BookProps.thy ===== *)
theory BookProps
  imports BookAmend
begin

text \<open>
  The books reachable from \<open>OrderBook::new\<close>, the queries of the book, and the properties of the
  book: refinement of submit, cancel and replace to price-time priority, conservation of quantity,
  priority of fills, the promises of each time in force, and the bounds of the cached aggregates.
\<close>

section \<open>The empty book\<close>

lemma oi_probe_new: "oi_probe (oi_new LEVELS ORDERS) = probe_new (LEVELS * ORDERS * ORDER_INDEX_PLANES)"
  by (simp add: oi_new_def probe_new_def OI_EMPTY_def oi_abs_def)

lemma book_new_sel [simp]:
  "side_levels (book_new LEVELS ORDERS inst) side = replicate LEVELS None"
  "side_index (book_new LEVELS ORDERS inst) side = lindex_new LEVELS"
  by (cases side; simp add: book_new_def side_levels_def side_index_def)+

lemma book_ok_new:
  assumes "LEVELS * ORDERS * 4 \<le> 2 ^ 32" and "0 < ORDERS"
  shows "book_ok (book_new LEVELS ORDERS inst)" and "book_list (book_new LEVELS ORDERS inst) side = []"
proof -
  let ?b = "book_new LEVELS ORDERS inst"
  have par: "ob_LEVELS ?b = LEVELS" "ob_ORDERS ?b = ORDERS" "ob_index ?b = oi_new LEVELS ORDERS"
    "pair_of ?b = (replicate LEVELS None, replicate LEVELS None)" by (simp_all add: book_new_def)
  have list: "book_list ?b side = []" for side by (simp add: book_list_def)
  then show "book_list ?b side = []" .
  have none: "level_of (replicate LEVELS None) i = None" for i by (simp add: level_of_def nth_opt_def)
  then have "slot_content (pair_of ?b) l = None" for l
    unfolding par slot_content_def pair_side_def by (cases "ol_side l") simp_all
  then have "\<not> handle LEVELS ORDERS (pair_of ?b) k v i" for k v i unfolding handle_def by simp
  then have "index_inv LEVELS ORDERS (oi_new LEVELS ORDERS) (pair_of ?b)"
    unfolding index_inv_def oi_probe_new using assms(1) probe_inv_new [of "LEVELS * ORDERS * ORDER_INDEX_PLANES"]
    by (simp add: oi_new_def ORDER_INDEX_PLANES_def)
  moreover have "side_inv LEVELS ORDERS d (replicate LEVELS None) (lindex_new LEVELS)" for d
    using lindex_inv_new by (simp add: side_inv_def)
  ultimately show "book_ok ?b" using assms(2) list by (simp add: book_ok_def book_wf_def par)
qed

section \<open>Queries\<close>

definition price_total :: "PriceTicks \<Rightarrow> plist \<Rightarrow> nat" where
  "price_total p xs = sum_list (map (\<lambda>e. o_quantity (snd e)) (filter (\<lambda>e. fst e = p) xs))"

definition total :: "plist \<Rightarrow> nat" where
  "total xs = sum_list (map (\<lambda>e. o_quantity (snd e)) xs)"

lemma price_total_runs:
  assumes "distinct (map fst es)" and "map_of es p = Some i"
  shows "price_total p (runs f es) = sum_list (map o_quantity (f i))"
  using assms
proof (induction es)
  case (Cons e es)
  have *: "price_total q (map (Pair p') ys @ xs) = (if p' = q then sum_list (map o_quantity ys) else 0) + price_total q xs" for q p' ys xs
    by (simp add: price_total_def filter_map o_def)
  show ?case
  proof (cases "fst e = p")
    case True
    have "p \<notin> fst ` set (runs f es)" using Cons.prems(1) True runs_subset [of f es] by auto
    then have "filter (\<lambda>e. fst e = p) (runs f es) = []" by (force simp: filter_empty_conv)
    then have "price_total p (runs f es) = 0" by (simp add: price_total_def)
    with True Cons.prems show ?thesis by (cases e) (auto simp: *)
  next
    case False
    with Cons show ?thesis by (cases e) (auto simp: *)
  qed
qed simp

lemma level_aggregate:
  assumes "level_inv L xs"
  shows "pl_aggregate_quantity L = sum_list (map o_quantity (level_queue L))"
  using aggregate_content [OF assms] by (simp add: level_queue_eq [OF assms] level_orders_def view_def o_def)

lemma top_level_list:
  assumes wf: "sides_wf b"
  shows "top_level b side = (case book_list b side of [] \<Rightarrow> None
    | e # _ \<Rightarrow> Some \<lparr>tl_price = fst e, tl_aggregate_quantity = price_total (fst e) (book_list b side),
        tl_order_count = depth (fst e) (book_list b side)\<rparr>)"
proof (cases "lindex_iter (side_index b side)")
  case Nil
  then show ?thesis by (simp add: top_level_def best_entry_def book_list_runs)
next
  case (Cons e es)
  obtain p i where e: "e = (p, i)" by (cases e) auto
  note f = side_iter_facts [OF wf, where side = side]
  from sides_wfD [OF wf, of side] Cons e obtain L xs where
    L: "level_of (side_levels b side) i = Some L" "level_inv L xs" "xs \<noteq> []"
    using side_level [of "ob_LEVELS b" "ob_ORDERS b" "descending side" "side_levels b side" "side_index b side" p i]
    by (auto simp: level_ok_def)
  have q: "queue_at (side_levels b side) i = level_queue L" using L(1) by (simp add: queue_at_def)
  have ne: "level_queue L \<noteq> []" using level_queue_eq [OF L(2)] L(3) by simp
  then obtain x ys where x: "book_list b side = (p, x) # ys"
    unfolding book_list_runs Cons e by (cases "level_queue L") (auto simp: q)
  have mp: "map_of (lindex_iter (side_index b side)) p = Some i" using Cons e by simp
  have "price_total p (book_list b side) = pl_aggregate_quantity L"
    unfolding book_list_runs using price_total_runs [OF f(2) mp] q level_aggregate [OF L(2)] by simp
  moreover have "depth p (book_list b side) = pl_len L"
    unfolding book_list_runs using depth_runs [OF f(2), of p] mp q level_queue_length [OF L(2)] by simp
  moreover have "level_at b side i = Some L" using L(1) by (simp add: level_at_level_of)
  ultimately show ?thesis using Cons e x by (simp add: top_level_def best_entry_def)
qed

lemma runs_length: "length (runs f es) = sum_list (map (\<lambda>e. length (f (snd e))) es)"
  by (induction es) auto

definition len_of :: "PriceLevel option \<Rightarrow> nat" where
  "len_of x = (case x of None \<Rightarrow> 0 | Some L \<Rightarrow> pl_len L)"

lemma side_count:
  assumes wf: "sides_wf b"
  shows "sum_list (map len_of (side_levels b side)) = length (book_list b side)"
proof -
  let ?ls = "side_levels b side" and ?es = "lindex_iter (side_index b side)"
  note inv = sides_wfD [OF wf, of side]
  note f = side_iter_facts [OF wf, where side = side]
  have dist: "distinct (map snd ?es)" using inv by (simp add: side_inv_def lindex_inv_def)
  have i: "i < length ?ls" if "i \<in> snd ` set ?es" for i using that side_level [OF inv] by fastforce
  have z: "len_of (?ls ! i) = 0" if "i < length ?ls" "i \<notin> snd ` set ?es" for i
    using inv that unfolding side_inv_def by (simp add: len_of_def)
  have q: "len_of (?ls ! i) = length (queue_at ?ls i)" if "(p, i) \<in> set ?es" for p i
    using f(4) [OF that] i [of i] that by (force simp: len_of_def level_at_level_of level_of_def nth_opt_def)
  have "sum_list (map len_of ?ls) = (\<Sum>i<length ?ls. len_of (?ls ! i))"
    by (metis (no_types) atLeast0LessThan length_map nth_map sum.cong sum_list_sum_nth lessThan_iff)
  also have "\<dots> = (\<Sum>i \<in> snd ` set ?es. len_of (?ls ! i))"
    by (rule sum.mono_neutral_right) (use i z in auto)
  also have "\<dots> = sum_list (map (\<lambda>i. len_of (?ls ! i)) (map snd ?es))"
    using sum_list_distinct_conv_sum_set [OF dist, of "\<lambda>i. len_of (?ls ! i)"] by simp
  also have "\<dots> = sum_list (map (\<lambda>e. length (queue_at ?ls (snd e))) ?es)"
    by (rule arg_cong [where f = sum_list]) (use q in auto)
  finally show ?thesis unfolding book_list_runs runs_length .
qed

lemma order_count_list:
  assumes "sides_wf b"
  shows "order_count b = length (book_list b Buy) + length (book_list b Sell)"
proof -
  have "order_count b = sum_list (map len_of (ob_bids b)) + sum_list (map len_of (ob_asks b))"
    by (simp add: order_count_def len_of_def [abs_def])
  with side_count [OF assms, of Buy] side_count [OF assms, of Sell] show ?thesis by (simp add: side_levels_def)
qed

section \<open>Reading results back\<close>

lemma submit_Ok:
  assumes "book_ok b" and "reports_ok rb" and "submit b order rb = Some (Ok (b', rb', sm))"
  obtains ex where "spec_submit (book_abs b) order (reports_remaining_capacity rb) = Ok ex" "sm = summary_of order ex"
    "executed b' rb rb' order ex"
  using submit_refines [OF assms(1,2), of order] assms(3)
  by (cases "spec_submit (book_abs b) order (reports_remaining_capacity rb)") auto

lemma spec_submit_Ok:
  assumes "spec_submit m order cap = Ok ex"
  obtains fills ys left where
    "match_list (no_side order) (no_price order) (no_quantity order) (bm_side m (opposite (no_side order))) = (fills, ys, left)"
    "spec_admit m order = Ok ()" "ex_fills ex = fills" "bm_side (ex_book ex) (opposite (no_side order)) = ys"
    "left = ex_resting ex + ex_discarded ex"
    "bm_side (ex_book ex) (no_side order) = (if ex_resting ex = 0 then bm_side m (no_side order)
       else enqueue (descending (no_side order)) (no_price order) (order_of order (ex_resting ex)) (bm_side m (no_side order)))"
    "no_time_in_force order = Fok \<longrightarrow> left = 0" "no_time_in_force order = Ioc \<longrightarrow> ex_resting ex = 0"
    "no_time_in_force order \<noteq> Ioc \<longrightarrow> ex_discarded ex = 0"
proof -
  obtain fills ys left where
    m: "match_list (no_side order) (no_price order) (no_quantity order) (bm_side m (opposite (no_side order))) = (fills, ys, left)"
    by (metis prod_cases3)
  note alt = spec_submit_alt [OF m, of cap]
  from assms have a: "spec_admit m order = Ok ()" "spec_finish m order fills ys left = Ok ex"
    unfolding alt by (auto simp: and_then_Ok_iff split: if_splits)
  from a(2) have "ex_fills ex = fills" "bm_side (ex_book ex) (opposite (no_side order)) = ys" "left = ex_resting ex + ex_discarded ex"
    "bm_side (ex_book ex) (no_side order) = (if ex_resting ex = 0 then bm_side m (no_side order)
       else enqueue (descending (no_side order)) (no_price order) (order_of order (ex_resting ex)) (bm_side m (no_side order)))"
    "no_time_in_force order = Fok \<longrightarrow> left = 0" "no_time_in_force order = Ioc \<longrightarrow> ex_resting ex = 0"
    "no_time_in_force order \<noteq> Ioc \<longrightarrow> ex_discarded ex = 0"
    unfolding spec_finish_def Let_def
    by (auto simp: and_then_Ok_iff split: TimeInForce.splits if_splits)
  with m a(1) show thesis by (intro that)
qed

section \<open>Matching on lists\<close>

definition whole :: "PriceTicks \<times> Order \<Rightarrow> PriceTicks \<times> OrderId \<times> Quantity" where
  "whole e = (fst e, o_id (snd e), o_quantity (snd e))"

text \<open>
  A match takes a prefix of the list whole, then possibly a part of the next order, in which case
  nothing of the incoming order is left.
\<close>

lemma match_list_prefix:
  assumes "match_list side limit n xs = (fills, ys, left)"
  shows "\<exists>A B. xs = A @ B \<and> (\<forall>e \<in> set A. crosses side (fst e) limit) \<and>
    (ys = B \<and> fills = map whole A \<or>
     (\<exists>p x q B'. B = (p, x) # B' \<and> crosses side p limit \<and> 0 < q \<and> q < o_quantity x \<and> left = 0 \<and>
        ys = (p, x\<lparr>o_quantity := o_quantity x - q\<rparr>) # B' \<and> fills = map whole A @ [(p, o_id x, q)]))"
  using assms
proof (induction xs arbitrary: n fills ys left)
  case (Cons e xs)
  obtain p x where e: "e = (p, x)" by (cases e) auto
  show ?case
  proof (cases "n = 0 \<or> \<not> crosses side p limit")
    case True
    with Cons.prems e show ?thesis by (intro exI [of _ "[]"] exI [of _ "e # xs"]) auto
  next
    case False
    show ?thesis
    proof (cases "o_quantity x \<le> n")
      case True
      obtain fills' where m: "match_list side limit (n - o_quantity x) xs = (fills', ys, left)"
        "fills = (p, o_id x, o_quantity x) # fills'" using Cons.prems e False True by (auto split: prod.splits)
      from Cons.IH [OF m(1)] obtain A B where AB: "xs = A @ B" "\<forall>e \<in> set A. crosses side (fst e) limit"
        "ys = B \<and> fills' = map whole A \<or>
         (\<exists>p x q B'. B = (p, x) # B' \<and> crosses side p limit \<and> 0 < q \<and> q < o_quantity x \<and> left = 0 \<and>
            ys = (p, x\<lparr>o_quantity := o_quantity x - q\<rparr>) # B' \<and> fills' = map whole A @ [(p, o_id x, q)])" by blast
      show ?thesis by (intro exI [of _ "e # A"] exI [of _ B]) (use AB m(2) e False in \<open>auto simp: whole_def\<close>)
    next
      case part: False
      with Cons.prems e False show ?thesis by (intro exI [of _ "[]"] exI [of _ "e # xs"]) auto
    qed
  qed
qed auto

lemma match_list_total:
  "match_list side limit n xs = (fills, ys, left) \<Longrightarrow> total ys + fills_sum fills = total xs"
proof (induction xs arbitrary: n fills ys left)
  case (Cons e xs)
  obtain p x where e: "e = (p, x)" by (cases e) auto
  with Cons.prems Cons.IH [of "n - o_quantity x"] show ?case
    by (auto simp: total_def fills_sum_def split: if_splits prod.splits)
qed (simp add: total_def fills_sum_def)

lemma enqueue_total: "total (enqueue d p x xs) = total xs + o_quantity x"
proof -
  have "total xs = total (takeWhile (\<lambda>e. \<not> before d p (fst e)) xs) + total (dropWhile (\<lambda>e. \<not> before d p (fst e)) xs)"
    by (metis (no_types) map_append sum_list_append takeWhile_dropWhile_id total_def)
  then show ?thesis unfolding enqueue_def by (simp add: total_def)
qed

lemma reports_of_quantities: "sum_list (map er_quantity (reports_of order fills)) = fills_sum fills"
  by (induction fills) (auto simp: reports_of_def fills_sum_def fill_report_def)

lemma bm_side_abs: "book_abs b = m \<Longrightarrow> book_list b side = bm_side m side"
  by auto

section \<open>Reachable books\<close>

inductive book_step :: "OrderBook \<Rightarrow> OrderBook \<Rightarrow> bool" where
  submitted: "new_order_ok order \<Longrightarrow> reports_ok rb \<Longrightarrow> submit b order rb = Some (Ok (b', rb', sm)) \<Longrightarrow> book_step b b'"
| cancelled: "cancel b c = Some (Ok (b', out)) \<Longrightarrow> book_step b b'"
| amended: "replace_order_ok r \<Longrightarrow> replace b r = Some (Ok (b', out)) \<Longrightarrow> book_step b b'"

inductive book_reachable :: "nat \<Rightarrow> nat \<Rightarrow> InstrumentId \<Rightarrow> OrderBook \<Rightarrow> bool" for LEVELS ORDERS inst where
  empty: "book_reachable LEVELS ORDERS inst (book_new LEVELS ORDERS inst)"
| next_book: "book_reachable LEVELS ORDERS inst b \<Longrightarrow> book_step b b' \<Longrightarrow> book_reachable LEVELS ORDERS inst b'"

text \<open>Every quantity on the book fits 64 bits.\<close>

definition quantities_fit :: "BookModel \<Rightarrow> bool" where
  "quantities_fit m \<longleftrightarrow> (\<forall>side p x. (p, x) \<in> set (bm_side m side) \<longrightarrow> u64_ok (o_quantity x))"

lemma match_list_fit:
  assumes "match_list side limit n xs = (fills, ys, left)" and "\<And>p x. (p, x) \<in> set xs \<Longrightarrow> u64_ok (o_quantity x)"
    and "(p, y) \<in> set ys"
  shows "u64_ok (o_quantity y)"
proof -
  from match_list_prefix [OF assms(1)] assms(3)
  obtain x where "(p, x) \<in> set xs" "o_quantity y \<le> o_quantity x" by force
  with assms(2) [of p x] show ?thesis by (simp add: u64_ok_def)
qed

lemma spec_submit_fit:
  assumes "spec_submit m order cap = Ok ex" and "quantities_fit m" and "new_order_ok order"
  shows "quantities_fit (ex_book ex)"
proof -
  from assms(1) obtain fills ys left where
    E: "match_list (no_side order) (no_price order) (no_quantity order) (bm_side m (opposite (no_side order))) = (fills, ys, left)"
      "bm_side (ex_book ex) (opposite (no_side order)) = ys" "left = ex_resting ex + ex_discarded ex"
      "bm_side (ex_book ex) (no_side order) = (if ex_resting ex = 0 then bm_side m (no_side order)
         else enqueue (descending (no_side order)) (no_price order) (order_of order (ex_resting ex)) (bm_side m (no_side order)))"
    by (rule spec_submit_Ok) blast
  have m: "u64_ok (o_quantity x)" if "(p, x) \<in> set (bm_side m side)" for side p x
    using assms(2) that unfolding quantities_fit_def by blast
  have "left \<le> no_quantity order" using match_list_facts(3) [OF E(1)] by simp
  then have r: "u64_ok (ex_resting ex)" using E(3) assms(3) by (simp add: new_order_ok_def u64_ok_def)
  have "u64_ok (o_quantity x)" if x: "(p, x) \<in> set (bm_side (ex_book ex) side)" for side p x
  proof (cases "side = no_side order")
    case True
    with x E(4) have "x = order_of order (ex_resting ex) \<or> (p, x) \<in> set (bm_side m side)" by (auto split: if_splits)
    with m r show ?thesis by (auto simp: order_of_def)
  next
    case False
    with other_side have "side = opposite (no_side order)" by blast
    with x E(2) show ?thesis using match_list_fit [OF E(1), of p x] m by blast
  qed
  then show ?thesis unfolding quantities_fit_def by blast
qed

lemma set_side_fit:
  "quantities_fit m \<Longrightarrow> (\<And>p x. (p, x) \<in> set xs \<Longrightarrow> u64_ok (o_quantity x)) \<Longrightarrow> quantities_fit (set_side m side xs)"
  by (auto simp: quantities_fit_def)

lemma quantities_fitD: "quantities_fit m \<Longrightarrow> (p, x) \<in> set (bm_side m side) \<Longrightarrow> u64_ok (o_quantity x)"
  unfolding quantities_fit_def by blast

lemma spec_cancel_fit: "spec_cancel m c = Ok (m', out) \<Longrightarrow> quantities_fit m \<Longrightarrow> quantities_fit m'"
  unfolding spec_cancel_def
  by (auto split: if_splits option.splits prod.splits intro!: set_side_fit simp: delete_order_def dest: quantities_fitD)

lemma spec_replace_fit:
  assumes "spec_replace m r = Ok (m', out)" and "quantities_fit m" and "replace_order_ok r"
  shows "quantities_fit m'"
proof -
  have q: "u64_ok (ro_quantity r)" using assms(3) by (simp add: replace_order_ok_def)
  show ?thesis using assms(1,2) q unfolding spec_replace_def
    by (auto split: if_splits option.splits prod.splits intro!: set_side_fit simp: and_then_Ok_iff delete_order_def
        dest: quantities_fitD)
qed

lemma reachable_inv:
  assumes "book_reachable LEVELS ORDERS inst b" and "LEVELS * ORDERS * 4 \<le> 2 ^ 32" and "0 < ORDERS"
  shows "book_ok b \<and> quantities_fit (book_abs b) \<and> ob_LEVELS b = LEVELS \<and> ob_ORDERS b = ORDERS \<and> ob_instrument b = inst"
  using assms(1)
proof induction
  case empty
  show ?case using book_ok_new [OF assms(2,3), of inst] by (simp add: quantities_fit_def book_new_def)
next
  case (next_book b b')
  then have ok: "book_ok b" and fit: "quantities_fit (book_abs b)"
    and par: "ob_LEVELS b = LEVELS" "ob_ORDERS b = ORDERS" "ob_instrument b = inst" by auto
  have par': "ob_LEVELS b' = LEVELS \<and> ob_ORDERS b' = ORDERS \<and> ob_instrument b' = inst"
    if "bm_LEVELS (book_abs b') = bm_LEVELS (book_abs b)" "bm_ORDERS (book_abs b') = bm_ORDERS (book_abs b)"
      "bm_instrument (book_abs b') = bm_instrument (book_abs b)" using that par by simp
  from next_book.hyps(2) show ?case
  proof cases
    case (submitted order rb rb' sm)
    from submit_Ok [OF ok submitted(2,3)] obtain ex where
      ex: "spec_submit (book_abs b) order (reports_remaining_capacity rb) = Ok ex" "executed b' rb rb' order ex" by blast
    then have b': "book_ok b'" "book_abs b' = ex_book ex" by (auto simp: executed_def)
    moreover have "bm_LEVELS (ex_book ex) = ob_LEVELS b \<and> bm_ORDERS (ex_book ex) = ob_ORDERS b \<and> bm_instrument (ex_book ex) = ob_instrument b"
      using ex(1) unfolding spec_submit_def
      by (auto simp: and_then_Ok_iff Let_def split: if_splits prod.splits TimeInForce.splits)
    ultimately show ?thesis using spec_submit_fit [OF ex(1) fit submitted(1)] par' by simp
  next
    case (cancelled c out)
    with book_cancel_refines [OF ok, of c] obtain m where
      m: "spec_cancel (book_abs b) c = Ok (m, out)" "book_ok b'" "book_abs b' = m"
      by (auto split: result.splits)
    moreover have "bm_LEVELS m = ob_LEVELS b \<and> bm_ORDERS m = ob_ORDERS b \<and> bm_instrument m = ob_instrument b"
      using m(1) unfolding spec_cancel_def by (auto split: if_splits option.splits prod.splits)
    ultimately show ?thesis using spec_cancel_fit [OF m(1) fit] par' by simp
  next
    case (amended r out)
    with replace_refines [OF ok, of r] obtain m where
      m: "spec_replace (book_abs b) r = Ok (m, out)" "book_ok b'" "book_abs b' = m"
      by (auto split: result.splits)
    moreover have "bm_LEVELS m = ob_LEVELS b \<and> bm_ORDERS m = ob_ORDERS b \<and> bm_instrument m = ob_instrument b"
      using m(1) unfolding spec_replace_def by (auto simp: and_then_Ok_iff split: if_splits option.splits prod.splits)
    ultimately show ?thesis using spec_replace_fit [OF m(1) fit amended(1)] par' by simp
  qed
qed

lemma distinct_ids:
  assumes wf: "book_wf b"
  shows "distinct (map (\<lambda>e. o_id (snd e)) (book_list b Buy @ book_list b Sell))"
proof -
  note sides = wf_sides [OF wf]
  have d: "distinct (map (\<lambda>e. o_id (snd e)) (book_list b side))" for side
  proof (rule ccontr)
    assume "\<not> distinct (map (\<lambda>e. o_id (snd e)) (book_list b side))"
    then obtain k us vs ws where "map (\<lambda>e. o_id (snd e)) (book_list b side) = us @ [k] @ vs @ [k] @ ws"
      using not_distinct_decomp by blast
    then have "map (\<lambda>z. o_id (snd (snd (snd z)))) (zmakers b side) = us @ k # (vs @ [k] @ ws)"
      by (simp add: book_list_zmakers [OF sides] unzip_def o_def split_beta)
    from iffD1 [OF map_eq_append_conv this] obtain Z1 Zs where
      Zs: "zmakers b side = Z1 @ Zs" "k # (vs @ [k] @ ws) = map (\<lambda>z. o_id (snd (snd (snd z)))) Zs" by (elim exE conjE) (rule that)
    then obtain z Z2 where "Zs = z # Z2" "o_id (snd (snd (snd z))) = k" and rest: "map (\<lambda>z. o_id (snd (snd (snd z)))) Z2 = vs @ [k] @ ws"
      by (cases Zs) auto
    with Zs(1) obtain p i s x where z: "zmakers b side = Z1 @ (p, i, s, x) # Z2" "o_id x = k" by (metis prod.collapse)
    then have "k \<in> (\<lambda>z. o_id (snd (snd (snd z)))) ` set Z2" using rest by (metis in_set_conv_decomp append_Cons append_Nil list.set_map)
    then have "k \<in> ids (unzip (Z1 @ Z2))" by (force simp: in_ids_unzip)
    with ids_unique(1) [OF wf z(1)] z(2) show False by blast
  qed
  have "(\<lambda>e. o_id (snd e)) ` set (book_list b Buy) \<inter> (\<lambda>e. o_id (snd e)) ` set (book_list b Sell) = {}"
  proof (rule ccontr)
    assume "\<not> ?thesis"
    then obtain k where k: "k \<in> ids (book_list b Buy)" "k \<in> ids (book_list b Sell)" unfolding ids_def by blast
    from k(1) obtain p i s x where "(p, i, s, x) \<in> set (zmakers b Buy)" "o_id x = k"
      unfolding book_list_zmakers [OF sides] in_ids_unzip by blast
    then obtain Z1 Z2 where "zmakers b Buy = Z1 @ (p, i, s, x) # Z2" by (metis split_list)
    from ids_unique(2) [OF wf this] \<open>o_id x = k\<close> k(2) show False by simp
  qed
  with d show ?thesis by simp
qed

lemma level_depth_bound:
  assumes "sides_wf b"
  shows "depth p (book_list b side) \<le> ob_ORDERS b"
  using assms by (cases rule: level_lookup [where side = side and p = p]) (use level_len_bound [OF assms] in auto)

section \<open>A concrete book\<close>

text \<open>Two levels of two orders per side, for instrument 3; a buy of 40 and a sell of 55 at one price.\<close>

definition demo_buy :: NewOrder where
  "demo_buy = \<lparr>no_order_id = 11, no_account_id = 7, no_instrument_id = 3, no_price = 100, no_quantity = 40,
     no_sequence = 1, no_side = Buy, no_time_in_force = Gtc\<rparr>"

definition demo_sell :: "TimeInForce \<Rightarrow> NewOrder" where
  "demo_sell tif = \<lparr>no_order_id = 12, no_account_id = 8, no_instrument_id = 3, no_price = 100, no_quantity = 55,
     no_sequence = 2, no_side = Sell, no_time_in_force = tif\<rparr>"

abbreviation demo_empty :: OrderBook where
  "demo_empty \<equiv> book_new 2 2 3"

lemma demo_empty_ok: "book_ok demo_empty" "book_list demo_empty side = []"
  by (rule book_ok_new; simp)+

lemma demo_rested:
  obtains b rb where "submit demo_empty demo_buy (reports_new 4) = Some (Ok (b, rb, \<lparr>ms_state = Accepted,
      ms_filled_quantity = 0, ms_resting_quantity = 40, ms_discarded_quantity = 0, ms_report_count = 0\<rparr>))"
    "book_ok b" "book_list b Buy = [(100, \<lparr>o_id = 11, o_account = 7, o_quantity = 40, o_sequence = 1\<rparr>)]"
    "book_list b Sell = []" "ob_instrument b = 3" "ob_LEVELS b = 2" "ob_ORDERS b = 2"
proof -
  let ?ex = "\<lparr>ex_book = set_side (set_side (book_abs demo_empty) Sell []) Buy
      [(100, \<lparr>o_id = 11, o_account = 7, o_quantity = 40, o_sequence = 1\<rparr>)], ex_fills = [], ex_resting = 40, ex_discarded = 0\<rparr>"
  have par: "ob_LEVELS demo_empty = 2" "ob_ORDERS demo_empty = 2" "ob_instrument demo_empty = 3" by (simp_all add: book_new_def)
  have "spec_submit (book_abs demo_empty) demo_buy (reports_remaining_capacity (reports_new 4)) = Ok ?ex"
    by (simp add: spec_submit_def spec_admit_def demo_buy_def demo_empty_ok(2) par rest_check_def depth_def level_count_def
        enqueue_def order_of_def ids_def)
  with submit_refines [OF demo_empty_ok(1) reports_new_ok, of demo_buy 4] obtain b rb where
    b: "submit demo_empty demo_buy (reports_new 4) = Some (Ok (b, rb, summary_of demo_buy ?ex))"
      "executed b (reports_new 4) rb demo_buy ?ex" by auto
  have abs: "book_abs b = ex_book ?ex" and ok: "book_ok b" using b(2) by (auto simp: executed_def)
  have "book_list b side = bm_side (ex_book ?ex) side" "ob_instrument b = bm_instrument (ex_book ?ex)"
    "ob_LEVELS b = bm_LEVELS (ex_book ?ex)" "ob_ORDERS b = bm_ORDERS (ex_book ?ex)" for side
    using abs by (metis book_abs_sel)+
  with that [of b rb] b(1) ok show thesis by (simp add: summary_of_def fills_sum_def demo_buy_def par)
qed

text \<open>A sell of 55 that takes the buy of 40 and discards the rest.\<close>

lemma demo_traded:
  obtains b b' rb where "book_ok b" "book_list b Buy = [(100, \<lparr>o_id = 11, o_account = 7, o_quantity = 40, o_sequence = 1\<rparr>)]" "book_list b Sell = []"
    "submit b (demo_sell Ioc) (reports_new 4) = Some (Ok (b', rb, \<lparr>ms_state = PartiallyFilled,
      ms_filled_quantity = 40, ms_resting_quantity = 0, ms_discarded_quantity = 15, ms_report_count = 1\<rparr>))"
proof -
  from demo_rested obtain b where b: "book_ok b" "book_list b Buy = [(100, \<lparr>o_id = 11, o_account = 7, o_quantity = 40, o_sequence = 1\<rparr>)]"
    "book_list b Sell = []" "ob_instrument b = 3" by blast
  let ?ex = "\<lparr>ex_book = set_side (book_abs b) Buy [], ex_fills = [(100, 11, 40)], ex_resting = 0, ex_discarded = 15\<rparr>"
  have "spec_submit (book_abs b) (demo_sell Ioc) (reports_remaining_capacity (reports_new 4)) = Ok ?ex"
    by (simp add: spec_submit_def spec_admit_def demo_sell_def b(2-4) ids_def crosses_def reports_remaining_capacity_def reports_new_def)
  with submit_refines [OF b(1) reports_new_ok, of "demo_sell Ioc" 4] obtain b' rb where
    "submit b (demo_sell Ioc) (reports_new 4) = Some (Ok (b', rb, summary_of (demo_sell Ioc) ?ex))" by auto
  then show thesis by (intro that [OF b(1-3)]) (simp add: summary_of_def fills_sum_def demo_sell_def)
qed

section \<open>Properties\<close>

text \<open>
  C11: submission refines price-time priority. On a well-formed book and report buffer, \<open>submit\<close> never
  panics; it rejects exactly with the reason the specification gives; otherwise the new book is well
  formed and is the specified one, the specified fills are appended to the reports, and the summary
  states their total, what rests and what is discarded.
\<close>
theorem submit_refines_spec:
  assumes "book_ok b" and "reports_ok rb"
  shows "case spec_submit (book_abs b) order (reports_remaining_capacity rb) of
      Err e \<Rightarrow> submit b order rb = Some (Err e)
    | Ok ex \<Rightarrow> \<exists>b' rb'. submit b order rb = Some (Ok (b', rb', summary_of order ex)) \<and> executed b' rb rb' order ex"
  using assms by (rule submit_refines)

theorem submit_refines_spec_witness:
  "\<exists>b rb b' rb'. submit demo_empty demo_buy (reports_new 4) = Some (Ok (b, rb, \<lparr>ms_state = Accepted,
      ms_filled_quantity = 0, ms_resting_quantity = 40, ms_discarded_quantity = 0, ms_report_count = 0\<rparr>)) \<and>
     submit b (demo_sell Ioc) (reports_new 4) = Some (Ok (b', rb', \<lparr>ms_state = PartiallyFilled,
      ms_filled_quantity = 40, ms_resting_quantity = 0, ms_discarded_quantity = 15, ms_report_count = 1\<rparr>)) \<and>
     book_list b' Buy = []"
proof -
  from demo_rested obtain b rb where b: "submit demo_empty demo_buy (reports_new 4) = Some (Ok (b, rb, \<lparr>ms_state = Accepted,
      ms_filled_quantity = 0, ms_resting_quantity = 40, ms_discarded_quantity = 0, ms_report_count = 0\<rparr>))"
    "book_ok b" "book_list b Buy = [(100, \<lparr>o_id = 11, o_account = 7, o_quantity = 40, o_sequence = 1\<rparr>)]"
    "book_list b Sell = []" "ob_instrument b = 3" by blast
  let ?ex = "\<lparr>ex_book = set_side (book_abs b) Buy [], ex_fills = [(100, 11, 40)], ex_resting = 0, ex_discarded = 15\<rparr>"
  have "spec_submit (book_abs b) (demo_sell Ioc) (reports_remaining_capacity (reports_new 4)) = Ok ?ex"
    by (simp add: spec_submit_def spec_admit_def demo_sell_def b(3-5) ids_def crosses_def reports_remaining_capacity_def reports_new_def)
  with submit_refines_spec [OF b(2) reports_new_ok, of "demo_sell Ioc" 4] obtain b' rb' where
    "submit b (demo_sell Ioc) (reports_new 4) = Some (Ok (b', rb', summary_of (demo_sell Ioc) ?ex))" "book_abs b' = ex_book ?ex"
    by (auto simp: executed_def)
  moreover from this(2) have "book_list b' Buy = []" by (metis book_abs_sel(4) set_side_sel(4) Execution.select_convs(1))
  ultimately show ?thesis using b(1) by (auto simp: summary_of_def fills_sum_def demo_sell_def)
qed

text \<open>
  C12: cancellation refines its specification: unknown orders, foreign instruments and strangers are
  rejected, otherwise exactly the named order leaves the book and its remaining quantity is returned.
\<close>
theorem cancel_refines_spec:
  assumes "book_ok b"
  shows "case spec_cancel (book_abs b) c of
      Err e \<Rightarrow> cancel b c = Some (Err e)
    | Ok (m, out) \<Rightarrow> \<exists>b'. cancel b c = Some (Ok (b', out)) \<and> book_ok b' \<and> book_abs b' = m"
  using assms by (rule book_cancel_refines)

theorem cancel_refines_spec_witness:
  "\<exists>b b'. book_ok b \<and> length (book_list b Buy) = 1 \<and>
     cancel b \<lparr>co_order_id = 11, co_account_id = 7, co_instrument_id = 3, co_sequence = 2\<rparr> =
       Some (Ok (b', \<lparr>cn_order_id = 11, cn_account_id = 7, cn_quantity = 40\<rparr>)) \<and> book_list b' Buy = []"
proof -
  from demo_rested obtain b where b: "book_ok b" "book_list b Buy = [(100, \<lparr>o_id = 11, o_account = 7, o_quantity = 40, o_sequence = 1\<rparr>)]"
    "book_list b Sell = []" "ob_instrument b = 3" by blast
  let ?c = "\<lparr>co_order_id = 11, co_account_id = 7, co_instrument_id = 3, co_sequence = 2\<rparr>"
  have "spec_cancel (book_abs b) ?c = Ok (set_side (book_abs b) Buy [], \<lparr>cn_order_id = 11, cn_account_id = 7, cn_quantity = 40\<rparr>)"
    by (simp add: spec_cancel_def find_side_def find_order_def delete_order_def b(2-4))
  with cancel_refines_spec [OF b(1), of ?c] obtain b' where
    "cancel b ?c = Some (Ok (b', \<lparr>cn_order_id = 11, cn_account_id = 7, cn_quantity = 40\<rparr>))" "book_abs b' = set_side (book_abs b) Buy []" by auto
  moreover from this(2) have "book_list b' Buy = []" by (metis book_abs_sel(4) set_side_sel(4))
  ultimately show ?thesis using b by auto
qed

text \<open>
  C13: replacement refines its specification: a reduction at the same price keeps the order's place,
  any other amendment moves it behind every order of the same or a better price, and an amendment that
  would trade or does not fit is rejected with the book unchanged.
\<close>
theorem replace_refines_spec:
  assumes "book_ok b"
  shows "case spec_replace (book_abs b) r of
      Err e \<Rightarrow> replace b r = Some (Err e)
    | Ok (m, out) \<Rightarrow> \<exists>b'. replace b r = Some (Ok (b', out)) \<and> book_ok b' \<and> book_abs b' = m"
  using assms by (rule replace_refines)

theorem replace_refines_spec_witness:
  "\<exists>b b'. book_ok b \<and> length (book_list b Buy) = 1 \<and>
     replace b \<lparr>ro_order_id = 11, ro_account_id = 7, ro_instrument_id = 3, ro_sequence = 2, ro_price = 100, ro_quantity = 30\<rparr> =
       Some (Ok (b', \<lparr>rp_order_id = 11, rp_account_id = 7, rp_old_quantity = 40, rp_new_quantity = 30, rp_price = 100,
         rp_priority_lost = False\<rparr>)) \<and>
     book_list b' Buy = [(100, \<lparr>o_id = 11, o_account = 7, o_quantity = 30, o_sequence = 1\<rparr>)]"
proof -
  from demo_rested obtain b where b: "book_ok b" "book_list b Buy = [(100, \<lparr>o_id = 11, o_account = 7, o_quantity = 40, o_sequence = 1\<rparr>)]"
    "book_list b Sell = []" "ob_instrument b = 3" by blast
  let ?r = "\<lparr>ro_order_id = 11, ro_account_id = 7, ro_instrument_id = 3, ro_sequence = 2, ro_price = 100, ro_quantity = 30\<rparr>"
  let ?m = "set_side (book_abs b) Buy [(100, \<lparr>o_id = 11, o_account = 7, o_quantity = 30, o_sequence = 1\<rparr>)]"
  have "spec_replace (book_abs b) ?r = Ok (?m, replaced ?r 40 False)"
    by (simp add: spec_replace_def find_side_def find_order_def b(2-4))
  with replace_refines_spec [OF b(1), of ?r] obtain b' where
    "replace b ?r = Some (Ok (b', replaced ?r 40 False))" "book_abs b' = ?m" by auto
  moreover from this(2) have "book_list b' Buy = [(100, \<lparr>o_id = 11, o_account = 7, o_quantity = 30, o_sequence = 1\<rparr>)]"
    by (metis book_abs_sel(4) set_side_sel(4))
  ultimately show ?thesis using b by (auto simp: replaced_def)
qed

text \<open>
  C14: conservation of quantity. What a submission fills, rests and discards adds up to the order; the
  opposing side loses exactly what was filled and the order's side gains exactly what rests; the new
  reports add up to what was filled.
\<close>
theorem submit_conserves_quantity:
  assumes "book_ok b" and "reports_ok rb" and "submit b order rb = Some (Ok (b', rb', sm))"
  shows "ms_filled_quantity sm + ms_resting_quantity sm + ms_discarded_quantity sm = no_quantity order \<and>
    total (book_list b' (opposite (no_side order))) + ms_filled_quantity sm = total (book_list b (opposite (no_side order))) \<and>
    total (book_list b' (no_side order)) = total (book_list b (no_side order)) + ms_resting_quantity sm \<and>
    (\<exists>new. reports_iter rb' = reports_iter rb @ new \<and> length new = ms_report_count sm \<and>
       sum_list (map er_quantity new) = ms_filled_quantity sm)"
proof -
  from submit_Ok [OF assms] obtain ex where
    ex: "spec_submit (book_abs b) order (reports_remaining_capacity rb) = Ok ex" "sm = summary_of order ex" "executed b' rb rb' order ex" .
  from ex(1) obtain fills ys left where
    E: "match_list (no_side order) (no_price order) (no_quantity order) (bm_side (book_abs b) (opposite (no_side order))) = (fills, ys, left)"
      "ex_fills ex = fills" "bm_side (ex_book ex) (opposite (no_side order)) = ys" "left = ex_resting ex + ex_discarded ex"
      "bm_side (ex_book ex) (no_side order) = (if ex_resting ex = 0 then bm_side (book_abs b) (no_side order)
         else enqueue (descending (no_side order)) (no_price order) (order_of order (ex_resting ex)) (bm_side (book_abs b) (no_side order)))"
    by (rule spec_submit_Ok) blast
  have l: "book_list b' side = bm_side (ex_book ex) side" for side using ex(3) by (simp add: executed_def bm_side_abs)
  have sm: "ms_filled_quantity sm = fills_sum fills" "ms_resting_quantity sm = ex_resting ex" "ms_discarded_quantity sm = ex_discarded ex"
    "ms_report_count sm = length fills" by (simp_all add: ex(2) summary_of_def Let_def E(2))
  have "reports_iter rb' = reports_iter rb @ reports_of order fills" using ex(3) E(2) by (simp add: executed_def)
  moreover have "length (reports_of order fills) = length fills" by (simp add: reports_of_def)
  moreover note reports_of_quantities [of order fills]
  moreover have "no_quantity order = fills_sum fills + left" using match_list_facts(3) [OF E(1)] by (simp add: fills_sum_def)
  moreover have "total ys + fills_sum fills = total (book_list b (opposite (no_side order)))" using match_list_total [OF E(1)] by simp
  moreover have "total (book_list b' (no_side order)) = total (book_list b (no_side order)) + ex_resting ex"
    by (simp add: l E(5) enqueue_total order_of_def)
  ultimately show ?thesis using E(3,4) by (simp add: sm l)
qed

theorem submit_conserves_quantity_witness:
  "\<exists>b b' rb sm. submit b (demo_sell Ioc) (reports_new 4) = Some (Ok (b', rb, sm)) \<and> ms_filled_quantity sm = 40 \<and> ms_discarded_quantity sm = 15 \<and>
     total (book_list b Buy) = 40 \<and> total (book_list b' Buy) = 0 \<and> sum_list (map er_quantity (reports_iter rb)) = 40"
proof -
  obtain b b' rb where b: "book_ok b" "book_list b Buy = [(100, \<lparr>o_id = 11, o_account = 7, o_quantity = 40, o_sequence = 1\<rparr>)]"
    "submit b (demo_sell Ioc) (reports_new 4) = Some (Ok (b', rb, \<lparr>ms_state = PartiallyFilled,
      ms_filled_quantity = 40, ms_resting_quantity = 0, ms_discarded_quantity = 15, ms_report_count = 1\<rparr>))" by (rule demo_traded)
  from submit_conserves_quantity [OF b(1) reports_new_ok b(3)] have
    "total (book_list b' Buy) = 0" "sum_list (map er_quantity (reports_iter rb)) = 40" "total (book_list b Buy) = 40"
    using b(2) by (auto simp: demo_sell_def total_def reports_iter_def reports_new_def)
  with b(3) show ?thesis by (intro exI [of _ b] exI [of _ b'] exI [of _ rb] exI [of _ "\<lparr>ms_state = PartiallyFilled,
      ms_filled_quantity = 40, ms_resting_quantity = 0, ms_discarded_quantity = 15, ms_report_count = 1\<rparr>"]) simp
qed

text \<open>
  C15: price-time priority of fills. The fills of a submission take a prefix of the opposing list whole,
  in order and at the makers' own prices, then at most a part of the next order; every maker taken
  crosses the limit price; and when the order is not filled completely no crossing order is left.
\<close>
theorem submit_price_time_priority:
  assumes "book_ok b" and "reports_ok rb" and "submit b order rb = Some (Ok (b', rb', sm))"
  shows "\<exists>A B new. book_list b (opposite (no_side order)) = A @ B \<and> reports_iter rb' = reports_iter rb @ new \<and>
    (\<forall>e \<in> set A. crosses (no_side order) (fst e) (no_price order)) \<and>
    (book_list b' (opposite (no_side order)) = B \<and> new = reports_of order (map whole A) \<or>
     (\<exists>p x q B'. B = (p, x) # B' \<and> crosses (no_side order) p (no_price order) \<and> 0 < q \<and> q < o_quantity x \<and>
        book_list b' (opposite (no_side order)) = (p, x\<lparr>o_quantity := o_quantity x - q\<rparr>) # B' \<and>
        new = reports_of order (map whole A @ [(p, o_id x, q)]) \<and> ms_filled_quantity sm = no_quantity order)) \<and>
    (ms_filled_quantity sm < no_quantity order \<longrightarrow>
      (\<forall>e \<in> set (book_list b' (opposite (no_side order))). \<not> crosses (no_side order) (fst e) (no_price order)))"
proof -
  let ?sd = "no_side order" and ?p = "no_price order"
  have wf: "book_wf b" using assms(1) by (simp add: book_ok_def)
  from submit_Ok [OF assms] obtain ex where
    ex: "spec_submit (book_abs b) order (reports_remaining_capacity rb) = Ok ex" "sm = summary_of order ex" "executed b' rb rb' order ex" .
  from ex(1) obtain fills ys left where
    E: "match_list ?sd ?p (no_quantity order) (bm_side (book_abs b) (opposite ?sd)) = (fills, ys, left)"
      "ex_fills ex = fills" "bm_side (ex_book ex) (opposite ?sd) = ys"
    by (rule spec_submit_Ok) blast
  note m = E(1) [unfolded book_abs_sel]
  have l: "book_list b' (opposite ?sd) = ys" using ex(3) E(3) by (simp add: executed_def bm_side_abs)
  have r: "reports_iter rb' = reports_iter rb @ reports_of order fills" using ex(3) E(2) by (simp add: executed_def)
  have sum: "no_quantity order = ms_filled_quantity sm + left"
    using match_list_facts(3) [OF m] by (simp add: ex(2) summary_of_def Let_def E(2) fills_sum_def)
  have "\<forall>e \<in> set ys. \<not> crosses ?sd (fst e) ?p" if "ms_filled_quantity sm < no_quantity order"
    by (rule match_list_left [OF m]) (use that sum book_list_sorted [OF wf_sides [OF wf]] in auto)
  moreover from match_list_prefix [OF m] obtain A B where AB: "book_list b (opposite ?sd) = A @ B"
      "\<forall>e \<in> set A. crosses ?sd (fst e) ?p"
      "ys = B \<and> fills = map whole A \<or> (\<exists>p x q B'. B = (p, x) # B' \<and> crosses ?sd p ?p \<and> 0 < q \<and> q < o_quantity x \<and> left = 0 \<and>
        ys = (p, x\<lparr>o_quantity := o_quantity x - q\<rparr>) # B' \<and> fills = map whole A @ [(p, o_id x, q)])" by blast
  moreover have "ys = B \<and> reports_of order fills = reports_of order (map whole A) \<or>
     (\<exists>p x q B'. B = (p, x) # B' \<and> crosses ?sd p ?p \<and> 0 < q \<and> q < o_quantity x \<and>
        ys = (p, x\<lparr>o_quantity := o_quantity x - q\<rparr>) # B' \<and>
        reports_of order fills = reports_of order (map whole A @ [(p, o_id x, q)]) \<and> ms_filled_quantity sm = no_quantity order)"
    using AB(3) sum by auto
  ultimately show ?thesis unfolding l using r by blast
qed

theorem submit_price_time_priority_witness:
  "\<exists>b b' rb sm A B. submit b (demo_sell Ioc) (reports_new 4) = Some (Ok (b', rb, sm)) \<and> ms_filled_quantity sm = 40 \<and> book_list b Buy = A @ B \<and>
     (\<forall>e \<in> set A. crosses Sell (fst e) 100) \<and> (\<forall>e \<in> set (book_list b' Buy). \<not> crosses Sell (fst e) 100)"
proof -
  obtain b b' rb where b: "book_ok b" "book_list b Buy = [(100, \<lparr>o_id = 11, o_account = 7, o_quantity = 40, o_sequence = 1\<rparr>)]"
    "submit b (demo_sell Ioc) (reports_new 4) = Some (Ok (b', rb, \<lparr>ms_state = PartiallyFilled,
      ms_filled_quantity = 40, ms_resting_quantity = 0, ms_discarded_quantity = 15, ms_report_count = 1\<rparr>))" by (rule demo_traded)
  have sell: "no_side (demo_sell Ioc) = Sell" "no_price (demo_sell Ioc) = 100" "no_quantity (demo_sell Ioc) = 55" by (simp_all add: demo_sell_def)
  from submit_price_time_priority [OF b(1) reports_new_ok b(3), unfolded sell] obtain A B where
    "book_list b Buy = A @ B" "\<forall>e \<in> set A. crosses Sell (fst e) 100" "\<forall>e \<in> set (book_list b' Buy). \<not> crosses Sell (fst e) 100" by auto
  with b(3) show ?thesis by (intro exI [of _ b] exI [of _ b'] exI [of _ rb] exI [of _ "\<lparr>ms_state = PartiallyFilled,
      ms_filled_quantity = 40, ms_resting_quantity = 0, ms_discarded_quantity = 15, ms_report_count = 1\<rparr>"] exI [of _ A] exI [of _ B]) simp
qed

text \<open>
  What each time in force promises of an accepted order. Fill-or-kill fills completely;
  immediate-or-cancel never rests and leaves its side untouched; post-only never trades and rests
  whole; and only immediate-or-cancel discards quantity.
\<close>
theorem time_in_force_promises:
  assumes "book_ok b" and "reports_ok rb" and "submit b order rb = Some (Ok (b', rb', sm))"
  shows "case no_time_in_force order of
      Fok \<Rightarrow> ms_filled_quantity sm = no_quantity order \<and> ms_resting_quantity sm = 0 \<and> ms_discarded_quantity sm = 0
    | Ioc \<Rightarrow> ms_resting_quantity sm = 0 \<and> book_list b' (no_side order) = book_list b (no_side order)
    | PostOnly \<Rightarrow> ms_filled_quantity sm = 0 \<and> ms_resting_quantity sm = no_quantity order \<and> ms_discarded_quantity sm = 0 \<and>
        reports_iter rb' = reports_iter rb \<and> book_list b' (opposite (no_side order)) = book_list b (opposite (no_side order))
    | Gtc \<Rightarrow> ms_discarded_quantity sm = 0"
proof -
  let ?sd = "no_side order"
  from submit_Ok [OF assms] obtain ex where
    ex: "spec_submit (book_abs b) order (reports_remaining_capacity rb) = Ok ex" "sm = summary_of order ex" "executed b' rb rb' order ex" .
  from ex(1) obtain fills ys left where
    E: "match_list ?sd (no_price order) (no_quantity order) (bm_side (book_abs b) (opposite ?sd)) = (fills, ys, left)"
      "spec_admit (book_abs b) order = Ok ()" "ex_fills ex = fills" "bm_side (ex_book ex) (opposite ?sd) = ys"
      "left = ex_resting ex + ex_discarded ex"
      "bm_side (ex_book ex) ?sd = (if ex_resting ex = 0 then bm_side (book_abs b) ?sd
         else enqueue (descending ?sd) (no_price order) (order_of order (ex_resting ex)) (bm_side (book_abs b) ?sd))"
      "no_time_in_force order = Fok \<longrightarrow> left = 0" "no_time_in_force order = Ioc \<longrightarrow> ex_resting ex = 0"
      "no_time_in_force order \<noteq> Ioc \<longrightarrow> ex_discarded ex = 0"
    by (rule spec_submit_Ok) blast
  have l: "book_list b' side = bm_side (ex_book ex) side" for side using ex(3) by (simp add: executed_def bm_side_abs)
  have sm: "ms_filled_quantity sm = fills_sum fills" "ms_resting_quantity sm = ex_resting ex" "ms_discarded_quantity sm = ex_discarded ex"
    by (simp_all add: ex(2) summary_of_def Let_def E(3))
  have sum: "no_quantity order = fills_sum fills + left" using match_list_facts(3) [OF E(1)] by (simp add: fills_sum_def)
  have post: "fills = [] \<and> ys = book_list b (opposite ?sd) \<and> left = no_quantity order" if "no_time_in_force order = PostOnly"
    using E(1,2) that by (cases "book_list b (opposite ?sd)") (auto simp: spec_admit_def split: if_splits)
  show ?thesis
  proof (cases "no_time_in_force order")
    case PostOnly
    with post E(5,9) ex(3) E(3,4) show ?thesis by (simp add: sm l fills_sum_def executed_def reports_of_def)
  qed (use E sum in \<open>auto simp: sm l\<close>)
qed

theorem time_in_force_promises_witness:
  "\<exists>b rb b' rb'. submit demo_empty demo_buy (reports_new 4) = Some (Ok (b, rb, \<lparr>ms_state = Accepted,
      ms_filled_quantity = 0, ms_resting_quantity = 40, ms_discarded_quantity = 0, ms_report_count = 0\<rparr>)) \<and>
     (\<exists>sm. submit b (demo_sell Ioc) (reports_new 4) = Some (Ok (b', rb', sm)) \<and> ms_resting_quantity sm = 0)"
proof -
  from demo_rested obtain b rb where b: "submit demo_empty demo_buy (reports_new 4) = Some (Ok (b, rb, \<lparr>ms_state = Accepted,
      ms_filled_quantity = 0, ms_resting_quantity = 40, ms_discarded_quantity = 0, ms_report_count = 0\<rparr>))"
    "book_ok b" "book_list b Buy = [(100, \<lparr>o_id = 11, o_account = 7, o_quantity = 40, o_sequence = 1\<rparr>)]"
    "book_list b Sell = []" "ob_instrument b = 3" by blast
  have "is_ok (spec_submit (book_abs b) (demo_sell Ioc) (reports_remaining_capacity (reports_new 4)))"
    by (simp add: spec_submit_def spec_admit_def demo_sell_def b(3-5) ids_def crosses_def reports_remaining_capacity_def reports_new_def)
  with submit_refines [OF b(2) reports_new_ok, of "demo_sell Ioc" 4] obtain b' rb' sm where
    s: "submit b (demo_sell Ioc) (reports_new 4) = Some (Ok (b', rb', sm))"
    by (auto split: result.splits)
  from time_in_force_promises [OF b(2) reports_new_ok s] have "ms_resting_quantity sm = 0" by (simp add: demo_sell_def)
  with b(1) s show ?thesis by blast
qed

text \<open>
  C16: safety of every reachable book. A book reached from an empty one by accepted commands is never
  crossed, holds no order id twice, keeps every order's quantity positive, keeps within its fixed
  capacities, and no further command makes it panic.
\<close>
theorem reachable_book_safe:
  assumes "book_reachable LEVELS ORDERS inst b" and "LEVELS * ORDERS * 4 \<le> 2 ^ 32" and "0 < ORDERS"
  shows "(\<forall>bid ask. top_level b Buy = Some bid \<longrightarrow> top_level b Sell = Some ask \<longrightarrow> tl_price bid < tl_price ask) \<and>
    distinct (map (\<lambda>e. o_id (snd e)) (book_list b Buy @ book_list b Sell)) \<and>
    (\<forall>side p x. (p, x) \<in> set (book_list b side) \<longrightarrow> 0 < p \<and> 0 < o_quantity x \<and> depth p (book_list b side) \<le> ORDERS) \<and>
    level_count (book_list b Buy) \<le> LEVELS \<and> level_count (book_list b Sell) \<le> LEVELS \<and>
    (\<forall>order rb. reports_ok rb \<longrightarrow> submit b order rb \<noteq> None) \<and> (\<forall>c. cancel b c \<noteq> None) \<and> (\<forall>r. replace b r \<noteq> None)"
proof -
  from reachable_inv [OF assms] have ok: "book_ok b" and par: "ob_LEVELS b = LEVELS" "ob_ORDERS b = ORDERS" by auto
  have wf: "book_wf b" using ok by (simp add: book_ok_def)
  note sides = wf_sides [OF wf]
  have cross: "tl_price bid < tl_price ask" if "top_level b Buy = Some bid" "top_level b Sell = Some ask" for bid ask
    using that ok unfolding top_level_list [OF sides] book_ok_def by (auto split: list.splits)
  have pos: "0 < p \<and> 0 < o_quantity x \<and> depth p (book_list b side) \<le> ORDERS" if x: "(p, x) \<in> set (book_list b side)" for side p x
  proof -
    from x obtain i s where z: "(p, i, s, x) \<in> set (zmakers b side)" by (auto simp: book_list_zmakers [OF sides] unzip_def)
    have "p \<in> fst ` set (lindex_iter (side_index b side))" using book_list_prices [OF sides, of side] x by force
    then have "0 < p" using side_iter_facts(4) [OF sides] by force
    with zmakers_order(2) [OF sides z] level_depth_bound [OF sides, of p side] par show ?thesis by simp
  qed
  have "submit b order rb \<noteq> None" if "reports_ok rb" for order rb
    using submit_refines [OF ok that, of order] by (auto split: result.splits)
  moreover have "cancel b c \<noteq> None" for c using book_cancel_refines [OF ok, of c] by (auto split: result.splits)
  moreover have "replace b r \<noteq> None" for r using replace_refines [OF ok, of r] by (auto split: result.splits)
  ultimately show ?thesis using cross pos distinct_ids [OF wf] is_full_level_count(2) [OF sides] par by blast
qed

theorem reachable_book_safe_witness:
  "\<exists>b. book_reachable 2 2 3 b \<and> length (book_list b Buy) = 1 \<and> (\<forall>c. cancel b c \<noteq> None)"
proof -
  from demo_rested obtain b rb sm where b: "submit demo_empty demo_buy (reports_new 4) = Some (Ok (b, rb, sm))"
    "length (book_list b Buy) = 1" by (metis One_nat_def length_Cons list.size(3))
  have "new_order_ok demo_buy" by (simp add: new_order_ok_def demo_buy_def u64_ok_def u32_ok_def i64_ok_def)
  from next_book [OF empty submitted [OF this reports_new_ok b(1)]] have r: "book_reachable 2 2 3 b" .
  from reachable_book_safe [OF r] b(2) r show ?thesis by auto
qed

text \<open>
  The aggregates and counts. On a reachable book the best level reports the best price of its side,
  the sum of the quantities resting there, which stays below \<open>2 ^ 96\<close> and so never wraps its 128-bit
  counter, and their number; \<open>order_count\<close> is the number of orders on both sides.
\<close>
theorem top_level_and_count:
  assumes "book_reachable LEVELS ORDERS inst b" and "LEVELS * ORDERS * 4 \<le> 2 ^ 32" and "0 < ORDERS"
  shows "top_level b side = (case book_list b side of [] \<Rightarrow> None
      | e # _ \<Rightarrow> Some \<lparr>tl_price = fst e, tl_aggregate_quantity = price_total (fst e) (book_list b side),
          tl_order_count = depth (fst e) (book_list b side)\<rparr>) \<and>
    (book_list b side \<noteq> [] \<longrightarrow> price_total p (book_list b side) < 2 ^ 96) \<and>
    order_count b = length (book_list b Buy) + length (book_list b Sell)"
proof -
  from reachable_inv [OF assms] have ok: "book_ok b" and par: "ob_LEVELS b = LEVELS" "ob_ORDERS b = ORDERS"
    and fit: "quantities_fit (book_abs b)" by auto
  have sides: "sides_wf b" using ok by (auto simp: book_ok_def intro: wf_sides)
  have "price_total p (book_list b side) < 2 ^ 96" if ne: "book_list b side \<noteq> []"
  proof -
    let ?xs = "filter (\<lambda>e. fst e = p) (book_list b side)"
    have q: "o_quantity (snd e) \<le> 2 ^ 64 - 1" if "e \<in> set ?xs" for e
    proof -
      have "(fst e, snd e) \<in> set (bm_side (book_abs b) side)" using that by auto
      from quantities_fitD [OF fit this] show ?thesis by (simp add: u64_ok_def)
    qed
    have "price_total p (book_list b side) \<le> sum_list (map (\<lambda>_. 2 ^ 64 - 1) ?xs)"
      unfolding price_total_def by (rule sum_list_mono) (rule q)
    also have "\<dots> = depth p (book_list b side) * (2 ^ 64 - 1)" by (simp add: depth_def sum_list_triv)
    also have "\<dots> \<le> ORDERS * (2 ^ 64 - 1)" using level_depth_bound [OF sides, of p side] par by simp
    also have "\<dots> \<le> 2 ^ 32 * (2 ^ 64 - 1)"
    proof -
      have "0 < level_count (book_list b side)" using ne by (simp add: level_count_card card_gt_0_iff)
      then have "0 < LEVELS" using is_full_level_count(2) [OF sides, of side] par by simp
      then have "ORDERS \<le> 2 ^ 32" using assms(2) by (cases LEVELS) auto
      then show ?thesis by simp
    qed
    finally show ?thesis by simp
  qed
  with top_level_list [OF sides, of side] order_count_list [OF sides] show ?thesis by blast
qed

theorem top_level_and_count_witness:
  "\<exists>b. book_reachable 2 2 3 b \<and> top_level b Buy = Some \<lparr>tl_price = 100, tl_aggregate_quantity = 40, tl_order_count = 1\<rparr> \<and> order_count b = 1"
proof -
  from demo_rested obtain b rb sm where b: "submit demo_empty demo_buy (reports_new 4) = Some (Ok (b, rb, sm))"
    "book_list b Buy = [(100, \<lparr>o_id = 11, o_account = 7, o_quantity = 40, o_sequence = 1\<rparr>)]" "book_list b Sell = []" by metis
  have "new_order_ok demo_buy" by (simp add: new_order_ok_def demo_buy_def u64_ok_def u32_ok_def i64_ok_def)
  from next_book [OF empty submitted [OF this reports_new_ok b(1)]] have r: "book_reachable 2 2 3 b" .
  from top_level_and_count [OF r, of Buy] b(2,3) r show ?thesis by (auto simp: price_total_def depth_def)
qed

end
