(* ===== verification/RiskState.thy ===== *)
theory RiskState
  imports RiskProps "HOL-Library.Multiset"
begin

text \<open>
  The logical state of the risk engine, as snapshots carry it: \<open>export_state\<close>, \<open>from_state\<close> and the
  validation in between, from \<open>crates/hft-risk/src/lib.rs\<close>. The exported state lists accounts and
  reservations by id and forgets storage slots and index positions. The lemmas show that restoring
  accepts exactly the consistent states, that what it builds satisfies the invariant and exports to the
  state it was built from, and that two engines with the same abstract view export the same state.
\<close>

section \<open>State\<close>

record AccountRiskState =
  ars_id :: AccountId
  ars_limits :: RiskLimits
  ars_settled_position :: int
  ars_reserved_buys :: nat
  ars_reserved_sells :: nat
  ars_open_orders :: nat
  ars_killed :: bool

record ReservationRiskState =
  rrs_order_id :: OrderId
  rrs_account_id :: AccountId
  rrs_side :: Side
  rrs_quantity :: Quantity

record RiskEngineState =
  rs_accounts :: "AccountRiskState list"
  rs_reservations :: "ReservationRiskState list"
  rs_maximum_order_id :: "OrderId option"
  rs_killed :: bool

datatype RiskStateError =
    RseAccountCapacity | RseReservationCapacity | RseDuplicateAccount | RseDuplicateOrder | RseNonCanonical
  | RseInvalidLimits | RseUnknownAccount | RseInvalidWatermark | RseExposureMismatch | RseOpenOrderMismatch
  | RsePositionLimit | RseArithmeticOverflow | RseInvalidQuantity

section \<open>Export\<close>

definition account_risk_state :: "AccountState \<Rightarrow> AccountRiskState" where
  "account_risk_state account =
     \<lparr>ars_id = ac_id account, ars_limits = ac_limits account,
      ars_settled_position = ac_settled_position account, ars_reserved_buys = ac_reserved_buys account,
      ars_reserved_sells = ac_reserved_sells account, ars_open_orders = ac_open_orders account,
      ars_killed = ac_killed account\<rparr>"

fun reservation_risk_state :: "ReservationSlot \<Rightarrow> ReservationRiskState option" where
  "reservation_risk_state (ResLive reservation) =
     Some \<lparr>rrs_order_id = rv_order_id reservation, rrs_account_id = rv_account_id reservation,
       rrs_side = rv_side reservation, rrs_quantity = rv_quantity reservation\<rparr>"
| "reservation_risk_state (ResFree next_free) = None"

text \<open>The keys are unique in every valid engine, so the unstable sort has one result.\<close>

definition risk_export_state :: "RiskEngine \<Rightarrow> RiskEngineState" where
  "risk_export_state re =
     \<lparr>rs_accounts = sort_key ars_id (List.map_filter (map_option account_risk_state) (re_accounts re)),
      rs_reservations = sort_key rrs_order_id (List.map_filter reservation_risk_state (re_reservations re)),
      rs_maximum_order_id = re_maximum_order_id re,
      rs_killed = re_killed re\<rparr>"

section \<open>Validation\<close>

text \<open>The loop over \<open>windows(2)\<close>: keys must ascend, and equal neighbours have an error of their own.\<close>

fun ascending_pairs :: "('a \<Rightarrow> nat) \<Rightarrow> 'e \<Rightarrow> 'e \<Rightarrow> 'a list \<Rightarrow> (unit, 'e) result" where
  "ascending_pairs key duplicate unsorted (a # b # xs) =
     (if key a = key b then Err duplicate
      else if key a > key b then Err unsorted
      else ascending_pairs key duplicate unsorted (b # xs))"
| "ascending_pairs key duplicate unsorted _ = Ok ()"

fun account_totals ::
  "ReservationRiskState list \<Rightarrow> nat \<Rightarrow> nat \<Rightarrow> nat \<Rightarrow> (nat \<times> nat \<times> nat, RiskStateError) result" where
  "account_totals [] reserved_buys reserved_sells open_orders = Ok (reserved_buys, reserved_sells, open_orders)"
| "account_totals (reservation # xs) reserved_buys reserved_sells open_orders =
     and_then
       (case rrs_side reservation of
          Buy \<Rightarrow> and_then (ok_or RseArithmeticOverflow (checked_add 128 reserved_buys (rrs_quantity reservation)))
                  (\<lambda>b. Ok (b, reserved_sells))
        | Sell \<Rightarrow> and_then (ok_or RseArithmeticOverflow (checked_add 128 reserved_sells (rrs_quantity reservation)))
                  (\<lambda>s. Ok (reserved_buys, s)))
       (\<lambda>(b, s). and_then (ok_or RseArithmeticOverflow (checked_add 32 open_orders 1)) (\<lambda>n.
          account_totals xs b s n))"

definition validate_account_state ::
  "AccountRiskState \<Rightarrow> ReservationRiskState list \<Rightarrow> (unit, RiskStateError) result" where
  "validate_account_state account reservations =
     and_then (account_totals (filter (\<lambda>r. rrs_account_id r = ars_id account) reservations) 0 0 0)
       (\<lambda>(reserved_buys, reserved_sells, open_orders).
     if reserved_buys \<noteq> ars_reserved_buys account \<or> reserved_sells \<noteq> ars_reserved_sells account
     then Err RseExposureMismatch
     else if open_orders \<noteq> ars_open_orders account \<or> open_orders > rl_max_open_orders (ars_limits account)
     then Err RseOpenOrderMismatch
     else
       and_then (ok_or RseArithmeticOverflow (i128_try_from reserved_buys)) (\<lambda>buys.
       and_then (ok_or RseArithmeticOverflow (i128_try_from reserved_sells)) (\<lambda>sells.
       and_then (ok_or RseArithmeticOverflow (checked_iadd 128 (ars_settled_position account) buys)) (\<lambda>worst_long.
       and_then (ok_or RseArithmeticOverflow (checked_isub 128 (ars_settled_position account) sells)) (\<lambda>worst_short.
         let maximum = int (rl_max_abs_position (ars_limits account)) in
         if worst_long > maximum \<or> worst_short < - maximum then Err RsePositionLimit else Ok ())))))"

fun validate_accounts ::
  "AccountRiskState list \<Rightarrow> ReservationRiskState list \<Rightarrow> (unit, RiskStateError) result" where
  "validate_accounts [] reservations = Ok ()"
| "validate_accounts (account # xs) reservations =
     and_then (validate_account_state account reservations) (\<lambda>_. validate_accounts xs reservations)"

text \<open>The accounts are sorted where the source searches them by bisection, so the search finds every id.\<close>

definition risk_validate_state ::
  "nat \<Rightarrow> nat \<Rightarrow> RiskEngineState \<Rightarrow> (AccountRiskState list \<times> ReservationRiskState list, RiskStateError) result" where
  "risk_validate_state ACCOUNTS ORDERS state =
     (if length (rs_accounts state) > ACCOUNTS then Err RseAccountCapacity
      else if length (rs_reservations state) > ORDERS then Err RseReservationCapacity
      else let accounts = rs_accounts state; reservations = rs_reservations state in
        and_then (ascending_pairs ars_id RseDuplicateAccount RseNonCanonical accounts) (\<lambda>_.
        if \<exists>account \<in> set accounts. limits_invalid (ars_limits account) then Err RseInvalidLimits
        else and_then (ascending_pairs rrs_order_id RseDuplicateOrder RseNonCanonical reservations) (\<lambda>_.
        if \<exists>reservation \<in> set reservations. rrs_quantity reservation = 0 then Err RseInvalidQuantity
        else if reservations \<noteq> [] \<and> (case rs_maximum_order_id state of
               None \<Rightarrow> True | Some maximum \<Rightarrow> maximum < rrs_order_id (last reservations))
        then Err RseInvalidWatermark
        else if \<exists>reservation \<in> set reservations. rrs_account_id reservation \<notin> ars_id ` set accounts
        then Err RseUnknownAccount
        else and_then (validate_accounts accounts reservations) (\<lambda>_. Ok (accounts, reservations)))))"

section \<open>Import\<close>

definition account_of_state :: "AccountRiskState \<Rightarrow> AccountState" where
  "account_of_state account =
     \<lparr>ac_id = ars_id account, ac_limits = ars_limits account,
      ac_settled_position = ars_settled_position account, ac_reserved_buys = ars_reserved_buys account,
      ac_reserved_sells = ars_reserved_sells account, ac_open_orders = ars_open_orders account,
      ac_killed = ars_killed account\<rparr>"

fun restore_accounts ::
  "RiskEngine \<Rightarrow> nat \<Rightarrow> AccountRiskState list \<Rightarrow> (RiskEngine, RiskStateError) result option" where
  "restore_accounts engine slot [] = Some (Ok engine)"
| "restore_accounts engine slot (account # xs) =
     (case probe_insert (re_account_index engine) (ars_id account) slot of
        Err ProbeFull \<Rightarrow> Some (Err RseAccountCapacity)
      | Err ProbeDuplicate \<Rightarrow> Some (Err RseDuplicateAccount)
      | Ok (_, ix) \<Rightarrow>
          if slot < length (re_accounts engine)
          then restore_accounts (set_account (engine\<lparr>re_account_index := ix\<rparr>) slot
                 (account_of_state account)) (slot + 1) xs
          else None)"

fun restore_reservations ::
  "RiskEngine \<Rightarrow> nat \<Rightarrow> ReservationRiskState list \<Rightarrow> (RiskEngine, RiskStateError) result option" where
  "restore_reservations engine slot [] = Some (Ok engine)"
| "restore_reservations engine slot (reservation # xs) =
     (case probe_insert (re_reservation_index engine) (rrs_order_id reservation) slot of
        Err ProbeFull \<Rightarrow> Some (Err RseReservationCapacity)
      | Err ProbeDuplicate \<Rightarrow> Some (Err RseDuplicateOrder)
      | Ok (index_slot, ix) \<Rightarrow>
          if slot < length (re_reservations engine)
          then restore_reservations (set_reservation (engine\<lparr>re_reservation_index := ix\<rparr>) slot
                 (ResLive \<lparr>rv_order_id = rrs_order_id reservation, rv_account_id = rrs_account_id reservation,
                    rv_index_slot = index_slot, rv_side = rrs_side reservation,
                    rv_quantity = rrs_quantity reservation\<rparr>)) (slot + 1) xs
          else None)"

definition risk_from_state ::
  "nat \<Rightarrow> nat \<Rightarrow> RiskEngineState \<Rightarrow> (RiskEngine, RiskStateError) result option" where
  "risk_from_state ACCOUNTS ORDERS state =
     (case risk_validate_state ACCOUNTS ORDERS state of
        Err e \<Rightarrow> Some (Err e)
      | Ok (accounts, reservations) \<Rightarrow>
          (case restore_accounts ((risk_new ACCOUNTS ORDERS)\<lparr>re_killed := rs_killed state,
                  re_maximum_order_id := rs_maximum_order_id state\<rparr>) 0 accounts of
             None \<Rightarrow> None
           | Some (Err e) \<Rightarrow> Some (Err e)
           | Some (Ok engine) \<Rightarrow>
               (case restore_reservations engine 0 reservations of
                  None \<Rightarrow> None
                | Some (Err e) \<Rightarrow> Some (Err e)
                | Some (Ok engine) \<Rightarrow>
                    let live = length (rs_reservations state);
                        engine = engine\<lparr>re_reservation_free_head := (if live = ORDERS then NIL else live)\<rparr>
                    in Some (Ok (fold (\<lambda>slot e. set_reservation e slot
                         (ResFree (if slot + 1 < ORDERS then slot + 1 else NIL))) [live..<ORDERS] engine)))))"

section \<open>The states that validation accepts\<close>

definition state_exposure :: "ReservationRiskState list \<Rightarrow> Side \<Rightarrow> AccountId \<Rightarrow> nat" where
  "state_exposure rs side aid = sum_list (map rrs_quantity (filter (\<lambda>r. rrs_account_id r = aid \<and> rrs_side r = side) rs))"

definition state_open :: "ReservationRiskState list \<Rightarrow> AccountId \<Rightarrow> nat" where
  "state_open rs aid = length (filter (\<lambda>r. rrs_account_id r = aid) rs)"

definition account_state_valid :: "ReservationRiskState list \<Rightarrow> AccountRiskState \<Rightarrow> bool" where
  "account_state_valid rs a \<longleftrightarrow> ars_reserved_buys a = state_exposure rs Buy (ars_id a) \<and>
     ars_reserved_sells a = state_exposure rs Sell (ars_id a) \<and> ars_open_orders a = state_open rs (ars_id a) \<and>
     ars_open_orders a \<le> rl_max_open_orders (ars_limits a) \<and>
     ars_settled_position a + int (ars_reserved_buys a) \<le> int (rl_max_abs_position (ars_limits a)) \<and>
     - int (rl_max_abs_position (ars_limits a)) \<le> ars_settled_position a - int (ars_reserved_sells a)"

definition risk_state_valid :: "nat \<Rightarrow> nat \<Rightarrow> RiskEngineState \<Rightarrow> bool" where
  "risk_state_valid ACCOUNTS ORDERS s \<longleftrightarrow>
     length (rs_accounts s) \<le> ACCOUNTS \<and> length (rs_reservations s) \<le> ORDERS \<and>
     sorted_wrt (<) (map ars_id (rs_accounts s)) \<and> sorted_wrt (<) (map rrs_order_id (rs_reservations s)) \<and>
     (\<forall>a \<in> set (rs_accounts s). \<not> limits_invalid (ars_limits a) \<and> account_state_valid (rs_reservations s) a) \<and>
     (\<forall>r \<in> set (rs_reservations s). 0 < rrs_quantity r \<and> rrs_account_id r \<in> ars_id ` set (rs_accounts s) \<and>
        (\<exists>m. rs_maximum_order_id s = Some m \<and> rrs_order_id r \<le> m))"

text \<open>The fields hold values of their Rust types.\<close>

definition account_state_typed :: "AccountRiskState \<Rightarrow> bool" where
  "account_state_typed a \<longleftrightarrow> u32_ok (ars_id a) \<and> limits_fit (ars_limits a) \<and> rl_max_notional (ars_limits a) < 2 ^ 128 \<and>
     in_range_i 128 (ars_settled_position a) \<and> ars_reserved_buys a < 2 ^ 128 \<and> ars_reserved_sells a < 2 ^ 128 \<and>
     u32_ok (ars_open_orders a)"

definition reservation_state_typed :: "ReservationRiskState \<Rightarrow> bool" where
  "reservation_state_typed r \<longleftrightarrow> u64_ok (rrs_order_id r) \<and> u32_ok (rrs_account_id r) \<and> u64_ok (rrs_quantity r)"

definition risk_state_typed :: "RiskEngineState \<Rightarrow> bool" where
  "risk_state_typed s \<longleftrightarrow> (\<forall>a \<in> set (rs_accounts s). account_state_typed a) \<and>
     (\<forall>r \<in> set (rs_reservations s). reservation_state_typed r) \<and>
     (\<forall>m. rs_maximum_order_id s = Some m \<longrightarrow> u64_ok m)"

text \<open>The part of that which validation relies on.\<close>

definition risk_state_fits :: "RiskEngineState \<Rightarrow> bool" where
  "risk_state_fits s \<longleftrightarrow> (\<forall>a \<in> set (rs_accounts s). limits_fit (ars_limits a)) \<and>
     (\<forall>r \<in> set (rs_reservations s). u64_ok (rrs_quantity r))"

lemma risk_state_typed_fits: "risk_state_typed s \<Longrightarrow> risk_state_fits s"
  by (auto simp: risk_state_typed_def risk_state_fits_def account_state_typed_def reservation_state_typed_def)

lemma and_then_unit: "and_then r f = Ok x \<longleftrightarrow> r = Ok () \<and> f () = Ok x"
  by (cases r) auto

lemma ascending_pairs_Ok: "ascending_pairs key d u xs = Ok () \<longleftrightarrow> sorted_wrt (<) (map key xs)"
proof (induction key d u xs rule: ascending_pairs.induct)
  case (1 key d u a b xs)
  then show ?case by (auto simp del: sorted_wrt.simps(2) simp: sorted_wrt2_simps)
qed simp_all

lemma state_exposure_simps [simp]:
  "state_exposure [] side aid = 0"
  "state_exposure (r # rs) side aid =
     (if rrs_account_id r = aid \<and> rrs_side r = side then rrs_quantity r else 0) + state_exposure rs side aid"
  by (simp_all add: state_exposure_def)

lemma state_open_simps [simp]:
  "state_open [] aid = 0"
  "state_open (r # rs) aid = (if rrs_account_id r = aid then 1 else 0) + state_open rs aid"
  by (simp_all add: state_open_def)

lemma account_totals_eq:
  assumes "b + state_exposure rs Buy aid < 2 ^ 128" and "s + state_exposure rs Sell aid < 2 ^ 128"
    and "n + state_open rs aid < 2 ^ 32"
  shows "account_totals (filter (\<lambda>r. rrs_account_id r = aid) rs) b s n
    = Ok (b + state_exposure rs Buy aid, s + state_exposure rs Sell aid, n + state_open rs aid)"
  using assms
proof (induction rs arbitrary: b s n)
  case (Cons r rs)
  then show ?case
    by (cases "rrs_side r") (auto simp: checked_add_def)
qed simp

lemma state_exposure_bound:
  assumes "\<forall>r \<in> set rs. u64_ok (rrs_quantity r)"
  shows "state_exposure rs side aid \<le> length rs * 2 ^ 64"
  using assms by (induction rs) (auto simp: u64_ok_def)

lemma state_open_bound: "state_open rs aid \<le> length rs"
  by (simp add: state_open_def)

lemma validate_account_state_Ok:
  assumes len: "length rs \<le> 2 ^ 31" and q: "\<forall>r \<in> set rs. u64_ok (rrs_quantity r)" and fit: "limits_fit (ars_limits a)"
  shows "validate_account_state a rs = Ok () \<longleftrightarrow> account_state_valid rs a"
proof -
  have e: "state_exposure rs side aid < 2 ^ 96" for side aid
  proof -
    have "length rs * 2 ^ 64 \<le> 2 ^ 31 * (2 ^ 64 :: nat)" by (rule mult_right_mono [OF len]) simp
    with state_exposure_bound [OF q, of side aid] show ?thesis by simp
  qed
  have n: "state_open rs aid < 2 ^ 32" for aid using state_open_bound [of rs aid] len by simp
  have b: "state_exposure rs side aid < 2 ^ 127" "state_exposure rs side aid < 2 ^ 128" for side aid
    using e [of side aid] by simp_all
  have t: "account_totals (filter (\<lambda>r. rrs_account_id r = ars_id a) rs) 0 0 0
      = Ok (state_exposure rs Buy (ars_id a), state_exposure rs Sell (ars_id a), state_open rs (ars_id a))"
    using account_totals_eq [of 0 rs "ars_id a" 0 0] b(2) n by simp
  have p: "int (rl_max_abs_position (ars_limits a)) < 2 ^ 64" using fit by (simp add: limits_fit_def u64_ok_def)
  have i: "int (state_exposure rs side aid) < 2 ^ 96" "0 \<le> int (state_exposure rs side aid)" for side aid
    using e [of side aid] by simp_all
  show ?thesis
    unfolding validate_account_state_def t account_state_valid_def
    using b(1) p i [of Buy "ars_id a"] i [of Sell "ars_id a"]
    by (auto simp: checked_defs in_range_i_def Let_def)
qed

lemma validate_accounts_Ok:
  "validate_accounts accounts rs = Ok () \<longleftrightarrow> (\<forall>a \<in> set accounts. validate_account_state a rs = Ok ())"
proof (induction accounts)
  case (Cons a accounts)
  then show ?case by (cases "validate_account_state a rs") auto
qed simp

lemma sorted_watermark:
  assumes "sorted_wrt (<) (map rrs_order_id rs)"
  shows "(rs \<noteq> [] \<and> (case m of None \<Rightarrow> True | Some x \<Rightarrow> x < rrs_order_id (last rs))) \<longleftrightarrow>
    \<not> (\<forall>r \<in> set rs. \<exists>x. m = Some x \<and> rrs_order_id r \<le> x)"
proof -
  have "rrs_order_id r \<le> rrs_order_id (last rs)" if "r \<in> set rs" for r
    using assms that
  proof (induction rs)
    case (Cons x xs)
    then show ?case by (cases "xs = []") (auto intro: less_imp_le last_in_set)
  qed simp
  moreover have "rs \<noteq> [] \<Longrightarrow> last rs \<in> set rs" by simp
  ultimately show ?thesis
    by (cases m) (force intro: order_trans last_in_set dest: leD split: option.splits)+
qed

lemma risk_validate_state_Ok:
  assumes "ORDERS \<le> 2 ^ 31" and fits: "risk_state_fits s"
  shows "risk_validate_state ACCOUNTS ORDERS s = Ok x \<longleftrightarrow>
    risk_state_valid ACCOUNTS ORDERS s \<and> x = (rs_accounts s, rs_reservations s)"
proof -
  let ?A = "rs_accounts s" and ?R = "rs_reservations s"
  have v: "validate_accounts ?A ?R = Ok () \<longleftrightarrow> (\<forall>a \<in> set ?A. account_state_valid ?R a)" if "length ?R \<le> ORDERS"
    unfolding validate_accounts_Ok using that assms validate_account_state_Ok [of ?R]
    by (auto simp: risk_state_fits_def)
  show ?thesis
  proof (cases "length ?A \<le> ACCOUNTS \<and> length ?R \<le> ORDERS \<and> sorted_wrt (<) (map rrs_order_id ?R)")
    case True
    then show ?thesis unfolding risk_validate_state_def risk_state_valid_def Let_def
      by (auto simp: and_then_unit ascending_pairs_Ok v sorted_watermark) (metis less_numeral_extra(3))
  next
    case False
    then show ?thesis unfolding risk_validate_state_def risk_state_valid_def Let_def
      by (auto simp: and_then_unit ascending_pairs_Ok)
  qed
qed

section \<open>Restoring\<close>

lemma account_of_state_sel [simp]:
  "ac_id (account_of_state a) = ars_id a" "ac_limits (account_of_state a) = ars_limits a"
  "ac_settled_position (account_of_state a) = ars_settled_position a"
  "ac_reserved_buys (account_of_state a) = ars_reserved_buys a"
  "ac_reserved_sells (account_of_state a) = ars_reserved_sells a"
  "ac_open_orders (account_of_state a) = ars_open_orders a"
  by (simp_all add: account_of_state_def)

lemma account_risk_state_of_state [simp]: "account_risk_state (account_of_state a) = a"
  by (simp add: account_risk_state_def account_of_state_def)

lemma account_of_state_risk_state [simp]: "account_of_state (account_risk_state a) = a"
  by (simp add: account_risk_state_def account_of_state_def)

lemma ars_id_account_risk_state [simp]: "ars_id (account_risk_state a) = ac_id a"
  by (simp add: account_risk_state_def)

lemma first_none_append: "first_none (map Some xs @ None # ys) = Some (length xs)"
  by (induction xs) auto

lemma restore_accounts_ok:
  assumes "re_accounts engine = map Some pre @ replicate n None"
    and "accounts_inv (re_accounts engine) (re_account_index engine)"
    and "distinct (map ac_id pre @ map ars_id xs)" and "length xs \<le> n"
  shows "\<exists>ix. restore_accounts engine (length pre) xs =
      Some (Ok (engine\<lparr>re_accounts := map Some (pre @ map account_of_state xs) @ replicate (n - length xs) None,
        re_account_index := ix\<rparr>)) \<and>
    accounts_inv (map Some (pre @ map account_of_state xs) @ replicate (n - length xs) None) ix"
  using assms
proof (induction xs arbitrary: engine pre n)
  case Nil
  then show ?case by (intro exI [of _ "re_account_index engine"]) simp
next
  case (Cons x xs)
  let ?b = "account_of_state x"
  obtain m where n: "n = Suc m" using Cons.prems(4) by (cases n) auto
  have slot: "first_none (re_accounts engine) = Some (length pre)"
    by (simp add: Cons.prems(1) n first_none_append)
  have new: "ac_id a \<noteq> ac_id ?b" if "v < length (re_accounts engine)" "re_accounts engine ! v = Some a" for v a
  proof -
    have "Some a \<in> set (re_accounts engine)" using that by (metis nth_mem)
    then have "a \<in> set pre" by (auto simp: Cons.prems(1))
    with Cons.prems(3) show ?thesis by (auto simp: image_iff)
  qed
  from accounts_inv_insert [OF Cons.prems(2) slot, of ?b] new obtain i ix where
    ins: "probe_insert (re_account_index engine) (ars_id x) (length pre) = Ok (i, ix)"
      "accounts_inv ((re_accounts engine)[length pre := Some ?b]) ix" by auto
  let ?e = "set_account (engine\<lparr>re_account_index := ix\<rparr>) (length pre) ?b"
  have upd: "(re_accounts engine)[length pre := Some ?b] = map Some (pre @ [?b]) @ replicate m None"
    by (simp add: Cons.prems(1) n list_update_append)
  have e: "re_accounts ?e = map Some (pre @ [?b]) @ replicate m None" "re_account_index ?e = ix"
    using upd by (simp_all add: set_account_def)
  have "restore_accounts engine (length pre) (x # xs) = restore_accounts ?e (length (pre @ [?b])) xs"
    using ins(1) by (simp add: Cons.prems(1) n)
  with Cons.IH [of ?e "pre @ [?b]" m] e ins(2) upd Cons.prems(3,4) n show ?case
    by (auto simp: set_account_def)
qed

definition fresh_slots :: "nat \<Rightarrow> nat \<Rightarrow> ReservationSlot list" where
  "fresh_slots ORDERS k = map (\<lambda>slot. ResFree (fresh_link ORDERS slot)) [k..<ORDERS]"

definition free_from :: "nat \<Rightarrow> nat \<Rightarrow> nat" where
  "free_from ORDERS k = (if k = ORDERS then NIL else k)"

lemma restore_reservations_ok:
  assumes "re_reservations engine = map ResLive pre @ fresh_slots ORDERS (length pre)"
    and "res_store_inv (re_reservations engine) (free_from ORDERS (length pre)) (re_reservation_index engine)"
    and "distinct (map rv_order_id pre @ map rrs_order_id xs)" and "length pre + length xs \<le> ORDERS" "ORDERS \<le> 2 ^ 31"
  shows "\<exists>ix new. restore_reservations engine (length pre) xs =
      Some (Ok (engine\<lparr>re_reservations := map ResLive (pre @ new) @ fresh_slots ORDERS (length pre + length xs),
        re_reservation_index := ix\<rparr>)) \<and>
    map (\<lambda>r. reservation_risk_state (ResLive r)) new = map Some xs \<and>
    res_store_inv (map ResLive (pre @ new) @ fresh_slots ORDERS (length pre + length xs))
      (free_from ORDERS (length pre + length xs)) ix"
  using assms
proof (induction xs arbitrary: engine pre)
  case Nil
  then show ?case by (intro exI [of _ "re_reservation_index engine"] exI [of _ "[]"]) simp
next
  case (Cons x xs)
  let ?k = "length pre"
  have k: "?k < ORDERS" using Cons.prems(4) by simp
  then have head: "?k \<noteq> NIL" using Cons.prems(5) by (simp add: NIL_def)
  have inv: "res_store_inv (re_reservations engine) ?k (re_reservation_index engine)" using Cons.prems(2) k by (simp add: free_from_def)
  have fresh: "fresh_slots ORDERS ?k = ResFree (fresh_link ORDERS ?k) # fresh_slots ORDERS (Suc ?k)"
    using k by (simp add: fresh_slots_def upt_conv_Cons)
  have new: "rv_order_id r \<noteq> rrs_order_id x" if "ResLive r \<in> set (re_reservations engine)" for r
    using that Cons.prems(3) by (auto simp: Cons.prems(1) fresh_slots_def image_iff)
  from res_store_insert [OF inv head new] obtain nx i ix where
    nx: "re_reservations engine ! ?k = ResFree nx" "probe_insert (re_reservation_index engine) (rrs_order_id x) ?k = Ok (i, ix)"
    and store: "\<And>r. rv_order_id r = rrs_order_id x \<Longrightarrow> rv_index_slot r = i \<Longrightarrow>
      res_store_inv ((re_reservations engine)[?k := ResLive r]) nx ix" by blast
  define r where "r = \<lparr>rv_order_id = rrs_order_id x, rv_account_id = rrs_account_id x,
    rv_index_slot = i, rv_side = rrs_side x, rv_quantity = rrs_quantity x\<rparr>"
  have r: "rv_order_id r = rrs_order_id x" "reservation_risk_state (ResLive r) = Some x" by (simp_all add: r_def)
  have nx': "nx = free_from ORDERS (length (pre @ [r]))"
    using nx(1) k unfolding Cons.prems(1) fresh by (auto simp: nth_append fresh_link_def free_from_def)
  have upd: "(re_reservations engine)[?k := ResLive r] = map ResLive (pre @ [r]) @ fresh_slots ORDERS (length (pre @ [r]))"
    unfolding Cons.prems(1) fresh by (simp add: list_update_append)
  let ?e = "set_reservation (engine\<lparr>re_reservation_index := ix\<rparr>) ?k (ResLive r)"
  have e: "re_reservations ?e = map ResLive (pre @ [r]) @ fresh_slots ORDERS (length (pre @ [r]))" "re_reservation_index ?e = ix"
    using upd by (simp_all add: set_reservation_def)
  have inv': "res_store_inv (re_reservations ?e) (free_from ORDERS (length (pre @ [r]))) (re_reservation_index ?e)"
    unfolding e upd [symmetric] nx' [symmetric] by (rule store) (simp_all add: r_def)
  have dist: "distinct (map rv_order_id (pre @ [r]) @ map rrs_order_id xs)" using Cons.prems(3) by (auto simp: r)
  have "length (re_reservations engine) = ORDERS" using k by (simp add: Cons.prems(1) fresh_slots_def)
  then have run: "restore_reservations engine ?k (x # xs) = restore_reservations ?e (length (pre @ [r])) xs"
    using nx(2) k by (simp add: r_def)
  from Cons.IH [OF e(1) inv' dist] Cons.prems(4,5) obtain ix' rest where
    IH: "restore_reservations ?e (length (pre @ [r])) xs =
      Some (Ok (?e\<lparr>re_reservations := map ResLive ((pre @ [r]) @ rest) @ fresh_slots ORDERS (length (pre @ [r]) + length xs),
        re_reservation_index := ix'\<rparr>))"
      "map (\<lambda>r. reservation_risk_state (ResLive r)) rest = map Some xs"
      "res_store_inv (map ResLive ((pre @ [r]) @ rest) @ fresh_slots ORDERS (length (pre @ [r]) + length xs))
        (free_from ORDERS (length (pre @ [r]) + length xs)) ix'" by auto
  show ?case unfolding run IH(1)
    by (intro exI [of _ ix'] exI [of _ "r # rest"]) (use IH(2,3) r(2) in \<open>simp add: set_reservation_def\<close>)
qed

section \<open>Exported and restored engines\<close>

lemma distinct_map_filter:
  assumes "\<And>u v x y. u < length xs \<Longrightarrow> v < length xs \<Longrightarrow> f (xs ! u) = Some x \<Longrightarrow> f (xs ! v) = Some y \<Longrightarrow> k x = k y \<Longrightarrow> u = v"
  shows "distinct (map k (List.map_filter f xs))"
  using assms
proof (induction xs)
  case (Cons a xs)
  have tail: "distinct (map k (List.map_filter f xs))"
  proof (rule Cons.IH)
    fix u v x y
    assume "u < length xs" "v < length xs" "f (xs ! u) = Some x" "f (xs ! v) = Some y" "k x = k y"
    with Cons.prems [of "Suc u" "Suc v" x y] show "u = v" by simp
  qed
  have head: "k x \<noteq> k y" if x: "f a = Some x" and y: "y \<in> set (List.map_filter f xs)" for x y
  proof
    assume eq: "k x = k y"
    from y obtain v where "v < length xs" "f (xs ! v) = Some y" unfolding List.map_filter_def by (auto simp: in_set_conv_nth)
    with Cons.prems [of 0 "Suc v" x y] x eq show False by simp
  qed
  show ?case
  proof (cases "f a")
    case None then show ?thesis using tail by (simp add: map_filter_simps)
  next
    case (Some x)
    with tail head [OF Some] show ?thesis by (auto simp: map_filter_simps)
  qed
qed (simp add: map_filter_simps)

lemma set_map_filter': "set (List.map_filter f xs) = {y. \<exists>x \<in> set xs. f x = Some y}"
  by (auto simp: List.map_filter_def) force

lemma strict_sort_key: "distinct (map k xs) \<Longrightarrow> sorted_wrt (<) (map k (sort_key k xs))"
  for k :: "'a \<Rightarrow> nat"
proof -
  assume "distinct (map k xs)"
  then have "inj_on k (set xs)" "distinct xs" by (auto simp: distinct_map)
  then have "distinct (map k (sort_key k xs))" by (simp add: distinct_map)
  then show ?thesis by (simp add: strict_sorted_iff)
qed

lemma sort_key_sorted: "sorted_wrt (<) (map k xs) \<Longrightarrow> sort_key k xs = xs" for k :: "'a \<Rightarrow> nat"
  by (induction xs) (auto simp: insort_is_Cons less_imp_le)

lemma strict_sorted_unique:
  fixes k :: "'a \<Rightarrow> nat"
  assumes "sorted_wrt (<) (map k xs)" and "sorted_wrt (<) (map k ys)" and "set xs = set ys"
  shows "xs = ys"
proof -
  have "inj_on k (set xs)" using assms(1) by (simp add: strict_sorted_iff distinct_map)
  with assms show ?thesis by (intro map_sorted_distinct_set_unique [of k]) (auto simp: strict_sorted_iff)
qed

lemma state_exposure_mset: "mset xs = mset ys \<Longrightarrow> state_exposure xs side aid = state_exposure ys side aid"
proof -
  have "state_exposure zs side aid =
      sum_mset (image_mset rrs_quantity (filter_mset (\<lambda>r. rrs_account_id r = aid \<and> rrs_side r = side) (mset zs)))" for zs
    by (induction zs) auto
  then show "mset xs = mset ys \<Longrightarrow> ?thesis" by simp
qed

lemma state_open_mset: "mset xs = mset ys \<Longrightarrow> state_open xs aid = state_open ys aid"
proof -
  have "state_open zs aid = size (filter_mset (\<lambda>r. rrs_account_id r = aid) (mset zs))" for zs
    by (induction zs) auto
  then show "mset xs = mset ys \<Longrightarrow> ?thesis" by simp
qed

lemma exposure_state:
  "exposure rs side aid = state_exposure (List.map_filter reservation_risk_state rs) side aid"
proof (induction rs)
  case (Cons s rs)
  then show ?case by (cases s) (auto simp: exposure_def map_filter_simps)
qed (simp add: exposure_def map_filter_simps)

lemma open_count_state:
  "open_count rs aid = state_open (List.map_filter reservation_risk_state rs) aid"
proof (induction rs)
  case (Cons s rs)
  then show ?case by (cases s) (auto simp: open_count_def map_filter_simps)
qed (simp add: open_count_def map_filter_simps)

text \<open>What the export lists, in terms of the abstract view.\<close>

lemma export_accounts:
  assumes "risk_inv re"
  shows "sorted_wrt (<) (map ars_id (rs_accounts (risk_export_state re)))"
    and "set (rs_accounts (risk_export_state re)) = {account_risk_state a |a aid. acct re aid = Some a}"
proof -
  note inv = risk_inv_accounts [OF assms]
  show "sorted_wrt (<) (map ars_id (rs_accounts (risk_export_state re)))"
    unfolding risk_export_state_def RiskEngineState.simps
    by (rule strict_sort_key, rule distinct_map_filter) (use accounts_unique [OF inv] in auto)
  have "(\<exists>aid. acct re aid = Some a) \<longleftrightarrow> Some a \<in> set (re_accounts re)" for a
    unfolding acct_iff [OF inv] in_set_conv_nth by auto
  then show "set (rs_accounts (risk_export_state re)) = {account_risk_state a |a aid. acct re aid = Some a}"
    by (auto simp: risk_export_state_def set_map_filter')
qed

lemma reservation_risk_state_Some:
  "reservation_risk_state s = Some x \<longleftrightarrow> (\<exists>r. s = ResLive r \<and> x = \<lparr>rrs_order_id = rv_order_id r, rrs_account_id = rv_account_id r,
     rrs_side = rv_side r, rrs_quantity = rv_quantity r\<rparr>)"
  by (cases s) auto

lemma export_reservations:
  assumes "risk_inv re"
  shows "sorted_wrt (<) (map rrs_order_id (rs_reservations (risk_export_state re)))"
    and "set (rs_reservations (risk_export_state re)) =
      {\<lparr>rrs_order_id = k, rrs_account_id = aid, rrs_side = side, rrs_quantity = q\<rparr> |k aid side q. resv re k = Some (aid, side, q)}"
proof -
  note inv = risk_inv_store [OF assms]
  show "sorted_wrt (<) (map rrs_order_id (rs_reservations (risk_export_state re)))"
    unfolding risk_export_state_def RiskEngineState.simps
    by (rule strict_sort_key, rule distinct_map_filter)
      (use res_store_unique [OF inv] in \<open>auto simp: reservation_risk_state_Some\<close>)
  show "set (rs_reservations (risk_export_state re)) =
      {\<lparr>rrs_order_id = k, rrs_account_id = aid, rrs_side = side, rrs_quantity = q\<rparr> |k aid side q. resv re k = Some (aid, side, q)}"
    unfolding resv_iff [OF inv]
    by (auto simp: risk_export_state_def set_map_filter' reservation_risk_state_Some Bex_def in_set_conv_nth) blast+
qed

text \<open>Engines with the same abstract view export the same state, and the other way round.\<close>

lemma export_state_cong:
  assumes "risk_inv re" "risk_inv re'" and "acct re = acct re'" "resv re = resv re'"
    and "re_maximum_order_id re = re_maximum_order_id re'" "re_killed re = re_killed re'"
  shows "risk_export_state re = risk_export_state re'"
proof -
  have "rs_accounts (risk_export_state re) = rs_accounts (risk_export_state re')"
    using export_accounts [OF assms(1)] export_accounts [OF assms(2)] assms(3) by (intro strict_sorted_unique) auto
  moreover have "rs_reservations (risk_export_state re) = rs_reservations (risk_export_state re')"
    using export_reservations [OF assms(1)] export_reservations [OF assms(2)] assms(4) by (intro strict_sorted_unique) auto
  ultimately show ?thesis using assms(5,6) by (simp add: risk_export_state_def)
qed

lemma export_state_view:
  assumes inv: "risk_inv re" "risk_inv re'" and eq: "risk_export_state re = risk_export_state re'"
  shows "acct re = acct re'" and "resv re = resv re'"
    and "re_maximum_order_id re = re_maximum_order_id re'" and "re_killed re = re_killed re'"
proof -
  have a: "acct re aid = Some a \<longleftrightarrow> account_risk_state a \<in> set (rs_accounts (risk_export_state re)) \<and> ac_id a = aid"
    if "risk_inv re" for re aid a
    unfolding export_accounts(2) [OF that] using risk_inv_acct_ok [OF that]
    by (auto dest!: arg_cong [where f = account_of_state])
  have "acct re aid = Some a \<longleftrightarrow> acct re' aid = Some a" for aid a unfolding a [OF inv(1)] a [OF inv(2)] eq ..
  then show "acct re = acct re'" by (metis ext option.exhaust)
  have r: "resv re k = Some (aid, side, q) \<longleftrightarrow> \<lparr>rrs_order_id = k, rrs_account_id = aid, rrs_side = side, rrs_quantity = q\<rparr>
      \<in> set (rs_reservations (risk_export_state re))" if "risk_inv re" for re k aid side q
    unfolding export_reservations(2) [OF that] by simp
  show "resv re = resv re'" by (rule resv_eqI) (simp add: r inv eq)
  show "re_maximum_order_id re = re_maximum_order_id re'" "re_killed re = re_killed re'"
    using arg_cong [OF eq, of rs_maximum_order_id] arg_cong [OF eq, of rs_killed] by (simp_all add: risk_export_state_def)
qed

lemma fold_set_same:
  assumes "\<forall>slot \<in> set slots. slot < length (re_reservations e) \<and> re_reservations e ! slot = v slot"
  shows "fold (\<lambda>slot e. set_reservation e slot (v slot)) slots e = e"
  using assms
proof (induction slots)
  case (Cons slot slots)
  then have "(re_reservations e)[slot := v slot] = re_reservations e" by (metis list.set_intros(1) list_update_id)
  then have "set_reservation e slot (v slot) = e" by (simp add: set_reservation_def)
  with Cons show ?case by simp
qed simp

lemma map_filter_Some: "List.map_filter f (map g xs) = ys" if "map (\<lambda>x. f (g x)) xs = map Some ys"
  using that by (induction xs arbitrary: ys) (auto simp: map_filter_simps map_eq_Cons_conv)

lemma map_filter_append: "List.map_filter f (xs @ ys) = List.map_filter f xs @ List.map_filter f ys"
  by (simp add: List.map_filter_def)

lemma map_filter_None: "\<forall>x \<in> set xs. f x = None \<Longrightarrow> List.map_filter f xs = []"
  by (simp add: List.map_filter_def filter_empty_conv)

text \<open>An engine that holds the records of a valid state in order satisfies the invariant and exports it.\<close>

lemma restored_inv:
  assumes fits: "risk_state_fits s" and valid: "risk_state_valid ACCOUNTS ORDERS s"
    and accs: "List.map_filter (map_option account_risk_state) (re_accounts re) = rs_accounts s"
    and live: "List.map_filter reservation_risk_state (re_reservations re) = rs_reservations s"
    and inv: "accounts_inv (re_accounts re) (re_account_index re)"
      "res_store_inv (re_reservations re) (re_reservation_free_head re) (re_reservation_index re)"
    and sel: "re_maximum_order_id re = rs_maximum_order_id s" "re_killed re = rs_killed s"
  shows "risk_inv re" and "risk_export_state re = s"
proof -
  show "risk_export_state re = s"
    unfolding risk_export_state_def live accs using valid by (simp add: sort_key_sorted sel risk_state_valid_def)
  have mem: "account_risk_state b \<in> set (rs_accounts s) \<longleftrightarrow> Some b \<in> set (re_accounts re)" for b
    unfolding accs [symmetric] set_map_filter' by (auto dest: arg_cong [of _ _ account_of_state])
  have a: "account_ok (re_reservations re) b" if "Some b \<in> set (re_accounts re)" for b
  proof -
    from that mem have b: "account_risk_state b \<in> set (rs_accounts s)" by blast
    then have "account_state_valid (rs_reservations s) (account_risk_state b)"
      "\<not> limits_invalid (ars_limits (account_risk_state b))" "limits_fit (ars_limits (account_risk_state b))"
      using valid fits unfolding risk_state_valid_def risk_state_fits_def by blast+
    then show ?thesis unfolding account_ok_def exposure_state open_count_state live
      by (simp add: account_risk_state_def account_state_valid_def within_limits_def limits_ok_def)
  qed
  have r: "(\<exists>b. Some b \<in> set (re_accounts re) \<and> ac_id b = rv_account_id r) \<and> (\<exists>m. re_maximum_order_id re = Some m \<and> rv_order_id r \<le> m)"
    if "ResLive r \<in> set (re_reservations re)" for r
  proof -
    have "\<exists>y \<in> set (rs_reservations s). reservation_risk_state (ResLive r) = Some y"
      using that unfolding live [symmetric] set_map_filter' by (auto intro!: bexI [of _ "ResLive r"])
    then obtain y where y: "y \<in> set (rs_reservations s)" "rrs_order_id y = rv_order_id r" "rrs_account_id y = rv_account_id r" by auto
    with valid obtain x m where x: "x \<in> set (rs_accounts s)" "ars_id x = rv_account_id r"
      "rs_maximum_order_id s = Some m" "rv_order_id r \<le> m" unfolding risk_state_valid_def by force
    then have "Some (account_of_state x) \<in> set (re_accounts re)" unfolding mem [symmetric] by simp
    with x sel show ?thesis by force
  qed
  show "risk_inv re" unfolding risk_inv_def using inv a r by blast
qed

lemma risk_from_state_valid:
  assumes cap: "ACCOUNTS \<le> 2 ^ 31" "ORDERS \<le> 2 ^ 31" and fits: "risk_state_fits s" and valid: "risk_state_valid ACCOUNTS ORDERS s"
  shows "\<exists>re. risk_from_state ACCOUNTS ORDERS s = Some (Ok re) \<and> risk_inv re \<and> risk_export_state re = s \<and>
    length (re_accounts re) = ACCOUNTS \<and> length (re_reservations re) = ORDERS"
proof -
  let ?A = "rs_accounts s" and ?R = "rs_reservations s"
  have v: "risk_validate_state ACCOUNTS ORDERS s = Ok (?A, ?R)" using risk_validate_state_Ok [OF cap(2) fits] valid by simp
  have len: "length ?A \<le> ACCOUNTS" "length ?R \<le> ORDERS" and dist: "distinct (map ars_id ?A)" "distinct (map rrs_order_id ?R)"
    using valid by (simp_all add: risk_state_valid_def strict_sorted_iff)
  define e0 where "e0 = (risk_new ACCOUNTS ORDERS)\<lparr>re_killed := rs_killed s, re_maximum_order_id := rs_maximum_order_id s\<rparr>"
  have inv0: "risk_inv (risk_new ACCOUNTS ORDERS)" by (rule risk_inv_new [OF cap])
  have e0: "re_accounts e0 = map Some [] @ replicate ACCOUNTS None" "accounts_inv (re_accounts e0) (re_account_index e0)"
    using risk_inv_accounts [OF inv0] by (simp_all add: e0_def risk_new_def)
  let ?accs = "map Some (map account_of_state ?A) @ replicate (ACCOUNTS - length ?A) None"
  from restore_accounts_ok [OF e0] dist len obtain ix where
    acc: "restore_accounts e0 0 ?A = Some (Ok (e0\<lparr>re_accounts := ?accs, re_account_index := ix\<rparr>))" "accounts_inv ?accs ix" by auto
  define e1 where "e1 = e0\<lparr>re_accounts := ?accs, re_account_index := ix\<rparr>"
  have head: "(if ORDERS = 0 then NIL else 0) = free_from ORDERS 0" by (simp add: free_from_def)
  have e1: "re_reservations e1 = map ResLive [] @ fresh_slots ORDERS (length ([] :: Reservation list))"
    "res_store_inv (re_reservations e1) (free_from ORDERS (length ([] :: Reservation list))) (re_reservation_index e1)"
    using risk_inv_store [OF inv0] head by (simp_all add: e1_def e0_def risk_new_def fresh_slots_def)
  let ?slots = "\<lambda>new. map ResLive new @ fresh_slots ORDERS (length ?R)"
  from restore_reservations_ok [OF e1, of ?R] dist len cap obtain jx new where
    res: "restore_reservations e1 0 ?R = Some (Ok (e1\<lparr>re_reservations := ?slots new, re_reservation_index := jx\<rparr>))"
      "map (\<lambda>r. reservation_risk_state (ResLive r)) new = map Some ?R"
      "res_store_inv (?slots new) (free_from ORDERS (length ?R)) jx" by auto
  define e2 where "e2 = e1\<lparr>re_reservations := ?slots new, re_reservation_index := jx\<rparr>"
  define re where "re = e2\<lparr>re_reservation_free_head := free_from ORDERS (length ?R)\<rparr>"
  have new: "length new = length ?R" using arg_cong [OF res(2), of length] by simp
  have sel: "re_accounts re = ?accs" "re_account_index re = ix" "re_reservations re = ?slots new"
    "re_reservation_index re = jx" "re_reservation_free_head re = free_from ORDERS (length ?R)"
    "re_maximum_order_id re = rs_maximum_order_id s" "re_killed re = rs_killed s"
    by (simp_all add: re_def e2_def e1_def e0_def)
  have "fold (\<lambda>slot e. set_reservation e slot (ResFree (fresh_link ORDERS slot))) [length ?R..<ORDERS] re = re"
    by (rule fold_set_same) (use len new in \<open>auto simp: sel fresh_slots_def nth_append\<close>)
  then have run: "risk_from_state ACCOUNTS ORDERS s = Some (Ok re)"
    unfolding risk_from_state_def v e0_def [symmetric]
    using acc(1) [folded e1_def] res(1) [folded e2_def] by (simp add: Let_def fresh_link_def re_def free_from_def)
  have "List.map_filter reservation_risk_state (re_reservations re) = ?R"
    unfolding sel map_filter_append map_filter_Some [of reservation_risk_state ResLive, OF res(2)]
    by (simp add: map_filter_None fresh_slots_def)
  moreover have "List.map_filter (map_option account_risk_state) (re_accounts re) = ?A"
    unfolding sel map_filter_append map_map o_def by (subst map_filter_Some [of _ _ _ ?A]) (auto simp: map_filter_None)
  ultimately have "risk_inv re" "risk_export_state re = s"
    using restored_inv [OF fits valid, of re] acc(2) res(3) by (simp_all add: sel)
  with run len new show ?thesis by (auto simp: sel fresh_slots_def)
qed

lemma risk_from_state_invalid:
  assumes "ORDERS \<le> 2 ^ 31" and "risk_state_fits s" and "\<not> risk_state_valid ACCOUNTS ORDERS s"
  shows "\<exists>e. risk_from_state ACCOUNTS ORDERS s = Some (Err e)"
proof (cases "risk_validate_state ACCOUNTS ORDERS s")
  case (Ok x)
  with risk_validate_state_Ok [OF assms(1,2)] assms(3) show ?thesis by auto
next
  case (Err e)
  then show ?thesis by (simp add: risk_from_state_def)
qed

text \<open>Every engine whose reservations are not empty exports a valid state.\<close>

definition live_positive :: "RiskEngine \<Rightarrow> bool" where
  "live_positive re \<longleftrightarrow> (\<forall>k aid side q. resv re k = Some (aid, side, q) \<longrightarrow> 0 < q)"

lemma length_map_filter: "length (List.map_filter f xs) \<le> length xs"
  by (simp add: List.map_filter_def)

lemma export_state_valid:
  assumes inv: "risk_inv re" and pos: "live_positive re"
  shows "risk_state_valid (length (re_accounts re)) (length (re_reservations re)) (risk_export_state re)"
proof -
  let ?s = "risk_export_state re"
  note A = export_accounts [OF inv] and R = export_reservations [OF inv]
  have mset: "mset (rs_reservations ?s) = mset (List.map_filter reservation_risk_state (re_reservations re))"
    by (simp add: risk_export_state_def)
  have a: "\<not> limits_invalid (ars_limits x) \<and> account_state_valid (rs_reservations ?s) x" if x: "x \<in> set (rs_accounts ?s)" for x
  proof -
    from x A(2) obtain b aid where b: "x = account_risk_state b" "acct re aid = Some b" by auto
    then have "account_ok (re_reservations re) b" using risk_inv_acct_ok [OF inv] by blast
    then show ?thesis unfolding account_ok_def exposure_state open_count_state account_state_valid_def
        state_exposure_mset [OF mset] state_open_mset [OF mset] b
      by (simp add: account_risk_state_def within_limits_def limits_ok_def)
  qed
  have r: "0 < rrs_quantity x \<and> rrs_account_id x \<in> ars_id ` set (rs_accounts ?s) \<and>
      (\<exists>m. rs_maximum_order_id ?s = Some m \<and> rrs_order_id x \<le> m)" if x: "x \<in> set (rs_reservations ?s)" for x
  proof -
    from x R(2) obtain k aid side q where k: "resv re k = Some (aid, side, q)"
      "x = \<lparr>rrs_order_id = k, rrs_account_id = aid, rrs_side = side, rrs_quantity = q\<rparr>" by auto
    from k(1) obtain u y where y: "u < length (re_reservations re)" "re_reservations re ! u = ResLive y"
      "rv_order_id y = k" "rv_account_id y = aid" unfolding resv_iff [OF risk_inv_store [OF inv]] by blast
    then have "ResLive y \<in> set (re_reservations re)" by (metis nth_mem)
    then obtain b m where b: "Some b \<in> set (re_accounts re)" "ac_id b = aid" "re_maximum_order_id re = Some m" "k \<le> m"
      using inv y(3,4) unfolding risk_inv_def by blast
    then have "acct re aid = Some b" unfolding acct_iff [OF risk_inv_accounts [OF inv]] in_set_conv_nth by auto
    then have "account_risk_state b \<in> set (rs_accounts ?s)" unfolding A(2) by blast
    then have "aid \<in> ars_id ` set (rs_accounts ?s)" using b(2) by force
    moreover have "0 < q" using pos k(1) unfolding live_positive_def by blast
    ultimately show ?thesis using b by (simp add: k(2) risk_export_state_def)
  qed
  have "length (rs_accounts ?s) \<le> length (re_accounts re)" "length (rs_reservations ?s) \<le> length (re_reservations re)"
    by (simp_all add: risk_export_state_def length_map_filter)
  with A(1) R(1) a r show ?thesis unfolding risk_state_valid_def by blast
qed

text \<open>Exporting an engine and restoring it.\<close>

lemma risk_inv_capacities:
  assumes "risk_inv re"
  shows "length (re_accounts re) \<le> 2 ^ 31" and "length (re_reservations re) \<le> 2 ^ 31"
  using probe_inv_capacity [of "re_account_index re"] probe_inv_capacity [of "re_reservation_index re"]
    risk_inv_accounts [OF assms] risk_inv_store [OF assms]
  by (auto simp: accounts_inv_def res_store_inv_def)

definition quantities_typed :: "RiskEngine \<Rightarrow> bool" where
  "quantities_typed re \<longleftrightarrow> (\<forall>k aid side q. resv re k = Some (aid, side, q) \<longrightarrow> 0 < q \<and> u64_ok q)"

lemma export_state_fits:
  assumes "risk_inv re" and "quantities_typed re"
  shows "risk_state_fits (risk_export_state re)"
proof -
  have "limits_fit (ac_limits a)" if "acct re aid = Some a" for aid a
    using risk_inv_acct_ok [OF assms(1)] that by (auto simp: account_ok_def limits_ok_def)
  with assms show ?thesis
    unfolding risk_state_fits_def export_accounts(2) [OF assms(1)] export_reservations(2) [OF assms(1)] quantities_typed_def
    by (auto simp: account_risk_state_def)
qed

lemma risk_export_restore:
  assumes inv: "risk_inv re" and q: "quantities_typed re"
  shows "\<exists>re'. risk_from_state (length (re_accounts re)) (length (re_reservations re)) (risk_export_state re) = Some (Ok re') \<and>
    risk_inv re' \<and> acct re' = acct re \<and> resv re' = resv re \<and> re_maximum_order_id re' = re_maximum_order_id re \<and>
    re_killed re' = re_killed re \<and> length (re_accounts re') = length (re_accounts re) \<and>
    length (re_reservations re') = length (re_reservations re)"
proof -
  have "live_positive re" using q by (auto simp: live_positive_def quantities_typed_def)
  from risk_from_state_valid [OF risk_inv_capacities [OF inv] export_state_fits [OF inv q] export_state_valid [OF inv this]]
  obtain re' where re': "risk_from_state (length (re_accounts re)) (length (re_reservations re)) (risk_export_state re) = Some (Ok re')"
    "risk_inv re'" "risk_export_state re' = risk_export_state re" "length (re_accounts re') = length (re_accounts re)"
    "length (re_reservations re') = length (re_reservations re)" by blast
  with export_state_view [OF re'(2) inv re'(3)] show ?thesis by blast
qed

end
