(* ===== verification/BookState.thy ===== *)
theory BookState
  imports BookProps RiskState
begin

text \<open>
  The logical state of the order book, as snapshots carry it: \<open>export_state\<close>, \<open>from_state\<close>, the
  validation in between and the digest, from \<open>crates/hft-book/src/lib.rs\<close>. A state holds per side an
  array of \<open>LEVELS\<close> levels, each with an array of \<open>ORDERS_PER_LEVEL\<close> orders, of which a counted prefix is
  used and the rest must be blank. As before \<open>None\<close> is a panic; an error discards the half-built book.
\<close>

section \<open>State\<close>

record BookOrderState =
  bos_order_id :: OrderId
  bos_account_id :: AccountId
  bos_side :: Side
  bos_price :: PriceTicks
  bos_quantity :: Quantity
  bos_sequence :: SequenceNumber

definition EMPTY_BOOK_ORDER_STATE :: BookOrderState where
  "EMPTY_BOOK_ORDER_STATE = \<lparr>bos_order_id = 0, bos_account_id = 0, bos_side = Buy, bos_price = 0,
     bos_quantity = 0, bos_sequence = 0\<rparr>"

record BookLevelState =
  bls_side :: Side
  bls_price :: PriceTicks
  bls_order_count :: nat
  bls_orders :: "BookOrderState list"

definition level_state_empty :: "nat \<Rightarrow> Side \<Rightarrow> PriceTicks \<Rightarrow> BookLevelState" where
  "level_state_empty ORDERS side price =
     \<lparr>bls_side = side, bls_price = price, bls_order_count = 0, bls_orders = replicate ORDERS EMPTY_BOOK_ORDER_STATE\<rparr>"

definition empty_book_level_state :: "nat \<Rightarrow> BookLevelState" where
  "empty_book_level_state ORDERS =
     \<lparr>bls_side = Buy, bls_price = 0, bls_order_count = 0, bls_orders = replicate ORDERS EMPTY_BOOK_ORDER_STATE\<rparr>"

record BookState =
  bs_instrument :: InstrumentId
  bs_bid_level_count :: nat
  bs_bids :: "BookLevelState list"
  bs_ask_level_count :: nat
  bs_asks :: "BookLevelState list"

definition book_state_empty :: "nat \<Rightarrow> nat \<Rightarrow> InstrumentId \<Rightarrow> BookState" where
  "book_state_empty LEVELS ORDERS instrument =
     \<lparr>bs_instrument = instrument, bs_bid_level_count = 0, bs_bids = replicate LEVELS (empty_book_level_state ORDERS),
      bs_ask_level_count = 0, bs_asks = replicate LEVELS (empty_book_level_state ORDERS)\<rparr>"

datatype BookStateError =
    BseInstrument | BseLevelCapacity | BseOrderCapacity | BseSide | BsePrice | BseQuantity | BseSequence
  | BseLevelOrder | BseDuplicateOrderId | BseCrossed | BseNonCanonical

section \<open>Export\<close>

fun export_orders :: "Side \<Rightarrow> PriceTicks \<Rightarrow> RestingOrder list \<Rightarrow> BookLevelState \<Rightarrow> BookLevelState option" where
  "export_orders side price [] destination = Some destination"
| "export_orders side price (order # xs) destination =
     (if bls_order_count destination < length (bls_orders destination)
      then export_orders side price xs
        (destination\<lparr>bls_orders := (bls_orders destination)[bls_order_count destination :=
             \<lparr>bos_order_id = rst_id order, bos_account_id = rst_account_id order, bos_side = side, bos_price = price,
              bos_quantity = rst_quantity order, bos_sequence = rst_sequence order\<rparr>],
           bls_order_count := bls_order_count destination + 1\<rparr>)
      else None)"

fun export_levels ::
  "OrderBook \<Rightarrow> Side \<Rightarrow> (PriceTicks \<times> nat) list \<Rightarrow> BookLevelState list \<Rightarrow> nat \<Rightarrow> (BookLevelState list \<times> nat) option" where
  "export_levels b side [] output output_len = Some (output, output_len)"
| "export_levels b side ((price, level_index) # xs) output output_len =
     (case nth_opt (side_levels b side) level_index of
        None \<Rightarrow> None
      | Some None \<Rightarrow> export_levels b side xs output output_len
      | Some (Some level) \<Rightarrow>
          do {
            destination \<leftarrow> nth_opt output output_len;
            orders \<leftarrow> for_each_live level;
            destination \<leftarrow> export_orders side price orders (destination\<lparr>bls_side := side, bls_price := price\<rparr>);
            export_levels b side xs (output[output_len := destination]) (output_len + 1)
          })"

definition export_side :: "OrderBook \<Rightarrow> Side \<Rightarrow> BookLevelState list \<Rightarrow> nat \<Rightarrow> (BookLevelState list \<times> nat) option" where
  "export_side b side output output_len = export_levels b side (lindex_iter (side_index b side)) output output_len"

definition book_export_state :: "OrderBook \<Rightarrow> BookState option" where
  "book_export_state b =
     (let state = book_state_empty (ob_LEVELS b) (ob_ORDERS b) (ob_instrument b) in
      do {
        (bids, bid_level_count) \<leftarrow> export_side b Buy (bs_bids state) (bs_bid_level_count state);
        (asks, ask_level_count) \<leftarrow> export_side b Sell (bs_asks state) (bs_ask_level_count state);
        Some (state\<lparr>bs_bids := bids, bs_bid_level_count := bid_level_count,
                    bs_asks := asks, bs_ask_level_count := ask_level_count\<rparr>)
      })"

section \<open>Validation\<close>

text \<open>\<open>level.orders.iter().take(level.order_count)\<close> and \<open>levels.iter().take(level_count)\<close>.\<close>

definition used_orders :: "BookLevelState \<Rightarrow> BookOrderState list" where
  "used_orders level = take (bls_order_count level) (bls_orders level)"

definition used_levels :: "BookState \<Rightarrow> BookLevelState list" where
  "used_levels state = take (bs_bid_level_count state) (bs_bids state) @ take (bs_ask_level_count state) (bs_asks state)"

fun validate_level_orders :: "Side \<Rightarrow> PriceTicks \<Rightarrow> BookOrderState list \<Rightarrow> (unit, BookStateError) result" where
  "validate_level_orders side price [] = Ok ()"
| "validate_level_orders side price (order # xs) =
     (if bos_side order \<noteq> side then Err BseSide
      else if bos_price order \<noteq> price then Err BsePrice
      else if bos_quantity order = 0 then Err BseQuantity
      else if bos_sequence order = 0 then Err BseSequence
      else validate_level_orders side price xs)"

fun sequence_window :: "BookOrderState list \<Rightarrow> bool" where
  "sequence_window (a # b # xs) \<longleftrightarrow> bos_sequence a \<ge> bos_sequence b \<or> sequence_window (b # xs)"
| "sequence_window _ \<longleftrightarrow> False"

fun validate_levels ::
  "nat \<Rightarrow> Side \<Rightarrow> PriceTicks option \<Rightarrow> BookLevelState list \<Rightarrow> (unit, BookStateError) result" where
  "validate_levels ORDERS side prior_price [] = Ok ()"
| "validate_levels ORDERS side prior_price (level # xs) =
     (if bls_side level \<noteq> side then Err BseSide
      else if bls_price level \<le> 0 then Err BsePrice
      else if bls_order_count level = 0 \<or> bls_order_count level > ORDERS then Err BseOrderCapacity
      else if (case prior_price of None \<Rightarrow> False
               | Some prior \<Rightarrow> (case side of Buy \<Rightarrow> prior \<le> bls_price level | Sell \<Rightarrow> prior \<ge> bls_price level))
      then Err BseLevelOrder
      else and_then (validate_level_orders side (bls_price level) (used_orders level)) (\<lambda>_.
        if sequence_window (used_orders level) then Err BseSequence
        else if \<exists>order \<in> set (drop (bls_order_count level) (bls_orders level)). order \<noteq> EMPTY_BOOK_ORDER_STATE
        then Err BseNonCanonical
        else validate_levels ORDERS side (Some (bls_price level)) xs))"

definition validate_side ::
  "nat \<Rightarrow> BookLevelState list \<Rightarrow> nat \<Rightarrow> Side \<Rightarrow> (unit, BookStateError) result" where
  "validate_side ORDERS levels used side = validate_levels ORDERS side None (take used levels)"

fun validate_unique_orders :: "BookState \<Rightarrow> BookOrderState list \<Rightarrow> (unit, BookStateError) result" where
  "validate_unique_orders state [] = Ok ()"
| "validate_unique_orders state (order # xs) =
     (let occurrences = sum_list (map (\<lambda>candidate_level.
            length (filter (\<lambda>candidate. bos_order_id candidate = bos_order_id order) (used_orders candidate_level)))
            (used_levels state));
          sequence_occurrences = length (filter (\<lambda>candidate. bos_sequence candidate = bos_sequence order)
            (concat (map used_orders (used_levels state))))
      in if occurrences \<noteq> 1 then Err BseDuplicateOrderId
         else if sequence_occurrences \<noteq> 1 then Err BseSequence
         else validate_unique_orders state xs)"

definition validate_unique_ids :: "BookState \<Rightarrow> (unit, BookStateError) result" where
  "validate_unique_ids state = validate_unique_orders state (concat (map used_orders (used_levels state)))"

definition book_validate_state :: "nat \<Rightarrow> nat \<Rightarrow> BookState \<Rightarrow> (unit, BookStateError) result" where
  "book_validate_state LEVELS ORDERS state =
     (if bs_bid_level_count state > LEVELS \<or> bs_ask_level_count state > LEVELS then Err BseLevelCapacity
      else and_then (validate_side ORDERS (bs_bids state) (bs_bid_level_count state) Buy) (\<lambda>_.
        and_then (validate_side ORDERS (bs_asks state) (bs_ask_level_count state) Sell) (\<lambda>_.
        if \<exists>level \<in> set (drop (bs_bid_level_count state) (bs_bids state) @ drop (bs_ask_level_count state) (bs_asks state)).
             level \<noteq> empty_book_level_state ORDERS
        then Err BseNonCanonical
        else if bs_bid_level_count state > 0 \<and> bs_ask_level_count state > 0 \<and>
             (case (bs_bids state, bs_asks state) of
                (bid # _, ask # _) \<Rightarrow> bls_price bid \<ge> bls_price ask | _ \<Rightarrow> False)
        then Err BseCrossed
        else validate_unique_ids state)))"

section \<open>Import\<close>

definition restore_order ::
  "OrderBook \<Rightarrow> Side \<Rightarrow> nat \<Rightarrow> BookOrderState \<Rightarrow> (OrderBook, BookStateError) result option" where
  "restore_order b side level_index order =
     (let resting = resting_order (bos_order_id order) (bos_account_id order) (bos_quantity order) (bos_sequence order) in
      case nth_opt (side_levels b side) level_index of
        None \<Rightarrow> None
      | Some level \<Rightarrow>
          (case Option.bind level (\<lambda>level. push_tail level resting) of
             None \<Rightarrow> Some (Err BseOrderCapacity)
           | Some (level, slot) \<Rightarrow>
               (case oi_insert (ob_LEVELS b) (ob_ORDERS b) (ob_index b) (bos_order_id order)
                       \<lparr>ol_side = side, ol_level_index = level_index, ol_slot = slot\<rparr> of
                  Err _ \<Rightarrow> Some (Err BseDuplicateOrderId)
                | Ok (index_slot, index) \<Rightarrow>
                    (case get_live level slot of
                       None \<Rightarrow> Some (Err BseOrderCapacity)
                     | Some live \<Rightarrow>
                         Some (Ok ((put_level b side level_index
                           (Some (put_live level slot (live\<lparr>rst_index_slot := index_slot\<rparr>))))\<lparr>ob_index := index\<rparr>))))))"

fun restore_orders ::
  "OrderBook \<Rightarrow> Side \<Rightarrow> nat \<Rightarrow> BookOrderState list \<Rightarrow> (OrderBook, BookStateError) result option" where
  "restore_orders b side level_index [] = Some (Ok b)"
| "restore_orders b side level_index (order # xs) =
     (case restore_order b side level_index order of
        Some (Ok b') \<Rightarrow> restore_orders b' side level_index xs
      | r \<Rightarrow> r)"

definition restore_level :: "OrderBook \<Rightarrow> BookLevelState \<Rightarrow> (OrderBook, BookStateError) result option" where
  "restore_level b state =
     (case lindex_insert (side_index b (bls_side state)) (bls_price state) (bls_side state = Buy) of
        None \<Rightarrow> None
      | Some None \<Rightarrow> Some (Err BseLevelCapacity)
      | Some (Some (ix, level_index)) \<Rightarrow>
          if level_index < length (side_levels b (bls_side state))
          then restore_orders (put_level (set_side_index b (bls_side state) ix) (bls_side state) level_index
                 (Some (level_new (ob_ORDERS b) (bls_price state)))) (bls_side state) level_index (used_orders state)
          else None)"

fun restore_levels :: "OrderBook \<Rightarrow> BookLevelState list \<Rightarrow> (OrderBook, BookStateError) result option" where
  "restore_levels b [] = Some (Ok b)"
| "restore_levels b (level # xs) =
     (case restore_level b level of
        Some (Ok b') \<Rightarrow> restore_levels b' xs
      | r \<Rightarrow> r)"

definition book_from_state ::
  "nat \<Rightarrow> nat \<Rightarrow> InstrumentId \<Rightarrow> BookState \<Rightarrow> (OrderBook, BookStateError) result option" where
  "book_from_state LEVELS ORDERS instrument state =
     (if bs_instrument state \<noteq> instrument then Some (Err BseInstrument)
      else case book_validate_state LEVELS ORDERS state of
        Err e \<Rightarrow> Some (Err e)
      | Ok _ \<Rightarrow> restore_levels (book_new LEVELS ORDERS instrument) (used_levels state))"

section \<open>Digest\<close>

text \<open>The book's \<open>mix\<close> is the function of the same name in the risk engine.\<close>

definition digest_order :: "RestingOrder \<Rightarrow> nat \<Rightarrow> nat" where
  "digest_order order digest =
     fold (\<lambda>v d. mix d v) [rst_id order, rst_account_id order, rst_quantity order, rst_sequence order] digest"

fun digest_levels :: "OrderBook \<Rightarrow> Side \<Rightarrow> (PriceTicks \<times> nat) list \<Rightarrow> nat \<Rightarrow> nat option" where
  "digest_levels b side [] digest = Some digest"
| "digest_levels b side ((_, level_index) # xs) digest =
     (case nth_opt (side_levels b side) level_index of
        None \<Rightarrow> None
      | Some None \<Rightarrow> digest_levels b side xs digest
      | Some (Some level) \<Rightarrow>
          do {
            orders \<leftarrow> for_each_live level;
            digest_levels b side xs (fold digest_order orders (mix digest (u64_of_i64 (pl_price level))))
          })"

definition digest_side :: "OrderBook \<Rightarrow> nat \<Rightarrow> Side \<Rightarrow> nat option" where
  "digest_side b digest side =
     digest_levels b side (lindex_iter (side_index b side)) (mix digest (unat (side_code side)))"

definition book_stable_digest :: "OrderBook \<Rightarrow> nat option" where
  "book_stable_digest b =
     do {
       digest \<leftarrow> digest_side b (mix 14695981039346656037 (ob_instrument b)) Buy;
       digest_side b digest Sell
     }"

section \<open>The state of a ladder\<close>

text \<open>
  A ladder lists the levels of a side best first, each with its price and queue. The exported arrays
  are a function of the two ladders, and a ladder is determined by the priority list of its side.
\<close>

definition order_state :: "Side \<Rightarrow> PriceTicks \<Rightarrow> Order \<Rightarrow> BookOrderState" where
  "order_state side p x = \<lparr>bos_order_id = o_id x, bos_account_id = o_account x, bos_side = side, bos_price = p,
     bos_quantity = o_quantity x, bos_sequence = o_sequence x\<rparr>"

definition order_view :: "BookOrderState \<Rightarrow> Order" where
  "order_view x = \<lparr>o_id = bos_order_id x, o_account = bos_account_id x, o_quantity = bos_quantity x, o_sequence = bos_sequence x\<rparr>"

definition level_state :: "nat \<Rightarrow> Side \<Rightarrow> PriceTicks \<times> Order list \<Rightarrow> BookLevelState" where
  "level_state ORDERS side l = \<lparr>bls_side = side, bls_price = fst l, bls_order_count = length (snd l),
     bls_orders = map (order_state side (fst l)) (snd l) @ replicate (ORDERS - length (snd l)) EMPTY_BOOK_ORDER_STATE\<rparr>"

definition side_state :: "nat \<Rightarrow> nat \<Rightarrow> Side \<Rightarrow> ladder \<Rightarrow> BookLevelState list" where
  "side_state LEVELS ORDERS side ls = map (level_state ORDERS side) ls @ replicate (LEVELS - length ls) (empty_book_level_state ORDERS)"

definition ladders_state :: "nat \<Rightarrow> nat \<Rightarrow> InstrumentId \<Rightarrow> ladder \<Rightarrow> ladder \<Rightarrow> BookState" where
  "ladders_state LEVELS ORDERS instrument bids asks =
     \<lparr>bs_instrument = instrument, bs_bid_level_count = length bids, bs_bids = side_state LEVELS ORDERS Buy bids,
      bs_ask_level_count = length asks, bs_asks = side_state LEVELS ORDERS Sell asks\<rparr>"

definition flat :: "ladder \<Rightarrow> plist" where
  "flat ls = concat (map (\<lambda>(p, q). map (Pair p) q) ls)"

lemma flat_simps [simp]: "flat [] = []" "flat (l # ls) = map (Pair (fst l)) (snd l) @ flat ls" "flat (ls @ ls') = flat ls @ flat ls'"
  by (auto simp: flat_def split: prod.splits)

lemma book_list_flat: "book_list b side = flat (book_side b side)"
  by (simp add: book_list_def book_side_def side_abs_def ladder_of_def flat_def case_prod_unfold o_def)

lemma order_view_state [simp]: "order_view (order_state side p x) = x"
  by (simp add: order_view_def order_state_def)

lemma view_rst_state:
  "\<lparr>bos_order_id = rst_id r, bos_account_id = rst_account_id r, bos_side = side, bos_price = p,
    bos_quantity = rst_quantity r, bos_sequence = rst_sequence r\<rparr> = order_state side p (view r)"
  by (simp add: order_state_def view_def)

lemma ladder_unique:
  assumes "flat ls = flat ls'" and "distinct (map fst ls)" "distinct (map fst ls')"
    and "\<forall>l \<in> set ls. snd l \<noteq> []" "\<forall>l \<in> set ls'. snd l \<noteq> []"
  shows "ls = ls'"
  using assms
proof (induction ls arbitrary: ls')
  case Nil
  then show ?case by (cases ls') auto
next
  case (Cons l ls)
  have ne: "snd l \<noteq> []" using Cons.prems(4) by simp
  then obtain l' ls2 where ls': "ls' = l' # ls2" using Cons.prems(1) by (cases ls') auto
  have ne': "snd l' \<noteq> []" using Cons.prems(5) ls' by simp
  have p: "fst l = fst l'" using Cons.prems(1) ne ne' unfolding ls' by (cases "snd l"; cases "snd l'") auto
  have out: "fst e \<noteq> fst l" if "e \<in> set (flat ms)" "fst l \<notin> fst ` set ms" for e ms
    using that by (induction ms) auto
  have tw: "takeWhile (\<lambda>e. fst e = fst l) (map (Pair (fst l)) q @ flat ms) = map (Pair (fst l)) q"
    "dropWhile (\<lambda>e. fst e = fst l) (map (Pair (fst l)) q @ flat ms) = flat ms" if "fst l \<notin> fst ` set ms" for q ms
  proof -
    have "takeWhile (\<lambda>e. fst e = fst l) (flat ms) = []" "dropWhile (\<lambda>e. fst e = fst l) (flat ms) = flat ms"
      using out [OF _ that] by (cases "flat ms"; simp)+
    then show "takeWhile (\<lambda>e. fst e = fst l) (map (Pair (fst l)) q @ flat ms) = map (Pair (fst l)) q"
      "dropWhile (\<lambda>e. fst e = fst l) (map (Pair (fst l)) q @ flat ms) = flat ms"
      by (subst takeWhile_append2 dropWhile_append2; auto)+
  qed
  have n: "fst l \<notin> fst ` set ls" "fst l \<notin> fst ` set ls2" using Cons.prems(2,3) p unfolding ls' by auto
  have eq: "map (Pair (fst l)) (snd l) @ flat ls = map (Pair (fst l)) (snd l') @ flat ls2" using Cons.prems(1) p unfolding ls' by simp
  have "map (Pair (fst l)) (snd l) = map (Pair (fst l)) (snd l')" "flat ls = flat ls2"
    using arg_cong [OF eq, of "takeWhile (\<lambda>e. fst e = fst l)"] arg_cong [OF eq, of "dropWhile (\<lambda>e. fst e = fst l)"]
    unfolding tw [OF n(1)] tw [OF n(2)] by auto
  moreover have "inj (Pair (fst l))" by (simp add: inj_on_def)
  ultimately have "snd l = snd l'" "flat ls = flat ls2" by (auto dest: map_injective)
  with Cons.IH [of ls2] Cons.prems p show ?case unfolding ls' by (auto simp: prod_eq_iff)
qed

lemma book_side_facts:
  assumes "sides_wf b"
  shows "sorted_wrt (before (descending side)) (map fst (book_side b side))" and "distinct (map fst (book_side b side))"
    and "\<forall>l \<in> set (book_side b side). snd l \<noteq> [] \<and> length (snd l) \<le> ob_ORDERS b \<and> 0 < fst l"
    and "length (book_side b side) \<le> ob_LEVELS b"
proof -
  note f = side_iter_facts [OF assms, where side = side]
  have m: "map fst (book_side b side) = map fst (lindex_iter (side_index b side))"
    by (simp add: book_side_def side_abs_def ladder_of_def case_prod_unfold)
  show "sorted_wrt (before (descending side)) (map fst (book_side b side))" "distinct (map fst (book_side b side))"
    unfolding m using f(2,3) by auto
  show "\<forall>l \<in> set (book_side b side). snd l \<noteq> [] \<and> length (snd l) \<le> ob_ORDERS b \<and> 0 < fst l"
  proof
    fix l assume "l \<in> set (book_side b side)"
    then obtain p i where i: "(p, i) \<in> set (lindex_iter (side_index b side))" "l = (p, queue_at (side_levels b side) i)"
      by (auto simp: book_side_def side_abs_def ladder_of_def)
    from f(4) [OF i(1)] i(2) level_len_bound [OF assms] show "snd l \<noteq> [] \<and> length (snd l) \<le> ob_ORDERS b \<and> 0 < fst l" by auto
  qed
  show "length (book_side b side) \<le> ob_LEVELS b"
    using is_full_level_count(2) [OF assms, of side] level_count_iter [OF assms, of side]
    by (simp add: book_side_def side_abs_def)
qed

text \<open>Two books with the same priority lists have the same ladders.\<close>

lemma book_side_cong:
  assumes "sides_wf b" "sides_wf b'" and "book_list b side = book_list b' side"
  shows "book_side b side = book_side b' side"
  using assms(3) book_side_facts(2,3) [OF assms(1), of side] book_side_facts(2,3) [OF assms(2), of side]
  unfolding book_list_flat by (intro ladder_unique) auto

section \<open>Export computes the state of the ladders\<close>

lemma export_orders_eq:
  assumes "bls_orders d = map (order_state side p) pre @ replicate n EMPTY_BOOK_ORDER_STATE" "bls_order_count d = length pre"
    and "length rs \<le> n"
  shows "export_orders side p rs d = Some (d\<lparr>bls_orders := map (order_state side p) (pre @ map view rs) @
      replicate (n - length rs) EMPTY_BOOK_ORDER_STATE, bls_order_count := length pre + length rs\<rparr>)"
  using assms
proof (induction rs arbitrary: d pre n)
  case Nil
  then show ?case by simp
next
  case (Cons r rs)
  obtain m where n: "n = Suc m" using Cons.prems(3) by (cases n) auto
  let ?d = "d\<lparr>bls_orders := map (order_state side p) (pre @ [view r]) @ replicate m EMPTY_BOOK_ORDER_STATE,
    bls_order_count := length (pre @ [view r])\<rparr>"
  have "export_orders side p (r # rs) d = export_orders side p rs ?d"
    using Cons.prems n by (simp add: view_rst_state list_update_append)
  also have "\<dots> = Some (?d\<lparr>bls_orders := map (order_state side p) ((pre @ [view r]) @ map view rs) @
      replicate (m - length rs) EMPTY_BOOK_ORDER_STATE, bls_order_count := length (pre @ [view r]) + length rs\<rparr>)"
    by (rule Cons.IH) (use Cons.prems(3) n in auto)
  finally show ?case using n by simp
qed

lemma level_queue_walk:
  assumes "sides_wf b" and "(p, i) \<in> set (lindex_iter (side_index b side))"
  obtains L rs where "nth_opt (side_levels b side) i = Some (Some L)" "for_each_live L = Some rs"
    "queue_at (side_levels b side) i = map view rs" "length rs \<le> ob_ORDERS b" "pl_price L = p"
proof -
  note inv = sides_wfD [OF assms(1), of side]
  from side_level [OF inv assms(2)] obtain L xs where L: "level_of (side_levels b side) i = Some L" "side_levels b side ! i = Some L"
    "i < length (side_levels b side)" "level_ok (ob_ORDERS b) p L xs" by blast
  then have lv: "level_inv L xs" "pl_price L = p" by (auto simp: level_ok_def)
  from for_each_live_eq [OF lv(1)] obtain rs where rs: "for_each_live L = Some rs" by blast
  then have q: "level_queue L = map view rs" by (simp add: level_queue_def)
  have "length rs = pl_len L" using level_queue_length [OF lv(1)] q by simp
  with level_len_bound [OF assms(1), of side i L] L q rs lv that show thesis
    by (simp add: level_at_level_of nth_opt_def queue_at_def)
qed

lemma export_levels_eq:
  assumes "sides_wf b" and "set es \<subseteq> set (lindex_iter (side_index b side))" and "length es \<le> n"
  shows "export_levels b side es (map (level_state (ob_ORDERS b) side) pre @ replicate n (empty_book_level_state (ob_ORDERS b))) (length pre)
    = Some (map (level_state (ob_ORDERS b) side) (pre @ ladder_of (side_levels b side) es) @
        replicate (n - length es) (empty_book_level_state (ob_ORDERS b)), length pre + length es)"
  using assms(2,3)
proof (induction es arbitrary: pre n)
  case Nil
  then show ?case by simp
next
  case (Cons e es)
  obtain p i where e: "e = (p, i)" by (cases e) auto
  obtain m where n: "n = Suc m" using Cons.prems(2) by (cases n) auto
  have mem: "(p, i) \<in> set (lindex_iter (side_index b side))" using Cons.prems(1) e by simp
  obtain L rs where L: "nth_opt (side_levels b side) i = Some (Some L)" "for_each_live L = Some rs"
    "queue_at (side_levels b side) i = map view rs" "length rs \<le> ob_ORDERS b" by (rule level_queue_walk [OF assms(1) mem])
  let ?out = "map (level_state (ob_ORDERS b) side) pre @ replicate n (empty_book_level_state (ob_ORDERS b))"
  let ?d = "(empty_book_level_state (ob_ORDERS b))\<lparr>bls_side := side, bls_price := p\<rparr>"
  have d: "nth_opt ?out (length pre) = Some (empty_book_level_state (ob_ORDERS b))" by (simp add: nth_opt_def nth_append n)
  have x: "export_orders side p rs ?d = Some (level_state (ob_ORDERS b) side (p, map view rs))"
    by (subst export_orders_eq [where pre = "[]" and n = "ob_ORDERS b"])
      (use L(4) in \<open>simp_all add: empty_book_level_state_def level_state_def\<close>)
  have upd: "?out[length pre := y] = map (level_state (ob_ORDERS b) side) pre @ y # replicate m (empty_book_level_state (ob_ORDERS b))" for y
    by (simp add: n list_update_append)
  have "export_levels b side (e # es) ?out (length pre) =
      export_levels b side es (map (level_state (ob_ORDERS b) side) (pre @ [(p, map view rs)]) @
        replicate m (empty_book_level_state (ob_ORDERS b))) (length (pre @ [(p, map view rs)]))"
    using L(1,2) d x upd by (simp add: e)
  with Cons.IH [of m "pre @ [(p, map view rs)]"] Cons.prems n L(3) show ?case by (simp add: e)
qed

lemma export_side_eq:
  assumes "sides_wf b"
  shows "export_side b side (replicate (ob_LEVELS b) (empty_book_level_state (ob_ORDERS b))) 0 =
    Some (side_state (ob_LEVELS b) (ob_ORDERS b) side (book_side b side), length (book_side b side))"
proof -
  have len: "length (lindex_iter (side_index b side)) \<le> ob_LEVELS b"
    using book_side_facts(4) [OF assms, of side] by (simp add: book_side_def side_abs_def)
  show ?thesis
    using export_levels_eq [OF assms subset_refl len, of "[]"]
    by (simp add: export_side_def side_state_def book_side_def side_abs_def)
qed

lemma book_export_state_eq:
  assumes "sides_wf b"
  shows "book_export_state b = Some (ladders_state (ob_LEVELS b) (ob_ORDERS b) (ob_instrument b) (book_side b Buy) (book_side b Sell))"
  by (simp add: book_export_state_def book_state_empty_def export_side_eq [OF assms] ladders_state_def)

text \<open>The digest is a function of the ladders too, so it does not see slots or index positions.\<close>

definition digest_queue :: "Order list \<Rightarrow> nat \<Rightarrow> nat" where
  "digest_queue = fold (\<lambda>x d. fold (\<lambda>v d. mix d v) [o_id x, o_account x, o_quantity x, o_sequence x] d)"

definition digest_ladder :: "ladder \<Rightarrow> nat \<Rightarrow> nat" where
  "digest_ladder = fold (\<lambda>(p, q) d. digest_queue q (mix d (u64_of_i64 p)))"

lemma digest_queue_view: "fold digest_order rs d = digest_queue (map view rs) d"
  by (induction rs arbitrary: d) (simp_all add: digest_queue_def digest_order_def view_def)

lemma digest_levels_eq:
  assumes "sides_wf b" and "set es \<subseteq> set (lindex_iter (side_index b side))"
  shows "digest_levels b side es d = Some (digest_ladder (ladder_of (side_levels b side) es) d)"
  using assms(2)
proof (induction es arbitrary: d)
  case Nil
  then show ?case by (simp add: digest_ladder_def)
next
  case (Cons e es)
  obtain p i where e: "e = (p, i)" by (cases e) auto
  have mem: "(p, i) \<in> set (lindex_iter (side_index b side))" using Cons.prems(1) e by simp
  obtain L rs where "nth_opt (side_levels b side) i = Some (Some L)" "for_each_live L = Some rs"
    "queue_at (side_levels b side) i = map view rs" "length rs \<le> ob_ORDERS b" "pl_price L = p"
    by (rule level_queue_walk [OF assms(1) mem])
  with Cons show ?case by (simp add: e digest_ladder_def digest_queue_view)
qed

lemma book_stable_digest_eq:
  assumes "sides_wf b"
  shows "book_stable_digest b = Some (digest_ladder (book_side b Sell) (mix (digest_ladder (book_side b Buy)
    (mix (mix 14695981039346656037 (ob_instrument b)) 1)) 2))"
  by (simp add: book_stable_digest_def digest_side_def digest_levels_eq [OF assms] book_side_def side_abs_def)

end
