(* ===== verification/BookRestore.thy ===== *)
theory BookRestore
  imports BookState
begin

text \<open>
  Restoring a book from its logical state. Validation accepts exactly the states of valid ladders;
  restoring such a state rests its orders one after another and gives a book with the same priority
  lists, which exports to the state it came from. A book whose queues are in sequence exports a state
  that restores to an equal book.
\<close>

section \<open>The states that validation accepts\<close>

definition entry_valid :: "nat \<Rightarrow> PriceTicks \<times> Order list \<Rightarrow> bool" where
  "entry_valid ORDERS l \<longleftrightarrow> 0 < fst l \<and> snd l \<noteq> [] \<and> length (snd l) \<le> ORDERS \<and> sorted_wrt (<) (map o_sequence (snd l)) \<and>
     (\<forall>x \<in> set (snd l). 0 < o_quantity x \<and> 0 < o_sequence x)"

definition ladder_valid :: "nat \<Rightarrow> nat \<Rightarrow> Side \<Rightarrow> ladder \<Rightarrow> bool" where
  "ladder_valid LEVELS ORDERS side ls \<longleftrightarrow> length ls \<le> LEVELS \<and> sorted_wrt (before (descending side)) (map fst ls) \<and>
     (\<forall>l \<in> set ls. entry_valid ORDERS l)"

definition ladders_valid :: "nat \<Rightarrow> nat \<Rightarrow> ladder \<Rightarrow> ladder \<Rightarrow> bool" where
  "ladders_valid LEVELS ORDERS bids asks \<longleftrightarrow> ladder_valid LEVELS ORDERS Buy bids \<and> ladder_valid LEVELS ORDERS Sell asks \<and>
     lists_uncrossed (flat bids) (flat asks) \<and>
     distinct (map (\<lambda>e. o_id (snd e)) (flat bids @ flat asks)) \<and> distinct (map (\<lambda>e. o_sequence (snd e)) (flat bids @ flat asks))"

text \<open>The arrays of a state have the sizes of their Rust types.\<close>

definition book_state_shaped :: "nat \<Rightarrow> nat \<Rightarrow> BookState \<Rightarrow> bool" where
  "book_state_shaped LEVELS ORDERS s \<longleftrightarrow> length (bs_bids s) = LEVELS \<and> length (bs_asks s) = LEVELS \<and>
     (\<forall>l \<in> set (bs_bids s @ bs_asks s). length (bls_orders l) = ORDERS)"

definition ladder_entry :: "BookLevelState \<Rightarrow> PriceTicks \<times> Order list" where
  "ladder_entry l = (bls_price l, map order_view (used_orders l))"

lemma validate_level_orders_Ok: "validate_level_orders side p xs = Ok () \<longleftrightarrow>
    (\<forall>x \<in> set xs. bos_side x = side \<and> bos_price x = p \<and> 0 < bos_quantity x \<and> 0 < bos_sequence x)"
  by (induction xs) auto

lemma sequence_window_iff: "sequence_window xs \<longleftrightarrow> \<not> sorted_wrt (<) (map bos_sequence xs)"
proof (induction xs rule: sequence_window.induct)
  case (1 a b xs)
  then show ?case by (auto simp del: sorted_wrt.simps(2) simp: sorted_wrt2_simps)
qed simp_all

lemma order_state_view: "order_state side p (order_view x) = x \<longleftrightarrow> bos_side x = side \<and> bos_price x = p"
  by (cases x) (auto simp: order_state_def order_view_def)

lemma map_fix_iff: "xs = map f xs \<longleftrightarrow> (\<forall>x \<in> set xs. f x = x)"
  by (induction xs) auto

lemma level_state_iff:
  assumes "length (bls_orders l) = ORDERS" and "bls_order_count l \<le> ORDERS"
  shows "l = level_state ORDERS side (ladder_entry l) \<longleftrightarrow> bls_side l = side \<and>
    (\<forall>x \<in> set (used_orders l). bos_side x = side \<and> bos_price x = bls_price l) \<and>
    (\<forall>x \<in> set (drop (bls_order_count l) (bls_orders l)). x = EMPTY_BOOK_ORDER_STATE)"
proof -
  let ?c = "bls_order_count l" and ?f = "\<lambda>x. order_state side (bls_price l) (order_view x)"
  have c: "length (used_orders l) = ?c" using assms by (simp add: used_orders_def)
  have split: "bls_orders l = used_orders l @ drop ?c (bls_orders l)" by (simp add: used_orders_def)
  have dl: "length (drop ?c (bls_orders l)) = ORDERS - ?c" using assms by simp
  have "l = level_state ORDERS side (ladder_entry l) \<longleftrightarrow> bls_side l = side \<and>
      bls_orders l = map ?f (used_orders l) @ replicate (ORDERS - ?c) EMPTY_BOOK_ORDER_STATE"
    using c by (cases l) (auto simp: level_state_def ladder_entry_def o_def)
  also have "bls_orders l = map ?f (used_orders l) @ replicate (ORDERS - ?c) EMPTY_BOOK_ORDER_STATE \<longleftrightarrow>
      used_orders l = map ?f (used_orders l) \<and> drop ?c (bls_orders l) = replicate (ORDERS - ?c) EMPTY_BOOK_ORDER_STATE"
    by (subst split) simp
  also have "used_orders l = map ?f (used_orders l) \<longleftrightarrow> (\<forall>x \<in> set (used_orders l). ?f x = x)"
    by (rule map_fix_iff)
  also have "drop ?c (bls_orders l) = replicate (ORDERS - ?c) EMPTY_BOOK_ORDER_STATE \<longleftrightarrow>
      (\<forall>x \<in> set (drop ?c (bls_orders l)). x = EMPTY_BOOK_ORDER_STATE)"
    using dl by (metis in_set_replicate replicate_eqI)
  finally show ?thesis unfolding order_state_view by blast
qed

definition level_valid :: "nat \<Rightarrow> Side \<Rightarrow> BookLevelState \<Rightarrow> bool" where
  "level_valid ORDERS side l \<longleftrightarrow> l = level_state ORDERS side (ladder_entry l) \<and> entry_valid ORDERS (ladder_entry l)"

lemma validate_levels_Cons:
  assumes len: "length (bls_orders l) = ORDERS"
  shows "validate_levels ORDERS side prior (l # xs) = Ok () \<longleftrightarrow> level_valid ORDERS side l \<and>
    (\<forall>p. prior = Some p \<longrightarrow> before (descending side) p (bls_price l)) \<and> validate_levels ORDERS side (Some (bls_price l)) xs = Ok ()"
proof (cases "bls_order_count l = 0 \<or> bls_order_count l > ORDERS")
  case True
  have "\<not> level_valid ORDERS side l"
  proof
    assume v: "level_valid ORDERS side l"
    then have "bls_order_count l = length (snd (ladder_entry l))" unfolding level_valid_def level_state_def by (metis BookLevelState.select_convs(3))
    with v True show False by (auto simp: level_valid_def entry_valid_def)
  qed
  with True show ?thesis by auto
next
  case False
  then have c: "bls_order_count l \<le> ORDERS" "0 < bls_order_count l" by auto
  have ul: "length (used_orders l) = bls_order_count l" using c len by (simp add: used_orders_def)
  then have ne: "used_orders l \<noteq> []" using c(2) by auto
  have seqs: "o_sequence \<circ> order_view = bos_sequence" by (simp add: order_view_def fun_eq_iff)
  have v: "level_valid ORDERS side l \<longleftrightarrow> bls_side l = side \<and> 0 < bls_price l \<and>
      validate_level_orders side (bls_price l) (used_orders l) = Ok () \<and> \<not> sequence_window (used_orders l) \<and>
      (\<forall>x \<in> set (drop (bls_order_count l) (bls_orders l)). x = EMPTY_BOOK_ORDER_STATE)"
    unfolding level_valid_def level_state_iff [OF len c(1)] validate_level_orders_Ok sequence_window_iff entry_valid_def
    using ne ul c(1) by (auto simp: ladder_entry_def seqs) (auto simp: order_view_def)
  have prior: "(case prior of None \<Rightarrow> False | Some prior \<Rightarrow> (case side of Buy \<Rightarrow> prior \<le> bls_price l | Sell \<Rightarrow> prior \<ge> bls_price l)) \<longleftrightarrow>
      \<not> (\<forall>p. prior = Some p \<longrightarrow> before (descending side) p (bls_price l))"
    by (cases prior; cases side) (auto simp: before_def descending_def)
  show ?thesis unfolding v validate_levels.simps prior using False by (auto simp: and_then_unit)
qed

lemma validate_levels_Ok:
  assumes "\<forall>l \<in> set xs. length (bls_orders l) = ORDERS"
  shows "validate_levels ORDERS side prior xs = Ok () \<longleftrightarrow> (\<forall>l \<in> set xs. level_valid ORDERS side l) \<and>
    sorted_wrt (before (descending side)) ((case prior of None \<Rightarrow> [] | Some p \<Rightarrow> [p]) @ map bls_price xs)"
  using assms
proof (induction xs arbitrary: prior)
  case Nil
  then show ?case by (cases prior) simp_all
next
  case (Cons l xs)
  have trans: "transp (before d)" for d by (auto simp: transp_def before_def split: if_splits)
  have "sorted_wrt (before (descending side)) (p # bls_price l # map bls_price xs) \<longleftrightarrow>
      before (descending side) p (bls_price l) \<and> sorted_wrt (before (descending side)) (bls_price l # map bls_price xs)" for p
    by (rule sorted_wrt2 [OF trans])
  then show ?case using Cons by (cases prior) (auto simp: validate_levels_Cons simp del: validate_levels.simps sorted_wrt.simps(2))
qed

text \<open>The ladders of a state; a side passes validation exactly when its array is that of a valid ladder.\<close>

definition state_ladder :: "BookLevelState list \<Rightarrow> nat \<Rightarrow> ladder" where
  "state_ladder levels used = map ladder_entry (take used levels)"

lemma validate_side_Ok:
  assumes "length levels = LEVELS" "\<forall>l \<in> set levels. length (bls_orders l) = ORDERS" "used \<le> LEVELS"
  shows "validate_side ORDERS levels used side = Ok () \<and> (\<forall>l \<in> set (drop used levels). l = empty_book_level_state ORDERS) \<longleftrightarrow>
    levels = side_state LEVELS ORDERS side (state_ladder levels used) \<and> ladder_valid LEVELS ORDERS side (state_ladder levels used)"
proof -
  let ?u = "take used levels" and ?ls = "state_ladder levels used"
  have len: "length ?ls = used" using assms by (simp add: state_ladder_def)
  have prices: "map fst ?ls = map bls_price ?u" by (simp add: state_ladder_def ladder_entry_def o_def)
  have shaped: "\<forall>l \<in> set ?u. length (bls_orders l) = ORDERS" using assms(2) by (meson in_set_takeD)
  have "(\<forall>l \<in> set ?u. l = level_state ORDERS side (ladder_entry l)) \<longleftrightarrow> ?u = map (level_state ORDERS side) ?ls"
    unfolding state_ladder_def map_map o_def by (subst map_fix_iff) auto
  moreover have "(\<forall>l \<in> set (drop used levels). l = empty_book_level_state ORDERS) \<longleftrightarrow>
      drop used levels = replicate (LEVELS - used) (empty_book_level_state ORDERS)"
    using assms(1) by (metis in_set_replicate length_drop replicate_eqI)
  moreover have "levels = side_state LEVELS ORDERS side ?ls \<longleftrightarrow>
      ?u = map (level_state ORDERS side) ?ls \<and> drop used levels = replicate (LEVELS - used) (empty_book_level_state ORDERS)"
  proof -
    have "levels = ?u @ drop used levels" by simp
    then have "levels = side_state LEVELS ORDERS side ?ls \<longleftrightarrow> ?u @ drop used levels = side_state LEVELS ORDERS side ?ls" by metis
    also have "\<dots> \<longleftrightarrow> ?u = map (level_state ORDERS side) ?ls \<and> drop used levels = replicate (LEVELS - used) (empty_book_level_state ORDERS)"
      unfolding side_state_def len by (rule append_eq_append_conv) (simp add: len assms)
    finally show ?thesis .
  qed
  moreover have "validate_side ORDERS levels used side = Ok () \<longleftrightarrow>
      (\<forall>l \<in> set ?u. l = level_state ORDERS side (ladder_entry l)) \<and> ladder_valid LEVELS ORDERS side ?ls"
    unfolding validate_side_def validate_levels_Ok [OF shaped] ladder_valid_def prices len
    using assms(3) by (auto simp: level_valid_def state_ladder_def)
  ultimately show ?thesis by blast
qed

lemma used_orders_state: "length (snd l) \<le> ORDERS \<Longrightarrow> used_orders (level_state ORDERS side l) = map (order_state side (fst l)) (snd l)"
  by (simp add: used_orders_def level_state_def)

lemma take_side_state: "take (length ls) (side_state LEVELS ORDERS side ls) = map (level_state ORDERS side) ls"
  by (simp add: side_state_def)

lemma used_levels_state: "used_levels (ladders_state LEVELS ORDERS inst bids asks) =
    map (level_state ORDERS Buy) bids @ map (level_state ORDERS Sell) asks"
  by (simp add: used_levels_def ladders_state_def take_side_state)

lemma used_orders_flat:
  assumes "\<forall>l \<in> set ls. length (snd l) \<le> ORDERS"
  shows "map order_view (concat (map used_orders (map (level_state ORDERS side) ls))) = map snd (flat ls)"
  using assms by (induction ls) (simp_all add: used_orders_state o_def)

lemma count_key_distinct: "(\<forall>x \<in> set xs. length (filter (\<lambda>y. f y = f x) xs) = 1) \<longleftrightarrow> distinct (map f xs)"
proof (induction xs)
  case (Cons a xs)
  have z: "length (filter (\<lambda>y. f y = f a) xs) = 0 \<longleftrightarrow> f a \<notin> f ` set xs"
    unfolding length_0_conv filter_empty_conv by (metis imageE imageI)
  show ?case
  proof (cases "f a \<in> f ` set xs")
    case True
    with z have "length (filter (\<lambda>y. f y = f a) (a # xs)) \<noteq> 1" by simp
    then have "\<not> (\<forall>x \<in> set (a # xs). length (filter (\<lambda>y. f y = f x) (a # xs)) = 1)" by (metis list.set_intros(1))
    with True show ?thesis by simp
  next
    case False
    then have "f a \<noteq> f x" if "x \<in> set xs" for x using that by auto
    then have "length (filter (\<lambda>y. f y = f x) (a # xs)) = length (filter (\<lambda>y. f y = f x) xs)" if "x \<in> set xs" for x
      using that by simp
    with False z Cons show ?thesis by simp
  qed
qed simp

lemma validate_unique_orders_Ok:
  "validate_unique_orders s xs = Ok () \<longleftrightarrow> (\<forall>x \<in> set xs.
    length (filter (\<lambda>y. bos_order_id y = bos_order_id x) (concat (map used_orders (used_levels s)))) = 1 \<and>
    length (filter (\<lambda>y. bos_sequence y = bos_sequence x) (concat (map used_orders (used_levels s)))) = 1)"
proof (induction xs)
  case (Cons x xs)
  have "sum_list (map (\<lambda>l. length (filter P (used_orders l))) ls) = length (filter P (concat (map used_orders ls)))" for P ls
    by (induction ls) auto
  with Cons show ?case by (simp add: Let_def)
qed simp

lemma validate_unique_ids_Ok:
  assumes "\<forall>l \<in> set (bids @ asks). length (snd l) \<le> ORDERS"
  shows "validate_unique_ids (ladders_state LEVELS ORDERS inst bids asks) = Ok () \<longleftrightarrow>
    distinct (map (\<lambda>e. o_id (snd e)) (flat bids @ flat asks)) \<and> distinct (map (\<lambda>e. o_sequence (snd e)) (flat bids @ flat asks))"
proof -
  let ?xs = "concat (map used_orders (used_levels (ladders_state LEVELS ORDERS inst bids asks)))"
  have v: "map order_view ?xs = map snd (flat bids @ flat asks)"
    unfolding used_levels_state map_append concat_append using assms used_orders_flat by (metis (no_types) Un_iff map_append set_append)
  have "map bos_order_id ?xs = map o_id (map order_view ?xs)" "map bos_sequence ?xs = map o_sequence (map order_view ?xs)"
    by (simp_all add: order_view_def o_def)
  then have m: "map bos_order_id ?xs = map (\<lambda>e. o_id (snd e)) (flat bids @ flat asks)"
    "map bos_sequence ?xs = map (\<lambda>e. o_sequence (snd e)) (flat bids @ flat asks)" unfolding v by (simp_all add: o_def)
  show ?thesis unfolding validate_unique_ids_def validate_unique_orders_Ok m [symmetric] count_key_distinct [symmetric] by blast
qed

lemma flat_prices: "(\<forall>l \<in> set ls. snd l \<noteq> []) \<Longrightarrow> fst ` set (flat ls) = fst ` set ls"
proof (induction ls)
  case (Cons l ls)
  then show ?case by (cases "snd l") (auto simp: image_Un image_image)
qed simp

text \<open>On valid ladders comparing the two best prices decides whether the sides cross.\<close>

lemma best_prices_uncrossed:
  assumes "ladder_valid LEVELS ORDERS Buy bids" "ladder_valid LEVELS ORDERS Sell asks"
  shows "lists_uncrossed (flat bids) (flat asks) \<longleftrightarrow> bids = [] \<or> asks = [] \<or> fst (hd bids) < fst (hd asks)"
proof -
  have ne: "\<forall>l \<in> set bids. snd l \<noteq> []" "\<forall>l \<in> set asks. snd l \<noteq> []"
    using assms by (auto simp: ladder_valid_def entry_valid_def)
  have "lists_uncrossed (flat bids) (flat asks) \<longleftrightarrow> (\<forall>p \<in> fst ` set (flat bids). \<forall>q \<in> fst ` set (flat asks). p < q)"
    by (auto simp: lists_uncrossed_def)
  also have "\<dots> \<longleftrightarrow> (\<forall>l \<in> set bids. \<forall>m \<in> set asks. fst l < fst m)" unfolding flat_prices [OF ne(1)] flat_prices [OF ne(2)] by auto
  also have "\<dots> \<longleftrightarrow> bids = [] \<or> asks = [] \<or> fst (hd bids) < fst (hd asks)"
  proof (cases bids; cases asks)
    fix l ls m ms
    assume c: "bids = l # ls" "asks = m # ms"
    have "fst l' \<le> fst l" if "l' \<in> set bids" for l' using assms(1) that c by (auto simp: ladder_valid_def descending_def before_def)
    moreover have "fst m \<le> fst m'" if "m' \<in> set asks" for m' using assms(2) that c by (auto simp: ladder_valid_def descending_def before_def)
    ultimately show ?thesis using c by (force intro: order_le_less_trans order_less_le_trans)
  qed auto
  finally show ?thesis .
qed

definition state_bids :: "BookState \<Rightarrow> ladder" where
  "state_bids s = state_ladder (bs_bids s) (bs_bid_level_count s)"

definition state_asks :: "BookState \<Rightarrow> ladder" where
  "state_asks s = state_ladder (bs_asks s) (bs_ask_level_count s)"

definition book_state_valid :: "nat \<Rightarrow> nat \<Rightarrow> BookState \<Rightarrow> bool" where
  "book_state_valid LEVELS ORDERS s \<longleftrightarrow> s = ladders_state LEVELS ORDERS (bs_instrument s) (state_bids s) (state_asks s) \<and>
     ladders_valid LEVELS ORDERS (state_bids s) (state_asks s)"

lemma ladders_state_sel [simp]:
  "bs_instrument (ladders_state LEVELS ORDERS inst bids asks) = inst"
  "bs_bid_level_count (ladders_state LEVELS ORDERS inst bids asks) = length bids"
  "bs_ask_level_count (ladders_state LEVELS ORDERS inst bids asks) = length asks"
  "bs_bids (ladders_state LEVELS ORDERS inst bids asks) = side_state LEVELS ORDERS Buy bids"
  "bs_asks (ladders_state LEVELS ORDERS inst bids asks) = side_state LEVELS ORDERS Sell asks"
  by (simp_all add: ladders_state_def)

lemma ladder_entry_state: "length (snd l) \<le> ORDERS \<Longrightarrow> ladder_entry (level_state ORDERS side l) = l"
  by (simp add: ladder_entry_def used_orders_state o_def) (simp add: level_state_def)

lemma state_ladder_state:
  "\<forall>l \<in> set ls. length (snd l) \<le> ORDERS \<Longrightarrow> state_ladder (side_state LEVELS ORDERS side ls) (length ls) = ls"
  unfolding state_ladder_def take_side_state by (induction ls) (simp_all add: ladder_entry_state)

lemma ladders_state_valid:
  assumes "ladders_valid LEVELS ORDERS bids asks"
  shows "book_state_valid LEVELS ORDERS (ladders_state LEVELS ORDERS inst bids asks)"
    and "state_bids (ladders_state LEVELS ORDERS inst bids asks) = bids" "state_asks (ladders_state LEVELS ORDERS inst bids asks) = asks"
proof -
  have "\<forall>l \<in> set bids. length (snd l) \<le> ORDERS" "\<forall>l \<in> set asks. length (snd l) \<le> ORDERS"
    using assms by (auto simp: ladders_valid_def ladder_valid_def entry_valid_def)
  then show b: "state_bids (ladders_state LEVELS ORDERS inst bids asks) = bids" "state_asks (ladders_state LEVELS ORDERS inst bids asks) = asks"
    by (simp_all add: state_bids_def state_asks_def state_ladder_state)
  show "book_state_valid LEVELS ORDERS (ladders_state LEVELS ORDERS inst bids asks)"
    using assms by (simp add: book_state_valid_def b)
qed

lemma book_validate_state_Ok:
  assumes shaped: "book_state_shaped LEVELS ORDERS s"
  shows "book_validate_state LEVELS ORDERS s = Ok () \<longleftrightarrow> book_state_valid LEVELS ORDERS s"
proof (cases "bs_bid_level_count s > LEVELS \<or> bs_ask_level_count s > LEVELS")
  case True
  have "\<not> book_state_valid LEVELS ORDERS s"
  proof
    assume v: "book_state_valid LEVELS ORDERS s"
    then have "bs_bid_level_count s = length (state_bids s)" "bs_ask_level_count s = length (state_asks s)"
      unfolding book_state_valid_def by (metis ladders_state_sel(2), metis ladders_state_sel(3))
    with v True show False by (auto simp: book_state_valid_def ladders_valid_def ladder_valid_def)
  qed
  with True show ?thesis by (simp add: book_validate_state_def)
next
  case False
  let ?B = "state_bids s" and ?A = "state_asks s"
  have n: "length ?B = bs_bid_level_count s" "length ?A = bs_ask_level_count s"
    using False shaped by (simp_all add: state_bids_def state_asks_def state_ladder_def book_state_shaped_def)
  have vb: "validate_side ORDERS (bs_bids s) (bs_bid_level_count s) Buy = Ok () \<and>
      (\<forall>l \<in> set (drop (bs_bid_level_count s) (bs_bids s)). l = empty_book_level_state ORDERS) \<longleftrightarrow>
      bs_bids s = side_state LEVELS ORDERS Buy ?B \<and> ladder_valid LEVELS ORDERS Buy ?B"
    unfolding state_bids_def by (rule validate_side_Ok) (use shaped False in \<open>auto simp: book_state_shaped_def\<close>)
  have va: "validate_side ORDERS (bs_asks s) (bs_ask_level_count s) Sell = Ok () \<and>
      (\<forall>l \<in> set (drop (bs_ask_level_count s) (bs_asks s)). l = empty_book_level_state ORDERS) \<longleftrightarrow>
      bs_asks s = side_state LEVELS ORDERS Sell ?A \<and> ladder_valid LEVELS ORDERS Sell ?A"
    unfolding state_asks_def by (rule validate_side_Ok) (use shaped False in \<open>auto simp: book_state_shaped_def\<close>)
  have eq: "s = ladders_state LEVELS ORDERS (bs_instrument s) ?B ?A \<longleftrightarrow>
      bs_bids s = side_state LEVELS ORDERS Buy ?B \<and> bs_asks s = side_state LEVELS ORDERS Sell ?A"
    using n by (cases s) (auto simp: ladders_state_def)
  show ?thesis
  proof (cases "s = ladders_state LEVELS ORDERS (bs_instrument s) ?B ?A \<and> ladder_valid LEVELS ORDERS Buy ?B \<and> ladder_valid LEVELS ORDERS Sell ?A")
    case True
    then have small: "\<forall>l \<in> set (?B @ ?A). length (snd l) \<le> ORDERS" by (auto simp: ladder_valid_def entry_valid_def)
    have u: "validate_unique_ids s = Ok () \<longleftrightarrow> distinct (map (\<lambda>e. o_id (snd e)) (flat ?B @ flat ?A)) \<and>
        distinct (map (\<lambda>e. o_sequence (snd e)) (flat ?B @ flat ?A))"
      using validate_unique_ids_Ok [OF small, of LEVELS "bs_instrument s"] True by metis
    have c: "(bs_bid_level_count s > 0 \<and> bs_ask_level_count s > 0 \<and> (case (bs_bids s, bs_asks s) of
          (bid # _, ask # _) \<Rightarrow> bls_price bid \<ge> bls_price ask | _ \<Rightarrow> False)) \<longleftrightarrow> \<not> lists_uncrossed (flat ?B) (flat ?A)"
      unfolding best_prices_uncrossed [OF True [THEN conjunct2, THEN conjunct1] True [THEN conjunct2, THEN conjunct2]]
      using True eq n by (cases ?B; cases ?A) (auto simp: side_state_def level_state_def)
    show ?thesis unfolding book_validate_state_def book_state_valid_def ladders_valid_def c
      using True False vb va eq u by (auto simp: and_then_unit)
  next
    case False2: False
    then have "\<not> book_state_valid LEVELS ORDERS s" by (auto simp: book_state_valid_def ladders_valid_def)
    moreover have "book_validate_state LEVELS ORDERS s \<noteq> Ok ()"
      using False2 eq vb va False unfolding book_validate_state_def by (auto simp: and_then_unit)
    ultimately show ?thesis by simp
  qed
qed

section \<open>Restoring rests the orders one after another\<close>

definition push_on :: "OrderBook \<Rightarrow> Side \<Rightarrow> nat \<Rightarrow> RestingOrder \<Rightarrow> OrderBook option" where
  "push_on b side i r =
     do {
       level \<leftarrow> level_at b side i;
       (level, slot) \<leftarrow> push_tail level r;
       (case oi_insert (ob_LEVELS b) (ob_ORDERS b) (ob_index b) (rst_id r) \<lparr>ol_side = side, ol_level_index = i, ol_slot = slot\<rparr> of
          Err _ \<Rightarrow> None
        | Ok (index_slot, index) \<Rightarrow>
            do {
              live \<leftarrow> get_live level slot;
              Some ((put_level b side i (Some (put_live level slot (live\<lparr>rst_index_slot := index_slot\<rparr>))))\<lparr>ob_index := index\<rparr>)
            })
     }"

lemma rest_push_existing:
  "lindex_find (side_index b side) p (descending side) = Some i \<Longrightarrow> rest_at_tail b side p r = push_on b side i r"
  by (simp add: rest_at_tail_def push_on_def)

lemma rest_push_new:
  "lindex_find (side_index b side) p (descending side) = None \<Longrightarrow>
   lindex_insert (side_index b side) p (descending side) = Some (Some (ix, i)) \<Longrightarrow> i < length (side_levels b side) \<Longrightarrow>
   rest_at_tail b side p r = push_on (put_level (set_side_index b side ix) side i (Some (level_new (ob_ORDERS b) p))) side i r"
  by (simp add: rest_at_tail_def push_on_def)

definition rest_of_state :: "BookOrderState \<Rightarrow> RestingOrder" where
  "rest_of_state x = resting_order (bos_order_id x) (bos_account_id x) (bos_quantity x) (bos_sequence x)"

lemma rest_of_state_sel [simp]:
  "rst_id (rest_of_state x) = bos_order_id x" "rst_quantity (rest_of_state x) = bos_quantity x" "view (rest_of_state x) = order_view x"
  by (simp_all add: rest_of_state_def resting_order_def view_def order_view_def)

lemma restore_order_push:
  assumes "push_on b side i (rest_of_state x) = Some b'"
  shows "restore_order b side i x = Some (Ok b')" and "side_index b' side = side_index b side"
proof -
  let ?ins = "\<lambda>s. oi_insert (ob_LEVELS b) (ob_ORDERS b) (ob_index b) (bos_order_id x) \<lparr>ol_side = side, ol_level_index = i, ol_slot = s\<rparr>"
  from assms obtain L where L: "nth_opt (side_levels b side) i = Some (Some L)"
    by (auto simp: push_on_def level_at_def bind_eq_Some)
  with assms obtain L1 s where s: "push_tail L (rest_of_state x) = Some (L1, s)"
    by (cases "push_tail L (rest_of_state x)") (auto simp: push_on_def level_at_def)
  with L assms obtain j ix where ins: "?ins s = Ok (j, ix)"
    by (cases "?ins s") (auto simp: push_on_def level_at_def)
  with L s assms obtain live where live: "get_live L1 s = Some live"
    by (cases "get_live L1 s") (auto simp: push_on_def level_at_def)
  have "b' = (put_level b side i (Some (put_live L1 s (live\<lparr>rst_index_slot := j\<rparr>))))\<lparr>ob_index := ix\<rparr>"
    using assms L s ins live by (simp add: push_on_def level_at_def)
  with L s ins live show "restore_order b side i x = Some (Ok b')" "side_index b' side = side_index b side"
    by (simp_all add: restore_order_def Let_def rest_of_state_def)
qed

lemma enqueue_last: "\<forall>e \<in> set xs. \<not> before d p (fst e) \<Longrightarrow> enqueue d p x xs = xs @ [(p, x)]"
  by (simp add: enqueue_def takeWhile_eq_all_conv [THEN iffD2] dropWhile_eq_Nil_conv [THEN iffD2])

text \<open>Resting one order behind everything on its side.\<close>

definition appended :: "OrderBook \<Rightarrow> OrderBook \<Rightarrow> Side \<Rightarrow> plist \<Rightarrow> bool" where
  "appended b b' side xs \<longleftrightarrow> book_wf b' \<and> same_params b b' \<and> book_list b' side = book_list b side @ xs \<and>
     (\<forall>side'. side' \<noteq> side \<longrightarrow> book_list b' side' = book_list b side')"

lemma appended_trans: "appended a b side xs \<Longrightarrow> appended b c side ys \<Longrightarrow> appended a c side (xs @ ys)"
  by (auto simp: appended_def intro: same_params_trans)

lemma restore_orders_ok:
  assumes "book_wf b" and "0 < ob_ORDERS b" "0 < p" and "lindex_find (side_index b side) p (descending side) = Some i"
    and "\<forall>e \<in> set (book_list b side). \<not> before (descending side) p (fst e)"
    and "\<forall>x \<in> set xs. 0 < bos_quantity x \<and> bos_order_id x \<notin> ids (book_list b Buy) \<union> ids (book_list b Sell)"
    and "distinct (map bos_order_id xs)" and "depth p (book_list b side) + length xs \<le> ob_ORDERS b"
  shows "\<exists>b'. restore_orders b side i xs = Some (Ok b') \<and> appended b b' side (map (\<lambda>x. (p, order_view x)) xs)"
  using assms
proof (induction xs arbitrary: b)
  case Nil
  then show ?case by (simp add: appended_def)
next
  case (Cons x xs)
  note sides = wf_sides [OF Cons.prems(1)]
  have fresh: "fresh_id b (rst_id (rest_of_state x))" using Cons.prems(6) by (simp add: fresh_id_iff [OF sides])
  have present: "0 < depth p (book_list b side)" using sides
    by (cases rule: level_lookup [where side = side and p = p]) (use Cons.prems(4) in auto)
  then have room: "rest_check (book_abs b) side p = Ok ()" using Cons.prems(8) by (simp add: rest_check_def)
  have q: "0 < rst_quantity (rest_of_state x)" using Cons.prems(6) by simp
  from rest_spec [OF Cons.prems(1-3) q fresh room] obtain b1 where
    b1: "rest_at_tail b side p (rest_of_state x) = Some b1" "book_wf b1" "same_params b b1"
      "book_list b1 side = enqueue (descending side) p (order_view x) (book_list b side)"
      "\<And>side'. side' \<noteq> side \<Longrightarrow> book_list b1 side' = book_list b side'" by auto
  have push: "push_on b side i (rest_of_state x) = Some b1" using b1(1) rest_push_existing [OF Cons.prems(4)] by simp
  have l1: "book_list b1 side = book_list b side @ [(p, order_view x)]" using b1(4) enqueue_last [OF Cons.prems(5)] by simp
  have ids1: "ids (book_list b1 Buy) \<union> ids (book_list b1 Sell) = insert (bos_order_id x) (ids (book_list b Buy) \<union> ids (book_list b Sell))"
    using l1 b1(5) by (cases side) (auto simp: ids_def order_view_def)
  have par: "ob_ORDERS b1 = ob_ORDERS b" using b1(3) by (simp add: same_params_def)
  have before_irrefl: "\<not> before d p p" for d by (simp add: before_def)
  have "\<exists>b'. restore_orders b1 side i xs = Some (Ok b') \<and> appended b1 b' side (map (\<lambda>x. (p, order_view x)) xs)"
    by (rule Cons.IH) (use Cons.prems b1(2) par restore_order_push(2) [OF push] l1 ids1 before_irrefl in \<open>auto simp: depth_def image_iff\<close>)
  moreover have "appended b b1 side [(p, order_view x)]" using b1 l1 by (simp add: appended_def)
  ultimately show ?case using restore_order_push(1) [OF push] appended_trans by fastforce
qed

lemma restore_level_ok:
  assumes wf: "book_wf b" and pos: "0 < ob_ORDERS b" "0 < bls_price l"
    and last: "\<forall>e \<in> set (book_list b (bls_side l)). before (descending (bls_side l)) (fst e) (bls_price l)"
    and orders: "used_orders l \<noteq> []" "length (used_orders l) \<le> ob_ORDERS b" "distinct (map bos_order_id (used_orders l))"
      "\<forall>x \<in> set (used_orders l). 0 < bos_quantity x \<and> bos_order_id x \<notin> ids (book_list b Buy) \<union> ids (book_list b Sell)"
    and room: "level_count (book_list b (bls_side l)) < ob_LEVELS b"
  shows "\<exists>b'. restore_level b l = Some (Ok b') \<and> appended b b' (bls_side l) (map (\<lambda>x. (bls_price l, order_view x)) (used_orders l))"
proof -
  let ?side = "bls_side l" and ?p = "bls_price l"
  note sides = wf_sides [OF wf]
  have d: "(?side = Buy) = descending ?side" by (simp add: descending_def)
  obtain x xs where x: "used_orders l = x # xs" using orders(1) by (cases "used_orders l") auto
  have absent: "?p \<notin> fst ` set (book_list b ?side)" using last by (auto simp: before_def split: if_splits)
  then have new: "?p \<notin> fst ` set (lindex_iter (side_index b ?side))" by (simp add: book_list_prices [OF sides])
  have nofind: "lindex_find (side_index b ?side) ?p (descending ?side) = None"
    using lindex_find_eq [OF side_iter_facts(1) [OF sides], of ?side ?p] new by (simp add: map_of_eq_None_iff)
  have dp: "depth ?p (book_list b ?side) = 0" using absent by (simp add: depth_zero)
  have notfull: "\<not> lindex_is_full (side_index b ?side)" using room is_full_level_count(1) [OF sides, of ?side] by simp
  then obtain ix i where I: "lindex_insert (side_index b ?side) ?p (descending ?side) = Some (Some (ix, i))"
    "lindex_inv (ob_LEVELS b) (descending ?side) ix" "i < ob_LEVELS b"
    "lindex_iter ix = lower (descending ?side) ?p (lindex_iter (side_index b ?side)) @ (?p, i) # upper (descending ?side) ?p (lindex_iter (side_index b ?side))"
    using lindex_insert_correct [OF side_iter_facts(1) [OF sides] new] by auto
  have i: "i < length (side_levels b ?side)" using I(3) sides_wfD [OF sides, of ?side] by (simp add: side_inv_def)
  have find: "lindex_find ix ?p (descending ?side) = Some i"
    unfolding lindex_find_eq [OF I(2)] by (rule map_of_is_SomeI [OF lindex_distinct [OF I(2)]]) (simp add: I(4))
  let ?b1 = "put_level (set_side_index b ?side ix) ?side i (Some (level_new (ob_ORDERS b) ?p))"
  have check: "rest_check (book_abs b) ?side ?p = Ok ()" using dp room by (simp add: rest_check_def)
  have fresh: "fresh_id b (rst_id (rest_of_state x))" using orders(4) x by (simp add: fresh_id_iff [OF sides])
  have q: "0 < rst_quantity (rest_of_state x)" using orders(4) x by simp
  from rest_spec [OF wf pos q fresh check] obtain b2 where
    b2: "rest_at_tail b ?side ?p (rest_of_state x) = Some b2" "book_wf b2" "same_params b b2"
      "book_list b2 ?side = enqueue (descending ?side) ?p (order_view x) (book_list b ?side)"
      "\<And>side'. side' \<noteq> ?side \<Longrightarrow> book_list b2 side' = book_list b side'" by auto
  have push: "push_on ?b1 ?side i (rest_of_state x) = Some b2" using b2(1) rest_push_new [OF nofind I(1) i] by simp
  have behind: "\<forall>e \<in> set (book_list b ?side). \<not> before (descending ?side) ?p (fst e)" using last by (auto dest: before_asym)
  have l2: "book_list b2 ?side = book_list b ?side @ [(?p, order_view x)]" using b2(4) enqueue_last [OF behind] by simp
  have app: "appended b b2 ?side [(?p, order_view x)]" using b2 l2 by (simp add: appended_def)
  have ids2: "ids (book_list b2 Buy) \<union> ids (book_list b2 Sell) = insert (bos_order_id x) (ids (book_list b Buy) \<union> ids (book_list b Sell))"
    using l2 b2(5) by (cases ?side) (auto simp: ids_def order_view_def)
  have par: "ob_ORDERS b2 = ob_ORDERS b" using b2(3) by (simp add: same_params_def)
  have irrefl: "\<not> before d' ?p ?p" for d' by (simp add: before_def)
  have "\<exists>b'. restore_orders b2 ?side i xs = Some (Ok b') \<and> appended b2 b' ?side (map (\<lambda>x. (?p, order_view x)) xs)"
    by (rule restore_orders_ok)
      (use b2(2) par pos restore_order_push(2) [OF push] find l2 ids2 irrefl behind orders x dp in \<open>auto simp: depth_def image_iff\<close>)
  then obtain b' where b': "restore_orders b2 ?side i xs = Some (Ok b')" "appended b2 b' ?side (map (\<lambda>x. (?p, order_view x)) xs)" by blast
  have "restore_level b l = Some (Ok b')"
    using I(1) i b'(1) restore_order_push(1) [OF push] by (simp add: restore_level_def d x)
  with appended_trans [OF app b'(2)] x show ?thesis by simp
qed

text \<open>Restoring the levels of a valid ladder behind the levels restored before.\<close>

lemma level_count_less:
  assumes "sides_wf b" and "book_list b side = flat ls" and "\<forall>l \<in> set ls. snd l \<noteq> []" and "length ls < LEVELS"
  shows "level_count (book_list b side) < LEVELS"
proof -
  have "level_count (book_list b side) \<le> length ls"
    unfolding level_count_card assms(2) flat_prices [OF assms(3)] by (metis card_length length_map list.set_map)
  with assms(4) show ?thesis by simp
qed

lemma restore_levels_ok:
  assumes "book_wf b" and "0 < ob_ORDERS b" and "book_list b side = flat pre"
    and "ladder_valid (ob_LEVELS b) (ob_ORDERS b) side (pre @ ls)"
    and "distinct (map (\<lambda>e. o_id (snd e)) (flat ls))" and "ids (flat ls) \<inter> (ids (book_list b Buy) \<union> ids (book_list b Sell)) = {}"
  shows "\<exists>b'. restore_levels b (map (level_state (ob_ORDERS b) side) ls) = Some (Ok b') \<and> appended b b' side (flat ls)"
  using assms
proof (induction ls arbitrary: b pre)
  case Nil
  then show ?case by (simp add: appended_def)
next
  case (Cons l ls)
  let ?l = "level_state (ob_ORDERS b) side l"
  have v: "entry_valid (ob_ORDERS b) l" "\<forall>m \<in> set pre. entry_valid (ob_ORDERS b) m"
    "sorted_wrt (before (descending side)) (map fst pre @ fst l # map fst ls)" "length pre < ob_LEVELS b"
    using Cons.prems(4) by (auto simp: ladder_valid_def)
  have ne: "\<forall>m \<in> set pre. snd m \<noteq> []" using v(2) by (auto simp: entry_valid_def)
  have sel: "bls_side ?l = side" "bls_price ?l = fst l" "used_orders ?l = map (order_state side (fst l)) (snd l)"
    using v(1) by (simp_all add: used_orders_def entry_valid_def level_state_def)
  have prices: "fst ` set (book_list b side) = fst ` set pre" by (simp add: Cons.prems(3) flat_prices [OF ne])
  have last: "before (descending side) (fst e) (fst l)" if "e \<in> set (book_list b side)" for e
  proof -
    have "fst e \<in> fst ` set pre" using that prices by blast
    with v(3) show ?thesis by (auto simp: sorted_wrt_append)
  qed
  have fl: "flat (l # ls) = map (Pair (fst l)) (snd l) @ flat ls" by simp
  have ids_l: "ids (flat (l # ls)) = o_id ` set (snd l) \<union> ids (flat ls)" by (simp add: ids_def image_Un image_image)
  have fresh: "o_id x \<notin> ids (book_list b Buy) \<union> ids (book_list b Sell)" if "x \<in> set (snd l)" for x
    using Cons.prems(6) that unfolding ids_l by blast
  have dist: "distinct (map o_id (snd l))" "o_id ` set (snd l) \<inter> ids (flat ls) = {}" "distinct (map (\<lambda>e. o_id (snd e)) (flat ls))"
    using Cons.prems(5) unfolding fl by (auto simp: ids_def o_def)
  have room: "level_count (book_list b side) < ob_LEVELS b"
    by (rule level_count_less [OF wf_sides [OF Cons.prems(1)] Cons.prems(3) ne v(4)])
  have o: "\<exists>b'. restore_level b ?l = Some (Ok b') \<and> appended b b' (bls_side ?l) (map (\<lambda>x. (bls_price ?l, order_view x)) (used_orders ?l))"
    by (rule restore_level_ok [OF Cons.prems(1,2)])
      (use v(1) last fresh dist(1) room in \<open>auto simp: sel entry_valid_def order_state_def o_def\<close>)
  have view: "map (\<lambda>x. (fst l, order_view x)) (map (order_state side (fst l)) (snd l)) = map (Pair (fst l)) (snd l)" by simp
  from o obtain b1 where b1: "restore_level b ?l = Some (Ok b1)" "appended b b1 side (map (Pair (fst l)) (snd l))"
    unfolding sel view by blast
  have par: "ob_ORDERS b1 = ob_ORDERS b" "ob_LEVELS b1 = ob_LEVELS b" using b1(2) by (simp_all add: appended_def same_params_def)
  have list: "book_list b1 side = flat (pre @ [l])" using b1(2) Cons.prems(3) by (simp add: appended_def)
  have ids1: "ids (book_list b1 Buy) \<union> ids (book_list b1 Sell) = o_id ` set (snd l) \<union> (ids (book_list b Buy) \<union> ids (book_list b Sell))"
    using b1(2) by (cases side) (auto simp: appended_def ids_def image_Un image_image)
  have "\<exists>b'. restore_levels b1 (map (level_state (ob_ORDERS b1) side) ls) = Some (Ok b') \<and> appended b1 b' side (flat ls)"
    by (rule Cons.IH [OF _ _ list]) (use b1(2) Cons.prems dist ids1 ids_l par in \<open>auto simp: appended_def\<close>)
  with b1 appended_trans [OF b1(2)] show ?case unfolding par by (auto simp: fl)
qed

lemma restore_levels_append: "restore_levels b (xs @ ys) =
    (case restore_levels b xs of Some (Ok b') \<Rightarrow> restore_levels b' ys | r \<Rightarrow> r)"
  by (induction xs arbitrary: b) (auto split: option.splits result.splits)

lemma book_from_state_valid:
  assumes cap: "LEVELS * ORDERS * 4 \<le> 2 ^ 32" "0 < ORDERS" and valid: "book_state_valid LEVELS ORDERS s"
    and shaped: "book_state_shaped LEVELS ORDERS s"
  shows "\<exists>b. book_from_state LEVELS ORDERS (bs_instrument s) s = Some (Ok b) \<and> book_ok b \<and> ob_LEVELS b = LEVELS \<and> ob_ORDERS b = ORDERS \<and>
    ob_instrument b = bs_instrument s \<and> book_list b Buy = flat (state_bids s) \<and> book_list b Sell = flat (state_asks s)"
proof -
  let ?B = "state_bids s" and ?A = "state_asks s" and ?b0 = "book_new LEVELS ORDERS (bs_instrument s)"
  have s: "s = ladders_state LEVELS ORDERS (bs_instrument s) ?B ?A" and v: "ladders_valid LEVELS ORDERS ?B ?A"
    using valid by (simp_all add: book_state_valid_def)
  have u: "used_levels s = map (level_state ORDERS Buy) ?B @ map (level_state ORDERS Sell) ?A"
    using used_levels_state [of LEVELS ORDERS "bs_instrument s" ?B ?A] s by metis
  note new = book_ok_new [OF cap, of "bs_instrument s"]
  have b0: "book_wf ?b0" "ob_ORDERS ?b0 = ORDERS" "ob_LEVELS ?b0 = LEVELS" using new(1) by (simp_all add: book_ok_def book_new_def)
  have d: "distinct (map (\<lambda>e. o_id (snd e)) (flat ?B))" "distinct (map (\<lambda>e. o_id (snd e)) (flat ?A))" "ids (flat ?A) \<inter> ids (flat ?B) = {}"
    using v by (auto simp: ladders_valid_def ids_def)
  have lv: "ladder_valid LEVELS ORDERS Buy ?B" "ladder_valid LEVELS ORDERS Sell ?A" "lists_uncrossed (flat ?B) (flat ?A)"
    using v by (simp_all add: ladders_valid_def)
  have none: "book_list ?b0 side = flat []" for side using new(2) by simp
  have i0: "ids (book_list ?b0 side) = {}" for side using new(2) by (simp add: ids_def)
  from restore_levels_ok [OF b0(1) _ none [of Buy], of ?B] b0 cap lv(1) d(1) i0 obtain b1 where
    b1: "restore_levels ?b0 (map (level_state ORDERS Buy) ?B) = Some (Ok b1)" "appended ?b0 b1 Buy (flat ?B)" by auto
  then have w1: "book_wf b1" "ob_ORDERS b1 = ORDERS" "ob_LEVELS b1 = LEVELS" "book_list b1 Buy = flat ?B" "book_list b1 Sell = []"
    "ob_instrument b1 = bs_instrument s" using new(2) b0 by (auto simp: appended_def same_params_def book_new_def)
  have none1: "book_list b1 Sell = flat []" using w1 by simp
  have i1: "ids (flat ?A) \<inter> (ids (book_list b1 Buy) \<union> ids (book_list b1 Sell)) = {}" using w1 d(3) by (simp add: ids_def)
  from restore_levels_ok [OF w1(1) _ none1, of ?A] w1 cap lv(2) d(2) i1 obtain b2 where
    b2: "restore_levels b1 (map (level_state ORDERS Sell) ?A) = Some (Ok b2)" "appended b1 b2 Sell (flat ?A)" by auto
  have "book_from_state LEVELS ORDERS (bs_instrument s) s = Some (Ok b2)"
    using b1(1) b2(1) book_validate_state_Ok [OF shaped] valid by (simp add: book_from_state_def u restore_levels_append)
  moreover have "book_list b2 Buy = flat ?B" "book_list b2 Sell = flat ?A" using b2(2) w1 by (simp_all add: appended_def)
  ultimately show ?thesis using b2(2) w1 cap lv(3) by (auto simp: appended_def same_params_def book_ok_alt)
qed

section \<open>Exported and restored books\<close>

text \<open>
  The sequence numbers a book must carry to be restored: positive, unique, and ascending along every
  queue. Every book of a gateway satisfies this, because orders join a queue with the sequence number
  of the command that puts them there.
\<close>

definition in_turn :: "PriceTicks \<times> Order \<Rightarrow> PriceTicks \<times> Order \<Rightarrow> bool" where
  "in_turn e f \<longleftrightarrow> fst e = fst f \<longrightarrow> o_sequence (snd e) < o_sequence (snd f)"

definition sequenced :: "BookModel \<Rightarrow> bool" where
  "sequenced m \<longleftrightarrow> (\<forall>side. sorted_wrt in_turn (bm_side m side)) \<and>
     distinct (map (\<lambda>e. o_sequence (snd e)) (bm_side m Buy @ bm_side m Sell)) \<and>
     (\<forall>side. \<forall>e \<in> set (bm_side m side). 0 < o_sequence (snd e))"

lemma all_sides: "(\<forall>side. P side) \<longleftrightarrow> P Buy \<and> P Sell"
  by (metis Side.exhaust)

lemma flat_in_turn:
  "distinct (map fst ls) \<Longrightarrow> sorted_wrt in_turn (flat ls) \<longleftrightarrow> (\<forall>l \<in> set ls. sorted_wrt (<) (map o_sequence (snd l)))"
proof (induction ls)
  case (Cons l ls)
  have q: "sorted_wrt in_turn (map (Pair p) xs) \<longleftrightarrow> sorted_wrt (<) (map o_sequence xs)" for p xs
    by (simp add: sorted_wrt_map in_turn_def)
  have "in_turn e f" if "e \<in> set (map (Pair (fst l)) (snd l))" "f \<in> set (flat ls)" for e f
  proof -
    have "fst f \<in> fst ` set ls" using that(2) by (force simp: flat_def)
    then have "fst f \<noteq> fst l" using Cons.prems by (metis distinct.simps(2) list.set_map list.simps(9))
    with that(1) show ?thesis by (auto simp: in_turn_def)
  qed
  with Cons q show ?case by (auto simp: sorted_wrt_append)
qed simp

lemma book_list_positive:
  assumes "sides_wf b" and "(p, x) \<in> set (book_list b side)"
  shows "0 < o_quantity x"
proof -
  from assms(2) obtain i s where "(p, i, s, x) \<in> set (zmakers b side)" by (auto simp: book_list_zmakers [OF assms(1)] unzip_def)
  from zmakers_order(2) [OF assms(1) this] show ?thesis .
qed

lemma book_ladders_valid:
  assumes ok: "book_ok b"
  shows "ladders_valid (ob_LEVELS b) (ob_ORDERS b) (book_side b Buy) (book_side b Sell) \<longleftrightarrow> sequenced (book_abs b)"
proof -
  have wf: "book_wf b" using ok by (simp add: book_ok_def)
  note sides = wf_sides [OF wf] and f = book_side_facts [OF wf_sides [OF wf]]
  have mem: "(p, x) \<in> set (book_list b side) \<longleftrightarrow> (\<exists>q. (p, q) \<in> set (book_side b side) \<and> x \<in> set q)" for p x side
    unfolding book_list_flat by (force simp: flat_def)
  have q: "0 < o_quantity x" if "l \<in> set (book_side b side)" "x \<in> set (snd l)" for l x side
    using book_list_positive [OF sides, of "fst l" x side] that unfolding mem by (metis prod.collapse)
  have "ladder_valid (ob_LEVELS b) (ob_ORDERS b) side (book_side b side) \<longleftrightarrow>
      sorted_wrt in_turn (book_list b side) \<and> (\<forall>e \<in> set (book_list b side). 0 < o_sequence (snd e))" for side
  proof -
    have "(\<forall>e \<in> set (book_list b side). 0 < o_sequence (snd e)) \<longleftrightarrow> (\<forall>l \<in> set (book_side b side). \<forall>x \<in> set (snd l). 0 < o_sequence x)"
      using mem [where side = side] by (metis prod.collapse snd_conv)
    moreover have "sorted_wrt in_turn (book_list b side) \<longleftrightarrow> (\<forall>l \<in> set (book_side b side). sorted_wrt (<) (map o_sequence (snd l)))"
      unfolding book_list_flat by (rule flat_in_turn [OF f(2)])
    ultimately show ?thesis using f(1,3,4) q unfolding ladder_valid_def entry_valid_def by blast
  qed
  moreover have "lists_uncrossed (book_list b Buy) (book_list b Sell)" using ok by (simp add: book_ok_alt)
  ultimately show ?thesis using distinct_ids [OF wf]
    unfolding ladders_valid_def sequenced_def book_list_flat [symmetric] book_abs_sel all_sides by blast
qed

lemma shaped_state:
  assumes "\<forall>l \<in> set (bids @ asks). length (snd l) \<le> ORDERS" "length bids \<le> LEVELS" "length asks \<le> LEVELS"
  shows "book_state_shaped LEVELS ORDERS (ladders_state LEVELS ORDERS inst bids asks)"
proof -
  have "length (bls_orders (level_state ORDERS side l)) = ORDERS" if "l \<in> set (bids @ asks)" for l side
    using assms(1) that by (simp add: level_state_def)
  then show ?thesis using assms(2,3) by (auto simp: book_state_shaped_def side_state_def empty_book_level_state_def)
qed

lemma book_abs_eqI:
  "ob_LEVELS b = ob_LEVELS b' \<Longrightarrow> ob_ORDERS b = ob_ORDERS b' \<Longrightarrow> ob_instrument b = ob_instrument b' \<Longrightarrow>
   (\<And>side. book_list b side = book_list b' side) \<Longrightarrow> book_abs b = book_abs b'"
  by (simp add: book_abs_def fun_eq_iff)

text \<open>Books of one type export the same state exactly when they have the same priority lists.\<close>

lemma book_export_cong:
  assumes "book_wf b" "book_wf b'" and "ob_LEVELS b = ob_LEVELS b'" "ob_ORDERS b = ob_ORDERS b'"
  shows "book_export_state b = book_export_state b' \<longleftrightarrow> book_abs b = book_abs b'"
proof
  note sides = wf_sides [OF assms(1)] wf_sides [OF assms(2)]
  assume "book_abs b = book_abs b'"
  then have "book_list b side = book_list b' side" "ob_instrument b = ob_instrument b'" for side
    by (simp_all add: book_abs_def fun_eq_iff)
  with book_side_cong [OF sides] assms(3,4) show "book_export_state b = book_export_state b'"
    by (simp add: book_export_state_eq [OF sides(1)] book_export_state_eq [OF sides(2)])
next
  note sides = wf_sides [OF assms(1)] wf_sides [OF assms(2)]
  note f = book_side_facts [OF sides(1)] and f' = book_side_facts [OF sides(2)]
  assume "book_export_state b = book_export_state b'"
  then have eq: "ladders_state (ob_LEVELS b) (ob_ORDERS b) (ob_instrument b) (book_side b Buy) (book_side b Sell) =
      ladders_state (ob_LEVELS b') (ob_ORDERS b') (ob_instrument b') (book_side b' Buy) (book_side b' Sell)" (is "?s = ?s'")
    by (simp add: book_export_state_eq [OF sides(1)] book_export_state_eq [OF sides(2)])
  have st: "state_bids ?s = book_side b Buy" "state_asks ?s = book_side b Sell" "state_bids ?s' = book_side b' Buy" "state_asks ?s' = book_side b' Sell"
    using f(3) f'(3) by (simp_all add: state_bids_def state_asks_def state_ladder_state)
  have "book_side b side = book_side b' side" for side using st eq by (metis Side.exhaust)
  then have "book_list b side = book_list b' side" for side by (simp add: book_list_flat)
  moreover have "ob_instrument b = ob_instrument b'" using arg_cong [OF eq, of bs_instrument] by simp
  ultimately show "book_abs b = book_abs b'" using assms(3,4) by (intro book_abs_eqI)
qed

lemma book_export_restore:
  assumes ok: "book_ok b" and seq: "sequenced (book_abs b)"
  shows "\<exists>s b'. book_export_state b = Some s \<and> book_from_state (ob_LEVELS b) (ob_ORDERS b) (ob_instrument b) s = Some (Ok b') \<and>
    book_ok b' \<and> book_abs b' = book_abs b"
proof -
  have wf: "book_wf b" "0 < ob_ORDERS b" using ok by (simp_all add: book_ok_def)
  note sides = wf_sides [OF wf(1)] and f = book_side_facts [OF wf_sides [OF wf(1)]]
  have v: "ladders_valid (ob_LEVELS b) (ob_ORDERS b) (book_side b Buy) (book_side b Sell)" using book_ladders_valid [OF ok] seq by blast
  let ?s = "ladders_state (ob_LEVELS b) (ob_ORDERS b) (ob_instrument b) (book_side b Buy) (book_side b Sell)"
  have cap: "ob_LEVELS b * ob_ORDERS b * 4 \<le> 2 ^ 32"
    using wf_index [OF wf(1)] probe_inv_capacity [of "oi_probe (ob_index b)"] by (simp add: index_inv_def ORDER_INDEX_PLANES_def)
  have shaped: "book_state_shaped (ob_LEVELS b) (ob_ORDERS b) ?s" by (rule shaped_state) (use f(3,4) in auto)
  note lv = ladders_state_valid [OF v, of "ob_instrument b"]
  from book_from_state_valid [OF cap wf(2) lv(1) shaped] obtain b' where
    b': "book_from_state (ob_LEVELS b) (ob_ORDERS b) (ob_instrument b) ?s = Some (Ok b')" "book_ok b'" "ob_LEVELS b' = ob_LEVELS b"
      "ob_ORDERS b' = ob_ORDERS b" "ob_instrument b' = ob_instrument b" "book_list b' Buy = flat (book_side b Buy)" "book_list b' Sell = flat (book_side b Sell)"
    unfolding lv(2,3) ladders_state_sel by blast
  have "book_list b' side = book_list b side" for side using b'(6,7) by (cases side) (simp_all add: book_list_flat)
  then have "book_abs b' = book_abs b" by (intro book_abs_eqI) (simp_all add: b')
  with b' book_export_state_eq [OF sides] show ?thesis by blast
qed

lemma book_from_state_cases:
  assumes cap: "LEVELS * ORDERS * 4 \<le> 2 ^ 32" "0 < ORDERS" and shaped: "book_state_shaped LEVELS ORDERS s"
  obtains (Refused) e where "book_from_state LEVELS ORDERS inst s = Some (Err e)" "bs_instrument s \<noteq> inst \<or> \<not> book_state_valid LEVELS ORDERS s"
  | (Restored) b where "book_from_state LEVELS ORDERS inst s = Some (Ok b)" "book_ok b" "ob_LEVELS b = LEVELS" "ob_ORDERS b = ORDERS"
      "sequenced (book_abs b)" "book_export_state b = Some s" "bs_instrument s = inst" "book_state_valid LEVELS ORDERS s"
proof (cases "bs_instrument s = inst \<and> book_state_valid LEVELS ORDERS s")
  case False
  show thesis
  proof (cases "book_validate_state LEVELS ORDERS s")
    case (Ok x)
    with False book_validate_state_Ok [OF shaped] have "bs_instrument s \<noteq> inst" by simp
    then show thesis using Refused by (simp add: book_from_state_def)
  next
    case (Err e)
    with False show thesis using Refused by (cases "bs_instrument s = inst") (auto simp: book_from_state_def)
  qed
next
  case True
  then have v: "ladders_valid LEVELS ORDERS (state_bids s) (state_asks s)" "s = ladders_state LEVELS ORDERS inst (state_bids s) (state_asks s)"
    by (auto simp: book_state_valid_def)
  from book_from_state_valid [OF cap _ shaped] True obtain b where
    b: "book_from_state LEVELS ORDERS inst s = Some (Ok b)" "book_ok b" "ob_LEVELS b = LEVELS" "ob_ORDERS b = ORDERS"
      "ob_instrument b = inst" "book_list b Buy = flat (state_bids s)" "book_list b Sell = flat (state_asks s)" by blast
  note sides = wf_sides [OF b(2) [unfolded book_ok_def, THEN conjunct1]]
  have "sorted_wrt (before d) ps \<Longrightarrow> distinct ps" for d ps by (induction ps) (auto simp: before_def split: if_splits)
  then have d: "distinct (map fst (state_bids s))" "distinct (map fst (state_asks s))"
    and n: "\<forall>l \<in> set (state_bids s). snd l \<noteq> []" "\<forall>l \<in> set (state_asks s). snd l \<noteq> []"
    using v(1) by (auto simp: ladders_valid_def ladder_valid_def entry_valid_def)
  have "book_side b Buy = state_bids s" "book_side b Sell = state_asks s"
    using b(6,7) d n book_side_facts(2,3) [OF sides] unfolding book_list_flat by (metis ladder_unique)+
  then have "sequenced (book_abs b)" "book_export_state b = Some s"
    using book_ladders_valid [OF b(2)] v book_export_state_eq [OF sides] b by auto
  with b True show thesis by (intro Restored) simp_all
qed

end
