(* ===== verification/StateProps.thy ===== *)
theory StateProps
  imports BookRestore
begin

text \<open>
  The state interfaces of the risk engine and of the order book as exact partial inverses: what
  restoring accepts, and that it is undone by exporting.
\<close>

section \<open>Concrete states\<close>

definition demo_risk_state :: RiskEngineState where
  "demo_risk_state = \<lparr>
     rs_accounts = [\<lparr>ars_id = 7, ars_limits = demo_limits, ars_settled_position = 5, ars_reserved_buys = 40,
       ars_reserved_sells = 0, ars_open_orders = 1, ars_killed = False\<rparr>],
     rs_reservations = [\<lparr>rrs_order_id = 11, rrs_account_id = 7, rrs_side = Buy, rrs_quantity = 40\<rparr>],
     rs_maximum_order_id = Some 12, rs_killed = False\<rparr>"

lemma demo_risk_state_valid: "risk_state_valid 2 3 demo_risk_state" and demo_risk_state_typed: "risk_state_typed demo_risk_state"
  by (simp_all add: demo_risk_state_def risk_state_valid_def account_state_valid_def limits_invalid_def demo_limits_def
      risk_state_typed_def account_state_typed_def reservation_state_typed_def limits_fit_def in_range_i_def
      u64_ok_def u32_ok_def i64_ok_def)

definition demo_book_state :: BookState where
  "demo_book_state = \<lparr>bs_instrument = 3, bs_bid_level_count = 1,
     bs_bids = [\<lparr>bls_side = Buy, bls_price = 100, bls_order_count = 1,
       bls_orders = [\<lparr>bos_order_id = 11, bos_account_id = 7, bos_side = Buy, bos_price = 100, bos_quantity = 40, bos_sequence = 1\<rparr>]\<rparr>],
     bs_ask_level_count = 0, bs_asks = [empty_book_level_state 1]\<rparr>"

lemma demo_book_state_shaped: "book_state_shaped 1 1 demo_book_state"
  by (simp add: book_state_shaped_def demo_book_state_def empty_book_level_state_def)

lemma demo_book_state_valid: "book_state_valid 1 1 demo_book_state"
proof -
  have "book_validate_state 1 1 demo_book_state = Ok ()"
    by (simp add: book_validate_state_def demo_book_state_def validate_side_def used_orders_def validate_unique_ids_def used_levels_def)
  then show ?thesis using book_validate_state_Ok [OF demo_book_state_shaped] by simp
qed

section \<open>Properties\<close>

text \<open>
  The risk engine is restored exactly from consistent states. For a state whose fields have their
  Rust types, \<open>from_state\<close> never panics; it succeeds exactly when the accounts and reservations fit the
  capacities and are strictly ascending by id, limits are valid, quantities are positive, every
  reservation has its account and an id up to the highest one seen, and the totals of each account are
  the sums over its reservations and within its limits; and then the engine it builds satisfies the
  invariant and exports to the very state it was built from.
\<close>
theorem risk_restore_exact:
  assumes "ACCOUNTS \<le> 2 ^ 31" and "ORDERS \<le> 2 ^ 31" and "risk_state_typed s"
  shows "if risk_state_valid ACCOUNTS ORDERS s
    then \<exists>re. risk_from_state ACCOUNTS ORDERS s = Some (Ok re) \<and> risk_inv re \<and> risk_export_state re = s
    else \<exists>e. risk_from_state ACCOUNTS ORDERS s = Some (Err e)"
  using risk_from_state_valid [OF assms(1,2) risk_state_typed_fits [OF assms(3)]]
    risk_from_state_invalid [OF assms(2) risk_state_typed_fits [OF assms(3)]] by auto

theorem risk_restore_exact_witness:
  "\<exists>re. risk_from_state 2 3 demo_risk_state = Some (Ok re) \<and> risk_inv re \<and> risk_export_state re = demo_risk_state"
  using risk_restore_exact [OF _ _ demo_risk_state_typed, of 2 3] demo_risk_state_valid by simp

text \<open>
  The order book is restored exactly from canonical states. For a state whose arrays have the
  sizes of their Rust types, \<open>from_state\<close> never panics; it succeeds exactly when the state is for this
  instrument and is the canonical form of two uncrossed ladders with positive quantities, ascending
  sequences in each level, and unique ids and sequences; and then the book it builds satisfies the
  invariant and exports to the very state it was built from.
\<close>
theorem book_restore_exact:
  assumes "LEVELS * ORDERS * 4 \<le> 2 ^ 32" and "0 < ORDERS" and "book_state_shaped LEVELS ORDERS s"
  shows "case book_from_state LEVELS ORDERS inst s of
      None \<Rightarrow> False
    | Some (Err e) \<Rightarrow> bs_instrument s \<noteq> inst \<or> \<not> book_state_valid LEVELS ORDERS s
    | Some (Ok b) \<Rightarrow> bs_instrument s = inst \<and> book_state_valid LEVELS ORDERS s \<and> book_ok b \<and> book_export_state b = Some s"
  by (rule book_from_state_cases [OF assms, of inst]) simp_all

theorem book_restore_exact_witness:
  "\<exists>b. book_from_state 1 1 3 demo_book_state = Some (Ok b) \<and> book_ok b \<and> book_export_state b = Some demo_book_state"
  using book_restore_exact [OF _ _ demo_book_state_shaped, of 3] demo_book_state_valid
  by (auto simp: demo_book_state_def split: option.splits result.splits)

end
