(* ===== verification/Gateway.thy ===== *)
theory Gateway
  imports Wire RiskProps BookProps
begin

text \<open>
  The gateway of \<open>crates/hft-gateway/src/lib.rs\<close>: sequence admission, then risk, book and risk again
  for each command. Unlike its parts the gateway changes state on some rejections (the watermark and
  the sequence advance), so an operation returns the new gateway together with its result;
  \<open>None\<close> is a panic of one of the parts.
\<close>

section \<open>State\<close>

datatype GatewayError =
    GwParse ParseError
  | GwSequence SequenceNumber SequenceNumber
  | GwRisk RejectReason
  | GwBook RejectReason
  | GwRiskState RejectReason

datatype GatewayOutcome =
    GwNewOrder MatchSummary
  | GwCancelled CancelledOrder
  | GwReplaced ReplacedOrder

record Gateway =
  gw_risk :: RiskEngine
  gw_book :: OrderBook
  gw_expected_sequence :: SequenceNumber
  gw_maximum_received_order_id :: "OrderId option"

definition gateway_new :: "nat \<Rightarrow> nat \<Rightarrow> RiskEngine \<Rightarrow> InstrumentId \<Rightarrow> Gateway" where
  "gateway_new LEVELS ORDERS risk instrument =
     \<lparr>gw_risk = risk, gw_book = book_new LEVELS ORDERS instrument, gw_expected_sequence = 1,
      gw_maximum_received_order_id = None\<rparr>"

definition gateway_top_level :: "Gateway \<Rightarrow> Side \<Rightarrow> TopLevel option" where
  "gateway_top_level g side = top_level (gw_book g) side"

definition gateway_instrument :: "Gateway \<Rightarrow> InstrumentId" where
  "gateway_instrument g = ob_instrument (gw_book g)"

section \<open>Sequence admission\<close>

definition check_sequence :: "Gateway \<Rightarrow> SequenceNumber \<Rightarrow> (unit, GatewayError) result" where
  "check_sequence g received =
     (if received \<noteq> gw_expected_sequence g then Err (GwSequence (gw_expected_sequence g) received)
      else case checked_add 64 (gw_expected_sequence g) 1 of
        None \<Rightarrow> Err (GwRiskState ArithmeticOverflow)
      | Some _ \<Rightarrow> Ok ())"

definition accept_sequence :: "Gateway \<Rightarrow> SequenceNumber \<Rightarrow> (Gateway, GatewayError) result" where
  "accept_sequence g received =
     and_then (check_sequence g received) (\<lambda>_.
       and_then (ok_or (GwRiskState ArithmeticOverflow) (checked_add 64 (gw_expected_sequence g) 1))
         (\<lambda>next_sequence. Ok (g\<lparr>gw_expected_sequence := next_sequence\<rparr>)))"

section \<open>Commands\<close>

type_synonym gateway_step = "(Gateway \<times> ReportBuffer \<times> (GatewayOutcome, GatewayError) result) option"

text \<open>The loop over the execution reports: maker then taker, stopping at the first failure.\<close>

fun record_fills :: "RiskEngine \<Rightarrow> ExecutionReport list \<Rightarrow> (RiskEngine \<times> (unit, RejectReason) result) option" where
  "record_fills risk [] = Some (risk, Ok ())"
| "record_fills risk (report # reports) =
     do {
       maker \<leftarrow> record_fill risk (er_maker_order_id report) (er_quantity report);
       (case maker of
          Err e \<Rightarrow> Some (risk, Err e)
        | Ok risk1 \<Rightarrow>
            do {
              taker \<leftarrow> record_fill risk1 (er_taker_order_id report) (er_quantity report);
              (case taker of
                 Err e \<Rightarrow> Some (risk1, Err e)
               | Ok risk2 \<Rightarrow> record_fills risk2 reports)
            })
     }"

text \<open>\<open>settle(order_id, 0)\<close> with its error mapped, then a given result.\<close>

definition settle_then ::
  "Gateway \<Rightarrow> OrderId \<Rightarrow> ReportBuffer \<Rightarrow> (GatewayOutcome, GatewayError) result \<Rightarrow> gateway_step" where
  "settle_then g order_id reports r =
     do {
       s \<leftarrow> settle (gw_risk g) order_id 0;
       Some (case s of
               Err e \<Rightarrow> (g, reports, Err (GwRiskState e))
             | Ok risk \<Rightarrow> (g\<lparr>gw_risk := risk\<rparr>, reports, r))
     }"

definition process_new_order :: "Gateway \<Rightarrow> NewOrder \<Rightarrow> ReportBuffer \<Rightarrow> gateway_step" where
  "process_new_order g order reports =
     (if (case gw_maximum_received_order_id g of None \<Rightarrow> False | Some maximum \<Rightarrow> no_order_id order \<le> maximum)
      then Some (g, reports, Err (GwRisk DuplicateOrderId))
      else let g = g\<lparr>gw_maximum_received_order_id := Some (no_order_id order)\<rparr> in
        do {
          c \<leftarrow> check_and_reserve (gw_risk g) order;
          (case c of
             Err e \<Rightarrow> Some (g, reports, Err (GwRisk e))
           | Ok risk \<Rightarrow>
               let g = g\<lparr>gw_risk := risk\<rparr> in
               do {
                 b \<leftarrow> submit (gw_book g) order reports;
                 (case b of
                    Err e \<Rightarrow> settle_then g (no_order_id order) reports (Err (GwBook e))
                  | Ok (book, reports, summary) \<Rightarrow>
                      do {
                        f \<leftarrow> record_fills (gw_risk g) (reports_iter reports);
                        (let g = g\<lparr>gw_book := book, gw_risk := fst f\<rparr> in
                         case snd f of
                           Err e \<Rightarrow> Some (g, reports, Err (GwRiskState e))
                         | Ok _ \<Rightarrow>
                             if ms_resting_quantity summary = 0 \<and> ms_filled_quantity summary < no_quantity order
                             then settle_then g (no_order_id order) reports (Ok (GwNewOrder summary))
                             else Some (g, reports, Ok (GwNewOrder summary)))
                      })
               })
        })"

definition process_replace :: "Gateway \<Rightarrow> ReplaceOrder \<Rightarrow> (Gateway \<times> (GatewayOutcome, GatewayError) result) option" where
  "process_replace g r =
     do {
       a \<leftarrow> adjust_reservation (gw_risk g) (ro_order_id r) (ro_account_id r) (ro_price r) (ro_quantity r);
       (case a of
          Err e \<Rightarrow> Some (g, Err (GwRisk e))
        | Ok (risk, _, prior_remaining) \<Rightarrow>
            let g = g\<lparr>gw_risk := risk\<rparr> in
            do {
              b \<leftarrow> replace (gw_book g) r;
              (case b of
                 Ok (book, out) \<Rightarrow> Some (g\<lparr>gw_book := book\<rparr>, Ok (GwReplaced out))
               | Err e \<Rightarrow>
                   do {
                     s \<leftarrow> restore_reservation (gw_risk g) (ro_order_id r) (ro_account_id r) prior_remaining;
                     Some (case s of
                             Err e' \<Rightarrow> (g, Err (GwRiskState e'))
                           | Ok risk' \<Rightarrow> (g\<lparr>gw_risk := risk'\<rparr>, Err (GwBook e)))
                   })
            })
     }"

definition process_cancel :: "Gateway \<Rightarrow> CancelOrder \<Rightarrow> (Gateway \<times> (GatewayOutcome, GatewayError) result) option" where
  "process_cancel g c =
     (case can_cancel (gw_risk g) (co_order_id c) (co_account_id c) of
        Err e \<Rightarrow> Some (g, Err (GwRisk e))
      | Ok _ \<Rightarrow>
          do {
            b \<leftarrow> cancel (gw_book g) c;
            (case b of
               Err e \<Rightarrow> Some (g, Err (GwBook e))
             | Ok (book, cancelled) \<Rightarrow>
                 let g = g\<lparr>gw_book := book\<rparr> in
                 do {
                   s \<leftarrow> cancel_reservation (gw_risk g) (co_order_id c) (co_account_id c);
                   Some (case s of
                           Err e \<Rightarrow> (g, Err (GwRiskState e))
                         | Ok (risk, released) \<Rightarrow>
                             (g\<lparr>gw_risk := risk\<rparr>,
                              if released \<noteq> cn_quantity cancelled then Err (GwRiskState ArithmeticOverflow)
                              else Ok (GwCancelled cancelled)))
                 })
          })"

definition dispatch :: "Gateway \<Rightarrow> Command \<Rightarrow> ReportBuffer \<Rightarrow> gateway_step" where
  "dispatch g command reports =
     (case command of
        CmdNewOrder order \<Rightarrow> process_new_order g order reports
      | CmdCancelOrder c \<Rightarrow> map_option (\<lambda>(g', r). (g', reports, r)) (process_cancel g c)
      | CmdReplaceOrder r \<Rightarrow> map_option (\<lambda>(g', r). (g', reports, r)) (process_replace g r))"

definition process_command :: "Gateway \<Rightarrow> Command \<Rightarrow> ReportBuffer \<Rightarrow> gateway_step" where
  "process_command g command reports =
     (let reports = reports_clear reports in
      case accept_sequence g (command_sequence command) of
        Err e \<Rightarrow> Some (g, reports, Err e)
      | Ok g \<Rightarrow> dispatch g command reports)"

definition process_frame :: "Gateway \<Rightarrow> byte list \<Rightarrow> ReportBuffer \<Rightarrow> gateway_step" where
  "process_frame g frame reports =
     (let reports = reports_clear reports in
      case parse_message frame of
        Err e \<Rightarrow> Some (g, reports, Err (GwParse e))
      | Ok message \<Rightarrow>
          (case accept_sequence g (message_sequence message) of
             Err e \<Rightarrow> Some (g, reports, Err e)
           | Ok g \<Rightarrow> dispatch g (to_command message) reports))"

end
