(* ===== verification/GatewayInv.thy ===== *)
theory GatewayInv
  imports Gateway
begin

text \<open>
  The invariant of the gateway: its parts are well formed and coherent, that is, the live
  reservations of the risk engine are exactly the orders resting in the book, with the same account,
  side and quantity; and the watermarks bound the ids in use. Then the effect of recording the fills
  of a match on the risk engine.
\<close>

section \<open>Coherence\<close>

definition open_orders :: "BookModel \<Rightarrow> OrderId \<Rightarrow> (AccountId \<times> Side \<times> Quantity) set" where
  "open_orders m k = {(o_account x, side, o_quantity x) |side p x. (p, x) \<in> set (bm_side m side) \<and> o_id x = k}"

definition coherent :: "RiskEngine \<Rightarrow> BookModel \<Rightarrow> bool" where
  "coherent risk m \<longleftrightarrow> (\<forall>k v. resv risk k = Some v \<longleftrightarrow> v \<in> open_orders m k)"

definition gw_inv :: "Gateway \<Rightarrow> bool" where
  "gw_inv g \<longleftrightarrow> risk_inv (gw_risk g) \<and> book_ok (gw_book g) \<and> quantities_fit (book_abs (gw_book g)) \<and>
     coherent (gw_risk g) (book_abs (gw_book g)) \<and> 0 < gw_expected_sequence g \<and> u64_ok (gw_expected_sequence g) \<and>
     (\<forall>k. re_maximum_order_id (gw_risk g) = Some k \<longrightarrow> (\<exists>m. gw_maximum_received_order_id g = Some m \<and> k \<le> m))"

lemma coherentD: "coherent risk m \<Longrightarrow> (p, x) \<in> set (bm_side m side) \<Longrightarrow> resv risk (o_id x) = Some (o_account x, side, o_quantity x)"
  unfolding coherent_def open_orders_def by blast

lemma coherentE:
  assumes "coherent risk m" and "resv risk k = Some (aid, side, q)"
  obtains p x where "(p, x) \<in> set (bm_side m side)" "o_id x = k" "o_account x = aid" "o_quantity x = q"
proof -
  have "(aid, side, q) \<in> open_orders m k" using assms unfolding coherent_def by blast
  then show thesis using that unfolding open_orders_def by blast
qed

lemma in_ids_pair: "k \<in> ids xs \<longleftrightarrow> (\<exists>p x. (p, x) \<in> set xs \<and> o_id x = k)"
  by (force simp: ids_def)

lemma risk_inv_watermark:
  assumes "risk_inv re" and "resv re k = Some v"
  obtains m where "re_maximum_order_id re = Some m" "k \<le> m"
proof -
  from assms(2) obtain slot r where "live_reservation re k = Some (slot, r)" by (auto simp: resv_def)
  then have r: "slot < length (re_reservations re)" "re_reservations re ! slot = ResLive r" "rv_order_id r = k"
    using live_reservation_iff [OF risk_inv_store [OF assms(1)]] by auto
  then have "ResLive r \<in> set (re_reservations re)" by (metis nth_mem)
  with assms(1) r(3) that show thesis unfolding risk_inv_def by blast
qed

section \<open>Recording fills\<close>

definition settled :: "RiskEngine \<Rightarrow> AccountId \<Rightarrow> int" where
  "settled re aid = (case acct re aid of None \<Rightarrow> 0 | Some a \<Rightarrow> ac_settled_position a)"

definition signed :: "Side \<Rightarrow> nat \<Rightarrow> int" where
  "signed side q = (case side of Buy \<Rightarrow> int q | Sell \<Rightarrow> - int q)"

lemma signed_opposite [simp]: "signed (opposite side) q = - signed side q"
  by (cases side) (simp_all add: signed_def)

lemma fill_position:
  "ac_settled_position (fill_account side filled released a) = ac_settled_position a + signed side filled"
  "ac_settled_position (close_account side filled released a) = ac_settled_position a + signed side filled"
  by (cases side; simp add: fill_account_def close_account_def drop_exposure_def trade_def signed_def)+

lemma record_fill_effect:
  assumes inv: "risk_inv re" and r: "resv re k = Some (aid, side, q)" and f: "0 < f" "f \<le> q"
  shows "\<exists>re'. record_fill re k f = Some (Ok re') \<and> risk_inv re' \<and>
    resv re' = (resv re)(k := if f = q then None else Some (aid, side, q - f)) \<and>
    re_maximum_order_id re' = re_maximum_order_id re \<and> re_killed re' = re_killed re \<and>
    (\<forall>a. settled re' a = settled re a + (if a = aid then signed side f else 0))"
proof -
  have "f \<noteq> 0" using f by simp
  from record_fill_refines [OF inv this, of k] r f obtain a re' where
    re': "acct re aid = Some a" "record_fill re k f = Some (Ok re')"
      "if f = q then effect re re' aid (close_account side f q a) k None
       else effect re re' aid (fill_account side f f a) k (Some (aid, side, q - f))" by auto
  then show ?thesis using fill_position
    by (intro exI [of _ re']) (auto simp: effect_def settled_def split: if_splits)
qed

text \<open>
  Recording the fills of a match: every fill succeeds; the makers keep what the match leaves them,
  the taker what is left of it, other reservations are untouched, and positions move by the fills.
\<close>

definition fill_delta :: "RiskEngine \<Rightarrow> Side \<Rightarrow> AccountId \<Rightarrow> AccountId \<Rightarrow> (PriceTicks \<times> OrderId \<times> Quantity) list \<Rightarrow> int" where
  "fill_delta re side taker aid fills = sum_list (map (\<lambda>(p, k, q).
     (if aid = fst (the (resv re k)) then signed (opposite side) q else 0) + (if aid = taker then signed side q else 0)) fills)"

lemma match_list_fill_ids:
  "match_list side limit n xs = (fills, ys, left) \<Longrightarrow> (p, k, q) \<in> set fills \<Longrightarrow> k \<in> ids xs"
proof -
  assume m: "match_list side limit n xs = (fills, ys, left)" and f: "(p, k, q) \<in> set fills"
  from match_list_prefix [OF m] f show ?thesis by (auto simp: whole_def ids_def)
qed

definition backed :: "RiskEngine \<Rightarrow> Side \<Rightarrow> plist \<Rightarrow> bool" where
  "backed re side xs \<longleftrightarrow>
     (\<forall>p x. (p, x) \<in> set xs \<longrightarrow> resv re (o_id x) = Some (o_account x, side, o_quantity x) \<and> 0 < o_quantity x)"

lemma backedD: "backed re side xs \<Longrightarrow> (p, x) \<in> set xs \<Longrightarrow> resv re (o_id x) = Some (o_account x, side, o_quantity x) \<and> 0 < o_quantity x"
  unfolding backed_def by blast

lemma record_fills_match:
  assumes "risk_inv re" and "match_list side limit n xs = (fills, ys, left)"
    and "distinct (map (\<lambda>e. o_id (snd e)) xs)" and "no_order_id order \<notin> ids xs"
    and "backed re (opposite side) xs"
    and "resv re (no_order_id order) = (if n = 0 then None else Some (taker, side, n))"
  shows "\<exists>re'. record_fills re (reports_of order fills) = Some (re', Ok ()) \<and> risk_inv re' \<and>
    re_maximum_order_id re' = re_maximum_order_id re \<and> re_killed re' = re_killed re \<and>
    resv re' (no_order_id order) = (if left = 0 then None else Some (taker, side, left)) \<and>
    (\<forall>k. k \<noteq> no_order_id order \<longrightarrow> k \<notin> ids xs \<longrightarrow> resv re' k = resv re k) \<and>
    (\<forall>k \<in> ids xs. \<forall>v. resv re' k = Some v \<longleftrightarrow> (\<exists>p y. (p, y) \<in> set ys \<and> o_id y = k \<and> v = (o_account y, opposite side, o_quantity y))) \<and>
    (\<forall>a. settled re' a = settled re a + fill_delta re side taker a fills)"
  using assms
proof (induction xs arbitrary: re n fills ys left)
  case Nil
  then show ?case by (auto simp: reports_of_def fill_delta_def)
next
  case (Cons e xs)
  let ?t = "no_order_id order"
  obtain p x where e: "e = (p, x)" by (cases e) auto
  have x: "resv re (o_id x) = Some (o_account x, opposite side, o_quantity x)" "0 < o_quantity x"
    using backedD [OF Cons.prems(5), of p x] e by auto
  have tx: "?t \<noteq> o_id x" "?t \<notin> ids xs" "o_id x \<notin> ids xs" using Cons.prems(3,4) e by (auto simp: ids_def)
  show ?case
  proof (cases "n = 0 \<or> \<not> crosses side p limit")
    case True
    then have m: "fills = []" "ys = e # xs" "left = n" using Cons.prems(2) e by auto
    have "v = (o_account y, opposite side, o_quantity y) \<longleftrightarrow> resv re (o_id y) = Some v" if "(q, y) \<in> set (e # xs)" for q y v
      using backedD [OF Cons.prems(5) that] by auto
    moreover have "\<exists>q y. (q, y) \<in> set (e # xs) \<and> o_id y = k" if "k \<in> ids (e # xs)" for k using that unfolding in_ids_pair .
    ultimately have "\<forall>k \<in> ids (e # xs). \<forall>v. resv re k = Some v \<longleftrightarrow>
        (\<exists>p y. (p, y) \<in> set (e # xs) \<and> o_id y = k \<and> v = (o_account y, opposite side, o_quantity y))" by blast
    then show ?thesis using Cons.prems(1,6) m by (intro exI [of _ re]) (simp add: reports_of_def fill_delta_def)
  next
    case False
    let ?q = "min n (o_quantity x)"
    have q: "0 < ?q" "?q \<le> o_quantity x" "?q \<le> n" using False x(2) by auto
    from record_fill_effect [OF Cons.prems(1) x(1) q(1,2)] obtain r1 where
      r1: "record_fill re (o_id x) ?q = Some (Ok r1)" "risk_inv r1"
        "resv r1 = (resv re)(o_id x := if ?q = o_quantity x then None else Some (o_account x, opposite side, o_quantity x - ?q))"
        "re_maximum_order_id r1 = re_maximum_order_id re" "re_killed r1 = re_killed re"
        "\<And>a. settled r1 a = settled re a + (if a = o_account x then signed (opposite side) ?q else 0)" by blast
    have t1: "resv r1 ?t = Some (taker, side, n)" using Cons.prems(6) False tx(1) by (simp add: r1(3))
    from record_fill_effect [OF r1(2) t1 q(1,3)] obtain r2 where
      r2: "record_fill r1 ?t ?q = Some (Ok r2)" "risk_inv r2"
        "resv r2 = (resv r1)(?t := if ?q = n then None else Some (taker, side, n - ?q))"
        "re_maximum_order_id r2 = re_maximum_order_id r1" "re_killed r2 = re_killed r1"
        "\<And>a. settled r2 a = settled r1 a + (if a = taker then signed side ?q else 0)" by blast
    obtain fs where fills: "fills = (p, o_id x, ?q) # fs" using Cons.prems(2) e False
      by (auto simp: min_def split: if_splits prod.splits)
    have run: "record_fills re (reports_of order fills) = record_fills r2 (reports_of order fs)"
      using r1(1) r2(1) by (simp add: fills reports_of_def fill_report_def)
    show ?thesis
    proof (cases "o_quantity x \<le> n")
      case True
      then have q': "?q = o_quantity x" by simp
      have m: "match_list side limit (n - ?q) xs = (fs, ys, left)" using Cons.prems(2) e False True fills
        by (auto split: prod.splits)
      have d: "distinct (map (\<lambda>e. o_id (snd e)) xs)" using Cons.prems(3) by simp
      have r2_tail: "resv r2 k = resv re k" if "k \<in> ids xs" for k using that tx by (auto simp: r2(3) r1(3))
      have tail: "backed r2 (opposite side) xs" unfolding backed_def
      proof (intro allI impI)
        fix q0 y
        assume that: "(q0, y) \<in> set xs"
        have "o_id y \<in> ids xs" using that by (force simp: ids_def)
        with r2_tail backedD [OF Cons.prems(5), of q0 y] that
        show "resv r2 (o_id y) = Some (o_account y, opposite side, o_quantity y) \<and> 0 < o_quantity y" by simp
      qed
      have t2: "resv r2 ?t = (if n - ?q = 0 then None else Some (taker, side, n - ?q))" using q(3) by (auto simp: r2(3))
      from Cons.IH [OF r2(2) m d tx(2) tail t2] obtain re' where
        IH: "record_fills r2 (reports_of order fs) = Some (re', Ok ())" "risk_inv re'"
          "re_maximum_order_id re' = re_maximum_order_id r2" "re_killed re' = re_killed r2"
          "resv re' ?t = (if left = 0 then None else Some (taker, side, left))"
          "\<And>k. k \<noteq> ?t \<Longrightarrow> k \<notin> ids xs \<Longrightarrow> resv re' k = resv r2 k"
          "\<forall>k \<in> ids xs. \<forall>v. resv re' k = Some v \<longleftrightarrow> (\<exists>p y. (p, y) \<in> set ys \<and> o_id y = k \<and> v = (o_account y, opposite side, o_quantity y))"
          "\<And>a. settled re' a = settled r2 a + fill_delta r2 side taker a fs" by blast
      have gone: "resv re' (o_id x) = None" using IH(6) [of "o_id x"] tx q' by (simp add: r2(3) r1(3))
      have ys: "o_id y \<noteq> o_id x" if "(p0, y) \<in> set ys" for p0 y
        using match_list_facts(2) [OF m] that tx(3) by (force simp: ids_def)
      have makers: "\<forall>v. resv re' k = Some v \<longleftrightarrow>
          (\<exists>p y. (p, y) \<in> set ys \<and> o_id y = k \<and> v = (o_account y, opposite side, o_quantity y))"
        if k: "k \<in> ids (e # xs)" for k
      proof (cases "k = o_id x")
        case True
        then show ?thesis using gone ys by auto
      next
        case False
        with k e have "k \<in> ids xs" by simp
        with IH(7) show ?thesis by blast
      qed
      have delta: "fill_delta r2 side taker a fs = fill_delta re side taker a fs" for a
        unfolding fill_delta_def
        by (intro arg_cong [where f = sum_list] map_cong refl) (use match_list_fill_ids [OF m] r2_tail in auto)
      have "settled re' a = settled re a + fill_delta re side taker a fills" for a
        using IH(8) r2(6) r1(6) x(1) unfolding delta by (simp add: fills fill_delta_def)
      moreover have "\<forall>k. k \<noteq> ?t \<longrightarrow> k \<notin> ids (e # xs) \<longrightarrow> resv re' k = resv re k"
        using IH(6) e by (auto simp: r2(3) r1(3))
      ultimately show ?thesis using run IH(1-5) makers r1(4,5) r2(4,5) by (intro exI [of _ re']) simp
    next
      case part: False
      then have q': "?q = n" by simp
      have m: "fs = []" "ys = (p, x\<lparr>o_quantity := o_quantity x - n\<rparr>) # xs" "left = 0"
        using Cons.prems(2) e False part fills by auto
      have rx: "resv r2 (o_id x) = Some (o_account x, opposite side, o_quantity x - n)"
        using tx part by (simp add: r2(3) r1(3) q')
      have tailv: "resv r2 k = resv re k" if "k \<in> ids xs" for k using that tx by (auto simp: r2(3) r1(3))
      have old: "resv re k = Some v \<longleftrightarrow> (\<exists>p y. (p, y) \<in> set xs \<and> o_id y = k \<and> v = (o_account y, opposite side, o_quantity y))"
        if k: "k \<in> ids xs" for k v
      proof -
        from k obtain q0 y0 where "(q0, y0) \<in> set xs" "o_id y0 = k" by (auto simp: ids_def)
        moreover have "resv re (o_id y) = Some (o_account y, opposite side, o_quantity y)" if "(q1, y) \<in> set xs" for q1 y
          using backedD [OF Cons.prems(5), of q1 y] that by simp
        ultimately show ?thesis by fastforce
      qed
      have "\<forall>v. resv r2 k = Some v \<longleftrightarrow> (\<exists>p y. (p, y) \<in> set ys \<and> o_id y = k \<and> v = (o_account y, opposite side, o_quantity y))"
        if k: "k \<in> ids (e # xs)" for k
      proof (cases "k = o_id x")
        case True
        moreover have "o_id y \<noteq> o_id x" if "(q1, y) \<in> set xs" for q1 y using tx(3) that by (force simp: ids_def)
        moreover have "(p, x\<lparr>o_quantity := o_quantity x - n\<rparr>) \<in> set ys" using m(2) by simp
        ultimately show ?thesis using rx m(2) by (auto intro!: exI [of _ p] exI [of _ "x\<lparr>o_quantity := o_quantity x - n\<rparr>"])
      next
        case False
        with k e have k: "k \<in> ids xs" by simp
        show ?thesis unfolding tailv [OF k] old [OF k] m(2) using False by auto
      qed
      moreover have "settled r2 a = settled re a + fill_delta re side taker a fills" for a
        using r2(6) r1(6) x(1) by (simp add: fills m fill_delta_def)
      moreover have "\<forall>k. k \<noteq> ?t \<longrightarrow> k \<notin> ids (e # xs) \<longrightarrow> resv r2 k = resv re k" using e by (auto simp: r2(3) r1(3))
      moreover have "resv r2 ?t = None" by (simp add: r2(3) q')
      ultimately show ?thesis using run m r1(4,5) r2(2,4,5) by (intro exI [of _ r2]) (simp add: reports_of_def)
    qed
  qed
qed

end
