(* ===== verification/GatewayOps.thy ===== *)
theory GatewayOps
  imports GatewayInv
begin

text \<open>
  The effect of each gateway command on a coherent gateway: every command returns, keeps the
  invariant, and either executes exactly as the specifications of its parts say or leaves the book,
  the accounts and the reservations as they were.
\<close>

section \<open>New orders\<close>

lemma close_reserve:
  "close_account side 0 q ((add_exposure side q a)\<lparr>ac_open_orders := ac_open_orders a + 1\<rparr>) = a"
  by (cases side) (simp_all add: close_account_def fill_account_def trade_def drop_exposure_def add_exposure_def)

definition rolled_back :: "Gateway \<Rightarrow> Gateway \<Rightarrow> bool" where
  "rolled_back g g' \<longleftrightarrow> gw_book g' = gw_book g \<and> acct (gw_risk g') = acct (gw_risk g) \<and> resv (gw_risk g') = resv (gw_risk g) \<and>
     re_killed (gw_risk g') = re_killed (gw_risk g)"

lemma gw_invD:
  assumes "gw_inv g"
  shows "risk_inv (gw_risk g)" "book_ok (gw_book g)" "quantities_fit (book_abs (gw_book g))"
    "coherent (gw_risk g) (book_abs (gw_book g))"
  using assms by (simp_all add: gw_inv_def)

lemma book_ok_wf: "book_ok b \<Longrightarrow> book_wf b"
  by (simp add: book_ok_def)

lemma fresh_order:
  assumes inv: "gw_inv g" and new: "\<forall>m. gw_maximum_received_order_id g = Some m \<longrightarrow> m < k"
  shows "resv (gw_risk g) k = None" and "\<not> (\<exists>x. re_maximum_order_id (gw_risk g) = Some x \<and> k \<le> x)"
proof -
  have w: "x < k" if "re_maximum_order_id (gw_risk g) = Some x" for x
    using inv new that unfolding gw_inv_def by fastforce
  then show "\<not> (\<exists>x. re_maximum_order_id (gw_risk g) = Some x \<and> k \<le> x)" by fastforce
  show "resv (gw_risk g) k = None"
  proof (rule ccontr)
    assume "resv (gw_risk g) k \<noteq> None"
    then obtain v where "resv (gw_risk g) k = Some v" by auto
    from risk_inv_watermark [OF gw_invD(1) [OF inv] this] w show False by (metis not_less)
  qed
qed

lemma sides_disjoint:
  assumes "book_ok b"
  shows "distinct (map (\<lambda>e. o_id (snd e)) (book_list b side))"
    and "k \<in> ids (book_list b side) \<Longrightarrow> k \<notin> ids (book_list b (opposite side))"
  using distinct_ids [OF book_ok_wf [OF assms]] by (cases side; auto simp: ids_def)+

lemma book_positive:
  assumes "book_ok b" and "(p, x) \<in> set (book_list b side)"
  shows "0 < o_quantity x"
proof -
  note sides = wf_sides [OF book_ok_wf [OF assms(1)]]
  from assms(2) obtain i s where "(p, i, s, x) \<in> set (zmakers b side)" by (auto simp: book_list_zmakers [OF sides] unzip_def)
  from zmakers_order(2) [OF sides this] show ?thesis .
qed

lemma ex_side: "(\<exists>sd. P sd) \<longleftrightarrow> P (opposite side) \<or> P side"
  by (metis other_side)

lemma in_open_orders:
  "v \<in> open_orders m k \<longleftrightarrow>
     (\<exists>p y. (p, y) \<in> set (bm_side m (opposite side)) \<and> o_id y = k \<and> v = (o_account y, opposite side, o_quantity y)) \<or>
     (\<exists>p y. (p, y) \<in> set (bm_side m side) \<and> o_id y = k \<and> v = (o_account y, side, o_quantity y))"
proof -
  have "v \<in> open_orders m k \<longleftrightarrow> (\<exists>sd p y. (p, y) \<in> set (bm_side m sd) \<and> o_id y = k \<and> v = (o_account y, sd, o_quantity y))"
    unfolding open_orders_def by blast
  then show ?thesis unfolding ex_side [where side = side] .
qed

lemma coherent_fills:
  assumes co: "coherent re m" and t: "resv re t = None"
    and dis: "\<And>k. k \<in> ids (bm_side m (opposite side)) \<Longrightarrow> k \<notin> ids (bm_side m side)"
    and ys: "ids ys \<subseteq> ids (bm_side m (opposite side))" "bm_side m' (opposite side) = ys"
    and own: "set (bm_side m' side) = (if q = 0 then {} else {(pr, xo)}) \<union> set (bm_side m side)"
      "o_id xo = t" "o_account xo = aid" "o_quantity xo = q"
    and rt: "resv re' t = (if q = 0 then None else Some (aid, side, q))"
    and other: "\<forall>k. k \<noteq> t \<longrightarrow> k \<notin> ids (bm_side m (opposite side)) \<longrightarrow> resv re' k = resv re k"
    and makers: "\<forall>k \<in> ids (bm_side m (opposite side)). \<forall>v. resv re' k = Some v \<longleftrightarrow>
      (\<exists>p y. (p, y) \<in> set ys \<and> o_id y = k \<and> v = (o_account y, opposite side, o_quantity y))"
  shows "coherent re' m'"
proof -
  have old: "t \<notin> ids (bm_side m sd)" for sd
    using coherentD [OF co] t unfolding in_ids_pair by (metis option.distinct(1))
  note split = in_open_orders [where side = side]
  have "resv re' k = Some v \<longleftrightarrow> v \<in> open_orders m' k" for k v
  proof -
    consider "k = t" | "k \<noteq> t" "k \<in> ids (bm_side m (opposite side))" | "k \<noteq> t" "k \<notin> ids (bm_side m (opposite side))" by blast
    then show ?thesis
    proof cases
      case 1
      have "(p, y) \<in> set ys \<Longrightarrow> o_id y \<noteq> t" "(p, y) \<in> set (bm_side m side) \<Longrightarrow> o_id y \<noteq> t" for p y
        using old ys(1) by (force simp: ids_def)+
      with 1 own rt show ?thesis unfolding split ys(2) by (auto split: if_splits)
    next
      case 2
      with dis have "(p, y) \<in> set (bm_side m' side) \<Longrightarrow> o_id y \<noteq> k" for p y
        using own(1,2) by (force simp: ids_def split: if_splits)
      then have "v \<in> open_orders m' k \<longleftrightarrow> (\<exists>p y. (p, y) \<in> set ys \<and> o_id y = k \<and> v = (o_account y, opposite side, o_quantity y))"
        unfolding split ys(2) by blast
      with 2 makers show ?thesis by blast
    next
      case 3
      have "(p, y) \<in> set ys \<Longrightarrow> o_id y \<noteq> k" for p y using 3(2) ys(1) by (force simp: ids_def)
      then have "v \<in> open_orders m' k \<longleftrightarrow> (\<exists>p y. (p, y) \<in> set (bm_side m side) \<and> o_id y = k \<and> v = (o_account y, side, o_quantity y))"
        unfolding split ys(2) own(1) using 3(1) own(2) by (auto split: if_splits)
      also have "\<dots> \<longleftrightarrow> v \<in> open_orders m k"
        unfolding split using 3(2) unfolding in_ids_pair by blast
      finally show ?thesis using co other 3 unfolding coherent_def by metis
    qed
  qed
  then show ?thesis unfolding coherent_def by blast
qed

text \<open>What a new order does: the specifications of the risk check and of the match, in sequence.\<close>

definition spec_new_order :: "Gateway \<Rightarrow> NewOrder \<Rightarrow> nat \<Rightarrow> (Execution, GatewayError) result" where
  "spec_new_order g order cap =
     (if \<exists>m. gw_maximum_received_order_id g = Some m \<and> no_order_id order \<le> m then Err (GwRisk DuplicateOrderId)
      else case spec_reserve (risk_abs (gw_risk g)) order of
        Err e \<Rightarrow> Err (GwRisk e)
      | Ok _ \<Rightarrow>
          (case spec_submit (book_abs (gw_book g)) order cap of
             Err e \<Rightarrow> Err (GwBook e)
           | Ok ex \<Rightarrow> Ok ex))"

lemma spec_reserve_Ok:
  assumes "spec_reserve (risk_abs re) order = Ok a'"
  obtains a where "acct re (no_account_id order) = Some a"
    "a' = (add_exposure (no_side order) (no_quantity order) a)\<lparr>ac_open_orders := ac_open_orders a + 1\<rparr>" "0 < no_quantity order"
  using assms spec_limits_Ok(1)
  by (auto simp: spec_reserve_def risk_abs_def split: if_splits option.splits)

text \<open>The engine between the reservation and the fills.\<close>

lemma reserved_backed:
  assumes inv: "gw_inv g" and t: "resv (gw_risk g) t = None" and r1: "resv r1 = (resv (gw_risk g))(t \<mapsto> v)"
  shows "backed r1 side (book_list (gw_book g) side)"
  unfolding backed_def
proof (intro allI impI)
  fix p x
  assume x: "(p, x) \<in> set (book_list (gw_book g) side)"
  then have "(p, x) \<in> set (bm_side (book_abs (gw_book g)) side)" by simp
  from coherentD [OF gw_invD(4) [OF inv] this] have r: "resv (gw_risk g) (o_id x) = Some (o_account x, side, o_quantity x)" .
  with t r1 have "resv r1 (o_id x) = Some (o_account x, side, o_quantity x)" by auto
  with book_positive [OF gw_invD(2) [OF inv] x]
  show "resv r1 (o_id x) = Some (o_account x, side, o_quantity x) \<and> 0 < o_quantity x" by simp
qed

lemma settle_rollback:
  assumes inv: "risk_inv r1" and v: "resv r1 t = Some (aid, side, q)"
  shows "\<exists>r2 a. settle r1 t 0 = Some (Ok r2) \<and> risk_inv r2 \<and> acct r1 aid = Some a \<and>
    acct r2 = (acct r1)(aid \<mapsto> close_account side 0 q a) \<and> resv r2 = (resv r1)(t := None) \<and>
    re_maximum_order_id r2 = re_maximum_order_id r1 \<and> re_killed r2 = re_killed r1"
  using settle_refines [OF inv, of t 0] v by (auto simp: effect_def)

lemma settled_close:
  assumes "acct r1 aid = Some a" and "acct r2 = (acct r1)(aid \<mapsto> close_account side 0 q a)"
  shows "settled r2 k = settled r1 k"
  using assms fill_position(2) [of side 0 q a] by (cases side) (auto simp: settled_def signed_def)

lemma new_order_risk:
  assumes inv: "gw_inv g" and order: "new_order_ok order" and r: "spec_reserve (risk_abs (gw_risk g)) order = Ok a'"
    and ex: "spec_submit (book_abs (gw_book g)) order cap = Ok ex" and t: "resv (gw_risk g) (no_order_id order) = None"
    and r1: "risk_inv r1" "acct r1 = (acct (gw_risk g))(no_account_id order \<mapsto> a')"
      "resv r1 = (resv (gw_risk g))(no_order_id order \<mapsto> (no_account_id order, no_side order, no_quantity order))"
      "re_maximum_order_id r1 = Some (no_order_id order)"
  shows "\<exists>r2. record_fills r1 (reports_of order (ex_fills ex)) = Some (r2, Ok ()) \<and> risk_inv r2 \<and>
    re_maximum_order_id r2 = Some (no_order_id order) \<and>
    (\<forall>k. settled r2 k = settled (gw_risk g) k + fill_delta (gw_risk g) (no_side order) (no_account_id order) k (ex_fills ex)) \<and>
    resv r2 (no_order_id order) = (if ex_resting ex + ex_discarded ex = 0 then None
      else Some (no_account_id order, no_side order, ex_resting ex + ex_discarded ex)) \<and>
    (\<forall>r3. resv r3 = (resv r2)(no_order_id order := if ex_resting ex = 0 then None
        else Some (no_account_id order, no_side order, ex_resting ex)) \<longrightarrow> coherent r3 (ex_book ex))"
proof -
  let ?b = "gw_book g" and ?sd = "no_side order" and ?t = "no_order_id order" and ?aid = "no_account_id order"
  let ?xs = "book_list ?b (opposite ?sd)"
  from ex obtain fills ys left where
    E: "match_list ?sd (no_price order) (no_quantity order) (bm_side (book_abs ?b) (opposite ?sd)) = (fills, ys, left)"
      "ex_fills ex = fills" "bm_side (ex_book ex) (opposite ?sd) = ys" "left = ex_resting ex + ex_discarded ex"
      "bm_side (ex_book ex) ?sd = (if ex_resting ex = 0 then bm_side (book_abs ?b) ?sd
         else enqueue (descending ?sd) (no_price order) (order_of order (ex_resting ex)) (bm_side (book_abs ?b) ?sd))"
    by (rule spec_submit_Ok) blast
  note ok = gw_invD(2) [OF inv] and co = gw_invD(4) [OF inv]
  from spec_reserve_Ok [OF r] obtain a where a: "acct (gw_risk g) ?aid = Some a" "ac_settled_position a' = ac_settled_position a"
    "0 < no_quantity order" by (metis exposure_simps(5) AccountState.select_convs(3) AccountState.surjective AccountState.update_convs(6))
  have tx: "?t \<notin> ids ?xs"
    using coherentD [OF co, of _ _ "opposite ?sd"] t unfolding in_ids_pair by fastforce
  have m: "match_list ?sd (no_price order) (no_quantity order) ?xs = (fills, ys, left)" using E(1) by simp
  have t1: "resv r1 ?t = (if no_quantity order = 0 then None else Some (?aid, ?sd, no_quantity order))" using a(3) by (simp add: r1(3))
  from record_fills_match [OF r1(1) m sides_disjoint(1) [OF ok] tx reserved_backed [OF inv t r1(3)] t1] obtain r2 where
    r2: "record_fills r1 (reports_of order fills) = Some (r2, Ok ())" "risk_inv r2" "re_maximum_order_id r2 = re_maximum_order_id r1"
      "resv r2 ?t = (if left = 0 then None else Some (?aid, ?sd, left))"
      "\<forall>k. k \<noteq> ?t \<longrightarrow> k \<notin> ids ?xs \<longrightarrow> resv r2 k = resv r1 k"
      "\<forall>k \<in> ids ?xs. \<forall>v. resv r2 k = Some v \<longleftrightarrow> (\<exists>p y. (p, y) \<in> set ys \<and> o_id y = k \<and> v = (o_account y, opposite ?sd, o_quantity y))"
      "\<forall>k. settled r2 k = settled r1 k + fill_delta r1 ?sd ?aid k fills" by blast
  have "resv r1 k = resv (gw_risk g) k" if "(p, k, q) \<in> set fills" for p k q
    using match_list_fill_ids [OF m that] tx by (auto simp: r1(3))
  then have delta: "fill_delta r1 ?sd ?aid k fills = fill_delta (gw_risk g) ?sd ?aid k fills" for k
    unfolding fill_delta_def by (intro arg_cong [where f = sum_list] map_cong refl) auto
  have "settled r1 k = settled (gw_risk g) k" for k using a(1,2) by (simp add: settled_def r1(2))
  then have pos: "\<forall>k. settled r2 k = settled (gw_risk g) k + fill_delta (gw_risk g) ?sd ?aid k fills"
    using r2(7) delta by simp
  have "coherent r3 (ex_book ex)" if r3: "resv r3 = (resv r2)(?t := if ex_resting ex = 0 then None else Some (?aid, ?sd, ex_resting ex))" for r3
  proof (rule coherent_fills [OF co t, where side = ?sd and ys = ys and q = "ex_resting ex" and pr = "no_price order"
        and xo = "order_of order (ex_resting ex)" and aid = ?aid])
    show "k \<notin> ids (bm_side (book_abs ?b) ?sd)" if "k \<in> ids (bm_side (book_abs ?b) (opposite ?sd))" for k
      using sides_disjoint(2) [OF ok, of k ?sd] that by auto
    show "ids ys \<subseteq> ids (bm_side (book_abs ?b) (opposite ?sd))" using match_list_facts(2) [OF m] by simp
    show "\<forall>k. k \<noteq> ?t \<longrightarrow> k \<notin> ids (bm_side (book_abs ?b) (opposite ?sd)) \<longrightarrow> resv r3 k = resv (gw_risk g) k"
      using r2(5) by (simp add: r3 r1(3))
    show "\<forall>k \<in> ids (bm_side (book_abs ?b) (opposite ?sd)). \<forall>v. resv r3 k = Some v \<longleftrightarrow>
        (\<exists>p y. (p, y) \<in> set ys \<and> o_id y = k \<and> v = (o_account y, opposite ?sd, o_quantity y))"
      using r2(6) tx by (metis (no_types, lifting) book_abs_sel(4) fun_upd_other r3)
  qed (use E(3,5) r3 in \<open>auto simp: order_of_def\<close>)
  then show ?thesis using r2(1-4) pos r1(4) E(2,4) by (intro exI [of _ r2]) simp
qed

definition positions_moved :: "Gateway \<Rightarrow> Gateway \<Rightarrow> NewOrder \<Rightarrow> Execution \<Rightarrow> bool" where
  "positions_moved g g' order ex \<longleftrightarrow>
     (\<forall>k. settled (gw_risk g') k = settled (gw_risk g) k + fill_delta (gw_risk g) (no_side order) (no_account_id order) k (ex_fills ex))"

definition received_before :: "Gateway \<Rightarrow> OrderId \<Rightarrow> bool" where
  "received_before g k \<longleftrightarrow> (\<exists>m. gw_maximum_received_order_id g = Some m \<and> k \<le> m)"

lemma new_order_start:
  assumes "\<not> received_before g (no_order_id order)" and "g0 = g\<lparr>gw_maximum_received_order_id := Some (no_order_id order)\<rparr>"
  shows "process_new_order g order rb = Option.bind (check_and_reserve (gw_risk g) order) (\<lambda>c. case c of
       Err e \<Rightarrow> Some (g0, rb, Err (GwRisk e))
     | Ok r1 \<Rightarrow> Option.bind (submit (gw_book g) order rb) (\<lambda>s. case s of
           Err e \<Rightarrow> settle_then (g0\<lparr>gw_risk := r1\<rparr>) (no_order_id order) rb (Err (GwBook e))
         | Ok (book, reports, summary) \<Rightarrow> Option.bind (record_fills r1 (reports_iter reports)) (\<lambda>f.
             let g2 = g0\<lparr>gw_risk := r1, gw_book := book, gw_risk := fst f\<rparr> in
             case snd f of Err e \<Rightarrow> Some (g2, reports, Err (GwRiskState e))
             | Ok _ \<Rightarrow> if ms_resting_quantity summary = 0 \<and> ms_filled_quantity summary < no_quantity order
                 then settle_then g2 (no_order_id order) reports (Ok (GwNewOrder summary))
                 else Some (g2, reports, Ok (GwNewOrder summary)))))"
    and "spec_new_order g order cap = (case spec_reserve (risk_abs (gw_risk g)) order of
        Err e \<Rightarrow> Err (GwRisk e)
      | Ok _ \<Rightarrow> (case spec_submit (book_abs (gw_book g)) order cap of Err e \<Rightarrow> Err (GwBook e) | Ok ex \<Rightarrow> Ok ex))"
  using assms unfolding process_new_order_def spec_new_order_def Let_def received_before_def by (auto split: option.splits)

definition reserved_for :: "Gateway \<Rightarrow> NewOrder \<Rightarrow> AccountState \<Rightarrow> RiskEngine \<Rightarrow> bool" where
  "reserved_for g order a' r1 \<longleftrightarrow> check_and_reserve (gw_risk g) order = Some (Ok r1) \<and> risk_inv r1 \<and>
     acct r1 = (acct (gw_risk g))(no_account_id order \<mapsto> a') \<and>
     resv r1 = (resv (gw_risk g))(no_order_id order \<mapsto> (no_account_id order, no_side order, no_quantity order)) \<and>
     re_maximum_order_id r1 = Some (no_order_id order) \<and> re_killed r1 = re_killed (gw_risk g)"

text \<open>A rejection by the book: settling nothing undoes the reservation.\<close>

lemma new_order_book_rejected:
  assumes r1: "reserved_for g order a' r1" and a': "spec_reserve (risk_abs (gw_risk g)) order = Ok a'"
    and t: "resv (gw_risk g) (no_order_id order) = None" and inv: "gw_inv g0"
    and g0: "g0 = g\<lparr>gw_maximum_received_order_id := Some (no_order_id order)\<rparr>"
  shows "\<exists>g'. settle_then (g0\<lparr>gw_risk := r1\<rparr>) (no_order_id order) rb x = Some (g', rb, x) \<and> gw_inv g' \<and> rolled_back g g' \<and>
    gw_expected_sequence g' = gw_expected_sequence g"
proof -
  let ?t = "no_order_id order" and ?aid = "no_account_id order"
  note r = r1 [unfolded reserved_for_def]
  have v1: "resv r1 ?t = Some (?aid, no_side order, no_quantity order)" using r by simp
  from settle_rollback [OF _ v1] r obtain r2 a where
    r2: "settle r1 ?t 0 = Some (Ok r2)" "risk_inv r2" "acct r1 ?aid = Some a"
      "acct r2 = (acct r1)(?aid \<mapsto> close_account (no_side order) 0 (no_quantity order) a)"
      "resv r2 = (resv r1)(?t := None)" "re_maximum_order_id r2 = re_maximum_order_id r1" "re_killed r2 = re_killed r1" by blast
  from spec_reserve_Ok [OF a'] obtain a0 where a0: "acct (gw_risk g) ?aid = Some a0"
    "a' = (add_exposure (no_side order) (no_quantity order) a0)\<lparr>ac_open_orders := ac_open_orders a0 + 1\<rparr>" by blast
  have "a = a'" using r2(3) r by simp
  then have undone: "acct r2 = acct (gw_risk g)" "resv r2 = resv (gw_risk g)"
    using a0 t r by (simp_all add: r2(4,5) close_reserve [simplified] fun_upd_idem)
  have "gw_inv (g0\<lparr>gw_risk := r2\<rparr>)" using inv undone r2(2,6) r by (auto simp: g0 gw_inv_def coherent_def)
  then show ?thesis using undone r2(1,7) r
    by (intro exI [of _ "g0\<lparr>gw_risk := r2\<rparr>"]) (simp add: settle_then_def rolled_back_def g0)
qed

text \<open>An execution: the fills are booked, and a discarded remainder is settled away.\<close>

lemma new_order_executed:
  assumes inv: "gw_inv g" and order: "new_order_ok order" and r1: "reserved_for g order a' r1"
    and a': "spec_reserve (risk_abs (gw_risk g)) order = Ok a'" and t: "resv (gw_risk g) (no_order_id order) = None"
    and ex: "spec_submit (book_abs (gw_book g)) order cap = Ok ex" and b': "executed b' rb rb' order ex"
    and g0: "g0 = g\<lparr>gw_maximum_received_order_id := Some (no_order_id order)\<rparr>"
  shows "\<exists>r2 g'. record_fills r1 (reports_of order (ex_fills ex)) = Some (r2, Ok ()) \<and>
    (if ex_resting ex = 0 \<and> fills_sum (ex_fills ex) < no_quantity order
     then settle_then (g0\<lparr>gw_book := b', gw_risk := r2\<rparr>) (no_order_id order) rb' x
     else Some (g0\<lparr>gw_book := b', gw_risk := r2\<rparr>, rb', x)) = Some (g', rb', x) \<and>
    gw_inv g' \<and> gw_book g' = b' \<and> positions_moved g g' order ex \<and> gw_expected_sequence g' = gw_expected_sequence g"
proof -
  let ?t = "no_order_id order" and ?aid = "no_account_id order"
  note r = r1 [unfolded reserved_for_def]
  from new_order_risk [OF inv order a' ex t] r obtain r2 where
    r2: "record_fills r1 (reports_of order (ex_fills ex)) = Some (r2, Ok ())" "risk_inv r2" "re_maximum_order_id r2 = Some ?t"
      "\<forall>k. settled r2 k = settled (gw_risk g) k + fill_delta (gw_risk g) (no_side order) ?aid k (ex_fills ex)"
      "resv r2 ?t = (if ex_resting ex + ex_discarded ex = 0 then None
         else Some (?aid, no_side order, ex_resting ex + ex_discarded ex))"
      "\<And>r3. resv r3 = (resv r2)(?t := if ex_resting ex = 0 then None
         else Some (?aid, no_side order, ex_resting ex)) \<Longrightarrow> coherent r3 (ex_book ex)" by blast
  have left: "no_quantity order = fills_sum (ex_fills ex) + (ex_resting ex + ex_discarded ex)"
    using ex by (rule spec_submit_Ok) (metis fills_sum_def match_list_facts(3))
  have tif: "ex_resting ex = 0 \<or> ex_discarded ex = 0" using ex by (rule spec_submit_Ok) auto
  have fin: "gw_inv (g0\<lparr>gw_book := b', gw_risk := r3\<rparr>) \<and> positions_moved g (g0\<lparr>gw_book := b', gw_risk := r3\<rparr>) order ex"
    if r3: "risk_inv r3" "re_maximum_order_id r3 = Some ?t" "\<And>k. settled r3 k = settled r2 k"
      "resv r3 = (resv r2)(?t := if ex_resting ex = 0 then None else Some (?aid, no_side order, ex_resting ex))" for r3
  proof -
    have "book_ok b'" "book_abs b' = ex_book ex" using b' by (auto simp: executed_def)
    moreover have "quantities_fit (ex_book ex)" by (rule spec_submit_fit [OF ex gw_invD(3) [OF inv] order])
    ultimately show ?thesis using inv r2(4) r2(6) [OF r3(4)] r3(1-3) unfolding gw_inv_def positions_moved_def by (simp add: g0)
  qed
  show ?thesis
  proof (cases "ex_resting ex = 0 \<and> fills_sum (ex_fills ex) < no_quantity order")
    case True
    then have v2: "resv r2 ?t = Some (?aid, no_side order, ex_discarded ex)" using r2(5) left by auto
    from settle_rollback [OF r2(2) v2] obtain r3 a where
      r3: "settle r2 ?t 0 = Some (Ok r3)" "risk_inv r3" "acct r2 ?aid = Some a"
        "acct r3 = (acct r2)(?aid \<mapsto> close_account (no_side order) 0 (ex_discarded ex) a)"
        "resv r3 = (resv r2)(?t := None)" "re_maximum_order_id r3 = re_maximum_order_id r2" by blast
    have "gw_inv (g0\<lparr>gw_book := b', gw_risk := r3\<rparr>) \<and> positions_moved g (g0\<lparr>gw_book := b', gw_risk := r3\<rparr>) order ex"
      by (rule fin) (use True r3 r2(3) settled_close [OF r3(3,4)] in auto)
    then show ?thesis using True r2(1) r3(1)
      by (intro exI [of _ r2] exI [of _ "g0\<lparr>gw_book := b', gw_risk := r3\<rparr>"]) (auto simp: settle_then_def g0)
  next
    case False
    have "resv r2 = (resv r2)(?t := if ex_resting ex = 0 then None else Some (?aid, no_side order, ex_resting ex))"
      using r2(5) tif left False by (cases "ex_resting ex = 0"; cases "ex_discarded ex = 0") auto
    then have "gw_inv (g0\<lparr>gw_book := b', gw_risk := r2\<rparr>) \<and> positions_moved g (g0\<lparr>gw_book := b', gw_risk := r2\<rparr>) order ex"
      by (intro fin) (use r2(2,3) in auto)
    then show ?thesis using False r2(1) by (intro exI [of _ r2] exI [of _ "g0\<lparr>gw_book := b', gw_risk := r2\<rparr>"]) (auto simp: g0)
  qed
qed

lemma new_order_refines:
  assumes inv: "gw_inv g" and order: "new_order_ok order" and rb: "reports_ok rb" "reports_iter rb = []"
  shows "case spec_new_order g order (reports_remaining_capacity rb) of
      Err e \<Rightarrow> \<exists>g'. process_new_order g order rb = Some (g', rb, Err e) \<and> gw_inv g' \<and> rolled_back g g' \<and>
        gw_expected_sequence g' = gw_expected_sequence g
    | Ok ex \<Rightarrow> \<exists>g' rb'. process_new_order g order rb = Some (g', rb', Ok (GwNewOrder (summary_of order ex))) \<and> gw_inv g' \<and>
        executed (gw_book g') rb rb' order ex \<and> positions_moved g g' order ex \<and> gw_expected_sequence g' = gw_expected_sequence g"
proof (cases "received_before g (no_order_id order)")
  case True
  then have "process_new_order g order rb = Some (g, rb, Err (GwRisk DuplicateOrderId))"
    by (auto simp: process_new_order_def received_before_def)
  moreover have "spec_new_order g order (reports_remaining_capacity rb) = Err (GwRisk DuplicateOrderId)"
    using True by (simp add: spec_new_order_def received_before_def)
  ultimately show ?thesis using inv by (simp add: rolled_back_def)
next
  case False
  let ?t = "no_order_id order" and ?re = "gw_risk g" and ?b = "gw_book g"
  let ?g = "g\<lparr>gw_maximum_received_order_id := Some ?t\<rparr>"
  have new: "\<forall>m. gw_maximum_received_order_id g = Some m \<longrightarrow> m < ?t" using False by (auto simp: received_before_def not_le)
  note t = fresh_order [OF inv new]
  note start = new_order_start [OF False refl]
  have inv0: "gw_inv ?g" using inv t(2) unfolding gw_inv_def by (auto simp: not_le)
  show ?thesis
  proof (cases "spec_reserve (risk_abs ?re) order")
    case (Err e)
    with check_and_reserve_refines [OF gw_invD(1) [OF inv] order] have "check_and_reserve ?re order = Some (Err e)" by simp
    with Err inv0 show ?thesis unfolding start by (simp add: rolled_back_def)
  next
    case (Ok a')
    with check_and_reserve_refines [OF gw_invD(1) [OF inv] order] obtain r1 where
      r1: "check_and_reserve ?re order = Some (Ok r1)" "reserved_for g order a' r1" unfolding reserved_for_def by auto
    note book = submit_refines [OF gw_invD(2) [OF inv] rb(1), of order]
    show ?thesis
    proof (cases "spec_submit (book_abs ?b) order (reports_remaining_capacity rb)")
      case err: (Err e)
      with book new_order_book_rejected [OF r1(2) Ok t(1) inv0 refl] show ?thesis unfolding start by (simp add: Ok r1(1))
    next
      case ok: (Ok ex)
      with book obtain b' rb' where b': "submit ?b order rb = Some (Ok (b', rb', summary_of order ex))" "executed b' rb rb' order ex" by auto
      have reports: "reports_iter rb' = reports_of order (ex_fills ex)" using b'(2) rb(2) by (simp add: executed_def)
      from new_order_executed [OF inv order r1(2) Ok t(1) ok b'(2) refl, of "Ok (GwNewOrder (summary_of order ex))"]
      obtain r2 g' where g': "record_fills r1 (reports_of order (ex_fills ex)) = Some (r2, Ok ())"
          "(if ex_resting ex = 0 \<and> fills_sum (ex_fills ex) < no_quantity order
            then settle_then (?g\<lparr>gw_book := b', gw_risk := r2\<rparr>) ?t rb' (Ok (GwNewOrder (summary_of order ex)))
            else Some (?g\<lparr>gw_book := b', gw_risk := r2\<rparr>, rb', Ok (GwNewOrder (summary_of order ex))))
           = Some (g', rb', Ok (GwNewOrder (summary_of order ex)))"
          "gw_inv g'" "gw_book g' = b'" "positions_moved g g' order ex" "gw_expected_sequence g' = gw_expected_sequence g" by blast
      have sm: "ms_resting_quantity (summary_of order ex) = ex_resting ex"
        "ms_filled_quantity (summary_of order ex) = fills_sum (ex_fills ex)" by (simp_all add: summary_of_def Let_def)
      have "process_new_order g order rb = Some (g', rb', Ok (GwNewOrder (summary_of order ex)))"
        unfolding start using b'(1) g'(1,2) r1(1) by (auto simp: reports sm Let_def split: if_splits)
      moreover have "spec_new_order g order (reports_remaining_capacity rb) = Ok ex" unfolding start by (simp add: ok Ok)
      ultimately show ?thesis using b'(2) g'(3-6) by auto
    qed
  qed
qed

section \<open>Cancels and replaces\<close>

lemma find_order_SomeD: "find_order k xs = Some (p, x) \<Longrightarrow> (p, x) \<in> set xs \<and> o_id x = k"
  by (induction xs) (auto simp: find_order_def split: if_splits)

lemma find_side_cases:
  assumes "book_ok b"
  obtains (Unknown) "find_side (book_abs b) k = None" "\<And>side. k \<notin> ids (book_list b side)"
  | (Found) side p x where "find_side (book_abs b) k = Some (side, p, x)" "(p, x) \<in> set (book_list b side)" "o_id x = k"
      "k \<notin> ids (book_list b (opposite side))"
proof (cases "find_side (book_abs b) k")
  case None
  then have "k \<notin> ids (book_list b side)" for side
    by (cases side) (auto simp: find_side_def find_order_None split: option.splits)
  with None show thesis by (rule Unknown)
next
  case (Some v)
  obtain side p x where v: "v = (side, p, x)" by (metis prod_cases3)
  with Some have "find_order k (book_list b side) = Some (p, x)" by (cases side) (auto simp: find_side_def split: option.splits)
  from find_order_SomeD [OF this] have x: "(p, x) \<in> set (book_list b side)" "o_id x = k" by auto
  then have "k \<in> ids (book_list b side)" by (force simp: ids_def)
  from sides_disjoint(2) [OF assms this] Some v x show thesis by (intro Found) auto
qed

text \<open>The risk engine finds the orders the book finds.\<close>

lemma coherent_find:
  assumes inv: "gw_inv g"
  shows "resv (gw_risk g) k = map_option (\<lambda>(side, p, x). (o_account x, side, o_quantity x)) (find_side (book_abs (gw_book g)) k)"
  using gw_invD(2) [OF inv]
proof (cases rule: find_side_cases [where k = k])
  case Unknown
  have "False" if "resv (gw_risk g) k = Some (aid, side, q)" for aid side q
  proof -
    from coherentE [OF gw_invD(4) [OF inv] that] obtain p x where
      "(p, x) \<in> set (bm_side (book_abs (gw_book g)) side)" "o_id x = k" by blast
    with Unknown(2) [of side] show False by (force simp: ids_def)
  qed
  with Unknown show ?thesis by (cases "resv (gw_risk g) k") auto
next
  case (Found side p x)
  with coherentD [OF gw_invD(4) [OF inv], of p x side] show ?thesis by auto
qed

lemma coherent_set_side:
  assumes co: "coherent re m" and k: "k \<notin> ids (bm_side m (opposite side))" and r: "resv re' = (resv re)(k := v')"
    and rest: "\<And>p y. o_id y \<noteq> k \<Longrightarrow> (p, y) \<in> set xs \<longleftrightarrow> (p, y) \<in> set (bm_side m side)"
    and new: "\<And>v. (\<exists>p y. (p, y) \<in> set xs \<and> o_id y = k \<and> v = (o_account y, side, o_quantity y)) \<longleftrightarrow> v' = Some v"
  shows "coherent re' (set_side m side xs)"
proof -
  have "resv re' j = Some v \<longleftrightarrow> v \<in> open_orders (set_side m side xs) j" for j v
  proof (cases "j = k")
    case True
    with k have "\<not> (\<exists>p y. (p, y) \<in> set (bm_side m (opposite side)) \<and> o_id y = j)" by (simp add: in_ids_pair)
    then show ?thesis unfolding in_open_orders [where side = side] r using new True by auto
  next
    case False
    then have "v \<in> open_orders (set_side m side xs) j \<longleftrightarrow> v \<in> open_orders m j"
      unfolding in_open_orders [where side = side] by (simp, use rest False in blast)
    with False co show ?thesis unfolding coherent_def r by (metis fun_upd_other)
  qed
  then show ?thesis unfolding coherent_def by blast
qed

definition spec_process_cancel :: "Gateway \<Rightarrow> CancelOrder \<Rightarrow> (BookModel \<times> CancelledOrder, GatewayError) result" where
  "spec_process_cancel g c =
     (case find_side (book_abs (gw_book g)) (co_order_id c) of
        None \<Rightarrow> Err (GwRisk UnknownOrder)
      | Some (side, p, x) \<Rightarrow>
          if o_account x \<noteq> co_account_id c then Err (GwRisk NotOrderOwner)
          else case spec_cancel (book_abs (gw_book g)) c of Err e \<Rightarrow> Err (GwBook e) | Ok r \<Rightarrow> Ok r)"

definition positions_kept :: "Gateway \<Rightarrow> Gateway \<Rightarrow> bool" where
  "positions_kept g g' \<longleftrightarrow> (\<forall>k. settled (gw_risk g') k = settled (gw_risk g) k)"

lemma process_cancel_refines:
  assumes inv: "gw_inv g"
  shows "case spec_process_cancel g c of
      Err e \<Rightarrow> process_cancel g c = Some (g, Err e)
    | Ok (m, out) \<Rightarrow> \<exists>g'. process_cancel g c = Some (g', Ok (GwCancelled out)) \<and> gw_inv g' \<and> book_abs (gw_book g') = m \<and>
        resv (gw_risk g') = (resv (gw_risk g))(co_order_id c := None) \<and> positions_kept g g' \<and>
        gw_expected_sequence g' = gw_expected_sequence g"
  using gw_invD(2) [OF inv]
proof (cases rule: find_side_cases [where k = "co_order_id c"])
  case Unknown
  then have "resv (gw_risk g) (co_order_id c) = None" using coherent_find [OF inv, of "co_order_id c"] by simp
  with Unknown can_cancel_iff [OF gw_invD(1) [OF inv]] show ?thesis by (simp add: spec_process_cancel_def process_cancel_def)
next
  case (Found side p x)
  let ?re = "gw_risk g" and ?k = "co_order_id c" and ?b = "gw_book g"
  have v: "resv ?re ?k = Some (o_account x, side, o_quantity x)" using coherent_find [OF inv, of ?k] Found(1) by simp
  note can = can_cancel_iff [OF gw_invD(1) [OF inv], of ?k "co_account_id c"]
  note book = book_cancel_refines [OF gw_invD(2) [OF inv], of c]
  show ?thesis
  proof (cases "o_account x = co_account_id c \<and> co_instrument_id c = ob_instrument ?b")
    case False
    with Found v can book show ?thesis by (auto simp: spec_process_cancel_def process_cancel_def spec_cancel_def)
  next
    case True
    let ?out = "\<lparr>cn_order_id = o_id x, cn_account_id = o_account x, cn_quantity = o_quantity x\<rparr>"
    let ?m = "set_side (book_abs ?b) side (delete_order ?k (bm_side (book_abs ?b) side))"
    have sc: "spec_cancel (book_abs ?b) c = Ok (?m, ?out)" using True Found by (simp add: spec_cancel_def)
    with book obtain b' where b': "cancel ?b c = Some (Ok (b', ?out))" "book_ok b'" "book_abs b' = ?m" by auto
    from cancel_refines [OF gw_invD(1) [OF inv], of ?k "co_account_id c"] v True obtain a re' where
      re': "acct ?re (o_account x) = Some a" "cancel_reservation ?re ?k (co_account_id c) = Some (Ok (re', o_quantity x))"
        "effect ?re re' (o_account x) (close_account side 0 (o_quantity x) a) ?k None" by auto
    note e = re'(3) [unfolded effect_def]
    have fit: "quantities_fit ?m" by (rule spec_cancel_fit [OF sc gw_invD(3) [OF inv]])
    have "coherent re' ?m"
      by (rule coherent_set_side [OF gw_invD(4) [OF inv], where k = ?k and v' = None])
        (use Found(4) e in \<open>auto simp: delete_order_def\<close>)
    then have "gw_inv (g\<lparr>gw_book := b', gw_risk := re'\<rparr>)" using inv b'(2,3) fit e unfolding gw_inv_def by simp
    moreover have "settled re' k = settled ?re k" for k using settled_close [OF re'(1)] e by blast
    ultimately show ?thesis using True Found v can b' re'(2) sc e
      by (auto simp: spec_process_cancel_def process_cancel_def positions_kept_def)
  qed
qed

definition spec_process_replace :: "Gateway \<Rightarrow> ReplaceOrder \<Rightarrow> (BookModel \<times> ReplacedOrder, GatewayError) result" where
  "spec_process_replace g r =
     (case find_side (book_abs (gw_book g)) (ro_order_id r) of
        None \<Rightarrow> Err (GwRisk UnknownOrder)
      | Some (side, p, x) \<Rightarrow>
          if o_account x \<noteq> ro_account_id r then Err (GwRisk NotOrderOwner)
          else case spec_adjust (the (acct (gw_risk g) (o_account x))) side (o_quantity x) (ro_price r) (ro_quantity r) of
            Err e \<Rightarrow> Err (GwRisk e)
          | Ok _ \<Rightarrow> (case spec_replace (book_abs (gw_book g)) r of Err e \<Rightarrow> Err (GwBook e) | Ok r \<Rightarrow> Ok r))"

lemma spec_adjust_position: "spec_adjust a side q price q' = Ok a' \<Longrightarrow> ac_settled_position a' = ac_settled_position a"
  unfolding spec_adjust_def Let_def by (auto simp: and_then_Ok_iff split: if_splits)

lemma coherent_replaced:
  assumes co: "coherent re (book_abs b)" and ok: "book_ok b" and m: "spec_replace (book_abs b) r = Ok (m, out)"
    and f: "find_side (book_abs b) (ro_order_id r) = Some (side, p, x)" "(p, x) \<in> set (book_list b side)" "o_id x = ro_order_id r"
      "ro_order_id r \<notin> ids (book_list b (opposite side))"
    and re': "resv re' = (resv re)(ro_order_id r \<mapsto> (o_account x, side, ro_quantity r))"
  shows "coherent re' m"
proof -
  let ?k = "ro_order_id r"
  have set: "coherent re' (set_side (book_abs b) side xs)"
    if "\<And>p y. o_id y \<noteq> ?k \<Longrightarrow> (p, y) \<in> set xs \<longleftrightarrow> (p, y) \<in> set (book_list b side)"
      "\<And>v. (\<exists>p y. (p, y) \<in> set xs \<and> o_id y = ?k \<and> v = (o_account y, side, o_quantity y)) \<longleftrightarrow> v = (o_account x, side, ro_quantity r)" for xs
    by (rule coherent_set_side [OF co _ re']) (use f(4) that in auto)
  show ?thesis
  proof (cases "ro_price r = p \<and> ro_quantity r < o_quantity x")
    case True
    let ?y = "x\<lparr>o_quantity := ro_quantity r\<rparr>"
    let ?xs = "map (\<lambda>e. if o_id (snd e) = ?k then (p, ?y) else e) (book_list b side)"
    have "(q, y) \<in> set ?xs \<and> o_id y = ?k \<longleftrightarrow> (q, y) = (p, ?y)" for q y using f(2,3) by (force split: if_splits)
    moreover have "(q, y) \<in> set ?xs \<longleftrightarrow> (q, y) \<in> set (book_list b side)" if "o_id y \<noteq> ?k" for q y
      using that f(3) by (force split: if_splits)
    ultimately have "coherent re' (set_side (book_abs b) side ?xs)" by (intro set) (simp_all only: conj_assoc [symmetric], auto)
    moreover have "m = set_side (book_abs b) side ?xs" using m f(1) True by (auto simp: spec_replace_def split: if_splits)
    ultimately show ?thesis by simp
  next
    case False
    let ?y = "\<lparr>o_id = ?k, o_account = ro_account_id r, o_quantity = ro_quantity r, o_sequence = ro_sequence r\<rparr>"
    have m': "m = set_side (book_abs b) side (enqueue (descending side) (ro_price r) ?y (delete_order ?k (book_list b side)))"
      "o_account x = ro_account_id r"
      using m f(1) False by (auto simp: spec_replace_def and_then_Ok_iff split: if_splits)
    show ?thesis unfolding m'(1) by (rule set) (auto simp: delete_order_def m'(2) intro!: exI [of _ "ro_price r"] exI [of _ ?y])
  qed
qed

lemma process_replace_refines:
  assumes inv: "gw_inv g" and r: "replace_order_ok r"
  shows "case spec_process_replace g r of
      Err e \<Rightarrow> process_replace g r = Some (g, Err e)
    | Ok (m, out) \<Rightarrow> \<exists>g'. process_replace g r = Some (g', Ok (GwReplaced out)) \<and> gw_inv g' \<and> book_abs (gw_book g') = m \<and>
        positions_kept g g' \<and> gw_expected_sequence g' = gw_expected_sequence g"
proof -
  let ?re = "gw_risk g" and ?k = "ro_order_id r" and ?b = "gw_book g"
  have w: "i64_ok (ro_price r)" "u64_ok (ro_quantity r)" using r by (auto simp: replace_order_ok_def)
  note adj = adjust_refines [OF gw_invD(1) [OF inv] w, of ?k "ro_account_id r"]
  note book = replace_refines [OF gw_invD(2) [OF inv], of r]
  from gw_invD(2) [OF inv] show ?thesis
  proof (cases rule: find_side_cases [where k = ?k])
    case Unknown
    then have "resv ?re ?k = None" using coherent_find [OF inv, of ?k] by simp
    with Unknown adj show ?thesis by (simp add: spec_process_replace_def process_replace_def)
  next
    case (Found side p x)
    have v: "resv ?re ?k = Some (o_account x, side, o_quantity x)" using coherent_find [OF inv, of ?k] Found(1) by simp
    show ?thesis
    proof (cases "o_account x = ro_account_id r")
      case False
      with Found v adj show ?thesis by (auto simp: spec_process_replace_def process_replace_def)
    next
      case own: True
      from adj v own have "\<exists>a. acct ?re (ro_account_id r) = Some a \<and>
          (case spec_adjust a side (o_quantity x) (ro_price r) (ro_quantity r) of
             Err e \<Rightarrow> adjust_reservation ?re ?k (ro_account_id r) (ro_price r) (ro_quantity r) = Some (Err e)
           | Ok a' \<Rightarrow> \<exists>re'. adjust_reservation ?re ?k (ro_account_id r) (ro_price r) (ro_quantity r)
                 = Some (Ok (re', o_quantity x - ro_quantity r, o_quantity x)) \<and>
               effect ?re re' (ro_account_id r) a' ?k (Some (ro_account_id r, side, ro_quantity r)))" by simp
      then obtain a where a: "acct ?re (ro_account_id r) = Some a"
        "case spec_adjust a side (o_quantity x) (ro_price r) (ro_quantity r) of
             Err e \<Rightarrow> adjust_reservation ?re ?k (ro_account_id r) (ro_price r) (ro_quantity r) = Some (Err e)
           | Ok a' \<Rightarrow> \<exists>re'. adjust_reservation ?re ?k (ro_account_id r) (ro_price r) (ro_quantity r)
                 = Some (Ok (re', o_quantity x - ro_quantity r, o_quantity x)) \<and>
               effect ?re re' (ro_account_id r) a' ?k (Some (ro_account_id r, side, ro_quantity r))" by blast
      note spec = spec_process_replace_def [of g r, unfolded Found(1)]
      show ?thesis
      proof (cases "spec_adjust a side (o_quantity x) (ro_price r) (ro_quantity r)")
        case (Err e)
        with a own show ?thesis by (simp add: spec process_replace_def)
      next
        case (Ok a')
        with a(2) obtain re' where
          re': "adjust_reservation ?re ?k (ro_account_id r) (ro_price r) (ro_quantity r)
             = Some (Ok (re', o_quantity x - ro_quantity r, o_quantity x))"
            "effect ?re re' (ro_account_id r) a' ?k (Some (ro_account_id r, side, ro_quantity r))" by auto
        note e = re'(2) [unfolded effect_def]
        have "(p, x) \<in> set (bm_side (book_abs ?b) side)" using Found(2) by simp
        from adjust_restore [OF gw_invD(1) [OF inv] w re'(1)] quantities_fitD [OF gw_invD(3) [OF inv] this]
        have undo: "restore_reservation re' ?k (ro_account_id r) (o_quantity x) = Some (Ok ?re)" by simp
        show ?thesis
        proof (cases "spec_replace (book_abs ?b) r")
          case err: (Err e)
          with book undo re'(1) a(1) own Ok show ?thesis by (simp add: spec process_replace_def)
        next
          case ok: (Ok mo)
          obtain m out where mo: "mo = (m, out)" by (cases mo) auto
          with ok book obtain b' where b': "replace ?b r = Some (Ok (b', out))" "book_ok b'" "book_abs b' = m" by auto
          have "coherent re' m"
            by (rule coherent_replaced [OF gw_invD(4) [OF inv] gw_invD(2) [OF inv] _ Found]) (use ok mo e own in auto)
          moreover have "quantities_fit m" using spec_replace_fit [OF _ gw_invD(3) [OF inv] r] ok mo by blast
          ultimately have "gw_inv (g\<lparr>gw_risk := re', gw_book := b'\<rparr>)" using inv b'(2,3) e unfolding gw_inv_def by simp
          moreover have "settled re' k = settled ?re k" for k
            using e a(1) spec_adjust_position [OF Ok] by (simp add: settled_def)
          ultimately show ?thesis using b'(1,3) re'(1) a(1) own Ok ok mo
            by (simp add: spec process_replace_def positions_kept_def)
        qed
      qed
    qed
  qed
qed

end
