(* ===== verification/GatewayProps.thy ===== *)
theory GatewayProps
  imports GatewayOps
begin

text \<open>
  The gateways reachable from a fresh one by commands, and the properties that span the wire, the
  risk engine and the book: no command panics or fails internally, rejections are atomic, the open
  orders are exactly the reservations, and the positions sum to zero.
\<close>

section \<open>Balanced positions\<close>

definition balanced :: "RiskEngine \<Rightarrow> bool" where
  "balanced re \<longleftrightarrow> (\<exists>A. finite A \<and> (\<forall>k. k \<notin> A \<longrightarrow> settled re k = 0) \<and> (\<Sum>k\<in>A. settled re k) = 0)"

lemma balanced_over:
  assumes "balanced re" and B: "finite B" "\<forall>k. k \<notin> B \<longrightarrow> settled re k = 0"
  shows "(\<Sum>k\<in>B. settled re k) = 0"
proof -
  from assms(1) obtain A where A: "finite A" "\<forall>k. k \<notin> A \<longrightarrow> settled re k = 0" "(\<Sum>k\<in>A. settled re k) = 0"
    unfolding balanced_def by blast
  have "(\<Sum>k\<in>B. settled re k) = (\<Sum>k\<in>A \<union> B. settled re k)" by (rule sum.mono_neutral_left) (use A B in auto)
  also have "\<dots> = (\<Sum>k\<in>A. settled re k)" by (rule sum.mono_neutral_right) (use A B in auto)
  finally show ?thesis using A(3) by simp
qed

definition fill_accounts :: "RiskEngine \<Rightarrow> AccountId \<Rightarrow> (PriceTicks \<times> OrderId \<times> Quantity) list \<Rightarrow> AccountId set" where
  "fill_accounts re taker fills = insert taker ((\<lambda>(p, k, q). fst (the (resv re k))) ` set fills)"

lemma fill_delta_sum:
  assumes "finite A" and "fill_accounts re taker fills \<subseteq> A"
  shows "(\<Sum>a\<in>A. fill_delta re side taker a fills) = 0"
  using assms(2)
proof (induction fills)
  case (Cons f fills)
  obtain p k q where f: "f = (p, k, q)" by (metis prod_cases3)
  have "fst (the (resv re k)) \<in> A" "taker \<in> A" using Cons.prems by (auto simp: fill_accounts_def f)
  then have "(\<Sum>a\<in>A. if a = fst (the (resv re k)) then signed (opposite side) q else 0) = signed (opposite side) q"
    "(\<Sum>a\<in>A. if a = taker then signed side q else 0) = signed side q" using assms(1) by (simp_all add: sum.delta)
  moreover have "(\<Sum>a\<in>A. fill_delta re side taker a fills) = 0" using Cons by (auto simp: fill_accounts_def)
  ultimately show ?case by (simp add: f fill_delta_def sum.distrib)
qed (simp add: fill_delta_def)

lemma fill_delta_other: "a \<notin> fill_accounts re taker fills \<Longrightarrow> fill_delta re side taker a fills = 0"
  by (induction fills) (auto simp: fill_delta_def fill_accounts_def)

lemma balanced_moved:
  assumes "balanced (gw_risk g)" and "positions_moved g g' order ex"
  shows "balanced (gw_risk g')"
proof -
  from assms(1) obtain A where A: "finite A" "\<forall>k. k \<notin> A \<longrightarrow> settled (gw_risk g) k = 0" unfolding balanced_def by blast
  let ?B = "A \<union> fill_accounts (gw_risk g) (no_account_id order) (ex_fills ex)"
  have B: "finite ?B" using A(1) by (simp add: fill_accounts_def)
  note move = assms(2) [unfolded positions_moved_def]
  have "settled (gw_risk g') k = 0" if "k \<notin> ?B" for k using move A(2) that fill_delta_other by simp
  moreover have "(\<Sum>k\<in>?B. settled (gw_risk g') k) = 0"
    using move balanced_over [OF assms(1) B] A(2) fill_delta_sum [OF B Un_upper2] by (simp add: sum.distrib)
  ultimately show ?thesis unfolding balanced_def using B by blast
qed

lemma balanced_same: "balanced re \<Longrightarrow> (\<And>k. settled re' k = settled re k) \<Longrightarrow> balanced re'"
  by (simp add: balanced_def)

section \<open>Commands\<close>

definition business_reject :: "GatewayError \<Rightarrow> bool" where
  "business_reject e \<longleftrightarrow> (\<exists>why. e = GwRisk why \<or> e = GwBook why)"

definition dispatched :: "Gateway \<Rightarrow> ReportBuffer \<Rightarrow> Gateway \<Rightarrow> ReportBuffer \<Rightarrow> (GatewayOutcome, GatewayError) result \<Rightarrow> bool" where
  "dispatched g rb g' rb' r \<longleftrightarrow> gw_inv g' \<and> gw_expected_sequence g' = gw_expected_sequence g \<and> reports_ok rb' \<and>
     length (rb_entries rb') = length (rb_entries rb) \<and> (balanced (gw_risk g) \<longrightarrow> balanced (gw_risk g')) \<and>
     (\<forall>e. r = Err e \<longrightarrow> rolled_back g g' \<and> rb' = rb \<and> business_reject e)"

lemma dispatchedI_kept:
  "gw_inv g' \<Longrightarrow> gw_expected_sequence g' = gw_expected_sequence g \<Longrightarrow> reports_ok rb \<Longrightarrow> positions_kept g g' \<Longrightarrow>
   dispatched g rb g' rb (Ok out)"
  unfolding dispatched_def positions_kept_def using balanced_same by blast

lemma dispatchedI_rejected:
  assumes "gw_inv g'" and "gw_expected_sequence g' = gw_expected_sequence g" and "reports_ok rb" and "rolled_back g g'"
    and "business_reject e"
  shows "dispatched g rb g' rb (Err e)"
proof -
  have "settled (gw_risk g') k = settled (gw_risk g) k" for k using assms(4) by (simp add: rolled_back_def settled_def)
  with assms balanced_same show ?thesis unfolding dispatched_def by blast
qed

lemma rolled_back_refl [simp]: "rolled_back g g"
  by (simp add: rolled_back_def)

lemma spec_rejects:
  "spec_new_order g order cap = Err e \<Longrightarrow> business_reject e"
  "spec_process_cancel g c = Err e \<Longrightarrow> business_reject e"
  "spec_process_replace g r = Err e \<Longrightarrow> business_reject e"
  unfolding spec_new_order_def spec_process_cancel_def spec_process_replace_def business_reject_def
  by (auto split: if_splits result.splits option.splits prod.splits)

lemma dispatch_effect:
  assumes inv: "gw_inv g" and c: "command_ok command" and rb: "reports_ok rb" "reports_iter rb = []"
  shows "\<exists>g' rb' r. dispatch g command rb = Some (g', rb', r) \<and> dispatched g rb g' rb' r"
proof (cases command)
  case (CmdNewOrder order)
  note run = new_order_refines [OF inv _ rb, of order]
  show ?thesis
  proof (cases "spec_new_order g order (reports_remaining_capacity rb)")
    case (Err e)
    with run c CmdNewOrder obtain g' where g': "process_new_order g order rb = Some (g', rb, Err e)" "gw_inv g'" "rolled_back g g'"
      "gw_expected_sequence g' = gw_expected_sequence g" by auto
    from dispatchedI_rejected [OF g'(2,4) rb(1) g'(3) spec_rejects(1) [OF Err]] g'(1)
    show ?thesis by (simp add: dispatch_def CmdNewOrder)
  next
    case (Ok ex)
    with run c CmdNewOrder obtain g' rb' where g': "process_new_order g order rb = Some (g', rb', Ok (GwNewOrder (summary_of order ex)))"
      "gw_inv g'" "executed (gw_book g') rb rb' order ex" "positions_moved g g' order ex"
      "gw_expected_sequence g' = gw_expected_sequence g" by auto
    then show ?thesis using balanced_moved [OF _ g'(4)] by (simp add: dispatch_def CmdNewOrder dispatched_def executed_def)
  qed
next
  case (CmdCancelOrder x)
  show ?thesis
  proof (cases "spec_process_cancel g x")
    case (Err e)
    with process_cancel_refines [OF inv, of x] have "process_cancel g x = Some (g, Err e)" by simp
    with dispatchedI_rejected [OF inv refl rb(1) rolled_back_refl spec_rejects(2) [OF Err]]
    show ?thesis by (simp add: dispatch_def CmdCancelOrder)
  next
    case (Ok mo)
    with process_cancel_refines [OF inv, of x] obtain g' out where "process_cancel g x = Some (g', Ok (GwCancelled out))" "gw_inv g'"
      "positions_kept g g'" "gw_expected_sequence g' = gw_expected_sequence g" by (cases mo) auto
    with dispatchedI_kept [OF _ _ rb(1)] show ?thesis by (simp add: dispatch_def CmdCancelOrder)
  qed
next
  case (CmdReplaceOrder x)
  with c have x: "replace_order_ok x" by simp
  show ?thesis
  proof (cases "spec_process_replace g x")
    case (Err e)
    with process_replace_refines [OF inv x] have "process_replace g x = Some (g, Err e)" by simp
    with dispatchedI_rejected [OF inv refl rb(1) rolled_back_refl spec_rejects(3) [OF Err]]
    show ?thesis by (simp add: dispatch_def CmdReplaceOrder)
  next
    case (Ok mo)
    with process_replace_refines [OF inv x] obtain g' out where "process_replace g x = Some (g', Ok (GwReplaced out))" "gw_inv g'"
      "positions_kept g g'" "gw_expected_sequence g' = gw_expected_sequence g" by (cases mo) auto
    with dispatchedI_kept [OF _ _ rb(1)] show ?thesis by (simp add: dispatch_def CmdReplaceOrder)
  qed
qed

lemma reports_clear_entries [simp]: "rb_entries (reports_clear rb) = rb_entries rb"
  by (simp add: reports_clear_def)

lemma reports_clear_idem [simp]: "reports_clear (reports_clear rb) = reports_clear rb"
  by (simp add: reports_clear_def)

definition advanced :: "Gateway \<Rightarrow> SequenceNumber \<Rightarrow> Gateway \<Rightarrow> ReportBuffer \<Rightarrow> ReportBuffer \<Rightarrow> (GatewayOutcome, GatewayError) result \<Rightarrow> bool" where
  "advanced g received g' rb rb' r \<longleftrightarrow>
     (if received \<noteq> gw_expected_sequence g
      then g' = g \<and> rb' = reports_clear rb \<and> r = Err (GwSequence (gw_expected_sequence g) received)
      else if gw_expected_sequence g = 2 ^ 64 - 1
      then g' = g \<and> rb' = reports_clear rb \<and> r = Err (GwRiskState ArithmeticOverflow)
      else gw_expected_sequence g' = gw_expected_sequence g + 1 \<and>
        (\<forall>e. r = Err e \<longrightarrow> rolled_back g g' \<and> rb' = reports_clear rb \<and> business_reject e))"

lemma accept_sequence_cases:
  assumes "u64_ok (gw_expected_sequence g)"
  shows "accept_sequence g received =
    (if received \<noteq> gw_expected_sequence g then Err (GwSequence (gw_expected_sequence g) received)
     else if gw_expected_sequence g = 2 ^ 64 - 1 then Err (GwRiskState ArithmeticOverflow)
     else Ok (g\<lparr>gw_expected_sequence := gw_expected_sequence g + 1\<rparr>))"
  using assms by (auto simp: accept_sequence_def check_sequence_def checked_add_def u64_ok_def)

lemma process_command_effect:
  assumes inv: "gw_inv g" and c: "command_ok command"
  shows "\<exists>g' rb' r. process_command g command rb = Some (g', rb', r) \<and> gw_inv g' \<and> reports_ok rb' \<and>
    length (rb_entries rb') = length (rb_entries rb) \<and>
    (balanced (gw_risk g) \<longrightarrow> balanced (gw_risk g')) \<and> advanced g (command_sequence command) g' rb rb' r"
proof -
  let ?g = "g\<lparr>gw_expected_sequence := gw_expected_sequence g + 1\<rparr>" and ?rb = "reports_clear rb"
  have u: "u64_ok (gw_expected_sequence g)" using inv by (simp add: gw_inv_def)
  note acc = accept_sequence_cases [OF u, of "command_sequence command"]
  show ?thesis
  proof (cases "command_sequence command = gw_expected_sequence g \<and> gw_expected_sequence g \<noteq> 2 ^ 64 - 1")
    case False
    then show ?thesis using acc inv by (auto simp: process_command_def advanced_def)
  next
    case True
    with u have "u64_ok (gw_expected_sequence g + 1)" by (auto simp: u64_ok_def)
    with inv have "gw_inv ?g" by (auto simp: gw_inv_def)
    from dispatch_effect [OF this c, of ?rb] obtain g' rb' r where
      d: "dispatch ?g command ?rb = Some (g', rb', r)" "dispatched ?g ?rb g' rb' r" by auto
    have "process_command g command rb = Some (g', rb', r)" using acc True d(1) by (simp add: process_command_def)
    moreover have "rolled_back ?g g' \<Longrightarrow> rolled_back g g'" by (simp add: rolled_back_def)
    ultimately show ?thesis using d(2) True unfolding dispatched_def advanced_def by auto
  qed
qed

lemma process_frame_command:
  "process_frame g frame rb = (case parse_message frame of
     Err e \<Rightarrow> Some (g, reports_clear rb, Err (GwParse e))
   | Ok m \<Rightarrow> process_command g (to_command m) rb)"
  by (auto simp: process_frame_def process_command_def message_sequence_command split: result.splits)

section \<open>Reachable gateways\<close>

text \<open>
  An engine with registered accounts and kill switches set in any way; then commands and frames, accepted or not.
  The gateway's constructor takes any risk engine; one that already has reservations, which no book backs, is not
  considered. Restored gateways are the subject of theory \<open>GatewaySnapshot\<close>.
\<close>

inductive registered :: "nat \<Rightarrow> nat \<Rightarrow> RiskEngine \<Rightarrow> bool" for ACCOUNTS ORDERS where
  no_accounts: "registered ACCOUNTS ORDERS (risk_new ACCOUNTS ORDERS)"
| one_more: "registered ACCOUNTS ORDERS re \<Longrightarrow> limits_fit limits \<Longrightarrow> register_account re aid limits = Ok re' \<Longrightarrow>
    registered ACCOUNTS ORDERS re'"
| switched: "registered ACCOUNTS ORDERS re \<Longrightarrow> registered ACCOUNTS ORDERS (set_kill_switch re k)"
| account_switched: "registered ACCOUNTS ORDERS re \<Longrightarrow> set_account_kill_switch re aid k = Some (Ok re') \<Longrightarrow> registered ACCOUNTS ORDERS re'"

lemma account_switch_kept:
  assumes "set_account_kill_switch re aid k = Some (Ok re')"
  shows "re_maximum_order_id re' = re_maximum_order_id re" "length (re_accounts re') = length (re_accounts re)" "re_reservations re' = re_reservations re"
  using assms by (auto simp: set_account_kill_switch_def set_account_def and_then_Ok_iff split: Option.bind_split_asm)

inductive gw_reachable :: "nat \<Rightarrow> nat \<Rightarrow> nat \<Rightarrow> nat \<Rightarrow> InstrumentId \<Rightarrow> Gateway \<Rightarrow> bool" for ACCOUNTS RISK_ORDERS LEVELS ORDERS inst where
  fresh: "registered ACCOUNTS RISK_ORDERS risk \<Longrightarrow>
    gw_reachable ACCOUNTS RISK_ORDERS LEVELS ORDERS inst (gateway_new LEVELS ORDERS risk inst)"
| commanded: "gw_reachable ACCOUNTS RISK_ORDERS LEVELS ORDERS inst g \<Longrightarrow> command_ok command \<Longrightarrow>
    process_command g command rb = Some (g', rb', r) \<Longrightarrow> gw_reachable ACCOUNTS RISK_ORDERS LEVELS ORDERS inst g'"
| framed: "gw_reachable ACCOUNTS RISK_ORDERS LEVELS ORDERS inst g \<Longrightarrow>
    process_frame g frame rb = Some (g', rb', r) \<Longrightarrow> gw_reachable ACCOUNTS RISK_ORDERS LEVELS ORDERS inst g'"

definition capacities_ok :: "nat \<Rightarrow> nat \<Rightarrow> nat \<Rightarrow> nat \<Rightarrow> bool" where
  "capacities_ok ACCOUNTS RISK_ORDERS LEVELS ORDERS \<longleftrightarrow>
     ACCOUNTS \<le> 2 ^ 31 \<and> RISK_ORDERS \<le> 2 ^ 31 \<and> LEVELS * ORDERS * 4 \<le> 2 ^ 32 \<and> 0 < ORDERS"

lemma registered_inv:
  assumes "registered ACCOUNTS ORDERS re" and "ACCOUNTS \<le> 2 ^ 31" and "ORDERS \<le> 2 ^ 31"
  shows "risk_inv re \<and> resv re = Map.empty \<and> re_maximum_order_id re = None \<and> (\<forall>k. settled re k = 0)"
  using assms(1)
proof induction
  case no_accounts
  have inv: "risk_inv (risk_new ACCOUNTS ORDERS)" by (rule risk_inv_new [OF assms(2,3)])
  have "resv (risk_new ACCOUNTS ORDERS) k = None" for k
  proof (rule ccontr)
    assume "resv (risk_new ACCOUNTS ORDERS) k \<noteq> None"
    then obtain v where "resv (risk_new ACCOUNTS ORDERS) k = Some v" by auto
    from risk_inv_watermark [OF inv this] show False by (simp add: risk_new_def)
  qed
  moreover have "acct (risk_new ACCOUNTS ORDERS) k = None" for k
  proof (rule ccontr)
    assume "acct (risk_new ACCOUNTS ORDERS) k \<noteq> None"
    then obtain a where "acct (risk_new ACCOUNTS ORDERS) k = Some a" by auto
    then show False using acct_iff [OF risk_inv_accounts [OF inv]] by (auto simp: risk_new_def)
  qed
  ultimately show ?case using inv by (auto simp: settled_def risk_new_def)
next
  case (one_more re limits aid re')
  from register_account_refines [OF conjunct1 [OF one_more.IH] one_more.hyps(2), of aid] one_more.hyps(3)
  have "risk_inv re'" "acct re' = (acct re)(aid \<mapsto> fresh_account aid limits)" "resv re' = resv re"
    "re_maximum_order_id re' = re_maximum_order_id re" by (auto split: if_splits)
  with one_more.IH show ?case by (auto simp: settled_def fresh_account_def)
next
  case (switched re k)
  have "live_reservation (set_kill_switch re k) = live_reservation re" "account_entry (set_kill_switch re k) = account_entry re"
    by (simp_all add: fun_eq_iff live_reservation_def account_entry_def account_slot_def set_kill_switch_def cong: option.case_cong)
  then have "resv (set_kill_switch re k) = resv re" "acct (set_kill_switch re k) = acct re" by (simp_all add: fun_eq_iff resv_def acct_def)
  then show ?case using switched.IH risk_inv_kill_switch [of re k] by (simp add: settled_def set_kill_switch_def [THEN arg_cong, of re_maximum_order_id])
next
  case (account_switched re aid k re')
  from account_switched.IH have inv: "risk_inv re" by blast
  from set_account_kill_refines [OF inv, of aid k] account_switched.hyps(2) obtain a where
    "acct re aid = Some a" "risk_inv re'" "acct re' = (acct re)(aid \<mapsto> a\<lparr>ac_killed := k\<rparr>)" "resv re' = resv re" by (auto split: option.splits)
  then show ?case using account_switched.IH account_switch_kept(1) [OF account_switched.hyps(2)] by (auto simp: settled_def dest: spec [of _ aid])
qed

lemma gw_reachable_inv:
  assumes "gw_reachable ACCOUNTS RISK_ORDERS LEVELS ORDERS inst g" and cap: "capacities_ok ACCOUNTS RISK_ORDERS LEVELS ORDERS"
  shows "gw_inv g \<and> balanced (gw_risk g)"
  using assms(1)
proof induction
  case (fresh risk)
  have r: "risk_inv risk \<and> resv risk = Map.empty \<and> re_maximum_order_id risk = None \<and> (\<forall>k. settled risk k = 0)"
    using registered_inv [OF fresh] cap by (simp add: capacities_ok_def)
  have b: "book_ok (book_new LEVELS ORDERS inst)" "\<And>side. book_list (book_new LEVELS ORDERS inst) side = []"
    using book_ok_new cap by (auto simp: capacities_ok_def)
  have "coherent risk (book_abs (book_new LEVELS ORDERS inst))" using r b(2) by (simp add: coherent_def open_orders_def)
  moreover have "balanced risk" using r unfolding balanced_def by (intro exI [of _ "{}"]) simp
  ultimately show ?case using r b by (simp add: gw_inv_def gateway_new_def quantities_fit_def u64_ok_def)
next
  case (commanded g command rb g' rb' r)
  with process_command_effect [of g command rb] show ?case by auto
next
  case (framed g frame rb g' rb' r)
  show ?case
  proof (cases "parse_message frame")
    case (Err e)
    with framed show ?thesis by (simp add: process_frame_command)
  next
    case (Ok m)
    with framed process_command_effect [of g "to_command m" rb] parse_canonical [OF Ok] show ?thesis
      by (auto simp: process_frame_command)
  qed
qed

section \<open>A concrete gateway\<close>

definition demo_gateway :: Gateway where
  "demo_gateway = gateway_new 2 2 demo_registered 3"

lemma demo_capacities: "capacities_ok 1 1 2 2"
  by (simp add: capacities_ok_def)

lemma demo_gateway_reachable: "gw_reachable 1 1 2 2 3 demo_gateway"
  unfolding demo_gateway_def
  by (rule fresh) (rule one_more [OF no_accounts demo_widths(1) demo_register])

lemma demo_gateway_sel [simp]: "gw_book demo_gateway = demo_empty" "gw_risk demo_gateway = demo_registered"
  "gw_expected_sequence demo_gateway = 1" "gw_maximum_received_order_id demo_gateway = None"
  by (simp_all add: demo_gateway_def gateway_new_def)

lemma demo_buy_widths: "new_order_ok demo_buy"
  by (simp add: new_order_ok_def demo_buy_def u64_ok_def u32_ok_def i64_ok_def)

lemma demo_spec_new_order:
  obtains ex where "spec_new_order demo_gateway demo_buy 4 = Ok ex"
    "summary_of demo_buy ex = \<lparr>ms_state = Accepted, ms_filled_quantity = 0, ms_resting_quantity = 40,
       ms_discarded_quantity = 0, ms_report_count = 0\<rparr>"
proof -
  from demo_rested obtain b rb where s: "submit demo_empty demo_buy (reports_new 4) = Some (Ok (b, rb, \<lparr>ms_state = Accepted,
      ms_filled_quantity = 0, ms_resting_quantity = 40, ms_discarded_quantity = 0, ms_report_count = 0\<rparr>))" by blast
  from submit_Ok [OF demo_empty_ok(1) reports_new_ok s] obtain ex where
    ex: "spec_submit (book_abs demo_empty) demo_buy (reports_remaining_capacity (reports_new 4)) = Ok ex"
      "\<lparr>ms_state = Accepted, ms_filled_quantity = 0, ms_resting_quantity = 40, ms_discarded_quantity = 0, ms_report_count = 0\<rparr>
        = summary_of demo_buy ex" by blast
  have "is_ok (spec_reserve (risk_abs demo_registered) demo_buy)"
    by (simp add: spec_reserve_def risk_abs_def demo_views spec_limits_def demo_buy_def demo_account_def demo_limits_def
        notional_check_def position_ok_def add_exposure_def Let_def)
  then obtain a where "spec_reserve (risk_abs demo_registered) demo_buy = Ok a"
    by (cases "spec_reserve (risk_abs demo_registered) demo_buy") auto
  with ex that [of ex] show thesis by (simp add: spec_new_order_def reports_remaining_capacity_def reports_new_def)
qed

lemma demo_command:
  obtains g rb where "process_command demo_gateway (CmdNewOrder demo_buy) (reports_new 4) = Some (g, rb, Ok (GwNewOrder
      \<lparr>ms_state = Accepted, ms_filled_quantity = 0, ms_resting_quantity = 40, ms_discarded_quantity = 0, ms_report_count = 0\<rparr>))"
    "gw_reachable 1 1 2 2 3 g" "gw_expected_sequence g = 2"
proof -
  let ?g = "demo_gateway\<lparr>gw_expected_sequence := 2\<rparr>" and ?rb = "reports_clear (reports_new 4)"
  from demo_spec_new_order obtain ex where ex: "spec_new_order demo_gateway demo_buy 4 = Ok ex"
    "summary_of demo_buy ex = \<lparr>ms_state = Accepted, ms_filled_quantity = 0, ms_resting_quantity = 40,
       ms_discarded_quantity = 0, ms_report_count = 0\<rparr>" by blast
  have cap: "reports_remaining_capacity ?rb = 4" by (simp add: reports_remaining_capacity_def reports_clear_def reports_new_def)
  have "gw_inv demo_gateway" using gw_reachable_inv [OF demo_gateway_reachable demo_capacities] by blast
  then have inv: "gw_inv ?g" by (auto simp: gw_inv_def u64_ok_def)
  have "spec_new_order ?g demo_buy 4 = Ok ex" using ex(1) by (simp add: spec_new_order_def cong: result.case_cong)
  with new_order_refines [OF inv demo_buy_widths, of ?rb] cap obtain g rb where
    g: "process_new_order ?g demo_buy ?rb = Some (g, rb, Ok (GwNewOrder (summary_of demo_buy ex)))"
      "gw_expected_sequence g = 2" by auto
  have p: "process_command demo_gateway (CmdNewOrder demo_buy) (reports_new 4) = Some (g, rb, Ok (GwNewOrder (summary_of demo_buy ex)))"
  proof -
    have "accept_sequence demo_gateway 1 = Ok ?g"
      by (simp add: accept_sequence_def check_sequence_def checked_add_def del: One_nat_def)
    moreover have "command_sequence (CmdNewOrder demo_buy) = 1" by (simp add: demo_buy_def)
    ultimately show ?thesis using g(1) by (simp add: process_command_def dispatch_def)
  qed
  from commanded [OF demo_gateway_reachable _ p] demo_buy_widths that g(2) p show thesis by (simp add: ex(2))
qed

section \<open>Properties\<close>

text \<open>
  C1: the gateway always answers. From every reachable gateway, and for every well-formed command,
  processing returns: nothing panics, and the internal failure \<open>RiskState\<close> is reported only when the
  sequence counter is exhausted, in which case the gateway is unchanged.
\<close>
theorem gateway_commands_total:
  assumes "gw_reachable ACCOUNTS RISK_ORDERS LEVELS ORDERS inst g" and "capacities_ok ACCOUNTS RISK_ORDERS LEVELS ORDERS"
    and "command_ok command"
  shows "\<exists>g' rb' r. process_command g command rb = Some (g', rb', r) \<and>
    (\<forall>e. r = Err (GwRiskState e) \<longrightarrow> e = ArithmeticOverflow \<and> gw_expected_sequence g = 2 ^ 64 - 1 \<and> g' = g)"
proof -
  from process_command_effect [OF conjunct1 [OF gw_reachable_inv [OF assms(1,2)]] assms(3), of rb] obtain g' rb' r where
    p: "process_command g command rb = Some (g', rb', r)" "advanced g (command_sequence command) g' rb rb' r" by blast
  have "e = ArithmeticOverflow \<and> gw_expected_sequence g = 2 ^ 64 - 1 \<and> g' = g" if "r = Err (GwRiskState e)" for e
    using p(2) that by (auto simp: advanced_def business_reject_def split: if_splits)
  with p(1) show ?thesis by blast
qed

theorem gateway_commands_total_witness:
  "\<exists>g' rb' r. process_command demo_gateway (CmdNewOrder demo_buy) (reports_new 4) = Some (g', rb', r) \<and> r \<noteq> Err (GwRiskState ArithmeticOverflow)"
  using gateway_commands_total [OF demo_gateway_reachable demo_capacities, of "CmdNewOrder demo_buy" "reports_new 4"] demo_buy_widths
  by fastforce

text \<open>
  C4: rejection is atomic. When a command is rejected, whatever the reason, the book, the accounts,
  the reservations and the kill switch are as before and no report is left in the buffer; a business
  rejection consumes the sequence number, any other leaves the expected sequence as it was.
\<close>
theorem rejection_atomic:
  assumes "gw_reachable ACCOUNTS RISK_ORDERS LEVELS ORDERS inst g" and "capacities_ok ACCOUNTS RISK_ORDERS LEVELS ORDERS"
    and "command_ok command" and "process_command g command rb = Some (g', rb', Err e)"
  shows "gw_book g' = gw_book g \<and> acct (gw_risk g') = acct (gw_risk g) \<and> resv (gw_risk g') = resv (gw_risk g) \<and>
    re_killed (gw_risk g') = re_killed (gw_risk g) \<and> reports_iter rb' = [] \<and>
    gw_expected_sequence g' = gw_expected_sequence g + (case e of GwRisk _ \<Rightarrow> 1 | GwBook _ \<Rightarrow> 1 | _ \<Rightarrow> 0)"
proof -
  from process_command_effect [OF conjunct1 [OF gw_reachable_inv [OF assms(1,2)]] assms(3), of rb] assms(4)
  have "advanced g (command_sequence command) g' rb rb' (Err e)" by auto
  then show ?thesis by (auto simp: advanced_def rolled_back_def business_reject_def split: if_splits)
qed

theorem rejection_atomic_witness:
  "\<exists>g rb g' rb'. process_command demo_gateway (CmdNewOrder demo_buy) (reports_new 4) = Some (g, rb, Ok (GwNewOrder
      \<lparr>ms_state = Accepted, ms_filled_quantity = 0, ms_resting_quantity = 40, ms_discarded_quantity = 0, ms_report_count = 0\<rparr>)) \<and>
     process_command g (CmdNewOrder (demo_buy\<lparr>no_sequence := 2\<rparr>)) rb = Some (g', rb', Err (GwRisk DuplicateOrderId)) \<and>
     gw_book g' = gw_book g \<and> gw_expected_sequence g' = 3"
proof -
  from demo_command obtain g rb where
    g: "process_command demo_gateway (CmdNewOrder demo_buy) (reports_new 4) = Some (g, rb, Ok (GwNewOrder
      \<lparr>ms_state = Accepted, ms_filled_quantity = 0, ms_resting_quantity = 40, ms_discarded_quantity = 0, ms_report_count = 0\<rparr>))"
      "gw_reachable 1 1 2 2 3 g" "gw_expected_sequence g = 2" by blast
  let ?c = "CmdNewOrder (demo_buy\<lparr>no_sequence := 2\<rparr>)"
  have inv: "gw_inv g" using gw_reachable_inv [OF g(2) demo_capacities] by blast
  have "gw_maximum_received_order_id g = Some 11"
    using g(1) by (auto simp: process_command_def accept_sequence_cases u64_ok_def dispatch_def demo_buy_def process_new_order_def
        settle_then_def Let_def split: result.splits if_splits option.splits bind_splits)
  then have p: "process_command g ?c rb =
      Some (g\<lparr>gw_expected_sequence := 3\<rparr>, reports_clear rb, Err (GwRisk DuplicateOrderId))"
    using g(3) by (simp add: process_command_def accept_sequence_cases u64_ok_def dispatch_def process_new_order_def demo_buy_def)
  have "command_ok ?c" using demo_buy_widths by (simp add: new_order_ok_def u64_ok_def)
  from rejection_atomic [OF g(2) demo_capacities this p] g p show ?thesis by auto
qed

text \<open>
  C3: the gateway keeps its parts coherent. In a reachable gateway the risk engine holds a reservation
  for an id exactly when an order with this id rests in the book, for the same account, side and
  remaining quantity; and no resting order has an id above the highest one received.
\<close>
theorem reservations_are_open_orders:
  assumes "gw_reachable ACCOUNTS RISK_ORDERS LEVELS ORDERS inst g" and "capacities_ok ACCOUNTS RISK_ORDERS LEVELS ORDERS"
  shows "resv (gw_risk g) k = map_option (\<lambda>(side, p, x). (o_account x, side, o_quantity x)) (find_side (book_abs (gw_book g)) k) \<and>
    (\<forall>side p x. (p, x) \<in> set (book_list (gw_book g) side) \<longrightarrow>
       (\<exists>m. gw_maximum_received_order_id g = Some m \<and> o_id x \<le> m))"
proof -
  have inv: "gw_inv g" using gw_reachable_inv [OF assms] by blast
  have "\<exists>m. gw_maximum_received_order_id g = Some m \<and> o_id x \<le> m" if "(p, x) \<in> set (book_list (gw_book g) side)" for side p x
  proof -
    have "(p, x) \<in> set (bm_side (book_abs (gw_book g)) side)" using that by simp
    from risk_inv_watermark [OF gw_invD(1) [OF inv] coherentD [OF gw_invD(4) [OF inv] this]] obtain n where
      "re_maximum_order_id (gw_risk g) = Some n" "o_id x \<le> n" by blast
    with inv show ?thesis unfolding gw_inv_def by (meson order_trans)
  qed
  with coherent_find [OF inv] show ?thesis by blast
qed

theorem reservations_are_open_orders_witness:
  "\<exists>g rb r. process_command demo_gateway (CmdNewOrder demo_buy) (reports_new 4) = Some (g, rb, r) \<and>
     resv (gw_risk g) 11 = map_option (\<lambda>(side, p, x). (o_account x, side, o_quantity x)) (find_side (book_abs (gw_book g)) 11)"
proof -
  from demo_command obtain g rb r where g: "process_command demo_gateway (CmdNewOrder demo_buy) (reports_new 4) = Some (g, rb, r)"
    "gw_reachable 1 1 2 2 3 g" by blast
  from reservations_are_open_orders [OF g(2) demo_capacities] g(1) show ?thesis by blast
qed

text \<open>
  C10: trading is zero-sum. In a reachable gateway the settled positions of the registered accounts sum
  to zero: every fill adds to one account what it takes from another.
\<close>
theorem positions_sum_to_zero:
  assumes "gw_reachable ACCOUNTS RISK_ORDERS LEVELS ORDERS inst g" and "capacities_ok ACCOUNTS RISK_ORDERS LEVELS ORDERS"
  shows "(\<Sum>k \<in> dom (acct (gw_risk g)). settled (gw_risk g) k) = 0"
proof -
  have inv: "gw_inv g" and bal: "balanced (gw_risk g)" using gw_reachable_inv [OF assms] by auto
  have "k \<in> (\<lambda>x. case x of None \<Rightarrow> 0 | Some a \<Rightarrow> ac_id a) ` set (re_accounts (gw_risk g))" if k: "k \<in> dom (acct (gw_risk g))" for k
  proof -
    from k obtain a where "acct (gw_risk g) k = Some a" by auto
    then obtain slot where "slot < length (re_accounts (gw_risk g))" "re_accounts (gw_risk g) ! slot = Some a" "ac_id a = k"
      using acct_iff [OF risk_inv_accounts [OF gw_invD(1) [OF inv]]] by auto
    then show ?thesis by (force simp: in_set_conv_nth image_iff)
  qed
  then have "finite (dom (acct (gw_risk g)))" by (meson finite_imageI finite_set finite_subset subsetI)
  then show ?thesis by (rule balanced_over [OF bal]) (auto simp: settled_def split: option.splits)
qed

theorem positions_sum_to_zero_witness:
  "\<exists>g rb r. process_command demo_gateway (CmdNewOrder demo_buy) (reports_new 4) = Some (g, rb, r) \<and>
     (\<Sum>k \<in> dom (acct (gw_risk g)). settled (gw_risk g) k) = 0"
proof -
  from demo_command obtain g rb r where g: "process_command demo_gateway (CmdNewOrder demo_buy) (reports_new 4) = Some (g, rb, r)"
    "gw_reachable 1 1 2 2 3 g" by blast
  from positions_sum_to_zero [OF g(2) demo_capacities] g(1) show ?thesis by blast
qed

text \<open>
  C2: a new order executes as specified. With the expected sequence number, on a coherent gateway: an
  id at or below the highest received is a duplicate, then the risk specification decides, then the
  book specification; on execution the book and the reports are the specified ones and every
  account's settled position moves by exactly its fills, as maker and as taker.
\<close>
theorem new_order_executes_spec:
  assumes "gw_inv g" and "new_order_ok order" and "reports_ok rb" and "reports_iter rb = []"
  shows "case spec_new_order g order (reports_remaining_capacity rb) of
      Err e \<Rightarrow> \<exists>g'. process_new_order g order rb = Some (g', rb, Err e) \<and> gw_inv g' \<and> rolled_back g g' \<and>
        gw_expected_sequence g' = gw_expected_sequence g
    | Ok ex \<Rightarrow> \<exists>g' rb'. process_new_order g order rb = Some (g', rb', Ok (GwNewOrder (summary_of order ex))) \<and> gw_inv g' \<and>
        executed (gw_book g') rb rb' order ex \<and> positions_moved g g' order ex \<and> gw_expected_sequence g' = gw_expected_sequence g"
  using assms by (rule new_order_refines)

theorem new_order_executes_spec_witness:
  "\<exists>g' rb'. process_new_order demo_gateway demo_buy (reports_new 4) = Some (g', rb', Ok (GwNewOrder
      \<lparr>ms_state = Accepted, ms_filled_quantity = 0, ms_resting_quantity = 40, ms_discarded_quantity = 0, ms_report_count = 0\<rparr>))"
proof -
  from demo_spec_new_order obtain ex where ex: "spec_new_order demo_gateway demo_buy 4 = Ok ex"
    "summary_of demo_buy ex = \<lparr>ms_state = Accepted, ms_filled_quantity = 0, ms_resting_quantity = 40,
       ms_discarded_quantity = 0, ms_report_count = 0\<rparr>" by blast
  have "gw_inv demo_gateway" using gw_reachable_inv [OF demo_gateway_reachable demo_capacities] by blast
  from new_order_executes_spec [OF this demo_buy_widths reports_new_ok reports_iter_new, of 4] ex show ?thesis
    by (auto simp: reports_remaining_capacity_def reports_new_def)
qed

text \<open>
  Cancels and replaces act as specified. On a coherent gateway a cancel or a replace is rejected
  exactly for the reason the specification gives, leaving the gateway identical; otherwise the book is
  the specified one, the invariant holds again and no position moves.
\<close>
theorem cancel_replace_execute_spec:
  assumes "gw_inv g" and "replace_order_ok r"
  shows "(case spec_process_cancel g c of
      Err e \<Rightarrow> process_cancel g c = Some (g, Err e)
    | Ok (m, out) \<Rightarrow> \<exists>g'. process_cancel g c = Some (g', Ok (GwCancelled out)) \<and> gw_inv g' \<and> book_abs (gw_book g') = m \<and>
        resv (gw_risk g') = (resv (gw_risk g))(co_order_id c := None) \<and> positions_kept g g' \<and>
        gw_expected_sequence g' = gw_expected_sequence g) \<and>
    (case spec_process_replace g r of
      Err e \<Rightarrow> process_replace g r = Some (g, Err e)
    | Ok (m, out) \<Rightarrow> \<exists>g'. process_replace g r = Some (g', Ok (GwReplaced out)) \<and> gw_inv g' \<and> book_abs (gw_book g') = m \<and>
        positions_kept g g' \<and> gw_expected_sequence g' = gw_expected_sequence g)"
  using process_cancel_refines [OF assms(1), of c] process_replace_refines [OF assms] by blast

theorem cancel_replace_execute_spec_witness:
  "process_cancel demo_gateway \<lparr>co_order_id = 11, co_account_id = 7, co_instrument_id = 3, co_sequence = 1\<rparr> =
     Some (demo_gateway, Err (GwRisk UnknownOrder))"
proof -
  let ?r = "\<lparr>ro_order_id = 11, ro_account_id = 7, ro_instrument_id = 3, ro_sequence = 2, ro_price = 100, ro_quantity = 30\<rparr>"
  let ?c = "\<lparr>co_order_id = 11, co_account_id = 7, co_instrument_id = 3, co_sequence = 1\<rparr>"
  have inv: "gw_inv demo_gateway" using gw_reachable_inv [OF demo_gateway_reachable demo_capacities] by blast
  have "replace_order_ok ?r" by (simp add: replace_order_ok_def u64_ok_def u32_ok_def i64_ok_def)
  from cancel_replace_execute_spec [OF inv this, of ?c] show ?thesis
    by (simp add: spec_process_cancel_def find_side_def find_order_def demo_empty_ok)
qed

text \<open>
  The framed and the normalized path agree. Processing the wire encoding of a command is processing
  the command; and processing any bytes either reports the parse error with the gateway unchanged or
  is processing a well-formed command.
\<close>
theorem frame_equals_command:
  "(command_ok command \<longrightarrow> process_frame g (encode_command command) rb = process_command g command rb) \<and>
   (case parse_message frame of
      Err e \<Rightarrow> process_frame g frame rb = Some (g, reports_clear rb, Err (GwParse e))
    | Ok m \<Rightarrow> command_ok (to_command m) \<and> process_frame g frame rb = process_command g (to_command m) rb)"
  using encode_parse [of command] parse_canonical [of frame]
  by (auto simp: process_frame_command split: result.splits)

theorem frame_equals_command_witness:
  "\<exists>g rb r. process_frame demo_gateway (encode_command (CmdNewOrder demo_buy)) (reports_new 4) = Some (g, rb, r)"
proof -
  from demo_command obtain g rb r where "process_command demo_gateway (CmdNewOrder demo_buy) (reports_new 4) = Some (g, rb, r)" by blast
  with frame_equals_command [of "CmdNewOrder demo_buy" demo_gateway "reports_new 4" "[]"] demo_buy_widths show ?thesis by simp
qed

end
