(* ===== verification/RiskEquiv.thy ===== *)
theory RiskEquiv
  imports StateProps
begin

text \<open>
  Two risk engines that export the same state behave alike: every operation answers the same and
  leaves engines that again export the same state. Engines restored from a state differ from the
  original in their slots and indexes, so this is what makes a restored engine a replacement.
\<close>

section \<open>Capacities are fixed\<close>

definition risk_sizes :: "RiskEngine \<Rightarrow> nat \<times> nat" where
  "risk_sizes re = (length (re_accounts re), length (re_reservations re))"

lemma move_reservation_length [simp]: "length (move_reservation k v i rs) = length rs"
  by (auto simp: move_reservation_def split: option.splits ReservationSlot.splits)

lemma remove_loop_kept:
  "remove_loop fuel slots hole candidate f st = Some (slots', st') \<Longrightarrow> (\<And>k v i st. h (f k v i st) = h st) \<Longrightarrow> h st' = h st"
proof (induction fuel arbitrary: slots hole candidate st)
  case (Suc fuel)
  then show ?case by (auto simp: Let_def split: IndexSlot.splits if_splits option.splits)
qed simp

lemma probe_remove_at_kept:
  assumes "probe_remove_at slots i key f st = Some (slots', st', v)" and "\<And>k v i st. h (f k v i st) = h st"
  shows "h st' = h st"
  using assms remove_loop_kept [of _ _ _ _ f _ _ _ h]
  by (auto simp: probe_remove_at_def split: if_splits IndexSlot.splits option.splits)

lemma release_sizes:
  assumes "release_reservation re slot r = Some re'"
  shows "risk_sizes re' = risk_sizes re"
  using assms probe_remove_at_kept [of _ _ _ move_reservation _ _ _ _ length]
  by (fastforce simp: release_reservation_def risk_sizes_def split: Option.bind_split_asm)

lemma set_sizes [simp]:
  "risk_sizes (set_account re slot a) = risk_sizes re"
  "risk_sizes (set_reservation re slot r) = risk_sizes re"
  "risk_sizes (re\<lparr>re_reservation_index := ix\<rparr>) = risk_sizes re"
  "risk_sizes (re\<lparr>re_reservation_free_head := h\<rparr>) = risk_sizes re"
  "risk_sizes (re\<lparr>re_maximum_order_id := m\<rparr>) = risk_sizes re"
  "risk_sizes (re\<lparr>re_account_index := ix\<rparr>) = risk_sizes re"
  by (simp_all add: risk_sizes_def set_account_def set_reservation_def)

lemma register_sizes: "register_account re aid limits = Ok re' \<Longrightarrow> risk_sizes re' = risk_sizes re"
  by (auto simp: register_account_def split: if_split_asm option.split_asm result.split_asm ProbeError.split_asm)

lemma check_and_reserve_sizes:
  assumes "check_and_reserve re order = Some (Ok re')"
  shows "risk_sizes re' = risk_sizes re"
proof -
  have k: "risk_sizes re' = risk_sizes re"
    if "(case y of ResFree n \<Rightarrow> (case x of Ok (i, ix) \<Rightarrow> Ok (f n i ix) | Err ProbeFull \<Rightarrow> Err e | Err ProbeDuplicate \<Rightarrow> Err e')
      | ResLive r \<Rightarrow> Err e') = Ok re'" and "\<And>n i ix. risk_sizes (f n i ix) = risk_sizes re"
    for y x f e e' using that by (auto split: ReservationSlot.splits result.splits ProbeError.splits)
  show ?thesis using assms unfolding check_and_reserve_def Let_def
    by (auto simp: and_then_Ok_iff split: if_split_asm option.split_asm Option.bind_split_asm intro!: k
        simp del: not_le)
qed

lemma settle_reservation_sizes:
  assumes "settle_reservation re slot r filled = Some (Ok re')"
  shows "risk_sizes re' = risk_sizes re"
  using assms release_sizes unfolding settle_reservation_def
  by (fastforce simp: and_then_Ok_iff split: Option.bind_split_asm result.splits)

lemma settle_sizes:
  assumes "settle re k filled = Some (Ok re')"
  shows "risk_sizes re' = risk_sizes re"
  using assms settle_reservation_sizes by (auto simp: settle_def split: option.splits if_splits)

lemma cancel_sizes:
  assumes "cancel_reservation re k aid = Some (Ok (re', q))"
  shows "risk_sizes re' = risk_sizes re"
  using assms settle_reservation_sizes
  by (auto simp: cancel_reservation_def and_then_Ok_iff split: option.splits if_splits Option.bind_split_asm)

lemma record_fill_sizes:
  assumes "record_fill re k filled = Some (Ok re')"
  shows "risk_sizes re' = risk_sizes re"
  using assms release_sizes unfolding record_fill_def Let_def
  by (fastforce simp: and_then_Ok_iff split: option.splits Option.bind_split_asm result.splits if_splits)

lemma adjust_sizes:
  assumes "adjust_reservation re k aid price q = Some (Ok (re', released, prior))"
  shows "risk_sizes re' = risk_sizes re"
  using assms unfolding adjust_reservation_def Let_def
  by (auto simp: and_then_Ok_iff split: option.splits Option.bind_split_asm result.splits if_splits)

section \<open>Equivalent engines\<close>

lemma map_filter_full: "length (List.map_filter f xs) = length xs \<longleftrightarrow> (\<forall>x \<in> set xs. f x \<noteq> None)"
proof (induction xs)
  case (Cons x xs)
  have "length (List.map_filter f xs) \<noteq> Suc (length xs)" using length_map_filter [of f xs] by linarith
  with Cons show ?case by (cases "f x") (simp_all add: List.map_filter_def)
qed (simp add: List.map_filter_def)

lemma risk_full_export: "risk_full re \<longleftrightarrow> length (rs_reservations (risk_export_state re)) = length (re_reservations re)"
proof -
  have "is_free s \<longleftrightarrow> reservation_risk_state s = None" for s by (cases s) simp_all
  then show ?thesis by (simp add: risk_full_def risk_export_state_def map_filter_full)
qed

text \<open>A sound engine whose reserved quantities have their Rust type.\<close>

definition risk_sound :: "RiskEngine \<Rightarrow> bool" where
  "risk_sound re \<longleftrightarrow> risk_inv re \<and> (\<forall>k aid side q. resv re k = Some (aid, side, q) \<longrightarrow> u64_ok q)"

definition risk_equiv :: "RiskEngine \<Rightarrow> RiskEngine \<Rightarrow> bool" where
  "risk_equiv re re2 \<longleftrightarrow> risk_sound re \<and> risk_sound re2 \<and> risk_export_state re = risk_export_state re2 \<and>
     risk_sizes re = risk_sizes re2"

lemma risk_equivD:
  assumes "risk_equiv re re2"
  shows "risk_inv re" "risk_inv re2" "acct re2 = acct re" "resv re2 = resv re"
    "re_maximum_order_id re2 = re_maximum_order_id re" "re_killed re2 = re_killed re" "risk_abs re2 = risk_abs re"
    "risk_sizes re2 = risk_sizes re" "resv re k = Some (aid, side, q) \<Longrightarrow> u64_ok q"
proof -
  show inv: "risk_inv re" "risk_inv re2" and u: "resv re k = Some (aid, side, q) \<Longrightarrow> u64_ok q"
    and l: "risk_sizes re2 = risk_sizes re"
    using assms by (auto simp: risk_equiv_def risk_sound_def)
  have e: "risk_export_state re2 = risk_export_state re" using assms by (simp add: risk_equiv_def)
  from export_state_view [OF inv(2,1) e] show v: "acct re2 = acct re" "resv re2 = resv re"
    "re_maximum_order_id re2 = re_maximum_order_id re" "re_killed re2 = re_killed re" by blast+
  have "risk_full re2 \<longleftrightarrow> risk_full re" using l by (simp add: risk_full_export e risk_sizes_def)
  with v show "risk_abs re2 = risk_abs re" by (simp add: risk_abs_def)
qed

lemma risk_equivI:
  assumes "risk_sound re" "risk_inv re2" "acct re2 = acct re" "resv re2 = resv re"
    "re_maximum_order_id re2 = re_maximum_order_id re" "re_killed re2 = re_killed re"
    "risk_sizes re2 = risk_sizes re"
  shows "risk_equiv re re2"
  using assms export_state_cong [of re re2] by (simp add: risk_equiv_def risk_sound_def)

lemma risk_equiv_refl: "risk_sound re \<Longrightarrow> risk_equiv re re"
  by (simp add: risk_equiv_def)

lemma effect_equiv:
  assumes eq: "risk_equiv re re2" and e: "effect re re' aid a k x" "effect re2 re2' aid a k x"
    and l: "risk_sizes re' = risk_sizes re" "risk_sizes re2' = risk_sizes re2"
    and x: "\<And>aid side q. x = Some (aid, side, q) \<Longrightarrow> u64_ok q"
  shows "risk_equiv re' re2'"
proof (rule risk_equivI)
  note d = risk_equivD [OF eq]
  show "risk_sound re'" using e(1) d(9) x by (auto simp: effect_def risk_sound_def split: if_splits)
qed (use risk_equivD [OF eq] e l in \<open>simp_all add: effect_def\<close>)

section \<open>Operations respect the equivalence\<close>

text \<open>The same error, or related values.\<close>

abbreviation rel_answer :: "('a \<Rightarrow> 'b \<Rightarrow> bool) \<Rightarrow> ('a, 'e) result option \<Rightarrow> ('b, 'e) result option \<Rightarrow> bool" where
  "rel_answer R \<equiv> rel_option (rel_result R (=))"

lemma check_and_reserve_equiv:
  assumes eq: "risk_equiv re re2" and order: "new_order_ok order"
  shows "rel_answer risk_equiv (check_and_reserve re order) (check_and_reserve re2 order)"
proof -
  note d = risk_equivD [OF eq]
  note run = check_and_reserve_refines [OF d(1) order] check_and_reserve_refines [OF d(2) order]
  show ?thesis
  proof (cases "spec_reserve (risk_abs re) order")
    case (Err e)
    with run d(7) show ?thesis by simp
  next
    case (Ok a)
    with run d(7) obtain re' re2' where c: "check_and_reserve re order = Some (Ok re')" "check_and_reserve re2 order = Some (Ok re2')"
      and r: "risk_inv re'" "acct re' = (acct re)(no_account_id order \<mapsto> a)"
        "resv re' = (resv re)(no_order_id order \<mapsto> (no_account_id order, no_side order, no_quantity order))"
        "re_maximum_order_id re' = Some (no_order_id order)" "re_killed re' = re_killed re"
      and r2: "risk_inv re2'" "acct re2' = (acct re2)(no_account_id order \<mapsto> a)"
        "resv re2' = (resv re2)(no_order_id order \<mapsto> (no_account_id order, no_side order, no_quantity order))"
        "re_maximum_order_id re2' = Some (no_order_id order)" "re_killed re2' = re_killed re2" by auto
    have "risk_sound re'" using r d(9) order by (auto simp: risk_sound_def new_order_ok_def split: if_splits)
    then have "risk_equiv re' re2'"
      by (rule risk_equivI) (use r r2 d check_and_reserve_sizes [OF c(1)] check_and_reserve_sizes [OF c(2)] in simp_all)
    with c show ?thesis by simp
  qed
qed

lemma settle_equiv:
  assumes eq: "risk_equiv re re2"
  shows "rel_answer risk_equiv (settle re k filled) (settle re2 k filled)"
proof -
  note d = risk_equivD [OF eq]
  note run = settle_refines [OF d(1), of k filled] settle_refines [OF d(2), of k filled]
  show ?thesis
  proof (cases "resv re k")
    case None
    with run d(4) show ?thesis by simp
  next
    case (Some v)
    obtain aid side q where v: "v = (aid, side, q)" by (cases v) auto
    show ?thesis
    proof (cases "filled > q")
      case True
      with run d(4) Some v show ?thesis by simp
    next
      case False
      with run d(3,4) Some v obtain a re' re2' where r: "settle re k filled = Some (Ok re')" "settle re2 k filled = Some (Ok re2')"
        "effect re re' aid (close_account side filled q a) k None" "effect re2 re2' aid (close_account side filled q a) k None" by auto
      from effect_equiv [OF eq r(3,4) settle_sizes [OF r(1)] settle_sizes [OF r(2)]] r(1,2) show ?thesis by simp
    qed
  qed
qed

lemma cancel_equiv:
  assumes eq: "risk_equiv re re2"
  shows "rel_answer (rel_prod risk_equiv (=)) (cancel_reservation re k account) (cancel_reservation re2 k account)"
proof -
  note d = risk_equivD [OF eq]
  note run = cancel_refines [OF d(1), of k account] cancel_refines [OF d(2), of k account]
  show ?thesis
  proof (cases "resv re k")
    case None
    with run d(4) show ?thesis by simp
  next
    case (Some v)
    obtain aid side q where v: "v = (aid, side, q)" by (cases v) auto
    show ?thesis
    proof (cases "aid = account")
      case False
      with run d(4) Some v show ?thesis by simp
    next
      case True
      with run d(3,4) Some v obtain a re' re2' where r: "cancel_reservation re k account = Some (Ok (re', q))"
        "cancel_reservation re2 k account = Some (Ok (re2', q))"
        "effect re re' aid (close_account side 0 q a) k None" "effect re2 re2' aid (close_account side 0 q a) k None" by auto
      from effect_equiv [OF eq r(3,4) cancel_sizes [OF r(1)] cancel_sizes [OF r(2)]] r(1,2) show ?thesis by simp
    qed
  qed
qed

lemma record_fill_equiv:
  assumes eq: "risk_equiv re re2"
  shows "rel_answer risk_equiv (record_fill re k filled) (record_fill re2 k filled)"
proof (cases "filled = 0")
  case True
  then show ?thesis by (simp add: record_fill_def)
next
  case pos: False
  note d = risk_equivD [OF eq]
  note run = record_fill_refines [OF d(1) pos, of k] record_fill_refines [OF d(2) pos, of k]
  show ?thesis
  proof (cases "resv re k")
    case None
    with run d(4) show ?thesis by simp
  next
    case (Some v)
    obtain aid side q where v: "v = (aid, side, q)" by (cases v) auto
    have q: "u64_ok q" using d(9) Some v by blast
    show ?thesis
    proof (cases "filled > q")
      case True
      with run d(4) Some v show ?thesis by simp
    next
      case False
      define x where "x = (if filled = q then None else Some (aid, side, q - filled))"
      define f where "f a = (if filled = q then close_account side filled q a else fill_account side filled filled a)" for a
      from False run d(3,4) Some v obtain a re' re2' where
        r: "record_fill re k filled = Some (Ok re')" "record_fill re2 k filled = Some (Ok re2')"
          "effect re re' aid (f a) k x" "effect re2 re2' aid (f a) k x" by (cases "filled = q") (auto simp: x_def f_def)
      have "u64_ok q'" if "x = Some (aid', side', q')" for aid' side' q' using that q by (auto simp: x_def u64_ok_def split: if_splits)
      from effect_equiv [OF eq r(3,4) record_fill_sizes [OF r(1)] record_fill_sizes [OF r(2)] this] r(1,2) show ?thesis by simp
    qed
  qed
qed

lemma can_cancel_equiv: "risk_equiv re re2 \<Longrightarrow> can_cancel re2 k account = can_cancel re k account"
  by (simp add: can_cancel_iff risk_equivD)

lemma adjust_equiv:
  assumes eq: "risk_equiv re re2" and w: "i64_ok price" "u64_ok q'"
  shows "rel_answer (rel_prod risk_equiv (=)) (adjust_reservation re k account price q') (adjust_reservation re2 k account price q')"
proof -
  note d = risk_equivD [OF eq]
  note run = adjust_refines [OF d(1) w, of k account] adjust_refines [OF d(2) w, of k account]
  show ?thesis
  proof (cases "resv re k")
    case None
    with run d(4) show ?thesis by simp
  next
    case (Some v)
    obtain aid side q where v: "v = (aid, side, q)" by (cases v) auto
    show ?thesis
    proof (cases "aid = account")
      case False
      with run d(4) Some v show ?thesis by simp
    next
      case True
      with run(1) Some v obtain a where a: "acct re account = Some a" by auto
      show ?thesis
      proof (cases "spec_adjust a side q price q'")
        case (Err e)
        with True run a d(3,4) Some v show ?thesis by simp
      next
        case (Ok a')
        with True run a d(3,4) Some v obtain re' re2' where
          r: "adjust_reservation re k account price q' = Some (Ok (re', q - q', q))"
            "adjust_reservation re2 k account price q' = Some (Ok (re2', q - q', q))"
            "effect re re' account a' k (Some (account, side, q'))" "effect re2 re2' account a' k (Some (account, side, q'))" by auto
        from effect_equiv [OF eq r(3,4) adjust_sizes [OF r(1)] adjust_sizes [OF r(2)]] w(2) r(1,2) show ?thesis by simp
      qed
    qed
  qed
qed

text \<open>The prior quantity of an accepted adjustment is the reserved one, so the rollback restores the engine itself.\<close>

lemma adjust_rollback:
  assumes "risk_sound re" and w: "i64_ok price" "u64_ok q'" and adj: "adjust_reservation re k account price q' = Some (Ok (re', released, prior))"
  shows "restore_reservation re' k account prior = Some (Ok re)"
proof -
  have inv: "risk_inv re" using assms(1) by (simp add: risk_sound_def)
  from adjust_refines [OF inv w, of k account] adj obtain aid side where "resv re k = Some (aid, side, prior)"
    by (auto split: option.split_asm if_split_asm result.split_asm) (metis result.exhaust)
  then have "u64_ok prior" using assms(1) by (auto simp: risk_sound_def)
  from adjust_restore [OF inv w adj this] show ?thesis .
qed

end
