(* ===== verification/GatewayState.thy ===== *)
theory GatewayState
  imports GatewayProps RiskEquiv "HOL-Library.Sublist"
begin

text \<open>
  The logical state of the gateway that a snapshot carries, from \<open>crates/hft-gateway/src/lib.rs\<close>: export,
  the checks across components, import and the digest. \<open>None\<close> is a panic of one of the parts. Then the
  order of sequence numbers in the book, which the checks rely on, as an invariant of the commands.
\<close>

section \<open>State\<close>

record GatewayState =
  gs_instrument :: InstrumentId
  gs_book :: BookState
  gs_risk :: RiskEngineState
  gs_expected_sequence :: SequenceNumber
  gs_maximum_received_order_id :: "OrderId option"

datatype GatewayStateError =
    GseBook BookStateError | GseRisk RiskStateError | GseExpectedSequence | GseOrderSequence | GseOrderWatermark
  | GseRiskWatermark | GseMissingReservation | GseReservationMismatch | GseOrderLimit | GseOrphanReservation

definition gateway_export_state :: "Gateway \<Rightarrow> GatewayState option" where
  "gateway_export_state g =
     do {
       book \<leftarrow> book_export_state (gw_book g);
       Some \<lparr>gs_instrument = bs_instrument book, gs_book = book, gs_risk = risk_export_state (gw_risk g),
         gs_expected_sequence = gw_expected_sequence g,
         gs_maximum_received_order_id = gw_maximum_received_order_id g\<rparr>
     }"

text \<open>The derived order of \<open>Option\<close>: \<open>None\<close> is below every value.\<close>

fun option_greater :: "OrderId option \<Rightarrow> OrderId option \<Rightarrow> bool" where
  "option_greater None b \<longleftrightarrow> False"
| "option_greater (Some a) None \<longleftrightarrow> True"
| "option_greater (Some a) (Some b) \<longleftrightarrow> a > b"

definition check_order_limits :: "RiskLimits \<Rightarrow> BookOrderState \<Rightarrow> (unit, GatewayStateError) result" where
  "check_order_limits limits order =
     and_then (if 0 \<le> bos_price order then Ok (nat (bos_price order)) else Err GseOrderLimit) (\<lambda>price.
     and_then (ok_or GseOrderLimit (checked_mul 128 price (bos_quantity order))) (\<lambda>notional.
       if bos_quantity order > rl_max_quantity limits \<or> bos_price order < rl_minimum_price limits \<or>
          bos_price order > rl_maximum_price limits \<or> notional > rl_max_notional limits
       then Err GseOrderLimit else Ok ()))"

definition check_order_state :: "GatewayState \<Rightarrow> BookOrderState \<Rightarrow> (unit, GatewayStateError) result" where
  "check_order_state state order =
     (if bos_sequence order \<ge> gs_expected_sequence state then Err GseOrderSequence
      else if (case gs_maximum_received_order_id state of None \<Rightarrow> True | Some maximum \<Rightarrow> maximum < bos_order_id order)
      then Err GseOrderWatermark
      else case find (\<lambda>reservation. rrs_order_id reservation = bos_order_id order) (rs_reservations (gs_risk state)) of
        None \<Rightarrow> Err GseMissingReservation
      | Some reservation \<Rightarrow>
          if rrs_account_id reservation \<noteq> bos_account_id order \<or> rrs_side reservation \<noteq> bos_side order \<or>
             rrs_quantity reservation \<noteq> bos_quantity order
          then Err GseReservationMismatch
          else (case find (\<lambda>account. ars_id account = bos_account_id order) (rs_accounts (gs_risk state)) of
             None \<Rightarrow> Err GseReservationMismatch
           | Some account \<Rightarrow> check_order_limits (ars_limits account) order))"

text \<open>The three nested loops, over all used orders of both sides, with their counter.\<close>

fun check_orders :: "GatewayState \<Rightarrow> BookOrderState list \<Rightarrow> nat \<Rightarrow> (nat, GatewayStateError) result" where
  "check_orders state [] book_orders = Ok book_orders"
| "check_orders state (order # xs) book_orders =
     and_then (check_order_state state order) (\<lambda>_. check_orders state xs (book_orders + 1))"

definition validate_cross_component_state :: "GatewayState \<Rightarrow> (unit, GatewayStateError) result" where
  "validate_cross_component_state state =
     (if gs_expected_sequence state = 0 then Err GseExpectedSequence
      else if option_greater (rs_maximum_order_id (gs_risk state)) (gs_maximum_received_order_id state)
      then Err GseRiskWatermark
      else and_then (check_orders state (concat (map used_orders (used_levels (gs_book state)))) 0) (\<lambda>book_orders.
        if book_orders \<noteq> length (rs_reservations (gs_risk state)) then Err GseOrphanReservation else Ok ()))"

definition gateway_from_state ::
  "nat \<Rightarrow> nat \<Rightarrow> nat \<Rightarrow> nat \<Rightarrow> GatewayState \<Rightarrow> (Gateway, GatewayStateError) result option" where
  "gateway_from_state ACCOUNTS RISK_ORDERS LEVELS ORDERS state =
     do {
       book \<leftarrow> book_from_state LEVELS ORDERS (gs_instrument state) (gs_book state);
       (case book of
          Err e \<Rightarrow> Some (Err (GseBook e))
        | Ok book \<Rightarrow>
            do {
              risk \<leftarrow> risk_from_state ACCOUNTS RISK_ORDERS (gs_risk state);
              Some (case risk of
                 Err e \<Rightarrow> Err (GseRisk e)
               | Ok risk \<Rightarrow>
                   and_then (validate_cross_component_state state) (\<lambda>_.
                     Ok \<lparr>gw_risk = risk, gw_book = book, gw_expected_sequence = gs_expected_sequence state,
                       gw_maximum_received_order_id = gs_maximum_received_order_id state\<rparr>))
            })
     }"

section \<open>Digest\<close>

definition rotate_left :: "nat \<Rightarrow> nat \<Rightarrow> nat" where
  "rotate_left n x = take_bit 64 (push_bit n x) OR drop_bit (64 - n) x"

definition gateway_stable_digest :: "Gateway \<Rightarrow> nat option" where
  "gateway_stable_digest g =
     (let session = rotate_left 29 (gw_expected_sequence g) XOR
            rotate_left 43 (case gw_maximum_received_order_id g of None \<Rightarrow> 0 | Some order_id \<Rightarrow> order_id)
      in do {
        book \<leftarrow> book_stable_digest (gw_book g);
        Some ((rotate_left 17 book XOR risk_stable_digest (gw_risk g)) XOR session)
      })"

section \<open>Sequence numbers in the book\<close>

text \<open>
  Orders of one price rest in the order of their sequence numbers, no two orders share one, and all
  are below a bound. Only price and sequence of the entries matter.
\<close>

definition turn :: "PriceTicks \<times> Order \<Rightarrow> PriceTicks \<times> SequenceNumber" where
  "turn e = (fst e, o_sequence (snd e))"

definition sequenced_below :: "BookModel \<Rightarrow> SequenceNumber \<Rightarrow> bool" where
  "sequenced_below m n \<longleftrightarrow> sequenced m \<and> (\<forall>side. \<forall>e \<in> set (bm_side m side). o_sequence (snd e) < n)"

lemma sequenced_turn:
  "sequenced m \<longleftrightarrow> (\<forall>side. sorted_wrt (\<lambda>a b. fst a = fst b \<longrightarrow> snd a < snd b) (map turn (bm_side m side))) \<and>
     distinct (map snd (map turn (bm_side m Buy) @ map turn (bm_side m Sell))) \<and>
     (\<forall>side. \<forall>t \<in> set (map turn (bm_side m side)). 0 < snd t)"
proof -
  have "in_turn = (\<lambda>e f. fst e = fst f \<longrightarrow> o_sequence (snd e) < o_sequence (snd f))" by (simp add: fun_eq_iff in_turn_def)
  then show ?thesis by (simp add: sequenced_def sorted_wrt_map turn_def comp_def)
qed

lemma subseq_set: "subseq xs ys \<Longrightarrow> set xs \<subseteq> set ys"
  by (auto dest: list_emb_set)

lemma subseq_sorted_wrt: "subseq xs ys \<Longrightarrow> sorted_wrt P ys \<Longrightarrow> sorted_wrt P xs"
  by (induction rule: list_emb.induct) (auto dest!: subseq_set)

lemma subseq_distinct: "subseq xs ys \<Longrightarrow> distinct ys \<Longrightarrow> distinct xs"
  by (induction rule: list_emb.induct) (auto dest!: subseq_set)

lemma sequenced_below_subseq:
  assumes m: "sequenced_below m n" and sub: "\<And>side. subseq (map turn (bm_side m' side)) (map turn (bm_side m side))"
  shows "sequenced_below m' n"
proof -
  have s: "sequenced m" and b: "\<And>side t. t \<in> set (map turn (bm_side m side)) \<Longrightarrow> snd t < n"
    using m by (force simp: sequenced_below_def turn_def)+
  note S = s [unfolded sequenced_turn]
  have "distinct (map snd (map turn (bm_side m' Buy) @ map turn (bm_side m' Sell)))"
    by (rule subseq_distinct [OF subseq_map [OF list_emb_append_mono [OF sub [of Buy] sub [of Sell]]]]) (use S in blast)
  moreover have "sorted_wrt (\<lambda>a b. fst a = fst b \<longrightarrow> snd a < snd b) (map turn (bm_side m' side))" for side
    by (rule subseq_sorted_wrt [OF sub]) (use S in blast)
  moreover have "0 < snd t \<and> snd t < n" if "t \<in> set (map turn (bm_side m' side))" for side t
    using S b [of t side] subseq_set [OF sub [of side]] that by blast
  ultimately show ?thesis unfolding sequenced_below_def sequenced_turn by (fastforce simp: turn_def)
qed

lemma sequenced_below_mono: "sequenced_below m n \<Longrightarrow> n \<le> n' \<Longrightarrow> sequenced_below m n'"
  by (fastforce simp: sequenced_below_def)

lemma turn_keeps_sequence: "o_sequence y = o_sequence x \<Longrightarrow> turn (p, y) = turn (p, x)"
  by (simp add: turn_def)

lemma match_list_turns:
  assumes "match_list side limit n xs = (fills, ys, left)"
  shows "subseq (map turn ys) (map turn xs)"
proof -
  from match_list_prefix [OF assms] obtain A B where "xs = A @ B" "map turn ys = map turn B"
    by (auto simp: turn_def)
  then have "suffix (map turn ys) (map turn xs)" by (auto simp: suffix_def)
  then show ?thesis by (rule suffix_imp_subseq)
qed

lemma delete_order_turns: "subseq (map turn (delete_order k xs)) (map turn xs)"
  unfolding delete_order_def by (rule subseq_map) simp

lemma enqueue_split:
  obtains A B where "xs = A @ B" "enqueue d p x xs = A @ (p, x) # B" "B \<noteq> [] \<Longrightarrow> before d p (fst (hd B))"
proof
  show "xs = takeWhile (\<lambda>e. \<not> before d p (fst e)) xs @ dropWhile (\<lambda>e. \<not> before d p (fst e)) xs" by simp
  show "dropWhile (\<lambda>e. \<not> before d p (fst e)) xs \<noteq> [] \<Longrightarrow> before d p (fst (hd (dropWhile (\<lambda>e. \<not> before d p (fst e)) xs)))"
    using hd_dropWhile by blast
qed (simp add: enqueue_def)

lemma enqueue_in_turn:
  assumes sorted: "prio_sorted d xs" and turns: "sorted_wrt in_turn xs" and new: "\<And>e. e \<in> set xs \<Longrightarrow> o_sequence (snd e) < o_sequence x"
  shows "sorted_wrt in_turn (enqueue d p x xs)"
proof -
  obtain A B where A: "xs = A @ B" "enqueue d p x xs = A @ (p, x) # B" "B \<noteq> [] \<Longrightarrow> before d p (fst (hd B))"
    by (rule enqueue_split [of xs d p x]) blast
  have far: "fst e \<noteq> p" if e: "e \<in> set B" for e
  proof -
    obtain f fs where B: "B = f # fs" using e by (cases B) auto
    then have "e = f \<or> \<not> before d (fst e) (fst f)" using sorted e A(1) by (auto simp: prio_sorted_def sorted_wrt_append)
    moreover have "before d p (fst f)" using A(3) B by simp
    ultimately show ?thesis by auto
  qed
  have "sorted_wrt in_turn (A @ B)" using turns A(1) by simp
  moreover have "\<forall>e \<in> set A. in_turn e (p, x)" using new A(1) by (simp add: in_turn_def)
  moreover have "\<forall>e \<in> set B. in_turn (p, x) e" using far by (auto simp: in_turn_def)
  ultimately show ?thesis unfolding A(2) by (auto simp: sorted_wrt_append)
qed

text \<open>A new order that rests behind the others with the next sequence number.\<close>

lemma sequenced_below_enqueue:
  assumes m: "sequenced_below m n" and sorted: "prio_sorted (descending side) (bm_side m side)" and x: "o_sequence x = n" "0 < n"
    and m': "m' = set_side m side (enqueue (descending side) p x (bm_side m side))"
  shows "sequenced_below m' (n + 1)"
proof -
  have s: "sequenced m" and below: "\<And>side e. e \<in> set (bm_side m side) \<Longrightarrow> o_sequence (snd e) < n"
    using m by (auto simp: sequenced_below_def)
  have dist: "distinct (map (\<lambda>e. o_sequence (snd e)) (bm_side m Buy @ bm_side m Sell))" using s by (simp add: sequenced_def)
  have new: "n \<notin> (\<lambda>e. o_sequence (snd e)) ` set (bm_side m sd)" for sd using below [of _ sd] by fastforce
  have ds: "distinct (map (\<lambda>e. o_sequence (snd e)) (enqueue (descending side) p x (bm_side m side)))"
  proof -
    have "mset (enqueue (descending side) p x xs) = add_mset (p, x) (mset xs)" for xs
      by (rule enqueue_split [of xs "descending side" p x]) simp
    then have "mset (map (\<lambda>e. o_sequence (snd e)) (enqueue (descending side) p x (bm_side m side)))
        = mset (n # map (\<lambda>e. o_sequence (snd e)) (bm_side m side))" using x(1) by simp
    moreover have "distinct (n # map (\<lambda>e. o_sequence (snd e)) (bm_side m side))" using new dist by (cases side) auto
    ultimately show ?thesis using mset_eq_imp_distinct_iff by blast
  qed
  have "sorted_wrt in_turn (enqueue (descending side) p x (bm_side m side))"
    by (rule enqueue_in_turn [OF sorted]) (use s below x in \<open>auto simp: sequenced_def\<close>)
  moreover have "distinct (map (\<lambda>e. o_sequence (snd e)) (bm_side m' Buy @ bm_side m' Sell))"
    using ds dist new x(1) unfolding m' by (cases side) auto
  ultimately show ?thesis using s x below unfolding sequenced_below_def sequenced_def m'
    by (auto intro: less_SucI)
qed

text \<open>Every command that is given the next sequence number keeps the order of the book.\<close>

lemma spec_submit_sequenced:
  assumes m: "sequenced_below m n" and sorted: "\<And>side. prio_sorted (descending side) (bm_side m side)"
    and n: "no_sequence order = n" "0 < n" and ok: "spec_submit m order cap = Ok ex"
  shows "sequenced_below (ex_book ex) (n + 1)"
proof -
  let ?sd = "no_side order" and ?op = "opposite (no_side order)"
  obtain fills makers left where ml: "match_list ?sd (no_price order) (no_quantity order) (bm_side m ?op) = (fills, makers, left)"
    by (metis prod_cases3)
  let ?m = "set_side m ?op makers"
  have sub: "subseq (map turn (bm_side ?m side)) (map turn (bm_side m side))" for side
    using match_list_turns [OF ml] by simp
  have below: "sequenced_below ?m n" by (rule sequenced_below_subseq [OF m sub])
  have other: "?sd \<noteq> ?op" by (cases ?sd) simp_all
  have "ex_book ex = ?m \<or> ex_book ex = set_side ?m ?sd (enqueue (descending ?sd) (no_price order) (order_of order left) (bm_side m ?sd))"
    using ok ml unfolding spec_submit_def by (auto simp: Let_def and_then_Ok_iff split: TimeInForce.splits if_splits)
  then show ?thesis
  proof
    assume "ex_book ex = ?m"
    with sequenced_below_mono [OF below] show ?thesis by simp
  next
    assume e: "ex_book ex = set_side ?m ?sd (enqueue (descending ?sd) (no_price order) (order_of order left) (bm_side m ?sd))"
    have "prio_sorted (descending ?sd) (bm_side ?m ?sd)" using sorted other by simp
    from sequenced_below_enqueue [OF below this, of "order_of order left"] n e other
    show ?thesis by (simp add: order_of_def)
  qed
qed

lemma spec_cancel_sequenced:
  assumes "sequenced_below m n" and "spec_cancel m c = Ok (m', out)"
  shows "sequenced_below m' n"
proof -
  from assms(2) obtain side where m': "m' = set_side m side (delete_order (co_order_id c) (bm_side m side))"
    by (auto simp: spec_cancel_def split: if_splits option.splits)
  show ?thesis unfolding m' by (rule sequenced_below_subseq [OF assms(1)]) (simp add: delete_order_turns)
qed

lemma spec_replace_sequenced:
  assumes m: "sequenced_below m n" and sorted: "\<And>side. prio_sorted (descending side) (bm_side m side)"
    and dist: "\<And>side. distinct (map (\<lambda>e. o_id (snd e)) (bm_side m side))"
    and n: "ro_sequence r = n" "0 < n" and ok: "spec_replace m r = Ok (m', out)"
  shows "sequenced_below m' (n + 1)"
proof -
  let ?k = "ro_order_id r"
  from ok obtain side p x where f: "find_side m ?k = Some (side, p, x)" by (auto simp: spec_replace_def split: if_splits option.splits)
  then have x: "(p, x) \<in> set (bm_side m side)" "o_id x = ?k"
    using find_order_SomeD by (auto simp: find_side_def split: option.splits prod.splits)
  consider (keep) "m' = set_side m side (map (\<lambda>e. if o_id (snd e) = ?k then (p, x\<lparr>o_quantity := ro_quantity r\<rparr>) else e) (bm_side m side))"
    | (move) "m' = set_side m side (enqueue (descending side) (ro_price r) \<lparr>o_id = ?k, o_account = ro_account_id r,
        o_quantity = ro_quantity r, o_sequence = ro_sequence r\<rparr> (delete_order ?k (bm_side m side)))"
    using ok f by (auto simp: spec_replace_def and_then_Ok_iff split: if_splits)
  then show ?thesis
  proof cases
    case keep
    have "e = (p, x)" if "e \<in> set (bm_side m side)" "o_id (snd e) = ?k" for e
      using that x dist [of side] by (force simp: distinct_map inj_on_def)
    then have same: "map turn (map (\<lambda>e. if o_id (snd e) = ?k then (p, x\<lparr>o_quantity := ro_quantity r\<rparr>) else e) (bm_side m side)) = map turn (bm_side m side)"
      by (auto simp: turn_def)
    have "map turn (bm_side m' sd) = map turn (bm_side m sd)" for sd using same by (cases "sd = side") (simp_all add: keep del: map_map)
    then have "sequenced_below m' n" by (intro sequenced_below_subseq [OF m]) simp
    from sequenced_below_mono [OF this] show ?thesis by simp
  next
    case move
    let ?m = "set_side m side (delete_order ?k (bm_side m side))"
    have below: "sequenced_below ?m n" by (rule sequenced_below_subseq [OF m]) (simp add: delete_order_turns)
    have "prio_sorted (descending side) (bm_side ?m side)" using sorted [of side]
      by (simp add: prio_sorted_def delete_order_def sorted_wrt_filter)
    from sequenced_below_enqueue [OF below this _ n(2)] move n(1) show ?thesis by (simp add: set_side_def)
  qed
qed

definition gw_sequenced :: "Gateway \<Rightarrow> bool" where
  "gw_sequenced g \<longleftrightarrow> sequenced_below (book_abs (gw_book g)) (gw_expected_sequence g)"

lemma dispatch_sequenced:
  assumes inv: "gw_inv g" and c: "command_ok command" and rb: "reports_ok rb" "reports_iter rb = []"
    and m: "sequenced_below (book_abs (gw_book g)) n" and n: "command_sequence command = n" "0 < n"
    and run: "dispatch g command rb = Some (g', rb', Ok out)"
  shows "sequenced_below (book_abs (gw_book g')) (n + 1)"
proof -
  have wf: "book_wf (gw_book g)" using gw_invD(2) [OF inv] by (simp add: book_ok_def)
  have sorted: "prio_sorted (descending side) (bm_side (book_abs (gw_book g)) side)" for side
    using book_list_sorted [OF wf_sides [OF wf]] by simp
  have dist: "distinct (map (\<lambda>e. o_id (snd e)) (bm_side (book_abs (gw_book g)) side))" for side
    using distinct_ids [OF wf] by (cases side) simp_all
  show ?thesis
  proof (cases command)
    case (CmdNewOrder order)
    with new_order_refines [OF inv _ rb, of order] c run obtain ex where
      ex: "spec_new_order g order (reports_remaining_capacity rb) = Ok ex" "executed (gw_book g') rb rb' order ex"
      by (cases "spec_new_order g order (reports_remaining_capacity rb)") (auto simp: dispatch_def)
    then have "spec_submit (book_abs (gw_book g)) order (reports_remaining_capacity rb) = Ok ex"
      by (auto simp: spec_new_order_def split: if_splits result.splits)
    from spec_submit_sequenced [OF m sorted _ n(2) this] n(1) CmdNewOrder ex(2) show ?thesis by (simp add: executed_def)
  next
    case (CmdCancelOrder x)
    with process_cancel_refines [OF inv, of x] run obtain out' where
      "spec_process_cancel g x = Ok (book_abs (gw_book g'), out')"
      by (cases "spec_process_cancel g x") (auto simp: dispatch_def)
    then have "spec_cancel (book_abs (gw_book g)) x = Ok (book_abs (gw_book g'), out')"
      by (auto simp: spec_process_cancel_def split: if_splits option.splits result.splits)
    from sequenced_below_mono [OF spec_cancel_sequenced [OF m this]] show ?thesis by simp
  next
    case (CmdReplaceOrder x)
    with process_replace_refines [OF inv, of x] c run obtain out' where
      "spec_process_replace g x = Ok (book_abs (gw_book g'), out')"
      by (cases "spec_process_replace g x") (auto simp: dispatch_def)
    then have "spec_replace (book_abs (gw_book g)) x = Ok (book_abs (gw_book g'), out')"
      by (auto simp: spec_process_replace_def split: if_splits option.splits result.splits)
    from spec_replace_sequenced [OF m sorted dist _ n(2) this] n(1) CmdReplaceOrder show ?thesis by simp
  qed
qed

lemma process_command_sequenced:
  assumes inv: "gw_inv g" and c: "command_ok command" and m: "gw_sequenced g"
    and run: "process_command g command rb = Some (g', rb', r)"
  shows "gw_sequenced g'"
proof -
  let ?g = "g\<lparr>gw_expected_sequence := gw_expected_sequence g + 1\<rparr>"
  have u: "u64_ok (gw_expected_sequence g)" "0 < gw_expected_sequence g" using inv by (simp_all add: gw_inv_def)
  from process_command_effect [OF inv c, of rb] run have adv: "advanced g (command_sequence command) g' rb rb' r" by auto
  show ?thesis
  proof (cases "command_sequence command = gw_expected_sequence g \<and> gw_expected_sequence g \<noteq> 2 ^ 64 - 1")
    case False
    with adv m show ?thesis by (auto simp: advanced_def split: if_splits)
  next
    case True
    then have e: "gw_expected_sequence g' = gw_expected_sequence g + 1" and k: "\<And>e. r = Err e \<Longrightarrow> gw_book g' = gw_book g"
      using adv by (auto simp: advanced_def rolled_back_def)
    show ?thesis
    proof (cases r)
      case (Err x)
      with k e m show ?thesis by (auto simp: gw_sequenced_def intro: sequenced_below_mono)
    next
      case (Ok out)
      have "u64_ok (gw_expected_sequence g + 1)" using True u(1) by (auto simp: u64_ok_def)
      with inv have inv': "gw_inv ?g" by (auto simp: gw_inv_def)
      have d: "dispatch ?g command (reports_clear rb) = Some (g', rb', Ok out)"
        using run accept_sequence_cases [OF u(1), of "command_sequence command"] True Ok by (auto simp: process_command_def)
      from dispatch_sequenced [OF inv' c _ _ _ conjunct1 [OF True] u(2) d] m e show ?thesis by (simp add: gw_sequenced_def)
    qed
  qed
qed

lemma gw_reachable_sequenced:
  assumes "gw_reachable ACCOUNTS RISK_ORDERS LEVELS ORDERS inst g" and cap: "capacities_ok ACCOUNTS RISK_ORDERS LEVELS ORDERS"
  shows "gw_sequenced g"
  using assms(1)
proof induction
  case (fresh risk)
  have "book_list (book_new LEVELS ORDERS inst) side = []" for side using book_ok_new cap by (auto simp: capacities_ok_def)
  then show ?case by (simp add: gw_sequenced_def gateway_new_def sequenced_below_def sequenced_def)
next
  case (commanded g command rb g' rb' r)
  then show ?case using process_command_sequenced gw_reachable_inv [OF _ cap] by blast
next
  case (framed g frame rb g' rb' r)
  show ?case
  proof (cases "parse_message frame")
    case (Err e)
    with framed show ?thesis by (simp add: process_frame_command)
  next
    case (Ok m)
    with framed process_command_sequenced [of g "to_command m" rb g' rb' r] gw_reachable_inv [OF framed.hyps(1) cap] parse_canonical [OF Ok]
    show ?thesis by (auto simp: process_frame_command)
  qed
qed

end
