(* ===== verification/GatewayRestore.thy ===== *)
theory GatewayRestore
  imports GatewayState
begin

text \<open>
  What the checks across book and risk engine establish: a state that passes them is the state of a
  coherent gateway, and the state of a gateway that satisfies the invariant fails them only when an
  open order is outside the limits of its account.
\<close>

section \<open>The cross-component checks\<close>

definition order_within :: "RiskLimits \<Rightarrow> PriceTicks \<Rightarrow> Quantity \<Rightarrow> bool" where
  "order_within l p q \<longleftrightarrow> 0 \<le> p \<and> nat p * q < 2 ^ 128 \<and> q \<le> rl_max_quantity l \<and> rl_minimum_price l \<le> p \<and>
     p \<le> rl_maximum_price l \<and> nat p * q \<le> rl_max_notional l"

lemma check_order_limits_eq:
  "check_order_limits l x = (if order_within l (bos_price x) (bos_quantity x) then Ok () else Err GseOrderLimit)"
  by (auto simp: check_order_limits_def order_within_def checked_mul_def)

lemma find_unique: "distinct (map f xs) \<Longrightarrow> find (\<lambda>x. f x = k) xs = Some x \<longleftrightarrow> x \<in> set xs \<and> f x = k"
  by (induction xs) auto

lemma find_absent: "find (\<lambda>x. f x = k) xs = None \<longleftrightarrow> k \<notin> f ` set xs"
  by (auto simp: find_None_iff)

lemma export_find_reservation:
  assumes "risk_inv re"
  shows "find (\<lambda>r. rrs_order_id r = k) (rs_reservations (risk_export_state re)) =
    map_option (\<lambda>(aid, side, q). \<lparr>rrs_order_id = k, rrs_account_id = aid, rrs_side = side, rrs_quantity = q\<rparr>) (resv re k)"
proof -
  let ?R = "rs_reservations (risk_export_state re)"
  have d: "distinct (map rrs_order_id ?R)" using export_reservations(1) [OF assms] by (simp add: strict_sorted_iff)
  show ?thesis
  proof (cases "resv re k")
    case None
    then have "k \<notin> rrs_order_id ` set ?R" unfolding export_reservations(2) [OF assms] by auto
    with None show ?thesis using find_absent [of rrs_order_id k ?R] by simp
  next
    case (Some v)
    obtain aid side q where v: "v = (aid, side, q)" by (cases v) auto
    have "\<lparr>rrs_order_id = k, rrs_account_id = aid, rrs_side = side, rrs_quantity = q\<rparr> \<in> set ?R"
      unfolding export_reservations(2) [OF assms] using Some v by blast
    then show ?thesis using find_unique [OF d, of k] Some v by simp
  qed
qed

lemma export_find_account:
  assumes "risk_inv re"
  shows "find (\<lambda>a. ars_id a = aid) (rs_accounts (risk_export_state re)) = map_option account_risk_state (acct re aid)"
proof -
  let ?A = "rs_accounts (risk_export_state re)"
  have d: "distinct (map ars_id ?A)" using export_accounts(1) [OF assms] by (simp add: strict_sorted_iff)
  have ids: "acct re k = Some a \<Longrightarrow> ac_id a = k" for k a using risk_inv_acct_ok [OF assms] by blast
  show ?thesis
  proof (cases "acct re aid")
    case None
    then have "aid \<notin> ars_id ` set ?A" unfolding export_accounts(2) [OF assms] using ids by auto
    with None show ?thesis using find_absent [of ars_id aid ?A] by simp
  next
    case (Some a)
    then have "account_risk_state a \<in> set ?A" unfolding export_accounts(2) [OF assms] by blast
    then show ?thesis using find_unique [OF d, of aid] Some ids by simp
  qed
qed

text \<open>The orders of an exported book.\<close>

lemma concat_used_orders:
  assumes "\<forall>l \<in> set ls. length (snd l) \<le> ORDERS"
  shows "concat (map used_orders (map (level_state ORDERS side) ls)) = map (\<lambda>(p, x). order_state side p x) (flat ls)"
  using assms by (induction ls) (simp_all add: used_orders_state o_def)

lemma export_all_orders:
  assumes "sides_wf b" and "book_export_state b = Some s"
  shows "concat (map used_orders (used_levels s)) =
    map (\<lambda>(p, x). order_state Buy p x) (book_list b Buy) @ map (\<lambda>(p, x). order_state Sell p x) (book_list b Sell)"
proof -
  note f = book_side_facts [OF assms(1)]
  have s: "s = ladders_state (ob_LEVELS b) (ob_ORDERS b) (ob_instrument b) (book_side b Buy) (book_side b Sell)"
    using assms book_export_state_eq [OF assms(1)] by simp
  have len: "\<forall>l \<in> set (book_side b side). length (snd l) \<le> ob_ORDERS b" for side using f(3) by blast
  show ?thesis unfolding s used_levels_state book_list_flat map_append concat_append concat_used_orders [OF len] ..
qed

lemma check_orders_Ok:
  "check_orders s xs n = Ok m \<longleftrightarrow> (\<forall>x \<in> set xs. check_order_state s x = Ok ()) \<and> m = n + length xs"
  by (induction xs arbitrary: n) (auto simp: and_then_unit)

lemma check_orders_Err:
  "(\<forall>x \<in> set xs. check_order_state s x = Ok () \<or> check_order_state s x = Err e) \<Longrightarrow>
   check_orders s xs n = (if \<forall>x \<in> set xs. check_order_state s x = Ok () then Ok (n + length xs) else Err e)"
  by (induction xs arbitrary: n) auto

text \<open>What is required of one order resting on a side.\<close>

definition order_backed :: "Gateway \<Rightarrow> Side \<Rightarrow> PriceTicks \<Rightarrow> Order \<Rightarrow> bool" where
  "order_backed g side p x \<longleftrightarrow> o_sequence x < gw_expected_sequence g \<and> received_before g (o_id x) \<and>
     resv (gw_risk g) (o_id x) = Some (o_account x, side, o_quantity x) \<and> acct (gw_risk g) (o_account x) \<noteq> None"

definition within_limits_of :: "Gateway \<Rightarrow> PriceTicks \<Rightarrow> Order \<Rightarrow> bool" where
  "within_limits_of g p x \<longleftrightarrow> (\<exists>a. acct (gw_risk g) (o_account x) = Some a \<and> order_within (ac_limits a) p (o_quantity x))"

lemma check_order_state_export:
  assumes inv: "risk_inv (gw_risk g)" and s: "gateway_export_state g = Some s"
  shows "check_order_state s (order_state side p x) = Ok () \<longleftrightarrow> order_backed g side p x \<and> within_limits_of g p x"
    and "order_backed g side p x \<Longrightarrow>
      check_order_state s (order_state side p x) = (if within_limits_of g p x then Ok () else Err GseOrderLimit)"
proof -
  have sel: "gs_expected_sequence s = gw_expected_sequence g" "gs_maximum_received_order_id s = gw_maximum_received_order_id g"
    "gs_risk s = risk_export_state (gw_risk g)" using s by (auto simp: gateway_export_state_def split: Option.bind_splits)
  have lim: "ars_limits (account_risk_state a) = ac_limits a" for a by (simp add: account_risk_state_def)
  show "order_backed g side p x \<Longrightarrow>
      check_order_state s (order_state side p x) = (if within_limits_of g p x then Ok () else Err GseOrderLimit)"
    by (auto simp: check_order_state_def sel export_find_reservation [OF inv] export_find_account [OF inv] check_order_limits_eq
        order_backed_def within_limits_of_def received_before_def order_state_def lim split: option.splits)
  show "check_order_state s (order_state side p x) = Ok () \<longleftrightarrow> order_backed g side p x \<and> within_limits_of g p x"
    by (auto simp: check_order_state_def sel export_find_reservation [OF inv] export_find_account [OF inv] check_order_limits_eq
        order_backed_def within_limits_of_def received_before_def order_state_def lim split: option.splits if_splits prod.splits)
qed

text \<open>
  Counting: when every resting order is backed by its reservation and there are as many orders as
  reservations, the reservations are exactly the orders.
\<close>

definition book_orders :: "OrderBook \<Rightarrow> plist" where
  "book_orders b = book_list b Buy @ book_list b Sell"

lemma export_reservation_ids: "risk_inv re \<Longrightarrow> rrs_order_id ` set (rs_reservations (risk_export_state re)) = dom (resv re)"
  unfolding export_reservations(2) by (force simp: dom_def)

lemma reservations_counted:
  assumes inv: "risk_inv re" and wf: "book_wf b" and sub: "ids (book_orders b) \<subseteq> dom (resv re)"
  shows "length (book_orders b) = length (rs_reservations (risk_export_state re)) \<longleftrightarrow> ids (book_orders b) = dom (resv re)"
proof -
  let ?R = "rs_reservations (risk_export_state re)"
  have "distinct (map rrs_order_id ?R)" using export_reservations(1) [OF inv] by (simp add: strict_sorted_iff)
  then have "card (rrs_order_id ` set ?R) = length ?R" using distinct_card by fastforce
  then have r: "card (dom (resv re)) = length ?R" using export_reservation_ids [OF inv] by simp
  have "distinct (map (\<lambda>e. o_id (snd e)) (book_orders b))" using distinct_ids [OF wf] by (simp add: book_orders_def)
  then have o: "card (ids (book_orders b)) = length (book_orders b)" unfolding ids_def using distinct_card by fastforce
  have "finite (dom (resv re))" using export_reservation_ids [OF inv] by (metis finite_imageI finite_set)
  then show ?thesis using card_subset_eq [OF _ sub] r o by metis
qed

lemma coherent_counted:
  assumes inv: "risk_inv re" and wf: "book_wf b"
  shows "coherent re (book_abs b) \<longleftrightarrow>
    (\<forall>side p x. (p, x) \<in> set (book_list b side) \<longrightarrow> resv re (o_id x) = Some (o_account x, side, o_quantity x)) \<and>
    length (book_orders b) = length (rs_reservations (risk_export_state re))" (is "_ \<longleftrightarrow> ?backed \<and> ?counted")
proof -
  have mem: "k \<in> ids (book_orders b) \<longleftrightarrow> (\<exists>side p x. (p, x) \<in> set (book_list b side) \<and> o_id x = k)" for k
    unfolding book_orders_def in_ids_pair ex_side [of _ Sell] by auto
  have covered: "?backed" if "coherent re (book_abs b)" using coherentD [OF that] by simp
  have sub: "ids (book_orders b) \<subseteq> dom (resv re)" if "?backed" using that by (auto simp: mem)
  have "coherent re (book_abs b) \<longleftrightarrow> ids (book_orders b) = dom (resv re)" if B: "?backed"
  proof
    assume c: "coherent re (book_abs b)"
    have "k \<in> ids (book_orders b)" if "resv re k = Some v" for k v
      using coherentE [OF c, of k "fst v" "fst (snd v)" "snd (snd v)"] that mem by (metis book_abs_sel(4) prod.collapse)
    with sub [OF B] show "ids (book_orders b) = dom (resv re)" by blast
  next
    assume d: "ids (book_orders b) = dom (resv re)"
    have "v \<in> open_orders (book_abs b) k" if v: "resv re k = Some v" for k v
    proof -
      from v d mem [of k] obtain side p x where x: "(p, x) \<in> set (book_list b side)" "o_id x = k" by (metis domI)
      with B v have "v = (o_account x, side, o_quantity x)" by auto
      with x show ?thesis by (auto simp: open_orders_def)
    qed
    moreover have "resv re k = Some v" if "v \<in> open_orders (book_abs b) k" for k v
      using that B by (auto simp: open_orders_def)
    ultimately show "coherent re (book_abs b)" unfolding coherent_def by blast
  qed
  then show ?thesis using reservations_counted [OF inv wf sub] covered by blast
qed

lemma gateway_export_eq:
  assumes "book_wf (gw_book g)"
  obtains s where "gateway_export_state g = Some s" "book_export_state (gw_book g) = Some (gs_book s)"
    "gs_instrument s = ob_instrument (gw_book g)" "gs_risk s = risk_export_state (gw_risk g)"
    "gs_expected_sequence s = gw_expected_sequence g" "gs_maximum_received_order_id s = gw_maximum_received_order_id g"
proof -
  obtain book where b: "book_export_state (gw_book g) = Some book" "bs_instrument book = ob_instrument (gw_book g)"
    using book_export_state_eq [OF wf_sides [OF assms]] by simp
  then show thesis
    by (intro that [of "\<lparr>gs_instrument = bs_instrument book, gs_book = book, gs_risk = risk_export_state (gw_risk g),
        gs_expected_sequence = gw_expected_sequence g, gs_maximum_received_order_id = gw_maximum_received_order_id g\<rparr>"])
      (simp_all add: gateway_export_state_def)
qed

text \<open>The checks, on the state that a well-formed gateway exports.\<close>

lemma cross_check_export:
  assumes inv: "risk_inv (gw_risk g)" and wf: "book_wf (gw_book g)" and s: "gateway_export_state g = Some s"
  shows "validate_cross_component_state s = Ok () \<longleftrightarrow> 0 < gw_expected_sequence g \<and>
    (\<forall>k. re_maximum_order_id (gw_risk g) = Some k \<longrightarrow> received_before g k) \<and>
    (\<forall>side p x. (p, x) \<in> set (book_list (gw_book g) side) \<longrightarrow> order_backed g side p x \<and> within_limits_of g p x) \<and>
    length (book_orders (gw_book g)) = length (rs_reservations (risk_export_state (gw_risk g)))"
proof -
  let ?b = "gw_book g"
  from gateway_export_eq [OF wf] s have e: "book_export_state ?b = Some (gs_book s)" "gs_risk s = risk_export_state (gw_risk g)"
    "gs_expected_sequence s = gw_expected_sequence g" "gs_maximum_received_order_id s = gw_maximum_received_order_id g"
    by (metis option.inject)+
  have w: "option_greater (rs_maximum_order_id (risk_export_state (gw_risk g))) (gw_maximum_received_order_id g) \<longleftrightarrow>
      \<not> (\<forall>k. re_maximum_order_id (gw_risk g) = Some k \<longrightarrow> received_before g k)"
    by (cases "re_maximum_order_id (gw_risk g)"; cases "gw_maximum_received_order_id g")
      (auto simp: risk_export_state_def received_before_def)
  note orders = export_all_orders [OF wf_sides [OF wf] e(1)]
  have "(\<forall>x \<in> set (concat (map used_orders (used_levels (gs_book s)))). check_order_state s x = Ok ()) \<longleftrightarrow>
      (\<forall>side p x. (p, x) \<in> set (book_list ?b side) \<longrightarrow> order_backed g side p x \<and> within_limits_of g p x)"
    unfolding orders all_sides using check_order_state_export(1) [OF inv s] by (auto simp: ball_Un)
  moreover have "length (concat (map used_orders (used_levels (gs_book s)))) = length (book_orders ?b)"
    unfolding orders by (simp add: book_orders_def)
  ultimately show ?thesis
    unfolding validate_cross_component_state_def e(2-4) w using check_orders_Ok [of s "concat (map used_orders (used_levels (gs_book s)))" 0]
    by (auto simp: and_then_Ok_iff)
qed

lemma cross_check_backed:
  assumes inv: "risk_inv (gw_risk g)" and wf: "book_wf (gw_book g)" and s: "gateway_export_state g = Some s"
    and g: "0 < gw_expected_sequence g" "\<forall>k. re_maximum_order_id (gw_risk g) = Some k \<longrightarrow> received_before g k"
      "\<forall>side p x. (p, x) \<in> set (book_list (gw_book g) side) \<longrightarrow> order_backed g side p x"
    and out: "\<exists>side p x. (p, x) \<in> set (book_list (gw_book g) side) \<and> \<not> within_limits_of g p x"
  shows "validate_cross_component_state s = Err GseOrderLimit"
proof -
  let ?b = "gw_book g"
  from gateway_export_eq [OF wf] s have e: "book_export_state ?b = Some (gs_book s)" "gs_risk s = risk_export_state (gw_risk g)"
    "gs_expected_sequence s = gw_expected_sequence g" "gs_maximum_received_order_id s = gw_maximum_received_order_id g"
    by (metis option.inject)+
  have w: "\<not> option_greater (rs_maximum_order_id (risk_export_state (gw_risk g))) (gw_maximum_received_order_id g)"
    using g(2) by (cases "re_maximum_order_id (gw_risk g)"; cases "gw_maximum_received_order_id g")
      (auto simp: risk_export_state_def received_before_def)
  note orders = export_all_orders [OF wf_sides [OF wf] e(1)]
  let ?xs = "concat (map used_orders (used_levels (gs_book s)))"
  have one: "check_order_state s (order_state side p x) = (if within_limits_of g p x then Ok () else Err GseOrderLimit)"
    if "(p, x) \<in> set (book_list ?b side)" for side p x using check_order_state_export(2) [OF inv s] g(3) that by blast
  have "\<forall>y \<in> set ?xs. check_order_state s y = Ok () \<or> check_order_state s y = Err GseOrderLimit"
    unfolding orders by (auto simp: ball_Un one split: if_split_asm)
  moreover obtain side p x where x: "(p, x) \<in> set (book_list ?b side)" "\<not> within_limits_of g p x" using out by blast
  moreover have "order_state side p x \<in> set ?xs" unfolding orders using x(1) by (cases side) force+
  moreover have "check_order_state s (order_state side p x) \<noteq> Ok ()" using one [OF x(1)] x(2) by simp
  ultimately have "check_orders s ?xs 0 = Err GseOrderLimit"
    using check_orders_Err [of ?xs s GseOrderLimit 0] by metis
  then show ?thesis using g(1) w unfolding validate_cross_component_state_def e by simp
qed

section \<open>Restoring a gateway\<close>

definition open_orders_within :: "Gateway \<Rightarrow> bool" where
  "open_orders_within g \<longleftrightarrow> (\<forall>side p x. (p, x) \<in> set (book_list (gw_book g) side) \<longrightarrow> within_limits_of g p x)"

definition gw_sizes :: "Gateway \<Rightarrow> nat \<times> nat \<times> nat \<times> nat" where
  "gw_sizes g = (length (re_accounts (gw_risk g)), length (re_reservations (gw_risk g)), ob_LEVELS (gw_book g), ob_ORDERS (gw_book g))"

definition gateway_state_typed :: "nat \<Rightarrow> nat \<Rightarrow> GatewayState \<Rightarrow> bool" where
  "gateway_state_typed LEVELS ORDERS s \<longleftrightarrow> book_state_shaped LEVELS ORDERS (gs_book s) \<and> risk_state_typed (gs_risk s) \<and>
     u64_ok (gs_expected_sequence s)"

lemma gw_inv_backed:
  assumes inv: "gw_inv g" and seq: "gw_sequenced g" and x: "(p, x) \<in> set (book_list (gw_book g) side)"
  shows "order_backed g side p x"
proof -
  have r: "resv (gw_risk g) (o_id x) = Some (o_account x, side, o_quantity x)" using coherentD [OF gw_invD(4) [OF inv]] x by simp
  from risk_inv_watermark [OF gw_invD(1) [OF inv] r] obtain m where m: "re_maximum_order_id (gw_risk g) = Some m" "o_id x \<le> m" .
  with inv obtain m' where "gw_maximum_received_order_id g = Some m'" "m \<le> m'" unfolding gw_inv_def by blast
  with m(2) have "received_before g (o_id x)" by (simp add: received_before_def)
  moreover have "acct (gw_risk g) (o_account x) \<noteq> None" using settle_refines [OF gw_invD(1) [OF inv], of "o_id x" 0] r by auto
  moreover have "o_sequence x < gw_expected_sequence g" using seq x by (fastforce simp: gw_sequenced_def sequenced_below_def)
  ultimately show ?thesis using r by (simp add: order_backed_def)
qed

lemma gateway_restored:
  assumes cap: "capacities_ok ACCOUNTS RISK_ORDERS LEVELS ORDERS" and typed: "gateway_state_typed LEVELS ORDERS s"
    and run: "gateway_from_state ACCOUNTS RISK_ORDERS LEVELS ORDERS s = Some (Ok g)"
  shows "gw_inv g" "gw_sequenced g" "open_orders_within g" "gateway_export_state g = Some s" "gw_sizes g = (ACCOUNTS, RISK_ORDERS, LEVELS, ORDERS)"
proof -
  have c: "LEVELS * ORDERS * 4 \<le> 2 ^ 32" "0 < ORDERS" "ACCOUNTS \<le> 2 ^ 31" "RISK_ORDERS \<le> 2 ^ 31" using cap by (simp_all add: capacities_ok_def)
  have shaped: "book_state_shaped LEVELS ORDERS (gs_book s)" and fits: "risk_state_fits (gs_risk s)" and u: "u64_ok (gs_expected_sequence s)"
    using typed risk_state_typed_fits by (auto simp: gateway_state_typed_def)
  from run obtain b re where parts: "book_from_state LEVELS ORDERS (gs_instrument s) (gs_book s) = Some (Ok b)"
      "risk_from_state ACCOUNTS RISK_ORDERS (gs_risk s) = Some (Ok re)" and v: "validate_cross_component_state s = Ok ()"
    and g: "g = \<lparr>gw_risk = re, gw_book = b, gw_expected_sequence = gs_expected_sequence s,
      gw_maximum_received_order_id = gs_maximum_received_order_id s\<rparr>"
    by (auto simp: gateway_from_state_def and_then_unit split: Option.bind_split_asm result.split_asm)
  have b: "book_ok b" "ob_LEVELS b = LEVELS" "ob_ORDERS b = ORDERS" "sequenced (book_abs b)" "book_export_state b = Some (gs_book s)"
    "bs_instrument (gs_book s) = gs_instrument s"
    using book_from_state_cases [OF c(1,2) shaped, of "gs_instrument s"] parts(1) by fastforce+
  have re: "risk_inv re" "risk_export_state re = gs_risk s" "length (re_accounts re) = ACCOUNTS" "length (re_reservations re) = RISK_ORDERS"
    using risk_from_state_valid [OF c(3,4) fits] risk_from_state_invalid [OF c(4) fits] parts(2) by fastforce+
  have wf: "book_wf b" using b(1) by (simp add: book_ok_def)
  show ex: "gateway_export_state g = Some s" using b(5,6) re(2) by (simp add: gateway_export_state_def g)
  have V: "0 < gw_expected_sequence g" "\<And>k. re_maximum_order_id re = Some k \<Longrightarrow> received_before g k"
    "\<And>side p x. (p, x) \<in> set (book_list b side) \<Longrightarrow> order_backed g side p x \<and> within_limits_of g p x"
    "length (book_orders b) = length (rs_reservations (risk_export_state re))"
    using cross_check_export [OF _ _ ex] v re(1) wf by (auto simp: g)
  have "coherent re (book_abs b)" unfolding coherent_counted [OF re(1) wf] using V(3,4) by (auto simp: order_backed_def g)
  moreover have "quantities_fit (book_abs b)"
  proof -
    have "u64_ok q" if "resv re k = Some (aid, side, q)" for k aid side q
      using fits that unfolding re(2) [symmetric] risk_state_fits_def export_reservations(2) [OF re(1)] by fastforce
    then show ?thesis using coherentD [OF calculation] unfolding quantities_fit_def by blast
  qed
  ultimately show "gw_inv g" using re(1) b(1) V(1,2) u by (auto simp: gw_inv_def g received_before_def)
  show "gw_sequenced g" using b(4) V(3) by (auto simp: gw_sequenced_def sequenced_below_def order_backed_def g)
  show "open_orders_within g" using V(3) by (auto simp: open_orders_within_def g)
  show "gw_sizes g = (ACCOUNTS, RISK_ORDERS, LEVELS, ORDERS)" using b re by (simp add: gw_sizes_def g)
qed

lemma gateway_from_state_total:
  assumes cap: "capacities_ok ACCOUNTS RISK_ORDERS LEVELS ORDERS" and typed: "gateway_state_typed LEVELS ORDERS s"
  shows "gateway_from_state ACCOUNTS RISK_ORDERS LEVELS ORDERS s \<noteq> None"
proof -
  have c: "LEVELS * ORDERS * 4 \<le> 2 ^ 32" "0 < ORDERS" "ACCOUNTS \<le> 2 ^ 31" "RISK_ORDERS \<le> 2 ^ 31" using cap by (simp_all add: capacities_ok_def)
  have shaped: "book_state_shaped LEVELS ORDERS (gs_book s)" and fits: "risk_state_fits (gs_risk s)"
    using typed risk_state_typed_fits by (auto simp: gateway_state_typed_def)
  have "book_from_state LEVELS ORDERS (gs_instrument s) (gs_book s) \<noteq> None"
    by (rule book_from_state_cases [OF c(1,2) shaped, of "gs_instrument s"]) simp_all
  moreover have "risk_from_state ACCOUNTS RISK_ORDERS (gs_risk s) \<noteq> None"
    using risk_from_state_valid [OF c(3,4) fits] risk_from_state_invalid [OF c(4) fits] by fastforce
  ultimately show ?thesis by (auto simp: gateway_from_state_def split: result.splits)
qed

end
