(* ===== verification/GatewayEquiv.thy ===== *)
theory GatewayEquiv
  imports GatewayRestore
begin

text \<open>
  Gateways that export the same state are interchangeable: they answer every command alike and stay
  so. With the result on restoration this makes a restored gateway a replacement of the original one.
\<close>

section \<open>Equivalent gateways\<close>

definition book_equiv :: "OrderBook \<Rightarrow> OrderBook \<Rightarrow> bool" where
  "book_equiv b b2 \<longleftrightarrow> book_ok b \<and> book_ok b2 \<and> book_abs b = book_abs b2"

definition gw_equiv :: "Gateway \<Rightarrow> Gateway \<Rightarrow> bool" where
  "gw_equiv g g2 \<longleftrightarrow> risk_equiv (gw_risk g) (gw_risk g2) \<and> book_equiv (gw_book g) (gw_book g2) \<and>
     gw_expected_sequence g = gw_expected_sequence g2 \<and> gw_maximum_received_order_id g = gw_maximum_received_order_id g2"

lemma gw_inv_sound: "gw_inv g \<Longrightarrow> risk_sound (gw_risk g)"
  unfolding risk_sound_def
  using coherentE [OF gw_invD(4)] gw_invD(1,3) unfolding quantities_fit_def by metis

lemma gw_equiv_refl: "gw_inv g \<Longrightarrow> gw_equiv g g"
  using gw_inv_sound gw_invD(2) by (auto simp: gw_equiv_def book_equiv_def intro: risk_equiv_refl)

lemma gw_equiv_export:
  assumes "gw_equiv g g2"
  shows "gateway_export_state g = gateway_export_state g2"
proof -
  have b: "book_wf (gw_book g)" "book_wf (gw_book g2)" "book_abs (gw_book g) = book_abs (gw_book g2)"
    using assms by (auto simp: gw_equiv_def book_equiv_def book_ok_def)
  then have "ob_LEVELS (gw_book g) = ob_LEVELS (gw_book g2)" "ob_ORDERS (gw_book g) = ob_ORDERS (gw_book g2)"
    by (metis book_abs_sel)+
  with book_export_cong [OF b(1,2)] b(3) have "book_export_state (gw_book g) = book_export_state (gw_book g2)" by blast
  with assms show ?thesis by (simp add: gateway_export_state_def gw_equiv_def risk_equiv_def)
qed

lemma gw_equivI:
  assumes inv: "gw_inv g" "gw_inv g2" and ex: "gateway_export_state g = gateway_export_state g2" and sz: "gw_sizes g = gw_sizes g2"
  shows "gw_equiv g g2"
proof -
  note ok = gw_invD(2) [OF inv(1)] gw_invD(2) [OF inv(2)]
  have wf: "book_wf (gw_book g)" "book_wf (gw_book g2)" using ok by (simp_all add: book_ok_def)
  have sizes: "ob_LEVELS (gw_book g) = ob_LEVELS (gw_book g2)" "ob_ORDERS (gw_book g) = ob_ORDERS (gw_book g2)"
    "risk_sizes (gw_risk g) = risk_sizes (gw_risk g2)" using sz by (simp_all add: gw_sizes_def risk_sizes_def)
  obtain s where s: "gateway_export_state g = Some s" "book_export_state (gw_book g) = Some (gs_book s)"
    "gs_risk s = risk_export_state (gw_risk g)" "gs_expected_sequence s = gw_expected_sequence g"
    "gs_maximum_received_order_id s = gw_maximum_received_order_id g" using gateway_export_eq [OF wf(1)] by metis
  obtain s2 where s2: "gateway_export_state g2 = Some s2" "book_export_state (gw_book g2) = Some (gs_book s2)"
    "gs_risk s2 = risk_export_state (gw_risk g2)" "gs_expected_sequence s2 = gw_expected_sequence g2"
    "gs_maximum_received_order_id s2 = gw_maximum_received_order_id g2" using gateway_export_eq [OF wf(2)] by metis
  have "s = s2" using ex s(1) s2(1) by simp
  moreover from this have "book_abs (gw_book g) = book_abs (gw_book g2)" using book_export_cong [OF wf sizes(1,2)] s(2) s2(2) by simp
  ultimately show ?thesis using s s2 ok sizes(3) gw_inv_sound [OF inv(1)] gw_inv_sound [OF inv(2)]
    by (simp add: gw_equiv_def book_equiv_def risk_equiv_def)
qed

section \<open>Export, then restore\<close>

lemma gateway_export_restore:
  assumes inv: "gw_inv g" and seq: "gw_sequenced g" and sz: "gw_sizes g = (ACCOUNTS, RISK_ORDERS, LEVELS, ORDERS)"
  shows "\<exists>s. gateway_export_state g = Some s \<and>
    (if open_orders_within g
     then \<exists>g'. gateway_from_state ACCOUNTS RISK_ORDERS LEVELS ORDERS s = Some (Ok g') \<and> gw_equiv g g'
     else gateway_from_state ACCOUNTS RISK_ORDERS LEVELS ORDERS s = Some (Err GseOrderLimit))"
proof -
  let ?b = "gw_book g" and ?re = "gw_risk g"
  note ok = gw_invD(2) [OF inv] and rinv = gw_invD(1) [OF inv] and co = gw_invD(4) [OF inv]
  have wf: "book_wf ?b" using ok by (simp add: book_ok_def)
  have sizes: "length (re_accounts ?re) = ACCOUNTS" "length (re_reservations ?re) = RISK_ORDERS" "ob_LEVELS ?b = LEVELS" "ob_ORDERS ?b = ORDERS"
    using sz by (simp_all add: gw_sizes_def)
  obtain s where s: "gateway_export_state g = Some s" "book_export_state ?b = Some (gs_book s)" "gs_instrument s = ob_instrument ?b"
    "gs_risk s = risk_export_state ?re" "gs_expected_sequence s = gw_expected_sequence g"
    "gs_maximum_received_order_id s = gw_maximum_received_order_id g" using gateway_export_eq [OF wf] by metis
  have "sequenced (book_abs ?b)" using seq by (simp add: gw_sequenced_def sequenced_below_def)
  from book_export_restore [OF ok this] obtain b' where
    b': "book_from_state LEVELS ORDERS (ob_instrument ?b) (gs_book s) = Some (Ok b')" "book_ok b'" "book_abs b' = book_abs ?b"
    using s(2) sizes by auto
  have "0 < q" if "resv ?re k = Some (aid, side, q)" for k aid side q
    using coherentE [OF co that] book_list_positive [OF wf_sides [OF wf]] by (metis book_abs_sel(4))
  with gw_inv_sound [OF inv] have "quantities_typed ?re" by (simp add: quantities_typed_def risk_sound_def)
  from risk_export_restore [OF rinv this] sizes obtain re' where re': "risk_from_state ACCOUNTS RISK_ORDERS (risk_export_state ?re) = Some (Ok re')"
    "risk_inv re'" "acct re' = acct ?re" "resv re' = resv ?re" "re_maximum_order_id re' = re_maximum_order_id ?re"
    "re_killed re' = re_killed ?re" "risk_sizes re' = risk_sizes ?re" by (auto simp: risk_sizes_def)
  let ?g = "\<lparr>gw_risk = re', gw_book = b', gw_expected_sequence = gw_expected_sequence g,
    gw_maximum_received_order_id = gw_maximum_received_order_id g\<rparr>"
  have "risk_equiv ?re re'" by (rule risk_equivI [OF gw_inv_sound [OF inv]]) (use re' in simp_all)
  then have eq: "gw_equiv g ?g" using ok b' by (simp add: gw_equiv_def book_equiv_def)
  have run: "gateway_from_state ACCOUNTS RISK_ORDERS LEVELS ORDERS s =
      Some (and_then (validate_cross_component_state s) (\<lambda>_. Ok ?g))"
    unfolding gateway_from_state_def s(3-6) b'(1) re'(1) by simp
  have g: "0 < gw_expected_sequence g" "\<forall>k. re_maximum_order_id ?re = Some k \<longrightarrow> received_before g k"
    using inv by (auto simp: gw_inv_def received_before_def)
  note backed = gw_inv_backed [OF inv seq]
  show ?thesis
  proof (cases "open_orders_within g")
    case True
    have "length (book_orders ?b) = length (rs_reservations (risk_export_state ?re))" using co coherent_counted [OF rinv wf] by blast
    with cross_check_export [OF rinv wf s(1)] g backed True have "validate_cross_component_state s = Ok ()"
      by (simp add: open_orders_within_def)
    with run s(1) eq True show ?thesis by auto
  next
    case False
    with cross_check_backed [OF rinv wf s(1) g] backed have "validate_cross_component_state s = Err GseOrderLimit"
      by (auto simp: open_orders_within_def)
    with run s(1) False show ?thesis by auto
  qed
qed

section \<open>Commands respect the equivalence\<close>

definition reports_equiv :: "ReportBuffer \<Rightarrow> ReportBuffer \<Rightarrow> bool" where
  "reports_equiv rb rb2 \<longleftrightarrow> reports_ok rb \<and> reports_ok rb2 \<and> length (rb_entries rb) = length (rb_entries rb2) \<and>
     reports_iter rb = reports_iter rb2"

abbreviation step_rel :: "Gateway \<times> ReportBuffer \<times> 'r \<Rightarrow> Gateway \<times> ReportBuffer \<times> 'r \<Rightarrow> bool" where
  "step_rel \<equiv> rel_prod gw_equiv (rel_prod reports_equiv (=))"

lemma reports_equiv_capacity: "reports_equiv rb rb2 \<Longrightarrow> reports_remaining_capacity rb2 = reports_remaining_capacity rb"
  by (auto simp: reports_equiv_def reports_remaining_capacity_def reports_iter_def reports_ok_def dest: arg_cong [where f = length])

lemma rel_bind:
  assumes "rel_option A x y" and "\<And>a b. A a b \<Longrightarrow> rel_option B (f a) (f' b)"
  shows "rel_option B (Option.bind x f) (Option.bind y f')"
  using assms by (cases x; cases y) simp_all

lemma rel_result_case:
  assumes "rel_result A (=) x y" and "\<And>e. R (f e) (f' e)" and "\<And>a b. A a b \<Longrightarrow> R (h a) (h' b)"
  shows "R (case x of Err e \<Rightarrow> f e | Ok a \<Rightarrow> h a) (case y of Err e \<Rightarrow> f' e | Ok a \<Rightarrow> h' a)"
  using assms by (cases x; cases y) simp_all

lemma book_equivD: "book_equiv b b2 \<Longrightarrow> book_ok b" "book_equiv b b2 \<Longrightarrow> book_ok b2" "book_equiv b b2 \<Longrightarrow> book_abs b2 = book_abs b"
  by (simp_all add: book_equiv_def)

lemma submit_equiv:
  assumes b: "book_equiv b b2" and rb: "reports_equiv rb rb2"
  shows "rel_answer (rel_prod book_equiv (rel_prod reports_equiv (=))) (submit b order rb) (submit b2 order rb2)"
proof -
  note d = book_equivD [OF b]
  have r: "reports_ok rb" "reports_ok rb2" using rb by (simp_all add: reports_equiv_def)
  note run = submit_refines [OF d(1) r(1), of order] submit_refines [OF d(2) r(2), of order, unfolded d(3) reports_equiv_capacity [OF rb]]
  show ?thesis
  proof (cases "spec_submit (book_abs b) order (reports_remaining_capacity rb)")
    case (Err e)
    with run show ?thesis by simp
  next
    case (Ok ex)
    with run obtain b' rb' b2' rb2' where "submit b order rb = Some (Ok (b', rb', summary_of order ex))" "executed b' rb rb' order ex"
      "submit b2 order rb2 = Some (Ok (b2', rb2', summary_of order ex))" "executed b2' rb2 rb2' order ex" by auto
    with rb show ?thesis by (simp add: executed_def book_equiv_def reports_equiv_def)
  qed
qed

lemma book_cancel_equiv:
  assumes b: "book_equiv b b2"
  shows "rel_answer (rel_prod book_equiv (=)) (cancel b c) (cancel b2 c)"
  using book_cancel_refines [OF book_equivD(1) [OF b], of c] book_cancel_refines [OF book_equivD(2) [OF b], of c, unfolded book_equivD(3) [OF b]]
  by (cases "spec_cancel (book_abs b) c") (auto simp: book_equiv_def)

lemma book_replace_equiv:
  assumes b: "book_equiv b b2"
  shows "rel_answer (rel_prod book_equiv (=)) (replace b r) (replace b2 r)"
  using replace_refines [OF book_equivD(1) [OF b], of r] replace_refines [OF book_equivD(2) [OF b], of r, unfolded book_equivD(3) [OF b]]
  by (cases "spec_replace (book_abs b) r") (auto simp: book_equiv_def)

lemma record_fills_equiv:
  "risk_equiv re re2 \<Longrightarrow> rel_option (rel_prod risk_equiv (=)) (record_fills re reports) (record_fills re2 reports)"
proof (induction reports arbitrary: re re2)
  case (Cons report reports)
  have taker: "rel_option (rel_prod risk_equiv (=))
      (Option.bind (record_fill a k q) (case_result (\<lambda>r. record_fills r reports) (\<lambda>e. Some (a, Err e))))
      (Option.bind (record_fill b k q) (case_result (\<lambda>r. record_fills r reports) (\<lambda>e. Some (b, Err e))))" if "risk_equiv a b" for a b k q
    by (rule rel_bind [OF record_fill_equiv [OF that]], erule rel_result_case) (use that Cons.IH in simp_all)
  show ?case unfolding record_fills.simps
    by (rule rel_bind [OF record_fill_equiv [OF Cons.prems]], erule rel_result_case) (use Cons.prems taker in simp_all)
qed simp

lemma gw_equivD:
  assumes "gw_equiv g g2"
  shows "risk_equiv (gw_risk g) (gw_risk g2)" "book_equiv (gw_book g) (gw_book g2)"
    "gw_expected_sequence g2 = gw_expected_sequence g" "gw_maximum_received_order_id g2 = gw_maximum_received_order_id g"
  using assms by (simp_all add: gw_equiv_def)

lemma gw_equiv_update:
  assumes "gw_equiv g g2"
  shows "risk_equiv re re2 \<Longrightarrow> gw_equiv (g\<lparr>gw_risk := re\<rparr>) (g2\<lparr>gw_risk := re2\<rparr>)"
    and "book_equiv b b2 \<Longrightarrow> gw_equiv (g\<lparr>gw_book := b\<rparr>) (g2\<lparr>gw_book := b2\<rparr>)"
    and "gw_equiv (g\<lparr>gw_maximum_received_order_id := k\<rparr>) (g2\<lparr>gw_maximum_received_order_id := k\<rparr>)"
    and "gw_equiv (g\<lparr>gw_expected_sequence := n\<rparr>) (g2\<lparr>gw_expected_sequence := n\<rparr>)"
  using assms by (simp_all add: gw_equiv_def)

lemma settle_then_equiv:
  assumes g: "gw_equiv g g2" and rb: "reports_equiv rb rb2"
  shows "rel_option step_rel (settle_then g k rb r) (settle_then g2 k rb2 r)"
  unfolding settle_then_def
  by (rule rel_bind [OF settle_equiv [OF gw_equivD(1) [OF g]]], simp only: option.rel_inject, erule rel_result_case)
    (use g rb gw_equiv_update(1) [OF g] in simp_all)

text \<open>The part of a new order after the match, then the whole.\<close>

definition after_match :: "Gateway \<Rightarrow> NewOrder \<Rightarrow> OrderBook \<times> ReportBuffer \<times> MatchSummary \<Rightarrow> gateway_step" where
  "after_match g order m =
     (case m of (book, reports, summary) \<Rightarrow>
        do {
          f \<leftarrow> record_fills (gw_risk g) (reports_iter reports);
          (let g = g\<lparr>gw_book := book, gw_risk := fst f\<rparr> in
           case snd f of
             Err e \<Rightarrow> Some (g, reports, Err (GwRiskState e))
           | Ok _ \<Rightarrow>
               if ms_resting_quantity summary = 0 \<and> ms_filled_quantity summary < no_quantity order
               then settle_then g (no_order_id order) reports (Ok (GwNewOrder summary))
               else Some (g, reports, Ok (GwNewOrder summary)))
        })"

lemma process_new_order_match:
  "process_new_order g order rb =
     (if received_before g (no_order_id order) then Some (g, rb, Err (GwRisk DuplicateOrderId))
      else let g = g\<lparr>gw_maximum_received_order_id := Some (no_order_id order)\<rparr> in
        do {
          c \<leftarrow> check_and_reserve (gw_risk g) order;
          (case c of
             Err e \<Rightarrow> Some (g, rb, Err (GwRisk e))
           | Ok risk \<Rightarrow>
               do {
                 b \<leftarrow> submit (gw_book g) order rb;
                 (case b of
                    Err e \<Rightarrow> settle_then (g\<lparr>gw_risk := risk\<rparr>) (no_order_id order) rb (Err (GwBook e))
                  | Ok m \<Rightarrow> after_match (g\<lparr>gw_risk := risk\<rparr>) order m)
               })
        })"
proof -
  have "(case gw_maximum_received_order_id g of None \<Rightarrow> False | Some maximum \<Rightarrow> no_order_id order \<le> maximum) \<longleftrightarrow>
      received_before g (no_order_id order)" by (auto simp: received_before_def split: option.splits)
  then show ?thesis unfolding process_new_order_def after_match_def Let_def by simp
qed

lemma after_match_equiv:
  assumes g: "gw_equiv g g2" and m: "rel_prod book_equiv (rel_prod reports_equiv (=)) m m2"
  shows "rel_option step_rel (after_match g order m) (after_match g2 order m2)"
proof -
  obtain b rb x where m1: "m = (b, rb, x)" by (cases m) auto
  then obtain b2 rb2 where m2: "m2 = (b2, rb2, x)" "book_equiv b b2" "reports_equiv rb rb2" using m by (cases m2) auto
  have it: "reports_iter rb2 = reports_iter rb" using m2(3) by (simp add: reports_equiv_def)
  have up: "gw_equiv (g\<lparr>gw_book := b, gw_risk := re\<rparr>) (g2\<lparr>gw_book := b2, gw_risk := re2\<rparr>)" if "risk_equiv re re2" for re re2
    by (rule gw_equiv_update(1) [OF gw_equiv_update(2) [OF g m2(2)] that])
  show ?thesis unfolding after_match_def m1 m2(1) prod.case it Let_def
    by (rule rel_bind [OF record_fills_equiv [OF gw_equivD(1) [OF g]]])
      (auto simp: m2(3) up intro!: settle_then_equiv split: result.splits)
qed

lemma process_new_order_equiv:
  assumes g: "gw_equiv g g2" and order: "new_order_ok order" and rb: "reports_equiv rb rb2"
  shows "rel_option step_rel (process_new_order g order rb) (process_new_order g2 order rb2)"
proof (cases "received_before g (no_order_id order)")
  case True
  then have "received_before g2 (no_order_id order)" by (simp add: received_before_def gw_equivD [OF g])
  with True g rb show ?thesis by (simp add: process_new_order_match)
next
  case False
  define h h2 where h: "h = g\<lparr>gw_maximum_received_order_id := Some (no_order_id order)\<rparr>"
    "h2 = g2\<lparr>gw_maximum_received_order_id := Some (no_order_id order)\<rparr>"
  have eq: "gw_equiv h h2" unfolding h by (rule gw_equiv_update(3) [OF g])
  have no: "\<not> received_before g2 (no_order_id order)" using False by (simp add: received_before_def gw_equivD [OF g])
  have book: "rel_option step_rel
      (Option.bind (submit (gw_book h) order rb) (case_result (after_match (h\<lparr>gw_risk := re\<rparr>) order)
        (\<lambda>e. settle_then (h\<lparr>gw_risk := re\<rparr>) (no_order_id order) rb (Err (GwBook e)))))
      (Option.bind (submit (gw_book h2) order rb2) (case_result (after_match (h2\<lparr>gw_risk := re2\<rparr>) order)
        (\<lambda>e. settle_then (h2\<lparr>gw_risk := re2\<rparr>) (no_order_id order) rb2 (Err (GwBook e)))))" if "risk_equiv re re2" for re re2
    by (rule rel_bind [OF submit_equiv [OF gw_equivD(2) [OF eq] rb]], erule rel_result_case)
      (simp_all add: settle_then_equiv after_match_equiv gw_equiv_update(1) [OF eq that] rb)
  show ?thesis unfolding process_new_order_match Let_def h [symmetric] using False no
    by simp (rule rel_bind [OF check_and_reserve_equiv [OF gw_equivD(1) [OF eq] order]], erule rel_result_case,
      simp_all add: eq rb book)
qed

lemma process_cancel_equiv:
  assumes g: "gw_equiv g g2"
  shows "rel_option (rel_prod gw_equiv (=)) (process_cancel g c) (process_cancel g2 c)"
proof -
  have risk: "rel_option (rel_prod gw_equiv (=))
      (Option.bind (cancel_reservation (gw_risk (g\<lparr>gw_book := b\<rparr>)) (co_order_id c) (co_account_id c)) (\<lambda>s. Some (case s of
         Err e \<Rightarrow> (g\<lparr>gw_book := b\<rparr>, Err (GwRiskState e))
       | Ok (risk, released) \<Rightarrow> (g\<lparr>gw_book := b, gw_risk := risk\<rparr>, if released \<noteq> cn_quantity x then Err (GwRiskState ArithmeticOverflow) else Ok (GwCancelled x)))))
      (Option.bind (cancel_reservation (gw_risk (g2\<lparr>gw_book := b2\<rparr>)) (co_order_id c) (co_account_id c)) (\<lambda>s. Some (case s of
         Err e \<Rightarrow> (g2\<lparr>gw_book := b2\<rparr>, Err (GwRiskState e))
       | Ok (risk, released) \<Rightarrow> (g2\<lparr>gw_book := b2, gw_risk := risk\<rparr>, if released \<noteq> cn_quantity x then Err (GwRiskState ArithmeticOverflow) else Ok (GwCancelled x)))))"
    if b: "book_equiv b b2" for b b2 x
  proof -
    note up = gw_equiv_update(2) [OF g b]
    show ?thesis
      by (rule rel_bind [OF cancel_equiv [OF gw_equivD(1) [OF up]]], simp only: option.rel_inject, erule rel_result_case)
        (auto simp: up gw_equiv_update(1) [OF up])
  qed
  show ?thesis
  proof (cases "can_cancel (gw_risk g) (co_order_id c) (co_account_id c)")
    case (Err e)
    then show ?thesis using g by (simp add: process_cancel_def can_cancel_equiv [OF gw_equivD(1) [OF g]])
  next
    case (Ok u)
    then show ?thesis unfolding process_cancel_def Let_def can_cancel_equiv [OF gw_equivD(1) [OF g]]
      by simp (rule rel_bind [OF book_cancel_equiv [OF gw_equivD(2) [OF g]]], erule rel_result_case, use g risk in auto)
  qed
qed

lemma process_replace_equiv:
  assumes g: "gw_equiv g g2" and r: "replace_order_ok r"
  shows "rel_option (rel_prod gw_equiv (=)) (process_replace g r) (process_replace g2 r)"
proof -
  have w: "i64_ok (ro_price r)" "u64_ok (ro_quantity r)" using r by (auto simp: replace_order_ok_def)
  let ?adj = "\<lambda>re. adjust_reservation re (ro_order_id r) (ro_account_id r) (ro_price r) (ro_quantity r)"
  have sound: "risk_sound (gw_risk g)" "risk_sound (gw_risk g2)" using gw_equivD(1) [OF g] by (simp_all add: risk_equiv_def)
  have adj: "rel_answer (rel_prod risk_equiv (=)) (?adj (gw_risk g)) (?adj (gw_risk g2))" by (rule adjust_equiv [OF gw_equivD(1) [OF g] w])
  then consider (Panic) "?adj (gw_risk g) = None" "?adj (gw_risk g2) = None"
    | (Refused) e where "?adj (gw_risk g) = Some (Err e)" "?adj (gw_risk g2) = Some (Err e)"
    | (Adjusted) re re2 released prior where "?adj (gw_risk g) = Some (Ok (re, released, prior))" "?adj (gw_risk g2) = Some (Ok (re2, released, prior))"
        "risk_equiv re re2"
    by (cases "?adj (gw_risk g)"; cases "?adj (gw_risk g2)") (auto elim!: result.rel_cases rel_prod.cases)
  then show ?thesis
  proof cases
    case (Adjusted re re2 released prior)
    note up = gw_equiv_update(1) [OF g Adjusted(3)]
    note undo = adjust_rollback [OF sound(1) w Adjusted(1)] adjust_rollback [OF sound(2) w Adjusted(2)]
    have "rel_answer (rel_prod book_equiv (=)) (replace (gw_book g) r) (replace (gw_book g2) r)" by (rule book_replace_equiv [OF gw_equivD(2) [OF g]])
    then show ?thesis unfolding process_replace_def Let_def Adjusted(1,2) using undo g gw_equiv_update(2) [OF up]
      by (cases "replace (gw_book g) r"; cases "replace (gw_book g2) r") (auto elim!: result.rel_cases rel_prod.cases)
  qed (simp_all add: process_replace_def g)
qed

lemma dispatch_equiv:
  assumes g: "gw_equiv g g2" and c: "command_ok command" and rb: "reports_equiv rb rb2"
  shows "rel_option step_rel (dispatch g command rb) (dispatch g2 command rb2)"
proof (cases command)
  case (CmdNewOrder order)
  with process_new_order_equiv [OF g _ rb] c show ?thesis by (simp add: dispatch_def)
next
  case (CmdCancelOrder x)
  with process_cancel_equiv [OF g, of x] rb show ?thesis
    by (cases "process_cancel g x"; cases "process_cancel g2 x") (auto simp: dispatch_def elim!: rel_prod.cases)
next
  case (CmdReplaceOrder x)
  with process_replace_equiv [OF g, of x] c rb show ?thesis
    by (cases "process_replace g x"; cases "process_replace g2 x") (auto simp: dispatch_def elim!: rel_prod.cases)
qed

lemma accept_sequence_equiv:
  assumes g: "gw_equiv g g2"
  shows "rel_result gw_equiv (=) (accept_sequence g n) (accept_sequence g2 n)"
  by (simp add: accept_sequence_def check_sequence_def gw_equivD(3) [OF g] checked_add_def gw_equiv_update(4) [OF g])

lemma process_command_equiv:
  assumes g: "gw_equiv g g2" and c: "command_ok command" and rb: "length (rb_entries rb) = length (rb_entries rb2)"
  shows "rel_option step_rel (process_command g command rb) (process_command g2 command rb2)"
proof -
  have clear: "reports_equiv (reports_clear rb) (reports_clear rb2)" using rb by (simp add: reports_equiv_def)
  show ?thesis unfolding process_command_def Let_def
    by (rule rel_result_case [OF accept_sequence_equiv [OF g]]) (use g clear dispatch_equiv [OF _ c clear] in auto)
qed

end
