(* ===== verification/Lockstep.thy ===== *)
theory Lockstep
  imports Prelude
begin

text \<open>
  Runs of a deterministic machine over a list of inputs, and what an equivalence of states that the
  steps respect gives for whole runs: equal outputs, equivalent final states, and that a run may be
  interrupted, its state saved and restored into an equivalent one, and continued.
\<close>

fun run_steps :: "('s \<Rightarrow> 'i \<Rightarrow> ('s \<times> 'o) option) \<Rightarrow> 's \<Rightarrow> 'i list \<Rightarrow> ('s \<times> 'o list) option" where
  "run_steps step s [] = Some (s, [])"
| "run_steps step s (i # is) =
     do {
       (s', x) \<leftarrow> step s i;
       (s'', xs) \<leftarrow> run_steps step s' is;
       Some (s'', x # xs)
     }"

lemma run_steps_append:
  "run_steps step s (is @ js) =
     do {
       (s', xs) \<leftarrow> run_steps step s is;
       (s'', ys) \<leftarrow> run_steps step s' js;
       Some (s'', xs @ ys)
     }"
proof (induction "is" arbitrary: s)
  case (Cons i "is")
  then show ?case by (cases "step s i") (auto simp: bind_assoc split: Option.bind_splits)
qed (cases "run_steps step s js"; auto)

locale lockstep =
  fixes step :: "'s \<Rightarrow> 'i \<Rightarrow> ('s \<times> 'o) option" and equiv :: "'s \<Rightarrow> 's \<Rightarrow> bool" and admissible :: "'i \<Rightarrow> bool"
  assumes step_equiv: "equiv s t \<Longrightarrow> admissible i \<Longrightarrow> rel_option (rel_prod equiv (=)) (step s i) (step t i)"
begin

lemma run_equiv:
  "equiv s t \<Longrightarrow> list_all admissible is \<Longrightarrow> rel_option (rel_prod equiv (=)) (run_steps step s is) (run_steps step t is)"
proof (induction "is" arbitrary: s t)
  case (Cons i "is")
  have "rel_option (rel_prod equiv (=)) (step s i) (step t i)" using Cons.prems by (intro step_equiv) simp_all
  then show ?case
  proof (cases "step s i")
    case (Some p)
    with \<open>rel_option _ (step s i) (step t i)\<close> obtain s' t' x where
      p: "step s i = Some (s', x)" "step t i = Some (t', x)" "equiv s' t'" by (cases "step t i") (auto elim!: rel_prod.cases)
    from Cons.IH [OF p(3)] Cons.prems(2) show ?thesis unfolding run_steps.simps p
      by (cases "run_steps step s' is"; cases "run_steps step t' is") (auto elim!: rel_prod.cases)
  qed simp
qed simp

end

locale resumable = lockstep step equiv admissible
  for step :: "'s \<Rightarrow> 'i \<Rightarrow> ('s \<times> 'o) option" and equiv :: "'s \<Rightarrow> 's \<Rightarrow> bool" and admissible :: "'i \<Rightarrow> bool" +
  fixes save :: "'s \<Rightarrow> 'v option" and restore :: "'v \<Rightarrow> ('s, 'e) result option" and sound :: "'s \<Rightarrow> bool"
  assumes save_equiv: "equiv s t \<Longrightarrow> save s = save t"
    and restore_equiv: "sound s \<Longrightarrow> save s = Some v \<Longrightarrow> restore v = Some (Ok t) \<Longrightarrow> equiv s t"
begin

text \<open>Interrupting a run, saving, restoring and continuing: same outputs, and the same state to save.\<close>

lemma resume:
  assumes first: "run_steps step s is = Some (s', xs)" and save: "sound s'" "save s' = Some v" "restore v = Some (Ok t)"
    and js: "list_all admissible js" and whole: "run_steps step s (is @ js) = Some (s'', zs)"
  shows "\<exists>t'' ys. run_steps step t js = Some (t'', ys) \<and> zs = xs @ ys \<and> equiv s'' t'' \<and> save t'' = save s''"
proof -
  from whole first obtain ys where ys: "run_steps step s' js = Some (s'', ys)" "zs = xs @ ys"
    by (auto simp: run_steps_append split: Option.bind_split_asm)
  with run_equiv [OF restore_equiv [OF save] js] obtain t'' where t: "run_steps step t js = Some (t'', ys)" "equiv s'' t''"
    by (cases "run_steps step t js") (auto elim!: rel_prod.cases)
  with ys(2) save_equiv [OF t(2)] show ?thesis by auto
qed

end

end
