(* ===== verification/GatewaySnapshot.thy ===== *)
theory GatewaySnapshot
  imports GatewayEquiv Lockstep
begin

text \<open>
  Snapshots of reachable gateways: a gateway keeps its capacities, its export is restored unless an
  open order is outside its account's limits, and a restored gateway continues as the original would.
\<close>

section \<open>Capacities are kept\<close>

lemma record_fills_sizes: "record_fills re reports = Some (re', r) \<Longrightarrow> risk_sizes re' = risk_sizes re"
proof (induction reports arbitrary: re)
  case (Cons report reports)
  from Cons.prems obtain m where m: "record_fill re (er_maker_order_id report) (er_quantity report) = Some m"
    by (auto split: Option.bind_split_asm)
  show ?case
  proof (cases m)
    case (Err e)
    with m Cons.prems show ?thesis by simp
  next
    case (Ok r1)
    with m Cons.prems obtain t where t: "record_fill r1 (er_taker_order_id report) (er_quantity report) = Some t"
      by (auto split: Option.bind_split_asm)
    show ?thesis
    proof (cases t)
      case (Err e)
      with m Ok t Cons.prems show ?thesis using record_fill_sizes by auto
    next
      case ok: (Ok r2)
      with m Ok t Cons show ?thesis using record_fill_sizes by fastforce
    qed
  qed
qed simp

lemma settle_then_sizes:
  "settle_then g k rb r = Some (g', rb', r') \<Longrightarrow> risk_sizes (gw_risk g') = risk_sizes (gw_risk g)"
  by (auto simp: settle_then_def settle_sizes split: Option.bind_split_asm result.split_asm)

lemma after_match_sizes:
  assumes "after_match g order m = Some (g', rb', r)"
  shows "risk_sizes (gw_risk g') = risk_sizes (gw_risk g)"
proof -
  obtain b rb x where m: "m = (b, rb, x)" by (cases m) auto
  from assms obtain re u where f: "record_fills (gw_risk g) (reports_iter rb) = Some (re, u)"
    by (auto simp: after_match_def m split: Option.bind_split_asm)
  from assms show ?thesis using record_fills_sizes [OF f] settle_then_sizes
    by (fastforce simp: after_match_def m f Let_def split: result.split_asm if_split_asm)
qed

lemma process_new_order_sizes:
  assumes "process_new_order g order rb = Some (g', rb', r)"
  shows "risk_sizes (gw_risk g') = risk_sizes (gw_risk g)"
proof (cases "received_before g (no_order_id order)")
  case True
  with assms show ?thesis by (simp add: process_new_order_match)
next
  case False
  define h where "h = g\<lparr>gw_maximum_received_order_id := Some (no_order_id order)\<rparr>"
  have run: "Option.bind (check_and_reserve (gw_risk h) order) (case_result
      (\<lambda>risk. Option.bind (submit (gw_book h) order rb) (case_result (after_match (h\<lparr>gw_risk := risk\<rparr>) order)
        (\<lambda>e. settle_then (h\<lparr>gw_risk := risk\<rparr>) (no_order_id order) rb (Err (GwBook e)))))
      (\<lambda>e. Some (h, rb, Err (GwRisk e)))) = Some (g', rb', r)"
    using assms False by (simp add: process_new_order_match h_def Let_def)
  then obtain c where c: "check_and_reserve (gw_risk h) order = Some c" by (auto split: Option.bind_split_asm)
  have h: "risk_sizes (gw_risk h) = risk_sizes (gw_risk g)" by (simp add: h_def)
  show ?thesis
  proof (cases c)
    case (Err e)
    with run c h show ?thesis by auto
  next
    case (Ok re)
    with run c have "Option.bind (submit (gw_book h) order rb) (case_result (after_match (h\<lparr>gw_risk := re\<rparr>) order)
        (\<lambda>e. settle_then (h\<lparr>gw_risk := re\<rparr>) (no_order_id order) rb (Err (GwBook e)))) = Some (g', rb', r)" by simp
    then have "risk_sizes (gw_risk g') = risk_sizes re"
      using after_match_sizes settle_then_sizes by (fastforce split: Option.bind_split_asm result.split_asm)
    with check_and_reserve_sizes [of "gw_risk h" order re] c Ok h show ?thesis by simp
  qed
qed

lemma process_cancel_sizes:
  "process_cancel g c = Some (g', r) \<Longrightarrow> risk_sizes (gw_risk g') = risk_sizes (gw_risk g)"
  by (auto simp: process_cancel_def Let_def split: Option.bind_split_asm result.split_asm dest!: cancel_sizes)

lemma restore_sizes:
  assumes "restore_reservation re k aid q = Some (Ok re')"
  shows "risk_sizes re' = risk_sizes re"
  using assms unfolding restore_reservation_def Let_def
  by (auto simp: and_then_Ok_iff split: option.splits Option.bind_split_asm result.splits if_splits)

lemma process_replace_sizes:
  "process_replace g c = Some (g', r) \<Longrightarrow> risk_sizes (gw_risk g') = risk_sizes (gw_risk g)"
  by (auto simp: process_replace_def Let_def split: Option.bind_split_asm result.split_asm dest!: adjust_sizes restore_sizes)

lemma dispatch_sizes:
  "dispatch g command rb = Some (g', rb', r) \<Longrightarrow> risk_sizes (gw_risk g') = risk_sizes (gw_risk g)"
  by (cases command) (auto simp: dispatch_def process_new_order_sizes process_cancel_sizes process_replace_sizes)

lemma spec_sizes:
  "spec_submit m order cap = Ok ex \<Longrightarrow> bm_LEVELS (ex_book ex) = bm_LEVELS m \<and> bm_ORDERS (ex_book ex) = bm_ORDERS m"
  "spec_cancel m c = Ok (m', x) \<Longrightarrow> bm_LEVELS m' = bm_LEVELS m \<and> bm_ORDERS m' = bm_ORDERS m"
  "spec_replace m r = Ok (m', y) \<Longrightarrow> bm_LEVELS m' = bm_LEVELS m \<and> bm_ORDERS m' = bm_ORDERS m"
proof -
  show "spec_submit m order cap = Ok ex \<Longrightarrow> bm_LEVELS (ex_book ex) = bm_LEVELS m \<and> bm_ORDERS (ex_book ex) = bm_ORDERS m"
    by (auto simp: spec_submit_def and_then_Ok_iff Let_def split: prod.splits TimeInForce.splits if_splits)
qed (auto simp: spec_cancel_def spec_replace_def and_then_Ok_iff split: if_splits option.splits)

lemma dispatch_book_sizes:
  assumes inv: "gw_inv g" and c: "command_ok command" and rb: "reports_ok rb" "reports_iter rb = []"
    and run: "dispatch g command rb = Some (g', rb', r)"
  shows "ob_LEVELS (gw_book g') = ob_LEVELS (gw_book g) \<and> ob_ORDERS (gw_book g') = ob_ORDERS (gw_book g)"
proof (cases r)
  case (Err e)
  with dispatch_effect [OF inv c rb] run show ?thesis by (auto simp: dispatched_def rolled_back_def)
next
  case (Ok out)
  show ?thesis
  proof (cases command)
    case (CmdNewOrder order)
    with new_order_refines [OF inv _ rb, of order] c run Ok obtain ex where
      ex: "spec_new_order g order (reports_remaining_capacity rb) = Ok ex" "executed (gw_book g') rb rb' order ex"
      by (cases "spec_new_order g order (reports_remaining_capacity rb)") (auto simp: dispatch_def)
    then have "spec_submit (book_abs (gw_book g)) order (reports_remaining_capacity rb) = Ok ex"
      by (auto simp: spec_new_order_def split: if_splits result.splits)
    from spec_sizes(1) [OF this] ex(2) show ?thesis by (metis executed_def book_abs_sel(1,2))
  next
    case (CmdCancelOrder x)
    with process_cancel_refines [OF inv, of x] run Ok obtain out' where
      "spec_process_cancel g x = Ok (book_abs (gw_book g'), out')"
      by (cases "spec_process_cancel g x") (auto simp: dispatch_def)
    then have "spec_cancel (book_abs (gw_book g)) x = Ok (book_abs (gw_book g'), out')"
      by (auto simp: spec_process_cancel_def split: if_splits option.splits result.splits)
    from spec_sizes(2) [OF this] show ?thesis by simp
  next
    case (CmdReplaceOrder x)
    with process_replace_refines [OF inv, of x] c run Ok obtain out' where
      "spec_process_replace g x = Ok (book_abs (gw_book g'), out')"
      by (cases "spec_process_replace g x") (auto simp: dispatch_def)
    then have "spec_replace (book_abs (gw_book g)) x = Ok (book_abs (gw_book g'), out')"
      by (auto simp: spec_process_replace_def split: if_splits option.splits result.splits)
    from spec_sizes(3) [OF this] show ?thesis by simp
  qed
qed

lemma process_command_sizes:
  assumes inv: "gw_inv g" and c: "command_ok command" and run: "process_command g command rb = Some (g', rb', r)"
  shows "gw_sizes g' = gw_sizes g"
proof (cases "accept_sequence g (command_sequence command)")
  case (Err e)
  with run show ?thesis by (simp add: process_command_def)
next
  case (Ok h)
  then have h: "h = g\<lparr>gw_expected_sequence := gw_expected_sequence g + 1\<rparr>" "u64_ok (gw_expected_sequence g + 1)"
    by (auto simp: accept_sequence_def check_sequence_def checked_add_def u64_ok_def split: if_splits)
  with inv have "gw_inv h" by (auto simp: gw_inv_def)
  moreover have d: "dispatch h command (reports_clear rb) = Some (g', rb', r)" using run Ok by (simp add: process_command_def)
  ultimately have "ob_LEVELS (gw_book g') = ob_LEVELS (gw_book h) \<and> ob_ORDERS (gw_book g') = ob_ORDERS (gw_book h)"
    using dispatch_book_sizes [OF _ c, of h "reports_clear rb" g' rb' r] by simp
  with dispatch_sizes [OF d] h(1) show ?thesis by (simp add: gw_sizes_def risk_sizes_def)
qed

lemma registered_sizes: "registered ACCOUNTS ORDERS re \<Longrightarrow> risk_sizes re = (ACCOUNTS, ORDERS)"
  by (induction rule: registered.induct) (simp_all add: risk_sizes_def risk_new_def register_sizes [unfolded risk_sizes_def] set_kill_switch_def account_switch_kept)

lemma gw_reachable_sizes:
  assumes "gw_reachable ACCOUNTS RISK_ORDERS LEVELS ORDERS inst g" and cap: "capacities_ok ACCOUNTS RISK_ORDERS LEVELS ORDERS"
  shows "gw_sizes g = (ACCOUNTS, RISK_ORDERS, LEVELS, ORDERS)"
  using assms(1)
proof induction
  case (fresh risk)
  from registered_sizes [OF fresh] show ?case by (simp add: gw_sizes_def risk_sizes_def gateway_new_def book_new_def)
next
  case (commanded g command rb g' rb' r)
  then show ?case using process_command_sizes gw_reachable_inv [OF _ cap] by metis
next
  case (framed g frame rb g' rb' r)
  show ?case
  proof (cases "parse_message frame")
    case (Err e)
    with framed show ?thesis by (simp add: process_frame_command)
  next
    case (Ok m)
    with framed process_command_sizes [of g "to_command m" rb g' rb' r] gw_reachable_inv [OF framed.hyps(1) cap] parse_canonical [OF Ok]
    show ?thesis by (auto simp: process_frame_command)
  qed
qed

section \<open>Runs\<close>

text \<open>One command with a fresh report buffer; the output is the reports and the result.\<close>

type_synonym command_output = "ExecutionReport list \<times> (GatewayOutcome, GatewayError) result"

definition command_step :: "nat \<Rightarrow> Gateway \<Rightarrow> Command \<Rightarrow> (Gateway \<times> command_output) option" where
  "command_step REPORTS g command =
     map_option (\<lambda>(g', rb', r). (g', reports_iter rb', r)) (process_command g command (reports_new REPORTS))"

definition gw_sound :: "nat \<Rightarrow> nat \<Rightarrow> nat \<Rightarrow> nat \<Rightarrow> Gateway \<Rightarrow> bool" where
  "gw_sound ACCOUNTS RISK_ORDERS LEVELS ORDERS g \<longleftrightarrow> gw_inv g \<and> gw_sequenced g \<and> gw_sizes g = (ACCOUNTS, RISK_ORDERS, LEVELS, ORDERS)"

lemma gw_reachable_sound:
  "gw_reachable ACCOUNTS RISK_ORDERS LEVELS ORDERS inst g \<Longrightarrow> capacities_ok ACCOUNTS RISK_ORDERS LEVELS ORDERS \<Longrightarrow>
   gw_sound ACCOUNTS RISK_ORDERS LEVELS ORDERS g"
  using gw_reachable_inv gw_reachable_sequenced gw_reachable_sizes by (simp add: gw_sound_def)

lemma gw_sound_capacities: "gw_sound ACCOUNTS RISK_ORDERS LEVELS ORDERS g \<Longrightarrow> capacities_ok ACCOUNTS RISK_ORDERS LEVELS ORDERS"
proof -
  assume s: "gw_sound ACCOUNTS RISK_ORDERS LEVELS ORDERS g"
  then have r: "risk_inv (gw_risk g)" and b: "book_ok (gw_book g)" by (auto simp: gw_sound_def gw_inv_def)
  then have "ob_LEVELS (gw_book g) * ob_ORDERS (gw_book g) * 4 \<le> 2 ^ 32"
    using wf_index [of "gw_book g"] probe_inv_capacity [of "oi_probe (ob_index (gw_book g))"]
    by (auto simp: book_ok_def index_inv_def ORDER_INDEX_PLANES_def)
  with s b risk_inv_capacities [OF r] show ?thesis by (auto simp: gw_sound_def gw_sizes_def capacities_ok_def book_ok_def)
qed

lemma command_step_equiv:
  assumes "gw_equiv g g2" and "command_ok command"
  shows "rel_option (rel_prod gw_equiv (=)) (command_step REPORTS g command) (command_step REPORTS g2 command)"
  using process_command_equiv [OF assms, of "reports_new REPORTS" "reports_new REPORTS"]
  by (cases "process_command g command (reports_new REPORTS)"; cases "process_command g2 command (reports_new REPORTS)")
    (auto simp: command_step_def reports_equiv_def elim!: rel_prod.cases)

lemma command_step_sound:
  assumes s: "gw_sound ACCOUNTS RISK_ORDERS LEVELS ORDERS g" and c: "command_ok command"
  shows "\<exists>g' x. command_step REPORTS g command = Some (g', x) \<and> gw_sound ACCOUNTS RISK_ORDERS LEVELS ORDERS g'"
proof -
  have inv: "gw_inv g" "gw_sequenced g" using s by (simp_all add: gw_sound_def)
  from process_command_effect [OF inv(1) c, of "reports_new REPORTS"] obtain g' rb' r where
    run: "process_command g command (reports_new REPORTS) = Some (g', rb', r)" "gw_inv g'" by blast
  with process_command_sequenced [OF inv(1) c inv(2) run(1)] process_command_sizes [OF inv(1) c run(1)] s
  show ?thesis by (auto simp: command_step_def gw_sound_def)
qed

lemma run_commands_sound:
  "gw_sound ACCOUNTS RISK_ORDERS LEVELS ORDERS g \<Longrightarrow> list_all command_ok cs \<Longrightarrow>
   \<exists>g' xs. run_steps (command_step REPORTS) g cs = Some (g', xs) \<and> gw_sound ACCOUNTS RISK_ORDERS LEVELS ORDERS g'"
proof (induction cs arbitrary: g)
  case (Cons c cs)
  from command_step_sound [OF Cons.prems(1), of c REPORTS] Cons.prems(2) obtain g1 x where
    s: "command_step REPORTS g c = Some (g1, x)" "gw_sound ACCOUNTS RISK_ORDERS LEVELS ORDERS g1" by auto
  from Cons.IH [OF s(2)] Cons.prems(2) s(1) show ?case by auto
qed simp

lemma restored_equiv:
  assumes s: "gw_sound ACCOUNTS RISK_ORDERS LEVELS ORDERS g" and e: "gateway_export_state g = Some v"
    and r: "gateway_from_state ACCOUNTS RISK_ORDERS LEVELS ORDERS v = Some (Ok g')"
  shows "gw_equiv g g'"
  using gateway_export_restore [of g ACCOUNTS RISK_ORDERS LEVELS ORDERS] assms by (auto simp: gw_sound_def split: if_splits)

interpretation snapshots: resumable "command_step REPORTS" gw_equiv command_ok gateway_export_state
  "gateway_from_state ACCOUNTS RISK_ORDERS LEVELS ORDERS" "gw_sound ACCOUNTS RISK_ORDERS LEVELS ORDERS"
  for REPORTS ACCOUNTS RISK_ORDERS LEVELS ORDERS
  by unfold_locales (simp_all add: command_step_equiv gw_equiv_export restored_equiv)

section \<open>Concrete snapshots\<close>

definition demo_gateway_state :: GatewayState where
  "demo_gateway_state = \<lparr>gs_instrument = 3, gs_book = demo_book_state, gs_risk = demo_risk_state,
     gs_expected_sequence = 2, gs_maximum_received_order_id = Some 12\<rparr>"

lemma demo_gateway_state_typed: "gateway_state_typed 1 1 demo_gateway_state"
  using demo_book_state_shaped demo_risk_state_typed by (simp add: gateway_state_typed_def demo_gateway_state_def u64_ok_def)

lemma demo_gateway_state_accepted: "\<exists>g. gateway_from_state 2 3 1 1 demo_gateway_state = Some (Ok g)"
proof -
  obtain b where b: "book_from_state 1 1 3 demo_book_state = Some (Ok b)"
    using demo_book_state_valid by (rule_tac book_from_state_cases [OF _ _ demo_book_state_shaped, of 3]) (auto simp: demo_book_state_def)
  obtain re where re: "risk_from_state 2 3 demo_risk_state = Some (Ok re)"
    using risk_from_state_valid [OF _ _ risk_state_typed_fits [OF demo_risk_state_typed] demo_risk_state_valid] by auto
  have "validate_cross_component_state demo_gateway_state = Ok ()"
    by (simp add: validate_cross_component_state_def demo_gateway_state_def demo_risk_state_def demo_book_state_def used_levels_def
        used_orders_def check_order_state_def check_order_limits_eq order_within_def demo_limits_def)
  with b re show ?thesis by (simp add: gateway_from_state_def demo_gateway_state_def)
qed

text \<open>An order within its limits, then a replace of the same quantity to a price above the collar.\<close>

definition demo_reprice :: ReplaceOrder where
  "demo_reprice = \<lparr>ro_order_id = 11, ro_account_id = 7, ro_instrument_id = 3, ro_sequence = 2, ro_price = 2000, ro_quantity = 40\<rparr>"

lemma demo_opened:
  obtains b rb out where "process_command demo_gateway (CmdNewOrder demo_buy) (reports_new 4) = Some (\<lparr>gw_risk = demo_reserved, gw_book = b,
      gw_expected_sequence = 2, gw_maximum_received_order_id = Some 11\<rparr>, rb, Ok out)"
    "book_ok b" "book_list b Buy = [(100, \<lparr>o_id = 11, o_account = 7, o_quantity = 40, o_sequence = 1\<rparr>)]" "book_list b Sell = []"
    "ob_instrument b = 3" "ob_LEVELS b = 2"
proof -
  from demo_rested obtain b rb where s: "submit demo_empty demo_buy (reports_new 4) = Some (Ok (b, rb, \<lparr>ms_state = Accepted,
      ms_filled_quantity = 0, ms_resting_quantity = 40, ms_discarded_quantity = 0, ms_report_count = 0\<rparr>))"
    "book_ok b" "book_list b Buy = [(100, \<lparr>o_id = 11, o_account = 7, o_quantity = 40, o_sequence = 1\<rparr>)]" "book_list b Sell = []"
    "ob_instrument b = 3" "ob_LEVELS b = 2" by blast
  have iter: "reports_iter rb = []"
    by (rule submit_Ok [OF demo_empty_ok(1) reports_new_ok s(1)]) (auto simp: summary_of_def Let_def executed_def reports_of_def reports_iter_def reports_new_def)
  have order: "demo_buy = demo_order 11 40" by (simp add: demo_buy_def demo_order_def)
  have "accept_sequence demo_gateway 1 = Ok (demo_gateway\<lparr>gw_expected_sequence := 2\<rparr>)"
    by (simp add: accept_sequence_def check_sequence_def checked_add_def del: One_nat_def)
  moreover have "reports_clear (reports_new 4) = reports_new 4" by (simp add: reports_clear_def reports_new_def)
  moreover have "check_and_reserve demo_registered demo_buy = Some (Ok demo_reserved)" unfolding order by (rule demo_reserve)
  ultimately have "process_command demo_gateway (CmdNewOrder demo_buy) (reports_new 4) = Some (\<lparr>gw_risk = demo_reserved, gw_book = b,
      gw_expected_sequence = 2, gw_maximum_received_order_id = Some 11\<rparr>, rb, Ok (GwNewOrder \<lparr>ms_state = Accepted,
      ms_filled_quantity = 0, ms_resting_quantity = 40, ms_discarded_quantity = 0, ms_report_count = 0\<rparr>))"
    using s(1) iter by (simp add: process_command_def dispatch_def process_new_order_match received_before_def after_match_def demo_gateway_def
        gateway_new_def demo_buy_def [THEN arg_cong, of no_sequence] demo_buy_def [THEN arg_cong, of no_order_id])
  with s that show thesis by blast
qed

lemma demo_repriced:
  obtains g b where "gw_reachable 1 1 2 2 3 g" "gw_risk g = demo_reserved" "gw_expected_sequence g = 2" "open_orders_within g"
    "find_side (book_abs (gw_book g)) 11 = Some (Buy, 100, \<lparr>o_id = 11, o_account = 7, o_quantity = 40, o_sequence = 1\<rparr>)"
    "replace (gw_book g) demo_reprice = Some (Ok (b, replaced demo_reprice 40 True))"
    "acct demo_reserved 7 = Some (demo_account\<lparr>ac_reserved_buys := 40, ac_open_orders := 1\<rparr>)"
proof -
  obtain b rb out where o: "process_command demo_gateway (CmdNewOrder demo_buy) (reports_new 4) = Some (\<lparr>gw_risk = demo_reserved, gw_book = b,
      gw_expected_sequence = 2, gw_maximum_received_order_id = Some 11\<rparr>, rb, Ok out)" (is "_ = Some (?g, _)")
    "book_ok b" "book_list b Buy = [(100, \<lparr>o_id = 11, o_account = 7, o_quantity = 40, o_sequence = 1\<rparr>)]" "book_list b Sell = []"
    "ob_instrument b = 3" "ob_LEVELS b = 2" by (rule demo_opened)
  have r1: "gw_reachable 1 1 2 2 3 ?g" by (rule commanded [OF demo_gateway_reachable _ o(1)]) (simp add: demo_buy_widths)
  have acct: "acct demo_reserved 7 = Some (demo_account\<lparr>ac_reserved_buys := 40, ac_open_orders := 1\<rparr>)" by (simp add: acct_def risk_eval)
  have "(p, x) \<in> set (book_list b side) \<Longrightarrow> p = 100 \<and> x = \<lparr>o_id = 11, o_account = 7, o_quantity = 40, o_sequence = 1\<rparr>" for side p x
    using o(3,4) by (cases side) auto
  then have within: "open_orders_within ?g" using acct
    by (fastforce simp: open_orders_within_def within_limits_of_def order_within_def demo_account_def demo_limits_def)
  let ?x = "\<lparr>o_id = 11, o_account = 7, o_quantity = 40, o_sequence = 2\<rparr>"
  have f: "find_side (book_abs b) 11 = Some (Buy, 100, \<lparr>o_id = 11, o_account = 7, o_quantity = 40, o_sequence = 1\<rparr>)"
    by (simp add: find_side_def find_order_def o)
  then have "spec_replace (book_abs b) demo_reprice = Ok (set_side (book_abs b) Buy [(2000, ?x)], replaced demo_reprice 40 True)"
    by (simp add: spec_replace_def demo_reprice_def o spec_preflight_def depth_def level_count_def enqueue_def delete_order_def)
  with replace_refines [OF o(2), of demo_reprice] obtain b' where
    b': "replace b demo_reprice = Some (Ok (b', replaced demo_reprice 40 True))" by auto
  show thesis by (rule that [OF r1]) (use within f b' acct in simp_all)
qed

text \<open>A replace of the same quantity that the book takes: the risk engine lets it pass unchecked.\<close>

lemma replace_same_quantity:
  assumes inv: "gw_inv g" and f: "find_side (book_abs (gw_book g)) (ro_order_id r) = Some (side, p, x)" "ro_quantity r = o_quantity x"
    and b: "replace (gw_book g) r = Some (Ok (b', out))"
  shows "process_replace g r = Some (g\<lparr>gw_book := b'\<rparr>, Ok (GwReplaced out))"
    "(ro_price r, \<lparr>o_id = ro_order_id r, o_account = ro_account_id r, o_quantity = ro_quantity r, o_sequence = ro_sequence r\<rparr>)
      \<in> set (book_list b' side)"
proof -
  have ok: "book_ok (gw_book g)" by (rule gw_invD(2) [OF inv])
  from replace_refines [OF ok, of r] b have m: "spec_replace (book_abs (gw_book g)) r = Ok (book_abs b', out)"
    by (auto split: result.splits)
  then have own: "o_account x = ro_account_id r" using f(1) by (auto simp: spec_replace_def split: if_splits)
  have "resv (gw_risk g) (ro_order_id r) = Some (ro_account_id r, side, ro_quantity r)" using coherent_find [OF inv] f own by simp
  then have "adjust_reservation (gw_risk g) (ro_order_id r) (ro_account_id r) (ro_price r) (ro_quantity r) = Some (Ok (gw_risk g, 0, ro_quantity r))"
    by (auto simp: resv_def adjust_reservation_def)
  with b show "process_replace g r = Some (g\<lparr>gw_book := b'\<rparr>, Ok (GwReplaced out))" by (simp add: process_replace_def)
  from m f have "book_abs b' = set_side (book_abs (gw_book g)) side (enqueue (descending side) (ro_price r)
      \<lparr>o_id = ro_order_id r, o_account = ro_account_id r, o_quantity = ro_quantity r, o_sequence = ro_sequence r\<rparr>
      (delete_order (ro_order_id r) (bm_side (book_abs (gw_book g)) side)))"
    by (auto simp: spec_replace_def and_then_Ok_iff split: if_splits)
  then have "book_list b' side = enqueue (descending side) (ro_price r)
      \<lparr>o_id = ro_order_id r, o_account = ro_account_id r, o_quantity = ro_quantity r, o_sequence = ro_sequence r\<rparr>
      (delete_order (ro_order_id r) (bm_side (book_abs (gw_book g)) side))" by (metis book_abs_sel(4) set_side_sel(4) fun_upd_same)
  then show "(ro_price r, \<lparr>o_id = ro_order_id r, o_account = ro_account_id r, o_quantity = ro_quantity r, o_sequence = ro_sequence r\<rparr>)
      \<in> set (book_list b' side)" by (simp add: enqueue_def)
qed

section \<open>Properties\<close>

text \<open>
  A gateway is restored only from consistent states. For a state whose arrays and fields have
  their Rust types, \<open>from_state\<close> never panics, and whatever it accepts becomes a gateway that satisfies
  the full invariant (risk totals, uncrossed well-formed book, reservations exactly the resting
  orders, sequence and id watermarks), whose open orders are within their accounts' limits, and that
  exports to the very state it was built from.
\<close>
theorem gateway_restore_sound:
  assumes "capacities_ok ACCOUNTS RISK_ORDERS LEVELS ORDERS" and "gateway_state_typed LEVELS ORDERS s"
  shows "case gateway_from_state ACCOUNTS RISK_ORDERS LEVELS ORDERS s of
      None \<Rightarrow> False
    | Some (Err e) \<Rightarrow> True
    | Some (Ok g) \<Rightarrow> gw_inv g \<and> gw_sequenced g \<and> open_orders_within g \<and> gateway_export_state g = Some s"
  using gateway_from_state_total [OF assms] gateway_restored [OF assms] by (auto split: option.splits result.splits)

theorem gateway_restore_sound_witness:
  "\<exists>g. gateway_from_state 2 3 1 1 demo_gateway_state = Some (Ok g) \<and> gw_inv g \<and> gateway_export_state g = Some demo_gateway_state"
  using gateway_restore_sound [OF _ demo_gateway_state_typed, of 2 3] demo_gateway_state_accepted
  by (auto simp: capacities_ok_def)

text \<open>
  C27: snapshots of live gateways. Every reachable gateway exports without a panic; unless one of its
  open orders is outside the limits of its account, the exported state is accepted, and the restored
  gateway then answers every further sequence of well-formed commands with the same reports and
  results as the original, ending in the same exported state; otherwise it is refused as \<open>OrderLimit\<close>.
\<close>
theorem snapshot_resumes:
  assumes reach: "gw_reachable ACCOUNTS RISK_ORDERS LEVELS ORDERS inst g" and cap: "capacities_ok ACCOUNTS RISK_ORDERS LEVELS ORDERS"
    and cs: "list_all command_ok cs"
  shows "\<exists>s. gateway_export_state g = Some s \<and>
    (if open_orders_within g
     then \<exists>g' h h' outs. gateway_from_state ACCOUNTS RISK_ORDERS LEVELS ORDERS s = Some (Ok g') \<and>
       run_steps (command_step REPORTS) g cs = Some (h, outs) \<and> run_steps (command_step REPORTS) g' cs = Some (h', outs) \<and>
       gateway_export_state h' = gateway_export_state h
     else gateway_from_state ACCOUNTS RISK_ORDERS LEVELS ORDERS s = Some (Err GseOrderLimit))"
proof -
  have sound: "gw_sound ACCOUNTS RISK_ORDERS LEVELS ORDERS g" by (rule gw_reachable_sound [OF reach cap])
  from run_commands_sound [OF sound cs, of REPORTS] obtain h outs where h: "run_steps (command_step REPORTS) g cs = Some (h, outs)" by blast
  from gateway_export_restore [of g ACCOUNTS RISK_ORDERS LEVELS ORDERS] sound obtain s where
    s: "gateway_export_state g = Some s" "if open_orders_within g
     then \<exists>g'. gateway_from_state ACCOUNTS RISK_ORDERS LEVELS ORDERS s = Some (Ok g') \<and> gw_equiv g g'
     else gateway_from_state ACCOUNTS RISK_ORDERS LEVELS ORDERS s = Some (Err GseOrderLimit)" by (auto simp: gw_sound_def)
  show ?thesis
  proof (cases "open_orders_within g")
    case True
    with s(2) obtain g' where g': "gateway_from_state ACCOUNTS RISK_ORDERS LEVELS ORDERS s = Some (Ok g')" by auto
    from snapshots.resume [of REPORTS g "[]" g "[]", OF _ sound s(1) g' cs] h obtain h' where
      "run_steps (command_step REPORTS) g' cs = Some (h', outs)" "gateway_export_state h' = gateway_export_state h" by auto
    with True s(1) g' h show ?thesis by auto
  qed (use s in auto)
qed

theorem snapshot_resumes_witness:
  "\<exists>s g' h h' outs. gateway_export_state demo_gateway = Some s \<and> gateway_from_state 1 1 2 2 s = Some (Ok g') \<and>
     run_steps (command_step 4) demo_gateway [CmdNewOrder demo_buy, CmdReplaceOrder demo_reprice] = Some (h, outs) \<and>
     run_steps (command_step 4) g' [CmdNewOrder demo_buy, CmdReplaceOrder demo_reprice] = Some (h', outs) \<and>
     gateway_export_state h' = gateway_export_state h"
proof -
  have w: "open_orders_within demo_gateway" by (simp add: open_orders_within_def demo_empty_ok(2))
  have c: "list_all command_ok [CmdNewOrder demo_buy, CmdReplaceOrder demo_reprice]"
    using demo_buy_widths by (simp add: demo_reprice_def replace_order_ok_def u64_ok_def u32_ok_def i64_ok_def)
  show ?thesis using snapshot_resumes [OF demo_gateway_reachable demo_capacities c, of 4] w by (simp del: run_steps.simps)
qed

text \<open>
  C28: replacing an order can make a live gateway unrestorable. Take any reachable gateway whose open orders are
  within the limits of their accounts, so that the state it exports is accepted, and any replace, with the next
  sequence number, of an open order at its quantity to a price outside the account's price collar, that the book
  takes. The gateway accepts the replace, and the state it exports then is refused with \<open>OrderLimit\<close>: \<open>adjust_reservation\<close>
  does not check the collar that \<open>validate_cross_component_state\<close> enforces.
\<close>
theorem replace_escapes_limits:
  assumes reach: "gw_reachable ACCOUNTS RISK_ORDERS LEVELS ORDERS inst g" and cap: "capacities_ok ACCOUNTS RISK_ORDERS LEVELS ORDERS"
    and within: "open_orders_within g" and r: "replace_order_ok r"
    and f: "find_side (book_abs (gw_book g)) (ro_order_id r) = Some (side, p, x)" "ro_quantity r = o_quantity x"
    and a: "acct (gw_risk g) (ro_account_id r) = Some a" "ro_price r < rl_minimum_price (ac_limits a) \<or> rl_maximum_price (ac_limits a) < ro_price r"
    and seq: "ro_sequence r = gw_expected_sequence g" "gw_expected_sequence g < 2 ^ 64 - 1"
    and b: "replace (gw_book g) r = Some (Ok (b', out))"
  shows "\<exists>s g0 g' rb' s'. gateway_export_state g = Some s \<and> gateway_from_state ACCOUNTS RISK_ORDERS LEVELS ORDERS s = Some (Ok g0) \<and>
    process_command g (CmdReplaceOrder r) rb = Some (g', rb', Ok (GwReplaced out)) \<and>
    gateway_export_state g' = Some s' \<and> gateway_from_state ACCOUNTS RISK_ORDERS LEVELS ORDERS s' = Some (Err GseOrderLimit)"
proof -
  have sound: "gw_sound ACCOUNTS RISK_ORDERS LEVELS ORDERS g" by (rule gw_reachable_sound [OF reach cap])
  then have inv: "gw_inv g" by (simp add: gw_sound_def)
  let ?g = "g\<lparr>gw_expected_sequence := gw_expected_sequence g + 1\<rparr>" and ?g' = "g\<lparr>gw_expected_sequence := gw_expected_sequence g + 1, gw_book := b'\<rparr>"
  let ?y = "\<lparr>o_id = ro_order_id r, o_account = ro_account_id r, o_quantity = ro_quantity r, o_sequence = ro_sequence r\<rparr>"
  have inv1: "gw_inv ?g" using inv seq(2) by (simp add: gw_inv_def u64_ok_def)
  note R = replace_same_quantity [OF inv1, of r side p x b' out]
  have "accept_sequence g (ro_sequence r) = Ok ?g" using seq by (simp add: accept_sequence_def check_sequence_def checked_add_def ok_or_def)
  then have run: "process_command g (CmdReplaceOrder r) rb = Some (?g', reports_clear rb, Ok (GwReplaced out))"
    using R(1) f b by (simp add: process_command_def dispatch_def)
  have "gw_reachable ACCOUNTS RISK_ORDERS LEVELS ORDERS inst ?g'" by (rule commanded [OF reach _ run]) (simp add: r)
  note sound' = gw_reachable_sound [OF this cap]
  have "(ro_price r, ?y) \<in> set (book_list b' side)" using R(2) f b by simp
  moreover have "\<not> within_limits_of ?g' (ro_price r) ?y" using a by (auto simp: within_limits_of_def order_within_def)
  ultimately have "\<not> open_orders_within ?g'" unfolding open_orders_within_def by auto
  with gateway_export_restore [of ?g' ACCOUNTS RISK_ORDERS LEVELS ORDERS] sound' obtain s' where
    s': "gateway_export_state ?g' = Some s'" "gateway_from_state ACCOUNTS RISK_ORDERS LEVELS ORDERS s' = Some (Err GseOrderLimit)"
    by (auto simp: gw_sound_def)
  from gateway_export_restore [of g ACCOUNTS RISK_ORDERS LEVELS ORDERS] sound within obtain s g0 where
    s: "gateway_export_state g = Some s" "gateway_from_state ACCOUNTS RISK_ORDERS LEVELS ORDERS s = Some (Ok g0)" by (auto simp: gw_sound_def)
  from s s' run show ?thesis by blast
qed

theorem replace_escapes_limits_witness:
  "\<exists>g out s g0 g' rb' s'. gw_reachable 1 1 2 2 3 g \<and> gateway_export_state g = Some s \<and> gateway_from_state 1 1 2 2 s = Some (Ok g0) \<and>
     process_command g (CmdReplaceOrder demo_reprice) (reports_new 4) = Some (g', rb', Ok (GwReplaced out)) \<and>
     gateway_export_state g' = Some s' \<and> gateway_from_state 1 1 2 2 s' = Some (Err GseOrderLimit)"
proof -
  obtain g b where g: "gw_reachable 1 1 2 2 3 g" "gw_risk g = demo_reserved" "gw_expected_sequence g = 2" "open_orders_within g"
    "find_side (book_abs (gw_book g)) 11 = Some (Buy, 100, \<lparr>o_id = 11, o_account = 7, o_quantity = 40, o_sequence = 1\<rparr>)"
    "replace (gw_book g) demo_reprice = Some (Ok (b, replaced demo_reprice 40 True))"
    "acct demo_reserved 7 = Some (demo_account\<lparr>ac_reserved_buys := 40, ac_open_orders := 1\<rparr>)" by (rule demo_repriced)
  let ?a = "demo_account\<lparr>ac_reserved_buys := 40, ac_open_orders := 1\<rparr>"
  have "replace_order_ok demo_reprice" by (simp add: demo_reprice_def replace_order_ok_def u64_ok_def u32_ok_def i64_ok_def)
  moreover have "ro_order_id demo_reprice = 11" "ro_account_id demo_reprice = 7" "ro_quantity demo_reprice = 40" "ro_price demo_reprice = 2000"
    "ro_sequence demo_reprice = 2" "rl_maximum_price (ac_limits ?a) < 2000" by (simp_all add: demo_reprice_def demo_account_def demo_limits_def)
  ultimately show ?thesis
    using replace_escapes_limits [OF g(1) demo_capacities g(4), of demo_reprice Buy 100 "\<lparr>o_id = 11, o_account = 7, o_quantity = 40, o_sequence = 1\<rparr>" ?a b
      "replaced demo_reprice 40 True" "reports_new 4"] g by auto
qed

end
