(* ===== verification/SnapshotFormat.thy ===== *)
theory SnapshotFormat
  imports GatewaySnapshot
begin

text \<open>
  The snapshot file format of \<open>crates/hft-recovery/src/lib.rs\<close>: a header of 96 bytes and the payload of
  a gateway state. SHA-256 comes from an external crate and is the parameter \<open>sha256\<close>. Encoders give the
  bytes they append; a slice out of range is a panic, \<open>None\<close>. A decoder reads from an \<open>Input\<close>, a buffer
  with an offset, and returns the advanced input with its value.
\<close>

section \<open>Containers\<close>

definition FORMAT_VERSION :: nat where "FORMAT_VERSION = 1"
definition HEADER_SIZE :: nat where "HEADER_SIZE = 96"
definition SNAPSHOT_MAGIC :: "byte list" where "SNAPSHOT_MAGIC = [0x48, 0x46, 0x54, 0x53, 0x4e, 0x41, 0x50, 0]"
definition HASH_ALGORITHM_SHA256 :: nat where "HASH_ALGORITHM_SHA256 = 1"
definition DIGEST_OFFSET :: nat where "DIGEST_OFFSET = 52"
definition DIGEST_SIZE :: nat where "DIGEST_SIZE = 32"

definition DOMAIN :: "byte list" where
  "DOMAIN = map (\<lambda>c. word_of_nat (of_char c)) ''deterministic-exchange snapshot v1'' @ [0]"

type_synonym sha256 = "byte list \<Rightarrow> byte list"

record Snapshot =
  sn_bytes :: "byte list"
  sn_digest :: "byte list"
  sn_applied_sequence :: nat

record DecodedSnapshot =
  ds_gateway :: Gateway
  ds_applied_sequence :: nat
  ds_digest :: "byte list"

datatype SnapshotError =
    SnTruncated | SnTrailingBytes | SnBadMagic | SnUnsupportedVersion nat | SnUnsupportedFlags nat | SnUnsupportedHash nat
  | SnHeaderLength nat | SnDigestLength nat | SnLengthOverflow | SnCapacityMismatch | SnIntegrityMismatch | SnInvalidBoolean
  | SnInvalidSide | SnInvalidCount | SnInvalidSequence | SnNonCanonical | SnGatewayState GatewayStateError

section \<open>Encoding\<close>

text \<open>\<open>to_be_bytes\<close> of an \<open>i128\<close>.\<close>

definition u128_of_i128 :: "int \<Rightarrow> nat" where
  "u128_of_i128 i = nat (i mod 2 ^ 128)"

definition bool_byte :: "bool \<Rightarrow> byte" where
  "bool_byte b = (if b then 1 else 0)"

fun side_tag :: "Side \<Rightarrow> byte" where
  "side_tag Buy = 1"
| "side_tag Sell = 2"

definition encode_optional_order :: "OrderId option \<Rightarrow> byte list" where
  "encode_optional_order v = bool_byte (v \<noteq> None) # be_bytes 8 (case v of None \<Rightarrow> 0 | Some k \<Rightarrow> k)"

definition write_count :: "nat \<Rightarrow> (byte list, SnapshotError) result" where
  "write_count v = and_then (ok_or SnLengthOverflow (u32_try_from v)) (\<lambda>n. Ok (be_bytes 4 n))"

definition capacity :: "nat \<Rightarrow> (nat, SnapshotError) result" where
  "capacity N = ok_or SnLengthOverflow (u32_try_from N)"

definition encode_account :: "AccountRiskState \<Rightarrow> byte list" where
  "encode_account a =
     be_bytes 4 (ars_id a) @ be_bytes 8 (rl_max_quantity (ars_limits a)) @ be_bytes 16 (rl_max_notional (ars_limits a)) @
     be_bytes 8 (rl_max_abs_position (ars_limits a)) @ be_bytes 4 (rl_max_open_orders (ars_limits a)) @
     be_bytes 8 (u64_of_i64 (rl_minimum_price (ars_limits a))) @ be_bytes 8 (u64_of_i64 (rl_maximum_price (ars_limits a))) @
     be_bytes 16 (u128_of_i128 (ars_settled_position a)) @ be_bytes 16 (ars_reserved_buys a) @
     be_bytes 16 (ars_reserved_sells a) @ be_bytes 4 (ars_open_orders a) @ [bool_byte (ars_killed a)]"

definition encode_reservation :: "ReservationRiskState \<Rightarrow> byte list" where
  "encode_reservation r =
     be_bytes 8 (rrs_order_id r) @ be_bytes 4 (rrs_account_id r) @ [side_tag (rrs_side r)] @ be_bytes 8 (rrs_quantity r)"

definition encode_order :: "BookOrderState \<Rightarrow> byte list" where
  "encode_order x =
     be_bytes 8 (bos_order_id x) @ be_bytes 4 (bos_account_id x) @ [side_tag (bos_side x)] @
     be_bytes 8 (u64_of_i64 (bos_price x)) @ be_bytes 8 (bos_quantity x) @ be_bytes 8 (bos_sequence x)"

fun encode_levels :: "BookLevelState list \<Rightarrow> (byte list, SnapshotError) result option" where
  "encode_levels [] = Some (Ok [])"
| "encode_levels (level # ls) =
     (case write_count (bls_order_count level) of
        Err e \<Rightarrow> Some (Err e)
      | Ok n \<Rightarrow>
          if bls_order_count level > length (bls_orders level) then None
          else map_option (\<lambda>r. and_then r (\<lambda>bs. Ok ([side_tag (bls_side level)] @ be_bytes 8 (u64_of_i64 (bls_price level)) @ n @
                 concat (map encode_order (take (bls_order_count level) (bls_orders level))) @ bs)))
               (encode_levels ls))"

definition encode_gateway_state :: "GatewayState \<Rightarrow> (byte list, SnapshotError) result option" where
  "encode_gateway_state s =
     (case and_then (write_count (length (rs_accounts (gs_risk s)))) (\<lambda>a.
           and_then (write_count (length (rs_reservations (gs_risk s)))) (\<lambda>r.
           and_then (write_count (bs_bid_level_count (gs_book s))) (\<lambda>b.
           and_then (write_count (bs_ask_level_count (gs_book s))) (\<lambda>k. Ok (a @ r @ b @ k))))) of
        Err e \<Rightarrow> Some (Err e)
      | Ok counts \<Rightarrow>
          if bs_bid_level_count (gs_book s) > length (bs_bids (gs_book s)) then None
          else do {
            bids \<leftarrow> encode_levels (take (bs_bid_level_count (gs_book s)) (bs_bids (gs_book s)));
            (case bids of
               Err e \<Rightarrow> Some (Err e)
             | Ok bids \<Rightarrow>
                 if bs_ask_level_count (gs_book s) > length (bs_asks (gs_book s)) then None
                 else do {
                   asks \<leftarrow> encode_levels (take (bs_ask_level_count (gs_book s)) (bs_asks (gs_book s)));
                   Some (and_then asks (\<lambda>asks. Ok (
                     be_bytes 4 (gs_instrument s) @ be_bytes 8 (gs_expected_sequence s) @
                     encode_optional_order (gs_maximum_received_order_id s) @
                     encode_optional_order (rs_maximum_order_id (gs_risk s)) @
                     [bool_byte (rs_killed (gs_risk s))] @ counts @
                     concat (map encode_account (rs_accounts (gs_risk s))) @
                     concat (map encode_reservation (rs_reservations (gs_risk s))) @ bids @ asks)))
                 })
          })"

text \<open>\<open>header[at..at + len].copy_from_slice(bytes)\<close>.\<close>

definition put_bytes :: "nat \<Rightarrow> byte list \<Rightarrow> byte list \<Rightarrow> byte list" where
  "put_bytes at bs header = take at header @ bs @ drop (at + length bs) header"

definition write_capacity :: "nat \<Rightarrow> nat \<Rightarrow> byte list \<Rightarrow> (byte list, SnapshotError) result" where
  "write_capacity N at header = and_then (capacity N) (\<lambda>n. Ok (put_bytes at (be_bytes 4 n) header))"

definition snapshot_digest :: "sha256 \<Rightarrow> byte list \<Rightarrow> byte list \<Rightarrow> byte list" where
  "snapshot_digest sha header payload =
     (let canonical_header = put_bytes DIGEST_OFFSET (replicate DIGEST_SIZE 0) header
      in sha (DOMAIN @ canonical_header @ payload))"

definition snapshot_header :: "nat \<Rightarrow> nat \<Rightarrow> byte list" where
  "snapshot_header payload_len applied_sequence =
     fold (\<lambda>(at, bs). put_bytes at bs)
       [(0, SNAPSHOT_MAGIC), (8, be_bytes 2 FORMAT_VERSION), (10, be_bytes 2 HEADER_SIZE), (16, be_bytes 2 HASH_ALGORITHM_SHA256),
        (18, be_bytes 2 DIGEST_SIZE), (20, be_bytes 8 payload_len), (28, be_bytes 8 applied_sequence)]
       (replicate HEADER_SIZE 0)"

definition encode_snapshot ::
  "sha256 \<Rightarrow> nat \<Rightarrow> nat \<Rightarrow> nat \<Rightarrow> nat \<Rightarrow> Gateway \<Rightarrow> nat \<Rightarrow> (Snapshot, SnapshotError) result option" where
  "encode_snapshot sha ACCOUNTS RISK_ORDERS LEVELS ORDERS gateway applied_sequence =
     do {
       state \<leftarrow> gateway_export_state gateway;
       (case ok_or SnInvalidSequence (checked_add 64 applied_sequence 1) of
          Err e \<Rightarrow> Some (Err e)
        | Ok next_sequence \<Rightarrow>
            if gs_expected_sequence state \<noteq> next_sequence then Some (Err SnInvalidSequence)
            else do {
              payload \<leftarrow> encode_gateway_state state;
              Some (and_then payload (\<lambda>payload.
                if length payload > U64_MAX then Err SnLengthOverflow
                else
                  and_then (write_capacity ACCOUNTS 36 (snapshot_header (length payload) applied_sequence)) (\<lambda>header.
                  and_then (write_capacity RISK_ORDERS 40 header) (\<lambda>header.
                  and_then (write_capacity LEVELS 44 header) (\<lambda>header.
                  and_then (write_capacity ORDERS 48 header) (\<lambda>header.
                    let digest = snapshot_digest sha header payload;
                        header = put_bytes DIGEST_OFFSET digest header
                    in Ok \<lparr>sn_bytes = header @ payload, sn_digest = digest, sn_applied_sequence = applied_sequence\<rparr>))))))
            })
     }"

section \<open>Decoding\<close>

record Input =
  in_bytes :: "byte list"
  in_offset :: nat

type_synonym 'a reader = "Input \<Rightarrow> ('a \<times> Input, SnapshotError) result"

definition input_take :: "nat \<Rightarrow> byte list reader" where
  "input_take len i =
     and_then (ok_or SnLengthOverflow (checked_add 64 (in_offset i) len)) (\<lambda>end_offset.
       if end_offset \<le> length (in_bytes i)
       then Ok (subslice (in_offset i) end_offset (in_bytes i), i\<lparr>in_offset := end_offset\<rparr>)
       else Err SnTruncated)"

text \<open>Unsigned reads of 1, 4, 8 and 16 bytes; the conversion of a taken slice to an array never fails.\<close>

definition input_unsigned :: "nat \<Rightarrow> nat reader" where
  "input_unsigned len i = and_then (input_take len i) (\<lambda>(bs, i). Ok (from_be bs, i))"

definition i128_of_u128 :: "nat \<Rightarrow> int" where
  "i128_of_u128 n = (if n < 2 ^ 127 then int n else int n - 2 ^ 128)"

definition input_i64 :: "PriceTicks reader" where
  "input_i64 i = and_then (input_unsigned 8 i) (\<lambda>(n, i). Ok (i64_of_u64 n, i))"

definition input_i128 :: "int reader" where
  "input_i128 i = and_then (input_unsigned 16 i) (\<lambda>(n, i). Ok (i128_of_u128 n, i))"

definition input_boolean :: "bool reader" where
  "input_boolean i =
     and_then (input_unsigned 1 i) (\<lambda>(n, i).
       if n = 0 then Ok (False, i) else if n = 1 then Ok (True, i) else Err SnInvalidBoolean)"

definition input_side :: "Side reader" where
  "input_side i =
     and_then (input_unsigned 1 i) (\<lambda>(n, i).
       if n = 1 then Ok (Buy, i) else if n = 2 then Ok (Sell, i) else Err SnInvalidSide)"

definition input_count :: "nat reader" where
  "input_count = input_unsigned 4"

definition input_optional_order :: "OrderId option reader" where
  "input_optional_order i =
     and_then (input_boolean i) (\<lambda>(present, i).
     and_then (input_unsigned 8 i) (\<lambda>(v, i).
       if present then Ok (Some v, i) else if v = 0 then Ok (None, i) else Err SnNonCanonical))"

definition input_account :: "AccountRiskState reader" where
  "input_account i =
     and_then (input_unsigned 4 i) (\<lambda>(account_id, i).
     and_then (input_unsigned 8 i) (\<lambda>(max_quantity, i).
     and_then (input_unsigned 16 i) (\<lambda>(max_notional, i).
     and_then (input_unsigned 8 i) (\<lambda>(max_abs_position, i).
     and_then (input_unsigned 4 i) (\<lambda>(max_open_orders, i).
     and_then (input_i64 i) (\<lambda>(minimum_price, i).
     and_then (input_i64 i) (\<lambda>(maximum_price, i).
     and_then (input_i128 i) (\<lambda>(settled_position, i).
     and_then (input_unsigned 16 i) (\<lambda>(reserved_buys, i).
     and_then (input_unsigned 16 i) (\<lambda>(reserved_sells, i).
     and_then (input_unsigned 4 i) (\<lambda>(open_orders, i).
     and_then (input_boolean i) (\<lambda>(killed, i).
       Ok (\<lparr>ars_id = account_id, ars_limits = \<lparr>rl_max_quantity = max_quantity, rl_max_notional = max_notional,
              rl_max_abs_position = max_abs_position, rl_max_open_orders = max_open_orders,
              rl_minimum_price = minimum_price, rl_maximum_price = maximum_price\<rparr>,
            ars_settled_position = settled_position, ars_reserved_buys = reserved_buys,
            ars_reserved_sells = reserved_sells, ars_open_orders = open_orders, ars_killed = killed\<rparr>, i)))))))))))))"

definition input_reservation :: "ReservationRiskState reader" where
  "input_reservation i =
     and_then (input_unsigned 8 i) (\<lambda>(order_id, i).
     and_then (input_unsigned 4 i) (\<lambda>(account_id, i).
     and_then (input_side i) (\<lambda>(side, i).
     and_then (input_unsigned 8 i) (\<lambda>(quantity, i).
       Ok (\<lparr>rrs_order_id = order_id, rrs_account_id = account_id, rrs_side = side, rrs_quantity = quantity\<rparr>, i)))))"

definition input_order :: "BookOrderState reader" where
  "input_order i =
     and_then (input_unsigned 8 i) (\<lambda>(order_id, i).
     and_then (input_unsigned 4 i) (\<lambda>(account_id, i).
     and_then (input_side i) (\<lambda>(side, i).
     and_then (input_i64 i) (\<lambda>(price, i).
     and_then (input_unsigned 8 i) (\<lambda>(quantity, i).
     and_then (input_unsigned 8 i) (\<lambda>(sequence, i).
       Ok (\<lparr>bos_order_id = order_id, bos_account_id = account_id, bos_side = side, bos_price = price,
            bos_quantity = quantity, bos_sequence = sequence\<rparr>, i)))))))"

text \<open>\<open>n\<close> reads in a row, as the loops over a count do.\<close>

fun input_many :: "'a reader \<Rightarrow> nat \<Rightarrow> 'a list reader" where
  "input_many read 0 i = Ok ([], i)"
| "input_many read (Suc n) i =
     and_then (read i) (\<lambda>(x, i). and_then (input_many read n i) (\<lambda>(xs, i). Ok (x # xs, i)))"

definition input_level :: "nat \<Rightarrow> BookLevelState reader" where
  "input_level ORDERS i =
     and_then (input_side i) (\<lambda>(side, i).
     and_then (input_i64 i) (\<lambda>(price, i).
     and_then (input_count i) (\<lambda>(n, i).
       if n > ORDERS then Err SnInvalidCount
       else let level = (level_state_empty ORDERS side price)\<lparr>bls_order_count := n\<rparr> in
         and_then (input_many input_order n i) (\<lambda>(orders, i).
           Ok (level\<lparr>bls_orders := orders @ drop n (bls_orders level)\<rparr>, i)))))"

definition decode_gateway_state :: "nat \<Rightarrow> nat \<Rightarrow> nat \<Rightarrow> nat \<Rightarrow> byte list \<Rightarrow> (GatewayState, SnapshotError) result" where
  "decode_gateway_state ACCOUNTS RISK_ORDERS LEVELS ORDERS payload =
     and_then (input_unsigned 4 \<lparr>in_bytes = payload, in_offset = 0\<rparr>) (\<lambda>(instrument, i).
     and_then (input_unsigned 8 i) (\<lambda>(expected_sequence, i).
     and_then (input_optional_order i) (\<lambda>(maximum_received_order_id, i).
     and_then (input_optional_order i) (\<lambda>(risk_maximum_order_id, i).
     and_then (input_boolean i) (\<lambda>(killed, i).
     and_then (input_count i) (\<lambda>(account_count, i).
     and_then (input_count i) (\<lambda>(reservation_count, i).
     and_then (input_count i) (\<lambda>(bid_count, i).
     and_then (input_count i) (\<lambda>(ask_count, i).
       if account_count > ACCOUNTS \<or> reservation_count > RISK_ORDERS \<or> bid_count > LEVELS \<or> ask_count > LEVELS
       then Err SnInvalidCount
       else
         and_then (input_many input_account account_count i) (\<lambda>(accounts, i).
         and_then (input_many input_reservation reservation_count i) (\<lambda>(reservations, i).
         let book = book_state_empty LEVELS ORDERS instrument in
         and_then (input_many (input_level ORDERS) bid_count i) (\<lambda>(bids, i).
         and_then (input_many (input_level ORDERS) ask_count i) (\<lambda>(asks, i).
           if in_offset i \<noteq> length (in_bytes i) then Err SnTrailingBytes
           else Ok \<lparr>gs_instrument = instrument,
             gs_book = book\<lparr>bs_bid_level_count := bid_count, bs_bids := bids @ drop bid_count (bs_bids book),
               bs_ask_level_count := ask_count, bs_asks := asks @ drop ask_count (bs_asks book)\<rparr>,
             gs_risk = \<lparr>rs_accounts = accounts, rs_reservations = reservations,
               rs_maximum_order_id = risk_maximum_order_id, rs_killed = killed\<rparr>,
             gs_expected_sequence = expected_sequence, gs_maximum_received_order_id = maximum_received_order_id\<rparr>)))))))))))))"

text \<open>The four comparisons stop at the first difference, so later capacities are not converted then.\<close>

fun capacities_differ :: "byte list \<Rightarrow> (nat \<times> nat) list \<Rightarrow> (bool, SnapshotError) result" where
  "capacities_differ header [] = Ok False"
| "capacities_differ header ((at, N) # cs) =
     and_then (capacity N) (\<lambda>n.
       if from_be (subslice at (at + 4) header) \<noteq> n then Ok True else capacities_differ header cs)"

definition decode_snapshot ::
  "sha256 \<Rightarrow> nat \<Rightarrow> nat \<Rightarrow> nat \<Rightarrow> nat \<Rightarrow> byte list \<Rightarrow> (DecodedSnapshot, SnapshotError) result option" where
  "decode_snapshot sha ACCOUNTS RISK_ORDERS LEVELS ORDERS bytes =
     (if length bytes < HEADER_SIZE then Some (Err SnTruncated)
      else let header = take HEADER_SIZE bytes in
      if subslice 0 8 header \<noteq> SNAPSHOT_MAGIC then Some (Err SnBadMagic)
      else let version = from_be (subslice 8 10 header) in
      if version \<noteq> FORMAT_VERSION then Some (Err (SnUnsupportedVersion version))
      else let header_len = from_be (subslice 10 12 header) in
      if header_len \<noteq> HEADER_SIZE then Some (Err (SnHeaderLength header_len))
      else let flags = from_be (subslice 12 16 header) in
      if flags \<noteq> 0 then Some (Err (SnUnsupportedFlags flags))
      else let hash = from_be (subslice 16 18 header) in
      if hash \<noteq> HASH_ALGORITHM_SHA256 then Some (Err (SnUnsupportedHash hash))
      else let digest_len = from_be (subslice 18 20 header) in
      if digest_len \<noteq> DIGEST_SIZE then Some (Err (SnDigestLength digest_len))
      else let payload_len = from_be (subslice 20 28 header) in
      (case checked_add 64 HEADER_SIZE payload_len of
         None \<Rightarrow> Some (Err SnLengthOverflow)
       | Some total_len \<Rightarrow>
           if length bytes < total_len then Some (Err SnTruncated)
           else if length bytes > total_len then Some (Err SnTrailingBytes)
           else (case capacities_differ header [(36, ACCOUNTS), (40, RISK_ORDERS), (44, LEVELS), (48, ORDERS)] of
              Err e \<Rightarrow> Some (Err e)
            | Ok differ \<Rightarrow>
                if differ then Some (Err SnCapacityMismatch)
                else if \<exists>b \<in> set (drop 84 header). b \<noteq> 0 then Some (Err SnNonCanonical)
                else let payload = drop HEADER_SIZE bytes; expected_digest = snapshot_digest sha header payload;
                         stored_digest = subslice DIGEST_OFFSET (DIGEST_OFFSET + DIGEST_SIZE) header in
                  if expected_digest \<noteq> stored_digest then Some (Err SnIntegrityMismatch)
                  else let applied_sequence = from_be (subslice 28 36 header) in
                    (case decode_gateway_state ACCOUNTS RISK_ORDERS LEVELS ORDERS payload of
                       Err e \<Rightarrow> Some (Err e)
                     | Ok state \<Rightarrow>
                         (case checked_add 64 applied_sequence 1 of
                            None \<Rightarrow> Some (Err SnInvalidSequence)
                          | Some next_sequence \<Rightarrow>
                              if gs_expected_sequence state \<noteq> next_sequence then Some (Err SnInvalidSequence)
                              else map_option (\<lambda>r. and_then (map_err SnGatewayState r) (\<lambda>g.
                                     Ok \<lparr>ds_gateway = g, ds_applied_sequence = applied_sequence, ds_digest = stored_digest\<rparr>))
                                   (gateway_from_state ACCOUNTS RISK_ORDERS LEVELS ORDERS state))))))"

end
