(* ===== verification/SnapshotCodec.thy ===== *)
theory SnapshotCodec
  imports SnapshotFormat
begin

text \<open>
  Readers and encoders as inverse to each other: a reader accepts exactly the encodings of admissible
  values, and moves past them. The law is closed under sequencing, repetition and renaming, so the law
  for the payload of a snapshot follows from those of its integers, flags and sides.
\<close>

section \<open>Reading\<close>

lemma and_then_assoc: "and_then (and_then m f) h = and_then m (\<lambda>x. and_then (f x) h)"
  by (cases m) simp_all

lemma and_then_fun_cong: "(\<And>x. f x = h x) \<Longrightarrow> and_then m f = and_then m h"
  by (cases m) simp_all

definition input_ok :: "Input \<Rightarrow> bool" where
  "input_ok i \<longleftrightarrow> in_offset i \<le> length (in_bytes i) \<and> length (in_bytes i) < 2 ^ 63"

text \<open>The input moves from \<open>i\<close> to \<open>j\<close> over the bytes \<open>bs\<close>.\<close>

definition moves :: "Input \<Rightarrow> Input \<Rightarrow> byte list \<Rightarrow> bool" where
  "moves i j bs \<longleftrightarrow> in_offset i + length bs \<le> length (in_bytes i) \<and> j = i\<lparr>in_offset := in_offset i + length bs\<rparr> \<and>
     subslice (in_offset i) (in_offset i + length bs) (in_bytes i) = bs"

lemma moves_ok: "moves i j bs \<Longrightarrow> input_ok i \<Longrightarrow> input_ok j"
  by (auto simp: moves_def input_ok_def)

lemma moves_Nil [simp]: "input_ok i \<Longrightarrow> moves i j [] \<longleftrightarrow> j = i"
  by (auto simp: moves_def input_ok_def subslice_def)

lemma moves_append: "moves i k (bs @ cs) \<longleftrightarrow> (\<exists>j. moves i j bs \<and> moves j k cs)"
proof
  assume m: "moves i k (bs @ cs)"
  then have s: "take (length bs + length cs) (drop (in_offset i) (in_bytes i)) = bs @ cs" by (simp add: moves_def subslice_def)
  have "take (length bs) (drop (in_offset i) (in_bytes i)) = bs"
    using arg_cong [OF s, of "take (length bs)"] by simp
  moreover have "take (length cs) (drop (length bs) (drop (in_offset i) (in_bytes i))) = cs"
    using arg_cong [OF s, of "drop (length bs)"] by (simp add: drop_take)
  ultimately show "\<exists>j. moves i j bs \<and> moves j k cs" using m
    by (intro exI [of _ "i\<lparr>in_offset := in_offset i + length bs\<rparr>"]) (simp add: moves_def subslice_def add.commute add.assoc)
next
  assume "\<exists>j. moves i j bs \<and> moves j k cs"
  then show "moves i k (bs @ cs)" by (auto simp: moves_def subslice_def take_add add.assoc add.commute)
qed

locale codec =
  fixes enc :: "'a \<Rightarrow> byte list" and dec :: "'a reader" and good :: "'a \<Rightarrow> bool"
  assumes dec_iff: "input_ok i \<Longrightarrow> dec i = Ok (a, j) \<longleftrightarrow> good a \<and> moves i j (enc a)"
begin

lemma dec_moves: "input_ok i \<Longrightarrow> dec i = Ok (a, j) \<Longrightarrow> good a \<and> moves i j (enc a) \<and> input_ok j"
  using dec_iff moves_ok by blast

lemma dec_enc: "input_ok i \<Longrightarrow> good a \<Longrightarrow> moves i j (enc a) \<Longrightarrow> dec i = Ok (a, j)"
  using dec_iff by blast

lemma many_iff:
  "input_ok i \<Longrightarrow> input_many dec n i = Ok (xs, j) \<longleftrightarrow> length xs = n \<and> list_all good xs \<and> moves i j (concat (map enc xs))"
proof (induction n arbitrary: i xs)
  case (Suc n)
  have "input_many dec (Suc n) i = Ok (xs, j) \<longleftrightarrow>
      (\<exists>y ys k. xs = y # ys \<and> dec i = Ok (y, k) \<and> input_many dec n k = Ok (ys, j))"
    by (auto simp: and_then_Ok_iff)
  also have "\<dots> \<longleftrightarrow> (\<exists>y ys k. xs = y # ys \<and> good y \<and> moves i k (enc y) \<and> length ys = n \<and> list_all good ys \<and>
      moves k j (concat (map enc ys)))"
    using Suc.IH dec_iff [OF Suc.prems] moves_ok [OF _ Suc.prems] by blast
  also have "\<dots> \<longleftrightarrow> length xs = Suc n \<and> list_all good xs \<and> moves i j (concat (map enc xs))"
    by (cases xs) (auto simp: moves_append)
  finally show ?case .
qed auto

end

text \<open>Sequencing two readers, and renaming what a reader returns.\<close>

lemma codec_depend:
  assumes "codec enc1 dec1 good1" and "\<And>a. good1 a \<Longrightarrow> codec (enc2 a) (dec2 a) (good2 a)"
  shows "codec (\<lambda>(a, b). enc1 a @ enc2 a b) (\<lambda>i. and_then (dec1 i) (\<lambda>(a, i). and_then (dec2 a i) (\<lambda>(b, i). Ok ((a, b), i))))
    (\<lambda>(a, b). good1 a \<and> good2 a b)"
proof
  fix i j :: Input and ab :: "'a \<times> 'b"
  assume i: "input_ok i"
  obtain a b where ab: "ab = (a, b)" by (cases ab)
  have "and_then (dec1 i) (\<lambda>(a, i). and_then (dec2 a i) (\<lambda>(b, i). Ok ((a, b), i))) = Ok (ab, j) \<longleftrightarrow>
      (\<exists>k. dec1 i = Ok (a, k) \<and> dec2 a k = Ok (b, j))" by (auto simp: and_then_Ok_iff ab)
  also have "\<dots> \<longleftrightarrow> (\<exists>k. good1 a \<and> moves i k (enc1 a) \<and> good2 a b \<and> moves k j (enc2 a b))"
    using codec.dec_iff [OF assms(1) i] codec.dec_iff [OF assms(2)] moves_ok [OF _ i] by blast
  finally show "and_then (dec1 i) (\<lambda>(a, i). and_then (dec2 a i) (\<lambda>(b, i). Ok ((a, b), i))) = Ok (ab, j) \<longleftrightarrow>
      (case ab of (a, b) \<Rightarrow> good1 a \<and> good2 a b) \<and> moves i j (case ab of (a, b) \<Rightarrow> enc1 a @ enc2 a b)"
    by (auto simp: ab moves_append)
qed

lemma codec_pair:
  assumes "codec enc1 dec1 good1" and "codec enc2 dec2 good2"
  shows "codec (\<lambda>(a, b). enc1 a @ enc2 b) (\<lambda>i. and_then (dec1 i) (\<lambda>(a, i). and_then (dec2 i) (\<lambda>(b, i). Ok ((a, b), i))))
    (\<lambda>(a, b). good1 a \<and> good2 b)"
  using codec_depend [OF assms(1), of "\<lambda>_. enc2" "\<lambda>_. dec2" "\<lambda>_. good2"] assms(2) by simp

lemma codec_many: "codec enc dec good \<Longrightarrow> codec (\<lambda>xs. concat (map enc xs)) (input_many dec n) (\<lambda>xs. length xs = n \<and> list_all good xs)"
  by unfold_locales (simp add: codec.many_iff)

lemma codec_convert:
  assumes c: "codec enc dec good" and dec': "\<And>i. dec' i = and_then (dec i) (\<lambda>(b, i). and_then (f b) (\<lambda>a. Ok (a, i)))"
    and f: "\<And>a b. good b \<Longrightarrow> f b = Ok a \<Longrightarrow> good' a \<and> g a = b" and g: "\<And>a. good' a \<Longrightarrow> good (g a) \<and> f (g a) = Ok a"
    and enc': "\<And>a. good' a \<Longrightarrow> enc' a = enc (g a)"
  shows "codec enc' dec' good'"
proof
  fix i j :: Input and a
  assume i: "input_ok i"
  have "dec' i = Ok (a, j) \<longleftrightarrow> (\<exists>b. dec i = Ok (b, j) \<and> f b = Ok a)" unfolding dec' by (auto simp: and_then_Ok_iff)
  also have "\<dots> \<longleftrightarrow> (\<exists>b. good b \<and> moves i j (enc b) \<and> f b = Ok a)" using codec.dec_iff [OF c i] by blast
  also have "\<dots> \<longleftrightarrow> good' a \<and> moves i j (enc (g a))" using f g by blast
  also have "\<dots> \<longleftrightarrow> good' a \<and> moves i j (enc' a)" using enc' by auto
  finally show "dec' i = Ok (a, j) \<longleftrightarrow> good' a \<and> moves i j (enc' a)" .
qed

section \<open>Integers, flags and sides\<close>

lemma input_take_iff: "input_ok i \<Longrightarrow> n \<le> 16 \<Longrightarrow> input_take n i = Ok (bs, j) \<longleftrightarrow> length bs = n \<and> moves i j bs"
  by (auto simp: input_take_def and_then_Ok_iff moves_def input_ok_def subslice_def)

lemma unsigned_codec: "n \<le> 16 \<Longrightarrow> codec (be_bytes n) (input_unsigned n) (\<lambda>v. v < 256 ^ n)"
proof
  fix i j :: Input and v
  assume n: "n \<le> 16" and i: "input_ok i"
  have "input_unsigned n i = Ok (v, j) \<longleftrightarrow> (\<exists>bs. length bs = n \<and> moves i j bs \<and> from_be bs = v)"
    using input_take_iff [OF i n] by (auto simp: input_unsigned_def and_then_Ok_iff)
  also have "\<dots> \<longleftrightarrow> v < 256 ^ n \<and> moves i j (be_bytes n v)"
    using be_bytes_from_be from_be_less from_be_be_bytes by (metis length_be_bytes)
  finally show "input_unsigned n i = Ok (v, j) \<longleftrightarrow> v < 256 ^ n \<and> moves i j (be_bytes n v)" .
qed

interpretation u8: codec "be_bytes 1" "input_unsigned 1" "\<lambda>v. v < 256 ^ 1" by (rule unsigned_codec) simp
interpretation u32: codec "be_bytes 4" "input_unsigned 4" "\<lambda>v. v < 256 ^ 4" by (rule unsigned_codec) simp
interpretation u64: codec "be_bytes 8" "input_unsigned 8" "\<lambda>v. v < 256 ^ 8" by (rule unsigned_codec) simp
interpretation u128: codec "be_bytes 16" "input_unsigned 16" "\<lambda>v. v < 256 ^ 16" by (rule unsigned_codec) simp

lemma i128_round: "in_range_i 128 i \<Longrightarrow> i128_of_u128 (u128_of_i128 i) = i"
proof -
  assume r: "in_range_i 128 i"
  show ?thesis
  proof (cases "0 \<le> i")
    case True
    then have "i mod 2 ^ 128 = i" using r by (intro mod_pos_pos_trivial) (auto simp: in_range_i_def)
    with True r show ?thesis by (simp add: i128_of_u128_def u128_of_i128_def in_range_i_def)
  next
    case False
    then have "i mod 2 ^ 128 = i + 2 ^ 128"
      using mod_pos_pos_trivial [of "i + 2 ^ 128" "2 ^ 128"] r by (simp add: in_range_i_def)
    with False r show ?thesis by (simp add: i128_of_u128_def u128_of_i128_def in_range_i_def nat_less_iff)
  qed
qed

lemma u128_round: "n < 2 ^ 128 \<Longrightarrow> u128_of_i128 (i128_of_u128 n) = n \<and> in_range_i 128 (i128_of_u128 n)"
proof -
  assume n: "n < 2 ^ 128"
  show ?thesis
  proof (cases "n < 2 ^ 127")
    case True
    then have "int n mod 2 ^ 128 = int n" by (intro mod_pos_pos_trivial) simp_all
    with True show ?thesis by (simp add: i128_of_u128_def u128_of_i128_def in_range_i_def)
  next
    case False
    have "(int n - 2 ^ 128) mod 2 ^ 128 = int n" using mod_pos_pos_trivial [of "int n" "2 ^ 128"] n by simp
    with False n show ?thesis by (simp add: i128_of_u128_def u128_of_i128_def in_range_i_def)
  qed
qed

interpretation i64: codec "\<lambda>v. be_bytes 8 (u64_of_i64 v)" input_i64 i64_ok
proof (rule codec_convert [OF u64.codec_axioms, where f = "\<lambda>n. Ok (i64_of_u64 n)" and g = u64_of_i64])
  show "input_i64 i = and_then (input_unsigned 8 i) (\<lambda>(b, i). and_then (Ok (i64_of_u64 b)) (\<lambda>a. Ok (a, i)))" for i
    by (simp add: input_i64_def)
qed (auto simp: i64_of_u64_of_i64 u64_of_i64_of_u64 i64_of_u64_ok u64_of_i64_less [simplified])

interpretation i128: codec "\<lambda>v. be_bytes 16 (u128_of_i128 v)" input_i128 "in_range_i 128"
proof (rule codec_convert [OF u128.codec_axioms, where f = "\<lambda>n. Ok (i128_of_u128 n)" and g = u128_of_i128])
  show "input_i128 i = and_then (input_unsigned 16 i) (\<lambda>(b, i). and_then (Ok (i128_of_u128 b)) (\<lambda>a. Ok (a, i)))" for i
    by (simp add: input_i128_def)
  show "u128_of_i128 a < 256 ^ 16 \<and> Ok (i128_of_u128 (u128_of_i128 a)) = Ok a" if "in_range_i 128 a" for a
    using i128_round [OF that] by (simp add: u128_of_i128_def nat_less_iff)
qed (use u128_round in auto)

interpretation boolean: codec "\<lambda>b. [bool_byte b]" input_boolean "\<lambda>_. True"
proof (rule codec_convert [OF u8.codec_axioms, where f = "\<lambda>n. if n = 0 then Ok False else if n = 1 then Ok True else Err SnInvalidBoolean"
      and g = "\<lambda>b. if b then 1 else 0"])
  show "input_boolean i = and_then (input_unsigned 1 i) (\<lambda>(b, i). and_then (if b = 0 then Ok False else if b = 1 then Ok True
      else Err SnInvalidBoolean) (\<lambda>a. Ok (a, i)))" for i
    unfolding input_boolean_def by (cases "input_unsigned 1 i") auto
qed (auto simp: bool_byte_def split: if_splits)

interpretation side: codec "\<lambda>s. [side_tag s]" input_side "\<lambda>_. True"
proof (rule codec_convert [OF u8.codec_axioms, where f = "\<lambda>n. if n = 1 then Ok Buy else if n = 2 then Ok Sell else Err SnInvalidSide"
      and g = "\<lambda>s. case s of Buy \<Rightarrow> 1 | Sell \<Rightarrow> 2"])
  show "input_side i = and_then (input_unsigned 1 i) (\<lambda>(b, i). and_then (if b = 1 then Ok Buy else if b = 2 then Ok Sell
      else Err SnInvalidSide) (\<lambda>a. Ok (a, i)))" for i
    unfolding input_side_def by (cases "input_unsigned 1 i") auto
qed (auto split: if_splits Side.splits)

interpretation order_option: codec encode_optional_order input_optional_order "\<lambda>v. \<forall>k. v = Some k \<longrightarrow> k < 256 ^ 8"
proof (rule codec_convert [OF codec_pair [OF boolean.codec_axioms u64.codec_axioms],
      where f = "\<lambda>(present, v). if present then Ok (Some v) else if v = 0 then Ok None else Err SnNonCanonical"
      and g = "\<lambda>v. (v \<noteq> None, case v of None \<Rightarrow> 0 | Some k \<Rightarrow> k)"])
  show "input_optional_order i = and_then (and_then (input_boolean i) (\<lambda>(a, i). and_then (input_unsigned 8 i) (\<lambda>(b, i). Ok ((a, b), i))))
      (\<lambda>(b, i). and_then (case b of (present, v) \<Rightarrow> if present then Ok (Some v) else if v = 0 then Ok None else Err SnNonCanonical)
        (\<lambda>a. Ok (a, i)))" for i
    unfolding input_optional_order_def and_then_assoc split_def by (intro and_then_fun_cong) simp
qed (auto simp: encode_optional_order_def split: if_splits option.splits)

section \<open>Records\<close>

text \<open>A reader of a record is a chain of readers of its fields, renamed.\<close>

lemmas field_chain = and_then_assoc split_def

lemma reservation_codec: "codec encode_reservation input_reservation reservation_state_typed"
  by (rule codec_convert [OF codec_pair [OF u64.codec_axioms codec_pair [OF u32.codec_axioms codec_pair [OF side.codec_axioms u64.codec_axioms]]],
      where f = "\<lambda>(k, a, s, q). Ok \<lparr>rrs_order_id = k, rrs_account_id = a, rrs_side = s, rrs_quantity = q\<rparr>"
      and g = "\<lambda>r. (rrs_order_id r, rrs_account_id r, rrs_side r, rrs_quantity r)"])
    (unfold input_reservation_def field_chain, intro and_then_fun_cong,
      auto simp: reservation_state_typed_def encode_reservation_def u64_ok_def u32_ok_def)

interpretation reservation: codec encode_reservation input_reservation reservation_state_typed by (rule reservation_codec)

definition order_state_typed :: "BookOrderState \<Rightarrow> bool" where
  "order_state_typed x \<longleftrightarrow> u64_ok (bos_order_id x) \<and> u32_ok (bos_account_id x) \<and> i64_ok (bos_price x) \<and>
     u64_ok (bos_quantity x) \<and> u64_ok (bos_sequence x)"

lemma order_codec: "codec encode_order input_order order_state_typed"
  by (rule codec_convert [OF codec_pair [OF u64.codec_axioms codec_pair [OF u32.codec_axioms codec_pair [OF side.codec_axioms
      codec_pair [OF i64.codec_axioms codec_pair [OF u64.codec_axioms u64.codec_axioms]]]]],
      where f = "\<lambda>(k, a, s, p, q, n). Ok \<lparr>bos_order_id = k, bos_account_id = a, bos_side = s, bos_price = p, bos_quantity = q, bos_sequence = n\<rparr>"
      and g = "\<lambda>x. (bos_order_id x, bos_account_id x, bos_side x, bos_price x, bos_quantity x, bos_sequence x)"])
    (unfold input_order_def field_chain, intro and_then_fun_cong, auto simp: order_state_typed_def encode_order_def u64_ok_def u32_ok_def)

interpretation order: codec encode_order input_order order_state_typed by (rule order_codec)

lemma account_codec: "codec encode_account input_account account_state_typed"
  by (rule codec_convert [OF codec_pair [OF u32.codec_axioms codec_pair [OF u64.codec_axioms codec_pair [OF u128.codec_axioms
      codec_pair [OF u64.codec_axioms codec_pair [OF u32.codec_axioms codec_pair [OF i64.codec_axioms codec_pair [OF i64.codec_axioms
      codec_pair [OF i128.codec_axioms codec_pair [OF u128.codec_axioms codec_pair [OF u128.codec_axioms
      codec_pair [OF u32.codec_axioms boolean.codec_axioms]]]]]]]]]]],
      where f = "\<lambda>(k, mq, mn, mp, mo, lo, hi, pos, b, s, n, d). Ok \<lparr>ars_id = k, ars_limits = \<lparr>rl_max_quantity = mq, rl_max_notional = mn,
        rl_max_abs_position = mp, rl_max_open_orders = mo, rl_minimum_price = lo, rl_maximum_price = hi\<rparr>, ars_settled_position = pos,
        ars_reserved_buys = b, ars_reserved_sells = s, ars_open_orders = n, ars_killed = d\<rparr>"
      and g = "\<lambda>a. (ars_id a, rl_max_quantity (ars_limits a), rl_max_notional (ars_limits a), rl_max_abs_position (ars_limits a),
        rl_max_open_orders (ars_limits a), rl_minimum_price (ars_limits a), rl_maximum_price (ars_limits a), ars_settled_position a,
        ars_reserved_buys a, ars_reserved_sells a, ars_open_orders a, ars_killed a)"])
    (unfold input_account_def field_chain, intro and_then_fun_cong,
      auto simp: account_state_typed_def encode_account_def limits_fit_def u64_ok_def u32_ok_def)

interpretation account: codec encode_account input_account account_state_typed by (rule account_codec)

section \<open>Levels\<close>

definition encode_level :: "BookLevelState \<Rightarrow> byte list" where
  "encode_level l = [side_tag (bls_side l)] @ be_bytes 8 (u64_of_i64 (bls_price l)) @ be_bytes 4 (bls_order_count l) @
     concat (map encode_order (used_orders l))"

definition level_state_typed :: "nat \<Rightarrow> BookLevelState \<Rightarrow> bool" where
  "level_state_typed ORDERS l \<longleftrightarrow> i64_ok (bls_price l) \<and> bls_order_count l \<le> ORDERS \<and> u32_ok (bls_order_count l) \<and>
     list_all order_state_typed (used_orders l) \<and>
     bls_orders l = used_orders l @ replicate (ORDERS - bls_order_count l) EMPTY_BOOK_ORDER_STATE \<and>
     length (used_orders l) = bls_order_count l"

lemma level_codec: "codec encode_level (input_level ORDERS) (level_state_typed ORDERS)"
proof (rule codec_convert [OF codec_pair [OF side.codec_axioms codec_pair [OF i64.codec_axioms codec_depend [OF
        codec_convert [OF u32.codec_axioms, where f = "\<lambda>n. if n > ORDERS then Err SnInvalidCount else Ok n"
          and g = "\<lambda>n. n" and good' = "\<lambda>n. n < 256 ^ 4 \<and> n \<le> ORDERS"] codec_many [OF order_codec]]]],
      where f = "\<lambda>(s, p, n, xs). Ok \<lparr>bls_side = s, bls_price = p, bls_order_count = n,
        bls_orders = xs @ replicate (ORDERS - n) EMPTY_BOOK_ORDER_STATE\<rparr>"
      and g = "\<lambda>l. (bls_side l, bls_price l, bls_order_count l, used_orders l)"])
  show "input_level ORDERS i = and_then (and_then (input_side i) (\<lambda>(a, i). and_then (and_then (input_i64 i) (\<lambda>(a, i).
      and_then (and_then (and_then (input_unsigned 4 i) (\<lambda>(b, i). and_then (if b > ORDERS then Err SnInvalidCount else Ok b) (\<lambda>a. Ok (a, i))))
        (\<lambda>(a, i). and_then (input_many input_order a i) (\<lambda>(b, i). Ok ((a, b), i)))) (\<lambda>(b, i). Ok ((a, b), i)))) (\<lambda>(b, i). Ok ((a, b), i))))
      (\<lambda>(b, i). and_then (case b of (s, p, n, xs) \<Rightarrow> Ok \<lparr>bls_side = s, bls_price = p, bls_order_count = n,
        bls_orders = xs @ replicate (ORDERS - n) EMPTY_BOOK_ORDER_STATE\<rparr>) (\<lambda>a. Ok (a, i)))" for i
    unfolding input_level_def input_count_def field_chain Let_def
    by (intro and_then_fun_cong) (simp add: and_then_assoc level_state_empty_def)
qed (auto simp: level_state_typed_def encode_level_def used_orders_def u32_ok_def simp del: be_bytes.simps split: if_splits)

section \<open>The payload\<close>

definition encode_counts :: "nat \<times> nat \<times> nat \<times> nat \<Rightarrow> byte list" where
  "encode_counts c = (case c of (a, r, b, k) \<Rightarrow> be_bytes 4 a @ be_bytes 4 r @ be_bytes 4 b @ be_bytes 4 k)"

definition counts_ok :: "nat \<Rightarrow> nat \<Rightarrow> nat \<Rightarrow> nat \<times> nat \<times> nat \<times> nat \<Rightarrow> bool" where
  "counts_ok ACCOUNTS RISK_ORDERS LEVELS c \<longleftrightarrow> (case c of (a, r, b, k) \<Rightarrow> u32_ok a \<and> u32_ok r \<and> u32_ok b \<and> u32_ok k \<and>
     a \<le> ACCOUNTS \<and> r \<le> RISK_ORDERS \<and> b \<le> LEVELS \<and> k \<le> LEVELS)"

definition state_counts :: "GatewayState \<Rightarrow> nat \<times> nat \<times> nat \<times> nat" where
  "state_counts s = (length (rs_accounts (gs_risk s)), length (rs_reservations (gs_risk s)),
     bs_bid_level_count (gs_book s), bs_ask_level_count (gs_book s))"

definition used_bids :: "GatewayState \<Rightarrow> BookLevelState list" where
  "used_bids s = take (bs_bid_level_count (gs_book s)) (bs_bids (gs_book s))"

definition used_asks :: "GatewayState \<Rightarrow> BookLevelState list" where
  "used_asks s = take (bs_ask_level_count (gs_book s)) (bs_asks (gs_book s))"

definition state_payload :: "GatewayState \<Rightarrow> byte list" where
  "state_payload s =
     be_bytes 4 (gs_instrument s) @ be_bytes 8 (gs_expected_sequence s) @ encode_optional_order (gs_maximum_received_order_id s) @
     encode_optional_order (rs_maximum_order_id (gs_risk s)) @ [bool_byte (rs_killed (gs_risk s))] @ encode_counts (state_counts s) @
     concat (map encode_account (rs_accounts (gs_risk s))) @ concat (map encode_reservation (rs_reservations (gs_risk s))) @
     concat (map encode_level (used_bids s)) @ concat (map encode_level (used_asks s))"

text \<open>Every field has its Rust type, and array entries beyond the counts are blank.\<close>

definition state_typed :: "nat \<Rightarrow> nat \<Rightarrow> nat \<Rightarrow> nat \<Rightarrow> GatewayState \<Rightarrow> bool" where
  "state_typed ACCOUNTS RISK_ORDERS LEVELS ORDERS s \<longleftrightarrow> u32_ok (gs_instrument s) \<and> u64_ok (gs_expected_sequence s) \<and>
     (\<forall>k. gs_maximum_received_order_id s = Some k \<longrightarrow> u64_ok k) \<and> (\<forall>k. rs_maximum_order_id (gs_risk s) = Some k \<longrightarrow> u64_ok k) \<and>
     counts_ok ACCOUNTS RISK_ORDERS LEVELS (state_counts s) \<and>
     list_all account_state_typed (rs_accounts (gs_risk s)) \<and> list_all reservation_state_typed (rs_reservations (gs_risk s)) \<and>
     list_all (level_state_typed ORDERS) (used_bids s) \<and> list_all (level_state_typed ORDERS) (used_asks s) \<and>
     bs_instrument (gs_book s) = gs_instrument s \<and>
     bs_bids (gs_book s) = used_bids s @ replicate (LEVELS - bs_bid_level_count (gs_book s)) (empty_book_level_state ORDERS) \<and>
     bs_asks (gs_book s) = used_asks s @ replicate (LEVELS - bs_ask_level_count (gs_book s)) (empty_book_level_state ORDERS) \<and>
     length (bs_bids (gs_book s)) = LEVELS \<and> length (bs_asks (gs_book s)) = LEVELS"

definition input_counts :: "nat \<Rightarrow> nat \<Rightarrow> nat \<Rightarrow> (nat \<times> nat \<times> nat \<times> nat) reader" where
  "input_counts ACCOUNTS RISK_ORDERS LEVELS i =
     and_then (input_unsigned 4 i) (\<lambda>(a, i). and_then (input_unsigned 4 i) (\<lambda>(r, i).
     and_then (input_unsigned 4 i) (\<lambda>(b, i). and_then (input_unsigned 4 i) (\<lambda>(k, i).
       if a > ACCOUNTS \<or> r > RISK_ORDERS \<or> b > LEVELS \<or> k > LEVELS then Err SnInvalidCount else Ok ((a, r, b, k), i)))))"

lemma counts_codec: "codec encode_counts (input_counts ACCOUNTS RISK_ORDERS LEVELS) (counts_ok ACCOUNTS RISK_ORDERS LEVELS)"
  by (rule codec_convert [OF codec_pair [OF u32.codec_axioms codec_pair [OF u32.codec_axioms codec_pair [OF u32.codec_axioms u32.codec_axioms]]],
      where f = "\<lambda>(a, r, b, k). if a > ACCOUNTS \<or> r > RISK_ORDERS \<or> b > LEVELS \<or> k > LEVELS then Err SnInvalidCount else Ok (a, r, b, k)"
      and g = "\<lambda>c. c"])
    (unfold input_counts_def field_chain, intro and_then_fun_cong,
      auto simp: counts_ok_def encode_counts_def u32_ok_def simp del: be_bytes.simps split: if_splits)

text \<open>The accounts, reservations and levels that follow the counts.\<close>

type_synonym state_body = "AccountRiskState list \<times> ReservationRiskState list \<times> BookLevelState list \<times> BookLevelState list"

definition encode_body :: "state_body \<Rightarrow> byte list" where
  "encode_body x = (case x of (accounts, reservations, bids, asks) \<Rightarrow> concat (map encode_account accounts) @
     concat (map encode_reservation reservations) @ concat (map encode_level bids) @ concat (map encode_level asks))"

definition input_body :: "nat \<Rightarrow> nat \<times> nat \<times> nat \<times> nat \<Rightarrow> state_body reader" where
  "input_body ORDERS c i = (case c of (na, nr, nb, nk) \<Rightarrow>
     and_then (input_many input_account na i) (\<lambda>(accounts, i). and_then (input_many input_reservation nr i) (\<lambda>(reservations, i).
     and_then (input_many (input_level ORDERS) nb i) (\<lambda>(bids, i). and_then (input_many (input_level ORDERS) nk i) (\<lambda>(asks, i).
       Ok ((accounts, reservations, bids, asks), i))))))"

definition body_ok :: "nat \<Rightarrow> nat \<times> nat \<times> nat \<times> nat \<Rightarrow> state_body \<Rightarrow> bool" where
  "body_ok ORDERS c x \<longleftrightarrow> (case x of (accounts, reservations, bids, asks) \<Rightarrow>
     c = (length accounts, length reservations, length bids, length asks) \<and> list_all account_state_typed accounts \<and>
     list_all reservation_state_typed reservations \<and> list_all (level_state_typed ORDERS) bids \<and> list_all (level_state_typed ORDERS) asks)"

lemma body_codec: "codec encode_body (input_body ORDERS c) (body_ok ORDERS c)"
proof -
  obtain na nr nb nk where c: "c = (na, nr, nb, nk)" by (cases c)
  show ?thesis
    by (rule codec_convert [OF codec_pair [OF codec_many [OF account_codec, where n = na] codec_pair [OF codec_many [OF reservation_codec, where n = nr]
        codec_pair [OF codec_many [OF level_codec [of ORDERS], where n = nb] codec_many [OF level_codec [of ORDERS], where n = nk]]]], where f = Ok and g = "\<lambda>x. x"])
      (unfold input_body_def c field_chain fst_conv snd_conv, intro and_then_fun_cong, auto simp: body_ok_def encode_body_def)
qed

definition build_state :: "nat \<Rightarrow> nat \<Rightarrow> InstrumentId \<times> nat \<times> OrderId option \<times> OrderId option \<times> bool \<times> (nat \<times> nat \<times> nat \<times> nat) \<times> state_body \<Rightarrow> GatewayState" where
  "build_state LEVELS ORDERS x = (case x of (instrument, expected_sequence, maximum_received, risk_maximum, killed, (na, nr, nb, nk), accounts, reservations, bids, asks) \<Rightarrow>
     \<lparr>gs_instrument = instrument, gs_book = \<lparr>bs_instrument = instrument, bs_bid_level_count = nb,
        bs_bids = bids @ replicate (LEVELS - nb) (empty_book_level_state ORDERS), bs_ask_level_count = nk,
        bs_asks = asks @ replicate (LEVELS - nk) (empty_book_level_state ORDERS)\<rparr>,
      gs_risk = \<lparr>rs_accounts = accounts, rs_reservations = reservations, rs_maximum_order_id = risk_maximum, rs_killed = killed\<rparr>,
      gs_expected_sequence = expected_sequence, gs_maximum_received_order_id = maximum_received\<rparr>)"

definition input_state :: "nat \<Rightarrow> nat \<Rightarrow> nat \<Rightarrow> nat \<Rightarrow> GatewayState reader" where
  "input_state ACCOUNTS RISK_ORDERS LEVELS ORDERS i =
     and_then (input_unsigned 4 i) (\<lambda>(instrument, i). and_then (input_unsigned 8 i) (\<lambda>(expected_sequence, i).
     and_then (input_optional_order i) (\<lambda>(maximum_received, i). and_then (input_optional_order i) (\<lambda>(risk_maximum, i).
     and_then (input_boolean i) (\<lambda>(killed, i). and_then (input_counts ACCOUNTS RISK_ORDERS LEVELS i) (\<lambda>(c, i).
     and_then (input_body ORDERS c i) (\<lambda>(body, i).
       Ok (build_state LEVELS ORDERS (instrument, expected_sequence, maximum_received, risk_maximum, killed, c, body), i))))))))"

lemma state_codec: "codec state_payload (input_state ACCOUNTS RISK_ORDERS LEVELS ORDERS) (state_typed ACCOUNTS RISK_ORDERS LEVELS ORDERS)"
proof (rule codec_convert [OF codec_pair [OF u32.codec_axioms codec_pair [OF u64.codec_axioms codec_pair [OF order_option.codec_axioms
      codec_pair [OF order_option.codec_axioms codec_pair [OF boolean.codec_axioms
      codec_depend [where ?enc2.0 = "\<lambda>_. encode_body" and ?dec2.0 = "input_body ORDERS" and ?good2.0 = "body_ok ORDERS",
        OF counts_codec [of ACCOUNTS RISK_ORDERS LEVELS] body_codec]]]]]],
      where f = "\<lambda>x. Ok (build_state LEVELS ORDERS x)"
      and g = "\<lambda>s. (gs_instrument s, gs_expected_sequence s, gs_maximum_received_order_id s, rs_maximum_order_id (gs_risk s),
        rs_killed (gs_risk s), state_counts s, rs_accounts (gs_risk s), rs_reservations (gs_risk s), used_bids s, used_asks s)"], goal_cases)
  case (1 i)
  show ?case unfolding input_state_def field_chain by (intro and_then_fun_cong) simp
next
  case (2 a b)
  then show ?case
    by (auto simp: build_state_def state_typed_def counts_ok_def state_counts_def used_bids_def used_asks_def body_ok_def u32_ok_def u64_ok_def)
next
  case (3 s)
  then show ?case
    by (cases s, cases "gs_book s", cases "gs_risk s")
      (auto simp: build_state_def state_typed_def counts_ok_def state_counts_def body_ok_def u32_ok_def u64_ok_def used_bids_def used_asks_def)
next
  case (4 s)
  show ?case by (simp add: state_payload_def encode_body_def state_counts_def)
qed

end
