(* ===== verification/SnapshotProps.thy ===== *)
theory SnapshotProps
  imports SnapshotCodec
begin

text \<open>
  Snapshots as containers: a snapshot of a gateway is decoded to an equivalent gateway, and a decoded
  snapshot is, byte for byte, the snapshot of the gateway it gave.
\<close>

section \<open>The payload is canonical\<close>

lemma and_then_if: "and_then (if c then a else b) f = (if c then and_then a f else and_then b f)"
  by simp

lemma decode_gateway_state_input:
  "decode_gateway_state ACCOUNTS RISK_ORDERS LEVELS ORDERS payload =
   and_then (input_state ACCOUNTS RISK_ORDERS LEVELS ORDERS \<lparr>in_bytes = payload, in_offset = 0\<rparr>)
     (\<lambda>(s, i). if in_offset i \<noteq> length (in_bytes i) then Err SnTrailingBytes else Ok s)"
  unfolding decode_gateway_state_def input_state_def input_counts_def input_body_def input_count_def Let_def and_then_assoc split_def
    and_then_if and_then.simps fst_conv snd_conv build_state_def book_state_empty_def
  by (intro and_then_fun_cong if_cong refl) simp

lemma decode_gateway_state_iff:
  assumes "length payload < 2 ^ 63"
  shows "decode_gateway_state ACCOUNTS RISK_ORDERS LEVELS ORDERS payload = Ok s \<longleftrightarrow>
    state_typed ACCOUNTS RISK_ORDERS LEVELS ORDERS s \<and> payload = state_payload s"
proof -
  let ?i = "\<lparr>in_bytes = payload, in_offset = 0\<rparr>"
  have "decode_gateway_state ACCOUNTS RISK_ORDERS LEVELS ORDERS payload = Ok s \<longleftrightarrow>
      (\<exists>j. input_state ACCOUNTS RISK_ORDERS LEVELS ORDERS ?i = Ok (s, j) \<and> in_offset j = length (in_bytes j))"
    by (auto simp: decode_gateway_state_input and_then_Ok_iff)
  also have "\<dots> \<longleftrightarrow> (\<exists>j. state_typed ACCOUNTS RISK_ORDERS LEVELS ORDERS s \<and> moves ?i j (state_payload s) \<and> in_offset j = length (in_bytes j))"
    using codec.dec_iff [OF state_codec, of ?i] assms by (simp add: input_ok_def)
  also have "\<dots> \<longleftrightarrow> state_typed ACCOUNTS RISK_ORDERS LEVELS ORDERS s \<and> payload = state_payload s"
    by (auto simp: moves_def subslice_def)
  finally show ?thesis .
qed

lemma write_count_ok: "u32_ok n \<Longrightarrow> write_count n = Ok (be_bytes 4 n)"
  by (simp add: write_count_def u32_try_from_def u32_ok_def)

lemma encode_levels_typed:
  "list_all (level_state_typed ORDERS) ls \<Longrightarrow> encode_levels ls = Some (Ok (concat (map encode_level ls)))"
proof (induction ls)
  case (Cons l ls)
  then show ?case
    by (auto simp: level_state_typed_def write_count_ok encode_level_def used_orders_def simp del: be_bytes.simps)
qed simp

lemma encode_gateway_state_typed:
  assumes "state_typed ACCOUNTS RISK_ORDERS LEVELS ORDERS s"
  shows "encode_gateway_state s = Some (Ok (state_payload s))"
proof -
  have "encode_levels (used_bids s) = Some (Ok (concat (map encode_level (used_bids s))))"
    "encode_levels (used_asks s) = Some (Ok (concat (map encode_level (used_asks s))))"
    using assms encode_levels_typed by (auto simp: state_typed_def)
  then show ?thesis using assms
    by (simp add: encode_gateway_state_def state_typed_def counts_ok_def state_counts_def write_count_ok state_payload_def encode_counts_def
        used_bids_def used_asks_def del: be_bytes.simps)
qed

section \<open>The payload is short\<close>

lemma length_concat_le: "list_all P xs \<Longrightarrow> (\<And>x. P x \<Longrightarrow> length (f x) \<le> m) \<Longrightarrow> length (concat (map f xs)) \<le> length xs * m"
  by (induction xs) (auto intro: add_mono)

lemma encode_lengths:
  "length (encode_account a) = 109" "length (encode_reservation r) = 21" "length (encode_order x) = 37"
  "length (encode_optional_order v) = 9" "length (encode_counts c) = 16"
  by (simp_all add: encode_account_def encode_reservation_def encode_order_def encode_optional_order_def encode_counts_def
      split_def del: be_bytes.simps)

lemma length_encode_level: "level_state_typed ORDERS l \<Longrightarrow> length (encode_level l) \<le> 13 + ORDERS * 37"
  using length_concat_le [of order_state_typed "used_orders l" encode_order 37]
  by (simp add: level_state_typed_def encode_level_def encode_lengths del: be_bytes.simps)

lemma state_payload_short:
  assumes cap: "capacities_ok ACCOUNTS RISK_ORDERS LEVELS ORDERS" and s: "state_typed ACCOUNTS RISK_ORDERS LEVELS ORDERS s"
  shows "length (state_payload s) < 2 ^ 40"
proof -
  have lev: "LEVELS \<le> 2 ^ 30" "LEVELS * ORDERS \<le> 2 ^ 30" using cap by (auto simp: capacities_ok_def)
      (metis (no_types, opaque_lifting) Suc_leI le_trans mult.right_neutral mult_le_mono2 One_nat_def)
  have side: "length (concat (map encode_level ls)) \<le> 13 * 2 ^ 30 + 37 * 2 ^ 30"
    if "list_all (level_state_typed ORDERS) ls" "length ls \<le> LEVELS" for ls
  proof -
    have "length (concat (map encode_level ls)) \<le> length ls * (13 + ORDERS * 37)"
      by (rule length_concat_le [OF that(1) length_encode_level])
    also have "\<dots> \<le> LEVELS * (13 + ORDERS * 37)" using that(2) by (rule mult_le_mono1)
    also have "\<dots> = 13 * LEVELS + 37 * (LEVELS * ORDERS)" by (simp add: distrib_left mult.commute mult.left_commute)
    also have "\<dots> \<le> 13 * 2 ^ 30 + 37 * 2 ^ 30" using lev by (intro add_mono mult_le_mono2)
    finally show ?thesis .
  qed
  have "length (concat (map encode_account (rs_accounts (gs_risk s)))) \<le> 2 ^ 31 * 109"
    using length_concat_le [of account_state_typed "rs_accounts (gs_risk s)" encode_account 109] s cap
    by (simp add: state_typed_def counts_ok_def state_counts_def capacities_ok_def encode_lengths)
  moreover have "length (concat (map encode_reservation (rs_reservations (gs_risk s)))) \<le> 2 ^ 31 * 21"
    using length_concat_le [of reservation_state_typed "rs_reservations (gs_risk s)" encode_reservation 21] s cap
    by (simp add: state_typed_def counts_ok_def state_counts_def capacities_ok_def encode_lengths)
  moreover have "length (concat (map encode_level (used_bids s))) \<le> 13 * 2 ^ 30 + 37 * 2 ^ 30"
    "length (concat (map encode_level (used_asks s))) \<le> 13 * 2 ^ 30 + 37 * 2 ^ 30"
    using s by (intro side; simp add: state_typed_def used_bids_def used_asks_def)+
  ultimately show ?thesis by (simp add: state_payload_def encode_lengths del: be_bytes.simps)
qed

section \<open>The header\<close>

definition header_layout :: "nat \<Rightarrow> nat \<Rightarrow> nat \<times> nat \<times> nat \<times> nat \<Rightarrow> byte list \<Rightarrow> byte list" where
  "header_layout payload_len applied_sequence capacities digest =
     SNAPSHOT_MAGIC @ be_bytes 2 FORMAT_VERSION @ be_bytes 2 HEADER_SIZE @ replicate 4 0 @ be_bytes 2 HASH_ALGORITHM_SHA256 @
     be_bytes 2 DIGEST_SIZE @ be_bytes 8 payload_len @ be_bytes 8 applied_sequence @ encode_counts capacities @ digest @ replicate 12 0"

lemma length_header_layout: "length digest = DIGEST_SIZE \<Longrightarrow> length (header_layout len applied c digest) = HEADER_SIZE"
  by (simp add: header_layout_def SNAPSHOT_MAGIC_def HEADER_SIZE_def DIGEST_SIZE_def encode_lengths del: be_bytes.simps)

lemma put_bytes_append: "length xs = at \<Longrightarrow> length ys = length bs \<Longrightarrow> put_bytes at bs (xs @ ys @ zs) = xs @ bs @ zs"
  by (simp add: put_bytes_def)

lemma put_digest:
  "length d = DIGEST_SIZE \<Longrightarrow> length digest = DIGEST_SIZE \<Longrightarrow>
   put_bytes DIGEST_OFFSET d (header_layout len applied c digest) = header_layout len applied c d"
  using put_bytes_append [of "SNAPSHOT_MAGIC @ be_bytes 2 FORMAT_VERSION @ be_bytes 2 HEADER_SIZE @ replicate 4 0 @
      be_bytes 2 HASH_ALGORITHM_SHA256 @ be_bytes 2 DIGEST_SIZE @ be_bytes 8 len @ be_bytes 8 applied @ encode_counts c"
      DIGEST_OFFSET digest d "replicate 12 0"]
  by (simp add: header_layout_def SNAPSHOT_MAGIC_def DIGEST_OFFSET_def encode_lengths del: be_bytes.simps)

lemma be_bytes_small: "be_bytes 2 FORMAT_VERSION = [0, 1]" "be_bytes 2 HEADER_SIZE = [0, 96]"
  "be_bytes 2 HASH_ALGORITHM_SHA256 = [0, 1]" "be_bytes 2 DIGEST_SIZE = [0, 32]"
  by (simp_all add: FORMAT_VERSION_def HEADER_SIZE_def HASH_ALGORITHM_SHA256_def DIGEST_SIZE_def numeral_2_eq_2)

lemma snapshot_header_layout:
  "snapshot_header len applied = SNAPSHOT_MAGIC @ be_bytes 2 FORMAT_VERSION @ be_bytes 2 HEADER_SIZE @ replicate 4 0 @
     be_bytes 2 HASH_ALGORITHM_SHA256 @ be_bytes 2 DIGEST_SIZE @ be_bytes 8 len @ be_bytes 8 applied @ replicate 60 0"
  by (simp add: snapshot_header_def put_bytes_def SNAPSHOT_MAGIC_def be_bytes_small HEADER_SIZE_def del: be_bytes.simps)

lemma write_capacity_ok: "u32_ok n \<Longrightarrow> write_capacity n at header = Ok (put_bytes at (be_bytes 4 n) header)"
  by (simp add: write_capacity_def capacity_def u32_try_from_def u32_ok_def)

lemma put_capacities:
  "put_bytes 48 (be_bytes 4 k) (put_bytes 44 (be_bytes 4 l) (put_bytes 40 (be_bytes 4 r) (put_bytes 36 (be_bytes 4 a)
     (snapshot_header len applied)))) = header_layout len applied (a, r, l, k) (replicate DIGEST_SIZE 0)"
  by (simp add: snapshot_header_layout put_bytes_def header_layout_def encode_counts_def SNAPSHOT_MAGIC_def be_bytes_small DIGEST_SIZE_def
      replicate_add [symmetric] del: be_bytes.simps)

lemma header_layout_fields:
  assumes "length digest = DIGEST_SIZE"
  shows "subslice 0 8 (header_layout len applied c digest) = SNAPSHOT_MAGIC"
    "subslice 8 10 (header_layout len applied c digest) = be_bytes 2 FORMAT_VERSION"
    "subslice 10 12 (header_layout len applied c digest) = be_bytes 2 HEADER_SIZE"
    "subslice 12 16 (header_layout len applied c digest) = replicate 4 0"
    "subslice 16 18 (header_layout len applied c digest) = be_bytes 2 HASH_ALGORITHM_SHA256"
    "subslice 18 20 (header_layout len applied c digest) = be_bytes 2 DIGEST_SIZE"
    "subslice 20 28 (header_layout len applied c digest) = be_bytes 8 len"
    "subslice 28 36 (header_layout len applied c digest) = be_bytes 8 applied"
    "subslice 36 52 (header_layout len applied c digest) = encode_counts c"
    "subslice DIGEST_OFFSET (DIGEST_OFFSET + DIGEST_SIZE) (header_layout len applied c digest) = digest"
    "drop 84 (header_layout len applied c digest) = replicate 12 0"
  using assms
  by (simp_all add: header_layout_def subslice_def SNAPSHOT_MAGIC_def be_bytes_small DIGEST_OFFSET_def DIGEST_SIZE_def encode_lengths
      del: be_bytes.simps)

text \<open>A header of the right length is the sequence of its fields.\<close>

lemma header_split:
  assumes "length h = 96"
  shows "h = subslice 0 8 h @ subslice 8 10 h @ subslice 10 12 h @ subslice 12 16 h @ subslice 16 18 h @ subslice 18 20 h @
    subslice 20 28 h @ subslice 28 36 h @ subslice 36 52 h @ subslice 52 84 h @ drop 84 h"
proof -
  have "subslice a b h @ drop b h = drop a h" if "a \<le> b" for a b
    using append_take_drop_id [of "b - a" "drop a h"] that by (simp add: subslice_def)
  then show ?thesis by simp
qed

lemma encode_counts_sub:
  "length h = 96 \<Longrightarrow> u32_ok a \<Longrightarrow> u32_ok r \<Longrightarrow> u32_ok l \<Longrightarrow> u32_ok k \<Longrightarrow>
   subslice 36 52 h = encode_counts (a, r, l, k) \<longleftrightarrow> from_be (subslice 36 40 h) = a \<and> from_be (subslice 40 44 h) = r \<and>
     from_be (subslice 44 48 h) = l \<and> from_be (subslice 48 52 h) = k"
proof -
  assume h: "length h = 96" and u: "u32_ok a" "u32_ok r" "u32_ok l" "u32_ok k"
  have s: "subslice 36 52 h = subslice 36 40 h @ subslice 40 44 h @ subslice 44 48 h @ subslice 48 52 h"
    by (simp add: subslice_append)
  have "subslice x (x + 4) h = be_bytes 4 n \<longleftrightarrow> from_be (subslice x (x + 4) h) = n" if "u32_ok n" "x \<le> 92" for x n
    using be_bytes_from_be [of "subslice x (x + 4) h"] from_be_be_bytes [of n 4] that h by (auto simp: u32_ok_def)
  from this [OF u(1), of 36] this [OF u(2), of 40] this [OF u(3), of 44] this [OF u(4), of 48] h show ?thesis
    by (simp add: s encode_counts_def del: be_bytes.simps)
qed

lemma capacities_differ_iff:
  assumes "length h = 96"
  shows "capacities_differ h [(36, a), (40, r), (44, l), (48, k)] = Ok False \<longleftrightarrow>
    u32_ok a \<and> u32_ok r \<and> u32_ok l \<and> u32_ok k \<and> subslice 36 52 h = encode_counts (a, r, l, k)"
proof -
  have "capacities_differ h [(36, a), (40, r), (44, l), (48, k)] = Ok False \<longleftrightarrow> u32_ok a \<and> u32_ok r \<and> u32_ok l \<and> u32_ok k \<and>
      from_be (subslice 36 40 h) = a \<and> from_be (subslice 40 44 h) = r \<and> from_be (subslice 44 48 h) = l \<and> from_be (subslice 48 52 h) = k"
    by (auto simp: capacity_def u32_try_from_def u32_ok_def and_then_Ok_iff split: if_splits)
  with encode_counts_sub [OF assms, of a r l k] show ?thesis by blast
qed

section \<open>The container\<close>

definition payload_digest :: "sha256 \<Rightarrow> nat \<times> nat \<times> nat \<times> nat \<Rightarrow> nat \<Rightarrow> GatewayState \<Rightarrow> byte list" where
  "payload_digest sha c applied s =
     sha (DOMAIN @ header_layout (length (state_payload s)) applied c (replicate DIGEST_SIZE 0) @ state_payload s)"

definition snapshot_bytes :: "sha256 \<Rightarrow> nat \<times> nat \<times> nat \<times> nat \<Rightarrow> nat \<Rightarrow> GatewayState \<Rightarrow> byte list" where
  "snapshot_bytes sha c applied s =
     header_layout (length (state_payload s)) applied c (payload_digest sha c applied s) @ state_payload s"

text \<open>The capacities fit the four-byte fields of the header.\<close>

definition capacities_fit :: "nat \<Rightarrow> nat \<Rightarrow> nat \<Rightarrow> nat \<Rightarrow> bool" where
  "capacities_fit ACCOUNTS RISK_ORDERS LEVELS ORDERS \<longleftrightarrow> u32_ok ACCOUNTS \<and> u32_ok RISK_ORDERS \<and> u32_ok LEVELS \<and> u32_ok ORDERS"

lemma encode_snapshot_bytes:
  assumes sha: "\<And>x. length (sha x) = DIGEST_SIZE" and fit: "capacities_fit ACCOUNTS RISK_ORDERS LEVELS ORDERS"
    and e: "gateway_export_state g = Some s" and s: "state_typed ACCOUNTS RISK_ORDERS LEVELS ORDERS s"
    and len: "length (state_payload s) < 2 ^ 63" and seq: "gs_expected_sequence s = Suc applied"
  shows "encode_snapshot sha ACCOUNTS RISK_ORDERS LEVELS ORDERS g applied = Some (Ok
    \<lparr>sn_bytes = snapshot_bytes sha (ACCOUNTS, RISK_ORDERS, LEVELS, ORDERS) applied s,
     sn_digest = payload_digest sha (ACCOUNTS, RISK_ORDERS, LEVELS, ORDERS) applied s, sn_applied_sequence = applied\<rparr>)"
proof -
  have c: "checked_add 64 applied 1 = Some (Suc applied)" using s seq by (simp add: checked_add_def state_typed_def u64_ok_def)
  have l: "\<not> length (state_payload s) > U64_MAX" using len by (simp add: U64_MAX_def)
  show ?thesis using fit
    by (simp add: encode_snapshot_def e encode_gateway_state_typed [OF s] seq capacities_fit_def write_capacity_ok put_capacities Let_def c l
        snapshot_digest_def put_digest sha snapshot_bytes_def payload_digest_def del: be_bytes.simps One_nat_def)
qed

lemma decode_snapshot_bytes:
  assumes sha: "\<And>x. length (sha x) = DIGEST_SIZE" and fit: "capacities_fit ACCOUNTS RISK_ORDERS LEVELS ORDERS"
    and s: "state_typed ACCOUNTS RISK_ORDERS LEVELS ORDERS s"
    and len: "length (state_payload s) < 2 ^ 63" and seq: "gs_expected_sequence s = Suc applied"
  shows "decode_snapshot sha ACCOUNTS RISK_ORDERS LEVELS ORDERS (snapshot_bytes sha (ACCOUNTS, RISK_ORDERS, LEVELS, ORDERS) applied s) =
    map_option (\<lambda>r. and_then (map_err SnGatewayState r) (\<lambda>g. Ok \<lparr>ds_gateway = g, ds_applied_sequence = applied,
      ds_digest = payload_digest sha (ACCOUNTS, RISK_ORDERS, LEVELS, ORDERS) applied s\<rparr>))
      (gateway_from_state ACCOUNTS RISK_ORDERS LEVELS ORDERS s)"
proof -
  let ?c = "(ACCOUNTS, RISK_ORDERS, LEVELS, ORDERS)"
  let ?d = "payload_digest sha ?c applied s"
  let ?h = "header_layout (length (state_payload s)) applied ?c ?d"
  have d: "length ?d = DIGEST_SIZE" "length (replicate DIGEST_SIZE (0 :: byte)) = DIGEST_SIZE" by (simp_all add: payload_digest_def sha)
  have h: "length ?h = 96" using length_header_layout [OF d(1)] by (simp add: HEADER_SIZE_def)
  have caps: "capacities_differ ?h [(36, ACCOUNTS), (40, RISK_ORDERS), (44, LEVELS), (48, ORDERS)] = Ok False"
    using fit by (simp only: capacities_differ_iff [OF h] header_layout_fields [OF d(1)] capacities_fit_def simp_thms)
  have dig: "snapshot_digest sha ?h (state_payload s) = ?d"
    by (simp add: snapshot_digest_def put_digest d) (simp add: payload_digest_def)
  have pay: "decode_gateway_state ACCOUNTS RISK_ORDERS LEVELS ORDERS (state_payload s) = Ok s"
    using decode_gateway_state_iff [OF len] s by blast
  have "applied + 1 < 2 ^ 64" using s seq by (simp add: state_typed_def u64_ok_def)
  then have nums: "from_be (be_bytes 8 applied) = applied" "from_be (be_bytes 8 (length (state_payload s))) = length (state_payload s)"
    "checked_add 64 applied 1 = Some (Suc applied)" "checked_add 64 HEADER_SIZE (length (state_payload s)) = Some (96 + length (state_payload s))"
    using len by (simp_all add: from_be_be_bytes checked_add_def HEADER_SIZE_def del: be_bytes.simps)
  have small: "from_be (be_bytes 2 FORMAT_VERSION) = FORMAT_VERSION" "from_be (be_bytes 2 HEADER_SIZE) = HEADER_SIZE"
    "from_be (be_bytes 2 HASH_ALGORITHM_SHA256) = HASH_ALGORITHM_SHA256" "from_be (be_bytes 2 DIGEST_SIZE) = DIGEST_SIZE"
    by (simp_all add: from_be_be_bytes FORMAT_VERSION_def HEADER_SIZE_def HASH_ALGORITHM_SHA256_def DIGEST_SIZE_def del: be_bytes.simps)
  have flags: "from_be (replicate 4 (0 :: byte)) = 0" by (simp add: from_be_def numeral_eq_Suc)
  have th: "take HEADER_SIZE (?h @ state_payload s) = ?h" "drop HEADER_SIZE (?h @ state_payload s) = state_payload s"
    "length (?h @ state_payload s) = 96 + length (state_payload s)" using h by (simp_all add: HEADER_SIZE_def)
  show ?thesis
    unfolding snapshot_bytes_def decode_snapshot_def Let_def th header_layout_fields [OF d(1)] small flags nums caps dig pay
    by (simp add: HEADER_SIZE_def seq)
qed

lemma from_be_eq: "from_be bs = v \<Longrightarrow> length bs = n \<Longrightarrow> bs = be_bytes n v"
  using be_bytes_from_be [of bs] by simp

lemma be_bytes_zero: "be_bytes n 0 = replicate n 0"
  by (induction n) (simp_all add: replicate_append_same)

text \<open>What the checks of the header say of its bytes.\<close>

lemma header_checked:
  assumes h: "length h = 96" and fields: "subslice 0 8 h = SNAPSHOT_MAGIC" "from_be (subslice 8 10 h) = FORMAT_VERSION"
      "from_be (subslice 10 12 h) = HEADER_SIZE" "from_be (subslice 12 16 h) = 0" "from_be (subslice 16 18 h) = HASH_ALGORITHM_SHA256"
      "from_be (subslice 18 20 h) = DIGEST_SIZE"
    and caps: "subslice 36 52 h = encode_counts c" and pad: "\<not> (\<exists>b \<in> set (drop 84 h). b \<noteq> 0)"
  shows "h = header_layout (from_be (subslice 20 28 h)) (from_be (subslice 28 36 h)) c (subslice 52 84 h)"
proof -
  have "subslice 12 16 h = be_bytes 4 0" by (rule from_be_eq [OF fields(4)]) (simp add: h)
  then have "subslice 12 16 h = replicate 4 0" by (simp only: be_bytes_zero)
  moreover have "subslice 8 10 h = be_bytes 2 FORMAT_VERSION" "subslice 10 12 h = be_bytes 2 HEADER_SIZE"
    "subslice 16 18 h = be_bytes 2 HASH_ALGORITHM_SHA256" "subslice 18 20 h = be_bytes 2 DIGEST_SIZE"
    "subslice 20 28 h = be_bytes 8 (from_be (subslice 20 28 h))" "subslice 28 36 h = be_bytes 8 (from_be (subslice 28 36 h))"
    by (rule from_be_eq, simp add: fields, simp add: h)+
  moreover have "drop 84 h = replicate 12 0" using h pad by (intro replicate_eqI) auto
  ultimately show ?thesis using header_split [OF h] unfolding header_layout_def by (metis caps fields(1))
qed

lemma decode_snapshot_accepts:
  assumes sha: "\<And>x. length (sha x) = DIGEST_SIZE" and len: "length bytes < 2 ^ 63"
    and d: "decode_snapshot sha ACCOUNTS RISK_ORDERS LEVELS ORDERS bytes = Some (Ok d)"
  obtains s where "capacities_fit ACCOUNTS RISK_ORDERS LEVELS ORDERS" "state_typed ACCOUNTS RISK_ORDERS LEVELS ORDERS s"
    "gs_expected_sequence s = Suc (ds_applied_sequence d)" "length (state_payload s) < 2 ^ 63"
    "bytes = snapshot_bytes sha (ACCOUNTS, RISK_ORDERS, LEVELS, ORDERS) (ds_applied_sequence d) s"
    "ds_digest d = payload_digest sha (ACCOUNTS, RISK_ORDERS, LEVELS, ORDERS) (ds_applied_sequence d) s"
    "gateway_from_state ACCOUNTS RISK_ORDERS LEVELS ORDERS s = Some (Ok (ds_gateway d))"
proof -
  define h where "h = take HEADER_SIZE bytes"
  define p where "p = drop HEADER_SIZE bytes"
  let ?c = "(ACCOUNTS, RISK_ORDERS, LEVELS, ORDERS)"
  note d' = d [unfolded decode_snapshot_def Let_def, folded h_def p_def]
  from d' have size: "\<not> length bytes < HEADER_SIZE" by (auto split: if_splits)
  then have h: "length h = 96" by (simp add: h_def HEADER_SIZE_def)
  from d' obtain total_len where f: "subslice 0 8 h = SNAPSHOT_MAGIC" "from_be (subslice 8 10 h) = FORMAT_VERSION"
      "from_be (subslice 10 12 h) = HEADER_SIZE" "from_be (subslice 12 16 h) = 0" "from_be (subslice 16 18 h) = HASH_ALGORITHM_SHA256"
      "from_be (subslice 18 20 h) = DIGEST_SIZE" "checked_add 64 HEADER_SIZE (from_be (subslice 20 28 h)) = Some total_len" "length bytes = total_len"
    by (auto split: if_splits option.split_asm)
  note d2 = d' [unfolded f(7), simplified size f(1-6,8) if_False simp_thms option.case if_True]
  from d2 have caps: "capacities_differ h [(36, ACCOUNTS), (40, RISK_ORDERS), (44, LEVELS), (48, ORDERS)] = Ok False"
    and pad: "\<not> (\<exists>b \<in> set (drop 84 h). b \<noteq> 0)"
    and dig: "snapshot_digest sha h p = subslice DIGEST_OFFSET (DIGEST_OFFSET + DIGEST_SIZE) h"
    by (auto split: if_splits result.split_asm)
  from d2 caps pad dig obtain s where s: "decode_gateway_state ACCOUNTS RISK_ORDERS LEVELS ORDERS p = Ok s"
    "checked_add 64 (from_be (subslice 28 36 h)) 1 = Some (gs_expected_sequence s)"
    "ds_applied_sequence d = from_be (subslice 28 36 h)" "ds_digest d = subslice DIGEST_OFFSET (DIGEST_OFFSET + DIGEST_SIZE) h"
    "gateway_from_state ACCOUNTS RISK_ORDERS LEVELS ORDERS s = Some (Ok (ds_gateway d))"
    by (auto split: if_splits result.split_asm option.split_asm simp: and_then_Ok_iff)
  have len_p: "length p < 2 ^ 63" using len by (simp add: p_def)
  have pay: "state_typed ACCOUNTS RISK_ORDERS LEVELS ORDERS s" "p = state_payload s" using s(1) decode_gateway_state_iff [OF len_p] by blast+
  have "from_be (subslice 20 28 h) = length p" using f(7,8) by (auto simp: p_def checked_add_def split: if_splits)
  moreover have "subslice 36 52 h = encode_counts ?c" using caps unfolding capacities_differ_iff [OF h] by blast
  ultimately have lay: "h = header_layout (length p) (ds_applied_sequence d) ?c (ds_digest d)"
    using header_checked [OF h f(1-6) _ pad, of ?c] by (simp add: s(3,4) DIGEST_OFFSET_def DIGEST_SIZE_def)
  have dl: "length (ds_digest d) = DIGEST_SIZE" using h by (simp add: s(4) DIGEST_OFFSET_def DIGEST_SIZE_def)
  have digest: "ds_digest d = payload_digest sha ?c (ds_applied_sequence d) s"
  proof -
    have "ds_digest d = snapshot_digest sha (header_layout (length p) (ds_applied_sequence d) ?c (ds_digest d)) p"
      using dig s(4) lay by metis
    then show ?thesis using put_digest [OF length_replicate dl] by (metis snapshot_digest_def payload_digest_def pay(2))
  qed
  have "bytes = h @ p" by (simp add: h_def p_def)
  with lay pay(2) digest have "bytes = snapshot_bytes sha ?c (ds_applied_sequence d) s" by (simp add: snapshot_bytes_def)
  moreover have "capacities_fit ACCOUNTS RISK_ORDERS LEVELS ORDERS" using caps unfolding capacities_differ_iff [OF h] capacities_fit_def by blast
  moreover have "gs_expected_sequence s = Suc (ds_applied_sequence d)" using s(2,3) by (auto simp: checked_add_def split: if_splits)
  ultimately show thesis using that pay digest s(5) len_p by blast
qed

section \<open>Snapshots of gateways\<close>

lemma state_typed_gateway: "state_typed ACCOUNTS RISK_ORDERS LEVELS ORDERS s \<Longrightarrow> gateway_state_typed LEVELS ORDERS s"
proof -
  assume s: "state_typed ACCOUNTS RISK_ORDERS LEVELS ORDERS s"
  have "length (bls_orders l) = ORDERS" if "level_state_typed ORDERS l" for l
    using that unfolding level_state_typed_def by (metis le_add_diff_inverse length_append length_replicate)
  with s have "length (bls_orders l) = ORDERS" if "l \<in> set (used_bids s @ used_asks s) \<or> l = empty_book_level_state ORDERS" for l
    using that by (auto simp: state_typed_def list_all_iff empty_book_level_state_def)
  moreover have "set (bs_bids (gs_book s) @ bs_asks (gs_book s)) \<subseteq> set (used_bids s @ used_asks s) \<union> {empty_book_level_state ORDERS}"
  proof -
    have "bs_bids (gs_book s) = used_bids s @ replicate (LEVELS - bs_bid_level_count (gs_book s)) (empty_book_level_state ORDERS)"
      "bs_asks (gs_book s) = used_asks s @ replicate (LEVELS - bs_ask_level_count (gs_book s)) (empty_book_level_state ORDERS)"
      using s unfolding state_typed_def by blast+
    from arg_cong [OF this(1), of set] arg_cong [OF this(2), of set] show ?thesis by (auto split: if_splits)
  qed
  ultimately have "book_state_shaped LEVELS ORDERS (gs_book s)" using s unfolding book_state_shaped_def state_typed_def by blast
  then show ?thesis using s by (simp add: gateway_state_typed_def risk_state_typed_def state_typed_def list_all_iff)
qed

lemma state_payload_fits:
  "capacities_ok ACCOUNTS RISK_ORDERS LEVELS ORDERS \<Longrightarrow> state_typed ACCOUNTS RISK_ORDERS LEVELS ORDERS s \<Longrightarrow> length (state_payload s) < 2 ^ 63"
  using state_payload_short by fastforce

lemma decode_snapshot_total:
  assumes cap: "capacities_ok ACCOUNTS RISK_ORDERS LEVELS ORDERS" and len: "length bytes < 2 ^ 63"
  shows "decode_snapshot sha ACCOUNTS RISK_ORDERS LEVELS ORDERS bytes \<noteq> None"
proof -
  have len': "length (drop HEADER_SIZE bytes) < 2 ^ 63" using len by simp
  have "gateway_from_state ACCOUNTS RISK_ORDERS LEVELS ORDERS s \<noteq> None"
    if "decode_gateway_state ACCOUNTS RISK_ORDERS LEVELS ORDERS (drop HEADER_SIZE bytes) = Ok s" for s
    using that decode_gateway_state_iff [OF len'] gateway_from_state_total [OF cap state_typed_gateway] by blast
  then show ?thesis by (auto simp: decode_snapshot_def Let_def split: option.splits result.splits)
qed

lemma demo_state_typed: "state_typed 2 3 1 1 demo_gateway_state"
  by (simp add: state_typed_def demo_gateway_state_def demo_book_state_def demo_risk_state_def state_counts_def counts_ok_def used_bids_def
      used_asks_def level_state_typed_def used_orders_def order_state_typed_def account_state_typed_def reservation_state_typed_def
      demo_limits_def limits_fit_def in_range_i_def u64_ok_def u32_ok_def i64_ok_def)

lemma demo_restored:
  obtains g where "gw_sound 2 3 1 1 g" "gateway_export_state g = Some demo_gateway_state" "open_orders_within g"
    "gateway_from_state 2 3 1 1 demo_gateway_state = Some (Ok g)"
proof -
  obtain g where g: "gateway_from_state 2 3 1 1 demo_gateway_state = Some (Ok g)" using demo_gateway_state_accepted by blast
  have "capacities_ok 2 3 1 1" by (simp add: capacities_ok_def)
  from gateway_restored [OF this demo_gateway_state_typed g] g that show thesis by (auto simp: gw_sound_def)
qed

text \<open>The snapshot of a concrete state, under a constant hash of the right length.\<close>

lemma demo_snapshot_short: "length (snapshot_bytes (\<lambda>_. replicate 32 0) (2, 3, 1, 1) 1 demo_gateway_state) < 2 ^ 63"
  and demo_snapshot_decodes: "decode_snapshot (\<lambda>_. replicate 32 0) 2 3 1 1 (snapshot_bytes (\<lambda>_. replicate 32 0) (2, 3, 1, 1) 1 demo_gateway_state) =
    map_option (\<lambda>r. and_then (map_err SnGatewayState r) (\<lambda>g. Ok \<lparr>ds_gateway = g, ds_applied_sequence = 1,
      ds_digest = payload_digest (\<lambda>_. replicate 32 0) (2, 3, 1, 1) 1 demo_gateway_state\<rparr>)) (gateway_from_state 2 3 1 1 demo_gateway_state)"
proof -
  have cap: "capacities_ok 2 3 1 1" by (simp add: capacities_ok_def)
  have fit: "capacities_fit 2 3 1 1" by (simp add: capacities_fit_def u32_ok_def)
  have seq: "gs_expected_sequence demo_gateway_state = Suc 1" by (simp add: demo_gateway_state_def)
  note short = state_payload_short [OF cap demo_state_typed]
  then show "length (snapshot_bytes (\<lambda>_. replicate 32 0) (2, 3, 1, 1) 1 demo_gateway_state) < 2 ^ 63"
    using length_header_layout [of "payload_digest (\<lambda>_. replicate 32 0) (2, 3, 1, 1) 1 demo_gateway_state"]
    by (simp add: snapshot_bytes_def payload_digest_def DIGEST_SIZE_def HEADER_SIZE_def)
  show "decode_snapshot (\<lambda>_. replicate 32 0) 2 3 1 1 (snapshot_bytes (\<lambda>_. replicate 32 0) (2, 3, 1, 1) 1 demo_gateway_state) =
    map_option (\<lambda>r. and_then (map_err SnGatewayState r) (\<lambda>g. Ok \<lparr>ds_gateway = g, ds_applied_sequence = 1,
      ds_digest = payload_digest (\<lambda>_. replicate 32 0) (2, 3, 1, 1) 1 demo_gateway_state\<rparr>)) (gateway_from_state 2 3 1 1 demo_gateway_state)"
    by (rule decode_snapshot_bytes [OF _ fit demo_state_typed state_payload_fits [OF cap demo_state_typed] seq]) (simp add: DIGEST_SIZE_def)
qed

text \<open>
  C25: snapshots round trip. For a gateway that keeps its invariant and exports well-typed fields,
  cut at the sequence number it applied last, \<open>encode_snapshot\<close> gives bytes from which \<open>decode_snapshot\<close>
  restores a gateway with the same exported state, the same cut and the digest of the snapshot, whatever
  the 32-byte hash; only a gateway with an open order outside its account's limits is refused, with
  \<open>OrderLimit\<close>.
\<close>
theorem snapshot_roundtrip:
  assumes sha: "\<forall>x. length (sha x) = DIGEST_SIZE" and fit: "capacities_fit ACCOUNTS RISK_ORDERS LEVELS ORDERS"
    and g: "gw_sound ACCOUNTS RISK_ORDERS LEVELS ORDERS g" and e: "gateway_export_state g = Some s"
    and s: "state_typed ACCOUNTS RISK_ORDERS LEVELS ORDERS s" and seq: "gw_expected_sequence g = applied + 1"
  shows "\<exists>snapshot. encode_snapshot sha ACCOUNTS RISK_ORDERS LEVELS ORDERS g applied = Some (Ok snapshot) \<and>
    (if open_orders_within g
     then \<exists>d. decode_snapshot sha ACCOUNTS RISK_ORDERS LEVELS ORDERS (sn_bytes snapshot) = Some (Ok d) \<and>
       gateway_export_state (ds_gateway d) = Some s \<and> ds_applied_sequence d = applied \<and> ds_digest d = sn_digest snapshot
     else decode_snapshot sha ACCOUNTS RISK_ORDERS LEVELS ORDERS (sn_bytes snapshot) = Some (Err (SnGatewayState GseOrderLimit)))"
proof -
  have cap: "capacities_ok ACCOUNTS RISK_ORDERS LEVELS ORDERS" by (rule gw_sound_capacities [OF g])
  have q: "gs_expected_sequence s = Suc applied" using e seq by (auto simp: gateway_export_state_def split: Option.bind_split_asm)
  note len = state_payload_fits [OF cap s]
  from gateway_export_restore [of g ACCOUNTS RISK_ORDERS LEVELS ORDERS] g e have "if open_orders_within g
     then \<exists>g'. gateway_from_state ACCOUNTS RISK_ORDERS LEVELS ORDERS s = Some (Ok g')
     else gateway_from_state ACCOUNTS RISK_ORDERS LEVELS ORDERS s = Some (Err GseOrderLimit)" by (auto simp: gw_sound_def)
  then show ?thesis
    using encode_snapshot_bytes [OF _ fit e s len q, of sha] decode_snapshot_bytes [OF _ fit s len q, of sha] sha
      gateway_restored(4) [OF cap state_typed_gateway [OF s]]
    by (fastforce split: if_splits)
qed

theorem snapshot_roundtrip_witness:
  "\<exists>g snapshot d. gateway_export_state g = Some demo_gateway_state \<and>
     encode_snapshot (\<lambda>_. replicate 32 0) 2 3 1 1 g 1 = Some (Ok snapshot) \<and>
     decode_snapshot (\<lambda>_. replicate 32 0) 2 3 1 1 (sn_bytes snapshot) = Some (Ok d) \<and>
     gateway_export_state (ds_gateway d) = Some demo_gateway_state \<and> ds_applied_sequence d = 1"
proof -
  obtain g where g: "gw_sound 2 3 1 1 g" "gateway_export_state g = Some demo_gateway_state" "open_orders_within g"
    by (rule demo_restored)
  have "gw_expected_sequence g = 1 + 1"
    using g(2) by (auto simp: gateway_export_state_def demo_gateway_state_def split: Option.bind_split_asm)
  from snapshot_roundtrip [of "\<lambda>_. replicate 32 0", OF _ _ g(1,2) demo_state_typed this] g show ?thesis
    by (auto simp: DIGEST_SIZE_def capacities_fit_def u32_ok_def)
qed

text \<open>
  C26: decoding is total and canonical. On any bytes that fit in memory \<open>decode_snapshot\<close> does not panic,
  and what it accepts is the one snapshot of the gateway it restores: that gateway keeps the full
  invariant, its open orders are within their limits, and encoding it at the decoded cut gives back the
  very bytes and digest.
\<close>
theorem snapshot_canonical:
  assumes sha: "\<forall>x. length (sha x) = DIGEST_SIZE" and cap: "capacities_ok ACCOUNTS RISK_ORDERS LEVELS ORDERS"
    and len: "length bytes < 2 ^ 63"
  shows "case decode_snapshot sha ACCOUNTS RISK_ORDERS LEVELS ORDERS bytes of
      None \<Rightarrow> False
    | Some (Err e) \<Rightarrow> True
    | Some (Ok d) \<Rightarrow> gw_inv (ds_gateway d) \<and> gw_sequenced (ds_gateway d) \<and> open_orders_within (ds_gateway d) \<and>
        encode_snapshot sha ACCOUNTS RISK_ORDERS LEVELS ORDERS (ds_gateway d) (ds_applied_sequence d) =
          Some (Ok \<lparr>sn_bytes = bytes, sn_digest = ds_digest d, sn_applied_sequence = ds_applied_sequence d\<rparr>)"
proof -
  have sha': "\<And>x. length (sha x) = DIGEST_SIZE" using sha by blast
  note total = decode_snapshot_total [OF cap len, of sha]
  show ?thesis
  proof (cases "decode_snapshot sha ACCOUNTS RISK_ORDERS LEVELS ORDERS bytes")
    case (Some r)
    show ?thesis
    proof (cases r)
      case (Ok d)
      with Some have "decode_snapshot sha ACCOUNTS RISK_ORDERS LEVELS ORDERS bytes = Some (Ok d)" by simp
      from decode_snapshot_accepts [OF sha' len this] obtain s where
        s: "capacities_fit ACCOUNTS RISK_ORDERS LEVELS ORDERS" "state_typed ACCOUNTS RISK_ORDERS LEVELS ORDERS s"
          "gs_expected_sequence s = Suc (ds_applied_sequence d)" "length (state_payload s) < 2 ^ 63"
          "bytes = snapshot_bytes sha (ACCOUNTS, RISK_ORDERS, LEVELS, ORDERS) (ds_applied_sequence d) s"
          "ds_digest d = payload_digest sha (ACCOUNTS, RISK_ORDERS, LEVELS, ORDERS) (ds_applied_sequence d) s"
          "gateway_from_state ACCOUNTS RISK_ORDERS LEVELS ORDERS s = Some (Ok (ds_gateway d))" by blast
      note g = gateway_restored [OF cap state_typed_gateway [OF s(2)] s(7)]
      with encode_snapshot_bytes [OF sha' s(1) g(4) s(2,4,3)] Some Ok s(5,6) show ?thesis by simp
    qed (use Some in simp)
  qed (use total in simp)
qed

theorem snapshot_canonical_witness:
  "\<exists>bytes d. decode_snapshot (\<lambda>_. replicate 32 0) 2 3 1 1 bytes = Some (Ok d) \<and> gw_inv (ds_gateway d) \<and>
     encode_snapshot (\<lambda>_. replicate 32 0) 2 3 1 1 (ds_gateway d) (ds_applied_sequence d) =
       Some (Ok \<lparr>sn_bytes = bytes, sn_digest = ds_digest d, sn_applied_sequence = ds_applied_sequence d\<rparr>)"
proof -
  have sha: "\<forall>x :: byte list. length (replicate 32 (0 :: byte)) = DIGEST_SIZE" by (simp add: DIGEST_SIZE_def)
  have cap: "capacities_ok 2 3 1 1" by (simp add: capacities_ok_def)
  obtain g where "gateway_from_state 2 3 1 1 demo_gateway_state = Some (Ok g)" using demo_gateway_state_accepted by blast
  then obtain d where "decode_snapshot (\<lambda>_. replicate 32 0) 2 3 1 1 (snapshot_bytes (\<lambda>_. replicate 32 0) (2, 3, 1, 1) 1 demo_gateway_state) =
      Some (Ok d)" using demo_snapshot_decodes by auto
  with snapshot_canonical [OF sha cap demo_snapshot_short] show ?thesis by auto
qed

end
