(* ===== verification/Ring.thy ===== *)
theory Ring
  imports Prelude
begin

text \<open>
  The single-producer single-consumer ring of \<open>crates/hft-spsc/src/lib.rs\<close>. Cursors are 64-bit words
  that wrap; a slot is uninitialized (\<open>None\<close>) or holds a value. An operation is \<open>None\<close> when it breaks
  the safety contract of an unsafe slot access: writing a slot that still holds a value, reading or
  dropping one that holds none, or indexing outside the array. The sequential operations come first,
  then the same operations cut at their atomic accesses, for a producer and a consumer thread.
\<close>

unbundle bit_operations_syntax

section \<open>Slots\<close>

definition slot_write :: "'a option list \<Rightarrow> nat \<Rightarrow> 'a \<Rightarrow> 'a option list option" where
  "slot_write slots i v =
     (case nth_opt slots i of Some None \<Rightarrow> Some (slots[i := Some v]) | _ \<Rightarrow> None)"

definition slot_read :: "'a option list \<Rightarrow> nat \<Rightarrow> ('a option list \<times> 'a) option" where
  "slot_read slots i =
     (case nth_opt slots i of Some (Some v) \<Rightarrow> Some (slots[i := None], v) | _ \<Rightarrow> None)"

text \<open>Dropping a value in place, with the value dropped.\<close>

definition slot_drop :: "'a option list \<Rightarrow> nat \<Rightarrow> ('a option list \<times> 'a) option" where
  "slot_drop slots i =
     (case nth_opt slots i of Some (Some v) \<Rightarrow> Some (slots[i := None], v) | _ \<Rightarrow> None)"

section \<open>The queue\<close>

record 'a SpscQueue =
  sq_head :: "64 word"
  sq_tail :: "64 word"
  sq_slots :: "'a option list"

datatype QueueConfigError = CapacityMustBePowerOfTwo

fun is_power_of_two :: "nat \<Rightarrow> bool" where
  "is_power_of_two n = (if n \<le> 1 then n = 1 else even n \<and> is_power_of_two (n div 2))"

declare is_power_of_two.simps [simp del]

definition spsc_try_new :: "nat \<Rightarrow> ('a SpscQueue, QueueConfigError) result" where
  "spsc_try_new N =
     (if \<not> is_power_of_two N then Err CapacityMustBePowerOfTwo
      else Ok \<lparr>sq_head = 0, sq_tail = 0, sq_slots = replicate N None\<rparr>)"

definition spsc_capacity :: "'a SpscQueue \<Rightarrow> nat" where
  "spsc_capacity q = length (sq_slots q)"

text \<open>The slot of a position: \<open>position & (N - 1)\<close>.\<close>

definition slot_index :: "'a SpscQueue \<Rightarrow> 64 word \<Rightarrow> nat" where
  "slot_index q position = unat (position AND (word_of_nat (spsc_capacity q) - 1))"

record Producer =
  pr_tail :: "64 word"
  pr_cached_head :: "64 word"

record Consumer =
  cs_head :: "64 word"
  cs_cached_tail :: "64 word"

definition spsc_split :: "'a SpscQueue \<Rightarrow> Producer \<times> Consumer" where
  "spsc_split q = (\<lparr>pr_tail = sq_tail q, pr_cached_head = sq_head q\<rparr>, \<lparr>cs_head = sq_head q, cs_cached_tail = sq_tail q\<rparr>)"

definition ring_full :: "'a SpscQueue \<Rightarrow> Producer \<Rightarrow> bool" where
  "ring_full q p \<longleftrightarrow> pr_tail p - pr_cached_head p = word_of_nat (spsc_capacity q)"

definition push_impl :: "'a SpscQueue \<Rightarrow> Producer \<Rightarrow> 'a \<Rightarrow> ('a SpscQueue \<times> Producer \<times> (unit, 'a) result) option" where
  "push_impl q p value =
     (let p = (if ring_full q p then p\<lparr>pr_cached_head := sq_head q\<rparr> else p) in
      if ring_full q p then Some (q, p, Err value)
      else do {
        slots \<leftarrow> slot_write (sq_slots q) (slot_index q (pr_tail p)) value;
        let p = p\<lparr>pr_tail := pr_tail p + 1\<rparr>;
        Some (q\<lparr>sq_slots := slots, sq_tail := pr_tail p\<rparr>, p, Ok ())
      })"

definition pop_impl :: "'a SpscQueue \<Rightarrow> Consumer \<Rightarrow> ('a SpscQueue \<times> Consumer \<times> 'a option) option" where
  "pop_impl q c =
     (let c = (if cs_head c = cs_cached_tail c then c\<lparr>cs_cached_tail := sq_tail q\<rparr> else c) in
      if cs_head c = cs_cached_tail c then Some (q, c, None)
      else do {
        (slots, value) \<leftarrow> slot_read (sq_slots q) (slot_index q (cs_head c));
        let c = c\<lparr>cs_head := cs_head c + 1\<rparr>;
        Some (q\<lparr>sq_slots := slots, sq_head := cs_head c\<rparr>, c, Some value)
      })"

definition has_capacity :: "'a SpscQueue \<Rightarrow> Producer \<Rightarrow> Producer \<times> bool" where
  "has_capacity q p =
     (let p = (if ring_full q p then p\<lparr>pr_cached_head := sq_head q\<rparr> else p) in (p, \<not> ring_full q p))"

definition try_push :: "'a SpscQueue \<Rightarrow> Producer \<Rightarrow> 'a \<Rightarrow> ('a SpscQueue \<times> Producer \<times> (unit, 'a) result) option" where
  "try_push q p value = push_impl q p value"

definition try_pop :: "'a SpscQueue \<Rightarrow> Consumer \<Rightarrow> ('a SpscQueue \<times> Consumer \<times> 'a option) option" where
  "try_pop q c = pop_impl q c"

section \<open>Draining and dropping\<close>

lemma drain_measure: "(position :: 64 word) \<noteq> stop \<Longrightarrow> unat (stop - (position + 1)) < unat (stop - position)"
proof -
  assume "position \<noteq> stop"
  then have "stop - position \<noteq> 0" by simp
  then have "unat (stop - position - 1) = unat (stop - position) - 1" "0 < unat (stop - position)"
    by (auto simp: unat_minus_one unat_gt_0)
  then show ?thesis by (simp add: diff_diff_eq)
qed

function into_inner_loop :: "'a SpscQueue \<Rightarrow> 64 word \<Rightarrow> 'a list \<Rightarrow> ('a SpscQueue \<times> 'a list) option" where
  "into_inner_loop q stop drained =
     (if sq_head q = stop then Some (q, drained)
      else do {
        (slots, value) \<leftarrow> slot_read (sq_slots q) (slot_index q (sq_head q));
        into_inner_loop (q\<lparr>sq_head := sq_head q + 1, sq_slots := slots\<rparr>) stop (drained @ [value])
      })"
  by pat_completeness auto
termination
  by (relation "measure (\<lambda>(q, stop, drained). unat (stop - sq_head q))") (auto simp: drain_measure)

declare into_inner_loop.simps [simp del]

function drop_loop :: "'a SpscQueue \<Rightarrow> 64 word \<Rightarrow> 'a list \<Rightarrow> ('a SpscQueue \<times> 'a list) option" where
  "drop_loop q position dropped =
     (if position = sq_tail q then Some (q, dropped)
      else do {
        (slots, value) \<leftarrow> slot_drop (sq_slots q) (slot_index q position);
        drop_loop (q\<lparr>sq_slots := slots\<rparr>) (position + 1) (dropped @ [value])
      })"
  by pat_completeness auto
termination
  by (relation "measure (\<lambda>(q, position, dropped). unat (sq_tail q - position))") (auto simp: drain_measure)

declare drop_loop.simps [simp del]

text \<open>The queue's destructor: the queue as it is freed, and the values dropped, in order.\<close>

definition drop_queue :: "'a SpscQueue \<Rightarrow> ('a SpscQueue \<times> 'a list) option" where
  "drop_queue q = drop_loop q (sq_head q) []"

text \<open>
  \<open>into_inner\<close> takes the queue by value, so its destructor runs on what the loop leaves: the queue as it is
  freed, the values dropped with it, and the values returned.
\<close>

definition into_inner :: "'a SpscQueue \<Rightarrow> ('a SpscQueue \<times> 'a list \<times> 'a list) option" where
  "into_inner q =
     do {
       (q, drained) \<leftarrow> into_inner_loop q (sq_tail q) [];
       (q, dropped) \<leftarrow> drop_queue q;
       Some (q, dropped, drained)
     }"

end
