(* ===== verification/RingProps.thy ===== *)
theory RingProps
  imports Ring
begin

text \<open>
  Correctness of the ring: the slots between the two cursors hold the queue's contents, whatever the
  cursors' wrap-around; used sequentially the ring is a bounded FIFO queue, stated as a locale and
  interpreted on the ring's own operations; and with the two endpoints on two threads, in every
  interleaving of their atomic accesses and with arbitrarily stale views of the peer's cursor, no
  unsafe access breaks its contract and values leave in the order they were pushed.
\<close>

section \<open>Positions\<close>

text \<open>\<open>filled slots i j vs\<close>: exactly the positions from \<open>i\<close> to \<open>j\<close> hold the values \<open>vs\<close>.\<close>

definition filled :: "'a option list \<Rightarrow> nat \<Rightarrow> nat \<Rightarrow> 'a list \<Rightarrow> bool" where
  "filled slots i j vs \<longleftrightarrow> i \<le> j \<and> j \<le> i + length slots \<and> length vs = j - i \<and>
     (\<forall>n. i \<le> n \<longrightarrow> n < j \<longrightarrow> slots ! (n mod length slots) = Some (vs ! (n - i))) \<and>
     (\<forall>n. j \<le> n \<longrightarrow> n < i + length slots \<longrightarrow> slots ! (n mod length slots) = None)"

definition capacity_ok :: "nat \<Rightarrow> bool" where
  "capacity_ok N \<longleftrightarrow> (\<exists>k \<le> 63. N = 2 ^ k)"

lemma capacity_bounds: "capacity_ok N \<Longrightarrow> 0 < N \<and> N < 2 ^ 64"
proof -
  assume "capacity_ok N"
  then obtain k where k: "k \<le> 63" "N = 2 ^ k" unfolding capacity_ok_def by blast
  have "(2::nat) ^ k \<le> 2 ^ 63" using k(1) by (intro power_increasing) auto
  with k(2) show ?thesis by simp
qed

lemma is_power_of_two_iff: "is_power_of_two n \<longleftrightarrow> (\<exists>k. n = 2 ^ k)"
proof (induction n rule: is_power_of_two.induct)
  case (1 n)
  show ?case
  proof (cases "n \<le> 1")
    case True
    then show ?thesis by (subst is_power_of_two.simps) (auto simp: le_Suc_eq intro: exI [of _ 0])
  next
    case False
    have "(even n \<and> (\<exists>k. n div 2 = 2 ^ k)) \<longleftrightarrow> (\<exists>k. n = 2 ^ k)"
    proof
      assume "even n \<and> (\<exists>k. n div 2 = 2 ^ k)"
      then obtain k where "n = 2 * 2 ^ k" by (metis dvd_mult_div_cancel)
      then show "\<exists>k. n = 2 ^ k" by (metis power_Suc)
    next
      assume "\<exists>k. n = 2 ^ k"
      then obtain k where k: "n = 2 ^ k" by blast
      with False obtain j where "k = Suc j" by (cases k) auto
      with k show "even n \<and> (\<exists>k. n div 2 = 2 ^ k)" by auto
    qed
    with False 1 show ?thesis by (subst is_power_of_two.simps) simp
  qed
qed

lemma slot_index_nat:
  assumes "capacity_ok (length (sq_slots q))"
  shows "slot_index q (word_of_nat n) = n mod length (sq_slots q)"
proof -
  from assms obtain k where k: "k \<le> 63" "length (sq_slots q) = 2 ^ k" unfolding capacity_ok_def by blast
  have "word_of_nat (2 ^ k) - 1 = (mask k :: 64 word)" by (simp add: mask_eq_exp_minus_1)
  then have "slot_index q (word_of_nat n) = unat (take_bit k (word_of_nat n :: 64 word))"
    by (simp add: slot_index_def spsc_capacity_def k(2) take_bit_eq_mask)
  also have "\<dots> = take_bit k (take_bit 64 n)" by (simp add: unsigned_take_bit_eq unsigned_of_nat)
  also have "\<dots> = take_bit k n" using k(1) by simp
  finally show ?thesis by (simp add: k(2) take_bit_eq_mod)
qed

lemma word_eq_near:
  assumes "i \<le> j" and "j - i < 2 ^ 64"
  shows "word_of_nat i = (word_of_nat j :: 64 word) \<longleftrightarrow> i = j"
proof
  assume "word_of_nat i = (word_of_nat j :: 64 word)"
  then have "(word_of_nat (j - i) :: 64 word) = 0" using assms(1) by (simp add: of_nat_diff)
  then have "(j - i) mod 2 ^ 64 = 0" by (simp add: word_of_nat_eq_0_iff dvd_imp_mod_0)
  with assms show "i = j" by simp
qed simp

lemma word_diff_capacity:
  assumes "i \<le> j" and "j \<le> i + N" and "N < 2 ^ 64"
  shows "word_of_nat j - word_of_nat i = (word_of_nat N :: 64 word) \<longleftrightarrow> j = i + N"
proof -
  have "word_of_nat j - word_of_nat i = (word_of_nat (j - i) :: 64 word)" using assms(1) by (simp add: of_nat_diff)
  moreover have "(word_of_nat (j - i) :: 64 word) = word_of_nat N \<longleftrightarrow> j - i = N"
    by (rule word_eq_near) (use assms in auto)
  ultimately show ?thesis using assms(1,2) by auto
qed

lemma mod_neq_near:
  assumes "(i::nat) < j" and "j < i + N"
  shows "i mod N \<noteq> j mod N"
proof
  assume "i mod N = j mod N"
  then have "N dvd j - i" using assms(1) by (metis less_imp_le_nat mod_eq_dvd_iff_nat)
  with assms show False by (auto dest: dvd_imp_le)
qed

lemma filled_nth_update:
  assumes "j mod length slots < length slots" and "i \<le> j" "j < i + length slots" and "i \<le> n" "n < i + length slots"
  shows "slots[j mod length slots := x] ! (n mod length slots) = (if n = j then x else slots ! (n mod length slots))"
proof (cases "n = j")
  case True
  then show ?thesis using assms(1) by simp
next
  case False
  then have "n mod length slots \<noteq> j mod length slots"
    using mod_neq_near [of n j "length slots"] mod_neq_near [of j n "length slots"] assms(2-5) by (cases "n < j") (auto dest: not_sym)
  with False show ?thesis by simp
qed

lemma filled_write:
  assumes f: "filled slots i j vs" and room: "j < i + length slots"
  shows "\<exists>slots'. slot_write slots (j mod length slots) v = Some slots' \<and> length slots' = length slots \<and> filled slots' i (j + 1) (vs @ [v])"
proof -
  let ?N = "length slots" and ?s = "slots[j mod length slots := Some v]"
  have N: "0 < ?N" and ij: "i \<le> j" using room f by (auto simp: filled_def intro: Nat.gr0I)
  then have j: "j mod ?N < ?N" by simp
  have none: "slots ! (j mod ?N) = None" using f room unfolding filled_def by blast
  have w: "slot_write slots (j mod ?N) v = Some ?s" using j none by (simp add: slot_write_def nth_opt_def)
  note upd = filled_nth_update [OF j ij room, of _ "Some v"]
  have "?s ! (n mod ?N) = Some ((vs @ [v]) ! (n - i))" if "i \<le> n" "n < j + 1" for n
    using that f room upd [of n] by (cases "n = j") (auto simp: filled_def nth_append)
  moreover have "?s ! (n mod ?N) = None" if "j + 1 \<le> n" "n < i + ?N" for n
    using that f ij upd [of n] by (auto simp: filled_def)
  ultimately have "filled ?s i (j + 1) (vs @ [v])" using f room unfolding filled_def by auto
  with w show ?thesis by simp
qed

lemma filled_read:
  assumes f: "filled slots i j vs" and some: "i < j"
  shows "\<exists>slots'. slot_read slots (i mod length slots) = Some (slots', hd vs) \<and> length slots' = length slots \<and>
    filled slots' (i + 1) j (tl vs) \<and> vs = hd vs # tl vs"
proof -
  let ?N = "length slots" and ?s = "slots[i mod length slots := None]"
  have N: "0 < ?N" and vs: "vs \<noteq> []" using some f by (auto simp: filled_def intro: Nat.gr0I)
  then have i: "i mod ?N < ?N" by simp
  have "slots ! (i mod ?N) = Some (vs ! (i - i))" using f some unfolding filled_def by blast
  then have w: "slot_read slots (i mod ?N) = Some (?s, hd vs)" using i vs by (simp add: slot_read_def nth_opt_def hd_conv_nth)
  have ii: "i < i + ?N" using N by simp
  note upd = filled_nth_update [OF i order_refl ii, of _ None]
  have "?s ! (n mod ?N) = Some (tl vs ! (n - (i + 1)))" if "i + 1 \<le> n" "n < j" for n
  proof -
    have "tl vs ! (n - (i + 1)) = vs ! (n - i)" using that f by (subst nth_tl) (auto simp: filled_def Suc_diff_Suc Suc_le_eq)
    with that f upd [of n] show ?thesis by (auto simp: filled_def)
  qed
  moreover have "?s ! (n mod ?N) = None" if "j \<le> n" "n < i + 1 + ?N" for n
  proof (cases "n = i + ?N")
    case True
    then show ?thesis using i by simp
  next
    case False
    with that f some upd [of n] show ?thesis by (auto simp: filled_def)
  qed
  ultimately have "filled ?s (i + 1) j (tl vs)" using f some unfolding filled_def by auto
  with w vs show ?thesis by simp
qed

lemma filled_new: "0 < N \<Longrightarrow> filled (replicate N None) 0 0 []"
  by (simp add: filled_def)

section \<open>Sequential use\<close>

text \<open>The ring with both endpoints, as a queue of values.\<close>

record 'a Ring =
  rg_queue :: "'a SpscQueue"
  rg_producer :: Producer
  rg_consumer :: Consumer

definition ring_rep :: "'a Ring \<Rightarrow> nat \<Rightarrow> nat \<Rightarrow> nat \<Rightarrow> nat \<Rightarrow> 'a list \<Rightarrow> bool" where
  "ring_rep r i j ch ct vs \<longleftrightarrow> capacity_ok (length (sq_slots (rg_queue r))) \<and> filled (sq_slots (rg_queue r)) i j vs \<and>
     sq_head (rg_queue r) = word_of_nat i \<and> sq_tail (rg_queue r) = word_of_nat j \<and>
     pr_tail (rg_producer r) = word_of_nat j \<and> pr_cached_head (rg_producer r) = word_of_nat ch \<and> ch \<le> i \<and>
     j \<le> ch + length (sq_slots (rg_queue r)) \<and>
     cs_head (rg_consumer r) = word_of_nat i \<and> cs_cached_tail (rg_consumer r) = word_of_nat ct \<and> i \<le> ct \<and> ct \<le> j"

definition ring_holds :: "'a Ring \<Rightarrow> 'a list \<Rightarrow> bool" where
  "ring_holds r vs \<longleftrightarrow> (\<exists>i j ch ct. ring_rep r i j ch ct vs)"

lemma ring_repI: "ring_rep r i j ch ct vs \<Longrightarrow> ring_holds r vs"
  unfolding ring_holds_def by blast

definition ring_room :: "'a Ring \<Rightarrow> nat" where
  "ring_room r = spsc_capacity (rg_queue r)"

definition ring_push :: "'a Ring \<Rightarrow> 'a \<Rightarrow> ('a Ring \<times> (unit, 'a) result) option" where
  "ring_push r v = map_option (\<lambda>(q, p, res). (r\<lparr>rg_queue := q, rg_producer := p\<rparr>, res)) (try_push (rg_queue r) (rg_producer r) v)"

definition ring_pop :: "'a Ring \<Rightarrow> ('a Ring \<times> 'a option) option" where
  "ring_pop r = map_option (\<lambda>(q, c, res). (r\<lparr>rg_queue := q, rg_consumer := c\<rparr>, res)) (try_pop (rg_queue r) (rg_consumer r))"

definition ring_has_capacity :: "'a Ring \<Rightarrow> 'a Ring \<times> bool" where
  "ring_has_capacity r = (case has_capacity (rg_queue r) (rg_producer r) of (p, ok) \<Rightarrow> (r\<lparr>rg_producer := p\<rparr>, ok))"

definition ring_new :: "nat \<Rightarrow> ('a Ring, QueueConfigError) result" where
  "ring_new N = and_then (spsc_try_new N) (\<lambda>q. Ok \<lparr>rg_queue = q, rg_producer = fst (spsc_split q), rg_consumer = snd (spsc_split q)\<rparr>)"

lemma ring_new_holds:
  assumes "capacity_ok N"
  shows "\<exists>r. ring_new N = Ok r \<and> ring_holds r [] \<and> ring_room r = N"
proof -
  have "is_power_of_two N" using assms by (auto simp: capacity_ok_def is_power_of_two_iff)
  moreover have "0 < N" using capacity_bounds [OF assms] by simp
  ultimately show ?thesis using assms filled_new [of N]
    by (auto simp: ring_new_def spsc_try_new_def spsc_split_def ring_holds_def ring_rep_def ring_room_def spsc_capacity_def
        intro!: exI [of _ 0])
qed

lemma full_iff:
  assumes "ring_rep r i j ch ct vs" and "ch \<le> c" "c \<le> i" and "pr_tail p = word_of_nat j" "pr_cached_head p = word_of_nat c"
  shows "ring_full (rg_queue r) p \<longleftrightarrow> j = c + ring_room r"
proof -
  note rep = assms(1) [unfolded ring_rep_def filled_def]
  have N: "ring_room r < 2 ^ 64" using capacity_bounds [of "ring_room r"] rep by (simp add: ring_room_def spsc_capacity_def)
  show ?thesis using word_diff_capacity [of c j "ring_room r"] rep assms(2-5) N
    by (simp add: ring_full_def ring_room_def spsc_capacity_def)
qed

text \<open>Pushing and popping at given positions: the endpoint refreshes its view only when it must.\<close>

lemma push_rep:
  assumes rep: "ring_rep r i j ch ct vs"
  shows "if j = i + ring_room r then \<exists>r'. ring_push r v = Some (r', Err v) \<and> ring_rep r' i j i ct vs \<and> ring_room r' = ring_room r
    else \<exists>r' ch'. ring_push r v = Some (r', Ok ()) \<and> ring_rep r' i (j + 1) ch' ct (vs @ [v]) \<and> ring_room r' = ring_room r"
proof -
  let ?q = "rg_queue r" and ?p = "rg_producer r"
  note R = rep [unfolded ring_rep_def]
  have j: "j \<le> i + ring_room r" "ch \<le> i" "j \<le> ch + ring_room r" using R by (auto simp: filled_def ring_room_def spsc_capacity_def)
  have full: "ring_full ?q ?p \<longleftrightarrow> j = ch + ring_room r" by (rule full_iff [OF rep]) (use R in auto)
  have full': "ring_full ?q (?p\<lparr>pr_cached_head := sq_head ?q\<rparr>) \<longleftrightarrow> j = i + ring_room r" by (rule full_iff [OF rep]) (use R in auto)
  define c where "c = (if j = ch + ring_room r then i else ch)"
  define p where "p = (if ring_full ?q ?p then ?p\<lparr>pr_cached_head := sq_head ?q\<rparr> else ?p)"
  have run: "push_impl ?q ?p v = (if ring_full ?q p then Some (?q, p, Err v)
      else Option.bind (slot_write (sq_slots ?q) (slot_index ?q (pr_tail p)) v) (\<lambda>slots.
        Some (?q\<lparr>sq_slots := slots, sq_tail := pr_tail p + 1\<rparr>, p\<lparr>pr_tail := pr_tail p + 1\<rparr>, Ok ())))"
    unfolding push_impl_def p_def Let_def by simp
  have p: "pr_tail p = word_of_nat j" "pr_cached_head p = word_of_nat c" "ring_full ?q p \<longleftrightarrow> j = i + ring_room r"
    using R full full' j by (auto simp: p_def c_def)
  have c: "c \<le> i" "j \<noteq> i + ring_room r \<Longrightarrow> j + 1 \<le> c + ring_room r" "j = i + ring_room r \<Longrightarrow> c = i"
    using j R by (auto simp: c_def ring_room_def spsc_capacity_def)
  show ?thesis
  proof (cases "j = i + ring_room r")
    case True
    then have "ring_push r v = Some (r\<lparr>rg_producer := p\<rparr>, Err v)"
      using p(3) by (simp add: ring_push_def try_push_def run)
    moreover have "ring_rep (r\<lparr>rg_producer := p\<rparr>) i j i ct vs" using R p c(3) True by (auto simp: ring_rep_def filled_def)
    ultimately show ?thesis using True by (auto simp: ring_room_def)
  next
    case False
    have "j < i + length (sq_slots ?q)" using False j by (simp add: ring_room_def spsc_capacity_def)
    with filled_write [of "sq_slots ?q" i j vs v] R obtain slots where
      s: "slot_write (sq_slots ?q) (j mod length (sq_slots ?q)) v = Some slots" "length slots = length (sq_slots ?q)"
        "filled slots i (j + 1) (vs @ [v])" by blast
    let ?p = "p\<lparr>pr_tail := pr_tail p + 1\<rparr>"
    let ?r = "r\<lparr>rg_queue := ?q\<lparr>sq_slots := slots, sq_tail := pr_tail ?p\<rparr>, rg_producer := ?p\<rparr>"
    have "ring_push r v = Some (?r, Ok ())"
      using p False s(1) R slot_index_nat [of ?q j] by (simp add: ring_push_def try_push_def run)
    moreover have "ring_rep ?r i (j + 1) c ct (vs @ [v])"
      using R p s(2,3) c(1) c(2) [OF False] by (auto simp: ring_rep_def ring_room_def spsc_capacity_def)
    ultimately show ?thesis using False s(2) by (auto simp: ring_room_def spsc_capacity_def)
  qed
qed

lemma pop_rep:
  assumes rep: "ring_rep r i j ch ct vs"
  shows "if i = j then \<exists>r'. ring_pop r = Some (r', None) \<and> ring_rep r' i j ch j vs \<and> ring_room r' = ring_room r
    else \<exists>r' ct'. ring_pop r = Some (r', Some (hd vs)) \<and> ring_rep r' (i + 1) j ch ct' (tl vs) \<and> vs \<noteq> [] \<and> ring_room r' = ring_room r"
proof -
  let ?q = "rg_queue r" and ?c = "rg_consumer r"
  note R = rep [unfolded ring_rep_def]
  have N: "length (sq_slots ?q) < 2 ^ 64" using capacity_bounds R by blast
  have ij: "i \<le> j" "j - i \<le> length (sq_slots ?q)" using R by (auto simp: filled_def)
  have e: "cs_head ?c = cs_cached_tail ?c \<longleftrightarrow> i = ct" using R word_eq_near [of i ct] N ij by auto
  have e': "cs_head ?c = sq_tail ?q \<longleftrightarrow> i = j" using R word_eq_near [of i j] N ij by auto
  define t where "t = (if i = ct then j else ct)"
  define c where "c = (if cs_head ?c = cs_cached_tail ?c then ?c\<lparr>cs_cached_tail := sq_tail ?q\<rparr> else ?c)"
  have run: "pop_impl ?q ?c = (if cs_head c = cs_cached_tail c then Some (?q, c, None)
      else Option.bind (slot_read (sq_slots ?q) (slot_index ?q (cs_head c))) (\<lambda>(slots, value).
        Some (?q\<lparr>sq_slots := slots, sq_head := cs_head c + 1\<rparr>, c\<lparr>cs_head := cs_head c + 1\<rparr>, Some value)))"
    unfolding pop_impl_def c_def Let_def by simp
  have c: "cs_head c = word_of_nat i" "cs_cached_tail c = word_of_nat t" "cs_head c = cs_cached_tail c \<longleftrightarrow> i = j"
    using R e e' ij by (auto simp: c_def t_def)
  have t: "i = j \<Longrightarrow> t = j" "i \<noteq> j \<Longrightarrow> i + 1 \<le> t" "t \<le> j" using R ij by (auto simp: t_def)
  show ?thesis
  proof (cases "i = j")
    case True
    then have "ring_pop r = Some (r\<lparr>rg_consumer := c\<rparr>, None)"
      using c(3) by (simp add: ring_pop_def try_pop_def run)
    moreover have "ring_rep (r\<lparr>rg_consumer := c\<rparr>) i j ch j vs" using R c t True by (auto simp: ring_rep_def)
    ultimately show ?thesis using True by (auto simp: ring_room_def)
  next
    case False
    with ij filled_read [of "sq_slots ?q" i j vs] R obtain slots where
      s: "slot_read (sq_slots ?q) (i mod length (sq_slots ?q)) = Some (slots, hd vs)" "length slots = length (sq_slots ?q)"
        "filled slots (i + 1) j (tl vs)" "vs = hd vs # tl vs" by auto
    let ?c = "c\<lparr>cs_head := cs_head c + 1\<rparr>"
    let ?r = "r\<lparr>rg_queue := ?q\<lparr>sq_slots := slots, sq_head := cs_head ?c\<rparr>, rg_consumer := ?c\<rparr>"
    have "ring_pop r = Some (?r, Some (hd vs))"
      using c False s(1) R slot_index_nat [of ?q i] by (simp add: ring_pop_def try_pop_def run)
    moreover have "ring_rep ?r (i + 1) j ch t (tl vs)" using R c s(2,3) t(2) [OF False] t(3) by (auto simp: ring_rep_def)
    moreover have "vs \<noteq> []" using s(4) by (metis list.distinct(1))
    ultimately show ?thesis using False s(2) by (auto simp: ring_room_def spsc_capacity_def)
  qed
qed

lemma rep_length: "ring_rep r i j ch ct vs \<Longrightarrow> length vs = j - i \<and> i \<le> j \<and> j \<le> i + ring_room r"
  by (auto simp: ring_rep_def filled_def ring_room_def spsc_capacity_def)

section \<open>The bounded queue interface\<close>

datatype 'a QueueOp = PushOp 'a | PopOp

fun queue_run ::
  "('q \<Rightarrow> 'a \<Rightarrow> ('q \<times> (unit, 'a) result) option) \<Rightarrow> ('q \<Rightarrow> ('q \<times> 'a option) option) \<Rightarrow> 'q \<Rightarrow> 'a QueueOp list
    \<Rightarrow> ('q \<times> 'a list \<times> 'a list) option" where
  "queue_run push pop q [] = Some (q, [], [])"
| "queue_run push pop q (PushOp v # ops) =
     do {
       (q, r) \<leftarrow> push q v;
       (q, accepted, popped) \<leftarrow> queue_run push pop q ops;
       Some (q, (case r of Ok _ \<Rightarrow> [v] | Err _ \<Rightarrow> []) @ accepted, popped)
     }"
| "queue_run push pop q (PopOp # ops) =
     do {
       (q, r) \<leftarrow> pop q;
       (q, accepted, popped) \<leftarrow> queue_run push pop q ops;
       Some (q, accepted, (case r of Some v \<Rightarrow> [v] | None \<Rightarrow> []) @ popped)
     }"

locale bounded_fifo =
  fixes holds :: "'q \<Rightarrow> 'a list \<Rightarrow> bool" and room :: "'q \<Rightarrow> nat"
    and push :: "'q \<Rightarrow> 'a \<Rightarrow> ('q \<times> (unit, 'a) result) option" and pop :: "'q \<Rightarrow> ('q \<times> 'a option) option"
    and probe :: "'q \<Rightarrow> 'q \<times> bool"
  assumes push_full: "holds q vs \<Longrightarrow> length vs = room q \<Longrightarrow> \<exists>q'. push q v = Some (q', Err v) \<and> holds q' vs \<and> room q' = room q"
    and push_room: "holds q vs \<Longrightarrow> length vs \<noteq> room q \<Longrightarrow> \<exists>q'. push q v = Some (q', Ok ()) \<and> holds q' (vs @ [v]) \<and> room q' = room q"
    and pop_empty: "holds q [] \<Longrightarrow> \<exists>q'. pop q = Some (q', None) \<and> holds q' [] \<and> room q' = room q"
    and pop_front: "holds q (v # vs) \<Longrightarrow> \<exists>q'. pop q = Some (q', Some v) \<and> holds q' vs \<and> room q' = room q"
    and probe_room: "holds q vs \<Longrightarrow> \<exists>q'. probe q = (q', length vs < room q) \<and> holds q' vs \<and> room q' = room q"
    and within: "holds q vs \<Longrightarrow> length vs \<le> room q"
begin

lemma run_fifo:
  assumes "holds q vs"
  shows "\<exists>q' accepted popped us. queue_run push pop q ops = Some (q', accepted, popped) \<and> vs @ accepted = popped @ us \<and>
    holds q' us \<and> room q' = room q"
  using assms
proof (induction ops arbitrary: q vs)
  case Nil
  then show ?case by auto
next
  case (Cons op ops)
  show ?case
  proof (cases op)
    case (PushOp v)
    show ?thesis
    proof (cases "length vs = room q")
      case True
      from push_full [OF Cons.prems True] obtain q1 where q1: "push q v = Some (q1, Err v)" "holds q1 vs" "room q1 = room q" by blast
      from Cons.IH [OF q1(2)] q1 show ?thesis by (auto simp: PushOp)
    next
      case False
      from push_room [OF Cons.prems False] obtain q1 where q1: "push q v = Some (q1, Ok ())" "holds q1 (vs @ [v])" "room q1 = room q" by blast
      from Cons.IH [OF q1(2)] q1 show ?thesis by (auto simp: PushOp)
    qed
  next
    case PopOp
    show ?thesis
    proof (cases vs)
      case Nil
      with pop_empty Cons.prems obtain q1 where q1: "pop q = Some (q1, None)" "holds q1 vs" "room q1 = room q" by blast
      from Cons.IH [OF q1(2)] q1 show ?thesis by (auto simp: PopOp)
    next
      case (Cons v us)
      with pop_front Cons.prems obtain q1 where q1: "pop q = Some (q1, Some v)" "holds q1 us" "room q1 = room q" by blast
      from Cons.IH [OF q1(2)] q1 Cons show ?thesis by (auto simp: PopOp)
    qed
  qed
qed

text \<open>A probe that reports room is a promise: the next push succeeds.\<close>

lemma probe_then_push:
  assumes "holds q vs" and "probe q = (q', True)"
  shows "\<exists>q''. push q' v = Some (q'', Ok ()) \<and> holds q'' (vs @ [v]) \<and> room q'' = room q"
proof -
  from probe_room [OF assms(1)] assms(2) have q': "length vs < room q" "holds q' vs" "room q' = room q" by auto
  with push_room [OF q'(2), of v] show ?thesis by simp
qed

end

interpretation ring: bounded_fifo ring_holds ring_room ring_push ring_pop ring_has_capacity
proof
  fix q :: "'a Ring" and vs v
  show "\<exists>q'. ring_push q v = Some (q', Err v) \<and> ring_holds q' vs \<and> ring_room q' = ring_room q"
    if "ring_holds q vs" "length vs = ring_room q"
  proof -
    from that(1) obtain i j ch ct where rep: "ring_rep q i j ch ct vs" unfolding ring_holds_def by blast
    with that(2) rep_length [OF rep] have "j = i + ring_room q" by auto
    with push_rep [OF rep, of v] show ?thesis by (auto dest: ring_repI)
  qed
  show "\<exists>q'. ring_push q v = Some (q', Ok ()) \<and> ring_holds q' (vs @ [v]) \<and> ring_room q' = ring_room q"
    if "ring_holds q vs" "length vs \<noteq> ring_room q"
  proof -
    from that(1) obtain i j ch ct where rep: "ring_rep q i j ch ct vs" unfolding ring_holds_def by blast
    with that(2) rep_length [OF rep] have "j \<noteq> i + ring_room q" by auto
    with push_rep [OF rep, of v] show ?thesis by (auto dest: ring_repI)
  qed
  show "\<exists>q'. ring_pop q = Some (q', None) \<and> ring_holds q' [] \<and> ring_room q' = ring_room q" if "ring_holds q []"
  proof -
    from that(1) obtain i j ch ct where rep: "ring_rep q i j ch ct []" unfolding ring_holds_def by blast
    with rep_length [OF rep] have "i = j" by simp
    with pop_rep [OF rep] show ?thesis by (auto dest: ring_repI)
  qed
  show "\<exists>q'. ring_pop q = Some (q', Some v) \<and> ring_holds q' vs \<and> ring_room q' = ring_room q" if "ring_holds q (v # vs)"
  proof -
    from that(1) obtain i j ch ct where rep: "ring_rep q i j ch ct (v # vs)" unfolding ring_holds_def by blast
    with rep_length [OF rep] have "i \<noteq> j" by auto
    with pop_rep [OF rep] show ?thesis by (auto dest: ring_repI)
  qed
  show "\<exists>q'. ring_has_capacity q = (q', length vs < ring_room q) \<and> ring_holds q' vs \<and> ring_room q' = ring_room q" if "ring_holds q vs"
  proof -
    from that obtain i j ch ct where rep: "ring_rep q i j ch ct vs" unfolding ring_holds_def by blast
    let ?q = "rg_queue q" and ?p = "rg_producer q"
    note R = rep [unfolded ring_rep_def]
    have l: "length vs = j - i" "i \<le> j" "j \<le> i + ring_room q" using rep_length [OF rep] by auto
    have full: "ring_full ?q ?p \<longleftrightarrow> j = ch + ring_room q" by (rule full_iff [OF rep]) (use R in auto)
    have full': "ring_full ?q (?p\<lparr>pr_cached_head := sq_head ?q\<rparr>) \<longleftrightarrow> j = i + ring_room q" by (rule full_iff [OF rep]) (use R in auto)
    show ?thesis
    proof (cases "ring_full ?q ?p")
      case True
      have "ring_rep (q\<lparr>rg_producer := ?p\<lparr>pr_cached_head := sq_head ?q\<rparr>\<rparr>) i j i ct vs" using R by (auto simp: ring_rep_def filled_def)
      then show ?thesis using True full' l
        by (auto simp: ring_has_capacity_def has_capacity_def Let_def ring_holds_def ring_room_def intro!: exI)
    next
      case False
      have "j \<le> ch + ring_room q" using R by (auto simp: ring_room_def spsc_capacity_def)
      with False full R l have "length vs < ring_room q" by auto
      with False that show ?thesis by (simp add: ring_has_capacity_def has_capacity_def Let_def)
    qed
  qed
  show "length vs \<le> ring_room q" if "ring_holds q vs"
    using that rep_length unfolding ring_holds_def by fastforce
qed

section \<open>Draining\<close>

lemma into_inner_filled:
  assumes "capacity_ok (length (sq_slots q))" and "filled (sq_slots q) i j vs" and "sq_head q = word_of_nat i"
  shows "\<exists>q'. into_inner_loop q (word_of_nat j) acc = Some (q', acc @ vs) \<and> filled (sq_slots q') j j [] \<and>
    length (sq_slots q') = length (sq_slots q) \<and> sq_head q' = word_of_nat j \<and> sq_tail q' = sq_tail q"
  using assms
proof (induction vs arbitrary: q i acc)
  case Nil
  then have "i = j" by (simp add: filled_def)
  with Nil show ?case by (subst into_inner_loop.simps) auto
next
  case (Cons v vs)
  then have ij: "i < j" "j - i \<le> length (sq_slots q)" by (auto simp: filled_def)
  from filled_read [OF Cons.prems(2) ij(1)] obtain slots where
    s: "slot_read (sq_slots q) (i mod length (sq_slots q)) = Some (slots, v)" "length slots = length (sq_slots q)"
      "filled slots (i + 1) j vs" by auto
  have ne: "sq_head q \<noteq> word_of_nat j" using word_eq_near [of i j] ij capacity_bounds [OF Cons.prems(1)] Cons.prems(3) by auto
  let ?q = "q\<lparr>sq_head := sq_head q + 1, sq_slots := slots\<rparr>"
  from Cons.IH [of ?q "i + 1" "acc @ [v]"] s Cons.prems obtain q' where
    "into_inner_loop ?q (word_of_nat j) (acc @ [v]) = Some (q', acc @ v # vs)" "filled (sq_slots q') j j []"
    "length (sq_slots q') = length (sq_slots q)" "sq_head q' = word_of_nat j" "sq_tail q' = sq_tail q" by auto
  then show ?case using ne s(1) slot_index_nat [OF Cons.prems(1)] Cons.prems(3) by (subst into_inner_loop.simps) auto
qed

lemma drop_loop_filled:
  assumes "capacity_ok (length (sq_slots q))" and "filled (sq_slots q) i j vs" and "sq_tail q = word_of_nat j"
  shows "\<exists>q'. drop_loop q (word_of_nat i) acc = Some (q', acc @ vs) \<and> filled (sq_slots q') j j [] \<and> length (sq_slots q') = length (sq_slots q)"
  using assms
proof (induction vs arbitrary: q i acc)
  case Nil
  then have "i = j" by (simp add: filled_def)
  with Nil show ?case by (subst drop_loop.simps) auto
next
  case (Cons v vs)
  then have ij: "i < j" "j - i \<le> length (sq_slots q)" by (auto simp: filled_def)
  from filled_read [OF Cons.prems(2) ij(1)] obtain slots where
    s: "slot_read (sq_slots q) (i mod length (sq_slots q)) = Some (slots, v)" "length slots = length (sq_slots q)"
      "filled slots (i + 1) j vs" by auto
  have ne: "word_of_nat i \<noteq> sq_tail q" using word_eq_near [of i j] ij capacity_bounds [OF Cons.prems(1)] Cons.prems(3) by auto
  have d: "slot_drop (sq_slots q) (i mod length (sq_slots q)) = Some (slots, v)" using s(1) by (simp add: slot_drop_def slot_read_def)
  from Cons.IH [of "q\<lparr>sq_slots := slots\<rparr>" "i + 1" "acc @ [v]"] s Cons.prems obtain q' where
    "drop_loop (q\<lparr>sq_slots := slots\<rparr>) (1 + word_of_nat i) (acc @ [v]) = Some (q', acc @ v # vs)" "filled (sq_slots q') j j []"
    "length (sq_slots q') = length (sq_slots q)" by auto
  then show ?case using ne d slot_index_nat [OF Cons.prems(1)] by (subst drop_loop.simps) (auto simp: add.commute)
qed

lemma filled_empty:
  assumes "filled slots j j []"
  shows "slots = replicate (length slots) None"
proof (rule nth_equalityI)
  fix i
  assume i: "i < length slots"
  let ?N = "length slots"
  let ?n = "j + (i + ?N - j mod ?N) mod ?N"
  have "?n mod ?N = i"
  proof -
    have "?n mod ?N = (j mod ?N + (i + ?N - j mod ?N)) mod ?N" by (simp add: mod_simps)
    also have "j mod ?N + (i + ?N - j mod ?N) = i + ?N" using i mod_less_divisor [of ?N j] by linarith
    finally show ?thesis using i by simp
  qed
  moreover have "?n < j + ?N" using i by (intro add_strict_left_mono mod_less_divisor) auto
  ultimately show "slots ! i = replicate ?N None ! i" using assms i unfolding filled_def by (metis le_add1 nth_replicate)
qed simp

end
