(* ===== verification/RingThreads.thy ===== *)
theory RingThreads
  imports RingProps
begin

text \<open>
  The ring between two threads. The producer and the consumer run \<open>push_impl\<close>, \<open>has_capacity\<close> and
  \<open>pop_impl\<close> of \<open>crates/hft-spsc/src/lib.rs\<close>, cut at their accesses to shared memory, in any
  interleaving. Each cursor is an atomic with the list of the values stored to it, the initial one first. A
  release store appends the value the code stores; an acquire load returns one of the stored values: it
  may be stale, never older than the one the thread loaded before. The values pushed and popped so far are
  recorded beside the program's state; no step reads them.
\<close>

datatype 'a ProducerPc = PIdle | PTest 'a | PWrite 'a | PPublish 'a
datatype 'a ConsumerPc = CIdle | CTest | CRead | CRelease 'a

record 'a Threads =
  th_queue :: "'a SpscQueue"
  th_producer :: Producer
  th_consumer :: Consumer
  th_ppc :: "'a ProducerPc"
  th_cpc :: "'a ConsumerPc"
  th_head_stores :: "64 word list"
  th_tail_stores :: "64 word list"
  th_seen_head :: nat
  th_seen_tail :: nat
  th_pushed :: "'a list"
  th_popped :: "'a list"
  th_faulted :: bool

definition threads_new :: "'a SpscQueue \<Rightarrow> 'a Threads" where
  "threads_new q = \<lparr>th_queue = q, th_producer = fst (spsc_split q), th_consumer = snd (spsc_split q), th_ppc = PIdle, th_cpc = CIdle,
     th_head_stores = [sq_head q], th_tail_stores = [sq_tail q], th_seen_head = 0, th_seen_tail = 0, th_pushed = [], th_popped = [],
     th_faulted = False\<rparr>"

text \<open>An acquire load of the head by the producer, and of the tail by the consumer: the \<open>n\<close>-th stored value.\<close>

definition load_head :: "'a Threads \<Rightarrow> nat \<Rightarrow> 64 word \<Rightarrow> bool" where
  "load_head s n value \<longleftrightarrow> th_seen_head s \<le> n \<and> n < length (th_head_stores s) \<and> value = th_head_stores s ! n"

definition load_tail :: "'a Threads \<Rightarrow> nat \<Rightarrow> 64 word \<Rightarrow> bool" where
  "load_tail s n value \<longleftrightarrow> th_seen_tail s \<le> n \<and> n < length (th_tail_stores s) \<and> value = th_tail_stores s ! n"

text \<open>The release stores.\<close>

definition store_head :: "'a Threads \<Rightarrow> 64 word \<Rightarrow> 'a Threads" where
  "store_head s value = s\<lparr>th_queue := (th_queue s)\<lparr>sq_head := value\<rparr>, th_head_stores := th_head_stores s @ [value]\<rparr>"

definition store_tail :: "'a Threads \<Rightarrow> 64 word \<Rightarrow> 'a Threads" where
  "store_tail s value = s\<lparr>th_queue := (th_queue s)\<lparr>sq_tail := value\<rparr>, th_tail_stores := th_tail_stores s @ [value]\<rparr>"

inductive ring_step :: "'a Threads \<Rightarrow> 'a Threads \<Rightarrow> bool" where
  push_call: "th_ppc s = PIdle \<Longrightarrow> ring_step s (s\<lparr>th_ppc := PTest v\<rparr>)"
| push_test: "th_ppc s = PTest v \<Longrightarrow> \<not> ring_full (th_queue s) (th_producer s) \<Longrightarrow> ring_step s (s\<lparr>th_ppc := PWrite v\<rparr>)"
| push_load: "th_ppc s = PTest v \<Longrightarrow> ring_full (th_queue s) (th_producer s) \<Longrightarrow> load_head s n head \<Longrightarrow>
    p = (th_producer s)\<lparr>pr_cached_head := head\<rparr> \<Longrightarrow>
    ring_step s (s\<lparr>th_producer := p, th_seen_head := n, th_ppc := if ring_full (th_queue s) p then PIdle else PWrite v\<rparr>)"
| probe_load: "th_ppc s = PIdle \<Longrightarrow> ring_full (th_queue s) (th_producer s) \<Longrightarrow> load_head s n head \<Longrightarrow>
    p = (th_producer s)\<lparr>pr_cached_head := head\<rparr> \<Longrightarrow> ring_step s (s\<lparr>th_producer := p, th_seen_head := n\<rparr>)"
| push_write: "th_ppc s = PWrite v \<Longrightarrow>
    slot_write (sq_slots (th_queue s)) (slot_index (th_queue s) (pr_tail (th_producer s))) v = Some slots \<Longrightarrow>
    ring_step s (s\<lparr>th_queue := (th_queue s)\<lparr>sq_slots := slots\<rparr>, th_ppc := PPublish v\<rparr>)"
| push_fault: "th_ppc s = PWrite v \<Longrightarrow>
    slot_write (sq_slots (th_queue s)) (slot_index (th_queue s) (pr_tail (th_producer s))) v = None \<Longrightarrow>
    ring_step s (s\<lparr>th_faulted := True\<rparr>)"
| push_publish: "th_ppc s = PPublish v \<Longrightarrow> t = pr_tail (th_producer s) + 1 \<Longrightarrow>
    ring_step s ((store_tail s t)\<lparr>th_producer := (th_producer s)\<lparr>pr_tail := t\<rparr>, th_pushed := th_pushed s @ [v], th_ppc := PIdle\<rparr>)"
| pop_call: "th_cpc s = CIdle \<Longrightarrow> ring_step s (s\<lparr>th_cpc := CTest\<rparr>)"
| pop_test: "th_cpc s = CTest \<Longrightarrow> cs_head (th_consumer s) \<noteq> cs_cached_tail (th_consumer s) \<Longrightarrow> ring_step s (s\<lparr>th_cpc := CRead\<rparr>)"
| pop_load: "th_cpc s = CTest \<Longrightarrow> cs_head (th_consumer s) = cs_cached_tail (th_consumer s) \<Longrightarrow> load_tail s n tail \<Longrightarrow>
    c = (th_consumer s)\<lparr>cs_cached_tail := tail\<rparr> \<Longrightarrow>
    ring_step s (s\<lparr>th_consumer := c, th_seen_tail := n, th_cpc := if cs_head c = cs_cached_tail c then CIdle else CRead\<rparr>)"
| pop_read: "th_cpc s = CRead \<Longrightarrow>
    slot_read (sq_slots (th_queue s)) (slot_index (th_queue s) (cs_head (th_consumer s))) = Some (slots, v) \<Longrightarrow>
    ring_step s (s\<lparr>th_queue := (th_queue s)\<lparr>sq_slots := slots\<rparr>, th_cpc := CRelease v\<rparr>)"
| pop_fault: "th_cpc s = CRead \<Longrightarrow>
    slot_read (sq_slots (th_queue s)) (slot_index (th_queue s) (cs_head (th_consumer s))) = None \<Longrightarrow>
    ring_step s (s\<lparr>th_faulted := True\<rparr>)"
| pop_release: "th_cpc s = CRelease v \<Longrightarrow> h = cs_head (th_consumer s) + 1 \<Longrightarrow>
    ring_step s ((store_head s h)\<lparr>th_consumer := (th_consumer s)\<lparr>cs_head := h\<rparr>, th_popped := th_popped s @ [v], th_cpc := CIdle\<rparr>)"

inductive ring_reachable :: "'a SpscQueue \<Rightarrow> 'a Threads \<Rightarrow> bool" for q where
  ring_init: "ring_reachable q (threads_new q)"
| ring_next: "ring_reachable q s \<Longrightarrow> ring_step s s' \<Longrightarrow> ring_reachable q s'"

section \<open>Invariant\<close>

definition writing :: "'a ProducerPc \<Rightarrow> 'a list" where
  "writing pc = (case pc of PPublish v \<Rightarrow> [v] | _ \<Rightarrow> [])"

definition reading :: "'a ConsumerPc \<Rightarrow> 'a list" where
  "reading pc = (case pc of CRelease v \<Rightarrow> [v] | _ \<Rightarrow> [])"

lemma pending_simps [simp]:
  "writing PIdle = []" "writing (PTest v) = []" "writing (PWrite v) = []" "writing (PPublish v) = [v]"
  "reading CIdle = []" "reading CTest = []" "reading CRead = []" "reading (CRelease v) = [v]"
  by (simp_all add: writing_def reading_def)

definition cursors_ok :: "nat \<Rightarrow> 'a Threads \<Rightarrow> bool" where
  "cursors_ok N s \<longleftrightarrow> capacity_ok N \<and> length (sq_slots (th_queue s)) = N \<and>
     th_head_stores s = map word_of_nat [0..<Suc (length (th_popped s))] \<and> th_tail_stores s = map word_of_nat [0..<Suc (length (th_pushed s))] \<and>
     sq_head (th_queue s) = word_of_nat (length (th_popped s)) \<and> cs_head (th_consumer s) = word_of_nat (length (th_popped s)) \<and>
     sq_tail (th_queue s) = word_of_nat (length (th_pushed s)) \<and> pr_tail (th_producer s) = word_of_nat (length (th_pushed s)) \<and>
     pr_cached_head (th_producer s) = word_of_nat (th_seen_head s) \<and> cs_cached_tail (th_consumer s) = word_of_nat (th_seen_tail s) \<and>
     th_seen_head s \<le> length (th_popped s) \<and> length (th_popped s) \<le> th_seen_tail s \<and> th_seen_tail s \<le> length (th_pushed s) \<and>
     length (th_pushed s) \<le> th_seen_head s + N"

definition room_known :: "nat \<Rightarrow> 'a Threads \<Rightarrow> bool" where
  "room_known N s \<longleftrightarrow> (\<forall>v. th_ppc s = PWrite v \<or> th_ppc s = PPublish v \<longrightarrow> length (th_pushed s) < th_seen_head s + N)"

definition value_known :: "'a Threads \<Rightarrow> bool" where
  "value_known s \<longleftrightarrow> (\<forall>v. th_cpc s = CRead \<or> th_cpc s = CRelease v \<longrightarrow> length (th_popped s) < th_seen_tail s)"

definition in_flight :: "'a Threads \<Rightarrow> 'a list \<Rightarrow> bool" where
  "in_flight s vs \<longleftrightarrow> filled (sq_slots (th_queue s)) (length (th_popped s @ reading (th_cpc s)))
       (length (th_pushed s @ writing (th_ppc s))) vs \<and>
     th_popped s @ reading (th_cpc s) @ vs = th_pushed s @ writing (th_ppc s)"

definition threads_inv :: "nat \<Rightarrow> 'a Threads \<Rightarrow> bool" where
  "threads_inv N s \<longleftrightarrow> cursors_ok N s \<and> room_known N s \<and> value_known s \<and> \<not> th_faulted s \<and> (\<exists>vs. in_flight s vs)"

text \<open>What a load returns: a position the peer has stored.\<close>

lemma load_head_iff: "cursors_ok N s \<Longrightarrow> load_head s n head \<longleftrightarrow> th_seen_head s \<le> n \<and> n \<le> length (th_popped s) \<and> head = word_of_nat n"
  by (auto simp: load_head_def cursors_ok_def simp del: upt_Suc)

lemma load_tail_iff: "cursors_ok N s \<Longrightarrow> load_tail s n tail \<longleftrightarrow> th_seen_tail s \<le> n \<and> n \<le> length (th_pushed s) \<and> tail = word_of_nat n"
  by (auto simp: load_tail_def cursors_ok_def simp del: upt_Suc)

lemma producer_full:
  assumes "cursors_ok N s" and "th_seen_head s \<le> n" "n \<le> length (th_popped s)"
  shows "ring_full (th_queue s) ((th_producer s)\<lparr>pr_cached_head := word_of_nat n\<rparr>) \<longleftrightarrow> length (th_pushed s) = n + N"
    and "ring_full (th_queue s) (th_producer s) \<longleftrightarrow> length (th_pushed s) = th_seen_head s + N"
proof -
  have N: "N < 2 ^ 64" using assms(1) capacity_bounds by (auto simp: cursors_ok_def)
  show "ring_full (th_queue s) ((th_producer s)\<lparr>pr_cached_head := word_of_nat n\<rparr>) \<longleftrightarrow> length (th_pushed s) = n + N"
    using word_diff_capacity [of n "length (th_pushed s)" N] assms N
    by (auto simp: ring_full_def spsc_capacity_def cursors_ok_def)
  show "ring_full (th_queue s) (th_producer s) \<longleftrightarrow> length (th_pushed s) = th_seen_head s + N"
    using word_diff_capacity [of "th_seen_head s" "length (th_pushed s)" N] assms(1) N
    by (auto simp: ring_full_def spsc_capacity_def cursors_ok_def)
qed

lemma consumer_empty:
  assumes "cursors_ok N s" and "length (th_popped s) \<le> n" "n \<le> length (th_pushed s)"
  shows "word_of_nat (length (th_popped s)) = (word_of_nat n :: 64 word) \<longleftrightarrow> length (th_popped s) = n"
proof (rule word_eq_near [OF assms(2)])
  show "n - length (th_popped s) < 2 ^ 64" using assms capacity_bounds [of N] by (auto simp: cursors_ok_def)
qed

lemma threads_inv_new:
  assumes "spsc_try_new N = Ok q" and "capacity_ok N"
  shows "threads_inv N (threads_new q)"
proof -
  have q: "q = \<lparr>sq_head = 0, sq_tail = 0, sq_slots = replicate N None\<rparr>" using assms(1) by (auto simp: spsc_try_new_def split: if_splits)
  show ?thesis using assms(2) filled_new [of N] capacity_bounds [OF assms(2)]
    by (auto simp: threads_inv_def cursors_ok_def room_known_def value_known_def in_flight_def threads_new_def spsc_split_def q)
qed

text \<open>Steps of the producer, then of the consumer.\<close>

lemmas threads_defs = threads_inv_def cursors_ok_def room_known_def value_known_def

lemma in_flight_cong:
  "in_flight s vs \<Longrightarrow> sq_slots (th_queue s') = sq_slots (th_queue s) \<Longrightarrow> th_popped s' @ reading (th_cpc s') = th_popped s @ reading (th_cpc s) \<Longrightarrow>
   th_pushed s' @ writing (th_ppc s') = th_pushed s @ writing (th_ppc s) \<Longrightarrow> in_flight s' vs"
  by (metis append.assoc in_flight_def)

lemma inv_push_pc:
  assumes inv: "threads_inv N s" and pc: "writing (th_ppc s) = []" and pc': "pc' = PTest v \<or> pc' = PWrite v \<and> length (th_pushed s) < th_seen_head s + N"
  shows "threads_inv N (s\<lparr>th_ppc := pc'\<rparr>)"
proof -
  from inv obtain vs where vs: "in_flight s vs" by (auto simp: threads_inv_def)
  have "in_flight (s\<lparr>th_ppc := pc'\<rparr>) vs" by (rule in_flight_cong [OF vs]) (use pc pc' in auto)
  then show ?thesis using inv pc' unfolding threads_defs by auto
qed

lemma inv_pop_pc:
  assumes inv: "threads_inv N s" and pc: "reading (th_cpc s) = []" and pc': "pc' = CTest \<or> pc' = CRead \<and> length (th_popped s) < th_seen_tail s"
  shows "threads_inv N (s\<lparr>th_cpc := pc'\<rparr>)"
proof -
  from inv obtain vs where vs: "in_flight s vs" by (auto simp: threads_inv_def)
  have "in_flight (s\<lparr>th_cpc := pc'\<rparr>) vs" by (rule in_flight_cong [OF vs]) (use pc pc' in auto)
  then show ?thesis using inv pc' unfolding threads_defs by auto
qed

lemma inv_push_load:
  assumes inv: "threads_inv N s" and pc: "th_ppc s = PTest v \<or> th_ppc s = PIdle" and load: "load_head s n head"
    and p: "p = (th_producer s)\<lparr>pr_cached_head := head\<rparr>"
    and pc': "pc' = PIdle \<or> pc' = PWrite v \<and> \<not> ring_full (th_queue s) p"
  shows "threads_inv N (s\<lparr>th_producer := p, th_seen_head := n, th_ppc := pc'\<rparr>)"
proof -
  from inv obtain vs where vs: "in_flight s vs" and cur: "cursors_ok N s" by (auto simp: threads_inv_def)
  have n: "th_seen_head s \<le> n" "n \<le> length (th_popped s)" "head = word_of_nat n" using load load_head_iff [OF cur] by auto
  have "in_flight (s\<lparr>th_producer := p, th_seen_head := n, th_ppc := pc'\<rparr>) vs"
    by (rule in_flight_cong [OF vs]) (use pc pc' in auto)
  moreover have "length (th_pushed s) \<le> n + N" using cur n by (auto simp: cursors_ok_def)
  ultimately show ?thesis using inv producer_full(1) [OF cur n(1,2)] n pc' p
    unfolding threads_defs by auto
qed

lemma inv_push_write:
  assumes inv: "threads_inv N s" and pc: "th_ppc s = PWrite v"
  shows "\<exists>slots. slot_write (sq_slots (th_queue s)) (slot_index (th_queue s) (pr_tail (th_producer s))) v = Some slots \<and>
    threads_inv N (s\<lparr>th_queue := (th_queue s)\<lparr>sq_slots := slots\<rparr>, th_ppc := PPublish v\<rparr>)"
proof -
  from inv obtain vs where vs: "in_flight s vs" and cur: "cursors_ok N s" by (auto simp: threads_inv_def)
  let ?i = "length (th_popped s @ reading (th_cpc s))" and ?j = "length (th_pushed s)"
  have f: "filled (sq_slots (th_queue s)) ?i ?j vs" and eq: "th_popped s @ reading (th_cpc s) @ vs = th_pushed s"
    using vs pc by (auto simp: in_flight_def)
  have "?j < ?i + length (sq_slots (th_queue s))" using inv pc by (auto simp: threads_defs)
  from filled_write [OF f this, of v] obtain slots where
    s: "slot_write (sq_slots (th_queue s)) (?j mod length (sq_slots (th_queue s))) v = Some slots"
      "length slots = length (sq_slots (th_queue s))" "filled slots ?i (?j + 1) (vs @ [v])" by blast
  have "slot_index (th_queue s) (pr_tail (th_producer s)) = ?j mod length (sq_slots (th_queue s))"
    using slot_index_nat [of "th_queue s" ?j] cur by (simp add: cursors_ok_def)
  moreover have "in_flight (s\<lparr>th_queue := (th_queue s)\<lparr>sq_slots := slots\<rparr>, th_ppc := PPublish v\<rparr>) (vs @ [v])"
    using s(3) eq by (simp add: in_flight_def)
  ultimately show ?thesis using s(1,2) inv pc unfolding threads_defs by auto
qed

lemma inv_push_publish:
  assumes inv: "threads_inv N s" and pc: "th_ppc s = PPublish v" and t: "t = pr_tail (th_producer s) + 1"
  shows "threads_inv N ((store_tail s t)\<lparr>th_producer := (th_producer s)\<lparr>pr_tail := t\<rparr>, th_pushed := th_pushed s @ [v], th_ppc := PIdle\<rparr>)"
    (is "threads_inv N ?s")
proof -
  from inv obtain vs where vs: "in_flight s vs" by (auto simp: threads_inv_def)
  have "in_flight ?s vs" by (rule in_flight_cong [OF vs]) (use pc in \<open>auto simp: store_tail_def\<close>)
  then show ?thesis using inv pc t unfolding threads_defs store_tail_def by auto
qed

lemma inv_pop_load:
  assumes inv: "threads_inv N s" and pc: "th_cpc s = CTest" and load: "load_tail s n tail"
    and c: "c = (th_consumer s)\<lparr>cs_cached_tail := tail\<rparr>"
  shows "threads_inv N (s\<lparr>th_consumer := c, th_seen_tail := n, th_cpc := if cs_head c = cs_cached_tail c then CIdle else CRead\<rparr>)"
    (is "threads_inv N ?s")
proof -
  from inv obtain vs where vs: "in_flight s vs" and cur: "cursors_ok N s" by (auto simp: threads_inv_def)
  have n: "th_seen_tail s \<le> n" "n \<le> length (th_pushed s)" "tail = word_of_nat n" using load load_tail_iff [OF cur] by auto
  have "in_flight ?s vs" by (rule in_flight_cong [OF vs]) (use pc in auto)
  moreover have "cs_head c = cs_cached_tail c \<longleftrightarrow> length (th_popped s) = n"
    using consumer_empty [OF cur, of n] n cur by (auto simp: c cursors_ok_def)
  ultimately show ?thesis using inv n c unfolding threads_defs by auto
qed

lemma inv_pop_read:
  assumes inv: "threads_inv N s" and pc: "th_cpc s = CRead"
  shows "\<exists>slots v. slot_read (sq_slots (th_queue s)) (slot_index (th_queue s) (cs_head (th_consumer s))) = Some (slots, v) \<and>
    threads_inv N (s\<lparr>th_queue := (th_queue s)\<lparr>sq_slots := slots\<rparr>, th_cpc := CRelease v\<rparr>)"
proof -
  from inv obtain vs where vs: "in_flight s vs" and cur: "cursors_ok N s" by (auto simp: threads_inv_def)
  let ?i = "length (th_popped s)" and ?j = "length (th_pushed s @ writing (th_ppc s))"
  have f: "filled (sq_slots (th_queue s)) ?i ?j vs" and eq: "th_popped s @ vs = th_pushed s @ writing (th_ppc s)"
    using vs pc by (auto simp: in_flight_def)
  have "?i < ?j" using inv pc by (auto simp: threads_defs)
  from filled_read [OF f this] obtain slots where
    s: "slot_read (sq_slots (th_queue s)) (?i mod length (sq_slots (th_queue s))) = Some (slots, hd vs)"
      "length slots = length (sq_slots (th_queue s))" "filled slots (?i + 1) ?j (tl vs)" "vs = hd vs # tl vs" by blast
  have "slot_index (th_queue s) (cs_head (th_consumer s)) = ?i mod length (sq_slots (th_queue s))"
    using slot_index_nat [of "th_queue s" ?i] cur by (simp add: cursors_ok_def)
  moreover have "in_flight (s\<lparr>th_queue := (th_queue s)\<lparr>sq_slots := slots\<rparr>, th_cpc := CRelease (hd vs)\<rparr>) (tl vs)"
    using s(3,4) eq by (simp add: in_flight_def)
  ultimately show ?thesis using s(1,2) inv pc unfolding threads_defs by auto
qed

lemma inv_pop_release:
  assumes inv: "threads_inv N s" and pc: "th_cpc s = CRelease v" and h: "h = cs_head (th_consumer s) + 1"
  shows "threads_inv N ((store_head s h)\<lparr>th_consumer := (th_consumer s)\<lparr>cs_head := h\<rparr>, th_popped := th_popped s @ [v], th_cpc := CIdle\<rparr>)"
    (is "threads_inv N ?s")
proof -
  from inv obtain vs where vs: "in_flight s vs" by (auto simp: threads_inv_def)
  have "in_flight ?s vs" by (rule in_flight_cong [OF vs]) (use pc in \<open>auto simp: store_head_def\<close>)
  then show ?thesis using inv pc h unfolding threads_defs store_head_def by auto
qed

lemma threads_inv_step:
  assumes "ring_step s s'" and inv: "threads_inv N s"
  shows "threads_inv N s'"
  using assms(1)
proof cases
  case (push_call v)
  then show ?thesis using inv_push_pc [OF inv] by simp
next
  case (push_test v)
  have cur: "cursors_ok N s" "th_seen_head s \<le> th_seen_head s" "th_seen_head s \<le> length (th_popped s)" using inv by (auto simp: threads_defs)
  then have "length (th_pushed s) < th_seen_head s + N" using producer_full(2) [OF cur] push_test by (auto simp: cursors_ok_def)
  then show ?thesis using inv_push_pc [OF inv] push_test by simp
next
  case (push_load v n head p)
  then show ?thesis using inv_push_load [OF inv, of v n head p] by auto
next
  case (probe_load n head p)
  then show ?thesis using inv_push_load [OF inv, of undefined n head p PIdle] by (cases s) auto
next
  case (push_write v slots)
  then show ?thesis using inv_push_write [OF inv, of v] by auto
next
  case (push_fault v)
  then show ?thesis using inv_push_write [OF inv, of v] by auto
next
  case (push_publish v t)
  then show ?thesis using inv_push_publish [OF inv] by simp
next
  case pop_call
  then show ?thesis using inv_pop_pc [OF inv] by simp
next
  case pop_test
  have "cs_head (th_consumer s) = word_of_nat (length (th_popped s))" "cs_cached_tail (th_consumer s) = word_of_nat (th_seen_tail s)"
    "length (th_popped s) \<le> th_seen_tail s" using inv by (simp_all add: threads_defs)
  with pop_test(3) have "length (th_popped s) < th_seen_tail s" by (metis le_neq_implies_less)
  then show ?thesis using inv_pop_pc [OF inv] pop_test by simp
next
  case (pop_load n tail c)
  then show ?thesis using inv_pop_load [OF inv] by simp
next
  case (pop_read slots v)
  then show ?thesis using inv_pop_read [OF inv] by auto
next
  case pop_fault
  then show ?thesis using inv_pop_read [OF inv] by auto
next
  case (pop_release v h)
  then show ?thesis using inv_pop_release [OF inv] by simp
qed

lemma threads_inv_reachable:
  assumes "ring_reachable q s" and "spsc_try_new N = Ok q" and "capacity_ok N"
  shows "threads_inv N s"
  using assms(1) by induction (use threads_inv_new [OF assms(2,3)] threads_inv_step in blast)+

section \<open>The operations as runs\<close>

lemma push_impl_run:
  assumes inv: "threads_inv N s" and pc: "th_ppc s = PIdle"
  shows "\<exists>q p r s'. push_impl (th_queue s) (th_producer s) v = Some (q, p, r) \<and> ring_step\<^sup>*\<^sup>* s s' \<and>
    th_queue s' = q \<and> th_producer s' = p \<and> th_ppc s' = PIdle \<and> th_consumer s' = th_consumer s \<and> th_cpc s' = th_cpc s \<and>
    th_popped s' = th_popped s \<and> th_pushed s' = th_pushed s @ (case r of Ok _ \<Rightarrow> [v] | Err _ \<Rightarrow> [])"
proof -
  have cur: "cursors_ok N s" "th_seen_head s \<le> length (th_popped s)" using inv by (auto simp: threads_defs)
  have head: "sq_head (th_queue s) = word_of_nat (length (th_popped s))" using cur by (simp add: cursors_ok_def)
  define p where "p = (if ring_full (th_queue s) (th_producer s)
    then (th_producer s)\<lparr>pr_cached_head := sq_head (th_queue s)\<rparr> else th_producer s)"
  define n where "n = (if ring_full (th_queue s) (th_producer s) then length (th_popped s) else th_seen_head s)"
  let ?s1 = "s\<lparr>th_ppc := PTest v\<rparr>"
  let ?s2 = "?s1\<lparr>th_producer := p, th_seen_head := n, th_ppc := if ring_full (th_queue s) p then PIdle else PWrite v\<rparr>"
  have inv1: "threads_inv N ?s1" using threads_inv_step [OF push_call [OF pc] inv] .
  have 1: "ring_step s ?s1" by (rule push_call [OF pc])
  have 2: "ring_step ?s1 ?s2"
  proof (cases "ring_full (th_queue s) (th_producer s)")
    case True
    have "load_head s n (sq_head (th_queue s))" using load_head_iff [OF cur(1), of n] cur(2) True head by (simp add: n_def)
    then have "load_head ?s1 n (sq_head (th_queue s))" unfolding load_head_def by simp
    from push_load [OF _ _ this, of v p] True show ?thesis by (simp add: p_def)
  next
    case False
    then have "?s2 = ?s1\<lparr>th_ppc := PWrite v\<rparr>" by (simp add: p_def n_def)
    with False show ?thesis using push_test [of ?s1 v] by simp
  qed
  show ?thesis
  proof (cases "ring_full (th_queue s) p")
    case True
    then have "push_impl (th_queue s) (th_producer s) v = Some (th_queue s, p, Err v)"
      by (simp add: push_impl_def p_def [symmetric])
    moreover have "ring_step\<^sup>*\<^sup>* s ?s2" using 1 2 by (meson converse_rtranclp_into_rtranclp rtranclp.rtrancl_refl)
    ultimately show ?thesis using True by (intro exI [of _ "th_queue s"] exI [of _ p] exI [of _ "Err v"] exI [of _ ?s2]) simp
  next
    case False
    have inv2: "threads_inv N ?s2" using threads_inv_step [OF 2 inv1] .
    from inv_push_write [OF inv2, of v] False obtain slots where
      w: "slot_write (sq_slots (th_queue s)) (slot_index (th_queue s) (pr_tail p)) v = Some slots" by auto
    let ?s3 = "?s2\<lparr>th_queue := (th_queue s)\<lparr>sq_slots := slots\<rparr>, th_ppc := PPublish v\<rparr>"
    let ?t = "pr_tail p + 1"
    let ?s4 = "(store_tail ?s3 ?t)\<lparr>th_producer := p\<lparr>pr_tail := ?t\<rparr>, th_pushed := th_pushed s @ [v], th_ppc := PIdle\<rparr>"
    have 3: "ring_step ?s2 ?s3" using push_write [of ?s2 v slots] False w by simp
    have 4: "ring_step ?s3 ?s4" using push_publish [of ?s3 v ?t] by simp
    have "push_impl (th_queue s) (th_producer s) v = Some ((th_queue s)\<lparr>sq_slots := slots, sq_tail := ?t\<rparr>, p\<lparr>pr_tail := ?t\<rparr>, Ok ())"
      using False w by (simp add: push_impl_def p_def [symmetric] Let_def)
    moreover have "ring_step\<^sup>*\<^sup>* s ?s4" using 1 2 3 4 by (meson converse_rtranclp_into_rtranclp rtranclp.rtrancl_refl)
    ultimately show ?thesis
      by (intro exI [of _ "(th_queue s)\<lparr>sq_slots := slots, sq_tail := ?t\<rparr>"] exI [of _ "p\<lparr>pr_tail := ?t\<rparr>"] exI [of _ "Ok ()"] exI [of _ ?s4]) (simp add: store_tail_def)
  qed
qed

lemma pop_impl_run:
  assumes inv: "threads_inv N s" and pc: "th_cpc s = CIdle"
  shows "\<exists>q c r s'. pop_impl (th_queue s) (th_consumer s) = Some (q, c, r) \<and> ring_step\<^sup>*\<^sup>* s s' \<and>
    th_queue s' = q \<and> th_consumer s' = c \<and> th_cpc s' = CIdle \<and> th_pushed s' = th_pushed s \<and>
    th_popped s' = th_popped s @ (case r of Some v \<Rightarrow> [v] | None \<Rightarrow> [])"
proof -
  have cur: "cursors_ok N s" "th_seen_tail s \<le> length (th_pushed s)" using inv by (auto simp: threads_defs)
  have tail: "sq_tail (th_queue s) = word_of_nat (length (th_pushed s))" using cur by (simp add: cursors_ok_def)
  let ?empty = "cs_head (th_consumer s) = cs_cached_tail (th_consumer s)"
  define c where "c = (if ?empty then (th_consumer s)\<lparr>cs_cached_tail := sq_tail (th_queue s)\<rparr> else th_consumer s)"
  define n where "n = (if ?empty then length (th_pushed s) else th_seen_tail s)"
  let ?s1 = "s\<lparr>th_cpc := CTest\<rparr>"
  let ?s2 = "?s1\<lparr>th_consumer := c, th_seen_tail := n, th_cpc := if cs_head c = cs_cached_tail c then CIdle else CRead\<rparr>"
  have inv1: "threads_inv N ?s1" using threads_inv_step [OF pop_call [OF pc] inv] .
  have 1: "ring_step s ?s1" by (rule pop_call [OF pc])
  have 2: "ring_step ?s1 ?s2"
  proof (cases ?empty)
    case True
    have "load_tail s n (sq_tail (th_queue s))" using load_tail_iff [OF cur(1), of n] cur(2) True tail by (simp add: n_def)
    then have "load_tail ?s1 n (sq_tail (th_queue s))" unfolding load_tail_def by simp
    from pop_load [OF _ _ this, of c] True show ?thesis by (simp add: c_def)
  next
    case False
    then have "?s2 = ?s1\<lparr>th_cpc := CRead\<rparr>" by (simp add: c_def n_def)
    with False show ?thesis using pop_test [of ?s1] by simp
  qed
  show ?thesis
  proof (cases "cs_head c = cs_cached_tail c")
    case True
    then have "pop_impl (th_queue s) (th_consumer s) = Some (th_queue s, c, None)"
      unfolding pop_impl_def Let_def c_def [symmetric] by simp
    moreover have "ring_step\<^sup>*\<^sup>* s ?s2" using 1 2 by (meson converse_rtranclp_into_rtranclp rtranclp.rtrancl_refl)
    ultimately show ?thesis using True by (intro exI [of _ "th_queue s"] exI [of _ c] exI [of _ None] exI [of _ ?s2]) simp
  next
    case False
    have inv2: "threads_inv N ?s2" using threads_inv_step [OF 2 inv1] .
    from inv_pop_read [OF inv2] False obtain slots v where
      w: "slot_read (sq_slots (th_queue s)) (slot_index (th_queue s) (cs_head c)) = Some (slots, v)" by auto
    let ?s3 = "?s2\<lparr>th_queue := (th_queue s)\<lparr>sq_slots := slots\<rparr>, th_cpc := CRelease v\<rparr>"
    let ?h = "cs_head c + 1"
    let ?s4 = "(store_head ?s3 ?h)\<lparr>th_consumer := c\<lparr>cs_head := ?h\<rparr>, th_popped := th_popped s @ [v], th_cpc := CIdle\<rparr>"
    have 3: "ring_step ?s2 ?s3" using pop_read [of ?s2 slots v] False w by simp
    have 4: "ring_step ?s3 ?s4" using pop_release [of ?s3 v ?h] by simp
    have "pop_impl (th_queue s) (th_consumer s) = Some ((th_queue s)\<lparr>sq_slots := slots, sq_head := ?h\<rparr>, c\<lparr>cs_head := ?h\<rparr>, Some v)"
      using False w unfolding pop_impl_def Let_def c_def [symmetric] by simp
    moreover have "ring_step\<^sup>*\<^sup>* s ?s4" using 1 2 3 4 by (meson converse_rtranclp_into_rtranclp rtranclp.rtrancl_refl)
    ultimately show ?thesis
      by (intro exI [of _ "(th_queue s)\<lparr>sq_slots := slots, sq_head := ?h\<rparr>"] exI [of _ "c\<lparr>cs_head := ?h\<rparr>"] exI [of _ "Some v"] exI [of _ ?s4]) (simp add: store_head_def)
  qed
qed

lemma try_new_capacity:
  assumes "spsc_try_new N = Ok q" and "N < 2 ^ 64"
  shows "capacity_ok N"
proof -
  obtain k where k: "N = 2 ^ k" using assms(1) by (auto simp: spsc_try_new_def is_power_of_two_iff split: if_splits)
  have "k \<le> 63"
  proof (rule ccontr)
    assume "\<not> k \<le> 63"
    then have "(2::nat) ^ 64 \<le> 2 ^ k" by (intro power_increasing) auto
    with k assms(2) show False by simp
  qed
  with k show ?thesis unfolding capacity_ok_def by blast
qed

lemma demo_ring: "spsc_try_new 2 = Ok \<lparr>sq_head = 0, sq_tail = 0, sq_slots = [None, None]\<rparr>" "capacity_ok 2"
  "\<exists>r. ring_new 2 = Ok r \<and> ring_holds r []"
proof -
  have "is_power_of_two 2" unfolding is_power_of_two_iff by (metis power_one_right)
  then show "spsc_try_new 2 = Ok \<lparr>sq_head = 0, sq_tail = 0, sq_slots = [None, None]\<rparr>"
    by (simp add: spsc_try_new_def) (simp add: numeral_2_eq_2)
  show c: "capacity_ok 2" unfolding capacity_ok_def by (intro exI [of _ 1]) simp
  show "\<exists>r. ring_new 2 = Ok r \<and> ring_holds r []" using ring_new_holds [OF c] by blast
qed

section \<open>Properties\<close>

text \<open>
  C32: the ring is race free and first-in first-out. However the producer's and the consumer's accesses
  interleave, and whichever of the cursor values stored so far an acquire load returns, no unsafe slot access ever breaks its
  contract (no live value is overwritten, no uninitialized slot is read), the values the consumer has
  released are a prefix of those the producer has published, and at most the capacity is in flight.
\<close>
theorem ring_threads_fifo:
  assumes "ring_reachable q s" and "spsc_try_new N = Ok q" and "N < 2 ^ 64"
  shows "\<not> th_faulted s \<and> (\<exists>vs. th_pushed s = th_popped s @ vs \<and> length vs \<le> N)"
proof -
  have inv: "threads_inv N s" by (rule threads_inv_reachable [OF assms(1,2) try_new_capacity [OF assms(2,3)]])
  then obtain vs where eq: "th_popped s @ reading (th_cpc s) @ vs = th_pushed s @ writing (th_ppc s)"
    unfolding threads_inv_def in_flight_def by blast
  have le: "length (th_popped s) \<le> length (th_pushed s)" "length (th_pushed s) \<le> length (th_popped s) + N"
    using inv by (auto simp: threads_defs)
  have "th_popped s = take (length (th_popped s)) (th_pushed s)"
    using arg_cong [OF eq, of "take (length (th_popped s))"] le(1) by simp
  then have "th_pushed s = th_popped s @ drop (length (th_popped s)) (th_pushed s)" by (metis append_take_drop_id)
  then show ?thesis using le(2) inv by (intro conjI exI [of _ "drop (length (th_popped s)) (th_pushed s)"]) (auto simp: threads_inv_def)
qed

theorem ring_threads_fifo_witness:
  "\<exists>s. ring_reachable \<lparr>sq_head = 0, sq_tail = 0, sq_slots = [None, None]\<rparr> s \<and> th_pushed s = [7::nat, 8] \<and> th_popped s = [7] \<and>
     \<not> th_faulted s \<and> (\<exists>vs. [7, 8] = [7] @ vs \<and> length vs \<le> 2)"
proof -
  let ?q = "\<lparr>sq_head = 0, sq_tail = 0, sq_slots = [None, None]\<rparr> :: nat SpscQueue"
  have run: "ring_reachable ?q s'" if "ring_step\<^sup>*\<^sup>* s s'" "ring_reachable ?q s" for s s' :: "nat Threads"
    using that by induction (auto intro: ring_next)
  note inv = threads_inv_reachable [OF _ demo_ring(1,2)]
  have r0: "ring_reachable ?q (threads_new ?q)" by (rule ring_init)
  have s0: "th_ppc (threads_new ?q) = PIdle" "th_cpc (threads_new ?q) = CIdle" "th_queue (threads_new ?q) = ?q" "th_pushed (threads_new ?q) = []"
    "th_popped (threads_new ?q) = []" "th_producer (threads_new ?q) = \<lparr>pr_tail = 0, pr_cached_head = 0\<rparr>" "th_consumer (threads_new ?q) = \<lparr>cs_head = 0, cs_cached_tail = 0\<rparr>"
    by (simp_all add: threads_new_def spsc_split_def)
  have p1: "push_impl ?q \<lparr>pr_tail = 0, pr_cached_head = 0\<rparr> 7 =
    Some (\<lparr>sq_head = 0, sq_tail = 1, sq_slots = [Some 7, None]\<rparr>, \<lparr>pr_tail = 1, pr_cached_head = 0\<rparr>, Ok ())"
    by (simp add: push_impl_def ring_full_def spsc_capacity_def slot_index_def slot_write_def nth_opt_def)
  from push_impl_run [OF inv [OF r0] s0(1), of 7] p1 s0 obtain s1 where s1: "ring_step\<^sup>*\<^sup>* (threads_new ?q) s1"
    "th_queue s1 = \<lparr>sq_head = 0, sq_tail = 1, sq_slots = [Some 7, None]\<rparr>" "th_producer s1 = \<lparr>pr_tail = 1, pr_cached_head = 0\<rparr>"
    "th_ppc s1 = PIdle" "th_consumer s1 = \<lparr>cs_head = 0, cs_cached_tail = 0\<rparr>" "th_cpc s1 = CIdle" "th_popped s1 = []" "th_pushed s1 = [7]" by auto
  note r1 = run [OF s1(1) r0]
  have p2: "push_impl (th_queue s1) (th_producer s1) 8 =
    Some (\<lparr>sq_head = 0, sq_tail = 2, sq_slots = [Some 7, Some 8]\<rparr>, \<lparr>pr_tail = 2, pr_cached_head = 0\<rparr>, Ok ())"
    by (simp add: s1 push_impl_def ring_full_def spsc_capacity_def slot_index_def slot_write_def nth_opt_def)
  from push_impl_run [OF inv [OF r1] s1(4), of 8] p2 s1 obtain s2 where s2: "ring_step\<^sup>*\<^sup>* s1 s2"
    "th_queue s2 = \<lparr>sq_head = 0, sq_tail = 2, sq_slots = [Some 7, Some 8]\<rparr>"
    "th_consumer s2 = \<lparr>cs_head = 0, cs_cached_tail = 0\<rparr>" "th_cpc s2 = CIdle" "th_popped s2 = []" "th_pushed s2 = [7, 8]" by auto
  note r2 = run [OF s2(1) r1]
  have p3: "pop_impl (th_queue s2) (th_consumer s2) = 
    Some (\<lparr>sq_head = 1, sq_tail = 2, sq_slots = [None, Some 8]\<rparr>, \<lparr>cs_head = 1, cs_cached_tail = 2\<rparr>, Some 7)"
    by (simp add: s2 pop_impl_def spsc_capacity_def slot_index_def slot_read_def nth_opt_def)
  from pop_impl_run [OF inv [OF r2] s2(4)] p3 s2 obtain s3 where s3: "ring_step\<^sup>*\<^sup>* s2 s3" "th_popped s3 = [7]" "th_pushed s3 = [7, 8]" by auto
  note r3 = run [OF s3(1) r2]
  from ring_threads_fifo [OF r3 demo_ring(1)] r3 s3(2,3) show ?thesis by auto
qed

text \<open>
  The operations are runs of the atomic steps. From a reachable state where an endpoint is idle,
  \<open>push_impl\<close> and \<open>pop_impl\<close>, executed without interference, end in the state a run of their steps
  reaches, with the value published or released exactly when the operation reports it.
\<close>
theorem ring_operations_are_runs:
  assumes "ring_reachable q s" and "spsc_try_new N = Ok q" and "N < 2 ^ 64"
  shows "(th_ppc s = PIdle \<longrightarrow> (\<exists>q' p r s'. push_impl (th_queue s) (th_producer s) v = Some (q', p, r) \<and> ring_step\<^sup>*\<^sup>* s s' \<and>
      th_queue s' = q' \<and> th_producer s' = p \<and> th_ppc s' = PIdle \<and> th_popped s' = th_popped s \<and>
      th_pushed s' = th_pushed s @ (case r of Ok _ \<Rightarrow> [v] | Err _ \<Rightarrow> []))) \<and>
    (th_cpc s = CIdle \<longrightarrow> (\<exists>q' c r s'. pop_impl (th_queue s) (th_consumer s) = Some (q', c, r) \<and> ring_step\<^sup>*\<^sup>* s s' \<and>
      th_queue s' = q' \<and> th_consumer s' = c \<and> th_cpc s' = CIdle \<and> th_pushed s' = th_pushed s \<and>
      th_popped s' = th_popped s @ (case r of Some w \<Rightarrow> [w] | None \<Rightarrow> [])))"
proof -
  have inv: "threads_inv N s" by (rule threads_inv_reachable [OF assms(1,2) try_new_capacity [OF assms(2,3)]])
  show ?thesis using push_impl_run [OF inv, of v] pop_impl_run [OF inv] by blast
qed

theorem ring_operations_are_runs_witness:
  "\<exists>q' p r. push_impl (\<lparr>sq_head = 0, sq_tail = 0, sq_slots = [None, None]\<rparr> :: nat SpscQueue) \<lparr>pr_tail = 0, pr_cached_head = 0\<rparr> 7 = Some (q', p, r)"
proof -
  have "th_ppc (threads_new q) = PIdle" "th_queue (threads_new q) = q" "th_producer (threads_new q) = fst (spsc_split q)"
    for q :: "nat SpscQueue" by (simp_all add: threads_new_def)
  with ring_operations_are_runs [OF ring_init demo_ring(1), of 7] show ?thesis by (auto simp: spsc_split_def)
qed

text \<open>
  Used through its endpoints, the ring is a bounded FIFO queue. Any sequence of pushes and pops on a
  fresh ring runs to completion; the values popped followed by those still held are exactly the
  values accepted, in order; and no more than the capacity is held.
\<close>
theorem ring_is_bounded_fifo:
  fixes r :: "'a Ring"
  assumes "ring_new N = Ok r" and "N < 2 ^ 64"
  shows "\<exists>r' accepted popped vs. queue_run ring_push ring_pop r ops = Some (r', accepted, popped) \<and>
    accepted = popped @ vs \<and> ring_holds r' vs \<and> length vs \<le> N"
proof -
  from assms(1) obtain q :: "'a SpscQueue" where q: "spsc_try_new N = Ok q" by (auto simp: ring_new_def and_then_Ok_iff)
  obtain r0 :: "'a Ring" where "ring_new N = Ok r0" "ring_holds r0 []" "ring_room r0 = N"
    using ring_new_holds [OF try_new_capacity [OF q assms(2)]] by blast
  with assms(1) have r: "ring_holds r []" "ring_room r = N" by auto
  from ring.run_fifo [OF r(1), of ops] obtain r' acc pop vs where
    "queue_run ring_push ring_pop r ops = Some (r', acc, pop)" "[] @ acc = pop @ vs" "ring_holds r' vs" "ring_room r' = ring_room r" by blast
  with ring.within r(2) show ?thesis by fastforce
qed

theorem ring_is_bounded_fifo_witness:
  "\<exists>r. ring_new 2 = Ok r \<and> (\<exists>r' accepted popped vs. queue_run ring_push ring_pop r [PushOp (7::nat), PushOp 8, PushOp 9, PopOp] =
     Some (r', accepted, popped) \<and> accepted = popped @ vs \<and> ring_holds r' vs \<and> length vs \<le> 2)"
proof -
  from demo_ring(3) obtain r :: "nat Ring" where r: "ring_new 2 = Ok r" by blast
  from ring_is_bounded_fifo [OF r, of "[PushOp 7, PushOp 8, PushOp 9, PopOp]"] r show ?thesis by auto
qed

text \<open>
  C37: draining and dropping visit exactly the live slots, end, and leave nothing behind. On a ring that
  holds \<open>vs\<close>, \<open>into_inner\<close> returns \<open>vs\<close> in order; its queue is freed with head and tail equal, no slot
  initialized and nothing dropped. The destructor of the ring drops \<open>vs\<close> in order, each value once, and leaves
  no slot initialized.
\<close>
theorem ring_drain_exact:
  assumes "ring_holds r vs"
  shows "\<exists>q q'. into_inner (rg_queue r) = Some (q, [], vs) \<and> sq_head q = sq_tail q \<and> sq_tail q = sq_tail (rg_queue r) \<and>
      sq_slots q = replicate (spsc_capacity (rg_queue r)) None \<and>
    drop_queue (rg_queue r) = Some (q', vs) \<and> sq_slots q' = replicate (spsc_capacity (rg_queue r)) None"
proof -
  from assms obtain i j ch ct where "ring_rep r i j ch ct vs" unfolding ring_holds_def by blast
  note R = this [unfolded ring_rep_def]
  from into_inner_filled [of "rg_queue r" i j vs "[]"] R obtain q where
    q: "into_inner_loop (rg_queue r) (word_of_nat j) [] = Some (q, vs)" "filled (sq_slots q) j j []"
      "length (sq_slots q) = length (sq_slots (rg_queue r))" "sq_head q = word_of_nat j" "sq_tail q = sq_tail (rg_queue r)" by auto
  from drop_loop_filled [of "rg_queue r" i j vs "[]"] R obtain q' where
    q': "drop_loop (rg_queue r) (word_of_nat i) [] = Some (q', vs)" "filled (sq_slots q') j j []"
      "length (sq_slots q') = length (sq_slots (rg_queue r))" by auto
  have "drop_queue q = Some (q, [])" using q(4,5) R by (subst drop_queue_def) (subst drop_loop.simps, simp)
  then have "into_inner (rg_queue r) = Some (q, [], vs)" using q(1) R by (simp add: into_inner_def)
  then show ?thesis using q q' R filled_empty [OF q(2)] filled_empty [OF q'(2)]
    by (intro exI [of _ q] exI [of _ q']) (simp add: drop_queue_def spsc_capacity_def)
qed

theorem ring_drain_exact_witness:
  "\<exists>(r :: nat Ring) r1 r2 q q'. ring_new 2 = Ok r \<and> ring_push r 7 = Some (r1, Ok ()) \<and> ring_push r1 8 = Some (r2, Ok ()) \<and>
     into_inner (rg_queue r2) = Some (q, [], [7, 8]) \<and> drop_queue (rg_queue r2) = Some (q', [7, 8])"
proof -
  have cap: "capacity_ok 2" unfolding capacity_ok_def by (intro exI [of _ 1]) simp
  from ring_new_holds [OF cap] obtain r :: "nat Ring" where r: "ring_new 2 = Ok r" "ring_holds r []" "ring_room r = 2" by blast
  from ring.push_room [OF r(2), of 7] r(3) obtain r1 where r1: "ring_push r 7 = Some (r1, Ok ())" "ring_holds r1 [7]" "ring_room r1 = 2" by auto
  from ring.push_room [OF r1(2), of 8] r1(3) obtain r2 where r2: "ring_push r1 8 = Some (r2, Ok ())" "ring_holds r2 [7, 8]" by auto
  from ring_drain_exact [OF r2(2)] r(1) r1(1) r2(1) show ?thesis by blast
qed

end
