(* ===== verification/Journal.thy ===== *)
theory Journal
  imports Wire RingThreads
begin

text \<open>
  The journal, \<open>crates/hft-journal/src/lib.rs\<close>: fixed-size checksummed records, the writer and the
  reader at the two ends of a ring, the persistence worker that drains the ring into a file, and the
  recovery scan of a file.

  The CRC32C of the external crate is the parameter \<open>crc\<close>. A file is its contents, how many of its
  bytes are known to be durable, and the answers the operating system is going to give to writes and
  syncs: any short count, interruption or error. The writer, the reader and the shared status are one
  record; \<open>jn_status\<close> is \<open>None\<close> for the raw constructors without a status. Atomic stores and loads
  of the status are reads and writes of its fields.
\<close>

section \<open>Records\<close>

definition MAX_PAYLOAD :: nat where "MAX_PAYLOAD = 46"
definition RECORD_SIZE :: nat where "RECORD_SIZE = 64"
definition RING_CAPACITY :: nat where "RING_CAPACITY = 1024"
definition JOURNAL_VERSION :: byte where "JOURNAL_VERSION = 1"
definition JOURNAL_MAGIC :: nat where "JOURNAL_MAGIC = 0x4a52"
definition CHECKSUM_OFFSET :: nat where "CHECKSUM_OFFSET = 14"
definition PAYLOAD_OFFSET :: nat where "PAYLOAD_OFFSET = 18"

type_synonym crc = "byte list \<Rightarrow> 32 word"

datatype JournalError = Saturated | JournalSequenceOverflow | PayloadTooLarge nat

record JournalRecord =
  jr_sequence :: SequenceNumber
  jr_checksum :: "32 word"
  jr_len :: nat
  jr_magic :: nat
  jr_payload :: "byte list"
  jr_version :: byte
  jr_flags :: byte

definition bytes_without_checksum :: "JournalRecord \<Rightarrow> byte list" where
  "bytes_without_checksum r =
     be_bytes 2 (jr_magic r) @ [jr_version r, jr_flags r] @ be_bytes 8 (jr_sequence r) @ be_bytes 2 (jr_len r) @
     replicate (PAYLOAD_OFFSET - CHECKSUM_OFFSET) 0 @ jr_payload r"

definition record_new :: "crc \<Rightarrow> SequenceNumber \<Rightarrow> byte list \<Rightarrow> (JournalRecord, JournalError) result" where
  "record_new crc sequence payload =
     (if length payload > MAX_PAYLOAD then Err (PayloadTooLarge (length payload))
      else if length payload > U16_MAX then Err (PayloadTooLarge (length payload))
      else let record = \<lparr>jr_sequence = sequence, jr_checksum = 0, jr_len = length payload, jr_magic = JOURNAL_MAGIC,
             jr_payload = payload @ replicate (MAX_PAYLOAD - length payload) 0, jr_version = JOURNAL_VERSION, jr_flags = 0\<rparr> in
        Ok (record\<lparr>jr_checksum := crc (bytes_without_checksum record)\<rparr>))"

definition record_slice :: "JournalRecord \<Rightarrow> byte list option" where
  "record_slice r = (if jr_len r \<le> length (jr_payload r) then Some (take (jr_len r) (jr_payload r)) else None)"

definition record_verify :: "crc \<Rightarrow> JournalRecord \<Rightarrow> bool" where
  "record_verify crc r \<longleftrightarrow> jr_magic r = JOURNAL_MAGIC \<and> jr_version r = JOURNAL_VERSION \<and> jr_flags r = 0 \<and>
     record_slice r \<noteq> None \<and> jr_checksum r = crc (bytes_without_checksum r)"

definition record_encode :: "JournalRecord \<Rightarrow> byte list" where
  "record_encode r =
     (let bytes = bytes_without_checksum r in
      take CHECKSUM_OFFSET bytes @ be_bytes 4 (unat (jr_checksum r)) @ drop PAYLOAD_OFFSET bytes)"

datatype DecodeError =
    JdMalformed
  | JdBadMagic nat
  | JdUnsupportedVersion byte
  | JdUnsupportedFlags byte
  | JdPayloadLength nat
  | JdChecksumMismatch SequenceNumber

text \<open>The argument is an array of \<open>RECORD_SIZE\<close> bytes: the conversions of its ranges never fail.\<close>

definition record_decode :: "crc \<Rightarrow> byte list \<Rightarrow> (JournalRecord, DecodeError) result" where
  "record_decode crc bytes =
     (let magic = from_be [bytes ! 0, bytes ! 1] in
      if magic \<noteq> JOURNAL_MAGIC then Err (JdBadMagic magic)
      else let version = bytes ! 2 in
      if version \<noteq> JOURNAL_VERSION then Err (JdUnsupportedVersion version)
      else let flags = bytes ! 3 in
      if flags \<noteq> 0 then Err (JdUnsupportedFlags flags)
      else let sequence = from_be (subslice 4 12 bytes); len = from_be [bytes ! 12, bytes ! 13] in
      if len > MAX_PAYLOAD then Err (JdPayloadLength len)
      else let record = \<lparr>jr_sequence = sequence, jr_checksum = word_of_nat (from_be (subslice CHECKSUM_OFFSET PAYLOAD_OFFSET bytes)),
             jr_len = len, jr_magic = magic, jr_payload = drop PAYLOAD_OFFSET bytes, jr_version = version, jr_flags = flags\<rparr> in
      if \<not> record_verify crc record then Err (JdChecksumMismatch sequence)
      else Ok record)"

section \<open>Channel\<close>

record StatusState =
  st_next_written_sequence :: nat
  st_next_durable_sequence :: nat
  st_producer_closed :: bool
  st_poisoned :: bool
  st_shutdown_complete :: bool

definition status_new :: "nat \<Rightarrow> StatusState" where
  "status_new first_sequence =
     \<lparr>st_next_written_sequence = first_sequence, st_next_durable_sequence = first_sequence, st_producer_closed = False,
      st_poisoned = False, st_shutdown_complete = False\<rparr>"

text \<open>Both ends: the writer's counter, the reader's, its poison flag, and the flag of its status guard.\<close>

record Journal =
  jn_ring :: "JournalRecord Ring"
  jn_status :: "StatusState option"
  jn_next_sequence :: nat
  jn_expected_sequence :: nat
  jn_reader_poisoned :: bool
  jn_guard_complete :: bool

definition status_poison :: "Journal \<Rightarrow> Journal" where
  "status_poison j = j\<lparr>jn_status := map_option (\<lambda>s. s\<lparr>st_poisoned := True\<rparr>) (jn_status j)\<rparr>"

definition publish_written :: "Journal \<Rightarrow> nat \<Rightarrow> Journal" where
  "publish_written j n = j\<lparr>jn_status := map_option (\<lambda>s. s\<lparr>st_next_written_sequence := n\<rparr>) (jn_status j)\<rparr>"

definition publish_durable :: "Journal \<Rightarrow> nat \<Rightarrow> Journal" where
  "publish_durable j n = j\<lparr>jn_status := map_option (\<lambda>s. s\<lparr>st_next_durable_sequence := n\<rparr>) (jn_status j)\<rparr>"

definition guard_complete :: "Journal \<Rightarrow> Journal" where
  "guard_complete j = j\<lparr>jn_status := map_option (\<lambda>s. s\<lparr>st_shutdown_complete := True\<rparr>) (jn_status j), jn_guard_complete := True\<rparr>"

text \<open>Dropping the reader's guard: a channel that was not shut down is poisoned.\<close>

definition guard_drop :: "Journal \<Rightarrow> Journal" where
  "guard_drop j = (if jn_guard_complete j then j else status_poison j)"

text \<open>\<open>JournalChannel::try_new\<close> then \<open>split\<close>.\<close>

definition channel_split :: "nat \<Rightarrow> (Journal, QueueConfigError) result" where
  "channel_split first_sequence =
     and_then (ring_new RING_CAPACITY) (\<lambda>ring.
       Ok \<lparr>jn_ring = ring, jn_status = Some (status_new first_sequence), jn_next_sequence = first_sequence,
           jn_expected_sequence = first_sequence, jn_reader_poisoned = False, jn_guard_complete = False\<rparr>)"

text \<open>\<open>JournalWriter::from_producer\<close> and \<open>JournalReader::from_consumer\<close> on one queue, without a status.\<close>

definition raw_split :: "nat \<Rightarrow> (Journal, QueueConfigError) result" where
  "raw_split first_sequence =
     and_then (channel_split first_sequence) (\<lambda>j. Ok (j\<lparr>jn_status := None\<rparr>))"

definition writer_close :: "Journal \<Rightarrow> Journal" where
  "writer_close j = j\<lparr>jn_status := map_option (\<lambda>s. s\<lparr>st_producer_closed := True\<rparr>) (jn_status j)\<rparr>"

definition journal_enqueue :: "crc \<Rightarrow> Journal \<Rightarrow> byte list \<Rightarrow> (Journal \<times> (SequenceNumber, JournalError) result) option" where
  "journal_enqueue crc j payload =
     (case checked_add 64 (jn_next_sequence j) 1 of
        None \<Rightarrow> Some (j, Err JournalSequenceOverflow)
      | Some next_sequence \<Rightarrow>
          let sequence = jn_next_sequence j in
          (case record_new crc sequence payload of
             Err e \<Rightarrow> Some (j, Err e)
           | Ok record \<Rightarrow>
               do {
                 (ring, pushed) \<leftarrow> ring_push (jn_ring j) record;
                 Some (case pushed of
                         Err _ \<Rightarrow> (j\<lparr>jn_ring := ring\<rparr>, Err Saturated)
                       | Ok _ \<Rightarrow> (j\<lparr>jn_ring := ring, jn_next_sequence := next_sequence\<rparr>, Ok sequence))
               }))"

datatype ReadError =
    RdEmpty
  | RdChecksumMismatch SequenceNumber
  | RdSequenceMismatch SequenceNumber SequenceNumber
  | RdPoisoned

definition poison_reader :: "Journal \<Rightarrow> Journal" where
  "poison_reader j = status_poison (j\<lparr>jn_reader_poisoned := True\<rparr>)"

definition journal_read :: "crc \<Rightarrow> Journal \<Rightarrow> (Journal \<times> (JournalRecord, ReadError) result) option" where
  "journal_read crc j =
     (if jn_reader_poisoned j then Some (j, Err RdPoisoned)
      else do {
        (ring, popped) \<leftarrow> ring_pop (jn_ring j);
        let j = j\<lparr>jn_ring := ring\<rparr>;
        Some (case popped of
                None \<Rightarrow> (j, Err RdEmpty)
              | Some record \<Rightarrow>
                  if \<not> record_verify crc record then (poison_reader j, Err (RdChecksumMismatch (jr_sequence record)))
                  else if jr_sequence record \<noteq> jn_expected_sequence j
                  then (poison_reader j, Err (RdSequenceMismatch (jn_expected_sequence j) (jr_sequence record)))
                  else (case checked_add 64 (jn_expected_sequence j) 1 of
                          None \<Rightarrow> (poison_reader j, Err RdPoisoned)
                        | Some n \<Rightarrow> (j\<lparr>jn_expected_sequence := n\<rparr>, Ok record)))
      })"

definition producer_is_closed :: "Journal \<Rightarrow> bool" where
  "producer_is_closed j = (case jn_status j of None \<Rightarrow> False | Some s \<Rightarrow> st_producer_closed s)"

section \<open>Files\<close>

datatype IoError = IoWriteZero | IoInvalidData | IoInvalidInput | IoOther

text \<open>What the operating system answers to a call: a count, an interruption, or an error.\<close>

datatype IoAnswer = IoCount nat | IoInterrupted | IoFails

record JournalFile =
  fl_contents :: "byte list"
  fl_synced :: nat
  fl_answers :: "IoAnswer list"

definition next_answer :: "JournalFile \<Rightarrow> IoAnswer \<Rightarrow> IoAnswer \<times> JournalFile" where
  "next_answer f otherwise = (case fl_answers f of [] \<Rightarrow> (otherwise, f) | a # as \<Rightarrow> (a, f\<lparr>fl_answers := as\<rparr>))"

text \<open>\<open>DurableSink::flush\<close> of a file: \<open>Write::flush\<close> is a no-op, \<open>sync_data\<close> makes the contents durable.\<close>

definition file_flush :: "JournalFile \<Rightarrow> JournalFile \<times> (unit, IoError) result" where
  "file_flush f =
     (case next_answer f (IoCount 0) of
        (IoCount _, f) \<Rightarrow> (f\<lparr>fl_synced := length (fl_contents f)\<rparr>, Ok ())
      | (_, f) \<Rightarrow> (f, Err IoOther))"

text \<open>The loop around \<open>DurableSink::write\<close>. A count above the buffer's length is a broken sink.\<close>

function write_all :: "JournalFile \<Rightarrow> byte list \<Rightarrow> JournalFile \<times> (unit, IoError) result" where
  "write_all f bytes =
     (if bytes = [] then (f, Ok ())
      else case fl_answers f of
        [] \<Rightarrow> (f\<lparr>fl_contents := fl_contents f @ bytes\<rparr>, Ok ())
      | IoFails # as \<Rightarrow> (f\<lparr>fl_answers := as\<rparr>, Err IoOther)
      | IoInterrupted # as \<Rightarrow> write_all (f\<lparr>fl_answers := as\<rparr>) bytes
      | IoCount written # as \<Rightarrow>
          let f = f\<lparr>fl_contents := fl_contents f @ take written bytes, fl_answers := as\<rparr> in
          if written = 0 then (f, Err IoWriteZero)
          else if written \<le> length bytes then write_all f (drop written bytes)
          else (f, Err IoInvalidData))"
  by pat_completeness auto
termination
  by (relation "measure (\<lambda>(f, bytes). length (fl_answers f))") auto

declare write_all.simps [simp del]

section \<open>Persistence worker\<close>

datatype FlushPolicy = EveryBatch | OnShutdown

datatype PersistError =
    PeRead ReadError
  | PeIo IoError
  | PeProducerOpen
  | PePoisoned

record PersistenceWorker =
  pw_journal :: Journal
  pw_sink :: JournalFile
  pw_policy :: FlushPolicy
  pw_poisoned :: bool
  pw_BATCH :: nat

text \<open>A refused construction drops the reader and with it its guard.\<close>

definition worker_new :: "nat \<Rightarrow> Journal \<Rightarrow> JournalFile \<Rightarrow> FlushPolicy \<Rightarrow> Journal \<times> (PersistenceWorker, IoError) result" where
  "worker_new BATCH j sink policy =
     (if BATCH = 0 then (guard_drop j, Err IoInvalidInput)
      else if (case jn_status j of None \<Rightarrow> False
               | Some s \<Rightarrow> jn_reader_poisoned j \<or> jn_expected_sequence j \<noteq> st_next_written_sequence s)
      then (guard_drop j, Err IoInvalidInput)
      else (j, Ok \<lparr>pw_journal = j, pw_sink = sink, pw_policy = policy, pw_poisoned = False, pw_BATCH = BATCH\<rparr>))"

definition worker_fail :: "PersistenceWorker \<Rightarrow> PersistError \<Rightarrow> PersistenceWorker \<times> ('a, PersistError) result" where
  "worker_fail w e = (w\<lparr>pw_poisoned := True, pw_journal := status_poison (pw_journal w)\<rparr>, Err e)"

text \<open>The loop that fills the batch: at most \<open>n\<close> more records.\<close>

fun fill_records :: "crc \<Rightarrow> nat \<Rightarrow> Journal \<Rightarrow> byte list list \<Rightarrow> (Journal \<times> (byte list list, ReadError) result) option" where
  "fill_records crc 0 j batch = Some (j, Ok batch)"
| "fill_records crc (Suc n) j batch =
     do {
       (j, r) \<leftarrow> journal_read crc j;
       (case r of
          Ok record \<Rightarrow> fill_records crc n j (batch @ [record_encode record])
        | Err RdEmpty \<Rightarrow> Some (j, Ok batch)
        | Err e \<Rightarrow> Some (j, Err e))
     }"

fun write_records :: "JournalFile \<Rightarrow> byte list list \<Rightarrow> JournalFile \<times> (unit, IoError) result" where
  "write_records f [] = (f, Ok ())"
| "write_records f (r # rs) =
     (case write_all f r of
        (f, Err e) \<Rightarrow> (f, Err e)
      | (f, Ok _) \<Rightarrow> write_records f rs)"

definition drain_batch :: "crc \<Rightarrow> PersistenceWorker \<Rightarrow> (PersistenceWorker \<times> (nat, PersistError) result) option" where
  "drain_batch crc w =
     (if pw_poisoned w then Some (w, Err PePoisoned)
      else do {
        (j, buf) \<leftarrow> fill_records crc (pw_BATCH w) (pw_journal w) [];
        let w = w\<lparr>pw_journal := j\<rparr>;
        Some (case buf of
                Err e \<Rightarrow> worker_fail w (PeRead e)
              | Ok batch \<Rightarrow>
                  (case write_records (pw_sink w) batch of
                     (f, Err e) \<Rightarrow> worker_fail (w\<lparr>pw_sink := f\<rparr>) (PeIo e)
                   | (f, Ok _) \<Rightarrow>
                       let w = w\<lparr>pw_sink := f\<rparr>;
                           w = (if batch \<noteq> [] then w\<lparr>pw_journal := publish_written j (jn_expected_sequence j)\<rparr> else w) in
                       if batch \<noteq> [] \<and> pw_policy w = EveryBatch
                       then (case file_flush (pw_sink w) of
                               (f, Err e) \<Rightarrow> worker_fail (w\<lparr>pw_sink := f\<rparr>) (PeIo e)
                             | (f, Ok _) \<Rightarrow>
                                 (w\<lparr>pw_sink := f, pw_journal := publish_durable (pw_journal w) (jn_expected_sequence j)\<rparr>,
                                  Ok (length batch)))
                       else (w, Ok (length batch))))
      })"

text \<open>The loop of \<open>shutdown\<close>, which ends when a batch is empty.\<close>

partial_function (option) drain_loop :: "crc \<Rightarrow> PersistenceWorker \<Rightarrow> (PersistenceWorker \<times> (unit, PersistError) result) option" where
  "drain_loop crc w =
     do {
       (w, r) \<leftarrow> drain_batch crc w;
       (case r of
          Err e \<Rightarrow> Some (w, Err e)
        | Ok n \<Rightarrow> if n = 0 then Some (w, Ok ()) else drain_loop crc w)
     }"

definition shutdown :: "crc \<Rightarrow> PersistenceWorker \<Rightarrow> (PersistenceWorker \<times> (unit, PersistError) result) option" where
  "shutdown crc w =
     (if pw_poisoned w then Some (w, Err PePoisoned)
      else if jn_guard_complete (pw_journal w) then Some (w, Ok ())
      else if \<not> producer_is_closed (pw_journal w) then Some (w, Err PeProducerOpen)
      else do {
        (w, r) \<leftarrow> drain_loop crc w;
        Some (case r of
                Err e \<Rightarrow> (w, Err e)
              | Ok _ \<Rightarrow>
                  (case file_flush (pw_sink w) of
                     (f, Err e) \<Rightarrow> worker_fail (w\<lparr>pw_sink := f\<rparr>) (PeIo e)
                   | (f, Ok _) \<Rightarrow>
                       let j = publish_durable (pw_journal w) (jn_expected_sequence (pw_journal w)) in
                       (w\<lparr>pw_sink := f, pw_journal := guard_complete j\<rparr>, Ok ())))
      })"

definition into_sink :: "PersistenceWorker \<Rightarrow> Journal \<times> (JournalFile, PersistError) result" where
  "into_sink w = (guard_drop (pw_journal w), if pw_poisoned w then Err PePoisoned else Ok (pw_sink w))"

section \<open>Recovery scan\<close>

datatype JournalRecoveryError =
    JrIo IoError
  | JrTruncated nat
  | JrDecode nat DecodeError
  | JrSequence SequenceNumber SequenceNumber
  | JrSequenceOverflow

record Recovery =
  rc_records :: nat
  rc_next_sequence :: nat

text \<open>A readable source: the bytes still to come and the answers of the operating system. A read returns
  at least one byte unless the source is at its end.\<close>

record ReadSource =
  rs_bytes :: "byte list"
  rs_answers :: "IoAnswer list"

text \<open>The inner loop: fill the record buffer to its size. \<open>Ok\<close> with fewer bytes is the end of the source.\<close>

function fill_buffer :: "ReadSource \<Rightarrow> byte list \<Rightarrow> ReadSource \<times> (byte list, IoError) result" where
  "fill_buffer src buf =
     (if length buf \<ge> RECORD_SIZE then (src, Ok buf)
      else case rs_answers src of
        [] \<Rightarrow> let n = RECORD_SIZE - length buf in
              (src\<lparr>rs_bytes := drop n (rs_bytes src)\<rparr>, Ok (buf @ take n (rs_bytes src)))
      | IoFails # as \<Rightarrow> (src\<lparr>rs_answers := as\<rparr>, Err IoOther)
      | IoInterrupted # as \<Rightarrow> fill_buffer (src\<lparr>rs_answers := as\<rparr>) buf
      | IoCount k # as \<Rightarrow>
          if rs_bytes src = [] then (src\<lparr>rs_answers := as\<rparr>, Ok buf)
          else let n = min (max 1 k) (RECORD_SIZE - length buf) in
            fill_buffer (src\<lparr>rs_bytes := drop n (rs_bytes src), rs_answers := as\<rparr>) (buf @ take n (rs_bytes src)))"
  by pat_completeness auto
termination
  by (relation "measure (\<lambda>(src, buf). length (rs_answers src))") auto

declare fill_buffer.simps [simp del]

definition saturating_mul :: "nat \<Rightarrow> nat \<Rightarrow> nat" where
  "saturating_mul a b = min (a * b) U64_MAX"

lemma fill_buffer_bytes:
  "fill_buffer src buf = (src', Ok bytes) \<Longrightarrow> buf @ rs_bytes src = bytes @ rs_bytes src'"
proof (induction src buf arbitrary: src' bytes rule: fill_buffer.induct)
  case (1 src buf)
  from 1(3) show ?case
    by (subst (asm) fill_buffer.simps) (auto simp: Let_def split: if_splits list.splits IoAnswer.splits dest: 1(1) 1(2))
qed

function recover_loop :: "crc \<Rightarrow> ReadSource \<Rightarrow> nat \<Rightarrow> nat \<Rightarrow> (Recovery, JournalRecoveryError) result" where
  "recover_loop crc src expected records =
     (case fill_buffer src [] of
        (src', Err e) \<Rightarrow> Err (JrIo e)
      | (src', Ok bytes) \<Rightarrow>
          if bytes = [] then Ok \<lparr>rc_records = records, rc_next_sequence = expected\<rparr>
          else if length bytes < RECORD_SIZE then Err (JrTruncated (length bytes))
          else (case record_decode crc bytes of
                  Err e \<Rightarrow> Err (JrDecode (saturating_mul records RECORD_SIZE) e)
                | Ok record \<Rightarrow>
                    if jr_sequence record \<noteq> expected then Err (JrSequence expected (jr_sequence record))
                    else (case checked_add 64 expected 1 of
                            None \<Rightarrow> Err JrSequenceOverflow
                          | Some expected' \<Rightarrow>
                              (case checked_add 64 records 1 of
                                 None \<Rightarrow> Err JrSequenceOverflow
                               | Some records' \<Rightarrow> recover_loop crc src' expected' records'))))"
  by pat_completeness auto
termination
  by (relation "measure (\<lambda>(crc, src, expected, records). length (rs_bytes src))")
    (auto simp: RECORD_SIZE_def dest!: fill_buffer_bytes [OF sym] arg_cong [where f = length])

declare recover_loop.simps [simp del]

definition recover :: "crc \<Rightarrow> ReadSource \<Rightarrow> nat \<Rightarrow> (Recovery, JournalRecoveryError) result" where
  "recover crc src first_sequence = recover_loop crc src first_sequence 0"

end
