(* ===== verification/JournalProps.thy ===== *)
theory JournalProps
  imports Journal
begin

text \<open>
  Properties of the journal: records survive encoding and decoding, the worker appends the enqueued
  records to the file in order whatever the operating system answers, the published watermarks never
  promise more than the file holds, and the recovery scan reads back exactly the records of a file.
\<close>

named_theorems journal_consts

declare MAX_PAYLOAD_def [journal_consts] RECORD_SIZE_def [journal_consts] RING_CAPACITY_def [journal_consts]
  JOURNAL_VERSION_def [journal_consts] JOURNAL_MAGIC_def [journal_consts] CHECKSUM_OFFSET_def [journal_consts]
  PAYLOAD_OFFSET_def [journal_consts]

section \<open>Records\<close>

definition record_ok :: "crc \<Rightarrow> JournalRecord \<Rightarrow> bool" where
  "record_ok crc r \<longleftrightarrow> record_verify crc r \<and> u64_ok (jr_sequence r) \<and> length (jr_payload r) = MAX_PAYLOAD"

lemma record_encode_layout:
  "record_encode r = be_bytes 2 (jr_magic r) @ [jr_version r, jr_flags r] @ be_bytes 8 (jr_sequence r) @ be_bytes 2 (jr_len r) @
     be_bytes 4 (unat (jr_checksum r)) @ jr_payload r"
  by (simp add: record_encode_def bytes_without_checksum_def journal_consts)

lemma length_record_encode: "length (jr_payload r) = MAX_PAYLOAD \<Longrightarrow> length (record_encode r) = RECORD_SIZE"
  by (simp add: record_encode_layout journal_consts)

lemma record_new_ok:
  assumes "length payload \<le> MAX_PAYLOAD" and "u64_ok sequence"
  shows "\<exists>r. record_new crc sequence payload = Ok r \<and> record_ok crc r \<and> jr_sequence r = sequence \<and> record_slice r = Some payload"
  using assms
  by (simp add: record_new_def record_ok_def record_verify_def record_slice_def Let_def bytes_without_checksum_def
      journal_consts U16_MAX_def)

lemma record_new_Ok_iff: "(\<exists>r. record_new crc sequence payload = Ok r) \<longleftrightarrow> length payload \<le> MAX_PAYLOAD"
  by (auto simp: record_new_def Let_def journal_consts U16_MAX_def)

lemma from_be_pair: "n < 65536 \<Longrightarrow> from_be [word_of_nat (n div 256), word_of_nat n] = n"
  using from_be_be_bytes [of n 2] by (simp add: be_bytes_2)

lemma decode_encode:
  assumes "record_ok crc r"
  shows "record_decode crc (record_encode r) = Ok r"
proof -
  have R: "jr_magic r = JOURNAL_MAGIC" "jr_version r = JOURNAL_VERSION" "jr_flags r = 0" "jr_len r \<le> 46" "jr_sequence r < 2 ^ 64"
    "length (jr_payload r) = 46" "record_verify crc r"
    using assms by (auto simp: record_ok_def record_verify_def record_slice_def u64_ok_def journal_consts split: if_splits)
  let ?b = "record_encode r"
  have m: "from_be [?b ! 0, ?b ! 1] = JOURNAL_MAGIC"
    using from_be_pair [of JOURNAL_MAGIC] R(1) by (simp add: record_encode_layout be_bytes_2 JOURNAL_MAGIC_def)
  have v: "?b ! 2 = JOURNAL_VERSION" "?b ! 3 = 0" using R(2,3) by (simp_all add: record_encode_layout be_bytes_2)
  have s: "from_be (subslice 4 12 ?b) = jr_sequence r"
    using be_field(1) [OF R(5)] by (simp add: record_encode_layout subslice_walk)
  have l: "from_be [?b ! 12, ?b ! 13] = jr_len r"
    using from_be_pair [of "jr_len r"] R(4) by (simp add: record_encode_layout tail_append_nth be_bytes_2)
  have "subslice 14 18 ?b = be_bytes 4 (unat (jr_checksum r))" by (simp add: record_encode_layout subslice_walk)
  moreover have "unat (jr_checksum r) < 2 ^ 32" using unsigned_less [of "jr_checksum r"] by simp
  ultimately have c: "word_of_nat (from_be (subslice CHECKSUM_OFFSET PAYLOAD_OFFSET ?b)) = jr_checksum r"
    using be_field(2) [of "unat (jr_checksum r)"] by (simp add: journal_consts)
  have p: "drop PAYLOAD_OFFSET ?b = jr_payload r" by (simp add: record_encode_layout PAYLOAD_OFFSET_def)
  have "record_decode crc ?b = (let record = \<lparr>jr_sequence = jr_sequence r, jr_checksum = jr_checksum r, jr_len = jr_len r,
      jr_magic = jr_magic r, jr_payload = jr_payload r, jr_version = jr_version r, jr_flags = jr_flags r\<rparr> in
      if \<not> record_verify crc record then Err (JdChecksumMismatch (jr_sequence r)) else Ok record)"
    using m v s l c p R(1-4) by (simp add: record_decode_def Let_def MAX_PAYLOAD_def)
  moreover have "\<lparr>jr_sequence = jr_sequence r, jr_checksum = jr_checksum r, jr_len = jr_len r, jr_magic = jr_magic r,
      jr_payload = jr_payload r, jr_version = jr_version r, jr_flags = jr_flags r\<rparr> = r" by simp
  ultimately show ?thesis using R(7) by (simp only: Let_def not_not if_True if_False simp_thms)
qed

lemma decode_canonical:
  assumes b: "length b = RECORD_SIZE" and r: "record_decode crc b = Ok r"
  shows "record_ok crc r \<and> record_encode r = b"
proof -
  have R: "jr_magic r = from_be [b ! 0, b ! 1]" "jr_version r = b ! 2" "jr_flags r = b ! 3" "jr_sequence r = from_be (subslice 4 12 b)"
    "jr_len r = from_be [b ! 12, b ! 13]" "jr_checksum r = word_of_nat (from_be (subslice CHECKSUM_OFFSET PAYLOAD_OFFSET b))"
    "jr_payload r = drop PAYLOAD_OFFSET b" "record_verify crc r"
    using r by (auto simp: record_decode_def Let_def split: if_splits)
  have L: "length b = 64" using b by (simp add: RECORD_SIZE_def)
  have pair: "be_bytes 2 (from_be [x, y]) = [x, y]" for x y
    using be_bytes_from_be [of "[x, y]"] by (simp add: numeral_2_eq_2 del: be_bytes.simps)
  have c: "be_bytes 4 (unat (jr_checksum r)) = subslice 14 18 b"
    using from_be_subslice_4 [of 18 14 b] be_bytes_subslice [of 14 4 b] L R(6)
    by (simp add: journal_consts unat_of_nat take_bit_nat_eq_self del: be_bytes.simps)
  have heads: "[b ! 0, b ! 1] @ [b ! 2, b ! 3] = subslice 0 4 b" "[b ! 12, b ! 13] = subslice 12 14 b"
    using L by (auto intro!: nth_equalityI simp: subslice_def less_Suc_eq numeral_eq_Suc)
  have "record_encode r = ([b ! 0, b ! 1] @ [b ! 2, b ! 3]) @ subslice 4 12 b @ [b ! 12, b ! 13] @ subslice 14 18 b @ drop 18 b"
    using R(1-5,7) c pair be_bytes_subslice [of 4 8 b] L by (simp add: record_encode_layout PAYLOAD_OFFSET_def del: be_bytes.simps)
  also have "\<dots> = subslice 0 4 b @ subslice 4 12 b @ subslice 12 14 b @ subslice 14 18 b @ subslice 18 64 b"
    unfolding heads using L by (simp add: subslice_def)
  also have "\<dots> = b" using L by (simp add: subslice_append)
  finally show ?thesis using R(4,7,8) L from_be_subslice_8 [of 12 4 b] by (simp add: record_ok_def u64_ok_def journal_consts)
qed

section \<open>Files\<close>

text \<open>Whatever the answers, a write appends a prefix of the bytes, all of them when it reports success.\<close>

lemma write_all_effect:
  "\<exists>f' p q r. write_all f bytes = (f', r) \<and> bytes = p @ q \<and> fl_contents f' = fl_contents f @ p \<and> fl_synced f' = fl_synced f \<and>
     (r = Ok () \<longrightarrow> q = [])"
proof (induction f bytes rule: write_all.induct)
  case (1 f bytes)
  show ?case
  proof (cases "bytes = []")
    case False
    show ?thesis
    proof (cases "fl_answers f")
      case Nil
      with False show ?thesis by (subst write_all.simps) simp
    next
      case (Cons a as)
      show ?thesis
      proof (cases a)
        case (IoCount n)
        let ?f = "f\<lparr>fl_contents := fl_contents f @ take n bytes, fl_answers := as\<rparr>"
        show ?thesis
        proof (cases "0 < n \<and> n \<le> length bytes")
          case True
          then have n: "n \<noteq> 0" "n \<le> length bytes" by auto
          from 1(1) [OF False Cons IoCount refl n] obtain f' p q r where
            w: "write_all ?f (drop n bytes) = (f', r)" "drop n bytes = p @ q" "fl_contents f' = fl_contents ?f @ p"
              "fl_synced f' = fl_synced ?f" "r = Ok () \<longrightarrow> q = []" by blast
          have "bytes = (take n bytes @ p) @ q" using w(2) by (metis append_assoc append_take_drop_id)
          with w True Cons IoCount False show ?thesis by (subst write_all.simps) (auto simp: Let_def)
        next
          case no: False
          have "bytes = take n bytes @ drop n bytes" by simp
          moreover have "\<exists>e. write_all f bytes = (?f, Err e)" using no Cons IoCount False by (subst write_all.simps) auto
          moreover have "fl_contents ?f = fl_contents f @ take n bytes" "fl_synced ?f = fl_synced f" by simp_all
          ultimately show ?thesis by blast
        qed
      next
        case IoInterrupted
        from 1(2) [OF False Cons IoInterrupted] Cons IoInterrupted False show ?thesis by (subst write_all.simps) auto
      next
        case IoFails
        with Cons False show ?thesis by (subst write_all.simps) auto
      qed
    qed
  qed (subst write_all.simps, simp)
qed

lemma write_records_effect:
  "\<exists>f' p q r. write_records f rs = (f', r) \<and> concat rs = p @ q \<and> fl_contents f' = fl_contents f @ p \<and> fl_synced f' = fl_synced f \<and>
     (r = Ok () \<longrightarrow> q = [])"
proof (induction rs arbitrary: f)
  case (Cons b rs)
  from write_all_effect [of f b] obtain f1 p1 q1 r1 where
    w: "write_all f b = (f1, r1)" "b = p1 @ q1" "fl_contents f1 = fl_contents f @ p1" "fl_synced f1 = fl_synced f" "r1 = Ok () \<longrightarrow> q1 = []" by blast
  show ?case
  proof (cases r1)
    case (Ok u)
    with w(5) have q: "q1 = []" by (cases u) simp
    from Cons [of f1] obtain f' p q' r where
      x: "write_records f1 rs = (f', r)" "concat rs = p @ q'" "fl_contents f' = fl_contents f1 @ p" "fl_synced f' = fl_synced f1"
        "r = Ok () \<longrightarrow> q' = []" by blast
    have "concat (b # rs) = (p1 @ p) @ q'" using w(2) q x(2) by simp
    with w(1,3,4) Ok x show ?thesis by auto
  next
    case (Err e)
    have "concat (b # rs) = p1 @ (q1 @ concat rs)" using w(2) by simp
    with w Err show ?thesis by auto
  qed
qed simp

lemma file_flush_effect:
  "\<exists>f'. fl_contents f' = fl_contents f \<and>
     (file_flush f = (f', Ok ()) \<and> fl_synced f' = length (fl_contents f) \<or> (\<exists>e. file_flush f = (f', Err e) \<and> fl_synced f' = fl_synced f))"
  by (simp add: file_flush_def next_answer_def split: list.splits IoAnswer.splits)

section \<open>Reading the ring\<close>

text \<open>
  The records enqueued so far, numbered from \<open>first\<close>, with the first \<open>k\<close> already read: what the two
  ends and the ring hold.
\<close>

definition numbered_records :: "crc \<Rightarrow> nat \<Rightarrow> JournalRecord list \<Rightarrow> bool" where
  "numbered_records crc first rs \<longleftrightarrow> (\<forall>i < length rs. record_ok crc (rs ! i) \<and> jr_sequence (rs ! i) = first + i)"

definition channel_inv :: "crc \<Rightarrow> nat \<Rightarrow> JournalRecord list \<Rightarrow> nat \<Rightarrow> Journal \<Rightarrow> bool" where
  "channel_inv crc first rs k j \<longleftrightarrow> numbered_records crc first rs \<and> k \<le> length rs \<and> jn_next_sequence j = first + length rs \<and>
     u64_ok (first + length rs) \<and> jn_expected_sequence j = first + k \<and> \<not> jn_reader_poisoned j \<and> ring_holds (jn_ring j) (drop k rs)"

lemma read_effect:
  assumes inv: "channel_inv crc first rs k j"
  shows "\<exists>ring. journal_read crc j =
      Some (if k < length rs then (j\<lparr>jn_ring := ring, jn_expected_sequence := first + Suc k\<rparr>, Ok (rs ! k)) else (j\<lparr>jn_ring := ring\<rparr>, Err RdEmpty)) \<and>
    ring_holds ring (drop (Suc k) rs)"
proof -
  have I: "\<not> jn_reader_poisoned j" "ring_holds (jn_ring j) (drop k rs)" "k \<le> length rs" "jn_expected_sequence j = first + k"
    "first + length rs < 2 ^ 64" using inv by (auto simp: channel_inv_def u64_ok_def)
  show ?thesis
  proof (cases "k < length rs")
    case False
    with I(3) have "drop k rs = []" by simp
    with I(2) ring.pop_empty [of "jn_ring j"] obtain ring where "ring_pop (jn_ring j) = Some (ring, None)" "ring_holds ring []" by auto
    with I False show ?thesis by (auto simp: journal_read_def)
  next
    case True
    then have "drop k rs = rs ! k # drop (Suc k) rs" by (simp add: Cons_nth_drop_Suc)
    with I(2) ring.pop_front [of "jn_ring j" "rs ! k" "drop (Suc k) rs"] obtain ring where
      p: "ring_pop (jn_ring j) = Some (ring, Some (rs ! k))" "ring_holds ring (drop (Suc k) rs)" by auto
    have "record_verify crc (rs ! k)" "jr_sequence (rs ! k) = first + k"
      using inv True by (auto simp: channel_inv_def numbered_records_def record_ok_def)
    with p I True show ?thesis by (auto simp: journal_read_def checked_add_def)
  qed
qed

lemma fill_effect:
  assumes "channel_inv crc first rs k j"
  shows "\<exists>ring. let m = min n (length rs - k) in
    fill_records crc n j batch = Some (j\<lparr>jn_ring := ring, jn_expected_sequence := first + (k + m)\<rparr>, Ok (batch @ map record_encode (take m (drop k rs)))) \<and>
    ring_holds ring (drop (k + m) rs)"
  using assms
proof (induction n arbitrary: k j batch)
  case 0
  have "j\<lparr>jn_ring := jn_ring j, jn_expected_sequence := first + k\<rparr> = j" using 0 by (simp add: channel_inv_def)
  with 0 show ?case by (auto simp: channel_inv_def intro!: exI [of _ "jn_ring j"])
next
  case (Suc n)
  from read_effect [OF Suc.prems] obtain ring where
    r: "journal_read crc j = Some (if k < length rs then (j\<lparr>jn_ring := ring, jn_expected_sequence := first + Suc k\<rparr>, Ok (rs ! k)) else (j\<lparr>jn_ring := ring\<rparr>, Err RdEmpty))"
      "ring_holds ring (drop (Suc k) rs)" by blast
  show ?case
  proof (cases "k < length rs")
    case False
    then have "j\<lparr>jn_ring := ring, jn_expected_sequence := first + k\<rparr> = j\<lparr>jn_ring := ring\<rparr>" "length rs - k = 0" "drop k rs = []"
      using Suc.prems by (auto simp: channel_inv_def)
    with r False show ?thesis by (auto intro!: exI [of _ ring])
  next
    case True
    let ?j = "j\<lparr>jn_ring := ring, jn_expected_sequence := first + Suc k\<rparr>"
    have "channel_inv crc first rs (Suc k) ?j" using Suc.prems True r(2) by (simp add: channel_inv_def)
    from Suc.IH [OF this, of "batch @ [record_encode (rs ! k)]"] obtain ring' where
      x: "fill_records crc n ?j (batch @ [record_encode (rs ! k)]) =
        Some (?j\<lparr>jn_ring := ring', jn_expected_sequence := first + (Suc k + min n (length rs - Suc k))\<rparr>,
          Ok (batch @ [record_encode (rs ! k)] @ map record_encode (take (min n (length rs - Suc k)) (drop (Suc k) rs))))"
        "ring_holds ring' (drop (Suc k + min n (length rs - Suc k)) rs)" by (auto simp: Let_def)
    have m: "min (Suc n) (length rs - k) = Suc (min n (length rs - Suc k))" using True by auto
    have "take (Suc (min n (length rs - Suc k))) (drop k rs) = rs ! k # take (min n (length rs - Suc k)) (drop (Suc k) rs)"
      using True by (simp add: Cons_nth_drop_Suc [symmetric])
    with r(1) True x show ?thesis unfolding m by (auto simp: Let_def intro!: exI [of _ ring'])
  qed
qed

section \<open>The worker\<close>

named_theorems status_defs

declare status_poison_def [status_defs] publish_written_def [status_defs] publish_durable_def [status_defs]
  guard_complete_def [status_defs] writer_close_def [status_defs] producer_is_closed_def [status_defs]

text \<open>
  Of the records \<open>rs\<close> the worker has read \<open>k\<close>, written \<open>a\<close> completely and made \<open>d\<close> durable. The file is
  its contents at the start, the written records, and a prefix of the batch being written when a write
  failed; only a poisoned worker has such a rest.
\<close>

definition status_inv :: "nat \<Rightarrow> PersistenceWorker \<Rightarrow> nat \<Rightarrow> nat \<Rightarrow> nat \<Rightarrow> bool" where
  "status_inv first w n a d \<longleftrightarrow> (\<exists>st. jn_status (pw_journal w) = Some st \<and> st_next_written_sequence st = first + a \<and>
     st_next_durable_sequence st = first + d \<and> st_poisoned st = pw_poisoned w \<and>
     st_shutdown_complete st = jn_guard_complete (pw_journal w) \<and>
     (jn_guard_complete (pw_journal w) \<longrightarrow> st_producer_closed st \<and> d = n \<and> \<not> pw_poisoned w))"

definition file_inv :: "byte list \<Rightarrow> JournalFile \<Rightarrow> JournalRecord list \<Rightarrow> nat \<Rightarrow> nat \<Rightarrow> nat \<Rightarrow> bool" where
  "file_inv base f rs k a d \<longleftrightarrow>
     (\<exists>p q. concat (map record_encode (take (k - a) (drop a rs))) = p @ q \<and>
        fl_contents f = base @ concat (map record_encode (take a rs)) @ p) \<and>
     (0 < d \<longrightarrow> length base + RECORD_SIZE * d \<le> fl_synced f) \<and> fl_synced f \<le> length (fl_contents f)"

definition worker_inv :: "crc \<Rightarrow> nat \<Rightarrow> byte list \<Rightarrow> PersistenceWorker \<Rightarrow> JournalRecord list \<Rightarrow> nat \<Rightarrow> nat \<Rightarrow> nat \<Rightarrow> bool" where
  "worker_inv crc first base w rs k a d \<longleftrightarrow> channel_inv crc first rs k (pw_journal w) \<and> d \<le> a \<and> a \<le> k \<and> 0 < pw_BATCH w \<and>
     (\<not> pw_poisoned w \<longrightarrow> a = k) \<and> status_inv first w (length rs) a d \<and> file_inv base (pw_sink w) rs k a d"

lemma length_concat_records:
  assumes "numbered_records crc first rs" and "a \<le> length rs"
  shows "length (concat (map record_encode (take a rs))) = RECORD_SIZE * a"
proof -
  have "length (record_encode r) = RECORD_SIZE" if "r \<in> set rs" for r
    using that assms(1) by (auto simp: numbered_records_def in_set_conv_nth record_ok_def intro: length_record_encode)
  then have "map (\<lambda>r. length (record_encode r)) (take a rs) = map (\<lambda>_. RECORD_SIZE) (take a rs)"
    by (intro map_cong) (auto dest: in_set_takeD)
  then have "sum_list (map (\<lambda>r. length (record_encode r)) (take a rs)) = RECORD_SIZE * a"
    using assms(2) by (simp only: sum_list_triv) simp
  then show ?thesis by (simp add: length_concat o_def)
qed

text \<open>The file after a batch: a failed write leaves a prefix of it, a complete one all of it.\<close>

lemma file_inv_partial:
  assumes "file_inv base f rs k k d" and "concat (map record_encode (take m (drop k rs))) = p @ q"
    and "fl_contents f' = fl_contents f @ p" and "fl_synced f' = fl_synced f"
  shows "file_inv base f' rs (k + m) k d"
  using assms by (auto simp: file_inv_def)

lemma file_inv_written:
  assumes "file_inv base f rs k k d" and "fl_contents f' = fl_contents f @ concat (map record_encode (take m (drop k rs)))"
    and "fl_synced f' = fl_synced f"
  shows "file_inv base f' rs (k + m) (k + m) d"
proof -
  have "concat (map record_encode (take (k + m) rs)) = concat (map record_encode (take k rs)) @ concat (map record_encode (take m (drop k rs)))"
    by (simp add: take_add)
  with assms show ?thesis by (auto simp: file_inv_def)
qed

lemma file_inv_synced:
  assumes "file_inv base f rs k k d" and "numbered_records crc first rs" and "k \<le> length rs"
    and "fl_contents f' = fl_contents f" and "fl_synced f' = length (fl_contents f)"
  shows "file_inv base f' rs k k k"
  using assms length_concat_records [OF assms(2,3)] by (auto simp: file_inv_def)

lemma file_inv_same:
  "file_inv base f rs k a d \<Longrightarrow> fl_contents f' = fl_contents f \<Longrightarrow> fl_synced f' = fl_synced f \<Longrightarrow> file_inv base f' rs k a d"
  by (simp add: file_inv_def)

definition same_worker :: "PersistenceWorker \<Rightarrow> PersistenceWorker \<Rightarrow> bool" where
  "same_worker w w' \<longleftrightarrow> pw_BATCH w' = pw_BATCH w \<and> pw_policy w' = pw_policy w \<and>
     producer_is_closed (pw_journal w') = producer_is_closed (pw_journal w) \<and>
     jn_guard_complete (pw_journal w') = jn_guard_complete (pw_journal w)"

lemma drain_effect:
  assumes inv: "worker_inv crc first base w rs k a d"
  shows "\<exists>w' r k' a' d'. drain_batch crc w = Some (w', r) \<and> worker_inv crc first base w' rs k' a' d' \<and> same_worker w w' \<and>
    (case r of Ok n \<Rightarrow> \<not> pw_poisoned w \<and> \<not> pw_poisoned w' \<and> n = min (pw_BATCH w) (length rs - k) \<and> k' = k + n | Err e \<Rightarrow> pw_poisoned w')"
proof (cases "pw_poisoned w")
  case True
  with inv show ?thesis by (auto simp: drain_batch_def same_worker_def)
next
  case False
  have I: "channel_inv crc first rs k (pw_journal w)" "d \<le> k" "a = k" "0 < pw_BATCH w" "status_inv first w (length rs) k d"
    "file_inv base (pw_sink w) rs k k d" "k \<le> length rs" "numbered_records crc first rs"
    using inv False by (auto simp: worker_inv_def channel_inv_def)
  let ?m = "min (pw_BATCH w) (length rs - k)" and ?j = "pw_journal w"
  let ?batch = "map record_encode (take ?m (drop k rs))"
  from fill_effect [OF I(1), of "pw_BATCH w" "[]"] obtain ring where
    fill: "fill_records crc (pw_BATCH w) ?j [] = Some (?j\<lparr>jn_ring := ring, jn_expected_sequence := first + (k + ?m)\<rparr>, Ok ?batch)"
      "ring_holds ring (drop (k + ?m) rs)" by (auto simp: Let_def)
  let ?j1 = "?j\<lparr>jn_ring := ring, jn_expected_sequence := first + (k + ?m)\<rparr>"
  have ch: "channel_inv crc first rs (k + ?m) ?j1" using I(1) fill(2) by (auto simp: channel_inv_def)
  from I(5) obtain st where st: "jn_status ?j = Some st" "st_next_written_sequence st = first + k" "st_next_durable_sequence st = first + d"
    "\<not> st_poisoned st" "st_shutdown_complete st = jn_guard_complete ?j"
    "jn_guard_complete ?j \<longrightarrow> st_producer_closed st \<and> d = length rs" using False unfolding status_inv_def by blast
  from write_records_effect [of "pw_sink w" ?batch] obtain f p q r1 where
    wr: "write_records (pw_sink w) ?batch = (f, r1)" "concat ?batch = p @ q" "fl_contents f = fl_contents (pw_sink w) @ p"
      "fl_synced f = fl_synced (pw_sink w)" "r1 = Ok () \<longrightarrow> q = []" by blast
  have idle: "?m = 0" if "jn_guard_complete ?j" using that st(6) I(2,7) by auto
  show ?thesis
  proof (cases r1)
    case (Err e)
    let ?w = "w\<lparr>pw_journal := status_poison ?j1, pw_sink := f, pw_poisoned := True\<rparr>"
    have "\<not> jn_guard_complete ?j" using idle wr(1) Err by auto
    then have "worker_inv crc first base ?w rs (k + ?m) k d"
      using ch I(2-4) st file_inv_partial [OF I(6) wr(2-4)] by (auto simp: worker_inv_def channel_inv_def status_inv_def status_defs)
    moreover have "drain_batch crc w = Some (?w, Err (PeIo e))" using False fill(1) wr(1) Err by (simp add: drain_batch_def worker_fail_def)
    moreover have "same_worker w ?w" using st by (simp add: same_worker_def status_defs)
    ultimately show ?thesis by fastforce
  next
    case (Ok u)
    then have f1: "file_inv base f rs (k + ?m) (k + ?m) d" using file_inv_written [OF I(6), of f ?m] wr by (cases u) simp
    show ?thesis
    proof (cases "?m = 0")
      case True
      let ?w = "w\<lparr>pw_journal := ?j1, pw_sink := f\<rparr>"
      have "drain_batch crc w = Some (?w, Ok 0)" using False fill(1) wr(1) Ok True by (simp add: drain_batch_def)
      moreover have "worker_inv crc first base ?w rs (k + ?m) (k + ?m) d"
        using ch I(2,4) st f1 True False by (auto simp: worker_inv_def status_inv_def)
      moreover have "same_worker w ?w" by (simp add: same_worker_def status_defs)
      ultimately show ?thesis using False True by fastforce
    next
      case m: False
      then have g: "\<not> jn_guard_complete ?j" using idle by auto
      have ne: "?batch \<noteq> []" "length ?batch = ?m" using m I(7) by auto
      let ?j2 = "publish_written ?j1 (first + (k + ?m))"
      show ?thesis
      proof (cases "pw_policy w")
        case OnShutdown
        let ?w = "w\<lparr>pw_journal := ?j2, pw_sink := f\<rparr>"
        have "drain_batch crc w = Some (?w, Ok ?m)" using False fill(1) wr(1) Ok ne OnShutdown by (simp add: drain_batch_def Let_def)
        moreover have "worker_inv crc first base ?w rs (k + ?m) (k + ?m) d"
          using ch I(2,4) st f1 False g by (auto simp: worker_inv_def status_inv_def channel_inv_def status_defs)
        moreover have "same_worker w ?w" using st by (simp add: same_worker_def status_defs)
        ultimately show ?thesis using False by fastforce
      next
        case EveryBatch
        from file_flush_effect [of f] obtain f' where
          fl: "fl_contents f' = fl_contents f" "file_flush f = (f', Ok ()) \<and> fl_synced f' = length (fl_contents f) \<or>
            (\<exists>e. file_flush f = (f', Err e) \<and> fl_synced f' = fl_synced f)" by blast
        from fl(2) show ?thesis
        proof (elim disjE exE conjE)
          assume a: "file_flush f = (f', Ok ())" "fl_synced f' = length (fl_contents f)"
          let ?w = "w\<lparr>pw_journal := publish_durable ?j2 (first + (k + ?m)), pw_sink := f'\<rparr>"
          have le: "k + ?m \<le> length rs" using I(7) by simp
          have "drain_batch crc w = Some (?w, Ok ?m)"
            using False fill(1) wr(1) Ok ne EveryBatch a(1) by (simp add: drain_batch_def Let_def)
          moreover have "worker_inv crc first base ?w rs (k + ?m) (k + ?m) (k + ?m)"
            using ch I(4) st file_inv_synced [OF f1 I(8) le fl(1) a(2)] False g
            by (auto simp: worker_inv_def status_inv_def channel_inv_def status_defs)
          moreover have "same_worker w ?w" using st by (simp add: same_worker_def status_defs)
          ultimately show ?thesis using False by fastforce
        next
          fix e assume a: "file_flush f = (f', Err e)" "fl_synced f' = fl_synced f"
          let ?w = "w\<lparr>pw_journal := status_poison ?j2, pw_sink := f', pw_poisoned := True\<rparr>"
          have "drain_batch crc w = Some (?w, Err (PeIo e))"
            using False fill(1) wr(1) Ok ne EveryBatch a(1) by (simp add: drain_batch_def Let_def worker_fail_def)
          moreover have "worker_inv crc first base ?w rs (k + ?m) (k + ?m) d"
            using ch I(2,4) st file_inv_same [OF f1 fl(1) a(2)] g by (auto simp: worker_inv_def status_inv_def channel_inv_def status_defs)
          moreover have "same_worker w ?w" using st by (simp add: same_worker_def status_defs)
          ultimately show ?thesis by fastforce
        qed
      qed
    qed
  qed
qed

text \<open>The loop of the shutdown ends: every round but the last takes a record from the ring.\<close>

lemma same_worker_trans: "same_worker w w' \<Longrightarrow> same_worker w' w'' \<Longrightarrow> same_worker w w''"
  by (simp add: same_worker_def)

lemma drain_loop_effect:
  assumes "worker_inv crc first base w rs k a d" and "\<not> pw_poisoned w"
  shows "\<exists>w' r k' a' d'. drain_loop crc w = Some (w', r) \<and> worker_inv crc first base w' rs k' a' d' \<and> same_worker w w' \<and>
    (case r of Ok _ \<Rightarrow> \<not> pw_poisoned w' \<and> k' = length rs | Err e \<Rightarrow> pw_poisoned w')"
  using assms
proof (induction "length rs - k" arbitrary: w k a d rule: less_induct)
  case less
  from drain_effect [OF less.prems(1)] obtain w1 r1 k1 a1 d1 where
    w1: "drain_batch crc w = Some (w1, r1)" "worker_inv crc first base w1 rs k1 a1 d1" "same_worker w w1"
      "case r1 of Ok n \<Rightarrow> \<not> pw_poisoned w \<and> \<not> pw_poisoned w1 \<and> n = min (pw_BATCH w) (length rs - k) \<and> k1 = k + n | Err e \<Rightarrow> pw_poisoned w1"
    by blast
  have B: "0 < pw_BATCH w" "k \<le> length rs" using less.prems(1) by (auto simp: worker_inv_def channel_inv_def)
  show ?case
  proof (cases r1)
    case (Err e)
    with w1 show ?thesis by (subst drain_loop.simps) auto
  next
    case (Ok n)
    with w1(4) have n: "\<not> pw_poisoned w1" "n = min (pw_BATCH w) (length rs - k)" "k1 = k + n" by auto
    show ?thesis
    proof (cases "n = 0")
      case True
      with n B have "k1 = length rs" by (auto simp: min_def split: if_splits)
      with True Ok w1 n(1) show ?thesis by (subst drain_loop.simps) auto
    next
      case False
      have "length rs - k1 < length rs - k" using n(2,3) False by auto
      from less.hyps [OF this w1(2) n(1)] obtain w' r k' a' d' where
        x: "drain_loop crc w1 = Some (w', r)" "worker_inv crc first base w' rs k' a' d'" "same_worker w1 w'"
          "case r of Ok _ \<Rightarrow> \<not> pw_poisoned w' \<and> k' = length rs | Err e \<Rightarrow> pw_poisoned w'" by blast
      have "drain_loop crc w = Some (w', r)" using w1(1) Ok False x(1) by (subst drain_loop.simps) simp
      with x(2,4) same_worker_trans [OF w1(3) x(3)] show ?thesis by blast
    qed
  qed
qed

lemma shutdown_effect:
  assumes inv: "worker_inv crc first base w rs k a d"
  shows "\<exists>w' r k' a' d'. shutdown crc w = Some (w', r) \<and> worker_inv crc first base w' rs k' a' d' \<and>
    producer_is_closed (pw_journal w') = producer_is_closed (pw_journal w) \<and>
    (r = Ok () \<longrightarrow> jn_guard_complete (pw_journal w'))"
proof (cases "pw_poisoned w \<or> jn_guard_complete (pw_journal w) \<or> \<not> producer_is_closed (pw_journal w)")
  case True
  with inv show ?thesis by (auto simp: shutdown_def)
next
  case False
  then have F: "\<not> pw_poisoned w" "\<not> jn_guard_complete (pw_journal w)" "producer_is_closed (pw_journal w)" by auto
  from drain_loop_effect [OF inv F(1)] obtain w1 r1 k1 a1 d1 where
    w1: "drain_loop crc w = Some (w1, r1)" "worker_inv crc first base w1 rs k1 a1 d1" "same_worker w w1"
      "case r1 of Ok _ \<Rightarrow> \<not> pw_poisoned w1 \<and> k1 = length rs | Err e \<Rightarrow> pw_poisoned w1" by blast
  then have S: "producer_is_closed (pw_journal w1)" "\<not> jn_guard_complete (pw_journal w1)" using F by (auto simp: same_worker_def)
  show ?thesis
  proof (cases r1)
    case (Err e)
    with w1 F S show ?thesis by (auto simp: shutdown_def)
  next
    case (Ok u)
    with w1(2,4) have n: "\<not> pw_poisoned w1" "k1 = length rs" "a1 = k1" by (auto simp: worker_inv_def)
    have I: "file_inv base (pw_sink w1) rs k1 k1 d1" "numbered_records crc first rs" "channel_inv crc first rs k1 (pw_journal w1)"
      "status_inv first w1 (length rs) k1 d1" "0 < pw_BATCH w1" "d1 \<le> k1"
      using w1(2) n(3) by (auto simp: worker_inv_def channel_inv_def)
    from I(4) obtain st where st: "jn_status (pw_journal w1) = Some st" "st_next_written_sequence st = first + k1"
      "st_next_durable_sequence st = first + d1" "\<not> st_poisoned st" "\<not> st_shutdown_complete st"
      using n(1) S(2) unfolding status_inv_def by blast
    from file_flush_effect [of "pw_sink w1"] obtain f' where
      fl: "fl_contents f' = fl_contents (pw_sink w1)" "file_flush (pw_sink w1) = (f', Ok ()) \<and> fl_synced f' = length (fl_contents (pw_sink w1)) \<or>
        (\<exists>e. file_flush (pw_sink w1) = (f', Err e) \<and> fl_synced f' = fl_synced (pw_sink w1))" by blast
    from fl(2) show ?thesis
    proof (elim disjE exE conjE)
      assume a: "file_flush (pw_sink w1) = (f', Ok ())" "fl_synced f' = length (fl_contents (pw_sink w1))"
      let ?w = "w1\<lparr>pw_journal := guard_complete (publish_durable (pw_journal w1) (first + k1)), pw_sink := f'\<rparr>"
      have "jn_expected_sequence (pw_journal w1) = first + k1" using I(3) by (simp add: channel_inv_def)
      then have "shutdown crc w = Some (?w, Ok ())" using F w1(1) Ok a(1) by (simp add: shutdown_def Let_def)
      moreover have "worker_inv crc first base ?w rs k1 k1 k1"
        using file_inv_synced [OF I(1,2) _ fl(1) a(2)] I(3,5) st S n
        by (auto simp: worker_inv_def status_inv_def channel_inv_def status_defs)
      moreover have "producer_is_closed (pw_journal ?w)" "jn_guard_complete (pw_journal ?w)" using st S by (auto simp: status_defs)
      ultimately show ?thesis using F(3) by blast
    next
      fix e assume a: "file_flush (pw_sink w1) = (f', Err e)" "fl_synced f' = fl_synced (pw_sink w1)"
      let ?w = "w1\<lparr>pw_journal := status_poison (pw_journal w1), pw_sink := f', pw_poisoned := True\<rparr>"
      have "shutdown crc w = Some (?w, Err (PeIo e))" using F w1(1) Ok a(1) by (simp add: shutdown_def Let_def worker_fail_def)
      moreover have "worker_inv crc first base ?w rs k1 k1 d1"
        using file_inv_same [OF I(1) fl(1) a(2)] I(3,5,6) st S n
        by (auto simp: worker_inv_def status_inv_def channel_inv_def status_defs)
      moreover have "producer_is_closed (pw_journal ?w)" using st S by (auto simp: status_defs)
      ultimately show ?thesis using F(3) by auto
    qed
  qed
qed

section \<open>Runs\<close>

text \<open>
  A controlled journal over time: the writer enqueues payloads until it closes, the worker drains and
  shuts down, in any order and with any answers of the operating system. The records enqueued with
  success, in order, are recorded.
\<close>

inductive journal_run :: "crc \<Rightarrow> nat \<Rightarrow> byte list \<Rightarrow> PersistenceWorker \<Rightarrow> JournalRecord list \<Rightarrow> bool" for crc first base where
  run_begin: "u64_ok first \<Longrightarrow> channel_split first = Ok j \<Longrightarrow> synced \<le> length base \<Longrightarrow>
    worker_new BATCH j \<lparr>fl_contents = base, fl_synced = synced, fl_answers = answers\<rparr> policy = (j', Ok w) \<Longrightarrow>
    journal_run crc first base w []"
| run_enqueue: "journal_run crc first base w rs \<Longrightarrow> \<not> producer_is_closed (pw_journal w) \<Longrightarrow>
    journal_enqueue crc (pw_journal w) payload = Some (j, Ok sequence) \<Longrightarrow> record_new crc sequence payload = Ok r \<Longrightarrow>
    journal_run crc first base (w\<lparr>pw_journal := j\<rparr>) (rs @ [r])"
| run_refused: "journal_run crc first base w rs \<Longrightarrow> \<not> producer_is_closed (pw_journal w) \<Longrightarrow>
    journal_enqueue crc (pw_journal w) payload = Some (j, Err e) \<Longrightarrow> journal_run crc first base (w\<lparr>pw_journal := j\<rparr>) rs"
| run_close: "journal_run crc first base w rs \<Longrightarrow> journal_run crc first base (w\<lparr>pw_journal := writer_close (pw_journal w)\<rparr>) rs"
| run_drain: "journal_run crc first base w rs \<Longrightarrow> drain_batch crc w = Some (w', r) \<Longrightarrow> journal_run crc first base w' rs"
| run_shutdown: "journal_run crc first base w rs \<Longrightarrow> shutdown crc w = Some (w', r) \<Longrightarrow> journal_run crc first base w' rs"

lemma enqueue_effect:
  assumes ch: "channel_inv crc first rs k j"
  shows "\<exists>ring r. journal_enqueue crc j payload = Some (case r of Ok _ \<Rightarrow> j\<lparr>jn_ring := ring, jn_next_sequence := first + Suc (length rs)\<rparr> | Err _ \<Rightarrow> j\<lparr>jn_ring := ring\<rparr>, r) \<and>
    (case r of
       Ok s \<Rightarrow> s = first + length rs \<and> (\<exists>record. record_new crc s payload = Ok record \<and> record_ok crc record \<and> jr_sequence record = s \<and>
         record_slice record = Some payload \<and> ring_holds ring (drop k rs @ [record])) \<and> u64_ok (first + Suc (length rs))
     | Err _ \<Rightarrow> ring_holds ring (drop k rs))"
proof -
  have I: "jn_next_sequence j = first + length rs" "u64_ok (first + length rs)" "ring_holds (jn_ring j) (drop k rs)"
    using ch by (auto simp: channel_inv_def)
  show ?thesis
  proof (cases "first + length rs + 1 < 2 ^ 64 \<and> length payload \<le> MAX_PAYLOAD")
    case False
    have "\<exists>e. journal_enqueue crc j payload = Some (j, Err e)"
      using False I(1) record_new_Ok_iff [of crc "first + length rs" payload]
      by (cases "record_new crc (first + length rs) payload") (auto simp: journal_enqueue_def checked_add_def)
    then obtain e where e: "journal_enqueue crc j payload = Some (j\<lparr>jn_ring := jn_ring j\<rparr>, Err e)" by auto
    show ?thesis by (rule exI [of _ "jn_ring j"], rule exI [of _ "Err e"]) (use e I(3) in simp)
  next
    case True
    from record_new_ok [OF conjunct2 [OF True] I(2), of crc] obtain r where
      r: "record_new crc (first + length rs) payload = Ok r" "record_ok crc r" "jr_sequence r = first + length rs" "record_slice r = Some payload" by blast
    show ?thesis
    proof (cases "length (drop k rs) = ring_room (jn_ring j)")
      case full: True
      from ring.push_full [OF I(3) full, of r] obtain ring where p: "ring_push (jn_ring j) r = Some (ring, Err r)" "ring_holds ring (drop k rs)" by blast
      have "journal_enqueue crc j payload = Some (j\<lparr>jn_ring := ring\<rparr>, Err Saturated)"
        using True I(1) r(1) p(1) by (simp add: journal_enqueue_def checked_add_def Let_def)
      with p(2) show ?thesis by (intro exI [of _ ring] exI [of _ "Err Saturated"]) simp
    next
      case free: False
      from ring.push_room [OF I(3) free, of r] obtain ring where p: "ring_push (jn_ring j) r = Some (ring, Ok ())" "ring_holds ring (drop k rs @ [r])" by blast
      have "journal_enqueue crc j payload = Some (j\<lparr>jn_ring := ring, jn_next_sequence := first + Suc (length rs)\<rparr>, Ok (first + length rs))"
        using True I(1) r(1) p(1) by (simp add: journal_enqueue_def checked_add_def Let_def)
      with p(2) r True show ?thesis by (intro exI [of _ ring] exI [of _ "Ok (first + length rs)"]) (simp add: u64_ok_def)
    qed
  qed
qed

lemma numbered_snoc:
  "numbered_records crc first rs \<Longrightarrow> record_ok crc r \<Longrightarrow> jr_sequence r = first + length rs \<Longrightarrow> numbered_records crc first (rs @ [r])"
  by (auto simp: numbered_records_def nth_append less_Suc_eq)

lemma worker_inv_journal:
  assumes "worker_inv crc first base w rs k a d" and "channel_inv crc first rs' k j" and "jn_status j = jn_status (pw_journal w)"
    and "jn_guard_complete j = jn_guard_complete (pw_journal w)" and "rs' = rs \<or> \<not> jn_guard_complete j" and "take k rs' = take k rs"
  shows "worker_inv crc first base (w\<lparr>pw_journal := j\<rparr>) rs' k a d"
proof -
  have ak: "a \<le> k" using assms(1) by (simp add: worker_inv_def)
  have "take (k - a) (drop a rs') = take (k - a) (drop a rs)" using assms(6) by (metis drop_take)
  moreover have "take a rs' = take a rs" using arg_cong [OF assms(6), of "take a"] ak by (simp add: min_absorb1)
  ultimately have "file_inv base (pw_sink w) rs' k a d" using assms(1) by (simp add: worker_inv_def file_inv_def)
  moreover have "status_inv first (w\<lparr>pw_journal := j\<rparr>) (length rs') a d"
    using assms(1,3-5) by (auto simp: worker_inv_def status_inv_def)
  ultimately show ?thesis using assms(1,2) by (simp add: worker_inv_def)
qed

lemma guard_needs_close:
  "worker_inv crc first base w rs k a d \<Longrightarrow> \<not> producer_is_closed (pw_journal w) \<Longrightarrow> \<not> jn_guard_complete (pw_journal w)"
  by (auto simp: worker_inv_def status_inv_def producer_is_closed_def)

lemma journal_run_inv:
  assumes "journal_run crc first base w rs"
  shows "\<exists>k a d. worker_inv crc first base w rs k a d"
  using assms
proof induction
  case (run_begin j synced BATCH answers policy j' w)
  from ring_new_holds [of RING_CAPACITY] have "capacity_ok RING_CAPACITY \<longrightarrow> (\<exists>r :: JournalRecord Ring. ring_new RING_CAPACITY = Ok r \<and> ring_holds r [])" by blast
  moreover have "capacity_ok RING_CAPACITY" unfolding capacity_ok_def RING_CAPACITY_def by (intro exI [of _ 10]) simp
  ultimately obtain r :: "JournalRecord Ring" where r: "ring_new RING_CAPACITY = Ok r" "ring_holds r []" by blast
  have j: "j = \<lparr>jn_ring = r, jn_status = Some (status_new first), jn_next_sequence = first,
           jn_expected_sequence = first, jn_reader_poisoned = False, jn_guard_complete = False\<rparr>"
    using run_begin(2) r(1) by (simp add: channel_split_def)
  have w: "w = \<lparr>pw_journal = j, pw_sink = \<lparr>fl_contents = base, fl_synced = synced, fl_answers = answers\<rparr>, pw_policy = policy,
      pw_poisoned = False, pw_BATCH = BATCH\<rparr>" "0 < BATCH" using run_begin(4) by (auto simp: worker_new_def split: if_splits)
  have "worker_inv crc first base w [] 0 0 0" using w r(2) run_begin(1,3)
    by (simp add: j worker_inv_def channel_inv_def status_inv_def file_inv_def numbered_records_def status_new_def)
  then show ?case by blast
next
  case (run_enqueue w rs payload j sequence r)
  then obtain k a d where inv: "worker_inv crc first base w rs k a d" by blast
  then have ch: "channel_inv crc first rs k (pw_journal w)" "k \<le> length rs" by (auto simp: worker_inv_def channel_inv_def)
  from enqueue_effect [OF ch(1), of payload] run_enqueue.hyps(3,4) obtain ring where
    j: "j = (pw_journal w)\<lparr>jn_ring := ring, jn_next_sequence := first + Suc (length rs)\<rparr>" "record_ok crc r" "jr_sequence r = first + length rs"
      "ring_holds ring (drop k rs @ [r])" "u64_ok (first + Suc (length rs))" by (auto split: result.splits)
  have "channel_inv crc first (rs @ [r]) k j"
    using ch j numbered_snoc [of crc first rs r] by (simp add: channel_inv_def)
  moreover have "\<not> jn_guard_complete j" using guard_needs_close [OF inv run_enqueue.hyps(2)] j(1) by simp
  ultimately have "worker_inv crc first base (w\<lparr>pw_journal := j\<rparr>) (rs @ [r]) k a d"
    using worker_inv_journal [OF inv, of "rs @ [r]" j] ch(2) j(1) by simp
  then show ?case by blast
next
  case (run_refused w rs payload j e)
  then obtain k a d where inv: "worker_inv crc first base w rs k a d" by blast
  then have ch: "channel_inv crc first rs k (pw_journal w)" by (simp add: worker_inv_def)
  from enqueue_effect [OF ch, of payload] run_refused.hyps(3) obtain ring where
    j: "j = (pw_journal w)\<lparr>jn_ring := ring\<rparr>" "ring_holds ring (drop k rs)" by (auto split: result.splits)
  then have "channel_inv crc first rs k j" using ch by (simp add: channel_inv_def)
  from worker_inv_journal [OF inv this] j(1) show ?case by auto
next
  case (run_close w rs)
  then obtain k a d where "worker_inv crc first base w rs k a d" by blast
  then have "worker_inv crc first base (w\<lparr>pw_journal := writer_close (pw_journal w)\<rparr>) rs k a d"
    by (auto simp: worker_inv_def channel_inv_def status_inv_def status_defs)
  then show ?case by blast
next
  case (run_drain w rs w' r)
  then show ?case using drain_effect by fastforce
next
  case (run_shutdown w rs w' r)
  then show ?case using shutdown_effect by fastforce
qed

section \<open>Recovery\<close>

lemma fill_buffer_effect:
  assumes "length buf \<le> RECORD_SIZE" and "IoFails \<notin> set (rs_answers src)"
  shows "\<exists>src'. fill_buffer src buf = (src', Ok (take RECORD_SIZE (buf @ rs_bytes src))) \<and>
    rs_bytes src' = drop (RECORD_SIZE - length buf) (rs_bytes src) \<and> IoFails \<notin> set (rs_answers src')"
  using assms
proof (induction src buf rule: fill_buffer.induct)
  case (1 src buf)
  show ?case
  proof (cases "RECORD_SIZE \<le> length buf")
    case True
    with 1(3,4) show ?thesis by (subst fill_buffer.simps) simp
  next
    case False
    show ?thesis
    proof (cases "rs_answers src")
      case Nil
      with False 1(3) show ?thesis by (subst fill_buffer.simps) (simp add: Let_def)
    next
      case (Cons x as)
      show ?thesis
      proof (cases x)
        case (IoCount n)
        show ?thesis
        proof (cases "rs_bytes src = []")
          case True
          with False Cons IoCount 1(3,4) show ?thesis by (subst fill_buffer.simps) (auto simp: Let_def)
        next
          case bytes: False
          let ?n = "min (max 1 n) (RECORD_SIZE - length buf)"
          let ?src = "src\<lparr>rs_bytes := drop ?n (rs_bytes src), rs_answers := as\<rparr>" and ?buf = "buf @ take ?n (rs_bytes src)"
          have len: "length ?buf \<le> RECORD_SIZE" "IoFails \<notin> set (rs_answers ?src)" using False 1(4) Cons by auto
          have step: "fill_buffer src buf = fill_buffer ?src ?buf" using False Cons IoCount bytes by (subst fill_buffer.simps) (simp add: Let_def)
          from 1(1) [OF False Cons IoCount bytes refl len] obtain src' where
            s: "fill_buffer ?src ?buf = (src', Ok (take RECORD_SIZE (?buf @ rs_bytes ?src)))"
              "rs_bytes src' = drop (RECORD_SIZE - length ?buf) (rs_bytes ?src)" "IoFails \<notin> set (rs_answers src')" by blast
          have "?buf @ rs_bytes ?src = buf @ rs_bytes src" by simp
          moreover have "drop (RECORD_SIZE - length ?buf) (rs_bytes ?src) = drop (RECORD_SIZE - length buf) (rs_bytes src)"
          proof (cases "?n \<le> length (rs_bytes src)")
            case True
            then have "length ?buf = length buf + ?n" by simp
            moreover have "RECORD_SIZE - (length buf + ?n) + ?n = RECORD_SIZE - length buf" using False by simp
            moreover have "rs_bytes ?src = drop ?n (rs_bytes src)" by simp
            ultimately show ?thesis by (simp only: drop_drop)
          next
            case more: False
            then have "drop ?n (rs_bytes src) = []" "length (rs_bytes src) \<le> RECORD_SIZE - length buf" by auto
            then show ?thesis by simp
          qed
          ultimately show ?thesis using step s by simp
        qed
      next
        case IoInterrupted
        with False Cons 1(2) [OF False Cons IoInterrupted] 1(3,4) show ?thesis by (subst fill_buffer.simps) simp
      next
        case IoFails
        with Cons 1(4) show ?thesis by simp
      qed
    qed
  qed
qed

lemma numbered_Cons:
  "numbered_records crc first (r # rs) \<longleftrightarrow> record_ok crc r \<and> jr_sequence r = first \<and> numbered_records crc (Suc first) rs"
  by (auto simp: numbered_records_def nth_Cons less_Suc_eq_0_disj split: nat.splits)

text \<open>A scan of records with a rest shorter than a record reports the rest, or the records when there is none.\<close>

lemma recover_loop_complete:
  assumes "numbered_records crc expected rs" and "rs_bytes src = concat (map record_encode rs) @ junk" and "length junk < RECORD_SIZE"
    and "IoFails \<notin> set (rs_answers src)" and "expected + length rs < 2 ^ 64" and "records + length rs < 2 ^ 64"
  shows "recover_loop crc src expected records =
    (if junk = [] then Ok \<lparr>rc_records = records + length rs, rc_next_sequence = expected + length rs\<rparr> else Err (JrTruncated (length junk)))"
  using assms
proof (induction rs arbitrary: src expected records)
  case Nil
  from fill_buffer_effect [of "[]" src] Nil obtain src' where "fill_buffer src [] = (src', Ok junk)" by auto
  with Nil show ?case by (subst recover_loop.simps) simp
next
  case (Cons r rs)
  have r: "record_ok crc r" "jr_sequence r = expected" "numbered_records crc (Suc expected) rs" using Cons.prems(1) by (auto simp: numbered_Cons)
  then have len: "length (record_encode r) = RECORD_SIZE" by (auto simp: record_ok_def intro: length_record_encode)
  from fill_buffer_effect [of "[]" src] Cons.prems(4) obtain src' where
    f: "fill_buffer src [] = (src', Ok (take RECORD_SIZE (rs_bytes src)))" "rs_bytes src' = drop RECORD_SIZE (rs_bytes src)"
      "IoFails \<notin> set (rs_answers src')" by auto
  have b: "take RECORD_SIZE (rs_bytes src) = record_encode r" "drop RECORD_SIZE (rs_bytes src) = concat (map record_encode rs) @ junk"
    using Cons.prems(2) len by auto
  have "record_encode r \<noteq> []" using len by (auto simp: RECORD_SIZE_def)
  then have "recover_loop crc src expected records = recover_loop crc src' (Suc expected) (Suc records)"
    using f(1) b(1) len decode_encode [OF r(1)] r(2) Cons.prems(5,6) by (subst recover_loop.simps) (simp add: checked_add_def)
  with Cons.IH [OF r(3), of src' "Suc records"] f(2,3) b(2) Cons.prems(3,5,6) show ?case by simp
qed

lemma fill_buffer_end:
  "fill_buffer src buf = (src', Ok bytes) \<Longrightarrow> length buf \<le> RECORD_SIZE \<Longrightarrow>
     length bytes \<le> RECORD_SIZE \<and> (length bytes < RECORD_SIZE \<longrightarrow> rs_bytes src' = [])"
proof (induction src buf arbitrary: src' bytes rule: fill_buffer.induct)
  case (1 src buf)
  show ?case
  proof (cases "RECORD_SIZE \<le> length buf")
    case True
    with 1(3,4) show ?thesis by (subst (asm) fill_buffer.simps) simp
  next
    case False
    show ?thesis
    proof (cases "rs_answers src")
      case Nil
      with False 1(3) show ?thesis by (subst (asm) fill_buffer.simps) (auto simp: Let_def)
    next
      case (Cons x as)
      show ?thesis
      proof (cases x)
        case (IoCount n)
        show ?thesis
        proof (cases "rs_bytes src = []")
          case True
          with False Cons IoCount 1(3) show ?thesis by (subst (asm) fill_buffer.simps) auto
        next
          case bytes: False
          let ?n = "min (max 1 n) (RECORD_SIZE - length buf)"
          let ?src = "src\<lparr>rs_bytes := drop ?n (rs_bytes src), rs_answers := as\<rparr>" and ?buf = "buf @ take ?n (rs_bytes src)"
          have "fill_buffer ?src ?buf = (src', Ok bytes)"
            using 1(3) False Cons IoCount bytes by (subst (asm) fill_buffer.simps) (simp add: Let_def)
          from 1(1) [OF False Cons IoCount bytes refl this] False show ?thesis by simp
        qed
      next
        case IoInterrupted
        with False Cons 1(3) have "fill_buffer (src\<lparr>rs_answers := as\<rparr>) buf = (src', Ok bytes)" by (subst (asm) fill_buffer.simps) simp
        from 1(2) [OF False Cons IoInterrupted this] 1(4) show ?thesis by simp
      next
        case IoFails
        with False Cons 1(3) show ?thesis by (subst (asm) fill_buffer.simps) simp
      qed
    qed
  qed
qed

lemma recover_loop_sound:
  assumes "recover_loop crc src expected records = Ok rc"
  shows "\<exists>rs. rs_bytes src = concat (map record_encode rs) \<and> numbered_records crc expected rs \<and>
    rc = \<lparr>rc_records = records + length rs, rc_next_sequence = expected + length rs\<rparr>"
  using assms
proof (induction crc src expected records rule: recover_loop.induct)
  case (1 crc src expected records)
  obtain src' r where f: "fill_buffer src [] = (src', r)" by (cases "fill_buffer src []")
  from 1(2) obtain bytes where r: "r = Ok bytes" by (subst (asm) recover_loop.simps) (auto simp: f split: result.splits)
  have parts: "rs_bytes src = bytes @ rs_bytes src'" using fill_buffer_bytes [of src "[]" src' bytes] f r by simp
  have sizes: "length bytes \<le> RECORD_SIZE" "length bytes < RECORD_SIZE \<Longrightarrow> rs_bytes src' = []" using fill_buffer_end [of src "[]" src' bytes] f r by auto
  show ?case
  proof (cases "bytes = []")
    case True
    with sizes(2) parts have "rs_bytes src = []" by (simp add: RECORD_SIZE_def)
    moreover have "rc = \<lparr>rc_records = records, rc_next_sequence = expected\<rparr>" using 1(2) f r True by (subst (asm) recover_loop.simps) simp
    ultimately show ?thesis by (intro exI [of _ "[]"]) (simp add: numbered_records_def)
  next
    case False
    with 1(2) f r obtain x where d: "\<not> length bytes < RECORD_SIZE" "record_decode crc bytes = Ok x" "jr_sequence x = expected"
      "expected + 1 < 2 ^ 64" "records + 1 < 2 ^ 64" "recover_loop crc src' (expected + 1) (records + 1) = Ok rc"
      by (subst (asm) recover_loop.simps) (auto split: if_splits result.splits option.splits)
    have len: "length bytes = RECORD_SIZE" using d(1) sizes(1) by simp
    have c: "checked_add 64 expected 1 = Some (expected + 1)" "checked_add 64 records 1 = Some (records + 1)" using d(4,5) by (simp_all add: checked_add_def)
    from 1(1) [OF f [symmetric] r False d(1,2) _ c d(6)] d(3) obtain rs where
      rs: "rs_bytes src' = concat (map record_encode rs)" "numbered_records crc (expected + 1) rs"
        "rc = \<lparr>rc_records = records + 1 + length rs, rc_next_sequence = expected + 1 + length rs\<rparr>" by auto
    from decode_canonical [OF len d(2)] have "record_ok crc x" "record_encode x = bytes" by auto
    with rs parts d(3) show ?thesis by (intro exI [of _ "x # rs"]) (simp add: numbered_Cons)
  qed
qed

section \<open>A concrete journal\<close>

definition demo_crc :: crc where
  "demo_crc bytes = word_of_nat (length bytes)"

lemma demo_record:
  obtains r where "record_new demo_crc 1 [7, 8] = Ok r" "record_ok demo_crc r" "jr_sequence r = 1" "record_slice r = Some [7, 8]"
  using record_new_ok [of "[7, 8]" 1 demo_crc] by (auto simp: MAX_PAYLOAD_def u64_ok_def)

lemma demo_journal:
  obtains w r where "journal_run demo_crc 1 [] w [r]" "record_ok demo_crc r" "jr_sequence r = 1"
proof -
  from ring_new_holds [of RING_CAPACITY] have "capacity_ok RING_CAPACITY \<longrightarrow> (\<exists>r :: JournalRecord Ring. ring_new RING_CAPACITY = Ok r)" by blast
  moreover have "capacity_ok RING_CAPACITY" unfolding capacity_ok_def RING_CAPACITY_def by (intro exI [of _ 10]) simp
  ultimately obtain j where j: "channel_split 1 = Ok j" "jn_status j = Some (status_new 1)" "jn_expected_sequence j = 1" "\<not> jn_reader_poisoned j"
    by (auto simp: channel_split_def)
  let ?w = "\<lparr>pw_journal = j, pw_sink = \<lparr>fl_contents = [], fl_synced = 0, fl_answers = [IoInterrupted, IoCount 10]\<rparr>, pw_policy = EveryBatch,
      pw_poisoned = False, pw_BATCH = 4\<rparr>"
  have "worker_new 4 j \<lparr>fl_contents = [], fl_synced = 0, fl_answers = [IoInterrupted, IoCount 10]\<rparr> EveryBatch = (j, Ok ?w)"
    using j by (simp add: worker_new_def status_new_def)
  from run_begin [OF _ j(1) _ this, of demo_crc] have run: "journal_run demo_crc 1 [] ?w []" by (simp add: u64_ok_def)
  from journal_run_inv [OF run] obtain k a d where inv: "worker_inv demo_crc 1 [] ?w [] k a d" by blast
  then have ch: "channel_inv demo_crc 1 [] k j" by (simp add: worker_inv_def)
  have open1: "\<not> producer_is_closed (pw_journal ?w)" using j(2) by (simp add: producer_is_closed_def status_new_def)
  have room: "ring_holds (jn_ring j) []" using ch by (simp add: channel_inv_def)
  have "ring_room (jn_ring j) = RING_CAPACITY"
    using j(1) by (auto simp: channel_split_def and_then_Ok_iff ring_new_def spsc_try_new_def ring_room_def spsc_capacity_def split: if_splits)
  obtain r where r: "record_new demo_crc 1 [7, 8] = Ok r" "record_ok demo_crc r" "jr_sequence r = 1" "record_slice r = Some [7, 8]" by (rule demo_record)
  have "length [] \<noteq> ring_room (jn_ring j)" using \<open>ring_room (jn_ring j) = RING_CAPACITY\<close> by (simp add: RING_CAPACITY_def)
  from ring.push_room [OF room this, of r] obtain ring where "ring_push (jn_ring j) r = Some (ring, Ok ())" by blast
  then have "journal_enqueue demo_crc (pw_journal ?w) [7, 8] = Some (j\<lparr>jn_ring := ring, jn_next_sequence := 2\<rparr>, Ok 1)"
    using ch r(1) by (simp add: journal_enqueue_def checked_add_def channel_inv_def)
  from run_enqueue [OF run open1 this r(1)] that r(2,3) show thesis by simp
qed

section \<open>Properties\<close>

text \<open>
  Journal records are a faithful encoding. A payload of at most 46 bytes always makes a record that
  gives the payload back, encodes to 64 bytes and decodes to itself; conversely every 64 bytes the
  decoder accepts are exactly the encoding of the record it returns, with a matching checksum.
  The statement holds for every checksum function.
\<close>
theorem journal_record_codec:
  "(length payload \<le> MAX_PAYLOAD \<longrightarrow> u64_ok sequence \<longrightarrow>
     (\<exists>r. record_new crc sequence payload = Ok r \<and> jr_sequence r = sequence \<and> record_slice r = Some payload \<and>
       length (record_encode r) = RECORD_SIZE \<and> record_decode crc (record_encode r) = Ok r)) \<and>
   (length payload > MAX_PAYLOAD \<longrightarrow> record_new crc sequence payload = Err (PayloadTooLarge (length payload))) \<and>
   (\<forall>b r. length b = RECORD_SIZE \<longrightarrow> record_decode crc b = Ok r \<longrightarrow> record_encode r = b \<and> record_verify crc r)"
  using record_new_ok [of payload sequence crc] decode_encode [of crc] decode_canonical [of _ crc] length_record_encode
  by (auto simp: record_new_def record_ok_def)

theorem journal_record_codec_witness:
  "\<exists>r. record_new demo_crc 1 [7, 8] = Ok r \<and> record_slice r = Some [7, 8] \<and> record_decode demo_crc (record_encode r) = Ok r"
  using journal_record_codec [of "[7, 8]" 1 demo_crc] by (auto simp: MAX_PAYLOAD_def u64_ok_def)

text \<open>
  C29: the journal keeps its promises. However enqueues, batches, closing and shutdown interleave and
  whatever the operating system answers: the file is its initial contents followed by the encodings of
  the first \<open>a\<close> enqueued records, up to the published written watermark; the first \<open>d\<close> of them, up to
  the published durable watermark, are synced; a rest after the written records exists only once the
  status reports poison; a completed shutdown has everything durable; and the worker's calls return.
\<close>
theorem journal_watermarks_hold:
  assumes "journal_run crc first base w rs"
  shows "(\<exists>st a d torn. jn_status (pw_journal w) = Some st \<and> st_next_written_sequence st = first + a \<and> st_next_durable_sequence st = first + d \<and>
      d \<le> a \<and> a \<le> length rs \<and> fl_contents (pw_sink w) = base @ concat (map record_encode (take a rs)) @ torn \<and>
      (0 < d \<longrightarrow> length base + RECORD_SIZE * d \<le> fl_synced (pw_sink w)) \<and> (\<not> st_poisoned st \<longrightarrow> torn = []) \<and>
      (st_shutdown_complete st \<longrightarrow> d = length rs)) \<and>
    drain_batch crc w \<noteq> None \<and> shutdown crc w \<noteq> None"
proof -
  from journal_run_inv [OF assms] obtain k a d where inv: "worker_inv crc first base w rs k a d" by blast
  then obtain st where st: "jn_status (pw_journal w) = Some st" "st_next_written_sequence st = first + a" "st_next_durable_sequence st = first + d"
    "st_poisoned st = pw_poisoned w" "st_shutdown_complete st \<longrightarrow> d = length rs" unfolding worker_inv_def status_inv_def by blast
  from inv obtain p q where f: "concat (map record_encode (take (k - a) (drop a rs))) = p @ q"
    "fl_contents (pw_sink w) = base @ concat (map record_encode (take a rs)) @ p" "0 < d \<longrightarrow> length base + RECORD_SIZE * d \<le> fl_synced (pw_sink w)"
    unfolding worker_inv_def file_inv_def by blast
  have le: "d \<le> a" "a \<le> length rs" "\<not> pw_poisoned w \<longrightarrow> a = k" using inv by (auto simp: worker_inv_def channel_inv_def)
  then have "\<not> st_poisoned st \<longrightarrow> p = []" using f(1) st(4) by auto
  moreover have "drain_batch crc w \<noteq> None" "shutdown crc w \<noteq> None" using drain_effect [OF inv] shutdown_effect [OF inv] by auto
  ultimately show ?thesis using st f le by (intro conjI exI [of _ st] exI [of _ a] exI [of _ d] exI [of _ p]) auto
qed

theorem journal_watermarks_hold_witness:
  "\<exists>w r. journal_run demo_crc 1 [] w [r] \<and> drain_batch demo_crc w \<noteq> None \<and> shutdown demo_crc w \<noteq> None"
proof -
  obtain w r where w: "journal_run demo_crc 1 [] w [r]" "record_ok demo_crc r" "jr_sequence r = 1" by (rule demo_journal)
  from journal_watermarks_hold [OF w(1)] w(1) show ?thesis by blast
qed

text \<open>
  The recovery scan accepts a journal exactly when it is a sequence of complete, valid, consecutively
  numbered records, and counts them. Records followed by an incomplete one are refused as truncated
  with the length of the rest. Short reads and interruptions do not matter; only a read error of the
  operating system ends the scan otherwise.
\<close>
theorem journal_recover_exact:
  "(recover crc src first = Ok rc \<longrightarrow>
     (\<exists>rs. rs_bytes src = concat (map record_encode rs) \<and> numbered_records crc first rs \<and>
       rc = \<lparr>rc_records = length rs, rc_next_sequence = first + length rs\<rparr>)) \<and>
   (numbered_records crc first rs \<longrightarrow> rs_bytes src = concat (map record_encode rs) @ junk \<longrightarrow> length junk < RECORD_SIZE \<longrightarrow>
     IoFails \<notin> set (rs_answers src) \<longrightarrow> first + length rs < 2 ^ 64 \<longrightarrow>
     recover crc src first = (if junk = [] then Ok \<lparr>rc_records = length rs, rc_next_sequence = first + length rs\<rparr> else Err (JrTruncated (length junk))))"
  using recover_loop_sound [of crc src first 0 rc] recover_loop_complete [of crc first rs src junk 0]
  by (auto simp: recover_def)

theorem journal_recover_exact_witness:
  "\<exists>r. recover demo_crc \<lparr>rs_bytes = record_encode r @ [1, 2], rs_answers = [IoCount 5, IoInterrupted]\<rparr> 1 = Err (JrTruncated 2)"
proof -
  obtain r where r: "record_new demo_crc 1 [7, 8] = Ok r" "record_ok demo_crc r" "jr_sequence r = 1" "record_slice r = Some [7, 8]" by (rule demo_record)
  then have "numbered_records demo_crc 1 [r]" by (simp add: numbered_records_def)
  with journal_recover_exact [of demo_crc "\<lparr>rs_bytes = record_encode r @ [1, 2], rs_answers = [IoCount 5, IoInterrupted]\<rparr>" 1 undefined "[r]" "[1, 2]"]
  have "recover demo_crc \<lparr>rs_bytes = record_encode r @ [1, 2], rs_answers = [IoCount 5, IoInterrupted]\<rparr> 1 = Err (JrTruncated (length [1, 2 :: byte]))"
    by (simp add: RECORD_SIZE_def del: One_nat_def)
  then show ?thesis by (intro exI [of _ r]) (simp add: numeral_2_eq_2)
qed

end
