(* ===== verification/Recovery.thy ===== *)
theory Recovery
  imports SnapshotProps JournalProps
begin

text \<open>
  Recovery from a snapshot and the journal records after it (\<open>crates/hft-recovery/src/lib.rs\<close>), and the
  replay of frames (\<open>crates/hft-replay/src/lib.rs\<close>). A recovered gateway is the snapshot's gateway after
  the journalled commands, and recovery of a live gateway reaches the state of the uninterrupted run.
\<close>

section \<open>Recovery\<close>

datatype RecoveryError =
    RcSnapshot SnapshotError
  | RcTruncatedJournal nat
  | RcJournalDecode nat DecodeError
  | RcJournalSequence SequenceNumber SequenceNumber
  | RcPayloadSequence SequenceNumber SequenceNumber
  | RcPayloadParse ParseError
  | RcGateway GatewayError
  | RcSequenceOverflow

text \<open>\<open>chunks_exact\<close> with a positive size.\<close>

function chunks_exact :: "nat \<Rightarrow> 'a list \<Rightarrow> 'a list list" where
  "chunks_exact n xs = (if n = 0 \<or> length xs < n then [] else take n xs # chunks_exact n (drop n xs))"
  by auto
termination by (relation "measure (\<lambda>(n, xs). length xs)") auto

declare chunks_exact.simps [simp del]

definition apply_record ::
  "crc \<Rightarrow> nat \<Rightarrow> SequenceNumber \<Rightarrow> Gateway \<Rightarrow> ReportBuffer \<Rightarrow> byte list \<Rightarrow> (Gateway \<times> ReportBuffer \<times> SequenceNumber, RecoveryError) result option" where
  "apply_record crc index expected gateway reports chunk =
     (case record_decode crc chunk of
        Err source \<Rightarrow> Some (Err (RcJournalDecode (index * RECORD_SIZE) source))
      | Ok record \<Rightarrow>
          if jr_sequence record \<noteq> expected then Some (Err (RcJournalSequence expected (jr_sequence record)))
          else (case record_slice record of
             None \<Rightarrow> Some (Err (RcJournalDecode (index * RECORD_SIZE) (JdPayloadLength U16_MAX)))
           | Some frame \<Rightarrow>
               (case parse_message frame of
                  Err e \<Rightarrow> Some (Err (RcPayloadParse e))
                | Ok message \<Rightarrow>
                    if message_sequence message \<noteq> jr_sequence record
                    then Some (Err (RcPayloadSequence (jr_sequence record) (message_sequence message)))
                    else do {
                      (gateway, reports, r) \<leftarrow> process_frame gateway frame reports;
                      Some (and_then (case r of
                          Ok _ \<Rightarrow> Ok ()
                        | Err (GwRisk _) \<Rightarrow> Ok ()
                        | Err (GwBook _) \<Rightarrow> Ok ()
                        | Err error \<Rightarrow> Err (RcGateway error)) (\<lambda>_.
                        and_then (ok_or RcSequenceOverflow (checked_add 64 expected 1)) (\<lambda>expected. Ok (gateway, reports, expected))))
                    })))"

fun recover_records ::
  "crc \<Rightarrow> nat \<Rightarrow> SequenceNumber \<Rightarrow> Gateway \<Rightarrow> ReportBuffer \<Rightarrow> byte list list \<Rightarrow> (Gateway, RecoveryError) result option" where
  "recover_records crc index expected gateway reports [] = Some (Ok gateway)"
| "recover_records crc index expected gateway reports (chunk # chunks) =
     do {
       r \<leftarrow> apply_record crc index expected gateway reports chunk;
       (case r of
          Err e \<Rightarrow> Some (Err e)
        | Ok (gateway, reports, expected) \<Rightarrow> recover_records crc (index + 1) expected gateway reports chunks)
     }"

definition recover_snapshot_and_tail ::
  "sha256 \<Rightarrow> crc \<Rightarrow> nat \<Rightarrow> nat \<Rightarrow> nat \<Rightarrow> nat \<Rightarrow> nat \<Rightarrow> byte list \<Rightarrow> byte list \<Rightarrow> (Gateway, RecoveryError) result option" where
  "recover_snapshot_and_tail sha crc ACCOUNTS RISK_ORDERS LEVELS ORDERS REPORTS snapshot tail =
     do {
       decoded \<leftarrow> decode_snapshot sha ACCOUNTS RISK_ORDERS LEVELS ORDERS snapshot;
       (case map_err RcSnapshot decoded of
          Err e \<Rightarrow> Some (Err e)
        | Ok decoded \<Rightarrow>
            if length tail mod RECORD_SIZE \<noteq> 0 then Some (Err (RcTruncatedJournal (length tail mod RECORD_SIZE)))
            else (case checked_add 64 (ds_applied_sequence decoded) 1 of
               None \<Rightarrow> Some (Err RcSequenceOverflow)
             | Some expected \<Rightarrow>
                 recover_records crc 0 expected (ds_gateway decoded) (reports_new REPORTS) (chunks_exact RECORD_SIZE tail)))
     }"

section \<open>Replay\<close>

record ReplaySummary =
  rp_frames :: nat
  rp_reports :: nat
  rp_digest :: nat

fun replay_loop ::
  "Gateway \<Rightarrow> ReportBuffer \<Rightarrow> nat \<Rightarrow> byte list list \<Rightarrow> (Gateway \<times> (nat, GatewayError) result) option" where
  "replay_loop gateway reports report_count [] = Some (gateway, Ok report_count)"
| "replay_loop gateway reports report_count (bytes # frames) =
     do {
       (gateway, reports, r) \<leftarrow> process_frame gateway bytes reports;
       (case r of
          Err e \<Rightarrow> Some (gateway, Err e)
        | Ok _ \<Rightarrow> replay_loop gateway reports (wrapping_add 64 report_count (rb_len reports)) frames)
     }"

definition replay :: "nat \<Rightarrow> Gateway \<Rightarrow> byte list list \<Rightarrow> (Gateway \<times> (ReplaySummary, GatewayError) result) option" where
  "replay REPORTS gateway frames =
     do {
       (gateway, r) \<leftarrow> replay_loop gateway (reports_new REPORTS) 0 frames;
       (case r of
          Err e \<Rightarrow> Some (gateway, Err e)
        | Ok report_count \<Rightarrow> do {
            digest \<leftarrow> gateway_stable_digest gateway;
            Some (gateway, Ok \<lparr>rp_frames = length frames, rp_reports = report_count, rp_digest = digest\<rparr>)
          })
     }"

section \<open>Chunks\<close>

lemma chunks_exact_concat: "0 < n \<Longrightarrow> list_all (\<lambda>x. length x = n) xs \<Longrightarrow> chunks_exact n (concat xs) = xs"
proof (induction xs)
  case (Cons x xs)
  then show ?case by (subst chunks_exact.simps) simp
qed (simp add: chunks_exact.simps)

lemma chunks_exact_whole:
  "0 < n \<Longrightarrow> length xs mod n = 0 \<Longrightarrow> concat (chunks_exact n xs) = xs \<and> list_all (\<lambda>x. length x = n) (chunks_exact n xs)"
proof (induction n xs rule: chunks_exact.induct)
  case (1 n xs)
  show ?case
  proof (cases "length xs < n")
    case True
    with 1(2,3) show ?thesis by (simp add: chunks_exact.simps)
  next
    case False
    with 1(3) have "length (drop n xs) mod n = 0" by (simp add: le_mod_geq)
    with 1 False show ?thesis by (subst (1 2) chunks_exact.simps) simp
  qed
qed

section \<open>Journalled commands\<close>

text \<open>Valid records that carry the commands, numbered from \<open>first\<close> like them.\<close>

fun journal_of :: "crc \<Rightarrow> SequenceNumber \<Rightarrow> JournalRecord list \<Rightarrow> Command list \<Rightarrow> bool" where
  "journal_of crc first [] [] \<longleftrightarrow> True"
| "journal_of crc first (r # rs) (c # cs) \<longleftrightarrow> record_ok crc r \<and> jr_sequence r = first \<and> record_slice r = Some (encode_command c) \<and>
     command_ok c \<and> command_sequence c = first \<and> journal_of crc (first + 1) rs cs"
| "journal_of crc first rs cs \<longleftrightarrow> False"

lemma journal_of_commands: "journal_of crc first rs cs \<Longrightarrow> list_all command_ok cs \<and> length rs = length cs"
  by (induction crc first rs cs rule: journal_of.induct) auto

lemma journal_of_chunks: "journal_of crc first rs cs \<Longrightarrow> list_all (\<lambda>x. length x = RECORD_SIZE) (map record_encode rs)"
  by (induction crc first rs cs rule: journal_of.induct) (auto simp: record_ok_def length_record_encode)

lemma journal_of_size: "journal_of crc first rs cs \<Longrightarrow> length (concat (map record_encode rs)) = RECORD_SIZE * length cs"
  by (induction crc first rs cs rule: journal_of.induct) (auto simp: record_ok_def length_record_encode)

text \<open>What the loop makes of the gateway's answer.\<close>

definition recovered :: "SequenceNumber \<Rightarrow> Gateway \<times> ReportBuffer \<times> (GatewayOutcome, GatewayError) result
    \<Rightarrow> (Gateway \<times> ReportBuffer \<times> SequenceNumber, RecoveryError) result" where
  "recovered expected x = (case x of (gateway, reports, r) \<Rightarrow>
     and_then (case r of Ok _ \<Rightarrow> Ok () | Err (GwRisk _) \<Rightarrow> Ok () | Err (GwBook _) \<Rightarrow> Ok () | Err error \<Rightarrow> Err (RcGateway error)) (\<lambda>_.
       and_then (ok_or RcSequenceOverflow (checked_add 64 expected 1)) (\<lambda>expected. Ok (gateway, reports, expected))))"

lemma apply_record_command:
  assumes "record_ok crc r" and "record_slice r = Some (encode_command c)" and "jr_sequence r = n" and "command_ok c" and "command_sequence c = n"
  shows "apply_record crc index n g rb (record_encode r) = map_option (recovered n) (process_command g c rb)"
proof -
  from encode_parse [OF assms(4)] obtain m where
    m: "parse_message (encode_command c) = Ok m" "to_command m = c" "message_sequence m = command_sequence c" by blast
  show ?thesis using assms(2,3,5) m
    by (cases "process_command g c rb") (auto simp: apply_record_def decode_encode [OF assms(1)] process_frame_command recovered_def)
qed

lemma apply_record_accepts:
  assumes "length chunk = RECORD_SIZE" and "apply_record crc index n g rb chunk = Some (Ok x)"
  obtains r c where "chunk = record_encode r" "record_ok crc r" "record_slice r = Some (encode_command c)" "jr_sequence r = n"
    "command_ok c" "command_sequence c = n"
proof -
  from assms(2) obtain r frame m where r: "record_decode crc chunk = Ok r" "jr_sequence r = n" "record_slice r = Some frame"
    "parse_message frame = Ok m" "message_sequence m = n"
    by (auto simp: apply_record_def split: result.split_asm if_split_asm option.split_asm)
  from parse_canonical [OF r(4)] message_sequence_command [OF r(4)] decode_canonical [OF assms(1) r(1)] r show thesis
    by (intro that [of r "to_command m"]) auto
qed

lemma apply_record_total:
  assumes g: "gw_inv g"
  shows "apply_record crc index n g rb chunk \<noteq> None"
proof -
  have "process_frame g frame rb \<noteq> None" if "parse_message frame = Ok m" for frame m
    using process_command_effect [OF g, of "to_command m" rb] parse_canonical [OF that] that by (auto simp: process_frame_command)
  then show ?thesis by (fastforce simp: apply_record_def split: result.splits option.splits)
qed

lemma command_recovered:
  assumes s: "gw_sound ACCOUNTS RISK_ORDERS LEVELS ORDERS g" and c: "command_ok c" "command_sequence c = n" and n: "gw_expected_sequence g = n"
  obtains g' rb' x where "process_command g c rb = Some (g', rb', x)" "length (rb_entries rb') = length (rb_entries rb)"
    "gw_sound ACCOUNTS RISK_ORDERS LEVELS ORDERS g'"
    "recovered n (g', rb', x) = (if n + 1 < 2 ^ 64 then Ok (g', rb', n + 1) else Err (RcGateway (GwRiskState ArithmeticOverflow)))"
    "n + 1 < 2 ^ 64 \<Longrightarrow> gw_expected_sequence g' = n + 1"
proof -
  have inv: "gw_inv g" "gw_sequenced g" using s by (simp_all add: gw_sound_def)
  from process_command_effect [OF inv(1) c(1), of rb] obtain g' rb' x where
    p: "process_command g c rb = Some (g', rb', x)" "gw_inv g'" "length (rb_entries rb') = length (rb_entries rb)"
      "advanced g (command_sequence c) g' rb rb' x" by blast
  have u: "n < 2 ^ 64" using inv(1) n by (simp add: gw_inv_def u64_ok_def)
  have "gw_sound ACCOUNTS RISK_ORDERS LEVELS ORDERS g'"
    using s p(2) process_command_sequenced [OF inv(1) c(1) inv(2) p(1)] process_command_sizes [OF inv(1) c(1) p(1)] by (simp add: gw_sound_def)
  moreover have "recovered n (g', rb', x) = (if n + 1 < 2 ^ 64 then Ok (g', rb', n + 1) else Err (RcGateway (GwRiskState ArithmeticOverflow)))"
    using p(4) c(2) n u
    by (auto simp: advanced_def recovered_def checked_add_def business_reject_def split: if_splits result.splits GatewayError.splits)
  moreover have "n + 1 < 2 ^ 64 \<Longrightarrow> gw_expected_sequence g' = n + 1" using p(4) c(2) n by (auto simp: advanced_def)
  ultimately show thesis using that p by blast
qed

lemma length_reports_new: "length (rb_entries (reports_new REPORTS)) = REPORTS"
  by (simp add: reports_new_def)

section \<open>The tail\<close>

lemma recover_records_run:
  assumes "journal_of crc n rs cs" and "gw_sound ACCOUNTS RISK_ORDERS LEVELS ORDERS g" and "gw_expected_sequence g = n"
    and "n + length cs < 2 ^ 64" and "length (rb_entries rb) = REPORTS" and "gw_equiv f g"
  shows "\<exists>h k outs. recover_records crc index n g rb (map record_encode rs) = Some (Ok h) \<and> gw_sound ACCOUNTS RISK_ORDERS LEVELS ORDERS h \<and>
    gw_expected_sequence h = n + length cs \<and> run_steps (command_step REPORTS) f cs = Some (k, outs) \<and> gw_equiv k h"
  using assms
proof (induction crc n rs cs arbitrary: f g rb index rule: journal_of.induct)
  case (2 crc n r rs c cs)
  have c: "record_ok crc r" "record_slice r = Some (encode_command c)" "jr_sequence r = n" "command_ok c" "command_sequence c = n"
    using "2.prems"(1) by simp_all
  obtain g' rb' x where p: "process_command g c rb = Some (g', rb', x)" "length (rb_entries rb') = length (rb_entries rb)"
    "gw_sound ACCOUNTS RISK_ORDERS LEVELS ORDERS g'" "recovered n (g', rb', x) = Ok (g', rb', n + 1)" "gw_expected_sequence g' = n + 1"
    by (rule command_recovered [OF "2.prems"(2) c(4,5) "2.prems"(3), of rb]) (use "2.prems"(4) in auto)
  have "rel_option step_rel (process_command f c (reports_new REPORTS)) (process_command g c rb)"
    using process_command_equiv [OF "2.prems"(6) c(4), of "reports_new REPORTS" rb] "2.prems"(5) by (simp add: reports_new_def)
  then obtain f' out where f: "command_step REPORTS f c = Some (f', out)" "gw_equiv f' g'" unfolding p(1)
    by (cases "process_command f c (reports_new REPORTS)") (auto simp: command_step_def elim!: rel_prod.cases)
  have "recover_records crc index n g rb (map record_encode (r # rs)) = recover_records crc (index + 1) (n + 1) g' rb' (map record_encode rs)"
    using p(4) by (simp add: apply_record_command [OF c] p(1))
  moreover have "\<exists>h k outs. recover_records crc (index + 1) (n + 1) g' rb' (map record_encode rs) = Some (Ok h) \<and>
      gw_sound ACCOUNTS RISK_ORDERS LEVELS ORDERS h \<and> gw_expected_sequence h = n + 1 + length cs \<and>
      run_steps (command_step REPORTS) f' cs = Some (k, outs) \<and> gw_equiv k h"
    using "2.prems"(1,4,5) p(2) by (intro "2.IH" p(3,5) f(2)) simp_all
  ultimately show ?case using f(1) by auto
qed auto

lemma apply_record_step:
  assumes s: "gw_sound ACCOUNTS RISK_ORDERS LEVELS ORDERS g" and n: "gw_expected_sequence g = n"
    and len: "length chunk = RECORD_SIZE" and x: "apply_record crc index n g rb chunk = Some (Ok y)"
  obtains r c g' rb' where "chunk = record_encode r" "record_ok crc r" "record_slice r = Some (encode_command c)" "jr_sequence r = n"
    "command_ok c" "command_sequence c = n" "y = (g', rb', n + 1)" "gw_sound ACCOUNTS RISK_ORDERS LEVELS ORDERS g'"
    "gw_expected_sequence g' = n + 1"
proof -
  obtain r c where r: "chunk = record_encode r" "record_ok crc r" "record_slice r = Some (encode_command c)" "jr_sequence r = n"
    "command_ok c" "command_sequence c = n" by (rule apply_record_accepts [OF len x])
  obtain g' rb' z where p: "process_command g c rb = Some (g', rb', z)" "gw_sound ACCOUNTS RISK_ORDERS LEVELS ORDERS g'"
    "recovered n (g', rb', z) = (if n + 1 < 2 ^ 64 then Ok (g', rb', n + 1) else Err (RcGateway (GwRiskState ArithmeticOverflow)))"
    "n + 1 < 2 ^ 64 \<Longrightarrow> gw_expected_sequence g' = n + 1"
    by (rule command_recovered [OF s r(5,6) n, of rb]) blast
  have "apply_record crc index n g rb chunk = Some (recovered n (g', rb', z))" by (simp add: r(1) apply_record_command [OF r(2-6)] p(1))
  with x p(3) have "y = (g', rb', n + 1)" "n + 1 < 2 ^ 64" by (auto split: if_splits)
  with that r p(2,4) show thesis by blast
qed

lemma recover_records_accepts:
  assumes "recover_records crc index n g rb chunks = Some (Ok h)" and "list_all (\<lambda>x. length x = RECORD_SIZE) chunks"
    and "gw_sound ACCOUNTS RISK_ORDERS LEVELS ORDERS g" and "gw_expected_sequence g = n"
  shows "\<exists>rs cs. chunks = map record_encode rs \<and> journal_of crc n rs cs \<and> n + length cs < 2 ^ 64"
  using assms
proof (induction chunks arbitrary: index n g rb)
  case Nil
  then show ?case by (intro exI [of _ "[]"]) (simp add: gw_sound_def gw_inv_def u64_ok_def)
next
  case (Cons chunk chunks)
  from Cons.prems(1) obtain x where x: "apply_record crc index n g rb chunk = Some (Ok x)"
    by (auto split: Option.bind_split_asm result.split_asm)
  from Cons.prems(2) have len: "length chunk = RECORD_SIZE" by simp
  obtain r c g' rb' where r: "chunk = record_encode r" "record_ok crc r" "record_slice r = Some (encode_command c)" "jr_sequence r = n"
    "command_ok c" "command_sequence c = n" "x = (g', rb', n + 1)" "gw_sound ACCOUNTS RISK_ORDERS LEVELS ORDERS g'"
    "gw_expected_sequence g' = n + 1" by (rule apply_record_step [OF Cons.prems(3,4) len x])
  have "recover_records crc (index + 1) (n + 1) g' rb' chunks = Some (Ok h)" using Cons.prems(1) x r(7) by simp
  from Cons.IH [OF this _ r(8,9)] Cons.prems(2) obtain rs cs where
    "chunks = map record_encode rs" "journal_of crc (n + 1) rs cs" "n + 1 + length cs < 2 ^ 64" by auto
  then show ?case using r by (intro exI [of _ "r # rs"] exI [of _ "c # cs"]) simp
qed

lemma recover_records_total:
  assumes "gw_sound ACCOUNTS RISK_ORDERS LEVELS ORDERS g" and "gw_expected_sequence g = n" and "list_all (\<lambda>x. length x = RECORD_SIZE) chunks"
  shows "recover_records crc index n g rb chunks \<noteq> None"
  using assms
proof (induction chunks arbitrary: index n g rb)
  case (Cons chunk chunks)
  have inv: "gw_inv g" using Cons.prems(1) by (simp add: gw_sound_def)
  from apply_record_total [OF inv] obtain x where x: "apply_record crc index n g rb chunk = Some x" by blast
  show ?case
  proof (cases x)
    case (Ok y)
    with x have y: "apply_record crc index n g rb chunk = Some (Ok y)" by simp
    from Cons.prems(3) have len: "length chunk = RECORD_SIZE" by simp
    from apply_record_step [OF Cons.prems(1,2) len y] obtain g' rb' where
      "y = (g', rb', n + 1)" "gw_sound ACCOUNTS RISK_ORDERS LEVELS ORDERS g'" "gw_expected_sequence g' = n + 1" by metis
    with y Cons.IH [of g' "n + 1" "index + 1" rb'] Cons.prems(3) show ?thesis by simp
  qed (use x in simp)
qed simp

section \<open>Replay\<close>

text \<open>The first rejection of a run, and the number of reports.\<close>

definition first_error :: "command_output list \<Rightarrow> GatewayError option" where
  "first_error outs = (case find (\<lambda>(reports, r). \<not> is_ok r) outs of Some (_, Err e) \<Rightarrow> Some e | _ \<Rightarrow> None)"

lemma first_error_simps [simp]:
  "first_error [] = None" "first_error ((reports, Err e) # outs) = Some e" "first_error ((reports, Ok x) # outs) = first_error outs"
  by (simp_all add: first_error_def)

definition report_total :: "command_output list \<Rightarrow> nat" where
  "report_total outs = sum_list (map (\<lambda>(reports, r). length reports) outs)"

text \<open>How many commands of a run are accepted before the first rejection.\<close>

definition accepted_prefix :: "command_output list \<Rightarrow> nat" where
  "accepted_prefix outs = length (takeWhile (\<lambda>(reports, r). is_ok r) outs)"

lemma accepted_prefix_simps [simp]:
  "accepted_prefix [] = 0" "accepted_prefix ((reports, Err e) # outs) = 0" "accepted_prefix ((reports, Ok x) # outs) = Suc (accepted_prefix outs)"
  by (simp_all add: accepted_prefix_def)

lemma replay_loop_run:
  assumes "list_all command_ok cs" and "gw_equiv f g" and "gw_sound ACCOUNTS RISK_ORDERS LEVELS ORDERS g"
    and "length (rb_entries rb) = REPORTS" and "run_steps (command_step REPORTS) f cs = Some (k, outs)" and "n < 2 ^ 64"
  shows "\<exists>h l. gw_sound ACCOUNTS RISK_ORDERS LEVELS ORDERS h \<and> replay_loop g rb n (map encode_command cs) = Some (h,
      case first_error outs of Some e \<Rightarrow> Err e | None \<Rightarrow> Ok ((n + report_total outs) mod 2 ^ 64)) \<and>
    run_steps (command_step REPORTS) f (take (Suc (accepted_prefix outs)) cs) = Some (l, take (Suc (accepted_prefix outs)) outs) \<and> gw_equiv l h"
  using assms
proof (induction cs arbitrary: f g rb n outs)
  case (Cons c cs)
  from encode_parse [of c] Cons.prems(1) obtain m where m: "parse_message (encode_command c) = Ok m" "to_command m = c" by auto
  have c: "command_ok c" using Cons.prems(1) by simp
  from process_command_equiv [OF Cons.prems(2) c, of "reports_new REPORTS" rb] Cons.prems(4)
  have rel: "rel_option step_rel (process_command f c (reports_new REPORTS)) (process_command g c rb)" by (simp add: reports_new_def)
  from process_command_effect [of g c rb] c Cons.prems(3) obtain g' rb' x where
    p: "process_command g c rb = Some (g', rb', x)" "gw_inv g'" "length (rb_entries rb') = length (rb_entries rb)" by (auto simp: gw_sound_def)
  have s: "gw_sound ACCOUNTS RISK_ORDERS LEVELS ORDERS g'" using command_step_sound [OF Cons.prems(3) c, of REPORTS] p Cons.prems(3)
      process_command_sequenced [OF _ c _ p(1)] process_command_sizes [OF _ c p(1)] by (auto simp: gw_sound_def)
  from rel p(1) obtain f' rb2 where f: "process_command f c (reports_new REPORTS) = Some (f', rb2, x)" "gw_equiv f' g'" "reports_equiv rb2 rb'"
    by (cases "process_command f c (reports_new REPORTS)") (auto elim!: rel_prod.cases)
  have len: "length (reports_iter rb2) = rb_len rb'" using f(3) length_reports_iter by (metis reports_equiv_def)
  have step: "command_step REPORTS f c = Some (f', reports_iter rb2, x)" using f(1) by (simp add: command_step_def)
  with Cons.prems(5) obtain rest_outs where
    r: "run_steps (command_step REPORTS) f' cs = Some (k, rest_outs)" "outs = (reports_iter rb2, x) # rest_outs"
    by (auto split: Option.bind_split_asm)
  show ?case
  proof (cases x)
    case (Err e)
    then show ?thesis using m p(1) s r(2) step f(2) by (simp add: process_frame_command)
  next
    case (Ok out)
    have "wrapping_add 64 n (rb_len rb') < 2 ^ 64" by (simp add: wrapping_add_def)
    note ih = Cons.IH [OF _ f(2) s _ r(1) this, of rb']
    have sum: "(n + report_total outs) mod 2 ^ 64 = (wrapping_add 64 n (rb_len rb') + report_total rest_outs) mod 2 ^ 64"
      by (simp add: r(2) len report_total_def wrapping_add_def mod_add_left_eq add.assoc)
    have loop: "replay_loop g rb n (map encode_command (c # cs)) = replay_loop g' rb' (wrapping_add 64 n (rb_len rb')) (map encode_command cs)"
      using m p(1) Ok by (simp add: process_frame_command)
    have "first_error outs = first_error rest_outs" by (simp add: r(2) Ok)
    moreover from ih Cons.prems(1,4) p(3) obtain h l where
      h: "gw_sound ACCOUNTS RISK_ORDERS LEVELS ORDERS h" "replay_loop g' rb' (wrapping_add 64 n (rb_len rb')) (map encode_command cs) =
          Some (h, case first_error rest_outs of Some e \<Rightarrow> Err e | None \<Rightarrow> Ok ((wrapping_add 64 n (rb_len rb') + report_total rest_outs) mod 2 ^ 64))"
        "run_steps (command_step REPORTS) f' (take (Suc (accepted_prefix rest_outs)) cs) = Some (l, take (Suc (accepted_prefix rest_outs)) rest_outs)"
        "gw_equiv l h" by auto
    moreover have "run_steps (command_step REPORTS) f (take (Suc (accepted_prefix outs)) (c # cs)) = Some (l, take (Suc (accepted_prefix outs)) outs)"
      using step h(3) by (simp add: r(2) Ok)
    ultimately show ?thesis unfolding loop sum by (intro exI [of _ h] exI [of _ l]) simp
  qed
qed (auto simp: report_total_def)

lemma gateway_digest_total: "gw_inv g \<Longrightarrow> \<exists>digest. gateway_stable_digest g = Some digest"
  using book_stable_digest_eq [of "gw_book g"] gw_invD(2) [of g] wf_sides [of "gw_book g"]
  by (auto simp: gateway_stable_digest_def book_ok_def Let_def)

section \<open>Properties\<close>

lemma export_expected: "gateway_export_state g = Some s \<Longrightarrow> gs_expected_sequence s = gw_expected_sequence g"
  by (auto simp: gateway_export_state_def split: Option.bind_split_asm)

text \<open>A sound gateway's snapshot and the records of the commands that followed recover to the commands' run.\<close>

lemma recover_snapshot_run:
  assumes sha: "\<forall>x. length (sha x) = DIGEST_SIZE" and fit: "capacities_fit ACCOUNTS RISK_ORDERS LEVELS ORDERS"
    and g: "gw_sound ACCOUNTS RISK_ORDERS LEVELS ORDERS g" "open_orders_within g" and e: "gateway_export_state g = Some s"
    and s: "state_typed ACCOUNTS RISK_ORDERS LEVELS ORDERS s" and seq: "gw_expected_sequence g = applied + 1"
    and tail: "journal_of crc (applied + 1) rs cs" "applied + 1 + length cs < 2 ^ 64"
  shows "\<exists>snapshot h k outs. encode_snapshot sha ACCOUNTS RISK_ORDERS LEVELS ORDERS g applied = Some (Ok snapshot) \<and>
    run_steps (command_step REPORTS) g cs = Some (k, outs) \<and>
    recover_snapshot_and_tail sha crc ACCOUNTS RISK_ORDERS LEVELS ORDERS REPORTS (sn_bytes snapshot) (concat (map record_encode rs)) = Some (Ok h) \<and>
    gw_inv h \<and> gateway_export_state h = gateway_export_state k"
proof -
  have cap: "capacities_ok ACCOUNTS RISK_ORDERS LEVELS ORDERS" by (rule gw_sound_capacities [OF g(1)])
  have q: "gs_expected_sequence s = Suc applied" using export_expected [OF e] seq by simp
  note len = state_payload_fits [OF cap s]
  from gateway_export_restore [of g ACCOUNTS RISK_ORDERS LEVELS ORDERS] g e obtain g2 where
    g2: "gateway_from_state ACCOUNTS RISK_ORDERS LEVELS ORDERS s = Some (Ok g2)" "gw_equiv g g2" by (auto simp: gw_sound_def)
  note r = gateway_restored [OF cap state_typed_gateway [OF s] g2(1)]
  have s2: "gw_sound ACCOUNTS RISK_ORDERS LEVELS ORDERS g2" "gw_expected_sequence g2 = applied + 1"
    using r export_expected [OF r(4)] q by (simp_all add: gw_sound_def)
  from recover_records_run [OF tail(1) s2 tail(2) _ g2(2), of "reports_new REPORTS" REPORTS 0] obtain h k outs where
    h: "recover_records crc 0 (applied + 1) g2 (reports_new REPORTS) (map record_encode rs) = Some (Ok h)"
      "gw_sound ACCOUNTS RISK_ORDERS LEVELS ORDERS h" "run_steps (command_step REPORTS) g cs = Some (k, outs)" "gw_equiv k h"
    by (auto simp: reports_new_def)
  have chunks: "chunks_exact RECORD_SIZE (concat (map record_encode rs)) = map record_encode rs"
    by (rule chunks_exact_concat [OF _ journal_of_chunks [OF tail(1)]]) (simp add: RECORD_SIZE_def)
  have whole: "length (concat (map record_encode rs)) mod RECORD_SIZE = 0"
    using journal_of_chunks [OF tail(1)] by (induction rs) (auto simp: mod_add_left_eq)
  have next_up: "checked_add 64 applied 1 = Some (applied + 1)" using tail(2) by (simp add: checked_add_def)
  have "recover_snapshot_and_tail sha crc ACCOUNTS RISK_ORDERS LEVELS ORDERS REPORTS
      (snapshot_bytes sha (ACCOUNTS, RISK_ORDERS, LEVELS, ORDERS) applied s) (concat (map record_encode rs)) = Some (Ok h)"
    using decode_snapshot_bytes [OF _ fit s len q, of sha] sha g2(1) h(1)
    by (simp add: recover_snapshot_and_tail_def chunks whole next_up del: One_nat_def)
  with encode_snapshot_bytes [OF _ fit e s len q, of sha] sha h(2,3) gw_equiv_export [OF h(4)] show ?thesis
    by (auto simp: gw_sound_def)
qed

text \<open>
  Recovery is the run that was not interrupted. Take a gateway that keeps its invariant, with
  well-typed fields and open orders within their limits, its snapshot at the last applied sequence
  number, and the journal records of the commands that followed. Recovering from the snapshot and
  these records succeeds, business rejections among the commands included, and gives a gateway with
  the exported state that the original reached by processing the commands.
\<close>
theorem recovery_resumes:
  assumes sha: "\<forall>x. length (sha x) = DIGEST_SIZE" and fit: "capacities_fit ACCOUNTS RISK_ORDERS LEVELS ORDERS"
    and g: "gw_sound ACCOUNTS RISK_ORDERS LEVELS ORDERS g" "open_orders_within g" and e: "gateway_export_state g = Some s"
    and s: "state_typed ACCOUNTS RISK_ORDERS LEVELS ORDERS s" and seq: "gw_expected_sequence g = applied + 1"
    and tail: "journal_of crc (applied + 1) rs cs" "applied + 1 + length cs < 2 ^ 64"
  shows "\<exists>snapshot h k outs. encode_snapshot sha ACCOUNTS RISK_ORDERS LEVELS ORDERS g applied = Some (Ok snapshot) \<and>
    run_steps (command_step REPORTS) g cs = Some (k, outs) \<and>
    recover_snapshot_and_tail sha crc ACCOUNTS RISK_ORDERS LEVELS ORDERS REPORTS (sn_bytes snapshot) (concat (map record_encode rs)) = Some (Ok h) \<and>
    gw_inv h \<and> gateway_export_state h = gateway_export_state k"
  by (rule recover_snapshot_run [OF assms])

lemma demo_tail:
  obtains r where "journal_of demo_crc 2 [r] [CmdCancelOrder \<lparr>co_order_id = 11, co_account_id = 7, co_instrument_id = 3, co_sequence = 2\<rparr>]"
  using record_new_ok [of "encode_command (CmdCancelOrder \<lparr>co_order_id = 11, co_account_id = 7, co_instrument_id = 3, co_sequence = 2\<rparr>)" 2 demo_crc]
  by (auto simp: MAX_PAYLOAD_def u64_ok_def u32_ok_def cancel_order_ok_def)

theorem recovery_resumes_witness:
  "\<exists>g snapshot r h k outs. gateway_export_state g = Some demo_gateway_state \<and>
     encode_snapshot (\<lambda>_. replicate 32 0) 2 3 1 1 g 1 = Some (Ok snapshot) \<and>
     run_steps (command_step 4) g [CmdCancelOrder \<lparr>co_order_id = 11, co_account_id = 7, co_instrument_id = 3, co_sequence = 2\<rparr>] = Some (k, outs) \<and>
     recover_snapshot_and_tail (\<lambda>_. replicate 32 0) demo_crc 2 3 1 1 4 (sn_bytes snapshot) (record_encode r) = Some (Ok h) \<and>
     gateway_export_state h = gateway_export_state k"
proof -
  obtain g where g: "gw_sound 2 3 1 1 g" "gateway_export_state g = Some demo_gateway_state" "open_orders_within g"
    by (rule demo_restored)
  obtain r where r: "journal_of demo_crc 2 [r] [CmdCancelOrder \<lparr>co_order_id = 11, co_account_id = 7, co_instrument_id = 3, co_sequence = 2\<rparr>]"
    by (rule demo_tail)
  have seq: "gw_expected_sequence g = 1 + 1" using export_expected [OF g(2)] by (simp add: demo_gateway_state_def)
  have "\<forall>x :: byte list. length (replicate 32 (0 :: byte)) = DIGEST_SIZE" "capacities_fit 2 3 1 1"
    by (simp_all add: DIGEST_SIZE_def capacities_fit_def u32_ok_def)
  from recovery_resumes [OF this g(1,3,2) demo_state_typed seq, of demo_crc "[r]" _ 4] r obtain snapshot h k outs where
    "encode_snapshot (\<lambda>_. replicate 32 0) 2 3 1 1 g 1 = Some (Ok snapshot)"
    "run_steps (command_step 4) g [CmdCancelOrder \<lparr>co_order_id = 11, co_account_id = 7, co_instrument_id = 3, co_sequence = 2\<rparr>] = Some (k, outs)"
    "recover_snapshot_and_tail (\<lambda>_. replicate 32 0) demo_crc 2 3 1 1 4 (sn_bytes snapshot) (record_encode r) = Some (Ok h)"
    "gateway_export_state h = gateway_export_state k" by (force simp del: run_steps.simps)
  with g(2) show ?thesis by blast
qed

text \<open>
  C23: recovery accepts only journals. On any snapshot and tail bytes recovery does not panic; when it
  succeeds, the snapshot decodes, the tail is a sequence of valid records of well-formed commands
  numbered from the snapshot's cut on, and the result keeps the full invariant, has consumed exactly
  these numbers, and has the exported state of the snapshot's gateway after these commands.
\<close>
theorem recovery_sound:
  assumes sha: "\<forall>x. length (sha x) = DIGEST_SIZE" and cap: "capacities_ok ACCOUNTS RISK_ORDERS LEVELS ORDERS"
    and len: "length snapshot < 2 ^ 63"
  shows "case recover_snapshot_and_tail sha crc ACCOUNTS RISK_ORDERS LEVELS ORDERS REPORTS snapshot tail of
      None \<Rightarrow> False
    | Some (Err e) \<Rightarrow> True
    | Some (Ok h) \<Rightarrow> gw_inv h \<and> (\<exists>d rs cs k outs. decode_snapshot sha ACCOUNTS RISK_ORDERS LEVELS ORDERS snapshot = Some (Ok d) \<and>
        tail = concat (map record_encode rs) \<and> journal_of crc (ds_applied_sequence d + 1) rs cs \<and>
        run_steps (command_step REPORTS) (ds_gateway d) cs = Some (k, outs) \<and> gateway_export_state h = gateway_export_state k \<and>
        gw_expected_sequence h = ds_applied_sequence d + 1 + length cs)"
proof -
  have sha': "\<And>x. length (sha x) = DIGEST_SIZE" using sha by blast
  from decode_snapshot_total [OF cap len, of sha] obtain r where r: "decode_snapshot sha ACCOUNTS RISK_ORDERS LEVELS ORDERS snapshot = Some r" by blast
  show ?thesis
  proof (cases "\<exists>d. r = Ok d \<and> length tail mod RECORD_SIZE = 0")
    case False
    then show ?thesis using r by (cases r) (auto simp: recover_snapshot_and_tail_def)
  next
    case True
    then obtain d where "r = Ok d" and mod: "length tail mod RECORD_SIZE = 0" by (elim exE conjE)
    with r have d: "decode_snapshot sha ACCOUNTS RISK_ORDERS LEVELS ORDERS snapshot = Some (Ok d)" by simp
    obtain s where s: "state_typed ACCOUNTS RISK_ORDERS LEVELS ORDERS s" "gs_expected_sequence s = Suc (ds_applied_sequence d)"
      "gateway_from_state ACCOUNTS RISK_ORDERS LEVELS ORDERS s = Some (Ok (ds_gateway d))"
      by (rule decode_snapshot_accepts [OF sha' len d])
    note g = gateway_restored [OF cap state_typed_gateway [OF s(1)] s(3)]
    let ?n = "ds_applied_sequence d + 1"
    have sound: "gw_sound ACCOUNTS RISK_ORDERS LEVELS ORDERS (ds_gateway d)" "gw_expected_sequence (ds_gateway d) = ?n"
      using g export_expected [OF g(4)] s(2) by (simp_all add: gw_sound_def)
    then have n: "checked_add 64 (ds_applied_sequence d) 1 = Some ?n" by (auto simp: gw_sound_def gw_inv_def u64_ok_def checked_add_def)
    have ch: "concat (chunks_exact RECORD_SIZE tail) = tail" "list_all (\<lambda>x. length x = RECORD_SIZE) (chunks_exact RECORD_SIZE tail)"
      using chunks_exact_whole [OF _ mod] by (simp_all add: RECORD_SIZE_def)
    have run: "recover_snapshot_and_tail sha crc ACCOUNTS RISK_ORDERS LEVELS ORDERS REPORTS snapshot tail =
        recover_records crc 0 ?n (ds_gateway d) (reports_new REPORTS) (chunks_exact RECORD_SIZE tail)" (is "_ = ?run")
      using d mod by (simp add: recover_snapshot_and_tail_def n del: One_nat_def)
    have total: "?run \<noteq> None" by (rule recover_records_total [OF sound ch(2)])
    have "gw_inv h \<and> (\<exists>rs cs k outs. tail = concat (map record_encode rs) \<and> journal_of crc ?n rs cs \<and>
        run_steps (command_step REPORTS) (ds_gateway d) cs = Some (k, outs) \<and> gateway_export_state h = gateway_export_state k \<and>
        gw_expected_sequence h = ?n + length cs)" if ok: "?run = Some (Ok h)" for h
    proof -
      from recover_records_accepts [OF ok ch(2) sound] obtain rs cs where
        j: "chunks_exact RECORD_SIZE tail = map record_encode rs" "journal_of crc ?n rs cs" "?n + length cs < 2 ^ 64" by blast
      have "gw_equiv (ds_gateway d) (ds_gateway d)" by (rule gw_equiv_refl [OF g(1)])
      from recover_records_run [OF j(2) sound j(3) _ this, of "reports_new REPORTS" REPORTS 0] ok j(1) obtain k outs where
        "gw_sound ACCOUNTS RISK_ORDERS LEVELS ORDERS h" "gw_expected_sequence h = ?n + length cs"
        "run_steps (command_step REPORTS) (ds_gateway d) cs = Some (k, outs)" "gw_equiv k h" by (auto simp: reports_new_def)
      moreover have "tail = concat (map record_encode rs)" using j(1) ch(1) by simp
      ultimately show ?thesis using j(2) gw_equiv_export [of k h] unfolding gw_sound_def
        by (intro conjI exI [of _ rs] exI [of _ cs] exI [of _ k] exI [of _ outs]) auto
    qed
    with total d run show ?thesis by (auto split: option.splits result.splits)
  qed
qed

theorem recovery_sound_witness:
  "\<exists>snapshot r h. recover_snapshot_and_tail (\<lambda>_. replicate 32 0) demo_crc 2 3 1 1 4 snapshot (record_encode r) = Some (Ok h) \<and>
     gw_inv h \<and> gw_expected_sequence h = 3"
proof -
  let ?sha = "\<lambda>_ :: byte list. replicate 32 (0 :: byte)"
  let ?bytes = "snapshot_bytes ?sha (2, 3, 1, 1) 1 demo_gateway_state"
  have sha: "\<forall>x. length (?sha x) = DIGEST_SIZE" and cap: "capacities_ok 2 3 1 1" and fit: "capacities_fit 2 3 1 1"
    by (simp_all add: DIGEST_SIZE_def capacities_ok_def capacities_fit_def u32_ok_def)
  obtain g where g: "gw_sound 2 3 1 1 g" "gateway_export_state g = Some demo_gateway_state" "open_orders_within g"
    by (rule demo_restored)
  have seq: "gw_expected_sequence g = 1 + 1" "gs_expected_sequence demo_gateway_state = Suc 1"
    using export_expected [OF g(2)] by (simp_all add: demo_gateway_state_def)
  obtain r where r: "journal_of demo_crc 2 [r] [CmdCancelOrder \<lparr>co_order_id = 11, co_account_id = 7, co_instrument_id = 3, co_sequence = 2\<rparr>]"
    by (rule demo_tail)
  have j: "journal_of demo_crc (1 + 1) [r] [CmdCancelOrder \<lparr>co_order_id = 11, co_account_id = 7, co_instrument_id = 3, co_sequence = 2\<rparr>]"
    using r by simp
  have enc: "encode_snapshot ?sha 2 3 1 1 g 1 = Some (Ok \<lparr>sn_bytes = ?bytes,
      sn_digest = payload_digest ?sha (2, 3, 1, 1) 1 demo_gateway_state, sn_applied_sequence = 1\<rparr>)"
    by (rule encode_snapshot_bytes [OF _ fit g(2) demo_state_typed state_payload_fits [OF cap demo_state_typed] seq(2)]) (use sha in simp)
  from recover_snapshot_run [OF sha fit g(1,3,2) demo_state_typed seq(1) j, of 4] enc
  obtain h where h: "recover_snapshot_and_tail ?sha demo_crc 2 3 1 1 4 ?bytes (record_encode r) = Some (Ok h)"
    by (auto simp del: run_steps.simps)
  with recovery_sound [OF sha cap demo_snapshot_short, where crc = demo_crc and REPORTS = 4 and tail = "record_encode r"]
  obtain d rs cs where d: "gw_inv h" "decode_snapshot ?sha 2 3 1 1 ?bytes = Some (Ok d)" "record_encode r = concat (map record_encode rs)"
    "journal_of demo_crc (ds_applied_sequence d + 1) rs cs" "gw_expected_sequence h = ds_applied_sequence d + 1 + length cs" by auto
  from d(2) have "ds_applied_sequence d = 1" using demo_snapshot_decodes demo_gateway_state_accepted by auto
  moreover have "length cs = 1"
    using journal_of_size [OF d(4)] journal_of_size [OF r] arg_cong [OF d(3), of length] by (simp add: RECORD_SIZE_def)
  ultimately have "gw_expected_sequence h = 3" using d(5) by simp
  with h d(1) show ?thesis by blast
qed

text \<open>
  C24: replay stops at the first rejection. Replaying the frames of well-formed commands on a gateway
  that keeps its invariant never panics. The gateway it leaves has the exported state of the run of the commands up
  to and including the first rejected one, all of them if none is rejected, and nothing of the later ones. It reports
  that rejection, or, when all are accepted, the number of frames, the number of reports modulo \<open>2 ^ 64\<close> and the digest.
\<close>
theorem replay_follows_run:
  assumes "gw_sound ACCOUNTS RISK_ORDERS LEVELS ORDERS g" and "list_all command_ok cs"
  shows "\<exists>k outs h l r. run_steps (command_step REPORTS) g cs = Some (k, outs) \<and> replay REPORTS g (map encode_command cs) = Some (h, r) \<and>
    run_steps (command_step REPORTS) g (take (Suc (accepted_prefix outs)) cs) = Some (l, take (Suc (accepted_prefix outs)) outs) \<and>
    gateway_export_state h = gateway_export_state l \<and>
    (case first_error outs of
       Some e \<Rightarrow> r = Err e
     | None \<Rightarrow> \<exists>digest. gateway_stable_digest h = Some digest \<and>
         r = Ok \<lparr>rp_frames = length cs, rp_reports = report_total outs mod 2 ^ 64, rp_digest = digest\<rparr>)"
proof -
  from run_commands_sound [OF assms, of REPORTS] obtain k outs where run: "run_steps (command_step REPORTS) g cs = Some (k, outs)" by blast
  have "gw_equiv g g" using assms(1) gw_equiv_refl by (simp add: gw_sound_def)
  from replay_loop_run [OF assms(2) this assms(1) _ run, of "reports_new REPORTS" 0, unfolded add_0] obtain h l where
    h: "gw_sound ACCOUNTS RISK_ORDERS LEVELS ORDERS h" "replay_loop g (reports_new REPORTS) 0 (map encode_command cs) = Some (h,
        case first_error outs of Some e \<Rightarrow> Err e | None \<Rightarrow> Ok (report_total outs mod 2 ^ 64))"
      "run_steps (command_step REPORTS) g (take (Suc (accepted_prefix outs)) cs) = Some (l, take (Suc (accepted_prefix outs)) outs)"
      "gw_equiv l h" by (auto simp: length_reports_new)
  from gateway_digest_total [of h] h(1) obtain digest where "gateway_stable_digest h = Some digest" by (auto simp: gw_sound_def)
  with run h(2,3) gw_equiv_export [OF h(4)] show ?thesis by (cases "first_error outs") (auto simp: replay_def)
qed

theorem replay_follows_run_witness:
  "\<exists>g h out x. command_step 4 demo_gateway (CmdNewOrder demo_buy) = Some (g, out, Ok x) \<and> gateway_export_state h = gateway_export_state g \<and>
     replay 4 demo_gateway (map encode_command [CmdNewOrder demo_buy, CmdNewOrder (demo_buy\<lparr>no_sequence := 9\<rparr>), CmdNewOrder (demo_sell Gtc)]) =
       Some (h, Err (GwSequence 2 9))"
proof -
  let ?late = "CmdNewOrder (demo_buy\<lparr>no_sequence := 9\<rparr>)" and ?sell = "CmdNewOrder (demo_sell Gtc)"
  have ok: "list_all command_ok [CmdNewOrder demo_buy, ?late, ?sell]"
    by (simp add: new_order_ok_def demo_buy_def demo_sell_def u64_ok_def u32_ok_def i64_ok_def)
  obtain g rb x where g: "process_command demo_gateway (CmdNewOrder demo_buy) (reports_new 4) = Some (g, rb, Ok x)" "gw_expected_sequence g = 2"
    by (rule demo_command)
  then have s1: "command_step 4 demo_gateway (CmdNewOrder demo_buy) = Some (g, reports_iter rb, Ok x)" by (simp add: command_step_def)
  have s2: "command_step 4 g ?late = Some (g, reports_iter (reports_clear (reports_new 4)), Err (GwSequence 2 9))"
    using g(2) by (simp add: command_step_def process_command_def accept_sequence_def check_sequence_def)
  from replay_follows_run [OF gw_reachable_sound [OF demo_gateway_reachable demo_capacities] ok, of 4] obtain k outs h l r where
    run: "run_steps (command_step 4) demo_gateway [CmdNewOrder demo_buy, ?late, ?sell] = Some (k, outs)"
      "replay 4 demo_gateway (map encode_command [CmdNewOrder demo_buy, ?late, ?sell]) = Some (h, r)"
      "run_steps (command_step 4) demo_gateway (take (Suc (accepted_prefix outs)) [CmdNewOrder demo_buy, ?late, ?sell]) =
        Some (l, take (Suc (accepted_prefix outs)) outs)"
      "gateway_export_state h = gateway_export_state l" "case first_error outs of Some e \<Rightarrow> r = Err e | None \<Rightarrow> True"
    by (auto split: option.splits simp del: run_steps.simps)
  from run(1) s1 s2 obtain o3 where outs: "outs = [(reports_iter rb, Ok x), (reports_iter (reports_clear (reports_new 4)), Err (GwSequence 2 9)), o3]"
    by (auto split: Option.bind_split_asm)
  with run(3) s1 s2 have "l = g" by (simp add: numeral_2_eq_2)
  with run(2,4,5) s1 outs show ?thesis by auto
qed

end
