(* ===== verification/Session.thy ===== *)
theory Session
  imports Types
begin

text \<open>
  The session layer, \<open>crates/hft-session/src\<close>: the connection state machine of \<open>lib.rs\<close> with its
  virtual-time deadlines, and the retransmission window of \<open>retransmit.rs\<close>. The machine's operations
  return the machine together with the result, so that a refusal that changed state would show.
  The timeout counter is a 32-bit counter that wraps in the model; the invariant shows it never does.
\<close>

section \<open>The state machine\<close>

datatype SessionState = Disconnected | Connecting | Logon | Active | Recovering | Logout | Failed

datatype SessionEvent =
    Connect
  | LogonSent
  | LogonAccepted SequenceNumber
  | SessCommand SequenceNumber
  | HeartbeatReceived
  | LogoutSent
  | Disconnect
  | Fail

datatype SessionError =
    InvalidTransition SessionState string
  | SeqGap SequenceNumber SequenceNumber
  | DuplicateSequence SequenceNumber SequenceNumber
  | NotActive
  | SessArithmeticOverflow

record SessionConfig =
  sc_logon_timeout_ticks :: nat
  sc_heartbeat_timeout_ticks :: nat

definition session_config_default :: SessionConfig where
  "session_config_default = \<lparr>sc_logon_timeout_ticks = 100, sc_heartbeat_timeout_ticks = 50\<rparr>"

record Transition =
  tr_state :: SessionState
  tr_deadline :: "nat option"

record SessionStateMachine =
  sm_state :: SessionState
  sm_config :: SessionConfig
  sm_next_sequence :: nat
  sm_deadline :: "nat option"
  sm_heartbeat_timeouts :: nat

definition session_new :: "SessionConfig \<Rightarrow> SessionStateMachine" where
  "session_new config =
     \<lparr>sm_state = Disconnected, sm_config = config, sm_next_sequence = 1, sm_deadline = None, sm_heartbeat_timeouts = 0\<rparr>"

definition allows_commands :: "SessionStateMachine \<Rightarrow> bool" where
  "allows_commands m \<longleftrightarrow> sm_state m = Active \<or> sm_state m = Recovering"

definition session_snapshot :: "SessionStateMachine \<Rightarrow> Transition" where
  "session_snapshot m = \<lparr>tr_state = sm_state m, tr_deadline = sm_deadline m\<rparr>"

definition session_reset :: "SessionStateMachine \<Rightarrow> SessionStateMachine" where
  "session_reset m = m\<lparr>sm_next_sequence := 1, sm_deadline := None, sm_heartbeat_timeouts := 0\<rparr>"

type_synonym session_step = "SessionStateMachine \<times> (Transition, SessionError) result"

definition session_enter :: "SessionStateMachine \<Rightarrow> SessionState \<Rightarrow> nat option \<Rightarrow> session_step" where
  "session_enter m state deadline =
     (let m = m\<lparr>sm_state := state, sm_deadline := deadline\<rparr> in (m, Ok (session_snapshot m)))"

definition session_arm :: "SessionStateMachine \<Rightarrow> SessionState \<Rightarrow> nat \<Rightarrow> nat \<Rightarrow> session_step" where
  "session_arm m state timeout now =
     (case checked_add 64 now timeout of
        None \<Rightarrow> (m, Err SessArithmeticOverflow)
      | Some deadline \<Rightarrow>
          let m = m\<lparr>sm_state := state, sm_deadline := Some deadline\<rparr> in (m, Ok (session_snapshot m)))"

fun event_name :: "SessionEvent \<Rightarrow> string" where
  "event_name Connect = ''connect''"
| "event_name LogonSent = ''logon_sent''"
| "event_name (LogonAccepted _) = ''logon_accepted''"
| "event_name (SessCommand _) = ''command''"
| "event_name HeartbeatReceived = ''heartbeat_received''"
| "event_name LogoutSent = ''logout_sent''"
| "event_name Disconnect = ''disconnect''"
| "event_name Fail = ''fail''"

definition handle_logon_accepted :: "SessionStateMachine \<Rightarrow> SequenceNumber \<Rightarrow> nat \<Rightarrow> session_step" where
  "handle_logon_accepted m first_sequence now =
     (if first_sequence = 0 then (m, Err SessArithmeticOverflow)
      else case session_arm m Active (sc_heartbeat_timeout_ticks (sm_config m)) now of
        (m', Err e) \<Rightarrow> (m', Err e)
      | (m', Ok transition) \<Rightarrow>
          (m'\<lparr>sm_next_sequence := first_sequence, sm_heartbeat_timeouts := 0\<rparr>, Ok transition))"

definition handle_command :: "SessionStateMachine \<Rightarrow> SequenceNumber \<Rightarrow> nat \<Rightarrow> session_step" where
  "handle_command m received now =
     (if received < sm_next_sequence m then (m, Err (DuplicateSequence received (sm_next_sequence m)))
      else if received > sm_next_sequence m then (m, Err (SeqGap (sm_next_sequence m) received))
      else case checked_add 64 (sm_next_sequence m) 1 of
        None \<Rightarrow> (m, Err SessArithmeticOverflow)
      | Some next_sequence \<Rightarrow>
          (case session_arm m Active (sc_heartbeat_timeout_ticks (sm_config m)) now of
             (m', Err e) \<Rightarrow> (m', Err e)
           | (m', Ok transition) \<Rightarrow>
               (m'\<lparr>sm_next_sequence := next_sequence, sm_heartbeat_timeouts := 0\<rparr>, Ok transition)))"

definition handle :: "SessionStateMachine \<Rightarrow> SessionEvent \<Rightarrow> nat \<Rightarrow> session_step" where
  "handle m event now =
     (let refuse = (m, Err (InvalidTransition (sm_state m) (event_name event))) in
      case event of
        Connect \<Rightarrow> if sm_state m = Disconnected then session_enter m Connecting None else refuse
      | LogonSent \<Rightarrow>
          if sm_state m = Connecting then session_arm m Logon (sc_logon_timeout_ticks (sm_config m)) now else refuse
      | LogonAccepted first_sequence \<Rightarrow>
          if sm_state m = Logon then handle_logon_accepted m first_sequence now else refuse
      | SessCommand sequence \<Rightarrow>
          if sm_state m = Active \<or> sm_state m = Recovering then handle_command m sequence now else refuse
      | HeartbeatReceived \<Rightarrow>
          if sm_state m = Active then session_arm m Active (sc_heartbeat_timeout_ticks (sm_config m)) now else refuse
      | LogoutSent \<Rightarrow>
          if sm_state m \<in> {Connecting, Logon, Active, Recovering} then session_enter m Logout None else refuse
      | Disconnect \<Rightarrow>
          if sm_state m \<noteq> Failed then session_enter (session_reset m) Disconnected None else refuse
      | Fail \<Rightarrow> session_enter (session_reset m) Failed None)"

definition session_tick :: "SessionStateMachine \<Rightarrow> nat \<Rightarrow> session_step" where
  "session_tick m now =
     (case sm_deadline m of
        None \<Rightarrow> (m, Ok (session_snapshot m))
      | Some deadline \<Rightarrow>
          if now < deadline then (m, Ok (session_snapshot m))
          else (case sm_state m of
              Logon \<Rightarrow> session_enter (session_reset m) Failed None
            | Active \<Rightarrow>
                (case checked_add 64 now (sc_heartbeat_timeout_ticks (sm_config m)) of
                   None \<Rightarrow> (m, Err SessArithmeticOverflow)
                 | Some deadline \<Rightarrow>
                     (m\<lparr>sm_heartbeat_timeouts := wrapping_add 32 (sm_heartbeat_timeouts m) 1,
                        sm_state := Recovering, sm_deadline := Some deadline\<rparr>,
                      Ok \<lparr>tr_state = Recovering, tr_deadline = Some deadline\<rparr>))
            | Recovering \<Rightarrow>
                session_enter (session_reset (m\<lparr>sm_heartbeat_timeouts := wrapping_add 32 (sm_heartbeat_timeouts m) 1\<rparr>))
                  Failed None
            | _ \<Rightarrow> (m, Ok (session_snapshot m))))"

section \<open>The retransmission window\<close>

definition MAX_FRAME :: nat where "MAX_FRAME = 46"

record RetainedFrame =
  rf_sequence :: SequenceNumber
  rf_bytes :: "byte list"
  rf_len :: nat

definition retained_slice :: "RetainedFrame \<Rightarrow> byte list" where
  "retained_slice f = take (rf_len f) (rf_bytes f)"

datatype RetainError = RetainFull | NotInOrder SequenceNumber SequenceNumber | SequenceOverflow

record RetransmitBuffer =
  rt_entries :: "RetainedFrame list"
  rt_capacity :: nat
  rt_next_sequence :: nat

definition retransmit_new :: "nat \<Rightarrow> RetransmitBuffer" where
  "retransmit_new capacity = \<lparr>rt_entries = [], rt_capacity = capacity, rt_next_sequence = 1\<rparr>"

definition retain :: "RetransmitBuffer \<Rightarrow> SequenceNumber \<Rightarrow> byte list \<Rightarrow> (RetransmitBuffer, RetainError) result" where
  "retain rt sequence bytes =
     (if length bytes > MAX_FRAME then Err RetainFull
      else if sequence \<noteq> rt_next_sequence rt then Err (NotInOrder (rt_next_sequence rt) sequence)
      else if length (rt_entries rt) = rt_capacity rt then Err RetainFull
      else case checked_add 64 sequence 1 of
        None \<Rightarrow> Err SequenceOverflow
      | Some next_sequence \<Rightarrow>
          Ok (rt\<lparr>rt_entries := rt_entries rt @
                   [\<lparr>rf_sequence = sequence, rf_bytes = bytes @ replicate (MAX_FRAME - length bytes) 0, rf_len = length bytes\<rparr>],
                 rt_next_sequence := next_sequence\<rparr>))"

text \<open>The loop that pops confirmed frames from the front, with its counter.\<close>

fun confirm_loop :: "RetainedFrame list \<Rightarrow> nat \<Rightarrow> nat \<Rightarrow> RetainedFrame list \<times> nat" where
  "confirm_loop [] confirmed dropped = ([], dropped)"
| "confirm_loop (f # fs) confirmed dropped =
     (if rf_sequence f \<le> confirmed then confirm_loop fs confirmed (dropped + 1) else (f # fs, dropped))"

definition confirm_through :: "RetransmitBuffer \<Rightarrow> nat \<Rightarrow> RetransmitBuffer \<times> nat" where
  "confirm_through rt confirmed =
     (case confirm_loop (rt_entries rt) confirmed 0 of
        (entries, dropped) \<Rightarrow> (rt\<lparr>rt_entries := entries\<rparr>, dropped))"

definition since :: "RetransmitBuffer \<Rightarrow> nat \<Rightarrow> RetainedFrame list" where
  "since rt from_sequence = filter (\<lambda>f. from_sequence \<le> rf_sequence f) (rt_entries rt)"

definition retransmit_remaining_capacity :: "RetransmitBuffer \<Rightarrow> nat" where
  "retransmit_remaining_capacity rt = rt_capacity rt - length (rt_entries rt)"

end
