(* ===== verification/SessionProps.thy ===== *)
theory SessionProps
  imports Session
begin

text \<open>
  Properties of the session layer: refusals change nothing, the reachable machines, accepted commands
  arrive in sequence, a silent session fails, and the retransmission window replays exactly the
  unconfirmed suffix of what was retained.
\<close>

section \<open>Machine steps\<close>

lemmas session_defs = session_enter_def session_arm_def session_reset_def session_snapshot_def
  handle_logon_accepted_def handle_command_def Let_def checked_add_def

datatype SessionInput = EventAt SessionEvent nat | TickAt nat

fun session_input :: "SessionStateMachine \<Rightarrow> SessionInput \<Rightarrow> session_step" where
  "session_input m (EventAt e now) = handle m e now"
| "session_input m (TickAt now) = session_tick m now"

fun input_ok :: "SessionInput \<Rightarrow> bool" where
  "input_ok (EventAt (LogonAccepted s) now) \<longleftrightarrow> u64_ok s \<and> u64_ok now"
| "input_ok (EventAt e now) \<longleftrightarrow> u64_ok now"
| "input_ok (TickAt now) \<longleftrightarrow> u64_ok now"

inductive session_reachable :: "SessionConfig \<Rightarrow> SessionStateMachine \<Rightarrow> bool" for config where
  session_start: "session_reachable config (session_new config)"
| session_next: "session_reachable config m \<Longrightarrow> input_ok i \<Longrightarrow> session_input m i = (m', r) \<Longrightarrow> session_reachable config m'"

definition session_inv :: "SessionStateMachine \<Rightarrow> bool" where
  "session_inv m \<longleftrightarrow> 0 < sm_next_sequence m \<and> u64_ok (sm_next_sequence m) \<and>
     (sm_deadline m = None \<longleftrightarrow> sm_state m \<notin> {Logon, Active, Recovering}) \<and>
     (\<forall>d. sm_deadline m = Some d \<longrightarrow> u64_ok d) \<and>
     (case sm_state m of Recovering \<Rightarrow> sm_heartbeat_timeouts m = 1 | Logout \<Rightarrow> sm_heartbeat_timeouts m \<le> 1
      | _ \<Rightarrow> sm_heartbeat_timeouts m = 0)"

lemma refused_unchanged: "session_input m i = (m', Err e) \<Longrightarrow> m' = m"
  by (cases i; cases "sm_state m")
    (auto simp: handle_def session_tick_def session_defs split: SessionEvent.splits if_splits option.splits prod.splits result.splits)

lemma handle_inv:
  assumes "session_inv m" and "input_ok (EventAt e now)"
  shows "session_inv (fst (handle m e now))"
  using assms
  by (cases "sm_state m"; cases e)
    (auto simp: handle_def session_defs session_inv_def u64_ok_def split: if_splits option.splits prod.splits result.splits)

lemma tick_inv:
  assumes "session_inv m"
  shows "session_inv (fst (session_tick m now))"
  using assms
  by (cases "sm_state m")
    (auto simp: session_tick_def session_defs session_inv_def u64_ok_def wrapping_add_def split: if_splits option.splits)

lemma session_inv_reachable: "session_reachable config m \<Longrightarrow> session_inv m \<and> sm_config m = config"
proof (induction rule: session_reachable.induct)
  case session_start
  then show ?case by (simp add: session_new_def session_inv_def u64_ok_def)
next
  case (session_next m i m' r)
  have "sm_config (fst (session_input m i)) = sm_config m"
    by (cases i; cases "sm_state m")
      (auto simp: handle_def session_tick_def session_defs split: SessionEvent.splits if_splits option.splits prod.splits result.splits)
  moreover have "session_inv (fst (session_input m i))"
    using session_next.IH session_next.hyps(2) by (cases i) (simp_all add: handle_inv tick_inv del: input_ok.simps)
  ultimately show ?case using session_next by simp
qed

section \<open>Runs\<close>

fun accepted_command :: "SessionInput \<Rightarrow> (Transition, SessionError) result \<Rightarrow> nat list" where
  "accepted_command (EventAt (SessCommand s) now) (Ok t) = [s]"
| "accepted_command i r = []"

fun session_run :: "SessionStateMachine \<Rightarrow> SessionInput list \<Rightarrow> SessionStateMachine \<times> nat list" where
  "session_run m [] = (m, [])"
| "session_run m (i # ins) =
     (let (m', r) = session_input m i; (m2, xs) = session_run m' ins in (m2, accepted_command i r @ xs))"

fun is_logon :: "SessionInput \<Rightarrow> bool" where
  "is_logon (EventAt (LogonAccepted s) now) \<longleftrightarrow> True"
| "is_logon i \<longleftrightarrow> False"

lemma closed_stays:
  assumes "\<not> allows_commands m" and "\<not> is_logon i" and "session_input m i = (m', r)"
  shows "\<not> allows_commands m' \<and> accepted_command i r = []"
proof (cases i)
  case (EventAt e now)
  with assms show ?thesis
    by (cases e; cases "sm_state m") (auto simp: handle_def session_defs allows_commands_def split: if_splits option.splits)
next
  case (TickAt now)
  with assms show ?thesis
    by (cases "sm_state m") (auto simp: session_tick_def session_defs allows_commands_def split: if_splits option.splits)
qed

lemma closed_run:
  assumes "\<not> allows_commands m" and "\<forall>i \<in> set ins. \<not> is_logon i"
  shows "snd (session_run m ins) = []"
  using assms
proof (induction ins arbitrary: m)
  case (Cons i ins)
  obtain m' r where i: "session_input m i = (m', r)" by (cases "session_input m i") auto
  with closed_stays [OF Cons.prems(1) _ i] Cons show ?case by (auto split: prod.splits)
qed simp

lemma open_step:
  assumes "session_input m i = (m', r)" and "\<not> is_logon i"
  shows "\<not> allows_commands m' \<and> accepted_command i r = [] \<or>
    accepted_command i r = [] \<and> sm_next_sequence m' = sm_next_sequence m \<or>
    accepted_command i r = [sm_next_sequence m] \<and> sm_next_sequence m' = sm_next_sequence m + 1"
proof (cases i)
  case (EventAt e now)
  with assms show ?thesis
    by (cases e; cases "sm_state m"; cases r)
      (auto simp: handle_def session_defs allows_commands_def split: if_splits option.splits result.splits)
next
  case (TickAt now)
  with assms show ?thesis
    by (cases "sm_state m") (auto simp: session_tick_def session_defs allows_commands_def split: if_splits option.splits)
qed

lemma run_in_order:
  assumes "\<forall>i \<in> set ins. \<not> is_logon i"
  shows "snd (session_run m ins) = [sm_next_sequence m..<sm_next_sequence m + length (snd (session_run m ins))]"
  using assms
proof (induction ins arbitrary: m)
  case (Cons i ins)
  obtain m' r where i: "session_input m i = (m', r)" by (cases "session_input m i") auto
  let ?xs = "snd (session_run m' ins)"
  have all: "snd (session_run m (i # ins)) = accepted_command i r @ ?xs" using i by (auto split: prod.splits)
  have tl: "\<forall>i \<in> set ins. \<not> is_logon i" using Cons.prems by simp
  from open_step [OF i] Cons.prems consider "\<not> allows_commands m'" "accepted_command i r = []"
    | "accepted_command i r = []" "sm_next_sequence m' = sm_next_sequence m"
    | "accepted_command i r = [sm_next_sequence m]" "sm_next_sequence m' = sm_next_sequence m + 1" by auto
  then show ?case
  proof cases
    case 1
    then show ?thesis unfolding all using closed_run [OF 1(1) tl] by simp
  next
    case 2
    then show ?thesis unfolding all using Cons.IH [OF tl, of m'] by simp
  next
    case 3
    have "?xs = [sm_next_sequence m + 1..<sm_next_sequence m + 1 + length ?xs]" using Cons.IH [OF tl, of m'] 3(2) by simp
    moreover have "[sm_next_sequence m..<sm_next_sequence m + length ([sm_next_sequence m] @ ?xs)]
        = sm_next_sequence m # [sm_next_sequence m + 1..<sm_next_sequence m + 1 + length ?xs]"
      by (simp add: upt_conv_Cons del: upt_Suc)
    ultimately show ?thesis unfolding all 3(1) by simp
  qed
qed simp

lemma failed_absorbs: "sm_state m = Failed \<Longrightarrow> sm_deadline m = None \<Longrightarrow> session_input m i = (m', r) \<Longrightarrow>
  sm_state m' = Failed \<and> sm_deadline m' = None"
  by (cases i) (auto simp: handle_def session_tick_def session_defs split: SessionEvent.splits if_splits)

lemma failed_run: "sm_state m = Failed \<Longrightarrow> sm_deadline m = None \<Longrightarrow> sm_state (fst (session_run m ins)) = Failed"
proof (induction ins arbitrary: m)
  case (Cons i ins)
  obtain m' r where i: "session_input m i = (m', r)" by (cases "session_input m i") auto
  from failed_absorbs [OF Cons.prems i] Cons.IH [of m'] i show ?case by (auto split: prod.splits)
qed simp

section \<open>The retransmission window\<close>

text \<open>
  The window after retaining the frames \<open>h\<close> and confirming the first \<open>c\<close> of them.
\<close>

inductive window :: "nat \<Rightarrow> byte list list \<Rightarrow> nat \<Rightarrow> RetransmitBuffer \<Rightarrow> bool" for capacity where
  opened: "window capacity [] 0 (retransmit_new capacity)"
| retained: "window capacity h c rt \<Longrightarrow> retain rt sequence bytes = Ok rt' \<Longrightarrow> window capacity (h @ [bytes]) c rt'"
| confirmed: "window capacity h c rt \<Longrightarrow> confirm_through rt k = (rt', n) \<Longrightarrow> window capacity h (max c (min k (length h))) rt'"

definition frame_view :: "RetainedFrame \<Rightarrow> nat \<times> byte list" where
  "frame_view f = (rf_sequence f, retained_slice f)"

lemma confirm_loop_eq: "confirm_loop fs k n = (dropWhile (\<lambda>f. rf_sequence f \<le> k) fs, n + length (takeWhile (\<lambda>f. rf_sequence f \<le> k) fs))"
  by (induction fs arbitrary: n) auto

lemma dropWhile_enumerate:
  "dropWhile (\<lambda>e. fst e \<le> k) (enumerate n xs) = drop (Suc k - n) (enumerate n xs)"
  by (induction xs arbitrary: n) (auto simp: Suc_diff_le not_le)

lemma filter_enumerate:
  "filter (\<lambda>e. k \<le> fst e) (enumerate n xs) = drop (k - n) (enumerate n xs)"
proof (induction xs arbitrary: n)
  case (Cons x xs)
  show ?case
  proof (cases "k \<le> n")
    case True
    then have "filter (\<lambda>e. k \<le> fst e) (enumerate (Suc n) xs) = enumerate (Suc n) xs" using Cons [of "Suc n"] by simp
    with True show ?thesis by simp
  next
    case False
    then show ?thesis using Cons [of "Suc n"] by (auto simp: not_le Suc_diff_Suc [symmetric])
  qed
qed simp

lemma drop_enumerate: "drop c (enumerate n xs) = enumerate (n + c) (drop c xs)"
  by (induction xs arbitrary: c n) (auto simp: drop_Cons split: nat.splits)

lemma window_inv:
  assumes "window capacity h c rt"
  shows "map frame_view (rt_entries rt) = drop c (enumerate 1 h) \<and> c \<le> length h \<and> rt_next_sequence rt = length h + 1 \<and>
    rt_capacity rt = capacity \<and> length h - c \<le> capacity \<and> (\<forall>f \<in> set (rt_entries rt). length (rf_bytes f) = MAX_FRAME)"
  using assms
proof induction
  case opened
  then show ?case by (simp add: retransmit_new_def)
next
  case (retained h c rt sequence bytes rt')
  let ?f = "\<lparr>rf_sequence = sequence, rf_bytes = bytes @ replicate (MAX_FRAME - length bytes) 0, rf_len = length bytes\<rparr>"
  have r: "length bytes \<le> MAX_FRAME" "sequence = length h + 1" "length (rt_entries rt) \<noteq> capacity"
    "rt' = rt\<lparr>rt_entries := rt_entries rt @ [?f], rt_next_sequence := length h + 2\<rparr>"
    using retained by (auto simp: retain_def checked_add_def split: if_splits)
  have "frame_view ?f = (length h + 1, bytes)" using r(2) by (simp add: frame_view_def retained_slice_def)
  then have "map frame_view (rt_entries rt') = drop c (enumerate 1 (h @ [bytes]))"
    using retained.IH r(4) by (simp add: enumerate_append_eq)
  moreover have "length (rt_entries rt) = length h - c" using arg_cong [OF conjunct1 [OF retained.IH], of length] by simp
  ultimately show ?case using retained.IH r by auto
next
  case (confirmed h c rt k rt' n)
  have "rt_entries rt' = dropWhile (\<lambda>f. rf_sequence f \<le> k) (rt_entries rt)" and same: "rt' = rt\<lparr>rt_entries := rt_entries rt'\<rparr>"
    using confirmed.hyps(2) by (auto simp: confirm_through_def confirm_loop_eq)
  moreover have "map frame_view (dropWhile (\<lambda>f. rf_sequence f \<le> k) (rt_entries rt)) = dropWhile (\<lambda>e. fst e \<le> k) (map frame_view (rt_entries rt))"
    by (simp add: dropWhile_map o_def frame_view_def)
  ultimately have "map frame_view (rt_entries rt') = drop (Suc k - (1 + c)) (drop c (enumerate 1 h))"
    using confirmed.IH by (simp add: dropWhile_enumerate drop_enumerate)
  also have "\<dots> = drop (max c (min k (length h))) (enumerate 1 h)" using confirmed.IH by (auto simp: max_def min_def)
  finally show ?case using confirmed.IH same \<open>rt_entries rt' = _\<close> by (auto dest: set_dropWhileD simp: max_def min_def)
qed

section \<open>Properties\<close>

text \<open>
  Refusals are inert. Whatever the state, an event or a tick that is refused leaves every field of
  the machine as it was.
\<close>
theorem session_refusal_inert:
  assumes "session_input m i = (m', Err e)"
  shows "m' = m"
  using assms by (rule refused_unchanged)

theorem session_refusal_inert_witness:
  "fst (session_input (session_new session_config_default) (EventAt (SessCommand 4) 7)) = session_new session_config_default"
proof -
  have "session_input (session_new session_config_default) (EventAt (SessCommand 4) 7) =
      (session_new session_config_default, Err (InvalidTransition Disconnected ''command''))"
    by (simp add: handle_def session_new_def)
  from session_refusal_inert [OF this] this show ?thesis by simp
qed

text \<open>
  The reachable machines. The next sequence number is a positive 64-bit number, a deadline is armed
  exactly in the states that wait for the peer, and the timeout counter is 1 in Recovering and 0
  while the session is alive, so it never wraps.
\<close>
theorem session_reachable_inv:
  assumes "session_reachable config m"
  shows "0 < sm_next_sequence m \<and> sm_next_sequence m < 2 ^ 64 \<and>
    (sm_deadline m = None \<longleftrightarrow> sm_state m \<notin> {Logon, Active, Recovering}) \<and>
    sm_heartbeat_timeouts m \<le> 1 \<and> (sm_state m = Active \<longrightarrow> sm_heartbeat_timeouts m = 0)"
  using session_inv_reachable [OF assms]
  by (cases "sm_state m") (auto simp: session_inv_def u64_ok_def)

theorem session_reachable_inv_witness:
  "\<exists>m. session_reachable session_config_default m \<and> sm_state m = Connecting \<and> sm_deadline m = None"
proof -
  let ?m = "session_new session_config_default"
  let ?m' = "?m\<lparr>sm_state := Connecting, sm_deadline := None\<rparr>"
  have "session_input ?m (EventAt Connect 5) = (?m', Ok (session_snapshot ?m'))"
    by (simp add: handle_def session_new_def session_enter_def Let_def)
  from session_next [OF session_start _ this] have r: "session_reachable session_config_default ?m'" by (simp add: u64_ok_def)
  from session_reachable_inv [OF r] r show ?thesis by auto
qed

text \<open>
  C34: commands arrive in sequence. In any run of events and ticks without a new logon, the accepted
  command sequence numbers are exactly the consecutive numbers from the expected one: no gap, no
  duplicate, no reordering, whatever timeouts, heartbeats and refused commands come between.
\<close>
theorem session_accepts_in_order:
  assumes "\<forall>i \<in> set inputs. \<not> is_logon i"
  shows "snd (session_run m inputs) = [sm_next_sequence m..<sm_next_sequence m + length (snd (session_run m inputs))]"
  using assms by (rule run_in_order)

theorem session_accepts_in_order_witness:
  "snd (session_run \<lparr>sm_state = Active, sm_config = session_config_default, sm_next_sequence = 3, sm_deadline = Some 50, sm_heartbeat_timeouts = 0\<rparr>
     [EventAt (SessCommand 3) 1, EventAt (SessCommand 9) 2, EventAt (SessCommand 3) 3, TickAt 60, EventAt (SessCommand 4) 70])
   = [3..<3 + length [3, 4::nat]]"
proof -
  let ?m = "\<lparr>sm_state = Active, sm_config = session_config_default, sm_next_sequence = 3, sm_deadline = Some 50, sm_heartbeat_timeouts = 0\<rparr>"
  let ?is = "[EventAt (SessCommand 3) 1, EventAt (SessCommand 9) 2, EventAt (SessCommand 3) 3, TickAt 60, EventAt (SessCommand 4) 70]"
  have "length (snd (session_run ?m ?is)) = length [3, 4::nat]"
    by (simp add: handle_def session_tick_def session_defs session_config_default_def)
  with session_accepts_in_order [of ?is ?m] show ?thesis by simp
qed

lemma early_ticks:
  assumes "sm_deadline m = Some d" and "\<forall>u \<in> set ts. u < d"
  shows "fst (session_run m (map TickAt ts @ inputs)) = fst (session_run m inputs)"
  using assms(2)
proof (induction ts)
  case (Cons u ts)
  then have "session_input m (TickAt u) = (m, Ok (session_snapshot m))" using assms(1) by (simp add: session_tick_def)
  with Cons show ?case by (auto split: prod.splits)
qed simp

text \<open>
  C35: a silent session fails and stays failed. Take an active session with a heartbeat timeout that is not zero,
  which the configuration documents as no deadline, and clock values that do not overflow 64 bits. With
  nothing received, ticks before the deadline change nothing; the first tick at or past the deadline makes the session
  recover; ticks within one heartbeat period of that leave it so; the first one at or past it fails the session;
  and no later event or tick revives it.
\<close>
theorem silent_session_fails:
  assumes "sm_state m = Active" and "sm_deadline m = Some d" and "0 < sc_heartbeat_timeout_ticks (sm_config m)"
    and "\<forall>u \<in> set early. u < d" and "d \<le> t" and "t + sc_heartbeat_timeout_ticks (sm_config m) < 2 ^ 64"
    and "\<forall>u \<in> set within. u < t + sc_heartbeat_timeout_ticks (sm_config m)" and "t + sc_heartbeat_timeout_ticks (sm_config m) \<le> t'"
  shows "sm_state (fst (session_run m (map TickAt early @ TickAt t # map TickAt within))) = Recovering \<and>
    sm_state (fst (session_run m (map TickAt early @ TickAt t # map TickAt within @ TickAt t' # inputs))) = Failed"
proof -
  let ?d = "t + sc_heartbeat_timeout_ticks (sm_config m)"
  let ?m1 = "m\<lparr>sm_heartbeat_timeouts := wrapping_add 32 (sm_heartbeat_timeouts m) 1, sm_state := Recovering, sm_deadline := Some ?d\<rparr>"
  obtain r1 where 1: "session_input m (TickAt t) = (?m1, r1)" using assms by (simp add: session_tick_def checked_add_def)
  obtain m2 r2 where 2: "session_input ?m1 (TickAt t') = (m2, r2)" "sm_state m2 = Failed" "sm_deadline m2 = None"
    using assms(8) by (simp add: session_tick_def session_defs)
  have run1: "fst (session_run m (map TickAt early @ TickAt t # inputs)) = fst (session_run ?m1 inputs)" for inputs
    using early_ticks [OF assms(2,4)] 1 by (auto split: prod.splits)
  have run2: "fst (session_run ?m1 (map TickAt within @ inputs)) = fst (session_run ?m1 inputs)" for inputs
    by (rule early_ticks) (use assms(7) in simp_all)
  have "fst (session_run ?m1 (TickAt t' # inputs)) = fst (session_run m2 inputs)" using 2(1) by (auto split: prod.splits)
  with failed_run [OF 2(2,3)] have "sm_state (fst (session_run ?m1 (TickAt t' # inputs))) = Failed" by simp
  moreover have "sm_state (fst (session_run m (map TickAt early @ TickAt t # map TickAt within))) = Recovering"
    using run1 [of "map TickAt within"] run2 [of "[]"] by simp
  ultimately show ?thesis using run1 run2 by simp
qed

theorem silent_session_fails_witness:
  "sm_state (fst (session_run \<lparr>sm_state = Active, sm_config = session_config_default, sm_next_sequence = 3, sm_deadline = Some 50,
     sm_heartbeat_timeouts = 0\<rparr> [TickAt 20, TickAt 60])) = Recovering \<and>
   sm_state (fst (session_run \<lparr>sm_state = Active, sm_config = session_config_default, sm_next_sequence = 3, sm_deadline = Some 50,
     sm_heartbeat_timeouts = 0\<rparr> [TickAt 20, TickAt 60, TickAt 110, EventAt Connect 120])) = Failed"
  using silent_session_fails [of "\<lparr>sm_state = Active, sm_config = session_config_default, sm_next_sequence = 3, sm_deadline = Some 50,
     sm_heartbeat_timeouts = 0\<rparr>" 50 "[20]" 60 "[]" 110 "[EventAt Connect 120]"]
  by (simp add: session_config_default_def)

text \<open>
  C36: the retransmission window is exact. After retaining the frames \<open>h\<close> and confirming the first \<open>c\<close>,
  asking for everything from a sequence number on returns, in order and byte for byte, exactly the
  retained frames from there that are not confirmed, each under its own sequence number; the window
  never exceeds its capacity, and the next frame must carry the number after the last.
\<close>
theorem retransmit_window_exact:
  assumes "window capacity h c rt"
  shows "map (\<lambda>f. (rf_sequence f, retained_slice f)) (since rt start) = enumerate (1 + max c (start - 1)) (drop (max c (start - 1)) h) \<and>
    length (rt_entries rt) = length h - c \<and> length h - c \<le> capacity \<and> rt_next_sequence rt = length h + 1"
proof -
  note inv = window_inv [OF assms]
  have pos: "1 + c + (start - (1 + c)) = 1 + max c (start - 1)" "start - (1 + c) + c = max c (start - 1)" by (auto simp: max_def)
  have "map frame_view (since rt start) = filter (\<lambda>e. start \<le> fst e) (map frame_view (rt_entries rt))"
    by (simp add: since_def filter_map o_def frame_view_def)
  also have "\<dots> = filter (\<lambda>e. start \<le> fst e) (enumerate (1 + c) (drop c h))" using inv by (simp add: drop_enumerate)
  also have "\<dots> = drop (start - (1 + c)) (enumerate (1 + c) (drop c h))" by (rule filter_enumerate)
  also have "\<dots> = enumerate (1 + c + (start - (1 + c))) (drop (start - (1 + c)) (drop c h))" by (rule drop_enumerate)
  also have "\<dots> = enumerate (1 + max c (start - 1)) (drop (max c (start - 1)) h)"
    by (simp only: drop_drop pos)
  finally have "map frame_view (since rt start) = enumerate (1 + max c (start - 1)) (drop (max c (start - 1)) h)" .
  moreover have "length (rt_entries rt) = length h - c" using arg_cong [OF conjunct1 [OF inv], of length] by simp
  ultimately show ?thesis using inv by (simp add: frame_view_def [abs_def])
qed

theorem retransmit_window_exact_witness:
  "\<exists>rt. window 4 [[1, 2], [3]] 1 rt \<and> map (\<lambda>f. (rf_sequence f, retained_slice f)) (since rt 2) = [(2, [3])]"
proof -
  have r1: "\<exists>rt. retain (retransmit_new 4) 1 [1, 2] = Ok rt \<and> rt_next_sequence rt = 2 \<and> rt_capacity rt = 4 \<and> length (rt_entries rt) = 1"
    by (simp add: retain_def retransmit_new_def MAX_FRAME_def checked_add_def)
  then obtain rt1 where rt1: "retain (retransmit_new 4) 1 [1, 2] = Ok rt1" "rt_next_sequence rt1 = 2" "rt_capacity rt1 = 4"
    "length (rt_entries rt1) = 1" by blast
  then obtain rt2 where rt2: "retain rt1 2 [3] = Ok rt2" by (simp add: retain_def MAX_FRAME_def checked_add_def)
  obtain rt n where rt: "confirm_through rt2 1 = (rt, n)" by (cases "confirm_through rt2 1") auto
  have w: "window 4 [[1, 2], [3]] 1 rt"
    using confirmed [OF retained [OF retained [OF opened rt1(1)] rt2] rt] by simp
  from retransmit_window_exact [OF w, of 2] w show ?thesis by auto
qed

end
