(* ===== verification/Events.thy ===== *)
theory Events
  imports GatewayProps RingThreads
begin

text \<open>
  The bounded event engine of \<open>crates/hft-events/src/lib.rs\<close>: a gateway whose every processed command
  is published as one batch of events on a ring. The engine owns the producer end of the ring; the
  model carries the ring with both ends, the consumer's pops being steps of the environment. The
  const generics \<open>REPORTS\<close> and \<open>BATCH\<close> are fields; \<open>None\<close> is a panic (also a 16-bit ordinal that
  overflows) or a broken contract of an unsafe slot access.
\<close>

section \<open>Events\<close>

record EventId =
  ei_command_sequence :: SequenceNumber
  ei_ordinal :: nat

datatype CommandKind = KindNewOrder | KindCancel | KindReplace

record AcceptedEvent =
  ae_id :: EventId
  ae_order_id :: OrderId
  ae_account_id :: AccountId
  ae_instrument_id :: InstrumentId
  ae_state :: OrderState
  ae_filled_quantity :: Quantity
  ae_resting_quantity :: Quantity
  ae_discarded_quantity :: Quantity

record RejectedEvent =
  je_id :: EventId
  je_command :: CommandKind
  je_order_id :: OrderId
  je_account_id :: AccountId
  je_instrument_id :: InstrumentId
  je_reason :: RejectReason

record TradeEvent =
  te_id :: EventId
  te_maker_order_id :: OrderId
  te_taker_order_id :: OrderId
  te_instrument_id :: InstrumentId
  te_price :: PriceTicks
  te_quantity :: Quantity

record CancelledEvent =
  ce_id :: EventId
  ce_order_id :: OrderId
  ce_account_id :: AccountId
  ce_instrument_id :: InstrumentId
  ce_quantity :: Quantity

record ReplacedEvent =
  pe_id :: EventId
  pe_order_id :: OrderId
  pe_account_id :: AccountId
  pe_instrument_id :: InstrumentId
  pe_old_quantity :: Quantity
  pe_new_quantity :: Quantity
  pe_price :: PriceTicks
  pe_priority_lost :: bool

record TopOfBook =
  tb_id :: EventId
  tb_instrument_id :: InstrumentId
  tb_bid :: "TopLevel option"
  tb_ask :: "TopLevel option"

datatype Event =
    EvAccepted AcceptedEvent
  | EvRejected RejectedEvent
  | EvTrade TradeEvent
  | EvCancelled CancelledEvent
  | EvReplaced ReplacedEvent
  | EvTopOfBook TopOfBook

section \<open>Batches\<close>

record EventBatch =
  eb_events :: "Event option list"
  eb_len :: nat

datatype BatchFull = BatchFull

definition batch_new :: "nat \<Rightarrow> EventBatch" where
  "batch_new N = \<lparr>eb_events = replicate N None, eb_len = 0\<rparr>"

definition batch_try_push :: "EventBatch \<Rightarrow> Event \<Rightarrow> (EventBatch, BatchFull) result" where
  "batch_try_push b event =
     (if eb_len b < length (eb_events b)
      then Ok (b\<lparr>eb_events := (eb_events b)[eb_len b := Some event], eb_len := eb_len b + 1\<rparr>)
      else Err BatchFull)"

definition batch_is_empty :: "EventBatch \<Rightarrow> bool" where
  "batch_is_empty b \<longleftrightarrow> eb_len b = 0"

definition batch_iter :: "EventBatch \<Rightarrow> Event list" where
  "batch_iter b = List.map_filter (\<lambda>e. e) (take (eb_len b) (eb_events b))"

section \<open>The engine\<close>

datatype EventEngineConfigError = BatchTooSmall | TooManyEvents

datatype EventEngineError =
    Backpressured
  | EvGateway GatewayError
  | EventCapacityInvariant
  | PublicationInvariant

record BoundedEventEngine =
  ee_gateway :: Gateway
  ee_ring :: "EventBatch Ring"
  ee_REPORTS :: nat
  ee_BATCH :: nat

definition event_engine_try_new ::
  "nat \<Rightarrow> nat \<Rightarrow> Gateway \<Rightarrow> EventBatch Ring \<Rightarrow> (BoundedEventEngine, EventEngineConfigError) result" where
  "event_engine_try_new REPORTS BATCH gateway ring =
     (if REPORTS > U16_MAX - 1 then Err TooManyEvents
      else if BATCH < min (REPORTS + 2) U64_MAX then Err BatchTooSmall
      else Ok \<lparr>ee_gateway = gateway, ee_ring = ring, ee_REPORTS = REPORTS, ee_BATCH = BATCH\<rparr>)"

record CommandIdentity =
  id_kind :: CommandKind
  id_order_id :: OrderId
  id_account_id :: AccountId
  id_instrument_id :: InstrumentId

fun identity_from_command :: "Command \<Rightarrow> CommandIdentity" where
  "identity_from_command (CmdNewOrder order) = \<lparr>id_kind = KindNewOrder, id_order_id = no_order_id order,
     id_account_id = no_account_id order, id_instrument_id = no_instrument_id order\<rparr>"
| "identity_from_command (CmdCancelOrder c) = \<lparr>id_kind = KindCancel, id_order_id = co_order_id c,
     id_account_id = co_account_id c, id_instrument_id = co_instrument_id c\<rparr>"
| "identity_from_command (CmdReplaceOrder r) = \<lparr>id_kind = KindReplace, id_order_id = ro_order_id r,
     id_account_id = ro_account_id r, id_instrument_id = ro_instrument_id r\<rparr>"

fun identity_from_message :: "BorrowedMessage \<Rightarrow> CommandIdentity" where
  "identity_from_message (BorrowedNewOrder b) = (let order = new_order_to_owned b in
     \<lparr>id_kind = KindNewOrder, id_order_id = no_order_id order, id_account_id = no_account_id order,
      id_instrument_id = no_instrument_id order\<rparr>)"
| "identity_from_message (BorrowedCancelOrder b) = (let c = cancel_order_to_owned b in
     \<lparr>id_kind = KindCancel, id_order_id = co_order_id c, id_account_id = co_account_id c,
      id_instrument_id = co_instrument_id c\<rparr>)"
| "identity_from_message (BorrowedReplaceOrder b) = (let r = replace_order_to_owned b in
     \<lparr>id_kind = KindReplace, id_order_id = ro_order_id r, id_account_id = ro_account_id r,
      id_instrument_id = ro_instrument_id r\<rparr>)"

fun terminal_event :: "GatewayOutcome \<Rightarrow> CommandIdentity \<Rightarrow> SequenceNumber \<Rightarrow> nat \<Rightarrow> Event" where
  "terminal_event (GwNewOrder summary) command sequence ordinal = EvAccepted
     \<lparr>ae_id = \<lparr>ei_command_sequence = sequence, ei_ordinal = ordinal\<rparr>, ae_order_id = id_order_id command,
      ae_account_id = id_account_id command, ae_instrument_id = id_instrument_id command, ae_state = ms_state summary,
      ae_filled_quantity = ms_filled_quantity summary, ae_resting_quantity = ms_resting_quantity summary,
      ae_discarded_quantity = ms_discarded_quantity summary\<rparr>"
| "terminal_event (GwCancelled out) command sequence ordinal = EvCancelled
     \<lparr>ce_id = \<lparr>ei_command_sequence = sequence, ei_ordinal = ordinal\<rparr>, ce_order_id = cn_order_id out,
      ce_account_id = cn_account_id out, ce_instrument_id = id_instrument_id command, ce_quantity = cn_quantity out\<rparr>"
| "terminal_event (GwReplaced out) command sequence ordinal = EvReplaced
     \<lparr>pe_id = \<lparr>ei_command_sequence = sequence, ei_ordinal = ordinal\<rparr>, pe_order_id = rp_order_id out,
      pe_account_id = rp_account_id out, pe_instrument_id = id_instrument_id command,
      pe_old_quantity = rp_old_quantity out, pe_new_quantity = rp_new_quantity out, pe_price = rp_price out,
      pe_priority_lost = rp_priority_lost out\<rparr>"

definition push_preflighted :: "EventBatch \<Rightarrow> Event \<Rightarrow> (EventBatch, EventEngineError) result" where
  "push_preflighted b event =
     (case batch_try_push b event of Ok b' \<Rightarrow> Ok b' | Err _ \<Rightarrow> Err EventCapacityInvariant)"

text \<open>The ordinal is a \<open>u16\<close>: incrementing past its maximum panics.\<close>

definition next_ordinal :: "nat \<Rightarrow> nat option" where
  "next_ordinal ordinal = checked_add 16 ordinal 1"

definition trade_event :: "SequenceNumber \<Rightarrow> nat \<Rightarrow> ExecutionReport \<Rightarrow> Event" where
  "trade_event sequence ordinal report = EvTrade
     \<lparr>te_id = \<lparr>ei_command_sequence = sequence, ei_ordinal = ordinal\<rparr>, te_maker_order_id = er_maker_order_id report,
      te_taker_order_id = er_taker_order_id report, te_instrument_id = er_instrument_id report,
      te_price = er_price report, te_quantity = er_quantity report\<rparr>"

text \<open>The loop over the reports; the batch and the ordinal are its variables.\<close>

fun push_trades ::
  "SequenceNumber \<Rightarrow> ExecutionReport list \<Rightarrow> EventBatch \<Rightarrow> nat \<Rightarrow> (EventBatch \<times> nat, EventEngineError) result option" where
  "push_trades sequence [] b ordinal = Some (Ok (b, ordinal))"
| "push_trades sequence (report # reports) b ordinal =
     (case push_preflighted b (trade_event sequence ordinal report) of
        Err e \<Rightarrow> Some (Err e)
      | Ok b \<Rightarrow> do { ordinal \<leftarrow> next_ordinal ordinal; push_trades sequence reports b ordinal })"

definition top_of_book_event ::
  "CommandIdentity \<Rightarrow> SequenceNumber \<Rightarrow> nat \<Rightarrow> TopLevel option \<times> TopLevel option \<Rightarrow> Event" where
  "top_of_book_event command sequence ordinal tops = EvTopOfBook
     \<lparr>tb_id = \<lparr>ei_command_sequence = sequence, ei_ordinal = ordinal\<rparr>, tb_instrument_id = id_instrument_id command,
      tb_bid = fst tops, tb_ask = snd tops\<rparr>"

definition rejected_event :: "CommandIdentity \<Rightarrow> SequenceNumber \<Rightarrow> RejectReason \<Rightarrow> Event" where
  "rejected_event command sequence reason = EvRejected
     \<lparr>je_id = \<lparr>ei_command_sequence = sequence, ei_ordinal = 0\<rparr>, je_command = id_kind command,
      je_order_id = id_order_id command, je_account_id = id_account_id command,
      je_instrument_id = id_instrument_id command, je_reason = reason\<rparr>"

text \<open>The part of \<open>publish_result\<close> that fills the batch.\<close>

definition fill_batch ::
  "nat \<Rightarrow> CommandIdentity \<Rightarrow> SequenceNumber \<Rightarrow> TopLevel option \<times> TopLevel option \<Rightarrow> TopLevel option \<times> TopLevel option \<Rightarrow>
   ReportBuffer \<Rightarrow> (GatewayOutcome, GatewayError) result \<Rightarrow> (EventBatch, EventEngineError) result option" where
  "fill_batch BATCH command sequence before_tops after_tops reports result =
     (case result of
        Ok outcome \<Rightarrow>
          (case push_preflighted (batch_new BATCH) (terminal_event outcome command sequence 0) of
             Err e \<Rightarrow> Some (Err e)
           | Ok batch \<Rightarrow>
               do {
                 ordinal \<leftarrow> next_ordinal 0;
                 r \<leftarrow> push_trades sequence (reports_iter reports) batch ordinal;
                 Some (and_then r (\<lambda>(batch, ordinal).
                   if before_tops \<noteq> after_tops
                   then push_preflighted batch (top_of_book_event command sequence ordinal after_tops)
                   else Ok batch))
               })
      | Err (GwRisk reason) \<Rightarrow> Some (push_preflighted (batch_new BATCH) (rejected_event command sequence reason))
      | Err (GwBook reason) \<Rightarrow> Some (push_preflighted (batch_new BATCH) (rejected_event command sequence reason))
      | Err e \<Rightarrow> Some (Err (EvGateway e)))"

type_synonym engine_step = "(BoundedEventEngine \<times> (unit, EventEngineError) result) option"

definition publish_result ::
  "BoundedEventEngine \<Rightarrow> CommandIdentity \<Rightarrow> SequenceNumber \<Rightarrow> TopLevel option \<times> TopLevel option \<Rightarrow>
   TopLevel option \<times> TopLevel option \<Rightarrow> ReportBuffer \<Rightarrow> (GatewayOutcome, GatewayError) result \<Rightarrow> engine_step" where
  "publish_result e command sequence before_tops after_tops reports result =
     do {
       b \<leftarrow> fill_batch (ee_BATCH e) command sequence before_tops after_tops reports result;
       (case b of
          Err err \<Rightarrow> Some (e, Err err)
        | Ok batch \<Rightarrow>
            do {
              (ring, pushed) \<leftarrow> ring_push (ee_ring e) batch;
              Some (e\<lparr>ee_ring := ring\<rparr>, case pushed of Ok _ \<Rightarrow> Ok () | Err _ \<Rightarrow> Err PublicationInvariant)
            })
     }"

definition preflight :: "BoundedEventEngine \<Rightarrow> SequenceNumber \<Rightarrow> BoundedEventEngine \<times> (unit, EventEngineError) result" where
  "preflight e sequence =
     (case check_sequence (ee_gateway e) sequence of
        Err err \<Rightarrow> (e, Err (EvGateway err))
      | Ok _ \<Rightarrow>
          (case ring_has_capacity (ee_ring e) of
             (ring, True) \<Rightarrow> (e\<lparr>ee_ring := ring\<rparr>, Ok ())
           | (ring, False) \<Rightarrow> (e\<lparr>ee_ring := ring\<rparr>, Err Backpressured)))"

definition tops :: "Gateway \<Rightarrow> TopLevel option \<times> TopLevel option" where
  "tops g = (gateway_top_level g Buy, gateway_top_level g Sell)"

definition apply_admitted_command :: "BoundedEventEngine \<Rightarrow> Command \<Rightarrow> engine_step" where
  "apply_admitted_command e command =
     (let sequence = command_sequence command; identity = identity_from_command command; before_tops = tops (ee_gateway e) in
      do {
        (g, reports, result) \<leftarrow> process_command (ee_gateway e) command (reports_new (ee_REPORTS e));
        publish_result (e\<lparr>ee_gateway := g\<rparr>) identity sequence before_tops (tops g) reports result
      })"

definition admit :: "BoundedEventEngine \<Rightarrow> Command \<Rightarrow> BoundedEventEngine \<times> (Command, EventEngineError) result" where
  "admit e command =
     (case preflight e (command_sequence command) of
        (e, Err err) \<Rightarrow> (e, Err err)
      | (e, Ok _) \<Rightarrow> (e, Ok command))"

definition event_process_command :: "BoundedEventEngine \<Rightarrow> Command \<Rightarrow> engine_step" where
  "event_process_command e command =
     (case admit e command of
        (e, Err err) \<Rightarrow> Some (e, Err err)
      | (e, Ok admitted) \<Rightarrow> apply_admitted_command e admitted)"

definition event_process_frame :: "BoundedEventEngine \<Rightarrow> byte list \<Rightarrow> engine_step" where
  "event_process_frame e frame =
     (case parse_message frame of
        Err err \<Rightarrow> Some (e, Err (EvGateway (GwParse err)))
      | Ok message \<Rightarrow>
          let sequence = message_sequence message in
          (case preflight e sequence of
             (e, Err err) \<Rightarrow> Some (e, Err err)
           | (e, Ok _) \<Rightarrow>
               let command = identity_from_message message; before_tops = tops (ee_gateway e) in
               do {
                 (g, reports, result) \<leftarrow> process_frame (ee_gateway e) frame (reports_new (ee_REPORTS e));
                 publish_result (e\<lparr>ee_gateway := g\<rparr>) command sequence before_tops (tops g) reports result
               }))"

end
