(* ===== verification/EventsProps.thy ===== *)
theory EventsProps
  imports Events
begin

text \<open>
  Properties of the event engine: a processed command publishes exactly one batch with exactly the
  specified events, backpressure and sequence errors publish nothing and leave the gateway alone, the
  two invariant errors never happen, and the published stream carries consecutive sequence numbers.
\<close>

section \<open>Batches\<close>

definition batch_holds :: "EventBatch \<Rightarrow> Event list \<Rightarrow> bool" where
  "batch_holds b es \<longleftrightarrow> eb_len b = length es \<and> length es \<le> length (eb_events b) \<and>
     take (eb_len b) (eb_events b) = map Some es"

lemma batch_holds_new [simp]: "batch_holds (batch_new N) []"
  by (simp add: batch_holds_def batch_new_def)

lemma batch_holds_iter:
  assumes "batch_holds b es"
  shows "batch_iter b = es"
proof -
  have "take (eb_len b) (eb_events b) = map Some es" using assms unfolding batch_holds_def by blast
  then show ?thesis unfolding batch_iter_def by (simp add: map_filter_def filter_map o_def)
qed

lemma batch_push_holds:
  assumes "batch_holds b es" and "length es < length (eb_events b)"
  shows "\<exists>b'. push_preflighted b e = Ok b' \<and> batch_holds b' (es @ [e]) \<and> length (eb_events b') = length (eb_events b)"
  using assms by (auto simp: batch_holds_def push_preflighted_def batch_try_push_def take_Suc_conv_app_nth)

definition trades_of :: "SequenceNumber \<Rightarrow> nat \<Rightarrow> ExecutionReport list \<Rightarrow> Event list" where
  "trades_of sequence ordinal reports = map (\<lambda>(n, r). trade_event sequence n r) (enumerate ordinal reports)"

lemma push_trades_holds:
  assumes "batch_holds b es" and "length es + length reports \<le> length (eb_events b)" and "ordinal + length reports < 2 ^ 16"
  shows "\<exists>b'. push_trades sequence reports b ordinal = Some (Ok (b', ordinal + length reports)) \<and>
    batch_holds b' (es @ trades_of sequence ordinal reports) \<and> length (eb_events b') = length (eb_events b)"
  using assms
proof (induction reports arbitrary: b es ordinal)
  case Nil
  then show ?case by (simp add: trades_of_def)
next
  case (Cons r reports)
  have "length es < length (eb_events b)" using Cons.prems(2) by simp
  from batch_push_holds [OF Cons.prems(1) this, of "trade_event sequence ordinal r"] obtain b1 where
    b1: "push_preflighted b (trade_event sequence ordinal r) = Ok b1" "batch_holds b1 (es @ [trade_event sequence ordinal r])"
      "length (eb_events b1) = length (eb_events b)" by blast
  have n: "next_ordinal ordinal = Some (ordinal + 1)" using Cons.prems(3) by (simp add: next_ordinal_def checked_add_def)
  from Cons.IH [OF b1(2), of "ordinal + 1"] Cons.prems b1 n show ?case by (auto simp: trades_of_def)
qed

text \<open>The events a result stands for.\<close>

definition events_of ::
  "CommandIdentity \<Rightarrow> SequenceNumber \<Rightarrow> TopLevel option \<times> TopLevel option \<Rightarrow> TopLevel option \<times> TopLevel option \<Rightarrow>
   ExecutionReport list \<Rightarrow> (GatewayOutcome, GatewayError) result \<Rightarrow> Event list" where
  "events_of command sequence before_tops after_tops reports result =
     (case result of
        Ok outcome \<Rightarrow> terminal_event outcome command sequence 0 # trades_of sequence 1 reports @
          (if before_tops \<noteq> after_tops then [top_of_book_event command sequence (1 + length reports) after_tops] else [])
      | Err (GwRisk reason) \<Rightarrow> [rejected_event command sequence reason]
      | Err (GwBook reason) \<Rightarrow> [rejected_event command sequence reason]
      | Err _ \<Rightarrow> [])"

lemma fill_batch_Ok:
  assumes "length (reports_iter rb) + 2 \<le> BATCH" and "length (reports_iter rb) + 1 < 2 ^ 16"
  shows "\<exists>b. fill_batch BATCH command sequence before_tops after_tops rb (Ok outcome) = Some (Ok b) \<and>
    batch_iter b = events_of command sequence before_tops after_tops (reports_iter rb) (Ok outcome)"
proof -
  let ?t = "terminal_event outcome command sequence 0" and ?rs = "reports_iter rb"
  have N: "length (eb_events (batch_new BATCH)) = BATCH" by (simp add: batch_new_def)
  from batch_push_holds [OF batch_holds_new, of BATCH ?t] assms(1) N obtain b1 where
    b1: "push_preflighted (batch_new BATCH) ?t = Ok b1" "batch_holds b1 [?t]" "length (eb_events b1) = BATCH" by auto
  from push_trades_holds [OF b1(2), of ?rs 1 sequence] assms b1(3) obtain b2 where
    b2: "push_trades sequence ?rs b1 1 = Some (Ok (b2, 1 + length ?rs))" "batch_holds b2 (?t # trades_of sequence 1 ?rs)"
      "length (eb_events b2) = BATCH" by auto
  have o1: "next_ordinal 0 = Some 1" by (simp add: next_ordinal_def checked_add_def)
  have "length (?t # trades_of sequence 1 ?rs) < BATCH" using assms(1) by (simp add: trades_of_def)
  with batch_push_holds [OF b2(2), of "top_of_book_event command sequence (1 + length ?rs) after_tops"] b2(3) obtain b3 where
    b3: "push_preflighted b2 (top_of_book_event command sequence (1 + length ?rs) after_tops) = Ok b3"
      "batch_holds b3 (?t # trades_of sequence 1 ?rs @ [top_of_book_event command sequence (1 + length ?rs) after_tops])" by auto
  show ?thesis using b1(1) b2(1) b3(1) o1 batch_holds_iter [OF b2(2)] batch_holds_iter [OF b3(2)]
    by (auto simp: fill_batch_def events_of_def)
qed

lemma fill_batch_rejected:
  assumes "0 < BATCH" and "r = GwRisk reason \<or> r = GwBook reason"
  shows "\<exists>b. fill_batch BATCH command sequence before_tops after_tops rb (Err r) = Some (Ok b) \<and>
    batch_iter b = events_of command sequence before_tops after_tops (reports_iter rb) (Err r)"
proof -
  have N: "length (eb_events (batch_new BATCH)) = BATCH" by (simp add: batch_new_def)
  from batch_push_holds [OF batch_holds_new, of BATCH "rejected_event command sequence reason"] assms(1) N obtain b where
    b: "push_preflighted (batch_new BATCH) (rejected_event command sequence reason) = Ok b"
      "batch_holds b [rejected_event command sequence reason]" by auto
  with assms(2) batch_holds_iter [OF b(2)] show ?thesis by (auto simp: fill_batch_def events_of_def)
qed

section \<open>The engine\<close>

definition engine_inv :: "BoundedEventEngine \<Rightarrow> EventBatch list \<Rightarrow> bool" where
  "engine_inv e bs \<longleftrightarrow> gw_inv (ee_gateway e) \<and> ring_holds (ee_ring e) bs \<and> ee_REPORTS e \<le> 65534 \<and> ee_REPORTS e + 2 \<le> ee_BATCH e"

definition same_engine :: "BoundedEventEngine \<Rightarrow> BoundedEventEngine \<Rightarrow> bool" where
  "same_engine e e' \<longleftrightarrow> ee_gateway e' = ee_gateway e \<and> ee_REPORTS e' = ee_REPORTS e \<and> ee_BATCH e' = ee_BATCH e \<and>
     ring_room (ee_ring e') = ring_room (ee_ring e)"

lemma check_sequence_cases:
  assumes "u64_ok (gw_expected_sequence g)"
  shows "check_sequence g received =
    (if received \<noteq> gw_expected_sequence g then Err (GwSequence (gw_expected_sequence g) received)
     else if gw_expected_sequence g = 2 ^ 64 - 1 then Err (GwRiskState ArithmeticOverflow) else Ok ())"
  using assms by (auto simp: check_sequence_def checked_add_def u64_ok_def)

lemma preflight_cases:
  assumes inv: "engine_inv e bs"
  shows "case check_sequence (ee_gateway e) sequence of
      Err err \<Rightarrow> preflight e sequence = (e, Err (EvGateway err))
    | Ok _ \<Rightarrow> \<exists>e'. same_engine e e' \<and> engine_inv e' bs \<and>
        preflight e sequence = (e', if length bs < ring_room (ee_ring e) then Ok () else Err Backpressured)"
proof -
  have h: "ring_holds (ee_ring e) bs" using inv by (simp add: engine_inv_def)
  from ring.probe_room [OF h] obtain r where
    r: "ring_has_capacity (ee_ring e) = (r, length bs < ring_room (ee_ring e))" "ring_holds r bs" "ring_room r = ring_room (ee_ring e)" by blast
  have "same_engine e (e\<lparr>ee_ring := r\<rparr>)" "engine_inv (e\<lparr>ee_ring := r\<rparr>) bs" using inv r(2,3) by (auto simp: same_engine_def engine_inv_def)
  then show ?thesis using r(1) by (auto simp: preflight_def split: result.splits)
qed

lemma publish_effect:
  assumes h: "ring_holds (ee_ring e) bs" and room: "length bs < ring_room (ee_ring e)"
    and fill: "fill_batch (ee_BATCH e) command sequence before_tops after_tops rb result = Some (Ok b)"
  shows "\<exists>ring. publish_result e command sequence before_tops after_tops rb result = Some (e\<lparr>ee_ring := ring\<rparr>, Ok ()) \<and>
    ring_holds ring (bs @ [b]) \<and> ring_room ring = ring_room (ee_ring e)"
proof -
  from ring.push_room [OF h, of b] room obtain ring where
    "ring_push (ee_ring e) b = Some (ring, Ok ())" "ring_holds ring (bs @ [b])" "ring_room ring = ring_room (ee_ring e)" by auto
  with fill show ?thesis by (auto simp: publish_result_def)
qed

text \<open>An admitted command: the gateway processes it and its events are published as one batch.\<close>

lemma apply_admitted_effect:
  assumes inv: "engine_inv e bs" and c: "command_ok command" and room: "length bs < ring_room (ee_ring e)"
    and seq: "check_sequence (ee_gateway e) (command_sequence command) = Ok ()"
  shows "\<exists>g rb r b ring. process_command (ee_gateway e) command (reports_new (ee_REPORTS e)) = Some (g, rb, r) \<and>
    apply_admitted_command e command = Some (e\<lparr>ee_gateway := g, ee_ring := ring\<rparr>, Ok ()) \<and>
    engine_inv (e\<lparr>ee_gateway := g, ee_ring := ring\<rparr>) (bs @ [b]) \<and> ring_room ring = ring_room (ee_ring e) \<and>
    gw_expected_sequence g = gw_expected_sequence (ee_gateway e) + 1 \<and>
    batch_iter b = events_of (identity_from_command command) (command_sequence command) (tops (ee_gateway e)) (tops g) (reports_iter rb) r"
proof -
  let ?g = "ee_gateway e" and ?rb = "reports_new (ee_REPORTS e)"
  have g: "gw_inv ?g" and u: "u64_ok (gw_expected_sequence ?g)" using inv by (auto simp: engine_inv_def gw_inv_def)
  from process_command_effect [OF g c, of ?rb] obtain g' rb r where
    p: "process_command ?g command ?rb = Some (g', rb, r)" "gw_inv g'" "reports_ok rb" "length (rb_entries rb) = length (rb_entries ?rb)"
      "advanced ?g (command_sequence command) g' ?rb rb r" by blast
  have s: "command_sequence command = gw_expected_sequence ?g" "gw_expected_sequence ?g \<noteq> 2 ^ 64 - 1"
    using seq by (auto simp: check_sequence_cases [OF u] split: if_splits)
  then have adv: "gw_expected_sequence g' = gw_expected_sequence ?g + 1" "\<And>err. r = Err err \<Longrightarrow> business_reject err"
    using p(5) by (auto simp: advanced_def)
  have n: "length (reports_iter rb) \<le> ee_REPORTS e"
    using p(3,4) length_reports_iter [OF p(3)] by (simp add: reports_ok_def reports_new_def)
  let ?id = "identity_from_command command" and ?sq = "command_sequence command"
  have "\<exists>b. fill_batch (ee_BATCH e) ?id ?sq (tops ?g) (tops g') rb r = Some (Ok b) \<and>
      batch_iter b = events_of ?id ?sq (tops ?g) (tops g') (reports_iter rb) r"
  proof (cases r)
    case (Ok outcome)
    with fill_batch_Ok [of rb "ee_BATCH e" ?id ?sq "tops ?g" "tops g'" outcome] n inv show ?thesis by (auto simp: engine_inv_def)
  next
    case (Err err)
    with adv(2) obtain reason where "err = GwRisk reason \<or> err = GwBook reason" by (auto simp: business_reject_def)
    with Err fill_batch_rejected [of "ee_BATCH e" err reason ?id ?sq "tops ?g" "tops g'" rb] inv show ?thesis by (auto simp: engine_inv_def)
  qed
  then obtain b where b: "fill_batch (ee_BATCH e) ?id ?sq (tops ?g) (tops g') rb r = Some (Ok b)"
    "batch_iter b = events_of ?id ?sq (tops ?g) (tops g') (reports_iter rb) r" by blast
  have "ring_holds (ee_ring (e\<lparr>ee_gateway := g'\<rparr>)) bs" using inv by (simp add: engine_inv_def)
  from publish_effect [OF this, of ?id ?sq "tops ?g" "tops g'" rb r b] room b(1) obtain ring where
    ring: "publish_result (e\<lparr>ee_gateway := g'\<rparr>) ?id ?sq (tops ?g) (tops g') rb r = Some (e\<lparr>ee_gateway := g', ee_ring := ring\<rparr>, Ok ())"
      "ring_holds ring (bs @ [b])" "ring_room ring = ring_room (ee_ring e)" by auto
  have "apply_admitted_command e command = Some (e\<lparr>ee_gateway := g', ee_ring := ring\<rparr>, Ok ())"
    using p(1) ring(1) by (simp add: apply_admitted_command_def Let_def)
  moreover have "engine_inv (e\<lparr>ee_gateway := g', ee_ring := ring\<rparr>) (bs @ [b])" using inv p(2) ring(2) by (simp add: engine_inv_def)
  ultimately show ?thesis using p(1) ring(3) adv(1) b(2) by blast
qed

definition unpublished :: "BoundedEventEngine \<Rightarrow> EventBatch list \<Rightarrow> BoundedEventEngine \<Rightarrow> bool" where
  "unpublished e bs e' \<longleftrightarrow> same_engine e e' \<and> engine_inv e' bs"

definition published :: "BoundedEventEngine \<Rightarrow> EventBatch list \<Rightarrow> Command \<Rightarrow> BoundedEventEngine \<Rightarrow> bool" where
  "published e bs command e' \<longleftrightarrow>
     (\<exists>rb r b. process_command (ee_gateway e) command (reports_new (ee_REPORTS e)) = Some (ee_gateway e', rb, r) \<and>
        engine_inv e' (bs @ [b]) \<and> ring_room (ee_ring e') = ring_room (ee_ring e) \<and>
        ee_REPORTS e' = ee_REPORTS e \<and> ee_BATCH e' = ee_BATCH e \<and>
        gw_expected_sequence (ee_gateway e') = gw_expected_sequence (ee_gateway e) + 1 \<and>
        batch_iter b = events_of (identity_from_command command) (command_sequence command) (tops (ee_gateway e))
          (tops (ee_gateway e')) (reports_iter rb) r)"

lemma event_command_effect:
  assumes inv: "engine_inv e bs" and c: "command_ok command"
  shows "case check_sequence (ee_gateway e) (command_sequence command) of
      Err err \<Rightarrow> event_process_command e command = Some (e, Err (EvGateway err))
    | Ok _ \<Rightarrow> \<exists>e'. if length bs < ring_room (ee_ring e)
        then event_process_command e command = Some (e', Ok ()) \<and> published e bs command e'
        else event_process_command e command = Some (e', Err Backpressured) \<and> unpublished e bs e'"
proof (cases "check_sequence (ee_gateway e) (command_sequence command)")
  case (Err err)
  with preflight_cases [OF inv, of "command_sequence command"] show ?thesis by (simp add: event_process_command_def admit_def)
next
  case (Ok u)
  with preflight_cases [OF inv, of "command_sequence command"] obtain e1 where
    e1: "same_engine e e1" "engine_inv e1 bs"
      "preflight e (command_sequence command) = (e1, if length bs < ring_room (ee_ring e) then Ok () else Err Backpressured)" by auto
  show ?thesis
  proof (cases "length bs < ring_room (ee_ring e)")
    case False
    with Ok e1 show ?thesis by (auto simp: event_process_command_def admit_def unpublished_def)
  next
    case True
    have g: "ee_gateway e1 = ee_gateway e" "ee_REPORTS e1 = ee_REPORTS e" "ee_BATCH e1 = ee_BATCH e"
      "ring_room (ee_ring e1) = ring_room (ee_ring e)" using e1(1) by (auto simp: same_engine_def)
    have seq: "check_sequence (ee_gateway e1) (command_sequence command) = Ok ()" using Ok g(1) by (cases u) simp
    from apply_admitted_effect [OF e1(2) c _ seq] True g obtain g' rb r b ring where
      a: "process_command (ee_gateway e) command (reports_new (ee_REPORTS e)) = Some (g', rb, r)"
        "apply_admitted_command e1 command = Some (e1\<lparr>ee_gateway := g', ee_ring := ring\<rparr>, Ok ())"
        "engine_inv (e1\<lparr>ee_gateway := g', ee_ring := ring\<rparr>) (bs @ [b])" "ring_room ring = ring_room (ee_ring e)"
        "gw_expected_sequence g' = gw_expected_sequence (ee_gateway e) + 1"
        "batch_iter b = events_of (identity_from_command command) (command_sequence command) (tops (ee_gateway e)) (tops g') (reports_iter rb) r"
      by auto
    have "published e bs command (e1\<lparr>ee_gateway := g', ee_ring := ring\<rparr>)"
      unfolding published_def using a g by (intro exI [of _ rb] exI [of _ r] exI [of _ b]) simp
    with Ok True e1(3) a(2) show ?thesis by (auto simp: event_process_command_def admit_def)
  qed
qed

lemma identity_message: "identity_from_message m = identity_from_command (to_command m)"
  by (cases m) (simp_all add: Let_def)

lemma event_frame_command:
  assumes "parse_message frame = Ok m"
  shows "event_process_frame e frame = event_process_command e (to_command m)"
proof -
  have p: "process_frame g frame rb = process_command g (to_command m) rb" for g rb
    using assms by (simp add: process_frame_command)
  show ?thesis using assms message_sequence_command [OF assms]
    by (auto simp: event_process_frame_def event_process_command_def admit_def apply_admitted_command_def identity_message p Let_def
        split: prod.splits result.splits)
qed

section \<open>The published stream\<close>

definition event_id :: "Event \<Rightarrow> EventId" where
  "event_id ev = (case ev of EvAccepted x \<Rightarrow> ae_id x | EvRejected x \<Rightarrow> je_id x | EvTrade x \<Rightarrow> te_id x
     | EvCancelled x \<Rightarrow> ce_id x | EvReplaced x \<Rightarrow> pe_id x | EvTopOfBook x \<Rightarrow> tb_id x)"

definition numbered :: "SequenceNumber \<Rightarrow> Event list \<Rightarrow> bool" where
  "numbered sequence es \<longleftrightarrow> es \<noteq> [] \<and> map event_id es = map (\<lambda>n. \<lparr>ei_command_sequence = sequence, ei_ordinal = n\<rparr>) [0..<length es]"

lemma trades_of_ids: "map event_id (trades_of sequence n rs) = map (\<lambda>k. \<lparr>ei_command_sequence = sequence, ei_ordinal = k\<rparr>) [n..<n + length rs]"
proof (induction rs arbitrary: n)
  case (Cons r rs)
  have "[n..<n + length (r # rs)] = n # [Suc n..<Suc n + length rs]" by (simp add: upt_conv_Cons del: upt_Suc)
  with Cons [of "Suc n"] show ?case by (simp add: trades_of_def trade_event_def event_id_def del: upt_Suc)
qed (simp add: trades_of_def)

lemma events_of_numbered:
  assumes "\<And>err. r = Err err \<Longrightarrow> business_reject err"
  shows "numbered sequence (events_of command sequence b a rs r)"
proof (cases r)
  case (Ok outcome)
  have t: "event_id (terminal_event outcome command sequence 0) = \<lparr>ei_command_sequence = sequence, ei_ordinal = 0\<rparr>"
    by (cases outcome) (simp_all add: event_id_def)
  let ?f = "\<lambda>n. \<lparr>ei_command_sequence = sequence, ei_ordinal = n\<rparr>"
  have u: "map ?f [0..<Suc n] = ?f 0 # map ?f [1..<1 + n]" for n by (simp add: upt_conv_Cons del: upt_Suc)
  have l: "length (trades_of sequence 1 rs) = length rs" by (simp add: trades_of_def)
  have app: "[Suc 0..<Suc (Suc n)] = [Suc 0..<Suc n] @ [Suc n]" for n by simp
  show ?thesis using Ok t trades_of_ids [of sequence 1 rs] l
    by (auto simp: numbered_def events_of_def u app top_of_book_event_def event_id_def simp del: upt_Suc)
next
  case (Err err)
  with assms obtain why where "err = GwRisk why \<or> err = GwBook why" by (auto simp: business_reject_def)
  with Err show ?thesis by (auto simp: numbered_def events_of_def rejected_event_def event_id_def)
qed

inductive engine_run :: "nat \<Rightarrow> nat \<Rightarrow> SequenceNumber \<Rightarrow> BoundedEventEngine \<Rightarrow> EventBatch list \<Rightarrow> bool" for REPORTS BATCH first_sequence where
  run_start: "gw_inv g \<Longrightarrow> gw_expected_sequence g = first_sequence \<Longrightarrow> ring_holds ring [] \<Longrightarrow>
    event_engine_try_new REPORTS BATCH g ring = Ok e \<Longrightarrow> engine_run REPORTS BATCH first_sequence e []"
| run_command: "engine_run REPORTS BATCH first_sequence e out \<Longrightarrow> command_ok command \<Longrightarrow>
    event_process_command e command = Some (e', r) \<Longrightarrow> engine_run REPORTS BATCH first_sequence e' out"
| run_frame: "engine_run REPORTS BATCH first_sequence e out \<Longrightarrow>
    event_process_frame e frame = Some (e', r) \<Longrightarrow> engine_run REPORTS BATCH first_sequence e' out"
| run_pop: "engine_run REPORTS BATCH first_sequence e out \<Longrightarrow> ring_pop (ee_ring e) = Some (ring, popped) \<Longrightarrow>
    engine_run REPORTS BATCH first_sequence (e\<lparr>ee_ring := ring\<rparr>) (out @ (case popped of None \<Rightarrow> [] | Some b \<Rightarrow> [b]))"

definition stream_ok :: "SequenceNumber \<Rightarrow> BoundedEventEngine \<Rightarrow> EventBatch list \<Rightarrow> bool" where
  "stream_ok first_sequence e out \<longleftrightarrow> (\<exists>held. engine_inv e held \<and> first_sequence \<le> gw_expected_sequence (ee_gateway e) \<and>
     list_all2 (\<lambda>s b. numbered s (batch_iter b)) [first_sequence..<gw_expected_sequence (ee_gateway e)] (out @ held))"

lemma stream_command:
  assumes ok: "stream_ok s0 e out" and c: "command_ok command"
  shows "\<exists>e' r. event_process_command e command = Some (e', r) \<and> stream_ok s0 e' out"
proof -
  from ok obtain held where held: "engine_inv e held" "s0 \<le> gw_expected_sequence (ee_gateway e)"
    "list_all2 (\<lambda>s b. numbered s (batch_iter b)) [s0..<gw_expected_sequence (ee_gateway e)] (out @ held)" unfolding stream_ok_def by blast
  note eff = event_command_effect [OF held(1) c]
  show ?thesis
  proof (cases "check_sequence (ee_gateway e) (command_sequence command)")
    case (Err err)
    with eff ok show ?thesis by simp
  next
    case (Ok u)
    show ?thesis
    proof (cases "length held < ring_room (ee_ring e)")
      case False
      with eff Ok obtain e' where e': "event_process_command e command = Some (e', Err Backpressured)" "unpublished e held e'" by auto
      then show ?thesis using held(2,3) by (auto simp: stream_ok_def unpublished_def same_engine_def)
    next
      case True
      with eff Ok obtain e' where e': "event_process_command e command = Some (e', Ok ())" "published e held command e'" by auto
      then obtain rb r b where
        p: "process_command (ee_gateway e) command (reports_new (ee_REPORTS e)) = Some (ee_gateway e', rb, r)"
          "engine_inv e' (held @ [b])" "gw_expected_sequence (ee_gateway e') = gw_expected_sequence (ee_gateway e) + 1"
          "batch_iter b = events_of (identity_from_command command) (command_sequence command) (tops (ee_gateway e))
            (tops (ee_gateway e')) (reports_iter rb) r" unfolding published_def by blast
      have g: "gw_inv (ee_gateway e)" using held(1) by (simp add: engine_inv_def)
      then have sq: "command_sequence command = gw_expected_sequence (ee_gateway e)" "gw_expected_sequence (ee_gateway e) \<noteq> 2 ^ 64 - 1"
        using Ok check_sequence_cases [of "ee_gateway e"] by (auto simp: gw_inv_def split: if_splits)
      from process_command_effect [OF g c, of "reports_new (ee_REPORTS e)"] p(1) sq
      have "business_reject err" if "r = Err err" for err using that by (auto simp: advanced_def)
      then have "numbered (gw_expected_sequence (ee_gateway e)) (batch_iter b)" unfolding p(4) sq(1) by (rule events_of_numbered)
      then have "list_all2 (\<lambda>s b. numbered s (batch_iter b)) [s0..<gw_expected_sequence (ee_gateway e')] (out @ held @ [b])"
        using held(2,3) by (simp add: p(3) list_all2_appendI [of _ _ "out @ held", simplified])
      then show ?thesis using e'(1) p(2,3) held(2) unfolding stream_ok_def by auto
    qed
  qed
qed

lemma stream_run:
  assumes "engine_run REPORTS BATCH s0 e out"
  shows "stream_ok s0 e out"
  using assms
proof induction
  case (run_start g ring e)
  then have "engine_inv e []" "ee_gateway e = g"
    by (auto simp: event_engine_try_new_def engine_inv_def U16_MAX_def U64_MAX_def split: if_splits)
  with run_start show ?case unfolding stream_ok_def by (intro exI [of _ "[]"]) simp
next
  case (run_command e out command e' r)
  with stream_command [OF run_command.IH run_command.hyps(2)] show ?case by auto
next
  case (run_frame e out frame e' r)
  show ?case
  proof (cases "parse_message frame")
    case (Err err)
    with run_frame show ?thesis by (simp add: event_process_frame_def)
  next
    case (Ok m)
    with run_frame stream_command [OF run_frame.IH conjunct2 [OF parse_canonical [OF Ok]]] show ?thesis
      by (auto simp: event_frame_command)
  qed
next
  case (run_pop e out ring popped)
  then obtain held where held: "engine_inv e held" "s0 \<le> gw_expected_sequence (ee_gateway e)"
    "list_all2 (\<lambda>s b. numbered s (batch_iter b)) [s0..<gw_expected_sequence (ee_gateway e)] (out @ held)" unfolding stream_ok_def by blast
  have h: "ring_holds (ee_ring e) held" using held(1) by (simp add: engine_inv_def)
  have "\<exists>held'. ring_holds ring held' \<and> (case popped of None \<Rightarrow> [] | Some b \<Rightarrow> [b]) @ held' = held"
  proof (cases held)
    case Nil
    with ring.pop_empty [of "ee_ring e"] h run_pop.hyps(2) show ?thesis by auto
  next
    case (Cons b bs)
    with ring.pop_front [of "ee_ring e" b bs] h run_pop.hyps(2) show ?thesis by auto
  qed
  then obtain held' where h': "ring_holds ring held'" "(case popped of None \<Rightarrow> [] | Some b \<Rightarrow> [b]) @ held' = held" by blast
  then have "engine_inv (e\<lparr>ee_ring := ring\<rparr>) held'" using held(1) by (simp add: engine_inv_def)
  with held(2,3) h'(2) show ?case unfolding stream_ok_def by (intro exI [of _ held']) auto
qed

section \<open>A concrete engine\<close>

lemma demo_engine:
  obtains e where "engine_run 4 8 1 e []" "engine_inv e []" "ee_gateway e = demo_gateway" "ring_room (ee_ring e) = 2"
proof -
  have c: "capacity_ok 2" by (rule demo_ring(2))
  from ring_new_holds [OF c] obtain ring :: "EventBatch Ring" where r: "ring_holds ring []" "ring_room ring = 2" by blast
  have g: "gw_inv demo_gateway" using gw_reachable_inv [OF demo_gateway_reachable demo_capacities] by blast
  let ?e = "\<lparr>ee_gateway = demo_gateway, ee_ring = ring, ee_REPORTS = 4, ee_BATCH = 8\<rparr>"
  have n: "event_engine_try_new 4 8 demo_gateway ring = Ok ?e" by (simp add: event_engine_try_new_def U16_MAX_def U64_MAX_def)
  from run_start [OF g _ r(1) n, of 1] that [of ?e] g r show thesis by (simp add: engine_inv_def)
qed

section \<open>Properties\<close>

text \<open>
  Processing a command publishes exactly its events. A sequence error changes nothing; with no room
  in the event queue the command is refused as backpressured, gateway and queue unchanged; otherwise
  the gateway processes the command and exactly one batch is appended, holding the terminal event (or
  the rejection), one trade per report and a top-of-book event exactly when the top changed. The
  capacity and publication invariant errors never happen.
\<close>
theorem event_command_outcome:
  assumes "engine_inv e bs" and "command_ok command"
  shows "case check_sequence (ee_gateway e) (command_sequence command) of
      Err err \<Rightarrow> event_process_command e command = Some (e, Err (EvGateway err))
    | Ok _ \<Rightarrow> \<exists>e'. if length bs < ring_room (ee_ring e)
        then event_process_command e command = Some (e', Ok ()) \<and> published e bs command e'
        else event_process_command e command = Some (e', Err Backpressured) \<and> unpublished e bs e'"
  using assms by (rule event_command_effect)

theorem event_command_outcome_witness:
  "\<exists>e e'. engine_inv e [] \<and> event_process_command e (CmdNewOrder demo_buy) = Some (e', Ok ()) \<and> published e [] (CmdNewOrder demo_buy) e'"
proof -
  from demo_engine obtain e where e: "engine_inv e []" "ee_gateway e = demo_gateway" "ring_room (ee_ring e) = 2" by blast
  have "check_sequence demo_gateway (command_sequence (CmdNewOrder demo_buy)) = Ok ()"
    by (simp add: check_sequence_def checked_add_def demo_buy_def del: One_nat_def)
  with event_command_outcome [OF e(1), of "CmdNewOrder demo_buy"] demo_buy_widths e show ?thesis by auto
qed

text \<open>
  C30: the event stream is gapless and ordered. However commands, frames and consumer pops interleave, the
  batches the consumer has received carry consecutive command sequence numbers from the first
  expected one; within each batch every event carries that number and the ordinals count from 0; and
  what is processed but not yet received fits the queue.
\<close>
theorem event_stream_gapless:
  assumes "engine_run REPORTS BATCH first_sequence e out"
  shows "(\<forall>i < length out. numbered (first_sequence + i) (batch_iter (out ! i))) \<and>
    first_sequence + length out \<le> gw_expected_sequence (ee_gateway e) \<and>
    gw_expected_sequence (ee_gateway e) \<le> first_sequence + length out + ring_room (ee_ring e)"
proof -
  from stream_run [OF assms] obtain held where held: "engine_inv e held" "first_sequence \<le> gw_expected_sequence (ee_gateway e)"
    "list_all2 (\<lambda>s b. numbered s (batch_iter b)) [first_sequence..<gw_expected_sequence (ee_gateway e)] (out @ held)"
    unfolding stream_ok_def by blast
  note len = list_all2_lengthD [OF held(3)]
  have "numbered (first_sequence + i) (batch_iter (out ! i))" if "i < length out" for i
    using list_all2_nthD2 [OF held(3), of i] that len held(2) by (simp add: nth_append)
  moreover have "length held \<le> ring_room (ee_ring e)" by (rule ring.within) (use held(1) in \<open>simp add: engine_inv_def\<close>)
  ultimately show ?thesis using len held(2) by auto
qed

theorem event_stream_gapless_witness:
  "\<exists>e b. engine_run 4 8 1 e [b] \<and> numbered 1 (batch_iter b) \<and> gw_expected_sequence (ee_gateway e) = 2"
proof -
  from demo_engine obtain e where e: "engine_run 4 8 1 e []" "engine_inv e []" "ee_gateway e = demo_gateway" "ring_room (ee_ring e) = 2" by blast
  have seq: "check_sequence demo_gateway (command_sequence (CmdNewOrder demo_buy)) = Ok ()" "gw_expected_sequence demo_gateway = 1"
    by (simp_all add: check_sequence_def checked_add_def demo_buy_def del: One_nat_def)
  with event_command_effect [OF e(2), of "CmdNewOrder demo_buy"] demo_buy_widths e
  obtain e' where e': "event_process_command e (CmdNewOrder demo_buy) = Some (e', Ok ())" "published e [] (CmdNewOrder demo_buy) e'" by auto
  have run: "engine_run 4 8 1 e' []" by (rule run_command [OF e(1) _ e'(1)]) (simp add: demo_buy_widths)
  from e'(2) e(3) seq(2) obtain b where b: "ring_holds (ee_ring e') [b]" "gw_expected_sequence (ee_gateway e') = 2"
    by (auto simp: published_def engine_inv_def)
  from ring.pop_front [OF b(1)] obtain q where "ring_pop (ee_ring e') = Some (q, Some b)" by blast
  from run_pop [OF run this] have out: "engine_run 4 8 1 (e'\<lparr>ee_ring := q\<rparr>) [b]" by simp
  from event_stream_gapless [OF out] have "numbered 1 (batch_iter b)" by simp
  with out b(2) show ?thesis by (intro exI [of _ "e'\<lparr>ee_ring := q\<rparr>"] exI [of _ b]) simp
qed

text \<open>
  The framed path of the event engine agrees with the normalized one: processing the bytes of a
  command publishes what processing the command does, and unparsable bytes change nothing.
\<close>
theorem event_frame_equivalence:
  "(command_ok command \<longrightarrow> event_process_frame e (encode_command command) = event_process_command e command) \<and>
   (\<forall>err. parse_message frame = Err err \<longrightarrow> event_process_frame e frame = Some (e, Err (EvGateway (GwParse err))))"
  using encode_parse [of command] event_frame_command by (fastforce simp: event_process_frame_def)

theorem event_frame_equivalence_witness:
  "\<exists>e e'. event_process_frame e (encode_command (CmdNewOrder demo_buy)) = Some (e', Ok ())"
proof -
  from demo_engine obtain e where e: "engine_inv e []" "ee_gateway e = demo_gateway" "ring_room (ee_ring e) = 2" by blast
  have "check_sequence demo_gateway (command_sequence (CmdNewOrder demo_buy)) = Ok ()"
    by (simp add: check_sequence_def checked_add_def demo_buy_def del: One_nat_def)
  with event_command_effect [OF e(1), of "CmdNewOrder demo_buy"] demo_buy_widths e
  obtain e' where "event_process_command e (CmdNewOrder demo_buy) = Some (e', Ok ())" by auto
  with event_frame_equivalence [of "CmdNewOrder demo_buy" e] demo_buy_widths show ?thesis by auto
qed

end
