(* ===== verification/Router.thy ===== *)
theory Router
  imports EventsProps
begin

text \<open>
  Instrument routing, \<open>crates/hft-router/src/lib.rs\<close>: the route table with its dense fast path, the
  router that publishes commands to one queue per shard, and the matching shard that drains its queue
  through an event engine. Queues are rings with both ends; the const generic \<open>SHARDS\<close> is the length
  of the arrays.
\<close>

section \<open>Route table\<close>

type_synonym ShardId = nat

record InstrumentRoute =
  ir_instrument_id :: InstrumentId
  ir_shard_id :: ShardId

datatype RouteTableError =
    NoShards
  | TooManyShards
  | InvalidShardId ShardId
  | DuplicateShardId ShardId
  | DuplicateInstrument InstrumentId

record RouteTable =
  tbl_by_instrument :: "InstrumentRoute list"
  tbl_by_shard :: "nat list"
  tbl_dense :: bool

fun check_shards :: "nat \<Rightarrow> bool list \<Rightarrow> InstrumentRoute list \<Rightarrow> (unit, RouteTableError) result" where
  "check_shards SHARDS seen [] = Ok ()"
| "check_shards SHARDS seen (route # routes) =
     (let shard = ir_shard_id route in
      if shard \<ge> SHARDS then Err (InvalidShardId shard)
      else if seen ! shard then Err (DuplicateShardId shard)
      else check_shards SHARDS (seen[shard := True]) routes)"

text \<open>The windows of two of the sorted routes.\<close>

fun check_instruments :: "InstrumentRoute list \<Rightarrow> (unit, RouteTableError) result" where
  "check_instruments (a # b # routes) =
     (if ir_instrument_id a = ir_instrument_id b then Err (DuplicateInstrument (ir_instrument_id a))
      else check_instruments (b # routes))"
| "check_instruments _ = Ok ()"

definition u16_try_from :: "nat \<Rightarrow> nat option" where
  "u16_try_from n = (if n \<le> U16_MAX then Some n else None)"

fun index_shards :: "nat \<Rightarrow> InstrumentRoute list \<Rightarrow> nat list \<Rightarrow> (nat list, RouteTableError) result" where
  "index_shards index [] by_shard = Ok by_shard"
| "index_shards index (route # routes) by_shard =
     and_then (ok_or TooManyShards (u16_try_from index)) (\<lambda>i. index_shards (index + 1) routes (by_shard[ir_shard_id route := i]))"

definition route_table_try_new :: "InstrumentRoute list \<Rightarrow> (RouteTable, RouteTableError) result" where
  "route_table_try_new routes =
     (let SHARDS = length routes in
      if SHARDS = 0 then Err NoShards
      else if SHARDS > U16_MAX + 1 then Err TooManyShards
      else and_then (check_shards SHARDS (replicate SHARDS False) routes) (\<lambda>_.
        let routes = sort_key ir_instrument_id routes in
        and_then (check_instruments routes) (\<lambda>_.
        and_then (index_shards 0 routes (replicate SHARDS 0)) (\<lambda>by_shard.
        and_then (ok_or TooManyShards (u32_try_from (SHARDS - 1))) (\<lambda>span.
          Ok \<lparr>tbl_by_instrument = routes, tbl_by_shard = by_shard,
              tbl_dense = (ir_instrument_id (routes ! (SHARDS - 1)) - ir_instrument_id (routes ! 0) = span)\<rparr>)))))"

text \<open>
  \<open>binary_search_by_key\<close> of the standard library: the loop halves the size and moves the base to the
  middle unless the middle's key is greater.
\<close>

function search_loop :: "('b \<Rightarrow> nat) \<Rightarrow> nat \<Rightarrow> 'b list \<Rightarrow> nat \<Rightarrow> nat \<Rightarrow> nat" where
  "search_loop f key xs base len =
     (if len \<le> 1 then base
      else let half = len div 2; mid = base + half in
        search_loop f key xs (if f (xs ! mid) > key then base else mid) (len - half))"
  by pat_completeness auto
termination
  by (relation "measure (\<lambda>(f, key, xs, base, len). len)") auto

declare search_loop.simps [simp del]

definition binary_search_by_key :: "('b \<Rightarrow> nat) \<Rightarrow> nat \<Rightarrow> 'b list \<Rightarrow> nat option" where
  "binary_search_by_key f key xs =
     (if xs = [] then None
      else let base = search_loop f key xs 0 (length xs) in if f (xs ! base) = key then Some base else None)"

definition shard_for :: "RouteTable \<Rightarrow> InstrumentId \<Rightarrow> ShardId option" where
  "shard_for t instrument_id =
     (if tbl_dense t
      then do {
        offset \<leftarrow> checked_sub instrument_id (ir_instrument_id (tbl_by_instrument t ! 0));
        map_option ir_shard_id (nth_opt (tbl_by_instrument t) offset)
      }
      else map_option (\<lambda>index. ir_shard_id (tbl_by_instrument t ! index))
        (binary_search_by_key ir_instrument_id instrument_id (tbl_by_instrument t)))"

definition instrument_for :: "RouteTable \<Rightarrow> ShardId \<Rightarrow> InstrumentId option" where
  "instrument_for t shard_id =
     do {
       index \<leftarrow> nth_opt (tbl_by_shard t) shard_id;
       map_option ir_instrument_id (nth_opt (tbl_by_instrument t) index)
     }"

section \<open>Router\<close>

datatype RouterError =
    RtParse ParseError
  | UnknownInstrument InstrumentId
  | UnknownShard ShardId
  | CommandBackpressured ShardId

record MultiInstrumentRouter =
  mr_routes :: RouteTable
  mr_commands :: "Command Ring list"
  mr_events :: "EventBatch Ring list"

definition route_command :: "MultiInstrumentRouter \<Rightarrow> Command \<Rightarrow> (MultiInstrumentRouter \<times> (ShardId, RouterError) result) option" where
  "route_command m command =
     (let instrument_id = command_instrument_id command in
      case shard_for (mr_routes m) instrument_id of
        None \<Rightarrow> Some (m, Err (UnknownInstrument instrument_id))
      | Some shard_id \<Rightarrow>
          (case nth_opt (mr_commands m) shard_id of
             None \<Rightarrow> Some (m, Err (UnknownShard shard_id))
           | Some producer \<Rightarrow>
               do {
                 (producer, pushed) \<leftarrow> ring_push producer command;
                 Some (m\<lparr>mr_commands := (mr_commands m)[shard_id := producer]\<rparr>,
                       case pushed of Ok _ \<Rightarrow> Ok shard_id | Err _ \<Rightarrow> Err (CommandBackpressured shard_id))
               }))"

definition route_frame :: "MultiInstrumentRouter \<Rightarrow> byte list \<Rightarrow> (MultiInstrumentRouter \<times> (ShardId, RouterError) result) option" where
  "route_frame m frame =
     (case parse_message frame of
        Err e \<Rightarrow> Some (m, Err (RtParse e))
      | Ok message \<Rightarrow> route_command m (to_command message))"

definition try_event ::
  "MultiInstrumentRouter \<Rightarrow> ShardId \<Rightarrow> (MultiInstrumentRouter \<times> (EventBatch option, RouterError) result) option" where
  "try_event m shard_id =
     (case nth_opt (mr_events m) shard_id of
        None \<Rightarrow> Some (m, Err (UnknownShard shard_id))
      | Some consumer \<Rightarrow>
          do {
            (consumer, popped) \<leftarrow> ring_pop consumer;
            Some (m\<lparr>mr_events := (mr_events m)[shard_id := consumer]\<rparr>, Ok popped)
          })"

section \<open>Matching shard\<close>

datatype ShardConfigError =
    InstrumentMismatch InstrumentId InstrumentId
  | ShardEvents EventEngineConfigError

datatype ShardStep = ShardIdle | ShardProcessed SequenceNumber

datatype ShardError =
    Misrouted InstrumentId InstrumentId
  | EventBackpressured
  | ShardEngine EventEngineError

record MatchingShard =
  sh_route :: InstrumentRoute
  sh_commands :: "Command Ring"
  sh_engine :: BoundedEventEngine
  sh_pending :: "Command option"

definition shard_try_new ::
  "nat \<Rightarrow> nat \<Rightarrow> InstrumentRoute \<Rightarrow> Gateway \<Rightarrow> Command Ring \<Rightarrow> EventBatch Ring \<Rightarrow> (MatchingShard, ShardConfigError) result" where
  "shard_try_new REPORTS BATCH route gateway commands events =
     (if ir_instrument_id route \<noteq> gateway_instrument gateway
      then Err (InstrumentMismatch (ir_instrument_id route) (gateway_instrument gateway))
      else case event_engine_try_new REPORTS BATCH gateway events of
        Err e \<Rightarrow> Err (ShardEvents e)
      | Ok engine \<Rightarrow> Ok \<lparr>sh_route = route, sh_commands = commands, sh_engine = engine, sh_pending = None\<rparr>)"

text \<open>The command to work on: the pending one, taken, or else the next of the queue.\<close>

definition take_command :: "MatchingShard \<Rightarrow> (MatchingShard \<times> Command option) option" where
  "take_command s =
     (case sh_pending s of
        Some command \<Rightarrow> Some (s\<lparr>sh_pending := None\<rparr>, Some command)
      | None \<Rightarrow>
          do {
            (ring, popped) \<leftarrow> ring_pop (sh_commands s);
            Some (s\<lparr>sh_commands := ring\<rparr>, popped)
          })"

definition try_process_one :: "MatchingShard \<Rightarrow> (MatchingShard \<times> (ShardStep, ShardError) result) option" where
  "try_process_one s =
     do {
       (s, taken) \<leftarrow> take_command s;
       (case taken of
          None \<Rightarrow> Some (s, Ok ShardIdle)
        | Some command \<Rightarrow>
            let received = command_instrument_id command in
            if received \<noteq> ir_instrument_id (sh_route s)
            then Some (s, Err (Misrouted (ir_instrument_id (sh_route s)) received))
            else let sequence = command_sequence command in
              do {
                (engine, r) \<leftarrow> event_process_command (sh_engine s) command;
                let s = s\<lparr>sh_engine := engine\<rparr>;
                Some (case r of
                        Ok _ \<Rightarrow> (s, Ok (ShardProcessed sequence))
                      | Err Backpressured \<Rightarrow> (s\<lparr>sh_pending := Some command\<rparr>, Err EventBackpressured)
                      | Err e \<Rightarrow> (s, Err (ShardEngine e)))
              })
     }"

definition has_pending_command :: "MatchingShard \<Rightarrow> bool" where
  "has_pending_command s \<longleftrightarrow> sh_pending s \<noteq> None"

end
