(* ===== verification/RouterProps.thy ===== *)
theory RouterProps
  imports Router
begin

text \<open>
  Properties of routing: the table is accepted exactly when instruments and shards are in bijection, the
  two lookups invert each other and the dense path agrees with the search, commands reach the queue of
  their instrument's shard and no other, and a shard processes its commands in order without losing one
  to backpressure.
\<close>

section \<open>Binary search\<close>

text \<open>
  On keys sorted strictly the loop keeps: every key from base on is reachable, and keys before the
  base are not greater than the key at the base, which is not greater than the searched one unless the
  base is still 0.
\<close>

lemma search_loop_range: "0 < len \<Longrightarrow> base + len \<le> length xs \<Longrightarrow>
  base \<le> search_loop f key xs base len \<and> search_loop f key xs base len < base + len"
proof (induction f key xs base len rule: search_loop.induct)
  case (1 f key xs base len)
  let ?half = "len div 2"
  show ?case
  proof (cases "len \<le> 1")
    case True
    then show ?thesis using 1(2) by (subst (1 2) search_loop.simps) simp
  next
    case False
    let ?b = "if f (xs ! (base + ?half)) > key then base else base + ?half"
    have "?b \<le> search_loop f key xs ?b (len - ?half) \<and> search_loop f key xs ?b (len - ?half) < ?b + (len - ?half)"
      using 1(1) [OF False refl refl] 1(3) False by auto
    then show ?thesis using False by (subst (1 2) search_loop.simps) (auto simp: Let_def split: if_splits)
  qed
qed

lemma search_loop_finds:
  assumes "sorted_wrt (<) (map f xs)" and "base + len \<le> length xs" and "base \<le> i" "i < base + len" and "f (xs ! i) = key"
  shows "search_loop f key xs base len = i"
  using assms
proof (induction f key xs base len rule: search_loop.induct)
  case (1 f key xs base len)
  let ?half = "len div 2" and ?mid = "base + len div 2"
  show ?case
  proof (cases "len \<le> 1")
    case True
    then show ?thesis using 1(4,5) by (subst search_loop.simps) auto
  next
    case False
    have less: "j < k \<Longrightarrow> k < length xs \<Longrightarrow> f (xs ! j) < f (xs ! k)" for j k
      using 1(2) by (simp add: sorted_wrt_iff_nth_less)
    have m: "?mid < length xs" using 1(3) False by linarith
    have "i < ?mid \<longleftrightarrow> f (xs ! ?mid) > key"
      using less [of i ?mid] less [of ?mid i] m 1(3,5,6) by (cases "i < ?mid"; cases "i = ?mid") auto
    then have "search_loop f key xs (if f (xs ! ?mid) > key then base else ?mid) (len - ?half) = i"
      using 1(1) [OF False refl refl 1(2)] 1(3-6) False by auto
    then show ?thesis using False by (subst search_loop.simps) (simp add: Let_def)
  qed
qed

lemma binary_search_iff:
  assumes "sorted_wrt (<) (map f xs)"
  shows "binary_search_by_key f key xs = Some i \<longleftrightarrow> i < length xs \<and> f (xs ! i) = key"
proof
  assume "binary_search_by_key f key xs = Some i"
  then show "i < length xs \<and> f (xs ! i) = key"
    using search_loop_range [of "length xs" 0 xs f key] by (auto simp: binary_search_by_key_def Let_def split: if_splits)
next
  assume i: "i < length xs \<and> f (xs ! i) = key"
  then have "search_loop f key xs 0 (length xs) = i" using search_loop_finds [OF assms, of 0 "length xs" i key] by simp
  with i show "binary_search_by_key f key xs = Some i" by (auto simp: binary_search_by_key_def)
qed

section \<open>The table\<close>

lemma check_shards_Ok:
  assumes "length seen = SHARDS"
  shows "check_shards SHARDS seen routes = Ok () \<longleftrightarrow>
    (\<forall>r \<in> set routes. ir_shard_id r < SHARDS \<and> \<not> seen ! ir_shard_id r) \<and> distinct (map ir_shard_id routes)"
  using assms
proof (induction routes arbitrary: seen)
  case (Cons r routes)
  show ?case
  proof (cases "ir_shard_id r < SHARDS \<and> \<not> seen ! ir_shard_id r")
    case True
    with Cons.IH [of "seen[ir_shard_id r := True]"] Cons.prems show ?thesis
      by (auto simp: Let_def nth_list_update image_iff)
  next
    case False
    then show ?thesis by (auto simp: Let_def not_less)
  qed
qed simp

lemma check_instruments_Ok:
  "sorted (map ir_instrument_id rs) \<Longrightarrow> check_instruments rs = Ok () \<longleftrightarrow> sorted_wrt (<) (map ir_instrument_id rs)"
  by (induction rs rule: check_instruments.induct) (auto simp: order_le_less)

lemma index_shards_eq:
  assumes "index + length rs \<le> 65536" and "distinct (map ir_shard_id rs)" and "\<forall>r \<in> set rs. ir_shard_id r < length by_shard"
  shows "\<exists>out. index_shards index rs by_shard = Ok out \<and> length out = length by_shard \<and>
    (\<forall>i < length rs. out ! ir_shard_id (rs ! i) = index + i) \<and> (\<forall>s. s \<notin> ir_shard_id ` set rs \<longrightarrow> out ! s = by_shard ! s)"
  using assms
proof (induction rs arbitrary: index by_shard)
  case (Cons r rs)
  have u: "u16_try_from index = Some index" using Cons.prems(1) by (simp add: u16_try_from_def U16_MAX_def)
  let ?b = "by_shard[ir_shard_id r := index]"
  from Cons.IH [of "index + 1" ?b] Cons.prems obtain out where
    out: "index_shards (index + 1) rs ?b = Ok out" "length out = length by_shard" "\<forall>i < length rs. out ! ir_shard_id (rs ! i) = index + 1 + i"
      "\<forall>s. s \<notin> ir_shard_id ` set rs \<longrightarrow> out ! s = ?b ! s" by auto
  have "out ! ir_shard_id r = index" using out(4) Cons.prems(2,3) by auto
  then have "\<forall>i < length (r # rs). out ! ir_shard_id ((r # rs) ! i) = index + i"
    using out(3) by (auto simp: nth_Cons split: nat.splits)
  with out u show ?case by auto
qed simp

definition table_ok :: "InstrumentRoute list \<Rightarrow> bool" where
  "table_ok routes \<longleftrightarrow> routes \<noteq> [] \<and> length routes \<le> 65536 \<and> (\<forall>r \<in> set routes. ir_shard_id r < length routes) \<and>
     distinct (map ir_shard_id routes) \<and> distinct (map ir_instrument_id routes)"

definition table_rep :: "RouteTable \<Rightarrow> InstrumentRoute list \<Rightarrow> bool" where
  "table_rep t routes \<longleftrightarrow> set (tbl_by_instrument t) = set routes \<and> length (tbl_by_instrument t) = length routes \<and> routes \<noteq> [] \<and>
     sorted_wrt (<) (map ir_instrument_id (tbl_by_instrument t)) \<and> distinct (map ir_shard_id (tbl_by_instrument t)) \<and>
     (\<forall>r \<in> set routes. ir_shard_id r < length routes) \<and> length (tbl_by_shard t) = length routes \<and>
     (\<forall>i < length routes. tbl_by_shard t ! ir_shard_id (tbl_by_instrument t ! i) = i) \<and>
     (tbl_dense t \<longleftrightarrow> ir_instrument_id (tbl_by_instrument t ! (length routes - 1)) - ir_instrument_id (tbl_by_instrument t ! 0)
        = length routes - 1)"

lemma distinct_map_sort_key: "distinct (map g (sort_key f xs)) \<longleftrightarrow> distinct (map g xs)"
  by (simp add: distinct_map)

lemma route_table_accepts:
  assumes "table_ok routes"
  shows "\<exists>t. route_table_try_new routes = Ok t \<and> table_rep t routes"
proof -
  let ?n = "length routes" and ?rs = "sort_key ir_instrument_id routes"
  have n: "0 < ?n" "?n \<le> 65536" using assms by (auto simp: table_ok_def)
  have sh: "distinct (map ir_shard_id ?rs)" "\<forall>r \<in> set ?rs. ir_shard_id r < ?n"
    using assms by (auto simp: table_ok_def distinct_map_sort_key)
  have srt: "sorted (map ir_instrument_id ?rs)" by simp
  have "distinct (map ir_instrument_id ?rs)"
    using assms by (auto simp: table_ok_def distinct_map_sort_key)
  with srt have strict: "sorted_wrt (<) (map ir_instrument_id ?rs)" by (simp add: strict_sorted_iff)
  have c1: "check_shards ?n (replicate ?n False) routes = Ok ()"
    using check_shards_Ok [of "replicate ?n False" ?n routes] assms by (auto simp: table_ok_def)
  have c2: "check_instruments ?rs = Ok ()" using check_instruments_Ok [OF srt] strict by simp
  from index_shards_eq [of 0 ?rs "replicate ?n 0"] n sh obtain out where
    out: "index_shards 0 ?rs (replicate ?n 0) = Ok out" "length out = ?n" "\<forall>i < ?n. out ! ir_shard_id (?rs ! i) = i" by auto
  have c3: "u32_try_from (?n - 1) = Some (?n - 1)" using n by (simp add: u32_try_from_def)
  show ?thesis using n c1 c2 out c3 strict sh assms
    by (auto simp: route_table_try_new_def Let_def U16_MAX_def table_rep_def table_ok_def)
qed

lemma route_table_rejects:
  assumes "\<not> table_ok routes"
  shows "\<exists>e. route_table_try_new routes = Err e"
proof (rule ccontr)
  assume "\<nexists>e. route_table_try_new routes = Err e"
  then obtain t where t: "route_table_try_new routes = Ok t" by (cases "route_table_try_new routes") auto
  let ?n = "length routes" and ?rs = "sort_key ir_instrument_id routes"
  from t have n: "0 < ?n" "?n \<le> 65536" and c: "check_shards ?n (replicate ?n False) routes = Ok ()" "check_instruments ?rs = Ok ()"
    by (auto simp: route_table_try_new_def Let_def and_then_Ok_iff U16_MAX_def split: if_splits)
  from c(1) check_shards_Ok [of "replicate ?n False" ?n routes] have "\<forall>r \<in> set routes. ir_shard_id r < ?n" "distinct (map ir_shard_id routes)"
    by auto
  moreover from c(2) check_instruments_Ok [of ?rs] have "distinct (map ir_instrument_id ?rs)" by (simp add: strict_sorted_iff)
  then have "distinct (map ir_instrument_id routes)" by (simp add: distinct_map_sort_key)
  ultimately show False using assms n by (simp add: table_ok_def)
qed

lemma increasing_gap:
  assumes "sorted_wrt (<) (xs :: nat list)" and "i \<le> j" "j < length xs"
  shows "xs ! i + (j - i) \<le> xs ! j"
  using assms(2,3)
proof (induction j)
  case (Suc j)
  show ?case
  proof (cases "i = Suc j")
    case False
    with Suc have "xs ! i + (j - i) \<le> xs ! j" "xs ! j < xs ! Suc j" using assms(1) by (auto simp: sorted_wrt_iff_nth_less)
    with False Suc.prems(1) show ?thesis by linarith
  qed simp
qed simp

lemma dense_keys:
  assumes rep: "table_rep t routes" and "tbl_dense t" and i: "i < length routes"
  shows "ir_instrument_id (tbl_by_instrument t ! i) = ir_instrument_id (tbl_by_instrument t ! 0) + i"
proof -
  let ?xs = "map ir_instrument_id (tbl_by_instrument t)" and ?n = "length routes"
  have R: "sorted_wrt (<) ?xs" "length ?xs = ?n" "0 < ?n" "?xs ! (?n - 1) - ?xs ! 0 = ?n - 1"
    using rep assms(2) by (auto simp: table_rep_def)
  have "?xs ! 0 + i \<le> ?xs ! i" using increasing_gap [OF R(1), of 0 i] i R(2) by simp
  moreover have "?xs ! i + (?n - 1 - i) \<le> ?xs ! (?n - 1)" using increasing_gap [OF R(1), of i "?n - 1"] i R(2,3) by simp
  moreover have "?xs ! 0 \<le> ?xs ! (?n - 1)" using increasing_gap [OF R(1), of 0 "?n - 1"] R(2,3) by simp
  ultimately have "?xs ! i = ?xs ! 0 + i" using R(4) i by linarith
  then show ?thesis using i R(2,3) by simp
qed

lemma shard_for_iff:
  assumes rep: "table_rep t routes"
  shows "shard_for t k = Some s \<longleftrightarrow> (\<exists>r \<in> set routes. ir_instrument_id r = k \<and> ir_shard_id r = s)"
proof -
  let ?bi = "tbl_by_instrument t"
  have R: "set ?bi = set routes" "length ?bi = length routes" "0 < length routes" "sorted_wrt (<) (map ir_instrument_id ?bi)"
    using rep by (auto simp: table_rep_def)
  have by_pos: "shard_for t k = Some s \<longleftrightarrow> (\<exists>i < length routes. ir_instrument_id (?bi ! i) = k \<and> ir_shard_id (?bi ! i) = s)"
  proof (cases "tbl_dense t")
    case True
    note d = dense_keys [OF rep True]
    let ?first = "ir_instrument_id (?bi ! 0)"
    have "shard_for t k = Some s \<longleftrightarrow> ?first \<le> k \<and> k - ?first < length routes \<and> ir_shard_id (?bi ! (k - ?first)) = s"
      using True R(2) by (auto simp: shard_for_def checked_sub_def nth_opt_def)
    also have "\<dots> \<longleftrightarrow> (\<exists>i < length routes. ?first + i = k \<and> ir_shard_id (?bi ! i) = s)"
      by (metis add_diff_cancel_left' le_add1 le_add_diff_inverse)
    also have "\<dots> \<longleftrightarrow> (\<exists>i < length routes. ir_instrument_id (?bi ! i) = k \<and> ir_shard_id (?bi ! i) = s)"
      using d by auto
    finally show ?thesis .
  next
    case False
    have "binary_search_by_key ir_instrument_id k ?bi = Some i \<longleftrightarrow> i < length routes \<and> ir_instrument_id (?bi ! i) = k" for i
      using binary_search_iff [OF R(4)] R(2) by simp
    with False show ?thesis by (auto simp: shard_for_def)
  qed
  show ?thesis unfolding by_pos using R(1,2) by (metis in_set_conv_nth)
qed

lemma instrument_for_iff:
  assumes rep: "table_rep t routes"
  shows "instrument_for t s = Some k \<longleftrightarrow> (\<exists>r \<in> set routes. ir_instrument_id r = k \<and> ir_shard_id r = s)"
proof -
  let ?bi = "tbl_by_instrument t" and ?n = "length routes"
  have R: "set ?bi = set routes" "length ?bi = ?n" "\<forall>r \<in> set routes. ir_shard_id r < ?n" "length (tbl_by_shard t) = ?n"
    "\<And>i. i < ?n \<Longrightarrow> tbl_by_shard t ! ir_shard_id (?bi ! i) = i" "distinct (map ir_shard_id ?bi)"
    using rep by (auto simp: table_rep_def)
  have onto: "\<exists>i < ?n. ir_shard_id (?bi ! i) = s" if "s < ?n"
  proof -
    have "card (ir_shard_id ` set ?bi) = ?n" using R(2,6) by (metis distinct_card length_map set_map)
    moreover have "ir_shard_id ` set ?bi \<subseteq> {..<?n}" using R(1,3) by auto
    ultimately have "ir_shard_id ` set ?bi = {..<?n}" by (simp add: card_subset_eq)
    with that obtain r where "r \<in> set ?bi" "ir_shard_id r = s" by (metis imageE lessThan_iff)
    then show ?thesis using R(2) by (metis in_set_conv_nth)
  qed
  show ?thesis
  proof
    assume "instrument_for t s = Some k"
    then have s: "s < ?n" "tbl_by_shard t ! s < ?n" "ir_instrument_id (?bi ! (tbl_by_shard t ! s)) = k"
      using R(2,4) by (auto simp: instrument_for_def bind_eq_Some nth_opt_def split: if_splits)
    from onto [OF s(1)] obtain i where "i < ?n" "ir_shard_id (?bi ! i) = s" by blast
    with R(5) [of i] s(3) show "\<exists>r \<in> set routes. ir_instrument_id r = k \<and> ir_shard_id r = s"
      using R(1,2) by (metis nth_mem)
  next
    assume "\<exists>r \<in> set routes. ir_instrument_id r = k \<and> ir_shard_id r = s"
    then obtain i where i: "i < ?n" "ir_instrument_id (?bi ! i) = k" "ir_shard_id (?bi ! i) = s" using R(1,2) by (metis in_set_conv_nth)
    moreover have "s < ?n" using i R(1-3) by (metis nth_mem)
    ultimately show "instrument_for t s = Some k" using R(2,4) R(5) [of i] by (simp add: instrument_for_def nth_opt_def)
  qed
qed

section \<open>Routing commands\<close>

definition router_holds :: "MultiInstrumentRouter \<Rightarrow> InstrumentRoute list \<Rightarrow> Command list list \<Rightarrow> bool" where
  "router_holds m routes qs \<longleftrightarrow> table_rep (mr_routes m) routes \<and> length qs = length routes \<and> list_all2 ring_holds (mr_commands m) qs"

definition same_rooms :: "MultiInstrumentRouter \<Rightarrow> MultiInstrumentRouter \<Rightarrow> bool" where
  "same_rooms m m' \<longleftrightarrow> map ring_room (mr_commands m') = map ring_room (mr_commands m) \<and> mr_routes m' = mr_routes m \<and> mr_events m' = mr_events m"

definition routed :: "MultiInstrumentRouter \<Rightarrow> InstrumentRoute list \<Rightarrow> Command list list \<Rightarrow> Command \<Rightarrow>
    MultiInstrumentRouter \<Rightarrow> (ShardId, RouterError) result \<Rightarrow> bool" where
  "routed m routes qs command m' r \<longleftrightarrow> same_rooms m m' \<and>
     (case shard_for (mr_routes m) (command_instrument_id command) of
        None \<Rightarrow> r = Err (UnknownInstrument (command_instrument_id command)) \<and> m' = m
      | Some shard \<Rightarrow>
          if length (qs ! shard) < ring_room (mr_commands m ! shard)
          then r = Ok shard \<and> router_holds m' routes (qs[shard := qs ! shard @ [command]])
          else r = Err (CommandBackpressured shard) \<and> router_holds m' routes qs)"

lemma list_all2_update_left:
  "list_all2 P xs ys \<Longrightarrow> i < length xs \<Longrightarrow> P x (ys ! i) \<Longrightarrow> list_all2 P (xs[i := x]) ys"
  using list_all2_update_cong [of P xs ys x "ys ! i" i] by simp

lemma map_update_same: "i < length xs \<Longrightarrow> f x = f (xs ! i) \<Longrightarrow> map f (xs[i := x]) = map f xs"
  by (simp add: map_update list_update_same_conv)

lemma route_command_effect:
  assumes holds: "router_holds m routes qs"
  shows "\<exists>m' r. route_command m command = Some (m', r) \<and> routed m routes qs command m' r"
proof -
  have R: "table_rep (mr_routes m) routes" "length qs = length routes" "list_all2 ring_holds (mr_commands m) qs"
    using holds by (auto simp: router_holds_def)
  then have len: "length (mr_commands m) = length routes" by (auto dest: list_all2_lengthD)
  show ?thesis
  proof (cases "shard_for (mr_routes m) (command_instrument_id command)")
    case None
    then show ?thesis by (simp add: route_command_def routed_def same_rooms_def)
  next
    case (Some s)
    with shard_for_iff [OF R(1)] R(1) have s: "s < length routes" by (auto simp: table_rep_def)
    with R(3) len have h: "ring_holds (mr_commands m ! s) (qs ! s)" by (simp add: list_all2_nthD)
    note room = ring.within [OF h]
    show ?thesis
    proof (cases "length (qs ! s) < ring_room (mr_commands m ! s)")
      case True
      then have "length (qs ! s) \<noteq> ring_room (mr_commands m ! s)" by simp
      from ring.push_room [OF h this, of command] obtain p where
        p: "ring_push (mr_commands m ! s) command = Some (p, Ok ())" "ring_holds p (qs ! s @ [command])" "ring_room p = ring_room (mr_commands m ! s)" by blast
      with Some True s len R show ?thesis
        by (simp add: route_command_def nth_opt_def routed_def same_rooms_def router_holds_def list_all2_update_cong map_update_same)
    next
      case False
      with room have "length (qs ! s) = ring_room (mr_commands m ! s)" by simp
      from ring.push_full [OF h this, of command] obtain p where
        p: "ring_push (mr_commands m ! s) command = Some (p, Err command)" "ring_holds p (qs ! s)" "ring_room p = ring_room (mr_commands m ! s)" by blast
      with Some False s len R show ?thesis
        by (simp add: route_command_def nth_opt_def routed_def same_rooms_def router_holds_def list_all2_update_left map_update_same)
    qed
  qed
qed

section \<open>One shard\<close>

text \<open>The commands a shard has accepted and not yet handled: the pending one, then its queue.\<close>

definition shard_holds :: "MatchingShard \<Rightarrow> Command list \<Rightarrow> EventBatch list \<Rightarrow> bool" where
  "shard_holds s waiting bs \<longleftrightarrow> engine_inv (sh_engine s) bs \<and>
     (\<exists>q. ring_holds (sh_commands s) q \<and> waiting = (case sh_pending s of None \<Rightarrow> [] | Some c \<Rightarrow> [c]) @ q)"

lemma take_command_effect:
  assumes "shard_holds s waiting bs"
  shows "\<exists>s'. take_command s = Some (s', case waiting of [] \<Rightarrow> None | c # cs \<Rightarrow> Some c) \<and> shard_holds s' (tl waiting) bs \<and>
    sh_pending s' = None \<and> sh_route s' = sh_route s \<and> sh_engine s' = sh_engine s"
proof -
  from assms obtain q where q: "engine_inv (sh_engine s) bs" "ring_holds (sh_commands s) q"
    "waiting = (case sh_pending s of None \<Rightarrow> [] | Some c \<Rightarrow> [c]) @ q" unfolding shard_holds_def by blast
  show ?thesis
  proof (cases "sh_pending s")
    case (Some c)
    with q show ?thesis by (simp add: take_command_def shard_holds_def)
  next
    case None
    have "\<exists>ring. ring_pop (sh_commands s) = Some (ring, case q of [] \<Rightarrow> None | c # cs \<Rightarrow> Some c) \<and> ring_holds ring (tl q)"
      using q(2) ring.pop_empty [of "sh_commands s"] ring.pop_front [of "sh_commands s"] by (cases q) fastforce+
    with None q show ?thesis by (auto simp: take_command_def shard_holds_def)
  qed
qed

definition shard_step :: "MatchingShard \<Rightarrow> Command list \<Rightarrow> EventBatch list \<Rightarrow> MatchingShard \<Rightarrow> (ShardStep, ShardError) result \<Rightarrow> bool" where
  "shard_step s waiting bs s' r \<longleftrightarrow> sh_route s' = sh_route s \<and>
     (case waiting of
        [] \<Rightarrow> r = Ok ShardIdle \<and> sh_engine s' = sh_engine s \<and> shard_holds s' [] bs
      | command # later \<Rightarrow>
          if command_instrument_id command \<noteq> ir_instrument_id (sh_route s)
          then r = Err (Misrouted (ir_instrument_id (sh_route s)) (command_instrument_id command)) \<and>
            sh_engine s' = sh_engine s \<and> shard_holds s' later bs
          else case check_sequence (ee_gateway (sh_engine s)) (command_sequence command) of
            Err err \<Rightarrow> r = Err (ShardEngine (EvGateway err)) \<and> sh_engine s' = sh_engine s \<and> shard_holds s' later bs
          | Ok _ \<Rightarrow>
              if length bs < ring_room (ee_ring (sh_engine s))
              then r = Ok (ShardProcessed (command_sequence command)) \<and> published (sh_engine s) bs command (sh_engine s') \<and>
                (\<exists>b. shard_holds s' later (bs @ [b]))
              else r = Err EventBackpressured \<and> unpublished (sh_engine s) bs (sh_engine s') \<and> shard_holds s' waiting bs)"

lemma shard_holds_engine: "shard_holds s waiting bs \<Longrightarrow> engine_inv e bs' \<Longrightarrow> shard_holds (s\<lparr>sh_engine := e\<rparr>) waiting bs'"
  by (auto simp: shard_holds_def)

lemma shard_holds_pending:
  "shard_holds s later bs \<Longrightarrow> sh_pending s = None \<Longrightarrow> engine_inv e bs \<Longrightarrow> shard_holds (s\<lparr>sh_engine := e, sh_pending := Some c\<rparr>) (c # later) bs"
  by (auto simp: shard_holds_def)

lemma try_process_effect:
  assumes holds: "shard_holds s waiting bs" and ok: "\<forall>c \<in> set waiting. command_ok c"
  shows "\<exists>s' r. try_process_one s = Some (s', r) \<and> shard_step s waiting bs s' r"
proof -
  from take_command_effect [OF holds] obtain s1 where
    s1: "take_command s = Some (s1, case waiting of [] \<Rightarrow> None | c # cs \<Rightarrow> Some c)" "shard_holds s1 (tl waiting) bs"
      "sh_pending s1 = None" "sh_route s1 = sh_route s" "sh_engine s1 = sh_engine s" by blast
  show ?thesis
  proof (cases waiting)
    case Nil
    with s1 show ?thesis by (simp add: try_process_one_def shard_step_def)
  next
    case (Cons c later)
    have inv: "engine_inv (sh_engine s) bs" using holds by (simp add: shard_holds_def)
    have eff: "command_ok c" using ok Cons by simp
    note eff = event_command_effect [OF inv this]
    show ?thesis
    proof (cases "command_instrument_id c = ir_instrument_id (sh_route s)")
      case False
      with Cons s1 show ?thesis by (simp add: try_process_one_def shard_step_def Let_def)
    next
      case inst: True
      show ?thesis
      proof (cases "check_sequence (ee_gateway (sh_engine s)) (command_sequence c)")
        case (Err err)
        with eff have e: "event_process_command (sh_engine s) c = Some (sh_engine s, Err (EvGateway err))" by simp
        have "shard_holds (s1\<lparr>sh_engine := sh_engine s\<rparr>) later bs" using shard_holds_engine [OF s1(2) inv] Cons by simp
        with Cons inst s1 e Err show ?thesis by (simp add: try_process_one_def shard_step_def Let_def)
      next
        case (Ok u)
        show ?thesis
        proof (cases "length bs < ring_room (ee_ring (sh_engine s))")
          case True
          with eff Ok obtain e where e: "event_process_command (sh_engine s) c = Some (e, Ok ())" "published (sh_engine s) bs c e" by auto
          then obtain b where "engine_inv e (bs @ [b])" unfolding published_def by blast
          with shard_holds_engine [OF s1(2)] Cons have "shard_holds (s1\<lparr>sh_engine := e\<rparr>) later (bs @ [b])" by simp
          with Cons inst s1 e Ok True show ?thesis by (auto simp: try_process_one_def shard_step_def Let_def)
        next
          case False
          with eff Ok obtain e where e: "event_process_command (sh_engine s) c = Some (e, Err Backpressured)" "unpublished (sh_engine s) bs e" by auto
          then have "engine_inv e bs" by (simp add: unpublished_def)
          with shard_holds_pending [OF s1(2,3)] Cons have "shard_holds (s1\<lparr>sh_engine := e, sh_pending := Some c\<rparr>) (c # later) bs" by simp
          with Cons inst s1 e Ok False show ?thesis by (simp add: try_process_one_def shard_step_def Let_def)
        qed
      qed
    qed
  qed
qed

section \<open>A shard over time\<close>

text \<open>
  The life of a shard: the router pushes commands of its instrument into the queue (some refused), the
  shard works, the consumer drains events, in any order. Beside the state, the commands the queue
  accepted and how many of them the shard has handled.
\<close>

definition consumed :: "(ShardStep, ShardError) result \<Rightarrow> nat" where
  "consumed r = (case r of Ok ShardIdle \<Rightarrow> 0 | Ok (ShardProcessed _) \<Rightarrow> 1 | Err EventBackpressured \<Rightarrow> 0 | Err _ \<Rightarrow> 1)"

inductive shard_run :: "nat \<Rightarrow> nat \<Rightarrow> Gateway \<Rightarrow> MatchingShard \<Rightarrow> Command list \<Rightarrow> nat \<Rightarrow> bool" for REPORTS BATCH g where
  shard_start: "gw_inv g \<Longrightarrow> ring_holds commands [] \<Longrightarrow> ring_holds events [] \<Longrightarrow>
    shard_try_new REPORTS BATCH route g commands events = Ok s \<Longrightarrow> shard_run REPORTS BATCH g s [] 0"
| shard_arrival: "shard_run REPORTS BATCH g s accepted n \<Longrightarrow> command_ok c \<Longrightarrow> command_instrument_id c = ir_instrument_id (sh_route s) \<Longrightarrow>
    ring_push (sh_commands s) c = Some (ring, r) \<Longrightarrow>
    shard_run REPORTS BATCH g (s\<lparr>sh_commands := ring\<rparr>) (accepted @ (case r of Ok _ \<Rightarrow> [c] | Err _ \<Rightarrow> [])) n"
| shard_work: "shard_run REPORTS BATCH g s accepted n \<Longrightarrow> try_process_one s = Some (s', r) \<Longrightarrow>
    shard_run REPORTS BATCH g s' accepted (n + consumed r)"
| shard_drain: "shard_run REPORTS BATCH g s accepted n \<Longrightarrow> ring_pop (ee_ring (sh_engine s)) = Some (ring, popped) \<Longrightarrow>
    shard_run REPORTS BATCH g (s\<lparr>sh_engine := (sh_engine s)\<lparr>ee_ring := ring\<rparr>\<rparr>) accepted n"

text \<open>The reference: one gateway processing a list of commands.\<close>

fun replay_commands :: "nat \<Rightarrow> Gateway \<Rightarrow> Command list \<Rightarrow> Gateway option" where
  "replay_commands REPORTS g [] = Some g"
| "replay_commands REPORTS g (c # cs) =
     do {
       (g, _, _) \<leftarrow> process_command g c (reports_new REPORTS);
       replay_commands REPORTS g cs
     }"

lemma replay_commands_append:
  "replay_commands REPORTS g (cs @ ds) = Option.bind (replay_commands REPORTS g cs) (\<lambda>g. replay_commands REPORTS g ds)"
  by (induction cs arbitrary: g) (auto split: Option.bind_splits)

definition shard_traces :: "nat \<Rightarrow> Gateway \<Rightarrow> MatchingShard \<Rightarrow> Command list \<Rightarrow> nat \<Rightarrow> bool" where
  "shard_traces REPORTS g s accepted n \<longleftrightarrow> n \<le> length accepted \<and>
     replay_commands REPORTS g (take n accepted) = Some (ee_gateway (sh_engine s)) \<and> ee_REPORTS (sh_engine s) = REPORTS \<and>
     (\<forall>c \<in> set accepted. command_ok c \<and> command_instrument_id c = ir_instrument_id (sh_route s)) \<and>
     (\<exists>bs. shard_holds s (drop n accepted) bs)"

lemma process_out_of_sequence:
  assumes inv: "gw_inv g" and c: "command_ok c" and seq: "check_sequence g (command_sequence c) = Err err"
  shows "\<exists>rb' r. process_command g c rb = Some (g, rb', r)"
proof -
  have "u64_ok (gw_expected_sequence g)" using inv by (simp add: gw_inv_def)
  note cases = check_sequence_cases [OF this, of "command_sequence c"]
  from process_command_effect [OF inv c, of rb] obtain g' rb' r where
    p: "process_command g c rb = Some (g', rb', r)" "advanced g (command_sequence c) g' rb rb' r" by blast
  with seq cases have "g' = g" by (auto simp: advanced_def split: if_splits)
  with p(1) show ?thesis by blast
qed

text \<open>One step of work, seen on the trace: the next command is handled as the gateway would.\<close>

lemma shard_work_traces:
  assumes tr: "shard_traces REPORTS g s accepted n" and step: "try_process_one s = Some (s', r)"
  shows "shard_traces REPORTS g s' accepted (n + consumed r) \<and> sh_route s' = sh_route s"
proof -
  from tr obtain bs where T: "n \<le> length accepted" "replay_commands REPORTS g (take n accepted) = Some (ee_gateway (sh_engine s))"
    "ee_REPORTS (sh_engine s) = REPORTS" "\<forall>c \<in> set accepted. command_ok c \<and> command_instrument_id c = ir_instrument_id (sh_route s)"
    "shard_holds s (drop n accepted) bs" unfolding shard_traces_def by blast
  have inv: "engine_inv (sh_engine s) bs" "gw_inv (ee_gateway (sh_engine s))" using T(5) by (auto simp: shard_holds_def engine_inv_def)
  have "\<forall>c \<in> set (drop n accepted). command_ok c" using T(4) by (meson in_set_dropD)
  from try_process_effect [OF T(5) this] step have st: "shard_step s (drop n accepted) bs s' r" by auto
  then have rt: "sh_route s' = sh_route s" by (simp add: shard_step_def)
  show ?thesis
  proof (cases "drop n accepted")
    case Nil
    with st T show ?thesis by (auto simp: shard_step_def shard_traces_def consumed_def)
  next
    case (Cons c later)
    then have less: "n < length accepted" by (metis drop_all list.distinct(1) not_less)
    with Cons have n: "n < length accepted" "accepted ! n = c" "drop (Suc n) accepted = later"
      by (simp_all add: Cons_nth_drop_Suc [symmetric])
    have c: "command_ok c" "command_instrument_id c = ir_instrument_id (sh_route s)" using T(4) n(1,2) nth_mem by blast+
    have take: "take (Suc n) accepted = take n accepted @ [c]" using n(1,2) by (simp add: take_Suc_conv_app_nth)
    have replay: "replay_commands REPORTS g (take (Suc n) accepted) = Some g'"
      if "process_command (ee_gateway (sh_engine s)) c (reports_new REPORTS) = Some (g', rb, q)" for g' rb q
      using that T(2) by (simp add: take replay_commands_append)
    show ?thesis
    proof (cases "check_sequence (ee_gateway (sh_engine s)) (command_sequence c)")
      case (Err err)
      from process_out_of_sequence [OF inv(2) c(1) Err, of "reports_new REPORTS"] replay
      have "replay_commands REPORTS g (take (Suc n) accepted) = Some (ee_gateway (sh_engine s))" by blast
      with st Err Cons c n T rt show ?thesis by (auto simp: shard_step_def shard_traces_def consumed_def)
    next
      case (Ok u)
      show ?thesis
      proof (cases "length bs < ring_room (ee_ring (sh_engine s))")
        case True
        with st Ok Cons c obtain b where p: "r = Ok (ShardProcessed (command_sequence c))" "published (sh_engine s) bs c (sh_engine s')"
          "shard_holds s' later (bs @ [b])" by (auto simp: shard_step_def)
        from p(2) replay T(3) have "replay_commands REPORTS g (take (Suc n) accepted) = Some (ee_gateway (sh_engine s'))"
          "ee_REPORTS (sh_engine s') = REPORTS" unfolding published_def by blast+
        with p(1,3) n T(4) rt show ?thesis by (auto simp: shard_traces_def consumed_def)
      next
        case False
        with st Ok Cons c T rt show ?thesis by (auto simp: shard_step_def shard_traces_def consumed_def unpublished_def same_engine_def)
      qed
    qed
  qed
qed

lemma shard_run_traces:
  assumes "shard_run REPORTS BATCH g s accepted n"
  shows "shard_traces REPORTS g s accepted n"
  using assms
proof induction
  case (shard_start commands events route s)
  then obtain e where e: "event_engine_try_new REPORTS BATCH g events = Ok e"
    "s = \<lparr>sh_route = route, sh_commands = commands, sh_engine = e, sh_pending = None\<rparr>"
    by (auto simp: shard_try_new_def split: if_splits result.splits)
  then have "engine_inv e []" "ee_gateway e = g" "ee_REPORTS e = REPORTS" using shard_start(1,3)
    by (auto simp: event_engine_try_new_def engine_inv_def U16_MAX_def U64_MAX_def split: if_splits)
  with e shard_start(2) show ?case by (auto simp: shard_traces_def shard_holds_def)
next
  case (shard_arrival s accepted n c ring r)
  then obtain bs where T: "n \<le> length accepted" "shard_holds s (drop n accepted) bs" unfolding shard_traces_def by blast
  then obtain q where q: "ring_holds (sh_commands s) q" "drop n accepted = (case sh_pending s of None \<Rightarrow> [] | Some c \<Rightarrow> [c]) @ q"
    unfolding shard_holds_def by blast
  have "ring_holds ring (q @ (case r of Ok _ \<Rightarrow> [c] | Err _ \<Rightarrow> []))"
    using ring.push_full [OF q(1), of c] ring.push_room [OF q(1), of c] shard_arrival.hyps(4) by (cases "length q = ring_room (sh_commands s)") auto
  with T q have "shard_holds (s\<lparr>sh_commands := ring\<rparr>) (drop n (accepted @ (case r of Ok _ \<Rightarrow> [c] | Err _ \<Rightarrow> []))) bs"
    by (auto simp: shard_holds_def)
  with shard_arrival.IH shard_arrival.hyps(2,3) show ?case by (auto simp: shard_traces_def split: result.splits)
next
  case (shard_work s accepted n s' r)
  then show ?case by (simp add: shard_work_traces)
next
  case (shard_drain s accepted n ring popped)
  then obtain bs where bs: "shard_holds s (drop n accepted) bs" unfolding shard_traces_def by blast
  then have h: "ring_holds (ee_ring (sh_engine s)) bs" "engine_inv (sh_engine s) bs" by (auto simp: shard_holds_def engine_inv_def)
  have "ring_holds ring (tl bs)"
    using h(1) ring.pop_empty [of "ee_ring (sh_engine s)"] ring.pop_front [of "ee_ring (sh_engine s)"] shard_drain.hyps(2)
    by (cases bs) fastforce+
  with h(2) have "engine_inv ((sh_engine s)\<lparr>ee_ring := ring\<rparr>) (tl bs)" by (simp add: engine_inv_def)
  from shard_holds_engine [OF bs this] shard_drain.IH show ?case by (auto simp: shard_traces_def)
qed

section \<open>A concrete table and shard\<close>

definition demo_routes :: "InstrumentRoute list" where
  "demo_routes = [\<lparr>ir_instrument_id = 7, ir_shard_id = 0\<rparr>, \<lparr>ir_instrument_id = 3, ir_shard_id = 1\<rparr>]"

lemma demo_table: "table_ok demo_routes" "\<exists>t. route_table_try_new demo_routes = Ok t \<and> table_rep t demo_routes"
proof -
  show "table_ok demo_routes" by (simp add: demo_routes_def table_ok_def)
  then show "\<exists>t. route_table_try_new demo_routes = Ok t \<and> table_rep t demo_routes" by (rule route_table_accepts)
qed

lemma demo_router:
  obtains m where "router_holds m demo_routes [[], []]" "map ring_room (mr_commands m) = [2, 2]" "mr_events m = []"
proof -
  from demo_table(2) obtain t where t: "table_rep t demo_routes" by blast
  from ring_new_holds [OF demo_ring(2)] obtain ring :: "Command Ring" where r: "ring_holds ring []" "ring_room ring = 2" by blast
  have "router_holds \<lparr>mr_routes = t, mr_commands = [ring, ring], mr_events = []\<rparr> demo_routes [[], []]"
    using t r by (simp add: router_holds_def demo_routes_def)
  with that r(2) show thesis by force
qed

lemma demo_shard:
  obtains s where "shard_run 4 8 demo_gateway s [] 0" "ir_instrument_id (sh_route s) = 3" "ring_room (sh_commands s) = 2"
    "ring_holds (sh_commands s) []"
proof -
  from ring_new_holds [OF demo_ring(2)] obtain commands :: "Command Ring" where c: "ring_holds commands []" "ring_room commands = 2" by blast
  from ring_new_holds [OF demo_ring(2)] obtain events :: "EventBatch Ring" where e: "ring_holds events []" "ring_room events = 2" by blast
  have g: "gw_inv demo_gateway" using gw_reachable_inv [OF demo_gateway_reachable demo_capacities] by blast
  let ?route = "\<lparr>ir_instrument_id = 3, ir_shard_id = 1\<rparr>"
  have "\<exists>s. shard_try_new 4 8 ?route demo_gateway commands events = Ok s \<and> sh_route s = ?route \<and> sh_commands s = commands"
    by (simp add: shard_try_new_def event_engine_try_new_def U16_MAX_def U64_MAX_def gateway_instrument_def demo_gateway_def gateway_new_def book_new_def)
  then obtain s where s: "shard_try_new 4 8 ?route demo_gateway commands events = Ok s" "sh_route s = ?route" "sh_commands s = commands" by blast
  from shard_start [OF g c(1) e(1) s(1)] that s(2,3) c show thesis by simp
qed

section \<open>Properties\<close>

text \<open>
  C33: the route table. It is built exactly when there are 1 to 65536 routes whose shard ids are
  distinct and below the number of routes and whose instruments are distinct; then, whether it
  answers by offset (dense) or by binary search, \<open>shard_for\<close> and \<open>instrument_for\<close> are the
  configured routes read in either direction, and every other instrument and shard has no answer.
\<close>
theorem route_table_exact:
  "((\<exists>t. route_table_try_new routes = Ok t) \<longleftrightarrow> table_ok routes) \<and>
   (\<forall>t. route_table_try_new routes = Ok t \<longrightarrow>
     (\<forall>k s. (shard_for t k = Some s \<longleftrightarrow> \<lparr>ir_instrument_id = k, ir_shard_id = s\<rparr> \<in> set routes) \<and>
       (instrument_for t s = Some k \<longleftrightarrow> \<lparr>ir_instrument_id = k, ir_shard_id = s\<rparr> \<in> set routes)))"
proof -
  have mem: "\<lparr>ir_instrument_id = k, ir_shard_id = s\<rparr> \<in> set routes \<longleftrightarrow> (\<exists>r \<in> set routes. ir_instrument_id r = k \<and> ir_shard_id r = s)" for k s
  proof
    assume "\<exists>r \<in> set routes. ir_instrument_id r = k \<and> ir_shard_id r = s"
    then obtain r :: InstrumentRoute where r: "r \<in> set routes" "ir_instrument_id r = k" "ir_shard_id r = s" by blast
    have "r = \<lparr>ir_instrument_id = k, ir_shard_id = s\<rparr>" using r(2,3) by simp
    with r(1) show "\<lparr>ir_instrument_id = k, ir_shard_id = s\<rparr> \<in> set routes" by simp
  qed (rule bexI, simp_all)
  have rep: "table_rep t routes" if "route_table_try_new routes = Ok t" for t
    using that route_table_accepts [of routes] route_table_rejects [of routes] by (cases "table_ok routes") auto
  show ?thesis
    using route_table_accepts [of routes] route_table_rejects [of routes] shard_for_iff [OF rep] instrument_for_iff [OF rep]
    unfolding mem by (metis result.distinct(1))
qed

theorem route_table_exact_witness:
  "\<exists>t. route_table_try_new demo_routes = Ok t \<and> shard_for t 3 = Some 1 \<and> instrument_for t 0 = Some 7 \<and> shard_for t 4 = None"
proof -
  from demo_table(2) obtain t where t: "route_table_try_new demo_routes = Ok t" by blast
  from route_table_exact [of demo_routes] t have
    "shard_for t k = Some s \<longleftrightarrow> \<lparr>ir_instrument_id = k, ir_shard_id = s\<rparr> \<in> set demo_routes"
    "instrument_for t s = Some k \<longleftrightarrow> \<lparr>ir_instrument_id = k, ir_shard_id = s\<rparr> \<in> set demo_routes" for k s by blast+
  moreover from this(1) [of 4] have "shard_for t 4 = None" by (cases "shard_for t 4") (auto simp: demo_routes_def)
  ultimately show ?thesis using t by (auto simp: demo_routes_def)
qed

text \<open>
  Commands reach their shard and no other. Routing a command never faults: an instrument without a
  route is refused and nothing changes; otherwise exactly the queue of the configured shard gets the
  command appended, or, when that queue is full, the command is refused as backpressured and every
  queue keeps its contents.
\<close>
theorem route_command_delivers:
  assumes "router_holds m routes qs"
  shows "\<exists>m' r. route_command m command = Some (m', r) \<and> routed m routes qs command m' r"
  using assms by (rule route_command_effect)

theorem route_command_delivers_witness:
  "\<exists>m m'. router_holds m demo_routes [[], []] \<and> route_command m (CmdNewOrder demo_buy) = Some (m', Ok 1) \<and>
     router_holds m' demo_routes [[], [CmdNewOrder demo_buy]]"
proof -
  obtain m where m: "router_holds m demo_routes [[], []]" "map ring_room (mr_commands m) = [2, 2]" "mr_events m = []" by (rule demo_router)
  from route_command_delivers [OF m(1), of "CmdNewOrder demo_buy"] obtain m' r where
    r: "route_command m (CmdNewOrder demo_buy) = Some (m', r)" "routed m demo_routes [[], []] (CmdNewOrder demo_buy) m' r" by blast
  have "table_rep (mr_routes m) demo_routes" using m(1) by (simp add: router_holds_def)
  from shard_for_iff [OF this, of 3 1] have "shard_for (mr_routes m) 3 = Some 1" by (simp add: demo_routes_def)
  moreover have "command_instrument_id (CmdNewOrder demo_buy) = 3" by (simp add: demo_buy_def)
  moreover have "length (mr_commands m) = 2" using arg_cong [OF m(2), of length] by simp
  then have "ring_room (mr_commands m ! 1) = 2" using m(2) nth_map [of 1 "mr_commands m" ring_room] by simp
  ultimately have "r = Ok 1 \<and> router_holds m' demo_routes [[], [CmdNewOrder demo_buy]]" using r(2) by (simp add: routed_def)
  with m(1) r(1) show ?thesis by blast
qed

text \<open>
  C31: a shard is its gateway run on the accepted commands. However arrivals, work and event draining
  interleave, backpressure included, the commands the queue accepted are handled in order, each once:
  the shard's gateway is the one obtained by processing the handled prefix directly, and the next
  call handles the next command whenever the event queue has room, without a misroute.
\<close>
theorem shard_replays_gateway:
  assumes "shard_run REPORTS BATCH g s accepted n"
  shows "n \<le> length accepted \<and> replay_commands REPORTS g (take n accepted) = Some (ee_gateway (sh_engine s)) \<and>
    (\<exists>bs s' r. ring_holds (ee_ring (sh_engine s)) bs \<and> try_process_one s = Some (s', r) \<and>
      (\<forall>expected received. r \<noteq> Err (Misrouted expected received)) \<and>
      (n < length accepted \<longrightarrow> length bs < ring_room (ee_ring (sh_engine s)) \<longrightarrow> consumed r = 1))"
proof -
  note tr = shard_run_traces [OF assms]
  then obtain bs where T: "n \<le> length accepted" "replay_commands REPORTS g (take n accepted) = Some (ee_gateway (sh_engine s))"
    "\<forall>c \<in> set accepted. command_ok c \<and> command_instrument_id c = ir_instrument_id (sh_route s)"
    "shard_holds s (drop n accepted) bs" unfolding shard_traces_def by blast
  have dr: "\<forall>c \<in> set (drop n accepted). command_ok c" "\<forall>c \<in> set (drop n accepted). command_instrument_id c = ir_instrument_id (sh_route s)"
    using T(3) by (meson in_set_dropD)+
  from try_process_effect [OF T(4) dr(1)] obtain s' r where st: "try_process_one s = Some (s', r)" "shard_step s (drop n accepted) bs s' r" by blast
  have h: "ring_holds (ee_ring (sh_engine s)) bs" using T(4) by (simp add: shard_holds_def engine_inv_def)
  have "(\<forall>expected received. r \<noteq> Err (Misrouted expected received)) \<and>
      (n < length accepted \<longrightarrow> length bs < ring_room (ee_ring (sh_engine s)) \<longrightarrow> consumed r = 1)"
  proof (cases "drop n accepted")
    case Nil
    with st(2) show ?thesis by (auto simp: shard_step_def)
  next
    case (Cons c later)
    with dr(2) have "command_instrument_id c = ir_instrument_id (sh_route s)" by simp
    with st(2) Cons show ?thesis by (auto simp: shard_step_def consumed_def split: result.splits if_splits)
  qed
  with T(1,2) h st(1) show ?thesis by blast
qed

theorem shard_replays_gateway_witness:
  "\<exists>s s' r. shard_run 4 8 demo_gateway s [CmdNewOrder demo_buy] 0 \<and> try_process_one s = Some (s', r) \<and>
     (\<forall>expected received. r \<noteq> Err (Misrouted expected received))"
proof -
  from demo_shard obtain s where s: "shard_run 4 8 demo_gateway s [] 0" "ir_instrument_id (sh_route s) = 3" "ring_room (sh_commands s) = 2"
    "ring_holds (sh_commands s) []" by blast
  from ring.push_room [OF s(4), of "CmdNewOrder demo_buy"] s(3) obtain ring where
    "ring_push (sh_commands s) (CmdNewOrder demo_buy) = Some (ring, Ok ())" by auto
  from shard_arrival [OF s(1) _ _ this] s(2) demo_buy_widths
  have "shard_run 4 8 demo_gateway (s\<lparr>sh_commands := ring\<rparr>) [CmdNewOrder demo_buy] 0" by (simp add: demo_buy_def)
  with shard_replays_gateway [OF this] show ?thesis by blast
qed

end
