(* ===== verification/ModelBook.thy ===== *)
theory ModelBook
  imports BookProps Lockstep
begin

text \<open>
  The reference book of \<open>crates/hft-model/src/lib.rs\<close>, which the property tests of the program run beside
  the order book: each side is a vector of levels in no particular order, each level a price and a
  dense queue. Lookups that \<open>expect\<close> a result are \<open>None\<close> when there is none.
\<close>

section \<open>Data\<close>

record ModelOrder =
  mo_id :: OrderId
  mo_account :: AccountId
  mo_quantity :: nat
  mo_sequence :: nat

type_synonym ModelLevels = "(PriceTicks \<times> ModelOrder list) list"

record ModelFill =
  mf_maker_order_id :: OrderId
  mf_price :: PriceTicks
  mf_quantity :: Quantity

record ModelBook =
  mb_bids :: ModelLevels
  mb_asks :: ModelLevels

text \<open>The match on the side that the operations start with, and the assignment through it.\<close>

definition levels_of :: "ModelBook \<Rightarrow> Side \<Rightarrow> ModelLevels" where
  "levels_of mb side = (case side of Buy \<Rightarrow> mb_bids mb | Sell \<Rightarrow> mb_asks mb)"

definition set_levels :: "ModelBook \<Rightarrow> Side \<Rightarrow> ModelLevels \<Rightarrow> ModelBook" where
  "set_levels mb side levels = (case side of Buy \<Rightarrow> mb\<lparr>mb_bids := levels\<rparr> | Sell \<Rightarrow> mb\<lparr>mb_asks := levels\<rparr>)"

text \<open>\<open>Iterator::position\<close>, \<open>Vec::remove\<close> and \<open>VecDeque::remove\<close>.\<close>

fun position :: "('a \<Rightarrow> bool) \<Rightarrow> 'a list \<Rightarrow> nat option" where
  "position P [] = None"
| "position P (x # xs) = (if P x then Some 0 else map_option Suc (position P xs))"

definition remove_at :: "nat \<Rightarrow> 'a list \<Rightarrow> 'a list" where
  "remove_at i xs = take i xs @ drop (Suc i) xs"

section \<open>Submission\<close>

fun simulate_queue :: "nat \<Rightarrow> nat \<Rightarrow> ModelOrder list \<Rightarrow> nat \<times> nat \<times> bool" where
  "simulate_queue remaining report_count [] = (remaining, report_count, False)"
| "simulate_queue remaining report_count (maker # queue) =
     (if remaining = 0 then (remaining, report_count, True)
      else simulate_queue (remaining - min remaining (mo_quantity maker)) (report_count + 1) queue)"

fun simulate :: "ModelLevels \<Rightarrow> nat \<Rightarrow> nat \<Rightarrow> PriceTicks list \<Rightarrow> (nat \<times> nat) option" where
  "simulate levels remaining report_count [] = Some (remaining, report_count)"
| "simulate levels remaining report_count (price # prices) =
     (case find (\<lambda>l. fst l = price) levels of
        None \<Rightarrow> None
      | Some (_, queue) \<Rightarrow>
          (case simulate_queue remaining report_count queue of
             (remaining, report_count, broken) \<Rightarrow>
               if broken then Some (remaining, report_count) else simulate levels remaining report_count prices))"

definition crossing_prices :: "ModelLevels \<Rightarrow> Side \<Rightarrow> PriceTicks \<Rightarrow> PriceTicks list" where
  "crossing_prices maker_levels side limit =
     (let crossing = sort (filter (\<lambda>price. case side of Buy \<Rightarrow> price \<le> limit | Sell \<Rightarrow> price \<ge> limit) (map fst maker_levels))
      in if side = Sell then rev crossing else crossing)"

definition model_rest_check :: "ModelLevels \<Rightarrow> PriceTicks \<Rightarrow> nat \<Rightarrow> nat \<Rightarrow> (unit, RejectReason) result" where
  "model_rest_check own_levels price level_cap order_cap =
     (case find (\<lambda>l. fst l = price) own_levels of
        Some (_, queue) \<Rightarrow> if length queue = order_cap then Err PriceLevelOrderCapacity else Ok ()
      | None \<Rightarrow> if length own_levels = level_cap then Err PriceLevelCapacity else Ok ())"

definition model_plan :: "ModelBook \<Rightarrow> NewOrder \<Rightarrow> nat \<Rightarrow> nat \<Rightarrow> nat \<Rightarrow> (PriceTicks list, RejectReason) result option" where
  "model_plan mb order report_capacity level_cap order_cap =
     (if no_price order \<le> 0 then Some (Err InvalidPrice)
      else if no_quantity order = 0 then Some (Err InvalidQuantity)
      else if \<exists>resting \<in> set (concat (map snd (mb_bids mb @ mb_asks mb))). mo_id resting = no_order_id order
      then Some (Err DuplicateOrderId)
      else let maker_levels = levels_of mb (opposite (no_side order)); own_levels = levels_of mb (no_side order);
               crossing = crossing_prices maker_levels (no_side order) (no_price order) in
      if no_time_in_force order = PostOnly \<and> crossing \<noteq> [] then Some (Err PostOnlyWouldTrade)
      else do {
        (remaining, report_count) \<leftarrow> simulate maker_levels (no_quantity order) 0 crossing;
        Some (if report_count > report_capacity then Err ReportCapacity
              else case no_time_in_force order of
                Fok \<Rightarrow> if remaining > 0 then Err InsufficientLiquidity else Ok crossing
              | Ioc \<Rightarrow> Ok crossing
              | _ \<Rightarrow>
                  and_then (if remaining > 0 then model_rest_check own_levels (no_price order) level_cap order_cap else Ok ())
                    (\<lambda>_. Ok crossing))
      })"

function fill_queue :: "PriceTicks \<Rightarrow> nat \<Rightarrow> ModelOrder list \<Rightarrow> ModelFill list \<Rightarrow> nat \<times> ModelOrder list \<times> ModelFill list" where
  "fill_queue price remaining queue fills =
     (if remaining = 0 then (remaining, queue, fills)
      else case queue of
        [] \<Rightarrow> (remaining, queue, fills)
      | front # behind \<Rightarrow>
          let traded = min remaining (mo_quantity front);
              fills = fills @ [\<lparr>mf_maker_order_id = mo_id front, mf_price = price, mf_quantity = traded\<rparr>];
              remaining = remaining - traded;
              front = front\<lparr>mo_quantity := mo_quantity front - traded\<rparr> in
          if mo_quantity front = 0 then fill_queue price remaining behind fills
          else fill_queue price remaining (front # behind) fills)"
  by pat_completeness auto
termination
  by (relation "measure (\<lambda>(price, remaining, queue, fills). length queue + (if remaining = 0 then 0 else 1))") (auto simp: min_def split: if_splits)

declare fill_queue.simps [simp del]

fun fill_levels :: "ModelLevels \<Rightarrow> nat \<Rightarrow> ModelFill list \<Rightarrow> PriceTicks list \<Rightarrow> (ModelLevels \<times> nat \<times> ModelFill list) option" where
  "fill_levels levels remaining fills [] = Some (levels, remaining, fills)"
| "fill_levels levels remaining fills (price # prices) =
     (if remaining = 0 then Some (levels, remaining, fills)
      else case position (\<lambda>l. fst l = price) levels of
        None \<Rightarrow> None
      | Some i \<Rightarrow>
          (case fill_queue price remaining (snd (levels ! i)) fills of
             (remaining, queue, fills) \<Rightarrow>
               fill_levels (if queue = [] then remove_at i levels else levels[i := (fst (levels ! i), queue)]) remaining fills prices))"

definition push_back :: "ModelLevels \<Rightarrow> PriceTicks \<Rightarrow> ModelOrder \<Rightarrow> ModelLevels" where
  "push_back levels price resting =
     (case position (\<lambda>l. fst l = price) levels of
        Some i \<Rightarrow> levels[i := (fst (levels ! i), snd (levels ! i) @ [resting])]
      | None \<Rightarrow> levels @ [(price, [resting])])"

definition model_submit :: "ModelBook \<Rightarrow> NewOrder \<Rightarrow> nat \<Rightarrow> nat \<Rightarrow> nat
    \<Rightarrow> (ModelBook \<times> OrderState \<times> Quantity \<times> Quantity \<times> Quantity \<times> ModelFill list, RejectReason) result option" where
  "model_submit mb order report_capacity level_cap order_cap =
     do {
       plan \<leftarrow> model_plan mb order report_capacity level_cap order_cap;
       (case plan of
          Err e \<Rightarrow> Some (Err e)
        | Ok crossing \<Rightarrow> do {
            (maker_levels, remaining, fills) \<leftarrow>
              fill_levels (levels_of mb (opposite (no_side order))) (no_quantity order) [] crossing;
            let mb = set_levels mb (opposite (no_side order)) maker_levels;
            let (mb, remaining, discarded) =
                  (if remaining > 0 \<and> (no_time_in_force order = Gtc \<or> no_time_in_force order = PostOnly)
                   then (set_levels mb (no_side order) (push_back (levels_of mb (no_side order)) (no_price order)
                           \<lparr>mo_id = no_order_id order, mo_account = no_account_id order, mo_quantity = remaining,
                            mo_sequence = no_sequence order\<rparr>), remaining, 0)
                   else if no_time_in_force order = Ioc then (mb, 0, remaining)
                   else (mb, remaining, 0));
            let filled_quantity = no_quantity order - remaining - discarded;
            let state = (if filled_quantity = no_quantity order then Filled
                         else if filled_quantity = 0 then Accepted else PartiallyFilled);
            Some (Ok (mb, state, filled_quantity, remaining, discarded, fills))
          })
     }"

section \<open>Cancel and replace\<close>

fun cancel_from :: "ModelLevels \<Rightarrow> CancelOrder \<Rightarrow> nat list \<Rightarrow> (ModelLevels \<times> OrderId \<times> AccountId \<times> nat, RejectReason) result option" where
  "cancel_from levels c [] = None"
| "cancel_from levels c (i # positions) =
     (case position (\<lambda>order. mo_id order = co_order_id c) (snd (levels ! i)) of
        None \<Rightarrow> cancel_from levels c positions
      | Some index \<Rightarrow>
          let order = snd (levels ! i) ! index; queue = remove_at index (snd (levels ! i)) in
          Some (if mo_account order \<noteq> co_account_id c then Err NotOrderOwner
                else Ok (if queue = [] then remove_at i levels else levels[i := (fst (levels ! i), queue)],
                         mo_id order, mo_account order, mo_quantity order)))"

definition model_cancel :: "ModelBook \<Rightarrow> CancelOrder \<Rightarrow> (ModelBook \<times> OrderId \<times> AccountId \<times> nat, RejectReason) result" where
  "model_cancel mb c =
     (case cancel_from (mb_bids mb) c [0..<length (mb_bids mb)] of
        Some r \<Rightarrow> and_then r (\<lambda>(levels, out). Ok (mb\<lparr>mb_bids := levels\<rparr>, out))
      | None \<Rightarrow>
          (case cancel_from (mb_asks mb) c [0..<length (mb_asks mb)] of
             Some r \<Rightarrow> and_then r (\<lambda>(levels, out). Ok (mb\<lparr>mb_asks := levels\<rparr>, out))
           | None \<Rightarrow> Err UnknownOrder))"

definition find_in :: "ModelLevels \<Rightarrow> OrderId \<Rightarrow> nat option" where
  "find_in levels k = position (\<lambda>l. \<exists>order \<in> set (snd l). mo_id order = k) levels"

text \<open>The price that \<open>min_by\<close> selects: the lowest against a buy, the highest against a sell.\<close>

definition opposing_best :: "Side \<Rightarrow> ModelLevels \<Rightarrow> PriceTicks option" where
  "opposing_best side opposing =
     (if opposing = [] then None
      else Some (if side = Buy then Min (set (map fst opposing)) else Max (set (map fst opposing))))"

definition replace_would_cross :: "ModelBook \<Rightarrow> Side \<Rightarrow> PriceTicks \<Rightarrow> bool" where
  "replace_would_cross mb side price =
     (case opposing_best side (levels_of mb (opposite side)) of
        None \<Rightarrow> False
      | Some best \<Rightarrow> if side = Buy then price \<ge> best else price \<le> best)"

definition model_replace_room :: "ModelLevels \<Rightarrow> nat \<Rightarrow> PriceTicks \<Rightarrow> nat \<Rightarrow> nat \<Rightarrow> (unit, RejectReason) result" where
  "model_replace_room levels i price level_cap order_cap =
     (case position (\<lambda>l. fst l = price) levels of
        Some dest_index \<Rightarrow>
          let same_level = (dest_index = i \<and> price = fst (levels ! i)) in
          if length (snd (levels ! dest_index)) = order_cap \<and> \<not> same_level then Err PriceLevelOrderCapacity else Ok ()
      | None \<Rightarrow>
          let source_empties = (length (snd (levels ! i)) = 1) in
          if length levels = level_cap \<and> \<not> source_empties then Err PriceLevelCapacity else Ok ())"

definition model_replace :: "ModelBook \<Rightarrow> ReplaceOrder \<Rightarrow> nat \<Rightarrow> nat \<Rightarrow> (ModelBook \<times> nat \<times> bool, RejectReason) result option" where
  "model_replace mb r level_cap order_cap =
     (if ro_price r \<le> 0 then Some (Err InvalidPrice)
      else if ro_quantity r = 0 then Some (Err InvalidQuantity)
      else case (case find_in (mb_bids mb) (ro_order_id r) of
                   Some i \<Rightarrow> Some (Buy, i)
                 | None \<Rightarrow> map_option (Pair Sell) (find_in (mb_asks mb) (ro_order_id r))) of
        None \<Rightarrow> Some (Err UnknownOrder)
      | Some (side, i) \<Rightarrow> do {
          let levels = levels_of mb side;
          let level_price = fst (levels ! i);
          queue_position \<leftarrow> position (\<lambda>order. mo_id order = ro_order_id r) (snd (levels ! i));
          let row = snd (levels ! i) ! queue_position;
          let old_quantity = mo_quantity row;
          let priority_kept = (ro_price r = level_price \<and> ro_quantity r < old_quantity);
          Some (if mo_account row \<noteq> ro_account_id r then Err NotOrderOwner
            else if \<not> priority_kept \<and> ro_price r \<noteq> level_price \<and> replace_would_cross mb side (ro_price r) then Err ReplaceWouldCross
            else and_then (if priority_kept then Ok () else model_replace_room levels i (ro_price r) level_cap order_cap) (\<lambda>_.
              let levels = (if priority_kept
                  then levels[i := (level_price, (snd (levels ! i))[queue_position := row\<lparr>mo_quantity := ro_quantity r\<rparr>])]
                  else let queue = remove_at queue_position (snd (levels ! i));
                           levels = (if queue = [] then remove_at i levels else levels[i := (level_price, queue)])
                       in push_back levels (ro_price r) \<lparr>mo_id = ro_order_id r, mo_account = ro_account_id r,
                            mo_quantity = ro_quantity r, mo_sequence = ro_sequence r\<rparr>)
              in Ok (set_levels mb side levels, old_quantity, \<not> priority_kept)))
        })"

section \<open>The dump\<close>

definition dump_levels :: "Side \<Rightarrow> ModelLevels \<Rightarrow> (Side \<times> PriceTicks \<times> OrderId \<times> nat \<times> nat) list option" where
  "dump_levels side levels =
     map_option concat (those (map (\<lambda>price.
       map_option (\<lambda>l. map (\<lambda>order. (side, price, mo_id order, mo_quantity order, mo_sequence order)) (snd l))
         (find (\<lambda>l. fst l = price) levels)) (sort (map fst levels))))"

definition dump_model :: "ModelBook \<Rightarrow> (Side \<times> PriceTicks \<times> OrderId \<times> nat \<times> nat) list option" where
  "dump_model mb =
     do {
       bids \<leftarrow> dump_levels Buy (mb_bids mb);
       asks \<leftarrow> dump_levels Sell (mb_asks mb);
       Some (bids @ asks)
     }"

end
