(* ===== verification/ModelBookMatch.thy ===== *)
theory ModelBookMatch
  imports ModelBook
begin

text \<open>
  Submission to the reference book. A vector of levels mirrors a side in priority order when its queue
  at every price is what the side holds at that price; the simulation and the filling of the crossing
  levels are the matching of the specification, and a submission keeps the relation with the answer
  the specification gives.
\<close>

section \<open>Vectors of levels\<close>

definition model_view :: "ModelOrder \<Rightarrow> Order" where
  "model_view x = \<lparr>o_id = mo_id x, o_account = mo_account x, o_quantity = mo_quantity x, o_sequence = mo_sequence x\<rparr>"

lemma model_view_simps [simp]: "o_id (model_view x) = mo_id x" "o_account (model_view x) = mo_account x"
  "o_quantity (model_view x) = mo_quantity x" "o_sequence (model_view x) = mo_sequence x"
  "model_view (x\<lparr>mo_quantity := q\<rparr>) = (model_view x)\<lparr>o_quantity := q\<rparr>"
  "model_view \<lparr>mo_id = k, mo_account = a, mo_quantity = q, mo_sequence = n\<rparr> = \<lparr>o_id = k, o_account = a, o_quantity = q, o_sequence = n\<rparr>"
  by (simp_all add: model_view_def)

definition queue_of :: "ModelLevels \<Rightarrow> PriceTicks \<Rightarrow> ModelOrder list" where
  "queue_of levels p = (case map_of levels p of None \<Rightarrow> [] | Some q \<Rightarrow> q)"

definition levels_ok :: "ModelLevels \<Rightarrow> bool" where
  "levels_ok levels \<longleftrightarrow> distinct (map fst levels) \<and> (\<forall>l \<in> set levels. snd l \<noteq> [])"

lemma find_level: "find (\<lambda>l. fst l = p) levels = map_option (Pair p) (map_of levels p)"
  by (induction levels) auto

lemma position_Some: "position P xs = Some i \<Longrightarrow> i < length xs \<and> P (xs ! i) \<and> (\<forall>j < i. \<not> P (xs ! j))"
  by (induction xs arbitrary: i) (auto simp: nth_Cons less_Suc_eq_0_disj split: if_splits nat.splits)

lemma position_None: "position P xs = None \<longleftrightarrow> (\<forall>x \<in> set xs. \<not> P x)"
  by (induction xs) auto

lemma position_unique:
  assumes "i < length xs" and "P (xs ! i)" and "\<And>j. j < length xs \<Longrightarrow> P (xs ! j) \<Longrightarrow> j = i"
  shows "position P xs = Some i"
proof (cases "position P xs")
  case None
  with assms(1,2) show ?thesis by (auto simp: position_None)
next
  case (Some j)
  with position_Some [OF Some] assms(3) show ?thesis by auto
qed

lemma levels_ok_nth:
  assumes "levels_ok levels" and "i < length levels"
  shows "queue_of levels (fst (levels ! i)) = snd (levels ! i)" and "position (\<lambda>l. fst l = fst (levels ! i)) levels = Some i"
    and "snd (levels ! i) \<noteq> []"
proof -
  have d: "distinct (map fst levels)" using assms(1) by (simp add: levels_ok_def)
  show "queue_of levels (fst (levels ! i)) = snd (levels ! i)"
    using map_of_is_SomeI [OF d, of "fst (levels ! i)" "snd (levels ! i)"] assms(2) by (simp add: queue_of_def)
  show "position (\<lambda>l. fst l = fst (levels ! i)) levels = Some i"
    using d assms(2) by (intro position_unique) (auto simp: distinct_conv_nth)
  show "snd (levels ! i) \<noteq> []" using assms by (auto simp: levels_ok_def)
qed

lemma queue_of_empty: "levels_ok levels \<Longrightarrow> queue_of levels p = [] \<longleftrightarrow> p \<notin> fst ` set levels"
proof -
  assume ok: "levels_ok levels"
  show ?thesis
  proof (cases "p \<in> fst ` set levels")
    case True
    then obtain i where "i < length levels" "fst (levels ! i) = p" by (auto simp: in_set_conv_nth)
    with levels_ok_nth [OF ok, of i] True show ?thesis by auto
  qed (simp add: queue_of_def map_of_eq_None_iff [THEN iffD2])
qed

lemma position_price:
  assumes ok: "levels_ok levels"
  shows "position (\<lambda>l. fst l = p) levels = Some i \<Longrightarrow> i < length levels \<and> fst (levels ! i) = p \<and> snd (levels ! i) = queue_of levels p"
    and "position (\<lambda>l. fst l = p) levels = None \<longleftrightarrow> queue_of levels p = []"
proof -
  show "i < length levels \<and> fst (levels ! i) = p \<and> snd (levels ! i) = queue_of levels p" if "position (\<lambda>l. fst l = p) levels = Some i"
    using position_Some [OF that] levels_ok_nth(1) [OF ok, of i] by auto
  show "position (\<lambda>l. fst l = p) levels = None \<longleftrightarrow> queue_of levels p = []"
    using queue_of_empty [OF ok] by (auto simp: position_None)
qed

text \<open>Replacing the queue of a level, and dropping the level when the queue is empty.\<close>

definition put_queue :: "ModelLevels \<Rightarrow> nat \<Rightarrow> ModelOrder list \<Rightarrow> ModelLevels" where
  "put_queue levels i queue = (if queue = [] then remove_at i levels else levels[i := (fst (levels ! i), queue)])"

lemma put_queue_effect:
  assumes ok: "levels_ok levels" and i: "i < length levels"
  shows "levels_ok (put_queue levels i queue) \<and> queue_of (put_queue levels i queue) = (queue_of levels)(fst (levels ! i) := queue)"
proof -
  obtain pre p q post where l: "levels = pre @ (p, q) # post" "length pre = i"
    using id_take_nth_drop [OF i] i by (metis length_take min.absorb2 nat_less_le surj_pair)
  have d: "distinct (map fst pre)" "distinct (map fst post)" "p \<notin> fst ` set pre" "p \<notin> fst ` set post" "fst ` set pre \<inter> fst ` set post = {}"
    using ok l(1) by (auto simp: levels_ok_def)
  have none: "map_of pre p = None" "map_of post p = None" using d(3,4) by (simp_all add: map_of_eq_None_iff)
  have put: "put_queue levels i queue = pre @ (if queue = [] then [] else [(p, queue)]) @ post"
    unfolding l(2) [symmetric] by (simp add: l(1) put_queue_def remove_at_def)
  have "queue_of (put_queue levels i queue) x = ((queue_of levels)(fst (levels ! i) := queue)) x" for x
    unfolding put using l none by (auto simp: queue_of_def map_add_def split: option.splits)
  moreover have "levels_ok (put_queue levels i queue)" unfolding put using ok l(1) by (auto simp: levels_ok_def)
  ultimately show ?thesis by blast
qed

lemma push_back_effect:
  assumes ok: "levels_ok levels"
  shows "levels_ok (push_back levels p x) \<and> queue_of (push_back levels p x) = (queue_of levels)(p := queue_of levels p @ [x])"
proof (cases "position (\<lambda>l. fst l = p) levels")
  case None
  then have "p \<notin> fst ` set levels" by (auto simp: position_None)
  moreover from this have "map_of levels p = None" by (simp add: map_of_eq_None_iff)
  ultimately show ?thesis using ok None
    by (auto simp: push_back_def levels_ok_def queue_of_def map_add_def fun_eq_iff split: option.splits)
next
  case (Some i)
  note i = position_price(1) [OF ok Some]
  have "push_back levels p x = put_queue levels i (queue_of levels p @ [x])" using Some i by (simp add: push_back_def put_queue_def)
  with put_queue_effect [OF ok, of i "queue_of levels p @ [x]"] i show ?thesis by simp
qed

section \<open>Mirrored sides\<close>

definition side_mirrors :: "ModelLevels \<Rightarrow> plist \<Rightarrow> bool" where
  "side_mirrors levels xs \<longleftrightarrow> levels_ok levels \<and> (\<forall>p. map model_view (queue_of levels p) = map snd (filter (\<lambda>e. fst e = p) xs))"

lemma side_mirrorsD: "side_mirrors levels xs \<Longrightarrow> levels_ok levels"
  "side_mirrors levels xs \<Longrightarrow> map model_view (queue_of levels p) = map snd (filter (\<lambda>e. fst e = p) xs)"
  by (simp_all add: side_mirrors_def)

lemma mirrors_prices: "side_mirrors levels xs \<Longrightarrow> fst ` set levels = fst ` set xs"
proof -
  assume m: "side_mirrors levels xs"
  have "p \<in> fst ` set levels \<longleftrightarrow> p \<in> fst ` set xs" for p
  proof -
    have "p \<notin> fst ` set levels \<longleftrightarrow> map model_view (queue_of levels p) = []" using queue_of_empty [OF side_mirrorsD(1) [OF m]] by simp
    also have "\<dots> \<longleftrightarrow> p \<notin> fst ` set xs" unfolding side_mirrorsD(2) [OF m] by (auto simp: filter_empty_conv)
    finally show ?thesis by blast
  qed
  then show ?thesis by blast
qed

lemma mirrors_depth: "side_mirrors levels xs \<Longrightarrow> depth p xs = length (queue_of levels p)"
  using arg_cong [OF side_mirrorsD(2), of levels xs length p] by (simp add: depth_def)

lemma mirrors_level_count: "side_mirrors levels xs \<Longrightarrow> level_count xs = length levels"
proof -
  assume m: "side_mirrors levels xs"
  have "level_count xs = card (fst ` set xs)" by (simp add: level_count_def length_remdups_card_conv)
  also have "\<dots> = card (fst ` set levels)" using mirrors_prices [OF m] by simp
  also have "\<dots> = length levels" using side_mirrorsD(1) [OF m] using distinct_card [of "map fst levels"] by (simp add: levels_ok_def)
  finally show ?thesis .
qed

lemma mirrors_members: "side_mirrors levels xs \<Longrightarrow> (p, y) \<in> set xs \<longleftrightarrow> y \<in> model_view ` set (queue_of levels p)"
proof -
  assume m: "side_mirrors levels xs"
  from arg_cong [OF side_mirrorsD(2) [OF m], of set p] have "model_view ` set (queue_of levels p) = snd ` {e \<in> set xs. fst e = p}" by simp
  then show ?thesis by force
qed

lemma filter_enqueue:
  assumes "prio_sorted d xs"
  shows "filter (\<lambda>e. fst e = q) (enqueue d p x xs) = filter (\<lambda>e. fst e = q) xs @ (if q = p then [(p, x)] else [])"
proof -
  let ?P = "\<lambda>e. \<not> before d p (fst e)"
  have split: "filter (\<lambda>e. fst e = q) xs = filter (\<lambda>e. fst e = q) (takeWhile ?P xs) @ filter (\<lambda>e. fst e = q) (dropWhile ?P xs)"
    by (metis filter_append takeWhile_dropWhile_id)
  have later: "before d p (fst e)" if "e \<in> set (dropWhile ?P xs)" for e
    using assms that
  proof (induction xs)
    case (Cons f xs)
    show ?case
    proof (cases "?P f")
      case False
      with Cons.prems have "\<not> before d (fst e) (fst f)" "before d p (fst f)" by (auto simp: prio_sorted_def before_def)
      then show ?thesis by (auto simp: before_def split: if_splits)
    qed (use Cons in \<open>auto simp: prio_sorted_def\<close>)
  qed simp
  have "filter (\<lambda>e. fst e = p) (dropWhile ?P xs) = []"
  proof (unfold filter_empty_conv, intro ballI notI)
    fix e assume "e \<in> set (dropWhile ?P xs)" and "fst e = p"
    with later [of e] show False by (simp add: before_def split: if_splits)
  qed
  then show ?thesis using split by (cases "q = p") (simp_all add: enqueue_def)
qed

lemma mirrors_enqueue:
  assumes "side_mirrors levels xs" and "prio_sorted d xs"
  shows "side_mirrors (push_back levels p x) (enqueue d p (model_view x) xs)"
  using assms push_back_effect [OF side_mirrorsD(1) [OF assms(1)], of p x] by (simp add: side_mirrors_def filter_enqueue)

section \<open>Matching\<close>

definition model_fill :: "PriceTicks \<times> OrderId \<times> Quantity \<Rightarrow> ModelFill" where
  "model_fill f = (case f of (p, k, q) \<Rightarrow> \<lparr>mf_maker_order_id = k, mf_price = p, mf_quantity = q\<rparr>)"

text \<open>The queue of a price as part of a side, and the queues of several prices in a row.\<close>

abbreviation priced :: "PriceTicks \<Rightarrow> ModelOrder list \<Rightarrow> plist" where
  "priced p q \<equiv> map (\<lambda>x. (p, model_view x)) q"

definition groups :: "ModelLevels \<Rightarrow> PriceTicks list \<Rightarrow> plist" where
  "groups levels ps = concat (map (\<lambda>p. priced p (queue_of levels p)) ps)"

text \<open>Matching of a list whose head part leaves \<open>n\<close>, continued on the rest.\<close>

definition continued :: "Side \<Rightarrow> PriceTicks \<Rightarrow> (PriceTicks \<times> OrderId \<times> Quantity) list \<Rightarrow> plist \<Rightarrow> nat \<Rightarrow> plist
    \<Rightarrow> (PriceTicks \<times> OrderId \<times> Quantity) list \<times> plist \<times> nat" where
  "continued side limit fs zs n ys = (case match_list side limit n ys of (fs', ys', left) \<Rightarrow> (fs @ fs', zs @ ys', left))"

lemma continued_simps [simp]:
  "continued side limit fs zs 0 ys = (fs, zs @ ys, 0)"
  "continued side limit [] [] n ys = match_list side limit n ys"
  "(case continued side limit fs zs n ys of (fs', r) \<Rightarrow> (f # fs', r)) = continued side limit (f # fs) zs n ys"
  by (simp_all add: continued_def match_list_none_left split: prod.splits)

lemma continued_continued:
  "match_list side limit n (xs @ ys) = continued side limit fs' zs' n' ys \<Longrightarrow>
   continued side limit fs zs n (xs @ ys) = continued side limit (fs @ fs') (zs @ zs') n' ys"
  by (simp add: continued_def split: prod.splits)

lemma fill_queue_stop: "n = 0 \<or> q = [] \<Longrightarrow> fill_queue p n q fills = (n, q, fills)"
  by (subst fill_queue.simps) (auto split: list.splits)

lemma fill_queue_match:
  assumes "fill_queue p n q fills = (left, q', fills')" and "crosses side p limit"
  shows "\<exists>fs. fills' = fills @ map model_fill fs \<and> match_list side limit n (priced p q @ ys) = continued side limit fs (priced p q') left ys"
  using assms
proof (induction p n q fills arbitrary: left q' fills' rule: fill_queue.induct)
  case (1 p n q fills)
  show ?case
  proof (cases "n = 0 \<or> q = []")
    case True
    with "1.prems"(1) show ?thesis
      by (intro exI [of _ "[]"]) (auto simp: fill_queue_stop match_list_none_left)
  next
    case False
    then obtain front behind where q: "q = front # behind" and n: "n \<noteq> 0" by (cases q) auto
    show ?thesis
    proof (cases "mo_quantity front \<le> n")
      case True
      then have m: "min n (mo_quantity front) = mo_quantity front" by simp
      let ?f = "\<lparr>mf_maker_order_id = mo_id front, mf_price = p, mf_quantity = mo_quantity front\<rparr>"
      have "fill_queue p (n - mo_quantity front) behind (fills @ [?f]) = (left, q', fills')"
        using "1.prems"(1) n by (subst (asm) fill_queue.simps) (simp add: q Let_def m)
      with "1.IH"(1) [OF n q refl refl refl refl, unfolded m] "1.prems"(2) obtain fs where
        "fills' = (fills @ [?f]) @ map model_fill fs"
        "match_list side limit (n - mo_quantity front) (priced p behind @ ys) = continued side limit fs (priced p q') left ys"
        by fastforce
      then show ?thesis using True n "1.prems"(2) q
        by (intro exI [of _ "(p, mo_id front, mo_quantity front) # fs"]) (simp add: Let_def model_fill_def)
    next
      case less: False
      then have "fill_queue p n q fills = (0, front\<lparr>mo_quantity := mo_quantity front - n\<rparr> # behind, fills @ [model_fill (p, mo_id front, n)])"
        using n by (subst fill_queue.simps) (simp add: q Let_def model_fill_def min_def fill_queue.simps)
      with less n "1.prems" q show ?thesis
        by (intro exI [of _ "[(p, mo_id front, n)]"]) auto
    qed
  qed
qed

lemma groups_cong: "(\<And>p. p \<in> set ps \<Longrightarrow> queue_of levels p = queue_of levels' p) \<Longrightarrow> groups levels ps = groups levels' ps"
  by (simp add: groups_def cong: map_cong)

lemma fill_levels_match:
  assumes "levels_ok levels" and "distinct ps" and "\<And>p. p \<in> set ps \<Longrightarrow> p \<in> fst ` set levels \<and> crosses side p limit"
  shows "\<exists>levels' left fs. fill_levels levels n fills ps = Some (levels', left, fills @ map model_fill fs) \<and> levels_ok levels' \<and>
    match_list side limit n (groups levels ps @ ys) = continued side limit fs (groups levels' ps) left ys \<and>
    (\<forall>p. p \<notin> set ps \<longrightarrow> queue_of levels' p = queue_of levels p)"
  using assms
proof (induction ps arbitrary: levels n fills)
  case Nil
  then show ?case by (intro exI [of _ levels] exI [of _ n] exI [of _ "[]"]) (simp add: groups_def)
next
  case (Cons p ps)
  show ?case
  proof (cases "n = 0")
    case True
    with Cons.prems(1) show ?thesis by (intro exI [of _ levels] exI [of _ 0] exI [of _ "[]"]) (simp add: match_list_none_left)
  next
    case False
    have p: "p \<in> fst ` set levels" "crosses side p limit" using Cons.prems(3) by simp_all
    then obtain i where i: "position (\<lambda>l. fst l = p) levels = Some i"
      using position_price(2) [OF Cons.prems(1), of p] queue_of_empty [OF Cons.prems(1), of p] by (cases "position (\<lambda>l. fst l = p) levels") auto
    note at = position_price(1) [OF Cons.prems(1) i]
    obtain left1 q' fills1 where f: "fill_queue p n (queue_of levels p) fills = (left1, q', fills1)" by (rule prod_cases3)
    let ?l = "put_queue levels i q'"
    have l: "levels_ok ?l" "queue_of ?l = (queue_of levels)(p := q')" using put_queue_effect [OF Cons.prems(1), of i q'] at by auto
    from fill_queue_match [OF f p(2), of "groups levels ps @ ys"] obtain fs1 where
      fs1: "fills1 = fills @ map model_fill fs1"
        "match_list side limit n (priced p (queue_of levels p) @ groups levels ps @ ys) = continued side limit fs1 (priced p q') left1 (groups levels ps @ ys)"
      by blast
    have "q \<in> fst ` set ?l \<and> crosses side q limit" if "q \<in> set ps" for q
      using that Cons.prems(2,3) queue_of_empty [OF l(1), of q] queue_of_empty [OF Cons.prems(1), of q] l(2) by (auto split: if_splits)
    from Cons.IH [OF l(1) _ this, of left1 fills1] Cons.prems(2) obtain levels' left fs where
      ih: "fill_levels ?l left1 fills1 ps = Some (levels', left, fills1 @ map model_fill fs)" "levels_ok levels'"
        "match_list side limit left1 (groups ?l ps @ ys) = continued side limit fs (groups levels' ps) left ys"
        "\<forall>q. q \<notin> set ps \<longrightarrow> queue_of levels' q = queue_of ?l q" by auto
    have same: "groups ?l ps = groups levels ps" using Cons.prems(2) l(2) by (intro groups_cong) auto
    have "fill_levels levels n fills (p # ps) = Some (levels', left, fills @ map model_fill (fs1 @ fs))"
      using False i f at ih(1) fs1(1) by (simp add: put_queue_def)
    moreover have "match_list side limit n (groups levels (p # ps) @ ys) = continued side limit (fs1 @ fs) (groups levels' (p # ps)) left ys"
      using fs1(2) continued_continued [OF ih(3) [unfolded same], of fs1 "priced p q'"] ih(4) Cons.prems(2) l(2) by (simp add: groups_def)
    ultimately show ?thesis using ih(2,4) l(2) by (intro exI conjI) auto
  qed
qed

text \<open>The simulation counts the same fills.\<close>

lemma simulate_queue_zero: "simulate_queue 0 c q = (left, c', broken) \<Longrightarrow> left = 0 \<and> c' = c"
  by (cases q) auto

lemma simulate_queue_match:
  assumes "simulate_queue n c q = (left, c', broken)" and "crosses side p limit"
  shows "(broken \<longrightarrow> left = 0) \<and>
    (\<exists>fs zs. c' = c + length fs \<and> match_list side limit n (priced p q @ ys) = continued side limit fs zs left ys)"
  using assms
proof (induction q arbitrary: n c)
  case (Cons x q)
  show ?case
  proof (cases "n = 0")
    case True
    with Cons.prems show ?thesis by (auto simp: match_list_none_left intro!: exI [of _ "[]"] exI [of _ "priced p (x # q)"])
  next
    case False
    with Cons.prems have sim: "simulate_queue (n - min n (mo_quantity x)) (c + 1) q = (left, c', broken)" by simp
    from Cons.IH [OF sim Cons.prems(2)] obtain fs zs where
      ih: "broken \<longrightarrow> left = 0" "c' = c + 1 + length fs"
        "match_list side limit (n - min n (mo_quantity x)) (priced p q @ ys) = continued side limit fs zs left ys" by auto
    show ?thesis
    proof (cases "mo_quantity x \<le> n")
      case True
      with ih False Cons.prems(2) show ?thesis
        by (intro conjI exI [of _ "(p, mo_id x, mo_quantity x) # fs"] exI [of _ zs]) (simp_all add: Let_def min_def split: if_splits)
    next
      case less: False
      then have m: "min n (mo_quantity x) = n" by simp
      have "left = 0" "fs = []" using simulate_queue_zero [of "c + 1" q left c' broken] sim ih(2) unfolding m by simp_all
      with ih less False Cons.prems(2) show ?thesis
        by (intro conjI exI [of _ "[(p, mo_id x, n)]"] exI [of _ "(p, (model_view x)\<lparr>o_quantity := mo_quantity x - n\<rparr>) # priced p q"]) simp_all
    qed
  qed
qed (auto intro!: exI [of _ "[]"])

lemma simulate_match:
  assumes "levels_ok levels" and "\<And>p. p \<in> set ps \<Longrightarrow> p \<in> fst ` set levels \<and> crosses side p limit"
  shows "\<exists>left fs zs. simulate levels n c ps = Some (left, c + length fs) \<and>
    match_list side limit n (groups levels ps @ ys) = continued side limit fs zs left ys"
  using assms(2)
proof (induction ps arbitrary: n c)
  case Nil
  then show ?case by (intro exI [of _ n] exI [of _ "[]"]) (simp add: groups_def)
next
  case (Cons p ps)
  have p: "p \<in> fst ` set levels" "crosses side p limit" using Cons.prems by simp_all
  then obtain q where q: "map_of levels p = Some q" by (cases "map_of levels p") (auto simp: map_of_eq_None_iff)
  obtain left1 c1 broken where s: "simulate_queue n c q = (left1, c1, broken)" by (rule prod_cases3)
  from simulate_queue_match [OF s p(2), of "groups levels ps @ ys"] obtain fs1 zs1 where
    f: "broken \<longrightarrow> left1 = 0" "c1 = c + length fs1"
      "match_list side limit n (groups levels (p # ps) @ ys) = continued side limit fs1 zs1 left1 (groups levels ps @ ys)"
    using q by (auto simp: groups_def queue_of_def)
  show ?case
  proof (cases broken)
    case True
    with f q s show ?thesis by (intro exI [of _ 0] exI [of _ fs1] exI [of _ "zs1 @ groups levels ps"]) (simp add: find_level)
  next
    case False
    from Cons.IH [of left1 c1] Cons.prems obtain left fs zs where
      "simulate levels left1 c1 ps = Some (left, c1 + length fs)"
      "match_list side limit left1 (groups levels ps @ ys) = continued side limit fs zs left ys" by auto
    with f False q s continued_continued [of side limit left1 "groups levels ps" ys fs zs left fs1 zs1] show ?thesis
      by (intro exI [of _ left] exI [of _ "fs1 @ fs"] exI [of _ "zs1 @ zs"]) (simp add: find_level)
  qed
qed

section \<open>The crossing prices\<close>

lemma prices_groups:
  assumes "prio_sorted d xs" and "sorted_wrt (before d) ps" and "set ps = fst ` set xs"
  shows "concat (map (\<lambda>p. filter (\<lambda>e. fst e = p) xs) ps) = xs"
  using assms
proof (induction ps arbitrary: xs)
  case (Cons p ps)
  let ?ys = "filter (\<lambda>e. fst e \<noteq> p) xs"
  have first: "\<not> before d (fst e) p" if "e \<in> set xs" for e
  proof -
    from that Cons.prems(3) have "fst e \<in> insert p (set ps)" by auto
    with Cons.prems(2) show ?thesis by (auto simp: before_def split: if_splits)
  qed
  have "filter (\<lambda>e. fst e = p) xs @ ?ys = xs" using Cons.prems(1) first
  proof (induction xs)
    case (Cons e xs)
    show ?case
    proof (cases "fst e = p")
      case False
      have "\<not> before d (fst e) p" using Cons.prems(2) by simp
      with False have "before d p (fst e)" by (auto simp: before_def)
      then have "fst f \<noteq> p" if "f \<in> set xs" for f using Cons.prems(1) that by (auto simp: prio_sorted_def)
      then have "filter (\<lambda>e. fst e = p) xs = []" "filter (\<lambda>e. fst e \<noteq> p) xs = xs" by (auto simp: filter_empty_conv filter_id_conv)
      with False show ?thesis by simp
    qed (use Cons in \<open>simp add: prio_sorted_def\<close>)
  qed simp
  moreover have p: "p \<notin> set ps" using Cons.prems(2) by (auto simp: before_def split: if_splits)
  have "concat (map (\<lambda>q. filter (\<lambda>e. fst e = q) ?ys) ps) = ?ys"
  proof (rule Cons.IH)
    show "prio_sorted d ?ys" using Cons.prems(1) by (simp add: prio_sorted_def sorted_wrt_filter)
    show "set ps = fst ` set ?ys" using Cons.prems(3) p by auto
  qed (use Cons.prems(2) in simp)
  moreover have "map (\<lambda>q. filter (\<lambda>e. fst e = q) ?ys) ps = map (\<lambda>q. filter (\<lambda>e. fst e = q) xs) ps"
    using p by (intro map_cong refl) (auto intro!: filter_cong)
  ultimately show ?case by (simp only: list.map concat.simps)
qed simp

lemma sorted_split:
  assumes "sorted_wrt (before d) ps" and "\<And>p q. before d p q \<Longrightarrow> c q \<Longrightarrow> c p"
  shows "ps = filter c ps @ filter (\<lambda>p. \<not> c p) ps"
  using assms(1)
proof (induction ps)
  case (Cons p ps)
  show ?case
  proof (cases "c p")
    case False
    with Cons.prems assms(2) have "filter c ps = []" "filter (\<lambda>p. \<not> c p) ps = ps" by (auto simp: filter_empty_conv filter_id_conv)
    with False show ?thesis by simp
  qed (use Cons in simp)
qed simp

text \<open>The prices of a side, best first.\<close>

definition best_first :: "bool \<Rightarrow> PriceTicks list \<Rightarrow> PriceTicks list" where
  "best_first d ps = (if d then rev (sort ps) else sort ps)"

lemma best_first_sorted: "distinct ps \<Longrightarrow> sorted_wrt (before d) (best_first d ps) \<and> set (best_first d ps) = set ps"
proof -
  assume "distinct ps"
  then have "sorted_wrt (<) (sort ps)" by (simp add: strict_sorted_iff)
  moreover have "before False = (<)" "before True = (\<lambda>p q. q < p)" by (simp_all add: before_def fun_eq_iff)
  ultimately show ?thesis by (cases d) (simp_all add: best_first_def sorted_wrt_rev)
qed

lemma crossing_prices_eq:
  "crossing_prices levels side limit = filter (\<lambda>p. crosses side p limit) (best_first (descending (opposite side)) (map fst levels))"
  by (cases side) (simp_all add: crossing_prices_def best_first_def descending_def crosses_def filter_sort rev_filter [symmetric])

lemma crosses_before: "before (descending (opposite side)) p q \<Longrightarrow> crosses side q limit \<Longrightarrow> crosses side p limit"
  by (cases side) (auto simp: before_def descending_def crosses_def)

text \<open>A mirrored side is the queues of the crossing prices followed by what does not cross.\<close>

lemma mirrors_split:
  assumes m: "side_mirrors levels xs" and sorted: "prio_sorted (descending (opposite side)) xs"
  obtains ys where "xs = groups levels (crossing_prices levels side limit) @ ys" "\<And>e. e \<in> set ys \<Longrightarrow> \<not> crosses side (fst e) limit"
    "distinct (crossing_prices levels side limit)"
    "\<And>p. p \<in> set (crossing_prices levels side limit) \<longleftrightarrow> p \<in> fst ` set levels \<and> crosses side p limit"
proof -
  let ?d = "descending (opposite side)"
  let ?ps = "best_first ?d (map fst levels)" and ?c = "\<lambda>p. crosses side p limit"
  let ?grp = "\<lambda>ps. concat (map (\<lambda>p. filter (\<lambda>e. fst e = p) xs) ps)"
  have dist: "distinct (map fst levels)" using side_mirrorsD(1) [OF m] by (simp add: levels_ok_def)
  note ps = best_first_sorted [OF dist, of ?d]
  have grp: "groups levels ps = ?grp ps" for ps
  proof -
    have "priced p (queue_of levels p) = filter (\<lambda>e. fst e = p) xs" for p
    proof -
      have "priced p (queue_of levels p) = map (Pair p) (map model_view (queue_of levels p))" by simp
      also have "\<dots> = map (Pair p) (map snd (filter (\<lambda>e. fst e = p) xs))" unfolding side_mirrorsD(2) [OF m] ..
      also have "\<dots> = filter (\<lambda>e. fst e = p) xs" by (induction xs) auto
      finally show ?thesis .
    qed
    then show ?thesis by (simp add: groups_def)
  qed
  have "xs = ?grp ?ps" using prices_groups [OF sorted, of ?ps] ps mirrors_prices [OF m] by simp
  also have "\<dots> = ?grp (filter ?c ?ps @ filter (\<lambda>p. \<not> ?c p) ?ps)"
    by (rule arg_cong [OF sorted_split [OF conjunct1 [OF ps] crosses_before]])
  finally have "xs = groups levels (filter ?c ?ps) @ ?grp (filter (\<lambda>p. \<not> ?c p) ?ps)" by (simp add: grp)
  then show thesis
    using that [of "?grp (filter (\<lambda>p. \<not> ?c p) ?ps)"] ps dist by (auto simp: crossing_prices_eq best_first_def)
qed

lemma filter_groups: "distinct ps \<Longrightarrow> filter (\<lambda>e. fst e = p) (groups levels ps) = (if p \<in> set ps then priced p (queue_of levels p) else [])"
proof (induction ps)
  case (Cons q ps)
  have "filter (\<lambda>e. fst e = p) (priced q (queue_of levels q)) = (if p = q then priced q (queue_of levels q) else [])"
    by (auto simp: filter_empty_conv filter_id_conv)
  with Cons show ?case by (auto simp: groups_def)
qed (simp add: groups_def)

lemma match_list_stop: "(\<And>e. e \<in> set ys \<Longrightarrow> \<not> crosses side (fst e) limit) \<Longrightarrow> match_list side limit n ys = ([], ys, n)"
proof (cases ys)
  case (Cons e es)
  assume "\<And>e. e \<in> set ys \<Longrightarrow> \<not> crosses side (fst e) limit"
  then have "\<not> crosses side (fst e) limit" by (simp add: Cons)
  then show ?thesis by (cases e) (simp add: Cons)
qed simp

lemma model_match:
  assumes m: "side_mirrors levels xs" and sorted: "prio_sorted (descending (opposite side)) xs"
    and run: "match_list side limit n xs = (fs, xs', left)"
  shows "simulate levels n 0 (crossing_prices levels side limit) = Some (left, length fs)"
    and "\<exists>levels'. fill_levels levels n [] (crossing_prices levels side limit) = Some (levels', left, map model_fill fs) \<and> side_mirrors levels' xs'"
proof -
  let ?ps = "crossing_prices levels side limit"
  obtain ys where ys: "xs = groups levels ?ps @ ys" "\<And>e. e \<in> set ys \<Longrightarrow> \<not> crosses side (fst e) limit" "distinct ?ps"
    "\<And>p. p \<in> set ?ps \<longleftrightarrow> p \<in> fst ` set levels \<and> crosses side p limit" by (rule mirrors_split [OF m sorted]) blast
  have stop: "match_list side limit k ys = ([], ys, k)" for k by (rule match_list_stop [OF ys(2)])
  have ok: "levels_ok levels" by (rule side_mirrorsD(1) [OF m])
  from simulate_match [OF ok ys(4) [THEN iffD1], of ?ps, of n 0 ys] obtain left1 fs1 zs where
    "simulate levels n 0 ?ps = Some (left1, 0 + length fs1)" "match_list side limit n (groups levels ?ps @ ys) = continued side limit fs1 zs left1 ys"
    by blast
  with run show "simulate levels n 0 ?ps = Some (left, length fs)" unfolding ys(1) by (simp add: continued_def stop)
  from fill_levels_match [OF ok ys(3) ys(4) [THEN iffD1], of n "[]" ys] obtain levels' left2 fs2 where
    f: "fill_levels levels n [] ?ps = Some (levels', left2, [] @ map model_fill fs2)" "levels_ok levels'"
      "match_list side limit n (groups levels ?ps @ ys) = continued side limit fs2 (groups levels' ?ps) left2 ys"
      "\<forall>p. p \<notin> set ?ps \<longrightarrow> queue_of levels' p = queue_of levels p" by blast
  have eq: "fs2 = fs" "xs' = groups levels' ?ps @ ys" "left2 = left" using f(3) run unfolding ys(1) by (simp_all add: continued_def stop)
  have "map model_view (queue_of levels' p) = map snd (filter (\<lambda>e. fst e = p) xs')" for p
  proof (cases "p \<in> set ?ps")
    case True
    then have "crosses side p limit" using ys(4) by blast
    then have "filter (\<lambda>e. fst e = p) ys = []" using ys(2) by (auto simp: filter_empty_conv)
    with True show ?thesis by (simp add: eq(2) filter_groups [OF ys(3)])
  next
    case False
    have "map model_view (queue_of levels' p) = map model_view (queue_of levels p)" using f(4) False by simp
    also have "\<dots> = map snd (filter (\<lambda>e. fst e = p) xs)" by (rule side_mirrorsD(2) [OF m])
    also have "\<dots> = map snd (filter (\<lambda>e. fst e = p) xs')"
      unfolding eq(2) by (subst ys(1)) (simp add: filter_groups [OF ys(3)] False)
    finally show ?thesis .
  qed
  with f(1,2) eq show "\<exists>levels'. fill_levels levels n [] ?ps = Some (levels', left, map model_fill fs) \<and> side_mirrors levels' xs'"
    by (auto simp: side_mirrors_def)
qed

section \<open>Submission\<close>

definition model_mirrors :: "ModelBook \<Rightarrow> BookModel \<Rightarrow> bool" where
  "model_mirrors mb m \<longleftrightarrow> (\<forall>side. side_mirrors (levels_of mb side) (bm_side m side))"

lemma levels_of_set [simp]: "levels_of (set_levels mb side levels) side' = (if side' = side then levels else levels_of mb side')"
  by (cases side; cases side') (simp_all add: levels_of_def set_levels_def)

lemma levels_of_side [simp]: "levels_of mb Buy = mb_bids mb" "levels_of mb Sell = mb_asks mb"
  by (simp_all add: levels_of_def)

lemma mirrors_set_side: "model_mirrors mb m \<Longrightarrow> side_mirrors levels xs \<Longrightarrow> model_mirrors (set_levels mb side levels) (set_side m side xs)"
  by (simp add: model_mirrors_def set_side_def)

lemma mirrors_ids: "side_mirrors levels xs \<Longrightarrow> (\<exists>x \<in> set (concat (map snd levels)). mo_id x = k) \<longleftrightarrow> k \<in> ids xs"
proof -
  assume m: "side_mirrors levels xs"
  have mem: "x \<in> set (concat (map snd levels)) \<longleftrightarrow> (\<exists>p. x \<in> set (queue_of levels p))" for x
  proof
    assume "x \<in> set (concat (map snd levels))"
    then obtain l where "l \<in> set levels" "x \<in> set (snd l)" by auto
    then obtain i where "i < length levels" "x \<in> set (snd (levels ! i))" by (metis in_set_conv_nth)
    with levels_ok_nth(1) [OF side_mirrorsD(1) [OF m], of i] show "\<exists>p. x \<in> set (queue_of levels p)" by metis
  next
    assume "\<exists>p. x \<in> set (queue_of levels p)"
    then obtain p where p: "x \<in> set (queue_of levels p)" by blast
    then obtain q where q: "map_of levels p = Some q" by (cases "map_of levels p") (auto simp: queue_of_def)
    from map_of_SomeD [OF q] p q show "x \<in> set (concat (map snd levels))" by (force simp: queue_of_def)
  qed
  have "(\<exists>x \<in> set (concat (map snd levels)). mo_id x = k) \<longleftrightarrow> (\<exists>p y. y \<in> model_view ` set (queue_of levels p) \<and> o_id y = k)"
    unfolding Bex_def mem by auto
  also have "\<dots> \<longleftrightarrow> (\<exists>p y. (p, y) \<in> set xs \<and> o_id y = k)" using mirrors_members [OF m] by blast
  finally show ?thesis by (force simp: ids_def)
qed

lemma mirrors_best:
  assumes m: "side_mirrors levels xs" and sorted: "prio_sorted (descending (opposite side)) xs"
  shows "crossing_prices levels side limit \<noteq> [] \<longleftrightarrow> (case xs of [] \<Rightarrow> False | e # _ \<Rightarrow> crosses side (fst e) limit)"
proof -
  have "crossing_prices levels side limit \<noteq> [] \<longleftrightarrow> (\<exists>e \<in> set xs. crosses side (fst e) limit)"
    using mirrors_prices [OF m] by (auto simp: crossing_prices_eq filter_empty_conv best_first_def)
  also have "\<dots> \<longleftrightarrow> (case xs of [] \<Rightarrow> False | e # _ \<Rightarrow> crosses side (fst e) limit)"
  proof (cases xs)
    case (Cons e es)
    have "crosses side (fst e) limit" if "f \<in> set es" "crosses side (fst f) limit" for f
      using sorted that unfolding Cons by (cases side) (auto simp: prio_sorted_def before_def descending_def crosses_def)
    with Cons show ?thesis by auto
  qed simp
  finally show ?thesis .
qed

lemma mirrors_rest_check:
  assumes "side_mirrors (levels_of mb side) (bm_side m side)"
  shows "model_rest_check (levels_of mb side) p (bm_LEVELS m) (bm_ORDERS m) = rest_check m side p"
proof -
  note ok = side_mirrorsD(1) [OF assms]
  show ?thesis
  proof (cases "map_of (levels_of mb side) p")
    case None
    then show ?thesis using mirrors_depth [OF assms, of p] mirrors_level_count [OF assms]
      by (simp add: model_rest_check_def rest_check_def find_level queue_of_def)
  next
    case (Some q)
    then have "q = queue_of (levels_of mb side) p" by (simp add: queue_of_def)
    moreover have "q \<noteq> []" using ok map_of_SomeD [OF Some] by (auto simp: levels_ok_def)
    ultimately show ?thesis using Some mirrors_depth [OF assms, of p] by (simp add: model_rest_check_def rest_check_def find_level)
  qed
qed

lemma model_plan_spec:
  assumes mm: "model_mirrors mb m" and inst: "no_instrument_id order = bm_instrument m"
    and sorted: "\<And>side. prio_sorted (descending side) (bm_side m side)"
  shows "model_plan mb order cap (bm_LEVELS m) (bm_ORDERS m) = Some (and_then (spec_submit m order cap) (\<lambda>_.
    Ok (crossing_prices (levels_of mb (opposite (no_side order))) (no_side order) (no_price order))))"
proof -
  let ?s = "no_side order"
  have m: "side_mirrors (levels_of mb side) (bm_side m side)" for side using mm by (simp add: model_mirrors_def)
  obtain fs xs' left where run: "match_list ?s (no_price order) (no_quantity order) (bm_side m (opposite ?s)) = (fs, xs', left)" by (rule prod_cases3)
  note sim = model_match(1) [OF m sorted run]
  have dup: "(\<exists>resting \<in> set (concat (map snd (mb_bids mb @ mb_asks mb))). mo_id resting = no_order_id order) \<longleftrightarrow>
      no_order_id order \<in> ids (bm_side m Buy) \<union> ids (bm_side m Sell)"
    using mirrors_ids [OF m [of Buy], of "no_order_id order"] mirrors_ids [OF m [of Sell], of "no_order_id order"] by (simp add: bex_Un)
  note best = mirrors_best [OF m sorted, of ?s "no_price order"] and rest = mirrors_rest_check [OF m, of ?s "no_price order"]
  show ?thesis
    unfolding model_plan_def spec_submit_def spec_admit_def dup best Let_def run sim rest prod.case
    using inst by (cases "no_time_in_force order"; cases "rest_check m ?s (no_price order)") (auto split: list.splits)
qed

lemma model_submit_spec:
  assumes mm: "model_mirrors mb m" and inst: "no_instrument_id order = bm_instrument m"
    and sorted: "\<And>side. prio_sorted (descending side) (bm_side m side)"
  shows "case spec_submit m order cap of
      Err e \<Rightarrow> model_submit mb order cap (bm_LEVELS m) (bm_ORDERS m) = Some (Err e)
    | Ok ex \<Rightarrow> \<exists>mb'. model_submit mb order cap (bm_LEVELS m) (bm_ORDERS m) = Some (Ok (mb', ms_state (summary_of order ex),
        ms_filled_quantity (summary_of order ex), ex_resting ex, ex_discarded ex, map model_fill (ex_fills ex))) \<and> model_mirrors mb' (ex_book ex)"
proof (cases "spec_submit m order cap")
  case (Err e)
  then show ?thesis by (simp add: model_submit_def model_plan_spec [OF assms])
next
  case (Ok ex)
  let ?s = "no_side order" and ?tif = "no_time_in_force order"
  have m: "side_mirrors (levels_of mb side) (bm_side m side)" for side using mm by (simp add: model_mirrors_def)
  obtain fs xs' left where run: "match_list ?s (no_price order) (no_quantity order) (bm_side m (opposite ?s)) = (fs, xs', left)" by (rule prod_cases3)
  from model_match(2) [OF m sorted run] obtain levels' where
    f: "fill_levels (levels_of mb (opposite ?s)) (no_quantity order) [] (crossing_prices (levels_of mb (opposite ?s)) ?s (no_price order)) =
      Some (levels', left, map model_fill fs)" "side_mirrors levels' xs'" by blast
  have total: "no_quantity order = fills_sum fs + left" using match_list_facts(3) [OF run] by (simp add: fills_sum_def)
  let ?mb = "set_levels mb (opposite ?s) levels'" and ?m = "set_side m (opposite ?s) xs'"
  have mir: "model_mirrors ?mb ?m" by (rule mirrors_set_side [OF mm f(2)])
  show ?thesis
  proof (cases "left > 0 \<and> (?tif = Gtc \<or> ?tif = PostOnly)")
    case True
    let ?x = "\<lparr>mo_id = no_order_id order, mo_account = no_account_id order, mo_quantity = left, mo_sequence = no_sequence order\<rparr>"
    have ex: "ex = \<lparr>ex_book = set_side ?m ?s (enqueue (descending ?s) (no_price order) (model_view ?x) (bm_side m ?s)),
        ex_fills = fs, ex_resting = left, ex_discarded = 0\<rparr>"
      using Ok True by (auto simp: spec_submit_def run Let_def and_then_Ok_iff order_of_def split: if_splits)
    have "model_mirrors (set_levels ?mb ?s (push_back (levels_of ?mb ?s) (no_price order) ?x)) (ex_book ex)"
      unfolding ex Execution.simps using mirrors_enqueue [OF m sorted, of ?s "no_price order" ?x] by (intro mirrors_set_side [OF mir]) simp
    with True Ok f(1) show ?thesis
      by (simp add: model_submit_def model_plan_spec [OF assms] ex summary_of_def total Let_def)
  next
    case False
    have ex: "ex = \<lparr>ex_book = ?m, ex_fills = fs, ex_resting = 0, ex_discarded = (if ?tif = Ioc then left else 0)\<rparr>" "?tif \<noteq> Ioc \<longrightarrow> left = 0"
      using Ok False by (auto simp: spec_submit_def run Let_def and_then_Ok_iff split: if_splits TimeInForce.splits)
    with False Ok f(1) mir show ?thesis
      by (auto simp: model_submit_def model_plan_spec [OF assms] summary_of_def total Let_def)
  qed
qed

end
