(* ===== verification/ModelBookProps.thy ===== *)
theory ModelBookProps
  imports ModelBookMatch
begin

text \<open>
  The reference book and the order book agree: cancel and replace on the reference book keep the
  mirror relation to the specification that the order book refines, with equal answers, and the
  properties state the agreement of the two books on every operation.
\<close>

section \<open>One order of a side\<close>

lemma find_order_Some: "find_order k xs = Some (p, x) \<Longrightarrow> (p, x) \<in> set xs \<and> o_id x = k"
  by (induction xs) (auto simp: find_order_def split: if_splits)

lemma remove_at_filter:
  "distinct (map f xs) \<Longrightarrow> position (\<lambda>x. f x = k) xs = Some j \<Longrightarrow> remove_at j xs = filter (\<lambda>x. f x \<noteq> k) xs"
proof (induction xs arbitrary: j)
  case (Cons x xs)
  show ?case
  proof (cases "f x = k")
    case True
    then have "f z \<noteq> k" if "z \<in> set xs" for z using Cons.prems(1) image_eqI [OF refl that, of f] by auto
    then have "filter (\<lambda>x. f x \<noteq> k) xs = xs" by (simp add: filter_id_conv)
    with True Cons.prems(2) show ?thesis by (simp add: remove_at_def)
  next
    case False
    with Cons.prems(2) obtain i where "j = Suc i" "position (\<lambda>x. f x = k) xs = Some i" by auto
    with Cons False show ?thesis by (simp add: remove_at_def)
  qed
qed simp

lemma update_at_map:
  "distinct (map f xs) \<Longrightarrow> position (\<lambda>x. f x = k) xs = Some j \<Longrightarrow> xs[j := y] = map (\<lambda>x. if f x = k then y else x) xs"
proof (induction xs arbitrary: j)
  case (Cons x xs)
  show ?case
  proof (cases "f x = k")
    case True
    then have "f z \<noteq> k" if "z \<in> set xs" for z using Cons.prems(1) image_eqI [OF refl that, of f] by auto
    then have "map (\<lambda>x. if f x = k then y else x) xs = xs" by (intro map_idI) simp
    with True Cons.prems(2) show ?thesis by simp
  next
    case False
    with Cons.prems(2) obtain i where "j = Suc i" "position (\<lambda>x. f x = k) xs = Some i" by auto
    with Cons False show ?thesis by simp
  qed
qed simp

lemma mirrors_distinct:
  assumes m: "side_mirrors levels xs" and d: "distinct (map (\<lambda>e. o_id (snd e)) xs)"
  shows "distinct (map mo_id (queue_of levels p))"
proof -
  have "map mo_id (queue_of levels p) = map o_id (map model_view (queue_of levels p))" by simp
  also have "\<dots> = map (\<lambda>e. o_id (snd e)) (filter (\<lambda>e. fst e = p) xs)" unfolding side_mirrorsD(2) [OF m] by simp
  finally show ?thesis using d distinct_map_filter by metis
qed

text \<open>Where the vector holds an order: its level, and its place in the queue.\<close>

definition held_at :: "ModelLevels \<Rightarrow> OrderId \<Rightarrow> nat \<Rightarrow> nat \<Rightarrow> PriceTicks \<Rightarrow> Order \<Rightarrow> bool" where
  "held_at levels k i j p x \<longleftrightarrow> find_in levels k = Some i \<and> i < length levels \<and> fst (levels ! i) = p \<and> snd (levels ! i) = queue_of levels p \<and>
     position (\<lambda>y. mo_id y = k) (queue_of levels p) = Some j \<and> model_view (queue_of levels p ! j) = x"

lemma held_atI:
  assumes m: "side_mirrors levels xs" and d: "distinct (map (\<lambda>e. o_id (snd e)) xs)" and x: "find_order k xs = Some (p, x)"
  obtains i j where "held_at levels k i j p x"
proof -
  note ok = side_mirrorsD(1) [OF m]
  have x: "(p, x) \<in> set xs" "o_id x = k" using x by (auto dest!: find_order_Some)
  then obtain y where y: "y \<in> set (queue_of levels p)" "x = model_view y" using mirrors_members [OF m] by blast
  then have "queue_of levels p \<noteq> []" by auto
  then obtain i where "position (\<lambda>l. fst l = p) levels = Some i" using position_price(2) [OF ok, of p] by (cases "position (\<lambda>l. fst l = p) levels") auto
  note i = position_price(1) [OF ok this]
  have "find_in levels k = Some i" unfolding find_in_def
  proof (rule position_unique)
    show "\<exists>order \<in> set (snd (levels ! i)). mo_id order = k" using i y x(2) by auto
    fix i' assume i': "i' < length levels" and "\<exists>order \<in> set (snd (levels ! i')). mo_id order = k"
    then obtain z where z: "z \<in> set (snd (levels ! i'))" "mo_id z = k" by blast
    then have "(fst (levels ! i'), model_view z) \<in> set xs" using mirrors_members [OF m] levels_ok_nth(1) [OF ok i'] by auto
    then have "fst (levels ! i') = p" using x d z(2) by (auto simp: distinct_map inj_on_def) (metis fst_conv model_view_simps(1) snd_conv)
    then show "i' = i" using levels_ok_nth(2) [OF ok i'] levels_ok_nth(2) [OF ok, of i] i by auto
  qed (use i in simp)
  moreover obtain j where j: "position (\<lambda>y. mo_id y = k) (queue_of levels p) = Some j"
    using y x(2) position_None [of "\<lambda>y. mo_id y = k" "queue_of levels p"] by (cases "position (\<lambda>y. mo_id y = k) (queue_of levels p)") auto
  moreover have "queue_of levels p ! j = y"
    using position_Some [OF j] mirrors_distinct [OF m d, of p] y x(2) by (auto simp: distinct_map inj_on_def)
  ultimately show thesis using that i y(2) by (auto simp: held_at_def)
qed

lemma held_nowhere: "side_mirrors levels xs \<Longrightarrow> find_order k xs = None \<Longrightarrow> find_in levels k = None"
proof -
  assume m: "side_mirrors levels xs" and "find_order k xs = None"
  then have "k \<notin> ids xs" unfolding find_order_def find_None_iff ids_def by blast
  with mirrors_ids [OF m, of k] show ?thesis by (auto simp: find_in_def position_None)
qed

lemma mirrors_delete:
  assumes m: "side_mirrors levels xs" and d: "distinct (map (\<lambda>e. o_id (snd e)) xs)" and h: "held_at levels k i j p x"
  shows "side_mirrors (put_queue levels i (remove_at j (queue_of levels p))) (delete_order k xs)"
proof -
  note ok = side_mirrorsD(1) [OF m]
  have i: "i < length levels" "fst (levels ! i) = p" using h by (simp_all add: held_at_def)
  have rm: "remove_at j (queue_of levels p) = filter (\<lambda>y. mo_id y \<noteq> k) (queue_of levels p)"
    using remove_at_filter [OF mirrors_distinct [OF m d]] h by (simp add: held_at_def)
  have gone: "filter (\<lambda>y. mo_id y \<noteq> k) (queue_of levels q) = queue_of levels q" if "q \<noteq> p" for q
  proof -
    have "mo_id y \<noteq> k" if "y \<in> set (queue_of levels q)" for y
    proof
      assume k: "mo_id y = k"
      have "(q, model_view y) \<in> set xs" using that mirrors_members [OF m] by blast
      moreover have "queue_of levels p ! j \<in> set (queue_of levels p)" "mo_id (queue_of levels p ! j) = k"
        using h position_Some [of _ "queue_of levels p" j] by (auto simp: held_at_def)
      then have "(p, model_view (queue_of levels p ! j)) \<in> set xs" "o_id (model_view (queue_of levels p ! j)) = k" using mirrors_members [OF m] by auto
      ultimately have "q = p" using d k by (auto simp: distinct_map inj_on_def) (metis fst_conv model_view_simps(1) snd_conv)
      with \<open>q \<noteq> p\<close> show False ..
    qed
    then show ?thesis by (simp add: filter_id_conv)
  qed
  have "map model_view (filter (\<lambda>y. mo_id y \<noteq> k) (queue_of levels q)) = map snd (filter (\<lambda>e. fst e = q) (delete_order k xs))" for q
  proof -
    have "map model_view (filter (\<lambda>y. mo_id y \<noteq> k) (queue_of levels q)) = filter (\<lambda>y. o_id y \<noteq> k) (map model_view (queue_of levels q))"
      by (simp add: filter_map o_def)
    also have "\<dots> = map snd (filter (\<lambda>e. fst e = q) (delete_order k xs))"
      unfolding side_mirrorsD(2) [OF m] delete_order_def by (simp add: filter_map o_def conj_commute)
    finally show ?thesis .
  qed
  then have "map model_view (((queue_of levels)(p := remove_at j (queue_of levels p))) q) = map snd (filter (\<lambda>e. fst e = q) (delete_order k xs))" for q
    by (cases "q = p") (simp_all add: rm, metis gone)
  then show ?thesis using put_queue_effect [OF ok i(1), of "remove_at j (queue_of levels p)"] i(2) by (simp add: side_mirrors_def)
qed

lemma mirrors_reduce:
  assumes m: "side_mirrors levels xs" and d: "distinct (map (\<lambda>e. o_id (snd e)) xs)" and h: "held_at levels k i j p x"
  shows "side_mirrors (levels[i := (p, (queue_of levels p)[j := (queue_of levels p ! j)\<lparr>mo_quantity := n\<rparr>])])
    (map (\<lambda>e. if o_id (snd e) = k then (p, x\<lparr>o_quantity := n\<rparr>) else e) xs)"
proof -
  note ok = side_mirrorsD(1) [OF m]
  let ?y = "queue_of levels p ! j" and ?q = "queue_of levels p" and ?g = "\<lambda>e. if o_id (snd e) = k then (p, x\<lparr>o_quantity := n\<rparr>) else e"
  have i: "i < length levels" "fst (levels ! i) = p" "model_view ?y = x" using h by (simp_all add: held_at_def)
  have j: "j < length ?q" "mo_id ?y = k" using h position_Some [of _ ?q j] by (auto simp: held_at_def)
  have up: "?q[j := ?y\<lparr>mo_quantity := n\<rparr>] = map (\<lambda>z. if mo_id z = k then ?y\<lparr>mo_quantity := n\<rparr> else z) ?q"
    using update_at_map [OF mirrors_distinct [OF m d]] h by (simp add: held_at_def)
  have x: "(p, x) \<in> set xs" "o_id x = k" using mirrors_members [OF m, of p x] j i(3) by force+
  have at: "fst e = p" if "e \<in> set xs" "o_id (snd e) = k" for e
    using d that x by (auto simp: distinct_map inj_on_def) (metis fst_conv snd_conv)
  have fil: "filter (\<lambda>e. fst e = q) (map ?g xs) = map ?g (filter (\<lambda>e. fst e = q) xs)" for q
    using at by (induction xs) auto
  have "map model_view (((queue_of levels)(p := ?q[j := ?y\<lparr>mo_quantity := n\<rparr>])) q) = map snd (filter (\<lambda>e. fst e = q) (map ?g xs))" for q
  proof (cases "q = p")
    case True
    have "map model_view (?q[j := ?y\<lparr>mo_quantity := n\<rparr>]) = map (\<lambda>z. if o_id z = k then x\<lparr>o_quantity := n\<rparr> else z) (map model_view ?q)"
      unfolding up by (auto simp: i(3) [symmetric])
    also have "\<dots> = map snd (map ?g (filter (\<lambda>e. fst e = p) xs))" unfolding side_mirrorsD(2) [OF m] by auto
    finally show ?thesis using True fil by simp
  next
    case False
    have "map ?g (filter (\<lambda>e. fst e = q) xs) = filter (\<lambda>e. fst e = q) xs" using at False by (intro map_idI) auto
    with False fil side_mirrorsD(2) [OF m] show ?thesis by simp
  qed
  moreover have "?q[j := ?y\<lparr>mo_quantity := n\<rparr>] \<noteq> []" using j(1) by auto
  ultimately show ?thesis using put_queue_effect [OF ok i(1), of "?q[j := ?y\<lparr>mo_quantity := n\<rparr>]"] i(2)
    by (simp add: side_mirrors_def put_queue_def)
qed

text \<open>The specification's lists: in priority order, with distinct ids.\<close>

definition book_shape :: "BookModel \<Rightarrow> bool" where
  "book_shape m \<longleftrightarrow> (\<forall>side. prio_sorted (descending side) (bm_side m side) \<and> distinct (map (\<lambda>e. o_id (snd e)) (bm_side m side)))"

lemma book_shape_abs: "book_ok b \<Longrightarrow> book_shape (book_abs b)"
proof -
  assume "book_ok b"
  then have wf: "book_wf b" by (simp add: book_ok_def)
  have "distinct (map (\<lambda>e. o_id (snd e)) (book_list b side))" for side using distinct_ids [OF wf] by (cases side) simp_all
  then show ?thesis using book_list_sorted [OF wf_sides [OF wf]] by (simp add: book_shape_def)
qed

lemma find_side_held:
  assumes mm: "model_mirrors mb m" and shape: "book_shape m" and found: "find_side m k = Some (side, p, x)"
  obtains i j where "held_at (levels_of mb side) k i j p x" "side = Sell \<Longrightarrow> find_in (mb_bids mb) k = None"
proof -
  have m: "side_mirrors (levels_of mb side) (bm_side m side)" for side using mm by (simp add: model_mirrors_def)
  have d: "distinct (map (\<lambda>e. o_id (snd e)) (bm_side m side))" using shape by (simp add: book_shape_def)
  have f: "find_order k (bm_side m side) = Some (p, x)" "side = Sell \<Longrightarrow> find_order k (bm_side m Buy) = None"
    using found by (auto simp: find_side_def split: option.splits)
  show thesis using held_atI [OF m d f(1)] that held_nowhere [OF m f(2)] by (metis levels_of_side(1))
qed

lemma find_side_nowhere: "model_mirrors mb m \<Longrightarrow> find_side m k = None \<Longrightarrow> find_in (levels_of mb side) k = None"
proof -
  assume "model_mirrors mb m" and "find_side m k = None"
  then have "side_mirrors (levels_of mb side) (bm_side m side)" by (simp add: model_mirrors_def)
  moreover have "find_order k (bm_side m side) = None"
    using \<open>find_side m k = None\<close> by (cases side) (simp_all add: find_side_def split: option.splits)
  ultimately show ?thesis by (rule held_nowhere)
qed

section \<open>Cancel\<close>

lemma cancel_from_skip: "(\<And>i. i \<in> set is \<Longrightarrow> position (\<lambda>x. mo_id x = co_order_id c) (snd (levels ! i)) = None) \<Longrightarrow>
    cancel_from levels c (is @ js) = cancel_from levels c js"
  by (induction "is") auto

lemma cancel_from_nowhere: "find_in levels (co_order_id c) = None \<Longrightarrow> cancel_from levels c [0..<length levels] = None"
proof -
  assume "find_in levels (co_order_id c) = None"
  then have "position (\<lambda>x. mo_id x = co_order_id c) (snd (levels ! i)) = None" if "i \<in> set [0..<length levels]" for i
    using that by (auto simp: find_in_def position_None)
  from cancel_from_skip [OF this, of "[0..<length levels]" "[]"] show ?thesis by simp
qed

lemma cancel_from_held:
  assumes h: "held_at levels (co_order_id c) i j p x"
  shows "cancel_from levels c [0..<length levels] = Some (if o_account x \<noteq> co_account_id c then Err NotOrderOwner
    else Ok (put_queue levels i (remove_at j (queue_of levels p)), o_id x, o_account x, o_quantity x))"
proof -
  have i: "i < length levels" "fst (levels ! i) = p" "snd (levels ! i) = queue_of levels p" "find_in levels (co_order_id c) = Some i"
    "position (\<lambda>y. mo_id y = co_order_id c) (queue_of levels p) = Some j" "model_view (queue_of levels p ! j) = x"
    using h by (simp_all add: held_at_def)
  have "[0..<length levels] = [0..<i] @ i # [Suc i..<length levels]"
    using i(1) upt_add_eq_append [of 0 i "length levels - i"] by (simp add: upt_conv_Cons)
  moreover have "position (\<lambda>y. mo_id y = co_order_id c) (snd (levels ! i')) = None" if "i' \<in> set [0..<i]" for i'
    using position_Some [OF i(4) [unfolded find_in_def]] that by (auto simp: position_None)
  ultimately show ?thesis using cancel_from_skip [of "[0..<i]" c levels] i by (auto simp: Let_def put_queue_def)
qed

lemma model_cancel_spec:
  assumes mm: "model_mirrors mb m" and shape: "book_shape m" and inst: "co_instrument_id c = bm_instrument m"
  shows "case spec_cancel m c of
      Err e \<Rightarrow> model_cancel mb c = Err e
    | Ok (m', out) \<Rightarrow> \<exists>mb'. model_cancel mb c = Ok (mb', cn_order_id out, cn_account_id out, cn_quantity out) \<and> model_mirrors mb' m'"
proof (cases "find_side m (co_order_id c)")
  case None
  then show ?thesis using find_side_nowhere [OF mm None, of Buy] find_side_nowhere [OF mm None, of Sell] inst
    by (simp add: spec_cancel_def model_cancel_def cancel_from_nowhere)
next
  case (Some t)
  obtain side p x where t: "t = (side, p, x)" by (cases t)
  obtain i j where h: "held_at (levels_of mb side) (co_order_id c) i j p x" "side = Sell \<Longrightarrow> find_in (mb_bids mb) (co_order_id c) = None"
    by (rule find_side_held [OF mm shape]) (use Some t in auto)
  let ?levels = "put_queue (levels_of mb side) i (remove_at j (queue_of (levels_of mb side) p))"
  have "model_mirrors (set_levels mb side ?levels) (set_side m side (delete_order (co_order_id c) (bm_side m side)))"
    using mm shape by (intro mirrors_set_side mirrors_delete [OF _ _ h(1)]) (simp_all add: model_mirrors_def book_shape_def)
  moreover have "model_cancel mb c = (if o_account x \<noteq> co_account_id c then Err NotOrderOwner
      else Ok (set_levels mb side ?levels, o_id x, o_account x, o_quantity x))"
    using cancel_from_held [OF h(1)] h(2) by (cases side) (simp_all add: model_cancel_def set_levels_def cancel_from_nowhere)
  ultimately show ?thesis using inst by (auto simp: spec_cancel_def Some t)
qed

section \<open>Replace\<close>

lemma would_cross_prices: "replace_would_cross mb side price \<longleftrightarrow> crossing_prices (levels_of mb (opposite side)) side price \<noteq> []"
proof -
  let ?ps = "fst ` set (levels_of mb (opposite side))"
  have "crossing_prices (levels_of mb (opposite side)) side price \<noteq> [] \<longleftrightarrow> (\<exists>p \<in> ?ps. crosses side p price)"
    by (auto simp: crossing_prices_eq filter_empty_conv best_first_def)
  also have "\<dots> \<longleftrightarrow> replace_would_cross mb side price"
  proof (cases "levels_of mb (opposite side) = []")
    case False
    then show ?thesis
      by (cases side) (simp_all add: replace_would_cross_def opposing_best_def crosses_def Min_le_iff Max_ge_iff)
  qed (simp add: replace_would_cross_def opposing_best_def)
  finally show ?thesis ..
qed

lemma replace_room_spec:
  assumes m: "side_mirrors levels xs" and h: "held_at levels k i j p x"
  shows "model_replace_room levels i q level_cap order_cap =
    (if q \<noteq> p \<and> depth q xs > 0 \<and> depth q xs = order_cap then Err PriceLevelOrderCapacity
     else if depth q xs = 0 \<and> level_count xs = level_cap \<and> depth p xs \<noteq> 1 then Err PriceLevelCapacity else Ok ())"
proof -
  note ok = side_mirrorsD(1) [OF m]
  have i: "i < length levels" "fst (levels ! i) = p" "snd (levels ! i) = queue_of levels p" using h by (simp_all add: held_at_def)
  show ?thesis
  proof (cases "position (\<lambda>l. fst l = q) levels")
    case None
    then show ?thesis using position_price(2) [OF ok, of q] i(3) mirrors_depth [OF m] mirrors_level_count [OF m]
      by (auto simp: model_replace_room_def)
  next
    case (Some d)
    note at = position_price(1) [OF ok Some]
    have "d = i" if "q = p" using that Some levels_ok_nth(2) [OF ok i(1)] i(2) by simp
    moreover have "queue_of levels q \<noteq> []" using position_price(2) [OF ok, of q] Some by auto
    ultimately show ?thesis using Some at i mirrors_depth [OF m] by (auto simp: model_replace_room_def)
  qed
qed

lemma model_replace_spec:
  assumes mm: "model_mirrors mb m" and shape: "book_shape m" and inst: "ro_instrument_id r = bm_instrument m"
    and pos: "ro_price r > 0" "ro_quantity r > 0"
  shows "case spec_replace m r of
      Err e \<Rightarrow> model_replace mb r (bm_LEVELS m) (bm_ORDERS m) = Some (Err e)
    | Ok (m', out) \<Rightarrow> \<exists>mb'. model_replace mb r (bm_LEVELS m) (bm_ORDERS m) = Some (Ok (mb', rp_old_quantity out, rp_priority_lost out)) \<and>
        model_mirrors mb' m'"
proof (cases "find_side m (ro_order_id r)")
  case None
  then show ?thesis using find_side_nowhere [OF mm None, of Buy] find_side_nowhere [OF mm None, of Sell] inst pos
    by (simp add: spec_replace_def model_replace_def)
next
  case (Some t)
  obtain side p x where t: "t = (side, p, x)" by (cases t)
  let ?k = "ro_order_id r" and ?levels = "levels_of mb side" and ?xs = "bm_side m side"
  obtain i j where h: "held_at ?levels ?k i j p x" "side = Sell \<Longrightarrow> find_in (mb_bids mb) ?k = None"
    by (rule find_side_held [OF mm shape]) (use Some t in auto)
  have m: "side_mirrors (levels_of mb side) (bm_side m side)" for side using mm by (simp add: model_mirrors_def)
  have d: "distinct (map (\<lambda>e. o_id (snd e)) ?xs)" "prio_sorted (descending side) (bm_side m side)" for side using shape by (simp_all add: book_shape_def)
  have i: "fst (?levels ! i) = p" "snd (?levels ! i) = queue_of ?levels p" "find_in ?levels ?k = Some i"
    "position (\<lambda>y. mo_id y = ?k) (queue_of ?levels p) = Some j" "model_view (queue_of ?levels p ! j) = x"
    using h(1) by (simp_all add: held_at_def)
  have x: "mo_account (queue_of ?levels p ! j) = o_account x" "mo_quantity (queue_of ?levels p ! j) = o_quantity x"
    using i(5) by (auto simp flip: i(5))
  have loc: "(case find_in (mb_bids mb) ?k of Some i \<Rightarrow> Some (Buy, i) | None \<Rightarrow> map_option (Pair Sell) (find_in (mb_asks mb) ?k)) = Some (side, i)"
    using i(3) h(2) by (cases side) auto
  let ?y = "\<lparr>mo_id = ?k, mo_account = ro_account_id r, mo_quantity = ro_quantity r, mo_sequence = ro_sequence r\<rparr>"
  let ?kept = "?levels[i := (p, (queue_of ?levels p)[j := (queue_of ?levels p ! j)\<lparr>mo_quantity := ro_quantity r\<rparr>])]"
  let ?gone = "put_queue ?levels i (remove_at j (queue_of ?levels p))"
  have kept: "side_mirrors ?kept (map (\<lambda>e. if o_id (snd e) = ?k then (p, x\<lparr>o_quantity := ro_quantity r\<rparr>) else e) ?xs)"
    by (rule mirrors_reduce [OF m d(1) h(1)])
  have moved: "side_mirrors (push_back ?gone (ro_price r) ?y) (enqueue (descending side) (ro_price r) (model_view ?y) (delete_order ?k ?xs))"
    using d(2) [of side] by (intro mirrors_enqueue mirrors_delete [OF m d(1) h(1)]) (simp add: prio_sorted_def delete_order_def sorted_wrt_filter)
  note cross = mirrors_best [OF m d(2), of side "ro_price r", folded would_cross_prices]
  have pre: "(if ro_price r \<noteq> p \<and> replace_would_cross mb side (ro_price r) then Err ReplaceWouldCross
      else model_replace_room ?levels i (ro_price r) (bm_LEVELS m) (bm_ORDERS m)) = spec_preflight m side p (ro_price r)"
    by (simp add: spec_preflight_def cross replace_room_spec [OF m h(1)])
  let ?keep = "ro_price r = p \<and> ro_quantity r < o_quantity x"
  have run: "model_replace mb r (bm_LEVELS m) (bm_ORDERS m) = Some (
      if o_account x \<noteq> ro_account_id r then Err NotOrderOwner
      else if ?keep then Ok (set_levels mb side ?kept, o_quantity x, False)
      else and_then (spec_preflight m side p (ro_price r)) (\<lambda>_. Ok (set_levels mb side (push_back ?gone (ro_price r) ?y), o_quantity x, True)))"
    using pos unfolding model_replace_def loc pre [symmetric]
    by (simp add: Let_def i x put_queue_def)
  show ?thesis
  proof (cases "o_account x \<noteq> ro_account_id r \<or> ?keep")
    case True
    with inst pos run mirrors_set_side [OF mm kept, of side] show ?thesis by (auto simp: spec_replace_def Some t replaced_def)
  next
    case False
    with inst pos run mirrors_set_side [OF mm moved, of side] show ?thesis
      by (cases "spec_preflight m side p (ro_price r)") (auto simp: spec_replace_def Some t replaced_def)
  qed
qed

section \<open>The two books side by side\<close>

text \<open>The book is well formed, and the reference book mirrors it.\<close>

definition mirrored :: "OrderBook \<Rightarrow> ModelBook \<Rightarrow> bool" where
  "mirrored b mb \<longleftrightarrow> book_ok b \<and> model_mirrors mb (book_abs b)"

text \<open>The fill a report states.\<close>

definition report_fill :: "ExecutionReport \<Rightarrow> ModelFill" where
  "report_fill r = \<lparr>mf_maker_order_id = er_maker_order_id r, mf_price = er_price r, mf_quantity = er_quantity r\<rparr>"

lemma report_fills: "map report_fill (reports_of order fills) = map model_fill fills"
  by (auto simp: reports_of_def fill_report_def report_fill_def model_fill_def)

definition same_book :: "OrderBook \<Rightarrow> OrderBook \<Rightarrow> bool" where
  "same_book b b' \<longleftrightarrow> ob_LEVELS b' = ob_LEVELS b \<and> ob_ORDERS b' = ob_ORDERS b \<and> ob_instrument b' = ob_instrument b"

lemma same_book_abs: "bm_LEVELS m = ob_LEVELS b \<and> bm_ORDERS m = ob_ORDERS b \<and> bm_instrument m = ob_instrument b \<Longrightarrow>
    book_abs b' = m \<Longrightarrow> same_book b b'"
  by (auto simp: same_book_def)

lemma submit_mirrored:
  assumes mir: "mirrored b mb" and rb: "reports_ok rb" and inst: "no_instrument_id order = ob_instrument b"
  obtains e where "submit b order rb = Some (Err e)"
      "model_submit mb order (reports_remaining_capacity rb) (ob_LEVELS b) (ob_ORDERS b) = Some (Err e)"
  | b' rb' summary mb' fills where "submit b order rb = Some (Ok (b', rb', summary))"
      "model_submit mb order (reports_remaining_capacity rb) (ob_LEVELS b) (ob_ORDERS b) =
         Some (Ok (mb', ms_state summary, ms_filled_quantity summary, ms_resting_quantity summary, ms_discarded_quantity summary, fills))"
      "map report_fill (reports_iter rb') = map report_fill (reports_iter rb) @ fills" "reports_ok rb'"
      "length (rb_entries rb') = length (rb_entries rb)" "same_book b b'" "mirrored b' mb'"
proof -
  have ok: "book_ok b" and mm: "model_mirrors mb (book_abs b)" using mir by (simp_all add: mirrored_def)
  have sorted: "prio_sorted (descending side) (bm_side (book_abs b) side)" for side using book_shape_abs [OF ok] by (simp add: book_shape_def)
  have bi: "no_instrument_id order = bm_instrument (book_abs b)" using inst by simp
  note m = model_submit_spec [OF mm bi sorted, of "reports_remaining_capacity rb"] and s = submit_refines [OF ok rb, of order]
  show thesis
  proof (cases "spec_submit (book_abs b) order (reports_remaining_capacity rb)")
    case (Err e)
    with m s that(1) show thesis by simp
  next
    case (Ok ex)
    from Ok s obtain b' rb' where b: "submit b order rb = Some (Ok (b', rb', summary_of order ex))" "executed b' rb rb' order ex" by auto
    from Ok m obtain mb' where mb: "model_submit mb order (reports_remaining_capacity rb) (ob_LEVELS b) (ob_ORDERS b) =
        Some (Ok (mb', ms_state (summary_of order ex), ms_filled_quantity (summary_of order ex), ex_resting ex, ex_discarded ex,
          map model_fill (ex_fills ex)))" "model_mirrors mb' (ex_book ex)" by auto
    have par: "bm_LEVELS (ex_book ex) = ob_LEVELS b \<and> bm_ORDERS (ex_book ex) = ob_ORDERS b \<and> bm_instrument (ex_book ex) = ob_instrument b"
      using Ok unfolding spec_submit_def by (auto simp: and_then_Ok_iff Let_def split: if_splits prod.splits TimeInForce.splits)
    have sm: "ms_resting_quantity (summary_of order ex) = ex_resting ex" "ms_discarded_quantity (summary_of order ex) = ex_discarded ex"
      by (simp_all add: summary_of_def Let_def)
    show thesis using b(2) mb(2) same_book_abs [OF par]
      by (intro that(2) [OF b(1) mb(1) [folded sm]]) (auto simp: executed_def mirrored_def report_fills)
  qed
qed

lemma cancel_mirrored:
  assumes mir: "mirrored b mb" and inst: "co_instrument_id c = ob_instrument b"
  obtains e where "cancel b c = Some (Err e)" "model_cancel mb c = Err e"
  | b' out mb' where "cancel b c = Some (Ok (b', out))" "model_cancel mb c = Ok (mb', cn_order_id out, cn_account_id out, cn_quantity out)"
      "same_book b b'" "mirrored b' mb'"
proof -
  have ok: "book_ok b" and mm: "model_mirrors mb (book_abs b)" using mir by (simp_all add: mirrored_def)
  have bi: "co_instrument_id c = bm_instrument (book_abs b)" using inst by simp
  note m = model_cancel_spec [OF mm book_shape_abs [OF ok] bi] and s = book_cancel_refines [OF ok, of c]
  show thesis
  proof (cases "spec_cancel (book_abs b) c")
    case (Err e)
    with m s that(1) show thesis by simp
  next
    case (Ok res)
    obtain m' out where res: "res = (m', out)" by (cases res)
    from Ok s res obtain b' where b: "cancel b c = Some (Ok (b', out))" "book_ok b'" "book_abs b' = m'" by auto
    from Ok m res obtain mb' where mb: "model_cancel mb c = Ok (mb', cn_order_id out, cn_account_id out, cn_quantity out)" "model_mirrors mb' m'" by auto
    have "bm_LEVELS m' = ob_LEVELS b \<and> bm_ORDERS m' = ob_ORDERS b \<and> bm_instrument m' = ob_instrument b"
      using Ok unfolding res spec_cancel_def by (auto split: if_splits option.splits prod.splits)
    with b mb same_book_abs show thesis by (intro that(2) [OF b(1) mb(1)]) (simp_all add: mirrored_def)
  qed
qed

lemma replace_mirrored:
  assumes mir: "mirrored b mb" and inst: "ro_instrument_id r = ob_instrument b" and pos: "0 < ro_price r" "0 < ro_quantity r"
  obtains e where "replace b r = Some (Err e)" "model_replace mb r (ob_LEVELS b) (ob_ORDERS b) = Some (Err e)"
  | b' out mb' where "replace b r = Some (Ok (b', out))"
      "model_replace mb r (ob_LEVELS b) (ob_ORDERS b) = Some (Ok (mb', rp_old_quantity out, rp_priority_lost out))"
      "rp_new_quantity out = ro_quantity r" "same_book b b'" "mirrored b' mb'"
proof -
  have ok: "book_ok b" and mm: "model_mirrors mb (book_abs b)" using mir by (simp_all add: mirrored_def)
  have bi: "ro_instrument_id r = bm_instrument (book_abs b)" using inst by simp
  note m = model_replace_spec [OF mm book_shape_abs [OF ok] bi pos] and s = replace_refines [OF ok, of r]
  show thesis
  proof (cases "spec_replace (book_abs b) r")
    case (Err e)
    with m s that(1) show thesis by simp
  next
    case (Ok res)
    obtain m' out where res: "res = (m', out)" by (cases res)
    from Ok s res obtain b' where b: "replace b r = Some (Ok (b', out))" "book_ok b'" "book_abs b' = m'" by auto
    from Ok m res obtain mb' where
      mb: "model_replace mb r (ob_LEVELS b) (ob_ORDERS b) = Some (Ok (mb', rp_old_quantity out, rp_priority_lost out))" "model_mirrors mb' m'" by auto
    have "rp_new_quantity out = ro_quantity r \<and> bm_LEVELS m' = ob_LEVELS b \<and> bm_ORDERS m' = ob_ORDERS b \<and> bm_instrument m' = ob_instrument b"
      using Ok unfolding res spec_replace_def by (auto simp: and_then_Ok_iff replaced_def split: if_splits option.splits prod.splits)
    with b mb same_book_abs [OF _ b(3), of b] show thesis by (intro that(2) [OF b(1) mb(1)]) (simp_all add: mirrored_def)
  qed
qed

end
