(* ===== verification/CommandGen.thy ===== *)
theory CommandGen
  imports Types
begin

text \<open>
  The command generator of \<open>crates/hft-model/src/lib.rs\<close>: a 64-bit mixing generator of random numbers and
  the bounded stream of commands drawn from it. The state of the random numbers is a 64-bit word and its
  operations wrap as the source's do. Arithmetic written with \<open>+\<close> or \<open>*\<close> is checked, as in the builds
  the property tests run in; a failed check, a failed assertion and a failed \<open>expect\<close> are \<open>None\<close>.
\<close>

unbundle bit_operations_syntax

section \<open>Random numbers\<close>

type_synonym Rng = "64 word"

definition next_u64 :: "Rng \<Rightarrow> 64 word \<times> Rng" where
  "next_u64 state =
     (let state = state + 0x9e3779b97f4a6c15;
          mixed = (state XOR drop_bit 30 state) * 0xbf58476d1ce4e5b9;
          mixed = (mixed XOR drop_bit 27 mixed) * 0x94d049bb133111eb
      in (mixed XOR drop_bit 31 mixed, state))"

definition below :: "Rng \<Rightarrow> nat \<Rightarrow> (nat \<times> Rng) option" where
  "below rng bound =
     (if bound = 0 then None
      else let (drawn, rng) = next_u64 rng; scaled = unat drawn * bound in
        if scaled div 2 ^ 64 < 2 ^ 64 then Some (scaled div 2 ^ 64, rng) else None)"

definition coin :: "Rng \<Rightarrow> bool \<times> Rng" where
  "coin rng = (let (drawn, rng) = next_u64 rng in (drawn AND 1 = 1, rng))"

section \<open>The generator\<close>

record GenConfig =
  gc_accounts :: nat
  gc_minimum_price :: PriceTicks
  gc_maximum_price :: PriceTicks
  gc_max_quantity :: nat
  gc_cancel_probability_pct :: nat
  gc_duplicate_id_probability_pct :: nat
  gc_ioc_probability_pct :: nat
  gc_fok_probability_pct :: nat
  gc_post_only_probability_pct :: nat
  gc_replace_probability_pct :: nat

datatype ModelCommand = New NewOrder | Cancel CancelOrder | Replace ReplaceOrder

record CommandGen =
  cg_config :: GenConfig
  cg_instrument :: InstrumentId
  cg_rng :: Rng
  cg_next_sequence :: nat
  cg_fresh_ids :: nat

definition gen_new :: "GenConfig \<Rightarrow> InstrumentId \<Rightarrow> 64 word \<Rightarrow> CommandGen option" where
  "gen_new config instrument seed =
     (if gc_accounts config \<ge> 1 \<and> gc_minimum_price config \<le> gc_maximum_price config \<and> gc_max_quantity config \<ge> 1 \<and>
         gc_cancel_probability_pct config \<le> 100 \<and> gc_duplicate_id_probability_pct config \<le> 100 \<and>
         gc_ioc_probability_pct config \<le> 100 \<and> gc_fok_probability_pct config \<le> 100 \<and> gc_post_only_probability_pct config \<le> 100 \<and>
         gc_ioc_probability_pct config + gc_fok_probability_pct config + gc_post_only_probability_pct config \<le> 100 \<and>
         gc_replace_probability_pct config \<le> 100
      then Some \<lparr>cg_config = config, cg_instrument = instrument, cg_rng = seed, cg_next_sequence = 1, cg_fresh_ids = 0\<rparr>
      else None)"

definition gen_next_sequence :: "CommandGen \<Rightarrow> (nat \<times> CommandGen) option" where
  "gen_next_sequence g =
     do {
       next_sequence \<leftarrow> checked_add 64 (cg_next_sequence g) 1;
       Some (cg_next_sequence g, g\<lparr>cg_next_sequence := next_sequence\<rparr>)
     }"

definition gen_below :: "CommandGen \<Rightarrow> nat \<Rightarrow> (nat \<times> CommandGen) option" where
  "gen_below g bound = map_option (\<lambda>(drawn, rng). (drawn, g\<lparr>cg_rng := rng\<rparr>)) (below (cg_rng g) bound)"

text \<open>\<open>1 + self.rng.below(bound)\<close>.\<close>

definition gen_one_plus :: "CommandGen \<Rightarrow> nat \<Rightarrow> (nat \<times> CommandGen) option" where
  "gen_one_plus g bound =
     do {
       (drawn, g) \<leftarrow> gen_below g bound;
       n \<leftarrow> checked_add 64 1 drawn;
       Some (n, g)
     }"

definition next_account :: "CommandGen \<Rightarrow> (AccountId \<times> CommandGen) option" where
  "next_account g =
     do {
       (n, g) \<leftarrow> gen_one_plus g (gc_accounts (cg_config g));
       account \<leftarrow> u32_try_from n;
       Some (account, g)
     }"

text \<open>The width of the price band, and a price drawn from it.\<close>

definition price_span :: "GenConfig \<Rightarrow> nat option" where
  "price_span config =
     do {
       width \<leftarrow> checked_isub 64 (gc_maximum_price config) (gc_minimum_price config);
       span \<leftarrow> checked_iadd 64 width 1;
       u64_try_from span
     }"

definition next_price :: "CommandGen \<Rightarrow> nat \<Rightarrow> (PriceTicks \<times> CommandGen) option" where
  "next_price g span =
     do {
       (offset, g) \<leftarrow> gen_below g span;
       price \<leftarrow> (if offset < 2 ^ 63 then checked_iadd 64 (gc_minimum_price (cg_config g)) (int offset) else None);
       Some (price, g)
     }"

definition next_replace :: "CommandGen \<Rightarrow> (ReplaceOrder \<times> CommandGen) option" where
  "next_replace g =
     (if cg_fresh_ids g < 1 then None
      else do {
        (sequence, g) \<leftarrow> gen_next_sequence g;
        span \<leftarrow> price_span (cg_config g);
        (price, g) \<leftarrow> next_price g span;
        (order_id, g) \<leftarrow> gen_one_plus g (cg_fresh_ids g);
        (account_id, g) \<leftarrow> next_account g;
        quantity_bound \<leftarrow> checked_mul 64 (gc_max_quantity (cg_config g)) 2;
        (quantity, g) \<leftarrow> gen_one_plus g quantity_bound;
        Some (\<lparr>ro_order_id = order_id, ro_account_id = account_id, ro_instrument_id = cg_instrument g, ro_sequence = sequence,
                ro_price = price, ro_quantity = quantity\<rparr>, g)
      })"

text \<open>The identifier of a new order: a reused one with the configured probability, else the next fresh one.\<close>

definition next_order_id :: "CommandGen \<Rightarrow> (OrderId \<times> CommandGen) option" where
  "next_order_id g =
     do {
       (reuse, g) \<leftarrow>
         (if cg_fresh_ids g > 0
          then do {
            (drawn, g) \<leftarrow> gen_below g 100;
            Some (drawn < gc_duplicate_id_probability_pct (cg_config g), g)
          }
          else Some (False, g));
       (if reuse then gen_one_plus g (cg_fresh_ids g)
        else do {
          fresh_ids \<leftarrow> checked_add 64 (cg_fresh_ids g) 1;
          Some (fresh_ids, g\<lparr>cg_fresh_ids := fresh_ids\<rparr>)
        })
     }"

definition next_time_in_force :: "GenConfig \<Rightarrow> nat \<Rightarrow> TimeInForce" where
  "next_time_in_force config tif_draw =
     (let ioc_start = gc_fok_probability_pct config;
          po_start = ioc_start + gc_ioc_probability_pct config;
          po_end = po_start + gc_post_only_probability_pct config
      in if tif_draw < ioc_start then Fok
         else if tif_draw < po_start then Ioc
         else if tif_draw < po_end then PostOnly
         else Gtc)"

definition next_new :: "CommandGen \<Rightarrow> (NewOrder \<times> CommandGen) option" where
  "next_new g =
     do {
       (sequence, g) \<leftarrow> gen_next_sequence g;
       (order_id, g) \<leftarrow> next_order_id g;
       span \<leftarrow> price_span (cg_config g);
       (tif_draw, g) \<leftarrow> gen_below g 100;
       (account_id, g) \<leftarrow> next_account g;
       (price, g) \<leftarrow> next_price g span;
       (quantity, g) \<leftarrow> gen_one_plus g (gc_max_quantity (cg_config g));
       let (heads, rng) = coin (cg_rng g);
       Some (\<lparr>no_order_id = order_id, no_account_id = account_id, no_instrument_id = cg_instrument g, no_price = price,
               no_quantity = quantity, no_sequence = sequence, no_side = (if heads then Buy else Sell),
               no_time_in_force = next_time_in_force (cg_config g) tif_draw\<rparr>, g\<lparr>cg_rng := rng\<rparr>)
     }"

definition next_cancel :: "CommandGen \<Rightarrow> (CancelOrder \<times> CommandGen) option" where
  "next_cancel g =
     (if cg_fresh_ids g < 1 then None
      else do {
        (sequence, g) \<leftarrow> gen_next_sequence g;
        (order_id, g) \<leftarrow> gen_one_plus g (cg_fresh_ids g);
        (account_id, g) \<leftarrow> next_account g;
        Some (\<lparr>co_order_id = order_id, co_account_id = account_id, co_instrument_id = cg_instrument g, co_sequence = sequence\<rparr>, g)
      })"

definition next_command :: "CommandGen \<Rightarrow> (ModelCommand \<times> CommandGen) option" where
  "next_command g =
     do {
       (fresh, g) \<leftarrow>
         (if cg_fresh_ids g = 0 then Some (True, g)
          else do {
            (drawn, g) \<leftarrow> gen_below g 100;
            Some (drawn \<ge> gc_cancel_probability_pct (cg_config g), g)
          });
       (if fresh then map_option (\<lambda>(order, g). (New order, g)) (next_new g)
        else do {
          (drawn, g) \<leftarrow> gen_below g 100;
          (if drawn < gc_replace_probability_pct (cg_config g)
           then map_option (\<lambda>(order, g). (Replace order, g)) (next_replace g)
           else map_option (\<lambda>(order, g). (Cancel order, g)) (next_cancel g))
        })
     }"

definition issued_order_ids :: "CommandGen \<Rightarrow> nat" where
  "issued_order_ids g = cg_fresh_ids g"

section \<open>Bounds of the draws\<close>

lemma below_bound: "0 < bound \<Longrightarrow> bound < 2 ^ 64 \<Longrightarrow> \<exists>n rng'. below rng bound = Some (n, rng') \<and> n < bound"
proof -
  assume b: "0 < bound" "bound < 2 ^ 64"
  obtain drawn rng' where d: "next_u64 rng = (drawn, rng')" by (cases "next_u64 rng")
  have "unat drawn < 2 ^ 64" using unsigned_less [of drawn] by simp
  then have "unat drawn * bound < bound * 2 ^ 64" using b(1) by simp
  then have "unat drawn * bound div 2 ^ 64 < bound" by (simp add: less_mult_imp_div_less)
  with b d show ?thesis by (simp add: below_def)
qed

text \<open>A generator in another state of its random numbers.\<close>

definition redrawn :: "CommandGen \<Rightarrow> CommandGen \<Rightarrow> bool" where
  "redrawn g g' \<longleftrightarrow> (\<exists>rng. g' = g\<lparr>cg_rng := rng\<rparr>)"

lemma redrawnD: "redrawn g g' \<Longrightarrow> cg_config g' = cg_config g \<and> cg_instrument g' = cg_instrument g \<and>
    cg_next_sequence g' = cg_next_sequence g \<and> cg_fresh_ids g' = cg_fresh_ids g"
  by (auto simp: redrawn_def)

lemma redrawn_refl [simp]: "redrawn g g"
  unfolding redrawn_def by (rule exI [of _ "cg_rng g"]) simp

lemma redrawn_trans: "redrawn g g' \<Longrightarrow> redrawn g' g'' \<Longrightarrow> redrawn g g''"
  by (auto simp: redrawn_def)

lemma redrawn_set [simp]: "redrawn g (g\<lparr>cg_rng := rng\<rparr>)"
  by (auto simp: redrawn_def)

lemma gen_below_bound:
  assumes "0 < bound" and "bound < 2 ^ 64"
  obtains n g' where "gen_below g bound = Some (n, g')" "n < bound" "redrawn g g'"
  using below_bound [OF assms, of "cg_rng g"] that by (auto simp: gen_below_def)

lemma percent_draw:
  obtains n g' where "gen_below g 100 = Some (n, g')" "redrawn g g'"
  using gen_below_bound [of 100 g thesis] that by simp

lemma gen_one_plus_bound:
  assumes "0 < bound" and "bound < 2 ^ 64"
  obtains n g' where "gen_one_plus g bound = Some (n, g')" "1 \<le> n" "n \<le> bound" "redrawn g g'"
proof -
  obtain n g' where n: "gen_below g bound = Some (n, g')" "n < bound" "redrawn g g'" by (rule gen_below_bound [OF assms])
  with assms(2) that [of "Suc n" g'] show thesis by (simp add: gen_one_plus_def checked_add_def)
qed

section \<open>Generated commands\<close>

text \<open>
  The configurations and states in which the generator does not panic: what \<open>new\<close> asserts, the fields in
  range of their types, a price band whose width is an \<open>i64\<close>, twice the quantity bound in range.
\<close>

definition config_ok :: "GenConfig \<Rightarrow> bool" where
  "config_ok c \<longleftrightarrow> 1 \<le> gc_accounts c \<and> gc_accounts c < 2 ^ 32 \<and> i64_ok (gc_minimum_price c) \<and> i64_ok (gc_maximum_price c) \<and>
     gc_minimum_price c \<le> gc_maximum_price c \<and> gc_maximum_price c - gc_minimum_price c < 2 ^ 63 - 1 \<and>
     1 \<le> gc_max_quantity c \<and> gc_max_quantity c < 2 ^ 63"

definition gen_inv :: "CommandGen \<Rightarrow> bool" where
  "gen_inv g \<longleftrightarrow> config_ok (cg_config g) \<and> u32_ok (cg_instrument g) \<and> 1 \<le> cg_next_sequence g \<and> cg_fresh_ids g < cg_next_sequence g"

text \<open>What a command drawn in state \<open>g\<close>, with \<open>n\<close> identifiers issued after it, may contain.\<close>

fun command_bounds :: "CommandGen \<Rightarrow> nat \<Rightarrow> ModelCommand \<Rightarrow> bool" where
  "command_bounds g n (New order) \<longleftrightarrow> no_sequence order = cg_next_sequence g \<and> no_instrument_id order = cg_instrument g \<and>
     no_order_id order \<in> {1..n} \<and> no_account_id order \<in> {1..gc_accounts (cg_config g)} \<and>
     no_price order \<in> {gc_minimum_price (cg_config g)..gc_maximum_price (cg_config g)} \<and>
     no_quantity order \<in> {1..gc_max_quantity (cg_config g)} \<and>
     n = (if no_order_id order \<le> cg_fresh_ids g then cg_fresh_ids g else cg_fresh_ids g + 1)"
| "command_bounds g n (Cancel c) \<longleftrightarrow> co_sequence c = cg_next_sequence g \<and> co_instrument_id c = cg_instrument g \<and>
     co_order_id c \<in> {1..n} \<and> co_account_id c \<in> {1..gc_accounts (cg_config g)} \<and> n = cg_fresh_ids g"
| "command_bounds g n (Replace r) \<longleftrightarrow> ro_sequence r = cg_next_sequence g \<and> ro_instrument_id r = cg_instrument g \<and>
     ro_order_id r \<in> {1..n} \<and> ro_account_id r \<in> {1..gc_accounts (cg_config g)} \<and>
     ro_price r \<in> {gc_minimum_price (cg_config g)..gc_maximum_price (cg_config g)} \<and>
     ro_quantity r \<in> {1..2 * gc_max_quantity (cg_config g)} \<and> n = cg_fresh_ids g"

lemma next_account_bound:
  assumes "config_ok (cg_config g)"
  obtains a g' where "next_account g = Some (a, g')" "1 \<le> a" "a \<le> gc_accounts (cg_config g)" "redrawn g g'"
proof -
  have c: "0 < gc_accounts (cg_config g)" "gc_accounts (cg_config g) < 2 ^ 32" using assms by (simp_all add: config_ok_def)
  then have "gc_accounts (cg_config g) < 2 ^ 64" by simp
  from gen_one_plus_bound [OF c(1) this, of g] obtain a g' where
    "gen_one_plus g (gc_accounts (cg_config g)) = Some (a, g')" "1 \<le> a" "a \<le> gc_accounts (cg_config g)" "redrawn g g'" by blast
  with c(2) that show thesis by (simp add: next_account_def u32_try_from_def)
qed

lemma price_span_eq:
  assumes "config_ok c"
  shows "price_span c = Some (nat (gc_maximum_price c - gc_minimum_price c + 1))"
  using assms by (simp add: config_ok_def price_span_def checked_isub_def checked_iadd_def in_range_i_def u64_try_from_def i64_ok_def)

lemma next_price_bound:
  assumes "config_ok (cg_config g)"
  obtains p g' where "next_price g (nat (gc_maximum_price (cg_config g) - gc_minimum_price (cg_config g) + 1)) = Some (p, g')"
    "gc_minimum_price (cg_config g) \<le> p" "p \<le> gc_maximum_price (cg_config g)" "redrawn g g'"
proof -
  let ?lo = "gc_minimum_price (cg_config g)" and ?hi = "gc_maximum_price (cg_config g)"
  have c: "?lo \<le> ?hi" "?hi - ?lo < 2 ^ 63 - 1" "i64_ok ?lo" "i64_ok ?hi" using assms by (simp_all add: config_ok_def)
  then have "0 < nat (?hi - ?lo + 1)" "nat (?hi - ?lo + 1) < 2 ^ 64" by auto
  from gen_below_bound [OF this, of g] obtain n g' where
    n: "gen_below g (nat (?hi - ?lo + 1)) = Some (n, g')" "n < nat (?hi - ?lo + 1)" "redrawn g g'" by blast
  then have "int n \<le> ?hi - ?lo" by linarith
  moreover from this c(2) have "n < 2 ^ 63" by simp
  ultimately show thesis using n c(1,3,4) redrawnD [OF n(3)] that [of "?lo + int n" g']
    by (simp add: next_price_def checked_iadd_def in_range_i_def i64_ok_def)
qed

lemma gen_next_sequence_eq: "cg_next_sequence g + 1 < 2 ^ 64 \<Longrightarrow>
    gen_next_sequence g = Some (cg_next_sequence g, g\<lparr>cg_next_sequence := cg_next_sequence g + 1\<rparr>)"
  by (simp add: gen_next_sequence_def checked_add_def)

text \<open>The generator after a command: one sequence number further, \<open>n\<close> identifiers issued.\<close>

definition advanced :: "CommandGen \<Rightarrow> nat \<Rightarrow> CommandGen \<Rightarrow> bool" where
  "advanced g n g' \<longleftrightarrow> redrawn (g\<lparr>cg_next_sequence := cg_next_sequence g + 1, cg_fresh_ids := n\<rparr>) g'"

lemma advancedD: "advanced g n g' \<Longrightarrow> cg_config g' = cg_config g \<and> cg_instrument g' = cg_instrument g \<and>
    cg_next_sequence g' = cg_next_sequence g + 1 \<and> cg_fresh_ids g' = n"
  unfolding advanced_def by (drule redrawnD) simp

lemma next_order_id_bound:
  assumes "cg_fresh_ids g + 1 < 2 ^ 64"
  obtains k n g' where "next_order_id g = Some (k, g')" "k \<in> {1..n}" "redrawn (g\<lparr>cg_fresh_ids := n\<rparr>) g'"
    "n = (if k \<le> cg_fresh_ids g then cg_fresh_ids g else cg_fresh_ids g + 1)"
proof (cases "cg_fresh_ids g = 0")
  case True
  then show thesis using that [of 1 "g\<lparr>cg_fresh_ids := 1\<rparr>" 1] by (simp add: next_order_id_def checked_add_def)
next
  case False
  obtain d g1 where d: "gen_below g 100 = Some (d, g1)" "redrawn g g1" by (rule percent_draw)
  note g1 = redrawnD [OF d(2)]
  show thesis
  proof (cases "d < gc_duplicate_id_probability_pct (cg_config g)")
    case True
    obtain k g' where "gen_one_plus g1 (cg_fresh_ids g) = Some (k, g')" "1 \<le> k" "k \<le> cg_fresh_ids g" "redrawn g1 g'"
      using gen_one_plus_bound [of "cg_fresh_ids g" g1] False assms by auto
    with True False d g1 redrawn_trans [OF d(2)] show thesis by (intro that [of k g' "cg_fresh_ids g"]) (simp_all add: next_order_id_def)
  next
    case fresh: False
    from d(2) have "redrawn (g\<lparr>cg_fresh_ids := cg_fresh_ids g + 1\<rparr>) (g1\<lparr>cg_fresh_ids := cg_fresh_ids g + 1\<rparr>)"
      by (auto simp: redrawn_def intro!: exI [of _ "cg_rng g1"])
    with fresh False d(1) g1 assms show thesis
      by (intro that [of "cg_fresh_ids g + 1" "g1\<lparr>cg_fresh_ids := cg_fresh_ids g + 1\<rparr>" "cg_fresh_ids g + 1"])
        (simp_all add: next_order_id_def checked_add_def)
  qed
qed

lemma next_cancel_bound:
  assumes "gen_inv g" and "cg_next_sequence g + 1 < 2 ^ 64" and "0 < cg_fresh_ids g"
  shows "\<exists>c g'. next_cancel g = Some (c, g') \<and> advanced g (cg_fresh_ids g) g' \<and> command_bounds g (cg_fresh_ids g) (Cancel c)"
proof -
  let ?g = "g\<lparr>cg_next_sequence := cg_next_sequence g + 1\<rparr>"
  have ids: "cg_fresh_ids g < 2 ^ 64" and config: "config_ok (cg_config g)" using assms(1,2) by (auto simp: gen_inv_def)
  obtain k g1 where k: "gen_one_plus ?g (cg_fresh_ids g) = Some (k, g1)" "1 \<le> k" "k \<le> cg_fresh_ids g" "redrawn ?g g1"
    by (rule gen_one_plus_bound [OF assms(3) ids])
  note g1 = redrawnD [OF k(4)]
  obtain a g' where a: "next_account g1 = Some (a, g')" "1 \<le> a" "a \<le> gc_accounts (cg_config g1)" "redrawn g1 g'"
    by (rule next_account_bound [of g1]) (use config g1 in simp)
  note g' = redrawnD [OF a(4)]
  have "advanced g (cg_fresh_ids g) g'" using redrawn_trans [OF k(4) a(4)] by (simp add: advanced_def)
  with assms(2,3) k a g1 g' show ?thesis by (simp add: next_cancel_def gen_next_sequence_eq)
qed

lemma next_replace_bound:
  assumes "gen_inv g" and "cg_next_sequence g + 1 < 2 ^ 64" and "0 < cg_fresh_ids g"
  shows "\<exists>r g'. next_replace g = Some (r, g') \<and> advanced g (cg_fresh_ids g) g' \<and> command_bounds g (cg_fresh_ids g) (Replace r)"
proof -
  let ?g = "g\<lparr>cg_next_sequence := cg_next_sequence g + 1\<rparr>" and ?c = "cg_config g"
  have ids: "cg_fresh_ids g < 2 ^ 64" and config: "config_ok ?c" using assms(1,2) by (auto simp: gen_inv_def)
  obtain p g1 where p: "next_price ?g (nat (gc_maximum_price ?c - gc_minimum_price ?c + 1)) = Some (p, g1)"
    "gc_minimum_price ?c \<le> p" "p \<le> gc_maximum_price ?c" "redrawn ?g g1"
    by (rule next_price_bound [of ?g]) (use config in simp_all)
  note g1 = redrawnD [OF p(4)]
  obtain k g2 where k: "gen_one_plus g1 (cg_fresh_ids g) = Some (k, g2)" "1 \<le> k" "k \<le> cg_fresh_ids g" "redrawn g1 g2"
    by (rule gen_one_plus_bound [OF assms(3) ids])
  note g2 = redrawnD [OF k(4)]
  obtain a g3 where a: "next_account g2 = Some (a, g3)" "1 \<le> a" "a \<le> gc_accounts (cg_config g2)" "redrawn g2 g3"
    by (rule next_account_bound [of g2]) (use config g1 g2 in simp)
  note g3 = redrawnD [OF a(4)]
  have q: "0 < gc_max_quantity ?c * 2" "gc_max_quantity ?c * 2 < 2 ^ 64" using config by (simp_all add: config_ok_def)
  obtain n g' where n: "gen_one_plus g3 (gc_max_quantity ?c * 2) = Some (n, g')" "1 \<le> n" "n \<le> gc_max_quantity ?c * 2" "redrawn g3 g'"
    by (rule gen_one_plus_bound [OF q])
  note g' = redrawnD [OF n(4)]
  have "advanced g (cg_fresh_ids g) g'" using redrawn_trans [OF p(4) redrawn_trans [OF k(4) redrawn_trans [OF a(4) n(4)]]] by (simp add: advanced_def)
  with assms(2,3) config p k a n q g1 g2 g3 g' show ?thesis
    by (simp add: next_replace_def gen_next_sequence_eq price_span_eq checked_mul_def mult.commute)
qed

lemma next_new_bound:
  assumes "gen_inv g" and "cg_next_sequence g + 1 < 2 ^ 64"
  shows "\<exists>order n g'. next_new g = Some (order, g') \<and> advanced g n g' \<and> command_bounds g n (New order)"
proof -
  let ?g = "g\<lparr>cg_next_sequence := cg_next_sequence g + 1\<rparr>" and ?c = "cg_config g"
  have ids: "cg_fresh_ids ?g + 1 < 2 ^ 64" and config: "config_ok ?c" using assms by (auto simp: gen_inv_def)
  obtain k n g1 where k: "next_order_id ?g = Some (k, g1)" "k \<in> {1..n}" "redrawn (?g\<lparr>cg_fresh_ids := n\<rparr>) g1"
    "n = (if k \<le> cg_fresh_ids ?g then cg_fresh_ids ?g else cg_fresh_ids ?g + 1)" by (rule next_order_id_bound [OF ids])
  note g1 = redrawnD [OF k(3)]
  obtain t g2 where t: "gen_below g1 100 = Some (t, g2)" "redrawn g1 g2" by (rule percent_draw)
  note g2 = redrawnD [OF t(2)]
  obtain a g3 where a: "next_account g2 = Some (a, g3)" "1 \<le> a" "a \<le> gc_accounts (cg_config g2)" "redrawn g2 g3"
    by (rule next_account_bound [of g2]) (use config g1 g2 in simp)
  note g3 = redrawnD [OF a(4)]
  obtain p g4 where p: "next_price g3 (nat (gc_maximum_price ?c - gc_minimum_price ?c + 1)) = Some (p, g4)"
    "gc_minimum_price ?c \<le> p" "p \<le> gc_maximum_price ?c" "redrawn g3 g4"
    by (rule next_price_bound [of g3]) (use config g1 g2 g3 in simp_all)
  note g4 = redrawnD [OF p(4)]
  have q: "0 < gc_max_quantity ?c" "gc_max_quantity ?c < 2 ^ 64" using config by (auto simp: config_ok_def)
  obtain m g5 where m: "gen_one_plus g4 (gc_max_quantity ?c) = Some (m, g5)" "1 \<le> m" "m \<le> gc_max_quantity ?c" "redrawn g4 g5"
    by (rule gen_one_plus_bound [OF q])
  note g5 = redrawnD [OF m(4)]
  obtain heads rng where h: "coin (cg_rng g5) = (heads, rng)" by (cases "coin (cg_rng g5)")
  have "redrawn (?g\<lparr>cg_fresh_ids := n\<rparr>) (g5\<lparr>cg_rng := rng\<rparr>)"
    by (rule redrawn_trans [OF k(3) redrawn_trans [OF t(2) redrawn_trans [OF a(4) redrawn_trans [OF p(4) redrawn_trans [OF m(4) redrawn_set]]]]])
  then have adv: "advanced g n (g5\<lparr>cg_rng := rng\<rparr>)" by (simp add: advanced_def)
  have "\<exists>order. next_new g = Some (order, g5\<lparr>cg_rng := rng\<rparr>) \<and> command_bounds g n (New order)"
    using assms(2) config k t(1) a p m h g1 g2 g3 g4 g5 unfolding next_new_def
    by (simp add: gen_next_sequence_eq price_span_eq)
  with adv show ?thesis by blast
qed

lemma gen_inv_redrawn: "redrawn g g' \<Longrightarrow> gen_inv g' = gen_inv g"
  by (drule redrawnD) (simp add: gen_inv_def)

lemma command_bounds_redrawn: "redrawn g g' \<Longrightarrow> command_bounds g' n cmd = command_bounds g n cmd"
  by (cases cmd) (simp_all add: redrawnD)

lemma advanced_redrawn: "redrawn g g' \<Longrightarrow> advanced g' n g'' \<Longrightarrow> advanced g n g''"
  by (auto simp: advanced_def redrawn_def)

lemma next_command_bound:
  assumes inv: "gen_inv g" and room: "cg_next_sequence g + 1 < 2 ^ 64"
  shows "\<exists>cmd n g'. next_command g = Some (cmd, g') \<and> advanced g n g' \<and> command_bounds g n cmd"
proof (cases "cg_fresh_ids g = 0")
  case True
  with next_new_bound [OF inv room] show ?thesis by (auto simp: next_command_def)
next
  case ids: False
  obtain d g1 where d: "gen_below g 100 = Some (d, g1)" "redrawn g g1" by (rule percent_draw)
  obtain e g2 where e: "gen_below g1 100 = Some (e, g2)" "redrawn g1 g2" by (rule percent_draw)
  note g1 = redrawnD [OF d(2)] and r2 = redrawn_trans [OF d(2) e(2)]
  note g2 = redrawnD [OF r2]
  have 1: "gen_inv g1" "cg_next_sequence g1 + 1 < 2 ^ 64" using inv room g1 gen_inv_redrawn [OF d(2)] by simp_all
  have 2: "gen_inv g2" "cg_next_sequence g2 + 1 < 2 ^ 64" "0 < cg_fresh_ids g2" using inv room ids g2 gen_inv_redrawn [OF r2] by simp_all
  show ?thesis
  proof (cases "d \<ge> gc_cancel_probability_pct (cg_config g)")
    case True
    from next_new_bound [OF 1] obtain order n g' where "next_new g1 = Some (order, g')" "advanced g1 n g'" "command_bounds g1 n (New order)" by blast
    with True ids d g1 advanced_redrawn [OF d(2)] command_bounds_redrawn [OF d(2)] show ?thesis
      by (intro exI [of _ "New order"] exI [of _ n] exI [of _ g']) (simp add: next_command_def)
  next
    case amend: False
    show ?thesis
    proof (cases "e < gc_replace_probability_pct (cg_config g)")
      case True
      from next_replace_bound [OF 2] obtain r g' where
        "next_replace g2 = Some (r, g')" "advanced g2 (cg_fresh_ids g2) g'" "command_bounds g2 (cg_fresh_ids g2) (Replace r)" by blast
      with True amend ids d e g1 g2 advanced_redrawn [OF r2] command_bounds_redrawn [OF r2] show ?thesis
        by (intro exI [of _ "Replace r"] exI [of _ "cg_fresh_ids g"] exI [of _ g']) (simp add: next_command_def)
    next
      case False
      from next_cancel_bound [OF 2] obtain c g' where
        "next_cancel g2 = Some (c, g')" "advanced g2 (cg_fresh_ids g2) g'" "command_bounds g2 (cg_fresh_ids g2) (Cancel c)" by blast
      with False amend ids d e g1 g2 advanced_redrawn [OF r2] command_bounds_redrawn [OF r2] show ?thesis
        by (intro exI [of _ "Cancel c"] exI [of _ "cg_fresh_ids g"] exI [of _ g']) (simp add: next_command_def)
    qed
  qed
qed

lemma command_bounds_ids: "command_bounds g n cmd \<Longrightarrow> n \<le> cg_fresh_ids g + 1"
  by (cases cmd) auto

lemma advanced_inv: "gen_inv g \<Longrightarrow> command_bounds g n cmd \<Longrightarrow> advanced g n g' \<Longrightarrow> gen_inv g'"
  using command_bounds_ids [of g n cmd] by (auto simp: gen_inv_def dest!: advancedD)

lemma gen_new_inv: "gen_new config instrument seed = Some g \<Longrightarrow> config_ok config \<Longrightarrow> u32_ok instrument \<Longrightarrow>
    gen_inv g \<and> cg_config g = config \<and> cg_instrument g = instrument \<and> cg_next_sequence g = 1 \<and> cg_fresh_ids g = 0"
  by (auto simp: gen_new_def gen_inv_def split: if_splits)

section \<open>Streams of commands\<close>

fun gen_commands :: "nat \<Rightarrow> CommandGen \<Rightarrow> (ModelCommand list \<times> CommandGen) option" where
  "gen_commands 0 g = Some ([], g)"
| "gen_commands (Suc n) g =
     do {
       (cmd, g) \<leftarrow> next_command g;
       (cmds, g) \<leftarrow> gen_commands n g;
       Some (cmd # cmds, g)
     }"

fun sequence_of :: "ModelCommand \<Rightarrow> SequenceNumber" where
  "sequence_of (New order) = no_sequence order"
| "sequence_of (Cancel c) = co_sequence c"
| "sequence_of (Replace r) = ro_sequence r"

text \<open>The ranges a configuration promises, with \<open>n\<close> identifiers issued.\<close>

fun within :: "GenConfig \<Rightarrow> InstrumentId \<Rightarrow> nat \<Rightarrow> ModelCommand \<Rightarrow> bool" where
  "within c instrument n (New order) \<longleftrightarrow> no_instrument_id order = instrument \<and> no_order_id order \<in> {1..n} \<and>
     no_account_id order \<in> {1..gc_accounts c} \<and> no_price order \<in> {gc_minimum_price c..gc_maximum_price c} \<and>
     no_quantity order \<in> {1..gc_max_quantity c}"
| "within c instrument n (Cancel k) \<longleftrightarrow> co_instrument_id k = instrument \<and> co_order_id k \<in> {1..n} \<and> co_account_id k \<in> {1..gc_accounts c}"
| "within c instrument n (Replace r) \<longleftrightarrow> ro_instrument_id r = instrument \<and> ro_order_id r \<in> {1..n} \<and>
     ro_account_id r \<in> {1..gc_accounts c} \<and> ro_price r \<in> {gc_minimum_price c..gc_maximum_price c} \<and>
     ro_quantity r \<in> {1..2 * gc_max_quantity c}"

lemma bounds_within: "command_bounds g n cmd \<Longrightarrow> n \<le> m \<Longrightarrow> within (cg_config g) (cg_instrument g) m cmd"
  by (cases cmd) auto

lemma bounds_sequence: "command_bounds g n cmd \<Longrightarrow> sequence_of cmd = cg_next_sequence g \<and> cg_fresh_ids g \<le> n"
  by (cases cmd) auto

lemma gen_commands_bound:
  assumes "gen_inv g" and "cg_next_sequence g + n < 2 ^ 64"
  shows "\<exists>cmds g'. gen_commands n g = Some (cmds, g') \<and> map sequence_of cmds = [cg_next_sequence g..<cg_next_sequence g + n] \<and>
    cg_fresh_ids g \<le> issued_order_ids g' \<and> issued_order_ids g' \<le> cg_fresh_ids g + n \<and>
    list_all (within (cg_config g) (cg_instrument g) (issued_order_ids g')) cmds"
  using assms
proof (induction n arbitrary: g)
  case (Suc n)
  from next_command_bound [OF Suc.prems(1)] Suc.prems(2) obtain cmd k g1 where
    cmd: "next_command g = Some (cmd, g1)" "advanced g k g1" "command_bounds g k cmd" by auto
  note g1 = advancedD [OF cmd(2)] and seq = bounds_sequence [OF cmd(3)] and ids = command_bounds_ids [OF cmd(3)]
  from Suc.IH [OF advanced_inv [OF Suc.prems(1) cmd(3,2)]] Suc.prems(2) g1 obtain cmds g' where
    ih: "gen_commands n g1 = Some (cmds, g')" "map sequence_of cmds = [cg_next_sequence g + 1..<cg_next_sequence g + 1 + n]"
      "k \<le> issued_order_ids g'" "issued_order_ids g' \<le> k + n" "list_all (within (cg_config g) (cg_instrument g) (issued_order_ids g')) cmds"
    by auto
  have "map sequence_of (cmd # cmds) = [cg_next_sequence g..<cg_next_sequence g + Suc n]" using ih(2) seq by (simp add: upt_conv_Cons)
  with cmd ih seq ids bounds_within [OF cmd(3) ih(3)] show ?case by simp
qed (simp add: issued_order_ids_def)

text \<open>
  C22: the generator keeps its bounds. For every accepted configuration whose ranges fit their types, every
  seed and every length of the stream, the generator does not panic; sequence numbers count up from one
  without a gap; every command is of the configured instrument, names one of the accounts and an
  identifier already issued, and keeps price and quantity in the configured ranges.
\<close>
theorem generator_keeps_bounds:
  assumes "gen_new config instrument seed = Some g" and "config_ok config" and "u32_ok instrument" and "n + 1 < 2 ^ 64"
  shows "\<exists>cmds g'. gen_commands n g = Some (cmds, g') \<and> map sequence_of cmds = [1..<n + 1] \<and> issued_order_ids g' \<le> n \<and>
    list_all (within config instrument (issued_order_ids g')) cmds"
  using gen_commands_bound [of g n] gen_new_inv [OF assms(1-3)] assms(4) by auto

theorem generator_keeps_bounds_witness:
  "\<exists>cmds g'. gen_commands 200 \<lparr>cg_config = \<lparr>gc_accounts = 2, gc_minimum_price = 99, gc_maximum_price = 101, gc_max_quantity = 3,
       gc_cancel_probability_pct = 0, gc_duplicate_id_probability_pct = 0, gc_ioc_probability_pct = 15, gc_fok_probability_pct = 10,
       gc_post_only_probability_pct = 10, gc_replace_probability_pct = 30\<rparr>, cg_instrument = 1, cg_rng = 7, cg_next_sequence = 1,
       cg_fresh_ids = 0\<rparr> = Some (cmds, g') \<and> map sequence_of cmds = [1..<201] \<and> issued_order_ids g' \<le> 200"
proof -
  let ?c = "\<lparr>gc_accounts = 2, gc_minimum_price = 99, gc_maximum_price = 101, gc_max_quantity = 3,
       gc_cancel_probability_pct = 0, gc_duplicate_id_probability_pct = 0, gc_ioc_probability_pct = 15, gc_fok_probability_pct = 10,
       gc_post_only_probability_pct = 10, gc_replace_probability_pct = 30\<rparr> :: GenConfig"
  have new: "gen_new ?c 1 7 = Some \<lparr>cg_config = ?c, cg_instrument = 1, cg_rng = 7, cg_next_sequence = 1, cg_fresh_ids = 0\<rparr>" by (simp add: gen_new_def)
  have ok: "config_ok ?c" "u32_ok 1" by (simp_all add: config_ok_def i64_ok_def u32_ok_def)
  show ?thesis using generator_keeps_bounds [OF new ok, of 200] by (auto simp del: gen_commands.simps)
qed

end
