(* ===== verification/BookCheck.thy ===== *)
theory BookCheck
  imports BookProps
begin

text \<open>
  The consistency check of the book's tests, \<open>assert_index_consistent\<close> in \<open>crates/hft-book/src/lib.rs\<close>: it walks
  the live and the free chain of every level, compares each resting order with the index in both directions, and
  counts. \<open>None\<close> is a failed assertion or a walk that does not end. Every book that satisfies the invariant passes it.
\<close>

section \<open>The check\<close>

text \<open>
  The walk along the live chain, with the last slot visited, the number of orders and their quantity, whose sum of
  at most \<open>2 ^ 32\<close> quantities of 64 bits stays below \<open>2 ^ 128\<close>. More steps than slots are a cycle.
\<close>

fun check_live :: "nat \<Rightarrow> OrderBook \<Rightarrow> Side \<Rightarrow> nat \<Rightarrow> OrderSlot list \<Rightarrow> nat \<Rightarrow> nat \<Rightarrow> nat \<Rightarrow> nat \<Rightarrow> (nat \<times> nat \<times> nat) option" where
  "check_live 0 book side level_index slots prev cursor seen aggregate_quantity = None"
| "check_live (Suc fuel) book side level_index slots prev cursor seen aggregate_quantity =
     (if cursor = NIL then Some (prev, seen, aggregate_quantity)
      else case nth_opt slots cursor of
        Some (OrdLive resting) \<Rightarrow>
          let location = \<lparr>ol_side = side, ol_level_index = level_index, ol_slot = cursor\<rparr> in
          if rst_prev resting = prev \<and>
             oi_location (ob_LEVELS book) (ob_ORDERS book) (ob_index book) (rst_id resting) = Some location \<and>
             nth_opt (ob_index book) (rst_index_slot resting) =
               Some \<lparr>ix_order_id = rst_id resting, ix_location = encode_location (ob_LEVELS book) (ob_ORDERS book) location\<rparr>
          then check_live fuel book side level_index slots cursor (rst_next resting) (seen + 1)
                 (aggregate_quantity + rst_quantity resting)
          else None
      | _ \<Rightarrow> None)"

fun check_free :: "nat \<Rightarrow> OrderSlot list \<Rightarrow> nat \<Rightarrow> nat \<Rightarrow> nat option" where
  "check_free 0 slots cursor free_seen = None"
| "check_free (Suc fuel) slots cursor free_seen =
     (if cursor = NIL then Some free_seen
      else case nth_opt slots cursor of
        Some (OrdFree next_free) \<Rightarrow> check_free fuel slots next_free (free_seen + 1)
      | _ \<Rightarrow> None)"

definition check_level :: "OrderBook \<Rightarrow> Side \<Rightarrow> nat \<Rightarrow> PriceLevel \<Rightarrow> nat option" where
  "check_level book side level_index level =
     do {
       (prev, seen, aggregate_quantity) \<leftarrow>
         check_live (length (pl_slots level) + 1) book side level_index (pl_slots level) NIL (pl_head level) 0 0;
       (if prev = pl_tail level \<and> seen = pl_len level \<and> aggregate_quantity = pl_aggregate_quantity level
        then do {
          free_seen \<leftarrow> check_free (length (pl_slots level) + 1) (pl_slots level) (pl_free_head level) 0;
          (if seen + free_seen = ob_ORDERS book then Some seen else None)
        }
        else None)
     }"

fun check_levels :: "OrderBook \<Rightarrow> Side \<Rightarrow> (nat \<times> PriceLevel option) list \<Rightarrow> nat \<Rightarrow> nat option" where
  "check_levels book side [] live_orders = Some live_orders"
| "check_levels book side ((level_index, None) # levels) live_orders = check_levels book side levels live_orders"
| "check_levels book side ((level_index, Some level) # levels) live_orders =
     do {
       seen \<leftarrow> check_level book side level_index level;
       check_levels book side levels (live_orders + seen)
     }"

definition assert_index_consistent :: "OrderBook \<Rightarrow> unit option" where
  "assert_index_consistent book =
     do {
       live_orders \<leftarrow> check_levels book Buy (enumerate 0 (ob_bids book)) 0;
       live_orders \<leftarrow> check_levels book Sell (enumerate 0 (ob_asks book)) live_orders;
       let indexed_orders = length (filter (\<lambda>slot. ix_location slot \<noteq> None) (ob_index book));
       (if indexed_orders = live_orders \<and> order_count book = live_orders then Some () else None)
     }"

section \<open>Levels\<close>

lemma check_free_links:
  assumes "links (\<lambda>i. slot_next (S ! i)) h fl" and "\<forall>i \<in> set fl. i < length S \<and> \<not> is_live (S ! i)" and "NIL \<notin> set fl" and "length fl < fuel"
  shows "check_free fuel S h n = Some (n + length fl)"
  using assms
proof (induction fl arbitrary: h fuel n)
  case Nil
  then show ?case by (cases fuel) auto
next
  case (Cons x fl)
  then obtain f where f: "fuel = Suc f" by (cases fuel) auto
  obtain m where m: "S ! x = OrdFree m" using Cons.prems(2) by (cases "S ! x") auto
  with Cons.IH [of m f "n + 1"] Cons.prems f show ?case by (auto simp: nth_opt_def)
qed

text \<open>What a resting order's slot says of the index.\<close>

lemma index_entry:
  assumes wf: "book_wf b" and c: "slot_content (pair_of b) l = Some r" and l: "loc_ok (ob_LEVELS b) (ob_ORDERS b) l"
  shows "oi_location (ob_LEVELS b) (ob_ORDERS b) (ob_index b) (rst_id r) = Some l"
    and "nth_opt (ob_index b) (rst_index_slot r) = Some \<lparr>ix_order_id = rst_id r, ix_location = encode_location (ob_LEVELS b) (ob_ORDERS b) l\<rparr>"
proof -
  note index = wf_index [OF wf]
  have "handle (ob_LEVELS b) (ob_ORDERS b) (pair_of b) (rst_id r) (loc_code (ob_ORDERS b) l) (rst_index_slot r)"
    using c l unfolding handle_def by blast
  with index have "slot_holds (oi_probe (ob_index b)) (rst_index_slot r) (rst_id r) (Suc (loc_code (ob_ORDERS b) l))" unfolding index_inv_def by blast
  then have "rst_index_slot r < length (ob_index b)" "ix_location (ob_index b ! rst_index_slot r) = Some (Suc (loc_code (ob_ORDERS b) l))"
    "ix_order_id (ob_index b ! rst_index_slot r) = rst_id r" by (simp_all add: slot_holds_oi)
  moreover have "encode_location (ob_LEVELS b) (ob_ORDERS b) l = Some (Suc (loc_code (ob_ORDERS b) l))"
    using encode_location_eq [of "ob_LEVELS b" "ob_ORDERS b" l] index l by (simp add: index_inv_def probe_inv_def)
  ultimately show "nth_opt (ob_index b) (rst_index_slot r) = Some \<lparr>ix_order_id = rst_id r, ix_location = encode_location (ob_LEVELS b) (ob_ORDERS b) l\<rparr>"
    by (simp add: nth_opt_def)
  have "orders_at b l = Some (view r)" using c by (simp add: orders_at_def)
  then show "oi_location (ob_LEVELS b) (ob_ORDERS b) (ob_index b) (rst_id r) = Some l"
    unfolding oi_location_iff [OF wf] by (intro exI [of _ "view r"]) (simp add: view_def)
qed

lemma check_live_dll:
  assumes "dll S p h xs t NIL" and "NIL \<notin> set xs" and "length xs < fuel"
    and "\<And>x r. x \<in> set xs \<Longrightarrow> S ! x = OrdLive r \<Longrightarrow>
      oi_location (ob_LEVELS b) (ob_ORDERS b) (ob_index b) (rst_id r) = Some \<lparr>ol_side = side, ol_level_index = i, ol_slot = x\<rparr> \<and>
      nth_opt (ob_index b) (rst_index_slot r) = Some \<lparr>ix_order_id = rst_id r,
        ix_location = encode_location (ob_LEVELS b) (ob_ORDERS b) \<lparr>ol_side = side, ol_level_index = i, ol_slot = x\<rparr>\<rparr>"
  shows "check_live fuel b side i S p h n q = Some (t, n + length xs, q + sum_list (map (\<lambda>i. slot_quantity (S ! i)) xs))"
  using assms
proof (induction xs arbitrary: p h fuel n q)
  case Nil
  then show ?case by (cases fuel) auto
next
  case (Cons x xs)
  then obtain f where f: "fuel = Suc f" by (cases fuel) auto
  obtain r where r: "S ! x = OrdLive r" using Cons.prems(1) by (cases "S ! x") auto
  note entry = Cons.prems(4) [OF _ r]
  have "check_live f b side i S x (rst_next r) (n + 1) (q + rst_quantity r) =
      Some (t, n + 1 + length xs, q + rst_quantity r + sum_list (map (\<lambda>i. slot_quantity (S ! i)) xs))"
    by (rule Cons.IH) (use Cons.prems r f in auto)
  then show ?case using Cons.prems(1,2) r entry f by (auto simp: nth_opt_def)
qed

lemma check_level_passes:
  assumes wf: "book_wf b" and L: "level_of (side_levels b side) i = Some L"
  shows "check_level b side i L = Some (pl_len L)" and "\<exists>p xs. level_ok (ob_ORDERS b) p L xs" and "i < ob_LEVELS b"
proof -
  note inv = sides_wfD [OF wf_sides [OF wf], of side]
  from side_other_level [OF inv L] obtain p where "(p, i) \<in> set (lindex_iter (side_index b side))" by blast
  from side_level [OF inv this] L obtain xs where ok: "level_ok (ob_ORDERS b) p L xs" and i: "i < length (side_levels b side)" by auto
  show iL: "i < ob_LEVELS b" using i inv by (simp add: side_inv_def)
  show "\<exists>p xs. level_ok (ob_ORDERS b) p L xs" using ok by blast
  have lv: "level_inv L xs" "length (pl_slots L) = ob_ORDERS b" using ok by (simp_all add: level_ok_def)
  note facts = level_inv_facts [OF lv(1)]
  from lv(1) obtain fl where fl: "free_slots (pl_slots L) (pl_free_head L) fl" by (auto simp: level_inv_def)
  then have F: "distinct fl" "set fl = {i. i < length (pl_slots L) \<and> \<not> is_live (pl_slots L ! i)}" "links (\<lambda>i. slot_next (pl_slots L ! i)) (pl_free_head L) fl"
    by (simp_all add: free_slots_def)
  have X: "distinct xs" "set xs = {i. i < length (pl_slots L) \<and> is_live (pl_slots L ! i)}" "pl_len L = length xs"
    "pl_aggregate_quantity L = sum_list (map (\<lambda>i. slot_quantity (pl_slots L ! i)) xs)" "dll (pl_slots L) NIL (pl_head L) xs (pl_tail L) NIL"
    using lv(1) by (simp_all add: level_inv_def)
  have "length xs + length fl = card (set xs) + card (set fl)" using distinct_card [OF X(1)] distinct_card [OF F(1)] by simp
  also have "\<dots> = card (set xs \<union> set fl)" by (rule card_Un_disjoint [symmetric]) (auto simp: X(2) F(2))
  also have "set xs \<union> set fl = {..<length (pl_slots L)}" by (auto simp: X(2) F(2))
  finally have total_slots: "length xs + length fl = ob_ORDERS b" using lv(2) by simp
  have entry: "oi_location (ob_LEVELS b) (ob_ORDERS b) (ob_index b) (rst_id r) = Some \<lparr>ol_side = side, ol_level_index = i, ol_slot = x\<rparr> \<and>
      nth_opt (ob_index b) (rst_index_slot r) = Some \<lparr>ix_order_id = rst_id r,
        ix_location = encode_location (ob_LEVELS b) (ob_ORDERS b) \<lparr>ol_side = side, ol_level_index = i, ol_slot = x\<rparr>\<rparr>"
    if x: "x \<in> set xs" "pl_slots L ! x = OrdLive r" for x r
  proof -
    let ?l = "\<lparr>ol_side = side, ol_level_index = i, ol_slot = x\<rparr>"
    have xl: "x < length (pl_slots L)" using x(1) facts(5) by blast
    then have "slot_content (pair_of b) ?l = Some (detach r)"
      using L x(2) by (cases side) (simp_all add: slot_content_def pair_side_def side_levels_def content_def')
    moreover have "loc_ok (ob_LEVELS b) (ob_ORDERS b) ?l" using iL xl lv(2) by (simp add: loc_ok_def)
    ultimately show ?thesis using index_entry [OF wf, of ?l "detach r"] by simp
  qed
  have "check_live (length (pl_slots L) + 1) b side i (pl_slots L) NIL (pl_head L) 0 0 =
      Some (pl_tail L, 0 + length xs, 0 + sum_list (map (\<lambda>i. slot_quantity (pl_slots L ! i)) xs))"
    by (rule check_live_dll [OF X(5) facts(1)]) (use facts(3) entry in auto)
  moreover have "check_free (length (pl_slots L) + 1) (pl_slots L) (pl_free_head L) 0 = Some (0 + length fl)"
    by (rule check_free_links [OF F(3)]) (use F(2) facts(2) total_slots lv(2) in auto)
  ultimately show "check_level b side i L = Some (pl_len L)" using X(3,4) total_slots by (simp add: check_level_def)
qed

section \<open>The counts\<close>

lemma check_levels_sum:
  assumes "\<And>i L. (i, Some L) \<in> set ls \<Longrightarrow> check_level b side i L = Some (pl_len L)"
  shows "check_levels b side ls n = Some (n + sum_list (map (\<lambda>e. len_of (snd e)) ls))"
  using assms
proof (induction ls arbitrary: n)
  case (Cons e ls)
  obtain i x where e: "e = (i, x)" by (cases e)
  have "check_levels b side ls m = Some (m + sum_list (map (\<lambda>e. len_of (snd e)) ls))" for m using Cons by simp
  then show ?case using Cons.prems [of i] e by (cases x) (simp_all add: len_of_def)
qed simp

lemma check_side:
  assumes wf: "book_wf b"
  shows "check_levels b side (enumerate 0 (side_levels b side)) n = Some (n + sum_list (map len_of (side_levels b side)))"
proof -
  have "check_level b side i L = Some (pl_len L)" if "(i, Some L) \<in> set (enumerate 0 (side_levels b side))" for i L
    using that check_level_passes(1) [OF wf, of side i L] by (auto simp: in_set_enumerate_eq level_of_def nth_opt_def)
  then have "check_levels b side (enumerate 0 (side_levels b side)) n = Some (n + sum_list (map (\<lambda>e. len_of (snd e)) (enumerate 0 (side_levels b side))))"
    by (rule check_levels_sum)
  moreover have "map (\<lambda>e. len_of (snd e)) (enumerate 0 (side_levels b side)) = map len_of (side_levels b side)"
    using map_map [of len_of snd "enumerate 0 (side_levels b side)"] by (simp add: comp_def)
  ultimately show ?thesis by metis
qed

text \<open>The occupied slots of the index are the handles of the resting orders.\<close>

definition live_locations :: "OrderBook \<Rightarrow> OrderLocation set" where
  "live_locations b = {l. loc_ok (ob_LEVELS b) (ob_ORDERS b) l \<and> slot_content (pair_of b) l \<noteq> None}"

lemma indexed_locations:
  assumes wf: "book_wf b"
  shows "length (filter (\<lambda>slot. ix_location slot \<noteq> None) (ob_index b)) = card (live_locations b)"
proof -
  let ?O = "{i. i < length (ob_index b) \<and> ix_location (ob_index b ! i) \<noteq> None}" and ?f = "\<lambda>l. rst_index_slot (the (slot_content (pair_of b) l))"
  note index = wf_index [OF wf]
  have mirror: "slot_holds (oi_probe (ob_index b)) i k (Suc v) \<longleftrightarrow> handle (ob_LEVELS b) (ob_ORDERS b) (pair_of b) k v i" for i k v
    using index unfolding index_inv_def by blast
  have entry: "?f l < length (ob_index b) \<and> ix_location (ob_index b ! ?f l) = Some (Suc (loc_code (ob_ORDERS b) l))" if "l \<in> live_locations b" for l
  proof -
    from that obtain r where r: "slot_content (pair_of b) l = Some r" and l: "loc_ok (ob_LEVELS b) (ob_ORDERS b) l" by (auto simp: live_locations_def)
    then have "handle (ob_LEVELS b) (ob_ORDERS b) (pair_of b) (rst_id r) (loc_code (ob_ORDERS b) l) (rst_index_slot r)" unfolding handle_def by blast
    then have "slot_holds (oi_probe (ob_index b)) (rst_index_slot r) (rst_id r) (Suc (loc_code (ob_ORDERS b) l))" by (rule mirror [THEN iffD2])
    with r show ?thesis by (simp add: slot_holds_oi)
  qed
  have "inj_on ?f (live_locations b)"
  proof (rule inj_onI)
    fix l l' assume l: "l \<in> live_locations b" "l' \<in> live_locations b" "?f l = ?f l'"
    with entry [OF l(1)] entry [OF l(2)] have "loc_code (ob_ORDERS b) l = loc_code (ob_ORDERS b) l'" by simp
    then show "l = l'" using l(1,2) loc_code_inj [of "ob_LEVELS b" "ob_ORDERS b" l l'] by (simp add: live_locations_def)
  qed
  moreover have "?f ` live_locations b = ?O"
  proof (rule set_eqI, rule iffI)
    fix i assume "i \<in> ?f ` live_locations b"
    then show "i \<in> ?O" using entry by auto
  next
    fix i assume "i \<in> ?O"
    then obtain e where e: "i < length (ob_index b)" "ix_location (ob_index b ! i) = Some e" by auto
    then have h: "slot_holds (oi_probe (ob_index b)) i (ix_order_id (ob_index b ! i)) e" by (simp add: slot_holds_oi)
    with index have "0 < e" unfolding index_inv_def probe_inv_def by blast
    with h mirror obtain v where "handle (ob_LEVELS b) (ob_ORDERS b) (pair_of b) (ix_order_id (ob_index b ! i)) v i" by (cases e) auto
    then obtain l r where "loc_ok (ob_LEVELS b) (ob_ORDERS b) l" "slot_content (pair_of b) l = Some r" "rst_index_slot r = i" unfolding handle_def by blast
    then show "i \<in> ?f ` live_locations b" by (intro image_eqI [of _ _ l]) (simp_all add: live_locations_def)
  qed
  ultimately have "card ?O = card (live_locations b)" by (metis card_image)
  then show ?thesis by (simp add: length_filter_conv_card)
qed

lemma live_locations_count:
  assumes wf: "book_wf b"
  shows "card (live_locations b) = sum_list (map len_of (side_levels b Buy)) + sum_list (map len_of (side_levels b Sell))"
proof -
  let ?S = "\<lambda>side i. {s. s < ob_ORDERS b \<and> slot_content (pair_of b) \<lparr>ol_side = side, ol_level_index = i, ol_slot = s\<rparr> \<noteq> None}"
  let ?A = "\<lambda>side. (\<lambda>(i, s). \<lparr>ol_side = side, ol_level_index = i, ol_slot = s\<rparr>) ` (SIGMA i:{..<ob_LEVELS b}. ?S side i)"
  have level: "card (?S side i) = len_of (side_levels b side ! i)" if i: "i < ob_LEVELS b" for side i
  proof (cases "side_levels b side ! i")
    case None
    then have "level_of (side_levels b side) i = None" by (simp add: level_of_def nth_opt_def)
    then have "?S side i = {}" by (cases side) (auto simp: slot_content_def pair_side_def side_levels_def)
    with None show ?thesis by (simp only: card.empty len_of_def option.case)
  next
    case (Some L)
    have "i < length (side_levels b side)" using i sides_wfD [OF wf_sides [OF wf], of side] by (simp add: side_inv_def)
    with Some have L: "level_of (side_levels b side) i = Some L" by (simp add: level_of_def nth_opt_def)
    from check_level_passes(2) [OF wf L] obtain p xs where ok: "level_ok (ob_ORDERS b) p L xs" by blast
    then have lv: "level_inv L xs" "length (pl_slots L) = ob_ORDERS b" by (simp_all add: level_ok_def)
    have "?S side i = set xs" using level_inv_facts(4,5) [OF lv(1)] L lv(2)
      by (cases side) (auto simp: slot_content_def pair_side_def side_levels_def)
    moreover have "distinct xs" "pl_len L = length xs" using lv(1) by (simp_all add: level_inv_def)
    ultimately show ?thesis using Some distinct_card [of xs] by (simp add: len_of_def)
  qed
  have side: "card (?A side) = sum_list (map len_of (side_levels b side))" for side
  proof -
    have len: "length (side_levels b side) = ob_LEVELS b" using sides_wfD [OF wf_sides [OF wf], of side] by (simp add: side_inv_def)
    have "card (?A side) = card (SIGMA i:{..<ob_LEVELS b}. ?S side i)" by (rule card_image) (auto intro!: inj_onI)
    also have "\<dots> = (\<Sum>i<ob_LEVELS b. card (?S side i))" by (rule card_SigmaI) auto
    also have "\<dots> = (\<Sum>i<ob_LEVELS b. len_of (side_levels b side ! i))" using level by (intro sum.cong) auto
    also have "\<dots> = sum_list (map len_of (side_levels b side))" by (simp add: sum_list_sum_nth len atLeast0LessThan)
    finally show ?thesis .
  qed
  have "live_locations b = ?A Buy \<union> ?A Sell"
  proof (rule set_eqI)
    fix l :: OrderLocation
    show "l \<in> live_locations b \<longleftrightarrow> l \<in> ?A Buy \<union> ?A Sell"
      by (cases l; rename_tac side i s, case_tac side) (auto simp: live_locations_def loc_ok_def image_iff)
  qed
  moreover have "?A Buy \<inter> ?A Sell = {}" by auto
  moreover have "finite (?A side)" for side by (intro finite_imageI finite_SigmaI) auto
  ultimately show ?thesis using card_Un_disjoint [of "?A Buy" "?A Sell"] side by metis
qed

text \<open>Every book that satisfies the invariant passes the check.\<close>

theorem index_consistent:
  assumes "book_ok b"
  shows "assert_index_consistent b = Some ()"
proof -
  have wf: "book_wf b" using assms by (simp add: book_ok_def)
  have "check_levels b Buy (enumerate 0 (ob_bids b)) 0 = Some (sum_list (map len_of (ob_bids b)))"
    "check_levels b Sell (enumerate 0 (ob_asks b)) n = Some (n + sum_list (map len_of (ob_asks b)))" for n
    using check_side [OF wf, of Buy 0] check_side [OF wf, of Sell n] by (simp_all add: side_levels_def)
  moreover have "order_count b = sum_list (map len_of (ob_bids b)) + sum_list (map len_of (ob_asks b))"
    by (simp add: order_count_def len_of_def [abs_def])
  ultimately show ?thesis using indexed_locations [OF wf] live_locations_count [OF wf] by (simp add: assert_index_consistent_def side_levels_def)
qed

end
