(* ===== verification/Differential.thy ===== *)
theory Differential
  imports ModelBookProps CommandGen BookCheck
begin

text \<open>
  The differential test of the order book, \<open>generated_commands_match_array_model\<close> in
  \<open>crates/hft-book/src/lib.rs\<close>: it draws commands from the generator, gives each to the order book and to
  the reference book, and panics (\<open>None\<close> here) when an answer or the dump of the resting orders differs or the
  book fails its consistency check. The theorem is that it never panics, for any seed and number of steps and any
  configuration of the generator with positive prices.
\<close>

section \<open>The test\<close>

type_synonym ModelDump = "(Side \<times> PriceTicks \<times> OrderId \<times> Quantity \<times> SequenceNumber) list"

text \<open>\<open>levels.iter().flatten()\<close>.\<close>

definition occupied :: "PriceLevel option list \<Rightarrow> PriceLevel list" where
  "occupied ls = map the (filter (\<lambda>l. l \<noteq> None) ls)"

definition dump_side :: "Side \<Rightarrow> PriceLevel option list \<Rightarrow> ModelDump option" where
  "dump_side side ls =
     map_option concat (those (map (\<lambda>price.
       do {
         level \<leftarrow> find (\<lambda>level. pl_price level = price) (occupied ls);
         orders \<leftarrow> for_each_live level;
         Some (map (\<lambda>order. (side, price, rst_id order, rst_quantity order, rst_sequence order)) orders)
       }) (sort (map pl_price (occupied ls)))))"

definition dump_book :: "OrderBook \<Rightarrow> ModelDump option" where
  "dump_book b =
     do {
       bids \<leftarrow> dump_side Buy (ob_bids b);
       asks \<leftarrow> dump_side Sell (ob_asks b);
       Some (bids @ asks)
     }"

definition check_submit :: "nat \<Rightarrow> nat \<Rightarrow> nat \<Rightarrow> OrderBook \<Rightarrow> ModelBook \<Rightarrow> ReportBuffer \<Rightarrow> NewOrder
    \<Rightarrow> (OrderBook \<times> ModelBook \<times> ReportBuffer) option" where
  "check_submit LEVELS ORDERS REPORTS book model reports command =
     do {
       let reports = reports_clear reports;
       actual \<leftarrow> submit book command reports;
       expected \<leftarrow> model_submit model command REPORTS LEVELS ORDERS;
       (case (actual, expected) of
          (Ok (book, reports, summary), Ok (model, state, filled_quantity, resting, _, fills)) \<Rightarrow>
            if ms_state summary = state \<and> ms_filled_quantity summary = filled_quantity \<and> ms_resting_quantity summary = resting \<and>
               map (\<lambda>report. (er_maker_order_id report, er_price report, er_quantity report)) (reports_iter reports) =
               map (\<lambda>fill. (mf_maker_order_id fill, mf_price fill, mf_quantity fill)) fills
            then Some (book, model, reports) else None
        | (Err actual_error, Err expected_error) \<Rightarrow> if actual_error = expected_error then Some (book, model, reports) else None
        | _ \<Rightarrow> None)
     }"

definition check_cancel :: "OrderBook \<Rightarrow> ModelBook \<Rightarrow> CancelOrder \<Rightarrow> (OrderBook \<times> ModelBook) option" where
  "check_cancel book model command =
     do {
       actual \<leftarrow> cancel book command;
       (case (actual, model_cancel model command) of
          (Ok (book, cancelled), Ok (model, order_id, account, quantity)) \<Rightarrow>
            if cn_order_id cancelled = order_id \<and> cn_account_id cancelled = account \<and> cn_quantity cancelled = quantity
            then Some (book, model) else None
        | (Err actual_error, Err expected_error) \<Rightarrow> if actual_error = expected_error then Some (book, model) else None
        | _ \<Rightarrow> None)
     }"

definition check_replace :: "nat \<Rightarrow> nat \<Rightarrow> OrderBook \<Rightarrow> ModelBook \<Rightarrow> ReplaceOrder \<Rightarrow> (OrderBook \<times> ModelBook) option" where
  "check_replace LEVELS ORDERS book model command =
     do {
       actual \<leftarrow> replace book command;
       expected \<leftarrow> model_replace model command LEVELS ORDERS;
       (case (actual, expected) of
          (Ok (book, out), Ok (model, old_quantity, priority_lost)) \<Rightarrow>
            if rp_old_quantity out = old_quantity \<and> rp_priority_lost out = priority_lost \<and> rp_new_quantity out = ro_quantity command
            then Some (book, model) else None
        | (Err actual_error, Err expected_error) \<Rightarrow> if actual_error = expected_error then Some (book, model) else None
        | _ \<Rightarrow> None)
     }"

text \<open>One step: the command, the comparison of the two dumps, the consistency check.\<close>

definition differential_step :: "nat \<Rightarrow> nat \<Rightarrow> nat \<Rightarrow> OrderBook \<times> ModelBook \<times> ReportBuffer \<Rightarrow> ModelCommand
    \<Rightarrow> (OrderBook \<times> ModelBook \<times> ReportBuffer) option" where
  "differential_step LEVELS ORDERS REPORTS st command =
     do {
       let (book, model, reports) = st;
       (book, model, reports) \<leftarrow>
         (case command of
            New command \<Rightarrow> check_submit LEVELS ORDERS REPORTS book model reports command
          | Cancel command \<Rightarrow> map_option (\<lambda>(book, model). (book, model, reports)) (check_cancel book model command)
          | Replace command \<Rightarrow> map_option (\<lambda>(book, model). (book, model, reports)) (check_replace LEVELS ORDERS book model command));
       actual \<leftarrow> dump_book book;
       expected \<leftarrow> dump_model model;
       (if actual = expected
        then do {
          _ \<leftarrow> assert_index_consistent book;
          Some (book, model, reports)
        }
        else None)
     }"

fun differential_run :: "nat \<Rightarrow> nat \<Rightarrow> nat \<Rightarrow> nat \<Rightarrow> CommandGen \<Rightarrow> OrderBook \<times> ModelBook \<times> ReportBuffer
    \<Rightarrow> (CommandGen \<times> OrderBook \<times> ModelBook \<times> ReportBuffer) option" where
  "differential_run LEVELS ORDERS REPORTS 0 generator st = Some (generator, st)"
| "differential_run LEVELS ORDERS REPORTS (Suc n) generator st =
     do {
       (command, generator) \<leftarrow> next_command generator;
       st \<leftarrow> differential_step LEVELS ORDERS REPORTS st command;
       differential_run LEVELS ORDERS REPORTS n generator st
     }"

definition generated_commands_match_array_model :: "nat \<Rightarrow> nat \<Rightarrow> nat \<Rightarrow> GenConfig \<Rightarrow> InstrumentId \<Rightarrow> 64 word \<Rightarrow> nat
    \<Rightarrow> (CommandGen \<times> OrderBook \<times> ModelBook \<times> ReportBuffer) option" where
  "generated_commands_match_array_model LEVELS ORDERS REPORTS config instrument seed steps =
     do {
       generator \<leftarrow> gen_new config instrument seed;
       differential_run LEVELS ORDERS REPORTS steps generator
         (book_new LEVELS ORDERS instrument, \<lparr>mb_bids = [], mb_asks = []\<rparr>, reports_new REPORTS)
     }"

section \<open>The dumps\<close>

text \<open>What a dump of a mirrored side holds: prices ascending, each price's orders in their order.\<close>

definition dump_list :: "Side \<Rightarrow> plist \<Rightarrow> ModelDump" where
  "dump_list side xs = concat (map (\<lambda>p. map (\<lambda>e. (side, p, o_id (snd e), o_quantity (snd e), o_sequence (snd e)))
     (filter (\<lambda>e. fst e = p) xs)) (sorted_list_of_set (fst ` set xs)))"

lemma those_map_Some: "(\<And>x. x \<in> set xs \<Longrightarrow> f x = Some (g x)) \<Longrightarrow> those (map f xs) = Some (map g xs)"
  by (induction xs) auto

lemma dump_levels_eq:
  assumes m: "side_mirrors levels xs"
  shows "dump_levels side levels = Some (dump_list side xs)"
proof -
  have d: "distinct (map fst levels)" using side_mirrorsD(1) [OF m] by (simp add: levels_ok_def)
  have prices: "sort (map fst levels) = sorted_list_of_set (fst ` set xs)"
    using sorted_list_of_set_sort_remdups [of "map fst levels"] d mirrors_prices [OF m] by (simp add: distinct_remdups_id)
  let ?f = "\<lambda>p. map_option (\<lambda>l. map (\<lambda>x. (side, p, mo_id x, mo_quantity x, mo_sequence x)) (snd l)) (find (\<lambda>l. fst l = p) levels)"
  let ?g = "\<lambda>p. map (\<lambda>e. (side, p, o_id (snd e), o_quantity (snd e), o_sequence (snd e))) (filter (\<lambda>e. fst e = p) xs)"
  have "?f p = Some (?g p)" if "p \<in> set (sort (map fst levels))" for p
  proof -
    have "p \<in> fst ` set levels" using that by simp
    then obtain q where q: "map_of levels p = Some q" using map_of_eq_None_iff [of levels p] by (cases "map_of levels p") auto
    have "map (\<lambda>x. (side, p, mo_id x, mo_quantity x, mo_sequence x)) q =
        map (\<lambda>x. (side, p, o_id x, o_quantity x, o_sequence x)) (map model_view (queue_of levels p))" using q by (simp add: queue_of_def)
    also have "\<dots> = map (\<lambda>e. (side, p, o_id (snd e), o_quantity (snd e), o_sequence (snd e))) (filter (\<lambda>e. fst e = p) xs)"
      unfolding side_mirrorsD(2) [OF m] by simp
    finally show ?thesis using q by (simp add: find_level)
  qed
  then have "those (map ?f (sort (map fst levels))) = Some (map ?g (sort (map fst levels)))" by (rule those_map_Some)
  then show ?thesis unfolding dump_levels_def dump_list_def prices by simp
qed

text \<open>The levels of a side of the order book, read as a vector of levels.\<close>

definition read_order :: "RestingOrder \<Rightarrow> ModelOrder" where
  "read_order r = \<lparr>mo_id = rst_id r, mo_account = rst_account_id r, mo_quantity = rst_quantity r, mo_sequence = rst_sequence r\<rparr>"

definition read_level :: "PriceLevel \<Rightarrow> PriceTicks \<times> ModelOrder list" where
  "read_level L = (pl_price L, case for_each_live L of None \<Rightarrow> [] | Some rs \<Rightarrow> map read_order rs)"

lemma view_read_order [simp]: "model_view (read_order r) = view r"
  by (simp add: read_order_def view_def)

lemma read_level_queue: "map model_view (snd (read_level L)) = level_queue L" "fst (read_level L) = pl_price L"
  by (simp_all add: read_level_def level_queue_def split: option.splits)

lemma in_occupied: "L \<in> set (occupied ls) \<longleftrightarrow> Some L \<in> set ls"
  by (force simp: occupied_def)

lemma distinct_occupied:
  "(\<And>i j L L'. i < length ls \<Longrightarrow> j < length ls \<Longrightarrow> ls ! i = Some L \<Longrightarrow> ls ! j = Some L' \<Longrightarrow> f L = f L' \<Longrightarrow> i = j) \<Longrightarrow>
   distinct (map f (occupied ls))"
proof (induction ls)
  case (Cons l ls)
  have "distinct (map f (occupied ls))"
  proof (rule Cons.IH)
    fix i j L L' assume "i < length ls" "j < length ls" "ls ! i = Some L" "ls ! j = Some L'" "f L = f L'"
    with Cons.prems [of "Suc i" "Suc j" L L'] show "i = j" by simp
  qed
  moreover have "f L \<noteq> f L'" if "l = Some L" "Some L' \<in> set ls" for L L'
  proof -
    from that(2) obtain j where "j < length ls" "ls ! j = Some L'" by (auto simp: in_set_conv_nth)
    with Cons.prems [of 0 "Suc j" L L'] that(1) show ?thesis by auto
  qed
  ultimately show ?case by (cases l) (auto simp: occupied_def)
qed (simp add: occupied_def)

lemma occupied_entries:
  assumes inv: "side_inv LEVELS ORDERS d ls ix" and i: "i < length ls" and L: "ls ! i = Some L"
  shows "(pl_price L, i) \<in> set (lindex_iter ix)"
proof -
  have "i \<in> snd ` set (lindex_iter ix)" using inv i L by (auto simp: side_inv_def)
  then obtain p where p: "(p, i) \<in> set (lindex_iter ix)" by auto
  with side_level [OF inv p] L show ?thesis by (auto simp: level_ok_def)
qed

lemma book_mirrors_itself:
  assumes inv: "side_inv LEVELS ORDERS d ls ix"
  shows "side_mirrors (map read_level (occupied ls)) (concat (map (\<lambda>(p, i). map (Pair p) (queue_at ls i)) (lindex_iter ix)))"
proof -
  let ?levels = "map read_level (occupied ls)" and ?es = "lindex_iter ix"
  note d = lindex_distinct [of LEVELS d ix]
  have ix: "lindex_inv LEVELS d ix" using inv by (simp add: side_inv_def)
  have dist: "distinct (map fst ?levels)"
  proof -
    have "distinct (map pl_price (occupied ls))"
    proof (rule distinct_occupied)
      fix i j L L' assume *: "i < length ls" "j < length ls" "ls ! i = Some L" "ls ! j = Some L'" "pl_price L = pl_price L'"
      then have "(pl_price L, i) \<in> set ?es" "(pl_price L, j) \<in> set ?es" using occupied_entries [OF inv] by metis+
      with d [OF ix] show "i = j" by (metis eq_key_imp_eq_value)
    qed
    then show ?thesis by (simp add: read_level_queue(2) o_def)
  qed
  have level: "Some L \<in> set ls \<longleftrightarrow> (\<exists>i. (pl_price L, i) \<in> set ?es \<and> ls ! i = Some L)" for L
    using occupied_entries [OF inv] side_level [OF inv] by (metis in_set_conv_nth)
  have nonempty: "level_queue L \<noteq> []" if "Some L \<in> set ls" for L
  proof -
    from that level obtain i where "(pl_price L, i) \<in> set ?es" "ls ! i = Some L" by blast
    from side_level [OF inv this(1)] this(2) obtain xs where "level_inv L xs" "xs \<noteq> []" by (auto simp: level_ok_def)
    then show ?thesis by (simp add: level_queue_eq)
  qed
  have ok: "levels_ok ?levels"
    unfolding levels_ok_def
  proof (intro conjI ballI dist)
    fix l assume "l \<in> set ?levels"
    then obtain L where "l = read_level L" "Some L \<in> set ls" by (auto simp: in_occupied)
    with nonempty read_level_queue(1) [of L] show "snd l \<noteq> []" by fastforce
  qed
  have "map model_view (queue_of ?levels p) = map snd (filter (\<lambda>e. fst e = p) (concat (map (\<lambda>(p, i). map (Pair p) (queue_at ls i)) ?es)))" for p
  proof -
    have one: "filter (\<lambda>e. fst e = p) (concat (map (\<lambda>(p, i). map (Pair p) (queue_at ls i)) es)) =
        (case map_of es p of None \<Rightarrow> [] | Some i \<Rightarrow> map (Pair p) (queue_at ls i))" if "distinct (map fst es)" for es
      using that
    proof (induction es)
      case (Cons e es)
      have "map_of es p = None" if "fst e = p" using Cons.prems that by (auto simp: map_of_eq_None_iff)
      with Cons show ?case by (cases e) (auto simp: filter_empty_conv)
    qed simp
    show ?thesis
    proof (cases "map_of ?es p")
      case None
      have "p \<notin> fst ` set ?levels"
      proof
        assume "p \<in> fst ` set ?levels"
        then obtain L where "Some L \<in> set ls" "pl_price L = p" by (auto simp: in_occupied read_level_queue(2))
        with level None show False by (force simp: map_of_eq_None_iff)
      qed
      with None show ?thesis using queue_of_empty [OF ok, of p] by (simp add: one [OF d [OF ix]])
    next
      case (Some i)
      note pi = map_of_SomeD [OF Some]
      from side_level [OF inv pi] obtain L where L: "level_of ls i = Some L" "ls ! i = Some L" "pl_price L = p" by (auto simp: level_ok_def)
      with level pi have "L \<in> set (occupied ls)" by (auto simp: in_occupied)
      then have "read_level L \<in> set ?levels" by simp
      then have "map_of ?levels p = Some (snd (read_level L))"
        using dist L(3) by (intro map_of_is_SomeI) (simp_all add: read_level_def)
      with Some L show ?thesis unfolding one [OF d [OF ix]] by (simp add: queue_of_def queue_at_def read_level_queue(1) o_def)
    qed
  qed
  with ok show ?thesis by (simp add: side_mirrors_def)
qed

lemma dump_side_levels:
  assumes "\<And>L. Some L \<in> set ls \<Longrightarrow> for_each_live L \<noteq> None"
  shows "dump_side side ls = dump_levels side (map read_level (occupied ls))"
proof -
  have "find (\<lambda>l. fst l = p) (map read_level Ls) = map_option read_level (find (\<lambda>L. pl_price L = p) Ls)" for p Ls
    by (induction Ls) (auto simp: read_level_queue(2))
  moreover have "for_each_live L \<noteq> None" if "find (\<lambda>L. pl_price L = p) (occupied ls) = Some L" for L p
    using assms that by (metis find_Some_iff in_occupied nth_mem)
  ultimately have "do {
         level \<leftarrow> find (\<lambda>level. pl_price level = p) (occupied ls);
         orders \<leftarrow> for_each_live level;
         Some (map (\<lambda>order. (side, p, rst_id order, rst_quantity order, rst_sequence order)) orders)
       } = map_option (\<lambda>l. map (\<lambda>order. (side, p, mo_id order, mo_quantity order, mo_sequence order)) (snd l))
         (find (\<lambda>l. fst l = p) (map read_level (occupied ls)))" for p
    by (cases "find (\<lambda>L. pl_price L = p) (occupied ls)") (fastforce simp: read_level_def read_order_def)+
  then show ?thesis by (simp add: dump_side_def dump_levels_def read_level_queue(2) o_def)
qed

lemma dumps_agree:
  assumes "mirrored b mb"
  shows "\<exists>dump. dump_book b = Some dump \<and> dump_model mb = Some dump"
proof -
  have ok: "book_ok b" and mm: "model_mirrors mb (book_abs b)" using assms by (simp_all add: mirrored_def)
  have side: "dump_side s (side_levels b s) = Some (dump_list s (book_list b s))" for s
  proof -
    have "book_wf b" using ok by (simp add: book_ok_def)
    note inv = wf_side [OF this, of s]
    have "for_each_live L \<noteq> None" if "Some L \<in> set (side_levels b s)" for L
    proof -
      from that obtain i where "i < length (side_levels b s)" "side_levels b s ! i = Some L" by (auto simp: in_set_conv_nth)
      from side_level [OF inv occupied_entries [OF inv this]] this(2) obtain xs where "level_inv L xs" by (auto simp: level_ok_def)
      then show ?thesis by (simp add: for_each_live_eq)
    qed
    from dump_side_levels [where side = s, OF this] dump_levels_eq [OF book_mirrors_itself [OF inv], of s] show ?thesis by (simp add: book_list_def)
  qed
  have "dump_levels s (levels_of mb s) = Some (dump_list s (book_list b s))" for s
    using mm by (intro dump_levels_eq) (simp add: model_mirrors_def)
  from this [of Buy] this [of Sell] side [of Buy] side [of Sell] show ?thesis
    by (simp add: dump_book_def dump_model_def side_levels_def)
qed

section \<open>The test never fails\<close>

text \<open>The state between two steps of the test.\<close>

definition test_inv :: "nat \<Rightarrow> nat \<Rightarrow> nat \<Rightarrow> InstrumentId \<Rightarrow> OrderBook \<times> ModelBook \<times> ReportBuffer \<Rightarrow> bool" where
  "test_inv LEVELS ORDERS REPORTS instrument st \<longleftrightarrow> (case st of (b, mb, rb) \<Rightarrow>
     mirrored b mb \<and> ob_LEVELS b = LEVELS \<and> ob_ORDERS b = ORDERS \<and> ob_instrument b = instrument \<and> length (rb_entries rb) = REPORTS)"

lemma cleared_capacity [simp]: "reports_remaining_capacity (reports_clear rb) = length (rb_entries rb)"
    "rb_entries (reports_clear rb) = rb_entries rb"
  by (simp_all add: reports_remaining_capacity_def reports_clear_def)

lemma report_fill_eq: "map (\<lambda>r. (er_maker_order_id r, er_price r, er_quantity r)) rs =
    map (\<lambda>f. (mf_maker_order_id f, mf_price f, mf_quantity f)) (map report_fill rs)"
  by (simp add: report_fill_def)

lemma check_submit_passes:
  assumes inv: "test_inv LEVELS ORDERS REPORTS instrument (b, mb, rb)" and "no_instrument_id order = instrument"
  shows "\<exists>st'. check_submit LEVELS ORDERS REPORTS b mb rb order = Some st' \<and> test_inv LEVELS ORDERS REPORTS instrument st'"
proof -
  have mir: "mirrored b mb" and inst: "no_instrument_id order = ob_instrument b"
    and par: "ob_LEVELS b = LEVELS" "ob_ORDERS b = ORDERS" "ob_instrument b = instrument" "length (rb_entries rb) = REPORTS"
    using assms by (simp_all add: test_inv_def)
  show ?thesis
  proof (rule submit_mirrored [OF mir reports_clear_ok inst, of rb])
    fix e
    assume "submit b order (reports_clear rb) = Some (Err e)"
      "model_submit mb order (reports_remaining_capacity (reports_clear rb)) (ob_LEVELS b) (ob_ORDERS b) = Some (Err e)"
    then show ?thesis using inv par by (simp add: check_submit_def test_inv_def)
  next
    fix b' rb' summary mb' fills
    assume run: "submit b order (reports_clear rb) = Some (Ok (b', rb', summary))"
      "model_submit mb order (reports_remaining_capacity (reports_clear rb)) (ob_LEVELS b) (ob_ORDERS b) =
         Some (Ok (mb', ms_state summary, ms_filled_quantity summary, ms_resting_quantity summary, ms_discarded_quantity summary, fills))"
      "map report_fill (reports_iter rb') = map report_fill (reports_iter (reports_clear rb)) @ fills"
      and keep: "length (rb_entries rb') = length (rb_entries (reports_clear rb))" "same_book b b'" "mirrored b' mb'"
    then have "check_submit LEVELS ORDERS REPORTS b mb rb order = Some (b', mb', rb')"
      using par unfolding check_submit_def report_fill_eq by (simp del: map_map)
    with keep par show ?thesis by (simp add: test_inv_def same_book_def)
  qed
qed

lemma check_cancel_passes:
  assumes inv: "test_inv LEVELS ORDERS REPORTS instrument (b, mb, rb)" and "co_instrument_id c = instrument"
  shows "\<exists>b' mb'. check_cancel b mb c = Some (b', mb') \<and> test_inv LEVELS ORDERS REPORTS instrument (b', mb', rb)"
proof -
  have "mirrored b mb" "co_instrument_id c = ob_instrument b" using assms by (simp_all add: test_inv_def)
  then show ?thesis by (rule cancel_mirrored) (use inv in \<open>simp_all add: check_cancel_def test_inv_def same_book_def\<close>)
qed

lemma check_replace_passes:
  assumes inv: "test_inv LEVELS ORDERS REPORTS instrument (b, mb, rb)" and "ro_instrument_id r = instrument"
    and pos: "0 < ro_price r" "0 < ro_quantity r"
  shows "\<exists>b' mb'. check_replace LEVELS ORDERS b mb r = Some (b', mb') \<and> test_inv LEVELS ORDERS REPORTS instrument (b', mb', rb)"
proof -
  have "mirrored b mb" "ro_instrument_id r = ob_instrument b" using assms by (simp_all add: test_inv_def)
  then show ?thesis by (rule replace_mirrored [OF _ _ pos]) (use inv in \<open>simp_all add: check_replace_def test_inv_def same_book_def\<close>)
qed

text \<open>
  The commands on which the books are comparable: of their instrument, and replaces with a positive price
  and quantity.
\<close>

fun comparable :: "InstrumentId \<Rightarrow> ModelCommand \<Rightarrow> bool" where
  "comparable instrument (New order) \<longleftrightarrow> no_instrument_id order = instrument"
| "comparable instrument (Cancel c) \<longleftrightarrow> co_instrument_id c = instrument"
| "comparable instrument (Replace r) \<longleftrightarrow> ro_instrument_id r = instrument \<and> 0 < ro_price r \<and> 0 < ro_quantity r"

lemma command_bounds_comparable: "command_bounds g n cmd \<Longrightarrow> 0 < gc_minimum_price (cg_config g) \<Longrightarrow> comparable (cg_instrument g) cmd"
  by (cases cmd) auto

lemma differential_step_passes:
  assumes inv: "test_inv LEVELS ORDERS REPORTS instrument st" and cmd: "comparable instrument command"
  shows "\<exists>st'. differential_step LEVELS ORDERS REPORTS st command = Some st' \<and> test_inv LEVELS ORDERS REPORTS instrument st'"
proof -
  obtain b mb rb where st: "st = (b, mb, rb)" by (cases st)
  have dumps: "assert_index_consistent b' = Some () \<and> (\<exists>dump. dump_book b' = Some dump \<and> dump_model mb' = Some dump)"
    if "test_inv LEVELS ORDERS REPORTS instrument (b', mb', rb')" for b' mb' rb'
    using that index_consistent dumps_agree [of b' mb'] by (simp add: test_inv_def mirrored_def)
  show ?thesis
  proof (cases command)
    case (New order)
    with check_submit_passes [OF inv [unfolded st], of order] cmd obtain b' mb' rb' where
      "check_submit LEVELS ORDERS REPORTS b mb rb order = Some (b', mb', rb')" "test_inv LEVELS ORDERS REPORTS instrument (b', mb', rb')" by auto
    with dumps [of b' mb' rb'] New st show ?thesis by (auto simp: differential_step_def)
  next
    case (Cancel c)
    with check_cancel_passes [OF inv [unfolded st], of c] cmd obtain b' mb' where
      "check_cancel b mb c = Some (b', mb')" "test_inv LEVELS ORDERS REPORTS instrument (b', mb', rb)" by auto
    with dumps [of b' mb' rb] Cancel st show ?thesis by (auto simp: differential_step_def)
  next
    case (Replace r)
    with check_replace_passes [OF inv [unfolded st], of r] cmd obtain b' mb' where
      "check_replace LEVELS ORDERS b mb r = Some (b', mb')" "test_inv LEVELS ORDERS REPORTS instrument (b', mb', rb)" by auto
    with dumps [of b' mb' rb] Replace st show ?thesis by (auto simp: differential_step_def)
  qed
qed

lemma differential_run_passes:
  assumes "gen_inv g" and "cg_next_sequence g + n < 2 ^ 64" and "0 < gc_minimum_price (cg_config g)"
    and "test_inv LEVELS ORDERS REPORTS (cg_instrument g) st"
  shows "\<exists>g' st'. differential_run LEVELS ORDERS REPORTS n g st = Some (g', st') \<and> cg_next_sequence g' = cg_next_sequence g + n \<and>
    gen_inv g' \<and> test_inv LEVELS ORDERS REPORTS (cg_instrument g) st'"
  using assms
proof (induction n arbitrary: g st)
  case (Suc n)
  from next_command_bound [OF Suc.prems(1)] Suc.prems(2) obtain cmd k g1 where
    cmd: "next_command g = Some (cmd, g1)" "advanced g k g1" "command_bounds g k cmd" by auto
  from differential_step_passes [OF Suc.prems(4) command_bounds_comparable [OF cmd(3) Suc.prems(3)]] obtain st1 where
    st: "differential_step LEVELS ORDERS REPORTS st cmd = Some st1" "test_inv LEVELS ORDERS REPORTS (cg_instrument g) st1" by blast
  note g1 = advancedD [OF cmd(2)]
  have "gen_inv g1" by (rule advanced_inv [OF Suc.prems(1) cmd(3,2)])
  with Suc.IH [of g1 st1] Suc.prems(2,3) g1 st cmd(1) show ?case by auto
qed simp

lemma test_inv_start:
  assumes "LEVELS * ORDERS * 4 \<le> 2 ^ 32" and "0 < ORDERS"
  shows "test_inv LEVELS ORDERS REPORTS instrument (book_new LEVELS ORDERS instrument, \<lparr>mb_bids = [], mb_asks = []\<rparr>, reports_new REPORTS)"
proof -
  have "model_mirrors \<lparr>mb_bids = [], mb_asks = []\<rparr> (book_abs (book_new LEVELS ORDERS instrument))"
    using book_ok_new(2) [OF assms, of instrument]
    by (simp add: model_mirrors_def side_mirrors_def levels_ok_def queue_of_def levels_of_def split: Side.splits)
  with book_ok_new(1) [OF assms, of instrument] show ?thesis by (simp add: test_inv_def mirrored_def book_new_def reports_new_def)
qed

section \<open>Properties\<close>

text \<open>
  C20: the differential test of the order book passes, for every seed and any number of steps that keeps the
  sequence numbers within 64 bits. The generator's configuration is one it accepts, with at least one account, a
  non-empty price band narrower than \<open>2 ^ 63 - 1\<close> and a maximum quantity between one and \<open>2 ^ 63 - 1\<close> (\<open>config_ok\<close>), and its
  minimum price is positive; the book has room for an order per level and at most \<open>2 ^ 30\<close> slots, so that
  its index slots fit 32 bits. Then no assertion of the test fails and no operation panics: the two books answer
  every generated command alike, hold the same orders after each, and the order book passes its consistency check.
\<close>
theorem differential_test_passes:
  assumes "gen_new config instrument seed \<noteq> None" and "config_ok config" and "0 < gc_minimum_price config"
    and "u32_ok instrument" and "LEVELS * ORDERS * 4 \<le> 2 ^ 32" and "0 < ORDERS" and "steps + 1 < 2 ^ 64"
  shows "\<exists>generator st. generated_commands_match_array_model LEVELS ORDERS REPORTS config instrument seed steps = Some (generator, st) \<and>
    cg_next_sequence generator = steps + 1"
proof -
  from assms(1) obtain g where g: "gen_new config instrument seed = Some g" by blast
  note inv = gen_new_inv [OF g assms(2,4)]
  then have start: "gen_inv g" "cg_next_sequence g + steps < 2 ^ 64" "0 < gc_minimum_price (cg_config g)"
    and cg: "cg_instrument g = instrument" "cg_next_sequence g = 1" using assms(3,7) by simp_all
  from differential_run_passes [OF start test_inv_start [OF assms(5,6), of REPORTS "cg_instrument g"]] obtain g' st' where
    run: "differential_run LEVELS ORDERS REPORTS steps g (book_new LEVELS ORDERS (cg_instrument g), \<lparr>mb_bids = [], mb_asks = []\<rparr>, reports_new REPORTS) =
      Some (g', st')" "cg_next_sequence g' = cg_next_sequence g + steps" by blast
  then show ?thesis unfolding cg by (cases st') (simp add: generated_commands_match_array_model_def g)
qed

theorem differential_test_passes_witness:
  "\<exists>generator st. generated_commands_match_array_model 4 4 8
      \<lparr>gc_accounts = 2, gc_minimum_price = 99, gc_maximum_price = 101, gc_max_quantity = 3, gc_cancel_probability_pct = 60,
       gc_duplicate_id_probability_pct = 10, gc_ioc_probability_pct = 15, gc_fok_probability_pct = 10,
       gc_post_only_probability_pct = 10, gc_replace_probability_pct = 25\<rparr> 1 0x5eed 600 = Some (generator, st) \<and>
    cg_next_sequence generator = 601"
proof -
  let ?c = "\<lparr>gc_accounts = 2, gc_minimum_price = 99, gc_maximum_price = 101, gc_max_quantity = 3, gc_cancel_probability_pct = 60,
       gc_duplicate_id_probability_pct = 10, gc_ioc_probability_pct = 15, gc_fok_probability_pct = 10,
       gc_post_only_probability_pct = 10, gc_replace_probability_pct = 25\<rparr> :: GenConfig"
  have "gen_new ?c 1 0x5eed \<noteq> None" by (simp add: gen_new_def)
  moreover have "config_ok ?c" by (simp add: config_ok_def i64_ok_def)
  moreover have "u32_ok 1" by (simp add: u32_ok_def)
  ultimately show ?thesis using differential_test_passes [of ?c 1 "0x5eed" 4 4 600 8] by simp
qed

text \<open>
  C21: the reference book answers as the order book. From any mirrored pair of books, a submission, a
  cancel, or a replace with positive price and quantity, of the book's instrument, gives the same rejection
  or the same summary, fills and quantities on both, the resting orders dump to the same list, and the
  books mirror each other again.
\<close>
theorem reference_book_agrees:
  assumes "mirrored b mb" and "comparable (ob_instrument b) command"
  shows "\<exists>b' mb' rb'. differential_step (ob_LEVELS b) (ob_ORDERS b) (length (rb_entries rb)) (b, mb, rb) command = Some (b', mb', rb') \<and>
    mirrored b' mb' \<and> dump_book b' = dump_model mb'"
proof -
  have "test_inv (ob_LEVELS b) (ob_ORDERS b) (length (rb_entries rb)) (ob_instrument b) (b, mb, rb)" using assms(1) by (simp add: test_inv_def)
  from differential_step_passes [OF this assms(2)] obtain b' mb' rb' where
    st: "differential_step (ob_LEVELS b) (ob_ORDERS b) (length (rb_entries rb)) (b, mb, rb) command = Some (b', mb', rb')" "mirrored b' mb'"
    by (auto simp: test_inv_def)
  with dumps_agree [OF st(2)] show ?thesis by auto
qed

theorem reference_book_agrees_witness:
  "\<exists>b' mb' rb'. differential_step 2 2 4 (demo_empty, \<lparr>mb_bids = [], mb_asks = []\<rparr>, reports_new 4) (New demo_buy) = Some (b', mb', rb') \<and>
    mirrored b' mb' \<and> dump_book b' = dump_model mb'"
proof -
  have "mirrored demo_empty \<lparr>mb_bids = [], mb_asks = []\<rparr>" using test_inv_start [of 2 2 4 3] by (simp add: test_inv_def)
  moreover have "comparable (ob_instrument demo_empty) (New demo_buy)" by (simp add: demo_buy_def book_new_def)
  ultimately show ?thesis using reference_book_agrees [of demo_empty _ "New demo_buy" "reports_new 4"]
    by (simp add: book_new_def reports_new_def)
qed

text \<open>
  Where the rejections differ. For a replace without a positive price the reference book answers
  invalid price whatever the order, while the order book first looks the order up: an unknown order and
  an order of another account are reported as such.
\<close>
theorem replace_rejections_differ:
  assumes "mirrored b mb" and "ro_instrument_id r = ob_instrument b" and "ro_price r \<le> 0"
  shows "model_replace mb r (ob_LEVELS b) (ob_ORDERS b) = Some (Err InvalidPrice) \<and>
    replace b r = Some (Err (case find_side (book_abs b) (ro_order_id r) of
      None \<Rightarrow> UnknownOrder
    | Some (side, p, x) \<Rightarrow> if o_account x \<noteq> ro_account_id r then NotOrderOwner else InvalidPrice))"
proof -
  have "book_ok b" using assms(1) by (simp add: mirrored_def)
  from replace_refines [OF this, of r] assms(2,3) show ?thesis
    by (auto simp: model_replace_def spec_replace_def split: option.splits prod.splits)
qed

theorem replace_rejections_differ_witness:
  "model_replace \<lparr>mb_bids = [], mb_asks = []\<rparr> \<lparr>ro_order_id = 1, ro_account_id = 1, ro_instrument_id = 3, ro_sequence = 1, ro_price = 0, ro_quantity = 1\<rparr>
     2 2 = Some (Err InvalidPrice) \<and>
   replace demo_empty \<lparr>ro_order_id = 1, ro_account_id = 1, ro_instrument_id = 3, ro_sequence = 1, ro_price = 0, ro_quantity = 1\<rparr> =
     Some (Err UnknownOrder)"
proof -
  have "mirrored demo_empty \<lparr>mb_bids = [], mb_asks = []\<rparr>" using test_inv_start [of 2 2 4 3] by (simp add: test_inv_def)
  moreover have "find_side (book_abs demo_empty) 1 = None" using demo_empty_ok(2) by (simp add: find_side_def find_order_def)
  ultimately show ?thesis using replace_rejections_differ
    [of demo_empty _ "\<lparr>ro_order_id = 1, ro_account_id = 1, ro_instrument_id = 3, ro_sequence = 1, ro_price = 0, ro_quantity = 1\<rparr>"]
    by (simp add: book_new_def)
qed

end
