(* ===== verification/EngineConfig.thy ===== *)
theory EngineConfig
  imports SnapshotProps Journal
begin

text \<open>
  The configuration sidecar of \<open>crates/hft-engine/src/config.rs\<close>: lines of decimal fields. Text is a list of
  code points; the standard library's \<open>from_utf8\<close>, \<open>lines\<close>, \<open>split_whitespace\<close>, integer \<open>parse\<close> and integer
  formatting are written out over it.
\<close>

section \<open>Text\<close>

type_synonym chars = "nat list"

definition ascii :: "string \<Rightarrow> chars" where
  "ascii s = map of_char s"

text \<open>Well-formed UTF-8, and the code points it encodes.\<close>

definition utf8_tail :: "nat \<Rightarrow> bool" where
  "utf8_tail b \<longleftrightarrow> 0x80 \<le> b \<and> b \<le> 0xBF"

definition utf8_two :: "nat \<Rightarrow> nat \<Rightarrow> bool" where
  "utf8_two b c \<longleftrightarrow> 0xC2 \<le> b \<and> b \<le> 0xDF \<and> utf8_tail c"

definition utf8_three :: "nat \<Rightarrow> nat \<Rightarrow> nat \<Rightarrow> bool" where
  "utf8_three b c d \<longleftrightarrow> (b = 0xE0 \<and> 0xA0 \<le> c \<and> c \<le> 0xBF \<or> 0xE1 \<le> b \<and> b \<le> 0xEC \<and> utf8_tail c \<or>
     b = 0xED \<and> 0x80 \<le> c \<and> c \<le> 0x9F \<or> 0xEE \<le> b \<and> b \<le> 0xEF \<and> utf8_tail c) \<and> utf8_tail d"

definition utf8_four :: "nat \<Rightarrow> nat \<Rightarrow> nat \<Rightarrow> nat \<Rightarrow> bool" where
  "utf8_four b c d e \<longleftrightarrow> (b = 0xF0 \<and> 0x90 \<le> c \<and> c \<le> 0xBF \<or> 0xF1 \<le> b \<and> b \<le> 0xF3 \<and> utf8_tail c \<or>
     b = 0xF4 \<and> 0x80 \<le> c \<and> c \<le> 0x8F) \<and> utf8_tail d \<and> utf8_tail e"

fun from_utf8 :: "nat list \<Rightarrow> chars option" where
  "from_utf8 [] = Some []"
| "from_utf8 (b # bs) =
     (if b < 0x80 then map_option (Cons b) (from_utf8 bs)
      else case bs of
        c # cs \<Rightarrow>
          if utf8_two b c then map_option (Cons (b mod 32 * 64 + c mod 64)) (from_utf8 cs)
          else (case cs of
            d # ds \<Rightarrow>
              if utf8_three b c d then map_option (Cons (b mod 16 * 4096 + c mod 64 * 64 + d mod 64)) (from_utf8 ds)
              else (case ds of
                e # es \<Rightarrow>
                  if utf8_four b c d e
                  then map_option (Cons (b mod 8 * 262144 + c mod 64 * 4096 + d mod 64 * 64 + e mod 64)) (from_utf8 es)
                  else None
              | [] \<Rightarrow> None)
          | [] \<Rightarrow> None)
      | [] \<Rightarrow> None)"

text \<open>\<open>lines\<close>: pieces ended by a line feed, without it and without a carriage return before it; a rest
  that is not ended is a line too, unless it is empty.\<close>

definition strip_cr :: "chars \<Rightarrow> chars" where
  "strip_cr l = (if l \<noteq> [] \<and> last l = 13 then butlast l else l)"

fun text_lines_from :: "chars \<Rightarrow> chars \<Rightarrow> chars list" where
  "text_lines_from l [] = (if l = [] then [] else [l])"
| "text_lines_from l (x # xs) = (if x = 10 then strip_cr l # text_lines_from [] xs else text_lines_from (l @ [x]) xs)"

definition text_lines :: "chars \<Rightarrow> chars list" where
  "text_lines t = text_lines_from [] t"

text \<open>The code points with the Unicode property \<open>White_Space\<close>.\<close>

definition is_whitespace :: "nat \<Rightarrow> bool" where
  "is_whitespace x \<longleftrightarrow> 9 \<le> x \<and> x \<le> 13 \<or> x = 32 \<or> x = 0x85 \<or> x = 0xA0 \<or> x = 0x1680 \<or> 0x2000 \<le> x \<and> x \<le> 0x200A \<or>
     x = 0x2028 \<or> x = 0x2029 \<or> x = 0x202F \<or> x = 0x205F \<or> x = 0x3000"

fun split_whitespace_from :: "chars \<Rightarrow> chars \<Rightarrow> chars list" where
  "split_whitespace_from w [] = (if w = [] then [] else [w])"
| "split_whitespace_from w (x # xs) =
     (if is_whitespace x then (if w = [] then split_whitespace_from [] xs else w # split_whitespace_from [] xs)
      else split_whitespace_from (w @ [x]) xs)"

definition split_whitespace :: "chars \<Rightarrow> chars list" where
  "split_whitespace t = split_whitespace_from [] t"

text \<open>Decimal formatting and parsing. A plus sign is accepted, a sign alone is not.\<close>

fun decimal :: "nat \<Rightarrow> chars" where
  "decimal n = (if n < 10 then [48 + n] else decimal (n div 10) @ [48 + n mod 10])"

declare decimal.simps [simp del]

definition decimal_int :: "int \<Rightarrow> chars" where
  "decimal_int i = (if i < 0 then 45 # decimal (nat (- i)) else decimal (nat i))"

definition is_digit :: "nat \<Rightarrow> bool" where
  "is_digit x \<longleftrightarrow> 48 \<le> x \<and> x \<le> 57"

definition parse_digits :: "chars \<Rightarrow> nat option" where
  "parse_digits t = (if t \<noteq> [] \<and> list_all is_digit t then Some (foldl (\<lambda>n x. n * 10 + (x - 48)) 0 t) else None)"

definition parse_unsigned :: "nat \<Rightarrow> chars \<Rightarrow> nat option" where
  "parse_unsigned w t =
     do {
       n \<leftarrow> parse_digits (if t \<noteq> [] \<and> hd t = 43 then tl t else t);
       (if n < 2 ^ w then Some n else None)
     }"

definition parse_i64 :: "chars \<Rightarrow> int option" where
  "parse_i64 t =
     do {
       i \<leftarrow> (if t \<noteq> [] \<and> hd t = 45 then map_option (\<lambda>n. - int n) (parse_digits (tl t))
             else map_option int (parse_digits (if t \<noteq> [] \<and> hd t = 43 then tl t else t)));
       (if i64_ok i then Some i else None)
     }"

section \<open>The configuration\<close>

record EngineConfig =
  ec_instrument :: InstrumentId
  ec_capacities :: "nat list"
  ec_accounts :: "(AccountId \<times> RiskLimits) list"

datatype ConfigError = CfgEncoding | CfgUnsupportedVersion | CfgNonCanonical | CfgInvalidCapacity | CfgInvalidAccounts | CfgMismatch

text \<open>The windows of two accounts.\<close>

fun ascending :: "nat list \<Rightarrow> bool" where
  "ascending (a # b # xs) \<longleftrightarrow> a < b \<and> ascending (b # xs)"
| "ascending _ \<longleftrightarrow> True"

definition config_validate :: "EngineConfig \<Rightarrow> (unit, ConfigError) result" where
  "config_validate c =
     (if 0 \<in> set (ec_capacities c) \<or> ec_capacities c ! 4 > 65534 then Err CfgInvalidCapacity
      else if length (ec_accounts c) > ec_capacities c ! 0 \<or> \<not> ascending (map fst (ec_accounts c)) \<or>
        (\<exists>(_, limits) \<in> set (ec_accounts c). rl_max_quantity limits = 0 \<or> rl_max_open_orders limits = 0 \<or>
           rl_minimum_price limits > rl_maximum_price limits)
      then Err CfgInvalidAccounts
      else Ok ())"

definition config_header :: chars where
  "config_header = ascii ''HFTCONFIG 1 '' @ decimal (unat PROTOCOL_VERSION) @ [32] @ decimal (unat JOURNAL_VERSION) @ [32] @
     decimal FORMAT_VERSION"

text \<open>Fields with a space between them.\<close>

fun unwords :: "chars list \<Rightarrow> chars" where
  "unwords [] = []"
| "unwords [w] = w"
| "unwords (w # v # ws) = w @ [32] @ unwords (v # ws)"

definition account_fields :: "AccountId \<times> RiskLimits \<Rightarrow> chars list" where
  "account_fields a = (case a of (aid, limits) \<Rightarrow>
     [decimal aid, decimal (rl_max_quantity limits), decimal (rl_max_notional limits), decimal (rl_max_abs_position limits),
      decimal (rl_max_open_orders limits), decimal_int (rl_minimum_price limits), decimal_int (rl_maximum_price limits)])"

definition config_text :: "EngineConfig \<Rightarrow> chars" where
  "config_text c = config_header @ [10] @
     unwords (decimal (ec_instrument c) # map (\<lambda>i. decimal (ec_capacities c ! i)) [0, 1, 2, 3, 4]) @ [10] @
     concat (map (\<lambda>a. unwords (account_fields a) @ [10]) (ec_accounts c))"

definition config_encode :: "EngineConfig \<Rightarrow> byte list" where
  "config_encode c = map word_of_nat (config_text c)"

definition field :: "(chars \<Rightarrow> 'a option) \<Rightarrow> chars list \<Rightarrow> ('a \<times> chars list, ConfigError) result" where
  "field parse fs =
     (case fs of
        [] \<Rightarrow> Err CfgEncoding
      | f # fs \<Rightarrow> and_then (ok_or CfgEncoding (parse f)) (\<lambda>v. Ok (v, fs)))"

definition no_more :: "chars list \<Rightarrow> (unit, ConfigError) result" where
  "no_more fs = (if fs = [] then Ok () else Err CfgEncoding)"

definition decode_capacities :: "chars \<Rightarrow> (InstrumentId \<times> nat list, ConfigError) result" where
  "decode_capacities line =
     and_then (field (parse_unsigned 32) (split_whitespace line)) (\<lambda>(instrument, fs).
     and_then (field (parse_unsigned 64) fs) (\<lambda>(a, fs).
     and_then (field (parse_unsigned 64) fs) (\<lambda>(b, fs).
     and_then (field (parse_unsigned 64) fs) (\<lambda>(c, fs).
     and_then (field (parse_unsigned 64) fs) (\<lambda>(d, fs).
     and_then (field (parse_unsigned 64) fs) (\<lambda>(e, fs).
     and_then (no_more fs) (\<lambda>_. Ok (instrument, [a, b, c, d, e]))))))))"

definition decode_account :: "chars \<Rightarrow> (AccountId \<times> RiskLimits, ConfigError) result" where
  "decode_account line =
     and_then (field (parse_unsigned 32) (split_whitespace line)) (\<lambda>(aid, fs).
     and_then (field (parse_unsigned 64) fs) (\<lambda>(max_quantity, fs).
     and_then (field (parse_unsigned 128) fs) (\<lambda>(max_notional, fs).
     and_then (field (parse_unsigned 64) fs) (\<lambda>(max_abs_position, fs).
     and_then (field (parse_unsigned 32) fs) (\<lambda>(max_open_orders, fs).
     and_then (field parse_i64 fs) (\<lambda>(minimum_price, fs).
     and_then (field parse_i64 fs) (\<lambda>(maximum_price, fs).
     and_then (no_more fs) (\<lambda>_.
       Ok (aid, \<lparr>rl_max_quantity = max_quantity, rl_max_notional = max_notional, rl_max_abs_position = max_abs_position,
                 rl_max_open_orders = max_open_orders, rl_minimum_price = minimum_price, rl_maximum_price = maximum_price\<rparr>)))))))))"

fun decode_accounts :: "chars list \<Rightarrow> ((AccountId \<times> RiskLimits) list, ConfigError) result" where
  "decode_accounts [] = Ok []"
| "decode_accounts (line # lines) =
     and_then (decode_account line) (\<lambda>a. and_then (decode_accounts lines) (\<lambda>accounts. Ok (a # accounts)))"

definition config_decode :: "byte list \<Rightarrow> (EngineConfig, ConfigError) result" where
  "config_decode bytes =
     and_then (ok_or CfgEncoding (from_utf8 (map unat bytes))) (\<lambda>t.
       (case text_lines t of
          [] \<Rightarrow> Err CfgEncoding
        | header # lines \<Rightarrow>
            if header \<noteq> config_header then Err CfgUnsupportedVersion
            else (case lines of
               [] \<Rightarrow> Err CfgEncoding
             | line # lines \<Rightarrow>
                 and_then (decode_capacities line) (\<lambda>(instrument, capacities).
                 and_then (decode_accounts lines) (\<lambda>accounts.
                   let config = \<lparr>ec_instrument = instrument, ec_capacities = capacities, ec_accounts = accounts\<rparr> in
                   and_then (config_validate config) (\<lambda>_.
                   if config_encode config \<noteq> bytes then Err CfgNonCanonical else Ok config))))))"

definition check_compatible :: "EngineConfig \<Rightarrow> EngineConfig \<Rightarrow> (unit, ConfigError) result" where
  "check_compatible c candidate =
     and_then (config_validate c) (\<lambda>_. and_then (config_validate candidate) (\<lambda>_.
       if c \<noteq> candidate then Err CfgMismatch else Ok ()))"

section \<open>Printing and parsing\<close>

lemma decimal_digits: "list_all is_digit (decimal n) \<and> decimal n \<noteq> []"
proof (induction n rule: decimal.induct)
  case (1 n)
  then show ?case by (subst (1 2) decimal.simps) (auto simp: is_digit_def list_all_iff)
qed

lemma decimal_value: "foldl (\<lambda>m x. m * 10 + (x - 48)) 0 (decimal n) = n"
proof (induction n rule: decimal.induct)
  case (1 n)
  then show ?case by (cases "n < 10") (simp_all add: decimal.simps [of n])
qed

lemma parse_decimal: "parse_digits (decimal n) = Some n"
  using decimal_digits [of n] decimal_value [of n] by (simp add: parse_digits_def)

lemma decimal_sign: "hd (decimal n) \<noteq> 43 \<and> hd (decimal n) \<noteq> 45"
  using decimal_digits [of n] by (cases "decimal n") (auto simp: is_digit_def)

lemma parse_unsigned_decimal: "n < 2 ^ w \<Longrightarrow> parse_unsigned w (decimal n) = Some n"
  using decimal_sign [of n] by (simp add: parse_unsigned_def parse_decimal)

lemma parse_i64_decimal: "i64_ok i \<Longrightarrow> parse_i64 (decimal_int i) = Some i"
  using decimal_sign [of "nat i"] by (cases "i < 0") (simp_all add: parse_i64_def decimal_int_def parse_decimal)

text \<open>A field is not empty and has no white space; a line has no line end.\<close>

definition word_ok :: "chars \<Rightarrow> bool" where
  "word_ok w \<longleftrightarrow> w \<noteq> [] \<and> (\<forall>x \<in> set w. \<not> is_whitespace x \<and> x < 128)"

lemma word_ok_decimal: "word_ok (decimal n)" "word_ok (decimal_int i)"
proof -
  have d: "\<not> is_whitespace x \<and> x < 128" if "x \<in> set (decimal m)" for x m
    using decimal_digits [of m] that by (auto simp: list_all_iff is_digit_def is_whitespace_def)
  then show "word_ok (decimal n)" "word_ok (decimal_int i)" using decimal_digits
    by (auto simp: word_ok_def decimal_int_def is_whitespace_def)
qed

lemma split_word: "\<forall>x \<in> set v. \<not> is_whitespace x \<Longrightarrow> split_whitespace_from w (v @ xs) = split_whitespace_from (w @ v) xs"
  by (induction v arbitrary: w) auto

lemma split_unwords: "list_all word_ok ws \<Longrightarrow> split_whitespace (unwords ws) = ws"
  unfolding split_whitespace_def
proof (induction ws rule: unwords.induct)
  case (2 w)
  then show ?case using split_word [of w "[]" "[]"] by (simp add: word_ok_def)
next
  case (3 w v ws)
  have "split_whitespace_from [] (unwords (w # v # ws)) = split_whitespace_from w (32 # unwords (v # ws))"
    using split_word [of w "[]" "32 # unwords (v # ws)"] "3.prems" by (simp add: word_ok_def)
  with 3 show ?case by (simp add: is_whitespace_def word_ok_def)
qed simp

definition line_ok :: "chars \<Rightarrow> bool" where
  "line_ok l \<longleftrightarrow> (\<forall>x \<in> set l. x \<noteq> 10 \<and> x \<noteq> 13 \<and> x < 128)"

lemma line_ok_simps [simp]: "line_ok []" "line_ok (x # l) \<longleftrightarrow> x \<noteq> 10 \<and> x \<noteq> 13 \<and> x < 128 \<and> line_ok l" "line_ok (l @ k) \<longleftrightarrow> line_ok l \<and> line_ok k"
  by (auto simp: line_ok_def)

lemma line_ok_word: "word_ok w \<Longrightarrow> line_ok w"
proof -
  assume w: "word_ok w"
  have "is_whitespace 10" "is_whitespace 13" by (simp_all add: is_whitespace_def)
  with w show ?thesis unfolding word_ok_def line_ok_def by metis
qed

lemma line_ok_unwords: "list_all word_ok ws \<Longrightarrow> line_ok (unwords ws)"
  by (induction ws rule: unwords.induct) (simp_all add: line_ok_word)

lemma lines_step: "line_ok l \<Longrightarrow> text_lines (l @ 10 # xs) = l # text_lines xs"
proof -
  assume l: "line_ok l"
  have "text_lines_from k (v @ ys) = text_lines_from (k @ v) ys" if "line_ok v" for k v ys
    using that by (induction v arbitrary: k) (auto simp: line_ok_def)
  from this [OF l, of "[]" "10 # xs"] show ?thesis using l
    by (auto simp: text_lines_def strip_cr_def line_ok_def dest: last_in_set)
qed

lemma from_utf8_ascii: "\<forall>x \<in> set t. x < 128 \<Longrightarrow> from_utf8 t = Some t"
  by (induction t) simp_all

lemma header_line: "line_ok config_header"
proof -
  have "line_ok (ascii ''HFTCONFIG 1 '')" by (simp add: ascii_def)
  then show ?thesis by (simp add: config_header_def line_ok_word [OF word_ok_decimal(1)])
qed

section \<open>Encoding and decoding\<close>

text \<open>The fields are values of their Rust types.\<close>

definition account_typed :: "AccountId \<times> RiskLimits \<Rightarrow> bool" where
  "account_typed a \<longleftrightarrow> (case a of (aid, limits) \<Rightarrow> aid < 2 ^ 32 \<and> rl_max_quantity limits < 2 ^ 64 \<and> rl_max_notional limits < 2 ^ 128 \<and>
     rl_max_abs_position limits < 2 ^ 64 \<and> rl_max_open_orders limits < 2 ^ 32 \<and> i64_ok (rl_minimum_price limits) \<and>
     i64_ok (rl_maximum_price limits))"

definition config_typed :: "EngineConfig \<Rightarrow> bool" where
  "config_typed c \<longleftrightarrow> ec_instrument c < 2 ^ 32 \<and> length (ec_capacities c) = 5 \<and> (\<forall>n \<in> set (ec_capacities c). n < 2 ^ 64) \<and>
     list_all account_typed (ec_accounts c)"

lemma parse_unsigned_bound: "parse_unsigned w t = Some n \<Longrightarrow> n < 2 ^ w"
  by (auto simp: parse_unsigned_def split: Option.bind_split_asm if_splits)

lemma parse_i64_bound: "parse_i64 t = Some i \<Longrightarrow> i64_ok i"
  by (auto simp: parse_i64_def split: Option.bind_split_asm if_splits)

lemma field_Ok: "field parse fs = Ok (v, gs) \<longleftrightarrow> (\<exists>f. fs = f # gs \<and> parse f = Some v)"
  by (auto simp: field_def and_then_Ok_iff ok_or_Ok split: list.splits)

lemma field_Cons [simp]: "parse f = Some v \<Longrightarrow> field parse (f # fs) = Ok (v, fs)"
  by (simp add: field_def)

lemma account_words: "list_all word_ok (account_fields a)"
  by (cases a) (simp add: account_fields_def word_ok_decimal)

lemma decode_account_encode: "account_typed a \<Longrightarrow> decode_account (unwords (account_fields a)) = Ok a"
  unfolding decode_account_def split_unwords [OF account_words]
  by (cases a) (simp add: account_fields_def account_typed_def parse_unsigned_decimal parse_i64_decimal no_more_def)

lemma decode_account_typed: "decode_account line = Ok a \<Longrightarrow> account_typed a"
  by (auto simp: decode_account_def and_then_Ok_iff field_Ok account_typed_def dest!: parse_unsigned_bound parse_i64_bound)

lemma decode_accounts_encode:
  "list_all account_typed as \<Longrightarrow> decode_accounts (text_lines (concat (map (\<lambda>a. unwords (account_fields a) @ [10]) as))) = Ok as"
proof (induction as)
  case (Cons a as)
  then show ?case using lines_step [OF line_ok_unwords [OF account_words [of a]]] by (simp add: decode_account_encode)
qed (simp add: text_lines_def)

lemma decode_accounts_typed: "decode_accounts ls = Ok as \<Longrightarrow> list_all account_typed as"
  by (induction ls arbitrary: as) (auto simp: and_then_Ok_iff dest: decode_account_typed)

lemma capacities_nth: "length cs = 5 \<Longrightarrow> cs = [cs ! 0, cs ! 1, cs ! 2, cs ! 3, cs ! 4]"
  by (auto simp: length_Suc_conv numeral_eq_Suc)

lemma decode_capacities_encode:
  assumes "ec_instrument c < 2 ^ 32" and "length (ec_capacities c) = 5" and "\<forall>n \<in> set (ec_capacities c). n < 2 ^ 64"
  shows "decode_capacities (unwords (decimal (ec_instrument c) # map (\<lambda>i. decimal (ec_capacities c ! i)) [0, 1, 2, 3, 4])) =
    Ok (ec_instrument c, ec_capacities c)"
proof -
  have words: "list_all word_ok (decimal (ec_instrument c) # map (\<lambda>i. decimal (ec_capacities c ! i)) [0, 1, 2, 3, 4])"
    by (simp add: word_ok_decimal)
  have n: "parse_unsigned 64 (decimal (ec_capacities c ! i)) = Some (ec_capacities c ! i)" if "i < 5" for i
    using assms(2,3) that by (intro parse_unsigned_decimal) simp
  show ?thesis unfolding decode_capacities_def split_unwords [OF words]
    using assms(1) capacities_nth [OF assms(2)] by (simp add: n parse_unsigned_decimal no_more_def del: One_nat_def)
qed

lemma decode_capacities_typed:
  "decode_capacities line = Ok (instrument, cs) \<Longrightarrow> instrument < 2 ^ 32 \<and> length cs = 5 \<and> (\<forall>n \<in> set cs. n < 2 ^ 64)"
  by (auto simp: decode_capacities_def and_then_Ok_iff field_Ok dest!: parse_unsigned_bound)

lemma config_text_ascii: "\<forall>x \<in> set (config_text c). x < 128"
proof -
  have "line_ok (unwords (account_fields a))" for a by (rule line_ok_unwords [OF account_words])
  moreover have "line_ok (unwords (decimal (ec_instrument c) # map (\<lambda>i. decimal (ec_capacities c ! i)) [0, 1, 2, 3, 4]))"
    by (rule line_ok_unwords) (simp add: word_ok_decimal)
  ultimately show ?thesis using header_line unfolding config_text_def line_ok_def by auto
qed

lemma config_text_bytes: "map unat (config_encode c) = config_text c"
proof -
  have "unat (word_of_nat x :: byte) = x" if "x \<in> set (config_text c)" for x
    using config_text_ascii [of c] that by (auto simp: unat_of_nat)
  then show ?thesis by (simp add: config_encode_def o_def map_idI)
qed

lemma config_decode_encode:
  assumes "config_typed c" and "config_validate c = Ok ()"
  shows "config_decode (config_encode c) = Ok c"
proof -
  let ?line = "unwords (decimal (ec_instrument c) # map (\<lambda>i. decimal (ec_capacities c ! i)) [0, 1, 2, 3, 4])"
  have line: "line_ok ?line" by (rule line_ok_unwords) (simp add: word_ok_decimal)
  have lines: "text_lines (config_text c) = config_header # ?line # text_lines (concat (map (\<lambda>a. unwords (account_fields a) @ [10]) (ec_accounts c)))"
    unfolding config_text_def using lines_step [OF header_line] lines_step [OF line] by simp
  have "from_utf8 (config_text c) = Some (config_text c)" by (rule from_utf8_ascii [OF config_text_ascii])
  moreover have eta: "\<lparr>ec_instrument = ec_instrument c, ec_capacities = ec_capacities c, ec_accounts = ec_accounts c\<rparr> = c" by simp
  ultimately show ?thesis
    using assms decode_capacities_encode [of c] decode_accounts_encode [of "ec_accounts c"]
    by (simp add: config_decode_def config_text_bytes lines config_typed_def eta Let_def del: One_nat_def map_map list.map unwords.simps)
qed

lemma config_decode_accepts:
  assumes "config_decode bytes = Ok c"
  shows "bytes = config_encode c \<and> config_typed c \<and> config_validate c = Ok ()"
proof -
  from assms obtain t where t: "from_utf8 (map unat bytes) = Some t" by (cases "from_utf8 (map unat bytes)") (simp_all add: config_decode_def)
  with assms obtain ls' where "text_lines t = config_header # ls'"
    by (cases "text_lines t") (auto simp: config_decode_def split: if_splits)
  with assms t obtain line ls where ok: "and_then (decode_capacities line) (\<lambda>(instrument, capacities). and_then (decode_accounts ls) (\<lambda>accounts.
      let config = \<lparr>ec_instrument = instrument, ec_capacities = capacities, ec_accounts = accounts\<rparr> in
      and_then (config_validate config) (\<lambda>_. if config_encode config \<noteq> bytes then Err CfgNonCanonical else Ok config))) = Ok c"
    by (cases ls') (auto simp: config_decode_def)
  then obtain i cs as where d: "decode_capacities line = Ok (i, cs)" "decode_accounts ls = Ok as"
    and c: "c = \<lparr>ec_instrument = i, ec_capacities = cs, ec_accounts = as\<rparr>" "config_validate c = Ok ()" "bytes = config_encode c"
    by (auto simp: and_then_Ok_iff Let_def split: if_splits)
  with decode_capacities_typed [OF d(1)] decode_accounts_typed [OF d(2)] show ?thesis by (simp add: config_typed_def)
qed

section \<open>Property\<close>

text \<open>
  C40: the configuration sidecar is canonical. A well-typed configuration that is valid is decoded from its
  encoding, and conversely every byte string the decoder accepts is exactly the encoding of the configuration it
  returns, whose fields are in the range of their types and which is valid. So a sidecar with other spacing,
  line ends, signs, leading zeros or extra lines is refused.
\<close>
theorem engine_config_codec:
  "(config_typed c \<longrightarrow> config_validate c = Ok () \<longrightarrow> config_decode (config_encode c) = Ok c) \<and>
   (config_decode bytes = Ok c \<longrightarrow> bytes = config_encode c \<and> config_typed c \<and> config_validate c = Ok ())"
  using config_decode_encode [of c] config_decode_accepts [of bytes c] by blast

theorem engine_config_codec_witness:
  "config_decode (config_encode \<lparr>ec_instrument = 3, ec_capacities = [2, 3, 1, 1, 4], ec_accounts =
     [(7, \<lparr>rl_max_quantity = 10, rl_max_notional = 1000, rl_max_abs_position = 10, rl_max_open_orders = 2,
           rl_minimum_price = -5, rl_maximum_price = 120\<rparr>)]\<rparr>) =
   Ok \<lparr>ec_instrument = 3, ec_capacities = [2, 3, 1, 1, 4], ec_accounts =
     [(7, \<lparr>rl_max_quantity = 10, rl_max_notional = 1000, rl_max_abs_position = 10, rl_max_open_orders = 2,
           rl_minimum_price = -5, rl_maximum_price = 120\<rparr>)]\<rparr>"
  using engine_config_codec [of "\<lparr>ec_instrument = 3, ec_capacities = [2, 3, 1, 1, 4], ec_accounts =
     [(7, \<lparr>rl_max_quantity = 10, rl_max_notional = 1000, rl_max_abs_position = 10, rl_max_open_orders = 2,
           rl_minimum_price = -5, rl_maximum_price = 120\<rparr>)]\<rparr>"]
  by (simp add: config_typed_def account_typed_def config_validate_def i64_ok_def)

end
