(* ===== verification/Engine.thy ===== *)
theory Engine
  imports EngineConfig Recovery RouterProps Session
begin

text \<open>
  The engine of \<open>crates/hft-engine/src\<close>: one instrument's gateway behind admission, write-ahead journal and
  event publication (\<open>lib.rs\<close>), its builder (\<open>builder.rs\<close>), several engines behind a route table
  (\<open>routed.rs\<close>), and these behind a session (\<open>session.rs\<close>).

  An engine owns the writer of its journal; the model carries the channel with both ends, as the event
  engine carries its ring, and the persistence worker is the environment. \<open>en_writer\<close> says that the writer has
  not been given up. \<open>None\<close> is a panic or a status that the channel does not have.
\<close>

section \<open>One instrument\<close>

datatype EngineError =
    EnStopped
  | EnFailed
  | EnPersistenceFailed
  | EnUnknownInstrument InstrumentId
  | EnParse ParseError
  | EnAdmission EventEngineError
  | EnJournal JournalError
  | EnSequenceInvariant
  | EnApply EventEngineError

datatype EngineState = EsRunning | EsStopping | EsStopped | EsFailed

record Health =
  he_state :: EngineState
  he_next_sequence :: SequenceNumber
  he_journal :: StatusState

datatype CheckpointError = CpAdmissionOpen | CpPersistencePending | CpFailed | CpSequenceInvariant | CpSnapshot SnapshotError

record Engine =
  en_events :: BoundedEventEngine
  en_journal :: Journal
  en_writer :: bool
  en_failed :: bool
  en_configuration :: EngineConfig

definition engine_instrument :: "Engine \<Rightarrow> InstrumentId" where
  "engine_instrument e = gateway_instrument (ee_gateway (en_events e))"

definition engine_expected_sequence :: "Engine \<Rightarrow> SequenceNumber" where
  "engine_expected_sequence e = gw_expected_sequence (ee_gateway (en_events e))"

definition engine_stop_admission :: "Engine \<Rightarrow> Engine" where
  "engine_stop_admission e = (if en_writer e then e\<lparr>en_writer := False, en_journal := writer_close (en_journal e)\<rparr> else e)"

definition engine_fail :: "Engine \<Rightarrow> Engine" where
  "engine_fail e = engine_stop_admission (e\<lparr>en_failed := True\<rparr>)"

definition engine_is_poisoned :: "Engine \<Rightarrow> bool" where
  "engine_is_poisoned e = (case jn_status (en_journal e) of None \<Rightarrow> False | Some status \<Rightarrow> st_poisoned status)"

text \<open>
  The call that journals and applies a command, in its four phases: the checks, up to the journal's sequence
  number; the admission by the event engine, which probes the event queue; the enqueue, which hands the record to
  the persistence worker; and the application, which publishes the batch. An error of a phase ends the call, and
  some of them close admission.
\<close>

definition engine_check :: "Engine \<Rightarrow> Command \<Rightarrow> (unit, EngineError) result" where
  "engine_check e command =
     (if en_failed e then Err EnFailed
      else if engine_is_poisoned e then Err EnPersistenceFailed
      else if \<not> en_writer e then Err EnStopped
      else if command_instrument_id command \<noteq> engine_instrument e then Err (EnUnknownInstrument (command_instrument_id command))
      else if jn_next_sequence (en_journal e) \<noteq> engine_expected_sequence e then Err EnSequenceInvariant
      else Ok ())"

definition engine_admit :: "Engine \<Rightarrow> Command \<Rightarrow> Engine \<times> (Command, EngineError) result" where
  "engine_admit e command =
     (case admit (en_events e) command of (events, admitted) \<Rightarrow> (e\<lparr>en_events := events\<rparr>, map_err EnAdmission admitted))"

definition engine_enqueue :: "crc \<Rightarrow> Engine \<Rightarrow> byte list \<Rightarrow> (Engine \<times> (SequenceNumber, EngineError) result) option" where
  "engine_enqueue crc e payload =
     do {
       (journal, enqueued) \<leftarrow> journal_enqueue crc (en_journal e) payload;
       Some (e\<lparr>en_journal := journal\<rparr>, map_err EnJournal enqueued)
     }"

definition engine_apply :: "Engine \<Rightarrow> Command \<Rightarrow> (Engine \<times> (unit, EngineError) result) option" where
  "engine_apply e admitted =
     do {
       (events, applied) \<leftarrow> apply_admitted_command (en_events e) admitted;
       Some (e\<lparr>en_events := events\<rparr>, map_err EnApply applied)
     }"

definition closes_admission :: "EngineError \<Rightarrow> bool" where
  "closes_admission error =
     (case error of
        EnPersistenceFailed \<Rightarrow> True
      | EnSequenceInvariant \<Rightarrow> True
      | EnAdmission (EvGateway (GwRiskState _)) \<Rightarrow> True
      | EnApply _ \<Rightarrow> True
      | _ \<Rightarrow> False)"

definition engine_refuse :: "Engine \<Rightarrow> EngineError \<Rightarrow> Engine \<times> (unit, EngineError) result" where
  "engine_refuse e error = (if closes_admission error then engine_fail e else e, Err error)"

definition apply_journaled :: "crc \<Rightarrow> Engine \<Rightarrow> Command \<Rightarrow> byte list \<Rightarrow> (Engine \<times> (unit, EngineError) result) option" where
  "apply_journaled crc e command payload =
     (case engine_check e command of
        Err error \<Rightarrow> Some (engine_refuse e error)
      | Ok _ \<Rightarrow>
          (case engine_admit e command of
             (e, Err error) \<Rightarrow> Some (engine_refuse e error)
           | (e, Ok admitted) \<Rightarrow>
               do {
                 (e, enqueued) \<leftarrow> engine_enqueue crc e payload;
                 (case enqueued of
                    Err error \<Rightarrow> Some (engine_refuse e error)
                  | Ok _ \<Rightarrow>
                      do {
                        (e, applied) \<leftarrow> engine_apply e admitted;
                        Some (case applied of Err error \<Rightarrow> engine_refuse e error | Ok _ \<Rightarrow> (e, Ok ()))
                      })
               }))"

definition engine_process_frame :: "crc \<Rightarrow> Engine \<Rightarrow> byte list \<Rightarrow> (Engine \<times> (unit, EngineError) result) option" where
  "engine_process_frame crc e frame =
     (case parse_message frame of
        Err error \<Rightarrow> Some (e, Err (EnParse error))
      | Ok message \<Rightarrow> apply_journaled crc e (to_command message) frame)"

definition engine_process_command :: "crc \<Rightarrow> Engine \<Rightarrow> Command \<Rightarrow> (Engine \<times> (unit, EngineError) result) option" where
  "engine_process_command crc e command = apply_journaled crc e command (encode_command command)"

definition engine_health :: "Engine \<Rightarrow> Health option" where
  "engine_health e =
     map_option (\<lambda>journal.
       \<lparr>he_state =
          (if en_failed e \<or> st_poisoned journal then EsFailed
           else if en_writer e then EsRunning
           else if st_shutdown_complete journal then EsStopped
           else EsStopping),
        he_next_sequence = engine_expected_sequence e, he_journal = journal\<rparr>) (jn_status (en_journal e))"

definition engine_snapshot :: "sha256 \<Rightarrow> nat \<Rightarrow> nat \<Rightarrow> nat \<Rightarrow> nat \<Rightarrow> Engine \<Rightarrow> (Snapshot, CheckpointError) result option" where
  "engine_snapshot sha ACCOUNTS RISK_ORDERS LEVELS ORDERS e =
     do {
       health \<leftarrow> engine_health e;
       (if he_state health = EsFailed then Some (Err CpFailed)
        else if en_writer e then Some (Err CpAdmissionOpen)
        else if \<not> st_shutdown_complete (he_journal health) then Some (Err CpPersistencePending)
        else if st_next_written_sequence (he_journal health) \<noteq> he_next_sequence health \<or>
                st_next_durable_sequence (he_journal health) \<noteq> he_next_sequence health
        then Some (Err CpSequenceInvariant)
        else (case checked_sub (he_next_sequence health) 1 of
           None \<Rightarrow> Some (Err CpSequenceInvariant)
         | Some applied \<Rightarrow>
             map_option (map_err CpSnapshot)
               (encode_snapshot sha ACCOUNTS RISK_ORDERS LEVELS ORDERS (ee_gateway (en_events e)) applied)))
     }"

section \<open>Builder\<close>

datatype BuildError =
    BeZeroCapacity
  | BeRegistration RegistrationError
  | BeEvents EventEngineConfigError
  | BeStorageAlreadyUsed
  | BeJournalStatusUnavailable
  | BeRecovery RecoveryError
  | BeInstrumentMismatch
  | BeConfiguration ConfigError

text \<open>The storage: the event ring of a fresh queue, and whether an engine was built on it. The journal's
  queue has a fixed capacity and is made fresh by splitting.\<close>

record EngineStorage =
  es_events :: "EventBatch Ring"
  es_used :: bool

definition storage_try_new :: "nat \<Rightarrow> (EngineStorage, QueueConfigError) result" where
  "storage_try_new EVENTS =
     and_then (ring_new EVENTS) (\<lambda>events.
     and_then (channel_split 0) (\<lambda>_.
       Ok \<lparr>es_events = events, es_used = False\<rparr>))"

record EngineBuilder =
  bd_gateway :: Gateway
  bd_configuration :: EngineConfig

definition validate_capacity :: "nat list \<Rightarrow> (unit, BuildError) result" where
  "validate_capacity capacities = (if 0 \<in> set capacities then Err BeZeroCapacity else Ok ())"

fun register_accounts :: "RiskEngine \<Rightarrow> (AccountId \<times> RiskLimits) list \<Rightarrow> (RiskEngine, BuildError) result" where
  "register_accounts risk [] = Ok risk"
| "register_accounts risk ((account, limits) # accounts) =
     and_then (map_err BeRegistration (register_account risk account limits)) (\<lambda>risk. register_accounts risk accounts)"

definition builder_new :: "nat \<Rightarrow> nat \<Rightarrow> nat \<Rightarrow> nat \<Rightarrow> nat \<Rightarrow> InstrumentId \<Rightarrow> (AccountId \<times> RiskLimits) list
    \<Rightarrow> (EngineBuilder, BuildError) result" where
  "builder_new ACCOUNTS RISK_ORDERS LEVELS ORDERS REPORTS instrument accounts =
     and_then (validate_capacity [ACCOUNTS, RISK_ORDERS, LEVELS, ORDERS, REPORTS]) (\<lambda>_.
     and_then (register_accounts (risk_new ACCOUNTS RISK_ORDERS) accounts) (\<lambda>risk.
       let configuration = \<lparr>ec_instrument = instrument, ec_capacities = [ACCOUNTS, RISK_ORDERS, LEVELS, ORDERS, REPORTS],
             ec_accounts = sort_key fst accounts\<rparr> in
       and_then (map_err BeConfiguration (config_validate configuration)) (\<lambda>_.
         Ok \<lparr>bd_gateway = gateway_new LEVELS ORDERS risk instrument, bd_configuration = configuration\<rparr>)))"

definition builder_restore :: "sha256 \<Rightarrow> crc \<Rightarrow> nat \<Rightarrow> nat \<Rightarrow> nat \<Rightarrow> nat \<Rightarrow> nat \<Rightarrow> InstrumentId \<Rightarrow> byte list \<Rightarrow> byte list
    \<Rightarrow> (EngineBuilder, BuildError) result option" where
  "builder_restore sha crc ACCOUNTS RISK_ORDERS LEVELS ORDERS REPORTS instrument snapshot tail =
     (case validate_capacity [ACCOUNTS, RISK_ORDERS, LEVELS, ORDERS, REPORTS] of
        Err e \<Rightarrow> Some (Err e)
      | Ok _ \<Rightarrow>
          do {
            recovered \<leftarrow> recover_snapshot_and_tail sha crc ACCOUNTS RISK_ORDERS LEVELS ORDERS REPORTS snapshot tail;
            Some (and_then (map_err BeRecovery recovered) (\<lambda>gateway.
              if gateway_instrument gateway \<noteq> instrument then Err BeInstrumentMismatch
              else let configuration = \<lparr>ec_instrument = instrument, ec_capacities = [ACCOUNTS, RISK_ORDERS, LEVELS, ORDERS, REPORTS],
                     ec_accounts = map (\<lambda>account. (ars_id account, ars_limits account)) (rs_accounts (risk_export_state (gw_risk gateway)))\<rparr> in
                and_then (map_err BeConfiguration (config_validate configuration)) (\<lambda>_.
                  Ok \<lparr>bd_gateway = gateway, bd_configuration = configuration\<rparr>)))
          })"

definition restore_configured :: "sha256 \<Rightarrow> crc \<Rightarrow> nat \<Rightarrow> nat \<Rightarrow> nat \<Rightarrow> nat \<Rightarrow> nat \<Rightarrow> EngineConfig \<Rightarrow> byte list \<Rightarrow> byte list \<Rightarrow> byte list
    \<Rightarrow> (EngineBuilder, BuildError) result option" where
  "restore_configured sha crc ACCOUNTS RISK_ORDERS LEVELS ORDERS REPORTS expected persisted snapshot tail =
     (case and_then (map_err BeConfiguration (config_decode persisted)) (\<lambda>stored.
             and_then (map_err BeConfiguration (check_compatible stored expected)) (\<lambda>_.
               if ec_capacities stored \<noteq> [ACCOUNTS, RISK_ORDERS, LEVELS, ORDERS, REPORTS] then Err (BeConfiguration CfgMismatch)
               else Ok stored)) of
        Err e \<Rightarrow> Some (Err e)
      | Ok stored \<Rightarrow>
          do {
            prefix \<leftarrow> builder_restore sha crc ACCOUNTS RISK_ORDERS LEVELS ORDERS REPORTS (ec_instrument stored) snapshot [];
            (case and_then prefix (\<lambda>prefix. map_err BeConfiguration (check_compatible stored (bd_configuration prefix))) of
               Err e \<Rightarrow> Some (Err e)
             | Ok _ \<Rightarrow>
                 do {
                   restored \<leftarrow> builder_restore sha crc ACCOUNTS RISK_ORDERS LEVELS ORDERS REPORTS (ec_instrument stored) snapshot tail;
                   Some (and_then restored (\<lambda>restored. Ok (restored\<lparr>bd_configuration := stored\<rparr>)))
                 })
          })"

text \<open>The engine's parts: the engine with the channels whose other ends are handed out.\<close>

definition builder_build :: "nat \<Rightarrow> nat \<Rightarrow> EngineBuilder \<Rightarrow> EngineStorage \<Rightarrow> (EngineStorage \<times> (Engine, BuildError) result) option" where
  "builder_build REPORTS BATCH builder storage =
     (if es_used storage then Some (storage, Err BeStorageAlreadyUsed)
      else (case channel_split (gw_expected_sequence (bd_gateway builder)) of
         Err _ \<Rightarrow> None
       | Ok journal \<Rightarrow>
           Some (case jn_status journal of
              None \<Rightarrow> (storage, Err BeJournalStatusUnavailable)
            | Some _ \<Rightarrow>
                (case event_engine_try_new REPORTS BATCH (bd_gateway builder) (es_events storage) of
                   Err e \<Rightarrow> (storage, Err (BeEvents e))
                 | Ok events \<Rightarrow>
                     (storage\<lparr>es_used := True\<rparr>,
                      Ok \<lparr>en_events = events, en_journal = journal, en_writer = True, en_failed = False,
                          en_configuration = bd_configuration builder\<rparr>)))))"

section \<open>Several instruments\<close>

datatype RoutedEngineBuildError = RbInstrumentMismatch ShardId InstrumentId InstrumentId

datatype RoutedEngineError =
    ReParse ParseError
  | ReUnknownInstrument InstrumentId
  | ReEngine ShardId EngineError

datatype RoutedCheckpointError = RcUnknownShard ShardId | RcEngine CheckpointError

record RoutedEngine =
  ro_routes :: RouteTable
  ro_engines :: "Engine list"

fun check_routes :: "Engine list \<Rightarrow> InstrumentRoute list \<Rightarrow> (unit, RoutedEngineBuildError) result option" where
  "check_routes engines [] = Some (Ok ())"
| "check_routes engines (route # routes) =
     do {
       engine \<leftarrow> nth_opt engines (ir_shard_id route);
       (if engine_instrument engine \<noteq> ir_instrument_id route
        then Some (Err (RbInstrumentMismatch (ir_shard_id route) (ir_instrument_id route) (engine_instrument engine)))
        else check_routes engines routes)
     }"

definition routed_try_new :: "RouteTable \<Rightarrow> Engine list \<Rightarrow> (RoutedEngine, RoutedEngineBuildError) result option" where
  "routed_try_new routes engines =
     map_option (\<lambda>r. and_then r (\<lambda>_. Ok \<lparr>ro_routes = routes, ro_engines = engines\<rparr>)) (check_routes engines (tbl_by_instrument routes))"

definition routed_process_command :: "crc \<Rightarrow> RoutedEngine \<Rightarrow> Command \<Rightarrow> (RoutedEngine \<times> (ShardId, RoutedEngineError) result) option" where
  "routed_process_command crc r command =
     (case shard_for (ro_routes r) (command_instrument_id command) of
        None \<Rightarrow> Some (r, Err (ReUnknownInstrument (command_instrument_id command)))
      | Some shard \<Rightarrow>
          do {
            engine \<leftarrow> nth_opt (ro_engines r) shard;
            (engine, result) \<leftarrow> engine_process_command crc engine command;
            Some (r\<lparr>ro_engines := (ro_engines r)[shard := engine]\<rparr>,
                  and_then (map_err (ReEngine shard) result) (\<lambda>_. Ok shard))
          })"

definition routed_process_frame :: "crc \<Rightarrow> RoutedEngine \<Rightarrow> byte list \<Rightarrow> (RoutedEngine \<times> (ShardId, RoutedEngineError) result) option" where
  "routed_process_frame crc r frame =
     (case parse_message frame of
        Err error \<Rightarrow> Some (r, Err (ReParse error))
      | Ok message \<Rightarrow> routed_process_command crc r (to_command message))"

text \<open>The outer option is the lookup of the shard, the inner one that of the status.\<close>

definition routed_health :: "RoutedEngine \<Rightarrow> ShardId \<Rightarrow> Health option option" where
  "routed_health r shard = map_option engine_health (nth_opt (ro_engines r) shard)"

definition routed_configuration :: "RoutedEngine \<Rightarrow> ShardId \<Rightarrow> EngineConfig option" where
  "routed_configuration r shard = map_option en_configuration (nth_opt (ro_engines r) shard)"

definition routed_stop_admission :: "RoutedEngine \<Rightarrow> RoutedEngine" where
  "routed_stop_admission r = r\<lparr>ro_engines := map engine_stop_admission (ro_engines r)\<rparr>"

definition routed_snapshot :: "sha256 \<Rightarrow> nat \<Rightarrow> nat \<Rightarrow> nat \<Rightarrow> nat \<Rightarrow> RoutedEngine \<Rightarrow> ShardId \<Rightarrow> (Snapshot, RoutedCheckpointError) result option" where
  "routed_snapshot sha ACCOUNTS RISK_ORDERS LEVELS ORDERS r shard =
     (case nth_opt (ro_engines r) shard of
        None \<Rightarrow> Some (Err (RcUnknownShard shard))
      | Some engine \<Rightarrow> map_option (map_err RcEngine) (engine_snapshot sha ACCOUNTS RISK_ORDERS LEVELS ORDERS engine))"

section \<open>The session in front\<close>

datatype SessionAdmissionError =
    SaSession SessionError
  | SaRouted RoutedEngineError
  | SaCommandEventRequiresAdmission

record SessionEngine =
  se_session :: SessionStateMachine
  se_engines :: RoutedEngine

definition session_engine_new :: "SessionConfig \<Rightarrow> RoutedEngine \<Rightarrow> SessionEngine" where
  "session_engine_new config engines = \<lparr>se_session = session_new config, se_engines = engines\<rparr>"

text \<open>Committing a staged session: a session that failed closes admission.\<close>

definition commit_session :: "SessionEngine \<Rightarrow> session_step \<Rightarrow> SessionEngine \<times> (Transition, SessionAdmissionError) result" where
  "commit_session s step =
     (case step of
        (staged, Err error) \<Rightarrow> (s, Err (SaSession error))
      | (staged, Ok transition) \<Rightarrow>
          let s = s\<lparr>se_session := staged\<rparr> in
          (if tr_state transition = Failed then s\<lparr>se_engines := routed_stop_admission (se_engines s)\<rparr> else s, Ok transition))"

definition handle_session :: "SessionEngine \<Rightarrow> SessionEvent \<Rightarrow> nat \<Rightarrow> SessionEngine \<times> (Transition, SessionAdmissionError) result" where
  "handle_session s event now =
     (case event of
        SessCommand _ \<Rightarrow> (s, Err SaCommandEventRequiresAdmission)
      | _ \<Rightarrow> commit_session s (handle (se_session s) event now))"

definition session_engine_tick :: "SessionEngine \<Rightarrow> nat \<Rightarrow> SessionEngine \<times> (Transition, SessionAdmissionError) result" where
  "session_engine_tick s now = commit_session s (session_tick (se_session s) now)"

text \<open>The first route whose engine reports failure.\<close>

fun failed_shard :: "RoutedEngine \<Rightarrow> InstrumentRoute list \<Rightarrow> ShardId option option" where
  "failed_shard r [] = Some None"
| "failed_shard r (route # routes) =
     (case routed_health r (ir_shard_id route) of
        None \<Rightarrow> failed_shard r routes
      | Some health \<Rightarrow>
          do {
            health \<leftarrow> health;
            (if he_state health = EsFailed then Some (Some (ir_shard_id route)) else failed_shard r routes)
          })"

text \<open>Failing the session, whose result is ignored, and closing admission.\<close>

definition fail_session :: "SessionEngine \<Rightarrow> nat \<Rightarrow> SessionEngine" where
  "fail_session s now =
     s\<lparr>se_session := fst (handle (se_session s) Fail now), se_engines := routed_stop_admission (se_engines s)\<rparr>"

definition session_process_command :: "crc \<Rightarrow> SessionEngine \<Rightarrow> SequenceNumber \<Rightarrow> Command \<Rightarrow> nat
    \<Rightarrow> (SessionEngine \<times> (ShardId, SessionAdmissionError) result) option" where
  "session_process_command crc s session_sequence command now =
     do {
       failed \<leftarrow> failed_shard (se_engines s) (tbl_by_instrument (ro_routes (se_engines s)));
       (case failed of
          Some shard \<Rightarrow> Some (fail_session s now, Err (SaRouted (ReEngine shard EnPersistenceFailed)))
        | None \<Rightarrow>
            (case handle (se_session s) (SessCommand session_sequence) now of
               (_, Err error) \<Rightarrow> Some (s, Err (SaSession error))
             | (staged, Ok _) \<Rightarrow>
                 do {
                   (engines, result) \<leftarrow> routed_process_command crc (se_engines s) command;
                   let s = s\<lparr>se_engines := engines\<rparr>;
                   (case result of
                      Ok shard \<Rightarrow> Some (s\<lparr>se_session := staged\<rparr>, Ok shard)
                    | Err (ReEngine shard error) \<Rightarrow>
                        (case routed_health engines shard of
                           None \<Rightarrow> Some (s, Err (SaRouted (ReEngine shard error)))
                         | Some health \<Rightarrow>
                             do {
                               health \<leftarrow> health;
                               Some (if he_state health = EsFailed then fail_session s now else s,
                                     Err (SaRouted (ReEngine shard error)))
                             })
                    | Err error \<Rightarrow> Some (s, Err (SaRouted error)))
                 }))
     }"

definition session_process_frame :: "crc \<Rightarrow> SessionEngine \<Rightarrow> SequenceNumber \<Rightarrow> byte list \<Rightarrow> nat
    \<Rightarrow> (SessionEngine \<times> (ShardId, SessionAdmissionError) result) option" where
  "session_process_frame crc s session_sequence frame now =
     (case parse_message frame of
        Err error \<Rightarrow> Some (s, Err (SaRouted (ReParse error)))
      | Ok message \<Rightarrow> session_process_command crc s session_sequence (to_command message) now)"

definition session_stop_admission :: "SessionEngine \<Rightarrow> SessionEngine" where
  "session_stop_admission s = s\<lparr>se_engines := routed_stop_admission (se_engines s)\<rparr>"

end
