(* ===== verification/EngineProps.thy ===== *)
theory EngineProps
  imports Engine
begin

text \<open>
  The engine with its persistence worker and its event consumer. However their steps interleave and whatever the
  operating system answers, the engine's gateway is the run of the acknowledged commands, and each of them is a
  record of the journal, in order: a command is applied only after its record is in the queue. So the file always
  recovers to a state the engine was in.
\<close>

section \<open>Journalled commands\<close>

lemma journal_of_snoc:
  "journal_of crc first rs cs \<Longrightarrow> record_ok crc r \<Longrightarrow> jr_sequence r = first + length rs \<Longrightarrow> record_slice r = Some (encode_command c) \<Longrightarrow>
   command_ok c \<Longrightarrow> command_sequence c = first + length rs \<Longrightarrow> journal_of crc first (rs @ [r]) (cs @ [c])"
  by (induction crc first rs cs rule: journal_of.induct) auto

lemma journal_of_take: "journal_of crc first rs cs \<Longrightarrow> journal_of crc first (take n rs) (take n cs)"
  by (induction crc first rs cs arbitrary: n rule: journal_of.induct) (auto simp: take_Cons split: nat.splits)

lemma payload_fits: "length (encode_command c) \<le> MAX_PAYLOAD"
  by (cases c) (simp_all add: MAX_PAYLOAD_def)

section \<open>The interleavings\<close>

text \<open>
  The steps of the engine's thread, of the persistence worker's and of the event consumer's. A call that journals
  and applies a command is cut where it meets the other threads: the checks, which read the poison flag; the
  admission, which probes the event queue; the enqueue, which publishes the record; the application, which
  publishes the batch; and the closing of the producer after a failure. Between two of these the other threads
  run. The phases are those of \<open>apply_journaled\<close>. A call of the worker is one step, at the point where it has
  taken its records from the queue: what it does after that concerns the file and the status only.
  The list holds the acknowledged commands. A worker that is dropped before its shutdown is complete poisons the
  status; that it runs no more is the poison of its record.
\<close>

datatype EngineCall =
    Idle
  | Checked Command "byte list"
  | Admitted Command "byte list"
  | Enqueued Command
  | Failing

text \<open>What a call is made with: a typed command and its encoding, or a frame that parses and its command.\<close>

definition call_input :: "Command \<Rightarrow> byte list \<Rightarrow> bool" where
  "call_input c payload \<longleftrightarrow> command_ok c \<and> payload = encode_command c \<or> (\<exists>m. parse_message payload = Ok m \<and> c = to_command m)"

definition call_ends :: "Engine \<Rightarrow> EngineError \<Rightarrow> Engine \<times> EngineCall" where
  "call_ends e error = (if closes_admission error then (e\<lparr>en_failed := True\<rparr>, Failing) else (e, Idle))"

inductive engine_steps :: "crc \<Rightarrow> nat \<Rightarrow> Gateway \<Rightarrow> byte list \<Rightarrow> Engine \<Rightarrow> PersistenceWorker \<Rightarrow> Command list \<Rightarrow> EngineCall \<Rightarrow> bool"
  for crc REPORTS g0 base where
  engine_start: "gw_inv g0 \<Longrightarrow> EVENTS < 2 ^ 64 \<Longrightarrow> storage_try_new EVENTS = Ok storage \<Longrightarrow>
    builder_build REPORTS BATCH \<lparr>bd_gateway = g0, bd_configuration = configuration\<rparr> storage = Some (storage', Ok e) \<Longrightarrow>
    synced \<le> length base \<Longrightarrow>
    worker_new WORKER_BATCH (en_journal e) \<lparr>fl_contents = base, fl_synced = synced, fl_answers = answers\<rparr> policy = (j, Ok w) \<Longrightarrow>
    engine_steps crc REPORTS g0 base e w [] Idle"
| call_refused: "engine_steps crc REPORTS g0 base e w cs Idle \<Longrightarrow> call_input c payload \<Longrightarrow> engine_check e c = Err x \<Longrightarrow>
    call_ends e x = (e', pc) \<Longrightarrow> engine_steps crc REPORTS g0 base e' w cs pc"
| call_checked: "engine_steps crc REPORTS g0 base e w cs Idle \<Longrightarrow> call_input c payload \<Longrightarrow> engine_check e c = Ok () \<Longrightarrow>
    engine_steps crc REPORTS g0 base e w cs (Checked c payload)"
| call_not_admitted: "engine_steps crc REPORTS g0 base e w cs (Checked c payload) \<Longrightarrow> engine_admit e c = (e', Err x) \<Longrightarrow>
    call_ends e' x = (e'', pc) \<Longrightarrow> engine_steps crc REPORTS g0 base e'' w cs pc"
| call_admitted: "engine_steps crc REPORTS g0 base e w cs (Checked c payload) \<Longrightarrow> engine_admit e c = (e', Ok admitted) \<Longrightarrow>
    engine_steps crc REPORTS g0 base e' w cs (Admitted admitted payload)"
| call_not_journalled: "engine_steps crc REPORTS g0 base e w cs (Admitted c payload) \<Longrightarrow> engine_enqueue crc e payload = Some (e', Err x) \<Longrightarrow>
    call_ends e' x = (e'', pc) \<Longrightarrow> engine_steps crc REPORTS g0 base e'' (w\<lparr>pw_journal := en_journal e''\<rparr>) cs pc"
| call_journalled: "engine_steps crc REPORTS g0 base e w cs (Admitted c payload) \<Longrightarrow> engine_enqueue crc e payload = Some (e', Ok n) \<Longrightarrow>
    engine_steps crc REPORTS g0 base e' (w\<lparr>pw_journal := en_journal e'\<rparr>) cs (Enqueued c)"
| call_not_applied: "engine_steps crc REPORTS g0 base e w cs (Enqueued c) \<Longrightarrow> engine_apply e c = Some (e', Err x) \<Longrightarrow>
    call_ends e' x = (e'', pc) \<Longrightarrow> engine_steps crc REPORTS g0 base e'' w cs pc"
| call_applied: "engine_steps crc REPORTS g0 base e w cs (Enqueued c) \<Longrightarrow> engine_apply e c = Some (e', Ok ()) \<Longrightarrow>
    engine_steps crc REPORTS g0 base e' w (cs @ [c]) Idle"
| call_closes: "engine_steps crc REPORTS g0 base e w cs Failing \<Longrightarrow>
    engine_steps crc REPORTS g0 base (engine_stop_admission e) (w\<lparr>pw_journal := en_journal (engine_stop_admission e)\<rparr>) cs Idle"
| admission_stops: "engine_steps crc REPORTS g0 base e w cs Idle \<Longrightarrow>
    engine_steps crc REPORTS g0 base (engine_stop_admission e) (w\<lparr>pw_journal := en_journal (engine_stop_admission e)\<rparr>) cs Idle"
| worker_drains: "engine_steps crc REPORTS g0 base e w cs pc \<Longrightarrow> drain_batch crc w = Some (w', n) \<Longrightarrow>
    engine_steps crc REPORTS g0 base (e\<lparr>en_journal := pw_journal w'\<rparr>) w' cs pc"
| worker_shuts_down: "engine_steps crc REPORTS g0 base e w cs pc \<Longrightarrow> shutdown crc w = Some (w', u) \<Longrightarrow>
    engine_steps crc REPORTS g0 base (e\<lparr>en_journal := pw_journal w'\<rparr>) w' cs pc"
| worker_dropped: "engine_steps crc REPORTS g0 base e w cs pc \<Longrightarrow> \<not> jn_guard_complete (pw_journal w) \<Longrightarrow>
    engine_steps crc REPORTS g0 base (e\<lparr>en_journal := guard_drop (pw_journal w)\<rparr>)
      (w\<lparr>pw_journal := guard_drop (pw_journal w), pw_poisoned := True\<rparr>) cs pc"
| consumer_pops: "engine_steps crc REPORTS g0 base e w cs pc \<Longrightarrow> ring_pop (ee_ring (en_events e)) = Some (ring, batch) \<Longrightarrow>
    engine_steps crc REPORTS g0 base (e\<lparr>en_events := (en_events e)\<lparr>ee_ring := ring\<rparr>\<rparr>) w cs pc"

text \<open>The states between the engine's calls.\<close>

definition engine_trace :: "crc \<Rightarrow> nat \<Rightarrow> Gateway \<Rightarrow> byte list \<Rightarrow> Engine \<Rightarrow> PersistenceWorker \<Rightarrow> Command list \<Rightarrow> bool" where
  "engine_trace crc REPORTS g0 base e w cs \<longleftrightarrow> engine_steps crc REPORTS g0 base e w cs Idle"

text \<open>The command whose record is queued and which is not applied yet.\<close>

definition journalled :: "EngineCall \<Rightarrow> Command list" where
  "journalled pc = (case pc of Enqueued c \<Rightarrow> [c] | _ \<Rightarrow> [])"

lemma journalled_simps [simp]:
  "journalled Idle = []" "journalled (Checked c p) = []" "journalled (Admitted c p) = []" "journalled (Enqueued c) = [c]" "journalled Failing = []"
  by (simp_all add: journalled_def)

lemma call_inputD: "call_input c payload \<Longrightarrow> command_ok c" "call_input c payload \<Longrightarrow> payload = encode_command c"
  using parse_canonical by (auto simp: call_input_def)

definition call_inv :: "crc \<Rightarrow> nat \<Rightarrow> Gateway \<Rightarrow> byte list \<Rightarrow> Engine \<Rightarrow> PersistenceWorker \<Rightarrow> Command list \<Rightarrow> Command list \<Rightarrow>
    EventBatch list \<Rightarrow> JournalRecord list \<Rightarrow> nat \<Rightarrow> nat \<Rightarrow> nat \<Rightarrow> bool" where
  "call_inv crc REPORTS g0 base e w cs fl bs rs k a d \<longleftrightarrow> en_journal e = pw_journal w \<and>
     engine_inv (en_events e) bs \<and> ee_REPORTS (en_events e) = REPORTS \<and> worker_inv crc (gw_expected_sequence g0) base w rs k a d \<and>
     journal_of crc (gw_expected_sequence g0) rs (cs @ fl) \<and>
     (\<exists>outs. run_steps (command_step REPORTS) g0 cs = Some (ee_gateway (en_events e), outs)) \<and>
     gw_expected_sequence (ee_gateway (en_events e)) = gw_expected_sequence g0 + length cs \<and>
     en_writer e = (\<not> producer_is_closed (pw_journal w))"

abbreviation run_inv :: "crc \<Rightarrow> nat \<Rightarrow> Gateway \<Rightarrow> byte list \<Rightarrow> Engine \<Rightarrow> PersistenceWorker \<Rightarrow> Command list \<Rightarrow>
    EventBatch list \<Rightarrow> JournalRecord list \<Rightarrow> nat \<Rightarrow> nat \<Rightarrow> nat \<Rightarrow> bool" where
  "run_inv crc REPORTS g0 base e w cs \<equiv> call_inv crc REPORTS g0 base e w cs []"

text \<open>What is known at each point of a call, with the batches that wait.\<close>

definition admissible :: "Engine \<Rightarrow> EventBatch list \<Rightarrow> Command \<Rightarrow> bool" where
  "admissible e bs c \<longleftrightarrow> command_ok c \<and> en_writer e \<and> command_sequence c = engine_expected_sequence e \<and>
     engine_expected_sequence e \<noteq> 2 ^ 64 - 1 \<and> length bs < ring_room (ee_ring (en_events e))"

definition call_ok :: "Engine \<Rightarrow> EventBatch list \<Rightarrow> EngineCall \<Rightarrow> bool" where
  "call_ok e bs pc =
     (case pc of
        Idle \<Rightarrow> True
      | Checked c payload \<Rightarrow> call_input c payload \<and> en_writer e
      | Admitted c payload \<Rightarrow> call_input c payload \<and> admissible e bs c
      | Enqueued c \<Rightarrow> admissible e bs c
      | Failing \<Rightarrow> True)"

lemma call_invD:
  assumes "call_inv crc REPORTS g0 base e w cs fl bs rs k a d"
  shows "en_journal e = pw_journal w" "engine_inv (en_events e) bs" "ee_REPORTS (en_events e) = REPORTS"
    "worker_inv crc (gw_expected_sequence g0) base w rs k a d" "channel_inv crc (gw_expected_sequence g0) rs k (en_journal e)"
    "journal_of crc (gw_expected_sequence g0) rs (cs @ fl)" "length rs = length (cs @ fl)" "k \<le> length rs" "a \<le> k"
    "gw_expected_sequence (ee_gateway (en_events e)) = gw_expected_sequence g0 + length cs"
    "jn_next_sequence (en_journal e) = engine_expected_sequence e + length fl"
    "en_writer e = (\<not> producer_is_closed (pw_journal w))"
  using assms journal_of_commands [of crc "gw_expected_sequence g0" rs "cs @ fl"]
  by (auto simp: call_inv_def worker_inv_def channel_inv_def engine_expected_sequence_def)

lemma run_invD:
  assumes "run_inv crc REPORTS g0 base e w cs bs rs k a d"
  shows "en_journal e = pw_journal w" "engine_inv (en_events e) bs" "ee_REPORTS (en_events e) = REPORTS"
    "worker_inv crc (gw_expected_sequence g0) base w rs k a d" "channel_inv crc (gw_expected_sequence g0) rs k (en_journal e)"
    "journal_of crc (gw_expected_sequence g0) rs cs" "length rs = length cs" "k \<le> length cs" "a \<le> k"
    "gw_expected_sequence (ee_gateway (en_events e)) = gw_expected_sequence g0 + length cs"
    "jn_next_sequence (en_journal e) = engine_expected_sequence e"
    "en_writer e = (\<not> producer_is_closed (pw_journal w))"
  using call_invD [OF assms] by simp_all

section \<open>Admission\<close>

text \<open>What the engine answers to a well-typed command, with the numbers of batches and records waiting.\<close>

definition engine_verdict :: "Engine \<Rightarrow> nat \<Rightarrow> nat \<Rightarrow> Command \<Rightarrow> (unit, EngineError) result" where
  "engine_verdict e batches records c =
     (if en_failed e then Err EnFailed
      else if engine_is_poisoned e then Err EnPersistenceFailed
      else if \<not> en_writer e then Err EnStopped
      else if command_instrument_id c \<noteq> engine_instrument e then Err (EnUnknownInstrument (command_instrument_id c))
      else if command_sequence c \<noteq> engine_expected_sequence e
      then Err (EnAdmission (EvGateway (GwSequence (engine_expected_sequence e) (command_sequence c))))
      else if engine_expected_sequence e = 2 ^ 64 - 1 then Err (EnAdmission (EvGateway (GwRiskState ArithmeticOverflow)))
      else if batches = ring_room (ee_ring (en_events e)) then Err (EnAdmission Backpressured)
      else if records = ring_room (jn_ring (en_journal e)) then Err (EnJournal Saturated)
      else Ok ())"

lemma enqueue_saturated:
  assumes ch: "channel_inv crc first rs k j" and n: "first + Suc (length rs) < 2 ^ 64" and len: "length payload \<le> MAX_PAYLOAD"
    and full: "length rs - k = ring_room (jn_ring j)"
  shows "\<exists>ring. journal_enqueue crc j payload = Some (j\<lparr>jn_ring := ring\<rparr>, Err Saturated) \<and> channel_inv crc first rs k (j\<lparr>jn_ring := ring\<rparr>)"
proof -
  have I: "jn_next_sequence j = first + length rs" "u64_ok (first + length rs)" "ring_holds (jn_ring j) (drop k rs)"
    using ch by (auto simp: channel_inv_def)
  from record_new_ok [OF len I(2), of crc] obtain r where r: "record_new crc (first + length rs) payload = Ok r" by blast
  from ring.push_full [OF I(3), of r] full obtain ring where p: "ring_push (jn_ring j) r = Some (ring, Err r)" "ring_holds ring (drop k rs)" by auto
  from p(2) ch have "channel_inv crc first rs k (j\<lparr>jn_ring := ring\<rparr>)" by (simp add: channel_inv_def)
  with n I(1) r p(1) show ?thesis by (auto simp: journal_enqueue_def checked_add_def Let_def)
qed

lemma enqueue_accepted:
  assumes ch: "channel_inv crc first rs k j" and n: "first + Suc (length rs) < 2 ^ 64" and len: "length payload \<le> MAX_PAYLOAD"
    and room: "length rs - k \<noteq> ring_room (jn_ring j)"
  obtains ring r where "journal_enqueue crc j payload = Some (j\<lparr>jn_ring := ring, jn_next_sequence := first + Suc (length rs)\<rparr>, Ok (first + length rs))"
    "channel_inv crc first (rs @ [r]) k (j\<lparr>jn_ring := ring, jn_next_sequence := first + Suc (length rs)\<rparr>)"
    "record_ok crc r" "jr_sequence r = first + length rs" "record_slice r = Some payload"
proof -
  have I: "jn_next_sequence j = first + length rs" "u64_ok (first + length rs)" "ring_holds (jn_ring j) (drop k rs)" "k \<le> length rs"
    "numbered_records crc first rs" using ch by (auto simp: channel_inv_def)
  from record_new_ok [OF len I(2), of crc] obtain r where
    r: "record_new crc (first + length rs) payload = Ok r" "record_ok crc r" "jr_sequence r = first + length rs" "record_slice r = Some payload" by blast
  from ring.push_room [OF I(3), of r] room obtain ring where p: "ring_push (jn_ring j) r = Some (ring, Ok ())" "ring_holds ring (drop k rs @ [r])" by auto
  have "channel_inv crc first (rs @ [r]) k (j\<lparr>jn_ring := ring, jn_next_sequence := first + Suc (length rs)\<rparr>)"
    using ch p(2) I(4) n numbered_snoc [OF I(5) r(2,3)] by (simp add: channel_inv_def u64_ok_def)
  moreover have "journal_enqueue crc j payload = Some (j\<lparr>jn_ring := ring, jn_next_sequence := first + Suc (length rs)\<rparr>, Ok (first + length rs))"
    using n I(1) r(1) p(1) by (simp add: journal_enqueue_def checked_add_def Let_def)
  ultimately show thesis using that r by blast
qed

lemma run_inv_events:
  assumes "call_inv crc REPORTS g0 base e w cs fl bs rs k a d" and "same_engine (en_events e) events" and "engine_inv events bs'"
  shows "call_inv crc REPORTS g0 base (e\<lparr>en_events := events\<rparr>) w cs fl bs' rs k a d"
  using assms by (auto simp: call_inv_def same_engine_def)

lemma run_inv_stop:
  assumes "call_inv crc REPORTS g0 base e w cs fl bs rs k a d"
  shows "call_inv crc REPORTS g0 base (engine_stop_admission e) (w\<lparr>pw_journal := en_journal (engine_stop_admission e)\<rparr>) cs fl bs rs k a d"
proof (cases "en_writer e")
  case True
  with assms have "worker_inv crc (gw_expected_sequence g0) base (w\<lparr>pw_journal := writer_close (pw_journal w)\<rparr>) rs k a d"
    "producer_is_closed (writer_close (pw_journal w))"
    by (auto simp: call_inv_def worker_inv_def channel_inv_def status_inv_def status_defs producer_is_closed_def)
  with assms True show ?thesis by (simp add: call_inv_def engine_stop_admission_def)
next
  case False
  with assms show ?thesis by (simp add: call_inv_def engine_stop_admission_def)
qed

lemma run_inv_failed:
  "call_inv crc REPORTS g0 base e w cs fl bs rs k a d \<Longrightarrow> call_inv crc REPORTS g0 base (e\<lparr>en_failed := True\<rparr>) w cs fl bs rs k a d"
  by (simp add: call_inv_def)

lemma run_inv_fail:
  assumes "call_inv crc REPORTS g0 base e w cs fl bs rs k a d"
  shows "call_inv crc REPORTS g0 base (engine_fail e) (w\<lparr>pw_journal := en_journal (engine_fail e)\<rparr>) cs fl bs rs k a d"
  using run_inv_stop [of crc REPORTS g0 base "e\<lparr>en_failed := True\<rparr>" w cs fl bs rs k a d] assms
  by (simp add: engine_fail_def call_inv_def)

lemma run_inv_same: "call_inv crc REPORTS g0 base e w cs fl bs rs k a d \<Longrightarrow>
    call_inv crc REPORTS g0 base e (w\<lparr>pw_journal := en_journal e\<rparr>) cs fl bs rs k a d"
  by (simp add: call_inv_def)

lemma events_of_fail [simp]: "en_events (engine_fail e) = en_events e" "en_events (engine_stop_admission e) = en_events e"
  by (simp_all add: engine_fail_def engine_stop_admission_def)

text \<open>The admission of the event engine under the engine's invariant.\<close>

lemma admit_verdict:
  assumes inv: "run_inv crc REPORTS g0 base e w cs bs rs k a d"
  obtains events where "same_engine (en_events e) events" "engine_inv events bs"
    "admit (en_events e) c = (events,
       if command_sequence c \<noteq> engine_expected_sequence e
       then Err (EvGateway (GwSequence (engine_expected_sequence e) (command_sequence c)))
       else if engine_expected_sequence e = 2 ^ 64 - 1 then Err (EvGateway (GwRiskState ArithmeticOverflow))
       else if length bs = ring_room (ee_ring (en_events e)) then Err Backpressured else Ok c)"
proof -
  note I = run_invD [OF inv]
  have u: "u64_ok (gw_expected_sequence (ee_gateway (en_events e)))" and h: "ring_holds (ee_ring (en_events e)) bs"
    using I(2) by (auto simp: engine_inv_def gw_inv_def)
  from ring.within [OF h] have le: "length bs \<le> ring_room (ee_ring (en_events e))" .
  note pre = preflight_cases [OF I(2), of "command_sequence c", unfolded check_sequence_cases [OF u]]
  show thesis
  proof (cases "command_sequence c \<noteq> engine_expected_sequence e \<or> engine_expected_sequence e = 2 ^ 64 - 1")
    case True
    have "same_engine (en_events e) (en_events e)" by (simp add: same_engine_def)
    from that [OF this I(2)] True pre show thesis by (auto simp: admit_def engine_expected_sequence_def split: if_splits)
  next
    case False
    with pre obtain events where ev: "same_engine (en_events e) events" "engine_inv events bs"
      "preflight (en_events e) (command_sequence c) = (events, if length bs < ring_room (ee_ring (en_events e)) then Ok () else Err Backpressured)"
      by (auto simp: engine_expected_sequence_def)
    with False le show thesis by (intro that [OF ev(1,2)]) (auto simp: admit_def)
  qed
qed

text \<open>The phases of a call. The checks pass exactly in an engine that takes the command; the journal's number never differs.\<close>

lemma check_verdict:
  assumes "run_inv crc REPORTS g0 base e w cs bs rs k a d"
  shows "engine_check e c = (if en_failed e then Err EnFailed else if engine_is_poisoned e then Err EnPersistenceFailed
    else if \<not> en_writer e then Err EnStopped
    else if command_instrument_id c \<noteq> engine_instrument e then Err (EnUnknownInstrument (command_instrument_id c)) else Ok ())"
  using run_invD(11) [OF assms] by (simp add: engine_check_def)

lemma admit_phase:
  assumes inv: "run_inv crc REPORTS g0 base e w cs bs rs k a d" and x: "engine_admit e c = (e', r)"
  shows "run_inv crc REPORTS g0 base e' w cs bs rs k a d" "same_engine (en_events e) (en_events e')"
    "\<exists>events. e' = e\<lparr>en_events := events\<rparr>"
    "r = (if command_sequence c \<noteq> engine_expected_sequence e
       then Err (EnAdmission (EvGateway (GwSequence (engine_expected_sequence e) (command_sequence c))))
       else if engine_expected_sequence e = 2 ^ 64 - 1 then Err (EnAdmission (EvGateway (GwRiskState ArithmeticOverflow)))
       else if length bs = ring_room (ee_ring (en_events e)) then Err (EnAdmission Backpressured) else Ok c)"
proof -
  obtain events where ev: "same_engine (en_events e) events" "engine_inv events bs"
    "admit (en_events e) c = (events,
       if command_sequence c \<noteq> engine_expected_sequence e
       then Err (EvGateway (GwSequence (engine_expected_sequence e) (command_sequence c)))
       else if engine_expected_sequence e = 2 ^ 64 - 1 then Err (EvGateway (GwRiskState ArithmeticOverflow))
       else if length bs = ring_room (ee_ring (en_events e)) then Err Backpressured else Ok c)"
    by (rule admit_verdict [OF inv])
  have e': "e' = e\<lparr>en_events := events\<rparr>" using x ev(3) by (simp add: engine_admit_def)
  then show "\<exists>events. e' = e\<lparr>en_events := events\<rparr>" by blast
  show "run_inv crc REPORTS g0 base e' w cs bs rs k a d" unfolding e' by (rule run_inv_events [OF inv ev(1,2)])
  show "same_engine (en_events e) (en_events e')" using ev(1) by (simp add: e')
  show "r = (if command_sequence c \<noteq> engine_expected_sequence e
       then Err (EnAdmission (EvGateway (GwSequence (engine_expected_sequence e) (command_sequence c))))
       else if engine_expected_sequence e = 2 ^ 64 - 1 then Err (EnAdmission (EvGateway (GwRiskState ArithmeticOverflow)))
       else if length bs = ring_room (ee_ring (en_events e)) then Err (EnAdmission Backpressured) else Ok c)"
    using x ev(3) by (auto simp: engine_admit_def split: if_splits)
qed

lemma admitted_ok:
  assumes inv: "run_inv crc REPORTS g0 base e w cs bs rs k a d" and x: "engine_admit e c = (e', Ok admitted)" and c: "command_ok c" "en_writer e"
  shows "admitted = c" "admissible e' bs c"
proof -
  note P = admit_phase [OF inv x]
  have h: "ring_holds (ee_ring (en_events e)) bs" using run_invD(2) [OF inv] by (simp add: engine_inv_def)
  show "admitted = c" using P(4) by (simp split: if_splits)
  show "admissible e' bs c" using P(2-4) c ring.within [OF h] by (auto simp: admissible_def engine_expected_sequence_def same_engine_def split: if_splits)
qed

text \<open>The enqueue: the record is queued, or the queue is full and nothing changes.\<close>

lemma enqueue_phase:
  assumes inv: "run_inv crc REPORTS g0 base e w cs bs rs k a d" and ad: "admissible e bs c"
  shows "\<exists>e'. engine_enqueue crc e (encode_command c) =
      Some (e', if length rs - k = ring_room (jn_ring (en_journal e)) then Err (EnJournal Saturated) else Ok (engine_expected_sequence e)) \<and>
    en_events e' = en_events e \<and> en_writer e' \<and>
    (if length rs - k = ring_room (jn_ring (en_journal e))
     then run_inv crc REPORTS g0 base e' (w\<lparr>pw_journal := en_journal e'\<rparr>) cs bs rs k a d
     else \<exists>r. call_inv crc REPORTS g0 base e' (w\<lparr>pw_journal := en_journal e'\<rparr>) cs [c] bs (rs @ [r]) k a d)"
proof -
  note I = run_invD [OF inv]
  let ?first = "gw_expected_sequence g0"
  have A: "command_ok c" "en_writer e" "command_sequence c = engine_expected_sequence e" "engine_expected_sequence e \<noteq> 2 ^ 64 - 1"
    using ad by (auto simp: admissible_def)
  have "u64_ok (gw_expected_sequence (ee_gateway (en_events e)))" using I(2) by (simp add: engine_inv_def gw_inv_def)
  with A(4) I(7,10) have n: "?first + Suc (length rs) < 2 ^ 64" by (simp add: u64_ok_def engine_expected_sequence_def)
  show ?thesis
  proof (cases "length rs - k = ring_room (jn_ring (en_journal e))")
    case True
    from enqueue_saturated [OF I(5) n payload_fits True, of c] obtain ring where
      q: "journal_enqueue crc (en_journal e) (encode_command c) = Some ((en_journal e)\<lparr>jn_ring := ring\<rparr>, Err Saturated)"
        "channel_inv crc ?first rs k ((en_journal e)\<lparr>jn_ring := ring\<rparr>)" by blast
    let ?e = "e\<lparr>en_journal := (en_journal e)\<lparr>jn_ring := ring\<rparr>\<rparr>"
    have "worker_inv crc ?first base (w\<lparr>pw_journal := (pw_journal w)\<lparr>jn_ring := ring\<rparr>\<rparr>) rs k a d"
      using worker_inv_journal [OF I(4) q(2)] I(1) by simp
    then have "run_inv crc REPORTS g0 base ?e (w\<lparr>pw_journal := en_journal ?e\<rparr>) cs bs rs k a d"
      using inv I(1) by (simp add: call_inv_def producer_is_closed_def)
    then show ?thesis using True q(1) A(2) by (intro exI [of _ ?e]) (simp add: engine_enqueue_def)
  next
    case False
    obtain ring r where q: "journal_enqueue crc (en_journal e) (encode_command c) =
        Some ((en_journal e)\<lparr>jn_ring := ring, jn_next_sequence := ?first + Suc (length rs)\<rparr>, Ok (?first + length rs))"
      "channel_inv crc ?first (rs @ [r]) k ((en_journal e)\<lparr>jn_ring := ring, jn_next_sequence := ?first + Suc (length rs)\<rparr>)"
      "record_ok crc r" "jr_sequence r = ?first + length rs" "record_slice r = Some (encode_command c)"
      by (rule enqueue_accepted [OF I(5) n payload_fits False])
    let ?j = "(en_journal e)\<lparr>jn_ring := ring, jn_next_sequence := ?first + Suc (length rs)\<rparr>"
    let ?e = "e\<lparr>en_journal := ?j\<rparr>"
    have "\<not> jn_guard_complete ?j" using guard_needs_close [OF I(4)] I(1,12) A(2) by simp
    then have "worker_inv crc ?first base (w\<lparr>pw_journal := ?j\<rparr>) (rs @ [r]) k a d"
      using worker_inv_journal [OF I(4), of "rs @ [r]" ?j] q(2) I(1,7,8) by simp
    moreover have "journal_of crc ?first (rs @ [r]) (cs @ [c])"
      using journal_of_snoc [OF I(6) q(3,4,5) A(1)] A(3) I(7,10) by (simp add: engine_expected_sequence_def)
    ultimately have "call_inv crc REPORTS g0 base ?e (w\<lparr>pw_journal := en_journal ?e\<rparr>) cs [c] bs (rs @ [r]) k a d"
      using inv I(1) by (simp add: call_inv_def producer_is_closed_def)
    then show ?thesis using False q(1) A(2) I(7,10)
      by (intro exI [of _ ?e]) (auto simp: engine_enqueue_def engine_expected_sequence_def)
  qed
qed

text \<open>The application: the command whose record is queued is processed and published.\<close>

lemma apply_phase:
  assumes inv: "call_inv crc REPORTS g0 base e w cs [c] bs rs k a d" and ad: "admissible e bs c"
  shows "\<exists>e' b. engine_apply e c = Some (e', Ok ()) \<and> published (en_events e) bs c (en_events e') \<and> en_journal e' = en_journal e \<and>
    run_inv crc REPORTS g0 base e' w (cs @ [c]) (bs @ [b]) rs k a d"
proof -
  note I = call_invD [OF inv]
  let ?g = "ee_gateway (en_events e)"
  have A: "command_ok c" "command_sequence c = engine_expected_sequence e" "engine_expected_sequence e \<noteq> 2 ^ 64 - 1"
    "length bs < ring_room (ee_ring (en_events e))" using ad by (auto simp: admissible_def)
  have u: "u64_ok (gw_expected_sequence ?g)" using I(2) by (auto simp: engine_inv_def gw_inv_def)
  have seq: "check_sequence ?g (command_sequence c) = Ok ()" using A(2,3) by (simp add: check_sequence_cases [OF u] engine_expected_sequence_def)
  from apply_admitted_effect [OF I(2) A(1,4) seq] obtain g rb x b ering where
    p: "process_command ?g c (reports_new (ee_REPORTS (en_events e))) = Some (g, rb, x)"
      "apply_admitted_command (en_events e) c = Some ((en_events e)\<lparr>ee_gateway := g, ee_ring := ering\<rparr>, Ok ())"
      "engine_inv ((en_events e)\<lparr>ee_gateway := g, ee_ring := ering\<rparr>) (bs @ [b])" "ring_room ering = ring_room (ee_ring (en_events e))"
      "gw_expected_sequence g = gw_expected_sequence ?g + 1"
      "batch_iter b = events_of (identity_from_command c) (command_sequence c) (tops ?g) (tops g) (reports_iter rb) x" by blast
  let ?e = "e\<lparr>en_events := (en_events e)\<lparr>ee_gateway := g, ee_ring := ering\<rparr>\<rparr>"
  have "published (en_events e) bs c (en_events ?e)"
    unfolding published_def using p by (intro exI [of _ rb] exI [of _ x] exI [of _ b]) simp
  moreover have "\<exists>outs. run_steps (command_step REPORTS) g0 (cs @ [c]) = Some (g, outs)"
    using inv p(1) I(3) by (auto simp: call_inv_def run_steps_append command_step_def)
  then have "run_inv crc REPORTS g0 base ?e w (cs @ [c]) (bs @ [b]) rs k a d" using inv p(3,5) by (simp add: call_inv_def)
  ultimately show ?thesis using p(2) by (intro exI [of _ ?e] exI [of _ b]) (simp add: engine_apply_def)
qed

text \<open>The whole call. A command that passes every check is journalled, then applied; a refused one changes neither
  the gateway nor the journal's records.\<close>

lemma published_same:
  assumes "same_engine e e0" and "published e0 bs c e'"
  shows "published e bs c e'"
  using assms by (auto simp: published_def same_engine_def)

lemma apply_accepted:
  assumes inv: "run_inv crc REPORTS g0 base e w cs bs rs k a d" and c: "command_ok c"
    and v: "engine_verdict e (length bs) (length rs - k) c = Ok ()"
  shows "\<exists>e' b r. apply_journaled crc e c (encode_command c) = Some (e', Ok ()) \<and> published (en_events e) bs c (en_events e') \<and>
    run_inv crc REPORTS g0 base e' (w\<lparr>pw_journal := en_journal e'\<rparr>) (cs @ [c]) (bs @ [b]) (rs @ [r]) k a d"
proof -
  have chk: "engine_check e c = Ok ()" "en_writer e" using v by (auto simp: check_verdict [OF inv] engine_verdict_def split: if_splits)
  obtain e1 r1 where adm: "engine_admit e c = (e1, r1)" by fastforce
  note P = admit_phase [OF inv adm]
  from P(4) v have "r1 = Ok c" by (auto simp: engine_verdict_def split: if_splits)
  note A = admitted_ok(2) [OF inv adm [unfolded this] c chk(2)]
  have room: "length rs - k \<noteq> ring_room (jn_ring (en_journal e1))" using v P(3) by (auto simp: engine_verdict_def split: if_splits)
  from enqueue_phase [OF P(1) A] room obtain e2 r n where
    e2: "engine_enqueue crc e1 (encode_command c) = Some (e2, Ok n)" "en_events e2 = en_events e1" "en_writer e2"
      "call_inv crc REPORTS g0 base e2 (w\<lparr>pw_journal := en_journal e2\<rparr>) cs [c] bs (rs @ [r]) k a d" by auto
  have "admissible e2 bs c" using A e2(2,3) by (simp add: admissible_def engine_expected_sequence_def)
  from apply_phase [OF e2(4) this] obtain e3 b where
    e3: "engine_apply e2 c = Some (e3, Ok ())" "published (en_events e2) bs c (en_events e3)" "en_journal e3 = en_journal e2"
      "run_inv crc REPORTS g0 base e3 (w\<lparr>pw_journal := en_journal e2\<rparr>) (cs @ [c]) (bs @ [b]) (rs @ [r]) k a d" by blast
  have "apply_journaled crc e c (encode_command c) = Some (e3, Ok ())"
    using chk(1) adm \<open>r1 = Ok c\<close> e2(1) e3(1) by (simp add: apply_journaled_def)
  moreover have "published (en_events e) bs c (en_events e3)" using published_same [OF P(2)] e3(2) e2(2) by simp
  ultimately show ?thesis using e3(3,4) by (intro exI [of _ e3] exI [of _ b] exI [of _ r]) simp
qed

lemma refuse_kept:
  assumes "run_inv crc REPORTS g0 base e w cs bs rs k a d" and "same_engine events (en_events e)"
  shows "\<exists>e'. engine_refuse e x = (e', Err x) \<and> same_engine events (en_events e') \<and>
    run_inv crc REPORTS g0 base e' (w\<lparr>pw_journal := en_journal e'\<rparr>) cs bs rs k a d"
  using assms run_inv_same [OF assms(1)] run_inv_fail [OF assms(1)] by (simp add: engine_refuse_def)

lemma apply_refused:
  assumes inv: "run_inv crc REPORTS g0 base e w cs bs rs k a d" and v: "engine_verdict e (length bs) (length rs - k) c = Err x"
    and c: "command_ok c"
  shows "\<exists>e'. apply_journaled crc e c (encode_command c) = Some (e', Err x) \<and> same_engine (en_events e) (en_events e') \<and>
    run_inv crc REPORTS g0 base e' (w\<lparr>pw_journal := en_journal e'\<rparr>) cs bs rs k a d"
proof (cases "engine_check e c")
  case (Err y)
  with v have "y = x" by (auto simp: check_verdict [OF inv] engine_verdict_def split: if_splits)
  with Err have "apply_journaled crc e c (encode_command c) = Some (engine_refuse e x)" by (simp add: apply_journaled_def)
  moreover have "same_engine (en_events e) (en_events e)" by (simp add: same_engine_def)
  ultimately show ?thesis using refuse_kept [OF inv] by simp
next
  case chk: (Ok u)
  then have w: "en_writer e" by (auto simp: check_verdict [OF inv] split: if_splits)
  obtain e1 r1 where adm: "engine_admit e c = (e1, r1)" by fastforce
  note P = admit_phase [OF inv adm]
  show ?thesis
  proof (cases r1)
    case (Err y)
    with P(4) v chk have "y = x" by (auto simp: check_verdict [OF inv] engine_verdict_def split: if_splits)
    with Err chk adm have "apply_journaled crc e c (encode_command c) = Some (engine_refuse e1 x)" by (simp add: apply_journaled_def)
    then show ?thesis using refuse_kept [OF P(1,2)] by simp
  next
    case (Ok y)
    note A = admitted_ok [OF inv adm [unfolded Ok] c w]
    have full: "length rs - k = ring_room (jn_ring (en_journal e1))" "x = EnJournal Saturated"
      using v chk P(3,4) Ok by (auto simp: check_verdict [OF inv] engine_verdict_def split: if_splits)
    from enqueue_phase [OF P(1) A(2)] full(1) obtain e2 where
      e2: "engine_enqueue crc e1 (encode_command c) = Some (e2, Err (EnJournal Saturated))" "en_events e2 = en_events e1"
        "run_inv crc REPORTS g0 base e2 (w\<lparr>pw_journal := en_journal e2\<rparr>) cs bs rs k a d" by auto
    have "apply_journaled crc e c (encode_command c) = Some (e2, Err x)"
      using chk adm Ok e2(1) full(2) by (simp add: apply_journaled_def engine_refuse_def closes_admission_def)
    then show ?thesis using P(2) e2(2,3) by (intro exI [of _ e2]) simp
  qed
qed

section \<open>Every interleaving keeps the invariant\<close>

lemma run_inv_worker:
  assumes "call_inv crc REPORTS g0 base e w cs fl bs rs k a d" and "worker_inv crc (gw_expected_sequence g0) base w' rs k' a' d'"
    and "producer_is_closed (pw_journal w') = producer_is_closed (pw_journal w)"
  shows "call_inv crc REPORTS g0 base (e\<lparr>en_journal := pw_journal w'\<rparr>) w' cs fl bs rs k' a' d'"
  using assms by (simp add: call_inv_def)

lemma channel_split_fresh:
  assumes "channel_split first = Ok j" and "u64_ok first"
  shows "channel_inv crc first [] 0 j" "jn_status j = Some (status_new first)" "\<not> jn_guard_complete j" "\<not> producer_is_closed j"
proof -
  from ring_new_holds [of RING_CAPACITY] have "capacity_ok RING_CAPACITY \<longrightarrow> (\<exists>r :: JournalRecord Ring. ring_new RING_CAPACITY = Ok r \<and> ring_holds r [])" by blast
  moreover have "capacity_ok RING_CAPACITY" unfolding capacity_ok_def RING_CAPACITY_def by (intro exI [of _ 10]) simp
  ultimately obtain r :: "JournalRecord Ring" where r: "ring_new RING_CAPACITY = Ok r" "ring_holds r []" by blast
  with assms show "channel_inv crc first [] 0 j" "jn_status j = Some (status_new first)" "\<not> jn_guard_complete j" "\<not> producer_is_closed j"
    by (auto simp: channel_split_def channel_inv_def numbered_records_def producer_is_closed_def status_new_def)
qed

lemma storage_fresh:
  assumes "storage_try_new EVENTS = Ok storage" and "EVENTS < 2 ^ 64"
  shows "ring_holds (es_events storage) []"
proof -
  from assms(1) have new: "ring_new EVENTS = Ok (es_events storage)" by (auto simp: storage_try_new_def and_then_Ok_iff)
  then obtain k where k: "EVENTS = 2 ^ k" by (auto simp: ring_new_def spsc_try_new_def is_power_of_two_iff split: if_splits)
  with assms(2) have "(2 :: nat) ^ k < 2 ^ 64" by simp
  then have "k < 64" by (rule power_less_imp_less_exp [rotated]) simp
  with k have "capacity_ok EVENTS" by (auto simp: capacity_ok_def)
  from ring_new_holds [OF this, where 'a = EventBatch] new show ?thesis by auto
qed

lemma run_inv_start:
  assumes g: "gw_inv g0" and st: "EVENTS < 2 ^ 64" "storage_try_new EVENTS = Ok storage" and synced: "synced \<le> length base"
    and b: "builder_build REPORTS BATCH \<lparr>bd_gateway = g0, bd_configuration = configuration\<rparr> storage = Some (storage', Ok e)"
    and w: "worker_new WORKER_BATCH (en_journal e) \<lparr>fl_contents = base, fl_synced = synced, fl_answers = answers\<rparr> policy = (j, Ok w)"
  shows "run_inv crc REPORTS g0 base e w [] [] [] 0 0 0"
proof -
  let ?first = "gw_expected_sequence g0"
  have u: "u64_ok ?first" using g by (simp add: gw_inv_def)
  from b obtain events where e: "channel_split ?first = Ok (en_journal e)"
    "event_engine_try_new REPORTS BATCH g0 (es_events storage) = Ok events" "en_events e = events" "en_writer e"
    by (auto simp: builder_build_def split: if_splits result.splits option.splits)
  note j = channel_split_fresh [OF e(1) u]
  have "ee_REPORTS events = REPORTS \<and> ee_gateway events = g0 \<and> engine_inv events []"
    using e(2) g storage_fresh [OF st(2,1)] by (auto simp: event_engine_try_new_def engine_inv_def U16_MAX_def U64_MAX_def min_def split: if_splits)
  moreover have "pw_journal w = en_journal e \<and> worker_inv crc ?first base w [] 0 0 0"
    using w j synced by (auto simp: worker_new_def worker_inv_def status_inv_def status_new_def file_inv_def split: if_splits)
  ultimately show ?thesis using e(3,4) j(4) by (simp add: call_inv_def)
qed

lemma run_inv_dropped:
  assumes inv: "call_inv crc REPORTS g0 base e w cs fl bs rs k a d" and "\<not> jn_guard_complete (pw_journal w)"
  shows "call_inv crc REPORTS g0 base (e\<lparr>en_journal := guard_drop (pw_journal w)\<rparr>)
    (w\<lparr>pw_journal := guard_drop (pw_journal w), pw_poisoned := True\<rparr>) cs fl bs rs k a d"
proof -
  have "worker_inv crc (gw_expected_sequence g0) base (w\<lparr>pw_journal := guard_drop (pw_journal w), pw_poisoned := True\<rparr>) rs k a d"
    using assms by (auto simp: call_inv_def worker_inv_def channel_inv_def status_inv_def guard_drop_def status_defs)
  moreover have "producer_is_closed (guard_drop (pw_journal w)) = producer_is_closed (pw_journal w)"
    using call_invD(4) [OF inv] by (auto simp: worker_inv_def status_inv_def guard_drop_def status_defs producer_is_closed_def)
  ultimately show ?thesis
    using run_inv_worker [OF inv, of "w\<lparr>pw_journal := guard_drop (pw_journal w), pw_poisoned := True\<rparr>"] by simp
qed

lemma pop_holds:
  assumes "ring_holds r bs" and "ring_pop r = Some (r', x)"
  shows "ring_holds r' (tl bs)" "ring_room r' = ring_room r"
  using assms ring.pop_empty [of r] ring.pop_front [of r "hd bs" "tl bs"] by (cases bs, auto)+

lemma call_ends_inv:
  assumes "run_inv crc REPORTS g0 base e w cs bs rs k a d" and "call_ends e x = (e', pc)"
  shows "call_inv crc REPORTS g0 base e' w cs (journalled pc) bs rs k a d" "call_ok e' bs pc" "en_journal e' = en_journal e"
  using assms run_inv_failed [OF assms(1)] by (auto simp: call_ends_def call_ok_def split: if_splits)

lemma call_ok_worker: "call_ok (e\<lparr>en_journal := j\<rparr>) bs pc = call_ok e bs pc"
  by (auto simp: call_ok_def admissible_def engine_expected_sequence_def split: EngineCall.splits)

lemma call_ok_writer: "call_ok e bs (Enqueued c) \<Longrightarrow> en_writer e"
  by (simp add: call_ok_def admissible_def)

lemma steps_invI:
  "call_inv crc REPORTS g0 base e w cs (journalled pc) bs rs k a d \<Longrightarrow> call_ok e bs pc \<Longrightarrow>
   \<exists>bs rs k a d. call_inv crc REPORTS g0 base e w cs (journalled pc) bs rs k a d \<and> call_ok e bs pc"
  by blast

lemma engine_steps_inv:
  assumes "engine_steps crc REPORTS g0 base e w cs pc"
  shows "\<exists>bs rs k a d. call_inv crc REPORTS g0 base e w cs (journalled pc) bs rs k a d \<and> call_ok e bs pc"
  using assms
proof induction
  case (engine_start EVENTS storage BATCH configuration storage' e synced WORKER_BATCH answers policy j w)
  have "run_inv crc REPORTS g0 base e w [] [] [] 0 0 0" by (rule run_inv_start) (rule engine_start)+
  then show ?case by (intro steps_invI [of _ _ _ _ _ _ _ Idle]) (simp_all add: call_ok_def)
next
  case (call_refused e w cs c payload x e' pc)
  then obtain bs rs k a d where inv: "run_inv crc REPORTS g0 base e w cs bs rs k a d" by auto
  from call_ends_inv [OF inv call_refused(4)] show ?case by (intro steps_invI)
next
  case (call_checked e w cs c payload)
  then obtain bs rs k a d where inv: "run_inv crc REPORTS g0 base e w cs bs rs k a d" by auto
  with call_checked(3) have "en_writer e" by (auto simp: check_verdict split: if_splits)
  with inv call_checked(2) show ?case by (intro steps_invI) (simp_all add: call_ok_def)
next
  case (call_not_admitted e w cs c payload e' x e'' pc)
  then obtain bs rs k a d where inv: "run_inv crc REPORTS g0 base e w cs bs rs k a d" by auto
  from call_ends_inv [OF admit_phase(1) [OF inv call_not_admitted(2)] call_not_admitted(3)] show ?case by (intro steps_invI)
next
  case (call_admitted e w cs c payload e' admitted)
  then obtain bs rs k a d where inv: "run_inv crc REPORTS g0 base e w cs bs rs k a d" and c: "call_input c payload" "en_writer e"
    by (auto simp: call_ok_def)
  from admit_phase(1) [OF inv call_admitted(2)] admitted_ok [OF inv call_admitted(2) call_inputD(1) [OF c(1)] c(2)] c(1)
  show ?case by (intro steps_invI) (simp_all add: call_ok_def)
next
  case (call_not_journalled e w cs c payload e' x e'' pc)
  then obtain bs rs k a d where inv: "run_inv crc REPORTS g0 base e w cs bs rs k a d" and c: "call_input c payload" "admissible e bs c"
    by (auto simp: call_ok_def)
  from enqueue_phase [OF inv c(2)] call_not_journalled(2) call_inputD(2) [OF c(1)]
  have "run_inv crc REPORTS g0 base e' (w\<lparr>pw_journal := en_journal e'\<rparr>) cs bs rs k a d" by (auto split: if_splits)
  from call_ends_inv [OF this call_not_journalled(3)] show ?case by (intro steps_invI) simp_all
next
  case (call_journalled e w cs c payload e' n)
  then obtain bs rs k a d where inv: "run_inv crc REPORTS g0 base e w cs bs rs k a d" and c: "call_input c payload" "admissible e bs c"
    by (auto simp: call_ok_def)
  from enqueue_phase [OF inv c(2)] call_journalled(2) call_inputD(2) [OF c(1)] obtain r where
    "call_inv crc REPORTS g0 base e' (w\<lparr>pw_journal := en_journal e'\<rparr>) cs [c] bs (rs @ [r]) k a d" "en_events e' = en_events e" "en_writer e'"
    by (auto split: if_splits)
  moreover from this(2,3) c(2) have "admissible e' bs c" by (simp add: admissible_def engine_expected_sequence_def)
  ultimately show ?case by (intro steps_invI) (simp_all add: call_ok_def)
next
  case (call_not_applied e w cs c e' x e'' pc)
  then obtain bs rs k a d where "call_inv crc REPORTS g0 base e w cs [c] bs rs k a d" "admissible e bs c" by (auto simp: call_ok_def)
  from apply_phase [OF this] call_not_applied(2) show ?case by simp
next
  case (call_applied e w cs c e')
  then obtain bs rs k a d where "call_inv crc REPORTS g0 base e w cs [c] bs rs k a d" "admissible e bs c" by (auto simp: call_ok_def)
  from apply_phase [OF this] call_applied(2) obtain b where "run_inv crc REPORTS g0 base e' w (cs @ [c]) (bs @ [b]) rs k a d" by auto
  then show ?case by (intro steps_invI) (simp_all add: call_ok_def)
next
  case (call_closes e w cs)
  then obtain bs rs k a d where "run_inv crc REPORTS g0 base e w cs bs rs k a d" by auto
  from run_inv_stop [OF this] show ?case by (intro steps_invI) (simp_all add: call_ok_def)
next
  case (admission_stops e w cs)
  then obtain bs rs k a d where "run_inv crc REPORTS g0 base e w cs bs rs k a d" by auto
  from run_inv_stop [OF this] show ?case by (intro steps_invI) (simp_all add: call_ok_def)
next
  case (worker_drains e w cs pc w' n)
  then obtain bs rs k a d where inv: "call_inv crc REPORTS g0 base e w cs (journalled pc) bs rs k a d" and ok: "call_ok e bs pc" by blast
  from drain_effect [OF call_invD(4) [OF inv]] worker_drains.hyps(2) obtain k' a' d' where
    "worker_inv crc (gw_expected_sequence g0) base w' rs k' a' d'" "same_worker w w'" by auto
  then have "call_inv crc REPORTS g0 base (e\<lparr>en_journal := pw_journal w'\<rparr>) w' cs (journalled pc) bs rs k' a' d'"
    by (intro run_inv_worker [OF inv]) (simp_all add: same_worker_def)
  then show ?case using ok call_ok_worker by blast
next
  case (worker_shuts_down e w cs pc w' u)
  then obtain bs rs k a d where inv: "call_inv crc REPORTS g0 base e w cs (journalled pc) bs rs k a d" and ok: "call_ok e bs pc" by blast
  from shutdown_effect [OF call_invD(4) [OF inv]] worker_shuts_down.hyps(2) obtain k' a' d' where
    "worker_inv crc (gw_expected_sequence g0) base w' rs k' a' d'" "producer_is_closed (pw_journal w') = producer_is_closed (pw_journal w)" by auto
  from run_inv_worker [OF inv this] ok call_ok_worker show ?case by blast
next
  case (worker_dropped e w cs pc)
  then obtain bs rs k a d where inv: "call_inv crc REPORTS g0 base e w cs (journalled pc) bs rs k a d" and ok: "call_ok e bs pc" by blast
  from run_inv_dropped [OF inv worker_dropped.hyps(2)] ok show ?case by (intro steps_invI) (simp_all add: call_ok_worker)
next
  case (consumer_pops e w cs pc ring batch)
  then obtain bs rs k a d where inv: "call_inv crc REPORTS g0 base e w cs (journalled pc) bs rs k a d" and ok: "call_ok e bs pc" by blast
  let ?e = "e\<lparr>en_events := (en_events e)\<lparr>ee_ring := ring\<rparr>\<rparr>"
  have p: "ring_holds ring (tl bs)" "ring_room ring = ring_room (ee_ring (en_events e))"
    using pop_holds [OF _ consumer_pops.hyps(2), of bs] call_invD(2) [OF inv] by (simp_all add: engine_inv_def)
  with inv have "call_inv crc REPORTS g0 base ?e w cs (journalled pc) (tl bs) rs k a d" by (auto simp: call_inv_def engine_inv_def)
  moreover have "call_ok ?e (tl bs) pc" using ok p(2)
    by (auto simp: call_ok_def admissible_def engine_expected_sequence_def split: EngineCall.splits)
  ultimately show ?case by blast
qed

lemma engine_trace_inv:
  assumes "engine_trace crc REPORTS g0 base e w cs"
  shows "\<exists>bs rs k a d. run_inv crc REPORTS g0 base e w cs bs rs k a d"
  using engine_steps_inv [OF assms [unfolded engine_trace_def]] unfolding journalled_simps by blast

section \<open>A call as a run of its steps\<close>

lemma refuse_run:
  assumes ends: "\<And>e' pc. call_ends e x = (e', pc) \<Longrightarrow> engine_steps crc REPORTS g0 base e' w cs pc" and j: "en_journal e = pw_journal w"
  shows "engine_trace crc REPORTS g0 base (fst (engine_refuse e x)) (w\<lparr>pw_journal := en_journal (fst (engine_refuse e x))\<rparr>) cs"
proof (cases "closes_admission x")
  case True
  with ends have "engine_steps crc REPORTS g0 base (e\<lparr>en_failed := True\<rparr>) w cs Failing" by (simp add: call_ends_def)
  from call_closes [OF this] True show ?thesis by (simp add: engine_trace_def engine_refuse_def engine_fail_def)
next
  case False
  with ends have "engine_steps crc REPORTS g0 base e w cs Idle" by (simp add: call_ends_def)
  moreover have "w\<lparr>pw_journal := en_journal e\<rparr> = w" unfolding j by simp
  ultimately show ?thesis using False by (simp add: engine_trace_def engine_refuse_def)
qed

lemma call_run:
  assumes run: "engine_trace crc REPORTS g0 base e w cs" and c: "call_input c payload" and x: "apply_journaled crc e c payload = Some (e', r)"
  shows "engine_trace crc REPORTS g0 base e' (w\<lparr>pw_journal := en_journal e'\<rparr>) (if is_ok r then cs @ [c] else cs)"
proof -
  from engine_trace_inv [OF run] obtain bs rs k a d where inv: "run_inv crc REPORTS g0 base e w cs bs rs k a d" by blast
  note s0 = run [unfolded engine_trace_def] and j = run_invD(1) [OF inv]
  show ?thesis
  proof (cases "engine_check e c")
    case (Err y)
    with x have "(e', r) = engine_refuse e y" by (simp add: apply_journaled_def)
    with refuse_run [OF call_refused [OF s0 c Err] j] show ?thesis by (auto simp: engine_refuse_def)
  next
    case chk: (Ok u)
    then have s1: "engine_steps crc REPORTS g0 base e w cs (Checked c payload)" using call_checked [OF s0 c] by simp
    obtain e1 r1 where adm: "engine_admit e c = (e1, r1)" by fastforce
    have j1: "en_journal e1 = pw_journal w" using admit_phase(3) [OF inv adm] j by auto
    show ?thesis
    proof (cases r1)
      case (Err y)
      with x chk adm have "(e', r) = engine_refuse e1 y" by (simp add: apply_journaled_def)
      with refuse_run [OF call_not_admitted [OF s1 adm [unfolded Err]] j1] show ?thesis by (auto simp: engine_refuse_def)
    next
      case admitted: (Ok q)
      note s2 = call_admitted [OF s1 adm [unfolded admitted]]
      from x chk adm admitted obtain e2 r2 where enq: "engine_enqueue crc e1 payload = Some (e2, r2)"
        by (auto simp: apply_journaled_def split: Option.bind_split_asm)
      show ?thesis
      proof (cases r2)
        case (Err y)
        with x chk adm admitted enq have r: "(e', r) = engine_refuse e2 y" by (simp add: apply_journaled_def)
        have "engine_steps crc REPORTS g0 base e3 (w\<lparr>pw_journal := en_journal e2\<rparr>) cs pc" if "call_ends e2 y = (e3, pc)" for e3 pc
          using call_not_journalled [OF s2 enq [unfolded Err] that] that by (auto simp: call_ends_def split: if_splits)
        from refuse_run [OF this] r show ?thesis by (auto simp: engine_refuse_def)
      next
        case queued: (Ok n)
        note s3 = call_journalled [OF s2 enq [unfolded queued]]
        from engine_steps_inv [OF s3] obtain bs' rs' k' a' d' where
          i3: "call_inv crc REPORTS g0 base e2 (w\<lparr>pw_journal := en_journal e2\<rparr>) cs [q] bs' rs' k' a' d'" "admissible e2 bs' q"
          by (auto simp: call_ok_def)
        from apply_phase [OF i3] obtain e3 where e3: "engine_apply e2 q = Some (e3, Ok ())" "en_journal e3 = en_journal e2" by blast
        with x chk adm admitted enq queued have "e' = e3" "r = Ok ()" by (auto simp: apply_journaled_def)
        moreover have "q = c" using admit_phase(4) [OF inv adm] admitted by (simp split: if_splits)
        ultimately show ?thesis using call_applied [OF s3 e3(1)] e3(2) by (simp add: engine_trace_def)
      qed
    qed
  qed
qed

text \<open>The public operations.\<close>

lemma engine_accepted: "engine_trace crc REPORTS g0 base e w cs \<Longrightarrow> command_ok c \<Longrightarrow> engine_process_command crc e c = Some (e', Ok ()) \<Longrightarrow>
    engine_trace crc REPORTS g0 base e' (w\<lparr>pw_journal := en_journal e'\<rparr>) (cs @ [c])"
  using call_run [of crc REPORTS g0 base e w cs c "encode_command c" e' "Ok ()"] by (simp add: engine_process_command_def call_input_def)

lemma engine_refused: "engine_trace crc REPORTS g0 base e w cs \<Longrightarrow> command_ok c \<Longrightarrow> engine_process_command crc e c = Some (e', Err x) \<Longrightarrow>
    engine_trace crc REPORTS g0 base e' (w\<lparr>pw_journal := en_journal e'\<rparr>) cs"
  using call_run [of crc REPORTS g0 base e w cs c "encode_command c" e' "Err x"] by (simp add: engine_process_command_def call_input_def)

lemma engine_frame: "engine_trace crc REPORTS g0 base e w cs \<Longrightarrow> engine_process_frame crc e frame = Some (e', r) \<Longrightarrow> parse_message frame = Ok m \<Longrightarrow>
    engine_trace crc REPORTS g0 base e' (w\<lparr>pw_journal := en_journal e'\<rparr>) (if is_ok r then cs @ [to_command m] else cs)"
  by (rule call_run [of _ _ _ _ _ _ _ "to_command m" frame]) (auto simp: engine_process_frame_def call_input_def)

lemma engine_stopped: "engine_trace crc REPORTS g0 base e w cs \<Longrightarrow>
    engine_trace crc REPORTS g0 base (engine_stop_admission e) (w\<lparr>pw_journal := en_journal (engine_stop_admission e)\<rparr>) cs"
  unfolding engine_trace_def by (rule admission_stops)

section \<open>The file\<close>

text \<open>What follows the initial contents is a prefix of the read records' encodings; its complete records are
  the encodings of the first records.\<close>

lemma file_records:
  assumes inv: "worker_inv crc first base w rs k a d" and n: "RECORD_SIZE * n \<le> length (fl_contents (pw_sink w)) - length base"
  shows "take (RECORD_SIZE * n) (drop (length base) (fl_contents (pw_sink w))) = concat (map record_encode (take n rs)) \<and> n \<le> k"
proof -
  let ?file = "drop (length base) (fl_contents (pw_sink w))"
  have I: "numbered_records crc first rs" "k \<le> length rs" "a \<le> k" using inv by (auto simp: worker_inv_def channel_inv_def)
  from inv obtain p q where f: "concat (map record_encode (take (k - a) (drop a rs))) = p @ q"
    "fl_contents (pw_sink w) = base @ concat (map record_encode (take a rs)) @ p" unfolding worker_inv_def file_inv_def by blast
  have "take k rs = take a rs @ take (k - a) (drop a rs)" using I(3) take_add [of a "k - a" rs] by simp
  then have whole_records: "?file @ q = concat (map record_encode (take k rs))" using f by simp
  then have len: "length ?file \<le> RECORD_SIZE * k" using length_concat_records [OF I(1,2)] by (metis le_add1 length_append)
  with n have nk: "n \<le> k" by (simp add: RECORD_SIZE_def)
  have "take (RECORD_SIZE * n) ?file = take (RECORD_SIZE * n) (?file @ q)" using n by simp
  also have "\<dots> = take (RECORD_SIZE * n) (concat (map record_encode (take n (take k rs))) @ concat (map record_encode (drop n (take k rs))))"
    unfolding whole_records by (metis append_take_drop_id concat_append map_append)
  also have "\<dots> = concat (map record_encode (take n rs))"
    using nk I(2) length_concat_records [OF I(1), of n] by (simp add: min_absorb1)
  finally show ?thesis using nk by simp
qed

lemma run_inv_status:
  assumes "call_inv crc REPORTS g0 base e w cs fl bs rs k a d"
  obtains st where "jn_status (en_journal e) = Some st" "st_next_written_sequence st = gw_expected_sequence g0 + a"
    "st_next_durable_sequence st = gw_expected_sequence g0 + d" "st_poisoned st = pw_poisoned w"
    "st_shutdown_complete st \<longrightarrow> d = length (cs @ fl) \<and> a = length (cs @ fl) \<and> st_producer_closed st \<and> \<not> st_poisoned st \<and> \<not> en_writer e"
proof -
  note I = call_invD [OF assms]
  from I(4) obtain st where st: "jn_status (pw_journal w) = Some st" "st_next_written_sequence st = gw_expected_sequence g0 + a"
    "st_next_durable_sequence st = gw_expected_sequence g0 + d" "st_poisoned st = pw_poisoned w"
    "st_shutdown_complete st = jn_guard_complete (pw_journal w)"
    "jn_guard_complete (pw_journal w) \<longrightarrow> st_producer_closed st \<and> d = length rs \<and> \<not> pw_poisoned w"
    unfolding worker_inv_def status_inv_def by blast
  have "d \<le> a" using I(4) by (simp add: worker_inv_def)
  moreover have "jn_guard_complete (pw_journal w) \<longrightarrow> \<not> en_writer e" using guard_needs_close [OF I(4)] I(12) by auto
  ultimately show thesis using st I(1,7,8,9) by (intro that [of st]) auto
qed

section \<open>A concrete engine\<close>

abbreviation demo_cancel :: Command where
  "demo_cancel \<equiv> CmdCancelOrder \<lparr>co_order_id = 11, co_account_id = 7, co_instrument_id = 3, co_sequence = 2\<rparr>"

lemma export_instrument: "book_export_state b = Some s \<Longrightarrow> bs_instrument s = ob_instrument b"
  by (auto simp: book_export_state_def book_state_empty_def Let_def split: Option.bind_split_asm)

lemma demo_engine_started:
  assumes g: "gw_inv g"
  obtains e w where "engine_trace demo_crc 4 g [] e w []" "run_inv demo_crc 4 g [] e w [] [] [] 0 0 0" "\<not> en_failed e" "en_writer e"
    "\<not> engine_is_poisoned e" "ee_gateway (en_events e) = g" "ring_room (ee_ring (en_events e)) = 4"
    "ring_room (jn_ring (en_journal e)) = RING_CAPACITY" "fl_contents (pw_sink w) = []" "fl_synced (pw_sink w) = 0"
proof -
  let ?first = "gw_expected_sequence g" and ?configuration = "\<lparr>ec_instrument = 3, ec_capacities = [2, 3, 1, 1, 4], ec_accounts = []\<rparr>"
  have cap: "capacity_ok 4" "capacity_ok RING_CAPACITY" unfolding capacity_ok_def RING_CAPACITY_def
    by (rule exI [of _ 2], simp) (rule exI [of _ 10], simp)
  from ring_new_holds [OF cap(1), where 'a = EventBatch] obtain r :: "EventBatch Ring" where r: "ring_new 4 = Ok r" "ring_room r = 4" by blast
  from ring_new_holds [OF cap(2), where 'a = JournalRecord] obtain q :: "JournalRecord Ring" where q: "ring_new RING_CAPACITY = Ok q" "ring_room q = RING_CAPACITY" by blast
  let ?j = "\<lparr>jn_ring = q, jn_status = Some (status_new ?first), jn_next_sequence = ?first,
           jn_expected_sequence = ?first, jn_reader_poisoned = False, jn_guard_complete = False\<rparr>"
  let ?events = "\<lparr>ee_gateway = g, ee_ring = r, ee_REPORTS = 4, ee_BATCH = 6\<rparr>"
  let ?e = "\<lparr>en_events = ?events, en_journal = ?j, en_writer = True, en_failed = False, en_configuration = ?configuration\<rparr>"
  let ?f = "\<lparr>fl_contents = [], fl_synced = 0, fl_answers = [IoInterrupted, IoCount 10]\<rparr>"
  let ?w = "\<lparr>pw_journal = ?j, pw_sink = ?f, pw_policy = EveryBatch, pw_poisoned = False, pw_BATCH = 4\<rparr>"
  have st: "storage_try_new 4 = Ok \<lparr>es_events = r, es_used = False\<rparr>" using r(1) q(1) by (simp add: storage_try_new_def channel_split_def)
  have b: "builder_build 4 6 \<lparr>bd_gateway = g, bd_configuration = ?configuration\<rparr> \<lparr>es_events = r, es_used = False\<rparr> =
      Some (\<lparr>es_events = r, es_used = True\<rparr>, Ok ?e)"
    using q(1) by (simp add: builder_build_def channel_split_def event_engine_try_new_def U16_MAX_def U64_MAX_def)
  have w: "worker_new 4 (en_journal ?e) ?f EveryBatch = (?j, Ok ?w)" by (simp add: worker_new_def status_new_def)
  have run: "engine_trace demo_crc 4 g [] ?e ?w []" unfolding engine_trace_def by (rule engine_start [OF g _ st b _ w]) simp_all
  have inv: "run_inv demo_crc 4 g [] ?e ?w [] [] [] 0 0 0" by (rule run_inv_start [OF g _ st _ b w]) simp_all
  show thesis by (rule that [OF run inv]) (simp_all add: engine_is_poisoned_def status_new_def r(2) q(2))
qed

text \<open>The engine after it accepted a cancel.\<close>

lemma demo_engine_running:
  obtains g e w where "gw_sound 2 3 1 1 g" "gateway_export_state g = Some demo_gateway_state" "open_orders_within g"
    "gw_expected_sequence g = 1 + 1" "engine_trace demo_crc 4 g [] e w [demo_cancel]" "fl_contents (pw_sink w) = []" "fl_synced (pw_sink w) = 0"
proof -
  obtain g where g: "gw_sound 2 3 1 1 g" "gateway_export_state g = Some demo_gateway_state" "open_orders_within g" by (rule demo_restored)
  have gi: "gw_inv g" using g(1) by (simp add: gw_sound_def)
  have seq: "gw_expected_sequence g = 2" and ins: "gateway_instrument g = 3"
    using g(2) by (auto simp: gateway_export_state_def demo_gateway_state_def gateway_instrument_def dest!: export_instrument split: Option.bind_split_asm)
  obtain e w where e: "engine_trace demo_crc 4 g [] e w []" "run_inv demo_crc 4 g [] e w [] [] [] 0 0 0" "\<not> en_failed e" "en_writer e"
    "\<not> engine_is_poisoned e" "ee_gateway (en_events e) = g" "ring_room (ee_ring (en_events e)) = 4"
    "ring_room (jn_ring (en_journal e)) = RING_CAPACITY" "fl_contents (pw_sink w) = []" "fl_synced (pw_sink w) = 0"
    by (rule demo_engine_started [OF gi])
  have c: "command_ok demo_cancel" by (simp add: u64_ok_def u32_ok_def cancel_order_ok_def)
  have "engine_verdict e (length []) (length [] - 0) demo_cancel = Ok ()"
    using e ins seq by (simp add: engine_verdict_def engine_instrument_def engine_expected_sequence_def RING_CAPACITY_def)
  from apply_accepted [OF e(2) c this] obtain e' where "engine_process_command demo_crc e demo_cancel = Some (e', Ok ())"
    by (auto simp: engine_process_command_def)
  from engine_accepted [OF e(1) c this] that [OF g, of e' "w\<lparr>pw_journal := en_journal e'\<rparr>"] seq e(9,10) show thesis by simp
qed

text \<open>The same call between its enqueue and its application.\<close>

lemma demo_engine_enqueued:
  obtains g e w where "gw_sound 2 3 1 1 g" "gateway_export_state g = Some demo_gateway_state" "open_orders_within g"
    "gw_expected_sequence g = 1 + 1" "engine_steps demo_crc 4 g [] e w [] (Enqueued demo_cancel)" "fl_contents (pw_sink w) = []" "fl_synced (pw_sink w) = 0"
proof -
  obtain g where g: "gw_sound 2 3 1 1 g" "gateway_export_state g = Some demo_gateway_state" "open_orders_within g" by (rule demo_restored)
  have gi: "gw_inv g" using g(1) by (simp add: gw_sound_def)
  have seq: "gw_expected_sequence g = 2" and ins: "gateway_instrument g = 3"
    using g(2) by (auto simp: gateway_export_state_def demo_gateway_state_def gateway_instrument_def dest!: export_instrument split: Option.bind_split_asm)
  obtain e w where e: "engine_trace demo_crc 4 g [] e w []" "run_inv demo_crc 4 g [] e w [] [] [] 0 0 0" "\<not> en_failed e" "en_writer e"
    "\<not> engine_is_poisoned e" "ee_gateway (en_events e) = g" "ring_room (ee_ring (en_events e)) = 4"
    "ring_room (jn_ring (en_journal e)) = RING_CAPACITY" "fl_contents (pw_sink w) = []" "fl_synced (pw_sink w) = 0"
    by (rule demo_engine_started [OF gi])
  have c: "command_ok demo_cancel" "call_input demo_cancel (encode_command demo_cancel)"
    by (simp_all add: call_input_def u64_ok_def u32_ok_def cancel_order_ok_def)
  have "engine_check e demo_cancel = Ok ()" using e ins by (simp add: check_verdict [OF e(2)] engine_instrument_def)
  note s1 = call_checked [OF e(1) [unfolded engine_trace_def] c(2) this]
  obtain e1 r1 where adm: "engine_admit e demo_cancel = (e1, r1)" by fastforce
  note P = admit_phase [OF e(2) adm]
  have r1: "r1 = Ok demo_cancel" using P(4) e(6,7) seq by (simp add: engine_expected_sequence_def)
  note s2 = call_admitted [OF s1 adm [unfolded r1]]
  note A = admitted_ok(2) [OF e(2) adm [unfolded r1] c(1) e(4)]
  have "ring_room (jn_ring (en_journal e1)) = RING_CAPACITY" using P(3) e(8) by auto
  with enqueue_phase [OF P(1) A] obtain e2 n where "engine_enqueue demo_crc e1 (encode_command demo_cancel) = Some (e2, Ok n)"
    by (auto simp: RING_CAPACITY_def)
  from that [OF g _ call_journalled [OF s2 this]] seq e(9,10) show thesis by simp
qed

section \<open>Properties\<close>

text \<open>
  C6: the engine journals first and applies what it journals. However the steps of the engine's calls, of the
  persistence worker and of the event consumer interleave and whatever the operating system answers, the gateway is what
  processing the acknowledged commands in order makes of the initial one. The journal has one valid record for each of
  them, in order, with its encoding and its sequence number, and one more exactly when a call is between its enqueue
  and its application. The records are where they should be: the file is its initial contents followed by the records
  up to the published written watermark, the queue holds the records the worker has not taken, and unless the
  status reports poison these are all; after poison the records the worker took last are in the file in part.
\<close>
theorem engine_journals_first:
  assumes "engine_steps crc REPORTS g0 base e w cs pc"
  shows "\<exists>rs outs st k a torn lost. journal_of crc (gw_expected_sequence g0) rs (cs @ journalled pc) \<and>
    run_steps (command_step REPORTS) g0 cs = Some (ee_gateway (en_events e), outs) \<and>
    engine_expected_sequence e = gw_expected_sequence g0 + length cs \<and> jn_status (en_journal e) = Some st \<and>
    st_next_written_sequence st = gw_expected_sequence g0 + a \<and> a \<le> k \<and> k \<le> length rs \<and>
    fl_contents (pw_sink w) = base @ concat (map record_encode (take a rs)) @ torn \<and>
    torn @ lost = concat (map record_encode (take (k - a) (drop a rs))) \<and>
    ring_holds (jn_ring (en_journal e)) (drop k rs) \<and> (\<not> st_poisoned st \<longrightarrow> k = a \<and> torn = [])"
proof -
  from engine_steps_inv [OF assms] obtain bs rs k a d where inv: "call_inv crc REPORTS g0 base e w cs (journalled pc) bs rs k a d" by blast
  note I = call_invD [OF inv]
  obtain st where st: "jn_status (en_journal e) = Some st" "st_next_written_sequence st = gw_expected_sequence g0 + a"
    "st_poisoned st = pw_poisoned w" by (rule run_inv_status [OF inv])
  from I(4) obtain p q where f: "concat (map record_encode (take (k - a) (drop a rs))) = p @ q"
    "fl_contents (pw_sink w) = base @ concat (map record_encode (take a rs)) @ p" unfolding worker_inv_def file_inv_def by blast
  have "\<not> st_poisoned st \<longrightarrow> k = a \<and> p = []" using I(4) f(1) st(3) by (auto simp: worker_inv_def)
  moreover have "ring_holds (jn_ring (en_journal e)) (drop k rs)" using I(5) by (simp add: channel_inv_def)
  moreover obtain outs where "run_steps (command_step REPORTS) g0 cs = Some (ee_gateway (en_events e), outs)"
    using inv unfolding call_inv_def by blast
  ultimately show ?thesis using I(6,8,9,10) st f
    by (intro exI [of _ rs] exI [of _ outs] exI [of _ st] exI [of _ k] exI [of _ a] exI [of _ p] exI [of _ q])
      (simp add: engine_expected_sequence_def)
qed

theorem engine_journals_first_witness:
  "\<exists>g e w rs k. engine_steps demo_crc 4 g [] e w [] (Enqueued demo_cancel) \<and> journal_of demo_crc 2 rs [demo_cancel] \<and>
     ee_gateway (en_events e) = g \<and> ring_holds (jn_ring (en_journal e)) (drop k rs) \<and> fl_contents (pw_sink w) = []"
proof -
  obtain g e w where g: "gw_expected_sequence g = 1 + 1" "engine_steps demo_crc 4 g [] e w [] (Enqueued demo_cancel)" "fl_contents (pw_sink w) = []"
    by (rule demo_engine_enqueued)
  from engine_journals_first [OF g(2)] obtain rs outs k where
    "journal_of demo_crc (gw_expected_sequence g) rs ([] @ journalled (Enqueued demo_cancel))"
    "run_steps (command_step 4) g [] = Some (ee_gateway (en_events e), outs)" "ring_holds (jn_ring (en_journal e)) (drop k rs)" by (elim exE conjE)
  with g show ?thesis unfolding g(1) one_add_one by (intro exI [of _ g] exI [of _ e] exI [of _ w] exI [of _ rs] exI [of _ k]) simp
qed

text \<open>
  C5: a crash loses nothing durable and invents nothing. Start an engine on a gateway with its snapshot on
  disk. At any moment of any interleaving, also in the middle of a call of the engine or of the worker, let the
  machine stop, with any prefix of the file surviving that reaches at least to what was synced. Recovery from the
  snapshot and the complete records that survived succeeds with a gateway on which an engine can start again, and
  gives the state the engine had after some prefix of the acknowledged commands, or of these and the one command whose
  record was queued when the machine stopped; the prefix has all those below the published durable
  watermark; and after a completed shutdown it is the engine's last state.
\<close>
theorem engine_crash_recovery:
  assumes sha: "\<forall>x. length (sha x) = DIGEST_SIZE" and fit: "capacities_fit ACCOUNTS RISK_ORDERS LEVELS ORDERS"
    and g: "gw_sound ACCOUNTS RISK_ORDERS LEVELS ORDERS g0" "open_orders_within g0" and ex: "gateway_export_state g0 = Some s"
    and s: "state_typed ACCOUNTS RISK_ORDERS LEVELS ORDERS s" and seq: "gw_expected_sequence g0 = applied + 1"
    and run: "engine_steps crc REPORTS g0 base e w cs pc"
    and w': "w' = w \<or> (\<exists>r. drain_batch crc w = Some (w', r)) \<or> (\<exists>r. shutdown crc w = Some (w', r))"
    and m: "fl_synced (pw_sink w) \<le> m" "m \<le> length (fl_contents (pw_sink w'))" and n: "n = (m - length base) div RECORD_SIZE"
  shows "\<exists>snapshot st h k outs. encode_snapshot sha ACCOUNTS RISK_ORDERS LEVELS ORDERS g0 applied = Some (Ok snapshot) \<and>
    jn_status (en_journal e) = Some st \<and> n \<le> length (cs @ journalled pc) \<and> st_next_durable_sequence st \<le> applied + 1 + n \<and>
    recover_snapshot_and_tail sha crc ACCOUNTS RISK_ORDERS LEVELS ORDERS REPORTS (sn_bytes snapshot)
      (take (RECORD_SIZE * n) (drop (length base) (take m (fl_contents (pw_sink w'))))) = Some (Ok h) \<and>
    run_steps (command_step REPORTS) g0 (take n (cs @ journalled pc)) = Some (k, outs) \<and>
    gateway_export_state h = gateway_export_state k \<and> gw_inv h \<and>
    (st_shutdown_complete st \<longrightarrow> n = length cs \<and> k = ee_gateway (en_events e))"
proof -
  from engine_steps_inv [OF run] obtain bs rs k a d where
    inv: "call_inv crc REPORTS g0 base e w cs (journalled pc) bs rs k a d" and ok: "call_ok e bs pc" by blast
  note I = call_invD [OF inv]
  let ?file = "fl_contents (pw_sink w')" and ?cs = "cs @ journalled pc"
  obtain k' a' d' where inv': "worker_inv crc (gw_expected_sequence g0) base w' rs k' a' d'"
    using w' I(4) drain_effect [OF I(4)] shutdown_effect [OF I(4)] by auto
  then have k': "k' \<le> length ?cs" using I(7) by (auto simp: worker_inv_def channel_inv_def)
  have fits: "RECORD_SIZE * n \<le> m - length base" unfolding n by (metis div_times_less_eq_dividend mult.commute)
  with m(2) have "RECORD_SIZE * n \<le> length ?file - length base" by linarith
  from file_records [OF inv' this] have kept: "take (RECORD_SIZE * n) (drop (length base) ?file) = concat (map record_encode (take n rs))" "n \<le> k'"
    by auto
  have tail: "take (RECORD_SIZE * n) (drop (length base) (take m ?file)) = concat (map record_encode (take n rs))"
    using kept(1) fits by (simp add: drop_take min_absorb1)
  have dn: "d \<le> n"
  proof (cases "0 < d")
    case True
    with I(4) have "length base + RECORD_SIZE * d \<le> fl_synced (pw_sink w)" by (simp add: worker_inv_def file_inv_def)
    with m(1) have "RECORD_SIZE * d \<le> m - length base" by simp
    then show ?thesis unfolding n by (simp add: RECORD_SIZE_def)
  qed simp
  have "u64_ok (gw_expected_sequence g0 + length rs)" using I(5) by (simp add: channel_inv_def)
  then have small: "applied + 1 + length (take n ?cs) < 2 ^ 64" using I(7) seq by (simp add: u64_ok_def)
  have nc: "n \<le> length ?cs" using kept(2) k' by simp
  from recover_snapshot_run [OF sha fit g ex s seq journal_of_take [OF I(6), of n, unfolded seq] small, of REPORTS] obtain snapshot h l outs where
    r: "encode_snapshot sha ACCOUNTS RISK_ORDERS LEVELS ORDERS g0 applied = Some (Ok snapshot)"
      "run_steps (command_step REPORTS) g0 (take n ?cs) = Some (l, outs)"
      "recover_snapshot_and_tail sha crc ACCOUNTS RISK_ORDERS LEVELS ORDERS REPORTS (sn_bytes snapshot) (concat (map record_encode (take n rs))) = Some (Ok h)"
      "gateway_export_state h = gateway_export_state l" "gw_inv h" by blast
  obtain st where st: "jn_status (en_journal e) = Some st" "st_next_durable_sequence st = gw_expected_sequence g0 + d"
    "st_shutdown_complete st \<longrightarrow> d = length ?cs \<and> \<not> en_writer e"
    by (rule run_inv_status [OF inv]) auto
  have "\<not> en_writer e \<longrightarrow> journalled pc = []" using ok call_ok_writer by (cases pc) auto
  then have "st_shutdown_complete st \<longrightarrow> n = length cs \<and> l = ee_gateway (en_events e)"
    using st(3) dn nc r(2) inv by (auto simp: call_inv_def)
  then show ?thesis unfolding tail using r st(1,2) nc dn seq
    by (intro exI [of _ snapshot] exI [of _ st] exI [of _ h] exI [of _ l] exI [of _ outs]) simp
qed

theorem engine_crash_recovery_witness:
  "\<exists>g e w snapshot h. engine_steps demo_crc 4 g [] e w [] (Enqueued demo_cancel) \<and>
     encode_snapshot (\<lambda>_. replicate 32 0) 2 3 1 1 g 1 = Some (Ok snapshot) \<and>
     recover_snapshot_and_tail (\<lambda>_. replicate 32 0) demo_crc 2 3 1 1 4 (sn_bytes snapshot) [] = Some (Ok h) \<and>
     gateway_export_state h = gateway_export_state g"
proof -
  obtain g e w where g: "gw_sound 2 3 1 1 g" "gateway_export_state g = Some demo_gateway_state" "open_orders_within g"
    "gw_expected_sequence g = 1 + 1" "engine_steps demo_crc 4 g [] e w [] (Enqueued demo_cancel)" "fl_contents (pw_sink w) = []" "fl_synced (pw_sink w) = 0"
    by (rule demo_engine_enqueued)
  have "\<forall>x :: byte list. length (replicate 32 (0 :: byte)) = DIGEST_SIZE" "capacities_fit 2 3 1 1"
    by (simp_all add: DIGEST_SIZE_def capacities_fit_def u32_ok_def)
  from engine_crash_recovery [OF this g(1,3,2) demo_state_typed g(4,5), of w 0 0] g(6,7) obtain snapshot h where
    "encode_snapshot (\<lambda>_. replicate 32 0) 2 3 1 1 g 1 = Some (Ok snapshot)"
    "recover_snapshot_and_tail (\<lambda>_. replicate 32 0) demo_crc 2 3 1 1 4 (sn_bytes snapshot) [] = Some (Ok h)"
    "gateway_export_state h = gateway_export_state g" by auto
  with g(5) show ?thesis by blast
qed

text \<open>
  C9: a checkpoint is taken only of a state that is entirely durable. On every interleaving the engine's
  snapshot is refused as failed, open or pending in exactly these states; the watermark mismatch it also checks
  for never occurs; and after a completed shutdown it is the snapshot of the live gateway at the last
  acknowledged sequence number.
\<close>
theorem engine_checkpoint_exact:
  assumes run: "engine_trace crc REPORTS g0 base e w cs" and pos: "0 < gw_expected_sequence g0"
  shows "\<exists>st. jn_status (en_journal e) = Some st \<and> engine_snapshot sha ACCOUNTS RISK_ORDERS LEVELS ORDERS e =
      (if en_failed e \<or> st_poisoned st then Some (Err CpFailed)
       else if en_writer e then Some (Err CpAdmissionOpen)
       else if \<not> st_shutdown_complete st then Some (Err CpPersistencePending)
       else map_option (map_err CpSnapshot)
         (encode_snapshot sha ACCOUNTS RISK_ORDERS LEVELS ORDERS (ee_gateway (en_events e)) (gw_expected_sequence g0 + length cs - 1))) \<and>
    (st_shutdown_complete st \<longrightarrow> st_next_durable_sequence st = engine_expected_sequence e)"
proof -
  from engine_trace_inv [OF run] obtain bs rs k a d where inv: "run_inv crc REPORTS g0 base e w cs bs rs k a d" by blast
  obtain st where st: "jn_status (en_journal e) = Some st" "st_next_written_sequence st = gw_expected_sequence g0 + a"
    "st_next_durable_sequence st = gw_expected_sequence g0 + d"
    "st_shutdown_complete st \<longrightarrow> d = length cs \<and> a = length cs \<and> st_producer_closed st \<and> \<not> st_poisoned st"
    by (rule run_inv_status [OF inv]) auto
  then show ?thesis using run_invD(10) [OF inv] pos
    by (auto simp: engine_snapshot_def engine_health_def engine_expected_sequence_def checked_sub_def)
qed

theorem engine_checkpoint_exact_witness:
  "\<exists>g e w. engine_trace demo_crc 4 g [] e w [] \<and> engine_snapshot (\<lambda>_. replicate 32 0) 2 3 1 1 e = Some (Err CpAdmissionOpen)"
proof -
  obtain g where g: "gw_sound 2 3 1 1 g" "gateway_export_state g = Some demo_gateway_state" by (rule demo_restored)
  have gi: "gw_inv g" "0 < gw_expected_sequence g" using g export_expected [OF g(2)] by (simp_all add: gw_sound_def demo_gateway_state_def)
  obtain e w where e: "engine_trace demo_crc 4 g [] e w []" "\<not> en_failed e" "en_writer e" "\<not> engine_is_poisoned e"
    by (rule demo_engine_started [OF gi(1)])
  from engine_checkpoint_exact [OF e(1) gi(2), of "\<lambda>_. replicate 32 0" 2 3 1 1] e(2-4)
  have "engine_snapshot (\<lambda>_. replicate 32 0) 2 3 1 1 e = Some (Err CpAdmissionOpen)" by (auto simp: engine_is_poisoned_def)
  with e(1) show ?thesis by blast
qed

text \<open>
  C8: admission answers exactly. On every interleaving a well-typed command never makes the engine panic and
  gets the answer that its state and the waiting batches and records determine: the errors for a command that was
  applied but not published, for a sequence mismatch between the engine and its journal and for a payload that
  does not fit never occur. An accepted command is processed by the gateway and published as one batch; a refused one
  leaves the gateway as it was. The command's frame gets the same treatment.
\<close>
theorem engine_admission_exact:
  assumes run: "engine_trace crc REPORTS g0 base e w cs" and c: "command_ok c"
  shows "\<exists>bs records e'. ring_holds (ee_ring (en_events e)) bs \<and> ring_holds (jn_ring (en_journal e)) records \<and>
    engine_process_command crc e c = Some (e', engine_verdict e (length bs) (length records) c) \<and>
    engine_process_frame crc e (encode_command c) = engine_process_command crc e c \<and>
    (if is_ok (engine_verdict e (length bs) (length records) c)
     then published (en_events e) bs c (en_events e') else ee_gateway (en_events e') = ee_gateway (en_events e))"
proof -
  from engine_trace_inv [OF run] obtain bs rs k a d where inv: "run_inv crc REPORTS g0 base e w cs bs rs k a d" by blast
  note I = run_invD [OF inv]
  have h: "ring_holds (ee_ring (en_events e)) bs" "ring_holds (jn_ring (en_journal e)) (drop k rs)"
    using I(2,5) by (auto simp: engine_inv_def channel_inv_def)
  from encode_parse [OF c] have frame: "engine_process_frame crc e (encode_command c) = engine_process_command crc e c"
    by (auto simp: engine_process_frame_def engine_process_command_def)
  show ?thesis
  proof (cases "engine_verdict e (length bs) (length rs - k) c")
    case (Ok u)
    then have ok: "engine_verdict e (length bs) (length (drop k rs)) c = Ok ()" by simp
    from apply_accepted [OF inv c] ok obtain e' where "engine_process_command crc e c = Some (e', Ok ())" "published (en_events e) bs c (en_events e')"
      by (auto simp: engine_process_command_def)
    with h frame ok show ?thesis by (intro exI [of _ bs] exI [of _ "drop k rs"] exI [of _ e']) simp
  next
    case (Err x)
    then have err: "engine_verdict e (length bs) (length (drop k rs)) c = Err x" by simp
    from apply_refused [OF inv Err c] obtain e' where "engine_process_command crc e c = Some (e', Err x)" "same_engine (en_events e) (en_events e')"
      by (auto simp: engine_process_command_def)
    with h frame err show ?thesis by (intro exI [of _ bs] exI [of _ "drop k rs"] exI [of _ e']) (simp add: same_engine_def)
  qed
qed

theorem engine_admission_exact_witness:
  "\<exists>g e w e' r. engine_trace demo_crc 4 g [] e w [demo_cancel] \<and> engine_process_command demo_crc e demo_cancel = Some (e', r)"
proof -
  obtain g e w where g: "engine_trace demo_crc 4 g [] e w [demo_cancel]" by (rule demo_engine_running)
  have "command_ok demo_cancel" by (simp add: u64_ok_def u32_ok_def cancel_order_ok_def)
  from engine_admission_exact [OF g this] g show ?thesis by blast
qed

end
