(* ===== verification/EngineSession.thy ===== *)
theory EngineSession
  imports EngineProps SessionProps
begin

text \<open>
  The engines of several instruments behind one session: a command is admitted by the session, the route and the
  engine together or by none of them, and the session fails as soon as one engine has failed.
\<close>

section \<open>Engines of a route table\<close>

definition engine_running :: "crc \<Rightarrow> nat \<Rightarrow> Engine \<Rightarrow> bool" where
  "engine_running crc REPORTS e \<longleftrightarrow> (\<exists>g0 base w cs. engine_trace crc REPORTS g0 base e w cs)"

lemma engine_runningI: "engine_trace crc REPORTS g0 base e w cs \<Longrightarrow> engine_running crc REPORTS e"
  unfolding engine_running_def by blast

definition engines_running :: "crc \<Rightarrow> nat \<Rightarrow> Engine list \<Rightarrow> bool" where
  "engines_running crc REPORTS engines \<longleftrightarrow> (\<forall>e \<in> set engines. engine_running crc REPORTS e)"

definition engine_has_failed :: "Engine \<Rightarrow> bool" where
  "engine_has_failed e \<longleftrightarrow> en_failed e \<or> engine_is_poisoned e"

abbreviation engine_gateway :: "Engine \<Rightarrow> Gateway" where
  "engine_gateway e \<equiv> ee_gateway (en_events e)"

lemma running_health:
  assumes "engines_running crc REPORTS engines" and "e \<in> set engines"
  obtains health where "engine_health e = Some health" "he_state health = EsFailed \<longleftrightarrow> engine_has_failed e"
proof -
  from assms obtain g0 base w cs where "engine_trace crc REPORTS g0 base e w cs" by (auto simp: engines_running_def engine_running_def)
  from engine_trace_inv [OF this] obtain bs rs k a d where inv: "run_inv crc REPORTS g0 base e w cs bs rs k a d" by blast
  obtain st where "jn_status (en_journal e) = Some st" by (rule run_inv_status [OF inv])
  then show thesis by (intro that [of _]) (auto simp: engine_health_def engine_has_failed_def engine_is_poisoned_def split: if_splits)
qed

text \<open>One command: the engine's trace goes on, and a refusal keeps its gateway.\<close>

lemma running_command:
  assumes "engines_running crc REPORTS engines" and "e \<in> set engines" and c: "command_ok c"
  obtains e' r where "engine_process_command crc e c = Some (e', r)" "engine_running crc REPORTS e'"
    "\<not> is_ok r \<longrightarrow> engine_gateway e' = engine_gateway e"
proof -
  from assms obtain g0 base w cs where run: "engine_trace crc REPORTS g0 base e w cs" by (auto simp: engines_running_def engine_running_def)
  from engine_trace_inv [OF run] obtain bs rs k a d where inv: "run_inv crc REPORTS g0 base e w cs bs rs k a d" by blast
  show thesis
  proof (cases "engine_verdict e (length bs) (length rs - k) c")
    case (Ok u)
    then have "engine_verdict e (length bs) (length rs - k) c = Ok ()" by simp
    from apply_accepted [OF inv c this] obtain e' where e': "engine_process_command crc e c = Some (e', Ok ())"
      by (auto simp: engine_process_command_def)
    from engine_runningI [OF engine_accepted [OF run c e']] show thesis by (intro that [OF e']) auto
  next
    case (Err x)
    from apply_refused [OF inv Err c] obtain e' where e': "engine_process_command crc e c = Some (e', Err x)" "same_engine (en_events e) (en_events e')"
      by (auto simp: engine_process_command_def)
    from engine_runningI [OF engine_refused [OF run c e'(1)]] e'(2) show thesis by (intro that [OF e'(1)]) (auto simp: same_engine_def)
  qed
qed

lemma running_stop_one: "engine_running crc REPORTS e \<Longrightarrow> engine_running crc REPORTS (engine_stop_admission e)"
  unfolding engine_running_def by (elim exE) (rule exI, rule exI, rule exI, rule exI, erule engine_stopped)

lemma running_stop: "engines_running crc REPORTS engines \<Longrightarrow> engines_running crc REPORTS (map engine_stop_admission engines)"
  by (auto simp: engines_running_def running_stop_one)

lemma running_update:
  "engines_running crc REPORTS engines \<Longrightarrow> engine_running crc REPORTS e \<Longrightarrow>
   engines_running crc REPORTS (engines[i := e])"
  unfolding engines_running_def using set_update_subset_insert [of engines i e] by blast

lemma stopped_engine [simp]:
  "\<not> en_writer (engine_stop_admission e)" "engine_gateway (engine_stop_admission e) = engine_gateway e"
  "engine_has_failed (engine_stop_admission e) = engine_has_failed e"
  by (auto simp: engine_stop_admission_def engine_has_failed_def engine_is_poisoned_def writer_close_def split: option.splits)

section \<open>The scan for a failed engine\<close>

lemma table_shards:
  assumes "table_rep t routes"
  shows "ir_shard_id ` set (tbl_by_instrument t) = {..<length routes}"
proof (rule card_subset_eq)
  show "ir_shard_id ` set (tbl_by_instrument t) \<subseteq> {..<length routes}" using assms by (auto simp: table_rep_def)
  show "card (ir_shard_id ` set (tbl_by_instrument t)) = card {..<length routes}"
    using assms distinct_card [of "map ir_shard_id (tbl_by_instrument t)"] by (simp add: table_rep_def)
qed simp

lemma failed_shard_effect:
  assumes run: "engines_running crc REPORTS (ro_engines r)" and ids: "\<forall>x \<in> set routes. ir_shard_id x < length (ro_engines r)"
  shows "\<exists>f. failed_shard r routes = Some f \<and>
    (f = None \<longleftrightarrow> (\<forall>x \<in> set routes. \<not> engine_has_failed (ro_engines r ! ir_shard_id x)))"
  using ids
proof (induction routes)
  case (Cons x routes)
  let ?e = "ro_engines r ! ir_shard_id x"
  have "?e \<in> set (ro_engines r)" using Cons.prems by simp
  from running_health [OF run this] obtain health where
    "engine_health ?e = Some health" "he_state health = EsFailed \<longleftrightarrow> engine_has_failed ?e" by blast
  with Cons show ?case by (auto simp: routed_health_def nth_opt_def)
qed simp

section \<open>Admission\<close>

text \<open>The session and the engines after a refusal: the gateways as they were, and the session too unless an
  engine has failed, which fails the session and closes every engine's admission.\<close>

definition session_refused :: "SessionEngine \<Rightarrow> SessionEngine \<Rightarrow> bool" where
  "session_refused s s' \<longleftrightarrow> map engine_gateway (ro_engines (se_engines s')) = map engine_gateway (ro_engines (se_engines s)) \<and>
     (if \<exists>e \<in> set (ro_engines (se_engines s')). engine_has_failed e
      then sm_state (se_session s') = Failed \<and> (\<forall>e \<in> set (ro_engines (se_engines s')). \<not> en_writer e)
      else se_session s' = se_session s)"

lemma fail_session_refused:
  assumes "map engine_gateway (ro_engines (se_engines s)) = map engine_gateway (ro_engines (se_engines s0))"
    and "\<exists>e \<in> set (ro_engines (se_engines s)). engine_has_failed e"
  shows "session_refused s0 (fail_session s now)"
  using assms by (auto simp: session_refused_def fail_session_def routed_stop_admission_def o_def handle_def session_defs)

lemma session_command_effect:
  assumes table: "table_rep (ro_routes (se_engines s)) routes" and len: "length (ro_engines (se_engines s)) = length routes"
    and run: "engines_running crc REPORTS (ro_engines (se_engines s))" and c: "command_ok c"
  shows "\<exists>s' r. session_process_command crc s sequence c now = Some (s', r) \<and>
    engines_running crc REPORTS (ro_engines (se_engines s')) \<and> ro_routes (se_engines s') = ro_routes (se_engines s) \<and>
    (case r of
       Ok shard \<Rightarrow> \<exists>t e'. handle (se_session s) (SessCommand sequence) now = (se_session s', Ok t) \<and>
         shard_for (ro_routes (se_engines s)) (command_instrument_id c) = Some shard \<and>
         engine_process_command crc (ro_engines (se_engines s) ! shard) c = Some (e', Ok ()) \<and>
         ro_engines (se_engines s') = (ro_engines (se_engines s))[shard := e']
     | Err x \<Rightarrow> session_refused s s')"
proof -
  let ?r = "se_engines s" and ?engines = "ro_engines (se_engines s)" and ?rows = "tbl_by_instrument (ro_routes (se_engines s))"
  note shards = table_shards [OF table]
  have "\<forall>x \<in> set ?rows. ir_shard_id x < length ?engines" using shards len by auto
  from failed_shard_effect [OF run this] obtain f where
    f: "failed_shard ?r ?rows = Some f" "f = None \<longleftrightarrow> (\<forall>x \<in> set ?rows. \<not> engine_has_failed (?engines ! ir_shard_id x))" by blast
  have "f = None \<longleftrightarrow> (\<forall>i < length ?engines. \<not> engine_has_failed (?engines ! i))"
    unfolding f(2) using shards len by (metis (no_types, lifting) image_iff lessThan_iff)
  then have any: "f = None \<longleftrightarrow> (\<forall>e \<in> set ?engines. \<not> engine_has_failed e)" by (metis in_set_conv_nth)
  show ?thesis
  proof (cases f)
    case (Some shard)
    then have "session_refused s (fail_session s now)" using any by (intro fail_session_refused) auto
    with f(1) Some run running_stop show ?thesis by (simp add: session_process_command_def fail_session_def routed_stop_admission_def)
  next
    case None
    then have healthy: "\<forall>e \<in> set ?engines. \<not> engine_has_failed e" using any by simp
    then have same: "session_refused s s" by (simp add: session_refused_def)
    obtain staged h where h: "handle (se_session s) (SessCommand sequence) now = (staged, h)" by (cases "handle (se_session s) (SessCommand sequence) now")
    show ?thesis
    proof (cases h)
      case (Err x)
      with f(1) None h same run show ?thesis by (simp add: session_process_command_def)
    next
      case (Ok t)
      show ?thesis
      proof (cases "shard_for (ro_routes ?r) (command_instrument_id c)")
        case unknown: None
        with f(1) None h Ok same run show ?thesis by (simp add: session_process_command_def routed_process_command_def)
      next
        case (Some shard)
        with shard_for_iff [OF table] len table have i: "shard < length ?engines" by (auto simp: table_rep_def)
        then have "?engines ! shard \<in> set ?engines" by simp
        from running_command [OF run this c] obtain e' r where
          e': "engine_process_command crc (?engines ! shard) c = Some (e', r)" "engine_running crc REPORTS e'"
            "\<not> is_ok r \<longrightarrow> engine_gateway e' = engine_gateway (?engines ! shard)" by blast
        note run' = running_update [OF run e'(2), of shard]
        have routed: "routed_process_command crc ?r c =
            Some (?r\<lparr>ro_engines := ?engines[shard := e']\<rparr>, and_then (map_err (ReEngine shard) r) (\<lambda>_. Ok shard))"
          using Some i e'(1) by (simp add: routed_process_command_def nth_opt_def)
        show ?thesis
        proof (cases r)
          case ok: (Ok u)
          then show ?thesis using f(1) None h Ok Some routed run' e'(1) by (simp add: session_process_command_def)
        next
          case err: (Err y)
          let ?s = "s\<lparr>se_engines := ?r\<lparr>ro_engines := ?engines[shard := e']\<rparr>\<rparr>"
          let ?t = "if engine_has_failed e' then fail_session ?s now else ?s"
          have gateways: "map engine_gateway (?engines[shard := e']) = map engine_gateway ?engines"
            using e'(3) err i by (intro map_update_same) simp_all
          from running_health [OF run', of e'] i obtain health where
            hl: "engine_health e' = Some health" "he_state health = EsFailed \<longleftrightarrow> engine_has_failed e'" by (auto simp: set_update_memI)
          have scan: "(\<exists>e \<in> set (?engines[shard := e']). engine_has_failed e) \<longleftrightarrow> engine_has_failed e'"
            using healthy set_update_subset_insert [of ?engines shard e'] set_update_memI [OF i, of e'] by blast
          have "session_process_command crc s sequence c now =
              Some (?t, Err (SaRouted (ReEngine shard y)))"
            using f(1) None h Ok routed err i hl by (simp add: session_process_command_def routed_health_def nth_opt_def)
          moreover have "session_refused s ?t"
          proof (cases "engine_has_failed e'")
            case True
            then have "session_refused s (fail_session ?s now)" using gateways scan by (intro fail_session_refused) simp_all
            with True show ?thesis by simp
          next
            case False
            with scan have "session_refused s ?s" unfolding session_refused_def using gateways by simp
            with False show ?thesis by simp
          qed
          moreover have "engines_running crc REPORTS (ro_engines (se_engines ?t))"
            using run' running_stop [OF run'] by (simp add: fail_session_def routed_stop_admission_def)
          moreover have "ro_routes (se_engines ?t) = ro_routes ?r" by (simp add: fail_session_def routed_stop_admission_def)
          ultimately show ?thesis by (intro exI [of _ ?t] exI [of _ "Err (SaRouted (ReEngine shard y))"]) (unfold result.case, intro conjI)
        qed
      qed
    qed
  qed
qed

section \<open>A concrete session\<close>

abbreviation demo_route :: "InstrumentRoute list" where
  "demo_route \<equiv> [\<lparr>ir_instrument_id = 3, ir_shard_id = 0\<rparr>]"

lemma demo_session_engine:
  obtains s :: SessionEngine where "route_table_try_new demo_route = Ok (ro_routes (se_engines s))"
    "length (ro_engines (se_engines s)) = length demo_route"
    "engines_running demo_crc 4 (ro_engines (se_engines s))" "se_session s = session_new session_config_default"
proof -
  have "table_ok demo_route" by (simp add: table_ok_def)
  from route_table_accepts [OF this] obtain t where t: "route_table_try_new demo_route = Ok t" by blast
  obtain g e w where "engine_trace demo_crc 4 g [] e w [demo_cancel]" by (rule demo_engine_running)
  from engine_runningI [OF this] have "engines_running demo_crc 4 [e]" by (simp add: engines_running_def)
  with t that [of "session_engine_new session_config_default \<lparr>ro_routes = t, ro_engines = [e]\<rparr>"] show thesis
    by (simp add: session_engine_new_def)
qed

section \<open>Properties\<close>

text \<open>
  C7: session, route and engine admit a command together or not at all. For engines on any of their
  interleavings behind a valid route table, a command or its frame gets an answer without a panic. When it is
  accepted, the session takes exactly the step of its own sequence number, and exactly the routed engine accepts the
  command. When it is refused, no gateway has changed and the session is as it was, unless an engine has failed:
  then the session has failed too and no engine admits anything any more.
\<close>
theorem session_admission_atomic:
  assumes table: "route_table_try_new routes = Ok (ro_routes (se_engines s))" and len: "length (ro_engines (se_engines s)) = length routes"
    and run: "engines_running crc REPORTS (ro_engines (se_engines s))" and c: "command_ok c"
  shows "session_process_frame crc s sequence (encode_command c) now = session_process_command crc s sequence c now \<and>
    (\<exists>s' r. session_process_command crc s sequence c now = Some (s', r) \<and>
      engines_running crc REPORTS (ro_engines (se_engines s')) \<and> ro_routes (se_engines s') = ro_routes (se_engines s) \<and>
      (case r of
         Ok shard \<Rightarrow> \<exists>t e'. handle (se_session s) (SessCommand sequence) now = (se_session s', Ok t) \<and>
           shard_for (ro_routes (se_engines s)) (command_instrument_id c) = Some shard \<and>
           engine_process_command crc (ro_engines (se_engines s) ! shard) c = Some (e', Ok ()) \<and>
           ro_engines (se_engines s') = (ro_engines (se_engines s))[shard := e']
       | Err x \<Rightarrow> session_refused s s'))"
proof
  have "table_ok routes" using route_table_rejects [of routes] table by auto
  from route_table_accepts [OF this] table have "table_rep (ro_routes (se_engines s)) routes" by auto
  from session_command_effect [OF this len run c] show "\<exists>s' r. session_process_command crc s sequence c now = Some (s', r) \<and>
      engines_running crc REPORTS (ro_engines (se_engines s')) \<and> ro_routes (se_engines s') = ro_routes (se_engines s) \<and>
      (case r of
         Ok shard \<Rightarrow> \<exists>t e'. handle (se_session s) (SessCommand sequence) now = (se_session s', Ok t) \<and>
           shard_for (ro_routes (se_engines s)) (command_instrument_id c) = Some shard \<and>
           engine_process_command crc (ro_engines (se_engines s) ! shard) c = Some (e', Ok ()) \<and>
           ro_engines (se_engines s') = (ro_engines (se_engines s))[shard := e']
       | Err x \<Rightarrow> session_refused s s')" .
  from encode_parse [OF c] show "session_process_frame crc s sequence (encode_command c) now = session_process_command crc s sequence c now"
    by (auto simp: session_process_frame_def)
qed

theorem session_admission_atomic_witness:
  "\<exists>s s' r. se_session s = session_new session_config_default \<and>
     session_process_command demo_crc s 5 demo_cancel 0 = Some (s', r) \<and> \<not> is_ok r"
proof -
  obtain s :: SessionEngine where s: "route_table_try_new demo_route = Ok (ro_routes (se_engines s))"
    "length (ro_engines (se_engines s)) = length demo_route"
    "engines_running demo_crc 4 (ro_engines (se_engines s))" "se_session s = session_new session_config_default"
    by (rule demo_session_engine)
  have "command_ok demo_cancel" by (simp add: u64_ok_def u32_ok_def cancel_order_ok_def)
  from session_admission_atomic [OF s(1-3) this, of 5 0] s(4)
  have "\<exists>s' r. session_process_command demo_crc s 5 demo_cancel 0 = Some (s', r) \<and> \<not> is_ok r"
    by (elim conjE exE) (auto simp: handle_def session_new_def Let_def split: result.split_asm)
  with s(4) show ?thesis by blast
qed

end
