(* ===== verification/Disk.thy ===== *)
theory Disk
  imports Journal
begin

text \<open>
  A directory on disk, for what is published as files: recovery bundles and snapshots. The directory may not exist; a
  file has contents, of which a prefix is synced; entries that a sync of the directory has made durable are
  known, and whether the directory's own entry in its parent is. Calls take their answers from a list, as the
  journal's file does: \<open>IoFails\<close> is an error, and after the list's end nothing fails.
\<close>

section \<open>The destination\<close>

record DiskFile =
  df_contents :: "byte list"
  df_synced :: nat

record Disk =
  dk_files :: "(string \<rightharpoonup> DiskFile) option"
  dk_entries :: "string set"
  dk_linked :: bool
  dk_answers :: "IoAnswer list"

definition disk_answer :: "Disk \<Rightarrow> bool \<times> Disk" where
  "disk_answer d = (case dk_answers d of [] \<Rightarrow> (True, d) | a # as \<Rightarrow> (a \<noteq> IoFails, d\<lparr>dk_answers := as\<rparr>))"

text \<open>\<open>Write::write_all\<close> of a file: it goes on after an interruption and gives up when nothing is written.\<close>

fun write_rest :: "IoAnswer list \<Rightarrow> byte list \<Rightarrow> byte list \<Rightarrow> IoAnswer list \<times> byte list \<times> bool" where
  "write_rest answers contents [] = (answers, contents, True)"
| "write_rest [] contents bytes = ([], contents @ bytes, True)"
| "write_rest (IoFails # as) contents bytes = (as, contents, False)"
| "write_rest (IoInterrupted # as) contents bytes = write_rest as contents bytes"
| "write_rest (IoCount n # as) contents bytes =
     (if n = 0 then (as, contents, False)
      else write_rest as (contents @ take n bytes) (drop n bytes))"

text \<open>\<open>OpenOptions\<close> with \<open>create_new\<close>, \<open>write_all\<close>, \<open>sync_all\<close>; false is an error of one of them.\<close>

definition create_synced :: "Disk \<Rightarrow> string \<Rightarrow> byte list \<Rightarrow> Disk \<times> bool" where
  "create_synced d name bytes =
     (case disk_answer d of
        (opened, d) \<Rightarrow>
          (case dk_files d of
             None \<Rightarrow> (d, False)
           | Some files \<Rightarrow>
               if \<not> opened \<or> files name \<noteq> None then (d, False)
               else (case write_rest (dk_answers d) [] bytes of
                 (answers, contents, written) \<Rightarrow>
                   let d = d\<lparr>dk_answers := answers, dk_files := Some (files(name \<mapsto> \<lparr>df_contents = contents, df_synced = 0\<rparr>))\<rparr> in
                   if \<not> written then (d, False)
                   else (case disk_answer d of
                     (flushed, d) \<Rightarrow>
                       if flushed
                       then (d\<lparr>dk_files := Some (files(name \<mapsto> \<lparr>df_contents = contents, df_synced = length contents\<rparr>))\<rparr>, True)
                       else (d, False)))))"

text \<open>Opening a directory and \<open>sync_all\<close>: the entries it has become durable.\<close>

definition directory_sync :: "Disk \<Rightarrow> Disk \<times> bool" where
  "directory_sync d =
     (case disk_answer d of
        (synced, d) \<Rightarrow>
          (case dk_files d of
             None \<Rightarrow> (d, False)
           | Some files \<Rightarrow> if synced then (d\<lparr>dk_entries := dom files\<rparr>, True) else (d, False)))"

section \<open>When the machine stops\<close>

text \<open>The directory after a stop, when no entry was removed: a directory that is not durably linked may be gone, an entry that is not
  durable may be gone, and a file may have lost any part of its contents after what is synced.\<close>

definition crashed_entry :: "Disk \<Rightarrow> (string \<rightharpoonup> DiskFile) \<Rightarrow> string \<Rightarrow> DiskFile option \<Rightarrow> bool" where
  "crashed_entry d files name x \<longleftrightarrow>
     (case x of
        None \<Rightarrow> files name = None \<or> name \<notin> dk_entries d
      | Some f' \<Rightarrow> \<exists>f n. files name = Some f \<and> df_synced f \<le> n \<and> df_contents f' = take n (df_contents f))"

definition crashed :: "Disk \<Rightarrow> Disk \<Rightarrow> bool" where
  "crashed d d' \<longleftrightarrow>
     (case dk_files d' of
        None \<Rightarrow> dk_files d = None \<or> \<not> dk_linked d
      | Some files' \<Rightarrow> \<exists>files. dk_files d = Some files \<and> (\<forall>name. crashed_entry d files name (files' name)))"

lemma file_kept: "\<exists>n \<ge> df_synced f. df_contents f = take n (df_contents f)"
  by (rule exI [of _ "max (df_synced f) (length (df_contents f))"]) simp

lemma crashed_refl: "crashed d d"
  using file_kept by (auto simp: crashed_def crashed_entry_def split: option.splits)

abbreviation synced_file :: "byte list \<Rightarrow> DiskFile" where
  "synced_file bytes \<equiv> \<lparr>df_contents = bytes, df_synced = length bytes\<rparr>"

lemma disk_answer_same:
  "disk_answer d = (x, d') \<Longrightarrow> dk_files d' = dk_files d \<and> dk_entries d' = dk_entries d \<and> dk_linked d' = dk_linked d"
  by (auto simp: disk_answer_def split: list.splits)

lemma write_rest_effect:
  "write_rest answers contents bytes = (answers', contents', True) \<Longrightarrow> contents' = contents @ bytes"
proof (induction answers contents bytes rule: write_rest.induct)
  case (5 n as contents x xs)
  then show ?case by (auto split: if_splits)
qed auto

lemma create_synced_effect:
  assumes "dk_files d = Some files" and "create_synced d name bytes = (d', ok)"
  shows "\<exists>f. dk_files d' = Some (files(name := f)) \<and> dk_entries d' = dk_entries d \<and> dk_linked d' = dk_linked d \<and>
    (ok \<longrightarrow> f = Some (synced_file bytes))"
proof -
  obtain x d1 where d1: "disk_answer d = (x, d1)" by (cases "disk_answer d")
  note same = disk_answer_same [OF d1]
  show ?thesis
  proof (cases "\<not> x \<or> files name \<noteq> None")
    case True
    with assms same d1 have "d' = d1" "\<not> ok" by (auto simp: create_synced_def)
    with assms(1) same show ?thesis by (intro exI [of _ "files name"]) (simp add: fun_upd_triv)
  next
    case False
    obtain answers contents w where w: "write_rest (dk_answers d1) [] bytes = (answers, contents, w)" by (cases "write_rest (dk_answers d1) [] bytes")
    let ?d2 = "d1\<lparr>dk_answers := answers, dk_files := Some (files(name \<mapsto> \<lparr>df_contents = contents, df_synced = 0\<rparr>))\<rparr>"
    obtain y d3 where d3: "disk_answer ?d2 = (y, d3)" by (cases "disk_answer ?d2")
    note same3 = disk_answer_same [OF d3]
    from assms(2) False d1 w d3 same assms(1) have
      "(d', ok) = (if \<not> w then (?d2, False) else if y then (d3\<lparr>dk_files := Some (files(name \<mapsto> \<lparr>df_contents = contents, df_synced = length contents\<rparr>))\<rparr>, True) else (d3, False))"
      by (auto simp: create_synced_def Let_def)
    moreover have "w \<Longrightarrow> contents = bytes" using write_rest_effect [of "dk_answers d1" "[]" bytes answers contents] w by simp
    ultimately show ?thesis using same same3 by (auto split: if_splits)
  qed
qed

lemma directory_sync_effect:
  assumes "dk_files d = Some files" and "directory_sync d = (d', ok)"
  shows "dk_files d' = Some files \<and> dk_linked d' = dk_linked d \<and> dk_entries d' = (if ok then dom files else dk_entries d)"
proof -
  obtain x d1 where d1: "disk_answer d = (x, d1)" by (cases "disk_answer d")
  with assms disk_answer_same [OF d1] show ?thesis by (auto simp: directory_sync_def split: if_splits)
qed

text \<open>Without a failure every write succeeds.\<close>

lemma write_rest_quiet: "write_rest [] contents bytes = ([], contents @ bytes, True)"
  by (cases bytes) simp_all

lemma create_synced_quiet:
  "dk_answers d = [] \<Longrightarrow> dk_files d = Some files \<Longrightarrow> files name = None \<Longrightarrow>
   create_synced d name bytes = (d\<lparr>dk_files := Some (files(name \<mapsto> synced_file bytes))\<rparr>, True)"
  by (simp add: create_synced_def disk_answer_def write_rest_quiet)

end
