(* ===== verification/Bundle.thy ===== *)
theory Bundle
  imports Engine Disk
begin

text \<open>
  Recovery bundles (\<open>crates/hft-engine/src/operations.rs\<close>): a configuration, a snapshot and a journal tail in a
  directory of their own, made authoritative by a marker file that is written last. A bundle that can be read is
  the one that was published, also when the machine stops at any moment.
\<close>

section \<open>The destination\<close>

datatype BundleError =
    BnIo
  | BnIncomplete
  | BnIntegrityMismatch
  | BnConfiguration ConfigError
  | BnRecovery BuildError

definition io_result :: "Disk \<times> bool \<Rightarrow> Disk \<times> (unit, BundleError) result" where
  "io_result x = (case x of (d, ok) \<Rightarrow> (d, if ok then Ok () else Err BnIo))"

definition write_new :: "Disk \<Rightarrow> string \<Rightarrow> byte list \<Rightarrow> Disk \<times> (unit, BundleError) result" where
  "write_new d name bytes = io_result (create_synced d name bytes)"

text \<open>On Unix.\<close>

definition sync_directory :: "Disk \<Rightarrow> Disk \<times> (unit, BundleError) result" where
  "sync_directory d = io_result (directory_sync d)"

definition sync_parent :: "Disk \<Rightarrow> Disk \<times> (unit, BundleError) result" where
  "sync_parent d =
     (case disk_answer d of
        (synced, d) \<Rightarrow> if synced then (d\<lparr>dk_linked := True\<rparr>, Ok ()) else (d, Err BnIo))"

definition create_dir :: "Disk \<Rightarrow> Disk \<times> (unit, BundleError) result" where
  "create_dir d =
     (case disk_answer d of
        (created, d) \<Rightarrow>
          if \<not> created \<or> dk_files d \<noteq> None then (d, Err BnIo)
          else (d\<lparr>dk_files := Some Map.empty, dk_entries := {}, dk_linked := False\<rparr>, Ok ()))"

text \<open>\<open>fs::read\<close>.\<close>

definition read_file :: "Disk \<Rightarrow> string \<Rightarrow> Disk \<times> (byte list, BundleError) result" where
  "read_file d name =
     (case disk_answer d of
        (readable, d) \<Rightarrow>
          (case dk_files d of
             None \<Rightarrow> (d, Err BnIo)
           | Some files \<Rightarrow>
               (case files name of
                  None \<Rightarrow> (d, Err BnIo)
                | Some f \<Rightarrow> if readable then (d, Ok (df_contents f)) else (d, Err BnIo))))"

section \<open>Bundles\<close>

record RecoveryBundle =
  rb_configuration :: EngineConfig
  rb_snapshot :: "byte list"
  rb_tail :: "byte list"

definition bundle_checkpoint :: "EngineConfig \<Rightarrow> Snapshot \<Rightarrow> RecoveryBundle" where
  "bundle_checkpoint configuration snapshot =
     \<lparr>rb_configuration = configuration, rb_snapshot = sn_bytes snapshot, rb_tail = []\<rparr>"

definition marker_header :: "byte list" where
  "marker_header = map word_of_nat (ascii ''HFTBUNDLE 1'' @ [10])"

definition bundle_marker :: "sha256 \<Rightarrow> RecoveryBundle \<Rightarrow> byte list" where
  "bundle_marker sha b =
     marker_header @ sha (map word_of_nat (ascii ''deterministic-exchange bundle v1'' @ [0]) @
       concat (map (\<lambda>bytes. be_bytes 16 (length bytes) @ bytes) [config_encode (rb_configuration b), rb_snapshot b, rb_tail b]))"

type_synonym disk_step = "Disk \<times> (unit, BundleError) result"

definition disk_then :: "disk_step \<Rightarrow> (Disk \<Rightarrow> disk_step) \<Rightarrow> disk_step" where
  "disk_then x f = (case x of (d, Err e) \<Rightarrow> (d, Err e) | (d, Ok _) \<Rightarrow> f d)"

text \<open>\<open>has_parent\<close>: the destination's path has a parent that is not empty.\<close>

definition publish_new :: "sha256 \<Rightarrow> bool \<Rightarrow> RecoveryBundle \<Rightarrow> Disk \<Rightarrow> disk_step" where
  "publish_new sha has_parent b d =
     (case config_validate (rb_configuration b) of
        Err e \<Rightarrow> (d, Err (BnConfiguration e))
      | Ok _ \<Rightarrow>
          disk_then (create_dir d) (\<lambda>d.
          disk_then (write_new d ''config.v1'' (config_encode (rb_configuration b))) (\<lambda>d.
          disk_then (write_new d ''snapshot.v1'' (rb_snapshot b)) (\<lambda>d.
          disk_then (write_new d ''tail.v1'' (rb_tail b)) (\<lambda>d.
          disk_then (sync_directory d) (\<lambda>d.
          disk_then (write_new d ''COMMITTED'' (bundle_marker sha b)) (\<lambda>d.
          disk_then (sync_directory d) (\<lambda>d.
            if has_parent then sync_parent d else (d, Ok ())))))))))"

definition bundle_read :: "sha256 \<Rightarrow> Disk \<Rightarrow> Disk \<times> (RecoveryBundle, BundleError) result" where
  "bundle_read sha d =
     (case read_file d ''COMMITTED'' of
        (d, Err e) \<Rightarrow> (d, Err e)
      | (d, Ok marker) \<Rightarrow>
          if take (length marker_header) marker \<noteq> marker_header then (d, Err BnIncomplete)
          else (case read_file d ''config.v1'' of
            (d, Err e) \<Rightarrow> (d, Err e)
          | (d, Ok bytes) \<Rightarrow>
              (case config_decode bytes of
                 Err e \<Rightarrow> (d, Err (BnConfiguration e))
               | Ok configuration \<Rightarrow>
                   (case read_file d ''snapshot.v1'' of
                      (d, Err e) \<Rightarrow> (d, Err e)
                    | (d, Ok snapshot) \<Rightarrow>
                        (case read_file d ''tail.v1'' of
                           (d, Err e) \<Rightarrow> (d, Err e)
                         | (d, Ok tail) \<Rightarrow>
                             let bundle = \<lparr>rb_configuration = configuration, rb_snapshot = snapshot, rb_tail = tail\<rparr> in
                             if marker \<noteq> bundle_marker sha bundle then (d, Err BnIntegrityMismatch) else (d, Ok bundle))))))"

definition bundle_restore :: "sha256 \<Rightarrow> crc \<Rightarrow> nat \<Rightarrow> nat \<Rightarrow> nat \<Rightarrow> nat \<Rightarrow> nat \<Rightarrow> RecoveryBundle \<Rightarrow> EngineConfig
    \<Rightarrow> (EngineBuilder, BundleError) result option" where
  "bundle_restore sha crc ACCOUNTS RISK_ORDERS LEVELS ORDERS REPORTS b expected =
     map_option (map_err BnRecovery)
       (restore_configured sha crc ACCOUNTS RISK_ORDERS LEVELS ORDERS REPORTS expected (config_encode (rb_configuration b)) (rb_snapshot b) (rb_tail b))"

definition backup_new :: "sha256 \<Rightarrow> crc \<Rightarrow> nat \<Rightarrow> nat \<Rightarrow> nat \<Rightarrow> nat \<Rightarrow> nat \<Rightarrow> bool \<Rightarrow> RecoveryBundle \<Rightarrow> Disk \<Rightarrow> disk_step option" where
  "backup_new sha crc ACCOUNTS RISK_ORDERS LEVELS ORDERS REPORTS has_parent b d =
     do {
       restored \<leftarrow> bundle_restore sha crc ACCOUNTS RISK_ORDERS LEVELS ORDERS REPORTS b (rb_configuration b);
       Some (case restored of Err e \<Rightarrow> (d, Err e) | Ok _ \<Rightarrow> publish_new sha has_parent b d)
     }"

section \<open>Effects\<close>

lemma write_new_effect:
  assumes "dk_files d = Some files" and "write_new d name bytes = (d', r)"
  shows "\<exists>f. dk_files d' = Some (files(name := f)) \<and> dk_entries d' = dk_entries d \<and> dk_linked d' = dk_linked d \<and>
    (r = Ok () \<longrightarrow> f = Some (synced_file bytes))"
proof -
  obtain ok where "create_synced d name bytes = (d', ok)" "r = Ok () \<longleftrightarrow> ok"
    using assms(2) by (cases "create_synced d name bytes") (auto simp: write_new_def io_result_def split: if_splits)
  with create_synced_effect [OF assms(1)] show ?thesis by auto
qed

lemma sync_directory_effect:
  assumes "dk_files d = Some files" and "sync_directory d = (d', r)"
  shows "dk_files d' = Some files \<and> dk_linked d' = dk_linked d \<and> dk_entries d' = (if r = Ok () then dom files else dk_entries d)"
proof -
  obtain ok where "directory_sync d = (d', ok)" "r = Ok () \<longleftrightarrow> ok"
    using assms(2) by (cases "directory_sync d") (auto simp: sync_directory_def io_result_def split: if_splits)
  with directory_sync_effect [OF assms(1)] show ?thesis by auto
qed

lemma sync_parent_effect:
  assumes "sync_parent d = (d', r)"
  shows "dk_files d' = dk_files d \<and> dk_entries d' = dk_entries d \<and> (r = Ok () \<longrightarrow> dk_linked d')"
proof -
  obtain x d1 where d1: "disk_answer d = (x, d1)" by (cases "disk_answer d")
  with assms have "d' = (if x then d1\<lparr>dk_linked := True\<rparr> else d1)" "r = Ok () \<longleftrightarrow> x" by (auto simp: sync_parent_def split: if_splits)
  with disk_answer_same [OF d1] show ?thesis by simp
qed

lemma create_dir_effect:
  assumes "dk_files d = None" and "create_dir d = (d', r)"
  shows "dk_files d' = (if r = Ok () then Some Map.empty else None)"
proof -
  obtain x d1 where d1: "disk_answer d = (x, d1)" by (cases "disk_answer d")
  with assms disk_answer_same [OF d1] show ?thesis by (auto simp: create_dir_def split: if_splits)
qed

lemma disk_then_cases:
  assumes "disk_then x f = (d', r)"
  obtains e where "x = (d', Err e)" "r = Err e" | d where "x = (d, Ok ())" "f d = (d', r)"
  using assms by (cases x; cases "snd x") (auto simp: disk_then_def)

section \<open>Publication\<close>

definition bundle_files :: "RecoveryBundle \<Rightarrow> string \<rightharpoonup> DiskFile" where
  "bundle_files b = [''config.v1'' \<mapsto> synced_file (config_encode (rb_configuration b)), ''snapshot.v1'' \<mapsto> synced_file (rb_snapshot b),
     ''tail.v1'' \<mapsto> synced_file (rb_tail b)]"

text \<open>Without the marker nothing is published; the marker is there only after everything else is durable.\<close>

definition unmarked :: "Disk \<Rightarrow> bool" where
  "unmarked d \<longleftrightarrow> (case dk_files d of None \<Rightarrow> True | Some files \<Rightarrow> files ''COMMITTED'' = None)"

definition marked :: "sha256 \<Rightarrow> RecoveryBundle \<Rightarrow> Disk \<Rightarrow> bool" where
  "marked sha b d \<longleftrightarrow> config_validate (rb_configuration b) = Ok () \<and>
     (\<exists>f. dk_files d = Some ((bundle_files b)(''COMMITTED'' := f))) \<and> dom (bundle_files b) \<subseteq> dk_entries d"

definition committed :: "sha256 \<Rightarrow> RecoveryBundle \<Rightarrow> Disk \<Rightarrow> bool" where
  "committed sha b d \<longleftrightarrow> config_validate (rb_configuration b) = Ok () \<and>
     dk_files d = Some ((bundle_files b)(''COMMITTED'' \<mapsto> synced_file (bundle_marker sha b))) \<and>
     insert ''COMMITTED'' (dom (bundle_files b)) \<subseteq> dk_entries d"

definition publish_outcome :: "sha256 \<Rightarrow> bool \<Rightarrow> RecoveryBundle \<Rightarrow> Disk \<Rightarrow> (unit, BundleError) result \<Rightarrow> bool" where
  "publish_outcome sha has_parent b d r \<longleftrightarrow> (unmarked d \<or> marked sha b d) \<and>
     (r = Ok () \<longrightarrow> committed sha b d \<and> (has_parent \<longrightarrow> dk_linked d))"

text \<open>Writing one of the files: a failure leaves the destination without a marker, success adds the file.\<close>

lemma stage_write:
  assumes d: "dk_files d = Some files" "files ''COMMITTED'' = None" "name \<noteq> ''COMMITTED''"
    and run: "disk_then (write_new d name bytes) f = (d', r)"
    and further: "\<And>d2. dk_files d2 = Some (files(name \<mapsto> synced_file bytes)) \<Longrightarrow> f d2 = (d', r) \<Longrightarrow> publish_outcome sha has_parent b d' r"
  shows "publish_outcome sha has_parent b d' r"
  using run
proof (cases rule: disk_then_cases)
  case (1 e)
  with write_new_effect [OF d(1) 1(1)] d(2,3) show ?thesis by (auto simp: publish_outcome_def unmarked_def)
next
  case (2 d2)
  with write_new_effect [OF d(1) 2(1)] show ?thesis by (intro further) auto
qed

text \<open>The marker and the last syncs, when the files are durable.\<close>

lemma stage_marker:
  assumes ok: "config_validate (rb_configuration b) = Ok ()" and d: "dk_files d = Some (bundle_files b)" "dk_entries d = dom (bundle_files b)"
    and run: "disk_then (write_new d ''COMMITTED'' (bundle_marker sha b)) (\<lambda>d. disk_then (sync_directory d)
      (\<lambda>d. if has_parent then sync_parent d else (d, Ok ()))) = (d', r)"
  shows "publish_outcome sha has_parent b d' r"
  using run
proof (cases rule: disk_then_cases)
  case (1 e)
  with write_new_effect [OF d(1) 1(1)] ok d(2) show ?thesis by (auto simp: publish_outcome_def marked_def)
next
  case (2 d6)
  with write_new_effect [OF d(1) 2(1)] d(2) have d6: "dk_files d6 = Some ((bundle_files b)(''COMMITTED'' \<mapsto> synced_file (bundle_marker sha b)))"
    "dk_entries d6 = dom (bundle_files b)" by auto
  from 2(2) show ?thesis
  proof (cases rule: disk_then_cases)
    case (1 e)
    with sync_directory_effect [OF d6(1) 1(1)] ok d6 show ?thesis by (auto simp: publish_outcome_def marked_def)
  next
    case (2 d7)
    from sync_directory_effect [OF d6(1) 2(1)] ok have "committed sha b d7 \<and> marked sha b d7" by (auto simp: committed_def marked_def)
    with 2(2) sync_parent_effect [of d7] show ?thesis by (auto simp: publish_outcome_def committed_def marked_def split: if_splits)
  qed
qed

lemma stage_sync:
  assumes ok: "config_validate (rb_configuration b) = Ok ()" and d: "dk_files d = Some (bundle_files b)"
    and run: "disk_then (sync_directory d) (\<lambda>d. disk_then (write_new d ''COMMITTED'' (bundle_marker sha b)) (\<lambda>d. disk_then (sync_directory d)
      (\<lambda>d. if has_parent then sync_parent d else (d, Ok ())))) = (d', r)"
  shows "publish_outcome sha has_parent b d' r"
  using run
proof (cases rule: disk_then_cases)
  case (1 e)
  with sync_directory_effect [OF d 1(1)] show ?thesis by (simp add: publish_outcome_def unmarked_def bundle_files_def)
next
  case (2 d5)
  with sync_directory_effect [OF d 2(1)] ok show ?thesis by (intro stage_marker [OF _ _ _ 2(2)]) auto
qed

lemma publish_stages:
  assumes fresh: "dk_files d = None" and p: "publish_new sha has_parent b d = (d', r)"
  shows "publish_outcome sha has_parent b d' r"
proof (cases "config_validate (rb_configuration b)")
  case (Err e)
  with p fresh show ?thesis by (auto simp: publish_new_def publish_outcome_def unmarked_def)
next
  case (Ok u)
  with p have run: "disk_then (create_dir d) (\<lambda>d. disk_then (write_new d ''config.v1'' (config_encode (rb_configuration b))) (\<lambda>d.
      disk_then (write_new d ''snapshot.v1'' (rb_snapshot b)) (\<lambda>d. disk_then (write_new d ''tail.v1'' (rb_tail b)) (\<lambda>d.
      disk_then (sync_directory d) (\<lambda>d. disk_then (write_new d ''COMMITTED'' (bundle_marker sha b)) (\<lambda>d. disk_then (sync_directory d)
        (\<lambda>d. if has_parent then sync_parent d else (d, Ok ()))))))) ) = (d', r)"
    by (simp add: publish_new_def)
  then show ?thesis
  proof (cases rule: disk_then_cases)
    case (1 e)
    with create_dir_effect [OF fresh 1(1)] show ?thesis by (simp add: publish_outcome_def unmarked_def)
  next
    case (2 d1)
    from create_dir_effect [OF fresh 2(1)] have "dk_files d1 = Some Map.empty" by simp
    from this _ _ 2(2) show ?thesis
    proof (rule stage_write; (simp; fail)?)
      fix d2 assume d2: "dk_files d2 = Some [''config.v1'' \<mapsto> synced_file (config_encode (rb_configuration b))]"
        and "disk_then (write_new d2 ''snapshot.v1'' (rb_snapshot b)) (\<lambda>d. disk_then (write_new d ''tail.v1'' (rb_tail b)) (\<lambda>d.
          disk_then (sync_directory d) (\<lambda>d. disk_then (write_new d ''COMMITTED'' (bundle_marker sha b)) (\<lambda>d. disk_then (sync_directory d)
            (\<lambda>d. if has_parent then sync_parent d else (d, Ok ()))))))  = (d', r)"
      from d2 _ _ this(2) show "publish_outcome sha has_parent b d' r"
      proof (rule stage_write; (simp; fail)?)
        fix d3 assume d3: "dk_files d3 = Some [''config.v1'' \<mapsto> synced_file (config_encode (rb_configuration b)), ''snapshot.v1'' \<mapsto> synced_file (rb_snapshot b)]"
          and "disk_then (write_new d3 ''tail.v1'' (rb_tail b)) (\<lambda>d. disk_then (sync_directory d) (\<lambda>d.
            disk_then (write_new d ''COMMITTED'' (bundle_marker sha b)) (\<lambda>d. disk_then (sync_directory d)
              (\<lambda>d. if has_parent then sync_parent d else (d, Ok ()))))) = (d', r)"
        from d3 _ _ this(2) show "publish_outcome sha has_parent b d' r"
        proof (rule stage_write; (simp; fail)?)
          fix d4 assume d4: "dk_files d4 = Some ([''config.v1'' \<mapsto> synced_file (config_encode (rb_configuration b)), ''snapshot.v1'' \<mapsto> synced_file (rb_snapshot b)]
              (''tail.v1'' \<mapsto> synced_file (rb_tail b)))"
            and sync: "disk_then (sync_directory d4) (\<lambda>d. disk_then (write_new d ''COMMITTED'' (bundle_marker sha b)) (\<lambda>d. disk_then (sync_directory d)
              (\<lambda>d. if has_parent then sync_parent d else (d, Ok ())))) = (d', r)"
          then have d4: "dk_files d4 = Some (bundle_files b)" by (simp add: bundle_files_def)
          from Ok show "publish_outcome sha has_parent b d' r" by (intro stage_sync [OF _ d4 sync]) simp
        qed
      qed
    qed
  qed
qed

section \<open>Reading\<close>

lemma read_file_Ok:
  assumes "read_file d name = (d', Ok bytes)" and "dk_files d = Some files"
  shows "dk_files d' = Some files \<and> (\<exists>f. files name = Some f \<and> bytes = df_contents f)"
proof -
  obtain x d1 where d1: "disk_answer d = (x, d1)" by (cases "disk_answer d")
  with disk_answer_same [OF d1] assms show ?thesis by (auto simp: read_file_def split: option.split_asm if_split_asm)
qed

lemma read_file_present:
  assumes "dk_files d = Some files" and "files name = Some f" and "IoFails \<notin> set (dk_answers d)"
  shows "\<exists>d'. read_file d name = (d', Ok (df_contents f)) \<and> dk_files d' = Some files \<and> IoFails \<notin> set (dk_answers d')"
proof -
  obtain x d1 where d1: "disk_answer d = (x, d1)" by (cases "disk_answer d")
  with assms(3) have "x" "IoFails \<notin> set (dk_answers d1)" by (auto simp: disk_answer_def split: list.splits)
  with d1 disk_answer_same [OF d1] assms(1,2) show ?thesis by (auto simp: read_file_def)
qed

text \<open>What a successful read has seen, and when a read succeeds.\<close>

lemma bundle_read_sound:
  assumes "bundle_read sha d = (d', Ok b)"
  shows "\<exists>files m c s t. dk_files d = Some files \<and> files ''COMMITTED'' = Some m \<and> files ''config.v1'' = Some c \<and>
    files ''snapshot.v1'' = Some s \<and> files ''tail.v1'' = Some t \<and> config_decode (df_contents c) = Ok (rb_configuration b) \<and>
    df_contents s = rb_snapshot b \<and> df_contents t = rb_tail b \<and> df_contents m = bundle_marker sha b"
proof -
  from assms obtain d1 marker where 1: "read_file d ''COMMITTED'' = (d1, Ok marker)"
    by (auto simp: bundle_read_def split: prod.split_asm result.split_asm)
  with assms obtain d2 bytes where 2: "read_file d1 ''config.v1'' = (d2, Ok bytes)"
    by (auto simp: bundle_read_def split: prod.split_asm result.split_asm if_split_asm)
  with assms 1 obtain c where c: "config_decode bytes = Ok c"
    by (auto simp: bundle_read_def split: prod.split_asm result.split_asm if_split_asm)
  with assms 1 2 obtain d3 snapshot where 3: "read_file d2 ''snapshot.v1'' = (d3, Ok snapshot)"
    by (auto simp: bundle_read_def split: prod.split_asm result.split_asm if_split_asm)
  with assms 1 2 c obtain d4 tail where 4: "read_file d3 ''tail.v1'' = (d4, Ok tail)"
    by (auto simp: bundle_read_def split: prod.split_asm result.split_asm if_split_asm)
  from assms 1 2 c 3 4 have b: "b = \<lparr>rb_configuration = c, rb_snapshot = snapshot, rb_tail = tail\<rparr>" "marker = bundle_marker sha b"
    by (auto simp: bundle_read_def Let_def split: if_split_asm)
  from 1 obtain files where files: "dk_files d = Some files" by (auto simp: read_file_def split: prod.split_asm option.split_asm dest: disk_answer_same)
  from read_file_Ok [OF 1 files] obtain m where m: "dk_files d1 = Some files" "files ''COMMITTED'' = Some m" "marker = df_contents m" by blast
  from read_file_Ok [OF 2 m(1)] obtain f where f: "dk_files d2 = Some files" "files ''config.v1'' = Some f" "bytes = df_contents f" by blast
  from read_file_Ok [OF 3 f(1)] obtain g where g: "dk_files d3 = Some files" "files ''snapshot.v1'' = Some g" "snapshot = df_contents g" by blast
  from read_file_Ok [OF 4 g(1)] obtain h where h: "files ''tail.v1'' = Some h" "tail = df_contents h" by blast
  show ?thesis using files m f g h b c by (intro exI [of _ files] exI [of _ m] exI [of _ f] exI [of _ g] exI [of _ h]) simp
qed

lemma bundle_read_complete:
  assumes files: "dk_files d = Some files" "files ''COMMITTED'' = Some m" "files ''config.v1'' = Some c" "files ''snapshot.v1'' = Some s"
      "files ''tail.v1'' = Some t"
    and b: "config_decode (df_contents c) = Ok (rb_configuration b)" "df_contents s = rb_snapshot b" "df_contents t = rb_tail b"
      "df_contents m = bundle_marker sha b" and io: "IoFails \<notin> set (dk_answers d)"
  shows "\<exists>d'. bundle_read sha d = (d', Ok b)"
proof -
  from read_file_present [OF files(1,2) io] obtain d1 where
    1: "read_file d ''COMMITTED'' = (d1, Ok (df_contents m))" "dk_files d1 = Some files" "IoFails \<notin> set (dk_answers d1)" by blast
  from read_file_present [OF 1(2) files(3) 1(3)] obtain d2 where
    2: "read_file d1 ''config.v1'' = (d2, Ok (df_contents c))" "dk_files d2 = Some files" "IoFails \<notin> set (dk_answers d2)" by blast
  from read_file_present [OF 2(2) files(4) 2(3)] obtain d3 where
    3: "read_file d2 ''snapshot.v1'' = (d3, Ok (df_contents s))" "dk_files d3 = Some files" "IoFails \<notin> set (dk_answers d3)" by blast
  from read_file_present [OF 3(2) files(5) 3(3)] obtain d4 where 4: "read_file d3 ''tail.v1'' = (d4, Ok (df_contents t))" by blast
  have "take (length marker_header) (df_contents m) = marker_header" using b(4) by (simp add: bundle_marker_def)
  moreover have "bundle_marker sha \<lparr>rb_configuration = rb_configuration b, rb_snapshot = rb_snapshot b, rb_tail = rb_tail b\<rparr> = bundle_marker sha b"
    by (simp add: bundle_marker_def)
  ultimately show ?thesis using 1(1) 2(1) 3(1) 4 b by (simp add: bundle_read_def Let_def)
qed

section \<open>Publication, stop, and reading\<close>

lemma unmarked_crashed: "unmarked d \<Longrightarrow> crashed d d' \<Longrightarrow> unmarked d'"
proof (cases "dk_files d'")
  case (Some files')
  assume "unmarked d" "crashed d d'"
  with Some obtain files where files: "dk_files d = Some files" "crashed_entry d files ''COMMITTED'' (files' ''COMMITTED'')"
    by (auto simp: crashed_def)
  then have "files' ''COMMITTED'' = None" using \<open>unmarked d\<close> by (auto simp: unmarked_def crashed_entry_def split: option.split_asm)
  with Some show "unmarked d'" by (simp add: unmarked_def)
qed (simp add: unmarked_def)

lemma crashed_synced:
  assumes "crashed d d'" and "dk_files d = Some files" "files name = Some (synced_file bytes)" "name \<in> dk_entries d"
    and "dk_files d' = Some files'"
  shows "\<exists>f. files' name = Some f \<and> df_contents f = bytes"
proof -
  from assms have "crashed_entry d files name (files' name)" by (simp add: crashed_def)
  with assms(3,4) show ?thesis by (auto simp: crashed_entry_def split: option.split_asm)
qed

lemma marked_crashed:
  assumes m: "marked sha b d" and c: "crashed d d'" and files: "dk_files d' = Some files'"
  shows "\<exists>f g h. files' ''config.v1'' = Some f \<and> df_contents f = config_encode (rb_configuration b) \<and>
    files' ''snapshot.v1'' = Some g \<and> df_contents g = rb_snapshot b \<and> files' ''tail.v1'' = Some h \<and> df_contents h = rb_tail b"
proof -
  from m obtain x where x: "dk_files d = Some ((bundle_files b)(''COMMITTED'' := x))" "dom (bundle_files b) \<subseteq> dk_entries d"
    by (auto simp: marked_def)
  then have e: "''config.v1'' \<in> dk_entries d" "''snapshot.v1'' \<in> dk_entries d" "''tail.v1'' \<in> dk_entries d" by (auto simp: bundle_files_def)
  note s = crashed_synced [OF c x(1) _ _ files]
  from s [of "''config.v1''"] s [of "''snapshot.v1''"] s [of "''tail.v1''"] e show ?thesis by (simp add: bundle_files_def)
qed

lemma published_read:
  assumes out: "publish_outcome sha has_parent b d r" and typed: "config_typed (rb_configuration b)"
    and c: "crashed d d'" and read: "bundle_read sha d' = (d2, Ok b')"
  shows "b' = b"
proof -
  from bundle_read_sound [OF read] obtain files m f g h where r: "dk_files d' = Some files" "files ''COMMITTED'' = Some m"
    "files ''config.v1'' = Some f" "files ''snapshot.v1'' = Some g" "files ''tail.v1'' = Some h"
    "config_decode (df_contents f) = Ok (rb_configuration b')" "df_contents g = rb_snapshot b'" "df_contents h = rb_tail b'" by blast
  then have "\<not> unmarked d'" by (simp add: unmarked_def)
  with unmarked_crashed [OF _ c] out have m: "marked sha b d" by (auto simp: publish_outcome_def)
  have "config_decode (config_encode (rb_configuration b)) = Ok (rb_configuration b)"
    using config_decode_encode [OF typed] m by (simp add: marked_def)
  with marked_crashed [OF m c r(1)] r show ?thesis by auto
qed

lemma committed_read:
  assumes com: "committed sha b d" and typed: "config_typed (rb_configuration b)" and c: "crashed d d'" and link: "dk_files d' \<noteq> None"
    and io: "IoFails \<notin> set (dk_answers d')"
  shows "\<exists>d2. bundle_read sha d' = (d2, Ok b)"
proof -
  from link obtain files where files: "dk_files d' = Some files" by blast
  have m: "marked sha b d" using com by (auto simp: committed_def marked_def)
  from marked_crashed [OF m c files] obtain f g h where r: "files ''config.v1'' = Some f" "df_contents f = config_encode (rb_configuration b)"
    "files ''snapshot.v1'' = Some g" "df_contents g = rb_snapshot b" "files ''tail.v1'' = Some h" "df_contents h = rb_tail b" by blast
  from com crashed_synced [OF c _ _ _ files, of _ "''COMMITTED''" "bundle_marker sha b"] obtain k where
    k: "files ''COMMITTED'' = Some k" "df_contents k = bundle_marker sha b" by (auto simp: committed_def)
  have "config_decode (config_encode (rb_configuration b)) = Ok (rb_configuration b)"
    using config_decode_encode [OF typed] com by (simp add: committed_def)
  with bundle_read_complete [OF files k(1) r(1,3,5) _ r(4,6) k(2) io] r(2) show ?thesis by simp
qed

section \<open>Property\<close>

text \<open>
  C38: a bundle is published entirely or not at all. Publish a bundle to a destination that does not exist, with
  any answers of the operating system, and let the machine stop afterwards or not. Whatever can be read there is
  the bundle that was published, also when publication failed half way. After a publication that reported success
  the bundle is read back from any directory that survived, and with a parent to sync the directory does.
\<close>
theorem bundle_publication_atomic:
  assumes fresh: "dk_files d = None" and typed: "config_typed (rb_configuration b)" and p: "publish_new sha has_parent b d = (d', r)"
  shows "(\<forall>c d2 b'. crashed d' c \<longrightarrow> bundle_read sha c = (d2, Ok b') \<longrightarrow> b' = b) \<and>
    (r = Ok () \<longrightarrow> (\<forall>c. crashed d' c \<longrightarrow> IoFails \<notin> set (dk_answers c) \<longrightarrow> dk_files c \<noteq> None \<or> has_parent \<longrightarrow>
      (\<exists>d2. bundle_read sha c = (d2, Ok b))))"
proof -
  note out = publish_stages [OF fresh p]
  have "dk_files c \<noteq> None" if "r = Ok ()" "crashed d' c" "has_parent" for c
    using out that by (cases "dk_files c") (auto simp: publish_outcome_def committed_def crashed_def)
  with out published_read [OF out typed] committed_read [of sha b d', OF _ typed] show ?thesis by (auto simp: publish_outcome_def)
qed

theorem bundle_publication_atomic_witness:
  "\<exists>d' d2. publish_new (\<lambda>_. replicate 32 0) True
       \<lparr>rb_configuration = \<lparr>ec_instrument = 3, ec_capacities = [2, 3, 1, 1, 4], ec_accounts = []\<rparr>, rb_snapshot = [1, 2], rb_tail = []\<rparr>
       \<lparr>dk_files = None, dk_entries = {}, dk_linked = False, dk_answers = []\<rparr> = (d', Ok ()) \<and>
     bundle_read (\<lambda>_. replicate 32 0) d' =
       (d2, Ok \<lparr>rb_configuration = \<lparr>ec_instrument = 3, ec_capacities = [2, 3, 1, 1, 4], ec_accounts = []\<rparr>, rb_snapshot = [1, 2], rb_tail = []\<rparr>)"
proof -
  let ?b = "\<lparr>rb_configuration = \<lparr>ec_instrument = 3, ec_capacities = [2, 3, 1, 1, 4], ec_accounts = []\<rparr>, rb_snapshot = [1, 2], rb_tail = []\<rparr>"
  let ?d = "\<lparr>dk_files = None, dk_entries = {}, dk_linked = False, dk_answers = []\<rparr>" and ?sha = "\<lambda>_ :: byte list. replicate 32 (0 :: byte)"
  obtain d' r where p: "publish_new ?sha True ?b ?d = (d', r)" by (cases "publish_new ?sha True ?b ?d")
  then have ok: "r = Ok ()" "dk_answers d' = []"
    by (auto simp: publish_new_def disk_then_def create_dir_def write_new_def create_synced_quiet io_result_def sync_directory_def directory_sync_def sync_parent_def disk_answer_def
        config_validate_def)
  have "config_typed (rb_configuration ?b)" by (simp add: config_typed_def)
  from bundle_publication_atomic [OF _ this p] ok crashed_refl [of d'] p show ?thesis by auto
qed

end
