(* ===== verification/SnapshotPersist.thy ===== *)
theory SnapshotPersist
  imports Disk EngineConfig
begin

text \<open>
  Publishing a snapshot at a new path (\<open>persist_snapshot_new\<close> of \<open>crates/hft-recovery/src/lib.rs\<close>): a temporary file is
  written and synced beside the destination, linked at it and removed, and the directory is synced. Paths are lists
  of components, with the standard library's \<open>parent\<close>, \<open>file_name\<close> and \<open>join\<close>; the file system has a directory of
  theory \<open>Disk\<close> per absolute path and a current directory; links and parent components that make two paths one are not
  resolved. The input and output errors that the source carries along are left out.
\<close>

section \<open>Paths\<close>

text \<open>
  The components of a Unix path; names are sequences of bytes. The empty path has none. Relative paths start at
  the current directory.
\<close>

datatype PathComponent = RootDir | CurDir | ParentDir | Normal string

type_synonym Path = "PathComponent list"

text \<open>\<open>Path::parent\<close>: no parent for the empty path and for a root. The parent of a path of one component is empty.\<close>

definition path_parent :: "Path \<Rightarrow> Path option" where
  "path_parent path = (if path = [] \<or> last path = RootDir then None else Some (butlast path))"

definition path_file_name :: "Path \<Rightarrow> string option" where
  "path_file_name path = (if path = [] then None else case last path of Normal name \<Rightarrow> Some name | _ \<Rightarrow> None)"

definition to_str :: "string \<Rightarrow> string option" where
  "to_str name = (if from_utf8 (map of_char name) = None then None else Some name)"

definition path_join :: "Path \<Rightarrow> string \<Rightarrow> Path" where
  "path_join path name = path @ [Normal name]"

section \<open>The file system\<close>

record FileSystem =
  fs_current :: Path
  fs_directories :: "Path \<Rightarrow> Disk"

definition absolute :: "FileSystem \<Rightarrow> Path \<Rightarrow> Path" where
  "absolute fs path = (case path of RootDir # _ \<Rightarrow> path | _ \<Rightarrow> fs_current fs @ path)"

text \<open>The empty path names nothing, not even the current directory.\<close>

definition directory_exists :: "FileSystem \<Rightarrow> Path \<Rightarrow> bool" where
  "directory_exists fs path \<longleftrightarrow> path \<noteq> [] \<and> dk_files (fs_directories fs (absolute fs path)) \<noteq> None"

text \<open>A call that works in a directory.\<close>

definition in_directory :: "FileSystem \<Rightarrow> Path \<Rightarrow> (Disk \<Rightarrow> Disk \<times> bool) \<Rightarrow> FileSystem \<times> bool" where
  "in_directory fs directory call =
     (case call (fs_directories fs (absolute fs directory)) of
        (d, ok) \<Rightarrow> (fs\<lparr>fs_directories := (fs_directories fs)(absolute fs directory := d)\<rparr>, ok))"

text \<open>A call on the name a path ends in.\<close>

definition on_name :: "FileSystem \<Rightarrow> Path \<Rightarrow> (Disk \<Rightarrow> string \<Rightarrow> Disk \<times> bool) \<Rightarrow> FileSystem \<times> bool" where
  "on_name fs path call =
     (case path_file_name path of
        None \<Rightarrow> (fs, False)
      | Some name \<Rightarrow> in_directory fs (butlast path) (\<lambda>d. call d name))"

text \<open>\<open>Path::exists\<close> is false also when it cannot be found out.\<close>

definition path_exists :: "FileSystem \<Rightarrow> Path \<Rightarrow> FileSystem \<times> bool" where
  "path_exists fs path =
     (if path_file_name path = None then (fs, directory_exists fs path)
      else on_name fs path (\<lambda>d name.
        case disk_answer d of
          (known, d) \<Rightarrow> (d, known \<and> (case dk_files d of None \<Rightarrow> False | Some files \<Rightarrow> files name \<noteq> None \<or> directory_exists fs path))))"

text \<open>Creating a new file, writing and syncing it.\<close>

definition fs_create_synced :: "FileSystem \<Rightarrow> Path \<Rightarrow> byte list \<Rightarrow> FileSystem \<times> bool" where
  "fs_create_synced fs path bytes =
     (if directory_exists fs path then (fs, False) else on_name fs path (\<lambda>d name. create_synced d name bytes))"

definition file_at :: "FileSystem \<Rightarrow> Path \<Rightarrow> DiskFile option" where
  "file_at fs path =
     do {
       name \<leftarrow> path_file_name path;
       files \<leftarrow> dk_files (fs_directories fs (absolute fs (butlast path)));
       files name
     }"

definition link_file :: "Disk \<Rightarrow> string \<Rightarrow> DiskFile option \<Rightarrow> Disk \<times> bool" where
  "link_file d link original =
     (case disk_answer d of
        (linked, d) \<Rightarrow>
          (case (dk_files d, original) of
             (Some files, Some f) \<Rightarrow>
               if \<not> linked \<or> files link \<noteq> None then (d, False) else (d\<lparr>dk_files := Some (files(link \<mapsto> f))\<rparr>, True)
           | _ \<Rightarrow> (d, False)))"

definition hard_link :: "FileSystem \<Rightarrow> Path \<Rightarrow> Path \<Rightarrow> FileSystem \<times> bool" where
  "hard_link fs original link =
     (if directory_exists fs link then (fs, False) else on_name fs link (\<lambda>d name. link_file d name (file_at fs original)))"

definition unlink_file :: "Disk \<Rightarrow> string \<Rightarrow> Disk \<times> bool" where
  "unlink_file d name =
     (case disk_answer d of
        (removed, d) \<Rightarrow>
          (case dk_files d of
             None \<Rightarrow> (d, False)
           | Some files \<Rightarrow>
               if \<not> removed \<or> files name = None then (d, False)
               else (d\<lparr>dk_files := Some (files(name := None)), dk_entries := dk_entries d - {name}\<rparr>, True)))"

definition remove_file :: "FileSystem \<Rightarrow> Path \<Rightarrow> FileSystem \<times> bool" where
  "remove_file fs path = on_name fs path unlink_file"

text \<open>\<open>File::open\<close> of a directory and \<open>sync_all\<close>: opening the empty path fails.\<close>

definition fs_sync_directory :: "FileSystem \<Rightarrow> Path \<Rightarrow> FileSystem \<times> bool" where
  "fs_sync_directory fs path = (if directory_exists fs path then in_directory fs path directory_sync else (fs, False))"

section \<open>Publication\<close>

datatype SnapshotPersistError = BeforePublication | Published

definition temporary_name :: "string \<Rightarrow> nat \<Rightarrow> nat \<Rightarrow> string" where
  "temporary_name file_name pid counter =
     ''.'' @ file_name @ ''.tmp-'' @ map char_of (decimal pid) @ ''-'' @ map char_of (decimal counter)"

definition persist_snapshot_new :: "nat \<Rightarrow> nat \<Rightarrow> FileSystem \<Rightarrow> Path \<Rightarrow> byte list \<Rightarrow> FileSystem \<times> (unit, SnapshotPersistError) result" where
  "persist_snapshot_new pid counter fs path bytes =
     (case path_exists fs path of
        (fs, True) \<Rightarrow> (fs, Err BeforePublication)
      | (fs, False) \<Rightarrow>
          let parent = (case path_parent path of None \<Rightarrow> [CurDir] | Some parent \<Rightarrow> parent) in
          (case Option.bind (path_file_name path) to_str of
             None \<Rightarrow> (fs, Err BeforePublication)
           | Some file_name \<Rightarrow>
               let temporary = path_join parent (temporary_name file_name pid counter) in
               (case (case fs_create_synced fs temporary bytes of (fs, ok) \<Rightarrow> if ok then hard_link fs temporary path else (fs, False)) of
                  (fs, False) \<Rightarrow> (fst (remove_file fs temporary), Err BeforePublication)
                | (fs, True) \<Rightarrow>
                    (case remove_file fs temporary of
                       (fs, False) \<Rightarrow> (fs, Err Published)
                     | (fs, True) \<Rightarrow>
                         (case fs_sync_directory fs parent of (fs, ok) \<Rightarrow> (fs, if ok then Ok () else Err Published))))))"

section \<open>Effects in the destination's directory\<close>

lemma temporary_differs: "temporary_name name pid counter \<noteq> name"
proof -
  have "length name < length (temporary_name name pid counter)" by (simp add: temporary_name_def)
  then show ?thesis by auto
qed

text \<open>The calls keep to one directory.\<close>

definition only_in :: "FileSystem \<Rightarrow> Path \<Rightarrow> FileSystem \<Rightarrow> bool" where
  "only_in fs dir fs' \<longleftrightarrow> fs_current fs' = fs_current fs \<and> (\<forall>p. p \<noteq> absolute fs dir \<longrightarrow> fs_directories fs' p = fs_directories fs p)"

abbreviation files_in :: "FileSystem \<Rightarrow> Path \<Rightarrow> (string \<rightharpoonup> DiskFile) option" where
  "files_in fs dir \<equiv> dk_files (fs_directories fs (absolute fs dir))"

lemma only_inD: "only_in fs dir fs' \<Longrightarrow> absolute fs' = absolute fs"
proof (rule ext)
  fix path assume "only_in fs dir fs'"
  then have "fs_current fs' = fs_current fs" by (simp add: only_in_def)
  then show "absolute fs' path = absolute fs path" by (auto simp: absolute_def split: list.splits PathComponent.splits)
qed

lemma only_in_refl: "only_in fs dir fs"
  by (simp add: only_in_def)

lemma only_in_trans: "only_in fs dir fs' \<Longrightarrow> only_in fs' dir fs'' \<Longrightarrow> only_in fs dir fs''"
  using only_inD [of fs dir fs'] by (auto simp: only_in_def)

lemma in_directory_effect:
  assumes "in_directory fs dir call = (fs', ok)"
  shows "only_in fs dir fs' \<and> call (fs_directories fs (absolute fs dir)) = (fs_directories fs' (absolute fs dir), ok)"
  using assms by (auto simp: in_directory_def only_in_def split: prod.splits)

lemma file_name_snoc [simp]: "path_file_name (dir @ [Normal name]) = Some name" "path_file_name (path_join dir name) = Some name"
  "butlast (path_join dir name) = dir"
  by (simp_all add: path_file_name_def path_join_def)

lemma file_name_split: "path_file_name path = Some name \<longleftrightarrow> path = butlast path @ [Normal name]"
  by (cases path rule: rev_cases) (auto simp: path_file_name_def split: PathComponent.splits)

lemma on_name_effect:
  assumes "on_name fs path call = (fs', ok)" and "path_file_name path = Some name"
  shows "only_in fs (butlast path) fs' \<and> call (fs_directories fs (absolute fs (butlast path))) name = (fs_directories fs' (absolute fs (butlast path)), ok)"
  using assms in_directory_effect by (simp add: on_name_def)

text \<open>A directory at the path of a file of the directory: not changed by calls in the directory, which is another one.\<close>

lemma absolute_snoc: "absolute fs (dir @ [Normal name]) = absolute fs dir @ [Normal name]"
  by (cases dir) (auto simp: absolute_def split: PathComponent.splits)

lemma directory_exists_kept:
  assumes "only_in fs dir fs'"
  shows "directory_exists fs' (dir @ [Normal name]) = directory_exists fs (dir @ [Normal name])"
proof -
  have "absolute fs (dir @ [Normal name]) \<noteq> absolute fs dir" by (simp add: absolute_snoc)
  with assms show ?thesis by (simp add: directory_exists_def only_inD [OF assms] only_in_def)
qed

lemma link_file_effect:
  assumes "dk_files d = Some files" and "link_file d link original = (d', ok)"
  shows "if ok then files link = None \<and> dk_files d' = Some (files(link := original)) \<and> original \<noteq> None else dk_files d' = Some files"
proof -
  obtain x d1 where d1: "disk_answer d = (x, d1)" by (cases "disk_answer d")
  with assms disk_answer_same [OF d1] show ?thesis by (cases original) (auto simp: link_file_def split: if_splits)
qed

lemma unlink_file_effect:
  assumes "dk_files d = Some files" and "unlink_file d name = (d', ok)"
  shows "dk_files d' = Some (if ok then files(name := None) else files)"
proof -
  obtain x d1 where d1: "disk_answer d = (x, d1)" by (cases "disk_answer d")
  with assms disk_answer_same [OF d1] show ?thesis by (auto simp: unlink_file_def split: if_splits)
qed

lemma exists_effect:
  assumes "path_exists fs (dir @ [Normal name]) = (fs', found)" and "files_in fs dir = Some files"
  shows "only_in fs dir fs' \<and> files_in fs' dir = Some files \<and> (found \<longrightarrow> files name \<noteq> None \<or> directory_exists fs (dir @ [Normal name]))"
proof -
  let ?d = "fs_directories fs (absolute fs dir)"
  obtain x d1 where d1: "disk_answer ?d = (x, d1)" by (cases "disk_answer ?d")
  from assms(1) have "on_name fs (dir @ [Normal name]) (\<lambda>d entry. case disk_answer d of (known, d) \<Rightarrow>
      (d, known \<and> (case dk_files d of None \<Rightarrow> False | Some files \<Rightarrow> files entry \<noteq> None \<or> directory_exists fs (dir @ [Normal name])))) = (fs', found)"
    by (simp add: path_exists_def)
  from on_name_effect [OF this, of name] d1 disk_answer_same [OF d1] assms(2) show ?thesis using only_inD [of fs dir fs'] by auto
qed

text \<open>Up to publication: the temporary file linked at the destination, or the destination as it was.\<close>

lemma publication_effect:
  assumes files: "files_in fs dir = Some files" and t: "temporary \<noteq> name"
    and run: "(case fs_create_synced fs (path_join dir temporary) bytes of (fs, ok) \<Rightarrow>
      if ok then hard_link fs (path_join dir temporary) (dir @ [Normal name]) else (fs, False)) = (fs', ok)"
  shows "only_in fs dir fs' \<and> (\<exists>f. files_in fs' dir = Some (files(temporary := f, name := (if ok then Some (synced_file bytes) else files name)))) \<and>
    (ok \<longrightarrow> files name = None \<and> \<not> directory_exists fs (dir @ [Normal name]))"
proof -
  let ?t = "path_join dir temporary"
  obtain fs1 created where c: "fs_create_synced fs ?t bytes = (fs1, created)" by (cases "fs_create_synced fs ?t bytes")
  have c1: "only_in fs dir fs1 \<and> (\<exists>f. files_in fs1 dir = Some (files(temporary := f)) \<and> (created \<longrightarrow> f = Some (synced_file bytes)))"
  proof (cases "directory_exists fs ?t")
    case True
    with c files only_in_refl show ?thesis by (auto simp: fs_create_synced_def intro!: exI [of _ "files temporary"])
  next
    case False
    with c have "on_name fs ?t (\<lambda>d name. create_synced d name bytes) = (fs1, created)" by (simp add: fs_create_synced_def)
    from on_name_effect [OF this, of temporary] create_synced_effect [OF files] only_inD [of fs dir fs1] show ?thesis by fastforce
  qed
  then obtain f where f: "only_in fs dir fs1" "files_in fs1 dir = Some (files(temporary := f))" "created \<longrightarrow> f = Some (synced_file bytes)" by blast
  note same = directory_exists_kept [OF f(1), of name]
  show ?thesis
  proof (cases "created \<and> \<not> directory_exists fs1 (dir @ [Normal name])")
    case False
    with run c have "fs' = fs1" "\<not> ok" by (auto simp: hard_link_def split: if_splits)
    with f t show ?thesis by (auto simp: fun_upd_def fun_eq_iff intro!: exI [of _ f])
  next
    case True
    with run c have "on_name fs1 (dir @ [Normal name]) (\<lambda>d name. link_file d name (file_at fs1 ?t)) = (fs', ok)" by (simp add: hard_link_def)
    from on_name_effect [OF this, of name] have l: "only_in fs1 dir fs'"
      "link_file (fs_directories fs1 (absolute fs1 dir)) name (file_at fs1 ?t) = (fs_directories fs' (absolute fs1 dir), ok)" by auto
    have "file_at fs1 ?t = f" using f(2) by (simp add: file_at_def)
    with link_file_effect [OF f(2) l(2)] True f(3) t have
      "if ok then files name = None \<and> files_in fs' dir = Some (files(temporary := f, name := Some (synced_file bytes)))
       else files_in fs' dir = Some (files(temporary := f))" using only_inD [OF l(1)] by (auto split: if_splits)
    with True same only_in_trans [OF f(1) l(1)] t show ?thesis by (auto simp: fun_upd_def fun_eq_iff intro!: exI [of _ f] split: if_splits)
  qed
qed

lemma persist_effect:
  assumes files: "files_in fs dir = Some files" and run: "persist_snapshot_new pid counter fs (dir @ [Normal name]) bytes = (fs', r)"
  shows "only_in fs dir fs' \<and> (\<exists>f. files_in fs' dir = Some (files(temporary_name name pid counter := f,
      name := (if r = Err BeforePublication then files name else Some (synced_file bytes))))) \<and>
    (r \<noteq> Err BeforePublication \<longrightarrow> files name = None \<and> \<not> directory_exists fs (dir @ [Normal name]) \<and> to_str name = Some name) \<and>
    (r = Ok () \<longrightarrow> dir \<noteq> [] \<and> name \<in> dk_entries (fs_directories fs' (absolute fs' dir)))"
proof -
  let ?path = "dir @ [Normal name]" and ?t = "temporary_name name pid counter"
  obtain fs1 found where x: "path_exists fs ?path = (fs1, found)" by (cases "path_exists fs ?path")
  from exists_effect [OF x files] have x1: "only_in fs dir fs1" "files_in fs1 dir = Some files" by auto
  note same = directory_exists_kept [OF x1(1), of name]
  show ?thesis
  proof (cases "found \<or> to_str name = None")
    case True
    with run x have "fs' = fs1" "r = Err BeforePublication" by (auto simp: persist_snapshot_new_def split: bool.splits)
    with x1 show ?thesis by (auto simp: fun_upd_def fun_eq_iff intro!: exI [of _ "files ?t"])
  next
    case False
    then have name: "to_str name = Some name" by (auto simp: to_str_def split: if_splits)
    have parent: "path_parent ?path = Some dir" by (simp add: path_parent_def)
    obtain fs2 ok where p: "(case fs_create_synced fs1 (path_join dir ?t) bytes of (fs, ok) \<Rightarrow>
        if ok then hard_link fs (path_join dir ?t) ?path else (fs, False)) = (fs2, ok)"
      by (cases "case fs_create_synced fs1 (path_join dir ?t) bytes of (fs, ok) \<Rightarrow> if ok then hard_link fs (path_join dir ?t) ?path else (fs, False)")
    from publication_effect [OF x1(2) temporary_differs p] obtain f where
      f: "only_in fs1 dir fs2" "files_in fs2 dir = Some (files(?t := f, name := (if ok then Some (synced_file bytes) else files name)))"
        "ok \<longrightarrow> files name = None \<and> \<not> directory_exists fs1 ?path" by blast
    obtain fs3 gone where g: "remove_file fs2 (path_join dir ?t) = (fs3, gone)" by (cases "remove_file fs2 (path_join dir ?t)")
    from on_name_effect [OF g [unfolded remove_file_def], of ?t] have u: "only_in fs2 dir fs3"
      "unlink_file (fs_directories fs2 (absolute fs2 dir)) ?t = (fs_directories fs3 (absolute fs2 dir), gone)" by auto
    from unlink_file_effect [OF f(2) u(2)] only_inD [OF u(1)] have
      f3: "files_in fs3 dir = Some (files(?t := if gone then None else f, name := (if ok then Some (synced_file bytes) else files name)))"
      using temporary_differs [of name pid counter] by (auto simp: fun_upd_twist)
    obtain fs4 synced where s: "fs_sync_directory fs3 dir = (fs4, synced)" by (cases "fs_sync_directory fs3 dir")
    have s4: "only_in fs3 dir fs4" "files_in fs4 dir = files_in fs3 dir"
      "synced \<Longrightarrow> ok \<Longrightarrow> dir \<noteq> [] \<and> name \<in> dk_entries (fs_directories fs4 (absolute fs4 dir))"
    proof -
      have "only_in fs3 dir fs4 \<and> files_in fs4 dir = files_in fs3 dir \<and>
        (synced \<and> ok \<longrightarrow> dir \<noteq> [] \<and> name \<in> dk_entries (fs_directories fs4 (absolute fs4 dir)))"
      proof (cases "directory_exists fs3 dir")
        case False
        with s show ?thesis by (simp add: fs_sync_directory_def only_in_refl)
      next
        case True
        with s have "in_directory fs3 dir directory_sync = (fs4, synced)" by (simp add: fs_sync_directory_def)
        from in_directory_effect [OF this] directory_sync_effect [OF f3] True f3 only_inD [of fs3 dir fs4] show ?thesis
          by (fastforce simp: directory_exists_def)
      qed
      then show "only_in fs3 dir fs4" "files_in fs4 dir = files_in fs3 dir"
        "synced \<Longrightarrow> ok \<Longrightarrow> dir \<noteq> [] \<and> name \<in> dk_entries (fs_directories fs4 (absolute fs4 dir))" by auto
    qed
    have res: "(fs', r) = (if \<not> ok then (fs3, Err BeforePublication) else if \<not> gone then (fs3, Err Published)
        else (fs4, if synced then Ok () else Err Published))"
      using run x False name parent p g s by (cases ok; cases gone) (auto simp: persist_snapshot_new_def Let_def)
    have o3: "only_in fs dir fs3" by (rule only_in_trans [OF only_in_trans [OF x1(1) f(1)] u(1)])
    have o4: "only_in fs dir fs4" by (rule only_in_trans [OF o3 s4(1)])
    show ?thesis using res f3 s4(2,3) o3 o4 f(3) name same by (auto split: if_splits)
  qed
qed

section \<open>Property\<close>

text \<open>
  C39: a snapshot appears at its destination complete or not at all. Take a path that ends in a name, in a directory
  that exists. Whatever the operating system answers and whenever the machine stops, the destination, if it was
  free, is absent or holds exactly the snapshot; a destination that is taken by a file or a directory, or whose name is
  not UTF-8, is left alone; success means that the file survives a stop, and the two errors say correctly whether it was
  published. No other entry but the temporary one changes, in any directory. For a relative path of one component the parent is the empty path,
  which cannot be opened: success is never reported.
\<close>
theorem snapshot_publication_atomic:
  assumes "files_in fs dir = Some files" and "persist_snapshot_new pid counter fs (dir @ [Normal name]) bytes = (fs', r)"
  shows "\<exists>files'. files_in fs' dir = Some files' \<and>
    (if files name \<noteq> None \<or> directory_exists fs (dir @ [Normal name]) \<or> to_str name = None
     then files' name = files name \<and> r = Err BeforePublication
     else files' name = (if r = Err BeforePublication then None else Some (synced_file bytes)) \<and>
       (\<forall>x. crashed_entry (fs_directories fs' (absolute fs' dir)) files' name x \<longrightarrow>
         (case x of None \<Rightarrow> r \<noteq> Ok () | Some f \<Rightarrow> df_contents f = bytes))) \<and>
    (\<forall>other. other \<noteq> name \<and> other \<noteq> temporary_name name pid counter \<longrightarrow> files' other = files other) \<and>
    (\<forall>p. p \<noteq> absolute fs dir \<longrightarrow> fs_directories fs' p = fs_directories fs p) \<and>
    (dir = [] \<longrightarrow> r \<noteq> Ok ())"
proof -
  from persist_effect [OF assms] obtain f where
    o: "only_in fs dir fs'" and
    f: "files_in fs' dir = Some (files(temporary_name name pid counter := f,
        name := (if r = Err BeforePublication then files name else Some (synced_file bytes))))"
      "r \<noteq> Err BeforePublication \<longrightarrow> files name = None \<and> \<not> directory_exists fs (dir @ [Normal name]) \<and> to_str name = Some name"
      "r = Ok () \<longrightarrow> dir \<noteq> [] \<and> name \<in> dk_entries (fs_directories fs' (absolute fs' dir))" by blast
  show ?thesis
  proof (intro exI [of _ "files(temporary_name name pid counter := f, name := (if r = Err BeforePublication then files name else Some (synced_file bytes)))"] conjI)
    show "\<forall>p. p \<noteq> absolute fs dir \<longrightarrow> fs_directories fs' p = fs_directories fs p" using o by (simp add: only_in_def)
  qed (use f in \<open>auto simp: crashed_entry_def split: option.splits if_splits\<close>)
qed

theorem snapshot_publication_atomic_witness:
  "\<exists>fs' fs2. persist_snapshot_new 7 0 \<lparr>fs_current = [RootDir], fs_directories = (\<lambda>_. \<lparr>dk_files = None, dk_entries = {}, dk_linked = True, dk_answers = []\<rparr>)
        ([RootDir, Normal ''var''] := \<lparr>dk_files = Some Map.empty, dk_entries = {}, dk_linked = True, dk_answers = [IoCount 1, IoCount 0, IoInterrupted, IoCount 1]\<rparr>)\<rparr>
       [Normal ''var'', Normal ''s.bin''] [1, 2, 3] = (fs', Ok ()) \<and>
     (\<exists>files'. files_in fs' [Normal ''var''] = Some files' \<and> files' ''s.bin'' = Some (synced_file [1, 2, 3])) \<and>
     persist_snapshot_new 7 0 \<lparr>fs_current = [RootDir], fs_directories = (\<lambda>_. \<lparr>dk_files = Some Map.empty, dk_entries = {}, dk_linked = True, dk_answers = []\<rparr>)
        ([RootDir, Normal ''s.bin''] := \<lparr>dk_files = None, dk_entries = {}, dk_linked = True, dk_answers = []\<rparr>,
         [RootDir, Normal ''.s.bin.tmp-7-0''] := \<lparr>dk_files = None, dk_entries = {}, dk_linked = True, dk_answers = []\<rparr>)\<rparr>
       [Normal ''s.bin''] [1, 2, 3] = (fs2, Err Published)"
proof -
  let ?none = "\<lparr>dk_files = None, dk_entries = {}, dk_linked = True, dk_answers = []\<rparr> :: Disk"
  let ?d = "\<lparr>dk_files = Some Map.empty, dk_entries = {}, dk_linked = True, dk_answers = [IoCount 1, IoCount 0, IoInterrupted, IoCount 1]\<rparr> :: Disk"
  let ?fs = "\<lparr>fs_current = [RootDir], fs_directories = (\<lambda>_. ?none)([RootDir, Normal ''var''] := ?d)\<rparr>"
  let ?g = "\<lparr>fs_current = [RootDir], fs_directories = (\<lambda>_. \<lparr>dk_files = Some Map.empty, dk_entries = {}, dk_linked = True, dk_answers = []\<rparr>)
        ([RootDir, Normal ''s.bin''] := ?none, [RootDir, Normal ''.s.bin.tmp-7-0''] := ?none)\<rparr>"
  note eval = persist_snapshot_new_def path_exists_def fs_create_synced_def hard_link_def remove_file_def fs_sync_directory_def on_name_def in_directory_def
    path_file_name_def path_parent_def path_join_def to_str_def directory_exists_def absolute_def file_at_def link_file_def unlink_file_def
    create_synced_def directory_sync_def disk_answer_def Let_def
  have tmp: "temporary_name ''s.bin'' 7 0 = ''.s.bin.tmp-7-0''" 
    by (simp add: temporary_name_def decimal.simps) code_simp
  obtain fs' r where p: "persist_snapshot_new 7 0 ?fs ([Normal ''var''] @ [Normal ''s.bin'']) [1, 2, 3] = (fs', r)"
    by (cases "persist_snapshot_new 7 0 ?fs ([Normal ''var''] @ [Normal ''s.bin'']) [1, 2, 3]")
  have ok: "r = Ok ()" using p tmp by (auto simp: eval)
  have "files_in ?fs [Normal ''var''] = Some Map.empty" by (simp add: absolute_def)
  from snapshot_publication_atomic [OF this p] ok have "\<exists>files'. files_in fs' [Normal ''var''] = Some files' \<and> files' ''s.bin'' = Some (synced_file [1, 2, 3])"
    by (auto split: if_splits)
  moreover have "\<exists>fs2. persist_snapshot_new 7 0 ?g [Normal ''s.bin''] [1, 2, 3] = (fs2, Err Published)" using tmp by (simp add: eval)
  ultimately show ?thesis using p ok by auto
qed

end
