(* ===== verification/Spec2Isabelle.thy ===== *)
theory Spec2Isabelle
  imports Wire RiskProps BookProps StateProps Recovery SessionProps RingThreads EventsProps RouterProps JournalProps Differential EngineSession Bundle SnapshotPersist
begin

text \<open>
  A verification development for deterministic-exchange-rs, a deterministic matching exchange written
  in Rust. Paths below are relative to \<^verbatim>\<open>src/crates\<close>.

  \<^bold>\<open>The program.\<close> One matching shard serves one instrument. A frame from the network is parsed
  (\<^verbatim>\<open>hft-wire\<close>) into a command of \<^verbatim>\<open>hft-types\<close>; the session layer (\<^verbatim>\<open>hft-session\<close>) tracks the
  connection and its sequence numbers; the router (\<^verbatim>\<open>hft-router\<close>) puts commands on the queue of their
  instrument's shard, a single-producer single-consumer ring (\<^verbatim>\<open>hft-spsc\<close>); the shard's event engine
  (\<^verbatim>\<open>hft-events\<close>) runs the gateway (\<^verbatim>\<open>hft-gateway\<close>) and publishes one batch of events per command on
  another ring. The gateway reserves exposure in the risk engine (\<^verbatim>\<open>hft-risk\<close>), matches in the order book
  (\<^verbatim>\<open>hft-book\<close>), and books the fills back into the risk engine. Accepted commands are journalled
  (\<^verbatim>\<open>hft-journal\<close>) by a worker that appends checksummed records to a file. The engine (\<^verbatim>\<open>hft-engine\<close>) puts these
  together: it journals a command before it applies it, and serves one instrument, several behind a route
  table, or these behind a session.

  \<^bold>\<open>Conventions.\<close> Every Rust \<^verbatim>\<open>Result\<close> is the datatype \<open>result\<close> of theory \<open>Prelude\<close> and every error enum
  is a datatype with the source's constructors. A call that can panic (\<^verbatim>\<open>expect\<close>, an index out of
  range, an arithmetic overflow) or not return has an option type, and \<open>None\<close> stands for that; theorems
  that such a call returns are stated as such. Unsigned integers are naturals with their bound written
  in the operations that check or wrap it, signed ones are integers, and bytes, cursors and digests are
  words. A method on \<^verbatim>\<open>&mut self\<close> returns the updated record. Const generics are fields or arguments. Array
  lookups are total in HOL, so the models return \<open>None\<close> where the source would go out of bounds.

  \<^bold>\<open>Theories and sources.\<close>
  \<^item> \<open>Prelude\<close>: \<open>result\<close>, checked and wrapping arithmetic, big-endian bytes, lemmas on lists and maps,
    the collections of simplification rules.
  \<^item> \<open>Types\<close> (\<^verbatim>\<open>hft-types\<close>): identifiers, commands, reports, the fixed-capacity report buffer.
  \<^item> \<open>Wire\<close> (\<^verbatim>\<open>hft-wire\<close>): encoders and parser. Encoding and parsing invert each other in both directions.
  \<^item> \<open>ProbeIndex\<close>, \<open>Risk\<close>, \<open>RiskInv\<close>, \<open>RiskSpec\<close>, \<open>RiskProps\<close> (\<^verbatim>\<open>hft-risk\<close>): the open-addressing index with
    back-shift deletion, the accounts and reservations, the invariant that cached exposure equals the
    sum over live reservations, and an abstract specification over maps. Every operation refines it and
    no reachable engine exceeds a position or open-order limit.
  \<^item> \<open>PriceLevel\<close>, \<open>LevelIndex\<close>, \<open>OrderIndex\<close>, \<open>Book\<close> (\<^verbatim>\<open>hft-book\<close>): the slots of a level with their FIFO queue
    and free list, the sorted array of prices, the packed location index, and the book's operations;
    \<open>BookIndex\<close>, \<open>BookInv\<close>, \<open>BookOps\<close>, \<open>BookLists\<close>: the representation invariant and the view of a side as one
    list in priority order; \<open>BookSpec\<close>: price-time priority over such lists; \<open>BookMatch\<close>, \<open>BookSubmit\<close>,
    \<open>BookAmend\<close>, \<open>BookProps\<close>: submission, cancel and replace refine it, with conservation of quantity, the
    promises of each time in force, and safety of every reachable book.
  \<^item> \<open>RiskState\<close>, \<open>BookState\<close>, \<open>BookRestore\<close>, \<open>StateProps\<close>: the logical states of risk engine and book that snapshots
    carry (\<^verbatim>\<open>export_state\<close>, \<^verbatim>\<open>from_state\<close>, validation, the digest of the book). Restoring accepts exactly the
    consistent states and is undone by exporting.
  \<^item> \<open>Gateway\<close>, \<open>GatewayInv\<close>, \<open>GatewayOps\<close>, \<open>GatewayProps\<close> (\<^verbatim>\<open>hft-gateway\<close>): the composition. Coherence (the
    reservations are exactly the resting orders) is kept, so no command panics or fails internally,
    rejections are atomic and positions sum to zero.
  \<^item> \<open>RiskEquiv\<close>, \<open>GatewayState\<close>, \<open>GatewayRestore\<close>, \<open>GatewayEquiv\<close>, \<open>Lockstep\<close>, \<open>GatewaySnapshot\<close>: the gateway's logical state.
    What \<^verbatim>\<open>from_state\<close> accepts satisfies the whole invariant; gateways with the same exported state answer alike
    (locale \<open>resumable\<close>, interpreted on the gateway's commands), so a restored gateway continues as the
    original. A replace can leave the limits that restoring checks; that is proved for every such replace.
  \<^item> \<open>SnapshotFormat\<close>, \<open>SnapshotCodec\<close>, \<open>SnapshotProps\<close> (\<^verbatim>\<open>hft-recovery\<close>): the snapshot container and its payload.
    Readers and encoders of every field satisfy the law of locale \<open>codec\<close>, which is closed under
    sequencing, repetition and renaming; so the payload codec accepts exactly the encodings of well-typed
    states, snapshots round trip, and an accepted snapshot is the encoding of the gateway it restores.
  \<^item> \<open>Recovery\<close> (\<^verbatim>\<open>hft-recovery\<close>, \<^verbatim>\<open>hft-replay\<close>): recovery from a snapshot and the journal tail reaches the state of
    the uninterrupted run and accepts nothing but journals; replay of frames follows that run.
  \<^item> \<open>Session\<close>, \<open>SessionProps\<close> (\<^verbatim>\<open>hft-session\<close>): the connection state machine with virtual-time deadlines and
    the retransmission window.
  \<^item> \<open>Ring\<close>, \<open>RingProps\<close>, \<open>RingThreads\<close> (\<^verbatim>\<open>hft-spsc\<close>): the ring with wrapping cursors; sequentially it is a
    bounded queue (locale \<open>bounded_fifo\<close>, interpreted on its operations), and as two interleaved threads
    whose acquire loads return any stored cursor not older than the last one seen no slot access breaks its contract.
  \<^item> \<open>Events\<close>, \<open>EventsProps\<close> (\<^verbatim>\<open>hft-events\<close>): admission, processing and publication.
  \<^item> \<open>Router\<close>, \<open>RouterProps\<close> (\<^verbatim>\<open>hft-router\<close>): route table, command queues, and the shard with its retained
    command.
  \<^item> \<open>Journal\<close>, \<open>JournalProps\<close> (\<^verbatim>\<open>hft-journal\<close>): records, watermarks, the persistence worker, the recovery scan.
  \<^item> \<open>EngineConfig\<close>, \<open>Engine\<close>, \<open>EngineProps\<close>, \<open>EngineSession\<close> (\<^verbatim>\<open>hft-engine\<close>): the configuration sidecar, whose decoder accepts
    exactly the encodings; the engine with its builder, routes and session. \<open>engine_steps\<close> is every interleaving of
    the phases of the engine's calls with the persistence worker and the event consumer, under arbitrary answers of the
    operating system, and \<open>engine_trace\<close> has its states between calls; the invariant says that the gateway is the run of
    the acknowledged commands and the journal has their records, and one more while a call is between its enqueue and its
    application, so recovery after a crash at any moment loses nothing durable. Session, route and engine admit together.
  \<^item> \<open>Disk\<close>, \<open>Bundle\<close> (\<^verbatim>\<open>hft-engine\<close>, \<^verbatim>\<open>operations.rs\<close>), \<open>SnapshotPersist\<close> (\<^verbatim>\<open>hft-recovery\<close>): a directory with synced prefixes of
    its files and durable entries, and what a stop of the machine may leave of it; publication of recovery bundles
    and of snapshots, the latter on paths in a file system of directories, which is all or nothing under any failure and any stop.
  \<^item> \<open>CommandGen\<close> (\<^verbatim>\<open>hft-model\<close>): the random command generator of the property tests, with the bounds of its commands.
  \<^item> \<open>ModelBook\<close>, \<open>ModelBookMatch\<close>, \<open>ModelBookProps\<close> (\<^verbatim>\<open>hft-model\<close>): the reference book, vectors of levels in no
    order. A vector mirrors a side when its queue at every price is what the side holds there; every
    operation keeps this relation to the specification of \<open>BookSpec\<close>, with the same answers.
  \<^item> \<open>BookCheck\<close>, \<open>Differential\<close> (tests of \<^verbatim>\<open>hft-book\<close>): the consistency check of the book's chains, counters and index, which
    every book that satisfies the invariant passes, and the test that runs it and compares the two books on generated
    commands; it passes for every seed and number of steps and every configuration with positive prices.

  \<^bold>\<open>Bounds and fuel.\<close> Structural recursion or a termination proof wherever the loop visibly ends. The
  walk along a level's queue in \<open>build_plan\<close> takes fuel, one more than the slots of the level, which the
  invariant of \<open>PriceLevel\<close> shows to be enough. The drain loop of the journal worker is a
  \<^theory_text>\<open>partial_function\<close> and is shown to return.

  \<^bold>\<open>Parameters.\<close> The CRC32C of a journal record and the SHA-256 of a snapshot (third-party crates) are
  arguments, the latter with its documented length of 32 bytes as a hypothesis; the answers of the operating system to writes and syncs are
  arbitrary finite lists, after which calls succeed, so a call that is interrupted forever is not among the runs.

  \<^bold>\<open>Not modelled.\<close> The model of the gateway in \<^verbatim>\<open>hft-model\<close> (\<^verbatim>\<open>ModelEngine\<close>). UDP adapters, command
  line, C bindings, benchmarks and soak tests are I/O, marshalling or measurement around these parts.
\<close>

end
